(* ===== verification/Bzd_Prelude.thy ===== *)
theory Bzd_Prelude
  imports Main "HOL-Library.AList" "HOL-Library.Sublist" "HOL-Library.List_Lexorder"
    "HOL-Library.Char_ord"
begin

text \<open>
  What the components share: the errors a JavaScript function of the repository raises, the
  array and string operations of the language that the sources call (\<open>findIndex\<close>,
  \<open>findLastIndex\<close>, \<open>splice\<close>, \<open>slice\<close>, \<open>split\<close>, \<open>join\<close>), insertion-ordered maps (a
  JavaScript \<open>Map\<close> or plain object is an association list, \<open>set\<close> is \<open>AList.update\<close>, which
  updates in place or appends, and \<open>delete\<close> is \<open>AList.delete\<close>), and the lemma collections the
  component theories extend.

  Numbers: the sources compute with whole milliseconds, sizes, ticks and counters, which are
  \<open>int\<close> here (JavaScript numbers are exact on integers below \<open>2^53\<close>). Plain objects used as
  dictionaries have the keys that were stored in them, not those of \<open>Object.prototype\<close>.
\<close>

section \<open>Lemma collections\<close>

named_theorems js_simps \<open>evaluation rules for the JavaScript library functions\<close>
named_theorems inv_intros \<open>invariant preservation, one rule per operation\<close>

section \<open>Errors\<close>

text \<open>
  The ways the sources fail: \<open>Exception.assert\<close>, \<open>Exception.assertPrecondition\<close>,
  \<open>Exception.unreachable\<close>, a \<open>TypeError\<close> of the language, and a value thrown by user code.
\<close>

datatype exn =
    AssertFailed
  | PreconditionFailed
  | Unreachable
  | TypeErr
  | Raised string

type_synonym 'a outcome = "exn + 'a"

definition outcome_bind :: "'a outcome \<Rightarrow> ('a \<Rightarrow> 'b outcome) \<Rightarrow> 'b outcome" where
  "outcome_bind r f = (case r of Inl e \<Rightarrow> Inl e | Inr x \<Rightarrow> f x)"

definition is_ok :: "'a outcome \<Rightarrow> bool" where
  "is_ok r = (case r of Inl _ \<Rightarrow> False | Inr _ \<Rightarrow> True)"

lemma outcome_bind_simps [simp, js_simps]:
  "outcome_bind (Inl e) f = Inl e"
  "outcome_bind (Inr x) f = f x"
  by (simp_all add: outcome_bind_def)

lemma outcome_bind_eq_Inr:
  "outcome_bind r f = Inr y \<longleftrightarrow> (\<exists>x. r = Inr x \<and> f x = Inr y)"
  by (cases r) auto

lemma outcome_bind_eq_Inl:
  "outcome_bind r f = Inl e \<longleftrightarrow> r = Inl e \<or> (\<exists>x. r = Inr x \<and> f x = Inl e)"
  by (cases r) auto

lemma is_ok_simps [simp, js_simps]: "is_ok (Inr x)" "\<not> is_ok (Inl e)"
  by (simp_all add: is_ok_def)

text \<open>Mapping a function that may throw over an array stops at the first error.\<close>

fun outcome_map :: "('a \<Rightarrow> 'b outcome) \<Rightarrow> 'a list \<Rightarrow> 'b list outcome" where
  "outcome_map f [] = Inr []"
| "outcome_map f (x # xs) =
     outcome_bind (f x) (\<lambda>y. outcome_bind (outcome_map f xs) (\<lambda>ys. Inr (y # ys)))"

lemma outcome_map_pure [simp]: "outcome_map (\<lambda>x. Inr (g x)) xs = Inr (map g xs)"
  by (induction xs) auto

lemma outcome_map_Inr: "(\<And>x. x \<in> set xs \<Longrightarrow> f x = Inr (g x)) \<Longrightarrow> outcome_map f xs = Inr (map g xs)"
  by (induction xs) auto

lemma outcome_map_eq_Inr: "outcome_map f xs = Inr ys \<longleftrightarrow> list_all2 (\<lambda>x y. f x = Inr y) xs ys"
proof (induction xs arbitrary: ys)
  case (Cons x xs)
  show ?case by (cases ys) (auto simp: outcome_bind_eq_Inr Cons.IH)
qed auto

section \<open>Arrays\<close>

text \<open>\<open>findIndex\<close> and \<open>findLastIndex\<close> return \<open>-1\<close> where nothing matches.\<close>

fun find_index :: "('a \<Rightarrow> bool) \<Rightarrow> 'a list \<Rightarrow> int" where
  "find_index p [] = -1"
| "find_index p (x # xs) =
     (if p x then 0 else if find_index p xs = -1 then -1 else find_index p xs + 1)"

definition find_last_index :: "('a \<Rightarrow> bool) \<Rightarrow> 'a list \<Rightarrow> int" where
  "find_last_index p xs =
     (if find_index p (rev xs) = -1 then -1
      else int (length xs) - 1 - find_index p (rev xs))"

lemma find_index_ge: "-1 \<le> find_index p xs"
  by (induction xs) auto

lemma find_index_none: "find_index p xs = -1 \<longleftrightarrow> (\<forall>x\<in>set xs. \<not> p x)"
proof (induction xs)
  case (Cons x xs)
  have "find_index p xs + 1 \<noteq> -1" using find_index_ge [of p xs] by linarith
  with Cons show ?case by simp
qed simp

lemma find_index_less: "find_index p xs < int (length xs)"
  by (induction xs) auto

lemma find_index_append:
  "find_index p (xs @ ys) =
     (if find_index p xs \<noteq> -1 then find_index p xs
      else if find_index p ys = -1 then -1 else int (length xs) + find_index p ys)"
proof (induction xs)
  case (Cons x xs)
  show ?case using Cons find_index_ge [of p xs] find_index_ge [of p ys] by auto
qed simp

lemma find_last_index_Nil [simp]: "find_last_index p [] = -1"
  by (simp add: find_last_index_def)

lemma find_last_index_snoc [simp]:
  "find_last_index p (xs @ [x]) = (if p x then int (length xs) else find_last_index p xs)"
  using find_index_ge [of p "rev xs"] by (auto simp: find_last_index_def)

lemma find_last_index_none: "find_last_index p xs = -1 \<longleftrightarrow> (\<forall>x\<in>set xs. \<not> p x)"
  by (induction xs rule: rev_induct) auto

lemma find_last_index_bounds: "-1 \<le> find_last_index p xs \<and> find_last_index p xs < int (length xs)"
  by (induction xs rule: rev_induct) auto

text \<open>
  On an array whose matching elements come first, \<open>findLastIndex\<close> is the length of the
  matching prefix less one; where they come last, \<open>findIndex\<close> is where the suffix starts.
\<close>

lemma find_last_index_prefix:
  assumes "\<forall>x\<in>set xs. p x" and "\<forall>y\<in>set ys. \<not> p y"
  shows "find_last_index p (xs @ ys) = int (length xs) - 1"
  using assms
proof (induction ys rule: rev_induct)
  case Nil
  then show ?case by (cases xs rule: rev_cases) auto
next
  case (snoc y ys)
  have "find_last_index p ((xs @ ys) @ [y]) = find_last_index p (xs @ ys)"
    by (subst find_last_index_snoc) (use snoc.prems in simp)
  with snoc show ?case by simp
qed

lemma find_index_suffix:
  assumes "\<forall>x\<in>set xs. \<not> p x" and "\<forall>y\<in>set ys. p y"
  shows "find_index p (xs @ ys) = (if ys = [] then -1 else int (length xs))"
proof -
  have "find_index p xs = -1" using assms(1) by (simp add: find_index_none)
  moreover have "ys \<noteq> [] \<Longrightarrow> find_index p ys = 0"
    using assms(2) by (cases ys) auto
  ultimately show ?thesis by (simp add: find_index_append)
qed

text \<open>\<open>splice(i, 0, x)\<close>, \<open>splice(i, 1)\<close> and \<open>slice(i, j)\<close> at non-negative indices.\<close>

definition splice_insert :: "nat \<Rightarrow> 'a \<Rightarrow> 'a list \<Rightarrow> 'a list" where
  "splice_insert i x xs = take i xs @ x # drop i xs"

definition splice_remove :: "nat \<Rightarrow> 'a list \<Rightarrow> 'a list" where
  "splice_remove i xs = take i xs @ drop (Suc i) xs"

definition slice :: "nat \<Rightarrow> nat \<Rightarrow> 'a list \<Rightarrow> 'a list" where
  "slice i j xs = take (j - i) (drop i xs)"

lemma set_splice_insert [simp]: "set (splice_insert i x xs) = insert x (set xs)"
  by (metis append_take_drop_id insert_is_Un list.simps(15) set_append splice_insert_def
      sup_left_commute)

lemma length_splice_insert [simp]: "length (splice_insert i x xs) = Suc (length xs)"
  by (simp add: splice_insert_def)

lemma splice_remove_append [simp]: "splice_remove (length xs) (xs @ y # ys) = xs @ ys"
  by (simp add: splice_remove_def)

text \<open>Statements about a prefix or a suffix, by index.\<close>

lemma ball_take_nth: "n \<le> length d \<Longrightarrow> (\<forall>x\<in>set (take n d). P x) \<longleftrightarrow> (\<forall>j<n. P (d ! j))"
  by (auto simp: all_set_conv_all_nth)

lemma ball_drop_nth:
  "(\<forall>x\<in>set (drop n d). P x) \<longleftrightarrow> (\<forall>j. n \<le> j \<and> j < length d \<longrightarrow> P (d ! j))"
proof (intro iffI allI impI)
  fix j assume all: "\<forall>x\<in>set (drop n d). P x" and j: "n \<le> j \<and> j < length d"
  then have "drop n d ! (j - n) = d ! j" "j - n < length (drop n d)" by auto
  then have "d ! j \<in> set (drop n d)" by (metis nth_mem)
  with all show "P (d ! j)" by blast
next
  assume "\<forall>j. n \<le> j \<and> j < length d \<longrightarrow> P (d ! j)"
  then show "\<forall>x\<in>set (drop n d). P x" by (auto simp: all_set_conv_all_nth)
qed

lemma filter_split:
  "(\<And>x. x \<in> set xs \<Longrightarrow> \<not> P x) \<Longrightarrow> (\<And>y. y \<in> set ys \<Longrightarrow> P y) \<Longrightarrow> filter P (xs @ ys) = ys"
  by (simp add: filter_empty_conv filter_id_conv)

section \<open>Insertion-ordered maps\<close>

text \<open>An association list with one entry per key, as a \<open>Map\<close> or an object has.\<close>

abbreviation wf_map :: "('k \<times> 'v) list \<Rightarrow> bool" where
  "wf_map m \<equiv> distinct (map fst m)"

lemma wf_map_update [simp, inv_intros]: "wf_map m \<Longrightarrow> wf_map (AList.update k v m)"
  by (rule distinct_update)

lemma wf_map_delete [simp, inv_intros]: "wf_map m \<Longrightarrow> wf_map (AList.delete k m)"
  by (rule distinct_delete)

lemma map_of_update [simp]: "map_of (AList.update k v m) = (map_of m)(k \<mapsto> v)"
  by (rule update_conv')

lemma map_of_delete [simp]: "map_of (AList.delete k m) = (map_of m)(k := None)"
  by (rule delete_conv')

lemma keys_delete: "fst ` set (AList.delete k m) = fst ` set m - {k}"
  by (induction m) auto

lemma update_fresh: "k \<notin> fst ` set m \<Longrightarrow> AList.update k v m = m @ [(k, v)]"
  by (induction m) auto

lemma delete_fresh: "k \<notin> fst ` set m \<Longrightarrow> AList.delete k m = m"
  by (induction m) auto

lemma delete_append: "AList.delete k (xs @ ys) = AList.delete k xs @ AList.delete k ys"
  by (induction xs) auto

lemma delete_mid:
  "wf_map (xs @ (k, v) # ys) \<Longrightarrow> AList.delete k (xs @ (k, v) # ys) = xs @ ys"
  by (auto simp: delete_append delete_fresh)

lemma set_update_subset: "set (AList.update k v m) \<subseteq> insert (k, v) (set m)"
  by (induction m) auto

lemma map_of_None_iff: "map_of m k = None \<longleftrightarrow> k \<notin> fst ` set m"
  by (rule map_of_eq_None_iff)

lemma map_of_insert_mid:
  "k \<notin> fst ` set xs \<Longrightarrow> map_of (xs @ (k, v) # ys) = (map_of (xs @ ys))(k \<mapsto> v)"
  by (induction xs) (auto simp del: map_of_append)

lemma map_of_list_update:
  assumes "distinct (map fst d)" and "i < length d" and "fst (d ! i) = k"
  shows "map_of (d[i := (k, v)]) = (map_of d)(k \<mapsto> v)"
proof -
  let ?pre = "take i d" and ?post = "drop (Suc i) d"
  obtain b where split: "d = ?pre @ (k, b) # ?post"
    using id_take_nth_drop [OF assms(2)] assms(3) by (metis prod.collapse)
  have fresh: "k \<notin> fst ` set ?pre"
    using assms(1) by (subst (asm) split) (auto simp del: append_take_drop_id)
  have "map_of (d[i := (k, v)]) = (map_of (?pre @ ?post))(k \<mapsto> v)"
    using upd_conv_take_nth_drop [OF assms(2)] map_of_insert_mid [OF fresh] by metis
  moreover have "map_of d = (map_of (?pre @ ?post))(k \<mapsto> b)"
    using split map_of_insert_mid [OF fresh] by metis
  ultimately show ?thesis by simp
qed

text \<open>The total of a measure over the entries, and how the two operations change it.\<close>

definition map_total :: "('v \<Rightarrow> int) \<Rightarrow> ('k \<times> 'v) list \<Rightarrow> int" where
  "map_total f m = sum_list (map (\<lambda>(k, v). f v) m)"

definition at_key :: "('v \<Rightarrow> int) \<Rightarrow> ('k \<times> 'v) list \<Rightarrow> 'k \<Rightarrow> int" where
  "at_key f m k = (case map_of m k of None \<Rightarrow> 0 | Some v \<Rightarrow> f v)"

lemma map_total_Nil [simp]: "map_total f [] = 0"
  by (simp add: map_total_def)

lemma map_total_Cons [simp]: "map_total f ((k, v) # m) = f v + map_total f m"
  by (simp add: map_total_def)

lemma map_total_append [simp]: "map_total f (m @ n) = map_total f m + map_total f n"
  by (simp add: map_total_def)

lemma at_key_Nil [simp]: "at_key f [] k = 0"
  by (simp add: at_key_def)

lemma at_key_Cons [simp]: "at_key f ((a, b) # m) k = (if a = k then f b else at_key f m k)"
  by (simp add: at_key_def)

lemma at_key_fresh: "k \<notin> fst ` set m \<Longrightarrow> at_key f m k = 0"
  by (simp add: at_key_def map_of_eq_None_iff [THEN iffD2])

lemma map_total_delete:
  "wf_map m \<Longrightarrow> map_total f (AList.delete k m) = map_total f m - at_key f m k"
  by (induction m) (auto simp: delete_fresh at_key_fresh)

lemma map_total_update:
  "wf_map m \<Longrightarrow> map_total f (AList.update k v m) = map_total f m - at_key f m k + f v"
  by (induction m) auto

lemma map_total_nonneg: "(\<forall>(k, v)\<in>set m. 0 \<le> f v) \<Longrightarrow> 0 \<le> map_total f m"
  by (induction m) auto

section \<open>Strings\<close>

text \<open>\<open>s.split(c)\<close> for a one-character separator, and \<open>parts.join(c)\<close>.\<close>

fun split_on :: "char \<Rightarrow> string \<Rightarrow> string list" where
  "split_on c [] = [[]]"
| "split_on c (x # xs) =
     (if x = c then [] # split_on c xs
      else case split_on c xs of [] \<Rightarrow> [[x]] | p # ps \<Rightarrow> (x # p) # ps)"

fun join_with :: "string \<Rightarrow> string list \<Rightarrow> string" where
  "join_with sep [] = []"
| "join_with sep [p] = p"
| "join_with sep (p # q # ps) = p @ sep @ join_with sep (q # ps)"

lemma split_on_nonempty [simp]: "split_on c s \<noteq> []"
  by (induction s) (auto split: list.splits)

lemma split_on_no_sep: "c \<notin> set p \<Longrightarrow> split_on c p = [p]"
  by (induction p) auto

lemma split_on_append_sep:
  "c \<notin> set p \<Longrightarrow> split_on c (p @ c # s) = p # split_on c s"
  by (induction p) auto

lemma split_on_join:
  "ps \<noteq> [] \<Longrightarrow> \<forall>p\<in>set ps. c \<notin> set p \<Longrightarrow> split_on c (join_with [c] ps) = ps"
  by (induction "[c]" ps rule: join_with.induct) (auto simp: split_on_no_sep split_on_append_sep)

lemma join_split_on: "join_with [c] (split_on c s) = s"
proof (induction s)
  case (Cons x xs)
  obtain p ps where ps: "split_on c xs = p # ps" by (cases "split_on c xs") auto
  with Cons show ?case by (cases ps) auto
qed simp

lemma split_on_pieces: "p \<in> set (split_on c s) \<Longrightarrow> c \<notin> set p"
proof (induction s arbitrary: p)
  case (Cons x xs)
  then show ?case by (cases "split_on c xs") (auto split: if_splits)
qed simp

end
