(* ===== verification/Cache2.thy ===== *)
theory Cache2
  imports Bzd_Prelude
begin

text \<open>
  \<open>nodejs/core/cache2.js\<close>: the cache of collections of entries with a timeout and a size, its
  synchronous operations \<open>register\<close>, \<open>set\<close>, \<open>getInstant\<close>, \<open>setDirty\<close>, \<open>getSize\<close>, the garbage
  collector, and the collection accessor. The asynchronous \<open>get\<close> is in the theory
  \<open>Cache2_Get\<close>.

  A cache is the record \<open>cache2\<close>: \<open>this.data\<close> is an insertion-ordered map of collections, each
  with its own insertion-ordered map of entries (the order is the eviction order). The clock is
  the argument \<open>now\<close> of every operation that reads \<open>Date.now()\<close>. The statistics provider is the
  list of the points reported to it. The size function of a collection is a field of its record,
  as in the code.
\<close>

section \<open>State\<close>

datatype status = StatusValue | StatusError | StatusFetching

text \<open>The \<open>data\<close> of an entry: a value, a thrown error, or the list of callbacks that wait for the
  fetch in progress; that list is shared by reference, the number names it.\<close>

datatype 'v payload = Payload 'v | ResolveList nat

record 'v entry =
  e_data :: "'v payload"
  e_status :: status
  e_size :: int
  e_timeout :: int

record 'v collection =
  c_timeoutMs :: int
  c_getSize :: "'v \<Rightarrow> int"
  c_values :: "(string \<times> 'v entry) list"
  c_size :: int

record 'v cache2 =
  collections :: "(string \<times> 'v collection) list"
  total_size :: int
  max_size :: int
  def_timeoutMs :: int
  def_getSize :: "'v \<Rightarrow> int"
  trigger :: "nat option"
  stats :: "(string \<times> int) list"

text \<open>
  \<open>trigger\<close> is \<open>None\<close> while no garbage collector service is registered, otherwise \<open>Some n\<close> with
  \<open>n\<close> the number of times the collector was triggered.
\<close>

definition cache_new :: "int \<Rightarrow> int \<Rightarrow> ('v \<Rightarrow> int) \<Rightarrow> 'v cache2" where
  "cache_new timeoutMs maxSize getSize =
     \<lparr>collections = [], total_size = 0, max_size = maxSize, def_timeoutMs = timeoutMs,
      def_getSize = getSize, trigger = None, stats = []\<rparr>"

abbreviation coll_at :: "'v cache2 \<Rightarrow> string \<Rightarrow> 'v collection option" where
  "coll_at c \<equiv> map_of (collections c)"

definition put_coll :: "string \<Rightarrow> 'v collection \<Rightarrow> 'v cache2 \<Rightarrow> 'v cache2" where
  "put_coll coll d c = c\<lparr>collections := AList.update coll d (collections c)\<rparr>"

section \<open>Operations\<close>

definition cache_register :: "string \<Rightarrow> int option \<Rightarrow> ('v \<Rightarrow> int) option \<Rightarrow> 'v cache2 \<Rightarrow>
    'v cache2 outcome" where
  "cache_register coll timeoutMs getSize c =
     (if coll_at c coll \<noteq> None then Inl AssertFailed
      else Inr (put_coll coll
             \<lparr>c_timeoutMs = (case timeoutMs of None \<Rightarrow> def_timeoutMs c | Some t \<Rightarrow> t),
              c_getSize = (case getSize of None \<Rightarrow> def_getSize c | Some f \<Rightarrow> f),
              c_values = [], c_size = 0\<rparr> c))"

text \<open>\<open>data.values.get(key) ?? { size: 0 }\<close> and its size.\<close>

definition entry_size :: "'v collection \<Rightarrow> string \<Rightarrow> int" where
  "entry_size d key = at_key e_size (c_values d) key"

text \<open>The end of \<open>set\<close>: store the entry, account for the sizes, report, and trigger.\<close>

definition store_entry :: "int \<Rightarrow> string \<Rightarrow> string \<Rightarrow> 'v \<Rightarrow> status \<Rightarrow> int \<Rightarrow> int \<Rightarrow> 'v collection \<Rightarrow>
    'v cache2 \<Rightarrow> 'v cache2" where
  "store_entry now coll key v type sizeDiff0 sz d c =
     (let d1 = d\<lparr>c_values := AList.update key
                  \<lparr>e_data = Payload v, e_status = type, e_size = sz,
                   e_timeout = now + c_timeoutMs d\<rparr> (c_values d)\<rparr>;
          sizeDiff = sizeDiff0 + sz;
          d2 = d1\<lparr>c_size := c_size d1 + sizeDiff\<rparr>;
          c1 = (put_coll coll d2 c)\<lparr>total_size := total_size c + sizeDiff\<rparr>;
          c2 = c1\<lparr>stats := stats c1 @ [(''collection-'' @ coll, c_size d2),
                                        (''all'', total_size c1)]\<rparr>
      in if trigger c2 \<noteq> None \<and> total_size c2 > max_size c2
         then c2\<lparr>trigger := map_option Suc (trigger c2)\<rparr> else c2)"

text \<open>
  \<open>set(collection, key, value, type)\<close>: the new state and whether it threw. The entry is deleted
  before the type is looked at, so the state of an \<open>unreachable\<close> has lost the entry.
\<close>

definition cache_set :: "int \<Rightarrow> string \<Rightarrow> string \<Rightarrow> 'v \<Rightarrow> status \<Rightarrow> 'v cache2 \<Rightarrow>
    'v cache2 \<times> unit outcome" where
  "cache_set now coll key v type c =
     (case coll_at c coll of
        None \<Rightarrow> (c, Inl AssertFailed)
      | Some d \<Rightarrow>
          (let sizeDiff0 = - entry_size d key;
               d1 = d\<lparr>c_values := AList.delete key (c_values d)\<rparr>
           in case type of
                StatusValue \<Rightarrow> (store_entry now coll key v type sizeDiff0 (c_getSize d v) d1 c, Inr ())
              | StatusError \<Rightarrow> (store_entry now coll key v type sizeDiff0 8 d1 c, Inr ())
              | StatusFetching \<Rightarrow> (put_coll coll d1 c, Inl Unreachable)))"

text \<open>
  \<open>getInstant\<close>: the value, the default value (\<open>Miss\<close>), the stored error thrown, or the failed
  assertion on the collection. A value that is returned or not expired is moved to the end.
\<close>

datatype 'v lookup = Hit "'v payload" | Miss | Throws "'v payload" | NoCollection

definition cache_getInstant :: "int \<Rightarrow> string \<Rightarrow> string \<Rightarrow> 'v cache2 \<Rightarrow> 'v cache2 \<times> 'v lookup" where
  "cache_getInstant now coll key c =
     (case coll_at c coll of
        None \<Rightarrow> (c, NoCollection)
      | Some d \<Rightarrow>
          (case map_of (c_values d) key of
             None \<Rightarrow> (c, Miss)
           | Some entry \<Rightarrow>
               if e_timeout entry < now then (c, Miss)
               else if e_status entry = StatusError then (c, Throws (e_data entry))
               else (put_coll coll
                       (d\<lparr>c_values := AList.update key entry (AList.delete key (c_values d))\<rparr>) c,
                     Hit (e_data entry))))"

definition cache_setDirty :: "string \<Rightarrow> string \<Rightarrow> 'v cache2 \<Rightarrow> 'v cache2 \<times> unit outcome" where
  "cache_setDirty coll key c =
     (case coll_at c coll of
        None \<Rightarrow> (c, Inl AssertFailed)
      | Some d \<Rightarrow>
          (case map_of (c_values d) key of
             None \<Rightarrow> (c, Inr ())
           | Some entry \<Rightarrow>
               (put_coll coll (d\<lparr>c_values :=
                   AList.update key (entry\<lparr>e_timeout := -1\<rparr>) (c_values d)\<rparr>) c, Inr ())))"

definition cache_getSize :: "string option \<Rightarrow> 'v cache2 \<Rightarrow> int outcome" where
  "cache_getSize collection c =
     (case collection of
        None \<Rightarrow> Inr (total_size c)
      | Some coll \<Rightarrow>
          (case coll_at c coll of None \<Rightarrow> Inl AssertFailed | Some d \<Rightarrow> Inr (c_size d)))"

section \<open>Garbage collection\<close>

text \<open>One collection and the counters \<open>this.size\<close>, \<open>evictedCount\<close>, \<open>evictedSize\<close>.\<close>

type_synonym 'v gc_state = "'v collection \<times> int \<times> int \<times> int"

definition is_expired :: "int \<Rightarrow> 'v entry \<Rightarrow> bool" where
  "is_expired now entry = (e_timeout entry > 0 \<and> e_timeout entry < now)"

definition gc_evict :: "string \<Rightarrow> 'v entry \<Rightarrow> 'v gc_state \<Rightarrow> 'v gc_state" where
  "gc_evict key entry st =
     (case st of (d, sz, evictedCount, evictedSize) \<Rightarrow>
        (d\<lparr>c_size := c_size d - e_size entry, c_values := AList.delete key (c_values d)\<rparr>,
         sz - e_size entry, evictedCount + 1, evictedSize + e_size entry))"

text \<open>The loop over the entries, which removes the expired ones.\<close>

fun gc_expired :: "int \<Rightarrow> (string \<times> 'v entry) list \<Rightarrow> 'v gc_state \<Rightarrow> 'v gc_state" where
  "gc_expired now [] st = st"
| "gc_expired now ((key, entry) # rest) st =
     gc_expired now rest (if is_expired now entry then gc_evict key entry st else st)"

text \<open>The loop that removes the oldest entry while the cache is too large.\<close>

function gc_oldest :: "int \<Rightarrow> 'v gc_state \<Rightarrow> 'v gc_state" where
  "gc_oldest maxSize (d, sz, n, ev) =
     (if sz > maxSize \<and> c_values d \<noteq> [] then
        gc_oldest maxSize (gc_evict (fst (hd (c_values d))) (snd (hd (c_values d))) (d, sz, n, ev))
      else (d, sz, n, ev))"
  by pat_completeness auto
termination
proof (relation "measure (\<lambda>(m, d, s, n, e). length (c_values d))", goal_cases)
  case (2 maxSize d sz n ev)
  then obtain k v rest where "c_values d = (k, v) # rest" by (cases "c_values d") auto
  then show ?case by (simp add: gc_evict_def le_imp_less_Suc length_delete_le)
qed simp

declare gc_oldest.simps [simp del]

definition gc_collection :: "int \<Rightarrow> string \<Rightarrow> 'v cache2 \<times> int \<times> int \<Rightarrow> 'v cache2 \<times> int \<times> int" where
  "gc_collection now coll st =
     (case st of (c, evictedCount, evictedSize) \<Rightarrow>
        (case coll_at c coll of
           None \<Rightarrow> st
         | Some d \<Rightarrow>
             (case gc_oldest (max_size c)
                     (gc_expired now (c_values d) (d, total_size c, evictedCount, evictedSize)) of
                (d', sz', n', ev') \<Rightarrow>
                  ((put_coll coll d' c)\<lparr>total_size := sz',
                      stats := stats c @ [(''collection-'' @ coll, c_size d')]\<rparr>, n', ev'))))"

text \<open>The process of the service: the state and the pair (\<open>evictedCount\<close>, \<open>evictedSize\<close>).\<close>

definition cache_gc :: "int \<Rightarrow> 'v cache2 \<Rightarrow> 'v cache2 \<times> int \<times> int" where
  "cache_gc now c =
     (case fold (gc_collection now) (map fst (collections c)) (c, 0, 0) of
        (c', n, ev) \<Rightarrow> (c'\<lparr>stats := stats c' @ [(''evicted'', n)]\<rparr>, n, ev))"

definition cache_serviceGarbageCollector :: "'v cache2 \<Rightarrow> 'v cache2 outcome" where
  "cache_serviceGarbageCollector c =
     (if trigger c \<noteq> None then Inl AssertFailed else Inr (c\<lparr>trigger := Some 0\<rparr>))"

section \<open>Keys made of several strings\<close>

text \<open>\<open>arrayOfStringToKey\<close> and \<open>keyToArrayOfString\<close>, with the separator \<open>"\0"\<close>.\<close>

definition nul :: char where
  "nul = char_of (0 :: nat)"

definition arrayOfStringToKey :: "string list \<Rightarrow> string" where
  "arrayOfStringToKey array = join_with [nul] ([] # array)"

definition keyToArrayOfString :: "string \<Rightarrow> string list" where
  "keyToArrayOfString payload = tl (split_on nul payload)"

lemma keyToArrayOfString_inverse:
  "\<forall>s\<in>set array. nul \<notin> set s \<Longrightarrow> keyToArrayOfString (arrayOfStringToKey array) = array"
  by (simp add: keyToArrayOfString_def arrayOfStringToKey_def split_on_join)

section \<open>Collection accessors\<close>

text \<open>An accessor is the name of its collection; a nested one appends to it.\<close>

definition accessor_name :: "string \<Rightarrow> string \<Rightarrow> string" where
  "accessor_name collection sub = collection @ ''.'' @ sub"

definition accessor_register where
  "accessor_register collection sub timeoutMs getSize c =
     cache_register (accessor_name collection sub) timeoutMs getSize c"

text \<open>
  \<open>CacheCollectionAccessor.getSize\<close> calls itself (\<open>this.getSize\<close>, not \<open>this.cache.getSize\<close>):
  \<open>None\<close> is a call that does not return.
\<close>

partial_function (option) accessor_getSize :: "string \<Rightarrow> 'v cache2 \<Rightarrow> int outcome option" where
  "accessor_getSize collection c = accessor_getSize collection c"

lemma accessor_getSize_diverges: "accessor_getSize collection c = None"
proof (rule ccontr)
  assume "accessor_getSize collection c \<noteq> None"
  then obtain r where r: "accessor_getSize collection c = Some r" by auto
  show False
    by (rule accessor_getSize.raw_induct [where P = "\<lambda>_ _ _. False", OF _ r]) blast
qed


section \<open>Size accounting\<close>

text \<open>
  The invariant: one entry per key, the size of a collection is the sum of its entries' sizes,
  and the size of the cache the sum of its collections' sizes.
\<close>

definition coll_ok :: "'v collection \<Rightarrow> bool" where
  "coll_ok d = (wf_map (c_values d) \<and> c_size d = map_total e_size (c_values d))"

definition cache_inv :: "'v cache2 \<Rightarrow> bool" where
  "cache_inv c = (wf_map (collections c) \<and> (\<forall>(n, d)\<in>set (collections c). coll_ok d) \<and>
     total_size c = map_total c_size (collections c))"

lemma cache_inv_frame [simp]:
  "cache_inv (c\<lparr>stats := st\<rparr>) = cache_inv c"
  "cache_inv (c\<lparr>trigger := tr\<rparr>) = cache_inv c"
  by (simp_all add: cache_inv_def)

lemma put_coll_frame [simp]:
  "total_size (put_coll coll d c) = total_size c"
  "max_size (put_coll coll d c) = max_size c"
  "trigger (put_coll coll d c) = trigger c"
  "stats (put_coll coll d c) = stats c"
  "coll_at (put_coll coll d c) = (coll_at c)(coll \<mapsto> d)"
  by (simp_all add: put_coll_def)

lemma put_coll_keys: "coll_at c coll = Some d0 \<Longrightarrow>
    map fst (collections (put_coll coll d c)) = map fst (collections c)"
  by (force simp: put_coll_def update_keys dest: map_of_SomeD)

lemma cache_inv_coll: "cache_inv c \<Longrightarrow> coll_at c coll = Some d \<Longrightarrow> coll_ok d"
  by (auto simp: cache_inv_def dest: map_of_SomeD)

lemma cache_inv_put:
  assumes "cache_inv c" and "coll_ok d'"
  shows "cache_inv ((put_coll coll d' c)\<lparr>total_size :=
           total_size c - at_key c_size (collections c) coll + c_size d'\<rparr>)"
proof -
  have "set (AList.update coll d' (collections c)) \<subseteq> insert (coll, d') (set (collections c))"
    by (rule set_update_subset)
  with assms show ?thesis
    by (auto simp: cache_inv_def put_coll_def map_total_update)
qed

lemma cache_inv_put_same:
  assumes "cache_inv c" and "coll_at c coll = Some d" and "coll_ok d'" and "c_size d' = c_size d"
  shows "cache_inv (put_coll coll d' c)"
  using cache_inv_put [OF assms(1,3), of coll] assms(2,4)
  by (simp add: at_key_def cache_inv_def put_coll_def)

lemma cache_register_inv [inv_intros]:
  assumes "cache_inv c" and "cache_register coll t f c = Inr c'"
  shows "cache_inv c'"
proof -
  have fresh: "coll_at c coll = None" using assms(2) by (auto simp: cache_register_def split: if_splits)
  define d where "d = \<lparr>c_timeoutMs = (case t of None \<Rightarrow> def_timeoutMs c | Some t \<Rightarrow> t),
      c_getSize = (case f of None \<Rightarrow> def_getSize c | Some f \<Rightarrow> f), c_values = [], c_size = 0\<rparr>"
  have "c' = put_coll coll d c" using assms(2) fresh by (simp add: cache_register_def d_def)
  moreover have "coll_ok d" "c_size d = 0" by (simp_all add: coll_ok_def d_def)
  moreover from this(1) have "cache_inv ((put_coll coll d c)\<lparr>total_size :=
      total_size c - at_key c_size (collections c) coll + c_size d\<rparr>)"
    by (rule cache_inv_put [OF assms(1)])
  ultimately show ?thesis using fresh by (simp add: at_key_def cache_inv_def put_coll_def)
qed

lemma store_entry_inv:
  assumes "cache_inv c" and "coll_at c coll = Some d"
  shows "cache_inv (store_entry now coll key v type (- entry_size d key) sz
           (d\<lparr>c_values := AList.delete key (c_values d)\<rparr>) c)"
proof -
  define d2 where "d2 = d\<lparr>c_values := AList.update key \<lparr>e_data = Payload v, e_status = type,
      e_size = sz, e_timeout = now + c_timeoutMs d\<rparr> (AList.delete key (c_values d)),
      c_size := c_size d - entry_size d key + sz\<rparr>"
  have ok: "coll_ok d" by (rule cache_inv_coll [OF assms])
  have "coll_ok d2"
    using ok by (simp add: coll_ok_def d2_def map_total_update map_total_delete entry_size_def at_key_def)
  then have "cache_inv ((put_coll coll d2 c)\<lparr>total_size :=
      total_size c - at_key c_size (collections c) coll + c_size d2\<rparr>)"
    by (rule cache_inv_put [OF assms(1)])
  moreover have "total_size c - at_key c_size (collections c) coll + c_size d2 =
      total_size c + (- entry_size d key + sz)"
    using assms(2) by (simp add: at_key_def d2_def)
  ultimately show ?thesis
    by (simp add: store_entry_def Let_def d2_def algebra_simps)
qed

lemma cache_set_inv [inv_intros]:
  "cache_inv c \<Longrightarrow> cache_set now coll key v type c = (c', Inr ()) \<Longrightarrow> cache_inv c'"
  by (auto simp: cache_set_def Let_def store_entry_inv split: option.splits status.splits)

lemma coll_ok_touch:
  assumes "coll_ok d" and "map_of (c_values d) key = Some entry" and "e_size entry' = e_size entry"
  shows "coll_ok (d\<lparr>c_values := AList.update key entry' (AList.delete key (c_values d))\<rparr>)"
    and "coll_ok (d\<lparr>c_values := AList.update key entry' (c_values d)\<rparr>)"
  using assms by (simp_all add: coll_ok_def map_total_update map_total_delete at_key_def)

lemma cache_getInstant_inv [inv_intros]:
  "cache_inv c \<Longrightarrow> cache_getInstant now coll key c = (c', r) \<Longrightarrow> cache_inv c'"
  by (auto simp: cache_getInstant_def split: option.splits if_splits
      intro!: cache_inv_put_same coll_ok_touch dest: cache_inv_coll)

lemma cache_setDirty_inv [inv_intros]:
  "cache_inv c \<Longrightarrow> cache_setDirty coll key c = (c', r) \<Longrightarrow> cache_inv c'"
  by (auto simp: cache_setDirty_def split: option.splits
      intro!: cache_inv_put_same coll_ok_touch dest: cache_inv_coll)


section \<open>What the collector achieves\<close>

text \<open>Removal by a predicate over the keys, one entry at a time, is \<open>filter\<close>.\<close>

abbreviation gc_coll :: "'v gc_state \<Rightarrow> 'v collection" where
  "gc_coll st \<equiv> fst st"

abbreviation gc_total :: "'v gc_state \<Rightarrow> int" where
  "gc_total st \<equiv> fst (snd st)"

lemma gc_evict_simps:
  "gc_evict key entry (d, sz, n, ev) =
     (d\<lparr>c_size := c_size d - e_size entry, c_values := AList.delete key (c_values d)\<rparr>,
      sz - e_size entry, n + 1, ev + e_size entry)"
  by (simp add: gc_evict_def)

lemma gc_expired_result:
  assumes "wf_map (keep @ rest)" and "c_values d = keep @ rest"
  shows "\<exists>n' ev'. gc_expired now rest (d, sz, n, ev) =
     (let gone = map_total e_size (filter (\<lambda>(k, e). is_expired now e) rest)
      in (d\<lparr>c_values := keep @ filter (\<lambda>(k, e). \<not> is_expired now e) rest,
            c_size := c_size d - gone\<rparr>, sz - gone, n', ev'))"
  using assms
proof (induction rest arbitrary: keep d sz n ev)
  case Nil
  then show ?case by simp
next
  case (Cons x rest)
  obtain k e where x: "x = (k, e)" by (cases x)
  show ?case
  proof (cases "is_expired now e")
    case True
    have "AList.delete k (c_values d) = keep @ rest"
      using Cons.prems x delete_mid [of keep k e rest] by simp
    then show ?thesis
      using Cons.IH [of keep "gc_coll (gc_evict k e (d, sz, n, ev))" "sz - e_size e" "n + 1" "ev + e_size e"]
        Cons.prems x True by (simp add: gc_evict_simps Let_def algebra_simps)
  next
    case False
    then show ?thesis
      using Cons.IH [of "keep @ [x]" d sz n ev] Cons.prems x by simp
  qed
qed

lemma gc_oldest_result:
  assumes "wf_map (c_values d)" and "\<forall>(k, e)\<in>set (c_values d). 0 \<le> e_size e"
  shows "\<exists>m n' ev'. gc_oldest maxSize (d, sz, n, ev) =
     (let gone = map_total e_size (take m (c_values d))
      in (d\<lparr>c_values := drop m (c_values d), c_size := c_size d - gone\<rparr>, sz - gone, n', ev'))
     \<and> (sz \<le> maxSize \<longrightarrow> m = 0)
     \<and> (sz - map_total e_size (take m (c_values d)) \<le> maxSize \<or> drop m (c_values d) = [])
     \<and> (\<forall>j<m. maxSize < sz - map_total e_size (take j (c_values d)))"
  using assms
proof (induction "c_values d" arbitrary: d sz n ev)
  case Nil
  then show ?case by (intro exI [where x = "0 :: nat"] exI [where x = n] exI [where x = ev])
      (simp add: gc_oldest.simps)
next
  case (Cons x vs)
  obtain k e where x: "x = (k, e)" by (cases x)
  note vals = Cons.hyps(2) [symmetric]
  show ?case
  proof (cases "sz > maxSize")
    case False
    then show ?thesis
      by (intro exI [where x = "0 :: nat"] exI [where x = n] exI [where x = ev])
        (simp add: gc_oldest.simps [of maxSize d])
  next
    case True
    let ?st = "gc_evict k e (d, sz, n, ev)"
    have del: "c_values (gc_coll ?st) = vs"
      using Cons.prems(1) vals x by (simp add: gc_evict_simps delete_fresh)
    have "wf_map (c_values (gc_coll ?st))" "\<forall>(k, e)\<in>set (c_values (gc_coll ?st)). 0 \<le> e_size e"
      using Cons.prems vals x unfolding del by auto
    note IH = Cons.hyps(1) [OF del [symmetric] this, of "sz - e_size e" "n + 1" "ev + e_size e"]
    then obtain m n' ev' where
      m: "gc_oldest maxSize (gc_coll ?st, sz - e_size e, n + 1, ev + e_size e) =
        (let gone = map_total e_size (take m vs)
         in ((gc_coll ?st)\<lparr>c_values := drop m vs, c_size := c_size (gc_coll ?st) - gone\<rparr>,
             sz - e_size e - gone, n', ev'))"
      "sz - e_size e - map_total e_size (take m vs) \<le> maxSize \<or> drop m vs = []"
      "\<forall>j<m. maxSize < sz - e_size e - map_total e_size (take j vs)"
      unfolding del by blast
    have "gc_oldest maxSize (d, sz, n, ev) =
        gc_oldest maxSize (gc_coll ?st, sz - e_size e, n + 1, ev + e_size e)"
      using True vals x by (simp add: gc_oldest.simps [of maxSize d] gc_evict_simps)
    moreover have "\<forall>j<Suc m. maxSize < sz - map_total e_size (take j (c_values d))"
      using m(3) True vals x by (auto simp: less_Suc_eq_0_disj algebra_simps)
    ultimately show ?thesis
      using m(1,2) True vals x
      by (intro exI [where x = "Suc m"] exI [where x = n'] exI [where x = ev']) (simp add: gc_evict_simps Let_def algebra_simps)
  qed
qed


text \<open>Sizes are not negative when the size functions are not.\<close>

definition coll_nonneg :: "'v collection \<Rightarrow> bool" where
  "coll_nonneg d = (\<forall>(k, e)\<in>set (c_values d). 0 \<le> e_size e)"

definition cache_nonneg :: "'v cache2 \<Rightarrow> bool" where
  "cache_nonneg c = (\<forall>coll d. coll_at c coll = Some d \<longrightarrow> coll_nonneg d)"

definition live_values :: "int \<Rightarrow> 'v collection \<Rightarrow> (string \<times> 'v entry) list" where
  "live_values now d = filter (\<lambda>(k, e). \<not> is_expired now e) (c_values d)"

lemma map_total_filter:
  "map_total f (filter P xs) + map_total f (filter (\<lambda>x. \<not> P x) xs) = map_total f xs"
  by (induction xs) auto

lemma gc_loops_result:
  assumes "coll_ok d" and "coll_nonneg d"
  shows "\<exists>d' sz' n' ev'. gc_oldest maxSize (gc_expired now (c_values d) (d, sz, n, ev)) = (d', sz', n', ev')
     \<and> coll_ok d' \<and> coll_nonneg d' \<and> sz' - c_size d' = sz - c_size d \<and> sz' \<le> sz
     \<and> (\<exists>m. c_values d' = drop m (live_values now d)
            \<and> (sz - map_total e_size (filter (\<lambda>(k, e). is_expired now e) (c_values d)) \<le> maxSize
               \<longrightarrow> m = 0))
     \<and> (sz' \<le> maxSize \<or> c_values d' = [])"
proof -
  let ?gone = "map_total e_size (filter (\<lambda>(k, e). is_expired now e) (c_values d))"
  let ?d1 = "d\<lparr>c_values := live_values now d, c_size := c_size d - ?gone\<rparr>"
  have wf: "wf_map (c_values d)" using assms(1) by (simp add: coll_ok_def)
  obtain n1 ev1 where e1: "gc_expired now (c_values d) (d, sz, n, ev) = (?d1, sz - ?gone, n1, ev1)"
    using gc_expired_result [of "[]" "c_values d" d now sz n ev] wf
    by (auto simp: live_values_def Let_def)
  have wf1: "wf_map (c_values ?d1)"
    using wf by (simp add: live_values_def distinct_map_filter)
  have nn1: "\<forall>(k, e)\<in>set (c_values ?d1). 0 \<le> e_size e"
    using assms(2) by (auto simp: coll_nonneg_def live_values_def)
  obtain m n2 ev2 where e2: "gc_oldest maxSize (?d1, sz - ?gone, n1, ev1) =
      (let gone = map_total e_size (take m (live_values now d))
       in (?d1\<lparr>c_values := drop m (live_values now d), c_size := c_size d - ?gone - gone\<rparr>,
           sz - ?gone - gone, n2, ev2))"
    and m: "sz - ?gone \<le> maxSize \<longrightarrow> m = 0"
      "sz - ?gone - map_total e_size (take m (live_values now d)) \<le> maxSize \<or>
        drop m (live_values now d) = []"
    using gc_oldest_result [OF wf1 nn1, of maxSize "sz - ?gone" n1 ev1] by (auto simp: Let_def)
  let ?gone2 = "map_total e_size (take m (live_values now d))"
  let ?d2 = "?d1\<lparr>c_values := drop m (live_values now d), c_size := c_size d - ?gone - ?gone2\<rparr>"
  have "map_total e_size (live_values now d) = ?gone2 + map_total e_size (drop m (live_values now d))"
    by (metis append_take_drop_id map_total_append)
  moreover have "?gone + map_total e_size (live_values now d) = map_total e_size (c_values d)"
    using map_total_filter [of e_size "\<lambda>(k, e). is_expired now e"]
    by (simp add: live_values_def split_def)
  ultimately have ok2: "coll_ok ?d2"
    using assms(1) wf1 by (simp add: coll_ok_def drop_map [symmetric])
  have "0 \<le> ?gone" "0 \<le> ?gone2"
    using assms(2) nn1 by (auto simp: coll_nonneg_def intro!: map_total_nonneg dest: in_set_takeD)
  then have le: "sz - ?gone - ?gone2 \<le> sz" by simp
  show ?thesis
  proof (intro exI conjI)
    show "gc_oldest maxSize (gc_expired now (c_values d) (d, sz, n, ev)) =
        (?d2, sz - ?gone - ?gone2, n2, ev2)"
      using e2 by (simp add: e1 Let_def)
    show "coll_nonneg ?d2" using nn1 by (auto simp: coll_nonneg_def dest: in_set_dropD)
    show "c_values ?d2 = drop m (live_values now d)" by simp
    show "sz - ?gone - ?gone2 - c_size ?d2 = sz - c_size d" by simp
    show "sz - ?gone - ?gone2 \<le> maxSize \<or> c_values ?d2 = []" using m(2) by simp
  qed (use ok2 le m(1) in simp_all)
qed

lemma gc_collection_result:
  assumes "cache_inv c" and "cache_nonneg c" and "coll_at c coll = Some d"
  shows "\<exists>c' n' ev' d' m. gc_collection now coll (c, n, ev) = (c', n', ev')
     \<and> cache_inv c' \<and> cache_nonneg c' \<and> coll_at c' = (coll_at c)(coll \<mapsto> d')
     \<and> map fst (collections c') = map fst (collections c)
     \<and> max_size c' = max_size c \<and> total_size c' \<le> total_size c
     \<and> c_values d' = drop m (live_values now d)
     \<and> (total_size c' \<le> max_size c \<or> c_values d' = [])"
proof -
  have ok: "coll_ok d" "coll_nonneg d"
    using assms cache_inv_coll by (auto simp: cache_nonneg_def)
  obtain d' sz' n' ev' m where
    g: "gc_oldest (max_size c) (gc_expired now (c_values d) (d, total_size c, n, ev)) = (d', sz', n', ev')"
    and p: "coll_ok d'" "coll_nonneg d'" "sz' - c_size d' = total_size c - c_size d"
      "sz' \<le> total_size c" "c_values d' = drop m (live_values now d)"
      "sz' \<le> max_size c \<or> c_values d' = []"
    using gc_loops_result [OF ok, of "max_size c" now "total_size c" n ev] by blast
  let ?c = "(put_coll coll d' c)\<lparr>total_size := sz',
      stats := stats c @ [(''collection-'' @ coll, c_size d')]\<rparr>"
  have "cache_inv ((put_coll coll d' c)\<lparr>total_size :=
      total_size c - at_key c_size (collections c) coll + c_size d'\<rparr>)"
    by (rule cache_inv_put [OF assms(1) p(1)])
  moreover have "total_size c - at_key c_size (collections c) coll + c_size d' = sz'"
    using assms(3) p(3) by (simp add: at_key_def)
  ultimately have "cache_inv ((put_coll coll d' c)\<lparr>total_size := sz'\<rparr>)" by simp
  then have "cache_inv ?c" by (simp add: cache_inv_def)
  moreover have "cache_nonneg ?c" "coll_at ?c = (coll_at c)(coll \<mapsto> d')"
    using assms(2) p(2) by (auto simp: cache_nonneg_def put_coll_def)
  moreover have "map fst (collections ?c) = map fst (collections c)"
    using put_coll_keys [OF assms(3)] by simp
  moreover have "gc_collection now coll (c, n, ev) = (?c, n', ev')"
    using assms(3) g by (simp add: gc_collection_def)
  ultimately show ?thesis using p by (intro exI [where x = ?c]) auto
qed

lemma gc_fold_result:
  assumes "cache_inv c" and "cache_nonneg c" and "distinct ns" and "set ns \<subseteq> dom (coll_at c)"
  shows "\<exists>c' n' ev'. fold (gc_collection now) ns (c, n, ev) = (c', n', ev')
     \<and> cache_inv c' \<and> cache_nonneg c' \<and> map fst (collections c') = map fst (collections c)
     \<and> max_size c' = max_size c \<and> total_size c' \<le> total_size c
     \<and> (\<forall>x. x \<notin> set ns \<longrightarrow> coll_at c' x = coll_at c x)
     \<and> (\<forall>x\<in>set ns. \<exists>m. map_option c_values (coll_at c' x) =
                         map_option (\<lambda>d. drop m (live_values now d)) (coll_at c x))
     \<and> (total_size c' \<le> max_size c \<or> (\<forall>x\<in>set ns. map_option c_values (coll_at c' x) = Some []))"
  using assms
proof (induction ns arbitrary: c n ev)
  case Nil
  then show ?case by simp
next
  case (Cons x ns)
  then obtain d where d: "coll_at c x = Some d" by auto
  obtain c1 n1 ev1 d1 m where 1: "gc_collection now x (c, n, ev) = (c1, n1, ev1)"
    "cache_inv c1" "cache_nonneg c1" "coll_at c1 = (coll_at c)(x \<mapsto> d1)"
    "map fst (collections c1) = map fst (collections c)"
    "max_size c1 = max_size c" "total_size c1 \<le> total_size c"
    "c_values d1 = drop m (live_values now d)" "total_size c1 \<le> max_size c \<or> c_values d1 = []"
    using gc_collection_result [OF Cons.prems(1,2) d, of now n ev] by blast
  have x: "x \<notin> set ns" and dist: "distinct ns" using Cons.prems by auto
  have sub: "set ns \<subseteq> dom (coll_at c1)" using Cons.prems(4) unfolding 1(4) by auto
  obtain c2 n2 ev2 where 2: "fold (gc_collection now) ns (c1, n1, ev1) = (c2, n2, ev2)"
    "cache_inv c2" "cache_nonneg c2" "map fst (collections c2) = map fst (collections c1)"
    "max_size c2 = max_size c1" "total_size c2 \<le> total_size c1"
    "\<forall>y. y \<notin> set ns \<longrightarrow> coll_at c2 y = coll_at c1 y"
    "\<forall>y\<in>set ns. \<exists>m. map_option c_values (coll_at c2 y) =
                     map_option (\<lambda>d. drop m (live_values now d)) (coll_at c1 y)"
    "total_size c2 \<le> max_size c1 \<or> (\<forall>y\<in>set ns. map_option c_values (coll_at c2 y) = Some [])"
    using Cons.IH [OF 1(2,3) dist sub, of n1 ev1] by blast
  have at_x: "coll_at c2 x = Some d1" using 2(7) x 1(4) by simp
  have at_ns: "\<forall>y\<in>set ns. coll_at c1 y = coll_at c y" using 1(4) x by auto
  have vals: "\<exists>m. map_option c_values (coll_at c2 y) =
      map_option (\<lambda>d. drop m (live_values now d)) (coll_at c y)" if "y \<in> set (x # ns)" for y
  proof (cases "y = x")
    case True
    then show ?thesis using at_x d 1(8) by auto
  next
    case False
    then show ?thesis using that 2(8) at_ns by auto
  qed
  have "total_size c2 \<le> max_size c \<or> (\<forall>y\<in>set (x # ns). map_option c_values (coll_at c2 y) = Some [])"
    using 1(6,7,9) 2(6,9) at_x by auto
  moreover have "\<forall>y. y \<notin> set (x # ns) \<longrightarrow> coll_at c2 y = coll_at c y" using 2(7) 1(4) by simp
  ultimately show ?case
    using 1(1,5,6,7) 2(1-6) vals by (intro exI [where x = c2]) auto
qed

text \<open>
  After a collection the cache is within its limit, its accounting still holds, and each
  collection keeps the newest of its entries that are not expired, in their order.
\<close>

lemma map_total_zero: "\<forall>(k, v)\<in>set m. f v = 0 \<Longrightarrow> map_total f m = 0"
  by (induction m) auto

lemma cache_gc_result:
  assumes "cache_inv c" and "cache_nonneg c" and "0 \<le> max_size c" and "cache_gc now c = (c', r)"
  shows "cache_inv c'" and "cache_nonneg c'" and "total_size c' \<le> max_size c"
    and "\<exists>m. map_option c_values (coll_at c' x) =
              map_option (\<lambda>d. drop m (live_values now d)) (coll_at c x)"
proof -
  define ns where "ns = map fst (collections c)"
  have dist: "distinct ns" using assms(1) by (simp add: cache_inv_def ns_def)
  have dom: "set ns = dom (coll_at c)" by (simp add: ns_def dom_map_of_conv_image_fst)
  obtain c1 n ev where f: "fold (gc_collection now) ns (c, 0, 0) = (c1, n, ev)"
    and p: "cache_inv c1" "cache_nonneg c1" "map fst (collections c1) = ns"
    "\<forall>x. x \<notin> set ns \<longrightarrow> coll_at c1 x = coll_at c x"
    "\<forall>x\<in>set ns. \<exists>m. map_option c_values (coll_at c1 x) =
                       map_option (\<lambda>d. drop m (live_values now d)) (coll_at c x)"
    "total_size c1 \<le> max_size c \<or> (\<forall>x\<in>set ns. map_option c_values (coll_at c1 x) = Some [])"
    using gc_fold_result [OF assms(1,2) dist eq_refl [OF dom], of now 0 0]
    unfolding ns_def [symmetric] by blast
  have c': "c' = c1\<lparr>stats := stats c1 @ [(''evicted'', n)]\<rparr>"
    using assms(4) f by (simp add: cache_gc_def ns_def)
  show "cache_inv c'" "cache_nonneg c'"
    using p(1,2) by (simp_all add: c' cache_nonneg_def)
  have "coll_at c' = coll_at c1" by (simp add: c')
  then show "\<exists>m. map_option c_values (coll_at c' x) =
      map_option (\<lambda>d. drop m (live_values now d)) (coll_at c x)"
    using p(4,5) dom by (cases "x \<in> set ns") (auto simp: domIff)
  have "total_size c1 \<le> max_size c"
  proof (rule disjE [OF p(6)])
    assume empty: "\<forall>x\<in>set ns. map_option c_values (coll_at c1 x) = Some []"
    have "\<forall>(k, d)\<in>set (collections c1). c_size d = 0"
    proof (clarify)
      fix k d assume kd: "(k, d) \<in> set (collections c1)"
      then have "coll_at c1 k = Some d" using p(1) by (simp add: cache_inv_def)
      moreover have "k \<in> set ns" using kd p(3) by (metis fst_conv image_eqI list.set_map)
      ultimately have "c_values d = []" using empty by fastforce
      moreover have "coll_ok d" using kd p(1) by (auto simp: cache_inv_def)
      ultimately show "c_size d = 0" by (simp add: coll_ok_def)
    qed
    then have "total_size c1 = 0" using p(1) by (simp add: cache_inv_def map_total_zero)
    then show ?thesis using assms(3) by simp
  qed
  then show "total_size c' \<le> max_size c" by (simp add: c')
qed


section \<open>The entries, as a map\<close>

text \<open>The abstract view of a cache: the entry of a key of a collection.\<close>

definition entry_at :: "'v cache2 \<Rightarrow> string \<Rightarrow> string \<Rightarrow> 'v entry option" where
  "entry_at c coll key = Option.bind (coll_at c coll) (\<lambda>d. map_of (c_values d) key)"

text \<open>The settings of the collections, which no operation but \<open>register\<close> changes.\<close>

definition settings :: "'v cache2 \<Rightarrow> string \<Rightarrow> (int \<times> ('v \<Rightarrow> int)) option" where
  "settings c coll = map_option (\<lambda>d. (c_timeoutMs d, c_getSize d)) (coll_at c coll)"

lemma entry_at_frame [simp]:
  "entry_at (c\<lparr>stats := st\<rparr>) = entry_at c"
  "entry_at (c\<lparr>trigger := tr\<rparr>) = entry_at c"
  "entry_at (c\<lparr>total_size := n\<rparr>) = entry_at c"
  "settings (c\<lparr>stats := st\<rparr>) = settings c"
  "settings (c\<lparr>trigger := tr\<rparr>) = settings c"
  "settings (c\<lparr>total_size := n\<rparr>) = settings c"
  by (simp_all add: entry_at_def settings_def fun_eq_iff)

lemma entry_at_put:
  "entry_at (put_coll coll d c) x y = (if x = coll then map_of (c_values d) y else entry_at c x y)"
  by (simp add: entry_at_def)

lemma settings_put:
  "settings (put_coll coll d c) x =
     (if x = coll then Some (c_timeoutMs d, c_getSize d) else settings c x)"
  by (simp add: settings_def)

lemma cache_set_entry:
  assumes "settings c coll = Some (t, f)" and "type \<noteq> StatusFetching"
  shows "snd (cache_set now coll key v type c) = Inr ()"
    and "entry_at (fst (cache_set now coll key v type c)) x y =
      (if x = coll \<and> y = key
       then Some \<lparr>e_data = Payload v, e_status = type,
                  e_size = (if type = StatusValue then f v else 8), e_timeout = now + t\<rparr>
       else entry_at c x y)"
    and "settings (fst (cache_set now coll key v type c)) = settings c"
proof -
  obtain d where d: "coll_at c coll = Some d" "c_timeoutMs d = t" "c_getSize d = f"
    using assms(1) by (auto simp: settings_def)
  show "snd (cache_set now coll key v type c) = Inr ()"
    using d assms(2) by (simp add: cache_set_def Let_def split: status.splits)
  show "settings (fst (cache_set now coll key v type c)) = settings c"
    using d assms(2) by (auto simp: cache_set_def store_entry_def Let_def fun_eq_iff settings_put
        settings_def split: status.splits)
  show "entry_at (fst (cache_set now coll key v type c)) x y =
      (if x = coll \<and> y = key
       then Some \<lparr>e_data = Payload v, e_status = type,
                  e_size = (if type = StatusValue then f v else 8), e_timeout = now + t\<rparr>
       else entry_at c x y)"
    using d assms(2) by (auto simp: cache_set_def store_entry_def Let_def entry_at_put entry_at_def
        split: status.splits)
qed

lemma cache_set_no_collection:
  "settings c coll = None \<Longrightarrow> cache_set now coll key v type c = (c, Inl AssertFailed)"
  by (simp add: cache_set_def settings_def)

lemma cache_getInstant_result:
  "snd (cache_getInstant now coll key c) =
     (if settings c coll = None then NoCollection
      else case entry_at c coll key of
        None \<Rightarrow> Miss
      | Some e \<Rightarrow> if e_timeout e < now then Miss
                  else if e_status e = StatusError then Throws (e_data e) else Hit (e_data e))"
  by (auto simp: cache_getInstant_def settings_def entry_at_def split: option.splits)

lemma cache_getInstant_frame:
  "entry_at (fst (cache_getInstant now coll key c)) = entry_at c"
  "settings (fst (cache_getInstant now coll key c)) = settings c"
  by (auto simp: cache_getInstant_def fun_eq_iff entry_at_put settings_put entry_at_def settings_def
      split: option.splits if_splits)

lemma cache_setDirty_entry:
  "entry_at (fst (cache_setDirty coll key c)) x y =
     (if x = coll \<and> y = key then map_option (\<lambda>e. e\<lparr>e_timeout := -1\<rparr>) (entry_at c x y)
      else entry_at c x y)"
  "settings (fst (cache_setDirty coll key c)) = settings c"
  by (auto simp: cache_setDirty_def fun_eq_iff entry_at_put settings_put entry_at_def settings_def
      split: option.splits)

lemma cache_register_entry:
  assumes "cache_register coll t f c = Inr c'"
  shows "entry_at c' = entry_at c"
    and "settings c' = (settings c)(coll \<mapsto> (case t of None \<Rightarrow> def_timeoutMs c | Some t \<Rightarrow> t,
            case f of None \<Rightarrow> def_getSize c | Some f \<Rightarrow> f))"
  using assms by (auto simp: cache_register_def fun_eq_iff entry_at_put settings_put entry_at_def
      split: if_splits)

lemma map_of_drop_filter:
  "wf_map m \<Longrightarrow> map_of (drop n (filter P m)) k = Some v \<Longrightarrow> map_of m k = Some v"
  by (metis (no_types, lifting) distinct_map_filter drop_map distinct_drop filter_is_subset
      in_set_dropD map_of_eq_Some_iff subsetD)

lemma cache_gc_entry:
  assumes "cache_inv c" and "cache_nonneg c" and "0 \<le> max_size c"
    and "entry_at (fst (cache_gc now c)) x y = Some e"
  shows "entry_at c x y = Some e \<and> \<not> is_expired now e"
proof -
  obtain c' r where gc: "cache_gc now c = (c', r)" by (cases "cache_gc now c")
  obtain d' where d': "coll_at c' x = Some d'" "map_of (c_values d') y = Some e"
    using assms(4) gc by (auto simp: entry_at_def split: Option.bind_splits)
  obtain m where "map_option c_values (coll_at c' x) =
      map_option (\<lambda>d. drop m (live_values now d)) (coll_at c x)"
    using cache_gc_result(4) [OF assms(1-3) gc] by blast
  with d'(1) obtain d where d: "coll_at c x = Some d" "c_values d' = drop m (live_values now d)"
    by (cases "coll_at c x") auto
  have wf: "wf_map (c_values d)" using cache_inv_coll [OF assms(1) d(1)] by (simp add: coll_ok_def)
  have "map_of (c_values d) y = Some e"
    using d'(2) d(2) map_of_drop_filter [OF wf] by (simp add: live_values_def)
  moreover have "\<not> is_expired now e"
    using map_of_SomeD [OF d'(2)] d(2) by (auto simp: live_values_def dest: in_set_dropD)
  ultimately show ?thesis using d(1) by (simp add: entry_at_def)
qed

lemma gc_collection_settings: "settings (fst (gc_collection now coll (c, n, ev))) = settings c"
proof (cases "coll_at c coll")
  case (Some d)
  have evict: "c_timeoutMs (gc_coll (gc_evict k e st)) = c_timeoutMs (gc_coll st) \<and>
      c_getSize (gc_coll (gc_evict k e st)) = c_getSize (gc_coll st)" for k e and st :: "'a gc_state"
    by (cases st) (simp add: gc_evict_def)
  have exp: "c_timeoutMs (gc_coll (gc_expired now l st)) = c_timeoutMs (gc_coll st) \<and>
      c_getSize (gc_coll (gc_expired now l st)) = c_getSize (gc_coll st)" for l and st :: "'a gc_state"
    by (induction now l st rule: gc_expired.induct) (auto simp: evict)
  have old: "c_timeoutMs (gc_coll (gc_oldest m st)) = c_timeoutMs (gc_coll st) \<and>
      c_getSize (gc_coll (gc_oldest m st)) = c_getSize (gc_coll st)" for m and st :: "'a gc_state"
  proof (induction m st rule: gc_oldest.induct)
    case (1 maxSize d sz n ev)
    then show ?case by (subst (1 2) gc_oldest.simps) (auto simp: evict)
  qed
  have "c_timeoutMs (gc_coll (gc_oldest (max_size c) (gc_expired now (c_values d) (d, total_size c, n, ev)))) = c_timeoutMs d"
    "c_getSize (gc_coll (gc_oldest (max_size c) (gc_expired now (c_values d) (d, total_size c, n, ev)))) = c_getSize d"
    using old exp by simp_all
  with Some show ?thesis
    by (auto simp: gc_collection_def fun_eq_iff settings_put settings_def split: prod.splits)
qed (simp add: gc_collection_def)

lemma cache_gc_settings: "settings (fst (cache_gc now c)) = settings c"
proof -
  have "settings (fst (fold (gc_collection now) ns st)) = settings (fst st)" for ns and st :: "'a cache2 \<times> int \<times> int"
    by (induction ns arbitrary: st) (auto simp: gc_collection_settings split: prod.splits)
  from this [of "map fst (collections c)" "(c, 0, 0)"] show ?thesis
    by (cases "fold (gc_collection now) (map fst (collections c)) (c, 0, 0)")
       (simp add: cache_gc_def)
qed

text \<open>The options of the cache, which no operation changes.\<close>

definition params :: "'v cache2 \<Rightarrow> int \<times> int \<times> ('v \<Rightarrow> int)" where
  "params c = (max_size c, def_timeoutMs c, def_getSize c)"

lemma params_frame [simp]:
  "params (c\<lparr>stats := st\<rparr>) = params c"
  "params (c\<lparr>trigger := tr\<rparr>) = params c"
  "params (c\<lparr>total_size := n\<rparr>) = params c"
  "params (put_coll coll d c) = params c"
  by (simp_all add: params_def put_coll_def)

lemma params_ops:
  "params (fst (cache_set now coll key v type c)) = params c"
  "params (fst (cache_getInstant now coll key c)) = params c"
  "params (fst (cache_setDirty coll key c)) = params c"
  "cache_register coll t f c = Inr c' \<Longrightarrow> params c' = params c"
  by (auto simp: cache_set_def store_entry_def Let_def cache_getInstant_def cache_setDirty_def
      cache_register_def split: option.splits status.splits if_splits)

lemma params_gc: "params (fst (cache_gc now c)) = params c"
proof -
  have step: "params (fst (gc_collection now coll st)) = params (fst st)"
    for coll and st :: "'a cache2 \<times> int \<times> int"
    by (cases st) (auto simp: gc_collection_def split: option.splits prod.splits)
  have "params (fst (fold (gc_collection now) ns st)) = params (fst st)"
    for ns and st :: "'a cache2 \<times> int \<times> int"
    by (induction ns arbitrary: st) (auto simp: step)
  from this [of "map fst (collections c)" "(c, 0, 0)"] show ?thesis
    by (cases "fold (gc_collection now) (map fst (collections c)) (c, 0, 0)")
       (simp add: cache_gc_def)
qed

section \<open>The sizes are not negative\<close>

definition sizes_ok :: "'v cache2 \<Rightarrow> bool" where
  "sizes_ok c = ((\<forall>x y e. entry_at c x y = Some e \<longrightarrow> 0 \<le> e_size e) \<and>
     (\<forall>x t f. settings c x = Some (t, f) \<longrightarrow> (\<forall>v. 0 \<le> f v)) \<and>
     (\<forall>v. 0 \<le> def_getSize c v) \<and> 0 \<le> max_size c)"

lemma sizes_ok_nonneg:
  assumes "cache_inv c" and "sizes_ok c"
  shows "cache_nonneg c" and "0 \<le> max_size c"
proof -
  show "cache_nonneg c" unfolding cache_nonneg_def coll_nonneg_def
  proof (clarify)
    fix coll d k e
    assume d: "coll_at c coll = Some d" and ke: "(k, e) \<in> set (c_values d)"
    have "wf_map (c_values d)" using cache_inv_coll [OF assms(1) d] by (simp add: coll_ok_def)
    then have "entry_at c coll k = Some e" using d ke by (simp add: entry_at_def)
    with assms(2) show "0 \<le> e_size e" unfolding sizes_ok_def by blast
  qed
  show "0 \<le> max_size c" using assms(2) by (simp add: sizes_ok_def)
qed


lemma sizes_ok_step:
  assumes "sizes_ok c" and "params c' = params c" and "settings c' = settings c"
    and "\<And>x y e. entry_at c' x y = Some e \<Longrightarrow> 0 \<le> e_size e"
  shows "sizes_ok c'"
  using assms by (simp add: sizes_ok_def params_def)

lemma sizes_ok_ops [inv_intros]:
  assumes "sizes_ok c"
  shows "type \<noteq> StatusFetching \<Longrightarrow> sizes_ok (fst (cache_set now coll key v type c))"
    and "sizes_ok (fst (cache_getInstant now coll key c))"
    and "sizes_ok (fst (cache_setDirty coll key c))"
    and "cache_inv c \<Longrightarrow> sizes_ok (fst (cache_gc now c))"
proof -
  have old: "entry_at c x y = Some e \<Longrightarrow> 0 \<le> e_size e" for x y e
    using assms unfolding sizes_ok_def by blast
  show "sizes_ok (fst (cache_getInstant now coll key c))"
    by (rule sizes_ok_step [OF assms]) (auto simp: params_ops cache_getInstant_frame intro: old)
  show "sizes_ok (fst (cache_setDirty coll key c))"
    by (rule sizes_ok_step [OF assms])
       (auto simp: params_ops cache_setDirty_entry split: if_splits intro: old)
  show "sizes_ok (fst (cache_gc now c))" if inv: "cache_inv c"
    using cache_gc_entry [OF inv sizes_ok_nonneg [OF inv assms], THEN conjunct1, THEN old]
    by (intro sizes_ok_step [OF assms] params_gc cache_gc_settings) blast
  show "sizes_ok (fst (cache_set now coll key v type c))" if ty: "type \<noteq> StatusFetching"
  proof (cases "settings c coll")
    case None
    then show ?thesis using assms by (simp add: cache_set_no_collection)
  next
    case (Some tf)
    then obtain t f where tf: "settings c coll = Some (t, f)" by (cases tf) auto
    then have "0 \<le> f v" using assms by (simp add: sizes_ok_def)
    then show ?thesis
      by (intro sizes_ok_step [OF assms])
         (auto simp: params_ops cache_set_entry [OF tf ty] split: if_splits intro: old)
  qed
qed

section \<open>Runs of a cache\<close>

text \<open>
  The synchronous operations, in any order, on a cache whose size functions do not return negative
  numbers.
\<close>

inductive cache_step :: "'v cache2 \<Rightarrow> 'v cache2 \<Rightarrow> bool" where
  register: "cache_register coll t f c = Inr c' \<Longrightarrow> (\<And>g v. f = Some g \<Longrightarrow> 0 \<le> g v) \<Longrightarrow> cache_step c c'"
| set_value: "type \<noteq> StatusFetching \<Longrightarrow> cache_step c (fst (cache_set now coll key v type c))"
| instant: "cache_step c (fst (cache_getInstant now coll key c))"
| dirty: "cache_step c (fst (cache_setDirty coll key c))"
| service: "cache_serviceGarbageCollector c = Inr c' \<Longrightarrow> cache_step c c'"
| collect: "cache_step c (fst (cache_gc now c))"

inductive cache_reachable :: "'v cache2 \<Rightarrow> 'v cache2 \<Rightarrow> bool" for c0 where
  start: "cache_reachable c0 c0"
| step: "cache_reachable c0 c \<Longrightarrow> cache_step c c' \<Longrightarrow> cache_reachable c0 c'"

lemma sizes_ok_register:
  assumes "sizes_ok c" and "cache_register coll t f c = Inr c'" and "\<And>g v. f = Some g \<Longrightarrow> 0 \<le> g v"
  shows "sizes_ok c'"
  using assms(1,3) params_ops(4) [OF assms(2)]
  by (auto simp: sizes_ok_def cache_register_entry [OF assms(2)] params_def split: option.splits)

lemma cache_step_inv:
  "cache_step c c' \<Longrightarrow> cache_inv c \<and> sizes_ok c \<Longrightarrow> cache_inv c' \<and> sizes_ok c'"
proof (induction rule: cache_step.induct)
  case (register coll t f c c')
  then show ?case using sizes_ok_register cache_register_inv by blast
next
  case (service c c')
  then show ?case
    by (auto simp: cache_serviceGarbageCollector_def sizes_ok_def split: if_splits)
next
  case (collect c now)
  then show ?case
    using cache_gc_result(1) [OF _ sizes_ok_nonneg] sizes_ok_ops(4) by (metis prod.collapse)
next
  case (set_value type c now coll key v)
  then have "cache_inv (fst (cache_set now coll key v type c))"
    by (auto simp: cache_set_def Let_def store_entry_inv split: option.splits status.splits)
  with set_value show ?case by (auto intro: sizes_ok_ops)
next
  case (instant c now coll key)
  then show ?case using cache_getInstant_inv [OF _ surjective_pairing] by (auto intro: sizes_ok_ops)
next
  case (dirty c coll key)
  then show ?case using cache_setDirty_inv [OF _ surjective_pairing] by (auto intro: sizes_ok_ops)
qed

lemma cache_new_inv: "0 \<le> m \<Longrightarrow> (\<And>v. 0 \<le> f v) \<Longrightarrow> cache_inv (cache_new t m f) \<and> sizes_ok (cache_new t m f)"
  by (simp add: cache_new_def cache_inv_def sizes_ok_def entry_at_def settings_def)

lemma cache_reachable_inv:
  "cache_reachable (cache_new t m f) c \<Longrightarrow> 0 \<le> m \<Longrightarrow> (\<And>v. 0 \<le> f v) \<Longrightarrow> cache_inv c \<and> sizes_ok c"
proof (induction rule: cache_reachable.induct)
  case start
  then show ?case by (intro cache_new_inv)
next
  case (step c c')
  then show ?case using cache_step_inv by blast
qed

section \<open>Properties\<close>

text \<open>
  Size accounting. Whatever operations are called on a new cache, the size of every collection is the
  sum of the sizes of its entries and the size of the cache is the sum over its collections, so
  \<open>getSize\<close> never drifts from what is stored.
\<close>

lemma cache_accounting:
  assumes "cache_reachable (cache_new t m f) c" and "0 \<le> m" and "\<And>v. 0 \<le> f v"
  shows "cache_getSize None c = Inr (map_total c_size (collections c)) \<and>
    (\<forall>coll d. coll_at c coll = Some d \<longrightarrow>
       wf_map (c_values d) \<and> cache_getSize (Some coll) c = Inr (map_total e_size (c_values d)))"
  using cache_reachable_inv [OF assms] by (auto simp: cache_getSize_def cache_inv_def coll_ok_def dest: map_of_SomeD)

text \<open>
  C10. Garbage collection. After a collection the cache is within its limit, the accounting holds, and each
  collection keeps the newest of its entries that are not expired, in their order.
\<close>

theorem cache_gc_bounds:
  assumes "cache_inv c" and "sizes_ok c"
  shows "total_size (fst (cache_gc now c)) \<le> max_size c \<and> cache_inv (fst (cache_gc now c)) \<and>
    (\<exists>m. map_option c_values (coll_at (fst (cache_gc now c)) x) =
          map_option (\<lambda>d. drop m (live_values now d)) (coll_at c x))"
  using cache_gc_result [OF assms(1) sizes_ok_nonneg [OF assms] surjective_pairing] by blast

text \<open>
  Set, then look up. A value that is set is found until its timeout, with its key and collection only,
  and every other entry is looked up as before.
\<close>

lemma cache_set_getInstant:
  assumes "settings c coll = Some (t, f)"
  shows "snd (cache_getInstant now' x y (fst (cache_set now coll key v StatusValue c))) =
    (if x = coll \<and> y = key then (if now + t < now' then Miss else Hit (Payload v))
     else snd (cache_getInstant now' x y c))"
  using cache_set_entry [OF assms, of StatusValue] assms by (simp add: cache_getInstant_result)

section \<open>Instances of the properties\<close>

definition sample_cache :: "int cache2" where
  "sample_cache = fst (cache_set 0 ''c'' ''k'' 7 StatusValue
     (case cache_register ''c'' (Some 100) None (cache_new 1000 4 (\<lambda>v. 8)) of Inr c \<Rightarrow> c | Inl e \<Rightarrow> cache_new 0 0 (\<lambda>v. 0)))"

lemma sample_cache_eq:
  "sample_cache = \<lparr>collections = [(''c'', \<lparr>c_timeoutMs = 100, c_getSize = \<lambda>v. 8,
       c_values = [(''k'', \<lparr>e_data = Payload 7, e_status = StatusValue, e_size = 8, e_timeout = 100\<rparr>)],
       c_size = 8\<rparr>)], total_size = 8, max_size = 4, def_timeoutMs = 1000, def_getSize = \<lambda>v. 8,
     trigger = None, stats = [(''collection-c'', 8), (''all'', 8)]\<rparr>"
  by (simp add: sample_cache_def cache_set_def store_entry_def cache_register_def cache_new_def put_coll_def
      entry_size_def at_key_def Let_def)

lemma sample_cache_reachable: "cache_reachable (cache_new 1000 4 (\<lambda>v. 8)) sample_cache"
proof -
  obtain c :: "int cache2" where c: "cache_register ''c'' (Some 100) None (cache_new 1000 4 (\<lambda>v. 8)) = Inr c"
    by (simp add: cache_register_def cache_new_def)
  then have "cache_reachable (cache_new 1000 4 (\<lambda>v. 8)) c"
    by (blast intro: cache_reachable.intros cache_step.register)
  then show ?thesis
    unfolding sample_cache_def c sum.case
    by (rule cache_reachable.step [OF _ cache_step.set_value]) simp
qed

lemma sample_cache_inv: "cache_inv sample_cache" "sizes_ok sample_cache"
  using cache_reachable_inv [OF sample_cache_reachable] by simp_all

theorem cache_accounting_witness: "cache_getSize None sample_cache = Inr (map_total c_size (collections sample_cache))"
  using cache_accounting [OF sample_cache_reachable] by simp

theorem cache_gc_bounds_witness: "total_size (fst (cache_gc 50 sample_cache)) \<le> 4"
  using cache_gc_bounds [OF sample_cache_inv, of 50] by (simp add: sample_cache_eq)

theorem cache_set_getInstant_witness:
  "snd (cache_getInstant 60 ''c'' ''k'' (fst (cache_set 50 ''c'' ''k'' 9 StatusValue sample_cache))) = Hit (Payload 9)"
  using cache_set_getInstant [of sample_cache "''c''" 100 "\<lambda>v. 8" 60 "''c''" "''k''" 50 "''k''" 9]
  by (simp add: sample_cache_eq settings_def)

end
