(* ===== verification/Cache2_Get.thy ===== *)
theory Cache2_Get
  imports Cache2
begin

text \<open>
  The asynchronous \<open>get(collection, key)\<close> of \<open>nodejs/core/cache2.js\<close>, run by any number of
  callers that interleave at its \<open>await\<close>s, together with the synchronous operations other code
  may call between them.

  A caller is a task. It is \<open>Ready\<close> at the head of the \<open>while (true)\<close> loop, \<open>Waiting\<close> on the
  resolve list of a fetch in progress, \<open>Fetching\<close> (suspended in \<open>await data.fetch(key)\<close>), or
  \<open>Finished\<close>. The resolve list is an array that the entry and the fetching task share: it lives
  in a store, \<open>resolvers\<close>, under the number that both hold. One step runs one task from one
  \<open>await\<close> to the next, or one synchronous operation.
\<close>

section \<open>State and steps\<close>

datatype 'v result = Returns "'v payload" | Fails "'v payload" | AssertFails

datatype 'v task =
    Ready string string
  | Waiting string string nat
  | Fetching string string nat
  | Finished "'v result"

record 'v sys =
  cache :: "'v cache2"
  resolvers :: "nat \<Rightarrow> nat list"
  next_ref :: nat
  tasks :: "nat \<Rightarrow> 'v task option"

definition sys_init :: "'v cache2 \<Rightarrow> 'v sys" where
  "sys_init c = \<lparr>cache = c, resolvers = (\<lambda>_. []), next_ref = 0, tasks = Map.empty\<rparr>"

text \<open>The resolve list of the entry, when its status is \<open>fetching\<close>.\<close>

definition fetching_ref :: "'v cache2 \<Rightarrow> string \<Rightarrow> string \<Rightarrow> nat option" where
  "fetching_ref c coll key =
     (case entry_at c coll key of
        None \<Rightarrow> None
      | Some e \<Rightarrow>
          (if e_status e = StatusFetching
           then (case e_data e of ResolveList r \<Rightarrow> Some r | Payload v \<Rightarrow> None)
           else None))"

text \<open>Mark the entry as being fetched, with a new resolve list and the size it had.\<close>

definition mark_fetching :: "string \<Rightarrow> string \<Rightarrow> nat \<Rightarrow> 'v cache2 \<Rightarrow> 'v cache2" where
  "mark_fetching coll key r c =
     (case coll_at c coll of
        None \<Rightarrow> c
      | Some d \<Rightarrow>
          put_coll coll (d\<lparr>c_values := AList.update key
            \<lparr>e_data = ResolveList r, e_status = StatusFetching, e_size = entry_size d key,
             e_timeout = -1\<rparr> (c_values d)\<rparr>) c)"

text \<open>One round of the loop of \<open>get\<close>, from its head to an \<open>await\<close> or to the end.\<close>

definition get_round :: "int \<Rightarrow> nat \<Rightarrow> string \<Rightarrow> string \<Rightarrow> 'v sys \<Rightarrow> 'v sys" where
  "get_round now tid coll key s =
     (case cache_getInstant now coll key (cache s) of
        (c, Hit v) \<Rightarrow> s\<lparr>cache := c, tasks := (tasks s)(tid \<mapsto> Finished (Returns v))\<rparr>
      | (c, Throws e) \<Rightarrow> s\<lparr>cache := c, tasks := (tasks s)(tid \<mapsto> Finished (Fails e))\<rparr>
      | (c, NoCollection) \<Rightarrow> s\<lparr>cache := c, tasks := (tasks s)(tid \<mapsto> Finished AssertFails)\<rparr>
      | (c, Miss) \<Rightarrow>
          (case fetching_ref c coll key of
             Some r \<Rightarrow>
               s\<lparr>cache := c, resolvers := (resolvers s)(r := resolvers s r @ [tid]),
                 tasks := (tasks s)(tid \<mapsto> Waiting coll key r)\<rparr>
           | None \<Rightarrow>
               s\<lparr>cache := mark_fetching coll key (next_ref s) c,
                 resolvers := (resolvers s)(next_ref s := []),
                 next_ref := Suc (next_ref s),
                 tasks := (tasks s)(tid \<mapsto> Fetching coll key (next_ref s))\<rparr>))"

text \<open>\<open>resolveList.forEach((resolve) => resolve())\<close>: the waiting tasks run again.\<close>

definition wake :: "nat list \<Rightarrow> (nat \<Rightarrow> 'v task option) \<Rightarrow> (nat \<Rightarrow> 'v task option)" where
  "wake tids ts = (\<lambda>t. case ts t of
       Some (Waiting coll key r) \<Rightarrow> if t \<in> set tids then Some (Ready coll key) else ts t
     | _ \<Rightarrow> ts t)"

text \<open>The fetch returned a value (\<open>Inr\<close>) or threw (\<open>Inl\<close>): store it, then wake the waiting.\<close>

definition fetch_done :: "int \<Rightarrow> nat \<Rightarrow> string \<Rightarrow> string \<Rightarrow> nat \<Rightarrow> 'v + 'v \<Rightarrow> 'v sys \<Rightarrow> 'v sys" where
  "fetch_done now tid coll key r outcome s =
     (let (c, res) =
        (case outcome of
           Inr v \<Rightarrow> (fst (cache_set now coll key v StatusValue (cache s)), Returns (Payload v))
         | Inl e \<Rightarrow> (fst (cache_set now coll key e StatusError (cache s)), Fails (Payload e)))
      in s\<lparr>cache := c, tasks := wake (resolvers s r) ((tasks s)(tid \<mapsto> Finished res))\<rparr>)"

inductive get_step :: "'v sys \<Rightarrow> 'v sys \<Rightarrow> bool" where
  call: "tasks s tid = None \<Longrightarrow> get_step s (s\<lparr>tasks := (tasks s)(tid \<mapsto> Ready coll key)\<rparr>)"
| round: "tasks s tid = Some (Ready coll key) \<Longrightarrow> 0 \<le> now \<Longrightarrow>
     get_step s (get_round now tid coll key s)"
| fetched: "tasks s tid = Some (Fetching coll key r) \<Longrightarrow>
     get_step s (fetch_done now tid coll key r outcome s)"
| set_value: "type \<noteq> StatusFetching \<Longrightarrow>
     get_step s (s\<lparr>cache := fst (cache_set now coll key v type (cache s))\<rparr>)"
| instant: "get_step s (s\<lparr>cache := fst (cache_getInstant now coll key (cache s))\<rparr>)"
| dirty: "get_step s (s\<lparr>cache := fst (cache_setDirty coll key (cache s))\<rparr>)"
| collect: "get_step s (s\<lparr>cache := fst (cache_gc now (cache s))\<rparr>)"

inductive_cases get_stepE: "get_step s t"

text \<open>
  The runs from a cache whose collections are registered and which holds no fetch in progress.
\<close>

inductive get_reachable :: "'v cache2 \<Rightarrow> 'v sys \<Rightarrow> bool" for c0 where
  start: "get_reachable c0 (sys_init c0)"
| step: "get_reachable c0 s \<Longrightarrow> get_step s t \<Longrightarrow> get_reachable c0 t"

section \<open>The invariant\<close>

text \<open>An entry being fetched holds a resolve list and is out of date; any other holds a value.\<close>

definition entry_ok :: "'v entry \<Rightarrow> bool" where
  "entry_ok e = (if e_status e = StatusFetching
                 then (\<exists>r. e_data e = ResolveList r) \<and> e_timeout e = -1
                 else (\<exists>v. e_data e = Payload v))"

definition entries_ok :: "'v cache2 \<Rightarrow> bool" where
  "entries_ok c = (\<forall>x y e. entry_at c x y = Some e \<longrightarrow> entry_ok e)"

text \<open>
  Each waiting task is in the resolve list it waits on, and the task that fetches for that list
  is still fetching; the lists of two fetching tasks are distinct; the list of an entry belongs
  to a fetching task of that entry; a finished task holds a value or an error, never a list.
\<close>

definition waiting_ok :: "'v sys \<Rightarrow> bool" where
  "waiting_ok s = (\<forall>tid x y r. tasks s tid = Some (Waiting x y r) \<longrightarrow>
     tid \<in> set (resolvers s r) \<and> (\<exists>owner. tasks s owner = Some (Fetching x y r)))"

definition fetching_ok :: "'v sys \<Rightarrow> bool" where
  "fetching_ok s =
     ((\<forall>tid x y r. tasks s tid = Some (Fetching x y r) \<longrightarrow>
          r < next_ref s \<and> settings (cache s) x \<noteq> None) \<and>
      (\<forall>t1 t2 x1 y1 x2 y2 r. tasks s t1 = Some (Fetching x1 y1 r) \<longrightarrow>
          tasks s t2 = Some (Fetching x2 y2 r) \<longrightarrow> t1 = t2))"

definition owned_ok :: "'v sys \<Rightarrow> bool" where
  "owned_ok s = (\<forall>x y r. fetching_ref (cache s) x y = Some r \<longrightarrow>
     (\<exists>owner. tasks s owner = Some (Fetching x y r)))"

definition finished_ok :: "'v sys \<Rightarrow> bool" where
  "finished_ok s = (\<forall>tid res. tasks s tid = Some (Finished res) \<longrightarrow>
     (\<exists>v. res = Returns (Payload v)) \<or> (\<exists>v. res = Fails (Payload v)) \<or> res = AssertFails)"

definition sys_inv :: "'v sys \<Rightarrow> bool" where
  "sys_inv s = (cache_inv (cache s) \<and> sizes_ok (cache s) \<and> entries_ok (cache s) \<and>
     waiting_ok s \<and> fetching_ok s \<and> owned_ok s \<and> finished_ok s)"

lemmas sys_inv_defs = sys_inv_def waiting_ok_def fetching_ok_def owned_ok_def finished_ok_def

text \<open>The operations on the cache keep its part of the invariant and free no fetch in progress.\<close>

definition cache_ok :: "'v cache2 \<Rightarrow> bool" where
  "cache_ok c = (cache_inv c \<and> sizes_ok c \<and> entries_ok c)"

lemma entries_okD: "entries_ok c \<Longrightarrow> entry_at c x y = Some e \<Longrightarrow> entry_ok e"
  by (auto simp: entries_ok_def)

lemma entry_ok_dirty: "entry_ok e \<Longrightarrow> entry_ok (e\<lparr>e_timeout := -1\<rparr>)"
  by (auto simp: entry_ok_def split: if_splits)

lemma fetching_ref_cong: "entry_at c = entry_at c' \<Longrightarrow> fetching_ref c = fetching_ref c'"
  by (simp add: fetching_ref_def fun_eq_iff)

lemma cache_set_ok:
  assumes "cache_ok c" and "type \<noteq> StatusFetching"
  shows "cache_ok (fst (cache_set now coll key v type c))"
    and "settings (fst (cache_set now coll key v type c)) = settings c"
    and "fetching_ref (fst (cache_set now coll key v type c)) x y =
      (if settings c coll \<noteq> None \<and> x = coll \<and> y = key then None else fetching_ref c x y)"
proof -
  let ?c = "fst (cache_set now coll key v type c)"
  have "cache_ok ?c \<and> settings ?c = settings c \<and> fetching_ref ?c x y =
      (if settings c coll \<noteq> None \<and> x = coll \<and> y = key then None else fetching_ref c x y)"
  proof (cases "settings c coll")
    case None
    then show ?thesis using assms by (simp add: cache_set_no_collection)
  next
    case (Some tf)
    then obtain t f where tf: "settings c coll = Some (t, f)" by (cases tf) auto
    note entry = cache_set_entry [OF tf assms(2)]
    have "cache_inv ?c"
      using assms(1) entry(1) cache_set_inv [of c now coll key v type ?c]
      by (simp add: cache_ok_def) (metis prod.collapse)
    moreover have "entries_ok ?c"
      using assms by (auto simp: entries_ok_def entry entry_ok_def cache_ok_def)
    ultimately show ?thesis
      using assms Some by (auto simp: cache_ok_def entry(3) fetching_ref_def entry(2) intro: sizes_ok_ops)
  qed
  then show "cache_ok ?c" "settings ?c = settings c" "fetching_ref ?c x y =
      (if settings c coll \<noteq> None \<and> x = coll \<and> y = key then None else fetching_ref c x y)"
    by blast+
qed

lemma cache_getInstant_ok:
  assumes "cache_ok c"
  shows "cache_ok (fst (cache_getInstant now coll key c))"
    and "fetching_ref (fst (cache_getInstant now coll key c)) = fetching_ref c"
  using assms cache_getInstant_inv [of c now coll key] sizes_ok_ops(2) [of c now coll key]
  by (auto simp: cache_ok_def entries_ok_def cache_getInstant_frame
      intro: fetching_ref_cong) (metis prod.collapse)

lemma cache_setDirty_ok:
  assumes "cache_ok c"
  shows "cache_ok (fst (cache_setDirty coll key c))"
    and "fetching_ref (fst (cache_setDirty coll key c)) = fetching_ref c"
proof -
  show "cache_ok (fst (cache_setDirty coll key c))"
    using assms cache_setDirty_inv [of c coll key] sizes_ok_ops(3) [of c coll key]
    by (auto simp: cache_ok_def entries_ok_def cache_setDirty_entry intro: entry_ok_dirty)
       (metis prod.collapse)
  show "fetching_ref (fst (cache_setDirty coll key c)) = fetching_ref c"
    by (auto simp: fun_eq_iff fetching_ref_def cache_setDirty_entry split: option.splits)
qed

lemma cache_gc_ok:
  assumes "cache_ok c"
  shows "cache_ok (fst (cache_gc now c))"
    and "fetching_ref (fst (cache_gc now c)) x y = Some r \<Longrightarrow> fetching_ref c x y = Some r"
proof -
  have inv: "cache_inv c" "sizes_ok c" using assms by (simp_all add: cache_ok_def)
  note gc = cache_gc_entry [OF inv(1) sizes_ok_nonneg [OF inv]]
  obtain c' res where "cache_gc now c = (c', res)" by (cases "cache_gc now c")
  from cache_gc_result(1) [OF inv(1) sizes_ok_nonneg [OF inv] this] this
  have "cache_inv (fst (cache_gc now c))" by simp
  then show "cache_ok (fst (cache_gc now c))"
    using assms sizes_ok_ops(4) [OF inv(2,1)] gc [THEN conjunct1]
    unfolding cache_ok_def entries_ok_def by blast
  show "fetching_ref (fst (cache_gc now c)) x y = Some r \<Longrightarrow> fetching_ref c x y = Some r"
    using gc [of now x y] by (auto simp: fetching_ref_def split: option.splits)
qed


lemma mark_fetching_ok:
  assumes "cache_ok c" and "settings c coll \<noteq> None"
  shows "cache_ok (mark_fetching coll key r c)"
    and "settings (mark_fetching coll key r c) = settings c"
    and "fetching_ref (mark_fetching coll key r c) x y =
      (if x = coll \<and> y = key then Some r else fetching_ref c x y)"
proof -
  obtain d where d: "coll_at c coll = Some d" using assms(2) by (auto simp: settings_def)
  let ?e = "\<lparr>e_data = ResolveList r, e_status = StatusFetching, e_size = entry_size d key,
             e_timeout = -1\<rparr> :: 'a entry"
  let ?d = "d\<lparr>c_values := AList.update key ?e (c_values d)\<rparr>"
  have m: "mark_fetching coll key r c = put_coll coll ?d c"
    using d by (simp add: mark_fetching_def)
  have entry: "entry_at (put_coll coll ?d c) x y = (if x = coll \<and> y = key then Some ?e else entry_at c x y)"
    for x y using d by (simp add: entry_at_put) (simp add: entry_at_def)
  have inv: "cache_inv c" using assms(1) by (simp add: cache_ok_def)
  have "coll_ok ?d"
    using cache_inv_coll [OF inv d]
    by (simp add: coll_ok_def map_total_update entry_size_def)
  then have "cache_inv (put_coll coll ?d c)"
    by (intro cache_inv_put_same [OF inv d]) simp_all
  moreover have sett: "settings (put_coll coll ?d c) = settings c"
    using d by (auto simp: settings_put fun_eq_iff settings_def)
  moreover have "0 \<le> entry_size d key"
  proof (cases "map_of (c_values d) key")
    case (Some e)
    then have "entry_at c coll key = Some e" using d by (simp add: entry_at_def)
    then have "0 \<le> e_size e" using assms(1) unfolding cache_ok_def sizes_ok_def by blast
    with Some show ?thesis by (simp add: entry_size_def at_key_def)
  qed (simp add: entry_size_def at_key_def)
  then have nn: "0 \<le> e_size e" if "entry_at (put_coll coll ?d c) a b = Some e" for a b e
    using that assms(1) unfolding cache_ok_def sizes_ok_def entry by (auto split: if_splits)
  have "sizes_ok c" using assms(1) by (simp add: cache_ok_def)
  then have "sizes_ok (put_coll coll ?d c)"
    by (rule sizes_ok_step [OF _ params_frame(4) sett nn])
  moreover have "entries_ok (put_coll coll ?d c)"
    using assms(1) by (auto simp: entries_ok_def entry cache_ok_def entry_ok_def)
  ultimately show "cache_ok (mark_fetching coll key r c)"
    "settings (mark_fetching coll key r c) = settings c"
    by (simp_all add: m cache_ok_def)
  show "fetching_ref (mark_fetching coll key r c) x y =
      (if x = coll \<and> y = key then Some r else fetching_ref c x y)"
    by (simp add: m fetching_ref_def entry)
qed

lemma sys_inv_alt:
  "sys_inv s = (cache_ok (cache s) \<and> waiting_ok s \<and> fetching_ok s \<and> owned_ok s \<and> finished_ok s)"
  by (auto simp: sys_inv_def cache_ok_def)

lemma waiting_okD:
  "sys_inv s \<Longrightarrow> tasks s tid = Some (Waiting x y r) \<Longrightarrow>
     tid \<in> set (resolvers s r) \<and> (\<exists>owner. tasks s owner = Some (Fetching x y r))"
  unfolding sys_inv_alt waiting_ok_def by blast

lemma fetching_okD:
  "sys_inv s \<Longrightarrow> tasks s tid = Some (Fetching x y r) \<Longrightarrow>
     r < next_ref s \<and> settings (cache s) x \<noteq> None"
  unfolding sys_inv_alt fetching_ok_def by blast

lemma fetching_uniqueD:
  "sys_inv s \<Longrightarrow> tasks s t1 = Some (Fetching x1 y1 r) \<Longrightarrow> tasks s t2 = Some (Fetching x2 y2 r) \<Longrightarrow>
     t1 = t2"
  unfolding sys_inv_alt fetching_ok_def by blast

lemma owned_okD:
  "sys_inv s \<Longrightarrow> fetching_ref (cache s) x y = Some r \<Longrightarrow> \<exists>owner. tasks s owner = Some (Fetching x y r)"
  unfolding sys_inv_alt owned_ok_def by blast

lemma sys_inv_init:
  assumes "cache_ok c" and "\<forall>x y. fetching_ref c x y = None"
  shows "sys_inv (sys_init c)"
  using assms by (simp add: sys_inv_alt sys_init_def waiting_ok_def fetching_ok_def owned_ok_def
      finished_ok_def)

text \<open>A step of the cache alone.\<close>

lemma sys_inv_cache:
  assumes "sys_inv s" and "cache_ok c" and "settings c = settings (cache s)"
    and "\<And>x y r. fetching_ref c x y = Some r \<Longrightarrow> fetching_ref (cache s) x y = Some r"
  shows "sys_inv (s\<lparr>cache := c\<rparr>)"
  using assms unfolding sys_inv_alt waiting_ok_def fetching_ok_def owned_ok_def finished_ok_def
  by simp

lemma sys_inv_finish:
  assumes "sys_inv s" and "tasks s tid = Some (Ready x y)"
    and "(\<exists>v. res = Returns (Payload v)) \<or> (\<exists>v. res = Fails (Payload v)) \<or> res = AssertFails"
  shows "sys_inv (s\<lparr>tasks := (tasks s)(tid \<mapsto> Finished res)\<rparr>)"
proof -
  let ?s = "s\<lparr>tasks := (tasks s)(tid \<mapsto> Finished res)\<rparr>"
  have fetch: "tasks ?s t = Some (Fetching a b q) \<longleftrightarrow> tasks s t = Some (Fetching a b q)" for t a b q
    using assms(2) by simp
  have wait: "tasks ?s t = Some (Waiting a b q) \<longleftrightarrow> tasks s t = Some (Waiting a b q)" for t a b q
    using assms(2) by simp
  have "finished_ok ?s"
    using assms(1,3) unfolding sys_inv_alt finished_ok_def by (auto split: if_splits)
  then show ?thesis
    using assms(1) unfolding sys_inv_alt waiting_ok_def fetching_ok_def owned_ok_def fetch wait
    by simp
qed

lemma sys_inv_wait:
  assumes "sys_inv s" and "tasks s tid = Some (Ready x y)" and "fetching_ref (cache s) x y = Some r"
  shows "sys_inv (s\<lparr>resolvers := (resolvers s)(r := resolvers s r @ [tid]),
                    tasks := (tasks s)(tid \<mapsto> Waiting x y r)\<rparr>)"
    (is "sys_inv ?s")
proof -
  obtain owner where owner: "tasks s owner = Some (Fetching x y r)"
    using owned_okD [OF assms(1,3)] by blast
  have other: "t \<noteq> tid" if "tasks s t = Some (Fetching a b q)" for t a b q
    using that assms(2) by auto
  have fetch: "tasks ?s t = Some (Fetching a b q) \<longleftrightarrow> tasks s t = Some (Fetching a b q)" for t a b q
    using assms(2) by simp
  have waits: "waiting_ok ?s"
    unfolding waiting_ok_def fetch
  proof (intro allI impI)
    fix t a b q assume t: "tasks ?s t = Some (Waiting a b q)"
    show "t \<in> set (resolvers ?s q) \<and> (\<exists>owner. tasks s owner = Some (Fetching a b q))"
    proof (cases "t = tid")
      case True
      then show ?thesis using t owner by auto
    next
      case False
      then show ?thesis using t waiting_okD [OF assms(1), of t a b q] by auto
    qed
  qed
  have "owned_ok ?s"
    using assms(1) unfolding sys_inv_alt owned_ok_def fetch by simp
  with waits assms(1) show ?thesis
    by (auto simp: sys_inv_alt fetching_ok_def finished_ok_def)
qed

lemma sys_inv_fetch:
  assumes "sys_inv s" and "tasks s tid = Some (Ready x y)" and "settings (cache s) x \<noteq> None"
    and "fetching_ref (cache s) x y = None"
  shows "sys_inv (s\<lparr>cache := mark_fetching x y (next_ref s) (cache s),
                    resolvers := (resolvers s)(next_ref s := []), next_ref := Suc (next_ref s),
                    tasks := (tasks s)(tid \<mapsto> Fetching x y (next_ref s))\<rparr>)"
    (is "sys_inv ?s")
proof -
  have ok: "cache_ok (cache s)" using assms(1) by (simp add: sys_inv_alt)
  note mark = mark_fetching_ok [OF ok assms(3)]
  have other: "t \<noteq> tid" if "tasks s t = Some (Fetching a b q)" for t a b q
    using that assms(2) by auto
  have fresh: "q < next_ref s" if "tasks s t = Some (Fetching a b q)" for t a b q
    using fetching_okD [OF assms(1) that] by simp
  have "waiting_ok ?s"
    unfolding waiting_ok_def
  proof (intro allI impI)
    fix t a b q assume "tasks ?s t = Some (Waiting a b q)"
    then have t: "tasks s t = Some (Waiting a b q)" by (simp split: if_splits)
    then obtain owner where "tasks s owner = Some (Fetching a b q)" "t \<in> set (resolvers s q)"
      using waiting_okD [OF assms(1) t] by blast
    then show "t \<in> set (resolvers ?s q) \<and> (\<exists>owner. tasks ?s owner = Some (Fetching a b q))"
      using fresh [of owner a b q] other [of owner a b q] by auto
  qed
  moreover have "fetching_ok ?s"
    unfolding fetching_ok_def
  proof (intro conjI allI impI)
    fix t a b q assume t: "tasks ?s t = Some (Fetching a b q)"
    show "q < next_ref ?s" "settings (cache ?s) a \<noteq> None"
      using t assms(3) fetching_okD [OF assms(1), of t a b q]
      by (auto simp: mark(2) split: if_splits)
  next
    fix t1 t2 a1 b1 a2 b2 q
    assume "tasks ?s t1 = Some (Fetching a1 b1 q)" "tasks ?s t2 = Some (Fetching a2 b2 q)"
    then show "t1 = t2"
      using fresh [of t1 a1 b1 q] fresh [of t2 a2 b2 q] fetching_uniqueD [OF assms(1), of t1 a1 b1 q t2]
      by (auto split: if_splits)
  qed
  moreover have "owned_ok ?s"
    unfolding owned_ok_def
  proof (intro allI impI)
    fix a b q assume q: "fetching_ref (cache ?s) a b = Some q"
    show "\<exists>owner. tasks ?s owner = Some (Fetching a b q)"
    proof (cases "a = x \<and> b = y")
      case True
      then show ?thesis using q by (intro exI [where x = tid]) (simp add: mark(3))
    next
      case False
      then obtain owner where "tasks s owner = Some (Fetching a b q)"
        using q owned_okD [OF assms(1), of a b q] by (auto simp: mark(3))
      with other show ?thesis by (intro exI [where x = owner]) auto
    qed
  qed
  moreover have "finished_ok ?s" using assms(1) by (simp add: sys_inv_alt finished_ok_def)
  ultimately show ?thesis using mark(1) by (simp add: sys_inv_alt)
qed


lemma cache_getInstant_cases:
  assumes "cache_ok c" and "0 \<le> now"
  shows "snd (cache_getInstant now coll key c) = Hit p \<Longrightarrow> \<exists>v. p = Payload v"
    and "snd (cache_getInstant now coll key c) = Throws p \<Longrightarrow> \<exists>v. p = Payload v"
    and "snd (cache_getInstant now coll key c) = Miss \<Longrightarrow> settings c coll \<noteq> None"
proof -
  have ok: "entry_at c coll key = Some e \<Longrightarrow> entry_ok e" for e
    using assms(1) by (auto simp: cache_ok_def entries_ok_def)
  show "\<exists>v. p = Payload v" if hit: "snd (cache_getInstant now coll key c) = Hit p"
  proof -
    obtain e where "entry_at c coll key = Some e" "\<not> e_timeout e < now" "p = e_data e"
      using hit by (auto simp: cache_getInstant_result split: option.splits if_splits)
    with ok [of e] assms(2) show ?thesis by (auto simp: entry_ok_def split: if_splits)
  qed
  show "\<exists>v. p = Payload v" if throws: "snd (cache_getInstant now coll key c) = Throws p"
  proof -
    obtain e where "entry_at c coll key = Some e" "e_status e = StatusError" "p = e_data e"
      using throws by (auto simp: cache_getInstant_result split: option.splits if_splits)
    with ok [of e] show ?thesis by (auto simp: entry_ok_def)
  qed
  show "snd (cache_getInstant now coll key c) = Miss \<Longrightarrow> settings c coll \<noteq> None"
    by (auto simp: cache_getInstant_result split: if_splits)
qed

lemma sys_inv_round:
  assumes "sys_inv s" and "tasks s tid = Some (Ready coll key)" and "0 \<le> now"
  shows "sys_inv (get_round now tid coll key s)"
proof -
  obtain c r where g: "cache_getInstant now coll key (cache s) = (c, r)"
    by (cases "cache_getInstant now coll key (cache s)")
  have ok: "cache_ok (cache s)" using assms(1) by (simp add: sys_inv_alt)
  have c: "cache_ok c" "fetching_ref c = fetching_ref (cache s)" "settings c = settings (cache s)"
    using cache_getInstant_ok [OF ok, of now coll key] cache_getInstant_frame(2) [of now coll key "cache s"] g
    by simp_all
  let ?s = "s\<lparr>cache := c\<rparr>"
  have inv: "sys_inv ?s" using sys_inv_cache [OF assms(1) c(1,3)] c(2) by simp
  have ready: "tasks ?s tid = Some (Ready coll key)" using assms(2) by simp
  note payload = cache_getInstant_cases [OF ok assms(3), of coll key, unfolded g snd_conv]
  show ?thesis
  proof (cases r)
    case (Hit p)
    then show ?thesis
      using sys_inv_finish [OF inv ready, of "Returns p"] payload(1) g by (simp add: get_round_def)
  next
    case (Throws p)
    then show ?thesis
      using sys_inv_finish [OF inv ready, of "Fails p"] payload(2) g by (simp add: get_round_def)
  next
    case NoCollection
    then show ?thesis
      using sys_inv_finish [OF inv ready, of AssertFails] g by (simp add: get_round_def)
  next
    case Miss
    then have coll: "settings (cache ?s) coll \<noteq> None" using payload(3) c(3) by simp
    show ?thesis
    proof (cases "fetching_ref c coll key")
      case None
      then show ?thesis
        using sys_inv_fetch [OF inv ready coll] Miss g by (simp add: get_round_def)
    next
      case (Some q)
      then show ?thesis
        using sys_inv_wait [OF inv ready, of q] Miss g by (simp add: get_round_def)
    qed
  qed
qed

lemma wake_simps:
  "wake tids ts t = Some (Fetching x y r) \<longleftrightarrow> ts t = Some (Fetching x y r)"
  "wake tids ts t = Some (Finished res) \<longleftrightarrow> ts t = Some (Finished res)"
  "wake tids ts t = Some (Waiting x y r) \<longleftrightarrow> ts t = Some (Waiting x y r) \<and> t \<notin> set tids"
  by (auto simp: wake_def split: option.splits task.splits)

lemma sys_inv_fetched:
  assumes "sys_inv s" and "tasks s tid = Some (Fetching coll key r)"
  shows "sys_inv (fetch_done now tid coll key r outcome s)"
proof -
  define type where "type = (case outcome of Inr v \<Rightarrow> StatusValue | Inl e \<Rightarrow> StatusError)"
  define v where "v = (case outcome of Inr v \<Rightarrow> v | Inl e \<Rightarrow> e)"
  define res where "res = (case outcome of Inr v \<Rightarrow> Returns (Payload v) | Inl e \<Rightarrow> Fails (Payload e))"
  define c where "c = fst (cache_set now coll key v type (cache s))"
  let ?ts = "wake (resolvers s r) ((tasks s)(tid \<mapsto> Finished res))"
  have step: "fetch_done now tid coll key r outcome s = s\<lparr>cache := c, tasks := ?ts\<rparr>" (is "_ = ?s")
    by (simp add: fetch_done_def c_def type_def v_def res_def split: sum.splits)
  have ty: "type \<noteq> StatusFetching" by (simp add: type_def split: sum.splits)
  have ok: "cache_ok (cache s)" using assms(1) by (simp add: sys_inv_alt)
  note set = cache_set_ok [OF ok ty, of now coll key v, folded c_def]
  have keep: "?ts t = Some (Fetching a b q) \<longleftrightarrow> tasks s t = Some (Fetching a b q) \<and> t \<noteq> tid" for t a b q
    by (auto simp: wake_simps)
  have "waiting_ok ?s"
    unfolding waiting_ok_def
  proof (intro allI impI)
    fix t a b q assume "tasks ?s t = Some (Waiting a b q)"
    then have t: "tasks s t = Some (Waiting a b q)" "t \<notin> set (resolvers s r)"
      by (auto simp: wake_simps split: if_splits)
    then obtain owner where owner: "tasks s owner = Some (Fetching a b q)" "t \<in> set (resolvers s q)"
      using waiting_okD [OF assms(1)] by blast
    with t(2) have "q \<noteq> r" by auto
    with owner(1) assms(2) have "owner \<noteq> tid" by auto
    then show "t \<in> set (resolvers ?s q) \<and> (\<exists>owner. tasks ?s owner = Some (Fetching a b q))"
      using owner keep by auto
  qed
  moreover have "fetching_ok ?s"
    using assms(1) unfolding sys_inv_alt fetching_ok_def by (simp add: keep set(2)) blast
  moreover have "owned_ok ?s"
    unfolding owned_ok_def
  proof (intro allI impI)
    fix a b q assume "fetching_ref (cache ?s) a b = Some q"
    then have old: "fetching_ref (cache s) a b = Some q" "\<not> (a = coll \<and> b = key)"
      using fetching_okD [OF assms] by (auto simp: set(3) split: if_splits)
    then obtain owner where owner: "tasks s owner = Some (Fetching a b q)"
      using owned_okD [OF assms(1)] by blast
    with old(2) assms(2) have "owner \<noteq> tid" by auto
    with owner show "\<exists>owner. tasks ?s owner = Some (Fetching a b q)" using keep by auto
  qed
  moreover have "finished_ok ?s"
    using assms(1) unfolding sys_inv_alt finished_ok_def
    by (auto simp: wake_simps res_def split: if_splits sum.splits)
  ultimately show ?thesis unfolding step using set(1) by (simp add: sys_inv_alt)
qed

lemma get_step_inv: "get_step s t \<Longrightarrow> sys_inv s \<Longrightarrow> sys_inv t"
proof (induction rule: get_step.induct)
  case (call s tid coll key)
  then show ?case
    unfolding sys_inv_alt waiting_ok_def fetching_ok_def owned_ok_def finished_ok_def
    by (simp add: fun_upd_def) (metis option.distinct(1))
next
  case (round s tid coll key now)
  then show ?case by (blast intro: sys_inv_round)
next
  case (fetched s tid coll key r now outcome)
  then show ?case by (blast intro: sys_inv_fetched)
next
  case (set_value type s now coll key v)
  then have ok: "cache_ok (cache s)" by (simp add: sys_inv_alt)
  show ?case
    using set_value cache_set_ok [OF ok set_value(1)] by (intro sys_inv_cache) (auto split: if_splits)
next
  case (instant s now coll key)
  then have ok: "cache_ok (cache s)" by (simp add: sys_inv_alt)
  show ?case
    using instant cache_getInstant_ok [OF ok] cache_getInstant_frame by (intro sys_inv_cache) auto
next
  case (dirty s coll key)
  then have ok: "cache_ok (cache s)" by (simp add: sys_inv_alt)
  show ?case
    using dirty cache_setDirty_ok [OF ok] cache_setDirty_entry(2) by (intro sys_inv_cache) auto
next
  case (collect s now)
  then have ok: "cache_ok (cache s)" by (simp add: sys_inv_alt)
  show ?case
    using collect cache_gc_ok [OF ok] cache_gc_settings by (intro sys_inv_cache) auto
qed

lemma get_reachable_inv:
  "get_reachable c0 s \<Longrightarrow> cache_ok c0 \<Longrightarrow> \<forall>x y. fetching_ref c0 x y = None \<Longrightarrow> sys_inv s"
  by (induction rule: get_reachable.induct) (auto intro: sys_inv_init get_step_inv)

text \<open>No lost wake-up: the end of the fetch a task waits for makes that task run again.\<close>

lemma waiting_woken:
  assumes "sys_inv s" and "tasks s tid = Some (Waiting coll key r)"
  shows "\<exists>owner. tasks s owner = Some (Fetching coll key r) \<and>
           (\<forall>now outcome. tasks (fetch_done now owner coll key r outcome s) tid = Some (Ready coll key))"
proof -
  obtain owner where owner: "tasks s owner = Some (Fetching coll key r)" "tid \<in> set (resolvers s r)"
    using waiting_okD [OF assms] by blast
  then have "owner \<noteq> tid" using assms(2) by auto
  then have "tasks (fetch_done now owner coll key r outcome s) tid = Some (Ready coll key)" for now outcome
    using assms(2) owner(2) by (simp add: fetch_done_def wake_def split: sum.splits)
  with owner(1) show ?thesis by blast
qed

section \<open>Properties\<close>

text \<open>
  C2. Concurrent \<open>get\<close>s. However the callers interleave with each other, with the other operations and
  with the garbage collector, a caller that waits for a fetch waits for one that is under way, and the
  end of that fetch, whether it returns or throws, makes the caller run again: no wake-up is lost.
\<close>

theorem waiting_is_woken:
  assumes "get_reachable c0 s" and "cache_ok c0" and "\<forall>x y. fetching_ref c0 x y = None"
    and "tasks s tid = Some (Waiting coll key r)"
  shows "\<exists>owner. tasks s owner = Some (Fetching coll key r) \<and>
    (\<forall>now outcome. tasks (fetch_done now owner coll key r outcome s) tid = Some (Ready coll key))"
  using waiting_woken [OF get_reachable_inv [OF assms(1-3)] assms(4)] .

text \<open>
  A \<open>get\<close> ends with a value or with an error that was stored, never with the internal list of the
  callers that wait, and the size accounting of the cache holds at every point of the interleaving.
\<close>

lemma get_finishes_clean:
  assumes "get_reachable c0 s" and "cache_ok c0" and "\<forall>x y. fetching_ref c0 x y = None"
  shows "cache_inv (cache s) \<and> (\<forall>tid res. tasks s tid = Some (Finished res) \<longrightarrow>
    (\<exists>v. res = Returns (Payload v) \<or> res = Fails (Payload v)) \<or> res = AssertFails)"
  using get_reachable_inv [OF assms] by (auto simp: sys_inv_def finished_ok_def)

section \<open>Instances of the properties\<close>

lemma sample_cache_ok: "cache_ok sample_cache" "\<forall>x y. fetching_ref sample_cache x y = None"
  using sample_cache_inv
  by (simp_all add: cache_ok_def entries_ok_def entry_ok_def fetching_ref_def)
    (auto simp: sample_cache_eq entry_at_def split: option.splits)

definition sample_sys :: "int sys" where
  "sample_sys = (let s = sys_init sample_cache;
       s1 = s\<lparr>tasks := (tasks s)(0 \<mapsto> Ready ''c'' ''x'')\<rparr>;
       s2 = get_round 1 0 ''c'' ''x'' s1;
       s3 = s2\<lparr>tasks := (tasks s2)(1 \<mapsto> Ready ''c'' ''x'')\<rparr>
     in get_round 2 1 ''c'' ''x'' s3)"

lemmas get_eval = get_round_def cache_getInstant_def fetching_ref_def entry_at_def mark_fetching_def
  put_coll_def entry_size_def at_key_def sys_init_def sample_cache_eq

lemma sample_sys_waits: "tasks sample_sys 1 = Some (Waiting ''c'' ''x'' 0)"
  by (simp add: sample_sys_def Let_def get_eval)

lemma sample_sys_reachable: "get_reachable sample_cache sample_sys"
proof -
  let ?s = "sys_init sample_cache"
  let ?s1 = "?s\<lparr>tasks := (tasks ?s)(0 \<mapsto> Ready ''c'' ''x'')\<rparr>"
  let ?s2 = "get_round 1 0 ''c'' ''x'' ?s1"
  let ?s3 = "?s2\<lparr>tasks := (tasks ?s2)(1 \<mapsto> Ready ''c'' ''x'')\<rparr>"
  have "get_reachable sample_cache ?s1"
    by (rule get_reachable.step [OF get_reachable.start]) (rule get_step.call, simp add: sys_init_def)
  then have "get_reachable sample_cache ?s2"
    by (rule get_reachable.step) (rule get_step.round, simp_all)
  then have "get_reachable sample_cache ?s3"
    by (rule get_reachable.step) (rule get_step.call, simp add: get_eval)
  then have "get_reachable sample_cache (get_round 2 1 ''c'' ''x'' ?s3)"
    by (rule get_reachable.step) (rule get_step.round, simp_all)
  then show ?thesis by (simp only: sample_sys_def Let_def)
qed

theorem waiting_is_woken_witness:
  "\<exists>owner. tasks sample_sys owner = Some (Fetching ''c'' ''x'' 0)"
  using waiting_is_woken [OF sample_sys_reachable sample_cache_ok sample_sys_waits] by blast

theorem get_finishes_clean_witness: "cache_inv (cache sample_sys)"
  using get_finishes_clean [OF sample_sys_reachable sample_cache_ok] by blast

end
