(* ===== verification/RateLimit.thy ===== *)
theory RateLimit
  imports Cache2_Get
begin

text \<open>
  \<open>nodejs/core/rate_limit.js\<close>: the sliding-window rate limiter, which keeps for each key a list
  of timestamps in a collection of the cache.

  The limiter calls \<open>set\<close> and \<open>getInstant\<close> of the cache: its operations take them as arguments,
  the locale \<open>timed_store\<close> states what it needs of them, and the limiter is proved correct
  there. The interpretation on the collection \<open>bucket\<close> of the cache discharges the laws.
\<close>

section \<open>The limiter\<close>

record rl_config =
  threshold :: nat
  windowMs :: int

text \<open>\<open>set(bucket, key, value)\<close> and \<open>getInstant(bucket, key, default)\<close>, where \<open>None\<close> is the default.\<close>

type_synonym 's put_op = "int \<Rightarrow> string \<Rightarrow> int list \<Rightarrow> 's \<Rightarrow> 's \<times> unit outcome"
type_synonym 's look_op = "int \<Rightarrow> string \<Rightarrow> 's \<Rightarrow> 's \<times> int list option outcome"

definition in_window :: "rl_config \<Rightarrow> int \<Rightarrow> int list \<Rightarrow> int list" where
  "in_window cfg now timestamps = filter (\<lambda>timestamp. timestamp > now - windowMs cfg) timestamps"

definition rl_isOverLimit :: "'s look_op \<Rightarrow> rl_config \<Rightarrow> int \<Rightarrow> string \<Rightarrow> 's \<Rightarrow> 's \<times> bool outcome" where
  "rl_isOverLimit look cfg now key s =
     (case look now key s of
        (s', Inl e) \<Rightarrow> (s', Inl e)
      | (s', Inr None) \<Rightarrow> (s', Inr False)
      | (s', Inr (Some timestamps)) \<Rightarrow>
          (s', Inr (length (in_window cfg now timestamps) \<ge> threshold cfg)))"

text \<open>\<open>timestamps.splice(0, timestamps.length - threshold)\<close> when there are too many.\<close>

definition rl_cap :: "nat \<Rightarrow> int list \<Rightarrow> int list" where
  "rl_cap n timestamps =
     (if length timestamps > n then drop (length timestamps - n) timestamps else timestamps)"

definition rl_record :: "'s put_op \<Rightarrow> 's look_op \<Rightarrow> rl_config \<Rightarrow> int \<Rightarrow> string \<Rightarrow> 's \<Rightarrow>
    's \<times> bool outcome" where
  "rl_record put look cfg now key s =
     (case look now key s of
        (s1, Inl e) \<Rightarrow> (s1, Inl e)
      | (s1, Inr entry) \<Rightarrow>
          (let timestamps = rl_cap (threshold cfg)
                 (in_window cfg now (case entry of None \<Rightarrow> [] | Some ts \<Rightarrow> ts) @ [now])
           in case put now key timestamps s1 of
                (s2, Inl e) \<Rightarrow> (s2, Inl e)
              | (s2, Inr _) \<Rightarrow> (s2, Inr (length timestamps < threshold cfg))))"

definition rl_reset :: "'s put_op \<Rightarrow> int \<Rightarrow> string \<Rightarrow> 's \<Rightarrow> 's \<times> unit outcome" where
  "rl_reset put now key s = put now key [] s"

section \<open>What the limiter needs of the cache\<close>

text \<open>
  \<open>view\<close> is the value stored for a key with the time after which it is out of date. A value is
  found as long as it is not out of date, and reading changes no value.
\<close>

locale timed_store =
  fixes put :: "'s put_op"
    and look :: "'s look_op"
    and ok :: "'s \<Rightarrow> bool"
    and view :: "'s \<Rightarrow> string \<Rightarrow> (int list \<times> int) option"
    and ttl :: int
  assumes put_ok: "ok s \<Longrightarrow> ok (fst (put now k v s))"
    and put_returns: "ok s \<Longrightarrow> snd (put now k v s) = Inr ()"
    and put_view: "ok s \<Longrightarrow> view (fst (put now k v s)) = (view s)(k \<mapsto> (v, now + ttl))"
    and look_ok: "ok s \<Longrightarrow> ok (fst (look now k s))"
    and look_view: "ok s \<Longrightarrow> view (fst (look now k s)) = view s"
    and look_returns: "ok s \<Longrightarrow> 0 \<le> now \<Longrightarrow> snd (look now k s) =
      Inr (case view s k of None \<Rightarrow> None | Some (v, t) \<Rightarrow> if t < now then None else Some v)"

text \<open>
  The reference: the unbounded log of the requests of a key. The limiter's stored list stands
  for it when it is the last \<open>threshold\<close> of the requests within the window of the last one.
\<close>

definition last_n :: "nat \<Rightarrow> 'a list \<Rightarrow> 'a list" where
  "last_n n xs = drop (length xs - n) xs"

definition stands_for :: "rl_config \<Rightarrow> (int list \<times> int) option \<Rightarrow> int list \<Rightarrow> bool" where
  "stands_for cfg stored reqs =
     (case stored of
        None \<Rightarrow> reqs = []
      | Some (ts, expiry) \<Rightarrow>
          (if reqs = [] then ts = []
           else expiry = last reqs + windowMs cfg \<and>
                ts = last_n (threshold cfg) (in_window cfg (last reqs) reqs)))"

lemma rl_cap_last_n: "rl_cap n ts = last_n n ts"
  by (simp add: rl_cap_def last_n_def)

lemma length_last_n: "length (last_n n xs) = min n (length xs)"
  by (auto simp: last_n_def)

lemma last_n_rev: "last_n n xs = rev (take n (rev xs))"
  by (simp add: last_n_def rev_take)

lemma last_n_snoc: "last_n n (last_n n xs @ [x]) = last_n n (xs @ [x])"
  by (cases n) (simp_all add: last_n_rev)

text \<open>On sorted timestamps the window commutes with keeping the last ones.\<close>

lemma takeWhile_take: "takeWhile P (take n xs) = take n (takeWhile P xs)"
proof (induction xs arbitrary: n)
  case (Cons x xs)
  then show ?case by (cases n) auto
qed simp

lemma filter_descending:
  "sorted_wrt (\<ge>) xs \<Longrightarrow> filter (\<lambda>t :: int. t > b) xs = takeWhile (\<lambda>t. t > b) xs"
proof (induction xs)
  case (Cons x xs)
  show ?case
  proof (cases "x > b")
    case True
    then show ?thesis using Cons by simp
  next
    case False
    then have "filter (\<lambda>t. t > b) xs = []" using Cons.prems by (auto simp: filter_empty_conv)
    with False show ?thesis by simp
  qed
qed simp

lemma in_window_last_n:
  assumes "sorted ts"
  shows "in_window cfg now (last_n n ts) = last_n n (in_window cfg now ts)"
proof -
  have desc: "sorted_wrt (\<ge>) (rev ts)" "sorted_wrt (\<ge>) (take n (rev ts))"
    using assms by (simp_all add: sorted_wrt_rev sorted_wrt_take)
  let ?P = "\<lambda>timestamp. timestamp > now - windowMs cfg"
  have "filter ?P (rev (take n (rev ts))) = rev (filter ?P (take n (rev ts)))"
    by (simp only: rev_filter)
  also have "\<dots> = rev (take n (filter ?P (rev ts)))"
    by (simp only: filter_descending [OF desc(1)] filter_descending [OF desc(2)] takeWhile_take)
  also have "filter ?P (rev ts) = rev (filter ?P ts)"
    by (simp only: rev_filter)
  finally show ?thesis by (simp only: in_window_def last_n_rev)
qed

lemma in_window_shrink:
  "now \<le> now' \<Longrightarrow> in_window cfg now' (in_window cfg now ts) = in_window cfg now' ts"
  by (auto simp: in_window_def intro!: filter_cong)

lemma sorted_in_window: "sorted ts \<Longrightarrow> sorted (in_window cfg now ts)"
  by (simp add: in_window_def sorted_filter [of id, simplified])

text \<open>What the limiter reads from a stored list is the capped window of the log.\<close>

definition effective :: "rl_config \<Rightarrow> int \<Rightarrow> (int list \<times> int) option \<Rightarrow> int list" where
  "effective cfg now stored =
     (case stored of None \<Rightarrow> [] | Some (ts, expiry) \<Rightarrow> if expiry < now then [] else in_window cfg now ts)"

lemma effective_log:
  assumes "stands_for cfg stored reqs" and "sorted reqs" and "\<forall>t\<in>set reqs. t \<le> now"
  shows "effective cfg now stored = last_n (threshold cfg) (in_window cfg now reqs)"
proof (cases "stored = None \<or> reqs = []")
  case True
  then show ?thesis
    using assms(1)
    by (auto simp: stands_for_def effective_def in_window_def last_n_def split: option.splits if_splits)
next
  case False
  then have last: "\<forall>t\<in>set reqs. t \<le> last reqs" "last reqs \<le> now"
    using assms(2,3) last_in_set [of reqs]
    by (auto simp del: last_in_set simp: in_set_conv_nth last_conv_nth sorted_iff_nth_mono)
  obtain ts expiry where st: "stored = Some (ts, expiry)" "expiry = last reqs + windowMs cfg"
    "ts = last_n (threshold cfg) (in_window cfg (last reqs) reqs)"
    using assms(1) False by (auto simp: stands_for_def split: option.splits)
  show ?thesis
  proof (cases "expiry < now")
    case True
    then have "in_window cfg now reqs = []"
      using last(1) st(2) by (fastforce simp: in_window_def filter_empty_conv)
    then show ?thesis using True st(1) by (simp add: effective_def last_n_def)
  next
    case False
    then show ?thesis
      using st(1,3) in_window_last_n [OF sorted_in_window [OF assms(2)]] in_window_shrink [OF last(2)]
      by (simp add: effective_def)
  qed
qed

context timed_store
begin

lemma record_result:
  fixes s :: 's and now :: int and cfg :: rl_config and k :: string
  assumes "ok s" and "0 \<le> now"
  defines "ts \<equiv> rl_cap (threshold cfg) (effective cfg now (view s k) @ [now])"
  shows "ok (fst (rl_record put look cfg now k s))"
    and "snd (rl_record put look cfg now k s) = Inr (length ts < threshold cfg)"
    and "view (fst (rl_record put look cfg now k s)) = (view s)(k \<mapsto> (ts, now + ttl))"
proof -
  obtain s1 r where look: "look now k s = (s1, r)" by (cases "look now k s")
  have s1: "ok s1" "view s1 = view s" "r = Inr (case view s k of None \<Rightarrow> None
      | Some (v, t) \<Rightarrow> if t < now then None else Some v)"
    using look_ok [OF assms(1), of now k] look_view [OF assms(1), of now k]
      look_returns [OF assms(1,2), of k] look by simp_all
  define entry where "entry = (case view s k of None \<Rightarrow> None
      | Some (v, t) \<Rightarrow> if t < now then None else Some v)"
  have eff: "in_window cfg now (case entry of None \<Rightarrow> [] | Some ts \<Rightarrow> ts) = effective cfg now (view s k)"
    by (auto simp: entry_def effective_def in_window_def split: option.splits)
  obtain s2 u where put: "put now k ts s1 = (s2, u)" by (cases "put now k ts s1")
  have s2: "ok s2" "u = Inr ()" "view s2 = (view s)(k \<mapsto> (ts, now + ttl))"
    using put_ok [OF s1(1), of now k ts] put_returns [OF s1(1), of now k ts]
      put_view [OF s1(1), of now k ts] put s1(2) by simp_all
  have "rl_record put look cfg now k s = (s2, Inr (length ts < threshold cfg))"
    using look s1(3) put s2(2) eff by (simp add: rl_record_def entry_def [symmetric] ts_def Let_def)
  with s2 show "ok (fst (rl_record put look cfg now k s))"
    "snd (rl_record put look cfg now k s) = Inr (length ts < threshold cfg)"
    "view (fst (rl_record put look cfg now k s)) = (view s)(k \<mapsto> (ts, now + ttl))"
    by simp_all
qed

lemma isOverLimit_result:
  assumes "ok s" and "0 \<le> now" and "0 < threshold cfg"
  shows "ok (fst (rl_isOverLimit look cfg now k s))"
    and "view (fst (rl_isOverLimit look cfg now k s)) = view s"
    and "snd (rl_isOverLimit look cfg now k s) =
      Inr (threshold cfg \<le> length (effective cfg now (view s k)))"
  using look_ok [OF assms(1), of now k] look_view [OF assms(1), of now k]
    look_returns [OF assms(1,2), of k] assms(3)
  by (auto simp: rl_isOverLimit_def effective_def split: prod.splits option.splits sum.splits)

text \<open>
  The limiter against the log: the answer of a request counts the requests of its key within
  the window, itself included, and the stored list keeps standing for the log.
\<close>

lemma record_log:
  assumes "ok s" and "0 \<le> now" and "ttl = windowMs cfg" and "0 < windowMs cfg"
    and "stands_for cfg (view s k) reqs" and "sorted reqs" and "\<forall>t\<in>set reqs. t \<le> now"
  shows "snd (rl_record put look cfg now k s) =
      Inr (length (in_window cfg now (reqs @ [now])) < threshold cfg)"
    and "stands_for cfg (view (fst (rl_record put look cfg now k s)) k) (reqs @ [now])"
proof -
  have snoc: "in_window cfg now (reqs @ [now]) = in_window cfg now reqs @ [now]"
    using assms(4) by (simp add: in_window_def)
  have ts: "rl_cap (threshold cfg) (effective cfg now (view s k) @ [now]) =
      last_n (threshold cfg) (in_window cfg now (reqs @ [now]))"
    by (simp add: effective_log [OF assms(5-7)] rl_cap_last_n last_n_snoc snoc)
  show "snd (rl_record put look cfg now k s) =
      Inr (length (in_window cfg now (reqs @ [now])) < threshold cfg)"
    using record_result(2) [OF assms(1,2), of cfg k] by (auto simp: ts length_last_n)
  show "stands_for cfg (view (fst (rl_record put look cfg now k s)) k) (reqs @ [now])"
    using record_result(3) [OF assms(1,2), of cfg k] assms(3) by (simp add: ts stands_for_def)
qed

end

section \<open>The limiter on the cache\<close>

definition rl_put :: "string \<Rightarrow> int list cache2 put_op" where
  "rl_put bucket now key v c = cache_set now bucket key v StatusValue c"

text \<open>
  \<open>getInstant\<close> as the limiter uses it: \<open>entry.timestamps ?? []\<close> of anything but an entry the
  limiter has stored is \<open>[]\<close>.
\<close>

definition rl_look :: "string \<Rightarrow> int list cache2 look_op" where
  "rl_look bucket now key c =
     (case cache_getInstant now bucket key c of
        (c', Hit (Payload v)) \<Rightarrow> (c', Inr (Some v))
      | (c', Hit (ResolveList r)) \<Rightarrow> (c', Inr (Some []))
      | (c', Miss) \<Rightarrow> (c', Inr None)
      | (c', Throws p) \<Rightarrow> (c', Inl (Raised ''cached error''))
      | (c', NoCollection) \<Rightarrow> (c', Inl AssertFailed))"

text \<open>The constructor registers the collection with the window as its timeout.\<close>

definition rl_new :: "string \<Rightarrow> rl_config \<Rightarrow> int list cache2 \<Rightarrow> int list cache2 outcome" where
  "rl_new bucket cfg c = cache_register bucket (Some (windowMs cfg)) None c"

definition rl_ok :: "string \<Rightarrow> int \<Rightarrow> int list cache2 \<Rightarrow> bool" where
  "rl_ok bucket w c = (cache_ok c \<and> (\<exists>f. settings c bucket = Some (w, f)) \<and>
     (\<forall>key e. entry_at c bucket key = Some e \<longrightarrow> e_status e = StatusValue))"

definition rl_view :: "string \<Rightarrow> int list cache2 \<Rightarrow> string \<Rightarrow> (int list \<times> int) option" where
  "rl_view bucket c key =
     (case entry_at c bucket key of
        None \<Rightarrow> None
      | Some e \<Rightarrow> (case e_data e of Payload v \<Rightarrow> Some (v, e_timeout e) | ResolveList r \<Rightarrow> None))"

lemma rl_look_fst: "fst (rl_look bucket now key c) = fst (cache_getInstant now bucket key c)"
  by (auto simp: rl_look_def split: prod.splits lookup.splits payload.splits)

lemma rl_ok_payload:
  "rl_ok bucket w c \<Longrightarrow> entry_at c bucket key = Some e \<Longrightarrow> \<exists>v. e_data e = Payload v"
  by (fastforce simp: rl_ok_def cache_ok_def entries_ok_def entry_ok_def)

interpretation bucket_store: timed_store "rl_put bucket" "rl_look bucket" "rl_ok bucket w"
  "rl_view bucket" w for bucket w
proof unfold_locales
  fix c :: "int list cache2" and now k v
  assume ok: "rl_ok bucket w c"
  then obtain f where f: "settings c bucket = Some (w, f)" by (auto simp: rl_ok_def)
  have type: "StatusValue \<noteq> StatusFetching" by simp
  note entry = cache_set_entry [OF f type]
  show "rl_ok bucket w (fst (rl_put bucket now k v c))"
    using ok cache_set_ok(1) [OF _ type] f by (auto simp: rl_ok_def rl_put_def entry)
  show "snd (rl_put bucket now k v c) = Inr ()" by (simp add: rl_put_def entry)
  show "rl_view bucket (fst (rl_put bucket now k v c)) = (rl_view bucket c)(k \<mapsto> (v, now + w))"
    by (auto simp: rl_view_def rl_put_def entry fun_eq_iff)
  show "rl_ok bucket w (fst (rl_look bucket now k c))"
    using ok cache_getInstant_ok(1) by (auto simp: rl_ok_def rl_look_fst cache_getInstant_frame)
  show "rl_view bucket (fst (rl_look bucket now k c)) = rl_view bucket c"
    by (simp add: rl_view_def rl_look_fst cache_getInstant_frame fun_eq_iff)
  show "snd (rl_look bucket now k c) =
      Inr (case rl_view bucket c k of None \<Rightarrow> None | Some (v, t) \<Rightarrow> if t < now then None else Some v)"
  proof (cases "entry_at c bucket k")
    case None
    then have "snd (cache_getInstant now bucket k c) = Miss" by (simp add: cache_getInstant_result f)
    with None show ?thesis by (auto simp: rl_look_def rl_view_def split: prod.splits)
  next
    case (Some e)
    then obtain u where u: "e_data e = Payload u" "e_status e = StatusValue"
      using rl_ok_payload [OF ok Some] ok by (auto simp: rl_ok_def)
    with Some have "snd (cache_getInstant now bucket k c) =
        (if e_timeout e < now then Miss else Hit (Payload u))"
      by (simp add: cache_getInstant_result f)
    with Some u show ?thesis by (auto simp: rl_look_def rl_view_def split: prod.splits if_splits)
  qed
qed

lemma rl_new_ok:
  assumes "cache_ok c" and "rl_new bucket cfg c = Inr c'" and "\<And>key. entry_at c bucket key = None"
  shows "rl_ok bucket (windowMs cfg) c'" and "rl_view bucket c' key = None"
proof -
  have reg: "cache_register bucket (Some (windowMs cfg)) None c = Inr c'"
    using assms(2) by (simp add: rl_new_def)
  note entry = cache_register_entry [OF reg]
  have "sizes_ok c'"
    using assms(1) params_ops(4) [OF reg]
    by (auto simp: cache_ok_def sizes_ok_def entry params_def)
  then have "cache_ok c'"
    using assms(1) cache_register_inv [OF _ reg] by (auto simp: cache_ok_def entries_ok_def entry(1))
  then show "rl_ok bucket (windowMs cfg) c'"
    using assms(3) by (simp add: rl_ok_def entry)
  show "rl_view bucket c' key = None" using assms(3) by (simp add: rl_view_def entry(1))
qed

text \<open>A sequence of requests, each at its time: the answers, and the log of a key.\<close>

fun rl_run :: "string \<Rightarrow> rl_config \<Rightarrow> (int \<times> string) list \<Rightarrow> int list cache2 \<Rightarrow>
    int list cache2 \<times> bool outcome list" where
  "rl_run bucket cfg [] c = (c, [])"
| "rl_run bucket cfg ((now, key) # reqs) c =
     (let (c1, r) = rl_record (rl_put bucket) (rl_look bucket) cfg now key c;
          (c2, rs) = rl_run bucket cfg reqs c1
      in (c2, r # rs))"

definition log_of :: "string \<Rightarrow> (int \<times> string) list \<Rightarrow> int list" where
  "log_of key reqs = map fst (filter (\<lambda>(t, k). k = key) reqs)"

text \<open>The specification: a request is answered \<open>true\<close> when the requests of its key within the
  window before it, itself included, are fewer than the threshold.\<close>

fun window_spec :: "rl_config \<Rightarrow> (int \<times> string) list \<Rightarrow> (int \<times> string) list \<Rightarrow> bool outcome list" where
  "window_spec cfg past [] = []"
| "window_spec cfg past ((now, key) # reqs) =
     Inr (length (filter (\<lambda>t. now - windowMs cfg < t) (log_of key past @ [now])) < threshold cfg)
       # window_spec cfg (past @ [(now, key)]) reqs"

lemma sorted_log_of: "sorted (map fst past) \<Longrightarrow> sorted (log_of key past)"
  by (simp add: log_of_def sorted_filter)

lemma rl_run_spec:
  assumes "rl_ok bucket (windowMs cfg) c" and "0 < windowMs cfg"
    and "\<forall>key. stands_for cfg (rl_view bucket c key) (log_of key past)"
    and "sorted (map fst (past @ reqs))" and "\<forall>(t, k)\<in>set reqs. 0 \<le> t"
  shows "snd (rl_run bucket cfg reqs c) = window_spec cfg past reqs"
  using assms
proof (induction reqs arbitrary: c past)
  case (Cons x reqs)
  obtain now key where x: "x = (now, key)" by (cases x)
  have now: "0 \<le> now" using Cons.prems(5) x by simp
  have past: "sorted (log_of key past)" "\<forall>t\<in>set (log_of key past). t \<le> now"
    using Cons.prems(4) x by (auto simp: sorted_append log_of_def intro: sorted_log_of [unfolded log_of_def])
  note rec = bucket_store.record_log [OF Cons.prems(1) now refl Cons.prems(2)
      Cons.prems(3) [rule_format] past]
  let ?c = "fst (rl_record (rl_put bucket) (rl_look bucket) cfg now key c)"
  have ok: "rl_ok bucket (windowMs cfg) ?c"
    by (rule bucket_store.record_result(1) [OF Cons.prems(1) now])
  have view: "stands_for cfg (rl_view bucket ?c k) (log_of k (past @ [x]))" for k
  proof (cases "k = key")
    case True
    then show ?thesis using rec(2) by (simp add: log_of_def x)
  next
    case False
    then show ?thesis
      using bucket_store.record_result(3) [OF Cons.prems(1) now, of cfg key] Cons.prems(3)
      by (simp add: log_of_def x)
  qed
  have "snd (rl_run bucket cfg reqs ?c) = window_spec cfg (past @ [x]) reqs"
  proof (rule Cons.IH [OF ok Cons.prems(2) allI [OF view]])
    show "sorted (map fst ((past @ [x]) @ reqs))" using Cons.prems(4) by simp
    show "\<forall>(t, k)\<in>set reqs. 0 \<le> t" using Cons.prems(5) by simp
  qed
  then show ?case using rec(1) by (simp add: x split_def Let_def in_window_def)
qed simp

section \<open>Properties\<close>

text \<open>
  C7. The sliding window. A limiter on a cache, from its registration on, answers every sequence of requests
  at times that do not decrease exactly as the specification on the complete log of the requests: a
  request is answered \<open>true\<close> when the requests of its key in the window that ends with it, itself
  included, are fewer than the threshold. The cap on the stored lists, the timeout of the cache entries
  and the requests of other keys make no difference.
\<close>

theorem rl_window:
  assumes "cache_ok c" and "rl_new bucket cfg c = Inr c'" and "\<And>key. entry_at c bucket key = None"
    and "0 < windowMs cfg" and "sorted (map fst reqs)" and "\<forall>(t, k)\<in>set reqs. 0 \<le> t"
  shows "snd (rl_run bucket cfg reqs c') = window_spec cfg [] reqs"
proof (rule rl_run_spec [OF rl_new_ok(1) [OF assms(1-3)] assms(4)])
  show "\<forall>key. stands_for cfg (rl_view bucket c' key) (log_of key [])"
    by (simp add: rl_new_ok(2) [OF assms(1-3)] stands_for_def log_of_def)
qed (use assms(5,6) in simp_all)

section \<open>Instances of the properties\<close>

lemma cache_new_ok: "0 \<le> m \<Longrightarrow> (\<And>v. 0 \<le> f v) \<Longrightarrow> cache_ok (cache_new t m f)"
  using cache_new_inv [of m f t] by (simp add: cache_ok_def entries_ok_def cache_new_def entry_at_def)

theorem rl_window_witness:
  "\<exists>c'. rl_new ''b'' \<lparr>threshold = 2, windowMs = 10\<rparr> (cache_new 5 100 (\<lambda>v. 1)) = Inr c' \<and>
    snd (rl_run ''b'' \<lparr>threshold = 2, windowMs = 10\<rparr> [(1, ''k''), (4, ''k''), (5, ''x''), (13, ''k''), (30, ''k'')] c') =
      [Inr True, Inr False, Inr True, Inr False, Inr True]"
proof -
  let ?cfg = "\<lparr>threshold = 2, windowMs = 10\<rparr>"
  obtain c' where c': "rl_new ''b'' ?cfg (cache_new 5 100 (\<lambda>v. 1)) = Inr c'"
    by (simp add: rl_new_def cache_register_def cache_new_def)
  have ok: "cache_ok (cache_new 5 100 (\<lambda>v. 1))" by (rule cache_new_ok) simp_all
  have empty: "entry_at (cache_new 5 100 (\<lambda>v. 1)) ''b'' key = None" for key
    by (simp add: cache_new_def entry_at_def)
  show ?thesis
    using rl_window [OF ok c' empty,
        of "[(1, ''k''), (4, ''k''), (5, ''x''), (13, ''k''), (30, ''k'')]"] c'
    by (simp add: in_window_def log_of_def)
qed

end
