(* ===== verification/AsyncLocks.thy ===== *)
theory AsyncLocks
  imports Bzd_Prelude
begin

text \<open>
  The two in-process locks: \<open>nodejs/core/mutex.js\<close> (a queue of callbacks) and
  \<open>nodejs/core/lock.js\<close> (a chain of promises). The users of a lock are numbered; a step is what
  the JavaScript engine runs without interruption. The lists of requests and of entries into
  the critical section are the history the properties speak of.
\<close>

section \<open>Mutex\<close>

text \<open>
  \<open>queue\<close> and \<open>isLock\<close> are the fields of the object. \<open>mx_timers\<close> holds the callbacks that
  \<open>release\<close> gave to \<open>setTimeout\<close>, \<open>mx_running\<close> the users whose callback was called and
  which have not called the release function they were given.
\<close>

record mutex =
  mx_queue :: "nat list"
  mx_isLock :: bool
  mx_timers :: "nat list"
  mx_running :: "nat list"
  mx_requested :: "nat list"
  mx_entered :: "nat list"

definition mutex_new :: mutex where
  "mutex_new = \<lparr>mx_queue = [], mx_isLock = False, mx_timers = [], mx_running = [],
     mx_requested = [], mx_entered = []\<rparr>"

definition mutex_enter :: "nat \<Rightarrow> mutex \<Rightarrow> mutex" where
  "mutex_enter i m = m\<lparr>mx_running := mx_running m @ [i], mx_entered := mx_entered m @ [i]\<rparr>"

definition mutex_lock :: "nat \<Rightarrow> mutex \<Rightarrow> mutex" where
  "mutex_lock i m =
     (let m1 = m\<lparr>mx_requested := mx_requested m @ [i]\<rparr>
      in if mx_isLock m1 then m1\<lparr>mx_queue := mx_queue m1 @ [i]\<rparr>
         else mutex_enter i (m1\<lparr>mx_isLock := True\<rparr>))"

definition mutex_release :: "mutex \<Rightarrow> mutex" where
  "mutex_release m =
     (case mx_queue m of
        callback # rest \<Rightarrow> m\<lparr>mx_queue := rest, mx_timers := mx_timers m @ [callback]\<rparr>
      | [] \<Rightarrow> m\<lparr>mx_isLock := False\<rparr>)"

text \<open>The steps: a request, the release by a user in its critical section, a timer that fires.\<close>

inductive mutex_step :: "mutex \<Rightarrow> mutex \<Rightarrow> bool" where
  lock: "mutex_step m (mutex_lock i m)"
| release: "i \<in> set (mx_running m) \<Longrightarrow>
     mutex_step m (mutex_release (m\<lparr>mx_running := remove1 i (mx_running m)\<rparr>))"
| timer: "mx_timers m = i # rest \<Longrightarrow> mutex_step m (mutex_enter i (m\<lparr>mx_timers := rest\<rparr>))"

inductive mutex_reachable :: "mutex \<Rightarrow> bool" where
  start: "mutex_reachable mutex_new"
| step: "mutex_reachable m \<Longrightarrow> mutex_step m m' \<Longrightarrow> mutex_reachable m'"

text \<open>
  The lock is taken exactly when one user is in its critical section or is about to enter, and
  nobody waits for a free lock. The history: entered, about to enter, queued, in this order.
\<close>

definition mutex_inv :: "mutex \<Rightarrow> bool" where
  "mutex_inv m =
     (length (mx_timers m) + length (mx_running m) = (if mx_isLock m then 1 else 0) \<and>
      (\<not> mx_isLock m \<longrightarrow> mx_queue m = []) \<and>
      mx_requested m = mx_entered m @ mx_timers m @ mx_queue m)"

lemma mutex_step_inv: "mutex_step m m' \<Longrightarrow> mutex_inv m \<Longrightarrow> mutex_inv m'"
proof (induction rule: mutex_step.induct)
  case (lock m i)
  then show ?case
    by (auto simp: mutex_inv_def mutex_lock_def mutex_enter_def Let_def split: if_splits)
next
  case (release i m)
  then have "length (mx_running m) = 1" "mx_timers m = []" "mx_isLock m"
    by (cases "mx_running m"; auto simp: mutex_inv_def split: if_splits)+
  moreover from this(1) release(1) have "mx_running m = [i]"
    by (cases "mx_running m") auto
  ultimately show ?case
    using release(2) by (auto simp: mutex_inv_def mutex_release_def split: list.splits)
next
  case (timer m i rest)
  then show ?case
    by (auto simp: mutex_inv_def mutex_enter_def split: if_splits)
qed

lemma mutex_reachable_inv: "mutex_reachable m \<Longrightarrow> mutex_inv m"
proof (induction rule: mutex_reachable.induct)
  case start
  show ?case by (simp add: mutex_inv_def mutex_new_def)
qed (rule mutex_step_inv)

section \<open>Promise lock\<close>

text \<open>
  \<open>acquire(callback)\<close> makes \<open>nextTask = lastTask.then(callback).finally(...)\<close>. A task is queued
  behind the promise \<open>lastTask\<close> was at that time (\<open>None\<close>: a resolved promise), running its
  callback, or settled, fulfilled (\<open>True\<close>) or rejected (\<open>False\<close>).
\<close>

datatype ltask = LQueued "nat option" | LRunning | LSettled bool

record lock =
  lastTask :: "nat option"
  ltasks :: "nat \<Rightarrow> ltask option"
  l_acquired :: "nat list"
  l_started :: "nat list"

definition lock_new :: lock where
  "lock_new = \<lparr>lastTask = None, ltasks = Map.empty, l_acquired = [], l_started = []\<rparr>"

definition lock_acquire :: "nat \<Rightarrow> lock \<Rightarrow> lock" where
  "lock_acquire i l = l\<lparr>ltasks := (ltasks l)(i \<mapsto> LQueued (lastTask l)), lastTask := Some i,
     l_acquired := l_acquired l @ [i]\<rparr>"

text \<open>The state of the promise a task is queued behind.\<close>

definition promise_state :: "lock \<Rightarrow> nat option \<Rightarrow> bool option" where
  "promise_state l p =
     (case p of
        None \<Rightarrow> Some True
      | Some j \<Rightarrow> (case ltasks l j of Some (LSettled b) \<Rightarrow> Some b | _ \<Rightarrow> None))"

text \<open>The task settles: the \<open>finally\<close> resets the chain when no task was added behind it.\<close>

definition lock_settle :: "nat \<Rightarrow> bool \<Rightarrow> lock \<Rightarrow> lock" where
  "lock_settle i b l =
     (let l1 = l\<lparr>ltasks := (ltasks l)(i \<mapsto> LSettled b)\<rparr>
      in if lastTask l1 = Some i then l1\<lparr>lastTask := None\<rparr> else l1)"

definition lock_start :: "nat \<Rightarrow> lock \<Rightarrow> lock" where
  "lock_start i l = l\<lparr>ltasks := (ltasks l)(i \<mapsto> LRunning), l_started := l_started l @ [i]\<rparr>"

text \<open>
  The steps. \<open>then(callback)\<close> on a fulfilled promise runs the callback; on a rejected promise it
  does not, and the task is rejected with the same reason.
\<close>

inductive lock_step :: "lock \<Rightarrow> lock \<Rightarrow> bool" where
  acquire: "ltasks l i = None \<Longrightarrow> lock_step l (lock_acquire i l)"
| start: "ltasks l i = Some (LQueued p) \<Longrightarrow> promise_state l p = Some True \<Longrightarrow>
     lock_step l (lock_start i l)"
| skip: "ltasks l i = Some (LQueued p) \<Longrightarrow> promise_state l p = Some False \<Longrightarrow>
     lock_step l (lock_settle i False l)"
| finish: "ltasks l i = Some LRunning \<Longrightarrow> lock_step l (lock_settle i b l)"

inductive_cases lock_stepE: "lock_step l l'"

inductive lock_reachable :: "lock \<Rightarrow> bool" where
  start: "lock_reachable lock_new"
| step: "lock_reachable l \<Longrightarrow> lock_step l l' \<Longrightarrow> lock_reachable l'"

text \<open>
  The invariant: the tasks are, in the order of their requests, the settled ones and then those
  that are not; of the latter only the first may be running, each other one is queued behind
  its predecessor, and \<open>lastTask\<close> is the last of them.
\<close>

fun linked :: "(nat \<Rightarrow> ltask option) \<Rightarrow> nat list \<Rightarrow> bool" where
  "linked ts (i # j # us) = (ts j = Some (LQueued (Some i)) \<and> linked ts (j # us))"
| "linked ts us = True"

definition first_ok :: "lock \<Rightarrow> nat list \<Rightarrow> nat list \<Rightarrow> bool" where
  "first_ok l old us =
     (case us of
        [] \<Rightarrow> subseq (l_started l) old
      | i # _ \<Rightarrow>
          (ltasks l i = Some LRunning \<and> subseq (l_started l) (old @ [i])) \<or>
          (\<exists>p b. ltasks l i = Some (LQueued p) \<and> promise_state l p = Some b \<and>
             subseq (l_started l) old))"

definition lock_inv :: "lock \<Rightarrow> nat list \<Rightarrow> nat list \<Rightarrow> bool" where
  "lock_inv l old us =
     (l_acquired l = old @ us \<and> distinct (old @ us) \<and>
      dom (ltasks l) = set (old @ us) \<and>
      (\<forall>i\<in>set old. \<exists>b. ltasks l i = Some (LSettled b)) \<and>
      lastTask l = (if us = [] then None else Some (last us)) \<and>
      linked (ltasks l) us \<and> first_ok l old us)"

lemma linked_cong: "(\<And>j. j \<in> set (tl us) \<Longrightarrow> ts j = ts' j) \<Longrightarrow> linked ts us = linked ts' us"
  by (induction ts us rule: linked.induct) auto

lemma linked_snoc:
  "us \<noteq> [] \<Longrightarrow> linked ts us \<Longrightarrow> ts j = Some (LQueued (Some (last us))) \<Longrightarrow> linked ts (us @ [j])"
  by (induction ts us rule: linked.induct) auto

lemma linked_queued: "linked ts us \<Longrightarrow> j \<in> set (tl us) \<Longrightarrow> \<exists>i\<in>set us. ts j = Some (LQueued (Some i))"
  by (induction ts us rule: linked.induct) auto

text \<open>Only the first unsettled task can start, be skipped or finish.\<close>

lemma lock_active_first:
  assumes "lock_inv l old us"
    and "ltasks l i = Some LRunning \<or>
         (\<exists>p b. ltasks l i = Some (LQueued p) \<and> promise_state l p = Some b)"
  shows "\<exists>rest. us = i # rest"
proof -
  have "i \<notin> set old" using assms by (fastforce simp: lock_inv_def)
  moreover have "i \<in> set (old @ us)" using assms by (metis domI lock_inv_def)
  ultimately have i: "i \<in> set us" by simp
  have "i \<notin> set (tl us)"
  proof
    assume tl: "i \<in> set (tl us)"
    then obtain k where k: "k \<in> set us" "ltasks l i = Some (LQueued (Some k))"
      using assms(1) linked_queued [of "ltasks l" us i] by (auto simp: lock_inv_def)
    then obtain b where "ltasks l k = Some (LSettled b)"
      using assms(2) by (auto simp: promise_state_def split: option.splits ltask.splits)
    moreover have "\<forall>j\<in>set us. \<forall>b. ltasks l j \<noteq> Some (LSettled b)"
      using assms(1) linked_queued [of "ltasks l" us]
      by (cases us) (fastforce simp: lock_inv_def first_ok_def)+
    ultimately show False using k(1) by blast
  qed
  with i show ?thesis by (cases us) auto
qed


lemma lock_acquire_inv:
  assumes "lock_inv l old us" and "ltasks l i = None"
  shows "lock_inv (lock_acquire i l) old (us @ [i])"
proof -
  have i: "i \<notin> set old" "i \<notin> set us" using assms by (auto simp: lock_inv_def domIff)
  let ?l = "lock_acquire i l"
  have same: "j \<noteq> i \<Longrightarrow> ltasks ?l j = ltasks l j" for j by (simp add: lock_acquire_def)
  have state: "promise_state l p = Some b \<Longrightarrow> promise_state ?l p = Some b" for p b
    using assms(2) by (auto simp: promise_state_def lock_acquire_def split: option.splits)
  have "linked (ltasks ?l) (us @ [i])"
  proof (cases "us = []")
    case False
    have "linked (ltasks ?l) us"
      using assms(1) i(2) linked_cong [of us "ltasks l" "ltasks ?l"] same
      by (metis list.set_sel(2) list.sel(2) lock_inv_def)
    with False show ?thesis
      using assms(1) by (intro linked_snoc) (auto simp: lock_acquire_def lock_inv_def)
  qed simp
  moreover have "first_ok ?l old (us @ [i])"
  proof (cases us)
    case Nil
    then show ?thesis
      using assms(1) by (auto simp: first_ok_def lock_inv_def lock_acquire_def promise_state_def)
  next
    case (Cons u rest)
    then have "u \<noteq> i" using i by auto
    then show ?thesis
      using assms(1) Cons same [of u] state
      by (auto simp: first_ok_def lock_inv_def) (auto simp: lock_acquire_def)
  qed
  ultimately show ?thesis
    using assms(1) i same by (auto simp: lock_inv_def) (auto simp: lock_acquire_def)
qed

lemma lock_start_inv:
  assumes "lock_inv l old (i # us)" and "ltasks l i = Some (LQueued p)"
  shows "lock_inv (lock_start i l) old (i # us)"
proof -
  have "ltasks l j = ltasks (lock_start i l) j" if "j \<in> set us" for j
    using that assms(1) by (auto simp: lock_inv_def lock_start_def)
  then have "linked (ltasks (lock_start i l)) (i # us)"
    using assms(1) linked_cong [of "i # us" "ltasks l" "ltasks (lock_start i l)"]
    by (simp add: lock_inv_def)
  moreover have "subseq (l_started l) old"
    using assms by (auto simp: lock_inv_def first_ok_def)
  ultimately show ?thesis
    using assms(1) by (auto simp: lock_inv_def first_ok_def lock_start_def list_emb_append_mono)
qed

lemma lock_settle_inv:
  assumes "lock_inv l old (i # us)"
  shows "lock_inv (lock_settle i b l) (old @ [i]) us"
proof -
  let ?l = "lock_settle i b l"
  have ts: "ltasks ?l = (ltasks l)(i \<mapsto> LSettled b)" "l_started ?l = l_started l"
    "l_acquired ?l = l_acquired l"
    by (simp_all add: lock_settle_def Let_def)
  have dist: "distinct (old @ i # us)" using assms by (simp add: lock_inv_def)
  have "linked (ltasks l) us" using assms by (cases us) (auto simp: lock_inv_def)
  then have "linked (ltasks ?l) us"
    using dist linked_cong [of us "ltasks l" "ltasks ?l"] ts(1)
    by (metis (no_types, lifting) distinct.simps(2) distinct_append fun_upd_other list.sel(2)
        list.set_sel(2))
  moreover have "lastTask ?l = (if us = [] then None else Some (last us))"
    using assms dist last_in_set [of us] by (auto simp: lock_settle_def Let_def lock_inv_def)
  moreover have started: "subseq (l_started l) (old @ [i])"
    using assms by (auto simp: lock_inv_def first_ok_def intro: list_emb_prefix)
  have "first_ok ?l (old @ [i]) us"
  proof (cases us)
    case Nil
    with started show ?thesis by (simp add: first_ok_def ts)
  next
    case (Cons u rest)
    then have "ltasks ?l u = Some (LQueued (Some i))"
      using assms dist by (simp add: lock_inv_def ts)
    moreover have "promise_state ?l (Some i) = Some b" by (simp add: promise_state_def ts)
    ultimately show ?thesis using started Cons by (simp add: first_ok_def ts)
  qed
  ultimately show ?thesis
    using assms dist by (auto simp: lock_inv_def ts)
qed

lemma lock_step_inv:
  assumes "lock_step l l'" and "lock_inv l old us"
  shows "\<exists>old' us'. lock_inv l' old' us'"
  using assms
proof (induction rule: lock_step.induct)
  case (acquire l i)
  then show ?case by (blast intro: lock_acquire_inv)
next
  case (start l i p)
  then show ?case using lock_active_first [OF start(3)] lock_start_inv by metis
next
  case (skip l i p)
  then show ?case using lock_active_first [OF skip(3)] lock_settle_inv by metis
next
  case (finish l i b)
  then show ?case using lock_active_first [OF finish(2)] lock_settle_inv by metis
qed

lemma lock_reachable_inv: "lock_reachable l \<Longrightarrow> \<exists>old us. lock_inv l old us"
proof (induction rule: lock_reachable.induct)
  case start
  show ?case
    by (intro exI [where x = "[]"]) (simp add: lock_inv_def lock_new_def first_ok_def)
qed (blast dest: lock_step_inv)

lemma lock_running_unique:
  assumes "lock_reachable l" and "ltasks l i = Some LRunning" and "ltasks l j = Some LRunning"
  shows "i = j"
proof -
  obtain old us where inv: "lock_inv l old us" using lock_reachable_inv [OF assms(1)] by blast
  show ?thesis using lock_active_first [OF inv] assms(2,3) by (metis list.inject)
qed

lemma lock_started_subseq:
  assumes "lock_reachable l"
  shows "subseq (l_started l) (l_acquired l)"
proof -
  obtain old us where inv: "lock_inv l old us" using lock_reachable_inv [OF assms] by blast
  then show ?thesis
    by (cases us) (auto simp: lock_inv_def first_ok_def intro: list_emb_prefix
        dest: list_emb_prefix [of "(=)" _ "_ @ [_]"])
qed

text \<open>Once the callback of a task is skipped, it is never run.\<close>

lemma lock_settled_stays:
  "lock_step l l' \<Longrightarrow> ltasks l i = Some (LSettled b) \<Longrightarrow>
     ltasks l' i = Some (LSettled b) \<and> (i \<in> set (l_started l') \<longleftrightarrow> i \<in> set (l_started l))"
  by (erule lock_stepE)
     (auto simp: lock_acquire_def lock_start_def lock_settle_def Let_def)

section \<open>Properties\<close>

text \<open>
  Mutex. In every reachable state at most one user is in its critical section, users enter in the order
  of their requests, and as long as somebody is queued there is a user in its critical section, or one
  that is about to enter, whose release serves the queue.
\<close>

lemma mutex_exclusive_fifo:
  assumes "mutex_reachable m"
  shows "length (mx_running m) \<le> 1 \<and> prefix (mx_entered m) (mx_requested m) \<and>
    (mx_queue m \<noteq> [] \<longrightarrow> mx_running m \<noteq> [] \<or> mx_timers m \<noteq> [])"
  using mutex_reachable_inv [OF assms] by (auto simp: mutex_inv_def split: if_splits)

text \<open>
  C19. Promise lock. In every reachable state at most one callback runs, callbacks start in the order of the
  calls to \<open>acquire\<close>, and as long as a task is not settled, a task is running or the first one that is
  queued can go on: there is no deadlock.
\<close>

theorem lock_exclusive_fifo:
  assumes "lock_reachable l"
  shows "(ltasks l i = Some LRunning \<and> ltasks l j = Some LRunning \<longrightarrow> i = j) \<and>
    subseq (l_started l) (l_acquired l) \<and>
    (ltasks l k \<noteq> None \<and> (\<forall>b. ltasks l k \<noteq> Some (LSettled b)) \<longrightarrow>
       (\<exists>k'. ltasks l k' = Some LRunning \<or>
          (\<exists>p b. ltasks l k' = Some (LQueued p) \<and> promise_state l p = Some b)))"
proof -
  obtain old us where inv: "lock_inv l old us" using lock_reachable_inv [OF assms] by blast
  have "\<exists>k'. ltasks l k' = Some LRunning \<or>
      (\<exists>p b. ltasks l k' = Some (LQueued p) \<and> promise_state l p = Some b)"
    if k: "ltasks l k \<noteq> None" "\<forall>b. ltasks l k \<noteq> Some (LSettled b)"
  proof -
    have "k \<in> dom (ltasks l)" using k(1) by blast
    then have "k \<in> set us" using inv k(2) by (auto simp: lock_inv_def)
    then obtain u rest where "us = u # rest" by (cases us) auto
    then show ?thesis using inv by (auto simp: lock_inv_def first_ok_def)
  qed
  then show ?thesis
    using lock_running_unique [OF assms] lock_started_subseq [OF assms] by blast
qed

section \<open>Instances of the properties\<close>

definition sample_mutex :: mutex where
  "sample_mutex = mutex_lock 2 (mutex_lock 1 mutex_new)"

theorem mutex_exclusive_fifo_witness:
  "mx_queue sample_mutex = [2] \<and> length (mx_running sample_mutex) \<le> 1"
proof -
  have "mutex_reachable sample_mutex"
    unfolding sample_mutex_def
    by (rule mutex_reachable.step [OF mutex_reachable.step [OF mutex_reachable.start]]) (rule mutex_step.lock)+
  from mutex_exclusive_fifo [OF this] show ?thesis
    by (simp add: sample_mutex_def mutex_lock_def mutex_enter_def mutex_new_def)
qed

definition sample_lock :: lock where
  "sample_lock = lock_acquire 2 (lock_start 1 (lock_acquire 1 lock_new))"

theorem lock_exclusive_fifo_witness: "subseq (l_started sample_lock) [1, 2]"
proof -
  have "lock_reachable (lock_acquire 1 lock_new)"
    by (rule lock_reachable.step [OF lock_reachable.start lock_step.acquire]) (simp add: lock_new_def)
  then have "lock_reachable (lock_start 1 (lock_acquire 1 lock_new))"
    by (rule lock_reachable.step [OF _ lock_step.start [where p = None]])
      (simp_all add: lock_acquire_def lock_new_def promise_state_def)
  then have "lock_reachable sample_lock"
    unfolding sample_lock_def
    by (rule lock_reachable.step [OF _ lock_step.acquire])
      (simp add: lock_acquire_def lock_new_def lock_start_def)
  from lock_exclusive_fifo [OF this] show ?thesis
    by (simp add: sample_lock_def lock_acquire_def lock_start_def lock_new_def)
qed

end
