(* ===== verification/Json.thy ===== *)
theory Json
  imports Bzd_Prelude
begin

text \<open>
  JavaScript values as the components exchange them: the values of JSON and \<open>undefined\<close>, with
  the operators of the language the sources apply to them (\<open>typeof\<close>, \<open>in\<close>, property access,
  \<open>Object.assign({}, v)\<close>, truthiness). Numbers are whole numbers (\<open>JNum\<close>), or fractions that are not
  (\<open>JFrac\<close>, numerator and denominator). Objects are insertion-ordered maps.
\<close>

datatype json =
    JUndefined
  | JNull
  | JBool bool
  | JNum int
  | JFrac int nat
  | JStr string
  | JArr "json list"
  | JObj "(string \<times> json) list"

text \<open>\<open>typeof v === "object"\<close> holds of \<open>null\<close> and of arrays too.\<close>

definition is_typeof_object :: "json \<Rightarrow> bool" where
  "is_typeof_object v = (case v of JNull \<Rightarrow> True | JArr _ \<Rightarrow> True | JObj _ \<Rightarrow> True | _ \<Rightarrow> False)"

text \<open>\<open>isObject\<close> of \<open>nodejs/utils/object.ts\<close>: neither \<open>null\<close> nor an array.\<close>

definition isObject :: "json \<Rightarrow> bool" where
  "isObject v = (case v of JObj _ \<Rightarrow> True | _ \<Rightarrow> False)"

text \<open>The decimal name of an array index.\<close>

definition digit_char :: "nat \<Rightarrow> char" where
  "digit_char n = char_of (48 + n)"

fun nat_to_string :: "nat \<Rightarrow> string" where
  "nat_to_string n =
     (if n < 10 then [digit_char n] else nat_to_string (n div 10) @ [digit_char (n mod 10)])"

declare nat_to_string.simps [simp del]

text \<open>The own properties, as \<open>Object.entries\<close> lists them.\<close>

definition own_entries :: "json \<Rightarrow> (string \<times> json) list" where
  "own_entries v =
     (case v of
        JObj ps \<Rightarrow> ps
      | JArr xs \<Rightarrow> map (\<lambda>(i, x). (nat_to_string i, x)) (enumerate 0 xs)
      | _ \<Rightarrow> [])"

text \<open>\<open>Object.assign({}, v)\<close>: a shallow copy, always a plain object.\<close>

definition object_copy :: "json \<Rightarrow> json" where
  "object_copy v = JObj (own_entries v)"

text \<open>
  The names that every plain object finds in \<open>Object.prototype\<close>, and every array in \<open>Array.prototype\<close> besides. Where
  the sources look up a name that they were given, these are found too: they are functions, or the prototype itself.
\<close>

definition inherited_names :: "string list" where
  "inherited_names =
     [''constructor'', ''__defineGetter__'', ''__defineSetter__'', ''hasOwnProperty'', ''__lookupGetter__'',
      ''__lookupSetter__'', ''isPrototypeOf'', ''propertyIsEnumerable'', ''toString'', ''valueOf'', ''__proto__'',
      ''toLocaleString'']"

definition array_names :: "string list" where
  "array_names =
     [''length'', ''at'', ''concat'', ''copyWithin'', ''fill'', ''find'', ''findIndex'', ''findLast'', ''findLastIndex'',
      ''lastIndexOf'', ''pop'', ''push'', ''reverse'', ''shift'', ''unshift'', ''slice'', ''sort'', ''splice'',
      ''includes'', ''indexOf'', ''join'', ''keys'', ''entries'', ''values'', ''forEach'', ''filter'', ''flat'',
      ''flatMap'', ''map'', ''every'', ''some'', ''reduce'', ''reduceRight'', ''toReversed'', ''toSorted'', ''toSpliced'',
      ''with'']"

definition inherited :: "string \<Rightarrow> bool" where
  "inherited key = (key \<in> set inherited_names)"

text \<open>\<open>key in v\<close>, inherited names included; it is a \<open>TypeError\<close> unless \<open>v\<close> is an object.\<close>

definition js_in :: "string \<Rightarrow> json \<Rightarrow> bool outcome" where
  "js_in key v =
     (if is_typeof_object v \<and> v \<noteq> JNull
      then Inr (map_of (own_entries v) key \<noteq> None \<or> inherited key \<or>
        (case v of JArr _ \<Rightarrow> key \<in> set array_names | _ \<Rightarrow> False))
      else Inl TypeErr)"

text \<open>\<open>v[key]\<close> for a property of its own, \<open>undefined\<close> otherwise.\<close>

definition js_get :: "json \<Rightarrow> string \<Rightarrow> json" where
  "js_get v key = (case map_of (own_entries v) key of None \<Rightarrow> JUndefined | Some x \<Rightarrow> x)"

text \<open>
  \<open>v[key]\<close> of an object, inherited names included. What is inherited is a function or \<open>Object.prototype\<close>: a value
  that is truthy and has no fields to enumerate, which the empty object stands for.
\<close>

definition js_member :: "json \<Rightarrow> string \<Rightarrow> json" where
  "js_member v key =
     (case map_of (own_entries v) key of
        Some x \<Rightarrow> x
      | None \<Rightarrow>
          (case v of
             JArr xs \<Rightarrow>
               if key = ''length'' then JNum (int (length xs))
               else if inherited key \<or> key \<in> set array_names then JObj [] else JUndefined
           | _ \<Rightarrow> if inherited key then JObj [] else JUndefined))"

definition truthy :: "json \<Rightarrow> bool" where
  "truthy v =
     (case v of
        JUndefined \<Rightarrow> False
      | JNull \<Rightarrow> False
      | JBool b \<Rightarrow> b
      | JNum n \<Rightarrow> n \<noteq> 0
      | JStr s \<Rightarrow> s \<noteq> []
      | _ \<Rightarrow> True)"

text \<open>\<open>list.includes(v)\<close>: identity on objects and arrays, of which two are never the same here.\<close>

definition is_primitive :: "json \<Rightarrow> bool" where
  "is_primitive v = (case v of JArr _ \<Rightarrow> False | JObj _ \<Rightarrow> False | _ \<Rightarrow> True)"

definition js_includes :: "json list \<Rightarrow> json \<Rightarrow> bool" where
  "js_includes vs v = (is_primitive v \<and> v \<in> set vs)"

lemma js_in_simps [simp]:
  "js_in key (JObj ps) = Inr (map_of ps key \<noteq> None \<or> inherited key)"
  "js_in key JNull = Inl TypeErr"
  "js_in key (JNum n) = Inl TypeErr"
  "js_in key (JFrac n m) = Inl TypeErr"
  "js_in key (JStr s) = Inl TypeErr"
  "js_in key (JBool b) = Inl TypeErr"
  "js_in key JUndefined = Inl TypeErr"
  by (simp_all add: js_in_def is_typeof_object_def own_entries_def)

lemma js_get_obj [simp]:
  "js_get (JObj ps) key = (case map_of ps key of None \<Rightarrow> JUndefined | Some x \<Rightarrow> x)"
  by (simp add: js_get_def own_entries_def)

lemma js_member_obj [simp]:
  "js_member (JObj ps) key =
     (case map_of ps key of None \<Rightarrow> if inherited key then JObj [] else JUndefined | Some x \<Rightarrow> x)"
  by (simp add: js_member_def own_entries_def split: option.split)

text \<open>No object of the keys is found in \<open>Object.prototype\<close>.\<close>

fun plain_names :: "json \<Rightarrow> bool" where
  "plain_names (JObj ps) = list_all (\<lambda>(k, v). \<not> inherited k \<and> plain_names v) ps"
| "plain_names (JArr vs) = list_all plain_names vs"
| "plain_names v = True"

lemma object_copy_obj [simp]: "object_copy (JObj ps) = JObj ps"
  by (simp add: object_copy_def own_entries_def)

section \<open>Decimal numbers\<close>

lemma digit_chars: "char_of (49 :: nat) = CHR ''1''" "char_of (50 :: nat) = CHR ''2''"
  by code_simp+

lemma digit_char_inj: "i < 10 \<Longrightarrow> j < 10 \<Longrightarrow> digit_char i = digit_char j \<Longrightarrow> i = j"
  by (simp add: digit_char_def char_of_eq_iff take_bit_eq_mod)

lemma nat_to_string_snoc:
  "nat_to_string n = (if n < 10 then [] else nat_to_string (n div 10)) @ [digit_char (n mod 10)]"
  by (subst nat_to_string.simps) simp

lemma nat_to_string_nonempty [simp]: "nat_to_string n \<noteq> []"
  by (subst nat_to_string.simps) simp

lemma nat_to_string_inj: "nat_to_string m = nat_to_string n \<Longrightarrow> m = n"
proof (induction m arbitrary: n rule: less_induct)
  case (less m)
  have eq: "(if m < 10 then [] else nat_to_string (m div 10)) = (if n < 10 then [] else nat_to_string (n div 10))"
    and "digit_char (m mod 10) = digit_char (n mod 10)"
    using less.prems nat_to_string_snoc [of m] nat_to_string_snoc [of n] by simp_all
  then have mod: "m mod 10 = n mod 10" by (intro digit_char_inj) auto
  show ?case
  proof (cases "m < 10")
    case True
    then show ?thesis using eq mod nat_to_string_nonempty [of "n div 10", THEN not_sym]
      by (auto split: if_splits)
  next
    case False
    then have "m div 10 = n div 10"
      using eq less.IH [of "m div 10" "n div 10"] by (auto split: if_splits)
    then show ?thesis using mod by (metis div_mult_mod_eq)
  qed
qed

lemma nat_to_string_digits: "CHR ''-'' \<notin> set (nat_to_string n)"
proof (induction n rule: less_induct)
  case (less n)
  have "digit_char (n mod 10) \<noteq> CHR ''-''"
  proof
    assume "digit_char (n mod 10) = CHR ''-''"
    then have "of_char (digit_char (n mod 10)) = (45::nat)" by simp
    then show False by (simp add: digit_char_def)
  qed
  then show ?case
    using less.IH [of "n div 10"] by (subst nat_to_string_snoc) auto
qed

definition is_digit :: "char \<Rightarrow> bool" where
  "is_digit c = (48 \<le> (of_char c :: nat) \<and> (of_char c :: nat) \<le> 57)"

text \<open>\<open>parseInt\<close> on decimal digits.\<close>

definition string_to_nat :: "string \<Rightarrow> nat" where
  "string_to_nat s = foldl (\<lambda>n c. 10 * n + (of_char c - 48)) 0 s"

lemma digit_char_props: "i < 10 \<Longrightarrow> is_digit (digit_char i) \<and> of_char (digit_char i) = 48 + i"
  by (simp add: is_digit_def digit_char_def)

lemma nat_to_string_is_digit: "c \<in> set (nat_to_string n) \<Longrightarrow> is_digit c"
proof (induction n rule: less_induct)
  case (less n)
  have last: "is_digit (digit_char (n mod 10))" using digit_char_props by simp
  show ?case
  proof (cases "n < 10")
    case True
    then show ?thesis using less.prems last by (simp add: nat_to_string.simps [of n])
  next
    case False
    then have "c \<in> set (nat_to_string (n div 10)) \<Longrightarrow> is_digit c" by (intro less.IH) simp_all
    then show ?thesis using less.prems False last nat_to_string_snoc [of n] by auto
  qed
qed

lemma string_to_nat_inverse: "string_to_nat (nat_to_string n) = n"
proof (induction n rule: less_induct)
  case (less n)
  have last: "of_char (digit_char (n mod 10)) = (48 + n mod 10 :: nat)"
    using digit_char_props [of "n mod 10"] by simp
  show ?case
  proof (cases "n < 10")
    case True
    then show ?thesis using last by (simp add: string_to_nat_def nat_to_string.simps [of n])
  next
    case False
    then have "string_to_nat (nat_to_string (n div 10)) = n div 10" by (intro less.IH) simp
    then show ?thesis
      using False last by (subst nat_to_string_snoc) (simp add: string_to_nat_def)
  qed
qed

end
