(* ===== verification/Persistence.thy ===== *)
theory Persistence
  imports Json
begin

text \<open>
  \<open>nodejs/core/persistence/disk.js\<close>: data kept in memory and made persistent by a data file and a
  list of delta logs. A write appends a line to the last log and applies the operation; a savepoint
  writes the data beside the data file and later replaces it and removes the logs it contains;
  \<open>reset\<close> replaces everything. \<open>nodejs/core/persistence/memory.js\<close> is the same interface without files.

  The disk is a record of its own, so that a restart (a new instance on the same disk) and a crash in
  the middle of an operation can be stated. A line of a log is its operation type and its arguments,
  as \<open>JSON.parse\<close> reads them. The operations are under the mutex of the instance, so each is one
  function; \<open>savepoint\<close> and \<open>writeCompare\<close>, which are not under it as a whole, are two steps each.
\<close>

section \<open>Values written as JSON\<close>

text \<open>What \<open>JSON.parse(JSON.stringify(v))\<close> gives: no \<open>undefined\<close>.\<close>

fun json_roundtrip :: "json \<Rightarrow> json" where
  "json_roundtrip JUndefined = JNull"
| "json_roundtrip (JArr xs) = JArr (map json_roundtrip xs)"
| "json_roundtrip (JObj ps) =
     JObj (map (\<lambda>(k, v). (k, json_roundtrip v)) (filter (\<lambda>(k, v). v \<noteq> JUndefined) ps))"
| "json_roundtrip v = v"

text \<open>The arguments that are saved as they are (\<open>POD\<close>, as the source says).\<close>

definition pod :: "json list \<Rightarrow> bool" where
  "pod args = (map json_roundtrip args = args)"

text \<open>
  A value used as a property name: \<open>String(v)\<close>. The decimal text of a fraction that is not whole is represented
  by numerator and denominator.
\<close>

definition int_to_string :: "int \<Rightarrow> string" where
  "int_to_string n = (if n < 0 then CHR ''-'' # nat_to_string (nat (- n)) else nat_to_string (nat n))"

lemma int_to_string_inj: "int_to_string m = int_to_string n \<Longrightarrow> m = n"
  using nat_to_string_digits [of "nat m"] nat_to_string_digits [of "nat n"]
  by (auto simp: int_to_string_def split: if_splits dest!: nat_to_string_inj)
    (metis list.set_intros(1))+

fun to_property_key :: "json \<Rightarrow> string" where
  "to_property_key JUndefined = ''undefined''"
| "to_property_key JNull = ''null''"
| "to_property_key (JBool b) = (if b then ''true'' else ''false'')"
| "to_property_key (JNum n) = int_to_string n"
| "to_property_key (JFrac n m) = int_to_string n @ ''/'' @ nat_to_string m"
| "to_property_key (JStr s) = s"
| "to_property_key (JArr xs) =
     join_with '','' (map (\<lambda>x. if x = JNull \<or> x = JUndefined then [] else to_property_key x) xs)"
| "to_property_key (JObj ps) = ''[object Object]''"

definition arg :: "json list \<Rightarrow> nat \<Rightarrow> json" where
  "arg args i = (if i < length args then args ! i else JUndefined)"

section \<open>State\<close>

type_synonym line = "string \<times> json list"
type_synonym 'd operation = "'d \<Rightarrow> json list \<Rightarrow> 'd \<times> exn option"

text \<open>
  The options of the constructor. An operation changes the data in place: it gives the data as it left
  it and what it threw. \<open>assignNotPersisted d\<close> is \<open>Object.assign(d, initialNotPersisted)\<close>,
  \<open>lineSize\<close> the bytes a line takes in a log.
\<close>

record ('d, 'f) p_options =
  p_initial :: 'd
  assignNotPersisted :: "'d \<Rightarrow> 'd"
  p_read :: "'f \<Rightarrow> 'd outcome"
  p_write :: "'d \<Rightarrow> 'f"
  operations :: "(string \<times> 'd operation) list"
  savepointOnClose :: bool
  maxDeltaB :: nat
  lineSize :: "line \<Rightarrow> nat"

text \<open>The data file, the files \<open><id>.log\<close> of the delta directory, and the temporary file.\<close>

record 'f disk =
  dataFile :: "'f option"
  logs :: "(nat \<times> line list) list"
  tempFile :: "'f option"

record ('d, 'f) pers =
  p_disk :: "'f disk"
  deltaList :: "nat list"
  dirty :: bool
  p_data :: "'d option"
  isInitialized :: bool
  p_ready :: bool
  p_version :: nat
  savepointVersion :: nat
  isSavepoint :: bool

definition set_operation :: "(string \<times> json) list operation" where
  "set_operation data args =
     (AList.update (to_property_key (arg args 0)) (arg args 1) data, None)"

definition delete_operation :: "(string \<times> json) list operation" where
  "delete_operation data args = (AList.delete (to_property_key (arg args 0)) data, None)"

definition p_default_options :: "(line \<Rightarrow> nat) \<Rightarrow>
    ((string \<times> json) list, (string \<times> json) list) p_options" where
  "p_default_options bytes = \<lparr>
     p_initial = [], assignNotPersisted = (\<lambda>d. d), p_read = Inr, p_write = (\<lambda>d. d),
     operations = [(''set'', set_operation), (''delete'', delete_operation)],
     savepointOnClose = True, maxDeltaB = 1024 * 1024, lineSize = bytes\<rparr>"

section \<open>Reading\<close>

text \<open>\<open>applyDelta\<close>: the lines of a log, in order, up to the first that fails.\<close>

fun apply_lines :: "('d, 'f) p_options \<Rightarrow> line list \<Rightarrow> 'd \<Rightarrow> 'd \<times> exn option" where
  "apply_lines opts [] d = (d, None)"
| "apply_lines opts ((type, args) # lines) d =
     (case map_of (operations opts) type of
        None \<Rightarrow> (d, Some AssertFailed)
      | Some operation \<Rightarrow>
          (case operation d args of
             (d', None) \<Rightarrow> apply_lines opts lines d'
           | (d', Some e) \<Rightarrow> (d', Some e)))"

definition applyDelta :: "('d, 'f) p_options \<Rightarrow> (nat \<times> line list) list \<Rightarrow> nat \<Rightarrow> 'd \<Rightarrow>
    'd \<times> exn option" where
  "applyDelta opts files i d =
     (case map_of files i of
        None \<Rightarrow> (d, Some AssertFailed)
      | Some lines \<Rightarrow> apply_lines opts lines d)"

fun applyDeltas :: "('d, 'f) p_options \<Rightarrow> (nat \<times> line list) list \<Rightarrow> nat list \<Rightarrow> 'd \<Rightarrow>
    'd \<times> exn option" where
  "applyDeltas opts files [] d = (d, None)"
| "applyDeltas opts files (i # ids) d =
     (case applyDelta opts files i d of
        (d', None) \<Rightarrow> applyDeltas opts files ids d'
      | (d', Some e) \<Rightarrow> (d', Some e))"

definition initializeData :: "('d, 'f) p_options \<Rightarrow> ('d, 'f) pers \<Rightarrow> ('d, 'f) pers \<times> unit outcome" where
  "initializeData opts s =
     (case (case dataFile (p_disk s) of None \<Rightarrow> Inr (p_initial opts) | Some f \<Rightarrow> p_read opts f) of
        Inl e \<Rightarrow> (s, Inl e)
      | Inr d \<Rightarrow>
          (case applyDeltas opts (logs (p_disk s)) (deltaList s) d of
             (d', Some e) \<Rightarrow> (s\<lparr>p_data := Some d'\<rparr>, Inl e)
           | (d', None) \<Rightarrow> (s\<lparr>p_data := Some (assignNotPersisted opts d')\<rparr>, Inr ())))"

text \<open>\<open>initializeDelta\<close>: the identifiers of the logs on disk, and whether there is something in them.\<close>

definition log_size :: "('d, 'f) p_options \<Rightarrow> line list \<Rightarrow> nat" where
  "log_size opts lines = sum_list (map (lineSize opts) lines)"

definition initializeDelta :: "('d, 'f) p_options \<Rightarrow> 'f disk \<Rightarrow> nat list \<times> bool" where
  "initializeDelta opts dk =
     (sort (map fst (logs dk)),
      length (logs dk) > 1 \<or> (\<exists>(i, lines) \<in> set (logs dk). log_size opts lines > 0))"

text \<open>\<open>PersistenceDisk.make(path, options)\<close>: a new instance on what is on the disk.\<close>

definition p_make :: "('d, 'f) p_options \<Rightarrow> 'f disk \<Rightarrow> ('d, 'f) pers" where
  "p_make opts dk =
     (let (ids, isDirty) = initializeDelta opts dk
      in \<lparr>p_disk = dk, deltaList = ids, dirty = isDirty, p_data = None, isInitialized = False,
          p_ready = True, p_version = 0, savepointVersion = 0, isSavepoint = False\<rparr>)"

definition p_get :: "('d, 'f) p_options \<Rightarrow> ('d, 'f) pers \<Rightarrow> ('d, 'f) pers \<times> 'd outcome" where
  "p_get opts s =
     (if \<not> p_ready s then (s, Inl AssertFailed)
      else
        (case (if \<not> isInitialized s
               then (case initializeData opts s of
                       (s', Inl e) \<Rightarrow> (s', Inl e)
                     | (s', Inr _) \<Rightarrow> (s'\<lparr>isInitialized := True\<rparr>, Inr ()))
               else (s, Inr ())) of
           (s', Inl e) \<Rightarrow> (s', Inl e)
         | (s', Inr _) \<Rightarrow> (s', case p_data s' of Some d \<Rightarrow> Inr d | None \<Rightarrow> Inl TypeErr)))"

section \<open>Writing\<close>

definition createDeltaNoLock :: "('d, 'f) pers \<Rightarrow> ('d, 'f) pers \<times> nat outcome" where
  "createDeltaNoLock s =
     (if \<not> p_ready s then (s, Inl AssertFailed)
      else
        let newId = (if deltaList s \<noteq> [] then last (deltaList s) + 1 else 0);
            files = logs (p_disk s);
            touched = (case map_of files newId of None \<Rightarrow> AList.update newId [] files | Some _ \<Rightarrow> files)
        in (s\<lparr>deltaList := deltaList s @ [newId], p_disk := (p_disk s)\<lparr>logs := touched\<rparr>\<rparr>, Inr newId))"

definition getDeltaPath :: "('d, 'f) pers \<Rightarrow> ('d, 'f) pers \<times> nat outcome" where
  "getDeltaPath s =
     (if deltaList s = [] then createDeltaNoLock s else (s, Inr (last (deltaList s))))"

definition append_line :: "nat \<Rightarrow> line \<Rightarrow> 'f disk \<Rightarrow> 'f disk" where
  "append_line i l dk =
     dk\<lparr>logs := AList.update i ((case map_of (logs dk) i of None \<Rightarrow> [] | Some ls \<Rightarrow> ls) @ [l]) (logs dk)\<rparr>"

definition truncate_log :: "nat \<Rightarrow> line list \<Rightarrow> 'f disk \<Rightarrow> 'f disk" where
  "truncate_log i before dk = dk\<lparr>logs := AList.update i before (logs dk)\<rparr>"

text \<open>
  \<open>write(type, ...args)\<close>. The size of the log before the line is appended is its lines before
  that; a log created because the last one is full has none.
\<close>

definition p_write_delta :: "('d, 'f) p_options \<Rightarrow> ('d, 'f) pers \<Rightarrow> ('d, 'f) pers \<times> (nat \<times> line list) outcome"
  where
  "p_write_delta opts s =
     (case getDeltaPath s of
        (s1, Inl e) \<Rightarrow> (s1, Inl e)
      | (s1, Inr i) \<Rightarrow>
          (case map_of (logs (p_disk s1)) i of
             None \<Rightarrow> (s1, Inl (Raised ''ENOENT''))
           | Some lines \<Rightarrow>
               (if log_size opts lines > maxDeltaB opts
                then (case createDeltaNoLock s1 of
                        (s2, Inl e) \<Rightarrow> (s2, Inl e)
                      | (s2, Inr _) \<Rightarrow>
                          (case getDeltaPath s2 of
                             (s3, Inl e) \<Rightarrow> (s3, Inl e)
                           | (s3, Inr i') \<Rightarrow> (s3, Inr (i', []))))
                else (s1, Inr (i, lines)))))"

definition p_write_op :: "('d, 'f) p_options \<Rightarrow> string \<Rightarrow> json list \<Rightarrow> ('d, 'f) pers \<Rightarrow>
    ('d, 'f) pers \<times> unit outcome" where
  "p_write_op opts type args s =
     (case map_of (operations opts) type of
        None \<Rightarrow> (s, Inl AssertFailed)
      | Some operation \<Rightarrow>
        (if \<not> p_ready s then (s, Inl AssertFailed)
         else
           (case p_write_delta opts s of
              (s1, Inl e) \<Rightarrow> (s1, Inl e)
            | (s1, Inr (i, before)) \<Rightarrow>
                (case p_get opts s1 of
                   (s2, Inl e) \<Rightarrow> (s2, Inl e)
                 | (s2, Inr d) \<Rightarrow>
                     let s3 = s2\<lparr>p_disk := append_line i (type, map json_roundtrip args) (p_disk s2)\<rparr>
                     in (case operation d args of
                           (d', None) \<Rightarrow>
                             (s3\<lparr>p_data := Some d', p_version := p_version s3 + 1, dirty := True\<rparr>, Inr ())
                         | (d', Some e) \<Rightarrow>
                             (s3\<lparr>p_data := Some d', p_disk := truncate_log i before (p_disk s3)\<rparr>,
                              Inl e))))))"

text \<open>
  \<open>writeCompare\<close>: the version is compared when it is called, the write is done when the mutex is
  acquired; \<open>p_writeCompare\<close> is the call with nothing in between.
\<close>

definition writeCompare_check :: "nat \<Rightarrow> ('d, 'f) pers \<Rightarrow> bool" where
  "writeCompare_check version s = (version = p_version s)"

definition p_writeCompare :: "('d, 'f) p_options \<Rightarrow> nat \<Rightarrow> string \<Rightarrow> json list \<Rightarrow> ('d, 'f) pers \<Rightarrow>
    ('d, 'f) pers \<times> bool outcome" where
  "p_writeCompare opts version type args s =
     (if writeCompare_check version s
      then (case p_write_op opts type args s of
              (s', Inl e) \<Rightarrow> (s', Inl e)
            | (s', Inr _) \<Rightarrow> (s', Inr True))
      else (s, Inr False))"

section \<open>Savepoint, reset and close\<close>

text \<open>
  The loop of \<open>replaceDataNoLock\<close> that removes the logs before \<open>lastId\<close> (all of them when it is
  \<open>undefined\<close>): the state of the files and of the list after every \<open>unlink\<close>.
\<close>

fun unlink_loop :: "nat option \<Rightarrow> nat list \<Rightarrow> (nat \<times> line list) list \<Rightarrow>
    (nat list \<times> (nat \<times> line list) list) list" where
  "unlink_loop lastId [] files = [([], files)]"
| "unlink_loop lastId (i # ids) files =
     (if lastId = Some i then [(i # ids, files)]
      else (i # ids, files) # unlink_loop lastId ids (AList.delete i files))"

text \<open>The states of the disk during the replacement, the first after \<open>move\<close>, the last the final one.\<close>

definition replace_trace :: "'f \<Rightarrow> nat option \<Rightarrow> ('d, 'f) pers \<Rightarrow> (nat list \<times> 'f disk) list" where
  "replace_trace temp lastId s =
     map (\<lambda>(ids, files). (ids, (p_disk s)\<lparr>dataFile := Some temp, logs := files\<rparr>))
       (unlink_loop lastId (deltaList s) (logs (p_disk s)))"

definition replaceDataNoLock :: "'f \<Rightarrow> nat option \<Rightarrow> ('d, 'f) pers \<Rightarrow> ('d, 'f) pers \<times> unit outcome" where
  "replaceDataNoLock temp lastId s =
     (if \<not> p_ready s then (s, Inl AssertFailed)
      else
        let (ids, dk) = last (replace_trace temp lastId s)
        in (s\<lparr>deltaList := ids, p_disk := dk, dirty := (if ids = [] then False else dirty s)\<rparr>, Inr ()))"

text \<open>
  \<open>savepoint\<close> under the lock: a new log for what follows, and a copy of the data beside the data
  file. What is left to do is given by the version of the savepoint and the new log.
\<close>

definition savepoint_begin :: "('d, 'f) p_options \<Rightarrow> ('d, 'f) pers \<Rightarrow>
    ('d, 'f) pers \<times> (nat \<times> nat) option outcome" where
  "savepoint_begin opts s =
     (if \<not> p_ready s then (s, Inl AssertFailed)
      else if isSavepoint s then (s, Inr None)
      else
        let s0 = s\<lparr>isSavepoint := True, savepointVersion := savepointVersion s + 1\<rparr>
        in (case createDeltaNoLock s0 of
              (s1, Inl e) \<Rightarrow> (s1\<lparr>isSavepoint := False\<rparr>, Inl e)
            | (s1, Inr i) \<Rightarrow>
                (case p_get opts s1 of
                   (s2, Inl e) \<Rightarrow> (s2\<lparr>isSavepoint := False\<rparr>, Inl e)
                 | (s2, Inr d) \<Rightarrow>
                     (s2\<lparr>p_disk := (p_disk s2)\<lparr>tempFile := Some (p_write opts d)\<rparr>, dirty := False\<rparr>,
                      Inr (Some (savepointVersion s0, i))))))"

text \<open>\<open>savepointReplaceData\<close>, and the end of \<open>savepoint\<close>.\<close>

definition savepoint_end :: "nat \<Rightarrow> nat \<Rightarrow> ('d, 'f) pers \<Rightarrow> ('d, 'f) pers" where
  "savepoint_end version lastId s =
     (if version = savepointVersion s
      then (case tempFile (p_disk s) of
              None \<Rightarrow> s\<lparr>isSavepoint := False\<rparr>
            | Some temp \<Rightarrow>
                (case replaceDataNoLock temp (Some lastId) s of
                   (s', Inl _) \<Rightarrow> s'\<lparr>isSavepoint := False\<rparr>
                 | (s', Inr _) \<Rightarrow> s'\<lparr>p_disk := (p_disk s')\<lparr>tempFile := None\<rparr>, isSavepoint := False\<rparr>))
      else s\<lparr>isSavepoint := False\<rparr>)"

definition p_reset :: "('d, 'f) p_options \<Rightarrow> 'd option \<Rightarrow> ('d, 'f) pers \<Rightarrow> ('d, 'f) pers \<times> unit outcome" where
  "p_reset opts data s =
     (let setData = (case data of None \<Rightarrow> p_initial opts | Some d \<Rightarrow> d)
      in (case replaceDataNoLock (p_write opts setData) None s of
            (s', Inl e) \<Rightarrow> (s', Inl e)
          | (s', Inr _) \<Rightarrow>
              (s'\<lparr>p_data := Some (assignNotPersisted opts setData),
                  savepointVersion := savepointVersion s' + 1, p_ready := True\<rparr>, Inr ())))"

definition p_isDirty :: "('d, 'f) pers \<Rightarrow> bool outcome" where
  "p_isDirty s = (if p_ready s then Inr (dirty s) else Inl AssertFailed)"

text \<open>\<open>close\<close>, when no savepoint is under way: both steps of \<open>savepoint\<close>, if there is something to save.\<close>

definition taskSavepoint :: "('d, 'f) p_options \<Rightarrow> ('d, 'f) pers \<Rightarrow> ('d, 'f) pers \<times> unit outcome" where
  "taskSavepoint opts s =
     (case p_isDirty s of
        Inl e \<Rightarrow> (s, Inl e)
      | Inr False \<Rightarrow> (s, Inr ())
      | Inr True \<Rightarrow>
          (case savepoint_begin opts s of
             (s', Inr (Some (version, i))) \<Rightarrow> (savepoint_end version i s', Inr ())
           | (s', _) \<Rightarrow> (s', Inr ())))"

definition p_close :: "('d, 'f) p_options \<Rightarrow> ('d, 'f) pers \<Rightarrow> ('d, 'f) pers \<times> unit outcome" where
  "p_close opts s =
     (case (if savepointOnClose opts then taskSavepoint opts s else (s, Inr ())) of
        (s', Inl e) \<Rightarrow> (s', Inl e)
      | (s', Inr _) \<Rightarrow> (s'\<lparr>p_ready := False\<rparr>, Inr ()))"

definition p_consistencyCheck :: "('d, 'f) p_options \<Rightarrow> ('d, 'f) pers \<Rightarrow> bool outcome" where
  "p_consistencyCheck opts s =
     (let (ids, isDirty) = initializeDelta opts (p_disk s)
      in if \<not> p_ready s then Inl AssertFailed
         else if length ids \<noteq> length (deltaList s) then Inl AssertFailed
         else if ids \<noteq> deltaList s then Inl AssertFailed
         else if \<not> sorted_wrt (<) ids then Inl AssertFailed
         else if \<not> (dirty s \<or> isDirty = dirty s) then Inl AssertFailed
         else Inr True)"


lemmas persistence_defs =
  p_default_options_def set_operation_def delete_operation_def arg_def applyDelta_def
  initializeData_def log_size_def initializeDelta_def p_make_def p_get_def createDeltaNoLock_def
  getDeltaPath_def append_line_def truncate_log_def p_write_delta_def p_write_op_def
  replace_trace_def replaceDataNoLock_def savepoint_begin_def savepoint_end_def p_reset_def

section \<open>What the disk holds\<close>

text \<open>
  The abstract state of a persistence is its data: what a new instance reads from the disk, and what
  a running instance has in memory once it has read it. The state of the disk is well formed when
  the logs are listed with increasing identifiers (directory listings have no order of their own).
\<close>

definition base :: "('d, 'f) p_options \<Rightarrow> 'f disk \<Rightarrow> 'd outcome" where
  "base opts dk = (case dataFile dk of None \<Rightarrow> Inr (p_initial opts) | Some f \<Rightarrow> p_read opts f)"

definition all_lines :: "(nat \<times> line list) list \<Rightarrow> line list" where
  "all_lines files = concat (map snd files)"

definition replays :: "('d, 'f) p_options \<Rightarrow> line list \<Rightarrow> 'd \<Rightarrow> 'd \<Rightarrow> bool" where
  "replays opts lines d d' = (apply_lines opts lines d = (d', None))"

definition disk_content :: "('d, 'f) p_options \<Rightarrow> 'f disk \<Rightarrow> 'd \<Rightarrow> bool" where
  "disk_content opts dk d = (\<exists>b. base opts dk = Inr b \<and> replays opts (all_lines (logs dk)) b d)"

definition disk_ok :: "'f disk \<Rightarrow> bool" where
  "disk_ok dk = sorted_wrt (<) (map fst (logs dk))"

text \<open>What the options have to satisfy: the file format is lossless, an operation that throws has
  not changed the data, and everything is persisted.\<close>

definition options_ok :: "('d, 'f) p_options \<Rightarrow> bool" where
  "options_ok opts =
     ((\<forall>d. p_read opts (p_write opts d) = Inr d) \<and> assignNotPersisted opts = (\<lambda>d. d) \<and>
      (\<forall>type operation d args e d'. map_of (operations opts) type = Some operation \<longrightarrow>
         operation d args = (d', Some e) \<longrightarrow> d' = d))"

lemma options_okD:
  assumes "options_ok opts"
  shows "p_read opts (p_write opts d) = Inr d" and "assignNotPersisted opts d = d"
    and "map_of (operations opts) type = Some operation \<Longrightarrow> operation d args = (d', Some e) \<Longrightarrow> d' = d"
proof -
  show "p_read opts (p_write opts d) = Inr d" "assignNotPersisted opts d = d"
    using assms by (simp_all add: options_ok_def)
  show "map_of (operations opts) type = Some operation \<Longrightarrow> operation d args = (d', Some e) \<Longrightarrow> d' = d"
    using assms unfolding options_ok_def by blast
qed

lemma apply_lines_append:
  "apply_lines opts (xs @ ys) d =
     (case apply_lines opts xs d of
        (d', None) \<Rightarrow> apply_lines opts ys d'
      | (d', Some e) \<Rightarrow> (d', Some e))"
  by (induction opts xs d rule: apply_lines.induct) (auto split: option.splits prod.splits)

lemma replays_Nil [simp]: "replays opts [] d d' \<longleftrightarrow> d' = d"
  by (auto simp: replays_def)

lemma replays_append:
  "replays opts (xs @ ys) d d'' \<longleftrightarrow> (\<exists>d'. replays opts xs d d' \<and> replays opts ys d' d'')"
  by (auto simp: replays_def apply_lines_append split: option.splits prod.splits)

lemma replays_snoc:
  assumes "replays opts xs d d'" and "map_of (operations opts) type = Some operation"
    and "operation d' args = (d'', None)"
  shows "replays opts (xs @ [(type, args)]) d d''"
  unfolding replays_append using assms by (auto simp: replays_def intro!: exI [of _ d'])

lemma replays_unique: "replays opts xs d d' \<Longrightarrow> replays opts xs d d'' \<Longrightarrow> d' = d''"
  by (simp add: replays_def)

lemma all_lines_simps [simp]:
  "all_lines [] = []"
  "all_lines (f # files) = snd f @ all_lines files"
  "all_lines (files @ files') = all_lines files @ all_lines files'"
  by (simp_all add: all_lines_def)

lemma applyDeltas_lines:
  assumes "\<forall>(i, lines)\<in>set files. map_of all i = Some lines"
  shows "applyDeltas opts all (map fst files) d = apply_lines opts (all_lines files) d"
  using assms
proof (induction files arbitrary: d)
  case (Cons f files)
  obtain i lines where f: "f = (i, lines)" by (cases f)
  show ?case
    using Cons.prems by (auto simp: f applyDelta_def apply_lines_append Cons.IH
        split: option.splits prod.splits)
qed simp

lemma disk_ok_distinct: "disk_ok dk \<Longrightarrow> wf_map (logs dk)"
  by (simp add: disk_ok_def strict_sorted_iff)

lemma applyDeltas_disk:
  assumes "disk_ok dk"
  shows "applyDeltas opts (logs dk) (map fst (logs dk)) d = apply_lines opts (all_lines (logs dk)) d"
  using disk_ok_distinct [OF assms] by (intro applyDeltas_lines) (auto simp: map_of_eq_Some_iff)

section \<open>The invariant\<close>

text \<open>
  A savepoint under way is given by its version and its log. As long as no \<open>reset\<close> came after it, the
  logs before its own and the data file together make up the data that it wrote to the temporary file.
\<close>

definition saved_before :: "('d, 'f) p_options \<Rightarrow> nat \<Rightarrow> 'f disk \<Rightarrow> bool" where
  "saved_before opts i dk =
     (\<exists>old lines new b d. logs dk = old @ (i, lines) # new \<and> base opts dk = Inr b \<and>
        replays opts (all_lines old) b d \<and> tempFile dk = Some (p_write opts d))"

definition pending_ok :: "('d, 'f) p_options \<Rightarrow> (nat \<times> nat) option \<Rightarrow> ('d, 'f) pers \<Rightarrow> bool" where
  "pending_ok opts pending s =
     (\<forall>v i. pending = Some (v, i) \<longrightarrow>
        v \<le> savepointVersion s \<and> (v = savepointVersion s \<longrightarrow> saved_before opts i (p_disk s)))"

definition p_core :: "('d, 'f) p_options \<Rightarrow> ('d, 'f) pers \<Rightarrow> 'd \<Rightarrow> bool" where
  "p_core opts s d =
     (p_ready s \<and> disk_ok (p_disk s) \<and> deltaList s = map fst (logs (p_disk s)) \<and>
      disk_content opts (p_disk s) d \<and> (isInitialized s \<longrightarrow> p_data s = Some d))"

definition p_inv :: "('d, 'f) p_options \<Rightarrow> (nat \<times> nat) option \<Rightarrow> ('d, 'f) pers \<Rightarrow> 'd \<Rightarrow> bool" where
  "p_inv opts pending s d =
     (p_core opts s d \<and> isSavepoint s = (pending \<noteq> None) \<and> pending_ok opts pending s)"

lemma p_invD: "p_inv opts pending s d \<Longrightarrow> p_core opts s d"
  by (simp add: p_inv_def)

text \<open>A new instance, and reading the data.\<close>

lemma p_make_inv:
  assumes "disk_ok dk" and "disk_content opts dk d"
  shows "p_inv opts None (p_make opts dk) d"
  using assms by (simp add: p_inv_def p_core_def p_make_def initializeDelta_def pending_ok_def disk_ok_def
      sorted_sort_id strict_sorted_imp_sorted)

lemma p_get_result:
  assumes opts: "options_ok opts" and inv: "p_core opts s d"
  shows "p_get opts s = (s\<lparr>p_data := Some d, isInitialized := True\<rparr>, Inr d)"
proof (cases "isInitialized s")
  case True
  then show ?thesis using inv by (simp add: p_get_def p_core_def)
next
  case False
  have load: "applyDeltas opts (logs (p_disk s)) (map fst (logs (p_disk s))) b =
      apply_lines opts (all_lines (logs (p_disk s))) b" for b
    using inv applyDeltas_disk [of "p_disk s" opts] by (simp add: p_core_def)
  obtain b where "base opts (p_disk s) = Inr b" "apply_lines opts (all_lines (logs (p_disk s))) b = (d, None)"
    using inv by (auto simp: p_core_def disk_content_def replays_def)
  then show ?thesis
    using False inv options_okD(2) [OF opts]
    by (simp add: p_get_def initializeData_def base_def load p_core_def)
qed

lemma p_get_core:
  "p_core opts s d \<Longrightarrow> p_core opts (s\<lparr>p_data := Some d, isInitialized := True\<rparr>) d"
  by (simp add: p_core_def)

lemma p_get_inv:
  "p_inv opts pending s d \<Longrightarrow> p_inv opts pending (s\<lparr>p_data := Some d, isInitialized := True\<rparr>) d"
  by (simp add: p_inv_def p_core_def pending_ok_def)

section \<open>Preservation\<close>

text \<open>Adding a log, and changing the lines of the last one.\<close>

lemma pending_ok_mono:
  assumes "pending_ok opts pending s" and "savepointVersion s' = savepointVersion s"
    and "\<And>i. saved_before opts i (p_disk s) \<Longrightarrow> saved_before opts i (p_disk s')"
  shows "pending_ok opts pending s'"
  using assms by (simp add: pending_ok_def)

lemma saved_before_new_log:
  assumes "saved_before opts i dk"
  shows "saved_before opts i (dk\<lparr>logs := logs dk @ [f]\<rparr>)"
  using assms by (fastforce simp: saved_before_def base_def)

lemma saved_before_last_log:
  assumes "saved_before opts j dk" and "logs dk = pre @ [(i, ls)]"
  shows "saved_before opts j (dk\<lparr>logs := pre @ [(i, ls')]\<rparr>)"
proof -
  obtain old lines new b d where split: "logs dk = old @ (j, lines) # new"
    and rest: "base opts dk = Inr b" "replays opts (all_lines old) b d"
    "tempFile dk = Some (p_write opts d)"
    using assms(1) by (auto simp: saved_before_def)
  have "\<exists>lines' new'. pre @ [(i, ls')] = old @ (j, lines') # new'"
    using split assms(2) by (cases new rule: rev_cases) auto
  then show ?thesis using rest by (fastforce simp: saved_before_def base_def)
qed

lemma createDelta_core:
  assumes core: "p_core opts s d"
  shows "\<exists>i. createDeltaNoLock s =
      (s\<lparr>deltaList := deltaList s @ [i], p_disk := (p_disk s)\<lparr>logs := logs (p_disk s) @ [(i, [])]\<rparr>\<rparr>, Inr i) \<and>
    p_core opts
      (s\<lparr>deltaList := deltaList s @ [i], p_disk := (p_disk s)\<lparr>logs := logs (p_disk s) @ [(i, [])]\<rparr>\<rparr>) d"
proof -
  define i where "i = (if deltaList s \<noteq> [] then last (deltaList s) + 1 else 0)"
  have ids: "deltaList s = map fst (logs (p_disk s))" and sorted: "sorted_wrt (<) (deltaList s)"
    using core by (auto simp: p_core_def disk_ok_def)
  have less: "j < i" if "j \<in> set (deltaList s)" for j
    using that sorted by (cases "deltaList s" rule: rev_cases) (auto simp: i_def sorted_wrt_append)
  then have "i \<notin> fst ` set (logs (p_disk s))" using ids by force
  then have new: "map_of (logs (p_disk s)) i = None"
      "AList.update i [] (logs (p_disk s)) = logs (p_disk s) @ [(i, [])]"
    by (simp_all add: map_of_eq_None_iff update_fresh)
  let ?s' = "s\<lparr>deltaList := deltaList s @ [i], p_disk := (p_disk s)\<lparr>logs := logs (p_disk s) @ [(i, [])]\<rparr>\<rparr>"
  have "p_ready s" using core by (simp add: p_core_def)
  then have "createDeltaNoLock s = (?s', Inr i)"
    unfolding createDeltaNoLock_def i_def [symmetric] Let_def by (simp add: new)
  moreover have "p_core opts ?s' d"
    using core ids sorted less
    by (auto simp: p_core_def disk_ok_def sorted_wrt_append disk_content_def base_def)
  ultimately show ?thesis by blast
qed

lemma createDelta_result:
  assumes inv: "p_inv opts pending s d"
  shows "\<exists>i. createDeltaNoLock s =
      (s\<lparr>deltaList := deltaList s @ [i], p_disk := (p_disk s)\<lparr>logs := logs (p_disk s) @ [(i, [])]\<rparr>\<rparr>, Inr i) \<and>
    p_inv opts pending
      (s\<lparr>deltaList := deltaList s @ [i], p_disk := (p_disk s)\<lparr>logs := logs (p_disk s) @ [(i, [])]\<rparr>\<rparr>) d"
proof -
  have "pending_ok opts pending
      (s\<lparr>deltaList := deltaList s @ [i], p_disk := (p_disk s)\<lparr>logs := logs (p_disk s) @ [(i, [])]\<rparr>\<rparr>)" for i
    by (rule pending_ok_mono [of opts pending s])
      (use inv saved_before_new_log in \<open>auto simp: p_inv_def\<close>)
  then show ?thesis using createDelta_core [OF p_invD [OF inv]] inv by (auto simp: p_inv_def)
qed

lemma getDeltaPath_result:
  assumes inv: "p_inv opts pending s d"
  shows "\<exists>s' i pre lines. getDeltaPath s = (s', Inr i) \<and> p_inv opts pending s' d \<and>
    logs (p_disk s') = pre @ [(i, lines)] \<and> deltaList s' \<noteq> [] \<and> p_version s' = p_version s"
proof (cases "deltaList s = []")
  case True
  then show ?thesis using createDelta_result [OF inv] by (auto simp: getDeltaPath_def)
next
  case False
  then obtain pre i lines where "logs (p_disk s) = pre @ [(i, lines)]"
    using inv by (cases "logs (p_disk s)" rule: rev_cases) (auto simp: p_inv_def p_core_def)
  moreover from this have "last (deltaList s) = i" using inv by (simp add: p_inv_def p_core_def)
  ultimately show ?thesis using False inv by (auto simp: getDeltaPath_def)
qed

lemma last_log:
  assumes "p_inv opts pending s d" and "logs (p_disk s) = pre @ [(i, lines)]"
  shows "map_of (logs (p_disk s)) i = Some lines"
    and "AList.update i ls (logs (p_disk s)) = pre @ [(i, ls)]"
proof -
  have "wf_map (logs (p_disk s))" using assms(1) disk_ok_distinct by (auto simp: p_inv_def p_core_def)
  then have fresh: "i \<notin> fst ` set pre" by (auto simp: assms(2))
  then show "map_of (logs (p_disk s)) i = Some lines"
    by (simp add: assms(2) map_add_def map_of_eq_None_iff [THEN iffD2] split: option.splits)
  have "AList.update i ls (pre @ [(i, lines)]) = pre @ [(i, ls)]" using fresh by (induction pre) auto
  then show "AList.update i ls (logs (p_disk s)) = pre @ [(i, ls)]" by (simp add: assms(2))
qed

lemma p_write_delta_result:
  assumes inv: "p_inv opts pending s d"
  shows "\<exists>s' i pre lines. p_write_delta opts s = (s', Inr (i, lines)) \<and> p_inv opts pending s' d \<and>
    logs (p_disk s') = pre @ [(i, lines)] \<and> p_version s' = p_version s"
proof -
  obtain s1 i pre lines where path: "getDeltaPath s = (s1, Inr i)" and inv1: "p_inv opts pending s1 d"
    and logs1: "logs (p_disk s1) = pre @ [(i, lines)]" and frame: "p_version s1 = p_version s"
    using getDeltaPath_result [OF inv] by blast
  note lookup = last_log(1) [OF inv1 logs1]
  obtain i' where create: "createDeltaNoLock s1 =
      (s1\<lparr>deltaList := deltaList s1 @ [i'], p_disk := (p_disk s1)\<lparr>logs := logs (p_disk s1) @ [(i', [])]\<rparr>\<rparr>, Inr i')"
    "p_inv opts pending
      (s1\<lparr>deltaList := deltaList s1 @ [i'], p_disk := (p_disk s1)\<lparr>logs := logs (p_disk s1) @ [(i', [])]\<rparr>\<rparr>) d"
    using createDelta_result [OF inv1] by blast
  have path2: "getDeltaPath (s1\<lparr>deltaList := deltaList s1 @ [i'], p_disk := dk\<rparr>) =
      (s1\<lparr>deltaList := deltaList s1 @ [i'], p_disk := dk\<rparr>, Inr i')" for dk
    by (simp add: getDeltaPath_def)
  show ?thesis
  proof (cases "log_size opts lines > maxDeltaB opts")
    case True
    then have "p_write_delta opts s =
        (s1\<lparr>deltaList := deltaList s1 @ [i'], p_disk := (p_disk s1)\<lparr>logs := logs (p_disk s1) @ [(i', [])]\<rparr>\<rparr>,
         Inr (i', []))"
      using create(1) by (simp add: p_write_delta_def path lookup path2)
    then show ?thesis using create(2) frame by (intro exI conjI) (assumption | simp)+
  next
    case False
    then have "p_write_delta opts s = (s1, Inr (i, lines))"
      by (simp add: p_write_delta_def path lookup)
    then show ?thesis using inv1 logs1 frame by blast
  qed
qed

text \<open>A write appends a line and changes the data as the operation does.\<close>

lemma append_inv:
  assumes inv: "p_inv opts pending s d" and logs: "logs (p_disk s) = pre @ [(i, lines)]"
    and op: "map_of (operations opts) type = Some operation" "operation d args = (d', None)"
  shows "p_inv opts pending (s\<lparr>p_disk := append_line i (type, args) (p_disk s), p_data := Some d'\<rparr>) d'"
proof -
  have app: "append_line i (type, args) (p_disk s) =
      (p_disk s)\<lparr>logs := pre @ [(i, lines @ [(type, args)])]\<rparr>"
    by (simp add: append_line_def last_log [OF inv logs])
  obtain b where "base opts (p_disk s) = Inr b" "replays opts (all_lines pre @ lines) b d"
    using inv logs by (auto simp: p_inv_def p_core_def disk_content_def)
  then have "disk_content opts (append_line i (type, args) (p_disk s)) d'"
    using replays_snoc [OF _ op, of "all_lines pre @ lines" b]
    by (auto simp: app disk_content_def base_def)
  moreover have "pending_ok opts pending
      (s\<lparr>p_disk := append_line i (type, args) (p_disk s), p_data := Some d'\<rparr>)"
    by (rule pending_ok_mono [of opts pending s])
      (use inv saved_before_last_log [OF _ logs] in \<open>auto simp: app p_inv_def p_core_def\<close>)
  ultimately show ?thesis using inv logs by (simp add: p_inv_def p_core_def disk_ok_def app)
qed

lemma p_write_op_ok:
  assumes opts: "options_ok opts" and inv: "p_inv opts pending s d" and args: "pod args"
    and op: "map_of (operations opts) type = Some operation" "operation d args = (d', None)"
  shows "\<exists>s'. p_write_op opts type args s = (s', Inr ()) \<and> p_inv opts pending s' d' \<and>
    p_data s' = Some d' \<and> isInitialized s' \<and> p_version s' = p_version s + 1 \<and> dirty s'"
proof -
  obtain s1 i pre lines where delta: "p_write_delta opts s = (s1, Inr (i, lines))"
    and inv1: "p_inv opts pending s1 d" and logs: "logs (p_disk s1) = pre @ [(i, lines)]"
    and version: "p_version s1 = p_version s"
    using p_write_delta_result [OF inv] by blast
  define s2 where "s2 = s1\<lparr>p_data := Some d, isInitialized := True\<rparr>"
  have inv2: "p_inv opts pending s2 d" using p_get_inv [OF inv1] by (simp add: s2_def)
  have "logs (p_disk s2) = pre @ [(i, lines)]" using logs by (simp add: s2_def)
  note inv3 = append_inv [OF inv2 this op]
  define s3 where "s3 = s2\<lparr>p_disk := append_line i (type, args) (p_disk s2), p_data := Some d'\<rparr>"
  define s4 where "s4 = s3\<lparr>p_version := p_version s3 + 1, dirty := True\<rparr>"
  have "p_write_op opts type args s = (s4, Inr ())"
    using inv args p_get_result [OF opts p_invD [OF inv1]] op
    by (simp add: p_write_op_def delta p_inv_def p_core_def pod_def s2_def s3_def s4_def Let_def)
  moreover have "p_inv opts pending s4 d'"
    using inv3 by (simp add: s4_def p_inv_def p_core_def s3_def pending_ok_def)
  ultimately show ?thesis
    by (intro exI [of _ s4]) (simp add: s4_def s3_def s2_def version)
qed


text \<open>A write whose operation throws leaves the data and the disk with the same content.\<close>

lemma p_write_op_fails:
  assumes opts: "options_ok opts" and inv: "p_inv opts pending s d"
    and op: "map_of (operations opts) type = Some operation" "operation d args = (d', Some e)"
  shows "\<exists>s'. p_write_op opts type args s = (s', Inl e) \<and> p_inv opts pending s' d \<and>
    p_version s' = p_version s"
proof -
  obtain s1 i pre lines where delta: "p_write_delta opts s = (s1, Inr (i, lines))"
    and inv1: "p_inv opts pending s1 d" and logs: "logs (p_disk s1) = pre @ [(i, lines)]"
    and version: "p_version s1 = p_version s"
    using p_write_delta_result [OF inv] by blast
  have same: "d' = d" using options_okD(3) [OF opts op] .
  have i: "i \<notin> fst ` set pre"
    using inv1 disk_ok_distinct [of "p_disk s1"] by (auto simp: p_inv_def p_core_def logs)
  then have upd: "AList.update i ls (pre @ [(i, ls')]) = pre @ [(i, ls)]" for ls ls' :: "line list"
    by (induction pre) auto
  have "truncate_log i lines (append_line i l (p_disk s1)) = p_disk s1" for l
    using logs by (simp add: truncate_log_def append_line_def upd)
  then have "p_write_op opts type args s = (s1\<lparr>p_data := Some d, isInitialized := True\<rparr>, Inl e)"
    using inv op p_get_result [OF opts p_invD [OF inv1]]
    by (simp add: p_write_op_def delta p_inv_def p_core_def same Let_def)
  then show ?thesis using p_get_inv [OF inv1] version by auto
qed

lemma p_write_op_unknown:
  "map_of (operations opts) type = None \<Longrightarrow> p_write_op opts type args s = (s, Inl AssertFailed)"
  by (simp add: p_write_op_def)

text \<open>The states the removal of the logs goes through: a log less each time.\<close>

lemma unlink_loop_until:
  assumes "wf_map (old @ (i, lines) # new)"
  shows "unlink_loop (Some i) (map fst (old @ (i, lines) # new)) (old @ (i, lines) # new) =
    map (\<lambda>k. (map fst (drop k old) @ i # map fst new, drop k old @ (i, lines) # new))
      [0..<Suc (length old)]"
  using assms
proof (induction old)
  case (Cons f old)
  obtain j ls where f: "f = (j, ls)" by (cases f)
  show ?case
    using Cons unfolding length_Cons map_upt_Suc [of _ "Suc (length old)"]
    by (simp add: f delete_fresh delete_append del: upt_Suc)
qed simp

lemma unlink_loop_all:
  assumes "wf_map files"
  shows "unlink_loop None (map fst files) files =
    map (\<lambda>k. (map fst (drop k files), drop k files)) [0..<Suc (length files)]"
  using assms
proof (induction files)
  case (Cons f files)
  obtain j ls where f: "f = (j, ls)" by (cases f)
  show ?case
    using Cons unfolding length_Cons map_upt_Suc [of _ "Suc (length files)"]
    by (simp add: f delete_fresh del: upt_Suc)
qed simp

lemma replaceData_until:
  assumes "p_ready s" and "disk_ok (p_disk s)" and "deltaList s = map fst (logs (p_disk s))"
    and "logs (p_disk s) = old @ (i, lines) # new"
  shows "replaceDataNoLock temp (Some i) s =
    (s\<lparr>deltaList := i # map fst new,
       p_disk := (p_disk s)\<lparr>dataFile := Some temp, logs := (i, lines) # new\<rparr>\<rparr>, Inr ())"
proof -
  have "wf_map (old @ (i, lines) # new)" using disk_ok_distinct [OF assms(2)] by (simp add: assms(4))
  from unlink_loop_until [OF this] show ?thesis
    using assms by (simp add: replaceDataNoLock_def replace_trace_def)
qed

lemma replaceData_all:
  assumes "p_ready s" and "disk_ok (p_disk s)" and "deltaList s = map fst (logs (p_disk s))"
  shows "replaceDataNoLock temp None s =
    (s\<lparr>deltaList := [], p_disk := (p_disk s)\<lparr>dataFile := Some temp, logs := []\<rparr>, dirty := False\<rparr>, Inr ())"
  using assms unlink_loop_all [OF disk_ok_distinct [OF assms(2)]]
  by (simp add: replaceDataNoLock_def replace_trace_def)

lemma savepoint_begin_inv:
  assumes opts: "options_ok opts" and inv: "p_inv opts None s d"
  shows "\<exists>s' i. savepoint_begin opts s = (s', Inr (Some (savepointVersion s', i))) \<and>
    p_inv opts (Some (savepointVersion s', i)) s' d \<and> p_version s' = p_version s"
proof -
  define s0 where "s0 = s\<lparr>isSavepoint := True, savepointVersion := savepointVersion s + 1\<rparr>"
  have "p_core opts s0 d" using inv by (simp add: p_inv_def p_core_def s0_def)
  from createDelta_core [OF this] obtain i where create: "createDeltaNoLock s0 =
      (s0\<lparr>deltaList := deltaList s0 @ [i], p_disk := (p_disk s0)\<lparr>logs := logs (p_disk s0) @ [(i, [])]\<rparr>\<rparr>, Inr i)"
    and core1: "p_core opts
      (s0\<lparr>deltaList := deltaList s0 @ [i], p_disk := (p_disk s0)\<lparr>logs := logs (p_disk s0) @ [(i, [])]\<rparr>\<rparr>) d"
    by (elim exE conjE) (rule that)
  define s1 where "s1 =
    s0\<lparr>deltaList := deltaList s0 @ [i], p_disk := (p_disk s0)\<lparr>logs := logs (p_disk s0) @ [(i, [])]\<rparr>\<rparr>"
  define s2 where "s2 = s1\<lparr>p_data := Some d, isInitialized := True\<rparr>"
  have get: "p_get opts s1 = (s2, Inr d)" and core2: "p_core opts s2 d"
    using p_get_result [OF opts core1] p_get_core [OF core1] by (simp_all add: s1_def s2_def)
  define s3 where "s3 = s2\<lparr>p_disk := (p_disk s2)\<lparr>tempFile := Some (p_write opts d)\<rparr>, dirty := False\<rparr>"
  have "p_ready s" "\<not> isSavepoint s" using inv by (auto simp: p_inv_def p_core_def)
  then have "savepoint_begin opts s = (s3, Inr (Some (savepointVersion s0, i)))"
    using create get unfolding savepoint_begin_def s0_def [symmetric] s1_def [symmetric] Let_def
    by (simp add: s3_def)
  moreover have "savepointVersion s0 = savepointVersion s3" by (simp add: s3_def s2_def s1_def)
  moreover have "saved_before opts i (p_disk s3)"
    using inv
    by (auto simp: saved_before_def s3_def s2_def s1_def s0_def p_inv_def p_core_def disk_content_def base_def)
  then have "p_inv opts (Some (savepointVersion s3, i)) s3 d"
    using core2 by (simp add: p_inv_def p_core_def pending_ok_def s3_def disk_content_def base_def disk_ok_def)
      (simp add: s2_def s1_def s0_def)
  ultimately show ?thesis by (intro exI [of _ s3] exI [of _ i]) (simp add: s3_def s2_def s1_def s0_def)
qed

lemma savepoint_begin_busy:
  "p_inv opts (Some p) s d \<Longrightarrow> savepoint_begin opts s = (s, Inr None)"
  by (simp add: savepoint_begin_def p_inv_def p_core_def)

text \<open>The end of a savepoint, whatever was written since it began.\<close>

lemma savepoint_end_inv:
  assumes opts: "options_ok opts" and inv: "p_inv opts (Some (v, i)) s d"
  shows "p_inv opts None (savepoint_end v i s) d"
proof (cases "v = savepointVersion s")
  case False
  then show ?thesis using inv by (simp add: savepoint_end_def p_inv_def p_core_def pending_ok_def)
next
  case True
  then obtain old lines new b d0 where split: "logs (p_disk s) = old @ (i, lines) # new"
    and base: "base opts (p_disk s) = Inr b" and old: "replays opts (all_lines old) b d0"
    and temp: "tempFile (p_disk s) = Some (p_write opts d0)"
    using inv by (auto simp: p_inv_def pending_ok_def saved_before_def)
  have ready: "p_ready s" "disk_ok (p_disk s)" "deltaList s = map fst (logs (p_disk s))"
    using inv by (auto simp: p_inv_def p_core_def)
  note replaced = replaceData_until [OF ready split]
  have "replays opts (all_lines ((i, lines) # new)) d0 d"
    using inv base replays_unique [OF old]
    by (auto simp: p_inv_def p_core_def disk_content_def split replays_append)
  then show ?thesis
    using inv ready True options_okD(1) [OF opts]
    by (auto simp: savepoint_end_def temp replaced p_inv_def p_core_def pending_ok_def disk_content_def base_def
        disk_ok_def split sorted_wrt_append)
qed

text \<open>A reset makes the given data the content, and cancels a savepoint under way.\<close>

lemma p_reset_inv:
  assumes opts: "options_ok opts" and inv: "p_inv opts pending s d"
  shows "\<exists>s'. p_reset opts data s = (s', Inr ()) \<and>
    p_inv opts pending s' (case data of None \<Rightarrow> p_initial opts | Some d' \<Rightarrow> d')"
proof -
  have ready: "p_ready s" "disk_ok (p_disk s)" "deltaList s = map fst (logs (p_disk s))"
    using inv by (auto simp: p_inv_def p_core_def)
  note replace = replaceData_all [OF ready]
  show ?thesis
    using inv options_okD(1,2) [OF opts]
    by (simp add: p_reset_def replace p_inv_def p_core_def disk_content_def base_def disk_ok_def
        pending_ok_def Let_def) (metis Suc_n_not_le_n le_SucI)
qed

text \<open>A new instance, whatever the old one was doing.\<close>

lemma restart_inv: "p_inv opts pending s d \<Longrightarrow> p_inv opts None (p_make opts (p_disk s)) d"
  by (rule p_make_inv) (auto simp: p_inv_def p_core_def)


section \<open>Refinement: a run of operations\<close>

text \<open>
  What can happen to a persistence: writes, reads, the two steps of a savepoint (with anything in
  between), resets, closing and opening again, and a crash, after which there is a new instance on
  the same disk. The specification of each is its effect on the data.
\<close>

datatype 'd p_action =
    PWrite string "json list"
  | PGet
  | PSavepointBegin
  | PSavepointEnd
  | PReset "'d option"
  | PClose
  | PCrash

fun p_exec :: "('d, 'f) p_options \<Rightarrow> 'd p_action \<Rightarrow> ('d, 'f) pers \<times> (nat \<times> nat) option \<Rightarrow>
    ('d, 'f) pers \<times> (nat \<times> nat) option" where
  "p_exec opts (PWrite type args) (s, pending) = (fst (p_write_op opts type args s), pending)"
| "p_exec opts PGet (s, pending) = (fst (p_get opts s), pending)"
| "p_exec opts PSavepointBegin (s, pending) =
     (case savepoint_begin opts s of
        (s', Inr (Some p)) \<Rightarrow> (s', Some p)
      | (s', _) \<Rightarrow> (s', pending))"
| "p_exec opts PSavepointEnd (s, pending) =
     (case pending of None \<Rightarrow> (s, None) | Some (v, i) \<Rightarrow> (savepoint_end v i s, None))"
| "p_exec opts (PReset data) (s, pending) = (fst (p_reset opts data s), pending)"
| "p_exec opts PClose (s, pending) = (p_make opts (p_disk (fst (p_close opts s))), None)"
| "p_exec opts PCrash (s, pending) = (p_make opts (p_disk s), None)"

fun p_spec :: "('d, 'f) p_options \<Rightarrow> 'd p_action \<Rightarrow> 'd \<Rightarrow> 'd" where
  "p_spec opts (PWrite type args) d =
     (case map_of (operations opts) type of
        None \<Rightarrow> d
      | Some operation \<Rightarrow> (case operation d args of (d', None) \<Rightarrow> d' | (_, Some _) \<Rightarrow> d))"
| "p_spec opts (PReset data) d = (case data of None \<Rightarrow> p_initial opts | Some d' \<Rightarrow> d')"
| "p_spec opts _ d = d"

fun pod_action :: "'d p_action \<Rightarrow> bool" where
  "pod_action (PWrite type args) = pod args"
| "pod_action _ = True"

definition p_run :: "('d, 'f) p_options \<Rightarrow> 'd p_action list \<Rightarrow> 'f disk \<Rightarrow>
    ('d, 'f) pers \<times> (nat \<times> nat) option" where
  "p_run opts actions dk = fold (p_exec opts) actions (p_make opts dk, None)"

lemma taskSavepoint_content:
  assumes opts: "options_ok opts" and inv: "p_inv opts pending s d"
  shows "\<exists>s' pending'. taskSavepoint opts s = (s', Inr ()) \<and> p_inv opts pending' s' d"
proof (cases "dirty s")
  case False
  then show ?thesis using inv by (auto simp: taskSavepoint_def p_isDirty_def p_inv_def p_core_def)
next
  case True
  have is_dirty: "p_isDirty s = Inr True" using inv True by (simp add: p_isDirty_def p_inv_def p_core_def)
  show ?thesis
  proof (cases pending)
    case None
    then obtain s1 i where started: "savepoint_begin opts s = (s1, Inr (Some (savepointVersion s1, i)))"
      and inv1: "p_inv opts (Some (savepointVersion s1, i)) s1 d"
      using savepoint_begin_inv [OF opts] inv by blast
    then show ?thesis
      using savepoint_end_inv [OF opts inv1] by (auto simp: taskSavepoint_def is_dirty)
  next
    case (Some p)
    then have "savepoint_begin opts s = (s, Inr None)"
      using savepoint_begin_busy [of opts p s d] inv by simp
    then show ?thesis using inv by (auto simp: taskSavepoint_def is_dirty)
  qed
qed

lemma p_close_content:
  assumes opts: "options_ok opts" and inv: "p_inv opts pending s d"
  shows "p_inv opts None (p_make opts (p_disk (fst (p_close opts s)))) d"
proof -
  obtain s' pending' where "(if savepointOnClose opts then taskSavepoint opts s else (s, Inr ())) = (s', Inr ())"
    "p_inv opts pending' s' d"
    using taskSavepoint_content [OF opts inv] inv by (cases "savepointOnClose opts") auto
  then show ?thesis using restart_inv [of opts pending' s' d] by (simp add: p_close_def)
qed

lemma p_exec_inv:
  assumes opts: "options_ok opts" and inv: "p_inv opts pending s d" and pod: "pod_action action"
  shows "\<exists>s' pending'. p_exec opts action (s, pending) = (s', pending') \<and>
    p_inv opts pending' s' (p_spec opts action d)"
proof (cases action)
  case (PWrite type args)
  show ?thesis
  proof (cases "map_of (operations opts) type")
    case None
    then show ?thesis using inv by (simp add: PWrite p_write_op_unknown)
  next
    case (Some operation)
    obtain d' r where op: "operation d args = (d', r)" by (cases "operation d args")
    show ?thesis
    proof (cases r)
      case None
      obtain s' where "p_write_op opts type args s = (s', Inr ())" "p_inv opts pending s' d'"
        using p_write_op_ok [OF opts inv _ Some] op None pod PWrite by auto
      then show ?thesis by (simp add: PWrite Some op None)
    next
      case (Some e)
      obtain s' where "p_write_op opts type args s = (s', Inl e)" "p_inv opts pending s' d"
        using p_write_op_fails [OF opts inv \<open>map_of (operations opts) type = Some operation\<close>] op Some
        by blast
      then show ?thesis by (simp add: PWrite \<open>map_of (operations opts) type = Some operation\<close> op Some)
    qed
  qed
next
  case PGet
  then show ?thesis using p_get_result [OF opts p_invD [OF inv]] p_get_inv [OF inv] by simp
next
  case PSavepointBegin
  then show ?thesis
    using savepoint_begin_inv [OF opts, of s d] savepoint_begin_busy [of opts _ s d] inv
    by (cases pending) fastforce+
next
  case PSavepointEnd
  then show ?thesis using savepoint_end_inv [OF opts] inv by (cases pending) auto
next
  case (PReset data)
  then show ?thesis using p_reset_inv [OF opts inv, of data] by auto
next
  case PClose
  then show ?thesis using p_close_content [OF opts inv] by simp
next
  case PCrash
  then show ?thesis using restart_inv [OF inv] by simp
qed

lemma p_run_inv:
  assumes opts: "options_ok opts" and dk: "disk_ok dk" "disk_content opts dk d"
    and pod: "\<forall>a\<in>set actions. pod_action a"
  shows "\<exists>s pending. p_run opts actions dk = (s, pending) \<and>
    p_inv opts pending s (fold (p_spec opts) actions d)"
  using pod
proof (induction actions rule: rev_induct)
  case Nil
  then show ?case using p_make_inv [OF dk] by (simp add: p_run_def)
next
  case (snoc a actions)
  then show ?case using p_exec_inv [OF opts, of _ _ _ a] by (fastforce simp: p_run_def)
qed

text \<open>
  After any run the instance and a new instance on its disk both read the data that the specification
  gives.
\<close>

text \<open>
  C1. Refinement. Whatever writes, reads, savepoints, resets, restarts and crashes between operations
  happen, in whatever order, the data that is read in the end is the initial data with the effects of
  the operations applied in order, and an instance that is opened on the same disk reads the same.
\<close>

theorem p_run_refines:
  assumes opts: "options_ok opts" and dk: "disk_ok dk" "disk_content opts dk d"
    and pod: "\<forall>a\<in>set actions. pod_action a" and run: "p_run opts actions dk = (s, pending)"
  shows "snd (p_get opts s) = Inr (fold (p_spec opts) actions d) \<and>
    snd (p_get opts (p_make opts (p_disk s))) = Inr (fold (p_spec opts) actions d)"
proof -
  have inv: "p_inv opts pending s (fold (p_spec opts) actions d)"
    using p_run_inv [OF opts dk pod] run by simp
  show ?thesis
    using p_get_result [OF opts p_invD [OF inv]] p_get_result [OF opts p_invD [OF restart_inv [OF inv]]]
    by simp
qed

text \<open>The check of the tests holds in every state of a run.\<close>

lemma p_inv_consistent: "p_inv opts pending s d \<Longrightarrow> dirty s \<Longrightarrow> p_consistencyCheck opts s = Inr True"
  by (simp add: p_consistencyCheck_def initializeDelta_def p_inv_def p_core_def disk_ok_def
      sorted_sort_id strict_sorted_imp_sorted)

section \<open>Concurrent writers\<close>

text \<open>
  \<open>writeCompare\<close> with nothing in between: it writes when no write came since the version was read, and
  otherwise changes nothing.
\<close>

lemma p_writeCompare_stale:
  "version \<noteq> p_version s \<Longrightarrow> p_writeCompare opts version type args s = (s, Inr False)"
  by (simp add: p_writeCompare_def writeCompare_check_def)

lemma p_writeCompare_current:
  assumes "options_ok opts" and "p_inv opts pending s d" and "pod args"
    and "map_of (operations opts) type = Some operation" and "operation d args = (d', None)"
  shows "\<exists>s'. p_writeCompare opts (p_version s) type args s = (s', Inr True) \<and>
    p_inv opts pending s' d' \<and> p_version s' = p_version s + 1"
  using p_write_op_ok [OF assms] by (auto simp: p_writeCompare_def writeCompare_check_def)

text \<open>
  The version is compared before the mutex is acquired: of two callers with the same version both pass
  the comparison, and the second write is made on top of the first.
\<close>

text \<open>
  Limit of optimistic locking. \<open>writeCompare\<close> compares the version before it acquires the mutex: of two
  callers with the same version both pass the comparison, although the version is another one when
  the second writes, and the second write is made on top of the first.
\<close>

lemma writeCompare_race:
  assumes opts: "options_ok opts" and inv: "p_inv opts pending s d" and args: "pod args" "pod args'"
    and op: "map_of (operations opts) type = Some operation"
      "operation d args = (d', None)" "operation d' args' = (d'', None)"
  shows "writeCompare_check (p_version s) s \<and>
    (\<exists>s' s''. p_write_op opts type args s = (s', Inr ()) \<and>
       \<not> writeCompare_check (p_version s) s' \<and>
       p_write_op opts type args' s' = (s'', Inr ()) \<and> p_inv opts pending s'' d'')"
proof -
  obtain s' where "p_write_op opts type args s = (s', Inr ())" "p_inv opts pending s' d'"
    "p_version s' = p_version s + 1"
    using p_write_op_ok [OF opts inv args(1) op(1,2)] by blast
  moreover from this obtain s'' where "p_write_op opts type args' s' = (s'', Inr ())" "p_inv opts pending s'' d''"
    using p_write_op_ok [OF opts _ args(2) op(1,3)] by blast
  ultimately show ?thesis by (auto simp: writeCompare_check_def)
qed

section \<open>A crash in the middle of a replacement\<close>

text \<open>
  With the default operations a line sets or deletes a key, so lines that are replayed on data that
  already contains them change nothing.
\<close>

fun effect :: "line list \<Rightarrow> (string \<rightharpoonup> json) \<Rightarrow> string \<rightharpoonup> json" where
  "effect [] m = m"
| "effect ((type, args) # lines) m =
     effect lines (if type = ''set'' then m(to_property_key (arg args 0) \<mapsto> arg args 1)
       else m(to_property_key (arg args 0) := None))"

definition line_keys :: "line list \<Rightarrow> string set" where
  "line_keys lines = (\<lambda>(type, args). to_property_key (arg args 0)) ` set lines"

definition known_lines :: "line list \<Rightarrow> bool" where
  "known_lines lines = (\<forall>(type, args)\<in>set lines. type \<in> {''set'', ''delete''})"

lemma effect_append: "effect (xs @ ys) m = effect ys (effect xs m)"
proof (induction xs arbitrary: m)
  case (Cons l lines)
  then show ?case by (cases l) (simp only: effect.simps append_Cons)
qed simp

lemma effect_at:
  "effect lines m k = (if k \<in> line_keys lines then effect lines (\<lambda>_. None) k else m k)"
proof (induction lines arbitrary: m)
  case (Cons l lines)
  obtain type args where l: "l = (type, args)" by (cases l)
  define e where "e = effect lines (\<lambda>_. None)"
  have IH: "effect lines m' k = (if k \<in> line_keys lines then e k else m' k)" for m'
    using Cons unfolding e_def .
  show ?case unfolding l effect.simps IH by (auto simp: line_keys_def)
qed (simp add: line_keys_def)

lemma effect_again: "effect suf (effect (pre @ suf) m) = effect (pre @ suf) m"
proof
  fix k
  show "effect suf (effect (pre @ suf) m) k = effect (pre @ suf) m k"
    unfolding effect_append
    by (subst effect_at, subst (2) effect_at, subst (3) effect_at) simp
qed

lemma default_operations [simp]:
  "operations (p_default_options bytes) = [(''set'', set_operation), (''delete'', delete_operation)]"
  "p_initial (p_default_options bytes) = []"
  "p_read (p_default_options bytes) = Inr"
  "p_write (p_default_options bytes) = (\<lambda>d. d)"
  "assignNotPersisted (p_default_options bytes) = (\<lambda>d. d)"
  by (simp_all add: p_default_options_def)

lemma default_options_ok: "options_ok (p_default_options bytes)"
  by (auto simp: options_ok_def set_operation_def delete_operation_def split: if_splits)

lemma default_replays:
  "replays (p_default_options bytes) lines b d \<Longrightarrow> known_lines lines \<and> map_of d = effect lines (map_of b)"
proof (induction lines arbitrary: b)
  case (Cons l lines)
  obtain type args where l: "l = (type, args)" by (cases l)
  show ?case
    using Cons.prems Cons.IH
    by (auto simp: l replays_def known_lines_def set_operation_def delete_operation_def split: if_splits)
      (simp_all add: fun_upd_def)
qed (simp add: known_lines_def)

lemma default_replays_total:
  "known_lines lines \<Longrightarrow> \<exists>d. replays (p_default_options bytes) lines b d"
proof (induction lines arbitrary: b)
  case Nil
  then show ?case by simp
next
  case (Cons l lines)
  then show ?case
    by (cases l) (auto simp: replays_def known_lines_def set_operation_def delete_operation_def)
qed

text \<open>
  At every point between the \<open>move\<close> of a savepoint and its last \<open>unlink\<close> a new instance reads the data
  there was.
\<close>

text \<open>
  C17. Crash safety of a savepoint, for the default operations \<open>set\<close> and \<open>delete\<close>. At every point between the
  \<open>move\<close> of the temporary file and the last \<open>unlink\<close>, a new instance reads from the disk the data there was: to
  replay logs again that the new file contains changes nothing. With other operations it may: the insertion into a
  time series is repeated (\<open>savepoint_crash_duplicates\<close>).
\<close>

theorem savepoint_crash_safe:
  assumes inv: "p_inv (p_default_options bytes) (Some (savepointVersion s, i)) s d"
    and temp: "tempFile (p_disk s) = Some temp"
    and crash: "(ids, dk) \<in> set (replace_trace temp (Some i) s)"
  shows "\<exists>d'. disk_content (p_default_options bytes) dk d' \<and> map_of d' = map_of d"
proof -
  let ?o = "p_default_options bytes"
  obtain old lines new b where split: "logs (p_disk s) = old @ (i, lines) # new"
    and base: "base ?o (p_disk s) = Inr b" and old: "replays ?o (all_lines old) b temp"
    using inv temp by (auto simp: p_inv_def pending_ok_def saved_before_def)
  have ids: "deltaList s = map fst (logs (p_disk s))" and "wf_map (logs (p_disk s))"
    using inv disk_ok_distinct by (auto simp: p_inv_def p_core_def)
  then obtain k where dk: "dk = (p_disk s)\<lparr>dataFile := Some temp, logs := drop k old @ (i, lines) # new\<rparr>"
    using crash unlink_loop_until [of old i lines new] by (auto simp: replace_trace_def split simp del: upt_Suc)
  define tail where "tail = all_lines ((i, lines) # new)"
  have "replays ?o (all_lines old @ tail) b d"
    using inv base by (simp add: p_inv_def p_core_def disk_content_def split tail_def)
  then have "replays ?o tail temp d" using replays_unique [OF old] by (auto simp: replays_append)
  then have "known_lines tail" and tail: "map_of d = effect tail (map_of temp)"
    using default_replays by blast+
  have parts: "all_lines old = all_lines (take k old) @ all_lines (drop k old)"
    by (metis all_lines_simps(3) append_take_drop_id)
  have known: "known_lines (all_lines (drop k old))" and temp_eq: "map_of temp = effect (all_lines old) (map_of b)"
    using default_replays [OF old] by (auto simp: parts known_lines_def)
  have "effect (all_lines (drop k old)) (map_of temp) = map_of temp"
    unfolding temp_eq parts by (rule effect_again)
  then have "effect (all_lines (drop k old) @ tail) (map_of temp) = map_of d"
    by (simp add: effect_append tail)
  moreover have "known_lines (all_lines (drop k old) @ tail)"
    using known \<open>known_lines tail\<close> by (auto simp: known_lines_def)
  then obtain d' where "replays ?o (all_lines (drop k old) @ tail) temp d'"
    using default_replays_total by blast
  ultimately show ?thesis
    using default_replays by (auto simp: disk_content_def base_def dk tail_def)
qed

text \<open>
  A crash in the middle of a reset is not: the old logs are replayed on the new data.
\<close>

definition reset_example :: "((string \<times> json) list, (string \<times> json) list) pers" where
  "reset_example = fst (p_run (p_default_options (\<lambda>l. 1)) [PWrite ''set'' [JStr ''a'', JNum 1]]
     \<lparr>dataFile = None, logs = [], tempFile = None\<rparr>)"

text \<open>
  A crash in the middle of \<open>reset\<close> mixes states: after the \<open>move\<close> and before the last \<open>unlink\<close> a new
  instance replays the old logs on the new data and reads neither the old nor the new data.
\<close>

lemma reset_crash_mixes:
  "map (\<lambda>(ids, dk). snd (p_get (p_default_options (\<lambda>l. 1)) (p_make (p_default_options (\<lambda>l. 1)) dk)))
     (replace_trace [(''b'', JNum 2)] None reset_example) =
   [Inr [(''b'', JNum 2), (''a'', JNum 1)], Inr [(''b'', JNum 2)]]"
  by (simp add: reset_example_def p_run_def persistence_defs)

section \<open>A single write\<close>

text \<open>
  Atomicity of \<open>write\<close>. The operation is applied and the version incremented, or, when the operation
  throws, its exception is thrown and neither the version nor the data, on disk and in memory, change.
\<close>

lemma p_write_atomic:
  assumes opts: "options_ok opts" and inv: "p_inv opts pending s d" and args: "pod args"
    and op: "map_of (operations opts) type = Some operation"
  shows "\<exists>s'. p_write_op opts type args s =
      (s', case snd (operation d args) of None \<Rightarrow> Inr () | Some e \<Rightarrow> Inl e) \<and>
    p_inv opts pending s' (p_spec opts (PWrite type args) d) \<and>
    p_version s' = p_version s + (if snd (operation d args) = None then 1 else 0)"
proof (cases "operation d args")
  case (Pair d' thrown)
  show ?thesis
  proof (cases thrown)
    case None
    then show ?thesis using p_write_op_ok [OF opts inv args op] Pair op by auto
  next
    case (Some e)
    then show ?thesis using p_write_op_fails [OF opts inv op] Pair op by auto
  qed
qed

section \<open>Instances of the properties\<close>

definition no_disk :: "'f disk" where
  "no_disk = \<lparr>dataFile = None, logs = [], tempFile = None\<rparr>"

abbreviation sample_options :: "((string \<times> json) list, (string \<times> json) list) p_options" where
  "sample_options \<equiv> p_default_options (\<lambda>l. Suc 0)"

lemma no_disk_ok: "disk_ok no_disk" "disk_content sample_options no_disk []"
  unfolding no_disk_def disk_ok_def disk_content_def base_def all_lines_def by simp_all

lemma no_disk_inv: "p_inv sample_options None (p_make sample_options no_disk) []"
  by (rule p_make_inv) (simp_all add: no_disk_ok)

definition sample_savepoint :: "((string \<times> json) list, (string \<times> json) list) pers" where
  "sample_savepoint = fst (p_run sample_options [PWrite ''set'' [JStr ''a'', JNum 1], PSavepointBegin] no_disk)"

lemma sample_savepoint_run:
  "p_run sample_options [PWrite ''set'' [JStr ''a'', JNum 1], PSavepointBegin] no_disk =
     (sample_savepoint, Some (savepointVersion sample_savepoint, Suc 0))"
  by (simp add: sample_savepoint_def p_run_def no_disk_def persistence_defs)

lemma sample_savepoint_inv:
  "p_inv sample_options (Some (savepointVersion sample_savepoint, Suc 0)) sample_savepoint [(''a'', JNum 1)]"
  using p_run_inv [OF default_options_ok no_disk_ok,
      of "[PWrite ''set'' [JStr ''a'', JNum 1], PSavepointBegin]"]
  by (simp add: pod_def set_operation_def arg_def sample_savepoint_run)

theorem p_run_refines_witness:
  "snd (p_get sample_options (p_make sample_options (p_disk (fst (p_run sample_options
     [PWrite ''set'' [JStr ''a'', JNum 1], PSavepointBegin, PWrite ''set'' [JStr ''b'', JNum 2],
      PSavepointEnd, PWrite ''delete'' [JStr ''a''], PCrash] no_disk))))) = Inr [(''b'', JNum 2)]"
proof -
  let ?actions = "[PWrite ''set'' [JStr ''a'', JNum 1], PSavepointBegin, PWrite ''set'' [JStr ''b'', JNum 2],
      PSavepointEnd, PWrite ''delete'' [JStr ''a''], PCrash]"
  have "\<forall>a\<in>set ?actions. pod_action a" by (simp add: pod_def)
  from p_run_refines [OF default_options_ok no_disk_ok this surjective_pairing]
  show ?thesis by (simp add: set_operation_def delete_operation_def arg_def)
qed

theorem p_write_atomic_witness:
  "\<exists>s'. p_write_op sample_options ''set'' [JStr ''a'', JNum 1] (p_make sample_options no_disk) = (s', Inr ()) \<and>
     p_inv sample_options None s' [(''a'', JNum 1)] \<and> p_version s' = 1"
  using p_write_atomic [OF default_options_ok no_disk_inv, of "[JStr ''a'', JNum 1]" "''set''" set_operation]
  by (simp add: pod_def set_operation_def arg_def p_make_def initializeDelta_def split: prod.splits)

theorem savepoint_crash_safe_witness:
  "\<exists>d'. disk_content sample_options (snd (hd (replace_trace [(''a'', JNum 1)] (Some (Suc 0)) sample_savepoint))) d' \<and>
     map_of d' = map_of [(''a'', JNum 1)]"
proof -
  have temp: "tempFile (p_disk sample_savepoint) = Some [(''a'', JNum 1)]"
    and ne: "replace_trace [(''a'', JNum 1)] (Some (Suc 0)) sample_savepoint \<noteq> []"
    by (simp_all add: sample_savepoint_def p_run_def no_disk_def persistence_defs)
  have "(fst (hd (replace_trace [(''a'', JNum 1)] (Some (Suc 0)) sample_savepoint)),
      snd (hd (replace_trace [(''a'', JNum 1)] (Some (Suc 0)) sample_savepoint))) \<in>
    set (replace_trace [(''a'', JNum 1)] (Some (Suc 0)) sample_savepoint)"
    using ne by simp
  from savepoint_crash_safe [OF sample_savepoint_inv temp this] show ?thesis .
qed

end
