(* ===== verification/Paging.thy ===== *)
theory Paging
  imports Bzd_Prelude
begin

text \<open>
  \<open>nodejs/db/utils.js\<close>: results delivered in pages. A page is the list of its items and, unless
  it is the last one, the paging information of the next. The iterator over all pages is a
  partial function: \<open>None\<close> is a loop that does not end.
\<close>

record paging =
  page :: nat
  max_items :: nat

type_synonym 'a collection_paging = "'a \<times> paging option"

text \<open>\<open>pagingFromParam\<close>: a number is the size of the pages, from the first page on.\<close>

definition pagingFromParam :: "nat + paging \<Rightarrow> paging" where
  "pagingFromParam maxOrPaging =
     (case maxOrPaging of Inl n \<Rightarrow> \<lparr>page = 0, max_items = n\<rparr> | Inr p \<Rightarrow> p)"

definition paging_isLast :: "'a collection_paging \<Rightarrow> bool" where
  "paging_isLast c = (snd c = None)"

definition makeFromList :: "'a list \<Rightarrow> nat + paging \<Rightarrow> ('a \<Rightarrow> 'b outcome) \<Rightarrow>
    'b list collection_paging outcome" where
  "makeFromList data maxOrPaging callback =
     (let p = pagingFromParam maxOrPaging;
          indexStart = page p * max_items p;
          indexEnd = indexStart + max_items p
      in outcome_bind (outcome_map callback (slice indexStart indexEnd data))
           (\<lambda>items. Inr (items, if indexEnd \<ge> length data then None
                                else Some \<lparr>page = page p + 1, max_items = max_items p\<rparr>)))"

text \<open>
  \<open>makeFromObject\<close>, with its default callback (the identity, which all its callers use): the
  pages of an object, over its keys in sorted order.
\<close>

definition makeFromObject :: "(string \<times> 'v) list \<Rightarrow> nat + paging \<Rightarrow>
    (string \<times> 'v) list collection_paging outcome" where
  "makeFromObject data maxOrPaging =
     outcome_bind (makeFromList (sort (map fst data)) maxOrPaging (\<lambda>key. Inr key))
       (\<lambda>(keys, next). Inr (map (\<lambda>key. (key, the (map_of data key))) keys, next))"

definition makeFromTotal :: "'a \<Rightarrow> paging \<Rightarrow> nat \<Rightarrow> 'a collection_paging" where
  "makeFromTotal data p nbTotal =
     (data, if nbTotal > (page p + 1) * max_items p
            then Some \<lparr>page = page p + 1, max_items = max_items p\<rparr> else None)"

text \<open>\<open>makeIterator(generator, maxOrPaging)\<close>: all the items of all the pages, in order.\<close>

partial_function (option) page_iterate :: "(paging \<Rightarrow> 'a list collection_paging) \<Rightarrow> paging \<Rightarrow>
    'a list option" where
  "page_iterate generator p =
     (case snd (generator p) of
        None \<Rightarrow> Some (fst (generator p))
      | Some p' \<Rightarrow> Option.bind (page_iterate generator p') (\<lambda>rest. Some (fst (generator p) @ rest)))"

definition makeIterator :: "(paging \<Rightarrow> 'a list collection_paging) \<Rightarrow> nat + paging \<Rightarrow> 'a list option" where
  "makeIterator generator maxOrPaging = page_iterate generator (pagingFromParam maxOrPaging)"

section \<open>Every item, once, in order\<close>

definition list_page :: "('a \<Rightarrow> 'b) \<Rightarrow> 'a list \<Rightarrow> paging \<Rightarrow> 'b list collection_paging" where
  "list_page f data p =
     (map f (slice (page p * max_items p) (page p * max_items p + max_items p) data),
      if page p * max_items p + max_items p \<ge> length data then None
      else Some \<lparr>page = page p + 1, max_items = max_items p\<rparr>)"

lemma makeFromList_page:
  assumes "\<And>x. x \<in> set data \<Longrightarrow> callback x = Inr (f x)"
  shows "makeFromList data (Inr p) callback = Inr (list_page f data p)"
proof -
  have "outcome_map callback (slice i j data) = Inr (map f (slice i j data))" for i j
    using assms by (intro outcome_map_Inr) (auto simp: slice_def dest: in_set_takeD in_set_dropD)
  then show ?thesis
    by (simp add: makeFromList_def Let_def pagingFromParam_def list_page_def)
qed

lemma page_iterate_from:
  assumes "0 < max_items p"
  shows "page_iterate (list_page f data) p = Some (map f (drop (page p * max_items p) data))"
  using assms
proof (induction "length data - page p * max_items p" arbitrary: p rule: less_induct)
  case less
  let ?n = "max_items p" and ?i = "page p * max_items p"
  show ?case
  proof (cases "?i + ?n \<ge> length data")
    case True
    then show ?thesis
      by (simp add: page_iterate.simps [of _ p] list_page_def slice_def)
  next
    case False
    let ?p = "\<lparr>page = page p + 1, max_items = ?n\<rparr>"
    have "page_iterate (list_page f data) ?p = Some (map f (drop (page ?p * max_items ?p) data))"
      using False less.prems by (intro less.hyps) auto
    moreover have "drop ?i data = take ?n (drop ?i data) @ drop (?i + ?n) data"
      by (metis add.commute append_take_drop_id drop_drop)
    ultimately show ?thesis
      using False
      by (simp add: page_iterate.simps [of _ p] list_page_def slice_def add.commute)
         (metis map_append)
  qed
qed

text \<open>Pages of size zero: the loop does not end, unless there is nothing to list.\<close>

text \<open>
  Pages of size zero. The iteration over the pages of a list that is not empty does not come to an end.
\<close>

lemma page_iterate_zero:
  assumes "data \<noteq> []" and "max_items p = 0"
  shows "page_iterate (list_page f data) p = None"
proof (rule ccontr)
  assume "page_iterate (list_page f data) p \<noteq> None"
  then obtain r where r: "page_iterate (list_page f data) p = Some r" by auto
  have "\<not> (g = list_page f data \<and> max_items q = 0)"
    if "page_iterate g q = Some r" for g :: "paging \<Rightarrow> 'b list collection_paging" and q r
  proof (rule page_iterate.raw_induct [where P = "\<lambda>g q r. \<not> (g = list_page f data \<and> max_items q = 0)", OF _ that])
    fix it and g :: "paging \<Rightarrow> 'b list collection_paging" and q r
    assume IH: "\<And>g q r. it g q = Some r \<Longrightarrow> \<not> (g = list_page f data \<and> max_items q = 0)"
      and eq: "(case snd (g q) of None \<Rightarrow> Some (fst (g q))
        | Some p' \<Rightarrow> Option.bind (it g p') (\<lambda>rest. Some (fst (g q) @ rest))) = Some r"
    show "\<not> (g = list_page f data \<and> max_items q = 0)"
    proof
      assume g: "g = list_page f data \<and> max_items q = 0"
      then have "snd (g q) = Some \<lparr>page = page q + 1, max_items = 0\<rparr>"
        using assms(1) by (simp add: list_page_def)
      with eq obtain r' where "it g \<lparr>page = page q + 1, max_items = 0\<rparr> = Some r'"
        by (auto split: Option.bind_splits)
      with IH g show False by fastforce
    qed
  qed
  with r assms(2) show False by blast
qed

text \<open>The pages of an object, put together, are its entries in the order of the sorted keys.\<close>

definition sorted_entries :: "(string \<times> 'v) list \<Rightarrow> (string \<times> 'v) list" where
  "sorted_entries data = map (\<lambda>key. (key, the (map_of data key))) (sort (map fst data))"

lemma makeFromObject_page:
  "makeFromObject data (Inr p) =
     Inr (list_page (\<lambda>key. (key, the (map_of data key))) (sort (map fst data)) p)"
proof -
  have "makeFromList (sort (map fst data)) (Inr p) (\<lambda>key. Inr key) =
      Inr (list_page (\<lambda>x. x) (sort (map fst data)) p)"
    by (rule makeFromList_page) simp
  then show ?thesis by (simp add: makeFromObject_def list_page_def)
qed

lemma map_of_sorted_entries: "map_of (sorted_entries data) = map_of data"
proof
  fix k
  show "map_of (sorted_entries data) k = map_of data k"
  proof (cases "k \<in> set (map fst data)")
    case True
    then obtain v where "map_of data k = Some v"
      by (metis map_of_eq_None_iff not_None_eq set_map)
    then show ?thesis using True
      by (simp add: sorted_entries_def map_of_map_restrict)
  next
    case False
    then show ?thesis
      by (simp add: sorted_entries_def map_of_map_restrict map_of_eq_None_iff [THEN iffD2])
  qed
qed

section \<open>Properties\<close>

text \<open>
  Complete iteration. The iterator over the pages that \<open>makeFromList\<close> makes, of any size but zero and
  from any page on, comes to an end and delivers every item from there once and in order.
\<close>

lemma page_iteration_complete:
  assumes "0 < max_items p" and "\<And>x. x \<in> set data \<Longrightarrow> callback x = Inr (f x)"
  shows "page_iterate (\<lambda>p. case makeFromList data (Inr p) callback of Inr c \<Rightarrow> c | Inl e \<Rightarrow> ([], None)) p =
    Some (map f (drop (page p * max_items p) data))"
  using page_iterate_from [OF assms(1), of f data] by (simp add: makeFromList_page [OF assms(2)])

section \<open>Instances of the properties\<close>

theorem page_iteration_complete_witness:
  "page_iterate (\<lambda>p. case makeFromList [1, 2, 3] (Inr p) (\<lambda>x. Inr (x + 1)) of Inr c \<Rightarrow> c | Inl e \<Rightarrow> ([], None))
     \<lparr>page = 0, max_items = 2\<rparr> = Some [2, 3, 4 :: nat]"
  using page_iteration_complete [of "\<lparr>page = 0, max_items = 2\<rparr>" "[1, 2, 3 :: nat]" "\<lambda>x. Inr (x + 1)" "\<lambda>x. x + 1"]
  by simp

end
