(* ===== verification/KeyValueStore.thy ===== *)
theory KeyValueStore
  imports Json Paging
begin

text \<open>
  The key value stores. The interface is \<open>nodejs/db/key_value_store/key_value_store.js\<close>, whose
  contract is the locale \<open>kv_store\<close>; the implementation in memory is
  \<open>nodejs/db/key_value_store/memory.js\<close>, modelled operation by operation and shown to satisfy it.

  The state of the store in memory is \<open>this.buckets\<close>, a map of buckets, each a map from keys to
  JavaScript values.
\<close>

type_synonym bucket = "(string \<times> json) list"
type_synonym kvs = "(string \<times> bucket) list"

abbreviation bucket_at :: "kvs \<Rightarrow> string \<Rightarrow> bucket" where
  "bucket_at s b \<equiv> (case map_of s b of None \<Rightarrow> [] | Some data \<Rightarrow> data)"

section \<open>The store in memory\<close>

text \<open>
  \<open>key in data ? data[key] : ...\<close>: also a key that no one set is found when \<open>Object.prototype\<close> has the
  name. The names of the buckets are the program's own and taken not to be such names.
\<close>

definition found_at :: "bucket \<Rightarrow> string \<Rightarrow> json option" where
  "found_at data key =
     (case map_of data key of
        Some v \<Rightarrow> Some v
      | None \<Rightarrow> if inherited key then Some (JObj []) else None)"

lemma found_at_own: "map_of data key = Some v \<Longrightarrow> found_at data key = Some v"
  by (simp add: found_at_def)

lemma found_at_plain: "\<not> inherited key \<Longrightarrow> found_at data key = map_of data key"
  by (simp add: found_at_def split: option.splits)

text \<open>
  \<open>_setImpl\<close>: the generated \<open>uid\<close> is what is returned for the key \<open>null\<close>, but the value is stored
  under the key itself, that is under \<open>"null"\<close>.
\<close>

definition property_name :: "string option \<Rightarrow> string" where
  "property_name key = (case key of None \<Rightarrow> ''null'' | Some k \<Rightarrow> k)"

definition kvs_set :: "string \<Rightarrow> string \<Rightarrow> string option \<Rightarrow> json \<Rightarrow> kvs \<Rightarrow> kvs \<times> string" where
  "kvs_set madeUid b key v s =
     (let uid = (case key of None \<Rightarrow> madeUid | Some k \<Rightarrow> k)
      in (AList.update b (AList.update (property_name key) v (bucket_at s b)) s, uid))"

definition kvs_get :: "string \<Rightarrow> string \<Rightarrow> json \<Rightarrow> kvs \<Rightarrow> json" where
  "kvs_get b key defaultValue s =
     (case map_of s b of
        None \<Rightarrow> defaultValue
      | Some data \<Rightarrow>
          (case found_at data key of
             None \<Rightarrow> defaultValue
           | Some v \<Rightarrow> if is_typeof_object v then object_copy v else v))"

definition kvs_is :: "string \<Rightarrow> string \<Rightarrow> kvs \<Rightarrow> bool" where
  "kvs_is b key s = (kvs_get b key JUndefined s \<noteq> JUndefined)"

definition kvs_count :: "string \<Rightarrow> kvs \<Rightarrow> nat" where
  "kvs_count b s = (case map_of s b of None \<Rightarrow> 0 | Some data \<Rightarrow> length data)"

text \<open>
  \<open>_updateImpl\<close>: the modifier works on a copy of the object, but shares what is inside it with the store. It
  gives what the stored value has become by that, and the outcome of its call.
\<close>

definition kvs_touch :: "string \<Rightarrow> string \<Rightarrow> json \<Rightarrow> kvs \<Rightarrow> kvs" where
  "kvs_touch b key v s =
     (case map_of (bucket_at s b) key of
        None \<Rightarrow> s
      | Some _ \<Rightarrow> AList.update b (AList.update key v (bucket_at s b)) s)"

definition kvs_update :: "string \<Rightarrow> string \<Rightarrow> (json \<Rightarrow> json \<times> json outcome) \<Rightarrow> json \<Rightarrow> kvs \<Rightarrow>
    kvs \<times> bool outcome" where
  "kvs_update b key modifier defaultValue s =
     (case modifier (kvs_get b key defaultValue s) of
        (changed, Inl e) \<Rightarrow> (kvs_touch b key changed s, Inl e)
      | (changed, Inr v) \<Rightarrow>
          (fst (kvs_set [] b (Some key) v (kvs_touch b key changed s)), Inr True))"

definition kvs_list :: "string \<Rightarrow> nat + paging \<Rightarrow> kvs \<Rightarrow> bucket collection_paging outcome" where
  "kvs_list b maxOrPaging s = makeFromObject (bucket_at s b) maxOrPaging"

text \<open>\<open>_listMatchImpl\<close>: the entries whose \<open>subKey\<close> has one of the values.\<close>

definition matches :: "string \<Rightarrow> json list \<Rightarrow> json \<Rightarrow> bool outcome" where
  "matches subKey valueList entry =
     outcome_bind (js_in subKey entry)
       (\<lambda>has. Inr (has \<and> js_includes valueList (js_member entry subKey)))"

definition kvs_listMatch :: "string \<Rightarrow> string \<Rightarrow> json \<Rightarrow> nat + paging \<Rightarrow> kvs \<Rightarrow>
    bucket collection_paging outcome" where
  "kvs_listMatch b subKey v maxOrPaging s =
     (let data = bucket_at s b;
          valueList = (case v of JArr vs \<Rightarrow> vs | _ \<Rightarrow> [v])
      in outcome_bind (outcome_map (\<lambda>(name, entry). matches subKey valueList entry) data)
           (\<lambda>keep. makeFromObject (map fst (filter snd (zip data keep))) maxOrPaging))"

definition kvs_delete :: "string \<Rightarrow> string \<Rightarrow> kvs \<Rightarrow> kvs" where
  "kvs_delete b key s =
     (case map_of s b of None \<Rightarrow> s | Some data \<Rightarrow> AList.update b (AList.delete key data) s)"

text \<open>\<open>dump(bucket)\<close>: all the pages of 50 entries, collected into an object.\<close>

definition kvs_dump :: "string \<Rightarrow> kvs \<Rightarrow> bucket option" where
  "kvs_dump b s =
     map_option (\<lambda>entries. fold (\<lambda>(k, v) result. AList.update k v result) entries [])
       (makeIterator (\<lambda>p. case kvs_list b (Inr p) s of Inl e \<Rightarrow> ([], None) | Inr c \<Rightarrow> c) (Inl 50))"

section \<open>The contract of a key value store\<close>

text \<open>
  \<open>own_key\<close> are the keys that are found only when they were set, \<open>storable\<close> are the values the store can keep, \<open>wf\<close> is its well-formedness, \<open>norm\<close> what becomes of a value by being stored and
  read back (a value that is not \<open>null\<close> and not an array is read back as it was).
\<close>

locale kv_store =
  fixes set_op :: "string \<Rightarrow> string \<Rightarrow> json \<Rightarrow> 's \<Rightarrow> 's"
    and get_op :: "string \<Rightarrow> string \<Rightarrow> json \<Rightarrow> 's \<Rightarrow> json"
    and delete_op :: "string \<Rightarrow> string \<Rightarrow> 's \<Rightarrow> 's"
    and count_op :: "string \<Rightarrow> 's \<Rightarrow> nat"
    and own_key :: "string \<Rightarrow> bool"
    and storable :: "json \<Rightarrow> bool"
    and wf :: "'s \<Rightarrow> bool"
    and norm :: "json \<Rightarrow> json"
    and view :: "'s \<Rightarrow> string \<Rightarrow> string \<rightharpoonup> json"
  assumes set_wf: "wf s \<Longrightarrow> storable v \<Longrightarrow> wf (set_op b k v s)"
    and delete_wf: "wf s \<Longrightarrow> wf (delete_op b k s)"
    and set_view: "wf s \<Longrightarrow> storable v \<Longrightarrow> view (set_op b k v s) = (view s)(b := (view s b)(k \<mapsto> v))"
    and delete_view: "wf s \<Longrightarrow> view (delete_op b k s) = (view s)(b := (view s b)(k := None))"
    and get_view: "wf s \<Longrightarrow> own_key k \<Longrightarrow> get_op b k d s = (case view s b k of None \<Rightarrow> d | Some v \<Rightarrow> norm v)"
    and count_view: "wf s \<Longrightarrow> count_op b s = card (dom (view s b)) \<and> finite (dom (view s b))"
begin

lemma get_set_same: "wf s \<Longrightarrow> own_key k \<Longrightarrow> storable v \<Longrightarrow> get_op b k d (set_op b k v s) = norm v"
  by (simp add: get_view set_wf set_view)

lemma get_set_other:
  "wf s \<Longrightarrow> own_key k' \<Longrightarrow> storable v \<Longrightarrow> (b, k) \<noteq> (b', k') \<Longrightarrow>
   get_op b' k' d (set_op b k v s) = get_op b' k' d s"
  by (auto simp: get_view set_wf set_view)

lemma get_delete_same: "wf s \<Longrightarrow> own_key k \<Longrightarrow> get_op b k d (delete_op b k s) = d"
  by (simp add: get_view delete_wf delete_view)

lemma get_delete_other:
  "wf s \<Longrightarrow> own_key k' \<Longrightarrow> (b, k) \<noteq> (b', k') \<Longrightarrow> get_op b' k' d (delete_op b k s) = get_op b' k' d s"
  by (auto simp: get_view delete_wf delete_view)

lemma set_overwrites:
  "wf s \<Longrightarrow> storable v \<Longrightarrow> storable w \<Longrightarrow> view (set_op b k w (set_op b k v s)) = view (set_op b k w s)"
  by (simp add: set_wf set_view)

lemma delete_missing: "wf s \<Longrightarrow> view s b k = None \<Longrightarrow> view (delete_op b k s) = view s"
  by (simp add: delete_view fun_upd_idem)

lemma count_set:
  assumes "wf s" and "storable v"
  shows "count_op b (set_op b k v s) = (if view s b k = None then Suc (count_op b s) else count_op b s)"
  using count_view [OF assms(1), of b] count_view [OF set_wf [OF assms], of b b k]
  by (auto simp: set_view [OF assms] insert_absorb card_insert_if domIff)

lemma count_delete:
  assumes "wf s"
  shows "count_op b (delete_op b k s) = count_op b s - (if view s b k = None then 0 else 1)"
proof -
  have "dom ((view s b)(k := None)) = dom (view s b) - {k}" by simp
  then show ?thesis
    using count_view [OF assms, of b] count_view [OF delete_wf [OF assms], of b b k]
    by (auto simp: delete_view [OF assms] card_Diff_singleton_if domIff)
qed

end

definition wf_kvs :: "kvs \<Rightarrow> bool" where
  "wf_kvs s = (wf_map s \<and> (\<forall>(b, data)\<in>set s. wf_map data))"

definition kvs_view :: "kvs \<Rightarrow> string \<Rightarrow> string \<rightharpoonup> json" where
  "kvs_view s b = map_of (bucket_at s b)"

definition read_back :: "json \<Rightarrow> json" where
  "read_back v = (if is_typeof_object v then object_copy v else v)"

definition kvs_put :: "string \<Rightarrow> string \<Rightarrow> json \<Rightarrow> kvs \<Rightarrow> kvs" where
  "kvs_put b k v s = fst (kvs_set [] b (Some k) v s)"

lemma wf_bucket: "wf_kvs s \<Longrightarrow> wf_map (bucket_at s b)"
  by (auto simp: wf_kvs_def split: option.splits dest: map_of_SomeD)

lemma wf_kvs_update:
  assumes "wf_kvs s" and "wf_map data"
  shows "wf_kvs (AList.update b data s)"
  using assms set_update_subset [of b data s] by (auto simp: wf_kvs_def)

interpretation memory_kvs: kv_store kvs_put kvs_get kvs_delete kvs_count
  "\<lambda>k. \<not> inherited k" "\<lambda>v. True" wf_kvs read_back kvs_view
proof unfold_locales
  fix s :: kvs and b k v d
  assume wf: "wf_kvs s"
  note bucket = wf_bucket [OF wf, of b]
  show "wf_kvs (kvs_put b k v s)"
    using wf bucket by (simp add: kvs_put_def kvs_set_def Let_def wf_kvs_update)
  show "wf_kvs (kvs_delete b k s)"
    using wf bucket by (auto simp: kvs_delete_def wf_kvs_update split: option.splits)
  show "kvs_view (kvs_put b k v s) = (kvs_view s)(b := (kvs_view s b)(k \<mapsto> v))"
    by (simp add: kvs_view_def kvs_put_def kvs_set_def Let_def property_name_def fun_eq_iff)
  show "kvs_view (kvs_delete b k s) = (kvs_view s)(b := (kvs_view s b)(k := None))"
    by (auto simp: kvs_view_def kvs_delete_def fun_eq_iff split: option.splits)
  show "kvs_get b k d s = (case kvs_view s b k of None \<Rightarrow> d | Some v \<Rightarrow> read_back v)" if "\<not> inherited k"
    using that by (simp add: kvs_get_def kvs_view_def read_back_def found_at_plain split: option.splits)
  show "kvs_count b s = card (dom (kvs_view s b)) \<and> finite (dom (kvs_view s b))"
    using bucket by (auto simp: kvs_count_def kvs_view_def dom_map_of_conv_image_fst finite_dom_map_of
        split: option.splits simp del: set_map simp: set_map [symmetric] distinct_card)
qed


section \<open>Listing a bucket\<close>

lemma fold_update_fresh:
  "distinct (map fst es) \<Longrightarrow> fst ` set es \<inter> fst ` set acc = {} \<Longrightarrow>
   fold (\<lambda>(k, v) result. AList.update k v result) es acc = acc @ es"
proof (induction es arbitrary: acc)
  case (Cons x es)
  obtain k v where x: "x = (k, v)" by (cases x)
  then have "AList.update k v acc = acc @ [(k, v)]" using Cons.prems by (intro update_fresh) auto
  moreover have "fold (\<lambda>(k, v) result. AList.update k v result) es (acc @ [(k, v)]) =
      (acc @ [(k, v)]) @ es"
    using Cons.prems x by (intro Cons.IH) auto
  ultimately show ?case using x by simp
qed simp

lemma kvs_dump_eq:
  assumes "wf_kvs s"
  shows "kvs_dump b s = Some (sorted_entries (bucket_at s b))"
proof -
  let ?data = "bucket_at s b"
  let ?f = "\<lambda>key. (key, the (map_of ?data key))"
  have "(\<lambda>p. case kvs_list b (Inr p) s of Inl e \<Rightarrow> ([], None) | Inr c \<Rightarrow> c) =
      list_page ?f (sort (map fst ?data))"
    by (simp add: kvs_list_def makeFromObject_page fun_eq_iff)
  then have "makeIterator (\<lambda>p. case kvs_list b (Inr p) s of Inl e \<Rightarrow> ([], None) | Inr c \<Rightarrow> c) (Inl 50) =
      Some (sorted_entries ?data)"
    using page_iterate_from [of "\<lparr>page = 0, max_items = 50\<rparr>" ?f "sort (map fst ?data)"]
    by (simp add: makeIterator_def pagingFromParam_def sorted_entries_def)
  moreover have "distinct (map fst (sorted_entries ?data))"
    using wf_bucket [OF assms, of b] by (simp add: sorted_entries_def o_def)
  ultimately show ?thesis by (simp add: kvs_dump_def fold_update_fresh)
qed

text \<open>
  Dump. \<open>dump\<close> goes through all the pages, comes to an end, and returns exactly the content of the bucket.
\<close>

lemma kvs_dump_view:
  assumes "wf_kvs s"
  shows "\<exists>result. kvs_dump b s = Some result \<and> map_of result = kvs_view s b"
  using kvs_dump_eq [OF assms, of b] by (simp add: map_of_sorted_entries kvs_view_def)

text \<open>
  The value stored under the key \<open>null\<close> is not found under the identifier that is returned.
\<close>

lemma kvs_set_null_lost:
  assumes "wf_kvs s" and "kvs_view s b madeUid = None" and "madeUid \<noteq> ''null''"
    and "\<not> inherited madeUid"
    and "kvs_set madeUid b None v s = (s', uid)"
  shows "uid = madeUid" and "kvs_get b uid d s' = d"
proof -
  have "s' = kvs_put b ''null'' v s" and uid: "uid = madeUid"
    using assms(5) by (auto simp: kvs_set_def kvs_put_def property_name_def Let_def)
  then show "kvs_get b uid d s' = d"
    using memory_kvs.get_set_other [OF assms(1,4) TrueI, of b "''null''" b d v] assms(2,3)
    by (simp add: memory_kvs.get_view [OF assms(1,4)])
  show "uid = madeUid" by (rule uid)
qed

section \<open>Properties\<close>

text \<open>
  Get after set, in memory. The key that was set reads as the value (objects as shallow copies), any
  other key of any bucket as before, and a key that was deleted as the default value.
\<close>

lemma kvs_get_after:
  assumes "wf_kvs s" and "\<not> inherited k'"
  shows "kvs_get b' k' d (kvs_put b k v s) = (if b' = b \<and> k' = k then read_back v else kvs_get b' k' d s) \<and>
    kvs_get b' k' d (kvs_delete b k s) = (if b' = b \<and> k' = k then d else kvs_get b' k' d s)"
  using memory_kvs.get_set_same [OF assms TrueI] memory_kvs.get_delete_same [OF assms]
    memory_kvs.get_set_other [OF assms TrueI, of b k b'] memory_kvs.get_delete_other [OF assms, of b k b']
  by (cases "b' = b \<and> k' = k") auto

section \<open>Instances of the properties\<close>

definition sample_kvs :: kvs where
  "sample_kvs = kvs_put ''b'' ''x'' (JNum 1) []"

lemma sample_kvs_wf: "wf_kvs sample_kvs"
  unfolding sample_kvs_def by (rule memory_kvs.set_wf) (simp_all add: wf_kvs_def)

theorem kvs_dump_view_witness: "\<exists>result. kvs_dump ''b'' sample_kvs = Some result \<and> map_of result ''x'' = Some (JNum 1)"
  using kvs_dump_view [OF sample_kvs_wf, of "''b''"]
  by (auto simp: kvs_view_def sample_kvs_def kvs_put_def kvs_set_def property_name_def)

theorem kvs_get_after_witness:
  "kvs_get ''b'' ''y'' JNull (kvs_put ''b'' ''y'' (JNum 2) sample_kvs) = JNum 2"
  using kvs_get_after [OF sample_kvs_wf, of "''y''" "''b''" JNull "''b''" "''y''" "JNum 2"]
  by (simp add: read_back_def is_typeof_object_def inherited_def inherited_names_def)

end
