(* ===== verification/KvsDisk.thy ===== *)
theory KvsDisk
  imports Persistence KeyValueStore
begin

text \<open>
  \<open>nodejs/db/key_value_store/disk.js\<close>: the key value store whose buckets are persistences on disk,
  opened (through the cache of \<open>_getPersistence\<close>) when they are first used. It satisfies the contract
  \<open>kv_store\<close> on values that JSON keeps, and its optimistic update loop is serializable as long as no
  other write gets between the comparison of the version and the write.
\<close>

section \<open>The store\<close>

type_synonym bucket_pers = "(bucket, bucket) pers"

record kvs_disk =
  kd_disks :: "string \<Rightarrow> bucket disk"
  kd_open :: "(string \<times> bucket_pers) list"

text \<open>\<open>_getPersistence\<close>: the open persistence of a bucket, or a new one whose data is loaded.\<close>

definition kd_getPersistence :: "(line \<Rightarrow> nat) \<Rightarrow> string \<Rightarrow> kvs_disk \<Rightarrow>
    kvs_disk \<times> bucket_pers outcome" where
  "kd_getPersistence bytes b s =
     (case map_of (kd_open s) b of
        Some p \<Rightarrow> (s, Inr p)
      | None \<Rightarrow>
          (case p_get (p_default_options bytes) (p_make (p_default_options bytes) (kd_disks s b)) of
             (p, Inl e) \<Rightarrow> (s, Inl e)
           | (p, Inr _) \<Rightarrow> (s\<lparr>kd_open := AList.update b p (kd_open s)\<rparr>, Inr p)))"

definition kd_put :: "string \<Rightarrow> bucket_pers \<Rightarrow> kvs_disk \<Rightarrow> kvs_disk" where
  "kd_put b p s = s\<lparr>kd_open := AList.update b p (kd_open s)\<rparr>"

definition kd_write :: "(line \<Rightarrow> nat) \<Rightarrow> string \<Rightarrow> string \<Rightarrow> json list \<Rightarrow> kvs_disk \<Rightarrow>
    kvs_disk \<times> unit outcome" where
  "kd_write bytes b type args s =
     (case kd_getPersistence bytes b s of
        (s', Inl e) \<Rightarrow> (s', Inl e)
      | (s', Inr p) \<Rightarrow>
          (case p_write_op (p_default_options bytes) type args p of (p', r) \<Rightarrow> (kd_put b p' s', r)))"

definition kd_read :: "(line \<Rightarrow> nat) \<Rightarrow> string \<Rightarrow> kvs_disk \<Rightarrow> kvs_disk \<times> bucket outcome" where
  "kd_read bytes b s =
     (case kd_getPersistence bytes b s of
        (s', Inl e) \<Rightarrow> (s', Inl e)
      | (s', Inr p) \<Rightarrow>
          (case p_get (p_default_options bytes) p of (p', r) \<Rightarrow> (kd_put b p' s', r)))"

definition kd_set :: "(line \<Rightarrow> nat) \<Rightarrow> string \<Rightarrow> string \<Rightarrow> string option \<Rightarrow> json \<Rightarrow> kvs_disk \<Rightarrow>
    kvs_disk \<times> string outcome" where
  "kd_set bytes madeUid b key v s =
     (let uid = (case key of None \<Rightarrow> madeUid | Some k \<Rightarrow> k)
      in (case kd_write bytes b ''set'' [JStr uid, v] s of
            (s', Inl e) \<Rightarrow> (s', Inl e)
          | (s', Inr _) \<Rightarrow> (s', Inr uid)))"

definition kd_get :: "(line \<Rightarrow> nat) \<Rightarrow> string \<Rightarrow> string \<Rightarrow> json \<Rightarrow> kvs_disk \<Rightarrow>
    kvs_disk \<times> json outcome" where
  "kd_get bytes b key defaultValue s =
     (case kd_read bytes b s of
        (s', Inl e) \<Rightarrow> (s', Inl e)
      | (s', Inr data) \<Rightarrow> (s', Inr (case found_at data key of None \<Rightarrow> defaultValue | Some v \<Rightarrow> v)))"

definition kd_count :: "(line \<Rightarrow> nat) \<Rightarrow> string \<Rightarrow> kvs_disk \<Rightarrow> kvs_disk \<times> nat outcome" where
  "kd_count bytes b s =
     (case kd_read bytes b s of
        (s', Inl e) \<Rightarrow> (s', Inl e)
      | (s', Inr data) \<Rightarrow> (s', Inr (length data)))"

definition kd_list :: "(line \<Rightarrow> nat) \<Rightarrow> string \<Rightarrow> nat + paging \<Rightarrow> kvs_disk \<Rightarrow>
    kvs_disk \<times> bucket collection_paging outcome" where
  "kd_list bytes b maxOrPaging s =
     (case kd_read bytes b s of
        (s', Inl e) \<Rightarrow> (s', Inl e)
      | (s', Inr data) \<Rightarrow> (s', makeFromObject data maxOrPaging))"

definition kd_listMatch :: "(line \<Rightarrow> nat) \<Rightarrow> string \<Rightarrow> string \<Rightarrow> json \<Rightarrow> nat + paging \<Rightarrow> kvs_disk \<Rightarrow>
    kvs_disk \<times> bucket collection_paging outcome" where
  "kd_listMatch bytes b subKey v maxOrPaging s =
     (case kd_read bytes b s of
        (s', Inl e) \<Rightarrow> (s', Inl e)
      | (s', Inr data) \<Rightarrow>
          (s', let valueList = (case v of JArr vs \<Rightarrow> vs | _ \<Rightarrow> [v])
               in outcome_bind (outcome_map (\<lambda>(name, entry). matches subKey valueList entry) data)
                    (\<lambda>keep. makeFromObject (map fst (filter snd (zip data keep))) maxOrPaging)))"

definition kd_delete :: "(line \<Rightarrow> nat) \<Rightarrow> string \<Rightarrow> string \<Rightarrow> kvs_disk \<Rightarrow> kvs_disk \<times> unit outcome" where
  "kd_delete bytes b key s = kd_write bytes b ''delete'' [JStr key] s"

section \<open>The contract\<close>

definition bucket_ok :: "(line \<Rightarrow> nat) \<Rightarrow> kvs_disk \<Rightarrow> string \<Rightarrow> bucket \<Rightarrow> bool" where
  "bucket_ok bytes s b d =
     (wf_map d \<and>
      (case map_of (kd_open s) b of
         Some p \<Rightarrow> \<exists>pending. p_inv (p_default_options bytes) pending p d
       | None \<Rightarrow> disk_ok (kd_disks s b) \<and> disk_content (p_default_options bytes) (kd_disks s b) d))"

definition wf_kd :: "(line \<Rightarrow> nat) \<Rightarrow> kvs_disk \<Rightarrow> bool" where
  "wf_kd bytes s = (\<forall>b. \<exists>d. bucket_ok bytes s b d)"

definition kd_view :: "(line \<Rightarrow> nat) \<Rightarrow> kvs_disk \<Rightarrow> string \<Rightarrow> string \<rightharpoonup> json" where
  "kd_view bytes s b = (case snd (kd_read bytes b s) of Inl e \<Rightarrow> Map.empty | Inr d \<Rightarrow> map_of d)"

definition kd_set_state :: "(line \<Rightarrow> nat) \<Rightarrow> string \<Rightarrow> string \<Rightarrow> json \<Rightarrow> kvs_disk \<Rightarrow> kvs_disk" where
  "kd_set_state bytes b k v s = fst (kd_set bytes [] b (Some k) v s)"

definition kd_delete_state :: "(line \<Rightarrow> nat) \<Rightarrow> string \<Rightarrow> string \<Rightarrow> kvs_disk \<Rightarrow> kvs_disk" where
  "kd_delete_state bytes b k s = fst (kd_delete bytes b k s)"

definition kd_get_value :: "(line \<Rightarrow> nat) \<Rightarrow> string \<Rightarrow> string \<Rightarrow> json \<Rightarrow> kvs_disk \<Rightarrow> json" where
  "kd_get_value bytes b k d s =
     (case snd (kd_get bytes b k d s) of Inl e \<Rightarrow> JUndefined | Inr v \<Rightarrow> v)"

definition kd_count_value :: "(line \<Rightarrow> nat) \<Rightarrow> string \<Rightarrow> kvs_disk \<Rightarrow> nat" where
  "kd_count_value bytes b s = (case snd (kd_count bytes b s) of Inl e \<Rightarrow> 0 | Inr n \<Rightarrow> n)"

lemma bucket_ok_put:
  "bucket_ok bytes (kd_put b p s) b' d =
    (if b' = b then wf_map d \<and> (\<exists>pending. p_inv (p_default_options bytes) pending p d)
     else bucket_ok bytes s b' d)"
  by (auto simp: bucket_ok_def kd_put_def split: option.splits)

lemma getPersistence_result:
  assumes "bucket_ok bytes s b d"
  shows "\<exists>s' p pending. kd_getPersistence bytes b s = (s', Inr p) \<and>
    p_inv (p_default_options bytes) pending p d \<and> bucket_ok bytes s' b d \<and>
    (\<forall>b' d'. b' \<noteq> b \<longrightarrow> bucket_ok bytes s' b' d' = bucket_ok bytes s b' d')"
proof (cases "map_of (kd_open s) b")
  case (Some p)
  then show ?thesis using assms by (auto simp: kd_getPersistence_def bucket_ok_def)
next
  case None
  let ?o = "p_default_options bytes"
  let ?p = "(p_make ?o (kd_disks s b))\<lparr>p_data := Some d, isInitialized := True\<rparr>"
  have inv: "p_inv ?o None (p_make ?o (kd_disks s b)) d"
    using assms None by (intro p_make_inv) (simp_all add: bucket_ok_def)
  have "kd_getPersistence bytes b s = (kd_put b ?p s, Inr ?p)"
    using p_get_result [OF default_options_ok p_invD [OF inv]]
    by (simp add: kd_getPersistence_def None kd_put_def)
  then show ?thesis
    using p_get_inv [OF inv] assms by (auto simp: bucket_ok_put bucket_ok_def [of _ s b])
qed

lemma kd_read_result:
  assumes "bucket_ok bytes s b d"
  shows "snd (kd_read bytes b s) = Inr d"
proof -
  obtain s' p pending where get: "kd_getPersistence bytes b s = (s', Inr p)"
    and inv: "p_inv (p_default_options bytes) pending p d"
    using getPersistence_result [OF assms] by blast
  show ?thesis
    using p_get_result [OF default_options_ok p_invD [OF inv]] by (simp add: kd_read_def get)
qed

lemma kd_view_eq: "bucket_ok bytes s b d \<Longrightarrow> kd_view bytes s b = map_of d"
  by (simp add: kd_view_def kd_read_result)

lemma kd_write_result:
  assumes ok: "bucket_ok bytes s b d" and args: "pod args"
    and op: "map_of (operations (p_default_options bytes)) type = Some operation"
      "operation d args = (d', None)" and wf: "wf_map d'"
  shows "\<exists>s'. kd_write bytes b type args s = (s', Inr ()) \<and> bucket_ok bytes s' b d' \<and>
    (\<forall>b' e. b' \<noteq> b \<longrightarrow> bucket_ok bytes s' b' e = bucket_ok bytes s b' e)"
proof -
  obtain s1 p pending where get: "kd_getPersistence bytes b s = (s1, Inr p)"
    and inv: "p_inv (p_default_options bytes) pending p d"
    and frame: "\<forall>b' e. b' \<noteq> b \<longrightarrow> bucket_ok bytes s1 b' e = bucket_ok bytes s b' e"
    using getPersistence_result [OF ok] by blast
  obtain p' where "p_write_op (p_default_options bytes) type args p = (p', Inr ())"
    and "p_inv (p_default_options bytes) pending p' d'"
    using p_write_op_ok [OF default_options_ok inv args op] by blast
  then show ?thesis using frame wf by (auto simp: kd_write_def get bucket_ok_put)
qed

lemma kd_set_result:
  assumes "bucket_ok bytes s b d" and "json_roundtrip v = v"
  shows "\<exists>s'. kd_set bytes madeUid b key v s = (s', Inr (case key of None \<Rightarrow> madeUid | Some k \<Rightarrow> k)) \<and>
    bucket_ok bytes s' b (AList.update (case key of None \<Rightarrow> madeUid | Some k \<Rightarrow> k) v d) \<and>
    (\<forall>b' e. b' \<noteq> b \<longrightarrow> bucket_ok bytes s' b' e = bucket_ok bytes s b' e)"
proof -
  define uid where "uid = (case key of None \<Rightarrow> madeUid | Some k \<Rightarrow> k)"
  have "wf_map (AList.update uid v d)" using assms(1) by (simp add: bucket_ok_def)
  then obtain s' where "kd_write bytes b ''set'' [JStr uid, v] s = (s', Inr ())"
    "bucket_ok bytes s' b (AList.update uid v d)"
    "\<forall>b' e. b' \<noteq> b \<longrightarrow> bucket_ok bytes s' b' e = bucket_ok bytes s b' e"
    using kd_write_result [OF assms(1), of "[JStr uid, v]" "''set''" set_operation "AList.update uid v d"]
    by (auto simp: pod_def assms(2) set_operation_def arg_def)
  then show ?thesis by (auto simp: kd_set_def uid_def [symmetric] Let_def)
qed

lemma kd_delete_result:
  assumes "bucket_ok bytes s b d"
  shows "\<exists>s'. kd_delete bytes b k s = (s', Inr ()) \<and> bucket_ok bytes s' b (AList.delete k d) \<and>
    (\<forall>b' e. b' \<noteq> b \<longrightarrow> bucket_ok bytes s' b' e = bucket_ok bytes s b' e)"
proof -
  have "wf_map (AList.delete k d)" using assms by (simp add: bucket_ok_def)
  then show ?thesis
    using kd_write_result [OF assms, of "[JStr k]" "''delete''" delete_operation "AList.delete k d"]
    by (auto simp: pod_def delete_operation_def arg_def kd_delete_def)
qed

lemma wf_kdD: "wf_kd bytes s \<Longrightarrow> \<exists>d. bucket_ok bytes s b d"
  by (simp add: wf_kd_def)

lemma wf_kd_change:
  assumes "wf_kd bytes s" and "bucket_ok bytes s' b d"
    and "\<forall>b' e. b' \<noteq> b \<longrightarrow> bucket_ok bytes s' b' e = bucket_ok bytes s b' e"
  shows "wf_kd bytes s'" and "kd_view bytes s' = (kd_view bytes s)(b := map_of d)"
proof -
  show "wf_kd bytes s'" using assms unfolding wf_kd_def by metis
  show "kd_view bytes s' = (kd_view bytes s)(b := map_of d)"
  proof
    fix b'
    obtain d0 where "bucket_ok bytes s b' d0" using wf_kdD [OF assms(1)] by blast
    then show "kd_view bytes s' b' = ((kd_view bytes s)(b := map_of d)) b'"
      using assms kd_view_eq by (cases "b' = b") auto
  qed
qed

interpretation disk_kvs: kv_store "kd_set_state bytes" "kd_get_value bytes" "kd_delete_state bytes"
  "kd_count_value bytes" "\<lambda>k. \<not> inherited k" "\<lambda>v. json_roundtrip v = v" "wf_kd bytes" "\<lambda>v. v" "kd_view bytes"
  for bytes
proof unfold_locales
  fix s :: kvs_disk and b k v d
  assume wf: "wf_kd bytes s"
  then obtain d0 where ok: "bucket_ok bytes s b d0" using wf_kdD by blast
  note view = kd_view_eq [OF ok] and read = kd_read_result [OF ok]
  show "wf_kd bytes (kd_delete_state bytes b k s)"
    and "kd_view bytes (kd_delete_state bytes b k s) = (kd_view bytes s)(b := (kd_view bytes s b)(k := None))"
    using kd_delete_result [OF ok, of k] wf_kd_change [OF wf] view by (auto simp: kd_delete_state_def)
  show "kd_get_value bytes b k d s = (case kd_view bytes s b k of None \<Rightarrow> d | Some v \<Rightarrow> v)"
    if "\<not> inherited k"
    using read that
    by (cases "kd_read bytes b s") (simp add: kd_get_value_def kd_get_def view found_at_plain)
  show "kd_count_value bytes b s = card (dom (kd_view bytes s b)) \<and> finite (dom (kd_view bytes s b))"
    using read ok by (cases "kd_read bytes b s")
      (simp add: kd_count_value_def kd_count_def view bucket_ok_def dom_map_of_conv_image_fst
        flip: set_map add: distinct_card)
  assume "json_roundtrip v = v"
  then show "wf_kd bytes (kd_set_state bytes b k v s)"
    and "kd_view bytes (kd_set_state bytes b k v s) = (kd_view bytes s)(b := (kd_view bytes s b)(k \<mapsto> v))"
    using kd_set_result [OF ok, of v "[]" "Some k"] wf_kd_change [OF wf] view
    by (auto simp: kd_set_state_def)
qed


section \<open>The update loop\<close>

text \<open>
  \<open>_updateImpl\<close> on the persistence of a bucket: read the version and the value, call the modifier, and
  write if the version is still the same; after a conflict try again, as long as \<open>maxConflicts--\<close> is
  not 0. The writes of others come, in each round, while the modifier runs (\<open>during\<close>), or between
  the comparison of the version and the write (\<open>between\<close>), since \<open>writeCompare\<close> awaits the mutex.

  The modifier is given the object that the data holds, or \<open>defaultValue\<close>, and may change it in place before
  it awaits anything. It returns what that object has become and the outcome of its call. What it changes in
  place is seen in the data at once, without a version or a line in a log; and a changed default value is what
  the next round is given. A modifier that leaves its argument as it is returns it as the first component.
\<close>

definition kd_touch :: "string \<Rightarrow> json \<Rightarrow> bucket_pers \<Rightarrow> bucket_pers" where
  "kd_touch key v p =
     p\<lparr>p_data := map_option (\<lambda>d. if map_of d key = None then d else AList.update key v d) (p_data p)\<rparr>"

lemma update_stored: "map_of d key = Some v \<Longrightarrow> AList.update key v d = d"
  by (induction d) (auto split: if_splits)

lemma kd_touch_found:
  "p_data p = Some d \<Longrightarrow>
   kd_touch key (case found_at d key of None \<Rightarrow> dv | Some v \<Rightarrow> v) p = p"
  by (auto simp: kd_touch_def found_at_def update_stored split: option.splits)

lemma default_found: "(if found_at d key = None then case found_at d key of None \<Rightarrow> dv | Some v \<Rightarrow> v else dv) = dv"
  by simp

definition run_writes :: "(line \<Rightarrow> nat) \<Rightarrow> line list \<Rightarrow> bucket_pers \<Rightarrow> bucket_pers" where
  "run_writes bytes ws p =
     fold (\<lambda>(type, args) p. fst (p_write_op (p_default_options bytes) type args p)) ws p"

fun kd_update_loop :: "(line \<Rightarrow> nat) \<Rightarrow> string \<Rightarrow> (json \<Rightarrow> json \<times> json outcome) \<Rightarrow> json \<Rightarrow>
    (line list \<times> line list) list \<Rightarrow> nat \<Rightarrow> bucket_pers \<Rightarrow> bucket_pers \<times> bool outcome" where
  "kd_update_loop bytes key modifier defaultValue others maxConflicts p =
     (let version = p_version p;
          (during, between, rest) =
            (case others of [] \<Rightarrow> ([], [], []) | (w, w') # ws \<Rightarrow> (w, w', ws))
      in (case p_get (p_default_options bytes) p of
            (p1, Inl e) \<Rightarrow> (p1, Inl e)
          | (p1, Inr data) \<Rightarrow>
              let (changed, modified) =
                    modifier (case found_at data key of None \<Rightarrow> defaultValue | Some v \<Rightarrow> v);
                  p2 = run_writes bytes during (kd_touch key changed p1);
                  defaultValue' = (if found_at data key = None then changed else defaultValue)
              in (case modified of
                    Inl e \<Rightarrow> (p2, Inl e)
                  | Inr modifiedValue \<Rightarrow>
                      if writeCompare_check version p2
                      then (case p_write_op (p_default_options bytes) ''set'' [JStr key, modifiedValue]
                                   (run_writes bytes between p2) of
                              (p3, Inl e) \<Rightarrow> (p3, Inl e)
                            | (p3, Inr _) \<Rightarrow> (p3, Inr (maxConflicts > 0)))
                      else (case maxConflicts of
                              0 \<Rightarrow> (p2, Inr False)
                            | Suc n \<Rightarrow>
                                kd_update_loop bytes key modifier defaultValue' rest n p2))))"

declare kd_update_loop.simps [simp del]

definition kd_update :: "(line \<Rightarrow> nat) \<Rightarrow> string \<Rightarrow> string \<Rightarrow> (json \<Rightarrow> json \<times> json outcome) \<Rightarrow> json \<Rightarrow> nat \<Rightarrow>
    (line list \<times> line list) list \<Rightarrow> kvs_disk \<Rightarrow> kvs_disk \<times> bool outcome" where
  "kd_update bytes b key modifier defaultValue maxConflicts others s =
     (case kd_getPersistence bytes b s of
        (s', Inl e) \<Rightarrow> (s', Inl e)
      | (s', Inr p) \<Rightarrow>
          (case kd_update_loop bytes key modifier defaultValue others maxConflicts p of
             (p', r) \<Rightarrow> (kd_put b p' s', r)))"

definition pod_lines :: "line list \<Rightarrow> bool" where
  "pod_lines ws = (known_lines ws \<and> (\<forall>(type, args)\<in>set ws. pod args))"

lemma run_writes_result:
  assumes "p_inv (p_default_options bytes) pending p d" and "pod_lines ws"
  shows "\<exists>d'. p_inv (p_default_options bytes) pending (run_writes bytes ws p) d' \<and>
    replays (p_default_options bytes) ws d d' \<and>
    p_version (run_writes bytes ws p) = p_version p + length ws"
  using assms
proof (induction ws arbitrary: p d)
  case Nil
  then show ?case by (simp add: run_writes_def)
next
  case (Cons w ws)
  let ?o = "p_default_options bytes"
  obtain type args where w: "w = (type, args)" by (cases w)
  have "pod args" and "type \<in> {''set'', ''delete''}" and ws: "pod_lines ws"
    using Cons.prems(2) by (auto simp: w pod_lines_def known_lines_def)
  then obtain operation d1 where op: "map_of (operations ?o) type = Some operation"
      "operation d args = (d1, None)"
    by (auto simp: set_operation_def delete_operation_def)
  obtain p1 where p1: "p_write_op ?o type args p = (p1, Inr ())" "p_inv ?o pending p1 d1"
      "p_version p1 = p_version p + 1"
    using p_write_op_ok [OF default_options_ok Cons.prems(1) \<open>pod args\<close> op] by blast
  have "run_writes bytes (w # ws) p = run_writes bytes ws p1" by (simp add: run_writes_def w p1)
  then show ?case
    using Cons.IH [OF p1(2) ws] op p1(3) by (auto simp: replays_def w)
qed

lemma pod_set: "json_roundtrip v = v \<Longrightarrow> pod [JStr key, v]"
  by (simp add: pod_def)

text \<open>
  When no write comes between a comparison and its write, the update is one atomic modification after
  some of the others' writes, or nothing is written after one conflict too many. The value returned is
  \<open>false\<close> also for the success at the last attempt.
\<close>

lemma update_round:
  assumes inv: "p_inv (p_default_options bytes) pending p d" and "pod_lines during"
    and f: "\<And>v. json_roundtrip (f v) = f v"
  shows "\<exists>p2 d2. p_inv (p_default_options bytes) pending p2 d2 \<and>
    replays (p_default_options bytes) during d d2 \<and>
    kd_update_loop bytes key (\<lambda>v. (v, Inr (f v))) dv ((during, []) # others) n p =
      (if during = []
       then (case p_write_op (p_default_options bytes) ''set''
                    [JStr key, f (case found_at d2 key of None \<Rightarrow> dv | Some v \<Rightarrow> v)] p2 of
               (p3, Inl e) \<Rightarrow> (p3, Inl e)
             | (p3, Inr _) \<Rightarrow> (p3, Inr (n > 0)))
       else (case n of
               0 \<Rightarrow> (p2, Inr False)
             | Suc m \<Rightarrow> kd_update_loop bytes key (\<lambda>v. (v, Inr (f v))) dv others m p2))"
proof -
  define p1 where "p1 = p\<lparr>p_data := Some d, isInitialized := True\<rparr>"
  have get: "p_get (p_default_options bytes) p = (p1, Inr d)"
    using p_get_result [OF default_options_ok p_invD [OF inv]] by (simp add: p1_def)
  have inv1: "p_inv (p_default_options bytes) pending p1 d" using p_get_inv [OF inv] by (simp add: p1_def)
  obtain d2 where run: "p_inv (p_default_options bytes) pending (run_writes bytes during p1) d2"
    "replays (p_default_options bytes) during d d2"
    "p_version (run_writes bytes during p1) = p_version p + length during"
    using run_writes_result [OF inv1 assms(2)] by (auto simp: p1_def)
  have touch: "found_at d key = None \<Longrightarrow> kd_touch key dv p1 = p1"
    "\<And>v. found_at d key = Some v \<Longrightarrow> kd_touch key v p1 = p1"
    using kd_touch_found [of p1 d key dv] by (simp_all add: p1_def)
  have "during = [] \<Longrightarrow> d2 = d" using run(2) by simp
  then show ?thesis
    using run by (intro exI [of _ "run_writes bytes during p1"] exI [of _ d2])
      (auto simp: kd_update_loop.simps [of _ _ _ _ "(during, []) # others"] get touch writeCompare_check_def
        Let_def run_writes_def split: nat.splits option.splits)
qed

lemma update_loop_Nil: "kd_update_loop bytes key m dv [] n p = kd_update_loop bytes key m dv [([], [])] n p"
  by (simp add: kd_update_loop.simps [of _ _ _ _ "[]"] kd_update_loop.simps [of _ _ _ _ "[([], [])]"])

definition updated :: "string \<Rightarrow> (json \<Rightarrow> json) \<Rightarrow> json \<Rightarrow> bucket \<Rightarrow> bucket" where
  "updated key f dv d = AList.update key (f (case found_at d key of None \<Rightarrow> dv | Some v \<Rightarrow> v)) d"

lemma write_set_result:
  assumes "p_inv (p_default_options bytes) pending p d" and "json_roundtrip v = v"
  shows "\<exists>p'. p_write_op (p_default_options bytes) ''set'' [JStr key, v] p = (p', Inr ()) \<and>
    p_inv (p_default_options bytes) pending p' (AList.update key v d)"
proof -
  have op: "map_of (operations (p_default_options bytes)) ''set'' = Some set_operation"
    "set_operation d [JStr key, v] = (AList.update key v d, None)"
    by (simp_all add: set_operation_def arg_def)
  show ?thesis using p_write_op_ok [OF default_options_ok assms(1) pod_set [OF assms(2)] op] by blast
qed

text \<open>A round without a write of others, and one with a conflict.\<close>

lemma update_no_conflict:
  assumes inv: "p_inv (p_default_options bytes) pending p d" and f: "\<And>v. json_roundtrip (f v) = f v"
    and loop: "kd_update_loop bytes key (\<lambda>v. (v, Inr (f v))) dv (([], []) # others) n p = (p', r)"
  shows "p_inv (p_default_options bytes) pending p' (updated key f dv d) \<and> r = Inr (0 < n)"
proof -
  have "pod_lines []" by (simp add: pod_lines_def known_lines_def)
  from update_round [where f = f and key = key and dv = dv and others = others and n = n, OF inv this f]
  obtain p2 where p2: "p_inv (p_default_options bytes) pending p2 d"
    and round: "kd_update_loop bytes key (\<lambda>v. (v, Inr (f v))) dv (([], []) # others) n p =
      (case p_write_op (p_default_options bytes) ''set''
              [JStr key, f (case found_at d key of None \<Rightarrow> dv | Some v \<Rightarrow> v)] p2 of
         (p3, Inl e) \<Rightarrow> (p3, Inl e) | (p3, Inr _) \<Rightarrow> (p3, Inr (n > 0)))"
    by auto
  obtain p3 where "p_write_op (p_default_options bytes) ''set''
      [JStr key, f (case found_at d key of None \<Rightarrow> dv | Some v \<Rightarrow> v)] p2 = (p3, Inr ())"
    "p_inv (p_default_options bytes) pending p3 (updated key f dv d)"
    using write_set_result [OF p2 f] unfolding updated_def by blast
  then show ?thesis using loop round by auto
qed

lemma update_conflict:
  assumes "p_inv (p_default_options bytes) pending p d" and "pod_lines during" and "during \<noteq> []"
    and "\<And>v. json_roundtrip (f v) = f v"
  shows "\<exists>p2 d2. p_inv (p_default_options bytes) pending p2 d2 \<and> replays (p_default_options bytes) during d d2 \<and>
    kd_update_loop bytes key (\<lambda>v. (v, Inr (f v))) dv ((during, []) # others) n p =
      (case n of
         0 \<Rightarrow> (p2, Inr False)
       | Suc m \<Rightarrow> kd_update_loop bytes key (\<lambda>v. (v, Inr (f v))) dv others m p2)"
  using update_round [where f = f and key = key and dv = dv and others = others and n = n, OF assms(1,2,4)] assms(3)
  by auto

text \<open>
  C6. Serializable update. With a modifier that leaves the object it is given as it is (and returns a new
  value, which JSON keeps), and as long as no write comes between the comparison of the version and the write,
  \<open>update\<close> is one atomic modification after the writes of some of the rounds, or, after one conflict too
  many, writes nothing. The result is \<open>true\<close> only if the write came before the last attempt allowed.
\<close>

theorem update_serializable:
  assumes "p_inv (p_default_options bytes) pending p d"
    and "\<And>v. json_roundtrip (f v) = f v"
    and "\<forall>(during, between)\<in>set others. pod_lines during \<and> between = []"
    and "kd_update_loop bytes key (\<lambda>v. (v, Inr (f v))) dv others n p = (p', r)"
  shows "\<exists>k d'. k \<le> Suc n \<and> replays (p_default_options bytes) (concat (map fst (take k others))) d d' \<and>
    (if k \<le> n
     then p_inv (p_default_options bytes) pending p' (updated key f dv d') \<and> r = Inr (k < n)
     else p_inv (p_default_options bytes) pending p' d' \<and> r = Inr False)"
  using assms(1,3,4)
proof (induction others arbitrary: n p d)
  case Nil
  then show ?case
    using update_no_conflict [where f = f, OF Nil.prems(1) assms(2), of key dv "[]" n p' r]
    by (intro exI [of _ 0] exI [of _ d]) (simp add: update_loop_Nil)
next
  case (Cons w others)
  obtain during where w: "w = (during, [])" and pod: "pod_lines during"
    using Cons.prems(2) by (cases w) auto
  show ?case
  proof (cases "during = []")
    case True
    then show ?thesis
      using update_no_conflict [where f = f, OF Cons.prems(1) assms(2), of key dv others n p' r] Cons.prems(3)
      by (intro exI [of _ 0] exI [of _ d]) (simp add: w)
  next
    case False
    obtain p2 d2 where p2: "p_inv (p_default_options bytes) pending p2 d2"
      and replay: "replays (p_default_options bytes) during d d2"
      and loop: "kd_update_loop bytes key (\<lambda>v. (v, Inr (f v))) dv ((during, []) # others) n p =
        (case n of
           0 \<Rightarrow> (p2, Inr False)
         | Suc m \<Rightarrow> kd_update_loop bytes key (\<lambda>v. (v, Inr (f v))) dv others m p2)"
      using update_conflict [where f = f, OF Cons.prems(1) pod False assms(2)] by blast
    show ?thesis
    proof (cases n)
      case 0
      then show ?thesis
        using Cons.prems(3) p2 replay loop by (intro exI [of _ 1] exI [of _ d2]) (simp add: w)
    next
      case (Suc m)
      then have rec: "kd_update_loop bytes key (\<lambda>v. (v, Inr (f v))) dv others m p2 = (p', r)"
        using Cons.prems(3) loop by (simp add: w)
      have "\<forall>(during, between)\<in>set others. pod_lines during \<and> between = []"
        using Cons.prems(2) by simp
      from Cons.IH [OF p2 this rec] obtain k d'
        where "k \<le> Suc m" "replays (p_default_options bytes) (concat (map fst (take k others))) d2 d'"
          "if k \<le> m then p_inv (p_default_options bytes) pending p' (updated key f dv d') \<and> r = Inr (k < m)
           else p_inv (p_default_options bytes) pending p' d' \<and> r = Inr False"
        by blast
      then show ?thesis
        using replay Suc by (intro exI [of _ "Suc k"] exI [of _ d']) (auto simp: w replays_append)
    qed
  qed
qed

text \<open>
  A write between the comparison and the write is lost: whatever value it set, the update puts the
  modification of the value read before.
\<close>

lemma update_lost_write:
  assumes inv: "p_inv (p_default_options bytes) pending p d"
    and f: "\<And>v. json_roundtrip (f v) = f v" and w: "json_roundtrip w = w"
  shows "\<exists>p' d'. kd_update_loop bytes key (\<lambda>v. (v, Inr (f v))) dv
      [([], [(''set'', [JStr key, w])])] n p = (p', Inr (n > 0)) \<and>
    p_inv (p_default_options bytes) pending p' d' \<and>
    map_of d' = (map_of d)(key \<mapsto> f (case found_at d key of None \<Rightarrow> dv | Some v \<Rightarrow> v))"
proof -
  let ?o = "p_default_options bytes"
  let ?v = "f (case found_at d key of None \<Rightarrow> dv | Some v \<Rightarrow> v)"
  define p1 where "p1 = p\<lparr>p_data := Some d, isInitialized := True\<rparr>"
  have get: "p_get ?o p = (p1, Inr d)"
    using p_get_result [OF default_options_ok p_invD [OF inv]] by (simp add: p1_def)
  have inv1: "p_inv ?o pending p1 d" using p_get_inv [OF inv] by (simp add: p1_def)
  obtain d1 where d1: "p_inv ?o pending (run_writes bytes [(''set'', [JStr key, w])] p1) d1"
    "replays ?o [(''set'', [JStr key, w])] d d1"
    using run_writes_result [OF inv1, of "[(''set'', [JStr key, w])]"] w
    by (auto simp: pod_lines_def known_lines_def pod_def)
  obtain p' where p': "p_write_op ?o ''set'' [JStr key, ?v] (run_writes bytes [(''set'', [JStr key, w])] p1) =
      (p', Inr ())" "p_inv ?o pending p' (AList.update key ?v d1)"
    using write_set_result [OF d1(1) f] by blast
  have "map_of (AList.update key ?v d1) = (map_of d)(key \<mapsto> ?v)"
    using d1(2) by (auto simp: replays_def set_operation_def arg_def)
  moreover have "kd_touch key (case found_at d key of None \<Rightarrow> dv | Some v \<Rightarrow> v) p1 = p1"
    by (rule kd_touch_found) (simp add: p1_def)
  moreover from this have "kd_update_loop bytes key (\<lambda>v. (v, Inr (f v))) dv [([], [(''set'', [JStr key, w])])] n p =
      (p', Inr (n > 0))"
    by (simp add: kd_update_loop.simps [of _ _ _ _ "_ # _"] get run_writes_def [of _ "[]"]
        default_found writeCompare_check_def Let_def p' del: not_None_eq) (simp add: p1_def)
  ultimately show ?thesis using p'(2) by blast
qed

text \<open>
  A modifier that changes the object in place, as those of the sessions and of the users do, is not atomic.
  Here it counts a field up. After one conflict the field has been counted up twice; and when the update gives
  up after the conflict, the count is seen in the data although nothing was written: a new process does not
  see it.
\<close>

definition count_up :: "json \<Rightarrow> json \<times> json outcome" where
  "count_up v =
     (let v' = JObj [(''c'', case js_get v ''c'' of JNum n \<Rightarrow> JNum (n + 1) | _ \<Rightarrow> JNum 1)] in (v', Inr v'))"

definition counted :: bucket_pers where
  "counted = fst (p_write_op (p_default_options (\<lambda>l. Suc 0)) ''set'' [JStr ''x'', JObj [(''c'', JNum 0)]]
     (p_make (p_default_options (\<lambda>l. Suc 0)) \<lparr>dataFile = None, logs = [], tempFile = None\<rparr>))"

definition one_conflict :: "(line list \<times> line list) list" where
  "one_conflict = [([(''set'', [JStr ''y'', JNum 5])], [])]"

lemma counted_state:
  "counted = \<lparr>p_disk = \<lparr>dataFile = None, logs = [(0, [(''set'', [JStr ''x'', JObj [(''c'', JNum 0)]])])],
       tempFile = None\<rparr>, deltaList = [0], dirty = True, p_data = Some [(''x'', JObj [(''c'', JNum 0)])],
     isInitialized = True, p_ready = True, p_version = 1, savepointVersion = 0, isSavepoint = False\<rparr>"
  by (simp add: counted_def persistence_defs)

lemmas update_eval = Let_def inherited_def inherited_names_def kd_update_loop.simps one_conflict_def counted_state kd_touch_def run_writes_def count_up_def
  found_at_def writeCompare_check_def set_operation_def arg_def

lemma in_place_update_twice:
  "p_data (fst (kd_update_loop (\<lambda>l. Suc 0) ''x'' count_up JNull one_conflict 1 counted)) =
     Some [(''x'', JObj [(''c'', JNum 2)]), (''y'', JNum 5)]"
  by (simp add: update_eval persistence_defs)

lemma in_place_update_unwritten:
  "(case kd_update_loop (\<lambda>l. Suc 0) ''x'' count_up JNull one_conflict 0 counted of
      (p, r) \<Rightarrow> r = Inr False \<and>
        p_data p = Some [(''x'', JObj [(''c'', JNum 1)]), (''y'', JNum 5)] \<and>
        snd (p_get (p_default_options (\<lambda>l. Suc 0)) (p_make (p_default_options (\<lambda>l. Suc 0)) (p_disk p))) =
          Inr [(''x'', JObj [(''c'', JNum 0)]), (''y'', JNum 5)])"
  by (simp add: update_eval persistence_defs)

section \<open>Restart\<close>

text \<open>A new process on the same disks, after a crash between two operations.\<close>

definition kd_restart :: "kvs_disk \<Rightarrow> kvs_disk" where
  "kd_restart s = \<lparr>kd_disks = (\<lambda>b. case map_of (kd_open s) b of Some p \<Rightarrow> p_disk p | None \<Rightarrow> kd_disks s b),
     kd_open = []\<rparr>"

lemma bucket_ok_restart: "bucket_ok bytes s b d \<Longrightarrow> bucket_ok bytes (kd_restart s) b d"
  by (auto simp: bucket_ok_def kd_restart_def p_inv_def p_core_def split: option.splits)

lemma restart_view:
  assumes "wf_kd bytes s"
  shows "wf_kd bytes (kd_restart s)" and "kd_view bytes (kd_restart s) = kd_view bytes s"
proof -
  show "wf_kd bytes (kd_restart s)" using assms bucket_ok_restart by (metis wf_kd_def)
  show "kd_view bytes (kd_restart s) = kd_view bytes s"
  proof
    fix b
    obtain d where "bucket_ok bytes s b d" using wf_kdD [OF assms] by blast
    then show "kd_view bytes (kd_restart s) b = kd_view bytes s b"
      using kd_view_eq bucket_ok_restart by metis
  qed
qed

section \<open>Properties\<close>

text \<open>
  Get after set, on disk, across restarts. For values that JSON keeps, the key that was set reads as the
  value and any other key of any bucket as before, and a key that was deleted as the default value; the
  same holds in a new process that opens the same files.
\<close>

lemma kd_get_after:
  assumes "wf_kd bytes s" and "\<not> inherited k'" and "json_roundtrip v = v"
  shows "kd_get_value bytes b' k' d (kd_set_state bytes b k v s) =
      (if b' = b \<and> k' = k then v else kd_get_value bytes b' k' d s) \<and>
    kd_get_value bytes b' k' d (kd_delete_state bytes b k s) =
      (if b' = b \<and> k' = k then d else kd_get_value bytes b' k' d s) \<and>
    kd_get_value bytes b' k' d (kd_restart (kd_set_state bytes b k v s)) =
      kd_get_value bytes b' k' d (kd_set_state bytes b k v s)"
proof -
  have wf: "wf_kd bytes (kd_set_state bytes b k v s)" by (rule disk_kvs.set_wf [OF assms(1,3)])
  have "kd_get_value bytes b' k' d (kd_restart (kd_set_state bytes b k v s)) =
      kd_get_value bytes b' k' d (kd_set_state bytes b k v s)"
    by (simp only: disk_kvs.get_view [OF wf assms(2)]
        disk_kvs.get_view [OF restart_view(1) [OF wf] assms(2)] restart_view(2) [OF wf])
  then show ?thesis
    using disk_kvs.get_set_same [OF assms] disk_kvs.get_delete_same [OF assms(1,2)]
      disk_kvs.get_set_other [OF assms, of b k b'] disk_kvs.get_delete_other [OF assms(1,2), of b k b']
    by (cases "b' = b \<and> k' = k") auto
qed

text \<open>
  Lost write. A write that another caller makes between the comparison of the version and the write of
  \<open>update\<close> is overwritten with the modification of the value read before it.
\<close>

lemma update_loses_write:
  assumes "p_inv (p_default_options bytes) pending p d"
    and "\<And>v. json_roundtrip (f v) = f v" and "json_roundtrip w = w"
  shows "\<exists>p' d'. kd_update_loop bytes key (\<lambda>v. (v, Inr (f v))) dv
      [([], [(''set'', [JStr key, w])])] n p = (p', Inr (n > 0)) \<and>
    p_inv (p_default_options bytes) pending p' d' \<and>
    map_of d' = (map_of d)(key \<mapsto> f (case found_at d key of None \<Rightarrow> dv | Some v \<Rightarrow> v))"
  by (rule update_lost_write [OF assms])

section \<open>Instances of the properties\<close>

definition empty_kd :: kvs_disk where
  "empty_kd = \<lparr>kd_disks = (\<lambda>b. no_disk), kd_open = []\<rparr>"

lemma empty_kd_wf: "wf_kd (\<lambda>l. Suc 0) empty_kd"
  unfolding wf_kd_def bucket_ok_def using no_disk_ok
  by (auto simp: empty_kd_def intro!: exI [of _ "[]"])

theorem kd_get_after_witness:
  "kd_get_value (\<lambda>l. Suc 0) ''b'' ''k'' JNull
     (kd_restart (kd_set_state (\<lambda>l. Suc 0) ''b'' ''k'' (JNum 1) empty_kd)) = JNum 1"
  using kd_get_after [OF empty_kd_wf, of "''k''" "JNum 1" "''b''" JNull "''b''" "''k''"]
  by (simp add: inherited_def inherited_names_def)

theorem update_serializable_witness:
  "\<exists>r. snd (kd_update_loop (\<lambda>l. Suc 0) ''n'' (\<lambda>v. (v, Inr (JNum 1))) JNull
      [([(''set'', [JStr ''n'', JNum 5])], [])] 1 (p_make sample_options no_disk)) = Inr r"
proof -
  have "\<forall>(during, between)\<in>set [([(''set'', [JStr ''n'', JNum 5])], [])]. pod_lines during \<and> between = []"
    by (simp add: pod_lines_def known_lines_def pod_def)
  from update_serializable [OF no_disk_inv _ this surjective_pairing, where f = "\<lambda>v. JNum 1" and key = "''n''" and dv = JNull and n = 1]
  show ?thesis by (auto split: if_splits)
qed

lemma update_loses_write_witness:
  "\<exists>p' d'. kd_update_loop (\<lambda>l. Suc 0) ''n'' (\<lambda>v. (v, Inr (JNum 1))) JNull
      [([], [(''set'', [JStr ''n'', JNum 5])])] 3 (p_make sample_options no_disk) = (p', Inr True) \<and>
    p_inv sample_options None p' d' \<and> map_of d' ''n'' = Some (JNum 1)"
proof -
  obtain p' d' where "kd_update_loop (\<lambda>l. Suc 0) ''n'' (\<lambda>v. (v, Inr (JNum 1))) JNull
      [([], [(''set'', [JStr ''n'', JNum 5])])] 3 (p_make sample_options no_disk) = (p', Inr (0 < (3::nat)))"
    "p_inv sample_options None p' d'" "map_of d' = (map_of [])(''n'' \<mapsto> JNum 1)"
    using update_loses_write [OF no_disk_inv, of "\<lambda>v. JNum 1" "JNum 5" "''n''" JNull 3] by auto
  then show ?thesis by (intro exI [of _ p'] exI [of _ d']) simp
qed

end
