(* ===== verification/TimeSeries.thy ===== *)
theory TimeSeries
  imports Bzd_Prelude "HOL-Library.Multiset"
begin

text \<open>
  \<open>nodejs/core/timeseries.js\<close>: the in-memory time series, an array of pairs (timestamp, data)
  kept in the order of the timestamps, with binary search, insertion, iteration over a range,
  and the consistency check and repair.

  The state of a \<open>TimeSeries\<close> object is its \<open>data\<close> array; its options are the record
  \<open>ts_options\<close>. The lemmas show that the binary search is correct on sorted data, that every
  operation keeps the data sorted, that insertion refines the update of a finite map, that the
  repair loop (which collects indices and deletes them afterwards) equals the merge of adjacent
  runs, and which entries an iteration visits.
\<close>

section \<open>State and options\<close>

type_synonym 'a series = "(int \<times> 'a) list"

record 'a ts_options =
  unique :: bool
  uniqueMerge :: "'a \<Rightarrow> 'a \<Rightarrow> int \<Rightarrow> 'a"

text \<open>The defaults of the constructor.\<close>

definition ts_default_options :: "'a ts_options" where
  "ts_default_options = \<lparr>unique = False, uniqueMerge = (\<lambda>a b timestamp. a)\<rparr>"

text \<open>\<open>Number.MAX_VALUE\<close>, whose negation the loops use as the timestamp before all others.\<close>

definition number_max_value :: int where
  "number_max_value = (2 ^ 53 - 1) * 2 ^ 971"

definition sorted_series :: "'a series \<Rightarrow> bool" where
  "sorted_series d = sorted (map fst d)"

definition strict_series :: "'a series \<Rightarrow> bool" where
  "strict_series d = sorted_wrt (<) (map fst d)"

text \<open>What the options promise of the data.\<close>

definition ts_inv :: "'a ts_options \<Rightarrow> 'a series \<Rightarrow> bool" where
  "ts_inv opts d = (if unique opts then strict_series d else sorted_series d)"

lemma strict_imp_sorted [inv_intros]: "strict_series d \<Longrightarrow> sorted_series d"
  by (simp add: strict_series_def sorted_series_def strict_sorted_imp_sorted)

lemma ts_inv_sorted: "ts_inv opts d \<Longrightarrow> sorted_series d"
  by (auto simp: ts_inv_def strict_imp_sorted split: if_splits)

section \<open>Accessors\<close>

definition ts_length :: "'a series \<Rightarrow> nat" where
  "ts_length d = length d"

text \<open>\<open>getTimestamp(index)\<close>: negative indices count from the end, \<open>None\<close> out of bounds.\<close>

definition ts_getTimestamp :: "'a series \<Rightarrow> int \<Rightarrow> int option" where
  "ts_getTimestamp d index =
     (if index \<ge> 0 \<and> index < int (length d) then Some (fst (d ! nat index))
      else if index < 0 \<and> - index \<le> int (length d)
        then Some (fst (d ! nat (int (length d) + index)))
      else None)"

text \<open>
  \<open>wrap(data, callback)\<close>: the callback works on the given data, after which the object's own
  data is back. The result is the data as the callback left it and what the callback returns.
\<close>

definition ts_wrap :: "'a series \<Rightarrow> 'a series \<Rightarrow> ('a series \<Rightarrow> 'b \<times> 'a series) \<Rightarrow>
    'b \<times> 'a series \<times> 'a series" where
  "ts_wrap own data callback =
     (let dataSaved = own; (r, data') = callback data in (r, data', dataSaved))"

section \<open>Binary search\<close>

text \<open>\<open>find_\<close> (here \<open>ts_search\<close>): the loop over \<open>indexStart\<close>, \<open>indexEnd\<close>.\<close>

function ts_find_loop :: "int \<Rightarrow> 'a series \<Rightarrow> int \<Rightarrow> int \<Rightarrow> int" where
  "ts_find_loop timestamp d indexStart indexEnd =
     (if indexStart \<le> indexEnd then
        let indexCurrent = (indexStart + indexEnd) div 2;
            timestampCurrent = fst (d ! nat indexCurrent)
        in if timestampCurrent = timestamp then indexCurrent
           else if timestampCurrent < timestamp
             then ts_find_loop timestamp d (indexCurrent + 1) indexEnd
           else ts_find_loop timestamp d indexStart (indexCurrent - 1)
      else indexStart)"
  by pat_completeness auto
termination
  by (relation "measure (\<lambda>(t, d, s, e). nat (e - s + 1))") auto

declare ts_find_loop.simps [simp del]

definition ts_search :: "'a series \<Rightarrow> int \<Rightarrow> int" where
  "ts_search d timestamp = ts_find_loop timestamp d 0 (int (length d) - 1)"

datatype find_mode = FIND_EXACT_MATCH | FIND_IMMEDIATELY_BEFORE | FIND_IMMEDIATELY_AFTER

text \<open>
  \<open>find(timestamp, mode)\<close>: \<open>None\<close> is the source's \<open>null\<close>. The result of the mode
  \<open>BEFORE\<close> is \<open>-1\<close> when no entry is earlier, of the mode \<open>AFTER\<close> the length when none is later.
\<close>

definition ts_find :: "'a series \<Rightarrow> int \<Rightarrow> find_mode \<Rightarrow> int option" where
  "ts_find d timestamp mode =
     (let index = ts_search d timestamp
      in if 0 \<le> index \<and> index < int (length d) \<and> fst (d ! nat index) = timestamp then Some index
         else (case mode of
                 FIND_EXACT_MATCH \<Rightarrow> None
               | FIND_IMMEDIATELY_BEFORE \<Rightarrow> Some (index - 1)
               | FIND_IMMEDIATELY_AFTER \<Rightarrow> Some index))"

text \<open>
  What the search promises at the index it returns: an entry of that timestamp, or the point
  that separates the earlier entries from the later ones.
\<close>

definition found_at :: "'a series \<Rightarrow> int \<Rightarrow> int \<Rightarrow> bool" where
  "found_at d t i =
     (0 \<le> i \<and> i \<le> int (length d) \<and>
      (i < int (length d) \<and> fst (d ! nat i) = t \<or>
       (\<forall>j < nat i. fst (d ! j) < t) \<and> (\<forall>j. nat i \<le> j \<and> j < length d \<longrightarrow> t < fst (d ! j))))"

lemma sorted_series_nth_mono:
  "sorted_series d \<Longrightarrow> i \<le> j \<Longrightarrow> j < length d \<Longrightarrow> fst (d ! i) \<le> fst (d ! j)"
  by (auto simp: sorted_series_def sorted_iff_nth_mono)

lemma ts_find_loop_found:
  assumes "sorted_series d" and "0 \<le> s" and "s \<le> e + 1" and "e < int (length d)"
    and "\<forall>j < nat s. fst (d ! j) < t"
    and "\<forall>j. nat (e + 1) \<le> j \<and> j < length d \<longrightarrow> t < fst (d ! j)"
  shows "found_at d t (ts_find_loop t d s e)"
  using assms
proof (induction t d s e rule: ts_find_loop.induct)
  case (1 t d s e)
  let ?c = "(s + e) div 2"
  show ?case
  proof (cases "s \<le> e")
    case False
    then have "ts_find_loop t d s e = s" by (simp add: ts_find_loop.simps [of t d s e])
    moreover have "s = e + 1" using False "1.prems" by simp
    ultimately show ?thesis using "1.prems" by (simp add: found_at_def)
  next
    case True
    then have c: "s \<le> ?c" "?c \<le> e" "nat ?c < length d"
      using "1.prems" by auto
    consider (eq) "fst (d ! nat ?c) = t" | (lt) "fst (d ! nat ?c) < t" | (gt) "t < fst (d ! nat ?c)"
      by fastforce
    then show ?thesis
    proof cases
      case eq
      with True c "1.prems" show ?thesis
        by (simp add: ts_find_loop.simps [of t d s e] Let_def found_at_def)
    next
      case lt
      have below: "\<forall>j < nat (?c + 1). fst (d ! j) < t"
      proof (intro allI impI)
        fix j assume "j < nat (?c + 1)"
        then have "j \<le> nat ?c" using c "1.prems"(2) by linarith
        then have "fst (d ! j) \<le> fst (d ! nat ?c)"
          using sorted_series_nth_mono [OF "1.prems"(1)] c by blast
        with lt show "fst (d ! j) < t" by simp
      qed
      have "found_at d t (ts_find_loop t d (?c + 1) e)"
        using "1.IH"(1) [OF True refl refl] lt c "1.prems" below by simp
      with True lt show ?thesis
        by (simp add: ts_find_loop.simps [of t d s e] Let_def)
    next
      case gt
      have above: "\<forall>j. nat (?c - 1 + 1) \<le> j \<and> j < length d \<longrightarrow> t < fst (d ! j)"
        using sorted_series_nth_mono [OF "1.prems"(1)] gt by fastforce
      have "found_at d t (ts_find_loop t d s (?c - 1))"
        using "1.IH"(2) [OF True refl refl] gt c "1.prems" above by simp
      with True gt show ?thesis
        by (simp add: ts_find_loop.simps [of t d s e] Let_def)
    qed
  qed
qed

lemma ts_search_found: "sorted_series d \<Longrightarrow> found_at d t (ts_search d t)"
  unfolding ts_search_def by (rule ts_find_loop_found) auto


text \<open>The result splits the data: earlier or equal entries before it, later or equal after.\<close>

lemma found_at_nonneg: "found_at d t i \<Longrightarrow> 0 \<le> i \<and> nat i \<le> length d"
  by (auto simp: found_at_def)

lemma found_at_split:
  assumes "sorted_series d" and "found_at d t i"
  shows "\<forall>x\<in>set (take (nat i) d). fst x \<le> t" and "\<forall>x\<in>set (drop (nat i) d). t \<le> fst x"
proof -
  note mono = sorted_series_nth_mono [OF assms(1)]
  have len: "nat i \<le> length d" using found_at_nonneg [OF assms(2)] by simp
  have "(\<forall>j<nat i. fst (d ! j) \<le> t) \<and>
        (\<forall>j. nat i \<le> j \<and> j < length d \<longrightarrow> t \<le> fst (d ! j))"
  proof (cases "i < int (length d) \<and> fst (d ! nat i) = t")
    case True
    then show ?thesis using mono [of _ "nat i"] mono [of "nat i"] len
      by (metis found_at_nonneg [OF assms(2)] nat_int nat_less_iff order_less_imp_le)
  next
    case False
    then show ?thesis using assms(2) by (auto simp: found_at_def less_imp_le)
  qed
  then show "\<forall>x\<in>set (take (nat i) d). fst x \<le> t" and "\<forall>x\<in>set (drop (nat i) d). t \<le> fst x"
    using len by (simp_all add: ball_take_nth ball_drop_nth)
qed

lemma found_at_absent:
  assumes "found_at d t i" and "\<not> (i < int (length d) \<and> fst (d ! nat i) = t)"
  shows "\<forall>x\<in>set (take (nat i) d). fst x < t" and "\<forall>x\<in>set (drop (nat i) d). t < fst x"
  using assms found_at_nonneg [OF assms(1)]
  by (auto simp: found_at_def ball_take_nth ball_drop_nth)

section \<open>Insertion\<close>

definition ts_insert :: "'a ts_options \<Rightarrow> int \<Rightarrow> 'a \<Rightarrow> 'a series \<Rightarrow> 'a series" where
  "ts_insert opts timestamp data d =
     (let index = nat (ts_search d timestamp)
      in if unique opts \<and> index < length d \<and> fst (d ! index) = timestamp
         then d[index := (fst (d ! index), uniqueMerge opts (snd (d ! index)) data timestamp)]
         else splice_insert index (timestamp, data) d)"

lemma sorted_series_append:
  "sorted_series (xs @ ys) \<longleftrightarrow>
     sorted_series xs \<and> sorted_series ys \<and> (\<forall>x\<in>set xs. \<forall>y\<in>set ys. fst x \<le> fst y)"
  by (auto simp: sorted_series_def sorted_append)

lemma sorted_series_Cons:
  "sorted_series (y # ys) \<longleftrightarrow> sorted_series ys \<and> (\<forall>x\<in>set ys. fst y \<le> fst x)"
  by (auto simp: sorted_series_def)

lemma strict_series_append:
  "strict_series (xs @ ys) \<longleftrightarrow>
     strict_series xs \<and> strict_series ys \<and> (\<forall>x\<in>set xs. \<forall>y\<in>set ys. fst x < fst y)"
  by (auto simp: strict_series_def sorted_wrt_append)

lemma strict_series_Cons:
  "strict_series (y # ys) \<longleftrightarrow> strict_series ys \<and> (\<forall>x\<in>set ys. fst y < fst x)"
  by (auto simp: strict_series_def)

lemma series_take_drop:
  "sorted_series d \<Longrightarrow> sorted_series (take n d) \<and> sorted_series (drop n d)"
  "strict_series d \<Longrightarrow> strict_series (take n d) \<and> strict_series (drop n d)"
  by (metis append_take_drop_id sorted_series_append)
     (metis append_take_drop_id strict_series_append)

lemma series_update_value:
  "i < length d \<Longrightarrow> fst (d ! i) = t \<Longrightarrow> map fst (d[i := (t, v)]) = map fst d"
  by (auto simp: map_update list_update_same_conv)

lemma ts_insert_inv [inv_intros]:
  assumes "ts_inv opts d"
  shows "ts_inv opts (ts_insert opts t v d)"
proof -
  let ?i = "ts_search d t"
  have sd: "sorted_series d" by (rule ts_inv_sorted [OF assms])
  note fa = ts_search_found [OF sd, of t]
  show ?thesis
  proof (cases "unique opts")
    case True
    then have st: "strict_series d" using assms by (simp add: ts_inv_def)
    show ?thesis
    proof (cases "nat ?i < length d \<and> fst (d ! nat ?i) = t")
      case hit: True
      then show ?thesis
        using st True
        by (auto simp: ts_insert_def ts_inv_def strict_series_def Let_def
            series_update_value)
    next
      case False
      then have "\<not> (?i < int (length d) \<and> fst (d ! nat ?i) = t)"
        using found_at_nonneg [OF fa] by auto
      note absent = found_at_absent [OF fa this]
      have "strict_series (take (nat ?i) d @ (t, v) # drop (nat ?i) d)"
        using absent series_take_drop(2) [OF st, of "nat ?i"]
        by (fastforce simp: strict_series_append strict_series_Cons)
      with False True show ?thesis by (auto simp: ts_insert_def ts_inv_def splice_insert_def Let_def)
    qed
  next
    case False
    have "sorted_series (take (nat ?i) d @ (t, v) # drop (nat ?i) d)"
      using found_at_split [OF sd fa] series_take_drop(1) [OF sd, of "nat ?i"]
      by (fastforce simp: sorted_series_append sorted_series_Cons)
    with False show ?thesis by (simp add: ts_insert_def ts_inv_def splice_insert_def Let_def)
  qed
qed


text \<open>
  Insertion without \<open>unique\<close> adds one entry. With \<open>unique\<close> it is the update of a finite map,
  the two values merged when the timestamp was there.
\<close>

lemma mset_splice_insert: "mset (splice_insert i x xs) = add_mset x (mset xs)"
  by (metis append_take_drop_id mset.simps(2) mset_append splice_insert_def
      union_mset_add_mset_right)

lemma ts_insert_mset:
  "\<not> unique opts \<Longrightarrow> mset (ts_insert opts t v d) = add_mset (t, v) (mset d)"
  by (simp add: ts_insert_def mset_splice_insert Let_def)

definition series_upsert :: "'a ts_options \<Rightarrow> int \<Rightarrow> 'a \<Rightarrow> (int \<rightharpoonup> 'a) \<Rightarrow> (int \<rightharpoonup> 'a)" where
  "series_upsert opts t v m =
     m(t \<mapsto> (case m t of None \<Rightarrow> v | Some a \<Rightarrow> uniqueMerge opts a v t))"

lemma strict_series_distinct: "strict_series d \<Longrightarrow> distinct (map fst d)"
  by (simp add: strict_series_def strict_sorted_iff)

lemma ts_insert_refines:
  assumes "unique opts" and "strict_series d"
  shows "map_of (ts_insert opts t v d) = series_upsert opts t v (map_of d)"
proof -
  let ?i = "ts_search d t"
  note fa = ts_search_found [OF strict_imp_sorted [OF assms(2)], of t]
  note dist = strict_series_distinct [OF assms(2)]
  show ?thesis
  proof (cases "nat ?i < length d \<and> fst (d ! nat ?i) = t")
    case True
    then have "map_of d t = Some (snd (d ! nat ?i))"
      using dist by (metis map_of_is_SomeI nth_mem prod.collapse)
    with True show ?thesis
      using assms(1) map_of_list_update [OF dist, of "nat ?i" t]
      by (simp add: ts_insert_def series_upsert_def Let_def)
  next
    case False
    then have "\<not> (?i < int (length d) \<and> fst (d ! nat ?i) = t)"
      using found_at_nonneg [OF fa] by auto
    note absent = found_at_absent [OF fa this]
    have none: "t \<notin> fst ` set (take (nat ?i) d)" "t \<notin> fst ` set (drop (nat ?i) d)"
      using absent by auto
    have "map_of (take (nat ?i) d @ (t, v) # drop (nat ?i) d) = (map_of d)(t \<mapsto> v)"
      using map_of_insert_mid [OF none(1), of v "drop (nat ?i) d"]
      by (simp only: append_take_drop_id)
    moreover have "map_of d t = None"
      using none by (metis Un_iff append_take_drop_id image_Un map_of_eq_None_iff set_append)
    ultimately show ?thesis
      using False by (auto simp: ts_insert_def series_upsert_def splice_insert_def Let_def)
  qed
qed

section \<open>Iteration\<close>

text \<open>
  \<open>forEach(callback, timestampStart, timestampEnd, inclusive)\<close>. The callback acts on a state of
  the caller; its second result is \<open>False\<close> when it returns \<open>false\<close>, which stops the loop.
  \<open>ts_forEach_loop\<close> is the loop from the entry \<open>index\<close> on.
\<close>

fun ts_forEach_loop :: "(int \<Rightarrow> 'a \<Rightarrow> 's \<Rightarrow> 's \<times> bool) \<Rightarrow> int \<Rightarrow> int \<Rightarrow> bool \<Rightarrow> int \<Rightarrow>
    'a series \<Rightarrow> 's \<Rightarrow> 's" where
  "ts_forEach_loop callback tStart tEnd inclusive prevTimestamp [] s = s"
| "ts_forEach_loop callback tStart tEnd inclusive prevTimestamp ((t, v) # rest) s =
     (if tEnd < t
      then (if prevTimestamp \<noteq> tStart \<and> inclusive then fst (callback t v s) else s)
      else (let (s', continueLoop) = callback t v s
            in if continueLoop
               then ts_forEach_loop callback tStart tEnd inclusive t rest s'
               else s'))"

definition ts_forEach :: "(int \<Rightarrow> 'a \<Rightarrow> 's \<Rightarrow> 's \<times> bool) \<Rightarrow> int option \<Rightarrow> int option \<Rightarrow> bool \<Rightarrow>
    'a series \<Rightarrow> 's \<Rightarrow> 's" where
  "ts_forEach callback timestampStart timestampEnd inclusive d s =
     (if d = [] then s
      else let tStart = (case timestampStart of None \<Rightarrow> fst (d ! 0) | Some t \<Rightarrow> t);
               tEnd = (case timestampEnd of None \<Rightarrow> fst (d ! (length d - 1)) | Some t \<Rightarrow> t);
               index = the (ts_find d tStart
                              (if inclusive then FIND_IMMEDIATELY_BEFORE
                               else FIND_IMMEDIATELY_AFTER))
           in ts_forEach_loop callback tStart tEnd inclusive (- number_max_value)
                (drop (nat (max 0 index)) d) s)"

text \<open>\<open>find\<close> returns \<open>null\<close> in the exact mode only, so the \<open>the\<close> above is never \<open>the None\<close>.\<close>

lemma ts_find_not_None: "mode \<noteq> FIND_EXACT_MATCH \<Longrightarrow> \<exists>i. ts_find d t mode = Some i"
  by (cases mode) (auto simp: ts_find_def Let_def)

text \<open>The callback that records what it is called with and never stops the loop.\<close>

definition record_all :: "int \<Rightarrow> 'a \<Rightarrow> 'a series \<Rightarrow> 'a series \<times> bool" where
  "record_all t v acc = (acc @ [(t, v)], True)"

lemma forEach_loop_visits:
  "sorted_series d \<Longrightarrow>
   ts_forEach_loop record_all tStart tEnd False prev d acc = acc @ filter (\<lambda>(t, v). t \<le> tEnd) d"
proof (induction d arbitrary: prev acc)
  case (Cons x d)
  obtain t v where x: "x = (t, v)" by (cases x)
  have "tEnd < t \<Longrightarrow> filter (\<lambda>(t, v). t \<le> tEnd) d = []"
    using Cons.prems x by (auto simp: filter_empty_conv sorted_series_Cons)
  with Cons x show ?case by (simp add: record_all_def sorted_series_Cons)
qed simp

lemma strict_split_at:
  assumes "strict_series d" and "found_at d t i"
  shows "drop (nat i) d = filter (\<lambda>(u, v). t \<le> u) d"
proof -
  note sorted = strict_imp_sorted [OF assms(1)]
  note ge = found_at_split(2) [OF sorted assms(2)]
  have "\<forall>x\<in>set (take (nat i) d). fst x < t"
  proof (cases "i < int (length d) \<and> fst (d ! nat i) = t")
    case True
    then have "nat i < length d" using found_at_nonneg [OF assms(2)] by auto
    then have "drop (nat i) d = d ! nat i # drop (Suc (nat i)) d"
      by (simp add: Cons_nth_drop_Suc)
    moreover have "strict_series (take (nat i) d @ drop (nat i) d)" using assms(1) by simp
    ultimately show ?thesis using True by (simp add: strict_series_append)
  next
    case False
    then show ?thesis by (rule found_at_absent(1) [OF assms(2)])
  qed
  then have "filter (\<lambda>(u, v). t \<le> u) (take (nat i) d) = []"
    by (auto simp: filter_empty_conv)
  moreover have "filter (\<lambda>(u, v). t \<le> u) (drop (nat i) d) = drop (nat i) d"
    using ge by (auto simp: filter_id_conv)
  ultimately show ?thesis
    by (metis (no_types, lifting) append_Nil append_take_drop_id filter_append)
qed

text \<open>On a series without duplicates, the plain iteration visits exactly the requested range.\<close>

lemma ts_forEach_range_acc:
  assumes "strict_series d"
  shows "ts_forEach record_all (Some tStart) (Some tEnd) False d acc =
           acc @ filter (\<lambda>(t, v). tStart \<le> t \<and> t \<le> tEnd) d"
proof (cases "d = []")
  case False
  let ?i = "ts_search d tStart"
  note fa = ts_search_found [OF strict_imp_sorted [OF assms], of tStart]
  have idx: "the (ts_find d tStart FIND_IMMEDIATELY_AFTER) = ?i"
    by (auto simp: ts_find_def Let_def)
  have srt: "sorted_series (drop (nat ?i) d)"
    using series_take_drop(1) [OF strict_imp_sorted [OF assms]] by blast
  have "ts_forEach record_all (Some tStart) (Some tEnd) False d acc =
      acc @ filter (\<lambda>(t, v). t \<le> tEnd) (drop (nat ?i) d)"
    using False found_at_nonneg [OF fa]
    by (simp add: ts_forEach_def idx max_def forEach_loop_visits [OF srt])
  also have "\<dots> = acc @ filter (\<lambda>(t, v). t \<le> tEnd) (filter (\<lambda>(u, v). tStart \<le> u) d)"
    by (simp add: strict_split_at [OF assms fa])
  also have "\<dots> = acc @ filter (\<lambda>(t, v). tStart \<le> t \<and> t \<le> tEnd) d"
    by (auto intro!: filter_cong)
  finally show ?thesis .
qed (simp add: ts_forEach_def)

text \<open>
  Range query. On a series without duplicates, \<open>forEach\<close> visits exactly the entries whose timestamps are in
  the requested interval, both ends included, in their order.
\<close>

lemma ts_forEach_range:
  "strict_series d \<Longrightarrow> ts_forEach record_all (Some tStart) (Some tEnd) False d [] =
     filter (\<lambda>(t, v). tStart \<le> t \<and> t \<le> tEnd) d"
  by (simp add: ts_forEach_range_acc)

lemma ts_getTimestamp_last: "d \<noteq> [] \<Longrightarrow> ts_getTimestamp d (-1) = Some (fst (last d))"
  by (simp add: ts_getTimestamp_def last_conv_nth nat_diff_distrib Suc_le_eq)

lemma ts_getTimestamp_first: "d \<noteq> [] \<Longrightarrow> ts_getTimestamp d 0 = Some (fst (hd d))"
  by (simp add: ts_getTimestamp_def hd_conv_nth)

lemma strict_series_last:
  "strict_series d \<Longrightarrow> x \<in> set d \<Longrightarrow> fst x \<le> fst (last d)"
  by (cases d rule: rev_cases) (auto simp: strict_series_append strict_series_Cons less_imp_le)

section \<open>Consistency check and repair\<close>

fun ts_check_loop :: "bool \<Rightarrow> int \<Rightarrow> 'a series \<Rightarrow> bool" where
  "ts_check_loop uniq curTimestamp [] = True"
| "ts_check_loop uniq curTimestamp ((t, v) # rest) =
     (if \<not> uniq \<and> curTimestamp > t then False
      else if uniq \<and> curTimestamp \<ge> t then False
      else ts_check_loop uniq t rest)"

definition ts_consistencyCheck :: "'a ts_options \<Rightarrow> 'a series \<Rightarrow> bool" where
  "ts_consistencyCheck opts d = ts_check_loop (unique opts) (- number_max_value) d"

lemma ts_check_loop_sorted:
  "ts_check_loop False cur d \<longleftrightarrow> sorted_series d \<and> (\<forall>x\<in>set d. cur \<le> fst x)"
proof (induction d arbitrary: cur)
  case (Cons x d)
  then show ?case by (cases x) (auto simp: sorted_series_Cons intro: order_trans)
qed (simp add: sorted_series_def)

lemma ts_check_loop_strict:
  "ts_check_loop True cur d \<longleftrightarrow> strict_series d \<and> (\<forall>x\<in>set d. cur < fst x)"
proof (induction d arbitrary: cur)
  case (Cons x d)
  then show ?case by (cases x) (auto simp: strict_series_Cons intro: less_trans)
qed (simp add: strict_series_def)

lemmas ts_check_loop_iff = ts_check_loop_sorted ts_check_loop_strict

lemma ts_consistencyCheck_iff:
  "\<forall>x\<in>set d. - number_max_value < fst x \<Longrightarrow> ts_consistencyCheck opts d \<longleftrightarrow> ts_inv opts d"
  by (cases "unique opts")
     (auto simp: ts_consistencyCheck_def ts_inv_def ts_check_loop_iff less_imp_le)

text \<open>
  \<open>consistencyFix\<close>: sort (JavaScript's sort is stable), then for \<open>unique\<close> a loop that merges
  each entry with its left neighbour of the same timestamp and records the neighbour's index,
  and last the deletion of the recorded indices, from the highest to the lowest.
\<close>

function ts_merge_loop :: "('a \<Rightarrow> 'a \<Rightarrow> int \<Rightarrow> 'a) \<Rightarrow> nat \<Rightarrow> 'a series \<Rightarrow> nat list \<Rightarrow>
    'a series \<times> nat list" where
  "ts_merge_loop merge index d indexToDeleteList =
     (if index < length d then
        if fst (d ! (index - 1)) = fst (d ! index) then
          ts_merge_loop merge (index + 1)
            (d[index := (fst (d ! index),
                         merge (snd (d ! index)) (snd (d ! (index - 1))) (fst (d ! index)))])
            (indexToDeleteList @ [index - 1])
        else ts_merge_loop merge (index + 1) d indexToDeleteList
      else (d, indexToDeleteList))"
  by pat_completeness auto
termination
  by (relation "measure (\<lambda>(m, i, d, dels). length d - i)") auto

declare ts_merge_loop.simps [simp del]

definition delete_indices :: "nat list \<Rightarrow> 'a list \<Rightarrow> 'a list" where
  "delete_indices indices d = fold splice_remove (rev indices) d"

definition ts_consistencyFix :: "'a ts_options \<Rightarrow> 'a series \<Rightarrow> 'a series" where
  "ts_consistencyFix opts d =
     (let d1 = sort_key fst d
      in if unique opts
         then (let (d2, indexToDeleteList) = ts_merge_loop (uniqueMerge opts) 1 d1 []
               in delete_indices indexToDeleteList d2)
         else d1)"

text \<open>The reference: adjacent entries of one timestamp are merged into the later one.\<close>

fun merge_runs :: "('a \<Rightarrow> 'a \<Rightarrow> int \<Rightarrow> 'a) \<Rightarrow> 'a series \<Rightarrow> 'a series" where
  "merge_runs merge ((t, a) # (u, b) # rest) =
     (if t = u then merge_runs merge ((u, merge b a u) # rest)
      else (t, a) # merge_runs merge ((u, b) # rest))"
| "merge_runs merge d = d"

lemma delete_indices_snoc: "delete_indices (is @ [i]) d = delete_indices is (splice_remove i d)"
  by (simp add: delete_indices_def)

lemma delete_indices_append:
  "sorted_wrt (<) is \<Longrightarrow> \<forall>i\<in>set is. i < length l \<Longrightarrow>
   delete_indices is (l @ r) = delete_indices is l @ r"
proof (induction "is" arbitrary: l rule: rev_induct)
  case Nil
  then show ?case by (simp add: delete_indices_def)
next
  case (snoc i "is")
  then have "i < length l" "sorted_wrt (<) is" "\<forall>j\<in>set is. j < i"
    by (auto simp: sorted_wrt_append)
  moreover from this have "splice_remove i (l @ r) = splice_remove i l @ r"
    by (simp add: splice_remove_def)
  moreover have "\<forall>j\<in>set is. j < length (splice_remove i l)"
    using calculation by (auto simp: splice_remove_def)
  ultimately show ?case using snoc.IH by (simp add: delete_indices_snoc)
qed

lemma merge_loop_runs:
  assumes "1 \<le> i" and "i \<le> length d" and "sorted_wrt (<) dels" and "\<forall>j\<in>set dels. j < i - 1"
  shows "(let (d', dels') = ts_merge_loop m i d dels in delete_indices dels' d') =
           delete_indices dels (take (i - 1) d) @ merge_runs m (drop (i - 1) d)"
  using assms
proof (induction m i d dels rule: ts_merge_loop.induct)
  case (1 m i d dels)
  show ?case
  proof (cases "i < length d")
    case False
    then have "i = length d" using "1.prems" by simp
    then obtain x where d: "d = take (i - 1) d @ [x]"
      using "1.prems"(1) by (metis Suc_diff_1 diff_less id_take_nth_drop drop_all
          less_eq_Suc_le One_nat_def order_refl zero_less_one)
    have "delete_indices dels d = delete_indices dels (take (i - 1) d) @ [x]"
      using delete_indices_append [OF "1.prems"(3), of "take (i - 1) d" "[x]"] d "1.prems" by simp
    moreover have "drop (i - 1) d = [x]" using d "1.prems" by (metis append_take_drop_id same_append_eq)
    ultimately show ?thesis using False by (cases x) (simp add: ts_merge_loop.simps [of m i d dels])
  next
    case True
    obtain t a u b where xy: "d ! (i - 1) = (t, a)" "d ! i = (u, b)" by (metis surj_pair)
    have tk: "take i d = take (i - 1) d @ [(t, a)]"
      using True "1.prems"(1) xy take_Suc_conv_app_nth [of "i - 1" d] by simp
    have dr: "drop (i - 1) d = (t, a) # (u, b) # drop (i + 1) d"
      using True "1.prems"(1) xy
      by (metis Cons_nth_drop_Suc Suc_diff_1 Suc_eq_plus1 less_imp_diff_less less_eq_Suc_le One_nat_def)
    show ?thesis
    proof (cases "t = u")
      case eq: True
      let ?d = "d[i := (u, m b a u)]"
      have srt: "sorted_wrt (<) (dels @ [i - 1])" "\<forall>j\<in>set (dels @ [i - 1]). j < i + 1 - 1"
        using "1.prems" by (auto simp: sorted_wrt_append)
      have tl: "drop i ?d = (u, m b a u) # drop (i + 1) d"
        using True by (simp add: drop_update_swap Cons_nth_drop_Suc [symmetric])
      have "(let (d', dels') = ts_merge_loop m i d dels in delete_indices dels' d') =
          delete_indices (dels @ [i - 1]) (take i ?d) @ merge_runs m (drop i ?d)"
        using "1.IH"(1) [OF True] True xy eq srt
        by (simp add: ts_merge_loop.simps [of m i d dels])
      also have "take i ?d = take (i - 1) d @ (t, a) # []" using tk by simp
      also have "delete_indices (dels @ [i - 1]) (take (i - 1) d @ (t, a) # []) =
          delete_indices dels (take (i - 1) d)"
        using True by (simp add: delete_indices_snoc splice_remove_def)
      finally show ?thesis using tl dr eq by simp
    next
      case False
      have "(let (d', dels') = ts_merge_loop m i d dels in delete_indices dels' d') =
          delete_indices dels (take i d) @ merge_runs m (drop i d)"
        using "1.IH"(2) [OF True] True xy False "1.prems"
        by (force simp add: ts_merge_loop.simps [of m i d dels])
      also have "delete_indices dels (take i d) = delete_indices dels (take (i - 1) d) @ [(t, a)]"
        unfolding tk using "1.prems" True by (intro delete_indices_append) auto
      finally show ?thesis using dr False xy True by (simp add: Cons_nth_drop_Suc [symmetric])
    qed
  qed
qed

lemma ts_consistencyFix_eq:
  "ts_consistencyFix opts d =
     (if unique opts then merge_runs (uniqueMerge opts) (sort_key fst d) else sort_key fst d)"
proof (cases "d = []")
  case True
  then show ?thesis
    by (simp add: ts_consistencyFix_def ts_merge_loop.simps delete_indices_def)
next
  case False
  then have "1 \<le> length (sort_key fst d)" by (cases d) auto
  then show ?thesis
    using merge_loop_runs [of 1 "sort_key fst d" "[]" "uniqueMerge opts"]
    by (simp add: ts_consistencyFix_def Let_def delete_indices_def)
qed

lemma merge_runs_keys: "fst ` set (merge_runs m d) = fst ` set d"
  by (induction m d rule: merge_runs.induct) auto

lemma merge_runs_strict: "sorted_series d \<Longrightarrow> strict_series (merge_runs m d)"
proof (induction m d rule: merge_runs.induct)
  case (1 m t a u b rest)
  have "\<forall>x\<in>set (merge_runs m ((u, b) # rest)). \<exists>y\<in>set ((u, b) # rest). fst x = fst y"
    using merge_runs_keys [of m "(u, b) # rest"] by (metis image_iff)
  with 1 show ?case by (fastforce simp: strict_series_Cons sorted_series_Cons)
qed (auto simp: strict_series_def)

lemma ts_consistencyFix_inv: "ts_inv opts (ts_consistencyFix opts d)"
proof -
  have "sorted_series (sort_key fst d)" by (simp add: sorted_series_def)
  then show ?thesis by (simp add: ts_inv_def ts_consistencyFix_eq merge_runs_strict)
qed

lemma ts_consistencyFix_keys: "fst ` set (ts_consistencyFix opts d) = fst ` set d"
  by (simp add: ts_consistencyFix_eq merge_runs_keys)

text \<open>Data that satisfies the invariant is left as it is.\<close>

lemma merge_runs_id: "strict_series d \<Longrightarrow> merge_runs m d = d"
  by (induction m d rule: merge_runs.induct) (auto simp: strict_series_Cons)

lemma ts_consistencyFix_id: "ts_inv opts d \<Longrightarrow> ts_consistencyFix opts d = d"
  using ts_inv_sorted [of opts d]
  by (auto simp: ts_inv_def ts_consistencyFix_eq merge_runs_id sorted_series_def
      sort_key_id_if_sorted split: if_splits)

section \<open>Properties\<close>

text \<open>
  Insertion. Inserting by binary search keeps the series in order, and is the insertion into the map from
  timestamps to values, merged with \<open>uniqueMerge\<close>, when timestamps are unique, and into the multiset of
  the entries when they are not.
\<close>

lemma ts_insert_correct:
  assumes "ts_inv opts d"
  shows "ts_inv opts (ts_insert opts t v d) \<and>
    (if unique opts then map_of (ts_insert opts t v d) = series_upsert opts t v (map_of d)
     else mset (ts_insert opts t v d) = add_mset (t, v) (mset d))"
  using ts_insert_inv [OF assms] ts_insert_mset ts_insert_refines assms by (auto simp: ts_inv_def)

text \<open>
  Repair. Whatever the data, \<open>consistencyFix\<close> makes it consistent and keeps its timestamps; it changes
  nothing in consistent data, loses no entry when duplicates are allowed, and is otherwise the merge of
  the runs of equal timestamps, from left to right, in the sorted data.
\<close>

lemma ts_consistencyFix_correct:
  "ts_inv opts (ts_consistencyFix opts d) \<and> fst ` set (ts_consistencyFix opts d) = fst ` set d \<and>
   (ts_inv opts d \<longrightarrow> ts_consistencyFix opts d = d) \<and>
   (if unique opts then ts_consistencyFix opts d = merge_runs (uniqueMerge opts) (sort_key fst d)
    else mset (ts_consistencyFix opts d) = mset d)"
  using ts_consistencyFix_inv [of opts d] ts_consistencyFix_keys [of opts d] ts_consistencyFix_id [of opts d]
  by (auto simp: ts_consistencyFix_eq split: if_splits)

section \<open>Instances of the properties\<close>

definition sample_series :: "string series" where
  "sample_series = [(1, ''a''), (3, ''b''), (5, ''c'')]"

definition sample_ts_options :: "string ts_options" where
  "sample_ts_options = \<lparr>unique = True, uniqueMerge = \<lambda>a b t. b\<rparr>"

lemma sample_series_ok: "ts_inv sample_ts_options sample_series" "strict_series sample_series"
  by (simp_all add: sample_ts_options_def sample_series_def ts_inv_def strict_series_def)

theorem ts_forEach_range_witness:
  "ts_forEach record_all (Some 2) (Some 5) False sample_series [] = [(3, ''b''), (5, ''c'')]"
  by (simp add: ts_forEach_range [OF sample_series_ok(2)]) (simp add: sample_series_def)

theorem ts_insert_correct_witness:
  "map_of (ts_insert sample_ts_options 4 ''x'' sample_series) 4 = Some ''x''"
  using ts_insert_correct [OF sample_series_ok(1), of 4 "''x''"]
  by (simp add: sample_ts_options_def series_upsert_def sample_series_def)

theorem ts_consistencyFix_correct_witness:
  "ts_consistencyFix sample_ts_options [(3, ''b''), (1, ''a''), (3, ''c'')] = [(1, ''a''), (3, ''b'')]"
  using ts_consistencyFix_correct [of sample_ts_options "[(3, ''b''), (1, ''a''), (3, ''c'')]"]
  by (simp add: sample_ts_options_def)

end
