(* ===== verification/PersistenceTimeSeries.thy ===== *)
theory PersistenceTimeSeries
  imports TimeSeries Persistence
begin

text \<open>
  \<open>nodejs/core/persistence/timeseries.js\<close>: a time series split over data files of at most
  \<open>maxEntriesPerFile\<close> entries, with an index from the first timestamp of a file to its metadata.
  The index and every data file are persistences of their own; a persistence refines its data
  (\<open>Persistence\<close>), so the model keeps the data of each: the index is a series of metadata, the data
  files a map from their paths to series.
\<close>

section \<open>State\<close>

record ts_meta =
  m_length :: int
  m_path :: string
  m_timestampEnd :: int

record 'a pts_options =
  data_options :: "'a ts_options"
  maxEntriesPerFile :: int

record 'a pts =
  pts_index :: "ts_meta series"
  pts_files :: "(string \<times> 'a series) list"

definition file_at :: "'a pts \<Rightarrow> string \<Rightarrow> 'a series" where
  "file_at s path = (case map_of (pts_files s) path of None \<Rightarrow> [] | Some d \<Rightarrow> d)"

definition data_path :: "int \<Rightarrow> string" where
  "data_path timestamp = int_to_string timestamp @ ''.json''"

section \<open>The index\<close>

text \<open>
  The operations \<open>insert\<close> and \<open>update\<close> of \<open>optionsIndex\<close>. The index has \<open>unique\<close> set, and merging two
  of its entries is unreachable code.
\<close>

definition index_insert :: "int \<Rightarrow> ts_meta \<Rightarrow> ts_meta series \<Rightarrow> ts_meta series outcome" where
  "index_insert timestamp meta idx =
     (if ts_find idx timestamp FIND_EXACT_MATCH \<noteq> None then Inl Unreachable
      else Inr (ts_insert \<lparr>unique = True, uniqueMerge = (\<lambda>a b t. a)\<rparr> timestamp meta idx))"

definition index_update :: "int \<Rightarrow> ts_meta series \<Rightarrow> ts_meta series outcome" where
  "index_update timestamp idx =
     (let i = the (ts_find idx timestamp FIND_IMMEDIATELY_BEFORE)
      in if \<not> (0 \<le> i \<and> i < int (length idx)) then Inl AssertFailed
         else let (b, m) = idx ! nat i
              in Inr (idx[nat i := (b, m\<lparr>m_length := m_length m + 1,
                   m_timestampEnd := max (m_timestampEnd m) timestamp\<rparr>)]))"

definition createIndexEntry :: "int \<Rightarrow> 'a pts \<Rightarrow> ('a pts \<times> ts_meta) outcome" where
  "createIndexEntry timestamp s =
     (let metadata = \<lparr>m_length = 0, m_path = data_path timestamp, m_timestampEnd = 0\<rparr>
      in outcome_bind (index_insert timestamp metadata (pts_index s))
           (\<lambda>idx. Inr (s\<lparr>pts_index := idx\<rparr>, metadata)))"

text \<open>
  \<open>getMetadata\<close>: the file of a timestamp, and its key in the index. An index beyond the last entry,
  which the mode \<open>AFTER\<close> can give, is a \<open>TypeError\<close>.
\<close>

definition getMetadata :: "'a pts_options \<Rightarrow> int \<Rightarrow> bool \<Rightarrow> find_mode \<Rightarrow> 'a pts \<Rightarrow>
    ('a pts \<times> int \<times> string) outcome" where
  "getMetadata opts timestamp forWrite mode s =
     (let index = the (ts_find (pts_index s) timestamp mode);
          create = (if \<not> forWrite then Inl AssertFailed
                    else outcome_bind (createIndexEntry timestamp s)
                           (\<lambda>(s', metadata). Inr (s', timestamp, m_path metadata)))
      in if index = -1 then create
         else if \<not> (0 \<le> index \<and> index < int (length (pts_index s))) then Inl TypeErr
         else
           let (b, metadata) = pts_index s ! nat index
           in if forWrite \<and> m_length metadata \<ge> maxEntriesPerFile opts \<and>
                 m_timestampEnd metadata < timestamp
              then create
              else Inr (s, b, m_path metadata))"

text \<open>\<open>getPersistenceByTimestamp\<close>: a file that does not exist yet is created empty.\<close>

definition getPersistenceByTimestamp :: "'a pts_options \<Rightarrow> int \<Rightarrow> bool \<Rightarrow> find_mode \<Rightarrow> 'a pts \<Rightarrow>
    ('a pts \<times> int \<times> string) outcome" where
  "getPersistenceByTimestamp opts timestamp forWrite mode s =
     outcome_bind (getMetadata opts timestamp forWrite mode s)
       (\<lambda>(s', b, path).
          Inr (if map_of (pts_files s') path = None
               then s'\<lparr>pts_files := AList.update path [] (pts_files s')\<rparr> else s', b, path))"

text \<open>\<open>getPersistenceByIndex\<close>: the loops over the index, from the start and from the end.\<close>

fun index_loop :: "int \<Rightarrow> ts_meta series \<Rightarrow> (int \<times> int) option" where
  "index_loop indexLeft [] = None"
| "index_loop indexLeft ((b, m) # entries) =
     (if indexLeft \<le> m_length m then Some (b, indexLeft)
      else index_loop (indexLeft - m_length m) entries)"

definition find_by_index :: "int \<Rightarrow> ts_meta series \<Rightarrow> (int \<times> int) option" where
  "find_by_index index idx =
     (if index \<ge> 0 then index_loop index idx
      else map_option (\<lambda>(b, indexLeft). (b, - indexLeft - 1)) (index_loop (- (index + 1)) (rev idx)))"

definition pts_getTimestamp :: "'a pts_options \<Rightarrow> int \<Rightarrow> 'a pts \<Rightarrow> ('a pts \<times> int option) outcome" where
  "pts_getTimestamp opts index s =
     (case find_by_index index (pts_index s) of
        None \<Rightarrow> Inr (s, None)
      | Some (b, i) \<Rightarrow>
          outcome_bind (getPersistenceByTimestamp opts b False FIND_IMMEDIATELY_BEFORE s)
            (\<lambda>(s', _, path). Inr (s', ts_getTimestamp (file_at s' path) i)))"

section \<open>Insertion and iteration\<close>

definition pts_insert :: "'a pts_options \<Rightarrow> int \<Rightarrow> 'a \<Rightarrow> 'a pts \<Rightarrow> 'a pts outcome" where
  "pts_insert opts timestamp v s =
     outcome_bind (getPersistenceByTimestamp opts timestamp True FIND_IMMEDIATELY_BEFORE s)
       (\<lambda>(s', _, path).
          let s'' = s'\<lparr>pts_files :=
                AList.update path (ts_insert (data_options opts) timestamp v (file_at s' path)) (pts_files s')\<rparr>
          in outcome_bind (index_update timestamp (pts_index s''))
               (\<lambda>idx. Inr (s''\<lparr>pts_index := idx\<rparr>)))"

text \<open>
  The loop of \<open>forEach\<close>, from one file to the next. The last timestamp of an empty file is \<open>null\<close>,
  which the comparison and the addition read as 0.
\<close>

partial_function (option) pts_forEach_loop :: "'a pts_options \<Rightarrow>
    (int \<Rightarrow> 'a \<Rightarrow> 's \<Rightarrow> 's \<times> bool) \<Rightarrow> int \<Rightarrow> bool \<Rightarrow> bool \<Rightarrow> int \<Rightarrow> 'a pts \<Rightarrow> 's \<Rightarrow>
    ('a pts \<times> 's) outcome option" where
  "pts_forEach_loop opts callback timestampEnd inclusive isFirst timestamp s acc =
     (case getPersistenceByTimestamp opts timestamp False
             (if isFirst then FIND_IMMEDIATELY_BEFORE else FIND_IMMEDIATELY_AFTER) s of
        Inl e \<Rightarrow> Some (Inl e)
      | Inr (s', b, path) \<Rightarrow>
          let d = file_at s' path;
              acc' = ts_forEach callback (Some timestamp) (Some timestampEnd) inclusive d acc;
              lastValidTimestamp = (case ts_getTimestamp d (-1) of None \<Rightarrow> 0 | Some t \<Rightarrow> t)
          in if timestampEnd > lastValidTimestamp
             then pts_forEach_loop opts callback timestampEnd inclusive False (lastValidTimestamp + 1) s' acc'
             else Some (Inr (s', acc')))"

definition pts_forEach :: "'a pts_options \<Rightarrow> (int \<Rightarrow> 'a \<Rightarrow> 's \<Rightarrow> 's \<times> bool) \<Rightarrow> int option \<Rightarrow> int option \<Rightarrow>
    bool \<Rightarrow> 'a pts \<Rightarrow> 's \<Rightarrow> ('a pts \<times> 's) outcome option" where
  "pts_forEach opts callback timestampStart timestampEnd inclusive s acc =
     (case pts_getTimestamp opts 0 s of
        Inl e \<Rightarrow> Some (Inl e)
      | Inr (s1, None) \<Rightarrow> Some (Inr (s1, acc))
      | Inr (s1, Some first) \<Rightarrow>
          (case pts_getTimestamp opts (-1) s1 of
             Inl e \<Rightarrow> Some (Inl e)
           | Inr (s2, lastTimestamp) \<Rightarrow>
               let timestamp = (case timestampStart of None \<Rightarrow> first | Some t \<Rightarrow> max t first);
                   tEnd = (case timestampEnd of
                             None \<Rightarrow> (case lastTimestamp of None \<Rightarrow> 0 | Some t \<Rightarrow> t)
                           | Some t \<Rightarrow> t)
               in pts_forEach_loop opts callback tEnd inclusive True timestamp s2 acc))"

section \<open>Rebuilding the index\<close>

text \<open>
  \<open>rebuildIndex\<close> over the data files found: each adds an entry for its first timestamp. A file that is
  inconsistent is skipped (the exception is caught), and so is one whose first timestamp is taken.
  An empty file, whose timestamps are \<open>null\<close>, is entered under 0.
\<close>

definition index_entry :: "string \<Rightarrow> 'a series \<Rightarrow> int \<times> ts_meta" where
  "index_entry path d =
     ((case ts_getTimestamp d 0 of None \<Rightarrow> 0 | Some t \<Rightarrow> t),
      \<lparr>m_length = int (ts_length d), m_path = path,
       m_timestampEnd = (case ts_getTimestamp d (-1) of None \<Rightarrow> 0 | Some t \<Rightarrow> t)\<rparr>)"

fun rebuild_loop :: "'a pts_options \<Rightarrow> (string \<times> 'a series) list \<Rightarrow> ts_meta series \<Rightarrow> ts_meta series" where
  "rebuild_loop opts [] idx = idx"
| "rebuild_loop opts ((path, d) # files) idx =
     (if \<not> ts_consistencyCheck (data_options opts) d then rebuild_loop opts files idx
      else case index_insert (fst (index_entry path d)) (snd (index_entry path d)) idx of
             Inl e \<Rightarrow> rebuild_loop opts files idx
           | Inr idx' \<Rightarrow> rebuild_loop opts files idx')"

definition rebuildIndex :: "'a pts_options \<Rightarrow> 'a pts \<Rightarrow> 'a pts" where
  "rebuildIndex opts s = s\<lparr>pts_index := rebuild_loop opts (pts_files s) []\<rparr>"

section \<open>The search of the index\<close>

lemma find_before:
  assumes "strict_series idx"
  shows "(\<exists>pre b m post. idx = pre @ (b, m) # post \<and>
      ts_find idx t FIND_IMMEDIATELY_BEFORE = Some (int (length pre)) \<and> b \<le> t \<and> (\<forall>x\<in>set post. t < fst x)) \<or>
    (ts_find idx t FIND_IMMEDIATELY_BEFORE = Some (-1) \<and> (\<forall>x\<in>set idx. t < fst x))"
proof -
  let ?i = "ts_search idx t"
  note fa = ts_search_found [OF strict_imp_sorted [OF assms], of t]
  show ?thesis
  proof (cases "0 \<le> ?i \<and> ?i < int (length idx) \<and> fst (idx ! nat ?i) = t")
    case True
    then have i: "nat ?i < length idx" by auto
    obtain m where x: "idx ! nat ?i = (t, m)" using True by (metis prod.collapse)
    have split: "idx = take (nat ?i) idx @ (t, m) # drop (Suc (nat ?i)) idx"
      using id_take_nth_drop [OF i] x by simp
    then have "\<forall>y\<in>set (drop (Suc (nat ?i)) idx). t < fst y"
      using assms strict_series_append strict_series_Cons by (metis fst_conv)
    moreover have "int (length (take (nat ?i) idx)) = ?i" using i True by simp
    ultimately show ?thesis using split True by (fastforce simp: ts_find_def Let_def)
  next
    case False
    then have "\<not> (?i < int (length idx) \<and> fst (idx ! nat ?i) = t)" using found_at_nonneg [OF fa] by auto
    note absent = found_at_absent [OF fa this]
    have find: "ts_find idx t FIND_IMMEDIATELY_BEFORE = Some (?i - 1)"
      using False by (auto simp: ts_find_def Let_def)
    show ?thesis
    proof (cases "?i = 0")
      case True
      then show ?thesis using find absent(2) by auto
    next
      case False
      define n where "n = nat ?i - 1"
      have n: "nat ?i = Suc n" "n < length idx" using False found_at_nonneg [OF fa] by (auto simp: n_def)
      obtain b m where x: "idx ! n = (b, m)" by (metis prod.collapse)
      have split: "idx = take n idx @ (b, m) # drop (nat ?i) idx"
        using id_take_nth_drop [OF n(2)] x n(1) by simp
      have "(b, m) \<in> set (take (nat ?i) idx)" using x n by (simp add: take_Suc_conv_app_nth)
      then have "b \<le> t" using absent(1) by force
      moreover have "?i - 1 = int (length (take n idx))" using n by (simp add: min_def)
      ultimately show ?thesis using find absent(2) split by metis
    qed
  qed
qed

lemma find_after:
  assumes "strict_series (pre @ (b, m) # post)" and "\<forall>x\<in>set pre. fst x < t" and "t \<le> b"
  shows "ts_find (pre @ (b, m) # post) t FIND_IMMEDIATELY_AFTER = Some (int (length pre))"
proof -
  let ?idx = "pre @ (b, m) # post"
  let ?i = "ts_search ?idx t"
  note fa = ts_search_found [OF strict_imp_sorted [OF assms(1)], of t]
  have "ts_find ?idx t FIND_IMMEDIATELY_AFTER = Some ?i" by (simp add: ts_find_def Let_def)
  moreover have "filter (\<lambda>(u, v). t \<le> u) pre = []" "filter (\<lambda>(u, v). t \<le> u) post = post"
    using assms by (fastforce simp: filter_empty_conv filter_id_conv strict_series_append
        strict_series_Cons)+
  then have drop: "drop (nat ?i) ?idx = (b, m) # post"
    using assms(3) unfolding strict_split_at [OF assms(1) fa] by simp
  have "length ?idx - nat ?i = Suc (length post)"
    using arg_cong [OF drop, of length] by (simp only: length_drop length_Cons)
  then have "?i = int (length pre)" using found_at_nonneg [OF fa] by auto
  ultimately show ?thesis by simp
qed


section \<open>The invariant and the abstract series\<close>

text \<open>
  The entries of the index with their files. The abstract state is the concatenation of the files.
\<close>

definition with_files :: "(string \<Rightarrow> 'a series) \<Rightarrow> ts_meta series \<Rightarrow> (int \<times> ts_meta \<times> 'a series) list" where
  "with_files fl idx = map (\<lambda>(b, m). (b, m, fl (m_path m))) idx"

definition abs_files :: "(string \<Rightarrow> 'a series) \<Rightarrow> ts_meta series \<Rightarrow> 'a series" where
  "abs_files fl idx = concat (map (\<lambda>(b, m). fl (m_path m)) idx)"

definition pts_abs :: "'a pts \<Rightarrow> 'a series" where
  "pts_abs s = abs_files (file_at s) (pts_index s)"

text \<open>The condition on one file, and that a file ends before the next begins.\<close>

definition file_ok :: "'a pts_options \<Rightarrow> int \<Rightarrow> ts_meta \<Rightarrow> 'a series \<Rightarrow> bool" where
  "file_ok opts b m d =
     (d \<noteq> [] \<and> ts_inv (data_options opts) d \<and> m_path m = data_path b \<and> 0 \<le> m_length m \<and>
      (\<forall>x\<in>set d. b \<le> fst x \<and> fst x \<le> m_timestampEnd m))"

definition file_before :: "int \<times> ts_meta \<times> 'a series \<Rightarrow> int \<times> ts_meta \<times> 'a series \<Rightarrow> bool" where
  "file_before x y = (fst x < fst y \<and> (\<forall>e\<in>set (snd (snd x)). fst e < fst y))"

definition chain_ok :: "'a pts_options \<Rightarrow> (int \<times> ts_meta \<times> 'a series) list \<Rightarrow> bool" where
  "chain_ok opts L =
     (sorted_wrt file_before L \<and> (\<forall>x\<in>set L. file_ok opts (fst x) (fst (snd x)) (snd (snd x))))"

definition pts_inv :: "'a pts_options \<Rightarrow> 'a pts \<Rightarrow> bool" where
  "pts_inv opts s =
     (chain_ok opts (with_files (file_at s) (pts_index s)) \<and>
      fst ` set (pts_files s) = (\<lambda>(b, m). m_path m) ` set (pts_index s))"

lemma chain_ok_simps [simp]:
  "chain_ok opts []"
  "chain_ok opts (x # L) \<longleftrightarrow> file_ok opts (fst x) (fst (snd x)) (snd (snd x)) \<and> chain_ok opts L \<and>
     (\<forall>y\<in>set L. file_before x y)"
  "chain_ok opts (L @ L') \<longleftrightarrow> chain_ok opts L \<and> chain_ok opts L' \<and>
     (\<forall>x\<in>set L. \<forall>y\<in>set L'. file_before x y)"
  by (auto simp: chain_ok_def sorted_wrt_append)

lemma data_path_inj: "data_path b = data_path b' \<longleftrightarrow> b = b'"
  by (auto simp: data_path_def dest: int_to_string_inj)

lemma with_files_simps [simp]:
  "with_files fl [] = []"
  "with_files fl ((b, m) # idx) = (b, m, fl (m_path m)) # with_files fl idx"
  "with_files fl (idx @ idx') = with_files fl idx @ with_files fl idx'"
  by (simp_all add: with_files_def)

lemma abs_files_simps [simp]:
  "abs_files fl [] = []"
  "abs_files fl ((b, m) # idx) = fl (m_path m) @ abs_files fl idx"
  "abs_files fl (idx @ idx') = abs_files fl idx @ abs_files fl idx'"
  by (simp_all add: abs_files_def)

lemma with_files_cong:
  "(\<And>b m. (b, m) \<in> set idx \<Longrightarrow> fl (m_path m) = fl' (m_path m)) \<Longrightarrow>
   with_files fl idx = with_files fl' idx \<and> abs_files fl idx = abs_files fl' idx"
  by (auto simp: with_files_def abs_files_def intro!: arg_cong [of _ _ concat])

lemma set_with_files: "set (with_files fl idx) = (\<lambda>(b, m). (b, m, fl (m_path m))) ` set idx"
  by (simp add: with_files_def)

lemma with_files_memD:
  assumes "(b, m) \<in> set idx"
  shows "(b, m, fl (m_path m)) \<in> set (with_files fl idx)"
  using assms by (force simp: set_with_files)

lemma with_files_memE:
  assumes "x \<in> set (with_files fl idx)"
  obtains b m where "(b, m) \<in> set idx" "x = (b, m, fl (m_path m))"
  using assms by (auto simp: set_with_files)

lemma chain_okD: "chain_ok opts L \<Longrightarrow> (b, m, d) \<in> set L \<Longrightarrow> file_ok opts b m d"
  by (force simp: chain_ok_def)

lemma chain_ok_strict: "chain_ok opts (with_files fl idx) \<Longrightarrow> strict_series idx"
proof (induction idx)
  case (Cons e idx)
  obtain b m where e: "e = (b, m)" by (cases e)
  have "b < fst x" if "x \<in> set idx" for x
    using Cons.prems that with_files_memD [of "fst x" "snd x" idx fl] by (auto simp: e file_before_def)
  then show ?case using Cons by (simp add: e strict_series_Cons)
qed (simp add: strict_series_def)

lemma pts_inv_strict: "pts_inv opts s \<Longrightarrow> strict_series (pts_index s)"
  by (auto simp: pts_inv_def intro: chain_ok_strict)

lemma abs_files_keys:
  assumes "x \<in> set (abs_files fl idx)"
  obtains b m where "(b, m) \<in> set idx" "x \<in> set (fl (m_path m))"
  using assms by (auto simp: abs_files_def)

text \<open>The whole is a series as its files are.\<close>

lemma chain_abs_inv:
  "chain_ok opts (with_files fl idx) \<Longrightarrow> ts_inv (data_options opts) (abs_files fl idx)"
proof (induction idx)
  case Nil
  show ?case by (simp add: ts_inv_def strict_series_def sorted_series_def)
next
  case (Cons e idx)
  obtain b m where e: "e = (b, m)" by (cases e)
  have "ts_inv (data_options opts) (fl (m_path m))" "ts_inv (data_options opts) (abs_files fl idx)"
    using Cons by (auto simp: e file_ok_def)
  moreover have "fst x < fst y" if x: "x \<in> set (fl (m_path m))" and y: "y \<in> set (abs_files fl idx)" for x y
  proof -
    obtain b' m' where b': "(b', m') \<in> set idx" "y \<in> set (fl (m_path m'))"
      using y by (rule abs_files_keys)
    note mem = with_files_memD [OF b'(1), of fl]
    have "fst x < b'" using Cons.prems x mem by (fastforce simp: e file_before_def)
    moreover have "b' \<le> fst y" using chain_okD [OF _ mem] Cons.prems b'(2) by (fastforce simp: e file_ok_def)
    ultimately show ?thesis by simp
  qed
  ultimately show ?case
    by (auto simp: e ts_inv_def strict_series_append sorted_series_append less_imp_le split: if_splits)
qed

lemma pts_abs_inv: "pts_inv opts s \<Longrightarrow> ts_inv (data_options opts) (pts_abs s)"
  by (simp add: pts_inv_def pts_abs_def chain_abs_inv)

section \<open>Insertion\<close>

lemma file_at_update [simp]:
  "file_at (s\<lparr>pts_files := AList.update path d (pts_files s)\<rparr>) = (file_at s)(path := d)"
  by (auto simp: file_at_def fun_eq_iff)

lemma file_at_index [simp]: "file_at (s\<lparr>pts_index := idx\<rparr>) = file_at s"
  by (simp add: file_at_def fun_eq_iff)

lemma file_at_both [simp]:
  "file_at (s\<lparr>pts_index := idx, pts_files := files\<rparr>) = file_at (s\<lparr>pts_files := files\<rparr>)"
  by (simp add: file_at_def fun_eq_iff)

lemma pts_files_present:
  assumes "pts_inv opts s" and "(b, m) \<in> set (pts_index s)"
  shows "map_of (pts_files s) (m_path m) \<noteq> None"
proof -
  have "m_path m \<in> (\<lambda>(b, m). m_path m) ` set (pts_index s)" using assms(2) by force
  then have "m_path m \<in> fst ` set (pts_files s)" using assms(1) by (simp add: pts_inv_def)
  then show ?thesis by (simp only: map_of_eq_None_iff) simp
qed

lemma pts_inv_path: "pts_inv opts s \<Longrightarrow> (b, m) \<in> set (pts_index s) \<Longrightarrow> m_path m = data_path b"
  by (auto simp: pts_inv_def file_ok_def dest!: chain_okD [OF _ with_files_memD])

text \<open>Where an insertion goes: the file that covers the timestamp, or a new one.\<close>

lemma index_insert_fresh:
  assumes "strict_series (pre @ post)" and "\<forall>x\<in>set pre. fst x < t" and "\<forall>x\<in>set post. t < fst x"
  shows "index_insert t m (pre @ post) = Inr (pre @ (t, m) # post)"
proof -
  let ?i = "ts_search (pre @ post) t"
  note sorted = strict_imp_sorted [OF assms(1)]
  note fa = ts_search_found [OF sorted, of t]
  have ne: "fst x \<noteq> t" if "x \<in> set (pre @ post)" for x using that assms(2,3) by fastforce
  have absent: "\<not> (?i < int (length (pre @ post)) \<and> fst ((pre @ post) ! nat ?i) = t)"
  proof
    assume hit: "?i < int (length (pre @ post)) \<and> fst ((pre @ post) ! nat ?i) = t"
    then have "(pre @ post) ! nat ?i \<in> set (pre @ post)"
      using found_at_nonneg [OF fa] by (intro nth_mem) auto
    then show False using ne hit by blast
  qed
  have "drop (nat ?i) (pre @ post) = filter (\<lambda>(u, v). t \<le> u) (pre @ post)"
    by (rule strict_split_at [OF assms(1) fa])
  also have "\<dots> = post"
    using assms(2,3) by (intro filter_split) auto
  finally have drop: "drop (nat ?i) (pre @ post) = post" .
  have "length (pre @ post) - nat ?i = length post"
    using arg_cong [OF drop, of length] by (simp only: length_drop)
  then have "nat ?i = length pre" using found_at_nonneg [OF fa] by auto
  moreover have "ts_find (pre @ post) t FIND_EXACT_MATCH = None"
    using absent by (auto simp: ts_find_def Let_def)
  moreover have "\<not> (nat ?i < length (pre @ post) \<and> fst ((pre @ post) ! nat ?i) = t)"
    using absent found_at_nonneg [OF fa] by auto
  ultimately show ?thesis by (auto simp: index_insert_def ts_insert_def splice_insert_def Let_def)
qed

definition add_to_file :: "int \<Rightarrow> ts_meta \<Rightarrow> ts_meta" where
  "add_to_file t m = m\<lparr>m_length := m_length m + 1, m_timestampEnd := max (m_timestampEnd m) t\<rparr>"

lemma find_before_at:
  assumes "strict_series (pre @ (b, m) # post)" and "b \<le> t" and "\<forall>x\<in>set post. t < fst x"
  shows "ts_find (pre @ (b, m) # post) t FIND_IMMEDIATELY_BEFORE = Some (int (length pre))"
proof -
  let ?idx = "pre @ (b, m) # post"
  have "\<not> (\<forall>x\<in>set ?idx. t < fst x)" using assms(2) by auto
  then obtain pre' b' m' post' where split: "?idx = pre' @ (b', m') # post'"
    and find: "ts_find ?idx t FIND_IMMEDIATELY_BEFORE = Some (int (length pre'))"
    and t: "b' \<le> t" "\<forall>x\<in>set post'. t < fst x"
    using find_before [OF assms(1), of t] by blast
  have "filter (\<lambda>(u, v). t < u) ((pre @ [(b, m)]) @ post) = post"
    using assms by (intro filter_split) (auto simp: strict_series_append strict_series_Cons)
  then have "filter (\<lambda>(u, v). t < u) ?idx = post" by simp
  moreover have "\<forall>x\<in>set pre'. fst x < b'" using assms(1) by (simp add: split strict_series_append)
  then have "filter (\<lambda>(u, v). t < u) ((pre' @ [(b', m')]) @ post') = post'"
    using t by (intro filter_split) auto
  then have "filter (\<lambda>(u, v). t < u) ?idx = post'" by (simp add: split)
  ultimately have "post' = post" by simp
  then have "length pre' = length pre" using arg_cong [OF split, of length] by simp
  then show ?thesis using find by simp
qed

lemma index_update_at:
  assumes "strict_series (pre @ (b, m) # post)" and "b \<le> t" and "\<forall>x\<in>set post. t < fst x"
  shows "index_update t (pre @ (b, m) # post) = Inr (pre @ (b, add_to_file t m) # post)"
  by (simp add: index_update_def add_to_file_def find_before_at [OF assms])

lemma ts_insert_keys: "fst ` set (ts_insert opts t v d) = insert t (fst ` set d)"
proof (cases "unique opts \<and> nat (ts_search d t) < length d \<and> fst (d ! nat (ts_search d t)) = t")
  case True
  define i where "i = nat (ts_search d t)"
  have i: "i < length d" "fst (d ! i) = t" using True by (auto simp: i_def)
  have "ts_insert opts t v d = d[i := (t, uniqueMerge opts (snd (d ! i)) v t)]"
    using True by (simp add: ts_insert_def i_def Let_def)
  then have "map fst (ts_insert opts t v d) = map fst d" using i by (simp only: series_update_value)
  then have "fst ` set (ts_insert opts t v d) = fst ` set d" by (metis set_map)
  moreover have "t \<in> fst ` set d" using i by (metis image_eqI nth_mem)
  ultimately show ?thesis by blast
next
  case False
  then show ?thesis by (auto simp: ts_insert_def Let_def)
qed

lemma pts_insert_existing:
  assumes inv: "pts_inv opts s" and idx: "pts_index s = pre @ (b, m) # post"
    and t: "b \<le> t" "\<forall>x\<in>set post. t < fst x"
    and room: "\<not> (m_length m \<ge> maxEntriesPerFile opts \<and> m_timestampEnd m < t)"
    and find: "ts_find (pts_index s) t FIND_IMMEDIATELY_BEFORE = Some (int (length pre))"
  shows "pts_insert opts t v s =
    Inr (s\<lparr>pts_files := AList.update (m_path m)
             (ts_insert (data_options opts) t v (file_at s (m_path m))) (pts_files s),
           pts_index := pre @ (b, add_to_file t m) # post\<rparr>)"
proof -
  have "getMetadata opts t True FIND_IMMEDIATELY_BEFORE s = Inr (s, b, m_path m)"
    using room find by (auto simp: getMetadata_def idx Let_def)
  moreover have "map_of (pts_files s) (m_path m) \<noteq> None" using pts_files_present [OF inv] idx by auto
  moreover have "strict_series (pre @ (b, m) # post)" using pts_inv_strict [OF inv] idx by simp
  note index_update_at [OF this t]
  ultimately show ?thesis
    by (simp add: pts_insert_def getPersistenceByTimestamp_def idx Let_def del: not_None_eq)
qed

lemma pts_insert_new:
  assumes inv: "pts_inv opts s" and idx: "pts_index s = pre @ post"
    and t: "\<forall>x\<in>set pre. fst x < t" "\<forall>x\<in>set post. t < fst x"
    and create: "getMetadata opts t True FIND_IMMEDIATELY_BEFORE s =
      outcome_bind (createIndexEntry t s) (\<lambda>(s', metadata). Inr (s', t, m_path metadata))"
  shows "\<exists>files. pts_insert opts t v s =
    Inr (s\<lparr>pts_files := files,
           pts_index := pre @ (t, add_to_file t \<lparr>m_length = 0, m_path = data_path t, m_timestampEnd = 0\<rparr>) # post\<rparr>) \<and>
    fst ` set files = insert (data_path t) (fst ` set (pts_files s)) \<and>
    (\<forall>path. map_of files path = (if path = data_path t then Some [(t, v)] else map_of (pts_files s) path))"
proof -
  let ?m = "\<lparr>m_length = 0, m_path = data_path t, m_timestampEnd = 0\<rparr>"
  have strict: "strict_series (pre @ post)" using pts_inv_strict [OF inv] idx by simp
  have strict': "strict_series (pre @ (t, ?m) # post)"
    using strict t by (auto simp: strict_series_append strict_series_Cons)
  have "data_path t \<notin> fst ` set (pts_files s)"
  proof
    assume "data_path t \<in> fst ` set (pts_files s)"
    then obtain b m where "(b, m) \<in> set (pts_index s)" "m_path m = data_path t"
      using inv by (auto simp: pts_inv_def)
    then have "b = t" using pts_inv_path [OF inv] data_path_inj by metis
    then show False using \<open>(b, m) \<in> set (pts_index s)\<close> t idx by auto
  qed
  then have fresh: "map_of (pts_files s) (data_path t) = None" by (simp add: map_of_eq_None_iff)
  have "getMetadata opts t True FIND_IMMEDIATELY_BEFORE s =
      Inr (s\<lparr>pts_index := pre @ (t, ?m) # post\<rparr>, t, data_path t)"
    using index_insert_fresh [OF strict t] by (simp add: create createIndexEntry_def idx Let_def)
  moreover note index_update_at [OF strict' order_refl t(2)]
  moreover have "ts_insert (data_options opts) t v [] = [(t, v)]"
    by (simp add: ts_insert_def splice_insert_def ts_search_def ts_find_loop.simps)
  moreover have "file_at (s\<lparr>pts_index := idx', pts_files := AList.update (data_path t) [] (pts_files s)\<rparr>)
      (data_path t) = []" for idx'
    by (simp add: file_at_def)
  ultimately have "pts_insert opts t v s =
    Inr (s\<lparr>pts_files := AList.update (data_path t) [(t, v)] (AList.update (data_path t) [] (pts_files s)),
           pts_index := pre @ (t, add_to_file t ?m) # post\<rparr>)"
    by (simp add: pts_insert_def getPersistenceByTimestamp_def fresh Let_def)
  then show ?thesis
    by (intro exI conjI) (auto simp: dom_update [symmetric] dom_map_of_conv_image_fst [symmetric])
qed


lemma with_files_upd:
  assumes "\<And>b m. (b, m) \<in> set idx \<Longrightarrow> m_path m \<noteq> path"
  shows "with_files (fl(path := d)) idx = with_files fl idx"
    and "abs_files (fl(path := d)) idx = abs_files fl idx"
  using assms with_files_cong [of idx "fl(path := d)" fl] by (auto simp: fun_upd_def)

lemma ts_insert_nonempty: "ts_insert opts t v d \<noteq> []"
  using ts_insert_keys [of opts t v d] by auto

text \<open>
  An insertion keeps the invariant, and changes one file, whose neighbours are all earlier or later than
  the timestamp.
\<close>

definition insert_result :: "'a pts_options \<Rightarrow> int \<Rightarrow> 'a \<Rightarrow> 'a pts \<Rightarrow> 'a pts \<Rightarrow> bool" where
  "insert_result opts t v s s' =
     (pts_inv opts s' \<and> (\<exists>A F B. pts_abs s = A @ F @ B \<and>
        pts_abs s' = A @ ts_insert (data_options opts) t v F @ B \<and> ts_inv (data_options opts) F \<and>
        (\<forall>x\<in>set A. fst x < t) \<and> (\<forall>x\<in>set B. t < fst x)))"

lemma abs_files_after:
  assumes "chain_ok opts (with_files fl idx)" and "\<forall>x\<in>set idx. t < fst x"
  shows "\<forall>x\<in>set (abs_files fl idx). t < fst x"
proof
  fix x assume "x \<in> set (abs_files fl idx)"
  then obtain b m where b: "(b, m) \<in> set idx" "x \<in> set (fl (m_path m))" by (rule abs_files_keys)
  then have "b \<le> fst x" using chain_okD [OF assms(1) with_files_memD [OF b(1)]] by (simp add: file_ok_def)
  moreover have "t < b" using assms(2) b(1) by auto
  ultimately show "t < fst x" by simp
qed

lemma insert_new_result:
  assumes inv: "pts_inv opts s" and idx: "pts_index s = pre @ post"
    and t: "\<forall>x\<in>set pre. fst x < t" "\<forall>x\<in>set post. t < fst x"
    and before: "\<forall>x\<in>set (abs_files (file_at s) pre). fst x < t"
    and create: "getMetadata opts t True FIND_IMMEDIATELY_BEFORE s =
      outcome_bind (createIndexEntry t s) (\<lambda>(s', metadata). Inr (s', t, m_path metadata))"
  shows "\<exists>s'. pts_insert opts t v s = Inr s' \<and> insert_result opts t v s s'"
proof -
  let ?m = "add_to_file t \<lparr>m_length = 0, m_path = data_path t, m_timestampEnd = 0\<rparr>" and ?fl = "file_at s"
  have chain: "chain_ok opts (with_files ?fl pre @ with_files ?fl post)"
    and paths: "fst ` set (pts_files s) = (\<lambda>(b, m). m_path m) ` (set pre \<union> set post)"
    using inv by (auto simp: pts_inv_def idx)
  obtain files where ins: "pts_insert opts t v s =
      Inr (s\<lparr>pts_files := files, pts_index := pre @ (t, ?m) # post\<rparr>)"
    and keys: "fst ` set files = insert (data_path t) (fst ` set (pts_files s))"
    and look: "\<And>path. map_of files path = (if path = data_path t then Some [(t, v)] else map_of (pts_files s) path)"
    using pts_insert_new [OF inv idx t create] by blast
  define s' where "s' = s\<lparr>pts_files := files, pts_index := pre @ (t, ?m) # post\<rparr>"
  have at: "file_at s' = ?fl(data_path t := [(t, v)])"
    by (auto simp: s'_def file_at_def look fun_eq_iff)
  have other: "m_path m \<noteq> data_path t" if "(b, m) \<in> set pre \<union> set post" for b m
  proof -
    have "m_path m = data_path b" "b \<noteq> t" using that pts_inv_path [OF inv, of b m] t idx by auto
    then show ?thesis by (simp add: data_path_inj)
  qed
  have path: "m_path ?m = data_path t" and index: "pts_index s' = pre @ (t, ?m) # post"
    by (simp_all add: add_to_file_def s'_def)
  have wf: "with_files (file_at s') pre = with_files ?fl pre" "with_files (file_at s') post = with_files ?fl post"
    "abs_files (file_at s') pre = abs_files ?fl pre" "abs_files (file_at s') post = abs_files ?fl post"
    unfolding at using other by (intro with_files_upd; blast)+
  have fl: "file_at s' (m_path ?m) = [(t, v)]" by (simp only: at path fun_upd_same)
  have ok: "file_ok opts t ?m [(t, v)]"
    by (simp add: file_ok_def add_to_file_def ts_inv_def strict_series_def sorted_series_def)
  have left: "file_before x (t, ?m, [(t, v)])" if "x \<in> set (with_files ?fl pre)" for x
    using that t(1) before by (force simp: set_with_files file_before_def abs_files_def)
  have right: "file_before (t, ?m, [(t, v)]) x" if "x \<in> set (with_files ?fl post)" for x
    using that t(2) by (auto simp: set_with_files file_before_def)
  have "chain_ok opts (with_files ?fl pre @ (t, ?m, [(t, v)]) # with_files ?fl post)"
    using chain ok left right by simp
  then have "chain_ok opts (with_files (file_at s') (pts_index s'))"
    by (simp only: index with_files_simps wf fl)
  moreover have "fst ` set (pts_files s') = (\<lambda>(b, m). m_path m) ` set (pts_index s')"
    unfolding index s'_def using keys paths path by (simp add: image_Un)
  ultimately have "pts_inv opts s'" by (simp add: pts_inv_def)
  moreover have "pts_abs s' = abs_files ?fl pre @ [(t, v)] @ abs_files ?fl post"
    by (simp only: pts_abs_def index abs_files_simps wf fl)
  moreover have "ts_insert (data_options opts) t v [] = [(t, v)]"
    by (simp add: ts_insert_def splice_insert_def ts_search_def ts_find_loop.simps)
  moreover have "\<forall>x\<in>set (abs_files ?fl post). t < fst x"
    using chain by (intro abs_files_after [OF _ t(2), of opts]) simp
  moreover have "ts_inv (data_options opts) []" by (simp add: ts_inv_def strict_series_def sorted_series_def)
  ultimately have "insert_result opts t v s s'"
    unfolding insert_result_def using before
    by (intro conjI exI [of _ "abs_files ?fl pre"] exI [of _ "[]"] exI [of _ "abs_files ?fl post"])
      (simp_all add: pts_abs_def idx)
  then show ?thesis using ins by (auto simp: s'_def)
qed


lemma insert_existing_result:
  assumes inv: "pts_inv opts s" and idx: "pts_index s = pre @ (b, m) # post"
    and t: "b \<le> t" "\<forall>x\<in>set post. t < fst x"
    and room: "\<not> (m_length m \<ge> maxEntriesPerFile opts \<and> m_timestampEnd m < t)"
    and find: "ts_find (pts_index s) t FIND_IMMEDIATELY_BEFORE = Some (int (length pre))"
  shows "\<exists>s'. pts_insert opts t v s = Inr s' \<and> insert_result opts t v s s'"
proof -
  let ?fl = "file_at s"
  define F where "F = ?fl (m_path m)"
  define F' where "F' = ts_insert (data_options opts) t v F"
  define m' where "m' = add_to_file t m"
  have chain: "chain_ok opts (with_files ?fl pre @ (b, m, F) # with_files ?fl post)"
    and paths: "fst ` set (pts_files s) = (\<lambda>(b, m). m_path m) ` set (pts_index s)"
    using inv by (auto simp: pts_inv_def idx F_def)
  define s' where "s' = s\<lparr>pts_files := AList.update (m_path m) F' (pts_files s), pts_index := pre @ (b, m') # post\<rparr>"
  have ins: "pts_insert opts t v s = Inr s'"
    using pts_insert_existing [OF inv idx t room find] by (simp add: s'_def F'_def F_def m'_def)
  have index: "pts_index s' = pre @ (b, m') # post" by (simp add: s'_def)
  have at: "file_at s' = ?fl(m_path m := F')"
    by (auto simp: s'_def file_at_def fun_eq_iff)
  have other: "m_path n \<noteq> m_path m" if "(c, n) \<in> set pre \<union> set post" for c n
  proof -
    have "m_path n = data_path c" "m_path m = data_path b"
      using that pts_inv_path [OF inv, of c n] pts_inv_path [OF inv, of b m] by (auto simp: idx)
    moreover have "c \<noteq> b"
      using that pts_inv_strict [OF inv] by (auto simp: idx strict_series_append strict_series_Cons)
    ultimately show ?thesis by (simp add: data_path_inj)
  qed
  have wf: "with_files (file_at s') pre = with_files ?fl pre" "with_files (file_at s') post = with_files ?fl post"
    "abs_files (file_at s') pre = abs_files ?fl pre" "abs_files (file_at s') post = abs_files ?fl post"
    unfolding at using other by (intro with_files_upd; blast)+
  have path: "m_path m' = m_path m" and fl: "file_at s' (m_path m) = F'"
    by (simp_all add: m'_def add_to_file_def at)
  have keys: "fst ` set F' = insert t (fst ` set F)" by (simp add: F'_def ts_insert_keys)
  have F: "file_ok opts b m F" using chain by simp
  have ok: "file_ok opts b m' F'"
    unfolding file_ok_def
  proof (intro conjI)
    show "F' \<noteq> []" by (simp add: F'_def ts_insert_nonempty)
    show "ts_inv (data_options opts) F'" using F by (auto simp: F'_def file_ok_def intro: ts_insert_inv)
    show "m_path m' = data_path b" "0 \<le> m_length m'"
      using F by (auto simp: path file_ok_def m'_def add_to_file_def)
    have "b \<le> k \<and> k \<le> m_timestampEnd m'" if "k \<in> fst ` set F'" for k
      using that F t(1) unfolding keys by (fastforce simp: file_ok_def m'_def add_to_file_def max_def)
    then show "\<forall>x\<in>set F'. b \<le> fst x \<and> fst x \<le> m_timestampEnd m'" by blast
  qed
  have right: "file_before (b, m', F') x" if "x \<in> set (with_files ?fl post)" for x
  proof -
    have "file_before (b, m, F) x" using chain that by simp
    moreover have "t < fst x" using that t(2) by (auto simp: set_with_files)
    ultimately have "k < fst x" if "k \<in> fst ` set F'" for k
      using that unfolding keys by (auto simp: file_before_def)
    then show ?thesis using \<open>file_before (b, m, F) x\<close> by (auto simp: file_before_def)
  qed
  have left: "file_before x (b, m', F')" if "x \<in> set (with_files ?fl pre)" for x
    using that chain by (auto simp: file_before_def)
  have "chain_ok opts (with_files (file_at s') (pts_index s'))"
    using chain ok left right by (simp add: index wf path fl)
  moreover have "fst ` set (pts_files s') = (\<lambda>(b, m). m_path m) ` set (pts_index s')"
  proof -
    have "fst ` set (AList.update (m_path m) F' (pts_files s)) = insert (m_path m) (fst ` set (pts_files s))"
      by (simp flip: dom_map_of_conv_image_fst)
    moreover have "pts_files s' = AList.update (m_path m) F' (pts_files s)" by (simp add: s'_def)
    ultimately show ?thesis unfolding index using paths path by (simp add: idx insert_commute)
  qed
  ultimately have "pts_inv opts s'" by (simp add: pts_inv_def)
  moreover have "pts_abs s = abs_files ?fl pre @ F @ abs_files ?fl post"
    by (simp add: pts_abs_def idx F_def)
  moreover have "pts_abs s' = abs_files ?fl pre @ F' @ abs_files ?fl post"
    by (simp add: pts_abs_def index wf path fl)
  moreover have "\<forall>x\<in>set (abs_files ?fl post). t < fst x"
    using chain by (intro abs_files_after [OF _ t(2), of opts]) simp
  moreover have "\<forall>x\<in>set (abs_files ?fl pre). fst x < t"
  proof
    fix x assume "x \<in> set (abs_files ?fl pre)"
    then obtain c n where c: "(c, n) \<in> set pre" "x \<in> set (?fl (m_path n))" by (rule abs_files_keys)
    then have "file_before (c, n, ?fl (m_path n)) (b, m, F)"
      using chain with_files_memD [OF c(1), of ?fl] by simp
    then show "fst x < t" using c(2) t(1) by (force simp: file_before_def)
  qed
  moreover have "ts_inv (data_options opts) F" using F by (simp add: file_ok_def)
  ultimately have "insert_result opts t v s s'" unfolding insert_result_def F'_def by blast
  then show ?thesis using ins by blast
qed

lemma pts_insert_result:
  assumes inv: "pts_inv opts s"
  shows "\<exists>s'. pts_insert opts t v s = Inr s' \<and> insert_result opts t v s s'"
proof -
  note strict = pts_inv_strict [OF inv]
  let ?create = "outcome_bind (createIndexEntry t s) (\<lambda>(s', metadata). Inr (s', t, m_path metadata))"
  consider (found) pre b m post where "pts_index s = pre @ (b, m) # post"
      "ts_find (pts_index s) t FIND_IMMEDIATELY_BEFORE = Some (int (length pre))" "b \<le> t"
      "\<forall>x\<in>set post. t < fst x"
    | (none) "ts_find (pts_index s) t FIND_IMMEDIATELY_BEFORE = Some (-1)" "\<forall>x\<in>set (pts_index s). t < fst x"
    using find_before [OF strict, of t] by blast
  then show ?thesis
  proof cases
    case none
    have "getMetadata opts t True FIND_IMMEDIATELY_BEFORE s = ?create"
      using none(1) by (simp add: getMetadata_def Let_def)
    then show ?thesis using insert_new_result [OF inv, of "[]" "pts_index s" t v] none(2) by simp
  next
    case found
    show ?thesis
    proof (cases "m_length m \<ge> maxEntriesPerFile opts \<and> m_timestampEnd m < t")
      case False
      then show ?thesis using insert_existing_result [OF inv found(1,3,4) _ found(2)] by blast
    next
      case True
      have "getMetadata opts t True FIND_IMMEDIATELY_BEFORE s = ?create"
        using True found(1,2) by (simp add: getMetadata_def Let_def)
      moreover have chain: "chain_ok opts (with_files (file_at s) pre @ (b, m, file_at s (m_path m)) # with_files (file_at s) post)"
        using inv by (simp add: pts_inv_def found(1))
      then have F: "file_ok opts b m (file_at s (m_path m))" by simp
      then have "b < t" using True by (cases "file_at s (m_path m)") (auto simp: file_ok_def)
      then have "\<forall>x\<in>set (pre @ [(b, m)]). fst x < t"
        using strict by (fastforce simp: found(1) strict_series_append)
      moreover have "\<forall>x\<in>set (abs_files (file_at s) (pre @ [(b, m)])). fst x < t"
      proof -
        have "\<forall>x\<in>set (file_at s (m_path m)). fst x < t" using F True by (fastforce simp: file_ok_def)
        moreover have "fst x < t" if x: "x \<in> set (abs_files (file_at s) pre)" for x
        proof -
          obtain c n where c: "(c, n) \<in> set pre" "x \<in> set (file_at s (m_path n))"
            using x by (rule abs_files_keys)
          then have "file_before (c, n, file_at s (m_path n)) (b, m, file_at s (m_path m))"
            using chain with_files_memD [OF c(1), of "file_at s"] by simp
          then show ?thesis using c(2) \<open>b < t\<close> by (force simp: file_before_def)
        qed
        ultimately show ?thesis by auto
      qed
      ultimately show ?thesis
        using insert_new_result [OF inv, of "pre @ [(b, m)]" post t v] found(1,4) by simp
    qed
  qed
qed

text \<open>
  On the whole series the insertion is that of \<open>timeseries.js\<close>: with \<open>unique\<close> the update of a finite map,
  without it one more entry.
\<close>

text \<open>
  C5. Refinement. A time series split over files, whose index says where each begins and ends, behaves as one
  series: an insertion goes to the right file, or to a new one, never fails, keeps the order across the
  files, and is the insertion of the one series.
\<close>

theorem pts_insert_refines:
  assumes "pts_inv opts s"
  shows "\<exists>s'. pts_insert opts t v s = Inr s' \<and> pts_inv opts s' \<and>
    (if unique (data_options opts)
     then map_of (pts_abs s') = series_upsert (data_options opts) t v (map_of (pts_abs s))
     else mset (pts_abs s') = add_mset (t, v) (mset (pts_abs s)))"
proof -
  obtain s' A F B where s': "pts_insert opts t v s = Inr s'" "pts_inv opts s'" "pts_abs s = A @ F @ B"
    "pts_abs s' = A @ ts_insert (data_options opts) t v F @ B" "ts_inv (data_options opts) F"
    "\<forall>x\<in>set A. fst x < t" "\<forall>x\<in>set B. t < fst x"
    using pts_insert_result [OF assms, of t v] unfolding insert_result_def by blast
  have "map_of (pts_abs s') = series_upsert (data_options opts) t v (map_of (pts_abs s))"
    if u: "unique (data_options opts)"
  proof
    fix k
    have none: "map_of A t = None" "map_of B t = None" using s'(6,7) by (auto simp: map_of_eq_None_iff)
    have "strict_series F" using s'(5) u by (simp add: ts_inv_def)
    note ins = ts_insert_refines [OF u this, of t v]
    have keys: "map_of F k \<noteq> None \<Longrightarrow> k = t \<or> map_of F k = map_of F k" by simp
    show "map_of (pts_abs s') k = series_upsert (data_options opts) t v (map_of (pts_abs s)) k"
      using none by (auto simp: s'(3,4) ins series_upsert_def map_add_def split: option.splits)
  qed
  moreover have "mset (pts_abs s') = add_mset (t, v) (mset (pts_abs s))" if "\<not> unique (data_options opts)"
    using that by (simp add: s'(3,4) ts_insert_mset)
  ultimately show ?thesis using s'(1,2) by auto
qed

lemma pts_empty_inv: "pts_inv opts \<lparr>pts_index = [], pts_files = []\<rparr>"
  by (simp add: pts_inv_def)


section \<open>Iteration over the files\<close>

lemma file_okD:
  assumes "file_ok opts b m d"
  shows "d \<noteq> []" and "ts_inv (data_options opts) d" and "0 \<le> m_length m" and "x \<in> set d \<Longrightarrow> b \<le> fst x"
  using assms by (simp_all add: file_ok_def)

lemma getPersistence_found:
  assumes "pts_inv opts s" and "pts_index s = pre @ (b, m) # post"
    and "ts_find (pts_index s) t mode = Some (int (length pre))"
  shows "getPersistenceByTimestamp opts t False mode s = Inr (s, b, m_path m)"
proof -
  have "map_of (pts_files s) (m_path m) \<noteq> None" using pts_files_present [OF assms(1)] assms(2) by auto
  then show ?thesis
    using assms(2,3) by (auto simp: getPersistenceByTimestamp_def getMetadata_def Let_def)
qed

lemma getTimestamp_ends:
  assumes inv: "pts_inv opts s" and ne: "pts_abs s \<noteq> []"
  shows "pts_getTimestamp opts 0 s = Inr (s, Some (fst (hd (pts_abs s))))"
    and "pts_getTimestamp opts (-1) s = Inr (s, Some (fst (last (pts_abs s))))"
proof -
  note strict = pts_inv_strict [OF inv]
  have found: "pts_getTimestamp opts i s = Inr (s, ts_getTimestamp (file_at s (m_path m)) j)"
    if "find_by_index i (pts_index s) = Some (b, j)" "pts_index s = pre @ (b, m) # post" for i j pre b m post
  proof -
    have "ts_find (pts_index s) b FIND_IMMEDIATELY_BEFORE = Some (int (length pre))"
      using strict unfolding that(2)
      by (intro find_before_at) (auto simp: strict_series_append strict_series_Cons)
    from getPersistence_found [OF inv that(2) this] show ?thesis
      by (simp add: pts_getTimestamp_def that(1))
  qed
  have ok: "file_ok opts b m (file_at s (m_path m))" if "(b, m) \<in> set (pts_index s)" for b m
    using chain_okD [OF _ with_files_memD [OF that]] inv by (auto simp: pts_inv_def)
  obtain b m post where first: "pts_index s = (b, m) # post"
    using ne by (cases "pts_index s") (auto simp: pts_abs_def)
  show "pts_getTimestamp opts 0 s = Inr (s, Some (fst (hd (pts_abs s))))"
    using found [of 0 b 0 "[]" m post] file_okD(1,3) [OF ok [of b m]] first
    by (simp add: find_by_index_def pts_abs_def ts_getTimestamp_first)
  obtain pre b' m' where end_: "pts_index s = pre @ [(b', m')]"
    using ne by (cases "pts_index s" rule: rev_cases) (auto simp: pts_abs_def)
  show "pts_getTimestamp opts (-1) s = Inr (s, Some (fst (last (pts_abs s))))"
    using found [of "-1" b' "-1" pre m' "[]"] file_okD(1,3) [OF ok [of b' m']] end_
    by (simp add: find_by_index_def pts_abs_def ts_getTimestamp_last)
qed

definition in_range :: "int \<Rightarrow> int \<Rightarrow> int \<times> 'a \<Rightarrow> bool" where
  "in_range tStart tEnd = (\<lambda>(t, v). tStart \<le> t \<and> t \<le> tEnd)"

text \<open>One round of the loop.\<close>

lemma forEach_round:
  assumes inv: "pts_inv opts s" and u: "unique (data_options opts)"
    and idx: "pts_index s = pre @ (b, m) # post"
    and find: "ts_find (pts_index s) t (if isFirst then FIND_IMMEDIATELY_BEFORE else FIND_IMMEDIATELY_AFTER) =
      Some (int (length pre))"
  shows "pts_forEach_loop opts record_all tEnd False isFirst t s acc =
    (let d = file_at s (m_path m); acc' = acc @ filter (in_range t tEnd) d
     in if tEnd > fst (last d)
        then pts_forEach_loop opts record_all tEnd False False (fst (last d) + 1) s acc'
        else Some (Inr (s, acc')))"
proof -
  have "file_ok opts b m (file_at s (m_path m))"
    using inv by (simp add: pts_inv_def idx)
  note this = file_okD(1,2) [OF this]
  then have "strict_series (file_at s (m_path m))" "file_at s (m_path m) \<noteq> []"
    using u by (simp_all add: ts_inv_def)
  then show ?thesis
    by (subst pts_forEach_loop.simps)
      (simp add: getPersistence_found [OF inv idx find] ts_forEach_range_acc ts_getTimestamp_last
        in_range_def Let_def)
qed

lemma chain_split:
  assumes "chain_ok opts (with_files fl ((b, m) # post))" and "unique (data_options opts)"
  shows "fl (m_path m) \<noteq> []" and "\<And>x. x \<in> set (fl (m_path m)) \<Longrightarrow> b \<le> fst x \<and> fst x \<le> fst (last (fl (m_path m)))"
    and "\<And>x. x \<in> set (abs_files fl post) \<Longrightarrow> fst (last (fl (m_path m))) < fst x"
    and "\<And>x. x \<in> set post \<Longrightarrow> fst (last (fl (m_path m))) < fst x"
proof -
  have ok: "file_ok opts b m (fl (m_path m))" using assms(1) by simp
  then have strict: "strict_series (fl (m_path m))" using assms(2) file_okD(2) [OF ok] by (simp add: ts_inv_def)
  show ne: "fl (m_path m) \<noteq> []" by (rule file_okD(1) [OF ok])
  show "b \<le> fst x \<and> fst x \<le> fst (last (fl (m_path m)))" if "x \<in> set (fl (m_path m))" for x
    using file_okD(4) [OF ok that] strict_series_last [OF strict that] by simp
  show post: "fst (last (fl (m_path m))) < fst x" if "x \<in> set post" for x
  proof -
    have "file_before (b, m, fl (m_path m)) (fst x, snd x, fl (m_path (snd x)))"
      using assms(1) with_files_memD [of "fst x" "snd x" post fl] that by simp
    then show ?thesis using last_in_set [OF ne] by (simp add: file_before_def)
  qed
  show "fst (last (fl (m_path m))) < fst x" if "x \<in> set (abs_files fl post)" for x
  proof -
    have "\<forall>y\<in>set post. fst (last (fl (m_path m))) < fst y" using post by blast
    then show ?thesis using abs_files_after [of opts fl post "fst (last (fl (m_path m)))"] assms(1) that by simp
  qed
qed

lemma forEach_rest:
  assumes inv: "pts_inv opts s" and u: "unique (data_options opts)"
  shows "pts_index s = pre @ (b, m) # post \<Longrightarrow> \<forall>x\<in>set pre. fst x < t \<Longrightarrow> t \<le> b \<Longrightarrow>
    tEnd \<le> fst (last (pts_abs s)) \<Longrightarrow>
    pts_forEach_loop opts record_all tEnd False False t s acc =
      Some (Inr (s, acc @ filter (in_range t tEnd) (abs_files (file_at s) ((b, m) # post))))"
proof (induction post arbitrary: pre b m t acc)
  case Nil
  let ?d = "file_at s (m_path m)"
  have "ts_find (pts_index s) t FIND_IMMEDIATELY_AFTER = Some (int (length pre))"
    using find_after [of pre b m "[]" t] pts_inv_strict [OF inv] Nil by simp
  moreover have "file_ok opts b m ?d" using inv by (simp add: pts_inv_def Nil(1))
  then have "?d \<noteq> []" by (rule file_okD(1))
  then have "tEnd \<le> fst (last ?d)" using Nil(1,4) by (simp add: pts_abs_def)
  ultimately show ?case using forEach_round [OF inv u Nil(1), of t False] by (simp add: Let_def)
next
  case (Cons e post)
  obtain b' m' where e: "e = (b', m')" by (cases e)
  let ?d = "file_at s (m_path m)" and ?rest = "abs_files (file_at s) (e # post)"
  have find: "ts_find (pts_index s) t FIND_IMMEDIATELY_AFTER = Some (int (length pre))"
    using find_after [of pre b m "e # post" t] pts_inv_strict [OF inv] Cons.prems by simp
  note round = forEach_round [OF inv u Cons.prems(1), of t False, simplified, OF find]
  have "chain_ok opts (with_files (file_at s) ((b, m) # e # post))"
    using inv by (simp add: pts_inv_def Cons.prems(1))
  note split = chain_split [OF this u]
  show ?case
  proof (cases "tEnd > fst (last ?d)")
    case True
    have "\<forall>x\<in>set (pre @ [(b, m)]). fst x < fst (last ?d) + 1"
      using Cons.prems(2,3) split(2) [OF last_in_set [OF split(1)]] by force
    moreover have "fst (last ?d) + 1 \<le> b'" using split(4) [of e] by (simp add: e)
    ultimately have "pts_forEach_loop opts record_all tEnd False False (fst (last ?d) + 1) s acc' =
        Some (Inr (s, acc' @ filter (in_range (fst (last ?d) + 1) tEnd) ?rest))" for acc'
      using Cons.IH [of "pre @ [(b, m)]" b' m' "fst (last ?d) + 1" acc'] Cons.prems(1,4)
      by (simp add: e)
    moreover have "filter (in_range (fst (last ?d) + 1) tEnd) ?rest = filter (in_range t tEnd) ?rest"
    proof (rule filter_cong [OF refl])
      fix x assume "x \<in> set ?rest"
      then have "fst (last ?d) < fst x" by (rule split(3))
      moreover have "t \<le> fst (last ?d)" using Cons.prems(3) split(2) [OF last_in_set [OF split(1)]] by simp
      ultimately show "in_range (fst (last ?d) + 1) tEnd x = in_range t tEnd x"
        by (cases x) (auto simp: in_range_def)
    qed
    ultimately show ?thesis using True by (simp add: round Let_def)
  next
    case False
    then have "filter (in_range t tEnd) ?rest = []"
      using split(3) by (force simp: filter_empty_conv in_range_def)
    then show ?thesis using False by (simp add: round Let_def)
  qed
qed

text \<open>
  On a series without duplicates the iteration ends and visits exactly the requested range, when the
  range ends at the last timestamp at the latest.
\<close>

text \<open>
  C18. Range query over the files. With unique (integer) timestamps, a start and an end that is not after the last
  timestamp, without \<open>inclusive\<close>, and with a callback that never asks to stop, \<open>forEach\<close> comes to an end and visits
  exactly the entries whose timestamps are from the start to the end, both included, in their order, across all the
  files. (With an end after the last timestamp it throws, \<open>forEach_beyond_end\<close>.)
\<close>

theorem pts_forEach_range:
  assumes inv: "pts_inv opts s" and u: "unique (data_options opts)" and ne: "pts_abs s \<noteq> []"
    and tEnd: "tEnd \<le> fst (last (pts_abs s))"
  shows "pts_forEach opts record_all (Some tStart) (Some tEnd) False s [] =
    Some (Inr (s, filter (in_range tStart tEnd) (pts_abs s)))"
proof -
  define t where "t = max tStart (fst (hd (pts_abs s)))"
  note strict = pts_inv_strict [OF inv]
  have loop: "pts_forEach opts record_all (Some tStart) (Some tEnd) False s [] =
      pts_forEach_loop opts record_all tEnd False True t s []"
    by (simp add: pts_forEach_def getTimestamp_ends [OF inv ne] t_def Let_def)
  have whole: "strict_series (pts_abs s)" using pts_abs_inv [OF inv] u by (simp add: ts_inv_def)
  then have "fst (hd (pts_abs s)) \<le> fst x" if "x \<in> set (pts_abs s)" for x
    using that by (cases "pts_abs s") (auto simp: strict_series_Cons less_imp_le)
  then have range: "filter (in_range tStart tEnd) (pts_abs s) = filter (in_range t tEnd) (pts_abs s)"
    by (intro filter_cong) (fastforce simp: in_range_def t_def)+
  have first: "\<not> (\<forall>x\<in>set (pts_index s). t < fst x)"
  proof -
    obtain b m post where idx: "pts_index s = (b, m) # post"
      using ne by (cases "pts_index s") (auto simp: pts_abs_def)
    then have "file_ok opts b m (file_at s (m_path m))" using inv by (simp add: pts_inv_def)
    then have "b \<le> fst (hd (pts_abs s))"
      using file_okD(1) file_okD(4) [OF _ hd_in_set] by (fastforce simp: pts_abs_def idx)
    then show ?thesis by (simp add: idx t_def)
  qed
  then obtain pre b m post where idx: "pts_index s = pre @ (b, m) # post"
    and find: "ts_find (pts_index s) t FIND_IMMEDIATELY_BEFORE = Some (int (length pre))"
    and t: "b \<le> t" "\<forall>x\<in>set post. t < fst x"
    using find_before [OF strict, of t] by blast
  let ?d = "file_at s (m_path m)" and ?rest = "abs_files (file_at s) post"
  note round = forEach_round [OF inv u idx, of t True, simplified, OF find]
  have chain: "chain_ok opts (with_files (file_at s) pre @ with_files (file_at s) ((b, m) # post))"
    using inv by (simp add: pts_inv_def idx)
  then have "chain_ok opts (with_files (file_at s) ((b, m) # post))" by simp
  note split = chain_split [OF this u]
  have "fst x < t" if x: "x \<in> set (abs_files (file_at s) pre)" for x
  proof -
    obtain c n where c: "(c, n) \<in> set pre" "x \<in> set (file_at s (m_path n))"
      using x by (rule abs_files_keys)
    then have "file_before (c, n, file_at s (m_path n)) (b, m, ?d)"
      using chain with_files_memD [OF c(1), of "file_at s"] by simp
    then show ?thesis using c(2) t(1) by (force simp: file_before_def)
  qed
  then have "filter (in_range t tEnd) (abs_files (file_at s) pre) = []"
    by (force simp: filter_empty_conv in_range_def)
  then have parts: "filter (in_range t tEnd) (pts_abs s) =
      filter (in_range t tEnd) ?d @ filter (in_range t tEnd) ?rest"
    by (simp add: pts_abs_def idx)
  show ?thesis
  proof (cases "tEnd > fst (last ?d)")
    case False
    then have "filter (in_range t tEnd) ?rest = []"
      using split(3) by (force simp: filter_empty_conv in_range_def)
    then show ?thesis using False by (simp add: loop round range parts Let_def)
  next
    case True
    have "post \<noteq> []"
    proof
      assume "post = []"
      then have "last (pts_abs s) = last ?d" using split(1) by (simp add: pts_abs_def idx)
      then show False using True tEnd by simp
    qed
    then obtain b' m' post' where post: "post = (b', m') # post'" by (metis neq_Nil_conv prod.collapse)
    have "\<forall>x\<in>set (pre @ [(b, m)]). fst x < fst (last ?d) + 1"
      using strict split(2) [OF last_in_set [OF split(1)]]
      by (fastforce simp: idx strict_series_append)
    moreover have "fst (last ?d) + 1 \<le> b'" using split(4) [of "(b', m')"] by (simp add: post)
    ultimately have "pts_forEach_loop opts record_all tEnd False False (fst (last ?d) + 1) s acc' =
        Some (Inr (s, acc' @ filter (in_range (fst (last ?d) + 1) tEnd) ?rest))" for acc'
      using forEach_rest [OF inv u, of "pre @ [(b, m)]" b' m' post' "fst (last ?d) + 1" tEnd acc'] tEnd
      by (simp add: idx post)
    moreover have "filter (in_range (fst (last ?d) + 1) tEnd) ?rest = filter (in_range t tEnd) ?rest"
    proof (rule filter_cong [OF refl])
      fix x assume x: "x \<in> set ?rest"
      then have "fst (last ?d) < fst x" by (rule split(3))
      moreover have "t < fst x"
        using abs_files_after [of opts "file_at s" post t] chain t(2) x by simp
      ultimately show "in_range (fst (last ?d) + 1) tEnd x = in_range t tEnd x"
        by (cases x) (auto simp: in_range_def)
    qed
    ultimately show ?thesis using True by (simp add: loop round range parts Let_def)
  qed
qed


section \<open>What the code gets wrong\<close>

text \<open>
  \<open>getTimestamp(index)\<close> looks into the file whose length equals the index that is left, one file too
  early: with two files of one entry each, the second timestamp is \<open>null\<close>.
\<close>

definition two_files :: "string pts" where
  "two_files =
     \<lparr>pts_index = [(1, \<lparr>m_length = 1, m_path = ''1.json'', m_timestampEnd = 1\<rparr>),
                   (2, \<lparr>m_length = 1, m_path = ''2.json'', m_timestampEnd = 2\<rparr>)],
      pts_files = [(''1.json'', [(1, ''a'')]), (''2.json'', [(2, ''b'')])]\<rparr>"

definition one_per_file :: "string pts_options" where
  "one_per_file = \<lparr>data_options = \<lparr>unique = True, uniqueMerge = (\<lambda>a b t. a)\<rparr>, maxEntriesPerFile = 1\<rparr>"

lemmas pts_defs = two_files_def one_per_file_def pts_getTimestamp_def find_by_index_def
  getPersistenceByTimestamp_def getMetadata_def ts_find_def ts_search_def ts_find_loop.simps
  ts_getTimestamp_def file_at_def Let_def

lemma getTimestamp_off_by_one:
  "pts_getTimestamp one_per_file 1 two_files = Inr (two_files, None)"
  "pts_abs two_files = [(1, ''a''), (2, ''b'')]"
  by (simp_all add: pts_defs pts_abs_def)

text \<open>A range that ends after the last timestamp makes \<open>forEach\<close> throw.\<close>

text \<open>
  A range that ends after the last timestamp makes \<open>forEach\<close> throw a \<open>TypeError\<close> after the last file.
\<close>

lemma forEach_beyond_end:
  "pts_forEach one_per_file record_all (Some 1) (Some 3) False two_files [] = Some (Inl TypeErr)"
proof -
  have first: "pts_getTimestamp one_per_file 0 two_files = Inr (two_files, Some 1)"
    and last_: "pts_getTimestamp one_per_file (-1) two_files = Inr (two_files, Some 2)"
    by (simp_all add: pts_defs)
  have get: "getPersistenceByTimestamp one_per_file 1 False FIND_IMMEDIATELY_BEFORE two_files =
      Inr (two_files, 1, ''1.json'')"
    "getPersistenceByTimestamp one_per_file 2 False FIND_IMMEDIATELY_AFTER two_files =
      Inr (two_files, 2, ''2.json'')"
    "getPersistenceByTimestamp one_per_file 3 False FIND_IMMEDIATELY_AFTER two_files = Inl TypeErr"
    by (simp_all add: pts_defs)
  have data: "file_at two_files ''1.json'' = [(1, ''a'')]" "file_at two_files ''2.json'' = [(2, ''b'')]"
    by (simp_all add: pts_defs)
  show ?thesis
    by (simp add: pts_forEach_def first last_ Let_def, subst pts_forEach_loop.simps,
        simp add: get data ts_getTimestamp_def Let_def, subst pts_forEach_loop.simps,
        simp add: get data ts_getTimestamp_def Let_def, subst pts_forEach_loop.simps,
        simp add: get)
qed

text \<open>
  With \<open>unique\<close>, an insertion that is merged into an existing entry still adds one to the length in the
  index.
\<close>

lemma merged_insert_counts:
  "(case pts_insert one_per_file 2 ''c'' two_files of
      Inl e \<Rightarrow> None
    | Inr s \<Rightarrow> Some (m_length (snd (last (pts_index s))), length (file_at s ''2.json''))) = Some (2, 1)"
proof -
  have get: "getPersistenceByTimestamp one_per_file 2 True FIND_IMMEDIATELY_BEFORE two_files =
      Inr (two_files, 2, ''2.json'')"
    by (simp add: pts_defs)
  have data: "file_at two_files ''2.json'' = [(2, ''b'')]" by (simp add: pts_defs)
  have ins: "ts_insert (data_options one_per_file) 2 ''c'' [(2, ''b'')] = [(2, ''b'')]"
    by (simp add: one_per_file_def ts_insert_def ts_search_def ts_find_loop.simps)
  have upd: "index_update 2 (pts_index two_files) =
      Inr [(1, \<lparr>m_length = 1, m_path = ''1.json'', m_timestampEnd = 1\<rparr>),
           (2, \<lparr>m_length = 2, m_path = ''2.json'', m_timestampEnd = 2\<rparr>)]"
    by (simp add: two_files_def index_update_def ts_find_def ts_search_def ts_find_loop.simps Let_def)
  show ?thesis by (simp add: pts_insert_def get data ins upd Let_def)
qed

text \<open>
  A crash in the middle of a savepoint of a data file inserts the entries of the old log twice, when the
  series is not \<open>unique\<close>: the insertion is not idempotent.
\<close>

definition insert_operation :: "'a ts_options \<Rightarrow> (json \<Rightarrow> int) \<Rightarrow> (json \<Rightarrow> 'a) \<Rightarrow> 'a series operation" where
  "insert_operation opts timestamp v data args =
     (ts_insert opts (timestamp (arg args 0)) (v (arg args 1)) data, None)"

definition json_int :: "json \<Rightarrow> int" where
  "json_int v = (case v of JNum n \<Rightarrow> n | _ \<Rightarrow> 0)"

definition data_file_options :: "(json series, json series) p_options" where
  "data_file_options = \<lparr>
     p_initial = [], assignNotPersisted = (\<lambda>d. d), p_read = Inr, p_write = (\<lambda>d. d),
     operations = [(''insert'', insert_operation \<lparr>unique = False, uniqueMerge = (\<lambda>a b t. a)\<rparr> json_int (\<lambda>v. v))],
     savepointOnClose = True, maxDeltaB = 1024 * 1024, lineSize = (\<lambda>l. 1)\<rparr>"

definition savepoint_example :: "(json series, json series) pers" where
  "savepoint_example = fst (fold (p_exec data_file_options)
     [PWrite ''insert'' [JNum 1, JStr ''a''], PSavepointBegin]
     (p_make data_file_options \<lparr>dataFile = None, logs = [], tempFile = None\<rparr>, None))"

text \<open>
  A crash in the middle of a savepoint of a data file duplicates entries when timestamps are not unique: the
  lines of the old log are inserted again.
\<close>

lemma savepoint_crash_duplicates:
  "map (\<lambda>(ids, dk). snd (p_get data_file_options (p_make data_file_options dk)))
     (replace_trace (the (tempFile (p_disk savepoint_example))) (Some 1) savepoint_example) =
   [Inr [(1, JStr ''a''), (1, JStr ''a'')], Inr [(1, JStr ''a'')]]"
proof -
  have ins: "ts_insert \<lparr>unique = False, uniqueMerge = m\<rparr> 1 v [] = [(1, v)]"
    "ts_insert \<lparr>unique = False, uniqueMerge = m\<rparr> 1 v [(1, w)] = [(1, v), (1, w)]"
    for m and v w :: json
    by (simp_all add: ts_insert_def ts_search_def ts_find_loop.simps splice_insert_def)
  show ?thesis
    by (simp add: savepoint_example_def persistence_defs data_file_options_def insert_operation_def
        json_int_def ins)
qed

section \<open>Properties\<close>

text \<open>
  \<open>getTimestamp(index)\<close> is off by one at the end of a file: with two files of one entry each, the second
  timestamp is \<open>null\<close>.
\<close>

lemma getTimestamp_second_missing:
  "pts_getTimestamp one_per_file 1 two_files = Inr (two_files, None) \<and> length (pts_abs two_files) = 2"
  by (simp add: getTimestamp_off_by_one)

section \<open>Instances of the properties\<close>

lemma two_files_inv: "pts_inv one_per_file two_files"
  by (simp add: pts_inv_def two_files_def one_per_file_def with_files_def file_ok_def file_before_def file_at_def
      data_path_def int_to_string_def nat_to_string.simps digit_char_def ts_inv_def strict_series_def
      digit_chars)

lemma two_files_abs: "pts_abs two_files = [(1, ''a''), (2, ''b'')]"
  by (rule getTimestamp_off_by_one)

theorem pts_insert_refines_witness:
  "\<exists>s'. pts_insert one_per_file 3 ''c'' two_files = Inr s' \<and> map_of (pts_abs s') 3 = Some ''c''"
  using pts_insert_refines [OF two_files_inv, of 3 "''c''"] two_files_abs
  by (auto simp: one_per_file_def series_upsert_def)

theorem pts_forEach_range_witness:
  "pts_forEach one_per_file record_all (Some 1) (Some 2) False two_files [] =
     Some (Inr (two_files, [(1, ''a''), (2, ''b'')]))"
  using pts_forEach_range [OF two_files_inv, of 2 1] two_files_abs by (simp add: one_per_file_def in_range_def)

end
