(* ===== verification/Storage.thy ===== *)
theory Storage
  imports Persistence Paging
begin

text \<open>
  \<open>nodejs/db/storage/\<close>: \<open>storage.js\<close> (the interface: write access, listing by pages, walking, copy and
  move), \<open>memory.js\<close> (the file system in memory) and \<open>permissions.js\<close>.

  A directory is an object from names to entries, so the state of the store is a tree. The operations
  follow a list of names from the root. What they do is stated on the map from paths to contents. The entries
  are those of the tree: a path that names a property of \<open>Object.prototype\<close> that no entry has leads the
  code out of the tree, which is not modelled.
\<close>

section \<open>Permissions\<close>

record permissions =
  p_read_bit :: bool
  p_write_bit :: bool
  p_delete_bit :: bool
  p_list_bit :: bool
  p_executable_bit :: bool

definition permissions_makeFromString :: "string \<Rightarrow> permissions" where
  "permissions_makeFromString s =
     \<lparr>p_read_bit = CHR ''r'' \<in> set s, p_write_bit = CHR ''w'' \<in> set s, p_delete_bit = CHR ''d'' \<in> set s,
      p_list_bit = CHR ''l'' \<in> set s, p_executable_bit = CHR ''x'' \<in> set s\<rparr>"

definition permissions_encode :: "permissions \<Rightarrow> string" where
  "permissions_encode p =
     (if p_read_bit p then ''r'' else []) @ (if p_write_bit p then ''w'' else []) @
     (if p_delete_bit p then ''d'' else []) @ (if p_list_bit p then ''l'' else []) @
     (if p_executable_bit p then ''x'' else [])"

lemma permissions_roundtrip: "permissions_makeFromString (permissions_encode p) = p"
  by (cases p) (simp add: permissions_makeFromString_def permissions_encode_def)

section \<open>The tree\<close>

datatype node = File json int int | Dir "(string \<times> node) list"

definition FileNotFoundError :: exn where
  "FileNotFoundError = Raised ''FileNotFoundError''"

definition is_file :: "node \<Rightarrow> bool" where
  "is_file n = (case n of File _ _ _ \<Rightarrow> True | Dir _ \<Rightarrow> False)"

text \<open>
  The constructor: objects and arrays become directories, other values files with that content.
\<close>

fun initializeNode :: "int \<Rightarrow> json \<Rightarrow> node" where
  "initializeNode date (JObj ps) = Dir (map (\<lambda>(k, v). (k, initializeNode date v)) ps)"
| "initializeNode date (JArr xs) =
     Dir (zip (map nat_to_string [0..<length xs]) (map (initializeNode date) xs))"
| "initializeNode date v = File v date date"

text \<open>\<open>_navigateTo\<close> and \<open>_getParentNamePair\<close>.\<close>

fun navigateTo :: "string list \<Rightarrow> node \<Rightarrow> node outcome" where
  "navigateTo [] n = Inr n"
| "navigateTo (part # parts) (File c d m) = Inl PreconditionFailed"
| "navigateTo (part # parts) (Dir es) =
     (case map_of es part of None \<Rightarrow> Inl FileNotFoundError | Some n \<Rightarrow> navigateTo parts n)"

definition getParentNamePair :: "string list \<Rightarrow> node \<Rightarrow> ((string \<times> node) list \<times> string) outcome" where
  "getParentNamePair pathList root =
     (if pathList = [] then Inl PreconditionFailed
      else outcome_bind (navigateTo (butlast pathList) root)
             (\<lambda>n. case n of File _ _ _ \<Rightarrow> Inl PreconditionFailed | Dir es \<Rightarrow> Inr (es, last pathList)))"

text \<open>The assignment to a directory found by navigation.\<close>

fun change_dir :: "string list \<Rightarrow> ((string \<times> node) list \<Rightarrow> (string \<times> node) list) \<Rightarrow> node \<Rightarrow> node" where
  "change_dir [] f (Dir es) = Dir (f es)"
| "change_dir (part # parts) f (Dir es) =
     (case map_of es part of
        None \<Rightarrow> Dir es
      | Some n \<Rightarrow> Dir (AList.update part (change_dir parts f n) es))"
| "change_dir _ f (File c d m) = File c d m"

section \<open>Metadata\<close>

record metadata =
  md_name :: string
  md_type :: string
  md_size :: "nat option"
  md_created :: "int option"
  md_modified :: "int option"
  md_permissions :: string

text \<open>\<open>Path.extname(name).slice(1)\<close>: what follows the last dot of the last component, unless it starts with it.\<close>

definition extension :: "string \<Rightarrow> string" where
  "extension name =
     (let parts = filter (\<lambda>p. p \<noteq> []) (split_on CHR ''/'' name);
          b = (if parts = [] then [] else last parts);
          pieces = split_on CHR ''.'' b
      in if length pieces < 2 \<or> concat (butlast pieces) = [] then [] else last pieces)"

text \<open>
  What \<open>parent[name]\<close> can be when a page is listed: an entry of a directory, or, when the path is that
  of a file, a field of the \<open>File\<close> object.
\<close>

datatype slot = SNode node | SContent json | SDate int

definition slots :: "node \<Rightarrow> (string \<times> slot) list" where
  "slots n =
     (case n of
        Dir es \<Rightarrow> map (\<lambda>(k, m). (k, SNode m)) es
      | File c d m \<Rightarrow> [(''content'', SContent c), (''created'', SDate d), (''modified'', SDate m)])"

definition dataToMetadata :: "slot \<Rightarrow> string \<Rightarrow> metadata outcome" where
  "dataToMetadata data name =
     (let directory = Inr \<lparr>md_name = name, md_type = ''directory'', md_size = None, md_created = None,
             md_modified = None, md_permissions = permissions_encode \<lparr>p_read_bit = True, p_write_bit = True,
               p_delete_bit = True, p_list_bit = True, p_executable_bit = False\<rparr>\<rparr>
      in case data of
           SNode (File c d m) \<Rightarrow>
             Inr \<lparr>md_name = name, md_type = extension name, md_size = Some (length (to_property_key c)),
               md_created = Some d, md_modified = Some m,
               md_permissions = permissions_encode \<lparr>p_read_bit = True, p_write_bit = True,
                 p_delete_bit = True, p_list_bit = False, p_executable_bit = False\<rparr>\<rparr>
         | SNode (Dir es) \<Rightarrow> directory
         | SDate _ \<Rightarrow> directory
         | SContent v \<Rightarrow> if is_typeof_object v \<and> v \<noteq> JNull then directory else Inl PreconditionFailed)"

section \<open>The operations\<close>

definition st_is :: "string list \<Rightarrow> node \<Rightarrow> bool outcome" where
  "st_is path root =
     (if path = [] then Inr True
      else case getParentNamePair path root of
             Inr (es, name) \<Rightarrow> Inr (map_of es name \<noteq> None)
           | Inl e \<Rightarrow> if e = FileNotFoundError then Inr False else Inl e)"

definition st_list :: "string list \<Rightarrow> nat + paging \<Rightarrow> node \<Rightarrow> string list collection_paging outcome" where
  "st_list path maxOrPaging root =
     outcome_bind (navigateTo path root)
       (\<lambda>n. makeFromList (map fst (slots n)) maxOrPaging (\<lambda>name. Inr name))"

definition st_listMetadata :: "string list \<Rightarrow> nat + paging \<Rightarrow> node \<Rightarrow>
    metadata list collection_paging outcome" where
  "st_listMetadata path maxOrPaging root =
     outcome_bind (navigateTo path root)
       (\<lambda>n. makeFromList (map fst (slots n)) maxOrPaging
              (\<lambda>name. case map_of (slots n) name of
                        None \<Rightarrow> Inl PreconditionFailed
                      | Some data \<Rightarrow> dataToMetadata data name))"

definition st_metadata :: "string list \<Rightarrow> node \<Rightarrow> metadata outcome" where
  "st_metadata path root =
     outcome_bind (navigateTo path root)
       (\<lambda>n. dataToMetadata (SNode n) (if path = [] then [] else last path))"

definition st_read :: "string list \<Rightarrow> node \<Rightarrow> json outcome" where
  "st_read path root =
     outcome_bind (getParentNamePair path root)
       (\<lambda>(es, name). case map_of es name of
          None \<Rightarrow> Inl FileNotFoundError
        | Some (File c d m) \<Rightarrow> Inr c
        | Some (Dir _) \<Rightarrow> Inl PreconditionFailed)"

definition st_writeImpl :: "int \<Rightarrow> string list \<Rightarrow> string \<Rightarrow> node \<Rightarrow> node outcome" where
  "st_writeImpl now path content root =
     outcome_bind (getParentNamePair path root)
       (\<lambda>(es, name). case map_of es name of
          Some (Dir _) \<Rightarrow> Inl PreconditionFailed
        | Some (File c d m) \<Rightarrow>
            Inr (change_dir (butlast path) (AList.update name (File (JStr content) d now)) root)
        | None \<Rightarrow>
            Inr (change_dir (butlast path) (AList.update name (File (JStr content) now now)) root))"

fun st_mkdirImpl :: "string list \<Rightarrow> node \<Rightarrow> node outcome" where
  "st_mkdirImpl [] n = Inr n"
| "st_mkdirImpl (part # parts) (File c d m) = Inl PreconditionFailed"
| "st_mkdirImpl (part # parts) (Dir es) =
     (case (case map_of es part of None \<Rightarrow> Dir [] | Some n \<Rightarrow> n) of
        File c d m \<Rightarrow> Inl PreconditionFailed
      | Dir es' \<Rightarrow> outcome_bind (st_mkdirImpl parts (Dir es'))
                     (\<lambda>n'. Inr (Dir (AList.update part n' es))))"

definition st_deleteImpl :: "string list \<Rightarrow> node \<Rightarrow> node outcome" where
  "st_deleteImpl path root =
     outcome_bind (getParentNamePair path root)
       (\<lambda>(es, name). Inr (change_dir (butlast path) (AList.delete name) root))"

text \<open>The interface: the operations that write need write access.\<close>

definition st_mkdir :: "bool \<Rightarrow> string list \<Rightarrow> node \<Rightarrow> node outcome" where
  "st_mkdir writeAccess path root =
     (if writeAccess then st_mkdirImpl path root else Inl AssertFailed)"

definition st_write :: "bool \<Rightarrow> int \<Rightarrow> string list \<Rightarrow> string \<Rightarrow> bool \<Rightarrow> node \<Rightarrow> node outcome" where
  "st_write writeAccess now path content mkdir root =
     (if \<not> writeAccess then Inl AssertFailed
      else outcome_bind (if mkdir then st_mkdir writeAccess (butlast path) root else Inr root)
             (st_writeImpl now path content))"

definition st_delete :: "bool \<Rightarrow> string list \<Rightarrow> node \<Rightarrow> node outcome" where
  "st_delete writeAccess path root =
     (if writeAccess then st_deleteImpl path root else Inl AssertFailed)"

definition st_tryDelete :: "bool \<Rightarrow> string list \<Rightarrow> node \<Rightarrow> node \<times> bool outcome" where
  "st_tryDelete writeAccess path root =
     (case st_delete writeAccess path root of
        Inr root' \<Rightarrow> (root', Inr True)
      | Inl e \<Rightarrow> (root, if e = FileNotFoundError then Inr False else Inl e))"

definition st_copy :: "bool \<Rightarrow> int \<Rightarrow> string list \<Rightarrow> string list \<Rightarrow> bool \<Rightarrow> node \<Rightarrow> node outcome" where
  "st_copy writeAccess now source destination mkdir root =
     outcome_bind (st_read source root)
       (\<lambda>c. st_write writeAccess now destination (to_property_key c) mkdir root)"

definition st_move :: "bool \<Rightarrow> int \<Rightarrow> string list \<Rightarrow> string list \<Rightarrow> bool \<Rightarrow> node \<Rightarrow> node outcome" where
  "st_move writeAccess now source destination mkdir root =
     outcome_bind (st_copy writeAccess now source destination mkdir root)
       (st_delete writeAccess source)"

text \<open>\<open>listAll\<close> and \<open>walk\<close> iterate over the pages; the first page that fails ends the iteration.\<close>

partial_function (option) iterate_pages :: "(paging \<Rightarrow> 'a list collection_paging outcome) \<Rightarrow> paging \<Rightarrow>
    'a list outcome option" where
  "iterate_pages generator p =
     (case generator p of
        Inl e \<Rightarrow> Some (Inl e)
      | Inr (items, None) \<Rightarrow> Some (Inr items)
      | Inr (items, Some p') \<Rightarrow>
          Option.bind (iterate_pages generator p')
            (\<lambda>r. Some (outcome_bind r (\<lambda>rest. Inr (items @ rest)))))"

definition st_listAll :: "string list \<Rightarrow> nat + paging \<Rightarrow> node \<Rightarrow> string list outcome option" where
  "st_listAll path maxOrPaging root =
     iterate_pages (\<lambda>p. st_list path (Inr p) root) (pagingFromParam maxOrPaging)"

text \<open>
  A path is a string or an array of names. \<open>walk\<close> lists under \<open>pathAsArray\<close>, but delivers \<open>path\<close>, and
  goes on with \<open>[...path, entry.name]\<close>, which of a string are its characters. An error ends the walk: what was
  delivered before it is not part of the outcome here.
\<close>

datatype path_arg = PathStr string | PathList "string list"

definition pathAsArray :: "path_arg \<Rightarrow> string list" where
  "pathAsArray path = (case path of PathStr s \<Rightarrow> [s] | PathList names \<Rightarrow> names)"

definition path_spread :: "path_arg \<Rightarrow> string list" where
  "path_spread path = (case path of PathStr s \<Rightarrow> map (\<lambda>c. [c]) s | PathList names \<Rightarrow> names)"

fun walk_entries :: "(string \<Rightarrow> (path_arg \<times> string) list outcome option) \<Rightarrow> path_arg \<Rightarrow>
    metadata list \<Rightarrow> (path_arg \<times> string) list outcome option" where
  "walk_entries rec path [] = Some (Inr [])"
| "walk_entries rec path (entry # entries) =
     Option.bind (if p_list_bit (permissions_makeFromString (md_permissions entry))
                  then rec (md_name entry) else Some (Inr []))
       (\<lambda>below. Option.bind (walk_entries rec path entries)
          (\<lambda>rest. Some (outcome_bind below
             (\<lambda>b. outcome_bind rest (\<lambda>r. Inr ((path, md_name entry) # b @ r))))))"

fun st_walk :: "nat \<Rightarrow> path_arg \<Rightarrow> nat + paging \<Rightarrow> node \<Rightarrow> (path_arg \<times> string) list outcome option" where
  "st_walk 0 path maxOrPaging root = None"
| "st_walk (Suc fuel) path maxOrPaging root =
     (case iterate_pages (\<lambda>p. st_listMetadata (pathAsArray path) (Inr p) root) (pagingFromParam maxOrPaging) of
        None \<Rightarrow> None
      | Some (Inl e) \<Rightarrow> Some (Inl e)
      | Some (Inr entries) \<Rightarrow>
          walk_entries (\<lambda>name. st_walk fuel (PathList (path_spread path @ [name])) maxOrPaging root) path entries)"

section \<open>The map from paths to contents\<close>

definition content_at :: "node \<Rightarrow> string list \<Rightarrow> json option" where
  "content_at root path =
     (case navigateTo path root of Inr (File c d m) \<Rightarrow> Some c | _ \<Rightarrow> None)"

lemma navigateTo_snoc:
  "navigateTo (ps @ [p]) n =
     outcome_bind (navigateTo ps n)
       (\<lambda>m. case m of File _ _ _ \<Rightarrow> Inl PreconditionFailed
          | Dir es \<Rightarrow> (case map_of es p of None \<Rightarrow> Inl FileNotFoundError | Some k \<Rightarrow> Inr k))"
  by (induction ps n rule: navigateTo.induct) (auto split: option.splits node.splits)

lemma navigateTo_append:
  "navigateTo (ps @ qs) n = outcome_bind (navigateTo ps n) (navigateTo qs)"
  by (induction ps n rule: navigateTo.induct) (auto split: option.splits)

lemma getParentNamePair_Inr:
  "getParentNamePair path root = Inr (es, name) \<longleftrightarrow>
     path \<noteq> [] \<and> name = last path \<and> navigateTo (butlast path) root = Inr (Dir es)"
  by (cases "navigateTo (butlast path) root")
    (auto simp: getParentNamePair_def split: node.splits)

lemma st_read_content: "st_read path root = Inr c \<longleftrightarrow> path \<noteq> [] \<and> content_at root path = Some c"
proof (cases path rule: rev_cases)
  case Nil
  then show ?thesis by (simp add: st_read_def getParentNamePair_def)
next
  case (snoc ps p)
  then show ?thesis
    by (auto simp: st_read_def getParentNamePair_def content_at_def navigateTo_snoc outcome_bind_def
        split: sum.splits node.splits option.splits)
qed

text \<open>Where a change of a directory is seen.\<close>

lemma navigate_change_below:
  "navigateTo ps n = Inr (Dir es) \<Longrightarrow> navigateTo (ps @ qs) (change_dir ps f n) = navigateTo qs (Dir (f es))"
proof (induction ps f n rule: change_dir.induct)
  case (2 part parts f es')
  then show ?case by (auto split: option.splits)
next
  case (3 ps f c d m)
  then show ?case by (cases ps) auto
qed auto

lemma navigate_change_other:
  "\<not> prefix ps qs \<Longrightarrow> (case navigateTo qs (change_dir ps f n) of Inr (File c d m) \<Rightarrow> Some c | _ \<Rightarrow> None) =
     (case navigateTo qs n of Inr (File c d m) \<Rightarrow> Some c | _ \<Rightarrow> None)"
proof (induction ps f n arbitrary: qs rule: change_dir.induct)
  case (2 part parts f es)
  show ?case
  proof (cases qs)
    case Nil
    then show ?thesis by (auto split: option.splits)
  next
    case (Cons q qs')
    then show ?thesis using 2 by (auto split: option.splits)
  qed
qed auto

lemma content_change:
  assumes "navigateTo ps root = Inr (Dir es)"
  shows "content_at (change_dir ps f root) q =
    (if prefix ps q then content_at (Dir (f es)) (drop (length ps) q) else content_at root q)"
proof (cases "prefix ps q")
  case True
  then obtain qs where "q = ps @ qs" by (rule prefixE)
  then show ?thesis using navigate_change_below [OF assms, of qs f] by (simp add: content_at_def)
next
  case False
  then show ?thesis using navigate_change_other [OF False, of f root] by (simp add: content_at_def)
qed

lemma content_below:
  assumes "navigateTo ps root = Inr n"
  shows "content_at root (ps @ qs) = content_at n qs"
  using assms by (simp add: content_at_def navigateTo_append)

lemma content_Dir:
  "content_at (Dir es) q =
     (case q of [] \<Rightarrow> None | p # ps \<Rightarrow> (case map_of es p of None \<Rightarrow> None | Some n \<Rightarrow> content_at n ps))"
  by (cases q) (auto simp: content_at_def split: option.splits)

lemma content_File: "content_at (File c d m) q = (if q = [] then Some c else None)"
  by (cases q) (auto simp: content_at_def)

text \<open>A write sets the content of its path and nothing else.\<close>

lemma st_writeImpl_content:
  assumes "st_writeImpl now path content root = Inr root'"
  shows "content_at root' = (content_at root)(path \<mapsto> JStr content)"
proof
  fix q
  obtain es name where parent: "getParentNamePair path root = Inr (es, name)"
    using assms by (auto simp: st_writeImpl_def outcome_bind_eq_Inr)
  then have path: "path = butlast path @ [name]" and nav: "navigateTo (butlast path) root = Inr (Dir es)"
    by (auto simp: getParentNamePair_Inr)
  obtain d m where root': "root' = change_dir (butlast path) (AList.update name (File (JStr content) d m)) root"
    and old: "map_of es name = None \<or> (\<exists>c d m. map_of es name = Some (File c d m))"
    using assms by (auto simp: st_writeImpl_def parent split: option.splits node.splits)
  show "content_at root' q = ((content_at root)(path \<mapsto> JStr content)) q"
  proof (cases "prefix (butlast path) q")
    case False
    then have "q \<noteq> path" using path by (metis prefixI)
    then show ?thesis using False by (simp add: root' content_change [OF nav])
  next
    case True
    then obtain qs where q: "q = butlast path @ qs" by (rule prefixE)
    then have "q = path \<longleftrightarrow> qs = [name]" using path by (metis same_append_eq)
    then show ?thesis
      using True old by (auto simp: root' content_change [OF nav] q content_below [OF nav] content_Dir
          content_File split: list.splits option.splits)
  qed
qed

text \<open>A deletion removes the path and everything below it.\<close>

lemma st_deleteImpl_content:
  assumes "st_deleteImpl path root = Inr root'"
  shows "content_at root' q = (if prefix path q then None else content_at root q)"
proof -
  obtain es name where parent: "getParentNamePair path root = Inr (es, name)"
    and root': "root' = change_dir (butlast path) (AList.delete name) root"
    using assms by (auto simp: st_deleteImpl_def outcome_bind_eq_Inr)
  then have path: "path = butlast path @ [name]" and nav: "navigateTo (butlast path) root = Inr (Dir es)"
    by (auto simp: getParentNamePair_Inr)
  show ?thesis
  proof (cases "prefix (butlast path) q")
    case False
    then have "\<not> prefix path q" using path by (metis append_prefixD)
    then show ?thesis using False by (simp add: root' content_change [OF nav])
  next
    case True
    then obtain qs where q: "q = butlast path @ qs" by (rule prefixE)
    then have "prefix path q \<longleftrightarrow> prefix [name] qs" using path by (metis same_prefix_prefix)
    then show ?thesis
      using True by (auto simp: root' content_change [OF nav] q content_below [OF nav] content_Dir
          split: list.splits option.splits)
  qed
qed


text \<open>Creating directories changes no content; it is what \<open>write\<close> with \<open>mkdir\<close> does first.\<close>

lemma st_mkdirImpl_content: "st_mkdirImpl path root = Inr root' \<Longrightarrow> content_at root' = content_at root"
proof (induction path root arbitrary: root' rule: st_mkdirImpl.induct)
  case (3 part parts es)
  let ?n = "case map_of es part of None \<Rightarrow> Dir [] | Some n \<Rightarrow> n"
  obtain es' where dir: "?n = Dir es'"
    using 3(2) by (cases ?n) auto
  then obtain n' where n': "st_mkdirImpl parts (Dir es') = Inr n'" and root': "root' = Dir (AList.update part n' es)"
    using 3(2) by (auto simp: outcome_bind_eq_Inr)
  have IH: "content_at n' = content_at (Dir es')" using 3(1) dir n' by blast
  show ?case
  proof
    fix q
    show "content_at root' q = content_at (Dir es) q"
    proof (cases "map_of es part")
      case None
      then have "content_at n' qs = None" for qs using dir by (simp add: IH content_Dir split: list.splits)
      then show ?thesis using None by (auto simp: root' content_Dir split: list.splits)
    next
      case (Some n)
      then show ?thesis using dir by (auto simp: root' content_Dir IH split: list.splits)
    qed
  qed
qed auto

lemma st_mkdirImpl_dir: "st_mkdirImpl path root = Inr root' \<Longrightarrow> \<not> is_file root \<Longrightarrow>
  \<exists>es. navigateTo path root' = Inr (Dir es)"
proof (induction path root arbitrary: root' rule: st_mkdirImpl.induct)
  case (1 n)
  then show ?case by (cases n) (auto simp: is_file_def)
next
  case (3 part parts es)
  let ?n = "case map_of es part of None \<Rightarrow> Dir [] | Some n \<Rightarrow> n"
  obtain es' where dir: "?n = Dir es'"
    using 3(2) by (cases ?n) auto
  then obtain n' where n': "st_mkdirImpl parts (Dir es') = Inr n'" and root': "root' = Dir (AList.update part n' es)"
    using 3(2) by (auto simp: outcome_bind_eq_Inr)
  have "\<exists>es. navigateTo parts n' = Inr (Dir es)" using 3(1) dir n' by (simp add: is_file_def)
  then show ?case by (simp add: root')
qed auto

text \<open>Making a directory that is there changes nothing.\<close>

lemma update_same: "map_of es k = Some v \<Longrightarrow> AList.update k v es = es"
  by (induction es) auto

lemma st_mkdirImpl_existing: "navigateTo path root = Inr (Dir es) \<Longrightarrow> st_mkdirImpl path root = Inr root"
proof (induction path root rule: navigateTo.induct)
  case (3 part parts es')
  then obtain n where n: "map_of es' part = Some n" "navigateTo parts n = Inr (Dir es)"
    by (auto split: option.splits)
  obtain ds where "n = Dir ds" using n(2) by (cases n; cases parts) auto
  then show ?case using 3(1) n by (simp add: update_same)
qed auto

text \<open>The whole \<open>write\<close>, \<open>copy\<close> and \<open>move\<close>.\<close>

lemma st_write_content:
  assumes "st_write writeAccess now path c mkdir root = Inr root'"
  shows "content_at root' = (content_at root)(path \<mapsto> JStr c) \<and> path \<noteq> []"
proof -
  obtain root1 where "content_at root1 = content_at root" "st_writeImpl now path c root1 = Inr root'"
    using assms st_mkdirImpl_content
    by (auto simp: st_write_def st_mkdir_def outcome_bind_eq_Inr split: if_splits)
  moreover from this have "path \<noteq> []"
    by (auto simp: st_writeImpl_def outcome_bind_eq_Inr getParentNamePair_Inr)
  ultimately show ?thesis using st_writeImpl_content by metis
qed

lemma st_write_read:
  "st_write writeAccess now path c mkdir root = Inr root' \<Longrightarrow> st_read path root' = Inr (JStr c)"
  using st_write_content by (fastforce simp: st_read_content)

lemma st_write_possible:
  assumes "navigateTo (butlast path) root = Inr (Dir es)" and "path \<noteq> []"
    and "\<nexists>ds. map_of es (last path) = Some (Dir ds)"
  shows "\<exists>root'. st_write True now path c mkdir root = Inr root'"
proof -
  have "getParentNamePair path root = Inr (es, last path)" using assms by (simp add: getParentNamePair_Inr)
  then have "\<exists>root'. st_writeImpl now path c root = Inr root'"
    using assms(3) by (auto simp: st_writeImpl_def split: option.splits node.splits)
  then show ?thesis
    by (auto simp: st_write_def st_mkdir_def st_mkdirImpl_existing [OF assms(1)])
qed

lemma st_no_access:
  "st_write False now path c mkdir root = Inl AssertFailed"
  "st_delete False path root = Inl AssertFailed"
  "st_mkdir False path root = Inl AssertFailed"
  by (simp_all add: st_write_def st_delete_def st_mkdir_def)

lemma st_copy_content:
  assumes "st_copy writeAccess now source destination mkdir root = Inr root'"
  shows "\<exists>c. content_at root source = Some c \<and>
    content_at root' = (content_at root)(destination \<mapsto> JStr (to_property_key c))"
  using assms st_write_content by (fastforce simp: st_copy_def outcome_bind_eq_Inr st_read_content)

lemma content_prefix_free:
  assumes "content_at root p = Some c" and "prefix p q" and "q \<noteq> p"
  shows "content_at root q = None"
proof -
  obtain d m where "navigateTo p root = Inr (File c d m)"
    using assms(1) by (auto simp: content_at_def split: sum.splits node.splits)
  moreover obtain qs where "q = p @ qs" "qs \<noteq> []" using assms(2,3) by (auto elim: prefixE)
  ultimately show ?thesis by (simp add: content_below content_File)
qed

text \<open>
  Move. When \<open>move\<close> to another path succeeds, the destination holds the content of the source, there is
  nothing left at the source, and every other path is as before.
\<close>

lemma st_move_content:
  assumes move: "st_move writeAccess now source destination mkdir root = Inr root'"
    and "source \<noteq> destination"
  shows "\<exists>c. content_at root source = Some c \<and>
    content_at root' = (content_at root)(destination \<mapsto> JStr (to_property_key c), source := None)"
proof -
  obtain root1 where copy: "st_copy writeAccess now source destination mkdir root = Inr root1"
    and del: "st_deleteImpl source root1 = Inr root'"
    using move by (auto simp: st_move_def st_delete_def outcome_bind_eq_Inr split: if_splits)
  obtain c where c: "content_at root source = Some c"
    and root1: "content_at root1 = (content_at root)(destination \<mapsto> JStr (to_property_key c))"
    using st_copy_content [OF copy] by blast
  have source: "content_at root1 source = Some c" using c root1 assms(2) by simp
  have "content_at root' q = ((content_at root)(destination \<mapsto> JStr (to_property_key c), source := None)) q" for q
  proof (cases "q = source")
    case True
    then show ?thesis by (simp add: st_deleteImpl_content [OF del])
  next
    case False
    then have "prefix source q \<Longrightarrow> content_at root1 q = None"
      using content_prefix_free [OF source] by blast
    then show ?thesis using False by (simp add: st_deleteImpl_content [OF del] flip: root1)
  qed
  then show ?thesis using c by blast
qed

text \<open>A file moved onto itself is lost.\<close>

text \<open>
  Moving a path onto itself deletes it.
\<close>

lemma st_move_self:
  assumes "st_move writeAccess now path path mkdir root = Inr root'"
  shows "content_at root path \<noteq> None \<and> content_at root' path = None"
proof -
  obtain root1 where copy: "st_copy writeAccess now path path mkdir root = Inr root1"
    and del: "st_deleteImpl path root1 = Inr root'"
    using assms by (auto simp: st_move_def st_delete_def outcome_bind_eq_Inr split: if_splits)
  show ?thesis using st_copy_content [OF copy] by (auto simp: st_deleteImpl_content [OF del])
qed

text \<open>
  A file that does not exist, in a directory that does, is deleted without an error: \<open>tryDelete\<close> says
  \<open>true\<close>.
\<close>

lemma st_tryDelete_missing:
  assumes "getParentNamePair path root = Inr (es, name)" and "map_of es name = None"
  shows "\<exists>root'. st_tryDelete True path root = (root', Inr True) \<and> content_at root' = content_at root"
proof -
  obtain root' where del: "st_deleteImpl path root = Inr root'"
    using assms(1) by (simp add: st_deleteImpl_def)
  have path: "path = butlast path @ [name]" "navigateTo (butlast path) root = Inr (Dir es)"
    using assms(1) by (auto simp: getParentNamePair_Inr)
  have "content_at root' q = content_at root q" for q
  proof (cases "prefix path q")
    case True
    then obtain qs where q: "q = butlast path @ name # qs"
      using path(1) by (metis append.assoc append_Cons append_Nil prefixE)
    show ?thesis
      using True assms(2)
      by (simp add: st_deleteImpl_content [OF del] q content_below [OF path(2)] content_Dir)
  next
    case False
    then show ?thesis by (simp add: st_deleteImpl_content [OF del])
  qed
  then show ?thesis using del by (auto simp: st_tryDelete_def st_delete_def)
qed

section \<open>Walking\<close>

fun tree_walk :: "string list \<Rightarrow> node \<Rightarrow> (path_arg \<times> string) list" where
  "tree_walk path (File c d m) = []"
| "tree_walk path (Dir es) =
     concat (map (\<lambda>(name, n). (PathList path, name) # tree_walk (path @ [name]) n) es)"

fun height :: "node \<Rightarrow> nat" where
  "height (File c d m) = 0"
| "height (Dir es) = Suc (Max (insert 0 (set (map (\<lambda>(name, n). height n) es))))"

fun wf_node :: "node \<Rightarrow> bool" where
  "wf_node (File c d m) = True"
| "wf_node (Dir es) = (wf_map es \<and> (\<forall>(name, n)\<in>set es. wf_node n))"

lemma iterate_pages_list:
  assumes "0 < max_items p"
  shows "iterate_pages (\<lambda>p. Inr (list_page f data p)) p = Some (Inr (map f (drop (page p * max_items p) data)))"
  using assms
proof (induction "length data - page p * max_items p" arbitrary: p rule: less_induct)
  case less
  let ?n = "max_items p" and ?i = "page p * max_items p"
  show ?case
  proof (cases "?i + ?n \<ge> length data")
    case True
    then show ?thesis
      by (simp add: iterate_pages.simps [of _ p] list_page_def slice_def)
  next
    case False
    let ?p = "\<lparr>page = page p + 1, max_items = ?n\<rparr>"
    have "iterate_pages (\<lambda>p. Inr (list_page f data p)) ?p =
        Some (Inr (map f (drop (page ?p * max_items ?p) data)))"
      using False less.prems by (intro less.hyps) auto
    moreover have "drop ?i data = take ?n (drop ?i data) @ drop (?i + ?n) data"
      by (metis add.commute append_take_drop_id drop_drop)
    ultimately show ?thesis
      using False
      by (simp add: iterate_pages.simps [of _ p] list_page_def slice_def add.commute)
         (metis map_append)
  qed
qed

lemma st_listAll_complete:
  assumes "navigateTo path root = Inr (Dir es)" and "0 < n"
  shows "st_listAll path (Inl n) root = Some (Inr (map fst es))"
proof -
  have "(\<lambda>p. st_list path (Inr p) root) = (\<lambda>p. Inr (list_page (\<lambda>x. x) (map fst es) p))"
    by (auto simp: st_list_def assms(1) slots_def o_def split_def fun_eq_iff intro!: makeFromList_page)
  then show ?thesis
    using iterate_pages_list [of "\<lparr>page = 0, max_items = n\<rparr>" "\<lambda>x. x" "map fst es"] assms(2)
    by (simp add: st_listAll_def pagingFromParam_def)
qed

definition entry_metadata :: "string \<times> node \<Rightarrow> metadata" where
  "entry_metadata e =
     (case dataToMetadata (SNode (snd e)) (fst e) of Inr m \<Rightarrow> m
      | Inl _ \<Rightarrow> \<lparr>md_name = [], md_type = [], md_size = None, md_created = None, md_modified = None,
                 md_permissions = []\<rparr>)"

lemma entry_metadata_props:
  "dataToMetadata (SNode n) name = Inr (entry_metadata (name, n))"
  "md_name (entry_metadata (name, n)) = name"
  "p_list_bit (permissions_makeFromString (md_permissions (entry_metadata (name, n)))) \<longleftrightarrow> \<not> is_file n"
  by (cases n; simp add: dataToMetadata_def entry_metadata_def is_file_def permissions_roundtrip)+

lemma list_metadata:
  assumes nav: "navigateTo path root = Inr (Dir es)" and "wf_map es" and "0 < n"
  shows "iterate_pages (\<lambda>p. st_listMetadata path (Inr p) root) (pagingFromParam (Inl n)) =
    Some (Inr (map entry_metadata es))"
proof -
  have look: "map_of (map (\<lambda>(k, m). (k, SNode m)) es) = (\<lambda>k. map_option SNode (map_of es k))"
    by (simp add: map_of_map o_def)
  let ?g = "\<lambda>name. entry_metadata (name, the (map_of es name))"
  have "(\<lambda>p. st_listMetadata path (Inr p) root) = (\<lambda>p. Inr (list_page ?g (map fst es) p))"
  proof
    fix p
    have "makeFromList (map fst es) (Inr p)
        (\<lambda>name. case map_of (slots (Dir es)) name of None \<Rightarrow> Inl PreconditionFailed
           | Some data \<Rightarrow> dataToMetadata data name) = Inr (list_page ?g (map fst es) p)"
    proof (rule makeFromList_page)
      fix name assume "name \<in> set (map fst es)"
      then obtain m where "map_of es name = Some m" by (metis map_of_eq_None_iff not_None_eq set_map)
      then show "(case map_of (slots (Dir es)) name of None \<Rightarrow> Inl PreconditionFailed
           | Some data \<Rightarrow> dataToMetadata data name) = Inr (?g name)"
        by (simp add: slots_def look entry_metadata_props)
    qed
    moreover have "map fst (slots (Dir es)) = map fst es" by (simp add: slots_def split_def o_def)
    ultimately show "st_listMetadata path (Inr p) root = Inr (list_page ?g (map fst es) p)"
      by (simp add: st_listMetadata_def nav)
  qed
  moreover have "map ?g (map fst es) = map entry_metadata es"
    using assms(2) by (auto simp: map_of_is_SomeI)
  ultimately show ?thesis
    using iterate_pages_list [of "\<lparr>page = 0, max_items = n\<rparr>" ?g "map fst es"] assms(3)
    by (simp add: pagingFromParam_def)
qed

text \<open>With enough fuel for the height of the tree, \<open>walk\<close> lists every entry below the path.\<close>

lemma st_walk_complete:
  assumes "navigateTo path root = Inr n" and "\<not> is_file n" and "wf_node n" and "height n \<le> fuel" and "0 < k"
  shows "st_walk fuel (PathList path) (Inl k) root = Some (Inr (tree_walk path n))"
  using assms
proof (induction fuel arbitrary: path n)
  case 0
  then show ?case by (cases n) (auto simp: is_file_def)
next
  case (Suc fuel)
  obtain es where n: "n = Dir es" using Suc.prems(2) by (cases n) (auto simp: is_file_def)
  have below: "st_walk fuel (PathList (path @ [name])) (Inl k) root = Some (Inr (tree_walk (path @ [name]) m))"
    if "(name, m) \<in> set es" "\<not> is_file m" for name m
  proof (rule Suc.IH)
    have "map_of es name = Some m" using Suc.prems(3) that(1) by (simp add: n)
    then show "navigateTo (path @ [name]) root = Inr m" using Suc.prems(1) by (simp add: navigateTo_snoc n)
    show "wf_node m" using Suc.prems(3) that(1) by (auto simp: n)
    show "height m \<le> fuel" using Suc.prems(4) that(1) by (auto simp: n)
  qed (use that Suc.prems in auto)
  have "walk_entries (\<lambda>name. st_walk fuel (PathList (path @ [name])) (Inl k) root) (PathList path) (map entry_metadata es') =
      Some (Inr (tree_walk path (Dir es')))" if "set es' \<subseteq> set es" for es'
    using that
  proof (induction es')
    case (Cons e es')
    obtain name m where e: "e = (name, m)" by (cases e)
    show ?case
    proof (cases m)
      case (File c d l)
      then show ?thesis using Cons by (simp add: e entry_metadata_props is_file_def)
    next
      case (Dir ds)
      then show ?thesis using Cons below [of name m] by (simp add: e entry_metadata_props is_file_def)
    qed
  qed simp
  then show ?case
    using list_metadata [of path root es k] Suc.prems by (simp add: n pathAsArray_def path_spread_def)
qed

lemma tree_walk_finds:
  "wf_node n \<Longrightarrow> (q, name) \<in> set (tree_walk path n) \<longleftrightarrow>
     (\<exists>ps m. q = PathList (path @ ps) \<and> navigateTo (ps @ [name]) n = Inr m)"
proof (induction path n arbitrary: rule: tree_walk.induct)
  case (1 path c d m)
  have "navigateTo (ps @ [name]) (File c d m) \<noteq> Inr k" for ps k by (cases ps) auto
  then show ?case by auto
next
  case (2 path es)
  have IH: "(q, name) \<in> set (tree_walk (path @ [a]) n) \<longleftrightarrow>
      (\<exists>ps m. q = PathList (path @ a # ps) \<and> navigateTo (ps @ [name]) n = Inr m)"
    if "(a, n) \<in> set es" for a n
    using 2(1) [OF that refl] 2(2) that by auto
  have look: "map_of es a = Some n \<longleftrightarrow> (a, n) \<in> set es" for a n using 2(2) by simp
  have "(q, name) \<in> set (tree_walk path (Dir es)) \<longleftrightarrow>
      (\<exists>a n. (a, n) \<in> set es \<and> (q = PathList path \<and> name = a \<or> (q, name) \<in> set (tree_walk (path @ [a]) n)))"
    by auto
  also have "\<dots> \<longleftrightarrow> (\<exists>ps m. q = PathList (path @ ps) \<and> navigateTo (ps @ [name]) (Dir es) = Inr m)" (is "?L \<longleftrightarrow> ?R")
  proof
    assume ?L
    then obtain a n where mem: "(a, n) \<in> set es"
      and c: "q = PathList path \<and> name = a \<or> (q, name) \<in> set (tree_walk (path @ [a]) n)" by blast
    from c show ?R
    proof
      assume "q = PathList path \<and> name = a"
      then show ?R using mem look [of a n] by (intro exI [of _ "[]"]) simp
    next
      assume "(q, name) \<in> set (tree_walk (path @ [a]) n)"
      then obtain ps m where "q = PathList (path @ a # ps)" "navigateTo (ps @ [name]) n = Inr m" using IH [OF mem] by blast
      then show ?R using mem look [of a n] by (intro exI [of _ "a # ps"]) simp
    qed
  next
    assume ?R
    then obtain ps m where q: "q = PathList (path @ ps)" and nav: "navigateTo (ps @ [name]) (Dir es) = Inr m" by blast
    show ?L
    proof (cases ps)
      case Nil
      then show ?thesis using q nav look by (auto split: option.splits)
    next
      case (Cons a ps')
      then obtain n where "map_of es a = Some n" "navigateTo (ps' @ [name]) n = Inr m"
        using nav by (auto split: option.splits)
      then show ?thesis using IH [of a n] look [of a n] q Cons by auto
    qed
  qed
  finally show ?case .
qed

section \<open>Properties\<close>

text \<open>
  Write. A successful \<open>write\<close> changes the content of its path only, and the content is what is read; and
  it succeeds whenever the parent is a directory in which the name is not one.
\<close>

lemma st_write_correct:
  assumes "navigateTo (butlast path) root = Inr (Dir es)" and "path \<noteq> []"
    and "\<nexists>ds. map_of es (last path) = Some (Dir ds)"
  shows "\<exists>root'. st_write True now path c mkdir root = Inr root' \<and>
    content_at root' = (content_at root)(path \<mapsto> JStr c) \<and> st_read path root' = Inr (JStr c)"
  using st_write_possible [OF assms, of now c mkdir] st_write_content st_write_read by metis

text \<open>
  C34. Walk. From a directory whose path is given as an array, \<open>walk\<close> comes to an end, whatever the size of
  the pages, and delivers exactly the entries below it, each with the path of its directory as an array.
\<close>

theorem st_walk_finds:
  assumes "navigateTo path root = Inr n" and "\<not> is_file n" and "wf_node n" and "height n \<le> fuel" and "0 < k"
  shows "\<exists>entries. st_walk fuel (PathList path) (Inl k) root = Some (Inr entries) \<and>
    (\<forall>q name. (q, name) \<in> set entries \<longleftrightarrow>
       (\<exists>ps m. q = PathList (path @ ps) \<and> navigateTo (ps @ [name]) n = Inr m))"
  using st_walk_complete [OF assms] tree_walk_finds [OF assms(3)] by auto

text \<open>
  A path given as a string is only good for a directory without directories (or with a name of one character):
  the entries carry the string, and below it the walk looks for its characters.
\<close>

lemma list_metadata_error:
  "navigateTo path root = Inl e \<Longrightarrow>
   iterate_pages (\<lambda>p. st_listMetadata path (Inr p) root) p = Some (Inl e)"
  by (simp add: iterate_pages.simps [of _ p] st_listMetadata_def)

lemma walk_string_path:
  "st_walk 3 (PathStr ''ab'') (Inl 5) (Dir [(''ab'', Dir [(''f'', File JNull 0 0)])]) =
     Some (Inr [(PathStr ''ab'', ''f'')])"
  "st_walk 3 (PathStr ''ab'') (Inl 5) (Dir [(''ab'', Dir [(''d'', Dir [(''f'', File JNull 0 0)])])]) =
     Some (Inl FileNotFoundError)"
  "st_walk 3 (PathList [''ab'']) (Inl 5) (Dir [(''ab'', Dir [(''d'', Dir [(''f'', File JNull 0 0)])])]) =
     Some (Inr [(PathList [''ab''], ''d''), (PathList [''ab'', ''d''], ''f'')])"
  by (simp_all add: eval_nat_numeral pathAsArray_def path_spread_def list_metadata list_metadata_error entry_metadata_props is_file_def)

text \<open>
  Permissions. Encoding a set of permissions as a string and parsing it gives the same permissions.
\<close>

lemma permissions_encode_parse: "permissions_makeFromString (permissions_encode p) = p"
  by (rule permissions_roundtrip)

section \<open>Instances of the properties\<close>

definition sample_root :: node where
  "sample_root = Dir [(''d'', Dir [(''f'', File (JStr ''x'') 0 0)])]"

theorem st_write_correct_witness:
  "\<exists>root'. st_write True 5 [''d'', ''g''] ''y'' False sample_root = Inr root' \<and>
     st_read [''d'', ''g''] root' = Inr (JStr ''y'')"
  using st_write_correct [of "[''d'', ''g'']" sample_root "[(''f'', File (JStr ''x'') 0 0)]" 5 "''y''" False]
  by (auto simp: sample_root_def)

lemma sample_move:
  "st_move True 5 [''d'', ''f''] [''d'', ''g''] False sample_root =
     Inr (Dir [(''d'', Dir [(''g'', File (JStr ''x'') 5 5)])])"
  "st_move True 5 [''d'', ''f''] [''d'', ''f''] False sample_root = Inr (Dir [(''d'', Dir [])])"
  by (simp_all add: sample_root_def st_move_def st_copy_def st_write_def st_writeImpl_def st_read_def
      getParentNamePair_def st_delete_def st_deleteImpl_def)

theorem st_move_content_witness:
  "content_at (Dir [(''d'', Dir [(''g'', File (JStr ''x'') 5 5)])]) [''d'', ''f''] = None"
  using st_move_content [OF sample_move(1)] by auto

theorem st_walk_finds_witness:
  "\<exists>entries. st_walk 2 (PathList []) (Inl 1) sample_root = Some (Inr entries) \<and> (PathList [''d''], ''f'') \<in> set entries"
  using st_walk_finds [of "[]" sample_root sample_root 2 1] by (auto simp: sample_root_def is_file_def)

end
