(* ===== verification/KeyMapping.thy ===== *)
theory KeyMapping
  imports Json
begin

text \<open>
  \<open>nodejs/db/data/key_mapping.js\<close>: keys are lists of segments; as the name of an entry the segments
  are joined by the character \<open>\x01\<close>, as a path by slashes.
\<close>

type_synonym key = "string list"

definition key_separator :: char where
  "key_separator = CHR 0x01"

definition keyToInternal :: "key \<Rightarrow> string" where
  "keyToInternal key = join_with [key_separator] key"

definition internalToKey :: "string \<Rightarrow> key" where
  "internalToKey internal = split_on key_separator internal"

text \<open>\<open>toString\<close> of an array joins its elements with commas.\<close>

definition keyStartsWith :: "key \<Rightarrow> key \<Rightarrow> bool" where
  "keyStartsWith key root = (join_with '','' (take (length root) key) = join_with '','' root)"

definition pathToKey :: "string \<Rightarrow> key" where
  "pathToKey path = filter (\<lambda>p. p \<noteq> []) (split_on CHR ''/'' path)"

definition pathToInternal :: "string \<Rightarrow> string" where
  "pathToInternal path = keyToInternal (pathToKey path)"

definition keyToPath :: "key \<Rightarrow> string" where
  "keyToPath key = CHR ''/'' # join_with ''/'' key"

definition internalToPath :: "string \<Rightarrow> string" where
  "internalToPath internal = keyToPath (internalToKey internal)"

text \<open>A key whose segments do not contain the separator, which is what a key of an entry must be.\<close>

definition key_ok :: "key \<Rightarrow> bool" where
  "key_ok key = (key \<noteq> [] \<and> (\<forall>s\<in>set key. key_separator \<notin> set s))"

lemma internalToKey_inverse: "key_ok key \<Longrightarrow> internalToKey (keyToInternal key) = key"
  by (simp add: key_ok_def internalToKey_def keyToInternal_def split_on_join)

lemma keyToInternal_inverse: "keyToInternal (internalToKey internal) = internal"
  by (simp add: internalToKey_def keyToInternal_def join_split_on)

lemma internalToKey_ok: "key_ok (internalToKey internal)"
  by (auto simp: key_ok_def internalToKey_def dest: split_on_pieces)

lemma keyToInternal_inj: "key_ok k \<Longrightarrow> key_ok k' \<Longrightarrow> keyToInternal k = keyToInternal k' \<Longrightarrow> k = k'"
  by (metis internalToKey_inverse)

text \<open>The empty key and the key of one empty segment have the same internal name.\<close>

lemma keyToInternal_empty: "keyToInternal [] = keyToInternal [[]]"
  by (simp add: keyToInternal_def)

lemma pathToKey_inverse:
  assumes "\<forall>s\<in>set key. s \<noteq> [] \<and> CHR ''/'' \<notin> set s"
  shows "pathToKey (keyToPath key) = key"
proof (cases "key = []")
  case False
  then have "split_on CHR ''/'' (join_with ''/'' key) = key"
    using assms by (intro split_on_join) auto
  moreover have "filter (\<lambda>p. p \<noteq> []) key = key" using assms by (simp add: filter_id_conv)
  ultimately show ?thesis by (simp add: pathToKey_def keyToPath_def)
qed (simp add: pathToKey_def keyToPath_def)

lemma pathToKey_segments: "s \<in> set (pathToKey path) \<Longrightarrow> s \<noteq> [] \<and> CHR ''/'' \<notin> set s"
  by (auto simp: pathToKey_def dest: split_on_pieces)

text \<open>\<open>keyStartsWith\<close> is the prefix relation when no segment contains a comma, and is not otherwise.\<close>

text \<open>
  Prefixes. When no segment contains a comma, \<open>keyStartsWith\<close> decides whether a key is below another, that
  is, whether the segments of the one are a prefix of the segments of the other.
\<close>

lemma keyStartsWith_prefix:
  assumes "\<forall>s\<in>set key \<union> set root. CHR '','' \<notin> set s" and "root \<noteq> [[]]"
  shows "keyStartsWith key root \<longleftrightarrow> prefix root key"
proof
  assume "keyStartsWith key root"
  then have eq: "join_with '','' (take (length root) key) = join_with '','' root"
    by (simp add: keyStartsWith_def)
  have commas: "\<forall>p\<in>set (take (length root) key) \<union> set root. CHR '','' \<notin> set p"
    using assms(1) by (auto dest: in_set_takeD)
  have "take (length root) key = root"
  proof (cases "take (length root) key = []")
    case True
    have "join_with '','' root = []" using eq unfolding True by simp
    then have "root = [] \<or> root = [[]]" by (cases "('','', root)" rule: join_with.cases) auto
    then show ?thesis using True assms(2) by auto
  next
    case False
    have "root \<noteq> []" using False by auto
    have "split_on CHR '','' (join_with '','' (take (length root) key)) = take (length root) key"
      using False commas by (intro split_on_join) auto
    moreover have "split_on CHR '','' (join_with '','' root) = root"
      using \<open>root \<noteq> []\<close> commas by (intro split_on_join) auto
    ultimately show ?thesis using eq by simp
  qed
  then show "prefix root key" by (metis take_is_prefix)
next
  assume "prefix root key"
  then show "keyStartsWith key root" by (auto simp: keyStartsWith_def elim: prefixE)
qed

lemma keyStartsWith_comma: "keyStartsWith [''a,b''] [''a'', ''b'']"
  by (simp add: keyStartsWith_def)

section \<open>Properties\<close>

text \<open>
  Round trips. A key with no separator in its segments is recovered from its internal form, and a key
  whose segments are not empty and have no slash from its path.
\<close>

lemma key_roundtrips:
  "(key_ok key \<longrightarrow> internalToKey (keyToInternal key) = key) \<and>
   ((\<forall>s\<in>set key. s \<noteq> [] \<and> CHR ''/'' \<notin> set s) \<longrightarrow> pathToKey (keyToPath key) = key) \<and>
   keyToInternal (internalToKey internal) = internal"
  using internalToKey_inverse pathToKey_inverse keyToInternal_inverse by blast

section \<open>Instances of the properties\<close>

lemma keyStartsWith_prefix_witness:
  "keyStartsWith [''a'', ''b'', ''c''] [''a'', ''b''] \<and> \<not> keyStartsWith [''a'', ''bc''] [''a'', ''b'']"
  using keyStartsWith_prefix [of "[''a'', ''b'', ''c'']" "[''a'', ''b'']"]
    keyStartsWith_prefix [of "[''a'', ''bc'']" "[''a'', ''b'']"] by simp

theorem key_roundtrips_witness: "pathToKey (keyToPath [''a'', ''b'']) = [''a'', ''b'']"
  using key_roundtrips [of "[''a'', ''b'']" "[]"] by simp

end
