(* ===== verification/Data.thy ===== *)
theory Data
  imports KeyMapping
begin

text \<open>
  \<open>nodejs/db/data/data.js\<close>: the structure behind the nodes. For every uid it keeps, by key, the newest
  values with their timestamps (newest first), and completes a request that reaches further back
  from an external source, which is a parameter. Keys form a tree, which \<open>getKeys_\<close> explores.

  The callbacks \<open>onCreateUid\<close> and \<open>onCreateKey\<close>, which may change the metadata (the tags) of a uid, are
  the record \<open>data_options\<close>. The tree is cached by \<open>Cache2\<close> under its uid and marked dirty whenever a key
  is created, so it is the tree of the keys stored. Fractions that \<open>Math.round\<close> rounds are exact here.
\<close>

section \<open>State\<close>

datatype expires_type = ExpiresAuto | ExpiresManual

type_synonym 'v samples = "(int \<times> 'v) list"

record 'v datum =
  expiresType :: expires_type
  expires :: int
  d_unit :: string
  d_values :: "'v samples"

record 'v uid_data =
  tags :: "string set"
  u_data :: "(string \<times> 'v datum) list"

type_synonym 'v storage = "(string \<times> 'v uid_data) list"

record data_options =
  onCreateUid :: "string \<Rightarrow> string set \<Rightarrow> string set"
  onCreateKey :: "string \<Rightarrow> key \<Rightarrow> string set \<Rightarrow> string set"

definition new_datum :: "'v datum" where
  "new_datum = \<lparr>expiresType = ExpiresAuto, expires = 60, d_unit = [], d_values = []\<rparr>"

definition getEntries :: "string list \<Rightarrow> 'v storage \<Rightarrow> (string \<times> string set) list" where
  "getEntries wanted s =
     map (\<lambda>(uid, u). (uid, tags u))
       (filter (\<lambda>(uid, u). if wanted \<noteq> [] then \<exists>tag\<in>set wanted. tag \<in> tags u else True) s)"

text \<open>\<open>getDataInternal_\<close>: the storage in which the entry exists, and the entry.\<close>

definition getDataInternal :: "data_options \<Rightarrow> string \<Rightarrow> key \<Rightarrow> string \<Rightarrow> 'v storage \<Rightarrow>
    'v storage \<times> 'v datum" where
  "getDataInternal opts uid key internal s =
     (let s1 = (case map_of s uid of
                  None \<Rightarrow> AList.update uid \<lparr>tags = onCreateUid opts uid {}, u_data = []\<rparr> s
                | Some _ \<Rightarrow> s);
          u = the (map_of s1 uid)
      in case map_of (u_data u) internal of
           Some d \<Rightarrow> (s1, d)
         | None \<Rightarrow>
             (AList.update uid
                \<lparr>tags = onCreateKey opts uid key (tags u), u_data = AList.update internal new_datum (u_data u)\<rparr> s1,
              new_datum))"

definition put_datum :: "string \<Rightarrow> string \<Rightarrow> 'v datum \<Rightarrow> 'v storage \<Rightarrow> 'v storage" where
  "put_datum uid internal d s =
     (case map_of s uid of
        None \<Rightarrow> s
      | Some u \<Rightarrow> AList.update uid (u\<lparr>u_data := AList.update internal d (u_data u)\<rparr>) s)"

section \<open>Insertion\<close>

text \<open>
  The options of a fragment: the length of the history, and an expiry that is a number (0 is none) or
  another truthy value.
\<close>

datatype expires_option = ExpiresNone | ExpiresNumber int | ExpiresOther

record fragment_options =
  history :: nat
  f_expires :: expires_option
  f_unit :: string

definition default_fragment_options :: fragment_options where
  "default_fragment_options = \<lparr>history = 10, f_expires = ExpiresNone, f_unit = []\<rparr>"

type_synonym 'v fragment = "key \<times> 'v \<times> fragment_options"

text \<open>\<open>Math.round(n / d)\<close>, and the estimated expiry, at least one second.\<close>

definition round_div :: "int \<Rightarrow> int \<Rightarrow> int" where
  "round_div n d = (2 * n + d) div (2 * d)"

definition or_one :: "int \<Rightarrow> int" where
  "or_one n = (if n = 0 then 1 else n)"

definition expires_estimate :: "int \<Rightarrow> int \<Rightarrow> int \<Rightarrow> int" where
  "expires_estimate old timestamp newest =
     or_one (round_div (4000 * old + 18 * (timestamp - newest)) 10000)"

definition insert_value :: "int \<Rightarrow> 'v \<Rightarrow> fragment_options \<Rightarrow> 'v datum \<Rightarrow> 'v datum" where
  "insert_value timestamp v config d =
     (let newest = (case d_values d of [] \<Rightarrow> None | (t, _) # _ \<Rightarrow> Some t);
          older = (case newest of None \<Rightarrow> False | Some t \<Rightarrow> t > timestamp);
          found = find_index (\<lambda>(t, _). t \<le> timestamp) (d_values d);
          index = (if older then (if found = -1 then length (d_values d) else nat found) else 0);
          d1 = (case newest of
                  Some t \<Rightarrow>
                    if \<not> older \<and> expiresType d = ExpiresAuto
                    then d\<lparr>expires := expires_estimate (expires d) timestamp t\<rparr> else d
                | None \<Rightarrow> d);
          d2 = d1\<lparr>d_values := take (history config) (splice_insert index (timestamp, v) (d_values d1))\<rparr>;
          d3 = (if f_unit config \<noteq> [] then d2\<lparr>d_unit := f_unit config\<rparr> else d2)
      in case f_expires config of
           ExpiresNone \<Rightarrow> d3
         | ExpiresNumber n \<Rightarrow>
             if n = 0 then d3 else d3\<lparr>expiresType := ExpiresManual, expires := n\<rparr>
         | ExpiresOther \<Rightarrow> d3\<lparr>expiresType := ExpiresAuto\<rparr>)"

definition insert_fragment :: "data_options \<Rightarrow> string \<Rightarrow> int \<Rightarrow> 'v fragment \<Rightarrow> 'v storage \<Rightarrow> 'v storage" where
  "insert_fragment opts uid timestamp fragment s =
     (case fragment of
        (key, v, config) \<Rightarrow>
          let (s1, d) = getDataInternal opts uid key (keyToInternal key) s
          in put_datum uid (keyToInternal key) (insert_value timestamp v config d) s1)"

definition data_insert :: "data_options \<Rightarrow> string \<Rightarrow> 'v fragment list \<Rightarrow> int \<Rightarrow> 'v storage \<Rightarrow>
    'v storage \<times> int" where
  "data_insert opts uid fragments timestamp s =
     (fold (insert_fragment opts uid timestamp) fragments s, timestamp)"

section \<open>The tree of keys\<close>

text \<open>
  A node is an object from segments to nodes; the special key \<open>\x01\<close> has the entry of the node
  itself. A segment is never the special key, because keys are split at it.
\<close>

datatype tree = TLeaf string key | TNode "(string \<times> tree) list"

type_synonym nodes = "(string \<times> tree) list"

definition special_key :: string where
  "special_key = [key_separator]"

definition node_at :: "nodes \<Rightarrow> string \<Rightarrow> nodes" where
  "node_at kids segment = (case map_of kids segment of Some (TNode v) \<Rightarrow> v | _ \<Rightarrow> [])"

fun tree_add :: "key \<Rightarrow> tree \<Rightarrow> nodes \<Rightarrow> nodes" where
  "tree_add [] leaf kids = AList.update special_key leaf kids"
| "tree_add (segment # rest) leaf kids =
     AList.update segment (TNode (tree_add rest leaf (node_at kids segment))) kids"

definition tree_of :: "string \<Rightarrow> 'v storage \<Rightarrow> nodes" where
  "tree_of uid s =
     (case map_of s uid of
        None \<Rightarrow> []
      | Some u \<Rightarrow>
          fold (\<lambda>(internal, _) tree.
                  tree_add (internalToKey internal) (TLeaf internal (internalToKey internal)) tree)
            (u_data u) [])"

fun tree_at :: "key \<Rightarrow> nodes \<Rightarrow> nodes option" where
  "tree_at [] kids = Some kids"
| "tree_at (segment # rest) kids =
     (if segment = special_key then None
      else case map_of kids segment of Some (TNode v) \<Rightarrow> tree_at rest v | _ \<Rightarrow> None)"

definition getTree :: "string \<Rightarrow> key \<Rightarrow> 'v storage \<Rightarrow> nodes option" where
  "getTree uid key s = tree_at key (tree_of uid s)"

record child =
  c_key :: key
  c_leaf :: bool
  c_internal :: "string option"

fun treeToKeys :: "bool \<Rightarrow> nat \<Rightarrow> nodes \<Rightarrow> key \<Rightarrow> child list" where
  "treeToKeys includeInner 0 tree key = []"
| "treeToKeys includeInner (Suc children) tree key =
     concat (map (\<lambda>k.
       case map_of tree k of
         None \<Rightarrow> []
       | Some (TLeaf internal leafKey) \<Rightarrow>
           (if \<not> includeInner
            then [\<lparr>c_key = leafKey, c_leaf = True, c_internal = Some internal\<rparr>] else [])
       | Some (TNode v) \<Rightarrow>
           treeToKeys includeInner children v (key @ [k]) @
           (if includeInner
            then [\<lparr>c_key = key @ [k], c_leaf = map_of v special_key \<noteq> None,
                   c_internal = (case map_of v special_key of Some (TLeaf internal _) \<Rightarrow> Some internal
                                 | _ \<Rightarrow> None)\<rparr>]
            else []))
       (sort (map fst tree)))"

definition getKeys :: "string \<Rightarrow> key \<Rightarrow> nat \<Rightarrow> bool \<Rightarrow> 'v storage \<Rightarrow> child list option" where
  "getKeys uid key children includeInner s =
     map_option (\<lambda>tree. treeToKeys includeInner (children + 1) tree key) (getTree uid key s)"

definition getChildren :: "string \<Rightarrow> key \<Rightarrow> nat \<Rightarrow> bool \<Rightarrow> 'v storage \<Rightarrow> (key \<times> bool) list option" where
  "getChildren uid key children includeInner s =
     map_option (map (\<lambda>c. (drop (length key) (c_key c), c_leaf c))) (getKeys uid key children includeInner s)"

section \<open>Reading values\<close>

text \<open>The external source: \<open>external uid key count after before\<close>, newest values first.\<close>

type_synonym 'v external = "string \<Rightarrow> key \<Rightarrow> int \<Rightarrow> int option \<Rightarrow> int option \<Rightarrow> 'v samples option"

datatype sampling = SamplingRound | SamplingNewest | SamplingOldest | SamplingUnknown

definition sample_index :: "sampling \<Rightarrow> nat \<Rightarrow> nat \<Rightarrow> nat" where
  "sample_index sampling n d =
     (case sampling of
        SamplingNewest \<Rightarrow> n div d
      | SamplingOldest \<Rightarrow> (n + d - 1) div d
      | _ \<Rightarrow> (2 * n + d) div (2 * d))"

text \<open>
  The loop of the down-sampling: the indices \<open>0, f, 2f, ...\<close> with \<open>f = length / countLocal > 1\<close>, as
  long as they round to an index of the array.
\<close>

definition downsample :: "sampling \<Rightarrow> nat \<Rightarrow> 'a list \<Rightarrow> 'a list" where
  "downsample sampling c result =
     map (\<lambda>k. result ! sample_index sampling (k * length result) c)
       (takeWhile (\<lambda>k. sample_index SamplingRound (k * length result) c < length result)
          [0..<Suc (length result)])"

definition concat_external :: "'v samples \<Rightarrow> 'v samples option \<Rightarrow> 'v samples" where
  "concat_external result external = (case external of None \<Rightarrow> result | Some e \<Rightarrow> result @ e)"

definition get_between :: "'v external \<Rightarrow> string \<Rightarrow> key \<Rightarrow> 'v samples \<Rightarrow> int \<Rightarrow> int \<Rightarrow> int \<Rightarrow> sampling \<Rightarrow>
    'v samples outcome" where
  "get_between external uid key v count after before sampling =
     (if \<not> after < before then Inl PreconditionFailed
      else
        let start = find_index (\<lambda>d. fst d < before) v;
            last_index = find_last_index (\<lambda>d. fst d > after) v
        in if last_index = -1 then Inr []
           else if start = -1
             then Inr (case external uid key count (Some after) (Some before) of None \<Rightarrow> [] | Some e \<Rightarrow> e)
           else
             let result = slice (nat start) (nat (last_index + 1)) v
             in if last_index = int (length v) - 1
                then
                  let oldestLocal = fst (v ! nat last_index);
                      durationLocal = before - oldestLocal;
                      countLocal = or_one (round_div (count * durationLocal) (before - after));
                      countExternal = count - countLocal
                  in if countLocal < int (length result) \<and> sampling = SamplingUnknown
                     then Inl PreconditionFailed
                     else Inr (concat_external
                            (if countLocal < int (length result)
                             then downsample sampling (nat countLocal) result else result)
                            (external uid key countExternal (Some after) (Some oldestLocal)))
                else Inr result)"

definition get_after :: "'v external \<Rightarrow> string \<Rightarrow> key \<Rightarrow> 'v samples \<Rightarrow> nat \<Rightarrow> int \<Rightarrow> 'v samples" where
  "get_after external uid key v count after =
     (let last_index = find_last_index (\<lambda>d. fst d > after) v
      in if last_index = -1 then []
         else
           let result = slice (nat (max (last_index - int count + 1) 0)) (nat (last_index + 1)) v;
               merged =
                 (if last_index = int (length v) - 1
                  then (case external uid key (int count) (Some after) None of
                          Some ((newestExternal, x) # rest) \<Rightarrow>
                            take (nat (find_last_index (\<lambda>d. newestExternal < fst d) result + 1)) result @
                            (newestExternal, x) # rest
                        | _ \<Rightarrow> result)
                  else result)
           in drop (length merged - count) merged)"

definition get_before :: "'v external \<Rightarrow> string \<Rightarrow> key \<Rightarrow> 'v samples \<Rightarrow> nat \<Rightarrow> int \<Rightarrow> 'v samples" where
  "get_before external uid key v count before =
     (let start = find_index (\<lambda>d. fst d < before) v
      in if start = -1
         then (case external uid key (int count) None (Some before) of None \<Rightarrow> [] | Some e \<Rightarrow> e)
         else
           let result = slice (nat start) (nat start + count) v
           in if length result < count
              then concat_external result
                     (external uid key (int count - int (length result)) None
                        (Some (if result \<noteq> [] then fst (last result) else before)))
              else result)"

definition get_newest :: "'v external \<Rightarrow> string \<Rightarrow> key \<Rightarrow> 'v samples \<Rightarrow> nat \<Rightarrow> 'v samples" where
  "get_newest external uid key v count =
     (let result = take count v
      in if length result < count
         then concat_external result (external uid key (int count - int (length result)) None None)
         else result)"

text \<open>\<open>getWithMetadata_\<close>: \<open>None\<close> is the source's \<open>null\<close>. The count is at least 1.\<close>

definition getWithMetadata :: "'v external \<Rightarrow> string \<Rightarrow> key \<Rightarrow> 'v samples option \<Rightarrow> nat \<Rightarrow> int option \<Rightarrow>
    int option \<Rightarrow> sampling \<Rightarrow> 'v samples option outcome" where
  "getWithMetadata external uid key v count after before sampling =
     (case v of
        Some (d # ds) \<Rightarrow>
          (case (after, before) of
             (Some a, Some b) \<Rightarrow>
               outcome_bind (get_between external uid key (d # ds) (int count) a b sampling) (\<lambda>r. Inr (Some r))
           | (Some a, None) \<Rightarrow> Inr (Some (get_after external uid key (d # ds) count a))
           | (None, Some b) \<Rightarrow> Inr (Some (get_before external uid key (d # ds) count b))
           | (None, None) \<Rightarrow> Inr (Some (get_newest external uid key (d # ds) count)))
      | _ \<Rightarrow> Inr (external uid key (int count) after before))"

text \<open>
  \<open>get\<close>. A value is returned with its timestamp and, the newest one, with the expiry and the unit when
  \<open>metadata\<close> is set; otherwise the values that are not expired are returned alone. Without a count the
  first value alone is the result.
\<close>

datatype 'v item = WithMetadata int 'v "(int \<times> string) option" | Plain 'v

datatype 'v get_result =
    GetEmpty
  | GetOne "'v item"
  | GetMany "'v item list"
  | GetChildren "(key \<times> 'v item list) list"

definition valuesToResult :: "data_options \<Rightarrow> bool \<Rightarrow> int \<Rightarrow> string \<Rightarrow> key \<Rightarrow> string \<Rightarrow> 'v samples \<Rightarrow>
    'v storage \<Rightarrow> 'v storage \<times> 'v item list" where
  "valuesToResult opts metadata now uid key internal vs s =
     (let (s', d) = getDataInternal opts uid key internal s
      in (s',
          if metadata
          then (case vs of
                  [] \<Rightarrow> []
                | (t, v) # rest \<Rightarrow>
                    WithMetadata t v (Some (expires d, d_unit d)) #
                    map (\<lambda>(t, v). WithMetadata t v None) rest)
          else map (\<lambda>(t, v). Plain v) (filter (\<lambda>(t, v). t > now - expires d * 1000) vs)))"

record get_args =
  g_key :: key
  g_metadata :: bool
  g_children :: nat
  g_count :: "nat option"
  g_after :: "int option"
  g_before :: "int option"
  g_include :: "key list option"
  g_sampling :: sampling

definition get_count :: "get_args \<Rightarrow> nat" where
  "get_count args = (case g_count args of None \<Rightarrow> 1 | Some n \<Rightarrow> if n = 0 then 1 else n)"

definition stored_values :: "string \<Rightarrow> string \<Rightarrow> 'v storage \<Rightarrow> 'v samples option" where
  "stored_values uid internal s =
     (case map_of s uid of
        None \<Rightarrow> None
      | Some u \<Rightarrow> map_option d_values (map_of (u_data u) internal))"

definition included_child :: "key \<Rightarrow> key \<Rightarrow> child" where
  "included_child key relative =
     \<lparr>c_key = key @ relative, c_leaf = True, c_internal = Some (keyToInternal (key @ relative))\<rparr>"

definition requested_keys :: "string \<Rightarrow> get_args \<Rightarrow> 'v storage \<Rightarrow> child list option" where
  "requested_keys uid args s =
     (case g_include args of
        Some subKeys \<Rightarrow>
          if g_children args > 0
          then Some (concat (map (\<lambda>subKey.
                 case getKeys uid (g_key args @ subKey) (g_children args) False s of
                   None \<Rightarrow> [] | Some ks \<Rightarrow> ks) subKeys))
          else Some (map (included_child (g_key args)) subKeys)
      | None \<Rightarrow> getKeys uid (g_key args) (g_children args) False s)"

fun collect_children :: "data_options \<Rightarrow> int \<Rightarrow> string \<Rightarrow> get_args \<Rightarrow> (child \<times> 'v samples option) list \<Rightarrow>
    'v storage \<Rightarrow> 'v storage \<times> (key \<times> 'v item list) list" where
  "collect_children opts now uid args [] s = (s, [])"
| "collect_children opts now uid args ((c, vs) # rest) s =
     (case vs of
        Some (v # vs') \<Rightarrow>
          let (s1, r) = valuesToResult opts (g_metadata args) now uid (c_key c)
                          (case c_internal c of None \<Rightarrow> [] | Some i \<Rightarrow> i) (v # vs') s;
              (s2, rs) = collect_children opts now uid args rest s1
          in (s2, if r = [] then rs
                  else (drop (length (g_key args)) (c_key c),
                        case g_count args of None \<Rightarrow> [hd r] | Some _ \<Rightarrow> r) # rs)
      | _ \<Rightarrow> collect_children opts now uid args rest s)"

definition data_get :: "data_options \<Rightarrow> 'v external \<Rightarrow> int \<Rightarrow> string \<Rightarrow> get_args \<Rightarrow> 'v storage \<Rightarrow>
    'v storage \<times> 'v get_result outcome" where
  "data_get opts external now uid args s =
     (let fetch = (\<lambda>key internal.
            getWithMetadata external uid key (stored_values uid internal s) (get_count args)
              (g_after args) (g_before args) (g_sampling args))
      in if g_children args > 0 \<or> g_include args \<noteq> None
         then (case requested_keys uid args s of
                 None \<Rightarrow> (s, Inr GetEmpty)
               | Some keys \<Rightarrow>
                   (case outcome_map (\<lambda>c. fetch (c_key c) (case c_internal c of None \<Rightarrow> [] | Some i \<Rightarrow> i)) keys of
                      Inl e \<Rightarrow> (s, Inl e)
                    | Inr vs \<Rightarrow>
                        (let (s', r) = collect_children opts now uid args (zip keys vs) s
                         in (s', Inr (GetChildren r)))))
         else
           (case fetch (g_key args) (keyToInternal (g_key args)) of
              Inl e \<Rightarrow> (s, Inl e)
            | Inr None \<Rightarrow> (s, Inr GetEmpty)
            | Inr (Some vs) \<Rightarrow>
                (let (s', r) = valuesToResult opts (g_metadata args) now uid (g_key args)
                                 (keyToInternal (g_key args)) vs s
                 in (s', Inr (case g_count args of
                                None \<Rightarrow> (case r of [] \<Rightarrow> GetEmpty | x # _ \<Rightarrow> GetOne x)
                              | Some _ \<Rightarrow> GetMany r)))))"


section \<open>The history of an entry\<close>

definition newest_first :: "'v samples \<Rightarrow> bool" where
  "newest_first vs = sorted_wrt (\<lambda>a b. fst b \<le> fst a) vs"

lemma newest_first_simps [simp]:
  "newest_first []"
  "newest_first (x # vs) \<longleftrightarrow> (\<forall>y\<in>set vs. fst y \<le> fst x) \<and> newest_first vs"
  "newest_first (vs @ ws) \<longleftrightarrow> newest_first vs \<and> newest_first ws \<and> (\<forall>x\<in>set vs. \<forall>y\<in>set ws. fst y \<le> fst x)"
  by (auto simp: newest_first_def sorted_wrt_append)

lemma newest_first_take: "newest_first vs \<Longrightarrow> newest_first (take n vs) \<and> newest_first (drop n vs)"
  by (metis append_take_drop_id newest_first_simps(3))

lemma newest_first_filter: "newest_first vs \<Longrightarrow> newest_first (filter P vs)"
  by (induction vs) auto

text \<open>On a history in order the two searches cut it where the timestamps cross the bound.\<close>

lemma newest_first_split:
  assumes "newest_first vs"
  shows "vs = filter (\<lambda>d. t < fst d) vs @ filter (\<lambda>d. \<not> t < fst d) vs"
  using assms
proof (induction vs)
  case (Cons x vs)
  show ?case
  proof (cases "t < fst x")
    case False
    then have "filter (\<lambda>d. t < fst d) vs = []" using Cons.prems by (fastforce simp: filter_empty_conv)
    then show ?thesis using False Cons by simp
  qed (use Cons in simp)
qed simp

lemma find_index_filter:
  assumes "newest_first vs"
  shows "find_index (\<lambda>d. fst d \<le> t) vs =
    (if filter (\<lambda>d. \<not> t < fst d) vs = [] then -1 else int (length (filter (\<lambda>d. t < fst d) vs)))"
    and "find_last_index (\<lambda>d. t < fst d) vs = int (length (filter (\<lambda>d. t < fst d) vs)) - 1"
proof -
  have "find_index (\<lambda>d. fst d \<le> t) (filter (\<lambda>d. t < fst d) vs @ filter (\<lambda>d. \<not> t < fst d) vs) =
      (if filter (\<lambda>d. \<not> t < fst d) vs = [] then -1 else int (length (filter (\<lambda>d. t < fst d) vs)))"
    by (rule find_index_suffix) auto
  then show "find_index (\<lambda>d. fst d \<le> t) vs =
    (if filter (\<lambda>d. \<not> t < fst d) vs = [] then -1 else int (length (filter (\<lambda>d. t < fst d) vs)))"
    by (simp only: newest_first_split [OF assms, symmetric])
  have "find_last_index (\<lambda>d. t < fst d) (filter (\<lambda>d. t < fst d) vs @ filter (\<lambda>d. \<not> t < fst d) vs) =
      int (length (filter (\<lambda>d. t < fst d) vs)) - 1"
    by (rule find_last_index_prefix) auto
  then show "find_last_index (\<lambda>d. t < fst d) vs = int (length (filter (\<lambda>d. t < fst d) vs)) - 1"
    by (simp only: newest_first_split [OF assms, symmetric])
qed

text \<open>
  An insertion puts the value before those of the same or an older timestamp, and keeps the newest of
  the history.
\<close>

lemma insert_value_values:
  assumes "newest_first (d_values d)"
  shows "d_values (insert_value timestamp v config d) =
    take (history config) (filter (\<lambda>x. timestamp < fst x) (d_values d) @ (timestamp, v) #
      filter (\<lambda>x. \<not> timestamp < fst x) (d_values d))"
proof -
  let ?vs = "d_values d"
  let ?newer = "filter (\<lambda>x. timestamp < fst x) ?vs" and ?rest = "filter (\<lambda>x. \<not> timestamp < fst x) ?vs"
  define older where "older = (case ?vs of [] \<Rightarrow> False | (t, _) # _ \<Rightarrow> t > timestamp)"
  define found where "found = find_index (\<lambda>(t, _). t \<le> timestamp) ?vs"
  define index where "index = (if older then (if found = -1 then length ?vs else nat found) else 0)"
  have split: "?vs = ?newer @ ?rest" by (rule newest_first_split [OF assms])
  have f: "found = (if ?rest = [] then -1 else int (length ?newer))"
    using find_index_filter(1) [OF assms, of timestamp] by (simp add: found_def case_prod_unfold)
  have "index = length ?newer"
  proof (cases older)
    case True
    have "?rest = [] \<Longrightarrow> length ?vs = length ?newer" by (subst split) simp
    then show ?thesis using True f by (simp add: index_def)
  next
    case False
    then have "?newer = []"
      using assms by (cases ?vs) (fastforce simp: older_def filter_empty_conv split: prod.splits)+
    then show ?thesis using False by (simp add: index_def)
  qed
  then have cut: "splice_insert index (timestamp, v) ?vs = ?newer @ (timestamp, v) # ?rest"
    by (subst split) (simp add: splice_insert_def)
  have "d_values (insert_value timestamp v config d) =
      take (history config) (splice_insert index (timestamp, v) ?vs)"
    by (auto simp: insert_value_def index_def older_def found_def Let_def
        split: list.splits expires_option.splits prod.splits)
  then show ?thesis by (simp add: cut)
qed

lemma insert_value_newest_first:
  assumes "newest_first (d_values d)"
  shows "newest_first (d_values (insert_value timestamp v config d))"
  unfolding insert_value_values [OF assms]
  using assms by (intro newest_first_take [THEN conjunct1])
    (force simp: newest_first_filter)

lemma insert_value_bounded:
  "newest_first (d_values d) \<Longrightarrow> length (d_values (insert_value timestamp v config d)) \<le> history config"
  by (simp add: insert_value_values)

text \<open>An expiry that is estimated is at least one second.\<close>

lemma expires_estimate_pos: "0 \<le> old \<Longrightarrow> newest \<le> timestamp \<Longrightarrow> 1 \<le> expires_estimate old timestamp newest"
proof -
  assume "0 \<le> old" "newest \<le> timestamp"
  then have "0 \<le> round_div (4000 * old + 18 * (timestamp - newest)) 10000"
    unfolding round_div_def by (intro pos_imp_zdiv_nonneg_iff [THEN iffD2]) auto
  then show ?thesis by (simp add: expires_estimate_def or_one_def)
qed

section \<open>The whole storage\<close>

definition storage_ok :: "'v storage \<Rightarrow> bool" where
  "storage_ok s =
     (wf_map s \<and> (\<forall>(uid, u)\<in>set s. wf_map (u_data u) \<and>
        (\<forall>(internal, d)\<in>set (u_data u). newest_first (d_values d))))"

definition values_at :: "'v storage \<Rightarrow> string \<Rightarrow> string \<Rightarrow> 'v samples" where
  "values_at s uid internal = (case stored_values uid internal s of None \<Rightarrow> [] | Some vs \<Rightarrow> vs)"

definition entry_of :: "'v storage \<Rightarrow> string \<Rightarrow> string \<Rightarrow> 'v datum option" where
  "entry_of s uid internal = (case map_of s uid of None \<Rightarrow> None | Some u \<Rightarrow> map_of (u_data u) internal)"

lemma storage_okD:
  assumes "storage_ok s" and "map_of s uid = Some u"
  shows "wf_map (u_data u)" and "map_of (u_data u) internal = Some d \<Longrightarrow> newest_first (d_values d)"
  using assms by (fastforce simp: storage_ok_def dest: map_of_SomeD)+

lemma storage_ok_update:
  assumes "storage_ok s" and "wf_map (u_data u)" and "\<forall>(internal, d)\<in>set (u_data u). newest_first (d_values d)"
  shows "storage_ok (AList.update uid u s)"
proof -
  have "wf_map (u_data u') \<and> (\<forall>(internal, d)\<in>set (u_data u'). newest_first (d_values d))"
    if "(uid', u') \<in> set (AList.update uid u s)" for uid' u'
    using that assms set_update_subset [of uid u s] by (fastforce simp: storage_ok_def)
  then show ?thesis using assms(1) by (fastforce simp: storage_ok_def)
qed

lemma getDataInternal_ok:
  assumes ok: "storage_ok s" and get: "getDataInternal opts uid key internal s = (s', d)"
  shows "storage_ok s'" and "newest_first (d_values d)"
    and "entry_of s' = (entry_of s)(uid := (entry_of s uid)(internal \<mapsto> d))"
    and "d = (case entry_of s uid internal of None \<Rightarrow> new_datum | Some d \<Rightarrow> d)"
    and "map_of s' uid \<noteq> None"
proof -
  define s1 where "s1 = (case map_of s uid of
      None \<Rightarrow> AList.update uid \<lparr>tags = onCreateUid opts uid {}, u_data = []\<rparr> s | Some _ \<Rightarrow> s)"
  obtain u where u: "map_of s1 uid = Some u" by (cases "map_of s uid") (auto simp: s1_def)
  have ok1: "storage_ok s1" using ok by (auto simp: s1_def storage_ok_update split: option.splits)
  have entry1: "entry_of s1 = entry_of s"
    by (auto simp: s1_def entry_of_def fun_eq_iff split: option.splits)
  have wf: "wf_map (u_data u)" "\<forall>(i, d)\<in>set (u_data u). newest_first (d_values d)"
    using ok1 u by (auto simp: storage_ok_def dest!: map_of_SomeD)
  have "storage_ok s' \<and> newest_first (d_values d) \<and> map_of s' uid \<noteq> None \<and>
      d = (case entry_of s uid internal of None \<Rightarrow> new_datum | Some d \<Rightarrow> d) \<and>
      entry_of s' = (entry_of s)(uid := (entry_of s uid)(internal \<mapsto> d))" (is ?all)
  proof (cases "map_of (u_data u) internal")
    case (Some d0)
    then have "s' = s1" "d = d0"
      using get u by (simp_all add: getDataInternal_def s1_def [symmetric])
    moreover have "entry_of s uid internal = Some d0" by (simp add: entry1 [symmetric] entry_of_def u Some)
    moreover have "newest_first (d_values d0)" using storage_okD(2) [OF ok1 u Some] .
    ultimately show ?all
      using ok1 u by (simp add: entry1 fun_upd_idem)
  next
    case None
    let ?u' = "\<lparr>tags = onCreateKey opts uid key (tags u), u_data = AList.update internal new_datum (u_data u)\<rparr>"
    have s': "s' = AList.update uid ?u' s1" "d = new_datum"
      using get u None by (simp_all add: getDataInternal_def s1_def [symmetric])
    have "newest_first (d_values new_datum)" by (simp add: new_datum_def)
    moreover have "storage_ok s'"
      unfolding s'(1)
      using wf set_update_subset [of internal new_datum "u_data u"] \<open>newest_first (d_values new_datum)\<close>
      by (intro storage_ok_update [OF ok1]) auto
    moreover have "entry_of s uid internal = None" by (simp add: entry1 [symmetric] entry_of_def u None)
    moreover have "entry_of s' = (entry_of s1)(uid := (entry_of s1 uid)(internal \<mapsto> new_datum))"
      by (auto simp: s' entry_of_def u fun_eq_iff)
    ultimately show ?all
      by (simp add: s' entry1)
  qed
  then show "storage_ok s'" "newest_first (d_values d)" "map_of s' uid \<noteq> None"
    "d = (case entry_of s uid internal of None \<Rightarrow> new_datum | Some d \<Rightarrow> d)"
    "entry_of s' = (entry_of s)(uid := (entry_of s uid)(internal \<mapsto> d))"
    by blast+
qed

lemma put_datum_ok:
  assumes "storage_ok s" and "newest_first (d_values d)" and "map_of s uid \<noteq> None"
  shows "storage_ok (put_datum uid internal d s)"
    and "entry_of (put_datum uid internal d s) = (entry_of s)(uid := (entry_of s uid)(internal \<mapsto> d))"
proof -
  obtain u where u: "map_of s uid = Some u" using assms(3) by blast
  then have "wf_map (u_data u)" "\<forall>(i, d)\<in>set (u_data u). newest_first (d_values d)"
    using assms(1) by (auto simp: storage_ok_def dest!: map_of_SomeD)
  then show "storage_ok (put_datum uid internal d s)"
    using assms(2) set_update_subset [of internal d "u_data u"]
    by (auto simp: put_datum_def u intro!: storage_ok_update [OF assms(1)])
  show "entry_of (put_datum uid internal d s) = (entry_of s)(uid := (entry_of s uid)(internal \<mapsto> d))"
    by (auto simp: put_datum_def u entry_of_def fun_eq_iff)
qed

text \<open>
  Inserting a fragment changes the entry of its key as \<open>insert_value\<close> does, and no other.
\<close>

lemma insert_fragment_entry:
  assumes ok: "storage_ok s"
  shows "storage_ok (insert_fragment opts uid timestamp (key, v, config) s)"
    and "entry_of (insert_fragment opts uid timestamp (key, v, config) s) =
      (entry_of s)(uid := (entry_of s uid)(keyToInternal key \<mapsto>
        insert_value timestamp v config
          (case entry_of s uid (keyToInternal key) of None \<Rightarrow> new_datum | Some d \<Rightarrow> d)))"
proof -
  obtain s1 d where get: "getDataInternal opts uid key (keyToInternal key) s = (s1, d)" by fastforce
  note r = getDataInternal_ok [OF ok get]
  note p = put_datum_ok [OF r(1) insert_value_newest_first [OF r(2)] r(5)]
  show "storage_ok (insert_fragment opts uid timestamp (key, v, config) s)"
    using p(1) by (simp add: insert_fragment_def get)
  show "entry_of (insert_fragment opts uid timestamp (key, v, config) s) =
      (entry_of s)(uid := (entry_of s uid)(keyToInternal key \<mapsto>
        insert_value timestamp v config
          (case entry_of s uid (keyToInternal key) of None \<Rightarrow> new_datum | Some d \<Rightarrow> d)))"
    using p(2) by (simp add: insert_fragment_def get r(3) flip: r(4))
qed

lemma data_insert_ok: "storage_ok s \<Longrightarrow> storage_ok (fst (data_insert opts uid fragments timestamp s))"
proof (induction fragments arbitrary: s)
  case (Cons f fragments)
  then show ?case by (cases f) (simp add: data_insert_def insert_fragment_entry(1))
qed (simp add: data_insert_def)

section \<open>Properties\<close>


section \<open>Instances of the properties\<close>

definition no_callbacks :: data_options where
  "no_callbacks = \<lparr>onCreateUid = \<lambda>uid tags. tags, onCreateKey = \<lambda>uid key tags. tags\<rparr>"

definition sample_storage :: "string storage" where
  "sample_storage = [(''u'', \<lparr>tags = {}, u_data = [(''a'',
     \<lparr>expiresType = ExpiresAuto, expires = 60, d_unit = [], d_values = [(9, ''z''), (3, ''x'')]\<rparr>)]\<rparr>)]"

lemma sample_storage_ok: "storage_ok sample_storage"
  by (simp add: storage_ok_def sample_storage_def)


end
