(* ===== verification/Data_Queries.thy ===== *)
theory Data_Queries
  imports Data
begin

text \<open>
  What the queries of \<open>nodejs/db/data/data.js\<close> return: the keys below a key, the samples of a time
  range out of the local history and the external source together, and a down-sampled series.
\<close>

section \<open>The keys below a key\<close>

fun is_leaf :: "tree \<Rightarrow> bool" where
  "is_leaf (TLeaf i k) = True"
| "is_leaf (TNode kids) = False"

fun wf_tree :: "tree \<Rightarrow> bool" where
  "wf_tree (TLeaf i k) = True"
| "wf_tree (TNode kids) = (\<forall>(k, t)\<in>set kids. (k = special_key \<longleftrightarrow> is_leaf t) \<and> wf_tree t)"

text \<open>The entry at a path.\<close>

fun leaf_at :: "key \<Rightarrow> nodes \<Rightarrow> (string \<times> key) option" where
  "leaf_at [] kids = (case map_of kids special_key of Some (TLeaf i k) \<Rightarrow> Some (i, k) | _ \<Rightarrow> None)"
| "leaf_at (segment # rest) kids = leaf_at rest (node_at kids segment)"

lemma leaf_at_Nil [simp]: "leaf_at q [] = None"
  by (induction q) (auto simp: node_at_def)

lemma wf_node_at:
  assumes "wf_tree (TNode kids)"
  shows "wf_tree (TNode (node_at kids segment))" and "node_at kids special_key = []"
proof -
  have mem: "map_of kids k = Some t \<Longrightarrow> (k = special_key \<longleftrightarrow> is_leaf t) \<and> wf_tree t" for k t
    using assms by (fastforce dest: map_of_SomeD)
  show "wf_tree (TNode (node_at kids segment))"
  proof (cases "map_of kids segment")
    case (Some t)
    then show ?thesis using mem [OF Some] by (cases t) (auto simp: node_at_def)
  qed (simp add: node_at_def)
  show "node_at kids special_key = []"
    using mem [of special_key] by (auto simp: node_at_def split: option.splits tree.splits)
qed

lemma wf_tree_add:
  assumes "wf_tree (TNode kids)" and "special_key \<notin> set q"
  shows "wf_tree (TNode (tree_add q (TLeaf i k) kids))"
  using assms
proof (induction q "TLeaf i k" kids rule: tree_add.induct)
  case (1 kids)
  then show ?case using set_update_subset [of special_key "TLeaf i k" kids] by fastforce
next
  case (2 segment rest kids)
  have "wf_tree (TNode (tree_add rest (TLeaf i k) (node_at kids segment)))"
    using 2 wf_node_at(1) by simp
  moreover have "segment \<noteq> special_key" using 2(3) by auto
  ultimately show ?case
    using 2(2) set_update_subset [of segment "TNode (tree_add rest (TLeaf i k) (node_at kids segment))" kids]
    by fastforce
qed

lemma node_at_update:
  "node_at (AList.update k t kids) k' =
     (if k' = k then (case t of TNode v \<Rightarrow> v | TLeaf _ _ \<Rightarrow> []) else node_at kids k')"
  by (auto simp: node_at_def)

lemma leaf_at_add:
  assumes "wf_tree (TNode kids)" and "special_key \<notin> set q" and "special_key \<notin> set q'"
  shows "leaf_at q' (tree_add q (TLeaf i k) kids) = (if q' = q then Some (i, k) else leaf_at q' kids)"
  using assms
proof (induction q "TLeaf i k" kids arbitrary: q' rule: tree_add.induct)
  case (1 kids)
  then show ?case by (cases q') (auto simp: node_at_update)
next
  case (2 segment rest kids)
  show ?case
  proof (cases q')
    case Nil
    have "segment \<noteq> special_key" using 2(3) by auto
    then show ?thesis by (auto simp: Nil)
  next
    case (Cons s r)
    then show ?thesis using 2 wf_node_at(1) [OF 2(2)] by (simp add: node_at_update)
  qed
qed

lemma special_key_segment: "s \<in> set (internalToKey internal) \<Longrightarrow> s \<noteq> special_key"
  using internalToKey_ok [of internal] by (auto simp: key_ok_def special_key_def)

definition add_entry :: "string \<times> 'v datum \<Rightarrow> nodes \<Rightarrow> nodes" where
  "add_entry e tree = tree_add (internalToKey (fst e)) (TLeaf (fst e) (internalToKey (fst e))) tree"

lemma tree_fold:
  "wf_tree (TNode kids) \<Longrightarrow> special_key \<notin> set q \<Longrightarrow>
   wf_tree (TNode (fold add_entry es kids)) \<and>
   leaf_at q (fold add_entry es kids) =
     (if keyToInternal q \<in> fst ` set es \<and> internalToKey (keyToInternal q) = q
      then Some (keyToInternal q, q) else leaf_at q kids)"
proof (induction es arbitrary: kids)
  case (Cons e es)
  let ?i = "fst e"
  have special: "special_key \<notin> set (internalToKey ?i)" using special_key_segment by blast
  have wf: "wf_tree (TNode (add_entry e kids))"
    unfolding add_entry_def by (rule wf_tree_add [OF Cons.prems(1) special])
  have leaf: "leaf_at q (add_entry e kids) =
      (if q = internalToKey ?i then Some (?i, internalToKey ?i) else leaf_at q kids)"
    unfolding add_entry_def by (rule leaf_at_add [OF Cons.prems(1) special Cons.prems(2)])
  have eq: "q = internalToKey ?i \<longleftrightarrow> keyToInternal q = ?i \<and> internalToKey (keyToInternal q) = q"
    by (metis keyToInternal_inverse)
  show ?case
    using Cons.IH [OF wf Cons.prems(2)] leaf eq by (auto simp: keyToInternal_inverse)
qed simp

lemma tree_of_leaf:
  assumes "special_key \<notin> set q"
  shows "wf_tree (TNode (tree_of uid s))"
    and "leaf_at q (tree_of uid s) =
      (if entry_of s uid (keyToInternal q) \<noteq> None \<and> internalToKey (keyToInternal q) = q
       then Some (keyToInternal q, q) else None)"
proof -
  have fold: "(\<lambda>(internal, _). tree_add (internalToKey internal) (TLeaf internal (internalToKey internal))) = add_entry"
    by (auto simp: add_entry_def fun_eq_iff)
  show "wf_tree (TNode (tree_of uid s))"
    using tree_fold [of "[]" q] assms by (auto simp: tree_of_def fold split: option.splits)
  show "leaf_at q (tree_of uid s) =
      (if entry_of s uid (keyToInternal q) \<noteq> None \<and> internalToKey (keyToInternal q) = q
       then Some (keyToInternal q, q) else None)"
  proof (cases "map_of s uid")
    case None
    then show ?thesis by (simp add: tree_of_def entry_of_def)
  next
    case (Some u)
    have "keyToInternal q \<in> fst ` set (u_data u) \<longleftrightarrow> map_of (u_data u) (keyToInternal q) \<noteq> None"
      by (metis map_of_eq_None_iff)
    then show ?thesis
      using tree_fold [of "[]" q "u_data u"] assms by (simp add: tree_of_def entry_of_def Some fold)
  qed
qed

text \<open>Navigation to a key, and the keys found below it.\<close>

lemma leaf_at_append:
  "wf_tree (TNode kids) \<Longrightarrow>
   leaf_at (key @ q) kids = (case tree_at key kids of None \<Rightarrow> None | Some sub \<Rightarrow> leaf_at q sub)"
proof (induction key kids rule: tree_at.induct)
  case (2 segment rest kids)
  note node = wf_node_at [OF 2(2)]
  show ?case
  proof (cases "segment = special_key")
    case True
    then show ?thesis using node(2) by simp
  next
    case False
    show ?thesis
    proof (cases "map_of kids segment")
      case None
      then show ?thesis using False by (simp add: node_at_def)
    next
      case (Some t)
      then show ?thesis
        using False 2 node(1) [of segment] by (cases t) (auto simp: node_at_def)
    qed
  qed
qed simp

lemma tree_at_wf: "wf_tree (TNode kids) \<Longrightarrow> tree_at key kids = Some sub \<Longrightarrow> wf_tree (TNode sub)"
proof (induction key kids rule: tree_at.induct)
  case (2 segment rest kids)
  then show ?case using wf_node_at(1) [OF 2(2), of segment]
    by (auto simp: node_at_def split: if_splits option.splits tree.splits)
qed simp

lemma treeToKeys_leaves:
  "wf_tree (TNode tree) \<Longrightarrow>
   c \<in> set (treeToKeys False n tree key) \<longleftrightarrow>
     (\<exists>q i k. length q < n \<and> leaf_at q tree = Some (i, k) \<and>
        c = \<lparr>c_key = k, c_leaf = True, c_internal = Some i\<rparr>)"
proof (induction n arbitrary: tree key)
  case (Suc n)
  have mem: "map_of tree k = Some t \<Longrightarrow> (k = special_key \<longleftrightarrow> is_leaf t) \<and> wf_tree t" for k t
    using Suc.prems by (fastforce dest: map_of_SomeD)
  have dom: "k \<in> set (map fst tree) \<longleftrightarrow> (\<exists>t. map_of tree k = Some t)" for k
    by (metis map_of_eq_None_iff not_None_eq set_map)
  define g where "g k = (case map_of tree k of None \<Rightarrow> []
       | Some (TLeaf internal leafKey) \<Rightarrow> [\<lparr>c_key = leafKey, c_leaf = True, c_internal = Some internal\<rparr>]
       | Some (TNode v) \<Rightarrow> treeToKeys False n v (key @ [k]))" for k
  have item: "c \<in> set (g k) \<longleftrightarrow>
      (\<exists>i l. map_of tree k = Some (TLeaf i l) \<and> c = \<lparr>c_key = l, c_leaf = True, c_internal = Some i\<rparr>) \<or>
      (\<exists>v. map_of tree k = Some (TNode v) \<and> c \<in> set (treeToKeys False n v (key @ [k])))" for k
    by (cases "map_of tree k") (auto simp: g_def split: tree.splits)
  have "treeToKeys False (Suc n) tree key = concat (map g (sort (map fst tree)))"
    unfolding treeToKeys.simps g_def
    by (intro arg_cong [of _ _ concat] map_cong refl) (simp split: option.split tree.split)
  then have "c \<in> set (treeToKeys False (Suc n) tree key) \<longleftrightarrow> (\<exists>k\<in>set (map fst tree). c \<in> set (g k))"
    by simp
  also have "\<dots> \<longleftrightarrow> (\<exists>k. c \<in> set (g k))"
  proof -
    have "map_of tree k \<noteq> None" if "c \<in> set (g k)" for k
      using that by (cases "map_of tree k") (simp_all add: g_def)
    then have "k \<in> set (map fst tree)" if "c \<in> set (g k)" for k using dom that by auto
    then show ?thesis by blast
  qed
  also have "\<dots> \<longleftrightarrow>
      (\<exists>k. (\<exists>i l. map_of tree k = Some (TLeaf i l) \<and> c = \<lparr>c_key = l, c_leaf = True, c_internal = Some i\<rparr>) \<or>
        (\<exists>v. map_of tree k = Some (TNode v) \<and> c \<in> set (treeToKeys False n v (key @ [k]))))"
    by (simp only: item)
  also have "\<dots> \<longleftrightarrow>
      (\<exists>q i k. length q < Suc n \<and> leaf_at q tree = Some (i, k) \<and>
        c = \<lparr>c_key = k, c_leaf = True, c_internal = Some i\<rparr>)" (is "?L \<longleftrightarrow> ?R")
  proof
    assume ?L
    then obtain k where
      "(\<exists>i l. map_of tree k = Some (TLeaf i l) \<and> c = \<lparr>c_key = l, c_leaf = True, c_internal = Some i\<rparr>) \<or>
       (\<exists>v. map_of tree k = Some (TNode v) \<and> c \<in> set (treeToKeys False n v (key @ [k])))" by blast
    then show ?R
    proof
      assume "\<exists>i l. map_of tree k = Some (TLeaf i l) \<and> c = \<lparr>c_key = l, c_leaf = True, c_internal = Some i\<rparr>"
      then obtain i l where leaf: "map_of tree k = Some (TLeaf i l)"
        and c: "c = \<lparr>c_key = l, c_leaf = True, c_internal = Some i\<rparr>" by blast
      then have "k = special_key" using mem by fastforce
      then show ?R using leaf c by (intro exI [of _ "[]"] exI [of _ i] exI [of _ l]) simp
    next
      assume "\<exists>v. map_of tree k = Some (TNode v) \<and> c \<in> set (treeToKeys False n v (key @ [k]))"
      then obtain v where v: "map_of tree k = Some (TNode v)" "c \<in> set (treeToKeys False n v (key @ [k]))"
        by blast
      then obtain q i l where "length q < n" "leaf_at q v = Some (i, l)"
        "c = \<lparr>c_key = l, c_leaf = True, c_internal = Some i\<rparr>"
        using Suc.IH [of v "key @ [k]"] mem [OF v(1)] by auto
      then show ?R using v(1) by (intro exI [of _ "k # q"] exI [of _ i] exI [of _ l]) (simp add: node_at_def)
    qed
  next
    assume ?R
    then obtain q i l where q: "length q < Suc n" "leaf_at q tree = Some (i, l)"
      "c = \<lparr>c_key = l, c_leaf = True, c_internal = Some i\<rparr>" by blast
    show ?L
    proof (cases q)
      case Nil
      then show ?thesis using q by (auto split: option.splits tree.splits)
    next
      case (Cons k q')
      then have "node_at tree k \<noteq> []" using q(2) by auto
      then obtain v where v: "map_of tree k = Some (TNode v)"
        by (auto simp: node_at_def split: option.splits tree.splits)
      then have "c \<in> set (treeToKeys False n v (key @ [k]))"
        using Suc.IH [of v "key @ [k]"] mem [OF v] q Cons by (auto simp: node_at_def)
      then show ?thesis using v by blast
    qed
  qed
  finally show ?case .
qed simp

text \<open>
  \<open>getKeys_\<close> for the leaves: exactly the keys that start with the given key and are at most \<open>children\<close>
  segments longer; \<open>null\<close> only when there is none at any depth.
\<close>

definition child_of :: "string \<Rightarrow> child" where
  "child_of internal =
     \<lparr>c_key = internalToKey internal, c_leaf = True, c_internal = Some internal\<rparr>"

text \<open>
  The tree of keys. For the leaves, \<open>getKeys_\<close> returns exactly the keys that start with the given key and are
  at most \<open>children\<close> segments longer.
\<close>

lemma getKeys_leaves:
  "(case getKeys uid key n False s of None \<Rightarrow> {} | Some cs \<Rightarrow> set cs) =
     child_of ` {internal. entry_of s uid internal \<noteq> None \<and> prefix key (internalToKey internal) \<and>
       length (internalToKey internal) \<le> length key + n}" (is "?L = child_of ` ?I")
proof -
  have wf: "wf_tree (TNode (tree_of uid s))" using tree_of_leaf(1) [of "[]"] by simp
  have leaf: "leaf_at p (tree_of uid s) = Some (i, k) \<longleftrightarrow>
      entry_of s uid i \<noteq> None \<and> internalToKey i = p \<and> k = p" for p i k
  proof (cases "special_key \<in> set p")
    case True
    then obtain a b where p: "p = a @ special_key # b" by (auto simp: in_set_conv_decomp)
    have "leaf_at p (tree_of uid s) = None"
      using leaf_at_append [OF wf, of a "special_key # b"] tree_at_wf [OF wf, of a] wf_node_at(2)
      by (auto simp: p split: option.splits)
    moreover have "internalToKey i \<noteq> p" using True special_key_segment by auto
    ultimately show ?thesis by auto
  next
    case False
    show ?thesis
      using tree_of_leaf(2) [OF False, of uid s] keyToInternal_inverse [of i] by (auto split: if_splits)
  qed
  show ?thesis
  proof (cases "tree_at key (tree_of uid s)")
    case None
    have "?I = {}"
    proof (rule equals0I)
      fix i assume i: "i \<in> ?I"
      then obtain q where "internalToKey i = key @ q" by (auto elim: prefixE)
      then have "leaf_at (key @ q) (tree_of uid s) = Some (i, key @ q)" using leaf i by auto
      then show False using leaf_at_append [OF wf, of key q] None by simp
    qed
    then show ?thesis by (simp add: getKeys_def getTree_def None)
  next
    case (Some sub)
    have at: "leaf_at q sub = leaf_at (key @ q) (tree_of uid s)" for q
      using leaf_at_append [OF wf, of key q] Some by simp
    have "?L = set (treeToKeys False (Suc n) sub key)" by (simp add: getKeys_def getTree_def Some)
    also have "\<dots> = child_of ` ?I"
    proof (rule set_eqI)
      fix c
      have "c \<in> set (treeToKeys False (Suc n) sub key) \<longleftrightarrow>
          (\<exists>q i. length q < Suc n \<and> entry_of s uid i \<noteq> None \<and> internalToKey i = key @ q \<and> c = child_of i)"
        using treeToKeys_leaves [OF tree_at_wf [OF wf Some], of c "Suc n" key]
        by (auto simp: at leaf child_of_def)
      also have "\<dots> \<longleftrightarrow> (\<exists>i. i \<in> ?I \<and> c = child_of i)"
        by (auto simp: prefix_def less_Suc_eq_le) (use less_Suc_eq_le in blast)
      also have "\<dots> \<longleftrightarrow> c \<in> child_of ` ?I" by blast
      finally show "c \<in> set (treeToKeys False (Suc n) sub key) \<longleftrightarrow> c \<in> child_of ` ?I" .
    qed
    finally show ?thesis .
  qed
qed


section \<open>The samples of a range\<close>

text \<open>
  The whole history of an entry is a series with the newest sample first and no timestamp twice. The
  local values are a non-empty prefix of it, and the external source answers from the whole. The
  specification of a query is its answer on the whole history.
\<close>

definition strictly_newest_first :: "'v samples \<Rightarrow> bool" where
  "strictly_newest_first vs = sorted_wrt (\<lambda>a b. fst b < fst a) vs"

definition query_before :: "'v samples \<Rightarrow> int \<Rightarrow> int \<Rightarrow> 'v samples" where
  "query_before full count before = take (nat count) (filter (\<lambda>d. fst d < before) full)"

definition query_after :: "'v samples \<Rightarrow> int \<Rightarrow> int \<Rightarrow> 'v samples" where
  "query_after full count after =
     (let newer = filter (\<lambda>d. fst d > after) full in drop (length newer - nat count) newer)"

definition answers_from :: "'v external \<Rightarrow> string \<Rightarrow> key \<Rightarrow> 'v samples \<Rightarrow> bool" where
  "answers_from external uid key full =
     ((\<forall>count before. external uid key count None (Some before) = Some (query_before full count before)) \<and>
      (\<forall>count after. external uid key count (Some after) None = Some (query_after full count after)) \<and>
      (\<forall>count. external uid key count None None = Some (take (nat count) full)))"

lemma answers_fromD:
  assumes "answers_from external uid key full"
  shows "external uid key count None (Some before) = Some (query_before full count before)"
    and "external uid key count (Some after) None = Some (query_after full count after)"
    and "external uid key count None None = Some (take (nat count) full)"
  using assms by (simp_all add: answers_from_def)

lemma strictly_newest_first_imp: "strictly_newest_first vs \<Longrightarrow> newest_first vs"
  unfolding strictly_newest_first_def newest_first_def
  by (rule sorted_wrt_mono_rel [of vs "\<lambda>a b. fst b < fst a"]) auto

lemma strictly_append:
  "strictly_newest_first (xs @ ys) \<longleftrightarrow>
     strictly_newest_first xs \<and> strictly_newest_first ys \<and> (\<forall>x\<in>set xs. \<forall>y\<in>set ys. fst y < fst x)"
  by (simp add: strictly_newest_first_def sorted_wrt_append)

text \<open>Filters by a bound cut a history in two, so they commute with prefixes.\<close>

lemma find_index_before:
  assumes "newest_first vs"
  shows "find_index (\<lambda>d. fst d < t) vs =
    (if filter (\<lambda>d. fst d < t) vs = [] then -1 else int (length (filter (\<lambda>d. \<not> fst d < t) vs)))"
proof -
  have "(\<lambda>d :: int \<times> 'a. fst d < t) = (\<lambda>d. fst d \<le> t - 1)" by auto
  moreover have "(\<lambda>d :: int \<times> 'a. \<not> fst d < t) = (\<lambda>d. t - 1 < fst d)" by auto
  ultimately show ?thesis using find_index_filter(1) [OF assms, of "t - 1"] by (simp add: not_less)
qed

lemma newest_first_cut:
  assumes "newest_first vs"
  shows "vs = filter (\<lambda>d. \<not> fst d < t) vs @ filter (\<lambda>d. fst d < t) vs"
proof -
  have "(\<lambda>d :: int \<times> 'a. \<not> fst d < t) = (\<lambda>d. t - 1 < fst d)" by auto
  moreover have "(\<lambda>d :: int \<times> 'a. fst d < t) = (\<lambda>d. \<not> t - 1 < fst d)" by auto
  ultimately show ?thesis using newest_first_split [OF assms, of "t - 1"] by simp
qed

text \<open>
  Values before a timestamp. When the external source answers from the whole history, of which the local
  values are the newest part, the answer put together from the two is the answer on the whole history.
\<close>

lemma get_before_correct:
  assumes full: "strictly_newest_first full" and src: "answers_from external uid key full"
    and v: "full = v @ older" "v \<noteq> []" and count: "0 < count"
  shows "get_before external uid key v count before = query_before full (int count) before"
proof -
  have nf: "newest_first v" using strictly_newest_first_imp [OF full] by (simp add: v)
  let ?B = "filter (\<lambda>d. fst d < before) v" and ?A = "filter (\<lambda>d. \<not> fst d < before) v"
  note cut = newest_first_cut [OF nf, of before]
  show ?thesis
  proof (cases "?B = []")
    case True
    then show ?thesis
      using answers_fromD(1) [OF src] by (simp add: get_before_def find_index_before [OF nf])
  next
    case False
    have "slice (length ?A) (length ?A + count) v = take count ?B"
      by (subst (3) cut) (simp add: slice_def)
    then have result: "get_before external uid key v count before =
        (if length ?B < count
         then take count ?B @ query_before full (int count - int (length ?B)) (fst (last ?B))
         else take count ?B)"
      using False answers_fromD(1) [OF src] count
      by (auto simp: get_before_def find_index_before [OF nf] concat_external_def nat_int_add Let_def)
    have older: "filter (\<lambda>d. fst d < before) older = older"
    proof -
      have "last ?B \<in> set v" "fst (last ?B) < before" using last_in_set [OF False] by auto
      then have "fst y < before" if "y \<in> set older" for y
        using that full by (fastforce simp: v strictly_append)
      then show ?thesis by (simp add: filter_id_conv)
    qed
    show ?thesis
    proof (cases "length ?B < count")
      case False
      then show ?thesis by (simp add: result query_before_def v)
    next
      case True
      have "last v = last ?B" by (subst cut) (use False in simp)
      have "\<not> fst d < fst (last v)" if "d \<in> set v" for d
        using that nf v(2) by (cases v rule: rev_cases) auto
      then have "filter (\<lambda>d. fst d < fst (last ?B)) v = []"
        using \<open>last v = last ?B\<close> by (simp add: filter_empty_conv)
      moreover have "filter (\<lambda>d. fst d < fst (last ?B)) older = older"
        using full last_in_set [OF v(2)] \<open>last v = last ?B\<close> by (auto simp: v strictly_append filter_id_conv)
      ultimately have "query_before full (int count - int (length ?B)) (fst (last ?B)) =
          take (count - length ?B) older"
        by (simp add: query_before_def v nat_minus_as_int)
      then show ?thesis using True by (simp add: result query_before_def v older)
    qed
  qed
qed

text \<open>
  The external source may lag behind: it holds the history without its newest samples, \<open>fresh\<close>, which are still
  among the local values. What the local values and the source share is not taken twice.
\<close>

lemma filter_after_older:
  assumes "strictly_newest_first (fresh @ held)" and "d \<in> set fresh" and "e \<in> set held"
  shows "\<not> fst d < fst e" and "fst e < fst d"
  using assms by (auto simp: strictly_append dest: less_asym)

lemma drop_last_drop:
  assumes "a \<le> length xs - c"
  shows "drop (length (drop a xs) - c) (drop a xs) = drop (length xs - c) xs"
proof -
  have "length xs - a - c + a = length xs - c" using assms by arith
  then show ?thesis by simp
qed

lemma merge_lagging:
  assumes full: "strictly_newest_first (fresh @ held)" and v: "v = fresh @ mid" "held = mid @ older"
    and after: "\<forall>d\<in>set v. after < fst d" and count: "0 < count"
    and Q: "drop (length held' - count) held' = (n, x) # q" "held' = filter (\<lambda>d. after < fst d) held"
    and m: "m = take (nat (find_last_index (\<lambda>d. n < fst d) (drop (length v - count) v) + 1))
      (drop (length v - count) v)"
  shows "drop (length (m @ (n, x) # q) - count) (m @ (n, x) # q) =
      drop (length (fresh @ held') - count) (fresh @ held')"
proof (cases "count \<le> length held'")
  case True
  then have "length ((n, x) # q) = count" using arg_cong [OF Q(1), of length] by simp
  then show ?thesis using True by (simp flip: Q(1))
next
  case few: False
  have held': "held' = mid @ filter (\<lambda>d. after < fst d) older"
    using after by (auto simp: Q(2) v intro!: filter_True)
  then have mid: "length mid < count" using few by simp
  have Q': "(n, x) # q = held'" using Q(1) few by simp
  let ?r = "drop (length v - count) v"
  have r: "?r = drop (length v - count) fresh @ mid" using mid by (simp add: v)
  have nf: "newest_first ?r"
  proof -
    have "strictly_newest_first v" using full by (simp add: v strictly_append)
    then show ?thesis
      using strictly_newest_first_imp unfolding newest_first_def by (metis sorted_wrt_drop)
  qed
  have n: "(n, x) \<in> set held" using Q(2) Q' by (metis filter_is_subset list.set_intros(1) subsetD)
  have "\<forall>d\<in>set fresh. n < fst d" using filter_after_older(2) [OF full _ n] by auto
  then have "filter (\<lambda>d. n < fst d) (drop (length v - count) fresh) = drop (length v - count) fresh"
    by (auto intro!: filter_True dest: in_set_dropD)
  moreover have "filter (\<lambda>d. n < fst d) mid = []"
  proof (cases mid)
    case (Cons y ys)
    then have "y = (n, x)" using Q' held' by simp
    moreover have "\<not> fst y < fst e" if "e \<in> set mid" for e
      using full that by (auto simp: v Cons strictly_newest_first_def sorted_wrt_append dest: less_asym)
    ultimately show ?thesis by (auto simp: filter_empty_conv)
  qed simp
  ultimately have "filter (\<lambda>d. n < fst d) ?r = drop (length v - count) fresh" by (simp add: r)
  then have "m = drop (length v - count) fresh"
    by (simp add: m find_index_filter(2) [OF nf]) (simp add: r)
  then have "m @ (n, x) # q = drop (length v - count) (fresh @ held')" using Q' mid by (simp add: v)
  moreover have "length v - count \<le> length (fresh @ held') - count" by (simp add: v held')
  ultimately show ?thesis by (simp only: drop_last_drop)
qed

text \<open>The local values that are newer, and the answer when they are all that is local.\<close>

lemma after_slice:
  assumes "newest_first v"
  shows "slice (nat (max (int (length (filter (\<lambda>d. after < fst d) v)) - 1 - int count + 1) 0))
      (length (filter (\<lambda>d. after < fst d) v)) v =
    drop (length (filter (\<lambda>d. after < fst d) v) - count) (filter (\<lambda>d. after < fst d) v)"
    (is "slice (nat (max (int (length ?A) - 1 - int count + 1) 0)) _ v = _")
proof -
  have "nat (max (int (length ?A) - 1 - int count + 1) 0) = length ?A - count" by auto
  then show ?thesis
    by (subst (3) newest_first_split [OF assms, of after]) (simp add: slice_def drop_append take_append)
qed

lemma get_after_all_newer:
  assumes full: "strictly_newest_first (fresh @ held)" and src: "answers_from external uid key held"
    and v: "v = fresh @ mid" "held = mid @ older" "v \<noteq> []" and newer: "\<forall>d\<in>set v. after < fst d"
    and count: "0 < count"
  shows "get_after external uid key v count after = query_after (fresh @ held) (int count) after"
proof -
  define H where "H = filter (\<lambda>d. after < fst d) held"
  have "strictly_newest_first v" using full by (simp add: v strictly_append)
  note nf = strictly_newest_first_imp [OF this]
  have all: "filter (\<lambda>d. after < fst d) v = v" using newer by simp
  note index = find_index_filter(2) [OF nf, of after, unfolded all]
    and slice = after_slice [OF nf, of after count, unfolded all]
  have F: "filter (\<lambda>d. after < fst d) (fresh @ held) = fresh @ H" using newer by (simp add: H_def v)
  have Q: "external uid key (int count) (Some after) None = Some (drop (length H - count) H)"
    using answers_fromD(2) [OF src] by (simp add: query_after_def Let_def H_def)
  show ?thesis
  proof (cases "drop (length H - count) H")
    case Nil
    then have "H = []" using count by (cases H) auto
    then have "mid = []" using newer by (simp add: H_def v)
    then have "filter (\<lambda>d. after < fst d) (fresh @ held) = v" using F \<open>H = []\<close> v(1) by simp
    then show ?thesis
      using v(3) index slice Q \<open>H = []\<close> by (simp only: query_after_def) (simp add: get_after_def Let_def nat_int_add)
  next
    case (Cons d q)
    obtain n x where d: "d = (n, x)" by (cases d)
    show ?thesis
      using merge_lagging [OF full v(1,2) newer count Cons [unfolded d] H_def refl] v(3) index slice Q F Cons
      by (simp add: get_after_def query_after_def Let_def d)
  qed
qed


text \<open>
  Without a bound, the external source is asked for its newest values although the newest are local:
  from a source that answers from the whole history they come twice.
\<close>

text \<open>
  Newest values. Without a bound the external source is asked for its newest values again: when the local
  values do not suffice, the newest samples come twice.
\<close>

lemma get_newest_duplicates:
  assumes src: "answers_from external uid key full" and v: "full = v @ older" and count: "length v < count"
  shows "get_newest external uid key v count = v @ take (count - length v) full"
  using answers_fromD(3) [OF src] count
  by (simp add: get_newest_def concat_external_def nat_diff_distrib)

text \<open>A range that ends within the local values is answered from them.\<close>

lemma get_between_local:
  assumes nf: "newest_first v" and "after < before"
    and inside: "filter (\<lambda>d. fst d \<le> after) v \<noteq> []"
  shows "get_between external uid key v count after before sampling =
    Inr (filter (\<lambda>d. after < fst d \<and> fst d < before) v)"
proof -
  let ?A = "filter (\<lambda>d. after < fst d) v" and ?N = "filter (\<lambda>d. \<not> fst d < before) v"
  have cutA: "v = ?A @ filter (\<lambda>d. \<not> after < fst d) v" by (rule newest_first_split [OF nf])
  have nfA: "newest_first ?A" by (rule newest_first_filter [OF nf])
  have "filter (\<lambda>d. \<not> fst d < before) ?A = ?N"
    "filter (\<lambda>d. fst d < before) ?A = filter (\<lambda>d. after < fst d \<and> fst d < before) v"
    unfolding filter_filter using assms(2) by (auto intro!: filter_cong)
  then have cutN: "?A = ?N @ filter (\<lambda>d. after < fst d \<and> fst d < before) v"
    using newest_first_cut [OF nfA, of before] by simp
  have later: "filter (\<lambda>d. fst d < before) v \<noteq> []"
    using inside assms(2) by (fastforce simp: filter_empty_conv)
  have short: "length ?A < length v"
    using inside by (subst (2) cutA) (simp add: not_less)
  have slice: "slice (length ?N) (length ?A) v = filter (\<lambda>d. after < fst d \<and> fst d < before) v"
  proof -
    have "slice (length ?N) (length ?A) v = drop (length ?N) (take (length ?A) v)"
      using arg_cong [OF cutN, of length] by (simp add: slice_def take_drop add.commute)
    also have "take (length ?A) v = ?A" by (subst (2) cutA) simp
    also have "drop (length ?N) ?A = filter (\<lambda>d. after < fst d \<and> fst d < before) v"
      by (subst cutN) simp
    finally show ?thesis .
  qed
  show ?thesis
  proof (cases "?A = []")
    case True
    then have "filter (\<lambda>d. after < fst d \<and> fst d < before) v = []" using cutN by simp
    then show ?thesis
      using True assms(2) find_index_filter(2) [OF nf, of after] by (simp add: get_between_def)
  next
    case False
    then show ?thesis
      using assms(2) find_index_filter(2) [OF nf, of after] find_index_before [OF nf, of before] later
        short slice
      by (simp add: get_between_def Let_def)
  qed
qed

section \<open>Down-sampling\<close>

lemma sample_round: "0 < d \<Longrightarrow> sample_index SamplingRound n d < m \<longleftrightarrow> 2 * n + d < 2 * d * m"
  by (simp add: sample_index_def div_less_iff_less_mult mult.commute)

text \<open>
  The loop takes exactly the number of samples asked for, and every index, whatever the rounding, is
  one of the array.
\<close>

lemma downsample_length:
  assumes c: "0 < c" "c < length xs"
  shows "length (downsample sampling c xs) = c"
    and "k < c \<Longrightarrow> sample_index sampling (k * length xs) c < length xs"
proof -
  let ?n = "length xs"
  have bound: "sample_index SamplingRound (k * ?n) c < ?n \<longleftrightarrow> k < c" for k
  proof
    assume "sample_index SamplingRound (k * ?n) c < ?n"
    then have "2 * (k * ?n) + c < 2 * c * ?n" by (simp add: sample_round c)
    then have "k * ?n < c * ?n" by linarith
    then show "k < c" by simp
  next
    assume "k < c"
    then have "(k + 1) * ?n \<le> c * ?n" by (intro mult_right_mono) auto
    then have "k * ?n + ?n \<le> c * ?n" by simp
    then have "2 * (k * ?n) + c < 2 * (c * ?n)" using c by linarith
    then show "sample_index SamplingRound (k * ?n) c < ?n" by (simp add: sample_round c mult.assoc)
  qed
  have "takeWhile (\<lambda>k. sample_index SamplingRound (k * ?n) c < ?n) [0..<Suc ?n] = [0..<c]"
  proof -
    have "takeWhile (\<lambda>k. k < c) ([0..<c] @ [c..<Suc ?n]) = [0..<c]"
      using c by (subst takeWhile_append2) (auto simp: upt_conv_Cons)
    moreover have "[0..<c] @ [c..<Suc ?n] = [0..<Suc ?n]"
      using upt_add_eq_append [of 0 c "Suc ?n - c"] c by simp
    ultimately show ?thesis by (simp only: bound)
  qed
  then show "length (downsample sampling c xs) = c" by (simp add: downsample_def)
  show "sample_index sampling (k * ?n) c < ?n" if "k < c"
  proof -
    have "(k + 1) * ?n \<le> c * ?n" using that by (intro mult_right_mono) auto
    then have le: "k * ?n + c < c * ?n" using c by simp
    have div: "m < d * ?n \<Longrightarrow> 0 < d \<Longrightarrow> m div d < ?n" for m d :: nat
      by (simp add: div_less_iff_less_mult mult.commute)
    have "(k * ?n + c - 1) div c < ?n" "k * ?n div c < ?n" "(2 * (k * ?n) + c) div (2 * c) < ?n"
      by (rule div; use le c in linarith)+
    then show ?thesis by (cases sampling) (simp_all add: sample_index_def)
  qed
qed

section \<open>Properties\<close>

text \<open>
  Down-sampling. The loop takes exactly the number of samples it is to take, at indices that are inside the
  array, whatever the rounding.
\<close>

lemma downsample_exact:
  assumes "0 < c" and "c < length xs"
  shows "length (downsample sampling c xs) = c \<and> set (downsample sampling c xs) \<subseteq> set xs"
proof -
  have len: "length (downsample sampling c xs) = c" by (rule downsample_length(1) [OF assms])
  let ?ks = "takeWhile (\<lambda>k. sample_index SamplingRound (k * length xs) c < length xs) [0..<Suc (length xs)]"
  have ks: "downsample sampling c xs = map (\<lambda>k. xs ! sample_index sampling (k * length xs) c) ?ks"
    by (simp add: downsample_def)
  then have "length ?ks = c" using len by simp
  then have "?ks = take c [0..<Suc (length xs)]" by (metis takeWhile_eq_take)
  then have "\<forall>k\<in>set ?ks. k < c" using assms by (simp add: take_upt del: upt_Suc)
  then have "\<forall>k\<in>set ?ks. sample_index sampling (k * length xs) c < length xs"
    using downsample_length(2) [OF assms] by blast
  then show ?thesis using len by (auto simp: ks)
qed

section \<open>Instances of the properties\<close>

definition sample_full :: "string samples" where
  "sample_full = [(9, ''z''), (5, ''y''), (3, ''x''), (1, ''w'')]"

definition sample_external :: "string external" where
  "sample_external uid key count after before =
     (case (after, before) of
        (None, Some b) \<Rightarrow> Some (query_before sample_full count b)
      | (Some a, None) \<Rightarrow> Some (query_after sample_full count a)
      | (None, None) \<Rightarrow> Some (take (nat count) sample_full)
      | (Some a, Some b) \<Rightarrow> None)"

lemma sample_full_ok: "strictly_newest_first sample_full" "answers_from sample_external uid key sample_full"
  by (simp_all add: strictly_newest_first_def sample_full_def answers_from_def sample_external_def)

theorem get_before_correct_witness:
  "get_before sample_external ''u'' [''a''] [(9, ''z''), (5, ''y'')] 2 6 = [(5, ''y''), (3, ''x'')]"
  using get_before_correct [OF sample_full_ok, of "[(9, ''z''), (5, ''y'')]" "[(3, ''x''), (1, ''w'')]" 2 "''u''" "[''a'']" 6]
  by (simp add: sample_full_def query_before_def)

text \<open>A source that does not have the newest sample yet; the second is both there and local.\<close>

definition lagging_external :: "string external" where
  "lagging_external uid key count after before =
     (case (after, before) of
        (None, Some b) \<Rightarrow> Some (query_before (drop 1 sample_full) count b)
      | (Some a, None) \<Rightarrow> Some (query_after (drop 1 sample_full) count a)
      | (None, None) \<Rightarrow> Some (take (nat count) (drop 1 sample_full))
      | (Some a, Some b) \<Rightarrow> None)"


lemma get_newest_duplicates_witness:
  "get_newest sample_external ''u'' [''a''] [(9, ''z'')] 2 = [(9, ''z''), (9, ''z'')]"
  using get_newest_duplicates [OF sample_full_ok(2), of "[(9, ''z'')]" "[(5, ''y''), (3, ''x''), (1, ''w'')]" 2 "''u''" "[''a'']"]
  by (simp add: sample_full_def)

theorem downsample_exact_witness: "length (downsample SamplingOldest 2 [1, 2, 3, 4, 5 :: int]) = 2"
  using downsample_exact [of 2 "[1, 2, 3, 4, 5 :: int]" SamplingOldest] by simp

end
