(* ===== verification/Records.thy ===== *)
theory Records
  imports Json "HOL-Library.Sublist"
begin

text \<open>
  \<open>apps/artifacts/plugins/nodes/records/{records,reader}.js\<close>: an append-only log of payloads on disk, split
  over the files of a storage, with a limit on its size, and its reader.

  A file is named after the tick of its first record, \<open><tick>.rec\<close>, or \<open><tick>.rec.gz\<close> when it is compressed;
  names are relative to the directory of the storage. The content of a file is what its text parses
  to: the version and the records (decompressed, for a name that ends in \<open>.gz\<close>), or \<open>Malformed\<close> with its
  length in characters and in bytes. The lengths of records as text, in characters and in bytes, and the size
  of a compressed text are parameters. The operations on a storage hold its lock, so each is a function.
\<close>

section \<open>Names and contents\<close>

definition rec_name :: "nat \<Rightarrow> string" where
  "rec_name tick = nat_to_string tick @ ''.rec''"

definition getTickFromPath :: "string \<Rightarrow> nat option" where
  "getTickFromPath name =
     (let digits = takeWhile is_digit name; rest = dropWhile is_digit name
      in if digits \<noteq> [] \<and> (rest = ''.rec'' \<or> rest = ''.rec.gz'') then Some (string_to_nat digits) else None)"

text \<open>A record: tick, payload, length of the serialized payload, remote tick.\<close>

type_synonym 'p item = "nat \<times> 'p \<times> nat \<times> nat option"

datatype 'p content = Content nat "'p item list" | Malformed nat nat

record 'p r_options =
  recordMaxSize :: nat
  maxSize :: nat
  serializedLength :: "'p \<Rightarrow> nat"
  itemLength :: "'p item \<Rightarrow> nat"
  itemBytes :: "'p item \<Rightarrow> nat"
  gzBytes :: "'p content \<Rightarrow> nat"

definition records_version :: nat where
  "records_version = 3"

text \<open>The length of \<open>{"version":3,"records":[\<close>.\<close>

definition header_length :: "nat \<Rightarrow> nat" where
  "header_length version = 23 + length (nat_to_string version)"

fun content_length :: "'p r_options \<Rightarrow> 'p content \<Rightarrow> nat" where
  "content_length opts (Content version items) =
     header_length version + sum_list (map (itemLength opts) items)"
| "content_length opts (Malformed chars bytes) = chars"

fun content_bytes :: "'p r_options \<Rightarrow> 'p content \<Rightarrow> nat" where
  "content_bytes opts (Content version items) =
     header_length version + sum_list (map (itemBytes opts) items)"
| "content_bytes opts (Malformed chars bytes) = bytes"

definition stat_size :: "'p r_options \<Rightarrow> string \<Rightarrow> 'p content \<Rightarrow> nat" where
  "stat_size opts name c = (if suffix ''.gz'' name then gzBytes opts c else content_bytes opts c)"

type_synonym 'p r_files = "(string \<times> 'p content) list"

definition readRecord :: "'p r_files \<Rightarrow> string \<Rightarrow> 'p content outcome" where
  "readRecord files name =
     (if suffix ''.rec'' name \<or> suffix ''.gz'' name
      then (case map_of files name of None \<Rightarrow> Inl (Raised ''ENOENT'') | Some c \<Rightarrow> Inr c)
      else Inl Unreachable)"

definition payloadToList :: "'p content \<Rightarrow> 'p item list outcome" where
  "payloadToList c =
     (case c of
        Content version items \<Rightarrow> if version = records_version then Inr items else Inl AssertFailed
      | Malformed chars bytes \<Rightarrow> Inl (Raised ''SyntaxError''))"

text \<open>\<open>touch\<close> and the header; a file that is there already does not parse any more.\<close>

definition create_record :: "'p r_options \<Rightarrow> string \<Rightarrow> 'p r_files \<Rightarrow> 'p r_files" where
  "create_record opts name files =
     AList.update name
       (case map_of files name of
          None \<Rightarrow> Content records_version []
        | Some c \<Rightarrow> Malformed (content_length opts c + header_length records_version)
                      (content_bytes opts c + header_length records_version)) files"

definition append_item :: "'p r_options \<Rightarrow> string \<Rightarrow> 'p item \<Rightarrow> 'p r_files \<Rightarrow> 'p r_files" where
  "append_item opts name item files =
     AList.update name
       (case map_of files name of
          None \<Rightarrow> Malformed (itemLength opts item) (itemBytes opts item)
        | Some (Content version items) \<Rightarrow> Content version (items @ [item])
        | Some (Malformed chars bytes) \<Rightarrow>
            Malformed (chars + itemLength opts item) (bytes + itemBytes opts item)) files"

section \<open>Writing\<close>

record r_entry =
  r_tick :: nat
  r_name :: string
  r_size :: nat

record 'p r_storage =
  r_files :: "'p r_files"
  r_records :: "r_entry list option"
  r_tickRemote :: "nat option"

text \<open>The loop that removes the oldest files while the storage is too large.\<close>

fun evict_records :: "nat \<Rightarrow> nat \<Rightarrow> r_entry list \<Rightarrow> 'p r_files \<Rightarrow> r_entry list \<times> 'p r_files" where
  "evict_records limit used [] files = ([], files)"
| "evict_records limit used (e # es) files =
     (if used > limit
      then evict_records limit (used - r_size e) es (AList.delete (r_name e) files)
      else (e # es, files))"

definition addRecordEntry :: "'p r_options \<Rightarrow> nat \<Rightarrow> string option \<Rightarrow> 'p r_storage \<Rightarrow>
    'p r_storage \<times> r_entry outcome" where
  "addRecordEntry opts tick path s =
     (case r_records s of
        None \<Rightarrow> (s, Inl TypeErr)
      | Some records \<Rightarrow>
          let index = find_last_index (\<lambda>e. r_tick e \<le> tick) records
          in if \<not> (index = -1 \<or> r_tick (records ! nat index) < tick) then (s, Inl AssertFailed)
             else
               let name = (case path of None \<Rightarrow> rec_name tick | Some p \<Rightarrow> p);
                   files = (case path of None \<Rightarrow> create_record opts name (r_files s) | Some _ \<Rightarrow> r_files s)
               in (case map_of files name of
                     None \<Rightarrow> (s\<lparr>r_files := files\<rparr>, Inl (Raised ''ENOENT''))
                   | Some c \<Rightarrow>
                       let entry = \<lparr>r_tick = tick, r_name = name, r_size = stat_size opts name c\<rparr>;
                           inserted = splice_insert (nat (index + 1)) entry records;
                           (kept, files') = evict_records (maxSize opts - recordMaxSize opts)
                              (sum_list (map r_size inserted)) inserted files
                       in (s\<lparr>r_files := files', r_records := Some kept\<rparr>, Inr entry)))"

text \<open>An entry is a reference: what is assigned to it changes the list.\<close>

definition change_entry :: "string \<Rightarrow> (r_entry \<Rightarrow> r_entry) \<Rightarrow> r_entry list \<Rightarrow> r_entry list" where
  "change_entry name f records = map (\<lambda>e. if r_name e = name then f e else e) records"

definition compressEntry :: "'p r_options \<Rightarrow> r_entry \<Rightarrow> 'p r_storage \<Rightarrow> 'p r_storage \<times> unit outcome" where
  "compressEntry opts entry s =
     (case readRecord (r_files s) (r_name entry) of
        Inl e \<Rightarrow> (s, Inl e)
      | Inr c \<Rightarrow>
          let newName = r_name entry @ ''.gz''
          in (s\<lparr>r_files := AList.delete (r_name entry) (AList.update newName c (r_files s)),
                r_records := map_option (change_entry (r_name entry)
                   (\<lambda>e. e\<lparr>r_name := newName, r_size := gzBytes opts c\<rparr>)) (r_records s)\<rparr>, Inr ()))"

definition getLastEntryForWriting :: "'p r_options \<Rightarrow> nat \<Rightarrow> nat \<Rightarrow> 'p r_storage \<Rightarrow>
    'p r_storage \<times> r_entry outcome" where
  "getLastEntryForWriting opts tick payloadSize s =
     (case r_records s of
        None \<Rightarrow> (s, Inl PreconditionFailed)
      | Some records \<Rightarrow>
          (case (if records = [] then (s, Inr None)
                 else
                   let entry = last records
                   in if r_size entry + payloadSize > recordMaxSize opts
                      then (case compressEntry opts entry s of
                              (s', Inl e) \<Rightarrow> (s', Inl e) | (s', Inr _) \<Rightarrow> (s', Inr None))
                      else (s, Inr (if suffix ''.rec'' (r_name entry) then Some entry else None))) of
             (s', Inl e) \<Rightarrow> (s', Inl e)
           | (s', Inr (Some entry)) \<Rightarrow> (s', Inr entry)
           | (s', Inr None) \<Rightarrow> addRecordEntry opts tick None s'))"

definition write_storage :: "'p r_options \<Rightarrow> nat \<Rightarrow> 'p \<Rightarrow> nat option \<Rightarrow> 'p r_storage \<Rightarrow>
    'p r_storage \<times> unit outcome" where
  "write_storage opts tick payload tickRemote s =
     (let item = (tick, payload, serializedLength opts payload, tickRemote);
          n = itemLength opts item
      in (case getLastEntryForWriting opts tick n s of
            (s', Inl e) \<Rightarrow> (s', Inl e)
          | (s', Inr entry) \<Rightarrow>
              (s'\<lparr>r_files := append_item opts (r_name entry) item (r_files s'),
                  r_records := map_option (change_entry (r_name entry) (\<lambda>e. e\<lparr>r_size := r_size e + n\<rparr>))
                                 (r_records s'),
                  r_tickRemote := tickRemote\<rparr>, Inr ())))"

text \<open>All the storages and the tick they share.\<close>

record 'p r_state =
  r_storages :: "(string \<times> 'p r_storage) list"
  r_ticks :: nat

definition getTickRemote :: "string \<Rightarrow> nat option \<Rightarrow> 'p r_state \<Rightarrow> nat option outcome" where
  "getTickRemote storageName defaultValue st =
     (case map_of (r_storages st) storageName of
        None \<Rightarrow> Inl AssertFailed
      | Some s \<Rightarrow> Inr (case r_tickRemote s of None \<Rightarrow> defaultValue | Some tick \<Rightarrow> Some tick))"

definition records_write :: "'p r_options \<Rightarrow> 'p \<Rightarrow> string \<Rightarrow> nat option \<Rightarrow> 'p r_state \<Rightarrow>
    'p r_state \<times> unit outcome" where
  "records_write opts payload storageName tickRemote st =
     (case map_of (r_storages st) storageName of
        None \<Rightarrow> (st, Inl AssertFailed)
      | Some s \<Rightarrow>
          (case write_storage opts (r_ticks st + 1) payload tickRemote s of
             (s', r) \<Rightarrow>
               (\<lparr>r_storages = AList.update storageName s' (r_storages st), r_ticks = r_ticks st + 1\<rparr>, r)))"

section \<open>Opening\<close>

text \<open>
  \<open>_sanitizeStorage\<close>: the loop over the records of a file gives the last tick and remote tick, the
  payloads that were passed to the callback, and whether the ticks increase.
\<close>

fun check_items :: "int \<Rightarrow> nat option \<Rightarrow> 'p item list \<Rightarrow> int \<times> nat option \<times> 'p list \<times> bool" where
  "check_items tick remoteTick [] = (tick, remoteTick, [], True)"
| "check_items tick remoteTick ((t, payload, _, remoteT) # items) =
     (if \<not> int t > tick then (tick, remoteTick, [], False)
      else (case check_items (int t) remoteT items of
              (tick', remote', payloads, ok) \<Rightarrow> (tick', remote', payload # payloads, ok)))"

definition sanitize_record :: "'p r_options \<Rightarrow> 'p r_files \<Rightarrow> r_entry \<Rightarrow> nat option \<Rightarrow>
    int \<times> nat option \<times> 'p list \<times> nat outcome" where
  "sanitize_record opts files e remoteTick =
     (let tick = int (r_tick e) - 1
      in (case readRecord files (r_name e) of
            Inl er \<Rightarrow> (tick, remoteTick, [], Inl er)
          | Inr c \<Rightarrow>
              if suffix ''.rec'' (r_name e) \<and> content_length opts c \<noteq> r_size e
              then (tick, remoteTick, [], Inl AssertFailed)
              else (case payloadToList c of
                      Inl er \<Rightarrow> (tick, remoteTick, [], Inl er)
                    | Inr items \<Rightarrow>
                        (case check_items tick remoteTick items of
                           (tick', remote', payloads, ok) \<Rightarrow>
                             (tick', remote', payloads,
                              if \<not> ok then Inl AssertFailed
                              else if length items > 1 \<and> r_size e > recordMaxSize opts then Inl AssertFailed
                              else Inr (length items))))))"

fun sanitize_loop :: "'p r_options \<Rightarrow> 'p r_files \<Rightarrow> r_entry list \<Rightarrow>
    int option \<Rightarrow> nat option \<Rightarrow> nat \<Rightarrow> bool \<Rightarrow> r_entry list \<Rightarrow> 'p list \<Rightarrow>
    (int option \<times> nat option \<times> nat \<times> bool \<times> r_entry list \<times> 'p list) outcome" where
  "sanitize_loop opts files [] tick remoteTick totalSize allSingle toDelete payloads =
     Inr (tick, remoteTick, totalSize, allSingle, toDelete, payloads)"
| "sanitize_loop opts files (e # es) tick remoteTick totalSize allSingle toDelete payloads =
     (if getTickFromPath (r_name e) \<noteq> Some (r_tick e) then Inl AssertFailed
      else if (case tick of None \<Rightarrow> False | Some t \<Rightarrow> \<not> int (r_tick e) > t) then Inl AssertFailed
      else (case sanitize_record opts files e remoteTick of
              (t, remote', ps, Inl er) \<Rightarrow>
                sanitize_loop opts files es (Some t) remote' totalSize allSingle (toDelete @ [e]) (payloads @ ps)
            | (t, remote', ps, Inr n) \<Rightarrow>
                sanitize_loop opts files es (Some t) remote' (totalSize + r_size e) (allSingle \<and> n = 1)
                  toDelete (payloads @ ps)))"

definition delete_record :: "r_entry \<Rightarrow> 'p r_storage \<Rightarrow> 'p r_storage" where
  "delete_record e s =
     s\<lparr>r_records := map_option (\<lambda>records.
          let index = find_index (\<lambda>x. r_name x = r_name e) records
          in if index = -1 then records else splice_remove (nat index) records) (r_records s),
       r_files := AList.delete (r_name e) (r_files s)\<rparr>"

definition sanitizeStorage :: "'p r_options \<Rightarrow> 'p r_storage \<Rightarrow>
    'p r_storage \<times> (int option \<times> nat option \<times> 'p list) outcome" where
  "sanitizeStorage opts s =
     (case r_records s of
        None \<Rightarrow> (s, Inl TypeErr)
      | Some records \<Rightarrow>
          (case sanitize_loop opts (r_files s) records None None 0 True [] [] of
             Inl e \<Rightarrow> (s, Inl e)
           | Inr (tick, remoteTick, totalSize, allSingle, toDelete, payloads) \<Rightarrow>
               (if \<not> allSingle \<and> totalSize > maxSize opts then (s, Inl AssertFailed)
                else (fold delete_record toDelete s, Inr (tick, remoteTick, payloads)))))"

text \<open>\<open>init\<close>, for a storage: the files in the order of the directory, those with other names removed.\<close>

fun add_files :: "'p r_options \<Rightarrow> string list \<Rightarrow> 'p r_storage \<Rightarrow> 'p r_storage \<times> unit outcome" where
  "add_files opts [] s = (s, Inr ())"
| "add_files opts (name # names) s =
     (case getTickFromPath name of
        None \<Rightarrow> add_files opts names (s\<lparr>r_files := AList.delete name (r_files s)\<rparr>)
      | Some tick \<Rightarrow>
          (case addRecordEntry opts tick (Some name) s of
             (s', Inl e) \<Rightarrow> (s', Inl e)
           | (s', Inr _) \<Rightarrow> add_files opts names s'))"

definition init_storage :: "'p r_options \<Rightarrow> bool \<Rightarrow> 'p r_files \<Rightarrow> nat \<Rightarrow>
    'p r_storage \<times> (nat \<times> 'p list) outcome" where
  "init_storage opts clean found tick =
     (let files = (if clean then [] else found)
      in (case add_files opts (map fst files) \<lparr>r_files = files, r_records = Some [], r_tickRemote = None\<rparr> of
            (s, Inl e) \<Rightarrow> (s, Inl e)
          | (s, Inr _) \<Rightarrow>
              (case sanitizeStorage opts s of
                 (s', Inl e) \<Rightarrow> (s', Inl e)
               | (s', Inr (t, remoteTick, payloads)) \<Rightarrow>
                   (s'\<lparr>r_tickRemote := remoteTick\<rparr>,
                    Inr (nat (max (int tick) (case t of None \<Rightarrow> 0 | Some t \<Rightarrow> t)), payloads)))))"

section \<open>Reading\<close>

record rd_entry =
  rd_tick :: nat
  rd_name :: string
  rd_hash :: nat

text \<open>\<open>discover\<close>: the files of a storage with their sizes, sorted by tick.\<close>

definition discover :: "'p r_options \<Rightarrow> 'p r_files \<Rightarrow> rd_entry list" where
  "discover opts files =
     sort_key rd_tick
       (map (\<lambda>(name, c). \<lparr>rd_tick = the (getTickFromPath name), rd_name = name, rd_hash = stat_size opts name c\<rparr>)
          (filter (\<lambda>(name, c). getTickFromPath name \<noteq> None) files))"

text \<open>
  One pass of \<open>_readStorageByChunk\<close> over the files: the records found, what was processed, and how many
  files were. A file that cannot be read ends the pass.
\<close>

fun fetch_scan :: "nat \<Rightarrow> 'p r_files \<Rightarrow> rd_entry list \<Rightarrow> (string \<times> nat) list \<Rightarrow> nat \<Rightarrow>
    'p item list option \<times> (string \<times> nat) list \<times> nat" where
  "fetch_scan tick files [] memoization n = (None, memoization, n)"
| "fetch_scan tick files (e # es) memoization n =
     (if map_of memoization (rd_name e) = Some (rd_hash e) then fetch_scan tick files es memoization n
      else
        let memo = AList.update (rd_name e) (rd_hash e) memoization
        in (case outcome_bind (readRecord files (rd_name e)) payloadToList of
              Inl _ \<Rightarrow> (None, memo, n + 1)
            | Inr payloads \<Rightarrow>
                let indexPayload = find_index (\<lambda>(t, _). t \<ge> tick) payloads
                in if indexPayload \<noteq> -1 then (Some (drop (nat indexPayload) payloads), memo, n + 1)
                   else fetch_scan tick files es memo (n + 1)))"

partial_function (option) fetch_loop :: "'p r_options \<Rightarrow> nat \<Rightarrow> 'p r_files \<Rightarrow> rd_entry list \<Rightarrow>
    (string \<times> nat) list \<Rightarrow> nat \<Rightarrow> (rd_entry list \<times> 'p item list option) option" where
  "fetch_loop opts tick files known memoization recordsProcessed =
     (let entries = (if known = [] \<or> recordsProcessed > 0 then discover opts files else known);
          index = find_last_index (\<lambda>e. rd_tick e \<le> tick) entries
      in (case fetch_scan tick files (drop (nat (if index = -1 then 0 else index)) entries) memoization 0 of
            (Some items, _, _) \<Rightarrow> Some (entries, Some items)
          | (None, memo, n) \<Rightarrow>
              if n > 0 then fetch_loop opts tick files entries memo n else Some (entries, None)))"

text \<open>\<open>_readStorage\<close>: chunk after chunk, with what the reader knows of the files.\<close>

partial_function (option) read_storage :: "'p r_options \<Rightarrow> 'p r_files \<Rightarrow> rd_entry list \<Rightarrow> nat \<Rightarrow>
    'p item list option" where
  "read_storage opts files known tick =
     Option.bind (fetch_loop opts tick files known [] 0)
       (\<lambda>(entries, chunk).
          case chunk of
            None \<Rightarrow> Some []
          | Some items \<Rightarrow>
              Option.bind (read_storage opts files entries (fst (last items) + 1)) (\<lambda>rest. Some (items @ rest)))"

text \<open>
  \<open>read\<close>: the storages merged. \<open>getMinIndex\<close> compares the element 1 of the records, their payloads, with the
  operator \<open><\<close>, which is a parameter.
\<close>

definition min_index :: "('p \<Rightarrow> 'p \<Rightarrow> bool) \<Rightarrow> 'p item list list \<Rightarrow> nat" where
  "min_index lt its =
     fold (\<lambda>i m. if lt (fst (snd (hd (its ! i)))) (fst (snd (hd (its ! m)))) then i else m) [0..<length its] 0"

lemma min_index_less: "its \<noteq> [] \<Longrightarrow> min_index lt its < length its"
proof -
  assume ne: "its \<noteq> []"
  have "fold (\<lambda>i m. if f i m then i else m) is a < n" if "a < n" "\<forall>i\<in>set is. i < n"
    for f :: "nat \<Rightarrow> nat \<Rightarrow> bool" and a "is" n
    using that by (induction "is" arbitrary: a) auto
  then show ?thesis using ne by (simp add: min_index_def)
qed

text \<open>The iterators that have a value: their lists are not empty.\<close>

function merge_read :: "('p \<Rightarrow> 'p \<Rightarrow> bool) \<Rightarrow> 'p item list list \<Rightarrow> 'p item list" where
  "merge_read lt its =
     (let live = filter (\<lambda>xs. xs \<noteq> []) its
      in if live = [] then []
         else let i = min_index lt live
              in hd (live ! i) # merge_read lt (live[i := tl (live ! i)]))"
  by pat_completeness auto
termination
proof (relation "measure (\<lambda>(lt, its). sum_list (map length its))", goal_cases)
  case (2 lt its live i)
  have i: "i < length live" using 2 min_index_less by blast
  then have ne: "live ! i \<noteq> []" using 2(1) nth_mem by fastforce
  have "sum_list (map length live) \<le> sum_list (map length its)"
    unfolding 2(1) by (induction its) auto
  moreover have "sum_list (map length (live[i := tl (live ! i)])) < sum_list (map length live)"
  proof -
    have "length (tl (live ! i)) < length (live ! i)" using ne by simp
    moreover have "sum_list (map length (live[i := tl (live ! i)])) =
        sum_list (map length (take i live)) + length (tl (live ! i)) + sum_list (map length (drop (Suc i) live))"
      using i by (simp add: upd_conv_take_nth_drop)
    moreover have "sum_list (map length live) =
        sum_list (map length (take i live)) + length (live ! i) + sum_list (map length (drop (Suc i) live))"
      using i by (subst id_take_nth_drop [OF i]) simp
    ultimately show ?thesis by linarith
  qed
  ultimately show ?case by simp
qed simp

text \<open>All that \<open>read\<close> yields, of storages whose files the reader has just discovered.\<close>

definition records_read :: "('p \<Rightarrow> 'p \<Rightarrow> bool) \<Rightarrow> 'p r_options \<Rightarrow> 'p r_files list \<Rightarrow> nat \<Rightarrow> 'p item list option" where
  "records_read lt opts storages tick =
     map_option (merge_read lt) (those (map (\<lambda>files. read_storage opts files [] tick) storages))"

end
