(* ===== verification/Records_Log.thy ===== *)
theory Records_Log
  imports Records "HOL-Library.Multiset"
begin

text \<open>
  The records of a storage as one log: what a write does to it, the bound on its size, and what a reader
  of the files gets.
\<close>

section \<open>Names\<close>

lemma is_digit_dot: "\<not> is_digit CHR ''.''"
  by (simp add: is_digit_def)

lemma digits_dot:
  "takeWhile is_digit (nat_to_string t @ CHR ''.'' # s) = nat_to_string t"
  "dropWhile is_digit (nat_to_string t @ CHR ''.'' # s) = CHR ''.'' # s"
  using nat_to_string_is_digit [of _ t] is_digit_dot by (simp_all add: takeWhile_append dropWhile_append)

lemma getTick_rec_name [simp]:
  "getTickFromPath (rec_name t) = Some t" "getTickFromPath (rec_name t @ ''.gz'') = Some t"
  by (simp_all add: getTickFromPath_def rec_name_def digits_dot string_to_nat_inverse Let_def)

lemma rec_name_suffix [simp]:
  "suffix ''.rec'' (rec_name t)" "\<not> suffix ''.gz'' (rec_name t)"
  "suffix ''.gz'' (s @ ''.gz'')" "\<not> suffix ''.rec'' (s @ ''.gz'')"
  by (auto simp: rec_name_def suffix_def append_eq_append_conv2 append_eq_Cons_conv Cons_eq_append_conv)

lemma rec_name_inj [simp]:
  "rec_name t = rec_name u \<longleftrightarrow> t = u" "rec_name t @ ''.gz'' = rec_name u @ ''.gz'' \<longleftrightarrow> t = u"
  "rec_name t \<noteq> rec_name u @ ''.gz''"
  by (metis getTick_rec_name(1) option.inject, metis getTick_rec_name(2) option.inject,
      metis rec_name_suffix(2,3))

section \<open>The log\<close>

definition items_at :: "'p r_files \<Rightarrow> string \<Rightarrow> 'p item list" where
  "items_at files name = (case map_of files name of Some (Content _ items) \<Rightarrow> items | _ \<Rightarrow> [])"

definition file_items_ok :: "'p r_options \<Rightarrow> r_entry \<Rightarrow> 'p item list \<Rightarrow> bool" where
  "file_items_ok opts e items =
     (sorted_wrt (<) (map fst items) \<and> (\<forall>x\<in>set items. r_tick e \<le> fst x) \<and>
      (r_name e = rec_name (r_tick e) \<and> r_size e = content_length opts (Content records_version items) \<or>
       r_name e = rec_name (r_tick e) @ ''.gz'' \<and> r_size e = gzBytes opts (Content records_version items)))"

definition rec_ok :: "'p r_options \<Rightarrow> 'p r_files \<Rightarrow> r_entry \<Rightarrow> bool" where
  "rec_ok opts files e =
     (\<exists>items. map_of files (r_name e) = Some (Content records_version items) \<and> file_items_ok opts e items)"

definition rec_before :: "'p r_files \<Rightarrow> r_entry \<Rightarrow> r_entry \<Rightarrow> bool" where
  "rec_before files a b = (r_tick a < r_tick b \<and> (\<forall>x\<in>set (items_at files (r_name a)). fst x < r_tick b))"

definition log_ok :: "'p r_options \<Rightarrow> 'p r_files \<Rightarrow> r_entry list \<Rightarrow> bool" where
  "log_ok opts files rs = ((\<forall>e\<in>set rs. rec_ok opts files e) \<and> sorted_wrt (rec_before files) rs)"

definition log_items :: "'p r_files \<Rightarrow> r_entry list \<Rightarrow> 'p item list" where
  "log_items files rs = concat (map (\<lambda>e. items_at files (r_name e)) rs)"

definition within :: "nat \<Rightarrow> 'p r_files \<Rightarrow> r_entry list \<Rightarrow> bool" where
  "within T files rs = (\<forall>e\<in>set rs. r_tick e \<le> T \<and> (\<forall>x\<in>set (items_at files (r_name e)). fst x \<le> T))"

text \<open>The files of a storage are those of its records.\<close>

definition files_ok :: "'p r_files \<Rightarrow> r_entry list \<Rightarrow> bool" where
  "files_ok files rs = (wf_map files \<and> fst ` set files = r_name ` set rs)"

lemma log_ok_simps [simp]:
  "log_ok opts files []"
  "log_ok opts files (e # rs) \<longleftrightarrow> rec_ok opts files e \<and> log_ok opts files rs \<and> (\<forall>b\<in>set rs. rec_before files e b)"
  "log_ok opts files (rs @ rs') \<longleftrightarrow> log_ok opts files rs \<and> log_ok opts files rs' \<and>
     (\<forall>a\<in>set rs. \<forall>b\<in>set rs'. rec_before files a b)"
  by (auto simp: log_ok_def sorted_wrt_append)

lemma within_simps [simp]:
  "within T files []"
  "within T files (e # rs) \<longleftrightarrow> r_tick e \<le> T \<and> (\<forall>x\<in>set (items_at files (r_name e)). fst x \<le> T) \<and> within T files rs"
  "within T files (rs @ rs') \<longleftrightarrow> within T files rs \<and> within T files rs'"
  by (auto simp: within_def)

lemma log_items_simps [simp]:
  "log_items files [] = []"
  "log_items files (e # rs) = items_at files (r_name e) @ log_items files rs"
  "log_items files (rs @ rs') = log_items files rs @ log_items files rs'"
  by (simp_all add: log_items_def)

lemma rec_ok_tick: "rec_ok opts files e \<Longrightarrow> getTickFromPath (r_name e) = Some (r_tick e)"
  by (auto simp: rec_ok_def file_items_ok_def)

lemma rec_okE:
  assumes "rec_ok opts files e"
  obtains items where "map_of files (r_name e) = Some (Content records_version items)"
    and "items_at files (r_name e) = items" and "file_items_ok opts e items"
  using assms by (auto simp: rec_ok_def items_at_def)

lemma log_ok_names:
  assumes "log_ok opts files rs"
  shows "sorted_wrt (<) (map r_tick rs)" and "distinct (map r_name rs)"
proof -
  show ticks: "sorted_wrt (<) (map r_tick rs)"
    using assms by (auto simp: log_ok_def sorted_wrt_map rec_before_def elim: sorted_wrt_mono_rel [rotated])
  have "map (the \<circ> getTickFromPath) (map r_name rs) = map r_tick rs"
    using assms by (auto simp: log_ok_def rec_ok_tick)
  then show "distinct (map r_name rs)"
    using ticks by (metis distinct_map strict_sorted_iff)
qed

text \<open>What holds of the records depends on their own files only.\<close>

lemma log_cong:
  assumes "\<And>e. e \<in> set rs \<Longrightarrow> map_of files' (r_name e) = map_of files (r_name e)"
  shows "log_ok opts files' rs = log_ok opts files rs" and "log_items files' rs = log_items files rs"
    and "within T files' rs = within T files rs"
proof -
  have it: "items_at files' (r_name e) = items_at files (r_name e)" if "e \<in> set rs" for e
    using assms [OF that] by (simp add: items_at_def)
  have "sorted_wrt (rec_before files') rs = sorted_wrt (rec_before files) rs"
    using it by (intro iffI; elim sorted_wrt_mono_rel [rotated]) (simp_all add: rec_before_def)
  then show "log_ok opts files' rs = log_ok opts files rs"
    using assms by (simp add: log_ok_def rec_ok_def)
  show "log_items files' rs = log_items files rs" using it by (simp add: log_items_def cong: map_cong)
  show "within T files' rs = within T files rs" using it by (simp add: within_def)
qed

lemma within_Suc: "within T files rs \<Longrightarrow> within (Suc T) files rs"
  by (auto simp: within_def intro: le_SucI)

lemma change_entry_other: "name \<notin> r_name ` set rs \<Longrightarrow> change_entry name f rs = rs"
  by (auto simp: change_entry_def intro!: map_idI)

lemma change_entry_last:
  "distinct (map r_name (rs @ [l])) \<Longrightarrow> change_entry (r_name l) f (rs @ [l]) = rs @ [f l]"
  using change_entry_other [of "r_name l" rs f] by (simp add: change_entry_def)

section \<open>A write\<close>

text \<open>The state in which the last record is to be appended to.\<close>

definition ready :: "'p r_options \<Rightarrow> nat \<Rightarrow> 'p r_storage \<Rightarrow> r_entry list \<Rightarrow> r_entry \<Rightarrow> bool" where
  "ready opts T s rs l =
     (r_records s = Some (rs @ [l]) \<and> log_ok opts (r_files s) (rs @ [l]) \<and> files_ok (r_files s) (rs @ [l]) \<and>
      within T (r_files s) rs \<and> r_tick l \<le> Suc T \<and> (\<forall>x\<in>set (items_at (r_files s) (r_name l)). fst x \<le> T) \<and>
      r_name l = rec_name (r_tick l))"

text \<open>
  The invariant of a storage, when the last tick is \<open>T\<close>: its files are those of its records, in order, and
  the last one is not compressed.
\<close>

definition r_inv :: "'p r_options \<Rightarrow> nat \<Rightarrow> 'p r_storage \<Rightarrow> bool" where
  "r_inv opts T s =
     (\<exists>rs. r_records s = Some rs \<and> log_ok opts (r_files s) rs \<and> files_ok (r_files s) rs \<and>
        within T (r_files s) rs \<and> (rs \<noteq> [] \<longrightarrow> r_name (last rs) = rec_name (r_tick (last rs))))"

definition r_items :: "'p r_storage \<Rightarrow> 'p item list" where
  "r_items s = (case r_records s of None \<Rightarrow> [] | Some rs \<Rightarrow> log_items (r_files s) rs)"

definition appended :: "'p r_options \<Rightarrow> string \<Rightarrow> 'p item \<Rightarrow> nat option \<Rightarrow> 'p r_storage \<Rightarrow> 'p r_storage" where
  "appended opts name item remote s =
     s\<lparr>r_files := append_item opts name item (r_files s),
       r_records := map_option (change_entry name (\<lambda>e. e\<lparr>r_size := r_size e + itemLength opts item\<rparr>)) (r_records s),
       r_tickRemote := remote\<rparr>"

lemma append_result:
  assumes ready: "ready opts T s rs l" and item: "fst item = Suc T"
  shows "r_inv opts (Suc T) (appended opts (r_name l) item remote s)"
    and "r_items (appended opts (r_name l) item remote s) = r_items s @ [item]"
    and "r_records (appended opts (r_name l) item remote s) =
      Some (rs @ [l\<lparr>r_size := r_size l + itemLength opts item\<rparr>])"
proof -
  let ?s = "appended opts (r_name l) item remote s" and ?l = "l\<lparr>r_size := r_size l + itemLength opts item\<rparr>"
  have recs: "r_records s = Some (rs @ [l])" and ok: "log_ok opts (r_files s) (rs @ [l])"
    and files: "files_ok (r_files s) (rs @ [l])" and plain: "r_name l = rec_name (r_tick l)"
    using ready by (auto simp: ready_def)
  have dist: "distinct (map r_name (rs @ [l]))" using log_ok_names(2) [OF ok] .
  obtain items where l: "map_of (r_files s) (r_name l) = Some (Content records_version items)"
      "items_at (r_files s) (r_name l) = items" "file_items_ok opts l items"
    using ok by (auto elim: rec_okE)
  have old: "map_of (r_files ?s) (r_name e) = map_of (r_files s) (r_name e)" if "e \<in> set rs" for e
  proof -
    have "r_name e \<in> r_name ` set rs" using that by (rule imageI)
    then have "r_name e \<noteq> r_name l" using dist by auto
    then show ?thesis by (simp add: appended_def append_item_def)
  qed
  have new: "map_of (r_files ?s) (r_name l) = Some (Content records_version (items @ [item]))"
    by (simp add: appended_def append_item_def l)
  have bound: "\<forall>x\<in>set items. fst x \<le> T" "r_tick l \<le> Suc T" using ready by (auto simp: ready_def l(2))
  then have "file_items_ok opts ?l (items @ [item])"
    using l(3) plain item by (fastforce simp: file_items_ok_def sorted_wrt_append)
  then have "rec_ok opts (r_files ?s) ?l" by (simp add: rec_ok_def new)
  moreover have "log_ok opts (r_files ?s) rs" "within T (r_files ?s) rs"
    using log_cong [OF old] ok ready by (simp_all add: ready_def)
  moreover have "rec_before (r_files ?s) a ?l" if "a \<in> set rs" for a
    using that ok old [OF that] by (simp add: rec_before_def items_at_def)
  moreover have "files_ok (r_files ?s) (rs @ [?l])"
    using files by (auto simp: files_ok_def appended_def append_item_def dom_update)
  moreover have records: "r_records ?s = Some (rs @ [?l])"
    using change_entry_last [OF dist] by (simp add: appended_def recs)
  moreover have at: "items_at (r_files ?s) (r_name l) = items @ [item]" by (simp add: items_at_def new)
  ultimately show "r_inv opts (Suc T) ?s"
    using plain item bound within_Suc [of T "r_files ?s" rs]
    unfolding r_inv_def by (intro exI [of _ "rs @ [?l]"]) (auto simp del: rec_name_suffix intro: le_SucI)
  show "r_records ?s = Some (rs @ [?l])" by (rule records)
  show "r_items ?s = r_items s @ [item]"
    using log_cong(2) [OF old] by (simp add: r_items_def records recs items_at_def new l(1))
qed

text \<open>The eviction keeps the newest records, down to the limit.\<close>

lemma evict_result:
  assumes "r_size l \<le> limit"
  shows "\<exists>k \<le> length rs. evict_records limit (sum_list (map r_size (rs @ [l]))) (rs @ [l]) files =
      (drop k rs @ [l], fold (\<lambda>e. AList.delete (r_name e)) (take k rs) files) \<and>
    sum_list (map r_size (drop k rs @ [l])) \<le> limit"
proof (induction rs arbitrary: files)
  case Nil
  then show ?case using assms by simp
next
  case (Cons e rs)
  show ?case
  proof (cases "sum_list (map r_size ((e # rs) @ [l])) > limit")
    case True
    obtain k where "k \<le> length rs" "evict_records limit (sum_list (map r_size (rs @ [l]))) (rs @ [l])
        (AList.delete (r_name e) files) =
        (drop k rs @ [l], fold (\<lambda>e. AList.delete (r_name e)) (take k rs) (AList.delete (r_name e) files))"
      "sum_list (map r_size (drop k rs @ [l])) \<le> limit"
      using Cons by blast
    then show ?thesis using True by (intro exI [of _ "Suc k"]) simp
  next
    case False
    then show ?thesis by (intro exI [of _ 0]) simp
  qed
qed

lemma fold_delete_at:
  "map_of (fold (\<lambda>e. AList.delete (r_name e)) es files) name =
     (if name \<in> r_name ` set es then None else map_of files name)"
  by (induction es arbitrary: files) auto

lemma fold_delete_wf: "wf_map files \<Longrightarrow> wf_map (fold (\<lambda>e. AList.delete (r_name e)) es files)"
  by (induction es arbitrary: files) auto

lemma fold_delete_keys:
  "fst ` set (fold (\<lambda>e. AList.delete (r_name e)) es files) = fst ` set files - r_name ` set es"
proof (induction es arbitrary: files)
  case (Cons e es)
  have "fst ` set (fold (\<lambda>e. AList.delete (r_name e)) es (AList.delete (r_name e) files)) =
      fst ` set (AList.delete (r_name e) files) - r_name ` set es"
    by (rule Cons)
  also have "\<dots> = fst ` set files - {r_name e} - r_name ` set es" by (simp only: keys_delete)
  finally show ?case by auto
qed simp

lemma r_names_disjoint: "distinct (map r_name (rs @ rs')) \<Longrightarrow> r_name ` set rs \<inter> r_name ` set rs' = {}"
  by (simp flip: set_map)

lemma add_result:
  assumes recs: "r_records s = Some rs" and ok: "log_ok opts (r_files s) rs" and files: "files_ok (r_files s) rs"
    and T: "within T (r_files s) rs" and room: "header_length records_version \<le> maxSize opts - recordMaxSize opts"
  shows "\<exists>k \<le> length rs. \<exists>s' l. addRecordEntry opts (Suc T) None s = (s', Inr l) \<and>
    ready opts T s' (drop k rs) l \<and> r_items s' = log_items (r_files s) (drop k rs) \<and>
    r_size l = header_length records_version \<and>
    sum_list (map r_size (drop k rs @ [l])) \<le> maxSize opts - recordMaxSize opts"
proof -
  let ?name = "rec_name (Suc T)" and ?limit = "maxSize opts - recordMaxSize opts"
  define l where "l = \<lparr>r_tick = Suc T, r_name = ?name, r_size = header_length records_version\<rparr>"
  define new where "new = create_record opts ?name (r_files s)"
  have le: "\<forall>e\<in>set rs. r_tick e \<le> Suc T" "\<forall>e\<in>set rs. r_tick e \<noteq> Suc T"
    using T by (auto simp: within_def)
  have index: "find_last_index (\<lambda>e. r_tick e \<le> Suc T) rs = int (length rs) - 1"
    using find_last_index_prefix [of rs "\<lambda>e. r_tick e \<le> Suc T" "[]"] le by simp
  have before: "rs = [] \<or> r_tick (rs ! nat (int (length rs) - 1)) < Suc T"
    using T by (cases rs rule: rev_cases) (auto simp: within_def nth_append)
  have fresh: "?name \<notin> r_name ` set rs"
  proof
    assume "?name \<in> r_name ` set rs"
    then obtain e where "e \<in> set rs" "r_name e = ?name" by auto
    then show False using ok le(2) rec_ok_tick [of opts "r_files s" e] by (auto simp: log_ok_def)
  qed
  then have "map_of (r_files s) ?name = None" using files by (simp add: files_ok_def map_of_None_iff)
  with fresh have new_at: "map_of new ?name = Some (Content records_version [])"
    and new_old: "\<And>e. e \<in> set rs \<Longrightarrow> map_of new (r_name e) = map_of (r_files s) (r_name e)"
    by (simp add: new_def create_record_def, simp add: new_def create_record_def) (metis imageI)
  have "fst ` set new = insert ?name (r_name ` set rs)" "wf_map new"
    using files by (simp_all add: new_def create_record_def files_ok_def dom_update)
  obtain k where k: "k \<le> length rs" "evict_records ?limit (sum_list (map r_size (rs @ [l]))) (rs @ [l]) new =
      (drop k rs @ [l], fold (\<lambda>e. AList.delete (r_name e)) (take k rs) new)"
    "sum_list (map r_size (drop k rs @ [l])) \<le> ?limit"
    using evict_result [of l ?limit rs new] room by (auto simp: l_def)
  define left where "left = fold (\<lambda>e. AList.delete (r_name e)) (take k rs) new"
  define s' where "s' = s\<lparr>r_files := left, r_records := Some (drop k rs @ [l])\<rparr>"
  have add: "addRecordEntry opts (Suc T) None s = (s', Inr l)"
    using before k(2) new_at
    by (simp add: addRecordEntry_def recs index Let_def new_def [symmetric] stat_size_def l_def [symmetric]
        splice_insert_def s'_def left_def)
  have dist: "distinct (map r_name rs)" using log_ok_names(2) [OF ok] .
  have disj: "r_name ` set (take k rs) \<inter> r_name ` set (drop k rs) = {}"
    using r_names_disjoint [of "take k rs" "drop k rs"] dist by simp
  have kept: "map_of left (r_name e) = map_of (r_files s) (r_name e)" if "e \<in> set (drop k rs)" for e
    using that disj new_old [of e] by (auto simp: left_def fold_delete_at dest: in_set_dropD)
  have last_at: "map_of left ?name = Some (Content records_version [])"
    using fresh new_at by (auto simp: left_def fold_delete_at dest: in_set_takeD)
  have ok': "log_ok opts (r_files s) (drop k rs)" "within T (r_files s) (drop k rs)"
    using ok T by (metis append_take_drop_id log_ok_simps(3), metis append_take_drop_id within_simps(3))
  have split: "r_name ` set rs = r_name ` set (take k rs) \<union> r_name ` set (drop k rs)"
    by (metis append_take_drop_id image_Un set_append)
  have "rec_ok opts left l" "items_at left ?name = []"
    using last_at by (simp_all add: rec_ok_def l_def file_items_ok_def items_at_def)
  moreover have "rec_before left e l" if "e \<in> set (drop k rs)" for e
  proof -
    have "items_at left (r_name e) = items_at (r_files s) (r_name e)" using kept [OF that] by (simp add: items_at_def)
    then show ?thesis using that T by (auto simp: rec_before_def l_def within_def dest: in_set_dropD le_imp_less_Suc)
  qed
  moreover have "files_ok left (drop k rs @ [l])"
    using \<open>wf_map new\<close> \<open>fst ` set new = _\<close> disj fresh split
    by (auto simp: files_ok_def left_def fold_delete_wf fold_delete_keys l_def)
  ultimately have "ready opts T s' (drop k rs) l"
    using ok' log_cong [OF kept] by (simp add: ready_def s'_def l_def)
  moreover have "r_items s' = log_items (r_files s) (drop k rs)"
    using log_cong(2) [OF kept] \<open>items_at left ?name = []\<close> by (simp add: r_items_def s'_def l_def)
  ultimately show ?thesis
    using add k(1,3) by (intro exI [of _ k]) (auto simp: l_def)
qed

lemma log_items_drop: "\<exists>m. log_items files (drop k rs) = drop m (log_items files rs)"
proof
  have "log_items files rs = log_items files (take k rs) @ log_items files (drop k rs)"
    by (metis append_take_drop_id log_items_simps(3))
  then show "log_items files (drop k rs) = drop (length (log_items files (take k rs))) (log_items files rs)" by simp
qed

lemma compress_result:
  assumes recs: "r_records s = Some (rs @ [l])" and ok: "log_ok opts (r_files s) (rs @ [l])"
    and files: "files_ok (r_files s) (rs @ [l])" and T: "within T (r_files s) (rs @ [l])"
    and plain: "r_name l = rec_name (r_tick l)"
  shows "\<exists>s' l'. compressEntry opts l s = (s', Inr ()) \<and> r_records s' = Some (rs @ [l']) \<and>
    log_ok opts (r_files s') (rs @ [l']) \<and> files_ok (r_files s') (rs @ [l']) \<and>
    within T (r_files s') (rs @ [l']) \<and> log_items (r_files s') (rs @ [l']) = log_items (r_files s) (rs @ [l])"
proof -
  obtain items where l: "map_of (r_files s) (r_name l) = Some (Content records_version items)"
      "items_at (r_files s) (r_name l) = items" "file_items_ok opts l items"
    using ok by (auto elim: rec_okE)
  let ?c = "Content records_version items" and ?new = "rec_name (r_tick l) @ ''.gz''"
  let ?l' = "l\<lparr>r_name := ?new, r_size := gzBytes opts ?c\<rparr>"
  define files' where "files' = AList.delete (r_name l) (AList.update ?new ?c (r_files s))"
  define s' where "s' = s\<lparr>r_files := files', r_records := Some (rs @ [?l'])\<rparr>"
  have dist: "distinct (map r_name (rs @ [l]))" using log_ok_names(2) [OF ok] .
  have "compressEntry opts l s = (s', Inr ())"
    using change_entry_last [OF dist, of "\<lambda>e. e\<lparr>r_name := ?new, r_size := gzBytes opts ?c\<rparr>"] plain l(1)
    by (simp add: compressEntry_def readRecord_def s'_def files'_def recs Let_def)
  have ticks: "r_tick e \<noteq> r_tick l" if "e \<in> set rs" for e
    using that ok by (auto simp: rec_before_def)
  have other: "r_name e \<noteq> ?new \<and> r_name e \<noteq> r_name l" if "e \<in> set rs" for e
    using rec_ok_tick [of opts "r_files s" e] ok that ticks [OF that] plain by (auto simp: log_ok_def)
  have kept: "map_of files' (r_name e) = map_of (r_files s) (r_name e)" if "e \<in> set rs" for e
    using other [OF that] by (simp add: files'_def)
  have new: "map_of files' ?new = Some ?c" using plain by (simp add: files'_def)
  then have at: "items_at files' ?new = items" by (simp add: items_at_def)
  have "rec_ok opts files' ?l'"
    using l(3) new by (auto simp: rec_ok_def file_items_ok_def)
  moreover have "rec_before files' e ?l'" if "e \<in> set rs" for e
    using that ok kept [OF that] by (auto simp: rec_before_def items_at_def)
  moreover have "files_ok files' (rs @ [?l'])"
    using files other plain by (auto simp: files_ok_def files'_def keys_delete dom_update)
  moreover note log_cong [OF kept]
  ultimately show ?thesis
    using \<open>compressEntry opts l s = (s', Inr ())\<close> ok T at l(2) plain
    by (intro exI [of _ s'] exI [of _ ?l']) (simp add: s'_def)
qed

text \<open>The sizes: the last file within its limit, the others leave room for a file.\<close>

definition r_bound :: "'p r_options \<Rightarrow> 'p r_storage \<Rightarrow> bool" where
  "r_bound opts s =
     (\<forall>rs l. r_records s = Some (rs @ [l]) \<longrightarrow>
        sum_list (map r_size rs) \<le> maxSize opts - recordMaxSize opts \<and> r_size l \<le> recordMaxSize opts)"

lemma write_appended:
  "getLastEntryForWriting opts tick (itemLength opts (tick, p, serializedLength opts p, remote)) s = (s1, Inr l) \<Longrightarrow>
   write_storage opts tick p remote s =
     (appended opts (r_name l) (tick, p, serializedLength opts p, remote) remote s1, Inr ())"
  by (simp add: write_storage_def appended_def Let_def)

lemma getLast_result:
  assumes inv: "r_inv opts T s" and room: "header_length records_version \<le> maxSize opts - recordMaxSize opts"
  shows "\<exists>s1 rs l m. getLastEntryForWriting opts (Suc T) n s = (s1, Inr l) \<and> ready opts T s1 rs l \<and>
    r_items s1 = drop m (r_items s) \<and>
    (sum_list (map r_size (rs @ [l])) \<le> maxSize opts - recordMaxSize opts \<and> r_size l = header_length records_version \<or>
     s1 = s \<and> r_size l + n \<le> recordMaxSize opts)"
proof -
  obtain rs where rs: "r_records s = Some rs" "log_ok opts (r_files s) rs" "files_ok (r_files s) rs"
    "within T (r_files s) rs" "rs \<noteq> [] \<Longrightarrow> r_name (last rs) = rec_name (r_tick (last rs))"
    using inv by (auto simp: r_inv_def)
  have items: "r_items s = log_items (r_files s) rs" by (simp add: r_items_def rs(1))
  show ?thesis
  proof (cases "rs = [] \<or> r_size (last rs) + n > recordMaxSize opts")
    case True
    obtain s0 rs0 where start: "getLastEntryForWriting opts (Suc T) n s = addRecordEntry opts (Suc T) None s0"
      "r_records s0 = Some rs0" "log_ok opts (r_files s0) rs0" "files_ok (r_files s0) rs0" "within T (r_files s0) rs0"
      "log_items (r_files s0) rs0 = r_items s"
    proof (cases "rs = []")
      case True
      then show ?thesis using that [of s rs] rs items by (simp add: getLastEntryForWriting_def)
    next
      case False
      then obtain rs' l where l: "rs = rs' @ [l]" by (metis append_butlast_last_id)
      have "r_name l = rec_name (r_tick l)" using rs(5) l by simp
      then obtain s' l' where s': "compressEntry opts l s = (s', Inr ())" "r_records s' = Some (rs' @ [l'])"
        "log_ok opts (r_files s') (rs' @ [l'])" "files_ok (r_files s') (rs' @ [l'])"
        "within T (r_files s') (rs' @ [l'])" "log_items (r_files s') (rs' @ [l']) = log_items (r_files s) (rs' @ [l])"
        using compress_result [of s rs' l opts T] rs l by auto
      show ?thesis
        using that [OF _ s'(2-5)] True False s'(1,6) rs(1) items
        by (simp add: getLastEntryForWriting_def l)
    qed
    obtain k s1 l where add: "k \<le> length rs0" "addRecordEntry opts (Suc T) None s0 = (s1, Inr l)"
      "ready opts T s1 (drop k rs0) l" "r_items s1 = log_items (r_files s0) (drop k rs0)"
      "r_size l = header_length records_version"
      "sum_list (map r_size (drop k rs0 @ [l])) \<le> maxSize opts - recordMaxSize opts"
      using add_result [OF start(2-5) room] by blast
    obtain m where "log_items (r_files s0) (drop k rs0) = drop m (r_items s)"
      using log_items_drop [of "r_files s0" k rs0] start(6) by auto
    then show ?thesis
      using add start(1) by (intro exI [of _ s1] exI [of _ "drop k rs0"] exI [of _ l] exI [of _ m]) simp
  next
    case False
    then obtain rs' l where l: "rs = rs' @ [l]" by (metis append_butlast_last_id)
    have plain: "r_name l = rec_name (r_tick l)" using rs(5) l by simp
    have "ready opts T s rs' l"
      using rs l plain by (auto simp: ready_def)
    moreover have "getLastEntryForWriting opts (Suc T) n s = (s, Inr l)"
      using False plain by (simp add: getLastEntryForWriting_def rs(1) l Let_def)
    ultimately show ?thesis
      using False l by (intro exI [of _ s] exI [of _ rs'] exI [of _ l] exI [of _ 0]) simp
  qed
qed

lemma write_result:
  assumes inv: "r_inv opts T s" and room: "header_length records_version \<le> maxSize opts - recordMaxSize opts"
  shows "\<exists>s' m. write_storage opts (Suc T) p remote s = (s', Inr ()) \<and> r_inv opts (Suc T) s' \<and>
    r_items s' = drop m (r_items s) @ [(Suc T, p, serializedLength opts p, remote)] \<and>
    r_tickRemote s' = remote \<and>
    (r_bound opts s \<and>
       header_length records_version + itemLength opts (Suc T, p, serializedLength opts p, remote) \<le> recordMaxSize opts \<longrightarrow>
     r_bound opts s')"
proof -
  let ?item = "(Suc T, p, serializedLength opts p, remote)"
  obtain s1 rs l m where get: "getLastEntryForWriting opts (Suc T) (itemLength opts ?item) s = (s1, Inr l)"
    and ready: "ready opts T s1 rs l" and items: "r_items s1 = drop m (r_items s)"
    and size: "sum_list (map r_size (rs @ [l])) \<le> maxSize opts - recordMaxSize opts \<and>
        r_size l = header_length records_version \<or>
      s1 = s \<and> r_size l + itemLength opts ?item \<le> recordMaxSize opts"
    using getLast_result [OF inv room, of "itemLength opts ?item"] by blast
  let ?s = "appended opts (r_name l) ?item remote s1"
  note app = append_result [OF ready, of ?item remote]
  have "r_bound opts ?s" if "r_bound opts s"
    "header_length records_version + itemLength opts ?item \<le> recordMaxSize opts"
    using size
  proof
    assume "sum_list (map r_size (rs @ [l])) \<le> maxSize opts - recordMaxSize opts \<and>
        r_size l = header_length records_version"
    then show ?thesis using that(2) app(3) by (simp add: r_bound_def)
  next
    assume fits: "s1 = s \<and> r_size l + itemLength opts ?item \<le> recordMaxSize opts"
    moreover have "r_records s1 = Some (rs @ [l])" using ready by (simp add: ready_def)
    ultimately have "sum_list (map r_size rs) \<le> maxSize opts - recordMaxSize opts"
      using that(1) by (auto simp: r_bound_def)
    then show ?thesis using fits app(3) by (simp add: r_bound_def)
  qed
  moreover have "r_tickRemote ?s = remote" by (simp add: appended_def)
  ultimately show ?thesis
    using write_appended [OF get] app(1,2) items by (intro exI [of _ ?s] exI [of _ m]) simp
qed

lemma r_bound_total:
  assumes "r_bound opts s" and "recordMaxSize opts < maxSize opts" and "r_records s = Some rs"
  shows "sum_list (map r_size rs) \<le> maxSize opts"
proof (cases rs rule: rev_cases)
  case (snoc rs' l)
  then have "sum_list (map r_size rs') \<le> maxSize opts - recordMaxSize opts" "r_size l \<le> recordMaxSize opts"
    using assms(1,3) by (auto simp: r_bound_def)
  then show ?thesis using assms(2) snoc by simp
qed simp

text \<open>A sequence of writes to a storage that is empty at first.\<close>

fun write_all :: "'p r_options \<Rightarrow> nat \<Rightarrow> ('p \<times> nat option) list \<Rightarrow> 'p r_storage \<Rightarrow> 'p r_storage" where
  "write_all opts T [] s = s"
| "write_all opts T ((p, remote) # ps) s =
     write_all opts (Suc T) ps (fst (write_storage opts (Suc T) p remote s))"

definition stamped :: "'p r_options \<Rightarrow> nat \<Rightarrow> ('p \<times> nat option) list \<Rightarrow> 'p item list" where
  "stamped opts T ps =
     map (\<lambda>(i, p, remote). (Suc (T + i), p, serializedLength opts p, remote)) (enumerate 0 ps)"

lemma stamped_simps [simp]:
  "stamped opts T [] = []"
  "stamped opts T ((p, remote) # ps) = (Suc T, p, serializedLength opts p, remote) # stamped opts (Suc T) ps"
  by (auto simp: stamped_def enumerate_Suc_eq)

lemma write_all_result:
  assumes "r_inv opts T s" and "header_length records_version \<le> maxSize opts - recordMaxSize opts"
  shows "r_inv opts (T + length ps) (write_all opts T ps s) \<and>
    (\<exists>m. r_items (write_all opts T ps s) = drop m (r_items s @ stamped opts T ps) \<and>
       (if ps = [] then m = 0 else m < length (r_items s) + length ps)) \<and>
    (r_bound opts s \<and> (\<forall>x\<in>set (stamped opts T ps). header_length records_version + itemLength opts x \<le> recordMaxSize opts)
       \<longrightarrow> r_bound opts (write_all opts T ps s))"
  using assms(1)
proof (induction ps arbitrary: T s)
  case Nil
  then show ?case by (auto intro: exI [of _ 0])
next
  case (Cons x ps)
  obtain p remote where x: "x = (p, remote)" by (cases x)
  obtain s' m where s': "write_storage opts (Suc T) p remote s = (s', Inr ())" "r_inv opts (Suc T) s'"
    "r_items s' = drop m (r_items s) @ [(Suc T, p, serializedLength opts p, remote)]"
    "r_bound opts s \<and>
       header_length records_version + itemLength opts (Suc T, p, serializedLength opts p, remote) \<le> recordMaxSize opts \<longrightarrow>
     r_bound opts s'"
    using write_result [OF Cons.prems assms(2), of p remote] by blast
  note IH = Cons.IH [OF s'(2)]
  obtain m' where m': "r_items (write_all opts (Suc T) ps s') = drop m' (r_items s' @ stamped opts (Suc T) ps)"
    "if ps = [] then m' = 0 else m' < length (r_items s') + length ps"
    using IH by blast
  define rest where "rest = stamped opts T (x # ps)"
  have "r_items s' @ stamped opts (Suc T) ps = drop (min m (length (r_items s))) (r_items s @ rest)"
    by (simp add: s'(3) x rest_def min_def)
  then have "r_items (write_all opts T (x # ps) s) = drop (m' + min m (length (r_items s))) (r_items s @ rest)"
    using m' by (simp add: x s'(1))
  moreover have "m' + min m (length (r_items s)) < length (r_items s) + length (x # ps)"
    using m'(2) by (auto simp: s'(3) split: if_splits)
  ultimately show ?case using IH s'(4) by (auto simp: x s'(1) rest_def)
qed

section \<open>Reading the log\<close>

definition rd_of :: "'p r_options \<Rightarrow> 'p r_files \<Rightarrow> r_entry \<Rightarrow> rd_entry" where
  "rd_of opts files e = \<lparr>rd_tick = r_tick e, rd_name = r_name e,
     rd_hash = stat_size opts (r_name e) (the (map_of files (r_name e)))\<rparr>"

lemma rd_of_simps [simp]: "rd_tick (rd_of opts files e) = r_tick e" "rd_name (rd_of opts files e) = r_name e"
  by (simp_all add: rd_of_def)

lemma discover_result:
  assumes ok: "log_ok opts files rs" and files: "files_ok files rs"
  shows "discover opts files = map (rd_of opts files) rs"
proof -
  let ?g = "\<lambda>(name, c). \<lparr>rd_tick = the (getTickFromPath name), rd_name = name, rd_hash = stat_size opts name c\<rparr>"
  have wf: "wf_map files" and keys: "fst ` set files = r_name ` set rs" using files by (simp_all add: files_ok_def)
  have tick: "getTickFromPath (r_name e) = Some (r_tick e)" if "e \<in> set rs" for e
    using ok that by (auto simp: log_ok_def intro: rec_ok_tick)
  have at: "\<exists>e\<in>set rs. name = r_name e \<and> map_of files (r_name e) = Some c" if "(name, c) \<in> set files" for name c
  proof -
    have "name \<in> r_name ` set rs" using that keys by (metis fst_conv imageI)
    then show ?thesis using that wf by (auto intro: map_of_is_SomeI)
  qed
  have all: "filter (\<lambda>(name, c). getTickFromPath name \<noteq> None) files = files"
    using at tick by (fastforce simp: filter_id_conv)
  have set_eq: "set (map ?g files) = set (map (rd_of opts files) rs)"
  proof (rule set_eqI, rule iffI)
    fix x assume "x \<in> set (map ?g files)"
    then obtain name c where nc: "(name, c) \<in> set files" "x = ?g (name, c)" by auto
    then obtain e where "e \<in> set rs" "name = r_name e" "map_of files (r_name e) = Some c" using at by blast
    then show "x \<in> set (map (rd_of opts files) rs)" using nc(2) tick by (auto simp: rd_of_def)
  next
    fix x assume "x \<in> set (map (rd_of opts files) rs)"
    then obtain e where e: "e \<in> set rs" "x = rd_of opts files e" by auto
    then obtain c where "map_of files (r_name e) = Some c" using ok by (auto simp: log_ok_def elim: rec_okE)
    then show "x \<in> set (map ?g files)"
      using e tick [OF e(1)] by (auto simp: rd_of_def intro!: image_eqI [where x = "(r_name e, c)"] dest: map_of_SomeD)
  qed
  have "inj_on r_tick (set rs)"
    using log_ok_names(1) [OF ok] by (simp add: strict_sorted_iff distinct_map)
  then have inj: "inj_on rd_tick (set (map (rd_of opts files) rs))"
    unfolding set_map by (intro inj_on_imageI) (simp add: comp_def)
  define G where "G = map ?g files"
  have "map rd_name G = map fst files" by (simp add: G_def o_def split_def)
  then have "distinct (map rd_name G)" using wf by (simp only:)
  then have "distinct G" by (simp only: distinct_map [of rd_name])
  moreover have set_G: "set G = set (map (rd_of opts files) rs)" using set_eq by (simp only: G_def)
  ultimately have "distinct (map rd_tick G)" using inj by (simp only: distinct_map)
  moreover have "mset (map rd_tick (sort_key rd_tick G)) = mset (map rd_tick G)"
    by (simp only: mset_map mset_sort)
  ultimately have "distinct (map rd_tick (sort_key rd_tick G))"
    using mset_eq_imp_distinct_iff by blast
  moreover have "map rd_tick (map (rd_of opts files) rs) = map r_tick rs" by simp
  ultimately have "sort_key rd_tick G = map (rd_of opts files) rs"
    using log_ok_names(1) [OF ok] inj set_G
    by (intro map_sorted_distinct_set_unique [of rd_tick]) (simp_all add: strict_sorted_iff comp_def)
  then show ?thesis by (simp only: discover_def all G_def)
qed

lemma drop_find_index:
  assumes "sorted_wrt (<) (map fst xs)"
  shows "(if find_index (\<lambda>(u, _). u \<ge> t) xs = -1 then [] else drop (nat (find_index (\<lambda>(u, _). u \<ge> t) xs)) xs) =
    filter (\<lambda>x. (t :: nat) \<le> fst x) xs"
  using assms
proof (induction xs)
  case (Cons x xs)
  obtain u y where x: "x = (u, y)" by (cases x)
  show ?case
  proof (cases "t \<le> u")
    case True
    then have "filter (\<lambda>x. t \<le> fst x) xs = xs" using Cons.prems by (fastforce simp: x filter_id_conv)
    then show ?thesis using True by (simp add: x)
  next
    case False
    have "find_index (\<lambda>(u, _). u \<ge> t) xs \<ge> -1" by (rule find_index_ge)
    then show ?thesis using False Cons by (auto simp: x nat_add_distrib)
  qed
qed simp

text \<open>The records of the first file that has any from the tick on.\<close>

definition first_chunk :: "nat \<Rightarrow> 'p r_files \<Rightarrow> r_entry list \<Rightarrow> 'p item list option" where
  "first_chunk t files rs =
     (case filter (\<lambda>xs. xs \<noteq> []) (map (\<lambda>e. filter (\<lambda>x. t \<le> fst x) (items_at files (r_name e))) rs) of
        [] \<Rightarrow> None | xs # _ \<Rightarrow> Some xs)"

lemma first_chunk_simps [simp]:
  "first_chunk t files [] = None"
  "first_chunk t files (e # rs) =
     (let xs = filter (\<lambda>x. t \<le> fst x) (items_at files (r_name e)) in if xs = [] then first_chunk t files rs else Some xs)"
  by (simp_all add: first_chunk_def Let_def)

lemma first_chunk_log:
  "(case first_chunk t files rs of
      None \<Rightarrow> filter (\<lambda>x. t \<le> fst x) (log_items files rs) = []
    | Some xs \<Rightarrow> xs \<noteq> [] \<and> prefix xs (filter (\<lambda>x. t \<le> fst x) (log_items files rs)))"
  by (induction rs) (auto simp: Let_def split: option.splits)

lemma fetch_scan_frame:
  "name \<notin> rd_name ` set es \<Longrightarrow> fetch_scan t files es memo n = (r, memo', k) \<Longrightarrow> map_of memo' name = map_of memo name"
proof (induction es arbitrary: memo n)
  case (Cons e es)
  then have other: "name \<noteq> rd_name e" "name \<notin> rd_name ` set es" by auto
  define memo1 where "memo1 = AList.update (rd_name e) (rd_hash e) memo"
  consider "map_of memo (rd_name e) = Some (rd_hash e)" "fetch_scan t files es memo n = (r, memo', k)"
    | "memo' = memo1" | "fetch_scan t files es memo1 (n + 1) = (r, memo', k)"
    using Cons.prems(2) by (auto simp: Let_def memo1_def [symmetric] split: if_splits sum.splits)
  then show ?case using Cons.IH [OF other(2)] other(1) by cases (auto simp: memo1_def)
qed simp

lemma fetch_scan_result:
  assumes "log_ok opts files es" and "\<And>e. e \<in> set es \<Longrightarrow> map_of memo (r_name e) = None"
  shows "\<exists>memo' k. fetch_scan t files (map (rd_of opts files) es) memo n = (first_chunk t files es, memo', k) \<and>
    (first_chunk t files es = None \<longrightarrow> k = n + length es \<and>
      (\<forall>e\<in>set es. map_of memo' (r_name e) = Some (rd_hash (rd_of opts files e))))"
  using assms
proof (induction es arbitrary: memo n)
  case (Cons e es)
  obtain items where e: "map_of files (r_name e) = Some (Content records_version items)"
      "items_at files (r_name e) = items" "file_items_ok opts e items"
    using Cons.prems(1) by (auto elim: rec_okE)
  have "distinct (map r_name (e # es))" using log_ok_names(2) [OF Cons.prems(1)] .
  then have fresh: "r_name e \<notin> r_name ` set es" by simp
  have cut: "(if find_index (\<lambda>(u, _). u \<ge> t) items = -1 then [] else drop (nat (find_index (\<lambda>(u, _). u \<ge> t) items)) items) =
      filter (\<lambda>x. t \<le> fst x) items"
    using e(3) by (intro drop_find_index) (simp add: file_items_ok_def)
  have read: "outcome_bind (readRecord files (r_name e)) payloadToList = Inr items"
    using e(1,3) by (auto simp: readRecord_def payloadToList_def file_items_ok_def)
  define memo1 where "memo1 = AList.update (r_name e) (rd_hash (rd_of opts files e)) memo"
  have memo1: "map_of memo1 (r_name x) = None" if "x \<in> set es" for x
  proof -
    have "r_name x \<noteq> r_name e" using that fresh by (metis imageI)
    then show ?thesis using that Cons.prems(2) [of x] by (simp add: memo1_def)
  qed
  show ?case
  proof (cases "find_index (\<lambda>(u, _). u \<ge> t) items = -1")
    case True
    then have none: "filter (\<lambda>x. t \<le> fst x) items = []" using cut by simp
    obtain memo' k where IH: "fetch_scan t files (map (rd_of opts files) es) memo1 (n + 1) = (first_chunk t files es, memo', k)"
      "first_chunk t files es = None \<longrightarrow> k = n + 1 + length es \<and>
        (\<forall>e\<in>set es. map_of memo' (r_name e) = Some (rd_hash (rd_of opts files e)))"
      using Cons.IH [OF _ memo1, of "n + 1"] Cons.prems(1) by auto
    have "map_of memo' (r_name e) = map_of memo1 (r_name e)"
      by (rule fetch_scan_frame [OF _ IH(1)]) (use fresh in \<open>simp add: image_image\<close>)
    then have "map_of memo' (r_name e) = Some (rd_hash (rd_of opts files e))" by (simp add: memo1_def)
    with IH Cons.prems(2) [of e] True none read show ?thesis
      by (auto simp: e(2) memo1_def [symmetric] Let_def)
  next
    case False
    then have "filter (\<lambda>x. t \<le> fst x) items = drop (nat (find_index (\<lambda>(u, _). u \<ge> t) items)) items"
      using cut by simp
    moreover have "drop (nat (find_index (\<lambda>(u, _). u \<ge> t) items)) items \<noteq> []"
      using False find_index_ge [of "\<lambda>(u, _). u \<ge> t" items] find_index_less [of "\<lambda>(u, _). u \<ge> t" items] by simp
    ultimately show ?thesis
      using False Cons.prems(2) [of e] read by (simp add: e(2) Let_def)
  qed
qed simp

text \<open>A second pass over files that are all processed finds nothing.\<close>

lemma fetch_scan_again:
  "(\<And>e. e \<in> set es \<Longrightarrow> map_of memo (rd_name e) = Some (rd_hash e)) \<Longrightarrow> fetch_scan t files es memo n = (None, memo, n)"
  by (induction es) auto

text \<open>The files before the one the search starts at have no record that is wanted.\<close>

lemma start_index:
  assumes "log_ok opts files rs"
  shows "first_chunk t files (drop (nat (if find_last_index (\<lambda>e. r_tick e \<le> t) rs = -1 then 0
    else find_last_index (\<lambda>e. r_tick e \<le> t) rs)) rs) = first_chunk t files rs"
proof (cases "find_last_index (\<lambda>e. r_tick e \<le> t) rs = -1")
  case False
  define i where "i = nat (find_last_index (\<lambda>e. r_tick e \<le> t) rs)"
  have i: "i < length rs" "find_last_index (\<lambda>e. r_tick e \<le> t) rs = int i"
    using False find_last_index_bounds [of "\<lambda>e. r_tick e \<le> t" rs] by (auto simp: i_def)
  have "r_tick (rs ! i) \<le> t"
    using i
  proof (induction rs arbitrary: i rule: rev_induct)
    case (snoc x rs)
    then show ?case
      using find_last_index_bounds [of "\<lambda>e. r_tick e \<le> t" rs]
      by (cases "r_tick x \<le> t") (auto simp: nth_append split: if_splits)
  qed simp
  have split: "rs = take i rs @ rs ! i # drop (Suc i) rs" by (rule id_take_nth_drop [OF i(1)])
  then have ok: "log_ok opts files (take i rs @ rs ! i # drop (Suc i) rs)" using assms by simp
  have none: "filter (\<lambda>x. t \<le> fst x) (items_at files (r_name e)) = []" if "e \<in> set (take i rs)" for e
    using that ok \<open>r_tick (rs ! i) \<le> t\<close> by (fastforce simp: filter_empty_conv rec_before_def)
  have skip: "first_chunk t files (es @ es') = first_chunk t files es'"
    if "\<forall>e\<in>set es. filter (\<lambda>x. t \<le> fst x) (items_at files (r_name e)) = []" for es es'
    using that by (induction es) (auto simp: Let_def)
  have "first_chunk t files (take i rs @ drop i rs) = first_chunk t files (drop i rs)"
    using none by (intro skip) blast
  then show ?thesis by (simp add: i(2))
qed simp

lemma find_last_index_map: "find_last_index P (map f xs) = find_last_index (\<lambda>x. P (f x)) xs"
  by (induction xs rule: rev_induct) simp_all

lemma fetch_loop_result:
  assumes ok: "log_ok opts files rs" and files: "files_ok files rs"
    and known: "known = [] \<or> known = map (rd_of opts files) rs"
  shows "fetch_loop opts t files known [] 0 = Some (map (rd_of opts files) rs, first_chunk t files rs)"
proof -
  note disc = discover_result [OF ok files]
  let ?es = "map (rd_of opts files) rs"
  define i where "i = nat (if find_last_index (\<lambda>e. r_tick e \<le> t) rs = -1 then 0
    else find_last_index (\<lambda>e. r_tick e \<le> t) rs)"
  have "log_ok opts files (take i rs @ drop i rs)" using ok by simp
  then have tail: "log_ok opts files (drop i rs)" by (simp only: log_ok_simps)
  have same: "first_chunk t files (drop i rs) = first_chunk t files rs"
    unfolding i_def by (rule start_index [OF ok])
  have entries: "(if known = [] \<or> 0 < m then discover opts files else known) = ?es" for m :: nat
    using known disc by auto
  have index: "drop (nat (if find_last_index (\<lambda>e. rd_tick e \<le> t) ?es = -1 then 0
      else find_last_index (\<lambda>e. rd_tick e \<le> t) ?es)) ?es = map (rd_of opts files) (drop i rs)"
    by (simp add: find_last_index_map i_def drop_map)
  obtain memo k where scan: "fetch_scan t files (map (rd_of opts files) (drop i rs)) [] 0 =
      (first_chunk t files (drop i rs), memo, k)"
    and all: "first_chunk t files (drop i rs) = None \<Longrightarrow>
      (\<forall>e\<in>set (drop i rs). map_of memo (r_name e) = Some (rd_hash (rd_of opts files e)))"
    using fetch_scan_result [OF tail, of "[]" t 0] by auto
  show ?thesis
  proof (cases "first_chunk t files rs")
    case (Some xs)
    then show ?thesis
      using scan same
      by (subst fetch_loop.simps) (simp only: entries index Let_def, simp)
  next
    case None
    then have "fetch_scan t files (map (rd_of opts files) (drop i rs)) memo 0 = (None, memo, 0)"
      using all same by (intro fetch_scan_again) auto
    moreover have "(if ?es = [] \<or> 0 < k then discover opts files else ?es) = ?es" using disc by simp
    ultimately have "fetch_loop opts t files ?es memo k = Some (?es, None)"
      by (subst fetch_loop.simps) (simp only: index Let_def, simp)
    then show ?thesis
      using scan same None
      by (subst fetch_loop.simps) (simp only: entries index Let_def, simp)
  qed
qed

lemma log_sorted:
  assumes "log_ok opts files rs"
  shows "sorted_wrt (<) (map fst (log_items files rs))"
  using assms
proof (induction rs)
  case (Cons e rs)
  obtain items where e: "items_at files (r_name e) = items" "file_items_ok opts e items"
    using Cons.prems by (auto elim: rec_okE)
  have "fst x < fst y" if x: "x \<in> set items" and y: "y \<in> set (log_items files rs)" for x y
  proof -
    obtain b where b: "b \<in> set rs" "y \<in> set (items_at files (r_name b))"
      using y by (auto simp: log_items_def)
    then have "rec_ok opts files b" "rec_before files e b" using Cons.prems by (auto simp: log_ok_def)
    then have "r_tick b \<le> fst y" "fst x < r_tick b"
      using b(2) x e(1) by (auto simp: rec_before_def file_items_ok_def elim!: rec_okE)
    then show ?thesis by simp
  qed
  then show ?case using Cons e by (auto simp: file_items_ok_def sorted_wrt_append)
qed simp

text \<open>What is left after a chunk is what comes after its last record.\<close>

lemma after_chunk:
  assumes "sorted_wrt (<) (map fst L)" and "prefix xs (filter (\<lambda>x. t \<le> fst x) L)" and "xs \<noteq> []"
  shows "filter (\<lambda>x. (t :: nat) \<le> fst x) L = xs @ filter (\<lambda>x. fst (last xs) + 1 \<le> fst x) L"
    and "length (filter (\<lambda>x. fst (last xs) + 1 \<le> fst x) L) < length (filter (\<lambda>x. t \<le> fst x) L)"
proof -
  obtain ys where ys: "filter (\<lambda>x. t \<le> fst x) L = xs @ ys" using assms(2) by (auto elim: prefixE)
  have "last xs \<in> set (filter (\<lambda>x. t \<le> fst x) L)" using ys assms(3) by simp
  then have "t \<le> fst (last xs)" by simp
  then have "filter (\<lambda>x. fst (last xs) + 1 \<le> fst x) L =
      filter (\<lambda>x. fst (last xs) + 1 \<le> fst x) (filter (\<lambda>x. t \<le> fst x) L)"
    by (auto intro: filter_cong)
  also have "\<dots> = ys"
  proof -
    have "sorted_wrt (\<lambda>x y. fst x < fst y) (filter (\<lambda>x. t \<le> fst x) L)"
      using assms(1) by (simp add: sorted_wrt_map sorted_wrt_filter)
    moreover have "xs @ ys = butlast xs @ [last xs] @ ys" using assms(3) by (simp flip: append_assoc)
    ultimately have "sorted_wrt (\<lambda>x y. fst x < fst y) (butlast xs @ [last xs] @ ys)" by (simp only: ys)
    then have "\<forall>x\<in>set (butlast xs @ [last xs]). \<not> fst (last xs) + 1 \<le> fst x"
      and "\<forall>y\<in>set ys. fst (last xs) + 1 \<le> fst y"
      by (auto simp: sorted_wrt_append)
    then show ?thesis using assms(3) by (simp add: ys filter_split filter_empty_conv filter_id_conv)
  qed
  finally show "filter (\<lambda>x. t \<le> fst x) L = xs @ filter (\<lambda>x. fst (last xs) + 1 \<le> fst x) L"
    and "length (filter (\<lambda>x. fst (last xs) + 1 \<le> fst x) L) < length (filter (\<lambda>x. t \<le> fst x) L)"
    using ys assms(3) by simp_all
qed

lemma read_storage_result:
  assumes ok: "log_ok opts files rs" and files: "files_ok files rs"
    and known: "known = [] \<or> known = map (rd_of opts files) rs"
  shows "read_storage opts files known t = Some (filter (\<lambda>x. t \<le> fst x) (log_items files rs))"
  using known
proof (induction "length (filter (\<lambda>x. t \<le> fst x) (log_items files rs))" arbitrary: t known rule: less_induct)
  case less
  note loop = fetch_loop_result [OF ok files less.prems, of t]
  show ?case
  proof (cases "first_chunk t files rs")
    case None
    then show ?thesis
      using loop first_chunk_log [of t files rs] by (subst read_storage.simps) simp
  next
    case (Some xs)
    then have xs: "xs \<noteq> []" "prefix xs (filter (\<lambda>x. t \<le> fst x) (log_items files rs))"
      using first_chunk_log [of t files rs] by auto
    note after = after_chunk [OF log_sorted [OF ok] xs(2,1)]
    have "read_storage opts files (map (rd_of opts files) rs) (fst (last xs) + 1) =
        Some (filter (\<lambda>x. fst (last xs) + 1 \<le> fst x) (log_items files rs))"
      by (rule less.hyps [OF after(2)]) simp
    then show ?thesis
      using loop Some after(1) by (subst read_storage.simps) simp
  qed
qed

section \<open>Properties\<close>

definition new_storage :: "'p r_storage" where
  "new_storage = \<lparr>r_files = [], r_records = Some [], r_tickRemote = None\<rparr>"

text \<open>The size of the files as the writer counts it: of a text its length, of a compressed file its bytes.\<close>

definition counted_size :: "'p r_options \<Rightarrow> string \<Rightarrow> 'p content \<Rightarrow> nat" where
  "counted_size opts name c = (if suffix ''.gz'' name then gzBytes opts c else content_length opts c)"

definition files_size :: "'p r_options \<Rightarrow> 'p r_files \<Rightarrow> nat" where
  "files_size opts files = sum_list (map (\<lambda>(name, c). counted_size opts name c) files)"

lemma sum_list_keys:
  "wf_map m \<Longrightarrow> sum_list (map (\<lambda>(k, v). f k v) m) = (\<Sum>k\<in>fst ` set m. f k (the (map_of m k)))" for f :: "'k \<Rightarrow> 'v \<Rightarrow> nat"
proof (induction m)
  case (Cons p m)
  obtain k v where p: "p = (k, v)" by (cases p)
  have "(\<Sum>j\<in>fst ` set m. f j (the (map_of (p # m) j))) = (\<Sum>j\<in>fst ` set m. f j (the (map_of m j)))"
    using Cons.prems p by (intro sum.cong) auto
  then show ?case using Cons p by (simp add: sum.insert_remove)
qed simp

lemma files_size_records:
  assumes "log_ok opts files rs" and "files_ok files rs"
  shows "files_size opts files = sum_list (map r_size rs)"
proof -
  let ?f = "\<lambda>n. counted_size opts n (the (map_of files n))"
  have "files_size opts files = (\<Sum>n\<in>fst ` set files. ?f n)"
    using assms(2) unfolding files_size_def files_ok_def by (intro sum_list_keys) simp
  also have "\<dots> = (\<Sum>n\<leftarrow>map r_name rs. ?f n)"
    using sum_list_distinct_conv_sum_set [OF log_ok_names(2) [OF assms(1)], of ?f] assms(2) by (simp add: files_ok_def)
  also have "\<dots> = sum_list (map r_size rs)"
  proof -
    have "?f (r_name e) = r_size e" if "e \<in> set rs" for e
      using assms(1) that by (auto simp: log_ok_def rec_ok_def file_items_ok_def counted_size_def rec_name_suffix)
    then show ?thesis by (simp add: comp_def cong: map_cong)
  qed
  finally show ?thesis .
qed

text \<open>The files after any writes to a new storage.\<close>

lemma written_log:
  assumes "header_length records_version \<le> maxSize opts - recordMaxSize opts" and "ps \<noteq> []"
  shows "\<exists>m rs. m < length ps \<and> r_records (write_all opts 0 ps new_storage) = Some rs \<and>
    log_ok opts (r_files (write_all opts 0 ps new_storage)) rs \<and> files_ok (r_files (write_all opts 0 ps new_storage)) rs \<and>
    log_items (r_files (write_all opts 0 ps new_storage)) rs = drop m (stamped opts 0 ps)"
proof -
  let ?s = "write_all opts 0 ps new_storage"
  have "r_inv opts 0 (new_storage :: 'a r_storage)" and empty: "r_items (new_storage :: 'a r_storage) = []"
    by (simp_all add: new_storage_def r_inv_def files_ok_def r_items_def)
  note result = write_all_result [OF this(1) assms(1), of ps]
  obtain m where m: "r_items ?s = drop m (stamped opts 0 ps)" "m < length ps"
    using result assms(2) by (auto simp: empty)
  obtain rs where rs: "r_records ?s = Some rs" "log_ok opts (r_files ?s) rs" "files_ok (r_files ?s) rs"
    using result by (auto simp: r_inv_def)
  then show ?thesis using m by (intro exI [of _ m] exI [of _ rs]) (simp add: r_items_def)
qed

lemma stamped_payloads: "x \<in> set (stamped opts T ps) \<Longrightarrow> fst (snd x) \<in> fst ` set ps"
proof (induction ps arbitrary: T)
  case (Cons p ps)
  then show ?case using Cons.IH [of "Suc T"] by (cases p) auto
qed simp

text \<open>
  C40. The log. After any writes to a new storage, a reader that starts at a tick and has just discovered the files
  gets, in order and each once, the records from that tick on, of which only oldest ones may be missing and never the
  last one; and the files together are within the limit of the storage. This is for records that fit into a file, and
  limits that leave room for the header of a file. Sizes are as the code counts them (\<open>counted_size\<close>): a text in
  characters, although the limits are documented in bytes, and a compressed file in bytes.
\<close>

theorem records_log:
  assumes "header_length records_version \<le> maxSize opts - recordMaxSize opts" and "recordMaxSize opts < maxSize opts"
    and "\<forall>x\<in>set (stamped opts 0 ps). header_length records_version + itemLength opts x \<le> recordMaxSize opts"
    and "ps \<noteq> []"
  shows "\<exists>m < length ps. read_storage opts (r_files (write_all opts 0 ps new_storage)) [] t =
      Some (filter (\<lambda>x. t \<le> fst x) (drop m (stamped opts 0 ps))) \<and>
    files_size opts (r_files (write_all opts 0 ps new_storage)) \<le> maxSize opts"
proof -
  let ?s = "write_all opts 0 ps new_storage"
  obtain m rs where m: "m < length ps" "r_records ?s = Some rs" "log_ok opts (r_files ?s) rs" "files_ok (r_files ?s) rs"
    "log_items (r_files ?s) rs = drop m (stamped opts 0 ps)" using written_log [OF assms(1,4)] by blast
  have "r_inv opts 0 (new_storage :: 'a r_storage)" and bound: "r_bound opts (new_storage :: 'a r_storage)"
    by (simp_all add: new_storage_def r_inv_def files_ok_def r_bound_def)
  then have "r_bound opts ?s" using write_all_result [OF _ assms(1), of 0 new_storage ps] assms(3) by blast
  then have "files_size opts (r_files ?s) \<le> maxSize opts"
    using r_bound_total [OF _ assms(2) m(2)] files_size_records [OF m(3,4)] by simp
  then show ?thesis using read_storage_result [OF m(3,4), of "[]" t] m(1,5) by auto
qed

text \<open>
  The limit in bytes: two records of 30 characters that take 60 bytes each are in one file, which has then 144 bytes.
\<close>

lemma limit_in_characters:
  defines "opts \<equiv> \<lparr>recordMaxSize = 100, maxSize = 1000, serializedLength = (\<lambda>p. 28), itemLength = (\<lambda>x. 30),
    itemBytes = (\<lambda>x. 60), gzBytes = (\<lambda>c. 10)\<rparr> :: string r_options"
  shows "map (\<lambda>(name, c). content_bytes opts c) (r_files (write_all opts 0 [(''a'', None), (''b'', None)] new_storage)) = [144]"
  unfolding opts_def by code_simp

text \<open>
  Records that are not ASCII are lost at the next start. The size of a record is counted in bytes by
  \<open>stat\<close> and compared with the number of characters of its text: if they differ, opening the storage takes
  the file for invalid and deletes it.
\<close>

lemma init_deletes_non_ascii:
  assumes "itemLength opts x \<noteq> itemBytes opts x" and "itemBytes opts x + header_length records_version \<le> maxSize opts - recordMaxSize opts"
  shows "\<exists>n. init_storage opts False [(rec_name (fst x), Content records_version [x])] T =
    (\<lparr>r_files = [], r_records = Some [], r_tickRemote = None\<rparr>, Inr (n, []))"
proof -
  let ?name = "rec_name (fst x)" and ?c = "Content records_version [x]"
  let ?e = "\<lparr>r_tick = fst x, r_name = ?name, r_size = content_bytes opts ?c\<rparr>"
  have limit: "\<not> maxSize opts - recordMaxSize opts < header_length records_version + itemBytes opts x"
    using assms(2) by simp
  have add: "add_files opts [?name] \<lparr>r_files = [(?name, ?c)], r_records = Some [], r_tickRemote = None\<rparr> =
      (\<lparr>r_files = [(?name, ?c)], r_records = Some [?e], r_tickRemote = None\<rparr>, Inr ())"
    using limit by (simp add: addRecordEntry_def stat_size_def splice_insert_def Let_def)
  have bad: "sanitize_record opts [(?name, ?c)] ?e None = (int (fst x) - 1, None, [], Inl AssertFailed)"
    using assms(1) by (simp add: sanitize_record_def readRecord_def Let_def)
  have "sanitizeStorage opts \<lparr>r_files = [(?name, ?c)], r_records = Some [?e], r_tickRemote = None\<rparr> =
      (\<lparr>r_files = [], r_records = Some [], r_tickRemote = None\<rparr>, Inr (Some (int (fst x) - 1), None, []))"
    by (simp add: sanitizeStorage_def bad delete_record_def splice_remove_def Let_def del: content_bytes.simps)
  with add show ?thesis by (simp add: init_storage_def)
qed

text \<open>
  A crash between the two steps of the compression leaves a record and its compressed copy, with the same
  tick, and the storage cannot be opened any more.
\<close>

definition sample_records :: "string r_options" where
  "sample_records = \<lparr>recordMaxSize = 100, maxSize = 1000, serializedLength = (\<lambda>p. length p + 2),
     itemLength = (\<lambda>x. 20), itemBytes = (\<lambda>x. 20), gzBytes = (\<lambda>c. 10)\<rparr>"

lemma compress_crash_blocks_init:
  "snd (init_storage sample_records False
     [(rec_name 5, Content 3 [(5, ''a'', 3, None)]), (rec_name 5 @ ''.gz'', Content 3 [(5, ''a'', 3, None)])] 0) =
   Inl AssertFailed"
proof -
  have index: "find_last_index (\<lambda>e. r_tick e \<le> 5) [e] = (if r_tick e \<le> 5 then 0 else -1)" for e
    using find_last_index_snoc [of "\<lambda>e. r_tick e \<le> 5" "[]" e] by simp
  show ?thesis
    by (simp add: init_storage_def addRecordEntry_def index stat_size_def splice_insert_def Let_def sample_records_def
        header_length_def nat_to_string.simps)
qed

text \<open>The storages are merged by the payloads of their records, not by their ticks.\<close>

lemma merge_by_payload:
  "map fst (merge_read (<) [[(1, 5 :: int, 1, None)], [(2, 3, 1, None)]]) = [2, 1]"
  by (simp add: merge_read.simps [of "(<)" "[_, _]"] merge_read.simps [of "(<)" "[_]"] min_index_def Let_def
      merge_read.simps)

section \<open>Instances of the properties\<close>

theorem records_log_witness:
  "\<exists>m < 2. read_storage sample_records (r_files (write_all sample_records 0 [(''a'', None), (''b'', Some 7)] new_storage)) [] 2 =
     Some (filter (\<lambda>x. 2 \<le> fst x) (drop m [(1, ''a'', 3, None), (2, ''b'', 3, Some 7)]))"
proof -
  let ?ps = "[(''a'', None), (''b'', Some 7)]"
  have stamped: "stamped sample_records 0 ?ps = [(1, ''a'', 3, None), (2, ''b'', 3, Some 7)]"
    by (simp add: sample_records_def)
  have two: "length ?ps = 2" by simp
  have "header_length records_version \<le> maxSize sample_records - recordMaxSize sample_records"
    "recordMaxSize sample_records < maxSize sample_records"
    "\<forall>x\<in>set (stamped sample_records 0 ?ps). header_length records_version + itemLength sample_records x \<le> recordMaxSize sample_records"
    "?ps \<noteq> []"
    by (simp_all add: sample_records_def header_length_def nat_to_string.simps records_version_def)
  note result = records_log [OF this, of 2, unfolded stamped two]
  then show ?thesis by (elim exE conjE) (rule exI, erule conjI, assumption)
qed

theorem init_deletes_non_ascii_witness:
  "\<exists>n. init_storage (sample_records\<lparr>itemBytes := (\<lambda>x. 21)\<rparr>) False
     [(rec_name 1, Content records_version [(1, ''e'', 3, None)])] 0 =
     (\<lparr>r_files = [], r_records = Some [], r_tickRemote = None\<rparr>, Inr (n, []))"
  using init_deletes_non_ascii [of "sample_records\<lparr>itemBytes := (\<lambda>x. 21)\<rparr>" "(1, ''e'', 3, None)" 0]
  by (simp add: sample_records_def header_length_def nat_to_string.simps records_version_def)

end
