(* ===== verification/Router.thy ===== *)
theory Router
  imports Json
begin

text \<open>
  \<open>core/router.js\<close>: routes with variables, compiled to regular expressions, and the router that joins them into
  one expression and finds the route of a match by counting capture groups.

  Strings are of the characters 0 to 255. Of the language: \<open>encodeURIComponent\<close>, \<open>decodeURIComponent\<close> (which
  fails here on bytes that stand for other characters too), matching of regular expressions with
  backtracking, of the forms that the router makes, and \<open>split\<close> with its expression. The values of variables
  are kept in the order in which they are set.
\<close>

section \<open>URI components\<close>

definition uri_unreserved :: "char \<Rightarrow> bool" where
  "uri_unreserved c =
     (let n = of_char c :: nat
      in 48 \<le> n \<and> n \<le> 57 \<or> 65 \<le> n \<and> n \<le> 90 \<or> 97 \<le> n \<and> n \<le> 122 \<or> c \<in> set ''-_.!~*()'' \<or> n = 39)"

definition hex_char :: "nat \<Rightarrow> char" where
  "hex_char k = char_of (if k < 10 then 48 + k else 55 + k)"

definition hex_value :: "char \<Rightarrow> nat option" where
  "hex_value c =
     (let n = of_char c
      in if 48 \<le> n \<and> n \<le> 57 then Some (n - 48)
         else if 65 \<le> n \<and> n \<le> 70 then Some (n - 55)
         else if 97 \<le> n \<and> n \<le> 102 then Some (n - 87) else None)"

definition percent :: "nat \<Rightarrow> string" where
  "percent n = [CHR ''%'', hex_char (n div 16), hex_char (n mod 16)]"

definition utf8 :: "char \<Rightarrow> nat list" where
  "utf8 c = (let n = of_char c in if n < 128 then [n] else [192 + n div 64, 128 + n mod 64])"

definition encode_char :: "char \<Rightarrow> string" where
  "encode_char c = (if uri_unreserved c then [c] else concat (map percent (utf8 c)))"

definition encodeURIComponent :: "string \<Rightarrow> string" where
  "encodeURIComponent s = concat (map encode_char s)"

fun percent_byte :: "string \<Rightarrow> (nat \<times> string) option" where
  "percent_byte (p # a # b # s) =
     (if p = CHR ''%''
      then (case (hex_value a, hex_value b) of (Some h, Some l) \<Rightarrow> Some (16 * h + l, s) | _ \<Rightarrow> None)
      else None)"
| "percent_byte s = None"

lemma percent_byte_shorter: "percent_byte s = Some (n, t) \<Longrightarrow> length t < length s"
  by (induction s rule: percent_byte.induct) (auto split: if_splits option.splits)

function decodeURIComponent :: "string \<Rightarrow> string outcome" where
  "decodeURIComponent [] = Inr []"
| "decodeURIComponent (c # s) =
     (if c \<noteq> CHR ''%'' then outcome_bind (decodeURIComponent s) (\<lambda>r. Inr (c # r))
      else (case percent_byte (c # s) of
              None \<Rightarrow> Inl (Raised ''URIError'')
            | Some (n, t) \<Rightarrow>
                if n < 128 then outcome_bind (decodeURIComponent t) (\<lambda>r. Inr (char_of n # r))
                else if 194 \<le> n \<and> n \<le> 195
                then (case percent_byte t of
                        None \<Rightarrow> Inl (Raised ''URIError'')
                      | Some (m, u) \<Rightarrow>
                          if 128 \<le> m \<and> m < 192
                          then outcome_bind (decodeURIComponent u)
                                 (\<lambda>r. Inr (char_of ((n - 192) * 64 + (m - 128)) # r))
                          else Inl (Raised ''URIError''))
                else Inl (Raised ''URIError'')))"
  by pat_completeness auto
termination
proof (relation "measure length", goal_cases)
  case (3 c s p n t)
  then show ?case using percent_byte_shorter [of "c # s" n t] by simp
next
  case (4 c s p n t q m u)
  then show ?case using percent_byte_shorter [of "c # s" n t] percent_byte_shorter [of t m u] by simp
qed simp_all

section \<open>Regular expressions\<close>

text \<open>
  A character, and the groups \<open>([^/]+)\<close>, \<open>($|/.*)\<close>, \<open>(.*)\<close>, \<open>(.+)\<close>, \<open>([0-9]+)\<close> and \<open>()\<close>. An expression is a
  sequence of them.
\<close>

datatype rx = RLit char | RSegment | RStarSlash | RStar | RPlus | RInt | REmpty

text \<open>\<open>Canonicalize\<close> of the flag \<open>i\<close>: upper case, where it is one of the characters.\<close>

definition canonicalize :: "char \<Rightarrow> char" where
  "canonicalize c =
     (let n = of_char c :: nat
      in if 97 \<le> n \<and> n \<le> 122 \<or> 224 \<le> n \<and> n \<le> 254 \<and> n \<noteq> 247 then char_of (n - 32) else c)"

definition same_char :: "bool \<Rightarrow> char \<Rightarrow> char \<Rightarrow> bool" where
  "same_char caseSensitive c d = (if caseSensitive then c = d else canonicalize c = canonicalize d)"

definition rx_dot :: "char \<Rightarrow> bool" where
  "rx_dot c = (of_char c \<noteq> (10 :: nat) \<and> of_char c \<noteq> (13 :: nat))"

text \<open>The ways a repetition matches at the beginning of a string, the longest first: matched and rest.\<close>

definition greedy :: "(char \<Rightarrow> bool) \<Rightarrow> nat \<Rightarrow> string \<Rightarrow> (string \<times> string) list" where
  "greedy p least s =
     map (\<lambda>k. (take k s, drop k s)) (rev [least..<Suc (length (takeWhile p s))])"

fun ways :: "rx \<Rightarrow> string \<Rightarrow> (string \<times> string) list" where
  "ways (RLit c) s = []"
| "ways RSegment s = greedy (\<lambda>c. c \<noteq> CHR ''/'') (Suc 0) s"
| "ways RStarSlash s =
     (case s of
        [] \<Rightarrow> [([], [])]
      | c # t \<Rightarrow> if c = CHR ''/'' then map (\<lambda>(a, b). (c # a, b)) (greedy rx_dot 0 t) else [])"
| "ways RStar s = greedy rx_dot 0 s"
| "ways RPlus s = greedy rx_dot (Suc 0) s"
| "ways RInt s = greedy is_digit (Suc 0) s"
| "ways REmpty s = [([], s)]"

fun first_some :: "'a option list \<Rightarrow> 'a option" where
  "first_some [] = None"
| "first_some (None # xs) = first_some xs"
| "first_some (Some x # xs) = Some x"

text \<open>The whole string is matched, \<open>^...$\<close>; the result is what the groups capture.\<close>

fun rx_match :: "bool \<Rightarrow> rx list \<Rightarrow> string \<Rightarrow> string list option" where
  "rx_match cs [] s = (if s = [] then Some [] else None)"
| "rx_match cs (x # r) s =
     (case x of
        RLit c \<Rightarrow> (case s of [] \<Rightarrow> None | d # t \<Rightarrow> if same_char cs c d then rx_match cs r t else None)
      | _ \<Rightarrow> first_some (map (\<lambda>(capture, rest). map_option ((#) capture) (rx_match cs r rest)) (ways x s)))"

fun rx_groups :: "rx list \<Rightarrow> nat" where
  "rx_groups [] = 0"
| "rx_groups (RLit c # r) = rx_groups r"
| "rx_groups (_ # r) = Suc (rx_groups r)"

section \<open>Compiled routes\<close>

text \<open>
  \<open>path.split(/{([^}:]+):?([^}]*)}/g)\<close>: the text before the first variable, then for each variable its
  name, its type and the text behind. First what follows an opening brace.
\<close>

definition split_var :: "string \<Rightarrow> (string \<times> string \<times> string) option" where
  "split_var s =
     (let name = takeWhile (\<lambda>c. c \<noteq> CHR ''}'' \<and> c \<noteq> CHR '':'') s
      in if name = [] then None
         else (case drop (length name) s of
                 [] \<Rightarrow> None
               | c # t \<Rightarrow>
                   if c = CHR ''}'' then Some (name, [], t)
                   else (case dropWhile (\<lambda>c. c \<noteq> CHR ''}'') t of
                           [] \<Rightarrow> None
                         | _ # u \<Rightarrow> Some (name, takeWhile (\<lambda>c. c \<noteq> CHR ''}'') t, u))))"

lemma split_var_shorter: "split_var s = Some (name, ty, t) \<Longrightarrow> length t < length s"
proof -
  assume split: "split_var s = Some (name, ty, t)"
  let ?rest = "drop (length (takeWhile (\<lambda>c. c \<noteq> CHR ''}'' \<and> c \<noteq> CHR '':'') s)) s"
  obtain c u where rest: "?rest = c # u" using split by (auto simp: split_var_def Let_def split: if_splits list.splits)
  have "length u < length s" using arg_cong [OF rest, of length] by simp
  moreover have "t = u \<or> (\<exists>d. dropWhile (\<lambda>c. c \<noteq> CHR ''}'') u = d # t)"
    using split rest by (auto simp: split_var_def Let_def split: if_splits list.splits)
  moreover have "length (dropWhile (\<lambda>c. c \<noteq> CHR ''}'') u) \<le> length u" by (rule length_dropWhile_le)
  ultimately show ?thesis by fastforce
qed

function split_route :: "string \<Rightarrow> string \<times> (string \<times> string \<times> string) list" where
  "split_route [] = ([], [])"
| "split_route (c # s) =
     (case (if c = CHR ''{'' then split_var s else None) of
        Some (name, ty, rest) \<Rightarrow> (case split_route rest of (text, vs) \<Rightarrow> ([], (name, ty, text) # vs))
      | None \<Rightarrow> (case split_route s of (text, vs) \<Rightarrow> (c # text, vs)))"
  by pat_completeness auto
termination
  by (relation "measure length") (auto dest: split_var_shorter split: if_splits)

datatype var_kind = VName | VStar | VPlus | VInt

type_synonym route_var = "string \<times> var_kind"

text \<open>The value of a variable: a string, or a number for the type \<open>i\<close>.\<close>

datatype route_value = Text string | Number nat

fun uncast :: "var_kind \<Rightarrow> route_value \<Rightarrow> string" where
  "uncast VName (Text s) = encodeURIComponent s"
| "uncast kind (Text s) = s"
| "uncast kind (Number n) = nat_to_string n"

fun cast :: "var_kind \<Rightarrow> string \<Rightarrow> route_value outcome" where
  "cast VName s = outcome_bind (decodeURIComponent s) (\<lambda>t. Inr (Text t))"
| "cast VStar s = Inr (Text (drop 1 s))"
| "cast VPlus s = Inr (Text s)"
| "cast VInt s = Inr (Number (string_to_nat s))"

text \<open>The loop over the variables, with the expression so far.\<close>

definition compile_var :: "rx list \<Rightarrow> string \<Rightarrow> (rx list \<times> var_kind) outcome" where
  "compile_var r ty =
     (if ty = '''' then Inr (r @ [RSegment], VName)
      else if ty = ''*'' then
        (if r \<noteq> [] \<and> last r = RLit (CHR ''/'') then Inr (butlast r @ [RStarSlash], VStar)
         else if r = [] then Inr ([RStar], VStar) else Inl AssertFailed)
      else if ty = ''+'' then
        (if r = [] \<or> last r = RLit (CHR ''/'') then Inr (r @ [RPlus], VPlus) else Inl AssertFailed)
      else if ty = ''i'' then Inr (r @ [RInt], VInt)
      else Inl Unreachable)"

fun compile_vars :: "rx list \<Rightarrow> (string \<times> string \<times> string) list \<Rightarrow> (rx list \<times> route_var list) outcome" where
  "compile_vars r [] = Inr (r, [])"
| "compile_vars r ((name, ty, text) # vs) =
     outcome_bind (compile_var r ty)
       (\<lambda>(r', kind). outcome_bind (compile_vars (r' @ map RLit text) vs)
          (\<lambda>(r'', vars). Inr (r'', (name, kind) # vars)))"

record compiled_route =
  rt_regexpr :: "rx list"
  rt_vars :: "route_var list"
  rt_segments :: "string list"

definition toCompiledRoute :: "string \<Rightarrow> compiled_route outcome" where
  "toCompiledRoute path =
     (case split_route path of
        (text, vs) \<Rightarrow>
          outcome_bind (compile_vars (map RLit text) vs)
            (\<lambda>(r, vars). Inr \<lparr>rt_regexpr = r, rt_vars = vars,
               rt_segments = text # filter (\<lambda>t. t \<noteq> []) (map (\<lambda>(name, ty, t). t) vs)\<rparr>))"

definition cast_vars :: "route_var list \<Rightarrow> string list \<Rightarrow> (string \<times> route_value) list outcome" where
  "cast_vars vars captures =
     outcome_bind
       (outcome_map (\<lambda>((name, kind), str). outcome_bind (cast kind str) (\<lambda>v. Inr (name, v))) (zip vars captures))
       (\<lambda>ps. Inr (fold (\<lambda>(name, v). AList.update name v) ps []))"

definition rt_match :: "bool \<Rightarrow> compiled_route \<Rightarrow> string \<Rightarrow> (string \<times> route_value) list option outcome" where
  "rt_match cs route path =
     (case rx_match cs (rt_regexpr route) path of
        None \<Rightarrow> Inr None
      | Some captures \<Rightarrow> outcome_bind (cast_vars (rt_vars route) captures) (\<lambda>vars. Inr (Some vars)))"

text \<open>\<open>toRoute\<close>: the segment with the index of a variable comes before it.\<close>

fun toRoute_loop :: "string list \<Rightarrow> route_var list \<Rightarrow> (string \<times> route_value) list \<Rightarrow> string outcome" where
  "toRoute_loop [] vars vals = Inr []"
| "toRoute_loop (segment # segments) [] vals =
     outcome_bind (toRoute_loop segments [] vals) (\<lambda>s. Inr (segment @ s))"
| "toRoute_loop (segment # segments) ((name, kind) # vars) vals =
     (case map_of vals name of
        None \<Rightarrow> Inl AssertFailed
      | Some v \<Rightarrow> outcome_bind (toRoute_loop segments vars vals) (\<lambda>s. Inr (segment @ uncast kind v @ s)))"

definition toRoute :: "compiled_route \<Rightarrow> (string \<times> route_value) list \<Rightarrow> string outcome" where
  "toRoute route vals = toRoute_loop (rt_segments route) (rt_vars route) vals"

section \<open>The router\<close>

text \<open>A registered route: its handler and arguments. A compiled one adds its variables and expression.\<close>

record ('h, 'a) route_data =
  rd_args :: 'a
  rd_handler :: 'h
  rd_varList :: "route_var list"
  rd_pathRegexpr :: "rx list"

record ('h, 'a) compiled_routes =
  cr_regexpr :: "rx list list"
  cr_routes :: "('h, 'a) route_data list"
  cr_maxVars :: nat

record ('h, 'a) router =
  ro_caseSensitive :: bool
  ro_fallback :: "'h option"
  ro_routes :: "(string \<times> 'h \<times> 'a) list"
  ro_dirty :: bool
  ro_data :: "('h, 'a) compiled_routes option"

definition new_router :: "bool \<Rightarrow> 'h option \<Rightarrow> ('h, 'a) router" where
  "new_router caseSensitive fallback =
     \<lparr>ro_caseSensitive = caseSensitive, ro_fallback = fallback, ro_routes = [], ro_dirty = True, ro_data = None\<rparr>"

definition router_add :: "string \<Rightarrow> 'h \<Rightarrow> 'a \<Rightarrow> ('h, 'a) router \<Rightarrow> ('h, 'a) router" where
  "router_add path handler args R =
     R\<lparr>ro_routes := AList.update path (handler, args) (ro_routes R), ro_dirty := True\<rparr>"

definition compile_route :: "string \<times> 'h \<times> 'a \<Rightarrow> ('h, 'a) route_data outcome" where
  "compile_route = (\<lambda>(path, handler, args).
     outcome_bind (toCompiledRoute path)
       (\<lambda>route. Inr \<lparr>rd_args = args, rd_handler = handler, rd_varList = rt_vars route,
                     rd_pathRegexpr = rt_regexpr route\<rparr>))"

definition compileRoutes :: "(string \<times> 'h \<times> 'a) list \<Rightarrow> ('h, 'a) compiled_routes outcome" where
  "compileRoutes routes =
     outcome_bind (outcome_map compile_route routes)
       (\<lambda>routeData.
          let maxVars = fold (\<lambda>route n. max n (length (rd_varList route))) routeData 0
          in Inr \<lparr>cr_regexpr = map (\<lambda>route. rd_pathRegexpr route @
                       replicate (maxVars - length (rd_varList route) + 1) REmpty) routeData,
                  cr_routes = routeData, cr_maxVars = maxVars + 1\<rparr>)"

text \<open>
  \<open>path.match(/^(?:|...|...)$/)\<close>: the captures of the first alternative that matches, where those of the other
  alternatives are \<open>undefined\<close>.
\<close>

fun match_alternatives :: "bool \<Rightarrow> nat \<Rightarrow> rx list list \<Rightarrow> string \<Rightarrow> string option list option" where
  "match_alternatives cs before [] path = None"
| "match_alternatives cs before (r # rs) path =
     (case rx_match cs r path of
        Some captures \<Rightarrow>
          Some (replicate before None @ map Some captures @ replicate (sum_list (map rx_groups rs)) None)
      | None \<Rightarrow> match_alternatives cs (before + rx_groups r) rs path)"

definition match_master :: "bool \<Rightarrow> rx list list \<Rightarrow> string \<Rightarrow> string option list option" where
  "match_master cs rs path = match_alternatives cs 0 ([] # rs) path"

text \<open>A capture that is \<open>undefined\<close> is converted to a string like any other value.\<close>

definition capture_string :: "string option \<Rightarrow> string" where
  "capture_string c = (case c of Some s \<Rightarrow> s | None \<Rightarrow> ''undefined'')"

definition router_match :: "string \<Rightarrow> ('h, 'a) router \<Rightarrow>
    ('h, 'a) router \<times> (('h, 'a) route_data \<times> (string \<times> route_value) list) option outcome" where
  "router_match path R =
     (case (if ro_dirty R
            then outcome_bind (compileRoutes (ro_routes R)) (\<lambda>d. Inr (R\<lparr>ro_data := Some d, ro_dirty := False\<rparr>))
            else Inr R) of
        Inl e \<Rightarrow> (R, Inl e)
      | Inr R' \<Rightarrow>
          (case ro_data R' of
             None \<Rightarrow> (R', Inl TypeErr)
           | Some d \<Rightarrow>
               (case match_master (ro_caseSensitive R') (cr_regexpr d) path of
                  None \<Rightarrow> (R', Inr None)
                | Some captures \<Rightarrow>
                    let counter = find_last_index (\<lambda>c. c \<noteq> None) captures + 1;
                        indexRoute = (counter - 1) div int (cr_maxVars d);
                        indexVar = nat (indexRoute * int (cr_maxVars d))
                    in if indexRoute < 0 \<or> int (length (cr_routes d)) \<le> indexRoute then (R', Inl TypeErr)
                       else
                         let route = cr_routes d ! nat indexRoute
                         in (R', outcome_bind
                              (cast_vars (rd_varList route)
                                 (map (\<lambda>i. capture_string (captures ! (i + indexVar))) [0..<length (rd_varList route)]))
                              (\<lambda>vars. Inr (Some (route, vars)))))))"

text \<open>\<open>dispatch\<close>: the handler that is called with the variables, or the fallback.\<close>

datatype 'h dispatched = Handled 'h "(string \<times> route_value) list" | Fallback 'h | Unmatched

definition dispatch :: "string \<Rightarrow> ('h, 'a) router \<Rightarrow> ('h, 'a) router \<times> 'h dispatched outcome" where
  "dispatch path R =
     (case router_match path R of
        (R', Inl e) \<Rightarrow> (R', Inl e)
      | (R', Inr (Some (route, vars))) \<Rightarrow> (R', Inr (Handled (rd_handler route) vars))
      | (R', Inr None) \<Rightarrow> (R', Inr (case ro_fallback R' of None \<Rightarrow> Unmatched | Some h \<Rightarrow> Fallback h)))"

section \<open>Use of a router\<close>

datatype ('h, 'a) router_op = AddRoute string 'h 'a | MatchPath string

fun do_router :: "('h, 'a) router_op \<Rightarrow> ('h, 'a) router \<Rightarrow> ('h, 'a) router" where
  "do_router (AddRoute path handler args) R = router_add path handler args R"
| "do_router (MatchPath path) R = fst (router_match path R)"

end
