(* ===== verification/Router_Props.thy ===== *)
theory Router_Props
  imports Router
begin

text \<open>
  The joined expression of the router finds the first route that matches (\<open>router_is_first_match\<close>), and
  matching gives back the variables that a route was made of (\<open>route_roundtrip\<close>).
\<close>

section \<open>Groups and captures\<close>

lemma first_some_map: "first_some (map (\<lambda>x. map_option f (g x)) xs) = map_option f (first_some (map g xs))"
proof (induction xs)
  case (Cons x xs)
  then show ?case by (cases "g x") auto
qed simp

lemma first_some_mapD: "first_some (map f xs) = Some y \<Longrightarrow> \<exists>x\<in>set xs. f x = Some y"
proof (induction xs)
  case (Cons x xs)
  then show ?case by (cases "f x") auto
qed simp

lemma first_some_single [simp]: "first_some [x] = x"
  by (cases x) auto

lemma rx_groups_append [simp]: "rx_groups (r @ r') = rx_groups r + rx_groups r'"
  by (induction r rule: rx_groups.induct) auto

lemma rx_groups_lits [simp]: "rx_groups (map RLit s) = 0"
  by (induction s) auto

lemma rx_groups_replicate [simp]: "rx_groups (replicate n REmpty) = n"
  by (induction n) auto

lemma rx_match_length: "rx_match cs r s = Some captures \<Longrightarrow> length captures = rx_groups r"
proof (induction r arbitrary: s captures)
  case (Cons x r)
  show ?case
  proof (cases x)
    case (RLit c)
    then show ?thesis using Cons by (auto split: list.splits if_splits)
  qed (use Cons in \<open>auto dest!: first_some_mapD\<close>)
qed (simp split: if_splits)

lemma rx_match_padding:
  "rx_match cs (r @ replicate k REmpty) s = map_option (\<lambda>captures. captures @ replicate k []) (rx_match cs r s)"
proof (induction r arbitrary: s)
  case Nil
  show ?case by (induction k) (auto simp: option.map_comp split: option.splits)
next
  case (Cons x r)
  have IH: "(\<lambda>(capture, rest). map_option ((#) capture) (rx_match cs (r @ replicate k REmpty) rest)) =
    (\<lambda>p. map_option (\<lambda>captures. captures @ replicate k []) ((\<lambda>(capture, rest). map_option ((#) capture) (rx_match cs r rest)) p))"
    by (rule ext) (auto simp: Cons.IH option.map_comp comp_def split: prod.split)
  show ?case
  proof (cases x)
    case (RLit c)
    then show ?thesis using Cons.IH by (auto split: list.splits)
  qed (simp_all only: append_Cons rx_match.simps rx.case IH first_some_map)
qed

lemma compile_vars_groups:
  "compile_vars r vs = Inr (r', vars) \<Longrightarrow> rx_groups r' = rx_groups r + length vars"
proof (induction r vs arbitrary: r' vars rule: compile_vars.induct)
  case (2 r name ty t vs)
  obtain r1 kind r2 vars2 where c: "compile_var r ty = Inr (r1, kind)"
    and rest: "compile_vars (r1 @ map RLit t) vs = Inr (r2, vars2)" and "r' = r2" "vars = (name, kind) # vars2"
    using 2(2) by (auto simp: outcome_bind_eq_Inr)
  have "r \<noteq> [] \<Longrightarrow> last r = RLit c \<Longrightarrow> rx_groups (butlast r) = rx_groups r" for c
    using append_butlast_last_id [of r] rx_groups_append [of "butlast r" "[last r]"] by simp
  then have "rx_groups r1 = rx_groups r + 1" using c by (auto simp: compile_var_def split: if_splits)
  then show ?case using 2(1) [OF rest] \<open>r' = r2\<close> \<open>vars = _\<close> by simp
qed simp

lemma toCompiledRoute_groups:
  "toCompiledRoute path = Inr route \<Longrightarrow> rx_groups (rt_regexpr route) = length (rt_vars route)"
  by (auto simp: toCompiledRoute_def outcome_bind_eq_Inr dest: compile_vars_groups split: prod.splits)

section \<open>The joined expression\<close>

text \<open>The specification: the routes one after the other.\<close>

fun first_route :: "bool \<Rightarrow> (string \<times> 'h \<times> 'a) list \<Rightarrow> string \<Rightarrow> ('h \<times> 'a \<times> (string \<times> route_value) list) option outcome" where
  "first_route cs [] path = Inr None"
| "first_route cs ((p, handler, args) # routes) path =
     outcome_bind (toCompiledRoute p)
       (\<lambda>route. outcome_bind (rt_match cs route path)
          (\<lambda>m. case m of Some vars \<Rightarrow> Inr (Some (handler, args, vars)) | None \<Rightarrow> first_route cs routes path))"

definition route_result :: "(('h, 'a) route_data \<times> (string \<times> route_value) list) option outcome \<Rightarrow>
    ('h \<times> 'a \<times> (string \<times> route_value) list) option outcome" where
  "route_result r = outcome_bind r (\<lambda>m. Inr (map_option (\<lambda>(d, vars). (rd_handler d, rd_args d, vars)) m))"

text \<open>The first compiled route that matches: its index and captures.\<close>

fun first_data :: "bool \<Rightarrow> ('h, 'a) route_data list \<Rightarrow> string \<Rightarrow> (nat \<times> string list) option" where
  "first_data cs [] path = None"
| "first_data cs (d # ds) path =
     (case rx_match cs (rd_pathRegexpr d) path of
        Some captures \<Rightarrow> Some (0, captures)
      | None \<Rightarrow> map_option (\<lambda>(i, captures). (Suc i, captures)) (first_data cs ds path))"

definition data_ok :: "nat \<Rightarrow> ('h, 'a) route_data \<Rightarrow> bool" where
  "data_ok n d = (rx_groups (rd_pathRegexpr d) = length (rd_varList d) \<and> length (rd_varList d) \<le> n)"

definition pad :: "nat \<Rightarrow> ('h, 'a) route_data \<Rightarrow> rx list" where
  "pad n d = rd_pathRegexpr d @ replicate (n - length (rd_varList d) + 1) REmpty"

lemma first_data_index: "first_data cs ds path = Some (i, captures) \<Longrightarrow>
    i < length ds \<and> rx_match cs (rd_pathRegexpr (ds ! i)) path = Some captures"
  by (induction ds arbitrary: i) (auto split: option.splits)

lemma pad_groups: "data_ok n d \<Longrightarrow> rx_groups (pad n d) = Suc n"
  by (simp add: data_ok_def pad_def)

lemma rx_match_pad:
  "data_ok n d \<Longrightarrow> rx_match cs (pad n d) path =
     map_option (\<lambda>captures. captures @ replicate (Suc n - length captures) []) (rx_match cs (rd_pathRegexpr d) path)"
  by (cases "rx_match cs (rd_pathRegexpr d) path")
    (auto simp: pad_def rx_match_padding data_ok_def dest: rx_match_length simp del: replicate.simps)

lemma match_alternatives_pad:
  assumes "\<forall>d\<in>set ds. data_ok n d"
  shows "match_alternatives cs before (map (pad n) ds) path =
    map_option (\<lambda>(i, captures).
      replicate (before + i * Suc n) None @
      map Some (captures @ replicate (Suc n - length captures) []) @
      replicate ((length ds - Suc i) * Suc n) None) (first_data cs ds path)"
  using assms
proof (induction ds arbitrary: before)
  case (Cons d ds)
  have groups: "map (rx_groups \<circ> pad n) ds = replicate (length ds) (Suc n)"
    using Cons.prems by (induction ds) (simp_all add: pad_groups)
  have d: "data_ok n d" using Cons.prems by simp
  show ?case
  proof (cases "rx_match cs (rd_pathRegexpr d) path")
    case None
    then have "match_alternatives cs before (map (pad n) (d # ds)) path =
        match_alternatives cs (before + Suc n) (map (pad n) ds) path"
      using d by (simp add: rx_match_pad pad_groups)
    then show ?thesis using Cons.IH [of "before + Suc n"] Cons.prems None
      by (cases "first_data cs ds path") (simp_all add: case_prod_beta ac_simps)
  next
    case (Some captures)
    then show ?thesis using d groups by (simp add: rx_match_pad sum_list_replicate)
  qed
qed simp

lemma last_capture:
  assumes "xs \<noteq> []"
  shows "find_last_index (\<lambda>c. c \<noteq> None) (replicate a None @ map Some xs @ replicate b None) = int (a + length xs) - 1"
proof (induction b)
  case 0
  obtain ys y where "xs = ys @ [y]" using assms by (cases xs rule: rev_cases) auto
  then show ?case using find_last_index_snoc [of "\<lambda>c. c \<noteq> None" "replicate a None @ map Some ys" "Some y"] by simp
next
  case (Suc b)
  show ?case using Suc find_last_index_snoc [of "\<lambda>c. c \<noteq> None" "replicate a None @ map Some xs @ replicate b None" None]
    by (simp add: replicate_append_same [symmetric])
qed

section \<open>The router\<close>

lemma compile_route_eq:
  "compile_route (p, handler, args) = Inr d \<longleftrightarrow>
     (\<exists>route. toCompiledRoute p = Inr route \<and>
        d = \<lparr>rd_args = args, rd_handler = handler, rd_varList = rt_vars route, rd_pathRegexpr = rt_regexpr route\<rparr>)"
  by (auto simp: compile_route_def outcome_bind_eq_Inr)

lemma outcome_map_total: "(\<forall>x\<in>set xs. \<exists>y. f x = Inr y) \<Longrightarrow> \<exists>ys. outcome_map f xs = Inr ys"
  by (induction xs) auto

lemma fold_max_ge: "m \<le> fold (\<lambda>d n. max n (f d)) ds (m :: nat)"
  by (induction ds arbitrary: m) (simp, metis fold_simps(2) max.boundedE)

lemma fold_max: "d \<in> set ds \<Longrightarrow> f d \<le> fold (\<lambda>d n. max n (f d)) ds (m :: nat)"
proof (induction ds arbitrary: m)
  case (Cons a ds)
  have "f a \<le> fold (\<lambda>d n. max n (f d)) ds (max m (f a))" by (metis fold_max_ge max.boundedE)
  with Cons show ?case by auto
qed simp

lemma compileRoutes_ok:
  assumes "compileRoutes routes = Inr c"
  shows "\<exists>n. cr_maxVars c = Suc n \<and> cr_regexpr c = map (pad n) (cr_routes c) \<and> (\<forall>d\<in>set (cr_routes c). data_ok n d) \<and>
    list_all2 (\<lambda>x d. compile_route x = Inr d) routes (cr_routes c)"
proof -
  obtain ds where ds: "outcome_map compile_route routes = Inr ds"
    using assms by (auto simp: compileRoutes_def outcome_bind_eq_Inr)
  let ?n = "fold (\<lambda>d n. max n (length (rd_varList d))) ds 0"
  have c: "c = \<lparr>cr_regexpr = map (pad ?n) ds, cr_routes = ds, cr_maxVars = Suc ?n\<rparr>"
    using assms ds by (auto simp: compileRoutes_def pad_def [abs_def] Let_def)
  have all: "list_all2 (\<lambda>x d. compile_route x = Inr d) routes ds" using ds by (simp add: outcome_map_eq_Inr)
  have "data_ok ?n d" if "d \<in> set ds" for d
  proof -
    obtain k where "k < length ds" "ds ! k = d" using \<open>d \<in> set ds\<close> by (auto simp: in_set_conv_nth)
    then have "compile_route (routes ! k) = Inr d" using list_all2_nthD2 [OF all] by blast
    then obtain x where "compile_route x = Inr d" by blast
    then have "rx_groups (rd_pathRegexpr d) = length (rd_varList d)"
      by (cases x) (auto simp: compile_route_eq toCompiledRoute_groups)
    then show ?thesis using fold_max [OF that, of "\<lambda>d. length (rd_varList d)"] by (simp add: data_ok_def)
  qed
  then show ?thesis using c all by (intro exI [of _ ?n]) simp
qed

lemma first_route_data:
  assumes "list_all2 (\<lambda>x d. compile_route x = Inr d) routes ds"
  shows "first_route cs routes path =
    (case first_data cs ds path of
       None \<Rightarrow> Inr None
     | Some (i, captures) \<Rightarrow>
         outcome_bind (cast_vars (rd_varList (ds ! i)) captures)
           (\<lambda>vars. Inr (Some (rd_handler (ds ! i), rd_args (ds ! i), vars))))"
  using assms
proof (induction routes ds rule: list_all2_induct)
  case (Cons x routes d ds)
  obtain p handler args where x: "x = (p, handler, args)" by (cases x)
  then obtain route where "toCompiledRoute p = Inr route"
    "d = \<lparr>rd_args = args, rd_handler = handler, rd_varList = rt_vars route, rd_pathRegexpr = rt_regexpr route\<rparr>"
    using Cons(1) by (auto simp: compile_route_eq)
  then show ?case using Cons x
    by (cases "rx_match cs (rt_regexpr route) path"; cases "cast_vars (rt_vars route) (the (rx_match cs (rt_regexpr route) path))")
      (auto simp: rt_match_def split: option.splits)
qed simp

text \<open>A router is in order when what it has compiled are its routes.\<close>

definition router_ok :: "('h, 'a) router \<Rightarrow> bool" where
  "router_ok R = (ro_dirty R \<or> (\<exists>c. ro_data R = Some c \<and> compileRoutes (ro_routes R) = Inr c))"

lemma match_compiled:
  assumes "router_ok R" and "compileRoutes (ro_routes R) = Inr c" and "path \<noteq> ''''"
  shows "route_result (snd (router_match path R)) = first_route (ro_caseSensitive R) (ro_routes R) path"
proof -
  obtain n where c: "cr_maxVars c = Suc n" "cr_regexpr c = map (pad n) (cr_routes c)"
    "\<forall>d\<in>set (cr_routes c). data_ok n d" "list_all2 (\<lambda>x d. compile_route x = Inr d) (ro_routes R) (cr_routes c)"
    using compileRoutes_ok [OF assms(2)] by blast
  let ?cs = "ro_caseSensitive R"
  have master: "match_master ?cs (cr_regexpr c) path = match_alternatives ?cs 0 (map (pad n) (cr_routes c)) path"
    using assms(3) by (simp add: match_master_def c(2))
  obtain R' where R': "(if ro_dirty R
      then outcome_bind (compileRoutes (ro_routes R)) (\<lambda>d. Inr (R\<lparr>ro_data := Some d, ro_dirty := False\<rparr>)) else Inr R) = Inr R'"
    "ro_data R' = Some c" "ro_caseSensitive R' = ?cs"
    using assms(1,2) by (cases "ro_dirty R") (auto simp: router_ok_def)
  show ?thesis
  proof (cases "first_data ?cs (cr_routes c) path")
    case None
    then show ?thesis using R' master c
      by (simp add: router_match_def match_alternatives_pad first_route_data route_result_def)
  next
    case (Some p)
    then obtain i captures where p: "first_data ?cs (cr_routes c) path = Some (i, captures)" by (cases p) auto
    have i: "i < length (cr_routes c)" and m: "rx_match ?cs (rd_pathRegexpr (cr_routes c ! i)) path = Some captures"
      using first_data_index [OF p] by simp_all
    then have d: "data_ok n (cr_routes c ! i)" using c(3) by simp
    then have len: "length captures = length (rd_varList (cr_routes c ! i))" "length captures \<le> n"
      using rx_match_length [OF m] by (simp_all add: data_ok_def)
    let ?caps = "captures @ replicate (Suc n - length captures) []"
    define all where "all = replicate (i * Suc n) None @ map Some ?caps @ replicate ((length (cr_routes c) - Suc i) * Suc n) None"
    have alts: "match_master ?cs (cr_regexpr c) path = Some all"
      using master match_alternatives_pad [OF c(3), of ?cs 0 path] p by (simp add: all_def)
    have "find_last_index (\<lambda>c. c \<noteq> None) all = int (i * Suc n + Suc n) - 1"
      using last_capture [of ?caps "i * Suc n"] len(2) by (simp add: all_def)
    then have e: "find_last_index (\<lambda>c. c \<noteq> None) all + 1 - 1 = int i * int (Suc n) + int n"
      by (simp add: algebra_simps)
    have index: "(find_last_index (\<lambda>c. c \<noteq> None) all + 1 - 1) div int (Suc n) = int i"
      unfolding e by (subst div_mult_self3) (simp_all add: div_pos_pos_trivial)
    then have index': "find_last_index (\<lambda>c. \<exists>y. c = Some y) all div (1 + int n) = int i" by simp
    have indexVar: "nat (int i * (1 + int n)) = i * Suc n" by (simp add: nat_mult_distrib nat_add_distrib)
    have vars: "map (\<lambda>k. capture_string (all ! (k + i * Suc n))) [0..<length captures] = captures"
      by (rule nth_equalityI) (simp_all add: all_def nth_append capture_string_def)
    have "snd (router_match path R) =
        outcome_bind (cast_vars (rd_varList (cr_routes c ! i)) captures) (\<lambda>vars. Inr (Some (cr_routes c ! i, vars)))"
      using i vars unfolding router_match_def R'(1)
      by (simp add: R'(2,3) alts c(1) index' indexVar Let_def len(1) del: mult_Suc_right)
    then show ?thesis using first_route_data [OF c(4), of ?cs path] p
      by (simp add: route_result_def outcome_bind_def split: sum.splits)
  qed
qed

lemma router_match_keeps:
  "router_ok R \<Longrightarrow> router_ok (fst (router_match path R)) \<and> ro_routes (fst (router_match path R)) = ro_routes R \<and>
     ro_caseSensitive (fst (router_match path R)) = ro_caseSensitive R"
  by (cases "compileRoutes (ro_routes R)")
    (auto simp: router_match_def router_ok_def Let_def split: option.splits if_splits)

lemma do_router_keeps: "router_ok R \<Longrightarrow> router_ok (do_router x R) \<and> ro_caseSensitive (do_router x R) = ro_caseSensitive R"
  by (cases x) (use router_match_keeps in \<open>auto simp: router_add_def router_ok_def\<close>)

text \<open>The routes that were added, where a route added again keeps its place.\<close>

fun added_routes :: "('h, 'a) router_op list \<Rightarrow> (string \<times> 'h \<times> 'a) list \<Rightarrow> (string \<times> 'h \<times> 'a) list" where
  "added_routes [] m = m"
| "added_routes (AddRoute path handler args # ops) m = added_routes ops (AList.update path (handler, args) m)"
| "added_routes (MatchPath path # ops) m = added_routes ops m"

lemma fold_do_router:
  "router_ok R \<Longrightarrow> router_ok (fold do_router ops R) \<and> ro_caseSensitive (fold do_router ops R) = ro_caseSensitive R \<and>
     ro_routes (fold do_router ops R) = added_routes ops (ro_routes R)"
proof (induction ops arbitrary: R)
  case (Cons x ops)
  then have "router_ok (do_router x R)" "ro_caseSensitive (do_router x R) = ro_caseSensitive R"
    using do_router_keeps by blast+
  moreover have "added_routes ops (ro_routes (do_router x R)) = added_routes (x # ops) (ro_routes R)"
    using router_match_keeps [OF Cons.prems] by (cases x) (simp_all add: router_add_def)
  ultimately show ?case using Cons.IH [of "do_router x R"] by simp
qed simp

lemma compileRoutes_total:
  assumes "\<forall>(path, handler, args)\<in>set routes. is_ok (toCompiledRoute path)"
  shows "\<exists>c. compileRoutes routes = Inr c"
proof -
  have "\<exists>d. compile_route x = Inr d" if "x \<in> set routes" for x
  proof -
    obtain path handler args where x: "x = (path, handler, args)" by (cases x)
    then have "is_ok (toCompiledRoute path)" using assms that by blast
    then obtain route where "toCompiledRoute path = Inr route" by (auto simp: is_ok_def split: sum.splits)
    then show ?thesis by (simp add: x compile_route_eq)
  qed
  then show ?thesis using outcome_map_total [of routes compile_route] by (auto simp: compileRoutes_def Let_def)
qed

text \<open>
  C37. The router. After any routes were added and any paths matched, a path is answered by the first of
  the routes, in the order in which they were added, whose own compiled expression matches it, with the
  variables of that match: joining all routes into one expression and counting its groups is the same as
  trying the routes one after the other.
\<close>

theorem router_is_first_match:
  assumes "\<forall>(path, handler, args)\<in>set (added_routes ops []). is_ok (toCompiledRoute path)" and "path \<noteq> ''''"
  shows "route_result (snd (router_match path (fold do_router ops (new_router caseSensitive fallback)))) =
    first_route caseSensitive (added_routes ops []) path"
proof -
  let ?R = "fold do_router ops (new_router caseSensitive fallback)"
  have "router_ok (new_router caseSensitive fallback)" by (simp add: router_ok_def new_router_def)
  note R = fold_do_router [OF this, of ops]
  then have "ro_routes ?R = added_routes ops []" by (simp add: new_router_def)
  moreover have "ro_caseSensitive ?R = caseSensitive" using R by (simp add: new_router_def)
  moreover obtain c where "compileRoutes (added_routes ops []) = Inr c"
    using compileRoutes_total [OF assms(1)] by blast
  ultimately show ?thesis using match_compiled [of ?R c path] R assms(2) by simp
qed

text \<open>The empty path matches the empty alternative, which belongs to no route.\<close>

lemma router_match_empty:
  "compileRoutes (ro_routes R) = Inr c \<Longrightarrow> router_ok R \<Longrightarrow> snd (router_match '''' R) = Inl TypeErr"
proof -
  assume c: "compileRoutes (ro_routes R) = Inr c" and ok: "router_ok R"
  have "find_last_index (\<lambda>c. \<exists>y. c = Some y) (replicate n (None :: string option)) = -1" for n
    by (simp add: find_last_index_none)
  moreover have "cr_maxVars c > 0" using compileRoutes_ok [OF c] by auto
  moreover have "(-1) div int m < 0" if "m > 0" for m using that by (intro div_neg_pos_less0) simp_all
  ultimately show ?thesis using c ok
    by (cases "ro_dirty R") (auto simp: router_match_def router_ok_def match_master_def Let_def)
qed

section \<open>URI components\<close>

lemma hex_value_char: "k < 16 \<Longrightarrow> hex_value (hex_char k) = Some k"
  by (simp add: hex_value_def hex_char_def Let_def)

lemma percent_byte_percent: "n < 256 \<Longrightarrow> percent_byte (percent n @ s) = Some (n, s)"
  by (simp add: percent_def hex_value_char)

lemma decode_encode_char:
  "decodeURIComponent (encode_char c @ s) = outcome_bind (decodeURIComponent s) (\<lambda>r. Inr (c # r))"
proof (cases "uri_unreserved c")
  case True
  then have "c \<noteq> CHR ''%''" by (auto simp: uri_unreserved_def)
  with True show ?thesis by (simp add: encode_char_def)
next
  case False
  define n :: nat where "n = of_char c"
  have n: "n < 256" "char_of n = c" by (simp_all add: n_def)
  have percent: "decodeURIComponent (percent m @ t) =
      (case percent_byte (percent m @ t) of
         None \<Rightarrow> Inl (Raised ''URIError'')
       | Some (n, t) \<Rightarrow>
           if n < 128 then outcome_bind (decodeURIComponent t) (\<lambda>r. Inr (char_of n # r))
           else if 194 \<le> n \<and> n \<le> 195
           then (case percent_byte t of
                   None \<Rightarrow> Inl (Raised ''URIError'')
                 | Some (m, u) \<Rightarrow>
                     if 128 \<le> m \<and> m < 192
                     then outcome_bind (decodeURIComponent u) (\<lambda>r. Inr (char_of ((n - 192) * 64 + (m - 128)) # r))
                     else Inl (Raised ''URIError''))
           else Inl (Raised ''URIError''))" for m t
    by (simp add: percent_def del: percent_byte.simps)
  show ?thesis
  proof (cases "n < 128")
    case True
    then show ?thesis using False n by (simp add: encode_char_def utf8_def flip: n_def) (simp add: percent percent_byte_percent)
  next
    case 2: False
    have "n div 64 = 2 \<or> n div 64 = 3" using 2 n(1) by auto
    moreover have "(192 + n div 64 - 192) * 64 + (128 + n mod 64 - 128) = n" by simp
    ultimately show ?thesis using False 2 n
      by (simp add: encode_char_def utf8_def flip: n_def) (auto simp: percent percent_byte_percent)
  qed
qed

lemma decode_encode: "decodeURIComponent (encodeURIComponent s) = Inr s"
  by (induction s) (simp_all add: encodeURIComponent_def decode_encode_char)

lemma hex_char_slash: "k < 16 \<Longrightarrow> hex_char k \<noteq> CHR ''/''"
proof
  assume "k < 16" and "hex_char k = CHR ''/''"
  then have "of_char (hex_char k) = (47 :: nat)" by simp
  with \<open>k < 16\<close> show False by (auto simp: hex_char_def split: if_splits)
qed

lemma encode_char_slash: "CHR ''/'' \<notin> set (encode_char c)"
proof -
  have "\<not> uri_unreserved (CHR ''/'')" by (simp add: uri_unreserved_def)
  moreover have "CHR ''/'' \<notin> set (percent n)" if "n < 256" for n
  proof -
    have "n div 16 < 16" using that by (simp add: less_mult_imp_div_less)
    then show ?thesis using hex_char_slash [of "n div 16"] hex_char_slash [of "n mod 16"]
      by (auto simp: percent_def dest: sym)
  qed
  moreover have "\<forall>n\<in>set (utf8 c). n < 256"
  proof -
    have "(of_char c :: nat) div 64 < 4" using less_mult_imp_div_less [of "of_char c :: nat" 4 64] by simp
    then show ?thesis by (auto simp: utf8_def Let_def)
  qed
  ultimately show ?thesis by (auto simp: encode_char_def)
qed

lemma encode_slash: "c \<in> set (encodeURIComponent s) \<Longrightarrow> c \<noteq> CHR ''/''"
  using encode_char_slash by (auto simp: encodeURIComponent_def)

lemma encode_nonempty: "s \<noteq> [] \<Longrightarrow> encodeURIComponent s \<noteq> []"
  by (cases s) (simp_all add: encodeURIComponent_def encode_char_def utf8_def percent_def Let_def)

section \<open>Variables\<close>

lemma same_char_refl [simp]: "same_char cs c c"
  by (simp add: same_char_def)

lemma rx_match_lits: "rx_match cs (map RLit t @ r) (t @ s) = rx_match cs r s"
  by (induction t) simp_all

lemma greedy_longest:
  assumes "least \<le> length a" and "\<forall>c\<in>set a. p c" and "t = [] \<or> \<not> p (hd t)"
  shows "\<exists>ws. greedy p least (a @ t) = (a, t) # ws"
proof -
  have "takeWhile p (a @ t) = a" using assms(2,3) by (cases t) (simp_all add: takeWhile_append)
  then show ?thesis using assms(1) by (simp add: greedy_def)
qed

text \<open>
  What a type of variable promises: a value that fits is taken whole by its group when a character
  follows at which the group stops, and the conversions are inverse to each other.
\<close>

locale variable_kind =
  fixes kind :: var_kind and group_rx :: rx and fits :: "route_value \<Rightarrow> bool" and stops :: "char \<Rightarrow> bool"
  assumes no_lit: "group_rx \<noteq> RLit c"
    and longest: "fits v \<Longrightarrow> t = [] \<or> stops (hd t) \<Longrightarrow> \<exists>ws. ways group_rx (uncast kind v @ t) = (uncast kind v, t) # ws"
    and cast_uncast: "fits v \<Longrightarrow> cast kind (uncast kind v) = Inr v"
begin

lemma match_var:
  assumes "fits v" and "t = [] \<or> stops (hd t)" and "rx_match cs r t = Some captures"
  shows "rx_match cs (group_rx # r) (uncast kind v @ t) = Some (uncast kind v # captures)"
proof -
  obtain ws where "ways group_rx (uncast kind v @ t) = (uncast kind v, t) # ws" using longest assms by blast
  then show ?thesis using assms(3) no_lit by (cases group_rx) auto
qed

end

fun name_fits :: "route_value \<Rightarrow> bool" where
  "name_fits (Text s) = (s \<noteq> [])"
| "name_fits (Number n) = False"

fun rest_fits :: "route_value \<Rightarrow> bool" where
  "rest_fits (Text s) = list_all rx_dot s"
| "rest_fits (Number n) = False"

interpretation name_kind: variable_kind VName RSegment name_fits "\<lambda>c. c = CHR ''/''"
proof
  fix v t
  assume v: "name_fits v" and t: "t = [] \<or> hd t = CHR ''/''"
  obtain s where s: "v = Text s" "s \<noteq> []" using v by (cases v) auto
  then show "\<exists>ws. ways RSegment (uncast VName v @ t) = (uncast VName v, t) # ws"
    using greedy_longest [of "Suc 0" "encodeURIComponent s" "\<lambda>c. c \<noteq> CHR ''/''" t] encode_nonempty [of s] encode_slash t
    by (auto simp: Suc_le_eq)
next
  fix v
  assume "name_fits v"
  then show "cast VName (uncast VName v) = Inr v" by (cases v) (simp_all add: decode_encode)
qed simp

interpretation plus_kind: variable_kind VPlus RPlus "\<lambda>v. name_fits v \<and> rest_fits v" "\<lambda>c. False"
proof
  fix v and t :: string
  assume v: "name_fits v \<and> rest_fits v" and t: "t = [] \<or> False"
  obtain s where s: "v = Text s" "s \<noteq> []" "\<forall>c\<in>set s. rx_dot c" using v by (cases v) (auto simp: list_all_iff)
  then show "\<exists>ws. ways RPlus (uncast VPlus v @ t) = (uncast VPlus v, t) # ws"
    using greedy_longest [of "Suc 0" s rx_dot t] t by (auto simp: Suc_le_eq)
next
  fix v
  assume "name_fits v \<and> rest_fits v"
  then show "cast VPlus (uncast VPlus v) = Inr v" by (cases v) simp_all
qed simp

interpretation int_kind: variable_kind VInt RInt "\<lambda>v. \<not> (\<exists>s. v = Text s)" "\<lambda>c. \<not> is_digit c"
proof
  fix v t
  assume v: "\<not> (\<exists>s. v = Text s)" and t: "t = [] \<or> \<not> is_digit (hd t)"
  obtain n where n: "v = Number n" using v by (cases v) auto
  then show "\<exists>ws. ways RInt (uncast VInt v @ t) = (uncast VInt v, t) # ws"
    using greedy_longest [of "Suc 0" "nat_to_string n" is_digit t] t nat_to_string_is_digit [of _ n] by (auto simp: Suc_le_eq)
next
  fix v
  assume "\<not> (\<exists>s. v = Text s)"
  then show "cast VInt (uncast VInt v) = Inr v" by (cases v) (simp_all add: string_to_nat_inverse)
qed simp

section \<open>Making a route and matching it\<close>

definition kind_of :: "string \<Rightarrow> var_kind" where
  "kind_of ty = (if ty = '''' then VName else if ty = ''*'' then VStar else if ty = ''+'' then VPlus else VInt)"

fun value_fits :: "var_kind \<Rightarrow> route_value \<Rightarrow> bool" where
  "value_fits VName v = name_fits v"
| "value_fits VStar v = rest_fits v"
| "value_fits VPlus v = (name_fits v \<and> rest_fits v)"
| "value_fits VInt v = (case v of Number n \<Rightarrow> True | Text s \<Rightarrow> False)"

text \<open>
  Routes in which no variable runs into what follows: text stands between variables, a segment ends before
  a slash and a number before what is not a digit, and a variable for all the rest is the last, the type
  \<open>*\<close> behind a slash.
\<close>

fun separated :: "string \<Rightarrow> (string \<times> string \<times> string) list \<Rightarrow> bool" where
  "separated before [] = True"
| "separated before ((name, ty, t) # vs) =
     ((ty = ''*'' \<longrightarrow> before \<noteq> [] \<and> t = [] \<and> vs = []) \<and> (ty = ''+'' \<longrightarrow> t = [] \<and> vs = []) \<and>
      (vs \<noteq> [] \<longrightarrow> t \<noteq> []) \<and>
      (t \<noteq> [] \<longrightarrow> (ty = '''' \<longrightarrow> hd t = CHR ''/'') \<and> (ty = ''i'' \<longrightarrow> \<not> is_digit (hd t))) \<and>
      separated t vs)"

text \<open>The path made of values.\<close>

fun separated_path :: "(string \<Rightarrow> route_value) \<Rightarrow> string \<Rightarrow> (string \<times> string \<times> string) list \<Rightarrow> string" where
  "separated_path val before [] = before"
| "separated_path val before ((name, ty, t) # vs) =
     before @ uncast (kind_of ty) (val name) @ separated_path val t vs"

lemma separated_path_hd: "t \<noteq> [] \<Longrightarrow> hd (separated_path val t vs) = hd t"
  by (cases vs rule: list.exhaust) (auto split: prod.split)

lemma compile_var_ok:
  assumes "compile_var r ty = Inr (r', kind)"
  shows "kind = kind_of ty \<and>
    (kind = VName \<and> r' = r @ [RSegment] \<or> kind = VPlus \<and> r' = r @ [RPlus] \<or> kind = VInt \<and> r' = r @ [RInt] \<or>
     kind = VStar \<and> ty = ''*'' \<and> (r \<noteq> [] \<longrightarrow> last r = RLit (CHR ''/'') \<and> r' = butlast r @ [RStarSlash]))"
  using assms by (auto simp: compile_var_def kind_of_def split: if_splits)

lemma match_separated:
  assumes "compile_vars (r @ map RLit before) vs = Inr (r', vars)" and "separated before vs"
    and "\<forall>(name, kind)\<in>set vars. value_fits kind (val name)"
  shows "vars = map (\<lambda>(name, ty, t). (name, kind_of ty)) vs \<and>
    (\<exists>q captures. r' = r @ q \<and> rx_match cs q (separated_path val before vs) = Some captures \<and>
      list_all2 (\<lambda>(name, kind) c. cast kind c = Inr (val name)) vars captures)"
  using assms
proof (induction vs arbitrary: r before r' vars)
  case Nil
  then show ?case using rx_match_lits [of cs before "[]" "[]"] by (intro conjI exI [of _ "map RLit before"] exI [of _ "[]"]) auto
next
  case (Cons v vs)
  obtain name ty t where v: "v = (name, ty, t)" by (cases v)
  obtain r1 kind r2 vars2 where c: "compile_var (r @ map RLit before) ty = Inr (r1, kind)"
    and rest: "compile_vars (r1 @ map RLit t) vs = Inr (r2, vars2)" and eq: "r' = r2" "vars = (name, kind) # vars2"
    using Cons.prems(1) v by (auto simp: outcome_bind_eq_Inr)
  have sep: "separated t vs" and fits: "value_fits kind (val name)" "\<forall>(name, kind)\<in>set vars2. value_fits kind (val name)"
    using Cons.prems(2,3) v eq by auto
  obtain q captures where IH: "vars2 = map (\<lambda>(name, ty, t). (name, kind_of ty)) vs" "r2 = r1 @ q"
      "rx_match cs q (separated_path val t vs) = Some captures"
      "list_all2 (\<lambda>(name, kind) c. cast kind c = Inr (val name)) vars2 captures"
    using Cons.IH [OF rest sep fits(2)] by blast
  let ?u = "uncast kind (val name)" and ?p = "separated_path val t vs"
  have kind: "kind = kind_of ty" using compile_var_ok [OF c] by blast
  have stop: "?p = [] \<or> t \<noteq> [] \<and> hd ?p = hd t"
    using Cons.prems(2) v separated_path_hd [of t val vs] by (cases vs) auto
  have path: "separated_path val before (v # vs) = before @ ?u @ ?p" by (simp add: v kind)
  have var: "\<exists>x. r1 = (r @ map RLit before) @ [x] \<and> rx_match cs (x # q) (?u @ ?p) = Some (?u # captures) \<and>
      cast kind ?u = Inr (val name)" if "kind \<noteq> VStar"
  proof (cases kind)
    case VName
    have "ty = ''''" using VName kind by (simp add: kind_of_def split: if_splits)
    then have "?p = [] \<or> hd ?p = CHR ''/''" using stop Cons.prems(2) v by auto
    then show ?thesis using VName compile_var_ok [OF c] fits(1) name_kind.match_var [OF _ _ IH(3)] name_kind.cast_uncast by auto
  next
    case VPlus
    have "ty = ''+''" using VPlus kind by (simp add: kind_of_def split: if_splits)
    then have "?p = []" using stop Cons.prems(2) v by auto
    then show ?thesis using VPlus compile_var_ok [OF c] fits(1) plus_kind.match_var [OF _ _ IH(3)] plus_kind.cast_uncast by auto
  next
    case VInt
    have "ty = ''i''" using VInt c by (auto simp: compile_var_def split: if_splits)
    then have "?p = [] \<or> \<not> is_digit (hd ?p)" using stop Cons.prems(2) v by auto
    then show ?thesis using VInt compile_var_ok [OF c] fits(1) int_kind.match_var [OF _ _ IH(3), of "val name"]
        int_kind.cast_uncast [of "val name"] by (auto split: route_value.splits)
  qed (use that in simp)
  show ?case
  proof (cases "kind = VStar")
    case False
    then obtain x where 1: "r1 = (r @ map RLit before) @ [x]" "rx_match cs (x # q) (?u @ ?p) = Some (?u # captures)"
      "cast kind ?u = Inr (val name)" using var by blast
    have "rx_match cs (map RLit before @ x # q) (before @ ?u @ ?p) = Some (?u # captures)"
      using 1(2) by (simp only: rx_match_lits)
    then show ?thesis using 1(1,3) IH(2,4) eq path kind IH(1) v
      by (intro conjI exI [of _ "map RLit before @ x # q"] exI [of _ "?u # captures"]) auto
  next
    case True
    then obtain s where 2: "kind = VStar" "ty = ''*''" "val name = Text s" "\<forall>c\<in>set s. rx_dot c"
      using fits(1) compile_var_ok [OF c] by (cases "val name") (auto simp: list_all_iff)
    have b: "before \<noteq> []" "t = []" "vs = []" using Cons.prems(2) v 2(2) by auto
    then have r1: "r1 = r @ map RLit (butlast before) @ [RStarSlash]" "last before = CHR ''/''"
      using compile_var_ok [OF c] 2(1) by (simp_all add: map_butlast last_map butlast_append)
    have "before @ s = butlast before @ CHR ''/'' # s" using b(1) r1(2) append_butlast_last_id [of before] by simp
    moreover have "rx_match cs [RStarSlash] (CHR ''/'' # s) = Some [CHR ''/'' # s]"
      using greedy_longest [of 0 s rx_dot "[]"] 2(4) by auto
    ultimately have "rx_match cs (map RLit (butlast before) @ [RStarSlash]) (before @ s) = Some [CHR ''/'' # s]"
      by (simp only: rx_match_lits)
    moreover have "r' = r @ map RLit (butlast before) @ [RStarSlash]" "vars = [(name, kind)]"
      using rest b r1(1) eq by simp_all
    ultimately show ?thesis using path b 2 kind v
      by (intro conjI exI [of _ "map RLit (butlast before) @ [RStarSlash]"] exI [of _ "[CHR ''/'' # s]"]) auto
  qed
qed

lemma toRoute_separated:
  assumes "separated before vs" and "\<forall>(name, ty, t)\<in>set vs. map_of vals name \<noteq> None"
  shows "toRoute_loop (before # filter (\<lambda>t. t \<noteq> []) (map (\<lambda>(name, ty, t). t) vs))
      (map (\<lambda>(name, ty, t). (name, kind_of ty)) vs) vals =
    Inr (separated_path (\<lambda>name. the (map_of vals name)) before vs)"
  using assms
proof (induction vs arbitrary: before)
  case (Cons v vs)
  obtain name ty t where v: "v = (name, ty, t)" by (cases v)
  obtain x where x: "map_of vals name = Some x" using Cons.prems(2) v by auto
  have IH: "toRoute_loop (t # filter (\<lambda>t. t \<noteq> []) (map (\<lambda>(name, ty, t). t) vs))
      (map (\<lambda>(name, ty, t). (name, kind_of ty)) vs) vals = Inr (separated_path (\<lambda>name. the (map_of vals name)) t vs)"
    using Cons v by auto
  show ?case
  proof (cases "t = []")
    case True
    then have "vs = []" using Cons.prems(1) v by auto
    then show ?thesis using True v x by simp
  next
    case False
    then show ?thesis using IH v x by simp
  qed
qed simp

lemma cast_vars_distinct:
  assumes "list_all2 (\<lambda>(name, kind) c. cast kind c = Inr (val name)) vars captures" and "distinct (map fst vars)"
  shows "cast_vars vars captures = Inr (map (\<lambda>(name, kind). (name, val name)) vars)"
proof -
  have "outcome_map (\<lambda>((name, kind), str). outcome_bind (cast kind str) (\<lambda>v. Inr (name, v))) (zip vars captures) =
      Inr (map (\<lambda>(name, kind). (name, val name)) vars)"
    using assms(1) by (induction rule: list_all2_induct) (auto split: prod.splits)
  moreover have "fold (\<lambda>(name, v). AList.update name v) (map (\<lambda>(name, kind). (name, val name)) vars) m =
      m @ map (\<lambda>(name, kind). (name, val name)) vars" if "set (map fst m) \<inter> set (map fst vars) = {}" for m
    using assms(2) that
  proof (induction vars arbitrary: m)
    case (Cons v vars)
    have "AList.update (fst v) (val (fst v)) m = m @ [(fst v, val (fst v))]"
      using Cons.prems(2) by (intro update_fresh) auto
    then show ?case using Cons by (auto split: prod.split)
  qed simp
  ultimately show ?thesis by (simp add: cast_vars_def)
qed

text \<open>
  C39. Making a path and matching it. For a compiled route in which no variable runs into what follows, whose
  variables have distinct names, and values that fit the types of its variables, the path that \<open>toRoute\<close> makes of
  the values is matched by the route, in either case mode, and gives exactly these values back. (Otherwise it need
  not: the empty text is no value for a variable, two variables side by side run into each other, and a variable of
  the type \<open>*\<close> at the start loses a character, \<open>star_at_start\<close>.)
\<close>

theorem route_roundtrip:
  assumes "toCompiledRoute path = Inr route" and "separated (fst (split_route path)) (snd (split_route path))"
    and "distinct (map fst (rt_vars route))"
    and "\<forall>(name, kind)\<in>set (rt_vars route). \<exists>v. map_of vals name = Some v \<and> value_fits kind v"
  shows "\<exists>s. toRoute route vals = Inr s \<and>
    rt_match caseSensitive route s = Inr (Some (map (\<lambda>(name, kind). (name, the (map_of vals name))) (rt_vars route)))"
proof -
  obtain before vs where split: "split_route path = (before, vs)" by (cases "split_route path")
  let ?val = "\<lambda>name. the (map_of vals name)"
  obtain r vars where c: "compile_vars ([] @ map RLit before) vs = Inr (r, vars)"
    and route: "rt_regexpr route = r" "rt_vars route = vars"
      "rt_segments route = before # filter (\<lambda>t. t \<noteq> []) (map (\<lambda>(name, ty, t). t) vs)"
    using assms(1) split by (auto simp: toCompiledRoute_def outcome_bind_eq_Inr)
  have sep: "separated before vs" using assms(2) split by simp
  have fits: "\<forall>(name, kind)\<in>set vars. value_fits kind (?val name)" using assms(4) route(2) by fastforce
  obtain captures where vars: "vars = map (\<lambda>(name, ty, t). (name, kind_of ty)) vs"
    and m: "rx_match caseSensitive r (separated_path ?val before vs) = Some captures"
    and casts: "list_all2 (\<lambda>(name, kind) c. cast kind c = Inr (?val name)) vars captures"
    using match_separated [OF c sep fits, of caseSensitive] by auto
  have "\<forall>(name, ty, t)\<in>set vs. map_of vals name \<noteq> None" using assms(4) route(2) vars by fastforce
  then have "toRoute route vals = Inr (separated_path ?val before vs)"
    using toRoute_separated [OF sep] vars by (simp add: toRoute_def route)
  moreover have "cast_vars vars captures = Inr (map (\<lambda>(name, kind). (name, ?val name)) vars)"
    using cast_vars_distinct [OF casts] assms(3) route(2) by simp
  ultimately show ?thesis using m route by (simp add: rt_match_def)
qed

section \<open>Where the code departs from its comments\<close>

text \<open>A route that begins with the type \<open>*\<close> loses the first character of what it matches.\<close>

lemma star_at_start:
  "outcome_bind (toCompiledRoute ''{rest:*}'') (\<lambda>route. rt_match True route ''ab'') = Inr (Some [(''rest'', Text ''b'')])"
  by code_simp

text \<open>A variable without a name is not a variable.\<close>

lemma unnamed_variable: "split_route ''/hello/{:*}'' = (''/hello/{:*}'', [])"
  by code_simp

section \<open>Instances of the properties\<close>

definition sample_router :: "(nat, unit) router_op list" where
  "sample_router = [AddRoute ''/s/{w}'' 1 (), MatchPath ''/s/a'', AddRoute ''/s/{i:i}/x'' 2 (), AddRoute ''/{all:*}'' 3 ()]"

theorem router_is_first_match_witness:
  "route_result (snd (router_match ''/s/42/x'' (fold do_router sample_router (new_router False None)))) =
     Inr (Some (2, (), [(''i'', Number 42)]))"
proof -
  have "\<forall>(path, handler, args)\<in>set (added_routes sample_router []). is_ok (toCompiledRoute path)" by code_simp
  then have "route_result (snd (router_match ''/s/42/x'' (fold do_router sample_router (new_router False None)))) =
      first_route False (added_routes sample_router []) ''/s/42/x''"
    by (rule router_is_first_match) simp
  also have "\<dots> = Inr (Some (2, (), [(''i'', Number 42)]))" by code_simp
  finally show ?thesis .
qed

theorem route_roundtrip_witness:
  "\<exists>route s. toCompiledRoute ''/a/{x}/{n:i}/{rest:*}'' = Inr route \<and>
     toRoute route [(''x'', Text ''b/c''), (''n'', Number 7), (''rest'', Text ''d/e'')] = Inr s \<and>
     rt_match False route s = Inr (Some [(''x'', Text ''b/c''), (''n'', Number 7), (''rest'', Text ''d/e'')])"
proof -
  define route where "route = \<lparr>rt_regexpr = map RLit ''/a/'' @ [RSegment] @ map RLit ''/'' @ [RInt, RStarSlash],
    rt_vars = [(''x'', VName), (''n'', VInt), (''rest'', VStar)], rt_segments = [''/a/'', ''/'', ''/'']\<rparr>"
  have 1: "toCompiledRoute ''/a/{x}/{n:i}/{rest:*}'' = Inr route" unfolding route_def by code_simp
  have 2: "separated (fst (split_route ''/a/{x}/{n:i}/{rest:*}'')) (snd (split_route ''/a/{x}/{n:i}/{rest:*}''))"
    by code_simp
  show ?thesis
    using route_roundtrip [OF 1 2, of "[(''x'', Text ''b/c''), (''n'', Number 7), (''rest'', Text ''d/e'')]" False] 1
    by (simp add: route_def rx_dot_def)
qed

end
