(* ===== verification/Template.thy ===== *)
theory Template
  imports Router Persistence
begin

text \<open>
  \<open>core/template.js\<close>: placeholders \<open>{{ key }}\<close> in a text, replaced by the values that the keys lead to. The
  regular expression is global: the position after its last match is state of the template. What a name inherited from
  \<open>Object.prototype\<close> leads to is a function, whose text is not modelled (see \<open>js_member\<close>).
\<close>

section \<open>Values\<close>

text \<open>\<open>v[k]\<close>, on strings and arrays too.\<close>

definition js_index :: "json \<Rightarrow> string \<Rightarrow> json outcome" where
  "js_index v k =
     (case v of
        JUndefined \<Rightarrow> Inl TypeErr
      | JNull \<Rightarrow> Inl TypeErr
      | JStr s \<Rightarrow>
          Inr (if k = ''length'' then JNum (int (length s))
               else if k \<noteq> [] \<and> list_all is_digit k \<and> nat_to_string (string_to_nat k) = k \<and> string_to_nat k < length s
               then JStr [s ! string_to_nat k] else JUndefined)
      | JArr xs \<Rightarrow> Inr (if k = ''length'' then JNum (int (length xs)) else js_get v k)
      | _ \<Rightarrow> Inr (js_get v k))"

text \<open>
  \<open>getNextValueInternal\<close>: what is left of the key after the separator, and the value so far. A bracket starts
  again from all arguments and reads the whole rest of the key.
\<close>

definition is_separator :: "char \<Rightarrow> bool" where
  "is_separator c = (c = CHR ''.'' \<or> c = CHR ''['' \<or> c = CHR '']'')"

function getNextValue :: "json \<Rightarrow> json \<Rightarrow> string \<Rightarrow> json outcome" where
  "getNextValue args curArgs [] = Inr curArgs"
| "getNextValue args curArgs (c # s) =
     (let curKey = takeWhile (\<lambda>c. \<not> is_separator c) (c # s); rest = dropWhile (\<lambda>c. \<not> is_separator c) (c # s)
      in if \<not> is_typeof_object curArgs then Inl AssertFailed
         else outcome_bind (js_in curKey curArgs)
           (\<lambda>b. if \<not> b then Inl AssertFailed
                else
                  let v = js_member curArgs curKey
                  in (case rest of
                        [] \<Rightarrow> Inr v
                      | separator # rest' \<Rightarrow>
                          if separator = CHR ''[''
                          then outcome_bind (getNextValue args args rest') (\<lambda>k. js_index v (to_property_key k))
                          else getNextValue args v rest')))"
  by pat_completeness auto
termination
proof (relation "measure (\<lambda>(args, cur, s). length s)", goal_cases)
  case (2 args cur c s k rest b v sep rest')
  then have "dropWhile (\<lambda>c. \<not> is_separator c) (c # s) = sep # rest'" by (simp del: dropWhile.simps)
  then show ?case using length_dropWhile_le [of "\<lambda>c. \<not> is_separator c" "c # s"] by (simp del: dropWhile.simps)
next
  case (3 args cur c s k rest b v sep rest')
  then have "dropWhile (\<lambda>c. \<not> is_separator c) (c # s) = sep # rest'" by (simp del: dropWhile.simps)
  then show ?case using length_dropWhile_le [of "\<lambda>c. \<not> is_separator c" "c # s"] by (simp del: dropWhile.simps)
qed simp

definition getValue :: "json \<Rightarrow> string \<Rightarrow> json outcome" where
  "getValue args key = getNextValue args args key"

section \<open>Placeholders\<close>

text \<open>\<open>trim\<close>.\<close>

definition js_space :: "char \<Rightarrow> bool" where
  "js_space c = (let n = of_char c :: nat in 9 \<le> n \<and> n \<le> 13 \<or> n = 32 \<or> n = 160)"

definition trim :: "string \<Rightarrow> string" where
  "trim s = rev (dropWhile js_space (rev (dropWhile js_space s)))"

text \<open>\<open>(.+?(?=}}))}}\<close> behind the opening braces: the shortest content, and its end.\<close>

fun match_content :: "string \<Rightarrow> string option" where
  "match_content [] = None"
| "match_content (c # s) =
     (if \<not> rx_dot c then None
      else if prefix ''}}'' s then Some [c]
      else map_option ((#) c) (match_content s))"

text \<open>\<open>exec\<close>: the first match at the position or behind it: where it is, and the content.\<close>

fun exec_at :: "nat \<Rightarrow> string \<Rightarrow> (nat \<times> string) option" where
  "exec_at i [] = None"
| "exec_at i (c # s) =
     (case (if c = CHR ''{'' \<and> prefix ''{'' s then match_content (tl s) else None) of
        Some content \<Rightarrow> Some (i, content)
      | None \<Rightarrow> exec_at (Suc i) s)"

definition exec :: "string \<Rightarrow> nat \<Rightarrow> (nat \<times> string) option" where
  "exec s lastIndex = exec_at lastIndex (drop lastIndex s)"

lemma match_content_shorter: "match_content s = Some m \<Longrightarrow> length m + 2 \<le> length s"
  by (induction s arbitrary: m) (auto split: if_splits dest: prefix_length_le)

lemma exec_at_bounds: "exec_at i s = Some (j, m) \<Longrightarrow> i \<le> j \<and> j + length m + 4 \<le> i + length s"
proof (induction s arbitrary: i)
  case (Cons c s)
  show ?case
  proof (cases "c = CHR ''{'' \<and> prefix ''{'' s \<and> match_content (tl s) \<noteq> None")
    case True
    then obtain m' where m': "match_content (tl s) = Some m'" by blast
    then have "j = i" "m' = m" using Cons.prems True by simp_all
    then show ?thesis using match_content_shorter [OF m'] True by (cases s) auto
  next
    case False
    then have "exec_at (Suc i) s = Some (j, m)" using Cons.prems by (auto split: option.splits if_splits)
    then show ?thesis using Cons.IH by fastforce
  qed
qed simp

lemma exec_bounds: "exec s i = Some (j, m) \<Longrightarrow> i \<le> j \<and> j + length m + 4 \<le> length s"
proof -
  assume "exec s i = Some (j, m)"
  then have "i \<le> j \<and> j + length m + 4 \<le> i + length (drop i s)" unfolding exec_def by (rule exec_at_bounds)
  then show ?thesis by auto
qed

section \<open>Processing\<close>

record template =
  t_template :: string
  t_lastIndex :: nat

definition new_template :: "string \<Rightarrow> template" where
  "new_template s = \<lparr>t_template = s, t_lastIndex = 0\<rparr>"

function process_loop :: "json \<Rightarrow> string \<Rightarrow> nat \<Rightarrow> nat \<Rightarrow> nat \<times> string outcome" where
  "process_loop args s index lastIndex =
     (case exec s lastIndex of
        None \<Rightarrow> (0, Inr (drop index s))
      | Some (position, content) \<Rightarrow>
          let after = position + length content + 4
          in (case getValue args (trim content) of
                Inl e \<Rightarrow> (after, Inl e)
              | Inr v \<Rightarrow>
                  (case process_loop args s after after of
                     (i, r) \<Rightarrow>
                       (i, outcome_bind r (\<lambda>output. Inr (slice index position s @ to_property_key v @ output))))))"
  by pat_completeness auto
termination
proof (relation "measure (\<lambda>(args, s, index, lastIndex). length s - lastIndex)", goal_cases)
  case (2 args s index lastIndex p position content n v)
  then show ?case using exec_bounds [of s lastIndex position content] by auto
qed simp

declare process_loop.simps [simp del]

definition process :: "json \<Rightarrow> template \<Rightarrow> template \<times> string outcome" where
  "process args t =
     (case process_loop args (t_template t) 0 (t_lastIndex t) of (i, r) \<Rightarrow> (t\<lparr>t_lastIndex := i\<rparr>, r))"

section \<open>Templates made of parts\<close>

datatype part = Literal string | Placeholder string

fun part_text :: "part \<Rightarrow> string" where
  "part_text (Literal s) = s"
| "part_text (Placeholder k) = ''{{'' @ k @ ''}}''"

fun part_ok :: "part \<Rightarrow> bool" where
  "part_ok (Literal s) = (CHR ''{'' \<notin> set s)"
| "part_ok (Placeholder k) = (k \<noteq> [] \<and> list_all (\<lambda>c. rx_dot c \<and> c \<noteq> CHR ''}'') k)"

fun eval_parts :: "json \<Rightarrow> part list \<Rightarrow> string outcome" where
  "eval_parts args [] = Inr []"
| "eval_parts args (Literal s # ps) = outcome_bind (eval_parts args ps) (\<lambda>t. Inr (s @ t))"
| "eval_parts args (Placeholder k # ps) =
     outcome_bind (getValue args (trim k))
       (\<lambda>v. outcome_bind (eval_parts args ps) (\<lambda>t. Inr (to_property_key v @ t)))"

abbreviation parts_text :: "part list \<Rightarrow> string" where
  "parts_text ps \<equiv> concat (map part_text ps)"

lemma match_content_close:
  "k \<noteq> [] \<Longrightarrow> list_all (\<lambda>c. rx_dot c \<and> c \<noteq> CHR ''}'') k \<Longrightarrow> match_content (k @ ''}}'' @ s) = Some k"
proof (induction k)
  case (Cons c k)
  then show ?case by (cases k) auto
qed simp

lemma exec_at_literal: "CHR ''{'' \<notin> set l \<Longrightarrow> exec_at i (l @ s) = exec_at (i + length l) s"
  by (induction l arbitrary: i) auto

lemma exec_literal: "CHR ''{'' \<notin> set l \<Longrightarrow> exec (pre @ l @ s) (length pre) = exec (pre @ l @ s) (length (pre @ l))"
  by (simp add: exec_def exec_at_literal)

lemma exec_placeholder:
  "part_ok (Placeholder k) \<Longrightarrow> exec (pre @ part_text (Placeholder k) @ s) (length pre) = Some (length pre, k)"
  using match_content_close [of k s] by (simp add: exec_def)

lemma process_loop_parts:
  assumes "list_all part_ok ps" and "index \<le> length pre"
  shows "snd (process_loop args (pre @ parts_text ps) index (length pre)) =
      outcome_bind (eval_parts args ps) (\<lambda>t. Inr (drop index pre @ t)) \<and>
    (is_ok (eval_parts args ps) \<longrightarrow> fst (process_loop args (pre @ parts_text ps) index (length pre)) = 0)"
  using assms
proof (induction ps arbitrary: pre index)
  case Nil
  then show ?case by (subst (1 2) process_loop.simps) (simp add: exec_def)
next
  case (Cons p ps)
  show ?case
  proof (cases p)
    case (Literal l)
    let ?s = "(pre @ l) @ parts_text ps"
    have "process_loop args ?s index (length pre) = process_loop args ?s index (length (pre @ l))"
      using exec_literal [of l pre "parts_text ps"] Cons.prems(1) Literal
      by (subst (1 2) process_loop.simps) simp
    moreover have "index \<le> length (pre @ l)" using Cons.prems(2) by simp
    ultimately show ?thesis
      using Cons.IH [of index "pre @ l"] Cons.prems Literal by (cases "eval_parts args ps") simp_all
  next
    case (Placeholder k)
    let ?pre = "pre @ part_text p" and ?s = "pre @ part_text p @ parts_text ps"
    have "exec ?s (length pre) = Some (length pre, k)"
      using exec_placeholder [of k pre "parts_text ps"] Cons.prems(1) Placeholder by simp
    moreover have "length pre + length k + 4 = length ?pre" by (simp add: Placeholder)
    moreover have "slice index (length pre) ?s = drop index pre" using Cons.prems(2) by (simp add: slice_def)
    ultimately have step: "process_loop args ?s index (length pre) =
      (case getValue args (trim k) of
         Inl e \<Rightarrow> (length ?pre, Inl e)
       | Inr v \<Rightarrow> (case process_loop args ?s (length ?pre) (length ?pre) of
            (i, r) \<Rightarrow> (i, outcome_bind r (\<lambda>output. Inr (drop index pre @ to_property_key v @ output)))))"
      by (subst process_loop.simps) (simp add: Let_def add.assoc split: sum.split prod.split)
    show ?thesis
      using step Cons.IH [of "length ?pre" ?pre] Cons.prems Placeholder
      by (cases "getValue args (trim k)"; cases "eval_parts args ps"; cases "process_loop args ?s (length ?pre) (length ?pre)") auto
  qed
qed

text \<open>
  Templates. A new template that is made of texts without braces and of placeholders is processed to the
  texts and the values of the keys, in order; the first key that fails gives the error; and after success the
  template is as it was.
\<close>

lemma template_process_parts:
  assumes "list_all part_ok ps"
  shows "snd (process args (new_template (parts_text ps))) = eval_parts args ps \<and>
    (is_ok (eval_parts args ps) \<longrightarrow> fst (process args (new_template (parts_text ps))) = new_template (parts_text ps))"
  using process_loop_parts [OF assms, of 0 "[]" args]
  by (cases "process_loop args (parts_text ps) 0 0"; cases "eval_parts args ps") (auto simp: process_def new_template_def)

text \<open>A key with dots is looked up name by name.\<close>

fun lookup_names :: "json \<Rightarrow> string list \<Rightarrow> json outcome" where
  "lookup_names v [] = Inr v"
| "lookup_names v (k # ks) =
     (if \<not> is_typeof_object v then Inl AssertFailed
      else outcome_bind (js_in k v) (\<lambda>b. if b then lookup_names (js_member v k) ks else Inl AssertFailed))"

lemma getNextValue_name:
  assumes "s \<noteq> []" and "takeWhile (\<lambda>c. \<not> is_separator c) s = k" and "dropWhile (\<lambda>c. \<not> is_separator c) s = rest"
    and "rest = [] \<or> hd rest \<noteq> CHR ''[''"
  shows "getNextValue args v s =
    (if \<not> is_typeof_object v then Inl AssertFailed
     else outcome_bind (js_in k v)
       (\<lambda>b. if b then (if rest = [] then Inr (js_member v k) else getNextValue args (js_member v k) (tl rest)) else Inl AssertFailed))"
proof -
  obtain c t where s: "s = c # t" using assms(1) by (cases s) auto
  have "getNextValue args v (c # t) =
    (if \<not> is_typeof_object v then Inl AssertFailed
     else outcome_bind (js_in k v)
       (\<lambda>b. if \<not> b then Inl AssertFailed
            else (case rest of [] \<Rightarrow> Inr (js_member v k)
              | separator # rest' \<Rightarrow>
                  if separator = CHR ''['' then outcome_bind (getNextValue args args rest') (\<lambda>k'. js_index (js_member v k) (to_property_key k'))
                  else getNextValue args (js_member v k) rest')))"
    using assms(2,3) unfolding s by (simp only: getNextValue.simps(2) Let_def)
  then show ?thesis using assms(4) s by (cases rest; cases "js_in k v") auto
qed

lemma getValue_dotted:
  assumes "\<forall>k\<in>set ks. k \<noteq> [] \<and> (\<forall>c\<in>set k. \<not> is_separator c)"
  shows "getNextValue args v (join_with ''.'' ks) = lookup_names v ks"
  using assms
proof (induction "''.''" ks arbitrary: v rule: join_with.induct)
  case (2 k)
  then have "takeWhile (\<lambda>c. \<not> is_separator c) k = k" "dropWhile (\<lambda>c. \<not> is_separator c) k = []" "k \<noteq> []" by simp_all
  then show ?case using getNextValue_name [of k k "[]" args v] by (cases "js_in k v") auto
next
  case (3 k q ks)
  let ?rest = "CHR ''.'' # join_with ''.'' (q # ks)"
  have "takeWhile (\<lambda>c. \<not> is_separator c) (k @ ?rest) = k" "dropWhile (\<lambda>c. \<not> is_separator c) (k @ ?rest) = ?rest" "k \<noteq> []"
    using 3(2) by (simp_all add: takeWhile_append dropWhile_append is_separator_def)
  then show ?case using getNextValue_name [of "k @ ?rest" k ?rest args v] 3 by (cases "js_in k v") auto
qed simp

section \<open>Where the code departs from its purpose\<close>

text \<open>After an error the next processing starts behind the placeholder that failed, and copies the first ones.\<close>

lemma process_after_error:
  "let t = fst (process (JObj []) (new_template ''{{a}}{{b}}''))
   in snd (process (JObj [(''a'', JNum 1), (''b'', JNum 2)]) t) = Inr ''{{a}}2''"
  by code_simp

text \<open>A bracket works only at the end of a key.\<close>

lemma bracket_in_the_middle:
  "getValue (JObj [(''i'', JStr ''x''), (''a'', JObj [(''x'', JObj [(''c'', JNum 1)])])]) ''a[i].c'' = Inl AssertFailed"
  by code_simp

section \<open>Instances of the properties\<close>

theorem template_process_parts_witness:
  "snd (process (JObj [(''a'', JStr ''x'')]) (new_template ''<{{ a }}>'')) = Inr ''<x>''"
proof -
  let ?ps = "[Literal ''<'', Placeholder '' a '', Literal ''>'']"
  have "list_all part_ok ?ps" by code_simp
  from template_process_parts [OF this, of "JObj [(''a'', JStr ''x'')]"]
  have "snd (process (JObj [(''a'', JStr ''x'')]) (new_template (parts_text ?ps))) = eval_parts (JObj [(''a'', JStr ''x'')]) ?ps"
    by blast
  moreover have "eval_parts (JObj [(''a'', JStr ''x'')]) ?ps = Inr ''<x>''" by code_simp
  ultimately show ?thesis by simp
qed

end
