(* ===== verification/Validation.thy ===== *)
theory Validation
  imports Template
begin

text \<open>
  \<open>core/validation.js\<close>: constraints written as text (\<open>mandatory type(integer) min(6)\<close>), installed on the keys of a
  schema, and the validation of a dictionary of values.

  A message is a \<open>failure\<close>, its text is not modelled. Numbers are fractions (numerator, denominator), where the
  code has floating point. A text is converted to a number when it is decimal (with a sign, with a point);
  the other forms that \<open>Number\<close> knows (hexadecimal, exponents) count as no number. Two objects are never the
  same object.
\<close>

section \<open>Values\<close>

type_synonym number = "int \<times> int"

definition num_le :: "number \<Rightarrow> number \<Rightarrow> bool" where
  "num_le x y = (fst x * snd y \<le> fst y * snd x)"

definition num_eq :: "number \<Rightarrow> number \<Rightarrow> bool" where
  "num_eq x y = (fst x * snd y = fst y * snd x)"

text \<open>A value after the conversion to its type: as it was given, or converted.\<close>

datatype cast_value = Raw json | Numeric number | Boolean bool

definition json_number :: "json \<Rightarrow> number option" where
  "json_number v = (case v of JNum n \<Rightarrow> Some (n, 1) | JFrac n m \<Rightarrow> Some (n, int m) | _ \<Rightarrow> None)"

text \<open>\<open>===\<close>.\<close>

fun strict_eq :: "cast_value \<Rightarrow> cast_value \<Rightarrow> bool" where
  "strict_eq (Numeric x) (Numeric y) = num_eq x y"
| "strict_eq (Boolean b) (Boolean c) = (b = c)"
| "strict_eq (Numeric x) (Raw v) = (case json_number v of Some y \<Rightarrow> num_eq x y | None \<Rightarrow> False)"
| "strict_eq (Raw v) (Numeric x) = (case json_number v of Some y \<Rightarrow> num_eq y x | None \<Rightarrow> False)"
| "strict_eq (Boolean b) (Raw v) = (v = JBool b)"
| "strict_eq (Raw v) (Boolean b) = (v = JBool b)"
| "strict_eq (Raw v) (Raw w) =
     (case (json_number v, json_number w) of
        (Some x, Some y) \<Rightarrow> num_eq x y
      | _ \<Rightarrow> is_primitive v \<and> v = w)"
| "strict_eq _ _ = False"

section \<open>Conversions\<close>

text \<open>\<open>/^-?[0-9]+$/\<close>, and the number.\<close>

definition strip_minus :: "string \<Rightarrow> bool \<times> string" where
  "strip_minus s = (case s of [] \<Rightarrow> (False, []) | c # t \<Rightarrow> if c = CHR ''-'' then (True, t) else (False, s))"

definition signed :: "bool \<Rightarrow> nat \<Rightarrow> int" where
  "signed negative n = (if negative then - int n else int n)"

definition parse_integer :: "string \<Rightarrow> number option" where
  "parse_integer s =
     (case strip_minus s of
        (negative, t) \<Rightarrow>
          if t \<noteq> [] \<and> list_all is_digit t then Some (signed negative (string_to_nat t), 1) else None)"

text \<open>
  \<open>/^-?[0-9]+.?[0-9]*$/\<close> and \<open>parseFloat\<close>. The point of the pattern is any character; \<open>parseFloat\<close> reads a decimal
  point or an exponent and ends before any other.
\<close>

definition parse_float :: "string \<Rightarrow> number option" where
  "parse_float s =
     (case strip_minus s of
        (negative, t) \<Rightarrow>
          let whole = takeWhile is_digit t
          in if whole = [] then None
             else (case dropWhile is_digit t of
                     [] \<Rightarrow> Some (signed negative (string_to_nat whole), 1)
                   | c # fraction \<Rightarrow>
                       if \<not> rx_dot c \<or> \<not> list_all is_digit fraction then None
                       else if c = CHR ''.'' then
                         Some (signed negative (string_to_nat (whole @ fraction)), 10 ^ length fraction)
                       else if (c = CHR ''e'' \<or> c = CHR ''E'') \<and> fraction \<noteq> [] then
                         Some (signed negative (string_to_nat whole * 10 ^ string_to_nat fraction), 1)
                       else Some (signed negative (string_to_nat whole), 1)))"

definition getInteger :: "json \<Rightarrow> number option" where
  "getInteger v = (case v of JFrac n m \<Rightarrow> None | _ \<Rightarrow> parse_integer (to_property_key v))"

definition getFloat :: "json \<Rightarrow> number option" where
  "getFloat v = (case v of JFrac n m \<Rightarrow> Some (n, int m) | _ \<Rightarrow> parse_float (to_property_key v))"

definition getBoolean :: "json \<Rightarrow> bool option" where
  "getBoolean v =
     (case v of
        JStr s \<Rightarrow> if s = ''true'' then Some True else if s = ''false'' then Some False else None
      | JBool b \<Rightarrow> Some b
      | _ \<Rightarrow> None)"

text \<open>\<open>Number(s)\<close> of a decimal text with digits before its point.\<close>

definition to_number :: "string \<Rightarrow> number option" where
  "to_number s =
     (case trim s of
        [] \<Rightarrow> Some (0, 1)
      | c # t \<Rightarrow>
          let u = (if c = CHR ''+'' \<or> c = CHR ''-'' then t else c # t)
          in if list_all (\<lambda>c. is_digit c \<or> c = CHR ''.'') u
             then parse_float (if c = CHR ''-'' then c # u else u) else None)"

section \<open>Constraints\<close>

datatype vtype = TyString | TyInteger | TyFloat | TyBoolean

definition vtype_of :: "string \<Rightarrow> vtype option" where
  "vtype_of s =
     (if s = ''string'' then Some TyString else if s = ''integer'' then Some TyInteger
      else if s = ''float'' then Some TyFloat else if s = ''boolean'' then Some TyBoolean else None)"

datatype constraint =
    CMandatory
  | CValues "string list"
  | CMin string
  | CEmail
  | CType vtype
  | CSame string

text \<open>The constructor of a constraint: the number of arguments, and what \<open>create\<close> checks.\<close>

definition make_constraint :: "string \<Rightarrow> string list \<Rightarrow> constraint outcome" where
  "make_constraint name args =
     (if name = ''mandatory'' then (if args = [] then Inr CMandatory else Inl AssertFailed)
      else if name = ''values'' then (if args \<noteq> [] then Inr (CValues args) else Inl AssertFailed)
      else if name = ''min'' then (case args of [a] \<Rightarrow> Inr (CMin a) | _ \<Rightarrow> Inl AssertFailed)
      else if name = ''email'' then (if args = [] then Inr CEmail else Inl AssertFailed)
      else if name = ''type'' then
        (case args of
           [a] \<Rightarrow> (case vtype_of a of Some ty \<Rightarrow> Inr (CType ty) | None \<Rightarrow> Inl AssertFailed)
         | _ \<Rightarrow> Inl AssertFailed)
      else if name = ''same'' then (case args of [a] \<Rightarrow> Inr (CSame a) | _ \<Rightarrow> Inl AssertFailed)
      else Inl AssertFailed)"

definition is_name_char :: "char \<Rightarrow> bool" where
  "is_name_char c =
     (let n = of_char c :: nat
      in 48 \<le> n \<and> n \<le> 57 \<or> 65 \<le> n \<and> n \<le> 90 \<or> 97 \<le> n \<and> n \<le> 122 \<or> c = CHR ''_'' \<or> c = CHR ''-'')"

text \<open>\<open>/([a-zA-Z0-9_-]+)(?:\((.*)\))?/\<close>: the name, and what is between the brackets behind it.\<close>

definition match_brackets :: "string \<Rightarrow> string option" where
  "match_brackets s =
     (case s of
        [] \<Rightarrow> None
      | c # t \<Rightarrow>
          if c \<noteq> CHR ''('' then None
          else
            let line = takeWhile rx_dot t
            in if CHR '')'' \<in> set line then Some (rev (tl (dropWhile (\<lambda>c. c \<noteq> CHR '')'') (rev line)))) else None)"

definition match_constraint :: "string \<Rightarrow> (string \<times> string option) option" where
  "match_constraint s =
     (let t = dropWhile (\<lambda>c. \<not> is_name_char c) s
      in if t = [] then None else Some (takeWhile is_name_char t, match_brackets (dropWhile is_name_char t)))"

definition parse_constraint :: "string \<Rightarrow> constraint outcome" where
  "parse_constraint s =
     (case match_constraint s of
        None \<Rightarrow> Inl TypeErr
      | Some (name, brackets) \<Rightarrow>
          make_constraint name
            (filter (\<lambda>arg. arg \<noteq> []) (split_on (CHR '','') (case brackets of None \<Rightarrow> [] | Some t \<Rightarrow> t))))"

record entry =
  en_mandatory :: bool
  en_type :: vtype
  en_constraints :: "constraint list"

definition add_constraint :: "constraint \<Rightarrow> entry \<Rightarrow> entry" where
  "add_constraint c e =
     (case c of
        CMandatory \<Rightarrow> e\<lparr>en_mandatory := True, en_constraints := en_constraints e @ [c]\<rparr>
      | CType ty \<Rightarrow> e\<lparr>en_type := ty, en_constraints := en_constraints e @ [c]\<rparr>
      | _ \<Rightarrow> e\<lparr>en_constraints := en_constraints e @ [c]\<rparr>)"

definition parse_constraints :: "string \<Rightarrow> constraint list outcome" where
  "parse_constraints s = outcome_map parse_constraint (filter (\<lambda>c. c \<noteq> []) (split_on (CHR '' '') s))"

definition process_entry :: "json \<Rightarrow> entry outcome" where
  "process_entry constraints =
     (case constraints of
        JStr s \<Rightarrow>
          outcome_bind (parse_constraints s)
            (\<lambda>cs. Inr (fold add_constraint cs \<lparr>en_mandatory = False, en_type = TyString, en_constraints = []\<rparr>))
      | _ \<Rightarrow> Inl Unreachable)"

section \<open>Installation\<close>

text \<open>What \<open>install\<close> returns: the check, with its arguments converted to the type of the entry.\<close>

datatype installed =
    INone
  | IValues "cast_value list"
  | IMinLength string
  | IMinNumber number
  | IEmail
  | ISame string

definition cast_arg :: "vtype \<Rightarrow> string \<Rightarrow> cast_value outcome" where
  "cast_arg ty a =
     (case ty of
        TyString \<Rightarrow> Inr (Raw (JStr a))
      | TyInteger \<Rightarrow> (case parse_integer a of Some x \<Rightarrow> Inr (Numeric x) | None \<Rightarrow> Inl AssertFailed)
      | TyFloat \<Rightarrow> (case parse_float a of Some x \<Rightarrow> Inr (Numeric x) | None \<Rightarrow> Inl AssertFailed)
      | TyBoolean \<Rightarrow> (case getBoolean (JStr a) of Some b \<Rightarrow> Inr (Boolean b) | None \<Rightarrow> Inl AssertFailed))"

definition install_min :: "vtype \<Rightarrow> string \<Rightarrow> installed outcome" where
  "install_min ty a =
     outcome_bind (cast_arg ty a)
       (\<lambda>x. case x of Raw _ \<Rightarrow> Inr (IMinLength a) | Numeric n \<Rightarrow> Inr (IMinNumber n) | Boolean _ \<Rightarrow> Inl Unreachable)"

definition install :: "bool \<Rightarrow> string list \<Rightarrow> vtype \<Rightarrow> constraint \<Rightarrow> installed outcome" where
  "install singleValue keys ty c =
     (case c of
        CMandatory \<Rightarrow> Inr INone
      | CType _ \<Rightarrow> Inr INone
      | CValues args \<Rightarrow> outcome_bind (outcome_map (cast_arg ty) args) (\<lambda>xs. Inr (IValues xs))
      | CMin a \<Rightarrow> install_min ty a
      | CEmail \<Rightarrow> if ty = TyString then Inr IEmail else Inl AssertFailed
      | CSame a \<Rightarrow> if singleValue \<or> list_ex (\<lambda>k. k = a) keys then Inr (ISame a) else Inl AssertFailed)"

record rule =
  ru_mandatory :: bool
  ru_type :: vtype
  ru_checks :: "installed list"

record validation =
  va_singleValue :: bool
  va_schema :: "(string \<times> rule) list"

definition install_entry :: "bool \<Rightarrow> string list \<Rightarrow> string \<times> entry \<Rightarrow> (string \<times> rule) outcome" where
  "install_entry singleValue keys = (\<lambda>(key, e).
     outcome_bind (outcome_map (install singleValue keys (en_type e)) (en_constraints e))
       (\<lambda>cs. Inr (key, \<lparr>ru_mandatory = en_mandatory e, ru_type = en_type e, ru_checks = cs\<rparr>)))"

definition processSchema :: "bool \<Rightarrow> (string \<times> json) list \<Rightarrow> (string \<times> rule) list outcome" where
  "processSchema singleValue schema =
     outcome_bind (outcome_map (\<lambda>(key, c). outcome_bind (process_entry c) (\<lambda>e. Inr (key, e))) schema)
       (\<lambda>entries. outcome_map (install_entry singleValue (map fst entries)) entries)"

text \<open>The constructor, on a schema, and on the constraints of a single value.\<close>

definition new_validation :: "(string \<times> json) list \<Rightarrow> validation outcome" where
  "new_validation schema =
     outcome_bind (processSchema False schema) (\<lambda>s. Inr \<lparr>va_singleValue = False, va_schema = s\<rparr>)"

definition new_single :: "json \<Rightarrow> validation outcome" where
  "new_single constraints =
     outcome_bind (processSchema True [(''value'', constraints)]) (\<lambda>s. Inr \<lparr>va_singleValue = True, va_schema = s\<rparr>)"

definition isMandatory :: "string \<Rightarrow> validation \<Rightarrow> bool" where
  "isMandatory name V = (case map_of (va_schema V) name of None \<Rightarrow> False | Some r \<Rightarrow> ru_mandatory r)"

section \<open>Validation\<close>

datatype failure = FMandatory | FInteger | FFloat | FBoolean | FValues | FMin | FEmail | FSame | FMissing

type_synonym result = "(string \<times> failure list) list"

definition add_failure :: "string \<Rightarrow> failure \<Rightarrow> result \<Rightarrow> result" where
  "add_failure key f r = AList.update key ((case map_of r key of None \<Rightarrow> [] | Some fs \<Rightarrow> fs) @ [f]) r"

definition check :: "string \<Rightarrow> bool \<Rightarrow> failure \<Rightarrow> result \<Rightarrow> result" where
  "check key condition f r = (if condition then r else add_failure key f r)"

text \<open>\<open>/^([a-zA-Z0-9_\-.]+)@([a-zA-Z0-9_\-.]+)\.([a-zA-Z]{2,5})$/\<close>: the last point ends the domain.\<close>

definition is_letter :: "char \<Rightarrow> bool" where
  "is_letter c = (let n = of_char c :: nat in 65 \<le> n \<and> n \<le> 90 \<or> 97 \<le> n \<and> n \<le> 122)"

definition is_email_char :: "char \<Rightarrow> bool" where
  "is_email_char c = (is_name_char c \<or> c = CHR ''.'')"

definition is_email :: "string \<Rightarrow> bool" where
  "is_email s =
     (let user = takeWhile (\<lambda>c. c \<noteq> CHR ''@'') s; rest = dropWhile (\<lambda>c. c \<noteq> CHR ''@'') s;
          top = rev (takeWhile (\<lambda>c. c \<noteq> CHR ''.'') (rev (tl rest)));
          domain = rev (dropWhile (\<lambda>c. c \<noteq> CHR ''.'') (rev (tl rest)))
      in user \<noteq> [] \<and> list_all is_email_char user \<and> rest \<noteq> [] \<and>
         2 \<le> length domain \<and> list_all is_email_char (butlast domain) \<and>
         2 \<le> length top \<and> length top \<le> 5 \<and> list_all is_letter top)"

text \<open>\<open>value.length >= n\<close>: what has no length is not long enough, \<open>null\<close> is a \<open>TypeError\<close>.\<close>

definition length_at_least :: "cast_value \<Rightarrow> string \<Rightarrow> bool outcome" where
  "length_at_least v n =
     (let compare = (\<lambda>k. case to_number n of None \<Rightarrow> False | Some x \<Rightarrow> num_le x (k, 1))
      in case v of
           Raw (JStr s) \<Rightarrow> Inr (compare (int (length s)))
         | Raw (JArr xs) \<Rightarrow> Inr (compare (int (length xs)))
         | Raw (JObj ps) \<Rightarrow>
             Inr (case map_of ps ''length'' of
                    Some l \<Rightarrow> (case (json_number l, to_number n) of (Some k, Some x) \<Rightarrow> num_le x k | _ \<Rightarrow> False)
                  | None \<Rightarrow> False)
         | Raw JNull \<Rightarrow> Inl TypeErr
         | Raw JUndefined \<Rightarrow> Inl TypeErr
         | _ \<Rightarrow> Inr False)"

definition cast_string :: "cast_value \<Rightarrow> string" where
  "cast_string v = (case v of Raw w \<Rightarrow> to_property_key w | _ \<Rightarrow> [])"

definition run_check :: "bool \<Rightarrow> string \<Rightarrow> cast_value \<Rightarrow> json \<Rightarrow> installed \<Rightarrow> result \<Rightarrow> result outcome" where
  "run_check singleValue key v vals c r =
     (case c of
        INone \<Rightarrow> Inr r
      | IValues args \<Rightarrow> Inr (check key (list_ex (\<lambda>a. strict_eq a v) args) FValues r)
      | IMinLength n \<Rightarrow> outcome_bind (length_at_least v n) (\<lambda>b. Inr (check key b FMin r))
      | IMinNumber n \<Rightarrow> Inr (check key (case v of Numeric x \<Rightarrow> num_le n x | _ \<Rightarrow> False) FMin r)
      | IEmail \<Rightarrow> Inr (check key (is_email (cast_string v)) FEmail r)
      | ISame k \<Rightarrow> Inr (if singleValue then r else check key (strict_eq v (Raw (js_get vals k))) FSame r))"

fun run_checks :: "bool \<Rightarrow> string \<Rightarrow> cast_value \<Rightarrow> json \<Rightarrow> installed list \<Rightarrow> result \<Rightarrow> result outcome" where
  "run_checks singleValue key v vals [] r = Inr r"
| "run_checks singleValue key v vals (c # cs) r =
     outcome_bind (run_check singleValue key v vals c r) (run_checks singleValue key v vals cs)"

text \<open>The conversion of a value: the converted value, if there is one, or the failure.\<close>

definition cast_value :: "vtype \<Rightarrow> json \<Rightarrow> failure + cast_value" where
  "cast_value ty v =
     (case ty of
        TyString \<Rightarrow> Inr (Raw v)
      | TyInteger \<Rightarrow> (case getInteger v of Some x \<Rightarrow> Inr (Numeric x) | None \<Rightarrow> Inl FInteger)
      | TyFloat \<Rightarrow> (case getFloat v of Some x \<Rightarrow> Inr (Numeric x) | None \<Rightarrow> Inl FFloat)
      | TyBoolean \<Rightarrow> (case getBoolean v of Some b \<Rightarrow> Inr (Boolean b) | None \<Rightarrow> Inl FBoolean))"

record v_options =
  vo_valueExists :: "string \<Rightarrow> json \<Rightarrow> bool"
  vo_all :: bool
  vo_allMandatory :: bool

definition validate_key :: "bool \<Rightarrow> v_options \<Rightarrow> json \<Rightarrow> string \<times> rule \<Rightarrow> result \<Rightarrow> result outcome" where
  "validate_key singleValue opts vals = (\<lambda>(key, rule) r.
     outcome_bind
       (if ru_mandatory rule \<or> vo_allMandatory opts
        then outcome_bind (js_in key vals) (\<lambda>b. Inr (b \<and> vo_valueExists opts key (js_member vals key)))
        else Inr True)
       (\<lambda>ok.
          if \<not> ok then Inr (add_failure key FMandatory r)
          else outcome_bind (js_in key vals)
            (\<lambda>b. if \<not> b then Inr r
                 else (case cast_value (ru_type rule) (js_member vals key) of
                         Inl f \<Rightarrow> Inr (add_failure key f r)
                       | Inr (Raw JUndefined) \<Rightarrow> Inr r
                       | Inr v \<Rightarrow> run_checks singleValue key v vals (ru_checks rule) r))))"

fun validate_keys :: "bool \<Rightarrow> v_options \<Rightarrow> json \<Rightarrow> (string \<times> rule) list \<Rightarrow> result \<Rightarrow> result outcome" where
  "validate_keys singleValue opts vals [] r = Inr r"
| "validate_keys singleValue opts vals (x # xs) r =
     outcome_bind (validate_key singleValue opts vals x r) (validate_keys singleValue opts vals xs)"

definition check_all :: "v_options \<Rightarrow> (string \<times> rule) list \<Rightarrow> json \<Rightarrow> result \<Rightarrow> result" where
  "check_all opts schema vals r =
     (if vo_all opts
      then fold (\<lambda>key. check key (map_of schema key \<noteq> None) FMissing) (map fst (own_entries vals)) r
      else r)"

text \<open>The result, as the output type \<open>return\<close> gives it; the others report whether it is empty.\<close>

definition validate_result :: "v_options \<Rightarrow> validation \<Rightarrow> json \<Rightarrow> result outcome" where
  "validate_result opts V vals0 =
     (let vals = (if va_singleValue V then JObj [(''value'', vals0)] else vals0)
      in if \<not> is_typeof_object vals then Inl AssertFailed
         else outcome_bind (validate_keys (va_singleValue V) opts vals (va_schema V) [])
           (\<lambda>r. Inr (check_all opts (va_schema V) vals r)))"

datatype v_output = OThrow | OThrowPrecondition | OResult | OReturn

datatype v_returned = RNothing | RResult bool | RFailures result

definition validate_with :: "v_output \<Rightarrow> v_options \<Rightarrow> validation \<Rightarrow> json \<Rightarrow> v_returned outcome" where
  "validate_with out opts V vals =
     outcome_bind (validate_result opts V vals)
       (\<lambda>r. case out of
              OThrow \<Rightarrow> if r = [] then Inr RNothing else Inl AssertFailed
            | OThrowPrecondition \<Rightarrow> if r = [] then Inr RNothing else Inl PreconditionFailed
            | OResult \<Rightarrow> Inr (RResult (r = []))
            | OReturn \<Rightarrow> Inr (RFailures r))"

end
