(* ===== verification/Format.thy ===== *)
theory Format
  imports Validation
begin

text \<open>
  \<open>nodejs/core/format.ts\<close>: the placeholders of a text, with their formatting, and the dump of a value for logs, which
  is cut at a size. A fraction is written by its numerator and denominator, as in \<open>to_property_key\<close>, except where a
  number of decimals is asked for. Of the objects only plain ones and arrays are values here; an object
  with a key \<open>constructor\<close> is not taken for one. A placeholder is not named after what every object inherits.
\<close>

section \<open>Dump\<close>

text \<open>\<open>substring(0, n)\<close>, with a negative length taken as zero.\<close>

definition cut :: "int \<Rightarrow> string \<Rightarrow> string" where
  "cut n s = take (nat n) s"

fun itemToString :: "json \<Rightarrow> int \<Rightarrow> string"
  and iterableToString :: "json list \<Rightarrow> int \<Rightarrow> bool \<Rightarrow> string \<Rightarrow> string"
  and dictionaryToString :: "(string \<times> json) list \<Rightarrow> int \<Rightarrow> bool \<Rightarrow> string \<Rightarrow> string" where
  "itemToString item sizeLeft =
     (if sizeLeft \<le> 0 then []
      else case item of
             JNull \<Rightarrow> ''null''
           | JArr xs \<Rightarrow> iterableToString xs sizeLeft True ''[''
           | JObj ps \<Rightarrow> if map_of ps ''constructor'' = None then dictionaryToString ps sizeLeft True ''{'' else ''??''
           | JBool b \<Rightarrow> (if b then ''true'' else ''false'')
           | JStr s \<Rightarrow> CHR 0x22 # cut sizeLeft s @ [CHR 0x22]
           | JUndefined \<Rightarrow> ''??''
           | number \<Rightarrow> to_property_key number)"
| "iterableToString [] sizeLeft first result = result @ '']''"
| "iterableToString (x # xs) sizeLeft first result =
     (let r = result @ (if first then [] else '', '');
          r' = r @ itemToString x (sizeLeft - int (length r))
      in if int (length r') \<ge> sizeLeft then r' else iterableToString xs sizeLeft False r')"
| "dictionaryToString [] sizeLeft first result = result @ ''}''"
| "dictionaryToString ((key, v) # ps) sizeLeft first result =
     (let r = result @ (if first then [] else '', '');
          r1 = r @ (if sizeLeft - int (length r) \<le> 0 then []
                    else CHR 0x22 # cut (sizeLeft - int (length r)) key @ [CHR 0x22]) @ '': '';
          r2 = r1 @ itemToString v (sizeLeft - int (length r1))
      in if int (length r2) \<ge> sizeLeft then r2 else dictionaryToString ps sizeLeft False r2)"

definition toDumpString :: "json \<Rightarrow> int \<Rightarrow> string" where
  "toDumpString object maxSize =
     (let s = itemToString object maxSize in if int (length s) > maxSize then cut maxSize s @ ''[...]'' else s)"

text \<open>With the size \<open>NaN\<close> no limit is reached, and every text is cut to nothing.\<close>

fun dump_nan :: "json \<Rightarrow> string" where
  "dump_nan (JArr xs) = ''['' @ join_with '', '' (map dump_nan xs) @ '']''"
| "dump_nan (JObj ps) =
     (if map_of ps ''constructor'' = None
      then ''{'' @ join_with '', '' (map (\<lambda>(key, v). [CHR 0x22, CHR 0x22] @ '': '' @ dump_nan v) ps) @ ''}''
      else ''??'')"
| "dump_nan (JStr s) = [CHR 0x22, CHR 0x22]"
| "dump_nan JNull = ''null''"
| "dump_nan (JBool b) = (if b then ''true'' else ''false'')"
| "dump_nan JUndefined = ''??''"
| "dump_nan number = to_property_key number"

section \<open>Numbers in texts\<close>

text \<open>\<open>parseInt(s, 10)\<close>: \<open>None\<close> is \<open>NaN\<close>.\<close>

definition js_parseInt :: "string \<Rightarrow> int option" where
  "js_parseInt s =
     (let t = dropWhile js_space s;
          u = (if t \<noteq> [] \<and> (hd t = CHR ''-'' \<or> hd t = CHR ''+'') then tl t else t);
          digits = takeWhile is_digit u
      in if digits = [] then None
         else Some (if hd t = CHR ''-'' then - int (string_to_nat digits) else int (string_to_nat digits)))"

text \<open>\<open>Number(v)\<close> as numerator and denominator: \<open>None\<close> is \<open>NaN\<close>.\<close>

definition js_Number :: "json \<Rightarrow> (int \<times> int) option" where
  "js_Number v =
     (case v of
        JNum n \<Rightarrow> Some (n, 1)
      | JFrac n m \<Rightarrow> Some (n, int m)
      | JBool b \<Rightarrow> Some (if b then 1 else 0, 1)
      | JNull \<Rightarrow> Some (0, 1)
      | JUndefined \<Rightarrow> None
      | JObj _ \<Rightarrow> None
      | w \<Rightarrow> to_number (to_property_key w))"

text \<open>\<open>toFixed(p)\<close>: the nearest, of two the larger in absolute value.\<close>

definition padStart :: "nat \<Rightarrow> string \<Rightarrow> string" where
  "padStart n s = replicate (n - length s) (CHR ''0'') @ s"

definition fixed_digits :: "nat \<Rightarrow> nat \<Rightarrow> string" where
  "fixed_digits p scaled =
     (let ds = padStart (Suc p) (nat_to_string scaled)
      in if p = 0 then ds else take (length ds - p) ds @ CHR ''.'' # drop (length ds - p) ds)"

definition js_toFixed :: "nat \<Rightarrow> (int \<times> int) option \<Rightarrow> string" where
  "js_toFixed p v =
     (case v of
        None \<Rightarrow> ''NaN''
      | Some (n, d) \<Rightarrow>
          (if n < 0 then ''-'' else []) @ fixed_digits p (nat ((2 * \<bar>n\<bar> * 10 ^ p + d) div (2 * d))))"

section \<open>Placeholders\<close>

text \<open>
  \<open>{([^}:]*)(?::([^}]*))?}\<close> behind the opening brace: the name, the metadata, and what follows.
\<close>

definition match_placeholder :: "string \<Rightarrow> (string \<times> string \<times> string) option" where
  "match_placeholder s =
     (let name = takeWhile (\<lambda>c. c \<noteq> CHR ''}'' \<and> c \<noteq> CHR '':'') s
      in case dropWhile (\<lambda>c. c \<noteq> CHR ''}'' \<and> c \<noteq> CHR '':'') s of
           [] \<Rightarrow> None
         | c # rest \<Rightarrow>
             if c = CHR ''}'' then Some (name, [], rest)
             else (case dropWhile (\<lambda>c. c \<noteq> CHR ''}'') rest of
                     [] \<Rightarrow> None
                   | _ # rest' \<Rightarrow> Some (name, takeWhile (\<lambda>c. c \<noteq> CHR ''}'') rest, rest')))"

datatype format_index = Positional int | Named string

definition parseFormat :: "string \<Rightarrow> nat \<Rightarrow> format_index" where
  "parseFormat name current =
     (if name = [] then Positional (int current)
      else case js_parseInt name of None \<Rightarrow> Named name | Some n \<Rightarrow> Positional n)"

definition resolve_index :: "format_index \<Rightarrow> json list \<Rightarrow> json outcome" where
  "resolve_index index args =
     (case index of
        Named name \<Rightarrow>
          (case args of
             JObj ps # _ \<Rightarrow>
               if map_of ps ''constructor'' = None
               then (case map_of ps name of None \<Rightarrow> Inl (Raised ''Error'') | Some v \<Rightarrow> Inr v)
               else Inl (Raised ''Error'')
           | _ \<Rightarrow> Inl (Raised ''Error''))
      | Positional n \<Rightarrow>
          if n \<ge> int (length args) then Inl (Raised ''Error'')
          else Inr (if n < 0 then JUndefined else args ! nat n))"

definition or_zero :: "int option \<Rightarrow> int" where
  "or_zero n = (case n of None \<Rightarrow> 0 | Some k \<Rightarrow> k)"

definition dump_size :: "string \<Rightarrow> int option" where
  "dump_size metadata =
     (if length metadata > 1 \<and> metadata ! 1 = CHR ''.'' then js_parseInt (drop 2 metadata) else Some 1000)"

definition format_value :: "string \<Rightarrow> json \<Rightarrow> string outcome" where
  "format_value metadata v =
     (case metadata of
        [] \<Rightarrow> Inr (to_property_key v)
      | c # rest \<Rightarrow>
          if c = CHR ''?'' then Inr (case dump_size metadata of None \<Rightarrow> dump_nan v | Some n \<Rightarrow> toDumpString v n)
          else if c = CHR ''.'' then
            (let p = or_zero (js_parseInt rest)
             in if p < 0 \<or> p > 100 then Inl (Raised ''RangeError'') else Inr (js_toFixed (nat p) (js_Number v)))
          else if c = CHR ''0'' then Inr (padStart (nat (or_zero (js_parseInt rest))) (to_property_key v))
          else Inl (Raised ''Error''))"

lemma length_dropWhile_less: "dropWhile P s = c # t \<Longrightarrow> length t < length s"
  by (metis length_Cons length_dropWhile_le less_eq_Suc_le)

lemma match_placeholder_shorter: "match_placeholder s = Some (name, metadata, rest) \<Longrightarrow> length rest < length s"
  by (fastforce simp: match_placeholder_def Let_def dest: length_dropWhile_less split: list.splits if_splits)

text \<open>\<open>replace\<close> with its callback, which counts the placeholders.\<close>

function replace_loop :: "json list \<Rightarrow> nat \<Rightarrow> string \<Rightarrow> string outcome" where
  "replace_loop args current [] = Inr []"
| "replace_loop args current (c # s) =
     (case (if c = CHR ''{'' then match_placeholder s else None) of
        None \<Rightarrow> outcome_bind (replace_loop args current s) (\<lambda>r. Inr (c # r))
      | Some (name, metadata, rest) \<Rightarrow>
          outcome_bind (resolve_index (parseFormat name current) args) (\<lambda>v.
            outcome_bind (format_value metadata v) (\<lambda>t.
              outcome_bind (replace_loop args (Suc current) rest) (\<lambda>r. Inr (t @ r)))))"
  by pat_completeness auto
termination
  by (relation "measure (\<lambda>(args, current, s). length s)")
    (auto split: if_splits dest: match_placeholder_shorter)

definition formatString :: "string \<Rightarrow> json list \<Rightarrow> string outcome" where
  "formatString str args = replace_loop args 0 str"


section \<open>The dump is a beginning of the whole text\<close>

text \<open>The text of a value without a limit.\<close>

fun dump_all :: "json \<Rightarrow> string" where
  "dump_all (JArr xs) = ''['' @ join_with '', '' (map dump_all xs) @ '']''"
| "dump_all (JObj ps) =
     (if map_of ps ''constructor'' = None
      then ''{'' @ join_with '', '' (map (\<lambda>(key, v). CHR 0x22 # key @ [CHR 0x22] @ '': '' @ dump_all v) ps) @ ''}''
      else ''??'')"
| "dump_all (JStr s) = CHR 0x22 # s @ [CHR 0x22]"
| "dump_all JNull = ''null''"
| "dump_all (JBool b) = (if b then ''true'' else ''false'')"
| "dump_all JUndefined = ''??''"
| "dump_all number = to_property_key number"

fun continued :: "bool \<Rightarrow> string list \<Rightarrow> string" where
  "continued first [] = []"
| "continued first (p # ps) = (if first then [] else '', '') @ p @ continued False ps"

lemma continued_join: "continued True ps = join_with '', '' ps" "continued False (p # ps) = '', '' @ join_with '', '' (p # ps)"
proof (induction ps arbitrary: p)
  case (Cons q ps)
  { case 1 then show ?case using Cons.IH(1) Cons.IH(2) by (cases ps) simp_all }
  { case 2 then show ?case using Cons.IH(2) by simp }
qed simp_all

lemma take_whole:
  assumes "take k a = take k b" "length a < k"
  shows "a = b"
proof -
  have a: "a = take k b" using assms by simp
  then have "length b < k" using assms(2) by (auto simp: min_def split: if_splits)
  then show ?thesis using a by simp
qed

lemma take_enough:
  assumes "take k a = take k b" "k \<le> length a"
  shows "take k a = take k (b @ c)"
proof -
  have "length (take k b) = k" using assms by (metis length_take min.absorb2)
  then have "k \<le> length b" by simp
  then show ?thesis using assms(1) by simp
qed

lemma take_long: "m \<le> length a \<Longrightarrow> take m (a @ x) = take m a" by simp

text \<open>One more part: either the limit is reached, or the part is whole.\<close>

lemma take_part:
  assumes "take (nat (n - int (length r))) p = take (nat (n - int (length r))) w"
  shows "if int (length (r @ p)) \<ge> n then take (nat n) (r @ p) = take (nat n) (r @ w @ rest) else p = w"
proof -
  have k: "nat (n - int (length r)) = nat n - length r" by simp
  show ?thesis
    using take_whole [OF assms [unfolded k]] take_enough [OF assms [unfolded k], of rest] by auto
qed

lemma dump_cut:
  "take (nat n) (itemToString v n) = take (nat n) (dump_all v)"
  "take (nat n) (iterableToString vs n first r) = take (nat n) (r @ continued first (map dump_all vs) @ '']'')"
  "take (nat n) (dictionaryToString ps n first r) = take (nat n) (r @ continued first
     (map (\<lambda>(key, v). CHR 0x22 # key @ [CHR 0x22] @ '': '' @ dump_all v) ps) @ ''}'')"
proof (induction v n and vs n first r and ps n first r rule: itemToString_iterableToString_dictionaryToString.induct)
  case (1 v n)
  then show ?case
    by (cases v) (auto simp: continued_join cut_def take_Cons' min_def)
next
  case (3 x xs n first r)
  let ?r = "r @ (if first then [] else '', '')"
  let ?p = "itemToString x (n - int (length ?r))"
  note part = take_part [OF 3(1) [OF refl], of "continued False (map dump_all xs) @ '']''"]
  show ?case
  proof (cases "n \<le> int (length (?r @ ?p))")
    case True
    then show ?thesis using part by (simp add: Let_def del: itemToString.simps take_append)
  next
    case False
    then show ?thesis using part 3(2) [OF refl refl False] by (simp add: Let_def del: itemToString.simps take_append)
  qed
next
  case (5 key v ps n first r)
  let ?r = "r @ (if first then [] else '', '')"
  let ?k = "(if n - int (length ?r) \<le> 0 then [] else CHR 0x22 # cut (n - int (length ?r)) key @ [CHR 0x22])"
  let ?r1 = "?r @ ?k @ '': ''"
  let ?p = "itemToString v (n - int (length ?r1))"
  let ?rest = "continued False (map (\<lambda>(key, v). CHR 0x22 # key @ [CHR 0x22] @ '': '' @ dump_all v) ps) @ ''}''"
  let ?all = "r @ continued first (map (\<lambda>(key, v). CHR 0x22 # key @ [CHR 0x22] @ '': '' @ dump_all v) ((key, v) # ps)) @ ''}''"
  have step: "dictionaryToString ((key, v) # ps) n first r =
    (if n \<le> int (length (?r1 @ ?p)) then ?r1 @ ?p else dictionaryToString ps n False (?r1 @ ?p))"
    by (simp only: dictionaryToString.simps Let_def)
  have all: "?all = ?r @ CHR 0x22 # key @ [CHR 0x22] @ '': '' @ dump_all v @ ?rest" by simp
  show ?case
  proof (cases "n - int (length ?r) > 0 \<and> length key \<le> nat (n - int (length ?r))")
    case whole: True
    then have k: "?k = CHR 0x22 # key @ [CHR 0x22]" by (simp add: cut_def)
    have all1: "?all = ?r1 @ dump_all v @ ?rest" unfolding all k by simp
    note part = take_part [OF 5(1) [OF refl refl], of ?rest]
    show ?thesis
    proof (cases "n \<le> int (length (?r1 @ ?p))")
      case True
      then show ?thesis using part unfolding all1 step by (simp only: if_True)
    next
      case False
      then have "?p = dump_all v" using part by (simp only: if_False)
      moreover have "take (nat n) (dictionaryToString ps n False (?r1 @ ?p)) = take (nat n) ((?r1 @ ?p) @ ?rest)"
        by (rule 5(2) [OF refl refl refl False])
      ultimately show ?thesis unfolding all1 step using False by (simp only: if_False append_assoc)
    qed
  next
    case False
    then have enough: "nat n \<le> length (?r @ ?k)" by (auto simp: cut_def)
    have eq: "?r1 @ ?p = (?r @ ?k) @ '': '' @ ?p" by (simp only: append_assoc)
    have "n \<le> int (length (?r1 @ ?p))" unfolding eq length_append [of "?r @ ?k"] using enough by linarith
    then have "take (nat n) (dictionaryToString ((key, v) # ps) n first r) = take (nat n) (?r1 @ ?p)"
      unfolding step by (simp only: if_True)
    also have "... = take (nat n) (?r @ ?k)" unfolding eq by (rule take_long [OF enough])
    finally have "take (nat n) (dictionaryToString ((key, v) # ps) n first r) = take (nat n) (?r @ ?k)" .
    moreover have "take (nat n) (?r @ ?k) = take (nat n) (?r @ CHR 0x22 # key @ c)" for c
      using False by (auto simp: cut_def take_Cons' min_def)
    ultimately show ?thesis unfolding all by (simp only:)
  qed
qed simp_all


lemma dump_whole: "int (length (dump_all v)) < n \<Longrightarrow> toDumpString v n = dump_all v"
proof -
  assume less: "int (length (dump_all v)) < n"
  have cut: "take (nat n) (dump_all v) = take (nat n) (itemToString v n)" using dump_cut(1) [of n v] by simp
  from take_whole [OF cut] less show ?thesis by (simp add: toDumpString_def Let_def del: itemToString.simps)
qed

lemma dump_is_beginning: "take (nat n) (toDumpString v n) = take (nat n) (dump_all v)"
proof -
  have "take (nat n) (cut n a @ x) = take (nat n) a" if "int (length a) > n" for a x
    using that by (auto simp: cut_def min_def)
  then have "take (nat n) (toDumpString v n) = take (nat n) (itemToString v n)"
    by (simp add: toDumpString_def Let_def del: itemToString.simps)
  then show ?thesis by (simp only: dump_cut(1))
qed

lemma dump_length: "length (toDumpString v n) \<le> nat n + 5"
  by (auto simp: toDumpString_def Let_def cut_def simp del: itemToString.simps)

section \<open>Literals and placeholders\<close>

lemma format_literal:
  "CHR ''{'' \<notin> set s \<Longrightarrow> replace_loop args n (s @ t) = outcome_bind (replace_loop args n t) (\<lambda>r. Inr (s @ r))"
proof (induction s)
  case Nil
  then show ?case by (cases "replace_loop args n t") simp_all
next
  case (Cons c s)
  then show ?case by (cases "replace_loop args n t") auto
qed

lemma match_name:
  assumes "CHR ''}'' \<notin> set name" "CHR '':'' \<notin> set name"
  shows "match_placeholder (name @ CHR ''}'' # t) = Some (name, [], t)"
proof -
  have "takeWhile (\<lambda>c. c \<noteq> CHR ''}'' \<and> c \<noteq> CHR '':'') (name @ CHR ''}'' # t) = name"
    "dropWhile (\<lambda>c. c \<noteq> CHR ''}'' \<and> c \<noteq> CHR '':'') (name @ CHR ''}'' # t) = CHR ''}'' # t"
    using assms by (auto simp: takeWhile_append dropWhile_append)
  then show ?thesis by (simp add: match_placeholder_def)
qed

lemma format_placeholder:
  assumes "CHR ''}'' \<notin> set name" "CHR '':'' \<notin> set name"
  shows "replace_loop args n (CHR ''{'' # name @ CHR ''}'' # t) =
    outcome_bind (resolve_index (parseFormat name n) args) (\<lambda>v.
      outcome_bind (replace_loop args (Suc n) t) (\<lambda>r. Inr (to_property_key v @ r)))"
  using match_name [OF assms, of t] by (simp add: format_value_def)

lemma format_examples:
  "formatString ''Hello {} {1:.2}{0:04}!'' [JNum 7, JFrac 5 4] = Inr ''Hello 7 1.250007!''"
  "formatString ''{hello}, {hello:?.5}'' [JObj [(''hello'', JStr ''thisisastring'')]] =
     Inr (''thisisastring, '' @ [CHR 0x22] @ ''this[...]'')"
  "formatString ''{} {}'' [JNum 21] = Inl (Raised ''Error'')"
  by code_simp+

end
