(* ===== verification/ValidationSchema.thy ===== *)
theory ValidationSchema
  imports Format
begin

text \<open>
  \<open>core/validation_schema.js\<close> with \<open>deepMerge\<close> of \<open>utils/object.ts\<close>: validation of a value against a schema,
  and of a schema against the schema of schemas.

  A schema is a JSON value. An \<open>Exception\<close> carries its message, which goes through \<open>formatString\<close> of \<open>core/format.ts\<close>
  whenever one is constructed, also when the message of a part is thrown again (line 239): a placeholder in it
  makes the formatting fail with a plain \<open>Error\<close>. Errors that are not an \<open>Exception\<close> go through the handlers of the
  code. The visitor is called in the order of the list of visits that the functions return, also by
  validations that fail later. A bound that is a string, an array or an object is not converted to a number, a
  comparison with it is false. What is inherited from \<open>Object.prototype\<close> is found by \<open>in\<close> (\<open>js_in\<close>, \<open>js_member\<close>);
  changing \<open>Object.prototype\<close> itself, as a merge below the key \<open>__proto__\<close> does, is not modelled.
\<close>

section \<open>Merging\<close>

text \<open>
  \<open>if (!target[key])\<close> finds what is inherited, so that an object of such a name is merged into a function,
  which does nothing, or into \<open>Object.prototype\<close>. An assignment to \<open>__proto__\<close> sets the prototype and no property.
\<close>

definition entry_of :: "(string \<times> json) list \<Rightarrow> string \<Rightarrow> json" where
  "entry_of ps key = (case map_of ps key of None \<Rightarrow> JUndefined | Some v \<Rightarrow> v)"

function deepMerge :: "json \<Rightarrow> json \<Rightarrow> json"
  and merge_entries :: "(string \<times> json) list \<Rightarrow> (string \<times> json) list \<Rightarrow> (string \<times> json) list" where
  "deepMerge target source =
     (case (target, source) of (JObj t, JObj s) \<Rightarrow> JObj (merge_entries t s) | _ \<Rightarrow> target)"
| "merge_entries t [] = t"
| "merge_entries t ((key, v) # s) =
     merge_entries
       (if key = ''__proto__'' \<or> isObject v \<and> map_of t key = None \<and> inherited key then t
        else AList.update key
          (if isObject v
           then deepMerge (if truthy (entry_of t key) then entry_of t key else JObj []) v
           else v) t) s"
  by pat_completeness auto
termination
  by (relation "measure (\<lambda>x. case x of Inl (t, s) \<Rightarrow> Suc (size s) | Inr (t, s) \<Rightarrow> size (JObj s))") auto

declare deepMerge.simps [simp del]

lemma deepMerge_obj [simp]: "deepMerge (JObj t) (JObj s) = JObj (merge_entries t s)"
  by (simp add: deepMerge.simps)

lemma deepMerge_other: "\<not> isObject t \<or> \<not> isObject s \<Longrightarrow> deepMerge t s = t"
  by (subst deepMerge.simps) (auto simp: isObject_def split: json.splits)

text \<open>\<open>deepMerge({}, a, b, ...)\<close>.\<close>

definition deep_merge_all :: "json list \<Rightarrow> json" where
  "deep_merge_all sources = foldl deepMerge (JObj []) sources"

section \<open>Validation\<close>

text \<open>What is thrown: an \<open>Exception\<close> with its message, or another error.\<close>

datatype thrown = Message string | Other exn

type_synonym 'a attempt = "thrown + 'a"

definition try_bind :: "'a attempt \<Rightarrow> ('a \<Rightarrow> 'b attempt) \<Rightarrow> 'b attempt" where
  "try_bind r f = (case r of Inl e \<Rightarrow> Inl e | Inr x \<Rightarrow> f x)"

lemma try_bind_simps [simp]: "try_bind (Inl e) f = Inl e" "try_bind (Inr x) f = f x"
  by (simp_all add: try_bind_def)

lemma try_bind_eq_Inr: "try_bind r f = Inr y \<longleftrightarrow> (\<exists>x. r = Inr x \<and> f x = Inr y)"
  by (cases r) auto

lemma try_bind_eq_Inl: "try_bind r f = Inl e \<longleftrightarrow> r = Inl e \<or> (\<exists>x. r = Inr x \<and> f x = Inl e)"
  by (cases r) auto

definition from_language :: "'a outcome \<Rightarrow> 'a attempt" where
  "from_language r = (case r of Inl e \<Rightarrow> Inl (Other e) | Inr x \<Rightarrow> Inr x)"

lemma from_language_simps [simp]: "from_language (Inl e) = Inl (Other e)" "from_language (Inr x) = Inr x"
  by (simp_all add: from_language_def)

definition to_outcome :: "'a attempt \<Rightarrow> 'a outcome" where
  "to_outcome r = (case r of Inl (Message m) \<Rightarrow> Inl AssertFailed | Inl (Other e) \<Rightarrow> Inl e | Inr x \<Rightarrow> Inr x)"

text \<open>\<open>new Exception(message, ...args)\<close>, and \<open>Exception.assert\<close>.\<close>

definition new_exception :: "string \<Rightarrow> json list \<Rightarrow> thrown" where
  "new_exception message args = (case formatString message args of Inl e \<Rightarrow> Other e | Inr m \<Rightarrow> Message m)"

definition js_assert :: "bool \<Rightarrow> string \<Rightarrow> json list \<Rightarrow> unit attempt" where
  "js_assert b message args = (if b then Inr () else Inl (new_exception (''Assertion failed; '' @ message) args))"

definition getRefFromSchema :: "json \<Rightarrow> json \<Rightarrow> json attempt" where
  "getRefFromSchema ref schema =
     (case ref of
        JStr s \<Rightarrow>
          try_bind (js_assert (s \<noteq> [] \<and> hd s = CHR ''#'') ''Only internal reference is supported: {}'' [ref])
            (\<lambda>_. foldl (\<lambda>current part. try_bind current
                      (\<lambda>v. try_bind (from_language (js_in part v))
                         (\<lambda>b. try_bind (js_assert b ''Invalid reference path: {}'' [ref]) (\<lambda>_. Inr (js_member v part)))))
                    (Inr schema) (filter (\<lambda>part. part \<noteq> []) (split_on (CHR ''/'') (tl s))))
      | _ \<Rightarrow> Inl (Other TypeErr))"

definition number_value :: "json \<Rightarrow> (int \<times> int) option" where
  "number_value v =
     (case v of
        JNum n \<Rightarrow> Some (n, 1)
      | JFrac n m \<Rightarrow> Some (n, int m)
      | JNull \<Rightarrow> Some (0, 1)
      | JBool b \<Rightarrow> Some (if b then 1 else 0, 1)
      | _ \<Rightarrow> None)"

definition js_le :: "json \<Rightarrow> json \<Rightarrow> bool" where
  "js_le v w =
     (case (number_value v, number_value w) of (Some (a, b), Some (c, d)) \<Rightarrow> a * d \<le> c * b | _ \<Rightarrow> False)"

definition validationNumber :: "json \<Rightarrow> json \<Rightarrow> json list \<Rightarrow> unit attempt" where
  "validationNumber value property key =
     try_bind (from_language (js_in ''minimum'' property))
       (\<lambda>b. try_bind (js_assert (b \<longrightarrow> js_le (js_get property ''minimum'') value)
                ''[key={}] expected minimum value {}, not {:?}'' [JArr key, js_get property ''minimum'', value])
          (\<lambda>_. try_bind (from_language (js_in ''maximum'' property))
             (\<lambda>b. js_assert (b \<longrightarrow> js_le value (js_get property ''maximum''))
                ''[key={}] expected maximum value {}, not {:?}'' [JArr key, js_get property ''maximum'', value])))"

text \<open>A call of the visitor: value, property, path.\<close>

type_synonym visit = "json \<times> json \<times> json list"

text \<open>\<open>forEach\<close> with a function that may throw, and \<open>map\<close> with one that returns \<open>null\<close> (\<open>None\<close>) or a message.\<close>

fun seq_check :: "('a \<Rightarrow> visit list \<times> unit attempt) \<Rightarrow> 'a list \<Rightarrow> visit list \<times> unit attempt" where
  "seq_check f [] = ([], Inr ())"
| "seq_check f (x # xs) =
     (case f x of
        (vs, Inl e) \<Rightarrow> (vs, Inl e)
      | (vs, Inr _) \<Rightarrow> (case seq_check f xs of (ws, r) \<Rightarrow> (vs @ ws, r)))"

fun all_checks :: "('a \<Rightarrow> visit list \<times> string option attempt) \<Rightarrow> 'a list \<Rightarrow> visit list \<times> string option list attempt" where
  "all_checks f [] = ([], Inr [])"
| "all_checks f (x # xs) =
     (case f x of
        (vs, Inl e) \<Rightarrow> (vs, Inl e)
      | (vs, Inr b) \<Rightarrow>
          (case all_checks f xs of (ws, r) \<Rightarrow> (vs @ ws, try_bind r (\<lambda>bs. Inr (b # bs)))))"

text \<open>\<open>null\<close> if one of the results is, or else a message with all of them.\<close>

definition any_null :: "string \<Rightarrow> string option list \<Rightarrow> string option" where
  "any_null title results =
     (if None \<in> set results then None else Some (title @ [CHR 0x0A] @ join_with [CHR 0x0A] (map the results)))"

text \<open>\<open>if (maybeError)\<close>: the empty message counts as none.\<close>

definition js_error :: "string option \<Rightarrow> string option" where
  "js_error m = (if m = Some [] then None else m)"

text \<open>\<open>list.join(", ")\<close>, and the items of a set, each once in the order of their insertion.\<close>

definition js_join :: "json list \<Rightarrow> json" where
  "js_join vs = JStr (join_with '', '' (map (\<lambda>v. if v = JUndefined \<or> v = JNull then [] else to_property_key v) vs))"

definition js_set :: "json list \<Rightarrow> json list" where
  "js_set vs = foldl (\<lambda>seen v. if js_includes seen v then seen else seen @ [v]) [] vs"

text \<open>The parts of \<open>validateType\<close>; \<open>rec\<close> is the nested function \<open>validate\<close> on value, schema and path.\<close>

type_synonym validator = "json \<Rightarrow> json \<Rightarrow> json list \<Rightarrow> visit list \<times> unit attempt"

definition check_string :: "json \<Rightarrow> json \<Rightarrow> json list \<Rightarrow> unit attempt" where
  "check_string value property key =
     try_bind (js_assert (case value of JStr s \<Rightarrow> True | _ \<Rightarrow> False)
         ''[key={}] expected type string, not {:?}'' [JArr key, value])
       (\<lambda>_. try_bind (from_language (js_in ''enum'' property))
          (\<lambda>b. if \<not> b then Inr ()
               else (case js_get property ''enum'' of
                       JArr vs \<Rightarrow> js_assert (js_includes vs value)
                         ''[key={}] expected one of: {}, not {:?}'' [JArr key, js_join vs, value]
                     | _ \<Rightarrow> Inl (Other TypeErr))))"

definition check_required :: "json \<Rightarrow> string list \<Rightarrow> json list \<Rightarrow> unit attempt" where
  "check_required required keys key =
     (let check = (\<lambda>rs. js_assert (list_all (\<lambda>r. list_ex (\<lambda>k. r = JStr k) keys) rs)
                ''[key={}] Some required key(s) are not present: {}''
                [JArr key, js_join (filter (\<lambda>r. \<not> list_ex (\<lambda>k. r = JStr k) keys) (js_set rs))])
      in if \<not> truthy required then Inr ()
         else (case required of
                 JArr rs \<Rightarrow> check rs
               | JStr s \<Rightarrow> check (map (\<lambda>c. JStr [c]) s)
               | _ \<Rightarrow> Inl (Other TypeErr)))"

definition properties_of :: "json \<Rightarrow> json" where
  "properties_of property =
     (if truthy (js_get property ''properties'') then js_get property ''properties'' else JObj [])"

definition additional_of :: "json \<Rightarrow> json" where
  "additional_of property =
     (case js_get property ''additionalProperties'' of JUndefined \<Rightarrow> JBool True | JNull \<Rightarrow> JBool True | v \<Rightarrow> v)"

definition check_entry :: "validator \<Rightarrow> json \<Rightarrow> json list \<Rightarrow> string \<times> json \<Rightarrow> visit list \<times> unit attempt" where
  "check_entry rec property key = (\<lambda>(subKey, subValue).
     case js_in subKey (properties_of property) of
       Inl e \<Rightarrow> ([], Inl (Other e))
     | Inr b \<Rightarrow>
         if b then rec subValue (js_member (properties_of property) subKey) (key @ [JStr subKey])
         else if isObject (additional_of property) then rec subValue (additional_of property) (key @ [JStr subKey])
         else ([], Inr ()))"

definition check_object :: "validator \<Rightarrow> json \<Rightarrow> json \<Rightarrow> json list \<Rightarrow> visit list \<times> unit attempt" where
  "check_object rec value property key =
     (case js_assert (isObject value) ''[key={}] expected type object, not {:?}'' [JArr key, value] of
        Inl e \<Rightarrow> ([], Inl e)
      | Inr _ \<Rightarrow>
          (case seq_check (check_entry rec property key) (own_entries value) of
             (visits, r) \<Rightarrow>
               let keys = map fst (own_entries value);
                   allowed = map fst (own_entries (properties_of property))
               in (visits, try_bind r
                    (\<lambda>_. try_bind (check_required (js_get property ''required'') keys key)
                       (\<lambda>_. js_assert (additional_of property = JBool False \<longrightarrow>
                            list_all (\<lambda>k. list_ex (\<lambda>p. p = k) allowed) keys)
                          ''[key={}] Some key(s) are not allowed: {}''
                          [JArr key, js_join (map JStr (filter (\<lambda>k. \<not> list_ex (\<lambda>p. p = k) allowed) keys))])))))"

definition check_array :: "validator \<Rightarrow> json \<Rightarrow> json \<Rightarrow> json list \<Rightarrow> visit list \<times> unit attempt" where
  "check_array rec value property key =
     (case value of
        JArr xs \<Rightarrow>
          (case js_in ''items'' property of
             Inl e \<Rightarrow> ([], Inl (Other e))
           | Inr b \<Rightarrow>
               if b then seq_check (\<lambda>(i, x). rec x (js_get property ''items'') (key @ [JNum (int i)])) (enumerate 0 xs)
               else ([], Inr ()))
      | _ \<Rightarrow> ([], js_assert False ''[key={}] expected type array, not {:?}'' [JArr key, value]))"

definition is_number :: "json \<Rightarrow> bool" where
  "is_number v = (case v of JNum _ \<Rightarrow> True | JFrac _ _ \<Rightarrow> True | _ \<Rightarrow> False)"

definition is_integer :: "json \<Rightarrow> bool" where
  "is_integer v = (case v of JNum _ \<Rightarrow> True | _ \<Rightarrow> False)"

text \<open>The \<open>switch\<close>, and the handler around it: an \<open>Exception\<close> is a message, another error is thrown again.\<close>

definition type_switch :: "validator \<Rightarrow> json \<Rightarrow> json \<Rightarrow> json \<Rightarrow> json list \<Rightarrow> visit list \<times> unit attempt" where
  "type_switch rec ty value property key =
     (if ty = JStr ''string'' then ([], check_string value property key)
      else if ty = JStr ''number'' then
        ([], try_bind (js_assert (is_number value) ''[key={}] expected type number, not {:?}'' [JArr key, value])
               (\<lambda>_. validationNumber value property key))
      else if ty = JStr ''integer'' then
        ([], try_bind (js_assert (is_integer value) ''[key={}] expected type integer, not {:?}'' [JArr key, value])
               (\<lambda>_. validationNumber value property key))
      else if ty = JStr ''boolean'' then
        ([], js_assert (case value of JBool _ \<Rightarrow> True | _ \<Rightarrow> False)
               ''[key={}] expected type boolean, not {:?}'' [JArr key, value])
      else if ty = JStr ''null'' then
        ([], js_assert (value = JNull) (''[key={}] expected '' @ [CHR 0x27] @ ''null'' @ [CHR 0x27] @ '', not {:?}'')
               [JArr key, value])
      else if ty = JStr ''object'' then check_object rec value property key
      else if ty = JStr ''array'' then check_array rec value property key
      else ([], Inr ()))"

definition validateType :: "validator \<Rightarrow> json \<Rightarrow> json \<Rightarrow> json \<Rightarrow> json list \<Rightarrow> visit list \<times> string option attempt" where
  "validateType rec ty value property key =
     (case type_switch rec ty value property key of
        (vs, Inr _) \<Rightarrow> (vs, Inr None)
      | (vs, Inl (Message m)) \<Rightarrow> (vs, Inr (Some m))
      | (vs, Inl (Other e)) \<Rightarrow> (vs, Inl (Other e)))"

definition resolve_ref :: "json \<Rightarrow> json \<Rightarrow> json attempt" where
  "resolve_ref root property =
     try_bind (from_language (js_in ''$ref'' property))
       (\<lambda>b. if b then try_bind (getRefFromSchema (js_get property ''$ref'') root)
                      (\<lambda>referred. Inr (deep_merge_all [property, referred]))
            else Inr property)"

text \<open>One of the types in the list (the loop validates with the whole list as the type, to no effect), or the type.\<close>

definition check_types :: "validator \<Rightarrow> json \<Rightarrow> json \<Rightarrow> json list \<Rightarrow> visit list \<times> string option attempt" where
  "check_types rec value property key =
     (case js_get property ''type'' of
        JArr (ty # types) \<Rightarrow>
          (case all_checks (\<lambda>ty. validateType rec ty value property key) (ty # types) of
             (vs, r) \<Rightarrow> (vs, try_bind r (\<lambda>results.
                Inr (any_null (''None of the types ['' @ to_property_key (JArr (ty # types)) @ ''] validated:'') results))))
      | ty \<Rightarrow> (case validateType rec ty value property key of
                (vs, r) \<Rightarrow> (vs, try_bind r (\<lambda>m. Inr (js_error m)))))"

definition validateProperty :: "json \<Rightarrow> validator \<Rightarrow> json \<Rightarrow> json \<Rightarrow> json list \<Rightarrow> visit list \<times> string option attempt" where
  "validateProperty root rec value property0 key =
     (case resolve_ref root property0 of
        Inl e \<Rightarrow> ([], Inl e)
      | Inr property \<Rightarrow>
          (case check_types rec value property key of
             (vs, Inl e) \<Rightarrow> (vs, Inl e)
           | (vs, Inr None) \<Rightarrow> (vs @ [(value, property, key)], Inr None)
           | (vs, Inr (Some m)) \<Rightarrow> (vs, Inr (Some m))))"

text \<open>\<open>...schema.allOf\<close> and \<open>schema.anyOf.map\<close>.\<close>

definition apply_allOf :: "json \<Rightarrow> json attempt" where
  "apply_allOf schema =
     try_bind (from_language (js_in ''allOf'' schema))
       (\<lambda>b. if \<not> b then Inr schema
            else (case js_get schema ''allOf'' of
                    JArr ss \<Rightarrow> Inr (deep_merge_all (schema # ss))
                  | JStr s \<Rightarrow> Inr (deep_merge_all [schema])
                  | _ \<Rightarrow> Inl (Other TypeErr)))"

definition validate_nested :: "json \<Rightarrow> validator \<Rightarrow> validator" where
  "validate_nested root rec value schema0 nested =
     (case apply_allOf schema0 of
        Inl e \<Rightarrow> ([], Inl e)
      | Inr schema \<Rightarrow>
          (case js_in ''anyOf'' schema of
             Inl e \<Rightarrow> ([], Inl (Other e))
           | Inr b \<Rightarrow>
               (case (if b
                      then (case js_get schema ''anyOf'' of
                              JArr ss \<Rightarrow>
                                (case all_checks (\<lambda>sub. validateProperty root rec value (deep_merge_all [schema, sub]) nested) ss of
                                   (vs, r) \<Rightarrow> (vs, try_bind r (\<lambda>results. Inr (any_null ''anyOf validation failed:'' results))))
                            | _ \<Rightarrow> ([], Inl (Other TypeErr)))
                      else validateProperty root rec value schema nested) of
                  (vs, Inl e) \<Rightarrow> (vs, Inl e)
                | (vs, Inr maybeError) \<Rightarrow>
                    (vs, case js_error maybeError of None \<Rightarrow> Inr () | Some m \<Rightarrow> Inl (new_exception m [])))))"

section \<open>Recursion on the value\<close>

text \<open>What is validated for a value calls the nested function on the parts of that value only.\<close>

fun parts_of :: "json \<Rightarrow> json list" where
  "parts_of (JObj ps) = map snd ps"
| "parts_of (JArr xs) = xs"
| "parts_of v = []"

lemma parts_smaller: "sub \<in> set (parts_of v) \<Longrightarrow> size sub < size v"
proof (cases v)
  case (JObj ps)
  have "p \<in> set ps \<Longrightarrow> size (snd p) < Suc (size_list (size_prod (\<lambda>x. 0) size) ps)" for p
    by (induction ps) force+
  then show "sub \<in> set (parts_of v) \<Longrightarrow> size sub < size v" using JObj by auto
next
  case (JArr xs)
  have "x \<in> set xs \<Longrightarrow> size x < Suc (size_list size xs)" for x by (induction xs) auto
  then show "sub \<in> set (parts_of v) \<Longrightarrow> size sub < size v" using JArr by auto
qed simp_all

lemma seq_check_cong:
  "(\<And>x. x \<in> set xs \<Longrightarrow> f x = g x) \<Longrightarrow> seq_check f xs = seq_check g xs"
  by (induction xs) (auto split: prod.splits sum.splits)

lemma all_checks_cong:
  "(\<And>x. x \<in> set xs \<Longrightarrow> f x = g x) \<Longrightarrow> all_checks f xs = all_checks g xs"
  by (induction xs) (auto split: prod.splits sum.splits)

lemma check_object_cong:
  assumes "\<And>sub s k. sub \<in> set (parts_of value) \<Longrightarrow> rec sub s k = rec' sub s k"
  shows "check_object rec value property key = check_object rec' value property key"
proof (cases "isObject value")
  case True
  then obtain ps where v: "value = JObj ps" by (cases "value") (simp_all add: isObject_def)
  have "seq_check (check_entry rec property key) (own_entries value) = seq_check (check_entry rec' property key) (own_entries value)"
  proof (rule seq_check_cong)
    fix p assume "p \<in> set (own_entries value)"
    then have "rec (snd p) s k = rec' (snd p) s k" for s k using assms v by (auto simp: own_entries_def)
    then show "check_entry rec property key p = check_entry rec' property key p"
      by (cases p) (auto simp: check_entry_def split: sum.split)
  qed
  then show ?thesis unfolding check_object_def by (simp only:)
next
  case False
  then show ?thesis by (simp add: check_object_def js_assert_def)
qed

lemma check_array_cong:
  assumes "\<And>sub s k. sub \<in> set (parts_of value) \<Longrightarrow> rec sub s k = rec' sub s k"
  shows "check_array rec value property key = check_array rec' value property key"
proof (cases "value")
  case (JArr xs)
  have "seq_check (\<lambda>(i, x). rec x s (k i)) (enumerate 0 xs) = seq_check (\<lambda>(i, x). rec' x s (k i)) (enumerate 0 xs)" for s k
    by (rule seq_check_cong) (use assms JArr in \<open>auto simp: in_set_enumerate_eq\<close>)
  then have "check_array rec (JArr xs) property key = check_array rec' (JArr xs) property key"
    unfolding check_array_def by (simp split: sum.split)
  then show ?thesis using JArr by simp
qed (simp_all add: check_array_def)

lemma validateType_cong:
  assumes "\<And>sub s k. sub \<in> set (parts_of value) \<Longrightarrow> rec sub s k = rec' sub s k"
  shows "validateType rec ty value property key = validateType rec' ty value property key"
  unfolding validateType_def type_switch_def
  by (simp only: check_object_cong [OF assms] check_array_cong [OF assms])

lemma validateProperty_cong:
  assumes "\<And>sub s k. sub \<in> set (parts_of value) \<Longrightarrow> rec sub s k = rec' sub s k"
  shows "validateProperty root rec value property key = validateProperty root rec' value property key"
  unfolding validateProperty_def check_types_def by (simp only: validateType_cong [OF assms])

lemma validate_nested_cong [fundef_cong]:
  assumes "root = root'" "value = value'" "schema = schema'" "nested = nested'"
    and "\<And>sub s k. sub \<in> set (parts_of value') \<Longrightarrow> rec sub s k = rec' sub s k"
  shows "validate_nested root rec value schema nested = validate_nested root' rec' value' schema' nested'"
  unfolding validate_nested_def assms(1-4) by (simp only: validateProperty_cong [OF assms(5)])

function validate :: "json \<Rightarrow> validator" where
  "validate root valuesToValidate schemaToValidate nested =
     validate_nested root (\<lambda>v s k. validate root v s k) valuesToValidate schemaToValidate nested"
  by pat_completeness auto
termination
  by (relation "measure (\<lambda>(root, v, s, k). size v)") (simp_all add: parts_smaller)

declare validate.simps [simp del]

definition validateSchema :: "json \<Rightarrow> json \<Rightarrow> visit list \<times> unit attempt" where
  "validateSchema v schema = validate schema v schema []"

section \<open>The schema of schemas\<close>

abbreviation type_names :: json where
  "type_names \<equiv> JArr (map JStr [''string'', ''number'', ''integer'', ''boolean'', ''null'', ''object'', ''array''])"

abbreviation schema_of_type :: "string \<Rightarrow> json" where
  "schema_of_type name \<equiv> JObj [(''type'', JStr name)]"

abbreviation ref_root :: json where
  "ref_root \<equiv> JObj [(''$ref'', JStr ''#'')]"

definition meta_properties :: "(string \<times> json) list" where
  "meta_properties =
     [(''type'', JObj [(''type'', JArr [JStr ''string'', JStr ''array'']), (''enum'', type_names),
         (''items'', JObj [(''type'', JStr ''string''), (''enum'', type_names)])]),
      (''minimum'', schema_of_type ''number''),
      (''maximum'', schema_of_type ''number''),
      (''unit'', schema_of_type ''string''),
      (''description'', schema_of_type ''string''),
      (''default'', JObj []),
      (''properties'', JObj [(''type'', JStr ''object''), (''additionalProperties'', ref_root)]),
      (''additionalProperties'', JObj [(''anyOf'', JArr [schema_of_type ''boolean'', ref_root])]),
      (''$ref'', schema_of_type ''string''),
      (''$defs'', schema_of_type ''object''),
      (''items'', ref_root),
      (''required'', JObj [(''type'', JStr ''array''), (''items'', schema_of_type ''string'')]),
      (''enum'', JObj [(''type'', JStr ''array''), (''items'', schema_of_type ''string'')]),
      (''anyOf'', JObj [(''type'', JStr ''array''), (''items'', ref_root)]),
      (''allOf'', JObj [(''type'', JStr ''array''), (''items'', ref_root)])]"

definition meta_schema :: json where
  "meta_schema = JObj [(''type'', JStr ''object''), (''properties'', JObj meta_properties),
     (''additionalProperties'', JBool False)]"

text \<open>The constructor, and the validation of a value. An \<open>Exception\<close> is \<open>AssertFailed\<close> from here on.\<close>

definition make_schema :: "json \<Rightarrow> json outcome" where
  "make_schema schema = outcome_bind (to_outcome (snd (validateSchema schema meta_schema))) (\<lambda>_. Inr schema)"

definition schema_validate :: "json \<Rightarrow> json \<Rightarrow> visit list \<times> unit outcome" where
  "schema_validate schema v = (case validateSchema v schema of (visits, r) \<Rightarrow> (visits, to_outcome r))"

end
