(* ===== verification/ValidationSchema_Props.thy ===== *)
theory ValidationSchema_Props
  imports ValidationSchema
begin

text \<open>
  A schema that the constructor accepts and that has no references never makes the validation fail with a
  \<open>TypeError\<close> (\<open>accepted_schema_sound\<close>), and on plain schemas the validation decides membership in the type that the
  schema denotes (\<open>validate_decides_type\<close>).
\<close>

section \<open>Well-formed schemas\<close>

text \<open>No object has the key \<open>$ref\<close>.\<close>

fun no_refs :: "json \<Rightarrow> bool" where
  "no_refs (JObj ps) = list_all (\<lambda>(k, v). k \<noteq> ''$ref'' \<and> no_refs v) ps"
| "no_refs (JArr vs) = list_all no_refs vs"
| "no_refs v = True"

text \<open>The fields of a schema have names of their own.\<close>

lemma schema_names [simp]:
  "\<not> inherited ''type''" "\<not> inherited ''$ref''" "\<not> inherited ''enum''" "\<not> inherited ''minimum''" "\<not> inherited ''maximum''"
  "\<not> inherited ''items''" "\<not> inherited ''allOf''" "\<not> inherited ''anyOf''" "\<not> inherited ''properties''"
  "\<not> inherited ''additionalProperties''" "\<not> inherited ''required''"
  by (simp_all add: inherited_def inherited_names_def)

text \<open>What the validation relies on: the fields it reads are of the kind that it expects.\<close>

inductive wf_schema :: "json \<Rightarrow> bool" and wf_field :: "string \<Rightarrow> json \<Rightarrow> bool" where
  wf_schema: "(\<And>k v. (k, v) \<in> set ps \<Longrightarrow> wf_field k v) \<Longrightarrow> wf_schema (JObj ps)"
| wf_list: "k = ''enum'' \<or> k = ''required'' \<Longrightarrow> wf_field k (JArr vs)"
| wf_schemas: "k = ''anyOf'' \<or> k = ''allOf'' \<Longrightarrow> (\<And>s. s \<in> set vs \<Longrightarrow> wf_schema s) \<Longrightarrow> wf_field k (JArr vs)"
| wf_properties: "(\<And>n s. (n, s) \<in> set qs \<Longrightarrow> wf_schema s) \<Longrightarrow> wf_field ''properties'' (JObj qs)"
| wf_items: "wf_schema v \<Longrightarrow> k = ''items'' \<or> k = ''additionalProperties'' \<Longrightarrow> wf_field k v"
| wf_additional: "wf_field ''additionalProperties'' (JBool b)"
| wf_other: "k \<notin> {''$ref'', ''enum'', ''required'', ''anyOf'', ''allOf'', ''properties'', ''items'', ''additionalProperties''} \<Longrightarrow>
     wf_field k v"

inductive_simps wf_schema_obj: "wf_schema (JObj ps)"

inductive_simps wf_field_simps:
  "wf_field ''$ref'' v" "wf_field ''enum'' v" "wf_field ''required'' v" "wf_field ''anyOf'' v" "wf_field ''allOf'' v"
  "wf_field ''properties'' v" "wf_field ''items'' v" "wf_field ''additionalProperties'' v"

inductive_cases wf_schemaE: "wf_schema v"

lemma wf_schema_empty [intro, simp]: "wf_schema (JObj [])"
  by (rule wf_schema) simp

lemma wf_field_get: "wf_schema (JObj ps) \<Longrightarrow> map_of ps k = Some v \<Longrightarrow> wf_field k v"
  by (auto simp: wf_schema_obj dest: map_of_SomeD)

text \<open>The fields of the object \<open>properties\<close>.\<close>

abbreviation wf_entries :: "(string \<times> json) list \<Rightarrow> bool" where
  "wf_entries qs \<equiv> \<forall>(n, s)\<in>set qs. wf_schema s"

section \<open>Merging keeps schemas well-formed\<close>

lemma wf_update_fields:
  "wf_schema (JObj t) \<Longrightarrow> wf_field k v \<Longrightarrow> wf_schema (JObj (AList.update k v t))"
  using set_update_subset [of k v t] by (auto simp: wf_schema_obj)

lemma wf_update_entries: "wf_entries t \<Longrightarrow> wf_schema v \<Longrightarrow> wf_entries (AList.update k v t)"
  using set_update_subset [of k v t] by fastforce

lemma wf_is_object: "wf_schema v \<Longrightarrow> isObject v"
  by (auto elim: wf_schemaE simp: isObject_def)

lemma isObjectE: "isObject v \<Longrightarrow> \<exists>ps. v = JObj ps"
  by (cases v) (simp_all add: isObject_def)

definition merge_ok :: "json \<Rightarrow> json \<Rightarrow> bool" where
  "merge_ok t s =
     ((wf_schema t \<longrightarrow> wf_schema s \<longrightarrow> wf_schema (deepMerge t s)) \<and>
      (\<forall>qs ps. t = JObj qs \<longrightarrow> s = JObj ps \<longrightarrow> wf_entries qs \<longrightarrow> wf_entries ps \<longrightarrow> wf_entries (merge_entries qs ps)))"

lemma merged_field:
  assumes "old = JObj [] \<or> wf_field k old" and "wf_field k v" and "isObject v" and "merge_ok old v"
  shows "wf_field k (deepMerge old v)"
  using assms(2)
proof cases
  case wf_items
  from assms(1) consider "wf_schema old" | b where "old = JBool b" "k = ''additionalProperties''"
    using wf_items(2) by (auto simp: wf_field_simps)
  then show ?thesis
  proof cases
    case 1
    then show ?thesis using assms(4) wf_items by (auto simp: merge_ok_def intro: wf_schema_wf_field.wf_items)
  next
    case 2
    then show ?thesis by (simp add: deepMerge_other isObject_def wf_additional)
  qed
next
  case (wf_properties qs)
  then have "wf_entries qs" by auto
  moreover have "\<exists>ts. old = JObj ts \<and> wf_entries ts" using assms(1) wf_properties by (auto simp: wf_field_simps)
  ultimately obtain ts where "old = JObj ts" "wf_entries (merge_entries ts qs)"
    using assms(4) wf_properties by (auto simp: merge_ok_def)
  then show ?thesis using wf_properties by (auto intro!: wf_schema_wf_field.wf_properties)
next
  case wf_other
  then show ?thesis by (rule wf_schema_wf_field.wf_other)
qed (use assms(3) in \<open>simp_all add: isObject_def\<close>)

lemma merge_wf:
  "merge_ok t s"
  "(wf_schema (JObj ts) \<longrightarrow> wf_schema (JObj ss) \<longrightarrow> wf_schema (JObj (merge_entries ts ss))) \<and>
   (wf_entries ts \<longrightarrow> wf_entries ss \<longrightarrow> wf_entries (merge_entries ts ss))"
proof (induction t s and ts ss rule: deepMerge_merge_entries.induct)
  case (1 target source)
  show ?case
  proof (cases "isObject target \<and> isObject source")
    case True
    then obtain t s where eq: "target = JObj t" "source = JObj s" using isObjectE by metis
    have "(wf_schema (JObj t) \<longrightarrow> wf_schema (JObj s) \<longrightarrow> wf_schema (JObj (merge_entries t s))) \<and>
      (wf_entries t \<longrightarrow> wf_entries s \<longrightarrow> wf_entries (merge_entries t s))"
      by (rule 1 [OF refl eq])
    then show ?thesis unfolding merge_ok_def eq deepMerge_obj json.inject by blast
  next
    case False
    then show ?thesis by (auto simp: merge_ok_def deepMerge_other isObject_def)
  qed
next
  case (3 t key v s)
  let ?old = "if truthy (entry_of t key) then entry_of t key else JObj []"
  let ?new = "if isObject v then deepMerge ?old v else v"
  let ?drop = "key = ''__proto__'' \<or> isObject v \<and> map_of t key = None \<and> inherited key"
  have fields: "wf_field key ?new" if "\<not> ?drop" "wf_schema (JObj t)" "wf_field key v"
  proof (cases "isObject v")
    case True
    have "?old = JObj [] \<or> wf_field key ?old"
      using wf_field_get [OF that(2), of key] by (auto simp: entry_of_def truthy_def split: option.splits)
    then show ?thesis using merged_field that(3) True 3(1) [OF that(1) True] by simp
  qed (use that in simp)
  have entries: "wf_schema ?new" if "\<not> ?drop" "wf_entries t" "wf_schema v"
  proof -
    have "wf_schema ?old" using that(2) by (auto simp: entry_of_def truthy_def dest!: map_of_SomeD split: option.splits)
    then show ?thesis using wf_is_object [OF that(3)] 3(1) that(1,3) by (simp add: merge_ok_def)
  qed
  let ?t = "if ?drop then t else AList.update key ?new t"
  show ?case
  proof (intro conjI impI)
    assume t: "wf_schema (JObj t)" and s: "wf_schema (JObj ((key, v) # s))"
    then have "wf_field key v" "wf_schema (JObj s)" by (auto simp: wf_schema_obj)
    moreover from this have "wf_schema (JObj ?t)"
      using t wf_update_fields [OF t fields [OF _ t]] by (cases ?drop) simp_all
    ultimately show "wf_schema (JObj (merge_entries t ((key, v) # s)))"
      using 3(2) unfolding merge_entries.simps by blast
  next
    assume t: "wf_entries t" and s: "wf_entries ((key, v) # s)"
    then have v: "wf_schema v" and s': "wf_entries s" by simp_all
    have "wf_entries ?t" using t wf_update_entries [OF t entries [OF _ t v]] by (cases ?drop) simp_all
    then show "wf_entries (merge_entries t ((key, v) # s))"
      using 3(2) s' unfolding merge_entries.simps by blast
  qed
qed simp

lemma deep_merge_all_wf: "(\<And>s. s \<in> set ss \<Longrightarrow> wf_schema s) \<Longrightarrow> wf_schema (deep_merge_all ss)"
proof -
  have "wf_schema t \<Longrightarrow> (\<And>s. s \<in> set ss \<Longrightarrow> wf_schema s) \<Longrightarrow> wf_schema (foldl deepMerge t ss)" for t
    by (induction ss arbitrary: t) (use merge_wf(1) in \<open>auto simp: merge_ok_def\<close>)
  then show "(\<And>s. s \<in> set ss \<Longrightarrow> wf_schema s) \<Longrightarrow> wf_schema (deep_merge_all ss)"
    by (simp add: deep_merge_all_def)
qed

section \<open>No type errors\<close>

text \<open>Formatting fails with an \<open>Error\<close> or a \<open>RangeError\<close>, and keeps how a text begins.\<close>

definition format_error :: "exn \<Rightarrow> bool" where
  "format_error e = (e = Raised ''Error'' \<or> e = Raised ''RangeError'')"

lemma format_errors: "formatString str args = Inl e \<Longrightarrow> format_error e"
proof -
  have "replace_loop args n str = Inl e \<Longrightarrow> format_error e" for n
  proof (induction args n str rule: replace_loop.induct)
    case (2 args n c s)
    have "resolve_index i args = Inl e \<Longrightarrow> format_error e" for i
      by (auto simp: resolve_index_def format_error_def split: format_index.splits list.splits json.splits option.splits if_splits)
    moreover have "format_value m v = Inl e \<Longrightarrow> format_error e" for m v
      by (auto simp: format_value_def format_error_def Let_def split: list.splits if_splits)
    ultimately show ?case using 2 by (auto simp: outcome_bind_eq_Inl split: option.splits prod.splits)
  qed simp
  then show "formatString str args = Inl e \<Longrightarrow> format_error e" by (simp add: formatString_def)
qed

lemma format_begins: "c \<noteq> CHR ''{'' \<Longrightarrow> formatString (c # str) args = Inr m \<Longrightarrow> \<exists>m'. m = c # m'"
  by (auto simp: formatString_def outcome_bind_eq_Inr)

text \<open>A message begins with a character that is no brace, so that it is never taken for the empty one.\<close>

definition begun :: "string \<Rightarrow> bool" where
  "begun m = (m \<noteq> [] \<and> hd m \<noteq> CHR ''{'')"

definition proper :: "'a attempt \<Rightarrow> bool" where
  "proper r = (\<forall>m. r = Inl (Message m) \<longrightarrow> begun m)"

definition safe :: "'a attempt \<Rightarrow> bool" where
  "safe r = (\<forall>e. r = Inl (Other e) \<longrightarrow> format_error e)"

lemma proper_simps [simp]: "proper (Inr x)" "proper (Inl (Other e))" "proper (Inl (Message m)) \<longleftrightarrow> begun m"
  by (simp_all add: proper_def)

lemma safe_simps [simp]: "safe (Inr x)" "safe (Inl (Other e)) \<longleftrightarrow> format_error e" "safe (Inl (Message m))"
  by (simp_all add: safe_def)

lemma new_exception_safe [simp]: "safe (Inl (new_exception m args))"
  using format_errors [of m args] by (simp add: new_exception_def split: sum.split)

lemma new_exception_proper: "begun m \<Longrightarrow> proper (Inl (new_exception m args))"
  using format_begins [of "hd m" "tl m" args] by (cases m) (auto simp: new_exception_def begun_def split: sum.split)

lemma js_assert_safe [simp]: "safe (js_assert b m args)"
  by (simp add: js_assert_def)

lemma js_assert_proper [simp]: "proper (js_assert b m args)"
  by (auto simp: js_assert_def begun_def intro!: new_exception_proper)

lemma safe_bind: "safe r \<Longrightarrow> (\<And>x. r = Inr x \<Longrightarrow> safe (f x)) \<Longrightarrow> safe (try_bind r f)"
  by (cases r) (auto simp: safe_def)

lemma proper_bind: "proper r \<Longrightarrow> (\<And>x. r = Inr x \<Longrightarrow> proper (f x)) \<Longrightarrow> proper (try_bind r f)"
  by (cases r) (auto simp: proper_def)

lemma proper_then: "proper (snd p) \<Longrightarrow> (\<And>x. proper (f x)) \<Longrightarrow> proper (snd (case p of (vs, r) \<Rightarrow> (vs, try_bind r f)))"
  by (auto split: prod.split intro: proper_bind)

lemma safe_then: "safe (snd p) \<Longrightarrow> (\<And>x. safe (f x)) \<Longrightarrow> safe (snd (case p of (vs, r) \<Rightarrow> (vs, try_bind r f)))"
  by (auto split: prod.split intro: safe_bind)

lemma js_assert_True [simp]: "js_assert True m args = Inr ()"
  by (simp add: js_assert_def)

lemma proper_from_language [simp]: "proper (from_language r)"
  by (cases r) simp_all

lemma safe_seq_check: "(\<And>x. x \<in> set xs \<Longrightarrow> safe (snd (f x))) \<Longrightarrow> safe (snd (seq_check f xs))"
proof (induction xs)
  case (Cons x xs)
  have "safe (snd (f x))" "safe (snd (seq_check f xs))" using Cons by auto
  then show ?case by (cases "f x"; cases "snd (f x)"; cases "seq_check f xs") auto
qed simp

lemma safe_all_checks: "(\<And>x. x \<in> set xs \<Longrightarrow> safe (snd (f x))) \<Longrightarrow> safe (snd (all_checks f xs))"
proof (induction xs)
  case (Cons x xs)
  have "safe (snd (f x))" "safe (snd (all_checks f xs))" using Cons by auto
  then show ?case by (cases "f x"; cases "snd (f x)"; cases "all_checks f xs") (auto simp: safe_def try_bind_eq_Inl)
qed simp

lemma wf_get: "wf_schema s \<Longrightarrow> \<not> inherited k \<Longrightarrow> js_in k s = Inr True \<Longrightarrow> wf_field k (js_get s k)"
proof -
  assume s: "wf_schema s" and "\<not> inherited k" and k: "js_in k s = Inr True"
  then obtain ps where ps: "s = JObj ps" using wf_is_object isObjectE by blast
  then obtain v where "map_of ps k = Some v" using k \<open>\<not> inherited k\<close> by auto
  then show ?thesis using wf_field_get [of ps k v] s ps by simp
qed

lemma wf_in: "wf_schema s \<Longrightarrow> \<exists>b. js_in k s = Inr b"
  by (elim wf_schemaE) auto

lemma wf_no_ref: "wf_schema s \<Longrightarrow> js_in ''$ref'' s = Inr False"
proof -
  assume s: "wf_schema s"
  then obtain ps where ps: "s = JObj ps" using wf_is_object isObjectE by blast
  show ?thesis
  proof (cases "map_of ps ''$ref''")
    case (Some v)
    then show ?thesis using wf_field_get [of ps "''$ref''" v] s ps by (simp add: wf_field_simps)
  qed (simp add: ps)
qed

lemma js_get_cases: "wf_schema s \<Longrightarrow> js_get s k = JUndefined \<or> wf_field k (js_get s k)"
proof -
  assume s: "wf_schema s"
  then obtain ps where ps: "s = JObj ps" using wf_is_object isObjectE by blast
  show ?thesis
  proof (cases "map_of ps k")
    case (Some v)
    then show ?thesis using wf_field_get [of ps k v] s ps by simp
  qed (simp add: ps)
qed

lemma wf_properties_of: "wf_schema s \<Longrightarrow> \<exists>qs. properties_of s = JObj qs \<and> wf_entries qs"
  using js_get_cases [of s "''properties''"] by (auto simp: properties_of_def wf_field_simps truthy_def)

lemma wf_additional_of: "wf_schema s \<Longrightarrow> isObject (additional_of s) \<Longrightarrow> wf_schema (additional_of s)"
  using js_get_cases [of s "''additionalProperties''"]
  by (auto simp: additional_of_def wf_field_simps isObject_def split: json.splits)

text \<open>The nested function, on the parts of a value.\<close>

abbreviation safe_validator :: "validator \<Rightarrow> json \<Rightarrow> bool" where
  "safe_validator rec v \<equiv> \<forall>sub\<in>set (parts_of v). \<forall>s k. wf_schema s \<longrightarrow> safe (snd (rec sub s k))"

lemma safe_check_entry:
  assumes "wf_schema s" and "\<And>t l. wf_schema t \<Longrightarrow> safe (snd (rec x t l))"
  shows "safe (snd (check_entry rec s key (k, x)))"
proof -
  obtain qs where qs: "properties_of s = JObj qs" "wf_entries qs" using wf_properties_of [OF assms(1)] by blast
  have "wf_schema (js_member (JObj qs) k)" if "map_of qs k \<noteq> None \<or> inherited k"
    using that qs(2) map_of_SomeD [of qs k] by (fastforce split: option.split)
  then show ?thesis using assms(2) wf_additional_of [OF assms(1)] by (simp add: check_entry_def qs(1))
qed

lemma safe_check_required: "wf_schema s \<Longrightarrow> safe (check_required (js_get s ''required'') keys key)"
  using js_get_cases [of s "''required''"] by (auto simp: check_required_def wf_field_simps truthy_def)

lemma safe_check_object:
  assumes "wf_schema s" and "safe_validator rec v"
  shows "safe (snd (check_object rec v s key))"
proof (cases "isObject v")
  case True
  then obtain ps where v: "v = JObj ps" using isObjectE by blast
  have "safe (snd (seq_check (check_entry rec s key) (own_entries v)))"
  proof (rule safe_seq_check)
    fix p assume "p \<in> set (own_entries v)"
    then have "snd p \<in> set (parts_of v)" using v by (simp add: own_entries_def)
    then have "safe (snd (rec (snd p) t l))" if "wf_schema t" for t l using assms(2) that by blast
    then show "safe (snd (check_entry rec s key p))"
      using safe_check_entry [OF assms(1), of rec "snd p" key "fst p"] by simp
  qed
  then show ?thesis using safe_check_required [OF assms(1)]
    by (simp only: check_object_def True js_assert_True sum.case Let_def) (intro safe_then safe_bind js_assert_safe)
next
  case False
  then show ?thesis using js_assert_safe [of False] by (simp add: check_object_def js_assert_def)
qed

lemma safe_check_array:
  assumes "wf_schema s" and "safe_validator rec v"
  shows "safe (snd (check_array rec v s key))"
proof -
  obtain b where b: "js_in ''items'' s = Inr b" using wf_in [OF assms(1)] by blast
  have "safe (snd (seq_check (\<lambda>(i, x). rec x (js_get s ''items'') (key @ [JNum (int i)])) (enumerate 0 xs)))"
    if "b" "v = JArr xs" for xs
  proof (rule safe_seq_check)
    fix p :: "nat \<times> json" assume "p \<in> set (enumerate 0 xs)"
    then have "snd p \<in> set (parts_of v)" using that(2) nth_mem [of "fst p" xs] by (simp add: in_set_enumerate_eq)
    moreover have "wf_schema (js_get s ''items'')"
      using wf_get [OF assms(1), of "''items''"] b that(1) by (simp add: wf_field_simps)
    ultimately show "safe (snd ((\<lambda>(i, x). rec x (js_get s ''items'') (key @ [JNum (int i)])) p))"
      using assms(2) by (simp add: case_prod_beta)
  qed
  then show ?thesis by (auto simp: check_array_def b split: json.split)
qed

lemma safe_type_switch:
  assumes "wf_schema s" and "safe_validator rec v"
  shows "safe (snd (type_switch rec ty v s key))"
proof -
  have "safe (check_string v s key)"
    using wf_in [OF assms(1), of "''enum''"] wf_get [OF assms(1), of "''enum''"]
    by (auto simp: check_string_def wf_field_simps intro!: safe_bind)
  moreover have "safe (validationNumber v s key)"
    using wf_in [OF assms(1), of "''minimum''"] wf_in [OF assms(1), of "''maximum''"]
    by (auto simp: validationNumber_def intro!: safe_bind)
  ultimately show ?thesis using safe_check_object [OF assms] safe_check_array [OF assms]
    by (simp add: type_switch_def safe_bind)
qed

lemma safe_validateType:
  assumes "wf_schema s" and "safe_validator rec v"
  shows "safe (snd (validateType rec ty v s key))"
  using safe_type_switch [OF assms, of ty key]
  by (auto simp: validateType_def split: sum.splits prod.splits thrown.splits)

lemma safe_validateProperty:
  assumes "wf_schema s" and "safe_validator rec v"
  shows "safe (snd (validateProperty root rec v s key))"
proof -
  note type = safe_validateType [OF assms, of _ key]
  have "safe (snd (check_types rec v s key))"
  proof (cases "\<exists>ty tys. js_get s ''type'' = JArr (ty # tys)")
    case True
    then obtain ty tys where ty: "js_get s ''type'' = JArr (ty # tys)" by blast
    have "safe (snd (all_checks (\<lambda>ty. validateType rec ty v s key) (ty # tys)))"
      by (rule safe_all_checks) (rule type)
    then show ?thesis
      by (auto simp: check_types_def ty simp del: all_checks.simps split: prod.split intro!: safe_bind)
  next
    case False
    then have "check_types rec v s key = (case validateType rec (js_get s ''type'') v s key of
        (vs, r) \<Rightarrow> (vs, try_bind r (\<lambda>m. Inr (js_error m))))"
      by (auto simp: check_types_def split: json.split list.split)
    then show ?thesis using type [of "js_get s ''type''"] by (auto intro!: safe_bind split: prod.split)
  qed
  moreover have "resolve_ref root s = Inr s" using wf_no_ref [OF assms(1)] by (simp add: resolve_ref_def)
  ultimately show ?thesis
    unfolding validateProperty_def
    by (cases "check_types rec v s key") (auto split: sum.split option.split)
qed

lemma apply_allOf_wf: "wf_schema s \<Longrightarrow> \<exists>s'. apply_allOf s = Inr s' \<and> wf_schema s'"
proof -
  assume s: "wf_schema s"
  then obtain b where b: "js_in ''allOf'' s = Inr b" using wf_in by blast
  show ?thesis
  proof (cases b)
    case True
    then obtain ss where "js_get s ''allOf'' = JArr ss" "\<forall>t\<in>set ss. wf_schema t"
      using wf_get [OF s, of "''allOf''"] b by (auto simp: wf_field_simps)
    then show ?thesis using b True s by (auto simp: apply_allOf_def intro!: deep_merge_all_wf)
  qed (use b s in \<open>simp add: apply_allOf_def\<close>)
qed

lemma safe_validate: "wf_schema s \<Longrightarrow> safe (snd (validate root v s key))"
proof (induction v arbitrary: s key rule: measure_induct_rule [of size])
  case (less v)
  let ?rec = "\<lambda>v s k. validate root v s k"
  have rec: "safe_validator ?rec v" using less.IH parts_smaller by blast
  obtain t where t: "apply_allOf s = Inr t" "wf_schema t" using apply_allOf_wf [OF less.prems] by blast
  obtain b where b: "js_in ''anyOf'' t = Inr b" using wf_in [OF t(2)] by blast
  have error: "safe (snd (case p of (vs, Inl e) \<Rightarrow> (vs, Inl e)
      | (vs, Inr m) \<Rightarrow> (vs, case js_error m of None \<Rightarrow> Inr () | Some e \<Rightarrow> Inl (new_exception e []))))"
    if "safe (snd p)" for p :: "visit list \<times> string option attempt"
  proof -
    obtain vs r where p: "p = (vs, r)" by fastforce
    show ?thesis
    proof (cases r)
      case (Inl e)
      then show ?thesis using that p by (cases e) simp_all
    qed (simp add: p split: option.split)
  qed
  have any: "safe (snd (case all_checks (\<lambda>sub. validateProperty root ?rec v (deep_merge_all [t, sub]) key) ss of
      (vs, r) \<Rightarrow> (vs, try_bind r (\<lambda>results. Inr (any_null ''anyOf validation failed:'' results)))))"
    if "\<forall>u\<in>set ss. wf_schema u" for ss
  proof (intro safe_then safe_all_checks safe_simps)
    fix u assume "u \<in> set ss"
    then have "wf_schema (deep_merge_all [t, u])" using t(2) that by (intro deep_merge_all_wf) auto
    then show "safe (snd (validateProperty root ?rec v (deep_merge_all [t, u]) key))"
      using safe_validateProperty [OF _ rec] by blast
  qed
  have "safe (snd (validate_nested root ?rec v s key))"
  proof (cases b)
    case False
    then show ?thesis using error [OF safe_validateProperty [OF t(2) rec]] by (simp add: validate_nested_def t(1) b)
  next
    case True
    then obtain ss where ss: "js_get t ''anyOf'' = JArr ss" "\<forall>u\<in>set ss. wf_schema u"
      using wf_get [OF t(2), of "''anyOf''"] b by (auto simp: wf_field_simps)
    show ?thesis using True error [OF any [OF ss(2)]] by (simp add: validate_nested_def t(1) b ss(1))
  qed
  then show ?case by (subst validate.simps)
qed

section \<open>Messages are never empty\<close>

lemma proper_seq_check: "(\<And>x. x \<in> set xs \<Longrightarrow> proper (snd (f x))) \<Longrightarrow> proper (snd (seq_check f xs))"
proof (induction xs)
  case (Cons x xs)
  have "proper (snd (f x))" "proper (snd (seq_check f xs))" using Cons by auto
  then show ?case by (cases "f x"; cases "snd (f x)"; cases "seq_check f xs") (auto simp: proper_def)
qed simp

lemma proper_all_checks: "(\<And>x. x \<in> set xs \<Longrightarrow> proper (snd (f x))) \<Longrightarrow> proper (snd (all_checks f xs))"
proof (induction xs)
  case (Cons x xs)
  have "proper (snd (f x))" "proper (snd (all_checks f xs))" using Cons by auto
  then show ?case by (cases "f x"; cases "snd (f x)"; cases "all_checks f xs") (auto simp: proper_def try_bind_eq_Inl)
qed simp

abbreviation proper_validator :: "validator \<Rightarrow> json \<Rightarrow> bool" where
  "proper_validator rec v \<equiv> \<forall>sub\<in>set (parts_of v). \<forall>s k. proper (snd (rec sub s k))"

lemma proper_check_object: "proper_validator rec v \<Longrightarrow> proper (snd (check_object rec v s key))"
proof (cases "isObject v")
  case True
  assume rec: "proper_validator rec v"
  obtain ps where v: "v = JObj ps" using True isObjectE by blast
  have seq: "proper (snd (seq_check (check_entry rec s key) (own_entries v)))"
  proof (rule proper_seq_check)
    fix p assume "p \<in> set (own_entries v)"
    then have "snd p \<in> set (parts_of v)" using v by (simp add: own_entries_def)
    then have "proper (snd (rec (snd p) t l))" for t l using rec by blast
    then show "proper (snd (check_entry rec s key p))" by (cases p) (simp add: check_entry_def split: sum.split)
  qed
  have "proper (check_required r keys key)" for r keys
    by (simp add: check_required_def Let_def split: json.split)
  then show ?thesis using seq True
    by (simp only: check_object_def js_assert_True sum.case Let_def) (intro proper_then proper_bind js_assert_proper)
qed (use js_assert_proper [of False] in \<open>simp add: check_object_def js_assert_def\<close>)

lemma proper_check_array: "proper_validator rec v \<Longrightarrow> proper (snd (check_array rec v s key))"
proof (cases "\<exists>xs. v = JArr xs")
  case True
  assume rec: "proper_validator rec v"
  obtain xs where v: "v = JArr xs" using True by blast
  have "proper (snd (seq_check (\<lambda>(i, x). rec x t (k i)) (enumerate 0 xs)))" for t k
  proof (rule proper_seq_check)
    fix p :: "nat \<times> json" assume "p \<in> set (enumerate 0 xs)"
    then have "snd p \<in> set (parts_of v)" using v nth_mem [of "fst p" xs] by (simp add: in_set_enumerate_eq)
    then show "proper (snd ((\<lambda>(i, x). rec x t (k i)) p))" using rec by (simp add: case_prod_beta)
  qed
  then show ?thesis by (auto simp: check_array_def v split: sum.split)
qed (auto simp: check_array_def split: json.split)

lemma proper_type_switch: "proper_validator rec v \<Longrightarrow> proper (snd (type_switch rec ty v s key))"
proof -
  have "proper (check_string v s key)"
    by (auto simp: check_string_def intro!: proper_bind split: json.split)
  moreover have "proper (validationNumber v s key)"
    by (auto simp: validationNumber_def intro!: proper_bind)
  ultimately show "proper_validator rec v \<Longrightarrow> proper (snd (type_switch rec ty v s key))"
    using proper_check_object [of v rec s key] proper_check_array [of v rec s key]
    by (simp add: type_switch_def proper_bind)
qed

text \<open>What \<open>validateType\<close> returns: no message is empty.\<close>

lemma validateType_begun:
  "proper_validator rec v \<Longrightarrow> snd (validateType rec ty v s key) = Inr (Some m) \<Longrightarrow> begun m"
  using proper_type_switch [of v rec ty s key]
  by (auto simp: validateType_def split: prod.splits sum.splits thrown.splits)

lemma any_null_begun: "title \<noteq> [] \<Longrightarrow> hd title \<noteq> CHR ''{'' \<Longrightarrow> any_null title rs = Some m \<Longrightarrow> begun m"
  by (auto simp: any_null_def begun_def split: if_splits)

lemma check_types_begun:
  assumes "proper_validator rec v" and "snd (check_types rec v s key) = Inr (Some m)"
  shows "begun m"
proof (cases "\<exists>ty tys. js_get s ''type'' = JArr (ty # tys)")
  case True
  then obtain ty tys where ty: "js_get s ''type'' = JArr (ty # tys)" by blast
  obtain vs r where all: "all_checks (\<lambda>ty. validateType rec ty v s key) (ty # tys) = (vs, r)" by fastforce
  let ?title = "''None of the types ['' @ to_property_key (JArr (ty # tys)) @ ''] validated:''"
  have "try_bind r (\<lambda>rs. Inr (any_null ?title rs)) = Inr (Some m)"
    using assms(2) by (simp only: check_types_def ty json.case list.case all prod.case snd_conv)
  then obtain rs where "any_null ?title rs = Some m" by (auto simp only: try_bind_eq_Inr sum.inject)
  then show ?thesis by (intro any_null_begun [of ?title rs]) simp_all
next
  case False
  then have "check_types rec v s key = (case validateType rec (js_get s ''type'') v s key of
      (vs, r) \<Rightarrow> (vs, try_bind r (\<lambda>m. Inr (js_error m))))"
    by (auto simp: check_types_def split: json.split list.split)
  then show ?thesis using assms validateType_begun [OF assms(1), of "js_get s ''type''" s key]
    by (auto simp: try_bind_eq_Inr js_error_def split: prod.splits if_splits)
qed

lemma getRef_proper: "proper (getRefFromSchema ref schema)"
proof -
  have "proper current \<Longrightarrow> proper (foldl (\<lambda>current part. try_bind current (\<lambda>v. try_bind (from_language (js_in part v))
    (\<lambda>b. try_bind (js_assert b msg args) (\<lambda>_. Inr (js_member v part))))) current parts)" for current parts msg args
  proof (induction parts arbitrary: current)
    case (Cons a parts)
    show ?case unfolding foldl.simps
      by (intro Cons.IH proper_bind Cons.prems proper_from_language js_assert_proper proper_simps)
  qed simp
  then show ?thesis by (auto simp: getRefFromSchema_def split: json.split intro!: proper_bind)
qed

lemma resolve_proper: "proper (resolve_ref root s)"
  by (auto simp: resolve_ref_def intro!: proper_bind getRef_proper)

lemma validateType_proper: "proper (snd (validateType rec ty v s key))"
  by (auto simp: validateType_def split: prod.splits sum.splits thrown.splits)

lemma check_types_proper: "proper (snd (check_types rec v s key))"
proof -
  have "proper (snd (all_checks (\<lambda>ty. validateType rec ty v s key) tys))" for tys
    by (rule proper_all_checks) (rule validateType_proper)
  then have "proper (snd (case all_checks (\<lambda>ty. validateType rec ty v s key) tys of (vs, r) \<Rightarrow> (vs, try_bind r (\<lambda>rs. Inr (f rs)))))"
    for tys and f :: "string option list \<Rightarrow> string option"
    by (auto split: prod.split intro!: proper_bind simp del: all_checks.simps) (metis snd_conv)
  moreover have "proper (snd (case validateType rec ty v s key of (vs, r) \<Rightarrow> (vs, try_bind r (\<lambda>m. Inr (js_error m)))))" for ty
    using validateType_proper [of rec ty v s key] by (auto split: prod.split intro!: proper_bind)
  ultimately show ?thesis unfolding check_types_def by (auto simp del: all_checks.simps split: json.split list.split)
qed

lemma validateProperty_proper: "proper (snd (validateProperty root rec v s key))"
proof (cases "resolve_ref root s")
  case (Inl e)
  then show ?thesis using resolve_proper [of root s] by (cases e) (simp_all add: validateProperty_def)
next
  case (Inr t)
  then show ?thesis using check_types_proper [of rec v t key]
    by (cases "check_types rec v t key") (auto simp: validateProperty_def split: sum.split option.split)
qed

lemma validateProperty_begun:
  "proper_validator rec v \<Longrightarrow> snd (validateProperty root rec v s key) = Inr (Some m) \<Longrightarrow> begun m"
  using check_types_begun [of v rec]
  by (auto simp: validateProperty_def split: sum.splits option.splits prod.splits) (metis snd_conv)

lemma proper_validate: "proper (snd (validate root v s key))"
proof (induction v arbitrary: s key rule: measure_induct_rule [of size])
  case (less v)
  let ?rec = "\<lambda>v s k. validate root v s k"
  have rec: "proper_validator ?rec v" using less.IH parts_smaller by blast
  have error: "proper (snd (case p of (vs, Inl e) \<Rightarrow> (vs, Inl e)
      | (vs, Inr m) \<Rightarrow> (vs, case js_error m of None \<Rightarrow> Inr () | Some e \<Rightarrow> Inl (new_exception e []))))"
    if "proper (snd p)" "\<And>m. snd p = Inr (Some m) \<Longrightarrow> begun m" for p :: "visit list \<times> string option attempt"
  proof -
    obtain vs r where p: "p = (vs, r)" by fastforce
    show ?thesis
    proof (cases r)
      case (Inl e)
      then show ?thesis using that(1) p by (cases e) simp_all
    next
      case (Inr m)
      then show ?thesis using that(2) p by (cases m) (auto simp: js_error_def intro!: new_exception_proper)
    qed
  qed
  have all: "proper (snd (case all_checks (\<lambda>sub. validateProperty root ?rec v (f sub) key) ss of
      (vs, r) \<Rightarrow> (vs, try_bind r (\<lambda>results. Inr (any_null ''anyOf validation failed:'' results)))))" for f ss
    by (intro proper_then proper_all_checks proper_simps validateProperty_proper)
  have any: "any_null ''anyOf validation failed:'' rs = Some e \<Longrightarrow> begun e" for rs e
    by (rule any_null_begun) simp_all
  have "proper (apply_allOf s)" by (auto simp: apply_allOf_def split: json.split intro!: proper_bind)
  then have "proper (snd (validate_nested root ?rec v s key))"
  proof (cases "apply_allOf s")
    case (Inl e)
    then show ?thesis using \<open>proper (apply_allOf s)\<close> by (cases e) (simp_all add: validate_nested_def)
  next
    case (Inr t)
    show ?thesis
    proof (cases "js_in ''anyOf'' t")
      case (Inr b)
      have one: "proper (snd (validateProperty root ?rec v t key))" by (rule validateProperty_proper)
      show ?thesis
      proof (cases b)
        case False
        then show ?thesis using error [OF one validateProperty_begun [OF rec]]
          by (simp add: validate_nested_def \<open>apply_allOf s = Inr t\<close> Inr)
      next
        case True
        show ?thesis
        proof (cases "\<exists>ss. js_get t ''anyOf'' = JArr ss")
          case arr: True
          then obtain ss where ss: "js_get t ''anyOf'' = JArr ss" by blast
          obtain vs r where r: "all_checks (\<lambda>sub. validateProperty root ?rec v (deep_merge_all [t, sub]) key) ss = (vs, r)"
            by fastforce
          have "begun m" if "try_bind r (\<lambda>results. Inr (any_null ''anyOf validation failed:'' results)) = Inr (Some m)" for m
            using that any by (auto simp only: try_bind_eq_Inr sum.inject)
          then show ?thesis using True error [OF all [of "\<lambda>sub. deep_merge_all [t, sub]" ss]]
            by (simp add: validate_nested_def \<open>apply_allOf s = Inr t\<close> Inr ss r)
        next
          case False
          then show ?thesis using True
            by (auto simp: validate_nested_def \<open>apply_allOf s = Inr t\<close> Inr split: json.split)
        qed
      qed
    qed (simp add: validate_nested_def Inr)
  qed
  then show ?case by (subst validate.simps)
qed

section \<open>What the schema of schemas accepts\<close>

lemma seq_check_ok: "snd (seq_check f xs) = Inr () \<longleftrightarrow> (\<forall>x\<in>set xs. snd (f x) = Inr ())"
proof (induction xs)
  case (Cons x xs)
  then show ?case by (cases "f x"; cases "snd (f x)"; cases "seq_check f xs") auto
qed simp

lemma validateType_ok: "snd (validateType rec ty v p k) = Inr None \<longleftrightarrow> snd (type_switch rec ty v p k) = Inr ()"
  by (cases "type_switch rec ty v p k") (auto simp: validateType_def split: sum.splits thrown.splits)

lemma validateProperty_ok:
  assumes "resolve_ref root p = Inr p'" and "js_get p' ''type'' = JStr ty" and "proper_validator rec v"
  shows "snd (validateProperty root rec v p k) = Inr None \<longleftrightarrow> snd (type_switch rec (JStr ty) v p' k) = Inr ()"
proof -
  obtain vs r where r: "validateType rec (JStr ty) v p' k = (vs, r)" by fastforce
  have types: "check_types rec v p' k = (vs, try_bind r (\<lambda>m. Inr (js_error m)))"
    by (simp add: check_types_def assms(2) r)
  have "m \<noteq> []" if "r = Inr (Some m)" for m
    using validateType_begun [OF assms(3), of "JStr ty" p' k m] that by (simp add: r begun_def)
  then have "snd (validateProperty root rec v p k) = Inr None \<longleftrightarrow> r = Inr None"
    by (cases r) (auto simp: validateProperty_def assms(1) types js_error_def split: option.split)
  then show ?thesis using validateType_ok [of rec "JStr ty" v p' k] by (simp add: r)
qed

lemma js_assert_ok [simp]: "js_assert b m args = Inr () \<longleftrightarrow> b"
  by (simp add: js_assert_def)

lemma validate_proper_parts: "proper_validator (\<lambda>v s k. validate root v s k) v"
  by (simp add: proper_validate)

text \<open>Without \<open>anyOf\<close>, and without a message, the property is all that is validated.\<close>

lemma validate_no_anyOf:
  assumes "apply_allOf s = Inr t" and "js_in ''anyOf'' t = Inr False"
  shows "snd (validate root v s k) = Inr () \<longleftrightarrow> snd (validateProperty root (\<lambda>v s k. validate root v s k) v t k) = Inr None"
proof -
  let ?rec = "\<lambda>v s k. validate root v s k"
  obtain vs r where r: "validateProperty root ?rec v t k = (vs, r)" by fastforce
  have "m \<noteq> []" if "r = Inr (Some m)" for m
    using validateProperty_begun [OF validate_proper_parts [of v root], of root t k m] r that by (simp add: begun_def)
  then have "snd (validate_nested root ?rec v s k) = Inr () \<longleftrightarrow> r = Inr None"
    using r by (cases r) (auto simp: validate_nested_def assms js_error_def split: option.split)
  then show ?thesis using r by (subst validate.simps) simp
qed

text \<open>A schema that has a type and nothing to be resolved, and the references to the root.\<close>

lemma validate_plain:
  assumes "map_of ps ''allOf'' = None" "map_of ps ''anyOf'' = None" "map_of ps ''$ref'' = None"
    and "map_of ps ''type'' = Some (JStr ty)"
  shows "snd (validate root v (JObj ps) k) = Inr () \<longleftrightarrow>
    snd (type_switch (\<lambda>v s k. validate root v s k) (JStr ty) v (JObj ps) k) = Inr ()"
proof -
  let ?rec = "\<lambda>v s k. validate root v s k"
  have "resolve_ref root (JObj ps) = Inr (JObj ps)" using assms(3) by (simp add: resolve_ref_def)
  moreover have "apply_allOf (JObj ps) = Inr (JObj ps)" using assms(1) by (simp add: apply_allOf_def)
  moreover have "snd (validateProperty root ?rec v (JObj ps) k) = Inr None \<longleftrightarrow> snd (type_switch ?rec (JStr ty) v (JObj ps) k) = Inr ()"
    by (rule validateProperty_ok [OF calculation(1) _ validate_proper_parts]) (simp add: assms(4))
  moreover have "snd (validate root v (JObj ps) k) = Inr () \<longleftrightarrow> snd (validateProperty root ?rec v (JObj ps) k) = Inr None"
    by (rule validate_no_anyOf) (use assms(2) calculation in simp_all)
  ultimately show ?thesis by simp
qed

abbreviation meta_fields :: "(string \<times> json) list" where
  "meta_fields \<equiv> [(''type'', JStr ''object''), (''properties'', JObj meta_properties), (''additionalProperties'', JBool False)]"

lemma meta_merged:
  "deep_merge_all [ref_root, meta_schema] = JObj ((''$ref'', JStr ''#'') # meta_fields)"
  by code_simp

lemma meta_resolved: "resolve_ref meta_schema ref_root = Inr (JObj ((''$ref'', JStr ''#'') # meta_fields))"
  by (simp add: resolve_ref_def getRefFromSchema_def meta_merged)

lemma validate_ref_root:
  "snd (validate meta_schema v ref_root k) = Inr () \<longleftrightarrow>
   snd (check_object (\<lambda>v s k. validate meta_schema v s k) v (JObj ((''$ref'', JStr ''#'') # meta_fields)) k) = Inr ()"
proof -
  let ?rec = "\<lambda>v s k. validate meta_schema v s k" and ?p = "JObj ((''$ref'', JStr ''#'') # meta_fields)"
  have "snd (validateProperty meta_schema ?rec v ref_root k) = Inr None \<longleftrightarrow> snd (type_switch ?rec (JStr ''object'') v ?p k) = Inr ()"
    by (rule validateProperty_ok [OF meta_resolved _ validate_proper_parts]) simp
  moreover have "snd (type_switch ?rec (JStr ''object'') v ?p k) = snd (check_object ?rec v ?p k)" by (simp add: type_switch_def)
  moreover have "snd (validate meta_schema v ref_root k) = Inr () \<longleftrightarrow> snd (validateProperty meta_schema ?rec v ref_root k) = Inr None"
    by (rule validate_no_anyOf) (simp_all add: apply_allOf_def)
  ultimately show ?thesis by simp
qed

lemma additional_merged:
  "deep_merge_all [JObj [(''anyOf'', JArr [schema_of_type ''boolean'', ref_root])], schema_of_type ''boolean''] =
     JObj [(''anyOf'', JArr [schema_of_type ''boolean'', ref_root]), (''type'', JStr ''boolean'')]"
  "deep_merge_all [JObj [(''anyOf'', JArr [schema_of_type ''boolean'', ref_root])], ref_root] =
     JObj [(''anyOf'', JArr [schema_of_type ''boolean'', ref_root]), (''$ref'', JStr ''#'')]"
  "deep_merge_all [JObj [(''anyOf'', JArr [schema_of_type ''boolean'', ref_root]), (''$ref'', JStr ''#'')], meta_schema] =
     JObj ((''anyOf'', JArr [schema_of_type ''boolean'', ref_root]) # (''$ref'', JStr ''#'') # meta_fields)"
  by code_simp+

lemma check_object_meta:
  assumes "snd (check_object rec v (JObj (fs @ meta_fields)) k) = Inr ()"
    and "map_of fs ''properties'' = None" "map_of fs ''additionalProperties'' = None" "map_of fs ''required'' = None"
  shows "\<exists>ps. v = JObj ps \<and> (\<forall>(n, x)\<in>set ps. \<exists>m. map_of meta_properties n = Some m \<and> snd (rec x m (k @ [JStr n])) = Inr ())"
proof -
  let ?p = "JObj (fs @ meta_fields)"
  have p: "properties_of ?p = JObj meta_properties" "additional_of ?p = JBool False"
    using assms(2,3) by (simp_all add: properties_of_def additional_of_def truthy_def map_add_def)
  obtain ps where v: "v = JObj ps" using assms(1) isObjectE [of v] by (cases "isObject v") (auto simp: check_object_def js_assert_def)
  have r: "snd (seq_check (check_entry rec ?p k) ps) = Inr ()"
    and closed: "list_all (\<lambda>k. list_ex (\<lambda>p. p = k) (map fst meta_properties)) (map fst ps)"
    using assms(1) p by (auto simp: check_object_def v isObject_def own_entries_def Let_def try_bind_eq_Inr split: prod.splits)
  have "\<exists>m. map_of meta_properties n = Some m \<and> snd (rec x m (k @ [JStr n])) = Inr ()" if "(n, x) \<in> set ps" for n x
  proof -
    have "n \<in> fst ` set meta_properties" using closed that by (force simp: list_all_iff list_ex_iff)
    then obtain m where m: "map_of meta_properties n = Some m" by (metis map_of_None_iff not_None_eq)
    have "snd (check_entry rec ?p k (n, x)) = Inr ()" using r that by (auto simp: seq_check_ok)
    then show ?thesis using m p(1) by (auto simp: check_entry_def)
  qed
  then show ?thesis using v by blast
qed

text \<open>What a field is validated with.\<close>

lemma validate_array_ok:
  assumes "snd (validate root v (JObj [(''type'', JStr ''array''), (''items'', i)]) k) = Inr ()"
  shows "\<exists>xs. v = JArr xs \<and> (\<forall>x\<in>set xs. \<exists>k. snd (validate root x i k) = Inr ())"
proof -
  let ?p = "JObj [(''type'', JStr ''array''), (''items'', i)]"
  have c: "snd (check_array (\<lambda>v s k. validate root v s k) v ?p k) = Inr ()"
    using assms validate_plain [of "[(''type'', JStr ''array''), (''items'', i)]" "''array''" root v k]
    by (simp add: type_switch_def)
  then obtain xs where v: "v = JArr xs" by (cases v) (auto simp: check_array_def)
  have "\<exists>k. snd (validate root x i k) = Inr ()" if "x \<in> set xs" for x
  proof -
    obtain j where "j < length xs" "x = xs ! j" using \<open>x \<in> set xs\<close> by (auto simp: in_set_conv_nth)
    then have "(j, x) \<in> set (enumerate 0 xs)" by (simp add: in_set_enumerate_eq)
    then show ?thesis using c v by (auto simp: check_array_def seq_check_ok)
  qed
  then show ?thesis using v by blast
qed

lemma validate_properties_ok:
  assumes "snd (validate root v (JObj [(''type'', JStr ''object''), (''additionalProperties'', JObj a)]) k) = Inr ()"
    and "plain_names v"
  shows "\<exists>qs. v = JObj qs \<and> (\<forall>(n, x)\<in>set qs. \<exists>k. snd (validate root x (JObj a) k) = Inr ())"
proof -
  let ?p = "JObj [(''type'', JStr ''object''), (''additionalProperties'', JObj a)]"
  have p: "properties_of ?p = JObj []" "additional_of ?p = JObj a"
    by (simp_all add: properties_of_def additional_of_def truthy_def)
  have c: "snd (check_object (\<lambda>v s k. validate root v s k) v ?p k) = Inr ()"
    using assms(1) validate_plain [of "[(''type'', JStr ''object''), (''additionalProperties'', JObj a)]" "''object''" root v k]
    by (simp add: type_switch_def)
  then obtain qs where v: "v = JObj qs" using isObjectE [of v] by (cases "isObject v") (auto simp: check_object_def js_assert_def)
  have "snd (seq_check (check_entry (\<lambda>v s k. validate root v s k) ?p k) qs) = Inr ()"
    using c by (auto simp: check_object_def v isObject_def own_entries_def Let_def try_bind_eq_Inr split: prod.splits)
  then have "snd (check_entry (\<lambda>v s k. validate root v s k) ?p k (n, x)) = Inr ()" if "(n, x) \<in> set qs" for n x
    using that by (auto simp: seq_check_ok)
  moreover have "\<not> inherited n" if "(n, x) \<in> set qs" for n x
    using assms(2) that by (auto simp: v list_all_iff)
  ultimately show ?thesis using v by (fastforce simp: check_entry_def p isObject_def)
qed

lemma validate_additional_ok:
  assumes "snd (validate meta_schema v (JObj [(''anyOf'', JArr [schema_of_type ''boolean'', ref_root])]) k) = Inr ()"
  shows "(\<exists>b. v = JBool b) \<or>
    snd (check_object (\<lambda>v s k. validate meta_schema v s k) v
      (JObj ([(''anyOf'', JArr [schema_of_type ''boolean'', ref_root]), (''$ref'', JStr ''#'')] @ meta_fields)) k) = Inr ()"
proof -
  let ?rec = "\<lambda>v s k. validate meta_schema v s k" and ?any = "(''anyOf'', JArr [schema_of_type ''boolean'', ref_root])"
  let ?one = "JObj [?any, (''type'', JStr ''boolean'')]" and ?two = "JObj [?any, (''$ref'', JStr ''#'')]"
  have nested: "snd (validate_nested meta_schema ?rec v (JObj [?any]) k) = Inr ()" using assms by (subst (asm) validate.simps)
  obtain v1 r1 where r1: "validateProperty meta_schema ?rec v ?one k = (v1, r1)" by fastforce
  obtain v2 r2 where r2: "validateProperty meta_schema ?rec v ?two k = (v2, r2)" by fastforce
  have "r1 = Inr None \<or> r2 = Inr None"
    using nested by (cases r1; cases r2)
      (auto simp: validate_nested_def apply_allOf_def additional_merged(1,2) r1 r2 any_null_def js_error_def split: if_splits)
  then have "snd (validateProperty meta_schema ?rec v ?one k) = Inr None \<or> snd (validateProperty meta_schema ?rec v ?two k) = Inr None"
    by (simp only: r1 r2 snd_conv)
  moreover have "resolve_ref meta_schema ?one = Inr ?one" by (simp add: resolve_ref_def)
  then have "snd (validateProperty meta_schema ?rec v ?one k) = Inr None \<longleftrightarrow> snd (type_switch ?rec (JStr ''boolean'') v ?one k) = Inr ()"
    by (rule validateProperty_ok [OF _ _ validate_proper_parts]) simp
  moreover have "resolve_ref meta_schema ?two = Inr (JObj ([?any, (''$ref'', JStr ''#'')] @ meta_fields))"
    by (simp add: resolve_ref_def getRefFromSchema_def additional_merged(3))
  then have "snd (validateProperty meta_schema ?rec v ?two k) = Inr None \<longleftrightarrow>
      snd (type_switch ?rec (JStr ''object'') v (JObj ([?any, (''$ref'', JStr ''#'')] @ meta_fields)) k) = Inr ()"
    by (rule validateProperty_ok [OF _ _ validate_proper_parts]) simp
  ultimately show ?thesis by (auto simp: type_switch_def split: json.splits)
qed

definition accepts_meta :: "json \<Rightarrow> bool" where
  "accepts_meta v = (\<exists>k fs. map_of fs ''properties'' = None \<and> map_of fs ''additionalProperties'' = None \<and>
     map_of fs ''required'' = None \<and>
     snd (check_object (\<lambda>v s k. validate meta_schema v s k) v (JObj (fs @ meta_fields)) k) = Inr ())"

lemma accepts_metaI:
  "snd (check_object (\<lambda>v s k. validate meta_schema v s k) v (JObj (fs @ meta_fields)) k) = Inr () \<Longrightarrow>
   map_of fs ''properties'' = None \<Longrightarrow> map_of fs ''additionalProperties'' = None \<Longrightarrow> map_of fs ''required'' = None \<Longrightarrow>
   accepts_meta v"
  unfolding accepts_meta_def by blast

lemma accepts_metaD:
  assumes "accepts_meta v"
  shows "\<exists>ps. v = JObj ps \<and> (\<forall>(n, x)\<in>set ps. \<exists>m. map_of meta_properties n = Some m \<and>
    (\<exists>k. snd (validate meta_schema x m k) = Inr ()))"
proof -
  obtain k fs where fs: "map_of fs ''properties'' = None" "map_of fs ''additionalProperties'' = None" "map_of fs ''required'' = None"
    and c: "snd (check_object (\<lambda>v s k. validate meta_schema v s k) v (JObj (fs @ meta_fields)) k) = Inr ()"
    using assms unfolding accepts_meta_def by blast
  show ?thesis using check_object_meta [OF c fs] by fast
qed

lemma accepts_ref: "snd (validate meta_schema v ref_root k) = Inr () \<Longrightarrow> accepts_meta v"
  using accepts_metaI [of v "[(''$ref'', JStr ''#'')]" k] by (simp add: validate_ref_root)

lemma accepts_additional:
  "snd (validate meta_schema v (JObj [(''anyOf'', JArr [schema_of_type ''boolean'', ref_root])]) k) = Inr () \<Longrightarrow>
     (\<exists>b. v = JBool b) \<or> accepts_meta v"
  using validate_additional_ok [of v k]
    accepts_metaI [of v "[(''anyOf'', JArr [schema_of_type ''boolean'', ref_root]), (''$ref'', JStr ''#'')]" k]
  by auto

lemma accepts_wf: "accepts_meta v \<Longrightarrow> no_refs v \<Longrightarrow> plain_names v \<Longrightarrow> wf_schema v"
proof (induction v rule: measure_induct_rule [of size])
  case (less v)
  from accepts_metaD [OF less.prems(1)] obtain ps where v: "v = JObj ps"
    and all: "\<forall>(n, x)\<in>set ps. \<exists>m. map_of meta_properties n = Some m \<and> (\<exists>k. snd (validate meta_schema x m k) = Inr ())"
    by (elim exE conjE)
  have "wf_field n x" if nx: "(n, x) \<in> set ps" for n x
  proof -
    obtain m k where m: "map_of meta_properties n = Some m" and ok: "snd (validate meta_schema x m k) = Inr ()"
      using bspec [OF all nx] by auto
    have part: "size x < size v" using parts_smaller [of x v] nx v by force
    have refs: "n \<noteq> ''$ref''" "no_refs x \<and> plain_names x" using less.prems(2,3) v nx by (auto simp: list_all_iff)
    have IH: "wf_schema y" if "snd (validate meta_schema y ref_root l) = Inr ()" "no_refs y \<and> plain_names y" "size y < size v" for y l
      using less.IH [OF that(3) accepts_ref [OF that(1)]] that(2) by blast
    consider "n = ''enum'' \<or> n = ''required''" | "n = ''anyOf'' \<or> n = ''allOf''" | "n = ''properties''" | "n = ''items''"
      | "n = ''additionalProperties''"
      | "n \<notin> {''$ref'', ''enum'', ''required'', ''anyOf'', ''allOf'', ''properties'', ''items'', ''additionalProperties''}"
      using refs(1) by (simp only: insert_iff empty_iff) satx
    then show ?thesis
    proof cases
      case 1
      then have "m = JObj [(''type'', JStr ''array''), (''items'', schema_of_type ''string'')]"
        using m by (auto simp: meta_properties_def)
      then obtain xs where "x = JArr xs" using validate_array_ok ok by blast
      then show ?thesis using 1 by (auto intro: wf_list)
    next
      case 2
      then have "m = JObj [(''type'', JStr ''array''), (''items'', ref_root)]"
        using m by (auto simp: meta_properties_def)
      then obtain xs where xs: "x = JArr xs" "\<forall>y\<in>set xs. \<exists>l. snd (validate meta_schema y ref_root l) = Inr ()"
        using validate_array_ok ok by blast
      have "wf_schema y" if "y \<in> set xs" for y
        using xs that IH [of y] refs(2) part parts_smaller [of y x] by (fastforce simp: list_all_iff)
      then show ?thesis using 2 xs(1) by (auto intro: wf_schemas)
    next
      case 3
      then have m: "m = JObj [(''type'', JStr ''object''), (''additionalProperties'', ref_root)]"
        using m by (auto simp: meta_properties_def)
      from validate_properties_ok [OF ok [unfolded m] conjunct2 [OF refs(2)]]
      obtain qs where qs: "x = JObj qs" "\<forall>(n, y)\<in>set qs. \<exists>l. snd (validate meta_schema y ref_root l) = Inr ()"
        by (elim exE conjE)
      have "wf_schema y" if ay: "(a, y) \<in> set qs" for a y
      proof -
        have small: "size y < size v" using parts_smaller [of y x] qs(1) ay part by force
        have refs': "no_refs y \<and> plain_names y" using refs(2) qs(1) ay by (auto simp: list_all_iff)
        obtain l where "snd (validate meta_schema y ref_root l) = Inr ()" using bspec [OF qs(2) ay] by auto
        then show ?thesis using IH refs' small by blast
      qed
      then show ?thesis using 3 qs(1) by (auto intro: wf_properties)
    next
      case 4
      then have "m = ref_root" using m by (auto simp: meta_properties_def)
      then show ?thesis using 4 IH ok refs(2) part by (auto intro: wf_items)
    next
      case 5
      then have "m = JObj [(''anyOf'', JArr [schema_of_type ''boolean'', ref_root])]" using m by (auto simp: meta_properties_def)
      then have "(\<exists>b. x = JBool b) \<or> accepts_meta x" using accepts_additional ok by blast
      then show ?thesis using 5 less.IH [OF part] refs(2) by (auto intro: wf_items wf_additional)
    qed (rule wf_other)
  qed
  then show ?case unfolding v by (rule wf_schema)
qed

lemma to_outcome_eq_Inr: "to_outcome r = Inr x \<longleftrightarrow> r = Inr x"
  by (auto simp: to_outcome_def split: sum.split thrown.split)

text \<open>The outcomes of a validation with a well-formed schema.\<close>

lemma validate_outcomes:
  "wf_schema schema \<Longrightarrow>
   snd (schema_validate schema v) \<in> {Inr (), Inl AssertFailed, Inl (Raised ''Error''), Inl (Raised ''RangeError'')}"
  using safe_validate [of schema schema v "[]"]
  by (auto simp: schema_validate_def validateSchema_def to_outcome_def safe_def format_error_def
      split: prod.split sum.split thrown.split)

text \<open>
  C35. Accepted schemas are sound. When the constructor accepts a schema that has no references and in which no
  object has a key that \<open>Object.prototype\<close> has, validating any value with it succeeds, or raises an \<open>Exception\<close>,
  or fails with the error of formatting the message of one: it never reads a field of the wrong kind, which
  would be a \<open>TypeError\<close>.
\<close>

theorem accepted_schema_sound:
  assumes "make_schema schema = Inr schema'" and "no_refs schema" and "plain_names schema"
  shows "snd (schema_validate schema' v) \<in> {Inr (), Inl AssertFailed, Inl (Raised ''Error''), Inl (Raised ''RangeError'')}"
proof -
  have "schema' = schema" "snd (validate meta_schema schema meta_schema []) = Inr ()"
    using assms(1) by (auto simp: make_schema_def validateSchema_def outcome_bind_eq_Inr to_outcome_eq_Inr)
  then have "snd (check_object (\<lambda>v s k. validate meta_schema v s k) schema (JObj ([] @ meta_fields)) []) = Inr ()"
    using validate_plain [of meta_fields "''object''" meta_schema schema "[]"]
    by (simp add: type_switch_def meta_schema_def)
  then have "accepts_meta schema" by (rule accepts_metaI) simp_all
  then have "wf_schema schema" using accepts_wf assms(2,3) by blast
  then show ?thesis using validate_outcomes \<open>schema' = schema\<close> by blast
qed

section \<open>The type a schema denotes\<close>

text \<open>
  Plain schemas, without references and combinations. The bounds of numbers are optional, as are the schema of
  the items; the additional properties of an object are free, forbidden (\<open>Some None\<close>) or of a schema.
\<close>

datatype schema_type =
    TAny
  | TString "string list option"
  | TNumber "int option" "int option"
  | TInteger "int option" "int option"
  | TBool
  | TNull
  | TArray "schema_type option"
  | TObject "(string \<times> schema_type) list" "schema_type option option" "string list"

definition field :: "string \<Rightarrow> ('a \<Rightarrow> json) \<Rightarrow> 'a option \<Rightarrow> (string \<times> json) list" where
  "field k f x = (case x of None \<Rightarrow> [] | Some y \<Rightarrow> [(k, f y)])"

lemma field_cong [fundef_cong]:
  "x = x' \<Longrightarrow> (\<And>y. x' = Some y \<Longrightarrow> f y = g y) \<Longrightarrow> field k f x = field k g x'"
  by (cases x') (simp_all add: field_def)

fun to_schema :: "schema_type \<Rightarrow> json" where
  "to_schema TAny = JObj []"
| "to_schema (TString e) = JObj ((''type'', JStr ''string'') # field ''enum'' (\<lambda>vs. JArr (map JStr vs)) e)"
| "to_schema (TNumber lo hi) = JObj ((''type'', JStr ''number'') # field ''minimum'' JNum lo @ field ''maximum'' JNum hi)"
| "to_schema (TInteger lo hi) = JObj ((''type'', JStr ''integer'') # field ''minimum'' JNum lo @ field ''maximum'' JNum hi)"
| "to_schema TBool = JObj [(''type'', JStr ''boolean'')]"
| "to_schema TNull = JObj [(''type'', JStr ''null'')]"
| "to_schema (TArray i) = JObj ((''type'', JStr ''array'') # field ''items'' to_schema i)"
| "to_schema (TObject ps add req) =
     JObj ((''type'', JStr ''object'') # (''properties'', JObj (map (\<lambda>(k, t). (k, to_schema t)) ps)) #
       (''required'', JArr (map JStr req)) #
       field ''additionalProperties'' (\<lambda>a. case a of None \<Rightarrow> JBool False | Some t \<Rightarrow> to_schema t) add)"

definition within :: "int option \<Rightarrow> int option \<Rightarrow> json \<Rightarrow> bool" where
  "within lo hi v = ((case lo of None \<Rightarrow> True | Some n \<Rightarrow> js_le (JNum n) v) \<and> (case hi of None \<Rightarrow> True | Some n \<Rightarrow> js_le v (JNum n)))"

inductive has_type :: "json \<Rightarrow> schema_type \<Rightarrow> bool" where
  any: "has_type v TAny"
| string: "(\<And>vs. e = Some vs \<Longrightarrow> s \<in> set vs) \<Longrightarrow> has_type (JStr s) (TString e)"
| number: "is_number v \<Longrightarrow> within lo hi v \<Longrightarrow> has_type v (TNumber lo hi)"
| integer: "within lo hi (JNum n) \<Longrightarrow> has_type (JNum n) (TInteger lo hi)"
| bool: "has_type (JBool b) TBool"
| null: "has_type JNull TNull"
| array: "(\<And>x t. x \<in> set xs \<Longrightarrow> i = Some t \<Longrightarrow> has_type x t) \<Longrightarrow> has_type (JArr xs) (TArray i)"
| object: "(\<And>k v t. (k, v) \<in> set vs \<Longrightarrow> map_of ps k = Some t \<Longrightarrow> has_type v t) \<Longrightarrow>
     (\<And>k v t. (k, v) \<in> set vs \<Longrightarrow> map_of ps k = None \<Longrightarrow> add = Some (Some t) \<Longrightarrow> has_type v t) \<Longrightarrow>
     (add = Some None \<Longrightarrow> fst ` set vs \<subseteq> fst ` set ps) \<Longrightarrow> set req \<subseteq> fst ` set vs \<Longrightarrow>
     has_type (JObj vs) (TObject ps add req)"

inductive_simps has_type_simps:
  "has_type v TAny" "has_type v (TString e)" "has_type v (TNumber lo hi)" "has_type v (TInteger lo hi)" "has_type v TBool"
  "has_type v TNull" "has_type v (TArray i)" "has_type v (TObject ps add req)"

lemma map_of_field [simp]: "map_of (field k f x) j = (if j = k then map_option f x else None)"
  by (cases x) (auto simp: field_def)

lemma to_schema_wf: "wf_schema (to_schema t)"
proof (induction t)
  case (TString e)
  show ?case by (cases e) (auto simp: wf_schema_obj field_def intro: wf_other wf_list)
next
  case (TNumber lo hi)
  show ?case by (cases lo; cases hi) (auto simp: wf_schema_obj field_def intro: wf_other)
next
  case (TInteger lo hi)
  show ?case by (cases lo; cases hi) (auto simp: wf_schema_obj field_def intro: wf_other)
next
  case (TArray i)
  then show ?case by (cases i) (auto simp: wf_schema_obj field_def intro: wf_other wf_items)
next
  case (TObject ps add req)
  have "wf_field ''properties'' (JObj (map (\<lambda>(k, t). (k, to_schema t)) ps))"
    using TObject(1) by (fastforce intro: wf_properties)
  moreover have "wf_field ''additionalProperties'' (case a of None \<Rightarrow> JBool False | Some t \<Rightarrow> to_schema t)" if "add = Some a" for a
    using TObject(2) that by (cases a) (auto intro: wf_items wf_additional)
  ultimately show ?case by (cases add) (auto simp: wf_schema_obj field_def intro: wf_other wf_list)
qed (auto simp: wf_schema_obj intro: wf_other)

lemma is_object_to_schema [simp]: "isObject (to_schema t)"
  by (cases t) (simp_all add: isObject_def)

lemma to_schema_obj: "\<exists>ps. to_schema t = JObj ps"
  by (cases t) simp_all

lemma check_number_ok:
  "validationNumber v (JObj ((''type'', ty) # field ''minimum'' JNum lo @ field ''maximum'' JNum hi)) key = Inr () \<longleftrightarrow> within lo hi v"
  by (cases lo; cases hi) (simp_all add: validationNumber_def within_def map_add_def try_bind_eq_Inr)

lemma map_of_to_schema: "map_of (map (\<lambda>(k, t). (k, to_schema t)) ps) k = map_option to_schema (map_of ps k)"
  by (induction ps) auto

text \<open>The fields of the schema of an object, as the validation reads them.\<close>

lemma object_fields:
  "properties_of (to_schema (TObject ps add req)) = JObj (map (\<lambda>(k, t). (k, to_schema t)) ps)"
  "js_get (to_schema (TObject ps add req)) ''required'' = JArr (map JStr req)"
  "additional_of (to_schema (TObject ps add req)) =
     (case add of None \<Rightarrow> JBool True | Some None \<Rightarrow> JBool False | Some (Some t) \<Rightarrow> to_schema t)"
proof -
  have "(case to_schema t of JUndefined \<Rightarrow> JBool True | JNull \<Rightarrow> JBool True | v \<Rightarrow> v) = to_schema t" for t
    by (cases t) simp_all
  then show "additional_of (to_schema (TObject ps add req)) =
     (case add of None \<Rightarrow> JBool True | Some None \<Rightarrow> JBool False | Some (Some t) \<Rightarrow> to_schema t)"
    by (auto simp: additional_of_def split: option.split)
qed (simp_all add: properties_of_def truthy_def)

lemma to_schema_not_bool [simp]: "to_schema t \<noteq> JBool b"
  by (cases t) simp_all

lemma check_object_type:
  assumes IH: "\<And>k v t l. (k, v) \<in> set vs \<Longrightarrow> snd (rec v (to_schema t) l) = Inr () \<longleftrightarrow> has_type v t"
    and plain: "plain_names (JObj vs)"
  shows "snd (check_object rec (JObj vs) (to_schema (TObject ps add req)) l) = Inr () \<longleftrightarrow>
    has_type (JObj vs) (TObject ps add req)"
proof -
  let ?s = "to_schema (TObject ps add req)"
  have entry: "snd (check_entry rec ?s l (k, v)) = Inr () \<longleftrightarrow>
      (\<forall>t. map_of ps k = Some t \<longrightarrow> has_type v t) \<and> (\<forall>t. map_of ps k = None \<and> add = Some (Some t) \<longrightarrow> has_type v t)"
    if "(k, v) \<in> set vs" for k v
  proof -
    have "\<not> inherited k" using plain that by (auto simp: list_all_iff)
    then show ?thesis using IH [OF that] unfolding check_entry_def object_fields
      by (cases "map_of ps k"; cases add; cases "the add") (simp_all add: map_of_to_schema, simp_all add: isObject_def)
  qed
  have req: "check_required (JArr (map JStr req)) keys l = Inr () \<longleftrightarrow> set req \<subseteq> set keys" for keys
    by (auto simp: check_required_def truthy_def list_all_iff list_ex_iff)
  have closed: "(additional_of ?s = JBool False \<longrightarrow>
      list_all (\<lambda>k. list_ex (\<lambda>p. p = k) (map fst (own_entries (properties_of ?s)))) (map fst vs)) \<longleftrightarrow>
      (add = Some None \<longrightarrow> fst ` set vs \<subseteq> fst ` set ps)"
    unfolding object_fields
    by (cases add; cases "the add") (auto simp: own_entries_def list_all_iff list_ex_iff image_iff, force+)
  have "snd (check_object rec (JObj vs) ?s l) = Inr () \<longleftrightarrow>
      (\<forall>p\<in>set vs. snd (check_entry rec ?s l p) = Inr ()) \<and> set req \<subseteq> fst ` set vs \<and>
      (add = Some None \<longrightarrow> fst ` set vs \<subseteq> fst ` set ps)"
    using seq_check_ok [of "check_entry rec ?s l" vs] req [of "map fst vs"] closed
    by (auto simp: check_object_def isObject_def own_entries_def object_fields(2) Let_def try_bind_eq_Inr split: prod.splits)
  also have "\<dots> \<longleftrightarrow> has_type (JObj vs) (TObject ps add req)"
    using entry unfolding has_type_simps(8) by fastforce
  finally show ?thesis .
qed

lemma check_array_type:
  assumes IH: "\<And>x t l. x \<in> set xs \<Longrightarrow> snd (rec x (to_schema t) l) = Inr () \<longleftrightarrow> has_type x t"
  shows "snd (check_array rec (JArr xs) (to_schema (TArray i)) l) = Inr () \<longleftrightarrow> has_type (JArr xs) (TArray i)"
proof (cases i)
  case None
  then show ?thesis by (simp add: check_array_def has_type_simps(7))
next
  case (Some t)
  have "snd (check_array rec (JArr xs) (to_schema (TArray i)) l) = Inr () \<longleftrightarrow>
      (\<forall>p\<in>set (enumerate 0 xs). snd (rec (snd p) (to_schema t) (l @ [JNum (int (fst p))])) = Inr ())"
    using Some by (simp add: check_array_def seq_check_ok field_def case_prod_beta)
  also have "\<dots> \<longleftrightarrow> (\<forall>p\<in>set (enumerate 0 xs). has_type (snd p) t)"
    by (rule ball_cong [OF refl IH]) (auto simp: in_set_enumerate_eq)
  also have "\<dots> \<longleftrightarrow> (\<forall>x\<in>snd ` set (enumerate 0 xs). has_type x t)" by simp
  also have "snd ` set (enumerate 0 xs) = set xs" by (metis list.set_map map_snd_enumerate)
  finally show ?thesis using Some by (simp add: has_type_simps(7) Ball_def)
qed

lemma type_switch_type:
  assumes IH: "\<And>x t l. x \<in> set (parts_of v) \<Longrightarrow> snd (rec x (to_schema t) l) = Inr () \<longleftrightarrow> has_type x t"
    and "js_get (to_schema t) ''type'' = JStr ty" and plain: "plain_names v"
  shows "snd (type_switch rec (JStr ty) v (to_schema t) l) = Inr () \<longleftrightarrow> has_type v t"
proof (cases t)
  case (TString e)
  then show ?thesis using assms(2)
    by (cases v; cases e) (auto simp: type_switch_def check_string_def field_def has_type_simps js_includes_def is_primitive_def try_bind_eq_Inr)
next
  case (TNumber lo hi)
  then show ?thesis using assms(2) by (auto simp: type_switch_def has_type_simps check_number_ok try_bind_eq_Inr)
next
  case (TInteger lo hi)
  then show ?thesis using assms(2)
    by (cases v) (auto simp: type_switch_def has_type_simps check_number_ok try_bind_eq_Inr is_integer_def)
next
  case TBool
  then show ?thesis using assms(2) by (cases v) (auto simp: type_switch_def has_type_simps)
next
  case TNull
  then show ?thesis using assms(2) by (cases v) (auto simp: type_switch_def has_type_simps)
next
  case (TArray i)
  have ty: "ty = ''array''" using assms(2) TArray by simp
  show ?thesis
  proof (cases v)
    case (JArr xs)
    then show ?thesis using check_array_type [of xs rec i l] IH TArray ty by (simp add: type_switch_def del: to_schema.simps)
  qed (simp_all add: type_switch_def check_array_def TArray ty has_type_simps)
next
  case (TObject ps add req)
  have ty: "ty = ''object''" using assms(2) TObject by simp
  show ?thesis
  proof (cases v)
    case (JObj vs)
    have "snd (rec x (to_schema t) l) = Inr () \<longleftrightarrow> has_type x t" if "(k, x) \<in> set vs" for k x t l
      using IH [of x t l] that JObj by force
    then show ?thesis using check_object_type [of vs rec ps add req l] TObject ty JObj plain
      by (simp add: type_switch_def del: to_schema.simps)
  qed (simp_all add: type_switch_def check_object_def isObject_def js_assert_def TObject ty has_type_simps)
qed (use assms(2) in simp)

lemma plain_parts: "plain_names v \<Longrightarrow> x \<in> set (parts_of v) \<Longrightarrow> plain_names x"
  by (cases v) (auto simp: list_all_iff)

lemma validate_type: "plain_names v \<Longrightarrow> snd (validate root v (to_schema t) k) = Inr () \<longleftrightarrow> has_type v t"
proof (induction v arbitrary: t k rule: measure_induct_rule [of size])
  case (less v)
  show ?case
  proof (cases "t = TAny")
    case True
    have "check_types rec v (JObj []) k = ([], Inr None)" for rec
      by (simp add: check_types_def validateType_def type_switch_def js_error_def)
    then have "snd (validate_nested root (\<lambda>v s k. validate root v s k) v (JObj []) k) = Inr ()"
      by (simp add: validate_nested_def apply_allOf_def validateProperty_def resolve_ref_def js_error_def)
    then have "snd (validate root v (JObj []) k) = Inr ()" by (subst validate.simps)
    then show ?thesis using True by (simp add: has_type_simps)
  next
    case False
    obtain ps where ps: "to_schema t = JObj ps" using to_schema_obj by blast
    have fs: "map_of ps ''allOf'' = None" "map_of ps ''anyOf'' = None" "map_of ps ''$ref'' = None"
      using ps by (cases t; auto simp: map_add_def split: option.split)+
    obtain ty where ty: "map_of ps ''type'' = Some (JStr ty)" using ps False by (cases t) auto
    then have "js_get (to_schema t) ''type'' = JStr ty" by (simp add: ps)
    then show ?thesis
      using validate_plain [OF fs ty, of root v k] type_switch_type [of v "\<lambda>v s k. validate root v s k" t ty k]
        less.IH parts_smaller plain_parts [OF less.prems] less.prems unfolding ps by blast
  qed
qed

text \<open>
  C36. The type of a schema. For values in which no object has a key that \<open>Object.prototype\<close> has, validation with a
  plain schema decides whether the value has the type that the schema denotes: it succeeds on the values of the
  type, and throws on all others, an \<open>Exception\<close> or the error of formatting its message.
\<close>

theorem validate_decides_type:
  assumes "plain_names v"
  shows "if has_type v t then snd (schema_validate (to_schema t) v) = Inr ()
    else snd (schema_validate (to_schema t) v) \<in> {Inl AssertFailed, Inl (Raised ''Error''), Inl (Raised ''RangeError'')}"
proof -
  have "snd (schema_validate (to_schema t) v) = Inr () \<longleftrightarrow> has_type v t"
    using assms by (simp add: schema_validate_def validateSchema_def validate_type to_outcome_eq_Inr case_prod_beta)
  then show ?thesis using validate_outcomes [OF to_schema_wf, of t v] by auto
qed

section \<open>Where references go wrong\<close>

definition defs_schema :: "json \<Rightarrow> json" where
  "defs_schema d = JObj [(''$ref'', JStr ''#/$defs/a''), (''$defs'', JObj [(''a'', d)])]"

text \<open>The definitions under \<open>$defs\<close> are not checked: the constructor accepts what makes the validation fail.\<close>

lemma defs_unchecked:
  "is_ok (make_schema (defs_schema (JObj [(''type'', JStr ''string''), (''enum'', JNum 5)]))) \<and>
   snd (schema_validate (defs_schema (JObj [(''type'', JStr ''string''), (''enum'', JNum 5)])) (JStr ''x'')) = Inl TypeErr"
  by code_simp

text \<open>Combinations of a schema that is referred to are not evaluated: a number passes for a string.\<close>

lemma ref_ignores_anyOf:
  "snd (schema_validate (defs_schema (JObj [(''anyOf'', JArr [JObj [(''type'', JStr ''string'')]])])) (JNum 1)) = Inr ()"
  by code_simp

section \<open>Where names and messages go wrong\<close>

text \<open>
  A schema for a property \<open>constructor\<close> is not checked, and the validation reads it. A value of that name is not
  checked either.
\<close>

lemma constructor_unchecked:
  "let schema = JObj [(''type'', JStr ''object''), (''properties'', JObj [(''constructor'', JNum 5)])]
   in is_ok (make_schema schema) \<and> snd (schema_validate schema (JObj [(''constructor'', JNum 1)])) = Inl TypeErr"
  "let schema = JObj [(''type'', JStr ''object''), (''additionalProperties'', JObj [(''type'', JStr ''string'')])]
   in snd (schema_validate schema (JObj [(''name'', JNum 5)])) = Inl AssertFailed \<and>
     snd (schema_validate schema (JObj [(''constructor'', JNum 5)])) = Inr ()"
  by code_simp+

text \<open>An object in place of a text: its dump is taken for a placeholder, also where an alternative would fit.\<close>

lemma dump_is_formatted_again:
  "snd (schema_validate (JObj [(''type'', JStr ''string'')]) (JArr [JNum 1])) = Inl AssertFailed \<and>
   snd (schema_validate (JObj [(''type'', JStr ''string'')]) (JObj [(''a'', JNum 1)])) = Inl (Raised ''Error'')"
  "let one = JObj [(''type'', JStr ''object''), (''properties'', JObj [(''a'', JObj [(''type'', JStr ''string'')])])];
       schema = JObj [(''anyOf'', JArr [one, JObj [(''type'', JStr ''object'')]])]
   in snd (schema_validate schema (JObj [(''a'', JNum 1)])) = Inr () \<and>
     snd (schema_validate schema (JObj [(''a'', JObj [(''b'', JNum 1)])])) = Inl (Raised ''Error'')"
  by code_simp+

section \<open>Instances of the properties\<close>

theorem accepted_schema_sound_witness:
  "snd (schema_validate (JObj [(''type'', JStr ''array''), (''items'', JObj [(''type'', JStr ''string'')])]) (JArr [JNum 1]))
     \<in> {Inr (), Inl AssertFailed, Inl (Raised ''Error''), Inl (Raised ''RangeError'')}"
proof (rule accepted_schema_sound)
  show "make_schema (JObj [(''type'', JStr ''array''), (''items'', JObj [(''type'', JStr ''string'')])]) =
      Inr (JObj [(''type'', JStr ''array''), (''items'', JObj [(''type'', JStr ''string'')])])"
    by code_simp
  show "no_refs (JObj [(''type'', JStr ''array''), (''items'', JObj [(''type'', JStr ''string'')])])" by simp
  show "plain_names (JObj [(''type'', JStr ''array''), (''items'', JObj [(''type'', JStr ''string'')])])" by simp
qed

theorem validate_decides_type_witness:
  "snd (schema_validate (to_schema (TArray (Some (TString None)))) (JArr [JStr ''a''])) = Inr ()"
proof -
  have "plain_names (JArr [JStr ''a''])" "has_type (JArr [JStr ''a'']) (TArray (Some (TString None)))"
    by (simp_all add: has_type_simps)
  then show ?thesis using validate_decides_type [of "JArr [JStr ''a'']" "TArray (Some (TString None))"] by simp
qed

end
