(* ===== verification/Validation_Props.thy ===== *)
theory Validation_Props
  imports Validation
begin

text \<open>
  The report of a validation is made key by key: what is reported for a key are the checks of its own rule that
  its value fails, in order (\<open>validation_report\<close>). Constraints written as text are read back (\<open>constraints_roundtrip\<close>).
\<close>

section \<open>Checks\<close>

text \<open>Whether a value passes a check, and what is reported when not.\<close>

definition passes :: "bool \<Rightarrow> cast_value \<Rightarrow> json \<Rightarrow> installed \<Rightarrow> bool outcome" where
  "passes singleValue v vals c =
     (case c of
        INone \<Rightarrow> Inr True
      | IValues args \<Rightarrow> Inr (\<exists>a\<in>set args. strict_eq a v)
      | IMinLength n \<Rightarrow> length_at_least v n
      | IMinNumber n \<Rightarrow> Inr (case v of Numeric x \<Rightarrow> num_le n x | _ \<Rightarrow> False)
      | IEmail \<Rightarrow> Inr (is_email (cast_string v))
      | ISame k \<Rightarrow> Inr (singleValue \<or> strict_eq v (Raw (js_get vals k))))"

fun failure_of :: "installed \<Rightarrow> failure" where
  "failure_of (IValues args) = FValues"
| "failure_of (IMinLength n) = FMin"
| "failure_of (IMinNumber n) = FMin"
| "failure_of IEmail = FEmail"
| "failure_of _ = FSame"

fun failed_checks :: "bool \<Rightarrow> cast_value \<Rightarrow> json \<Rightarrow> installed list \<Rightarrow> failure list outcome" where
  "failed_checks singleValue v vals [] = Inr []"
| "failed_checks singleValue v vals (c # cs) =
     outcome_bind (passes singleValue v vals c)
       (\<lambda>b. outcome_bind (failed_checks singleValue v vals cs)
          (\<lambda>fs. Inr (if b then fs else failure_of c # fs)))"

text \<open>What is reported for a key.\<close>

definition key_report :: "bool \<Rightarrow> v_options \<Rightarrow> json \<Rightarrow> string \<Rightarrow> rule \<Rightarrow> failure list outcome" where
  "key_report singleValue opts vals key rule =
     outcome_bind (js_in key vals)
       (\<lambda>present.
          if (ru_mandatory rule \<or> vo_allMandatory opts) \<and> \<not> (present \<and> vo_valueExists opts key (js_member vals key))
          then Inr [FMandatory]
          else if \<not> present then Inr []
          else (case cast_value (ru_type rule) (js_member vals key) of
                  Inl f \<Rightarrow> Inr [f]
                | Inr v \<Rightarrow> if v = Raw JUndefined then Inr [] else failed_checks singleValue v vals (ru_checks rule)))"

text \<open>A report with the failures of one key, where a key without failures is not in the report.\<close>

definition extend :: "string \<Rightarrow> failure list \<Rightarrow> result \<Rightarrow> result" where
  "extend key fs r = fold (add_failure key) fs r"

lemma extend_simps [simp]: "extend key [] r = r" "extend key (f # fs) r = extend key fs (add_failure key f r)"
  by (simp_all add: extend_def)

lemma extend_present:
  "key \<notin> fst ` set r \<Longrightarrow> extend key fs (r @ [(key, gs)]) = r @ [(key, gs @ fs)]"
proof (induction fs arbitrary: gs)
  case (Cons f fs)
  have "AList.update key (gs @ [f]) (r @ [(key, gs)]) = r @ [(key, gs @ [f])]"
    using Cons.prems by (induction r) auto
  then show ?case using Cons map_of_insert_mid [of key r gs "[]"] by (simp add: add_failure_def)
qed simp

lemma extend_fresh:
  "key \<notin> fst ` set r \<Longrightarrow> extend key fs r = r @ (if fs = [] then [] else [(key, fs)])"
proof (cases fs)
  case (Cons f gs)
  assume "key \<notin> fst ` set r"
  moreover from this have "add_failure key f r = r @ [(key, [f])]"
    using map_of_None_iff [of r key] by (simp add: add_failure_def update_fresh)
  ultimately show ?thesis using extend_present [of key r gs "[f]"] Cons by simp
qed simp

lemma run_check_passes:
  "run_check singleValue key v vals c r =
     outcome_bind (passes singleValue v vals c) (\<lambda>b. Inr (if b then r else add_failure key (failure_of c) r))"
  by (cases c) (auto simp: run_check_def passes_def check_def list_ex_iff outcome_bind_def split: sum.splits)

lemma run_checks_failed:
  "run_checks singleValue key v vals cs r =
     outcome_bind (failed_checks singleValue v vals cs) (\<lambda>fs. Inr (extend key fs r))"
proof (induction cs arbitrary: r)
  case (Cons c cs)
  show ?case
    by (cases "passes singleValue v vals c"; cases "failed_checks singleValue v vals cs")
      (auto simp: run_check_passes Cons.IH)
qed simp

lemma validate_key_report:
  assumes "is_typeof_object vals"
  shows "validate_key singleValue opts vals (key, rule) r =
    outcome_bind (key_report singleValue opts vals key rule) (\<lambda>fs. Inr (extend key fs r))"
proof (cases "js_in key vals")
  case (Inr b)
  have undef: "cast_value ty v = Inr (Raw w) \<longleftrightarrow> ty = TyString \<and> w = v" for ty v w
    by (cases ty) (auto simp: cast_value_def split: option.split)
  show ?thesis
  proof (cases "cast_value (ru_type rule) (js_member vals key)")
    case (Inr v)
    then show ?thesis using \<open>js_in key vals = Inr b\<close>
      by (cases "v = Raw JUndefined")
        (auto simp: validate_key_def key_report_def run_checks_failed split: cast_value.split json.split)
  qed (use Inr in \<open>auto simp: validate_key_def key_report_def\<close>)
next
  case (Inl e)
  then show ?thesis by (simp add: validate_key_def key_report_def)
qed

section \<open>The report\<close>

lemma validate_keys_report:
  assumes "is_typeof_object vals"
  shows "distinct (map fst schema) \<Longrightarrow> fst ` set r \<inter> fst ` set schema = {} \<Longrightarrow>
    validate_keys singleValue opts vals schema r =
      outcome_bind (outcome_map (\<lambda>(key, rule). outcome_bind (key_report singleValue opts vals key rule) (\<lambda>fs. Inr (key, fs))) schema)
        (\<lambda>reports. Inr (r @ filter (\<lambda>(key, fs). fs \<noteq> []) reports))"
proof (induction schema arbitrary: r)
  case (Cons x schema)
  obtain key rule where x: "x = (key, rule)" by (cases x)
  show ?case
  proof (cases "key_report singleValue opts vals key rule")
    case (Inl e)
    then show ?thesis by (simp add: x validate_key_report [OF assms])
  next
    case (Inr fs)
    let ?r = "r @ (if fs = [] then [] else [(key, fs)])"
    have "extend key fs r = ?r" using Cons.prems(2) x by (intro extend_fresh) auto
    moreover have "fst ` set ?r \<inter> fst ` set schema = {}" "distinct (map fst schema)" using Cons.prems x by auto
    note IH = Cons.IH [OF this(2) this(1)]
    ultimately show ?thesis using Inr IH
      by (cases "outcome_map (\<lambda>(key, rule). outcome_bind (key_report singleValue opts vals key rule) (\<lambda>fs. Inr (key, fs))) schema")
        (auto simp: x validate_key_report [OF assms])
  qed
qed simp

lemma check_all_report:
  assumes "distinct ks" and "fst ` set r \<subseteq> fst ` set schema" and "set js \<inter> set ks = {}"
  shows "fold (\<lambda>key. check key (map_of schema key \<noteq> None) FMissing) ks (r @ map (\<lambda>k. (k, [FMissing])) js) =
    r @ map (\<lambda>k. (k, [FMissing])) (js @ filter (\<lambda>k. map_of schema k = None) ks)"
  using assms
proof (induction ks arbitrary: js)
  case (Cons k ks)
  show ?case
  proof (cases "map_of schema k = None")
    case True
    then have "k \<notin> fst ` set (r @ map (\<lambda>k. (k, [FMissing])) js)"
      using Cons.prems map_of_None_iff [of schema k] by auto
    then have "check k False FMissing (r @ map (\<lambda>k. (k, [FMissing])) js) = r @ map (\<lambda>k. (k, [FMissing])) (js @ [k])"
      using extend_fresh [of k "r @ map (\<lambda>k. (k, [FMissing])) js" "[FMissing]"] by (simp add: check_def)
    then show ?thesis using True Cons.IH [of "js @ [k]"] Cons.prems by simp
  next
    case False
    then show ?thesis using Cons.IH [of js] Cons.prems by (simp add: check_def)
  qed
qed simp

text \<open>
  The report of a validation. For a dictionary and a schema without repeated keys, the report lists, in the
  order of the schema, each key with exactly the checks of its own rule that its value fails, leaving out the keys
  without a failure, and with the option \<open>all\<close> then the keys of the values that the schema does not have; the
  checks of one key never change what is reported for another.
\<close>

lemma validation_report:
  assumes "distinct (map fst (va_schema V))" and "wf_map ps" and "\<not> va_singleValue V"
  shows "validate_result opts V (JObj ps) =
    outcome_bind
      (outcome_map (\<lambda>(key, rule). outcome_bind (key_report False opts (JObj ps) key rule) (\<lambda>fs. Inr (key, fs))) (va_schema V))
      (\<lambda>reports. Inr (filter (\<lambda>(key, fs). fs \<noteq> []) reports @
         (if vo_all opts then map (\<lambda>k. (k, [FMissing])) (filter (\<lambda>k. map_of (va_schema V) k = None) (map fst ps)) else [])))"
proof -
  let ?reports = "outcome_map (\<lambda>(key, rule). outcome_bind (key_report False opts (JObj ps) key rule) (\<lambda>fs. Inr (key, fs))) (va_schema V)"
  have keys: "validate_keys False opts (JObj ps) (va_schema V) [] =
      outcome_bind ?reports (\<lambda>reports. Inr (filter (\<lambda>(key, fs). fs \<noteq> []) reports))"
    using validate_keys_report [of "JObj ps" "va_schema V" "[]" False opts] assms(1) by (simp add: is_typeof_object_def)
  have start: "validate_result opts V (JObj ps) =
      outcome_bind (validate_keys False opts (JObj ps) (va_schema V) []) (\<lambda>r. Inr (check_all opts (va_schema V) (JObj ps) r))"
    using assms(3) by (simp add: validate_result_def is_typeof_object_def Let_def)
  show ?thesis
  proof (cases ?reports)
    case (Inl e)
    then show ?thesis by (simp add: start keys)
  next
    case (Inr reports)
    have "list_all2 (\<lambda>x y. fst x = fst y) (va_schema V) reports"
      using Inr by (auto simp: outcome_map_eq_Inr outcome_bind_eq_Inr elim!: list_all2_mono)
    then have "map fst reports = map fst (va_schema V)" by (induction rule: list_all2_induct) auto
    then have "fst ` set (filter (\<lambda>(key, fs). fs \<noteq> []) reports) \<subseteq> fst ` set (va_schema V)"
      by (metis (no_types, lifting) filter_is_subset image_mono list.set_map)
    then have "check_all opts (va_schema V) (JObj ps) (filter (\<lambda>(key, fs). fs \<noteq> []) reports) =
        filter (\<lambda>(key, fs). fs \<noteq> []) reports @
        (if vo_all opts then map (\<lambda>k. (k, [FMissing])) (filter (\<lambda>k. map_of (va_schema V) k = None) (map fst ps)) else [])"
      using check_all_report [of "map fst ps" "filter (\<lambda>(key, fs). fs \<noteq> []) reports" "va_schema V" "[]"] assms(2)
      by (simp add: check_all_def own_entries_def)
    then show ?thesis using Inr by (simp add: start keys)
  qed
qed

section \<open>Constraints as text\<close>

fun vtype_name :: "vtype \<Rightarrow> string" where
  "vtype_name TyString = ''string''"
| "vtype_name TyInteger = ''integer''"
| "vtype_name TyFloat = ''float''"
| "vtype_name TyBoolean = ''boolean''"

fun constraint_name :: "constraint \<Rightarrow> string" where
  "constraint_name CMandatory = ''mandatory''"
| "constraint_name (CValues args) = ''values''"
| "constraint_name (CMin a) = ''min''"
| "constraint_name CEmail = ''email''"
| "constraint_name (CType ty) = ''type''"
| "constraint_name (CSame a) = ''same''"

fun constraint_args :: "constraint \<Rightarrow> string list" where
  "constraint_args CMandatory = []"
| "constraint_args (CValues args) = args"
| "constraint_args (CMin a) = [a]"
| "constraint_args CEmail = []"
| "constraint_args (CType ty) = [vtype_name ty]"
| "constraint_args (CSame a) = [a]"

definition constraint_text :: "constraint \<Rightarrow> string" where
  "constraint_text c =
     constraint_name c @ (if constraint_args c = [] then [] else ''('' @ join_with '','' (constraint_args c) @ '')'')"

text \<open>Arguments that can be written: not empty, on one line, without commas and spaces.\<close>

definition writable :: "constraint \<Rightarrow> bool" where
  "writable c =
     ((\<forall>a\<in>set (constraint_args c). a \<noteq> [] \<and> list_all (\<lambda>x. rx_dot x \<and> x \<noteq> CHR '','' \<and> x \<noteq> CHR '' '') a) \<and>
      (\<forall>args. c = CValues args \<longrightarrow> args \<noteq> []))"

lemma make_constraint_args: "writable c \<Longrightarrow> make_constraint (constraint_name c) (constraint_args c) = Inr c"
proof (cases c)
  case (CType ty)
  then show ?thesis by (cases ty) (simp_all add: make_constraint_def vtype_of_def)
qed (simp_all add: make_constraint_def writable_def)

lemma constraint_name_chars: "list_all is_name_char (constraint_name c) \<and> constraint_name c \<noteq> []"
  by (cases c) (simp_all add: is_name_char_def)

lemma join_chars: "list_all P sep \<Longrightarrow> (\<forall>a\<in>set args. list_all P a) \<Longrightarrow> list_all P (join_with sep args)"
  by (induction sep args rule: join_with.induct) auto

lemma match_brackets_text:
  assumes "list_all rx_dot t"
  shows "match_brackets (''('' @ t @ '')'') = Some t"
proof -
  have "takeWhile rx_dot (t @ '')'') = t @ '')''" using assms by (simp add: takeWhile_eq_all_conv list_all_iff rx_dot_def)
  then show ?thesis by (simp add: match_brackets_def)
qed

lemma match_constraint_text:
  assumes "list_all is_name_char name" and "name \<noteq> []" and "rest = [] \<or> \<not> is_name_char (hd rest)"
  shows "match_constraint (name @ rest) = Some (name, match_brackets rest)"
proof -
  have "dropWhile (\<lambda>c. \<not> is_name_char c) (name @ rest) = name @ rest" using assms(1,2) by (cases name) auto
  moreover have "takeWhile is_name_char (name @ rest) = name" "dropWhile is_name_char (name @ rest) = rest"
    using assms(1,3) by (cases rest; simp add: list_all_iff takeWhile_append dropWhile_append)+
  ultimately show ?thesis using assms(2) by (simp add: match_constraint_def)
qed

lemma parse_constraint_text:
  assumes "writable c"
  shows "parse_constraint (constraint_text c) = Inr c"
proof (cases "constraint_args c = []")
  case True
  have "match_constraint (constraint_name c @ []) = Some (constraint_name c, match_brackets [])"
    using constraint_name_chars [of c] by (intro match_constraint_text) auto
  then show ?thesis using make_constraint_args [OF assms] True
    by (simp add: parse_constraint_def constraint_text_def match_brackets_def)
next
  case False
  let ?t = "join_with '','' (constraint_args c)"
  have args: "\<forall>a\<in>set (constraint_args c). a \<noteq> [] \<and> CHR '','' \<notin> set a \<and> list_all rx_dot a"
    using assms by (auto simp: writable_def list_all_iff)
  have "list_all rx_dot ?t" using args by (intro join_chars) (auto simp: rx_dot_def)
  then have brackets: "match_brackets (''('' @ ?t @ '')'') = Some ?t" by (rule match_brackets_text)
  have "match_constraint (constraint_name c @ ''('' @ ?t @ '')'') = Some (constraint_name c, match_brackets (''('' @ ?t @ '')''))"
    using constraint_name_chars [of c] by (intro match_constraint_text) (auto simp: is_name_char_def)
  moreover have "split_on (CHR '','') ?t = constraint_args c" using args False by (intro split_on_join) auto
  moreover have "filter (\<lambda>arg. arg \<noteq> []) (constraint_args c) = constraint_args c" using args by (simp add: filter_id_conv)
  ultimately show ?thesis using make_constraint_args [OF assms] False brackets
    by (simp add: parse_constraint_def constraint_text_def)
qed

lemma constraint_text_no_space: "writable c \<Longrightarrow> CHR '' '' \<notin> set (constraint_text c) \<and> constraint_text c \<noteq> []"
proof -
  assume w: "writable c"
  have "list_all (\<lambda>x. x \<noteq> CHR '' '') (join_with '','' (constraint_args c))"
    using w by (intro join_chars) (auto simp: writable_def list_all_iff)
  moreover have "CHR '' '' \<notin> set (constraint_name c)"
    using constraint_name_chars [of c] by (auto simp: list_all_iff is_name_char_def)
  ultimately show ?thesis using constraint_name_chars [of c] by (auto simp: constraint_text_def list_all_iff)
qed

text \<open>Constraints that are written and read are the same.\<close>

lemma constraints_roundtrip:
  assumes "\<forall>c\<in>set cs. writable c"
  shows "parse_constraints (join_with '' '' (map constraint_text cs)) = Inr cs"
proof (cases "cs = []")
  case False
  have "split_on (CHR '' '') (join_with '' '' (map constraint_text cs)) = map constraint_text cs"
    using assms constraint_text_no_space False by (intro split_on_join) auto
  moreover have "filter (\<lambda>c. c \<noteq> []) (map constraint_text cs) = map constraint_text cs"
    using assms constraint_text_no_space by (simp add: filter_id_conv)
  moreover have "outcome_map parse_constraint (map constraint_text cs) = Inr cs"
    using assms by (induction cs) (auto simp: parse_constraint_text)
  ultimately show ?thesis by (simp add: parse_constraints_def)
qed (simp add: parse_constraints_def)

section \<open>Where the code departs from its purpose\<close>

text \<open>The point of the pattern of a float is any character.\<close>

lemma float_any_character: "getFloat (JStr ''1x5'') = Some (1, 1)"
  by code_simp

text \<open>A converted value is compared with the other value as it was given: two equal texts of numbers differ.\<close>

definition any_options :: v_options where
  "any_options = \<lparr>vo_valueExists = (\<lambda>k v. v \<noteq> JUndefined), vo_all = False, vo_allMandatory = False\<rparr>"

lemma same_after_conversion:
  "outcome_bind (new_validation [(''a'', JStr ''type(integer)''), (''b'', JStr ''type(integer) same(a)'')])
     (\<lambda>V. validate_result any_options V (JObj [(''a'', JStr ''5''), (''b'', JStr ''5'')])) = Inr [(''b'', [FSame])]"
  by code_simp

text \<open>An argument that contains a space is not read, although it has brackets.\<close>

lemma space_in_argument: "parse_constraints ''values(a b)'' = Inl AssertFailed"
  by code_simp

section \<open>Instances of the properties\<close>

theorem validation_report_witness:
  "\<exists>V. new_validation [(''a'', JStr ''mandatory''), (''b'', JStr ''type(integer) min(3) values(1,7)'')] = Inr V \<and>
     validate_result any_options V (JObj [(''b'', JStr ''2'')]) = Inr [(''a'', [FMandatory]), (''b'', [FMin, FValues])]"
proof -
  define V where "V = \<lparr>va_singleValue = False, va_schema =
    [(''a'', \<lparr>ru_mandatory = True, ru_type = TyString, ru_checks = [INone]\<rparr>),
     (''b'', \<lparr>ru_mandatory = False, ru_type = TyInteger,
        ru_checks = [INone, IMinNumber (3, 1), IValues [Numeric (1, 1), Numeric (7, 1)]]\<rparr>)]\<rparr>"
  have new: "new_validation [(''a'', JStr ''mandatory''), (''b'', JStr ''type(integer) min(3) values(1,7)'')] = Inr V"
    unfolding V_def by code_simp
  have "distinct (map fst (va_schema V))" "wf_map [(''b'', JStr ''2'')]" "\<not> va_singleValue V" by (simp_all add: V_def)
  note report = validation_report [OF this, of any_options]
  have "key_report False any_options (JObj [(''b'', JStr ''2'')]) ''a'' \<lparr>ru_mandatory = True, ru_type = TyString, ru_checks = [INone]\<rparr> =
      Inr [FMandatory]" by code_simp
  moreover have "key_report False any_options (JObj [(''b'', JStr ''2'')]) ''b'' \<lparr>ru_mandatory = False, ru_type = TyInteger,
      ru_checks = [INone, IMinNumber (3, 1), IValues [Numeric (1, 1), Numeric (7, 1)]]\<rparr> = Inr [FMin, FValues]" by code_simp
  moreover have "\<not> vo_all any_options" by (simp add: any_options_def)
  ultimately have "validate_result any_options V (JObj [(''b'', JStr ''2'')]) = Inr [(''a'', [FMandatory]), (''b'', [FMin, FValues])]"
    using report by (simp add: V_def)
  with new show ?thesis by blast
qed

end
