(* ===== verification/PersistenceMemory.thy ===== *)
theory PersistenceMemory
  imports Persistence
begin

text \<open>
  \<open>core/persistence/memory.js\<close>: the interface of the persistence without files. Data are values: an operation
  changes the copy of the data that the instance has (the code copies only the entries of the object, an
  operation that changes a nested object in place would change the initial value as well). \<open>pm_event\<close> is the
  event \<open>ready\<close>, which stays triggered.
\<close>

record 'd pm_options =
  pm_initial :: 'd
  pm_operations :: "(string \<times> 'd operation) list"

record 'd pm =
  pm_data :: "'d option"
  pm_isReady :: bool
  pm_event :: bool

definition pm_new :: "'d pm" where
  "pm_new = \<lparr>pm_data = None, pm_isReady = False, pm_event = False\<rparr>"

definition pm_reset :: "'d pm_options \<Rightarrow> 'd option \<Rightarrow> 'd pm \<Rightarrow> 'd pm" where
  "pm_reset opts data s =
     (let setData = (case data of None \<Rightarrow> pm_initial opts | Some d \<Rightarrow> d)
      in s\<lparr>pm_data := Some setData, pm_isReady := True, pm_event := True\<rparr>)"

definition pm_make :: "'d pm_options \<Rightarrow> 'd pm" where
  "pm_make opts = pm_reset opts None pm_new"

definition pm_get :: "'d pm \<Rightarrow> 'd outcome" where
  "pm_get s =
     (if \<not> pm_isReady s then Inl AssertFailed
      else (case pm_data s of Some d \<Rightarrow> Inr d | None \<Rightarrow> Inl TypeErr))"

definition pm_write :: "'d pm_options \<Rightarrow> string \<Rightarrow> json list \<Rightarrow> 'd pm \<Rightarrow> 'd pm \<times> unit outcome" where
  "pm_write opts type args s =
     (if \<not> pm_isReady s then (s, Inl AssertFailed)
      else
        (case map_of (pm_operations opts) type of
           None \<Rightarrow> (s, Inl AssertFailed)
         | Some operation \<Rightarrow>
             (case pm_data s of
                None \<Rightarrow> (s, Inl TypeErr)
              | Some d \<Rightarrow>
                  (case operation d args of
                     (d', None) \<Rightarrow> (s\<lparr>pm_data := Some d'\<rparr>, Inr ())
                   | (d', Some e) \<Rightarrow> (s\<lparr>pm_data := Some d'\<rparr>, Inl e)))))"

definition pm_isDirty :: "'d pm \<Rightarrow> bool outcome" where
  "pm_isDirty s = (if pm_isReady s then Inr False else Inl AssertFailed)"

definition pm_savepoint :: "'d pm \<Rightarrow> unit outcome" where
  "pm_savepoint s = (if pm_isReady s then Inr () else Inl AssertFailed)"

definition pm_close :: "'d pm \<Rightarrow> 'd pm" where
  "pm_close s = s"

definition pm_consistencyCheck :: "'d pm \<Rightarrow> bool" where
  "pm_consistencyCheck s = True"

text \<open>\<open>waitReady\<close> returns when the event was triggered.\<close>

definition pm_waitReady :: "'d pm \<Rightarrow> bool" where
  "pm_waitReady s = pm_event s"

text \<open>The method \<open>isReady\<close> is hidden by the field of the same name, which is a boolean and not a function.\<close>

definition pm_isReady_call :: "'d pm \<Rightarrow> bool outcome" where
  "pm_isReady_call s = Inl TypeErr"

section \<open>Memory and disk\<close>

definition pm_exec :: "'d pm_options \<Rightarrow> 'd p_action \<Rightarrow> 'd pm \<Rightarrow> 'd pm" where
  "pm_exec opts a s =
     (case a of
        PWrite type args \<Rightarrow> fst (pm_write opts type args s)
      | PReset data \<Rightarrow> pm_reset opts data s
      | PClose \<Rightarrow> pm_close s
      | _ \<Rightarrow> s)"

text \<open>The options of a persistence on disk that the one in memory has.\<close>

definition memory_options :: "('d, 'f) p_options \<Rightarrow> 'd pm_options" where
  "memory_options opts = \<lparr>pm_initial = p_initial opts, pm_operations = operations opts\<rparr>"

lemma pm_exec_spec:
  assumes "options_ok opts" and "pm_isReady s" and "pm_data s = Some d"
  shows "pm_isReady (pm_exec (memory_options opts) a s) \<and>
    pm_data (pm_exec (memory_options opts) a s) = Some (p_spec opts a d)"
proof (cases a)
  case (PWrite type args)
  show ?thesis
  proof (cases "map_of (operations opts) type")
    case (Some operation)
    then show ?thesis using assms PWrite options_okD(3) [OF assms(1) Some, of d args]
      by (cases "operation d args"; cases "snd (operation d args)")
        (auto simp: pm_exec_def pm_write_def memory_options_def)
  qed (use assms PWrite in \<open>simp add: pm_exec_def pm_write_def memory_options_def\<close>)
qed (use assms in \<open>simp_all add: pm_exec_def pm_reset_def pm_close_def memory_options_def split: option.split\<close>)

lemma pm_run_spec:
  assumes "options_ok opts"
  shows "pm_isReady s \<Longrightarrow> pm_data s = Some d \<Longrightarrow>
    pm_get (fold (pm_exec (memory_options opts)) actions s) = Inr (fold (p_spec opts) actions d)"
proof (induction actions arbitrary: s d)
  case (Cons a actions)
  then show ?case using pm_exec_spec [OF assms Cons.prems, of a] by simp
qed (simp add: pm_get_def)

text \<open>
  C38. Memory and disk agree. After the same writes, reads, savepoints, resets and closings, and whatever
  crashes the one on disk has in between, the persistence in memory and the one on a disk that
  held the initial data give the same data.
\<close>

theorem memory_equals_disk:
  assumes "options_ok opts" and "disk_ok dk" and "disk_content opts dk (p_initial opts)"
    and "\<forall>a\<in>set actions. pod_action a"
  shows "snd (p_get opts (fst (p_run opts actions dk))) =
    pm_get (fold (pm_exec (memory_options opts)) actions (pm_make (memory_options opts)))"
proof -
  obtain s pending where run: "p_run opts actions dk = (s, pending)" by (cases "p_run opts actions dk")
  have inv: "p_inv opts pending s (fold (p_spec opts) actions (p_initial opts))"
    using p_run_inv [OF assms] run by simp
  have "snd (p_get opts s) = Inr (fold (p_spec opts) actions (p_initial opts))"
    using p_get_result [OF assms(1) p_invD [OF inv]] by simp
  moreover have "pm_isReady (pm_make (memory_options opts))"
    "pm_data (pm_make (memory_options opts)) = Some (p_initial opts)"
    by (simp_all add: pm_make_def pm_reset_def memory_options_def)
  ultimately show ?thesis using pm_run_spec [OF assms(1)] run by simp
qed

theorem memory_equals_disk_witness:
  "snd (p_get sample_options (fst (p_run sample_options [PWrite ''set'' [JStr ''a'', JNum 1], PCrash] no_disk))) =
   pm_get (fold (pm_exec (memory_options sample_options)) [PWrite ''set'' [JStr ''a'', JNum 1], PCrash]
     (pm_make (memory_options sample_options)))"
proof (rule memory_equals_disk [OF default_options_ok no_disk_ok(1)])
  show "disk_content sample_options no_disk (p_initial sample_options)"
    using no_disk_ok(2) by (simp add: p_default_options_def)
qed (simp add: pod_def)

end
