(* ===== verification/TaskQueue.thy ===== *)
theory TaskQueue
  imports Bzd_Prelude "HOL-Library.Multiset"
begin

text \<open>
  The task queues of \<open>nodejs/core/task/manager.js\<close>: arrays sorted by timestamp, in which
  \<open>insertInQueue\<close> and \<open>findInQueue\<close> search by bisection. The entries are any values (the tasks, of which the
  queue holds references) with a timestamp \<open>ts\<close>, an argument; \<open>same\<close> is \<open>isEqual\<close> of the tasks. What the manager
  relies on is stated as the locales \<open>timed_queue\<close> and \<open>searched_queue\<close>, interpreted on the two functions.
\<close>

section \<open>Bisection\<close>

text \<open>The loop of \<open>insertInQueue\<close>, with the last index that was looked at.\<close>

function insert_search :: "('a \<Rightarrow> int) \<Rightarrow> 'a list \<Rightarrow> int \<Rightarrow> int \<Rightarrow> int \<Rightarrow> int \<Rightarrow> int" where
  "insert_search ts queue t minIndex maxIndex currentIndex =
     (if minIndex \<le> maxIndex then
        let c = (minIndex + maxIndex) div 2
        in if ts (queue ! nat c) < t then insert_search ts queue t (c + 1) maxIndex c
           else if ts (queue ! nat c) > t then insert_search ts queue t minIndex (c - 1) c
           else c
      else currentIndex)"
  by pat_completeness auto
termination
  by (relation "measure (\<lambda>(ts, q, t, lo, hi, c). nat (hi - lo + 1))") auto

declare insert_search.simps [simp del]

definition insertInQueue :: "('a \<Rightarrow> int) \<Rightarrow> 'a list \<Rightarrow> 'a \<Rightarrow> 'a list" where
  "insertInQueue ts queue x =
     (let c = nat (insert_search ts queue (ts x) 0 (int (length queue) - 1) 0);
          i = (if c < length queue \<and> ts (queue ! c) < ts x then c + 1 else c)
      in splice_insert i x queue)"

text \<open>
  \<open>findInQueue\<close>: from an entry with the timestamp that is looked for, down and then up through the entries
  with this timestamp.
\<close>

fun find_down :: "('a \<Rightarrow> bool) \<Rightarrow> ('a \<Rightarrow> bool) \<Rightarrow> 'a list \<Rightarrow> nat \<Rightarrow> int" where
  "find_down sameTime equal queue 0 = -1"
| "find_down sameTime equal queue (Suc i) =
     (if sameTime (queue ! i) then
        if equal (queue ! i) then int i else find_down sameTime equal queue i
      else -1)"

fun find_up :: "('a \<Rightarrow> bool) \<Rightarrow> ('a \<Rightarrow> bool) \<Rightarrow> 'a list \<Rightarrow> nat \<Rightarrow> int" where
  "find_up sameTime equal [] i = -1"
| "find_up sameTime equal (x # xs) i =
     (if sameTime x then if equal x then int i else find_up sameTime equal xs (Suc i) else -1)"

definition find_around :: "('a \<Rightarrow> int) \<Rightarrow> ('a \<Rightarrow> 'a \<Rightarrow> bool) \<Rightarrow> 'a list \<Rightarrow> 'a \<Rightarrow> nat \<Rightarrow> int" where
  "find_around ts same queue x c =
     (let down = find_down (\<lambda>y. ts y = ts x) (same x) queue (Suc c)
      in if down \<noteq> -1 then down
         else find_up (\<lambda>y. ts y = ts x) (same x) (drop (Suc c) queue) (Suc c))"

function find_search :: "('a \<Rightarrow> int) \<Rightarrow> ('a \<Rightarrow> 'a \<Rightarrow> bool) \<Rightarrow> 'a list \<Rightarrow> 'a \<Rightarrow> int \<Rightarrow> int \<Rightarrow> int" where
  "find_search ts same queue x minIndex maxIndex =
     (if minIndex \<le> maxIndex then
        let c = (minIndex + maxIndex) div 2
        in if ts (queue ! nat c) < ts x then find_search ts same queue x (c + 1) maxIndex
           else if ts (queue ! nat c) > ts x then find_search ts same queue x minIndex (c - 1)
           else find_around ts same queue x (nat c)
      else -1)"
  by pat_completeness auto
termination
  by (relation "measure (\<lambda>(ts, same, q, x, lo, hi). nat (hi - lo + 1))") auto

declare find_search.simps [simp del]

definition findInQueue :: "('a \<Rightarrow> int) \<Rightarrow> ('a \<Rightarrow> 'a \<Rightarrow> bool) \<Rightarrow> 'a list \<Rightarrow> 'a \<Rightarrow> int" where
  "findInQueue ts same queue x = find_search ts same queue x 0 (int (length queue) - 1)"

section \<open>What the searches find\<close>

abbreviation in_order :: "('a \<Rightarrow> int) \<Rightarrow> 'a list \<Rightarrow> bool" where
  "in_order ts queue \<equiv> sorted (map ts queue)"

lemma in_order_nth: "in_order ts q \<Longrightarrow> i \<le> j \<Longrightarrow> j < length q \<Longrightarrow> ts (q ! i) \<le> ts (q ! j)"
  by (simp add: sorted_iff_nth_mono)

text \<open>The window of the search: everything before it is smaller, everything after it is larger.\<close>

definition window :: "('a \<Rightarrow> int) \<Rightarrow> 'a list \<Rightarrow> int \<Rightarrow> int \<Rightarrow> int \<Rightarrow> bool" where
  "window ts q t lo hi \<longleftrightarrow> 0 \<le> lo \<and> hi < int (length q) \<and> lo \<le> hi + 1 \<and>
     (\<forall>i < nat lo. ts (q ! i) < t) \<and> (\<forall>i < length q. hi < int i \<longrightarrow> t < ts (q ! i))"

lemma window_all: "window ts q t 0 (int (length q) - 1)"
  by (simp add: window_def)

lemma window_right:
  assumes "in_order ts q" "window ts q t lo hi" "lo \<le> c" "c \<le> hi" "ts (q ! nat c) < t"
  shows "window ts q t (c + 1) hi"
proof -
  have "ts (q ! i) < t" if "i < nat (c + 1)" for i
  proof -
    have "i \<le> nat c" "nat c < length q" using assms(2-4) that by (auto simp: window_def)
    from in_order_nth [OF assms(1) this] show ?thesis using assms(5) by linarith
  qed
  then show ?thesis using assms by (auto simp: window_def)
qed

lemma window_left:
  assumes "in_order ts q" "window ts q t lo hi" "lo \<le> c" "c \<le> hi" "t < ts (q ! nat c)"
  shows "window ts q t lo (c - 1)"
proof -
  have "t < ts (q ! i)" if "i < length q" "c - 1 < int i" for i
  proof -
    have "nat c \<le> i" using that by simp
    from in_order_nth [OF assms(1) this that(1)] show ?thesis using assms(5) by linarith
  qed
  then show ?thesis using assms by (auto simp: window_def)
qed

text \<open>Where \<open>insertInQueue\<close> inserts: not before a smaller entry, not after a larger one.\<close>

definition insert_place :: "('a \<Rightarrow> int) \<Rightarrow> 'a list \<Rightarrow> int \<Rightarrow> nat \<Rightarrow> bool" where
  "insert_place ts q t i \<longleftrightarrow> i \<le> length q \<and> (\<forall>j < i. ts (q ! j) \<le> t) \<and>
     (\<forall>j < length q. i \<le> j \<longrightarrow> t \<le> ts (q ! j))"

definition place_of :: "('a \<Rightarrow> int) \<Rightarrow> 'a list \<Rightarrow> int \<Rightarrow> nat \<Rightarrow> nat" where
  "place_of ts q t c = (if c < length q \<and> ts (q ! c) < t then c + 1 else c)"

lemma insert_search_place:
  assumes "in_order ts q" "window ts q t lo hi" "lo \<le> hi \<or> insert_place ts q t (place_of ts q t (nat c))"
  shows "insert_place ts q t (place_of ts q t (nat (insert_search ts q t lo hi c)))"
  using assms
proof (induction ts q t lo hi c rule: insert_search.induct)
  case (1 ts q t lo hi cur)
  show ?case
  proof (cases "lo \<le> hi")
    case True
    define c where "c = (lo + hi) div 2"
    have c: "lo \<le> c" "c \<le> hi" using True by (auto simp: c_def)
    have bounds: "0 \<le> lo" "hi < int (length q)" using 1(4) by (auto simp: window_def)
    consider "ts (q ! nat c) < t" | "t < ts (q ! nat c)" | "ts (q ! nat c) = t" by linarith
    then show ?thesis
    proof cases
      case 1
      have w: "window ts q t (c + 1) hi" by (rule window_right [OF "1.prems"(1,2) c 1])
      have "c + 1 \<le> hi \<or> insert_place ts q t (place_of ts q t (nat c))"
        using w c bounds 1 by (auto simp: window_def insert_place_def place_of_def nat_add_distrib less_Suc_eq_le)
      from "1.IH"(1) [OF True c_def 1 "1.prems"(1) w this] show ?thesis
        using True 1 by (subst insert_search.simps) (simp add: c_def [symmetric] Let_def)
    next
      case 2
      have w: "window ts q t lo (c - 1)" by (rule window_left [OF "1.prems"(1,2) c 2])
      have "insert_place ts q t (nat c)" if "\<not> lo \<le> c - 1"
        using w c bounds that by (auto simp: window_def insert_place_def intro: less_imp_le)
      then have "lo \<le> c - 1 \<or> insert_place ts q t (place_of ts q t (nat c))"
        using 2 by (auto simp: place_of_def)
      from "1.IH"(2) [OF True c_def _ 2 "1.prems"(1) w this] show ?thesis
        using True 2 by (subst insert_search.simps) (simp add: c_def [symmetric] Let_def)
    next
      case 3
      have "nat c < length q" using c bounds by simp
      then have "insert_place ts q t (nat c)"
        using in_order_nth [OF "1.prems"(1)] 3 by (auto simp: insert_place_def intro: less_imp_le)
      then show ?thesis
        using True 3 by (subst insert_search.simps) (simp add: c_def [symmetric] Let_def place_of_def)
    qed
  next
    case False
    then show ?thesis using 1(5) by (simp add: insert_search.simps)
  qed
qed

lemma insertInQueue_split:
  assumes "in_order ts q"
  obtains i where "insertInQueue ts q x = take i q @ x # drop i q" "insert_place ts q (ts x) i"
proof -
  let ?c = "nat (insert_search ts q (ts x) 0 (int (length q) - 1) 0)"
  have "0 \<le> int (length q) - 1 \<or> insert_place ts q (ts x) (place_of ts q (ts x) (nat 0))"
    by (cases q) (auto simp: insert_place_def place_of_def)
  from that [of "place_of ts q (ts x) ?c"] insert_search_place [OF assms window_all this]
  show thesis by (simp add: insertInQueue_def Let_def place_of_def splice_insert_def)
qed

lemma mset_insertInQueue: "mset (insertInQueue ts q x) = add_mset x (mset q)"
  by (simp add: insertInQueue_def splice_insert_def Let_def union_code [symmetric] del: union_code)
    (metis append_take_drop_id mset_append)

lemma in_order_insertInQueue:
  assumes "in_order ts q"
  shows "in_order ts (insertInQueue ts q x)"
proof -
  obtain i where i: "insertInQueue ts q x = take i q @ x # drop i q" "insert_place ts q (ts x) i"
    using insertInQueue_split [OF assms] by blast
  have "\<forall>y\<in>set (take i q). ts y \<le> ts x" "\<forall>y\<in>set (drop i q). ts x \<le> ts y"
    using i(2) by (simp_all add: insert_place_def ball_take_nth ball_drop_nth)
  moreover have "in_order ts (take i q)" "in_order ts (drop i q)"
    using assms by (simp_all add: take_map drop_map sorted_wrt_take sorted_wrt_drop flip: take_map drop_map)
  moreover have "\<forall>y\<in>set (take i q). \<forall>z\<in>set (drop i q). ts y \<le> ts z"
    using calculation(1,2) by force
  ultimately show ?thesis by (auto simp: i(1) sorted_append)
qed


lemma find_down_sound:
  "find_down st eq q n = r \<Longrightarrow> r = -1 \<or> 0 \<le> r \<and> nat r < n \<and> st (q ! nat r) \<and> eq (q ! nat r)"
  by (induction n arbitrary: r) (auto split: if_splits simp: less_Suc_eq)

lemma find_down_complete:
  "j < n \<Longrightarrow> eq (q ! j) \<Longrightarrow> (\<And>k. j \<le> k \<Longrightarrow> k < n \<Longrightarrow> st (q ! k)) \<Longrightarrow> find_down st eq q n \<noteq> -1"
  by (induction n) (auto simp: less_Suc_eq)

lemma find_up_sound:
  "find_up st eq xs i = r \<Longrightarrow>
     r = -1 \<or> int i \<le> r \<and> nat r < i + length xs \<and> st (xs ! (nat r - i)) \<and> eq (xs ! (nat r - i))"
proof (induction st eq xs i arbitrary: r rule: find_up.induct)
  case (2 st eq x xs i)
  then show ?case by (fastforce split: if_splits simp: nth_Cons' Suc_le_eq)
qed simp

lemma find_up_complete:
  "j < length xs \<Longrightarrow> eq (xs ! j) \<Longrightarrow> (\<And>k. k \<le> j \<Longrightarrow> st (xs ! k)) \<Longrightarrow> find_up st eq xs i \<noteq> -1"
proof (induction st eq xs i arbitrary: j rule: find_up.induct)
  case (2 st eq x xs i)
  have st: "st x" using "2.prems"(3) [of 0] by simp
  show ?case
  proof (cases j)
    case (Suc m)
    have "st (xs ! k)" if "k \<le> m" for k using "2.prems"(3) [of "Suc k"] Suc that by simp
    then show ?thesis using "2.IH" [OF st _, of m] "2.prems"(1,2) st Suc by auto
  qed (use 2 st in auto)
qed simp

text \<open>What \<open>findInQueue\<close> returns is an entry that is equal, or \<open>-1\<close>; and it finds one where there is one.\<close>

definition same_entry :: "('a \<Rightarrow> int) \<Rightarrow> ('a \<Rightarrow> 'a \<Rightarrow> bool) \<Rightarrow> 'a \<Rightarrow> 'a \<Rightarrow> bool" where
  "same_entry ts same x y \<longleftrightarrow> ts y = ts x \<and> same x y"

lemma find_around_sound:
  assumes "find_around ts same q x c = r" "c < length q"
  shows "r = -1 \<or> 0 \<le> r \<and> nat r < length q \<and> same_entry ts same x (q ! nat r)"
proof (cases "find_down (\<lambda>y. ts y = ts x) (same x) q (Suc c) = -1")
  case True
  with assms(1) have "find_up (\<lambda>y. ts y = ts x) (same x) (drop (Suc c) q) (Suc c) = r"
    by (simp add: find_around_def Let_def)
  from find_up_sound [OF this] assms(2) show ?thesis by (auto simp: same_entry_def)
next
  case False
  with assms(1) have "find_down (\<lambda>y. ts y = ts x) (same x) q (Suc c) = r"
    by (simp add: find_around_def Let_def del: find_down.simps)
  from find_down_sound [OF this] assms(2) show ?thesis by (auto simp: same_entry_def)
qed

lemma find_around_complete:
  assumes "in_order ts q" "c < length q" "ts (q ! c) = ts x" "j < length q" "same_entry ts same x (q ! j)"
  shows "find_around ts same q x c \<noteq> -1"
proof (cases "j \<le> c")
  case True
  have "ts (q ! k) = ts x" if "j \<le> k" "k < Suc c" for k
    using in_order_nth [OF assms(1), of j k] in_order_nth [OF assms(1), of k c] assms that
    by (auto simp: same_entry_def)
  then have "find_down (\<lambda>y. ts y = ts x) (same x) q (Suc c) \<noteq> -1"
    using find_down_complete [of j "Suc c" "same x" q "\<lambda>y. ts y = ts x"] True assms(5)
    by (simp add: same_entry_def)
  then show ?thesis by (simp add: find_around_def Let_def del: find_down.simps)
next
  case False
  have "ts (drop (Suc c) q ! k) = ts x" if "k \<le> j - Suc c" for k
  proof -
    have k: "Suc c + k \<le> j" using that False by linarith
    show ?thesis
      using in_order_nth [OF assms(1), of c "Suc c + k"] in_order_nth [OF assms(1) k] assms k
      by (auto simp: same_entry_def)
  qed
  then have "find_up (\<lambda>y. ts y = ts x) (same x) (drop (Suc c) q) (Suc c) \<noteq> -1"
    using find_up_complete [of "j - Suc c" "drop (Suc c) q" "same x" "\<lambda>y. ts y = ts x"] False assms(4,5)
    by (simp add: same_entry_def)
  then show ?thesis by (simp add: find_around_def Let_def del: find_down.simps)
qed

lemma find_search_result:
  assumes "in_order ts q" "window ts q (ts x) lo hi"
  shows "(find_search ts same q x lo hi = -1 \<longrightarrow> (\<forall>y\<in>set q. \<not> same_entry ts same x y)) \<and>
    (find_search ts same q x lo hi = r \<longrightarrow>
       r = -1 \<or> 0 \<le> r \<and> nat r < length q \<and> same_entry ts same x (q ! nat r))"
  using assms
proof (induction ts same q x lo hi rule: find_search.induct)
  case (1 ts same q x lo hi)
  show ?case
  proof (cases "lo \<le> hi")
    case True
    define c where "c = (lo + hi) div 2"
    have c: "lo \<le> c" "c \<le> hi" using True by (auto simp: c_def)
    have len: "nat c < length q" using 1(4) c by (auto simp: window_def)
    consider "ts (q ! nat c) < ts x" | "ts x < ts (q ! nat c)" | "ts (q ! nat c) = ts x" by linarith
    then show ?thesis
    proof cases
      case 1
      show ?thesis
        using "1.IH"(1) [OF True c_def 1 "1.prems"(1) window_right [OF "1.prems"(1,2) c 1]] True 1
        by (subst (1 2) find_search.simps) (simp add: c_def [symmetric] Let_def)
    next
      case 2
      show ?thesis
        using "1.IH"(2) [OF True c_def _ 2 "1.prems"(1) window_left [OF "1.prems"(1,2) c 2]] True 2
        by (subst (1 2) find_search.simps) (simp add: c_def [symmetric] Let_def)
    next
      case 3
      have eq: "find_search ts same q x lo hi = find_around ts same q x (nat c)"
        using True 3 by (subst find_search.simps) (simp add: c_def [symmetric] Let_def)
      show ?thesis
        using find_around_complete [OF "1.prems"(1) len 3] find_around_sound [OF _ len] unfolding eq
        by (metis in_set_conv_nth)
    qed
  next
    case False
    have "\<not> same_entry ts same x (q ! i)" if "i < length q" for i
      using 1(4) False that by (cases "i < nat lo") (auto simp: window_def same_entry_def)
    then show ?thesis using False by (auto simp: find_search.simps in_set_conv_nth)
  qed
qed

lemmas findInQueue_result =
  find_search_result [OF _ window_all, folded findInQueue_def]


section \<open>The contract of a queue\<close>

text \<open>
  What the manager relies on: an insertion adds the entry and keeps the order, so that the head is the next
  entry that is due. The extension: an entry that is in the queue is found, so that it can be taken out.
\<close>

locale timed_queue =
  fixes ts :: "'a \<Rightarrow> int" and ins :: "'a list \<Rightarrow> 'a \<Rightarrow> 'a list"
  assumes ins_mset: "mset (ins q x) = add_mset x (mset q)"
    and ins_order: "in_order ts q \<Longrightarrow> in_order ts (ins q x)"
begin

lemma ins_set [simp]: "set (ins q x) = insert x (set q)"
  by (metis ins_mset set_mset_add_mset_insert set_mset_mset)

lemma ins_distinct: "distinct (ins q x) \<longleftrightarrow> x \<notin> set q \<and> distinct q"
proof -
  have "mset (ins q x) = mset (x # q)" by (simp add: ins_mset)
  then show ?thesis by (metis distinct.simps(2) mset_eq_imp_distinct_iff)
qed

lemma ins_nonempty [simp]: "ins q x \<noteq> []"
  by (metis ins_set insert_not_empty set_empty)

lemma head_least: "in_order ts q \<Longrightarrow> q = x # rest \<Longrightarrow> y \<in> set q \<Longrightarrow> ts x \<le> ts y"
  by auto

lemma ins_length: "length (ins q x) = Suc (length q)"
  by (metis ins_mset size_add_mset size_mset)

end

locale searched_queue = timed_queue +
  fixes same :: "'a \<Rightarrow> 'a \<Rightarrow> bool" and find :: "'a list \<Rightarrow> 'a \<Rightarrow> int"
  assumes find_none: "in_order ts q \<Longrightarrow> find q x = -1 \<Longrightarrow> y \<in> set q \<Longrightarrow> \<not> same_entry ts same x y"
    and find_some: "in_order ts q \<Longrightarrow> find q x \<noteq> -1 \<Longrightarrow>
      0 \<le> find q x \<and> nat (find q x) < length q \<and> same_entry ts same x (q ! nat (find q x))"
begin

text \<open>An entry that only itself is equal to is found where it is, and taken out.\<close>

lemma find_there:
  assumes "in_order ts q" "x \<in> set q" "\<And>y. y \<in> set q \<Longrightarrow> same x y \<longleftrightarrow> y = x"
  shows "find q x \<noteq> -1" "splice_remove (nat (find q x)) q = remove1 x q \<or> \<not> distinct q"
proof -
  show found: "find q x \<noteq> -1" using find_none [OF assms(1) _ assms(2)] assms by (auto simp: same_entry_def)
  let ?i = "nat (find q x)"
  have i: "?i < length q" and at: "q ! ?i = x"
    using find_some [OF assms(1) found] assms(3) by (auto simp: same_entry_def)
  have split: "q = take ?i q @ x # drop (Suc ?i) q" using id_take_nth_drop [OF i] at by simp
  show "splice_remove ?i q = remove1 x q \<or> \<not> distinct q"
  proof (cases "distinct q")
    case True
    then have "x \<notin> set (take ?i q)" by (subst (asm) split) auto
    then have "remove1 x q = take ?i q @ drop (Suc ?i) q" by (subst split) (simp add: remove1_append)
    then show ?thesis by (simp add: splice_remove_def)
  qed simp
qed

lemma find_absent:
  assumes "in_order ts q" "\<And>y. y \<in> set q \<Longrightarrow> \<not> same x y"
  shows "find q x = -1"
  using find_some [OF assms(1), of x] assms(2) nth_mem by (force simp: same_entry_def)

end

interpretation tq: searched_queue ts "insertInQueue ts" same "findInQueue ts same" for ts same
proof unfold_locales
  show "mset (insertInQueue ts q x) = add_mset x (mset q)" for q x by (rule mset_insertInQueue)
  show "in_order ts q \<Longrightarrow> in_order ts (insertInQueue ts q x)" for q x by (rule in_order_insertInQueue)
  show "in_order ts q \<Longrightarrow> findInQueue ts same q x = -1 \<Longrightarrow> y \<in> set q \<Longrightarrow> \<not> same_entry ts same x y" for q x y
    using findInQueue_result [of ts q same x] by simp
  show "in_order ts q \<Longrightarrow> findInQueue ts same q x \<noteq> -1 \<Longrightarrow> 0 \<le> findInQueue ts same q x \<and>
      nat (findInQueue ts same q x) < length q \<and> same_entry ts same x (q ! nat (findInQueue ts same q x))" for q x
    using findInQueue_result [of ts q same x "findInQueue ts same q x"] by simp
qed

text \<open>Taking out an entry keeps the order.\<close>

lemma in_order_remove1: "in_order ts q \<Longrightarrow> in_order ts (remove1 x q)"
  by (induction q) (auto dest: in_set_remove1)

end
