(* ===== verification/TaskManager.thy ===== *)
theory TaskManager
  imports TaskQueue
begin

text \<open>
  The task manager (\<open>nodejs/core/task/{manager,task}.js\<close>): named tasks that run at a time, with a priority, once or
  periodically, one at a time. Tasks are objects that the table of the tasks, the queues and the scheduler share:
  the store \<open>m_heap\<close> has them, and the others have their index. A step is what runs without interruption,
  between an event and an \<open>await\<close>; the time \<open>now\<close> does not change within it. The condition \<open>isValid\<close> of a
  task is any function of its number of iterations and of the state \<open>env\<close> of its surroundings, which does not call
  the manager.
\<close>

section \<open>Tasks\<close>

datatype task_status = STATUS_IDLE | STATUS_PENDING

text \<open>A delay is a whole number of milliseconds, or something that is not a number.\<close>

datatype delay = Ms int | NotANumber

record 'e task_config =
  priority :: "int option"
  delayMs :: "delay option"
  intervalMs :: "delay option"
  isValid :: "('e \<Rightarrow> nat \<Rightarrow> bool outcome) option"

record 'e task =
  t_namespace :: string
  t_name :: string
  t_status :: task_status
  t_priority :: nat
  t_delayMs :: delay
  t_intervalMs :: delay
  t_isValid :: "'e \<Rightarrow> nat \<Rightarrow> bool outcome"
  t_iteration :: nat
  t_timestamp :: int

definition PRIORITY_LOWEST :: int where "PRIORITY_LOWEST = 0"
definition PRIORITY_HIGHEST :: int where "PRIORITY_HIGHEST = 3"
definition PRIORITY_LOW :: int where "PRIORITY_LOW = 0"

definition task_new :: "string \<Rightarrow> string \<Rightarrow> 'e task_config \<Rightarrow> 'e task outcome" where
  "task_new ns name config =
     (let p = (case priority config of None \<Rightarrow> PRIORITY_LOW | Some p \<Rightarrow> p)
      in if PRIORITY_LOWEST \<le> p \<and> p \<le> PRIORITY_HIGHEST
         then Inr \<lparr>t_namespace = ns, t_name = name, t_status = STATUS_IDLE, t_priority = nat p,
                t_delayMs = (case delayMs config of None \<Rightarrow> Ms 0 | Some d \<Rightarrow> d),
                t_intervalMs = (case intervalMs config of None \<Rightarrow> Ms 0 | Some d \<Rightarrow> d),
                t_isValid = (case isValid config of None \<Rightarrow> (\<lambda>env iteration. Inr (iteration < 1)) | Some f \<Rightarrow> f),
                t_iteration = 0, t_timestamp = 0\<rparr>
         else Inl AssertFailed)"

text \<open>\<open>TaskId.isEqual\<close>, \<open>Task.isEqual\<close>, and \<open>toString\<close>.\<close>

definition task_isEqual :: "'e task \<Rightarrow> 'e task \<Rightarrow> bool" where
  "task_isEqual a b \<longleftrightarrow> t_namespace b = t_namespace a \<and> t_name b = t_name a"

definition task_toString :: "'e task \<Rightarrow> string" where
  "task_toString t = t_namespace t @ ''::'' @ t_name t"

text \<open>The getter \<open>isValid\<close>, with an exception of the condition as the answer no, as all its callers take it.\<close>

definition task_valid :: "'e \<Rightarrow> 'e task \<Rightarrow> bool" where
  "task_valid env t \<longleftrightarrow> t_isValid t env (t_iteration t) = Inr True"

section \<open>The manager\<close>

record namespace =
  ns_size :: int
  ns_tasks :: "(string \<times> nat) list"

text \<open>
  \<open>m_size\<close> and \<open>m_tasks\<close> are the field \<open>tasks\<close>; \<open>m_timers\<close> are the timeouts that are set, each with its number
  and the time at which it is due; \<open>m_current\<close> is the task whose action the scheduler awaits.
\<close>

record 'e manager =
  m_size :: int
  m_tasks :: "(string \<times> namespace) list"
  taskQueues :: "nat list list"
  schedulerTimestamp :: int
  schedulerInstance :: "nat option"
  schedulerRunning :: bool
  m_heap :: "'e task list"
  m_timers :: "(nat \<times> int) list"
  m_nextTimer :: nat
  m_current :: "nat option"

definition TASK_SIZE :: int where "TASK_SIZE = 128"

definition manager_new :: "'e manager" where
  "manager_new = \<lparr>m_size = 0, m_tasks = [], taskQueues = replicate (nat (PRIORITY_HIGHEST + 1)) [],
     schedulerTimestamp = 0, schedulerInstance = None, schedulerRunning = False, m_heap = [], m_timers = [],
     m_nextTimer = 0, m_current = None\<rparr>"

abbreviation m_task :: "'e manager \<Rightarrow> nat \<Rightarrow> 'e task" where
  "m_task m r \<equiv> m_heap m ! r"

abbreviation m_time :: "'e manager \<Rightarrow> nat \<Rightarrow> int" where
  "m_time m r \<equiv> t_timestamp (m_heap m ! r)"

abbreviation m_same :: "'e manager \<Rightarrow> nat \<Rightarrow> nat \<Rightarrow> bool" where
  "m_same m r s \<equiv> task_isEqual (m_heap m ! r) (m_heap m ! s)"

abbreviation set_task :: "nat \<Rightarrow> ('e task \<Rightarrow> 'e task) \<Rightarrow> 'e manager \<Rightarrow> 'e manager" where
  "set_task r f m \<equiv> m\<lparr>m_heap := (m_heap m)[r := f (m_heap m ! r)]\<rparr>"

abbreviation set_queue :: "nat \<Rightarrow> nat list \<Rightarrow> 'e manager \<Rightarrow> 'e manager" where
  "set_queue p queue m \<equiv> m\<lparr>taskQueues := (taskQueues m)[p := queue]\<rparr>"

definition find_task :: "'e manager \<Rightarrow> string \<Rightarrow> string \<Rightarrow> nat option" where
  "find_task m ns name =
     (case map_of (m_tasks m) ns of None \<Rightarrow> None | Some n \<Rightarrow> map_of (ns_tasks n) name)"

definition isRegistered :: "'e manager \<Rightarrow> string \<Rightarrow> string \<Rightarrow> bool" where
  "isRegistered m ns name \<longleftrightarrow> find_task m ns name \<noteq> None"

section \<open>Scheduling\<close>

text \<open>\<open>Number.MAX_VALUE\<close>, the minimum of nothing, is \<open>None\<close>.\<close>

definition getNextTaskTimestamp :: "'e manager \<Rightarrow> int option" where
  "getNextTaskTimestamp m =
     foldl (\<lambda>least queue. case queue of
         [] \<Rightarrow> least
       | r # _ \<Rightarrow> (case least of None \<Rightarrow> Some (m_time m r) | Some t \<Rightarrow> Some (min (m_time m r) t)))
       None (taskQueues m)"

text \<open>\<open>clearTimeout\<close> and \<open>setTimeout\<close>.\<close>

definition clear_timeout :: "nat \<Rightarrow> 'e manager \<Rightarrow> 'e manager" where
  "clear_timeout i m = m\<lparr>m_timers := AList.delete i (m_timers m)\<rparr>"

definition set_timeout :: "int \<Rightarrow> 'e manager \<Rightarrow> nat \<times> 'e manager" where
  "set_timeout due m = (m_nextTimer m, m\<lparr>m_timers := m_timers m @ [(m_nextTimer m, due)], m_nextTimer := Suc (m_nextTimer m)\<rparr>)"

definition triggerTaskScheduler :: "int \<Rightarrow> 'e manager \<Rightarrow> 'e manager" where
  "triggerTaskScheduler now m =
     (if schedulerRunning m then m
      else case getNextTaskTimestamp m of
        None \<Rightarrow> m
      | Some nextTimestamp \<Rightarrow>
          let m1 = (case schedulerInstance m of
                Some i \<Rightarrow> if nextTimestamp < schedulerTimestamp m
                  then (clear_timeout i m)\<lparr>schedulerInstance := None\<rparr> else m
              | None \<Rightarrow> m)
          in case schedulerInstance m1 of
               Some _ \<Rightarrow> m1
             | None \<Rightarrow>
                 let (i, m2) = set_timeout
                   (now + (if nextTimestamp > now then nextTimestamp - now else 1)) m1
                 in m2\<lparr>schedulerInstance := Some i, schedulerTimestamp := nextTimestamp\<rparr>)"

text \<open>
  \<open>unregister\<close>. A namespace stays in the table when its last task leaves.
\<close>

definition remove_task :: "string \<Rightarrow> string \<Rightarrow> 'e manager \<Rightarrow> 'e manager" where
  "remove_task ns name m =
     (case map_of (m_tasks m) ns of
        None \<Rightarrow> m
      | Some n \<Rightarrow>
          m\<lparr>m_tasks := AList.update ns (n\<lparr>ns_tasks := AList.delete name (ns_tasks n), ns_size := ns_size n - TASK_SIZE\<rparr>) (m_tasks m),
            m_size := m_size m - TASK_SIZE\<rparr>)"

definition unregister :: "string \<Rightarrow> string \<Rightarrow> 'e manager \<Rightarrow> 'e manager \<times> unit outcome" where
  "unregister ns name m =
     (case find_task m ns name of
        None \<Rightarrow> (m, Inl AssertFailed)
      | Some r \<Rightarrow>
          if t_status (m_task m r) = STATUS_PENDING then
            let p = t_priority (m_task m r);
                index = findInQueue (m_time m) (m_same m) (taskQueues m ! p) r
            in if index = -1 then (m, Inl AssertFailed)
               else (remove_task ns name (set_queue p (splice_remove (nat index) (taskQueues m ! p)) m), Inr ())
          else (remove_task ns name m, Inr ()))"

definition scheduleTaskIfValid :: "int \<Rightarrow> 'e \<Rightarrow> nat \<Rightarrow> delay \<Rightarrow> bool \<Rightarrow> 'e manager \<Rightarrow> 'e manager \<times> unit outcome" where
  "scheduleTaskIfValid now env r delay trigger m =
     (let task = m_task m r
      in if \<not> isRegistered m (t_namespace task) (t_name task) then (m, Inl AssertFailed)
         else if t_status task \<noteq> STATUS_IDLE then (m, Inl AssertFailed)
         else case delay of
           NotANumber \<Rightarrow> (m, Inl AssertFailed)
         | Ms ms \<Rightarrow>
             if task_valid env task then
               let m1 = set_task r (\<lambda>t. t\<lparr>t_status := STATUS_PENDING, t_timestamp := now + ms\<rparr>) m;
                   p = t_priority task;
                   m2 = set_queue p (insertInQueue (m_time m1) (taskQueues m1 ! p) r) m1
               in (if trigger then triggerTaskScheduler now m2 else m2, Inr ())
             else unregister (t_namespace task) (t_name task) m)"

text \<open>\<open>register\<close> returns the task.\<close>

definition add_task :: "string \<Rightarrow> string \<Rightarrow> nat \<Rightarrow> 'e manager \<Rightarrow> 'e manager" where
  "add_task ns name r m =
     (let n = (case map_of (m_tasks m) ns of None \<Rightarrow> \<lparr>ns_size = 0, ns_tasks = []\<rparr> | Some n \<Rightarrow> n)
      in m\<lparr>m_tasks := AList.update ns (n\<lparr>ns_tasks := AList.update name r (ns_tasks n), ns_size := ns_size n + TASK_SIZE\<rparr>) (m_tasks m),
           m_size := m_size m + TASK_SIZE\<rparr>)"

definition register :: "int \<Rightarrow> 'e \<Rightarrow> string \<Rightarrow> string \<Rightarrow> 'e task_config \<Rightarrow> 'e manager \<Rightarrow> 'e manager \<times> nat outcome" where
  "register now env ns name config m =
     (if ns = ''size'' \<or> name = ''size'' then (m, Inl AssertFailed)
      else case task_new ns name config of
        Inl e \<Rightarrow> (m, Inl e)
      | Inr task \<Rightarrow>
          case (if isRegistered m ns name then unregister ns name m else (m, Inr ())) of
            (m1, Inl e) \<Rightarrow> (m1, Inl e)
          | (m1, Inr _) \<Rightarrow>
              let r = length (m_heap m1);
                  m2 = add_task ns name r (m1\<lparr>m_heap := m_heap m1 @ [task]\<rparr>)
              in case scheduleTaskIfValid now env r (t_delayMs task) True m2 of
                   (m3, Inl e) \<Rightarrow> (m3, Inl e)
                 | (m3, Inr _) \<Rightarrow> (m3, Inr r))"


section \<open>The scheduler\<close>

fun pop_from :: "int \<Rightarrow> 'e manager \<Rightarrow> nat \<Rightarrow> (nat \<times> 'e manager) option" where
  "pop_from now m 0 = None"
| "pop_from now m (Suc p) =
     (case taskQueues m ! p of
        r # rest \<Rightarrow> if m_time m r \<le> now then Some (r, set_queue p rest m) else pop_from now m p
      | [] \<Rightarrow> pop_from now m p)"

definition popNextTask :: "int \<Rightarrow> 'e manager \<Rightarrow> (nat \<times> 'e manager) option" where
  "popNextTask now m = pop_from now m (length (taskQueues m))"

text \<open>The number of tasks in the queues: what makes the loop over tasks that are not valid come to an end.\<close>

definition queued_count :: "'e manager \<Rightarrow> nat" where
  "queued_count m = sum_list (map length (taskQueues m))"

lemma sum_list_update_less:
  "p < length qs \<Longrightarrow> length q < length (qs ! p) \<Longrightarrow> sum_list (map length (qs[p := q])) < sum_list (map length qs)"
proof (induction qs arbitrary: p)
  case (Cons a qs)
  then show ?case by (cases p) auto
qed simp

lemma sum_list_update_le:
  "length q \<le> length (qs ! p) \<Longrightarrow> sum_list (map length (qs[p := q])) \<le> sum_list (map length qs)"
proof (induction qs arbitrary: p)
  case (Cons a qs)
  then show ?case by (cases p) auto
qed simp

lemma pop_from_count: "p \<le> length (taskQueues m) \<Longrightarrow> pop_from now m p = Some (r, m') \<Longrightarrow> queued_count m' < queued_count m"
proof (induction now m p rule: pop_from.induct)
  case (2 now m p)
  show ?case
  proof (cases "taskQueues m ! p")
    case (Cons x rest)
    have "queued_count (set_queue p rest m) < queued_count m"
      using sum_list_update_less [of p "taskQueues m" rest] 2(3) Cons by (simp add: queued_count_def)
    with Cons 2 show ?thesis by (auto split: if_splits)
  qed (use 2 in simp)
qed simp

lemma remove_task_fields [simp]:
  "taskQueues (remove_task ns name m) = taskQueues m" "m_heap (remove_task ns name m) = m_heap m"
  "schedulerTimestamp (remove_task ns name m) = schedulerTimestamp m"
  "schedulerInstance (remove_task ns name m) = schedulerInstance m"
  "schedulerRunning (remove_task ns name m) = schedulerRunning m"
  "m_timers (remove_task ns name m) = m_timers m" "m_nextTimer (remove_task ns name m) = m_nextTimer m"
  "m_current (remove_task ns name m) = m_current m"
  by (simp_all add: remove_task_def split: option.splits)

lemma unregister_count: "queued_count (fst (unregister ns name m)) \<le> queued_count m"
proof (cases "find_task m ns name")
  case (Some r)
  have "length (splice_remove i q) \<le> length q" for i and q :: "nat list"
    by (simp add: splice_remove_def)
  then show ?thesis
    by (simp add: unregister_def Some Let_def queued_count_def sum_list_update_le)
qed (simp add: unregister_def)

lemma schedule_invalid_count:
  "\<not> task_valid env (m_task m r) \<Longrightarrow> queued_count (fst (scheduleTaskIfValid now env r delay trigger m)) \<le> queued_count m"
  by (simp add: scheduleTaskIfValid_def Let_def unregister_count split: delay.splits)

text \<open>
  The loop of \<open>taskScheduler\<close>, from a look at the queues to the \<open>await\<close> of an action (the task is then
  \<open>m_current\<close>) or to the end. The last part of the first case is what follows the loop; an exception leaves the loop
  through the \<open>finally\<close> and is not followed by a new trigger.
\<close>

definition scheduler_finally :: "'e manager \<Rightarrow> 'e manager" where
  "scheduler_finally m = m\<lparr>schedulerInstance := None, schedulerRunning := False\<rparr>"

function scheduler_loop :: "int \<Rightarrow> 'e \<Rightarrow> 'e manager \<Rightarrow> 'e manager \<times> unit outcome" where
  "scheduler_loop now env m =
     (case popNextTask now m of
        None \<Rightarrow> (triggerTaskScheduler now (scheduler_finally m), Inr ())
      | Some (r, m1) \<Rightarrow>
          if task_valid env (m_task m1 r) then
            (set_task r (\<lambda>t. t\<lparr>t_iteration := t_iteration t + 1\<rparr>) m1\<lparr>m_current := Some r\<rparr>, Inr ())
          else
            let m2 = set_task r (\<lambda>t. t\<lparr>t_status := STATUS_IDLE\<rparr>) m1
            in case scheduleTaskIfValid now env r (t_intervalMs (m_task m2 r)) False m2 of
                 (m3, Inl e) \<Rightarrow> (scheduler_finally m3, Inl e)
               | (m3, Inr _) \<Rightarrow> scheduler_loop now env m3)"
  by pat_completeness auto
termination
proof (relation "measure (\<lambda>(now, env, m). queued_count m)", goal_cases)
  case (2 now env m x r m1 m2 m3 u b)
  have "queued_count m1 < queued_count m"
    using pop_from_count [of "length (taskQueues m)" m now r m1] 2(1,2) by (simp add: popNextTask_def)
  moreover have "\<not> task_valid env (m_task m2 r)"
    using 2(3,4) by (cases "r < length (m_heap m1)") (simp_all add: task_valid_def not_less list_update_beyond)
  then have "queued_count m3 \<le> queued_count m2"
    using schedule_invalid_count [of env m2 r now "t_intervalMs (m_task m2 r)" False] 2(5,6) by (metis fst_conv)
  moreover have "queued_count m2 = queued_count m1" using 2(4) by (simp add: queued_count_def)
  ultimately show ?case by simp
qed simp

declare scheduler_loop.simps [simp del]

definition taskScheduler :: "int \<Rightarrow> 'e \<Rightarrow> 'e manager \<Rightarrow> 'e manager \<times> unit outcome" where
  "taskScheduler now env m =
     (if schedulerRunning m then (m, Inl AssertFailed)
      else scheduler_loop now env (m\<lparr>schedulerRunning := True\<rparr>))"

text \<open>A timeout that fires, and the end of the action that is awaited, with a value or an error.\<close>

definition timer_fires :: "nat \<Rightarrow> int \<Rightarrow> 'e \<Rightarrow> 'e manager \<Rightarrow> 'e manager \<times> unit outcome" where
  "timer_fires i now env m = taskScheduler now env (clear_timeout i m)"

definition action_ends :: "int \<Rightarrow> 'e \<Rightarrow> nat \<Rightarrow> 'e manager \<Rightarrow> 'e manager \<times> unit outcome" where
  "action_ends now env r m =
     (let m1 = set_task r (\<lambda>t. t\<lparr>t_status := STATUS_IDLE\<rparr>) m\<lparr>m_current := None\<rparr>
      in case scheduleTaskIfValid now env r (t_intervalMs (m_task m1 r)) False m1 of
           (m2, Inl e) \<Rightarrow> (scheduler_finally m2, Inl e)
         | (m2, Inr _) \<Rightarrow> scheduler_loop now env m2)"

text \<open>\<open>toJson\<close> and \<open>toString\<close>.\<close>

record task_report =
  rep_name :: string
  rep_status :: task_status
  rep_priority :: nat
  rep_timestampDelta :: int

definition manager_toJson :: "int \<Rightarrow> string \<Rightarrow> 'e manager \<Rightarrow> task_report list outcome" where
  "manager_toJson now ns m =
     (case map_of (m_tasks m) ns of
        None \<Rightarrow> Inl TypeErr
      | Some n \<Rightarrow> Inr (map (\<lambda>(name, r). \<lparr>rep_name = name, rep_status = t_status (m_task m r),
            rep_priority = t_priority (m_task m r), rep_timestampDelta = max 0 (m_time m r - now)\<rparr>) (ns_tasks n)))"

definition status_toString :: "task_status \<Rightarrow> string" where
  "status_toString s = (case s of STATUS_IDLE \<Rightarrow> ''idle'' | STATUS_PENDING \<Rightarrow> ''pending'')"

definition manager_toString :: "'e manager \<Rightarrow> string" where
  "manager_toString m = join_with [CHR 0x0A] (concat (map (\<lambda>(_, n).
     map (\<lambda>(_, r). task_toString (m_task m r) @ '' ('' @ status_toString (t_status (m_task m r)) @ '')'') (ns_tasks n))
     (m_tasks m)))"

text \<open>
  The runs of a manager: requests at any time, from inside actions too, timers that fire when they are due or later,
  and ends of actions. The time never goes back. The delays and intervals of the tasks are numbers.
\<close>

definition config_ok :: "'e task_config \<Rightarrow> bool" where
  "config_ok config \<longleftrightarrow> delayMs config \<noteq> Some NotANumber \<and> intervalMs config \<noteq> Some NotANumber"

inductive manager_run :: "int \<Rightarrow> 'e manager \<Rightarrow> bool" where
  new: "manager_run now manager_new"
| wait: "manager_run now m \<Longrightarrow> now \<le> now' \<Longrightarrow> manager_run now' m"
| register: "manager_run now m \<Longrightarrow> config_ok config \<Longrightarrow> manager_run now (fst (register now env ns name config m))"
| unregister: "manager_run now m \<Longrightarrow> manager_run now (fst (unregister ns name m))"
| timer: "manager_run now m \<Longrightarrow> (i, due) \<in> set (m_timers m) \<Longrightarrow> due \<le> now \<Longrightarrow> manager_run now (fst (timer_fires i now env m))"
| action: "manager_run now m \<Longrightarrow> m_current m = Some r \<Longrightarrow> manager_run now (fst (action_ends now env r m))"

end
