(* ===== verification/TaskManager_Props.thy ===== *)
theory TaskManager_Props
  imports TaskManager
begin

text \<open>
  The manager of \<open>TaskManager\<close>: the table of the tasks and the queues agree at every moment, no task is forgotten, and
  the next task is the right one. The invariant is built from five elementary changes (a task object changes, enters
  a queue, leaves it, enters the table, leaves it), of which every operation is made.
\<close>

section \<open>The order of the tasks\<close>

text \<open>The rank of a task: a higher priority comes first, then an earlier time.\<close>

datatype rank = Rank nat int

instantiation rank :: linorder
begin

fun less_eq_rank :: "rank \<Rightarrow> rank \<Rightarrow> bool" where
  "Rank p t \<le> Rank q u \<longleftrightarrow> q < p \<or> p = q \<and> t \<le> u"

definition less_rank :: "rank \<Rightarrow> rank \<Rightarrow> bool" where
  "less_rank a b \<longleftrightarrow> a \<le> b \<and> \<not> b \<le> a"

instance
proof
  fix a b c :: rank
  show "a < b \<longleftrightarrow> a \<le> b \<and> \<not> b \<le> a" by (rule less_rank_def)
  show "a \<le> a" by (cases a) simp
  show "a \<le> b \<Longrightarrow> b \<le> c \<Longrightarrow> a \<le> c" by (cases a; cases b; cases c) auto
  show "a \<le> b \<Longrightarrow> b \<le> a \<Longrightarrow> a = b" by (cases a; cases b) auto
  show "a \<le> b \<or> b \<le> a" by (cases a; cases b) auto
qed

end

definition task_rank :: "'e manager \<Rightarrow> nat \<Rightarrow> rank" where
  "task_rank m r = Rank (t_priority (m_task m r)) (m_time m r)"

section \<open>Invariant\<close>

definition registered :: "'e manager \<Rightarrow> nat \<Rightarrow> bool" where
  "registered m r \<longleftrightarrow> r < length (m_heap m) \<and> find_task m (t_namespace (m_task m r)) (t_name (m_task m r)) = Some r"

definition queued :: "'e manager \<Rightarrow> nat set" where
  "queued m = set (concat (taskQueues m))"

definition table_ok :: "'e manager \<Rightarrow> bool" where
  "table_ok m \<longleftrightarrow> wf_map (m_tasks m) \<and> m_size m = map_total ns_size (m_tasks m) \<and>
     (\<forall>(ns, n) \<in> set (m_tasks m). wf_map (ns_tasks n) \<and> ns_size n = TASK_SIZE * int (length (ns_tasks n))) \<and>
     (\<forall>ns name r. find_task m ns name = Some r \<longrightarrow>
        r < length (m_heap m) \<and> t_namespace (m_task m r) = ns \<and> t_name (m_task m r) = name)"

definition queues_ok :: "'e manager \<Rightarrow> bool" where
  "queues_ok m \<longleftrightarrow> length (taskQueues m) = 4 \<and>
     (\<forall>p < 4. distinct (taskQueues m ! p) \<and> in_order (m_time m) (taskQueues m ! p) \<and>
        (\<forall>r \<in> set (taskQueues m ! p). t_priority (m_task m r) = p \<and> t_status (m_task m r) = STATUS_PENDING \<and> registered m r))"

definition task_ok :: "'e task \<Rightarrow> bool" where
  "task_ok t \<longleftrightarrow> t_priority t < 4 \<and> t_delayMs t \<noteq> NotANumber \<and> t_intervalMs t \<noteq> NotANumber"

text \<open>The registered tasks are the queued ones and those of \<open>D\<close>, which are between two operations or run.\<close>

definition core_inv :: "nat set \<Rightarrow> 'e manager \<Rightarrow> bool" where
  "core_inv D m \<longleftrightarrow> table_ok m \<and> queues_ok m \<and> (\<forall>r < length (m_heap m). task_ok (m_task m r)) \<and>
     Collect (registered m) = queued m \<union> D \<and> queued m \<inter> D = {}"

lemma core_cong:
  assumes "m_tasks m' = m_tasks m" "m_size m' = m_size m" "taskQueues m' = taskQueues m" "m_heap m' = m_heap m"
  shows "core_inv D m' = core_inv D m"
proof -
  have find: "find_task m' = find_task m" by (intro ext) (simp add: find_task_def assms)
  then have reg: "registered m' = registered m" by (intro ext) (simp add: registered_def assms)
  show ?thesis
    by (simp add: core_inv_def table_ok_def queues_ok_def queued_def find reg assms)
qed

lemma core_sched [simp]:
  "core_inv D (m\<lparr>schedulerTimestamp := a\<rparr>) = core_inv D m" "core_inv D (m\<lparr>schedulerInstance := b\<rparr>) = core_inv D m"
  "core_inv D (m\<lparr>schedulerRunning := c\<rparr>) = core_inv D m" "core_inv D (m\<lparr>m_timers := d\<rparr>) = core_inv D m"
  "core_inv D (m\<lparr>m_nextTimer := e\<rparr>) = core_inv D m" "core_inv D (m\<lparr>m_current := f\<rparr>) = core_inv D m"
  by (rule core_cong; simp)+

lemma registered_unique:
  "registered m r \<Longrightarrow> registered m s \<Longrightarrow> m_same m r s \<Longrightarrow> s = r"
  by (simp add: registered_def task_isEqual_def)

lemma in_concat: "r \<in> set (concat qs) \<longleftrightarrow> (\<exists>p < length qs. r \<in> set (qs ! p))"
proof -
  have "(\<exists>q \<in> set qs. r \<in> set q) \<longleftrightarrow> (\<exists>p < length qs. r \<in> set (qs ! p))"
    by (metis in_set_conv_nth)
  then show ?thesis by simp
qed

lemma in_queued: "r \<in> queued m \<longleftrightarrow> (\<exists>p < length (taskQueues m). r \<in> set (taskQueues m ! p))"
  unfolding queued_def by (rule in_concat)

lemma queued_at:
  "queues_ok m \<Longrightarrow> r \<in> queued m \<longleftrightarrow> t_priority (m_task m r) < 4 \<and> r \<in> set (taskQueues m ! t_priority (m_task m r))"
  unfolding in_queued queues_ok_def by metis

lemma core_registered: "core_inv D m \<Longrightarrow> registered m r \<longleftrightarrow> r \<in> queued m \<or> r \<in> D"
  unfolding core_inv_def by blast

lemma core_find:
  "core_inv D m \<Longrightarrow> find_task m ns name = Some r \<longleftrightarrow> registered m r \<and> t_namespace (m_task m r) = ns \<and> t_name (m_task m r) = name"
  by (auto simp: core_inv_def table_ok_def registered_def)

section \<open>The elementary changes\<close>

text \<open>A task that is in no queue changes, but not its name and its priority.\<close>

lemma core_set_task:
  assumes core: "core_inv D m" and r: "r \<in> D"
    and f: "\<And>t. t_namespace (f t) = t_namespace t" "\<And>t. t_name (f t) = t_name t" "\<And>t. t_priority (f t) = t_priority t"
      "\<And>t. t_delayMs (f t) = t_delayMs t" "\<And>t. t_intervalMs (f t) = t_intervalMs t"
  shows "core_inv D (set_task r f m)"
proof -
  let ?m = "set_task r f m"
  have same: "t_namespace (m_task ?m s) = t_namespace (m_task m s)" "t_name (m_task ?m s) = t_name (m_task m s)"
    "t_priority (m_task ?m s) = t_priority (m_task m s)" "t_delayMs (m_task ?m s) = t_delayMs (m_task m s)"
    "t_intervalMs (m_task ?m s) = t_intervalMs (m_task m s)" for s
    by (cases "s = r"; cases "r < length (m_heap m)"; simp add: f list_update_beyond not_less)+
  have find: "find_task ?m = find_task m" by (intro ext) (simp add: find_task_def)
  then have reg: "registered ?m = registered m" by (intro ext) (simp add: registered_def same [simplified])
  have q: "queued ?m = queued m" by (simp add: queued_def)
  have other: "m_task ?m s = m_task m s" if "s \<in> set (taskQueues m ! p)" "p < 4" for s p
  proof -
    have "s \<in> queued m" using that core by (auto simp: core_inv_def queues_ok_def in_queued)
    then have "s \<noteq> r" using r core by (auto simp: core_inv_def)
    then show ?thesis by simp
  qed
  have "table_ok ?m" using core by (simp add: core_inv_def table_ok_def find same [simplified])
  moreover have "queues_ok ?m"
    unfolding queues_ok_def reg
  proof (intro conjI allI impI ballI)
    show "length (taskQueues ?m) = 4" using core by (simp add: core_inv_def queues_ok_def)
  next
    fix p :: nat assume p: "p < 4"
    show "distinct (taskQueues ?m ! p)" using core p by (simp add: core_inv_def queues_ok_def)
    have times: "map (m_time ?m) (taskQueues m ! p) = map (m_time m) (taskQueues m ! p)"
      by (rule map_cong [OF refl]) (use other p in metis)
    have "in_order (m_time m) (taskQueues m ! p)" using core p by (simp add: core_inv_def queues_ok_def)
    then have "in_order (m_time ?m) (taskQueues m ! p)" by (simp only: times)
    then show "in_order (m_time ?m) (taskQueues ?m ! p)" by simp
    fix s assume s: "s \<in> set (taskQueues ?m ! p)"
    then show "t_priority (m_task ?m s) = p" "t_status (m_task ?m s) = STATUS_PENDING" "registered m s"
      using core p other [of s p] by (simp_all add: core_inv_def queues_ok_def)
  qed
  moreover have "\<forall>s < length (m_heap ?m). task_ok (m_task ?m s)"
    using core by (simp add: core_inv_def task_ok_def same [simplified])
  ultimately show ?thesis using core by (simp add: core_inv_def reg q)
qed


text \<open>A task enters its queue, or leaves it.\<close>

definition other_queues :: "nat \<Rightarrow> nat list list \<Rightarrow> nat set" where
  "other_queues p qs = (\<Union>i \<in> {..<4} - {p}. set (qs ! i))"

lemma set_queue_concat:
  assumes "length qs = 4" "p < 4"
  shows "set (concat (qs[p := q])) = set q \<union> other_queues p qs"
proof (rule set_eqI)
  fix r
  have "r \<in> set (concat (qs[p := q])) \<longleftrightarrow> (\<exists>i < 4. r \<in> set (qs[p := q] ! i))"
    unfolding in_concat by (simp add: assms)
  also have "\<dots> \<longleftrightarrow> r \<in> set q \<or> (\<exists>i < 4. i \<noteq> p \<and> r \<in> set (qs ! i))"
    using assms by (metis length_list_update nth_list_update_eq nth_list_update_neq)
  also have "\<dots> \<longleftrightarrow> r \<in> set q \<union> other_queues p qs" by (auto simp: other_queues_def)
  finally show "r \<in> set (concat (qs[p := q])) \<longleftrightarrow> r \<in> set q \<union> other_queues p qs" .
qed

lemma queues_split:
  assumes "queues_ok m" "p < 4"
  shows "queued m = set (taskQueues m ! p) \<union> other_queues p (taskQueues m)"
    "set (taskQueues m ! p) \<inter> other_queues p (taskQueues m) = {}"
proof -
  have "length (taskQueues m) = 4" using assms by (simp add: queues_ok_def)
  from set_queue_concat [OF this assms(2), of "taskQueues m ! p"]
  show "queued m = set (taskQueues m ! p) \<union> other_queues p (taskQueues m)"
    by (simp add: queued_def)
  have "i = p" if "r \<in> set (taskQueues m ! p)" "i < 4" "r \<in> set (taskQueues m ! i)" for r i
    using assms that unfolding queues_ok_def by metis
  then show "set (taskQueues m ! p) \<inter> other_queues p (taskQueues m) = {}"
    by (auto simp: other_queues_def)
qed

lemma set_shift:
  "C = Q \<union> R \<union> D \<Longrightarrow> (Q \<union> R) \<inter> D = {} \<Longrightarrow> Q \<inter> R = {} \<Longrightarrow> q \<union> D' = Q \<union> D \<Longrightarrow> q \<inter> D' = {} \<Longrightarrow>
     C = q \<union> R \<union> D' \<and> (q \<union> R) \<inter> D' = {}"
  by blast

lemma queues_ok_set:
  assumes "queues_ok m" "p < 4" "distinct q" "in_order (m_time m) q"
    "\<And>r. r \<in> set q \<Longrightarrow> t_priority (m_task m r) = p \<and> t_status (m_task m r) = STATUS_PENDING \<and> registered m r"
  shows "queues_ok (set_queue p q m)"
proof -
  have "registered (set_queue p q m) = registered m"
    by (intro ext) (simp add: registered_def find_task_def)
  then show ?thesis using assms by (simp add: queues_ok_def nth_list_update)
qed

lemma core_set_queue:
  assumes core: "core_inv D m" and p: "p < 4" and ok: "queues_ok (set_queue p q m)"
    and q: "set q \<union> D' = set (taskQueues m ! p) \<union> D" "set q \<inter> D' = {}"
  shows "core_inv D' (set_queue p q m)"
proof -
  let ?m = "set_queue p q m"
  have find: "find_task ?m = find_task m" by (intro ext) (simp add: find_task_def)
  then have reg: "registered ?m = registered m" by (intro ext) (simp add: registered_def)
  have qok: "queues_ok m" using core by (simp add: core_inv_def)
  have queued: "queued ?m = set q \<union> other_queues p (taskQueues m)"
    using set_queue_concat [of "taskQueues m" p q] qok p by (simp add: queued_def queues_ok_def)
  have "Collect (registered m) = queued m \<union> D" "queued m \<inter> D = {}" using core by (simp_all add: core_inv_def)
  from set_shift [OF this [unfolded queues_split(1) [OF qok p]] queues_split(2) [OF qok p] q]
  have "Collect (registered m) = queued ?m \<union> D'" "queued ?m \<inter> D' = {}" by (simp_all only: queued)
  moreover have "table_ok ?m" using core by (simp add: core_inv_def table_ok_def find)
  ultimately show ?thesis using core ok by (simp add: core_inv_def reg)
qed

lemma core_enqueue:
  assumes core: "core_inv D m" and r: "r \<in> D" "t_status (m_task m r) = STATUS_PENDING" "t_priority (m_task m r) = p"
  shows "core_inv (D - {r}) (set_queue p (insertInQueue (m_time m) (taskQueues m ! p) r) m)"
proof -
  let ?q = "taskQueues m ! p"
  have reg: "registered m r" using core r core_registered by blast
  then have p: "p < 4" using core r(3) by (auto simp: core_inv_def registered_def task_ok_def)
  have qok: "queues_ok m" using core by (simp add: core_inv_def)
  have disj: "set ?q \<inter> D = {}" using core queues_split(1) [OF qok p] by (auto simp: core_inv_def)
  then have new: "r \<notin> set ?q" using r(1) by blast
  have "queues_ok (set_queue p (insertInQueue (m_time m) ?q r) m)"
    by (rule queues_ok_set [OF qok p])
      (use qok p r reg new in \<open>auto simp: tq.ins_distinct tq.ins_order queues_ok_def\<close>)
  then show ?thesis
    by (rule core_set_queue [OF core p]) (use r disj in auto)
qed

lemma core_take:
  assumes core: "core_inv D m" and p: "p < 4" and r: "r \<in> set (taskQueues m ! p)"
  shows "core_inv (insert r D) (set_queue p (remove1 r (taskQueues m ! p)) m)"
    "r \<notin> D" "registered m r" "t_status (m_task m r) = STATUS_PENDING" "t_priority (m_task m r) = p"
proof -
  have qok: "queues_ok m" using core by (simp add: core_inv_def)
  have r': "r \<in> queued m" using queues_split(1) [OF qok p] r by blast
  then show nD: "r \<notin> D" using core by (auto simp: core_inv_def)
  have dist: "distinct (taskQueues m ! p)" using qok p by (simp add: queues_ok_def)
  have "queues_ok (set_queue p (remove1 r (taskQueues m ! p)) m)"
    by (rule queues_ok_set [OF qok p])
      (use qok p in \<open>auto simp: queues_ok_def in_order_remove1 dest: in_set_remove1\<close>)
  then show "core_inv (insert r D) (set_queue p (remove1 r (taskQueues m ! p)) m)"
    by (rule core_set_queue [OF core p])
      (use r nD dist core queues_split(1) [OF qok p] in \<open>auto simp: core_inv_def\<close>)
  show "registered m r" "t_status (m_task m r) = STATUS_PENDING" "t_priority (m_task m r) = p"
    using qok p r by (auto simp: queues_ok_def)
qed


text \<open>A task leaves the table, or enters it.\<close>

lemma find_remove_task:
  "find_task (remove_task ns name m) a b = (if a = ns \<and> b = name then None else find_task m a b)"
  by (auto simp: find_task_def remove_task_def split: option.splits)

lemma find_add_task:
  "find_task (add_task ns name r m) a b = (if a = ns \<and> b = name then Some r else find_task m a b)"
  by (auto simp: find_task_def add_task_def Let_def split: option.splits)

lemma length_delete_present: "wf_map m \<Longrightarrow> map_of m k = Some v \<Longrightarrow> Suc (length (AList.delete k m)) = length m"
  by (induction m) (auto simp: delete_fresh image_iff split: if_splits dest: map_of_SomeD)

lemma length_update_fresh: "map_of m k = None \<Longrightarrow> length (AList.update k v m) = Suc (length m)"
  by (simp add: map_of_eq_None_iff update_fresh)

lemma in_update: "(a, b) \<in> set (AList.update k v m) \<Longrightarrow> (a, b) = (k, v) \<or> (a, b) \<in> set m"
  using set_update_subset [of k v m] by blast

lemma table_remove:
  assumes table: "table_ok m" and find: "find_task m ns name = Some r"
  shows "table_ok (remove_task ns name m)"
proof -
  obtain n where n: "map_of (m_tasks m) ns = Some n" "map_of (ns_tasks n) name = Some r"
    using find by (auto simp: find_task_def split: option.splits)
  have mem: "(ns, n) \<in> set (m_tasks m)" using n(1) by (rule map_of_SomeD)
  then have wf: "wf_map (ns_tasks n)" "ns_size n = TASK_SIZE * int (length (ns_tasks n))"
    using table by (auto simp: table_ok_def)
  let ?n = "n\<lparr>ns_tasks := AList.delete name (ns_tasks n), ns_size := ns_size n - TASK_SIZE\<rparr>"
  have size: "ns_size ?n = TASK_SIZE * int (length (ns_tasks ?n))"
    using length_delete_present [OF wf(1) n(2), symmetric] wf(2) by (simp add: algebra_simps)
  have tasks: "m_tasks (remove_task ns name m) = AList.update ns ?n (m_tasks m)"
    "m_size (remove_task ns name m) = m_size m - TASK_SIZE" by (simp_all add: remove_task_def n)
  have "\<forall>(a, b) \<in> set (AList.update ns ?n (m_tasks m)). wf_map (ns_tasks b) \<and> ns_size b = TASK_SIZE * int (length (ns_tasks b))"
    using table size wf(1) by (auto simp: table_ok_def dest!: in_update)
  moreover have "m_size m - TASK_SIZE = map_total ns_size (AList.update ns ?n (m_tasks m))"
    using table by (simp add: table_ok_def map_total_update at_key_def n)
  ultimately show ?thesis
    using table by (simp add: table_ok_def tasks find_remove_task)
qed

lemma core_remove:
  assumes core: "core_inv D m" and r: "r \<in> D" and find: "find_task m ns name = Some r"
  shows "core_inv (D - {r}) (remove_task ns name m)"
proof -
  let ?m = "remove_task ns name m"
  have reg: "registered ?m s \<longleftrightarrow> registered m s \<and> s \<noteq> r" for s
    using core_find [OF core, of ns name r] find
    by (auto simp: registered_def find_remove_task)
  have nq: "r \<notin> queued m" using core r by (auto simp: core_inv_def)
  have "queues_ok ?m"
    unfolding queues_ok_def
  proof (intro conjI allI impI ballI)
    fix p :: nat assume p: "p < 4"
    show "distinct (taskQueues ?m ! p)" "in_order (m_time ?m) (taskQueues ?m ! p)"
      using core p by (simp_all add: core_inv_def queues_ok_def)
    fix s assume s: "s \<in> set (taskQueues ?m ! p)"
    then have "s \<in> queued m" using core p by (auto simp: in_queued core_inv_def queues_ok_def)
    then show "t_priority (m_task ?m s) = p" "t_status (m_task ?m s) = STATUS_PENDING" "registered ?m s"
      using s core p nq by (auto simp: reg core_inv_def queues_ok_def)
  qed (use core in \<open>simp add: core_inv_def queues_ok_def\<close>)
  moreover have "table_ok ?m" using core find by (simp add: core_inv_def table_remove)
  moreover have "queued ?m = queued m" by (simp add: queued_def)
  moreover have "Collect (registered ?m) = Collect (registered m) - {r}" using reg by blast
  ultimately show ?thesis using core nq by (auto simp: core_inv_def)
qed

lemma table_add:
  assumes table: "table_ok m" and find: "find_task m ns name = None"
    and t: "t_namespace t = ns" "t_name t = name"
  shows "table_ok (add_task ns name (length (m_heap m)) (m\<lparr>m_heap := m_heap m @ [t]\<rparr>))"
proof -
  let ?m = "add_task ns name (length (m_heap m)) (m\<lparr>m_heap := m_heap m @ [t]\<rparr>)"
  define n where "n = (case map_of (m_tasks m) ns of None \<Rightarrow> \<lparr>ns_size = 0, ns_tasks = []\<rparr> | Some n \<Rightarrow> n)"
  have wf: "wf_map (ns_tasks n)" "ns_size n = TASK_SIZE * int (length (ns_tasks n))"
    using table by (auto simp: table_ok_def n_def split: option.splits dest!: map_of_SomeD)
  have fresh: "map_of (ns_tasks n) name = None"
    using find by (auto simp: find_task_def n_def split: option.splits)
  let ?n = "n\<lparr>ns_tasks := AList.update name (length (m_heap m)) (ns_tasks n), ns_size := ns_size n + TASK_SIZE\<rparr>"
  have size: "ns_size ?n = TASK_SIZE * int (length (ns_tasks ?n))"
    using length_update_fresh [OF fresh] wf(2) by (simp add: algebra_simps)
  have tasks: "m_tasks ?m = AList.update ns ?n (m_tasks m)" "m_size ?m = m_size m + TASK_SIZE"
    "m_heap ?m = m_heap m @ [t]" by (simp_all add: add_task_def n_def Let_def)
  have "\<forall>(a, b) \<in> set (AList.update ns ?n (m_tasks m)). wf_map (ns_tasks b) \<and> ns_size b = TASK_SIZE * int (length (ns_tasks b))"
    using table size wf(1) by (auto simp: table_ok_def dest!: in_update)
  moreover have "m_size m + TASK_SIZE = map_total ns_size (AList.update ns ?n (m_tasks m))"
    using table by (auto simp: table_ok_def map_total_update at_key_def n_def split: option.splits)
  moreover have "s < length (m_heap ?m) \<and> t_namespace (m_task ?m s) = a \<and> t_name (m_task ?m s) = b"
    if "find_task ?m a b = Some s" for a b s
  proof (cases "a = ns \<and> b = name")
    case True
    with that have "s = length (m_heap m)" by (simp add: find_add_task)
    with True show ?thesis unfolding tasks(3) by (simp add: t)
  next
    case False
    with that have "find_task m a b = Some s" by (simp add: find_add_task) (simp add: find_task_def)
    then have "s < length (m_heap m)" "t_namespace (m_task m s) = a" "t_name (m_task m s) = b"
      using table by (simp_all add: table_ok_def)
    then show ?thesis by (simp add: tasks nth_append)
  qed
  ultimately show ?thesis
    using table by (simp add: table_ok_def tasks)
qed


lemma core_add:
  assumes core: "core_inv D m" and find: "find_task m ns name = None"
    and t: "t_namespace t = ns" "t_name t = name" "task_ok t"
  shows "core_inv (insert (length (m_heap m)) D) (add_task ns name (length (m_heap m)) (m\<lparr>m_heap := m_heap m @ [t]\<rparr>))"
proof -
  let ?r = "length (m_heap m)"
  let ?m = "add_task ns name ?r (m\<lparr>m_heap := m_heap m @ [t]\<rparr>)"
  have fields: "taskQueues ?m = taskQueues m" "m_heap ?m = m_heap m @ [t]" by (simp_all add: add_task_def Let_def)
  have find': "find_task ?m a b = (if a = ns \<and> b = name then Some ?r else find_task m a b)" for a b
    unfolding find_add_task by (simp add: find_task_def)
  have old: "s < ?r" if "registered m s" for s using that by (simp add: registered_def)
  have reg: "registered ?m s \<longleftrightarrow> registered m s \<or> s = ?r" for s
  proof (cases "s < ?r")
    case True
    have "\<not> (t_namespace (m_task m s) = ns \<and> t_name (m_task m s) = name)" if "registered m s"
      using that find by (auto simp: registered_def)
    with True show ?thesis using find by (auto simp: registered_def find' fields nth_append)
  next
    case False
    then show ?thesis using old [of s] by (auto simp: registered_def [of ?m] find' fields nth_append t)
  qed
  have queued: "queued ?m = queued m" by (simp add: queued_def fields)
  have "queues_ok ?m"
    unfolding queues_ok_def
  proof (intro conjI allI impI ballI)
    fix p :: nat assume p: "p < 4"
    have mem: "registered m s" if "s \<in> set (taskQueues m ! p)" for s
      using that core p by (simp add: core_inv_def queues_ok_def)
    have times: "map (m_time ?m) (taskQueues m ! p) = map (m_time m) (taskQueues m ! p)"
      by (rule map_cong [OF refl]) (use mem old in \<open>simp add: fields nth_append\<close>)
    have "in_order (m_time m) (taskQueues m ! p)" using core p by (simp add: core_inv_def queues_ok_def)
    then have "in_order (m_time ?m) (taskQueues m ! p)" by (simp only: times)
    then show "in_order (m_time ?m) (taskQueues ?m ! p)" by (simp only: fields)
    show "distinct (taskQueues ?m ! p)" using core p by (simp add: core_inv_def queues_ok_def fields)
    fix s assume s: "s \<in> set (taskQueues ?m ! p)"
    then have "registered m s" using mem by (simp add: fields)
    with s core p old [OF this] show "t_priority (m_task ?m s) = p" "t_status (m_task ?m s) = STATUS_PENDING" "registered ?m s"
      by (simp_all add: core_inv_def queues_ok_def fields nth_append reg)
  qed (use core in \<open>simp add: core_inv_def queues_ok_def fields\<close>)
  moreover have "table_ok ?m" using core find t by (simp add: core_inv_def table_add)
  moreover have "\<forall>s < length (m_heap ?m). task_ok (m_task ?m s)"
    using core t(3) by (auto simp: core_inv_def fields nth_append less_Suc_eq)
  moreover have "Collect (registered ?m) = insert ?r (Collect (registered m))" using reg by blast
  moreover have "?r \<notin> queued m" using core old by (auto simp: core_inv_def)
  ultimately show ?thesis using core by (auto simp: core_inv_def queued)
qed


section \<open>The operations\<close>

lemma trigger_fields [simp]:
  "m_tasks (triggerTaskScheduler now m) = m_tasks m" "m_size (triggerTaskScheduler now m) = m_size m"
  "taskQueues (triggerTaskScheduler now m) = taskQueues m" "m_heap (triggerTaskScheduler now m) = m_heap m"
  "schedulerRunning (triggerTaskScheduler now m) = schedulerRunning m" "m_current (triggerTaskScheduler now m) = m_current m"
  by (auto simp: triggerTaskScheduler_def clear_timeout_def set_timeout_def Let_def split: option.splits prod.splits)

lemma core_trigger [simp]: "core_inv D (triggerTaskScheduler now m) = core_inv D m"
  by (rule core_cong) simp_all

text \<open>\<open>unregister\<close>: a queued task leaves its queue and the table, an idle one the table; one that runs stays.\<close>

lemma unregister_queued:
  assumes core: "core_inv D m" and find: "find_task m ns name = Some r" and r: "r \<notin> D"
  defines "p \<equiv> t_priority (m_task m r)"
  shows "unregister ns name m = (remove_task ns name (set_queue p (remove1 r (taskQueues m ! p)) m), Inr ())"
    "core_inv D (fst (unregister ns name m))"
proof -
  have reg: "registered m r" using core find core_find by blast
  have qok: "queues_ok m" using core by (simp add: core_inv_def)
  have "r \<in> queued m" using core reg r by (auto simp: core_inv_def)
  then have p: "p < 4" and mem: "r \<in> set (taskQueues m ! p)" using queued_at [OF qok] by (simp_all add: p_def)
  have order: "in_order (m_time m) (taskQueues m ! p)" and dist: "distinct (taskQueues m ! p)"
    using qok p by (simp_all add: queues_ok_def)
  have only: "m_same m r s \<longleftrightarrow> s = r" if "s \<in> set (taskQueues m ! p)" for s
    using qok p that reg registered_unique [of m r s] by (auto simp: queues_ok_def task_isEqual_def)
  have found: "findInQueue (m_time m) (m_same m) (taskQueues m ! p) r \<noteq> -1"
    "splice_remove (nat (findInQueue (m_time m) (m_same m) (taskQueues m ! p) r)) (taskQueues m ! p) = remove1 r (taskQueues m ! p)"
    using tq.find_there [of "m_time m" "taskQueues m ! p" r "m_same m"] order mem only dist by blast+
  show eq: "unregister ns name m = (remove_task ns name (set_queue p (remove1 r (taskQueues m ! p)) m), Inr ())"
    using found dist core_take(4) [OF core p mem] by (simp add: unregister_def find p_def Let_def)
  have "core_inv (insert r D - {r}) (fst (unregister ns name m))"
    unfolding eq fst_conv
    by (rule core_remove [OF core_take(1) [OF core p mem]]) (use find in \<open>simp_all add: find_task_def\<close>)
  then show "core_inv D (fst (unregister ns name m))" using r by simp
qed

lemma unregister_idle:
  assumes "core_inv D m" "find_task m ns name = Some r" "r \<in> D" "t_status (m_task m r) = STATUS_IDLE"
  shows "unregister ns name m = (remove_task ns name m, Inr ())" "core_inv (D - {r}) (fst (unregister ns name m))"
proof -
  show "unregister ns name m = (remove_task ns name m, Inr ())" using assms(2,4) by (simp add: unregister_def)
  then show "core_inv (D - {r}) (fst (unregister ns name m))" using core_remove [OF assms(1,3,2)] by simp
qed

lemma unregister_running:
  assumes core: "core_inv D m" and find: "find_task m ns name = Some r" and r: "r \<in> D" "t_status (m_task m r) = STATUS_PENDING"
  shows "unregister ns name m = (m, Inl AssertFailed)"
proof -
  let ?q = "taskQueues m ! t_priority (m_task m r)"
  have reg: "registered m r" using core find core_find by blast
  have qok: "queues_ok m" using core by (simp add: core_inv_def)
  have p: "t_priority (m_task m r) < 4" using core reg by (auto simp: core_inv_def registered_def task_ok_def)
  have "\<not> m_same m r s" if "s \<in> set ?q" for s
  proof
    assume "m_same m r s"
    moreover have "registered m s" using qok p that by (simp add: queues_ok_def)
    ultimately have "s = r" using reg registered_unique by blast
    with that queued_at [OF qok] p core r show False by (auto simp: core_inv_def)
  qed
  then have "findInQueue (m_time m) (m_same m) ?q r = -1"
    using qok p by (intro tq.find_absent) (auto simp: queues_ok_def)
  then show ?thesis by (simp add: unregister_def find r Let_def)
qed

text \<open>\<open>scheduleTaskIfValid\<close> on a task that is in no queue.\<close>

definition set_pending :: "int \<Rightarrow> nat \<Rightarrow> 'e manager \<Rightarrow> 'e manager" where
  "set_pending t r m = set_task r (\<lambda>a. a\<lparr>t_status := STATUS_PENDING, t_timestamp := t\<rparr>) m"

definition enqueued :: "int \<Rightarrow> nat \<Rightarrow> 'e manager \<Rightarrow> 'e manager" where
  "enqueued t r m =
     (let m1 = set_pending t r m; p = t_priority (m_task m r)
      in set_queue p (insertInQueue (m_time m1) (taskQueues m1 ! p) r) m1)"

lemma enqueued_fields [simp]:
  "m_current (enqueued t r m) = m_current m" "schedulerRunning (enqueued t r m) = schedulerRunning m"
  "schedulerTimestamp (enqueued t r m) = schedulerTimestamp m" "m_nextTimer (enqueued t r m) = m_nextTimer m"
  "schedulerInstance (enqueued t r m) = schedulerInstance m" "m_timers (enqueued t r m) = m_timers m"
  by (simp_all add: enqueued_def set_pending_def Let_def)

lemma enqueued_other: "s \<noteq> r \<Longrightarrow> m_task (enqueued t r m) s = m_task m s"
  by (simp add: enqueued_def set_pending_def Let_def)

lemma core_enqueued:
  assumes core: "core_inv D m" and r: "r \<in> D"
  shows "core_inv (D - {r}) (enqueued t r m)"
proof -
  have "r < length (m_heap m)" using core r core_registered by (auto simp: registered_def)
  then have "t_status (m_task (set_pending t r m) r) = STATUS_PENDING"
    "t_priority (m_task (set_pending t r m) r) = t_priority (m_task m r)" by (simp_all add: set_pending_def)
  moreover have "core_inv D (set_pending t r m)"
    unfolding set_pending_def by (rule core_set_task [OF core r]) simp_all
  ultimately show ?thesis using core_enqueue r by (simp add: enqueued_def Let_def)
qed

lemma schedule_cases:
  assumes core: "core_inv D m" and r: "r \<in> D" "t_status (m_task m r) = STATUS_IDLE"
  shows "scheduleTaskIfValid now env r (Ms d) trigger m =
      (if task_valid env (m_task m r) then (if trigger then triggerTaskScheduler now (enqueued (now + d) r m) else enqueued (now + d) r m)
       else remove_task (t_namespace (m_task m r)) (t_name (m_task m r)) m, Inr ())"
    "core_inv (D - {r}) (fst (scheduleTaskIfValid now env r (Ms d) trigger m))"
proof -
  have reg: "find_task m (t_namespace (m_task m r)) (t_name (m_task m r)) = Some r"
    using core r core_registered by (auto simp: registered_def)
  show eq: "scheduleTaskIfValid now env r (Ms d) trigger m =
      (if task_valid env (m_task m r) then (if trigger then triggerTaskScheduler now (enqueued (now + d) r m) else enqueued (now + d) r m)
       else remove_task (t_namespace (m_task m r)) (t_name (m_task m r)) m, Inr ())"
    using reg r unregister_idle(1) [OF core reg r]
    by (simp add: scheduleTaskIfValid_def isRegistered_def enqueued_def set_pending_def Let_def)
  show "core_inv (D - {r}) (fst (scheduleTaskIfValid now env r (Ms d) trigger m))"
    unfolding eq using core_enqueued [OF core r(1)] core_remove [OF core r(1) reg] by simp
qed


section \<open>The timer\<close>

text \<open>The least time of the queues, from their heads.\<close>

lemma next_fold:
  assumes "\<forall>q \<in> set qs. in_order ts q"
  shows "case foldl (\<lambda>least q. case q of [] \<Rightarrow> least | r # _ \<Rightarrow> (case least of None \<Rightarrow> Some (ts r) | Some t \<Rightarrow> Some (min (ts r) t))) acc qs of
      None \<Rightarrow> acc = None \<and> (\<forall>q \<in> set qs. q = [])
    | Some t \<Rightarrow> (\<forall>a. acc = Some a \<longrightarrow> t \<le> a) \<and> (\<forall>q \<in> set qs. \<forall>r \<in> set q. t \<le> ts r)"
  using assms
proof (induction qs arbitrary: acc)
  case Nil
  then show ?case by (simp split: option.splits)
next
  case (Cons q qs)
  show ?case
  proof (cases q)
    case Nil
    then show ?thesis using Cons.IH [of acc] Cons.prems by (auto split: option.splits)
  next
    case (Cons r rest)
    define acc' where "acc' = (case acc of None \<Rightarrow> Some (ts r) | Some t \<Rightarrow> Some (min (ts r) t))"
    have "\<forall>s \<in> set q. ts r \<le> ts s" using Cons.prems Cons by simp
    then show ?thesis
      using Cons.IH [of acc'] Cons.prems unfolding Cons
      by (cases acc) (auto simp: acc'_def min_def split: option.splits if_splits)
  qed
qed

lemma queues_in_order: "queues_ok m \<Longrightarrow> \<forall>q \<in> set (taskQueues m). in_order (m_time m) q"
  by (auto simp: queues_ok_def in_set_conv_nth)

lemma next_none: "queues_ok m \<Longrightarrow> getNextTaskTimestamp m = None \<Longrightarrow> queued m = {}"
  using next_fold [OF queues_in_order, of m None] by (simp add: getNextTaskTimestamp_def queued_def)

lemma next_some: "queues_ok m \<Longrightarrow> getNextTaskTimestamp m = Some t \<Longrightarrow> r \<in> queued m \<Longrightarrow> t \<le> m_time m r"
  using next_fold [OF queues_in_order, of m None] by (auto simp: getNextTaskTimestamp_def queued_def)

text \<open>
  The timer is set while the scheduler does not run and only then; it is due when the next task is, or one
  millisecond after it was set.
\<close>

definition timer_ok :: "int \<Rightarrow> 'e manager \<Rightarrow> bool" where
  "timer_ok now m \<longleftrightarrow>
     (if schedulerRunning m then m_timers m = []
      else case schedulerInstance m of
        None \<Rightarrow> m_timers m = []
      | Some i \<Rightarrow> \<exists>due. m_timers m = [(i, due)] \<and> due \<le> max (schedulerTimestamp m) (now + 1))"

definition awaited :: "'e manager \<Rightarrow> bool" where
  "awaited m \<longleftrightarrow> schedulerRunning m \<or> (\<forall>r \<in> queued m. schedulerInstance m \<noteq> None \<and> schedulerTimestamp m \<le> m_time m r)"

lemma timer_ok_later: "timer_ok now m \<Longrightarrow> now \<le> now' \<Longrightarrow> timer_ok now' m"
  by (force simp: timer_ok_def split: if_splits option.splits)

lemma trigger_timer:
  assumes timer: "timer_ok now m" and q: "queues_ok m"
  shows "timer_ok now (triggerTaskScheduler now m)" "awaited (triggerTaskScheduler now m)"
proof -
  let ?m = "triggerTaskScheduler now m"
  have queued: "queued ?m = queued m" "m_heap ?m = m_heap m" by (simp_all add: queued_def)
  have "timer_ok now ?m \<and> awaited ?m"
  proof (cases "schedulerRunning m")
    case True
    then show ?thesis using timer by (simp add: triggerTaskScheduler_def awaited_def)
  next
    case idle: False
    show ?thesis
    proof (cases "getNextTaskTimestamp m")
      case None
      then show ?thesis using next_none [OF q] idle timer by (simp add: triggerTaskScheduler_def awaited_def)
    next
      case (Some t)
      note least = next_some [OF q Some]
      show ?thesis
      proof (cases "\<exists>i. schedulerInstance m = Some i \<and> schedulerTimestamp m \<le> t")
        case True
        then have "?m = m" using idle Some by (auto simp: triggerTaskScheduler_def)
        then show ?thesis using timer True least idle by (auto simp: awaited_def dest: order_trans)
      next
        case False
        then have "m_timers ?m = [(m_nextTimer m, now + (if t > now then t - now else 1))]"
          "schedulerInstance ?m = Some (m_nextTimer m)" "schedulerTimestamp ?m = t"
          using idle Some timer
          by (auto simp: triggerTaskScheduler_def timer_ok_def clear_timeout_def set_timeout_def split: option.splits)
        then show ?thesis using idle least by (auto simp: timer_ok_def awaited_def queued)
      qed
    qed
  qed
  then show "timer_ok now ?m" "awaited ?m" by simp_all
qed

section \<open>The next task\<close>

lemma pop_from_result:
  assumes "p \<le> 4" "queues_ok m"
  shows "case pop_from now m p of
      None \<Rightarrow> \<forall>i < p. \<forall>s \<in> set (taskQueues m ! i). now < m_time m s
    | Some (r, m') \<Rightarrow> (\<exists>i < p. \<exists>rest. taskQueues m ! i = r # rest \<and> m' = set_queue i rest m \<and> m_time m r \<le> now \<and>
        (\<forall>j < p. i < j \<longrightarrow> (\<forall>s \<in> set (taskQueues m ! j). now < m_time m s)))"
  using assms
proof (induction now m p rule: pop_from.induct)
  case (2 now m p)
  have order: "in_order (m_time m) (taskQueues m ! p)" using 2(3,4) by (simp add: queues_ok_def)
  have p: "p \<le> 4" using 2(3) by simp
  show ?case
  proof (cases "taskQueues m ! p")
    case Nil
    then show ?thesis using "2.IH"(1) [OF Nil p 2(4)]
      by (auto simp: less_Suc_eq split: option.splits)
  next
    case (Cons r rest)
    show ?thesis
    proof (cases "m_time m r \<le> now")
      case True
      then show ?thesis using Cons by auto
    next
      case False
      then have "\<forall>s \<in> set (taskQueues m ! p). now < m_time m s"
        using order unfolding Cons by auto
      then show ?thesis using "2.IH"(2) [OF Cons False p 2(4)] False Cons
        by (auto simp: less_Suc_eq split: option.splits)
    qed
  qed
qed simp

lemma pop_none: "queues_ok m \<Longrightarrow> popNextTask now m = None \<Longrightarrow> s \<in> queued m \<Longrightarrow> now < m_time m s"
  using pop_from_result [of 4 m now] by (auto simp: popNextTask_def queues_ok_def in_queued)

lemma pop_some:
  assumes q: "queues_ok m" and pop: "popNextTask now m = Some (r, m')"
  obtains rest where "taskQueues m ! t_priority (m_task m r) = r # rest"
    "m' = set_queue (t_priority (m_task m r)) rest m" "t_priority (m_task m r) < 4" "m_time m r \<le> now"
    "\<And>s. s \<in> queued m \<Longrightarrow> m_time m s \<le> now \<Longrightarrow> task_rank m r \<le> task_rank m s"
proof -
  have len: "length (taskQueues m) = 4" using q by (simp add: queues_ok_def)
  obtain i rest where i: "i < 4" "taskQueues m ! i = r # rest" "m' = set_queue i rest m" "m_time m r \<le> now"
    and above: "\<forall>j < 4. i < j \<longrightarrow> (\<forall>s \<in> set (taskQueues m ! j). now < m_time m s)"
    using pop_from_result [of 4 m now] pop q by (auto simp: popNextTask_def len)
  have p: "t_priority (m_task m r) = i" using q i(1,2) by (simp add: queues_ok_def)
  have "task_rank m r \<le> task_rank m s" if s: "s \<in> queued m" "m_time m s \<le> now" for s
  proof -
    obtain j where j: "j < 4" "s \<in> set (taskQueues m ! j)" using s(1) len by (auto simp: in_queued)
    then have pj: "t_priority (m_task m s) = j" using q by (simp add: queues_ok_def)
    have "j \<le> i" using above j s(2) by (meson linorder_not_less)
    moreover have "m_time m r \<le> m_time m s" if "j = i"
      using q i(1,2) j(2) that by (auto simp: queues_ok_def)
    ultimately show ?thesis by (auto simp: task_rank_def p pj)
  qed
  with that [of rest] i p show thesis by simp
qed


section \<open>The scheduler\<close>

definition manager_inv :: "int \<Rightarrow> 'e manager \<Rightarrow> bool" where
  "manager_inv now m \<longleftrightarrow> core_inv (set_option (m_current m)) m \<and>
     (\<forall>r. m_current m = Some r \<longrightarrow> t_status (m_task m r) = STATUS_PENDING) \<and>
     (schedulerRunning m \<longleftrightarrow> m_current m \<noteq> None) \<and> timer_ok now m \<and> awaited m"

text \<open>Between two tasks of the loop of the scheduler.\<close>

definition in_loop :: "'e manager \<Rightarrow> bool" where
  "in_loop m \<longleftrightarrow> core_inv {} m \<and> m_current m = None \<and> schedulerRunning m \<and> m_timers m = []"

text \<open>
  What a run of the loop leaves: the task whose action has started is due and no due task comes before it, or no
  task is due; only tasks that are due and not valid are gone.
\<close>

definition loop_result :: "int \<Rightarrow> 'e \<Rightarrow> 'e manager \<Rightarrow> 'e manager \<Rightarrow> bool" where
  "loop_result now env m m' \<longleftrightarrow>
     (case m_current m' of
        None \<Rightarrow> \<forall>s \<in> queued m'. now < m_time m' s
      | Some r \<Rightarrow> m_time m' r \<le> now \<and> (\<forall>s \<in> queued m'. m_time m' s \<le> now \<longrightarrow> task_rank m' r \<le> task_rank m' s)) \<and>
     (\<forall>s. registered m s \<longrightarrow> registered m' s \<or> \<not> task_valid env (m_task m s) \<and> m_time m s \<le> now)"

lemma pop_core:
  assumes core: "core_inv {} m" and pop: "popNextTask now m = Some (r, m1)"
  shows "core_inv {r} m1" "registered m1 = registered m" "queued m1 = queued m - {r}" "r \<in> queued m"
    "t_status (m_task m r) = STATUS_PENDING" "m_heap m1 = m_heap m" "m_time m r \<le> now" "r < length (m_heap m)"
    "\<And>s. s \<in> queued m \<Longrightarrow> m_time m s \<le> now \<Longrightarrow> task_rank m r \<le> task_rank m s"
    "m_current m1 = m_current m" "schedulerRunning m1 = schedulerRunning m" "m_timers m1 = m_timers m"
proof -
  have q: "queues_ok m" using core by (simp add: core_inv_def)
  obtain rest where head: "taskQueues m ! t_priority (m_task m r) = r # rest"
    and m1: "m1 = set_queue (t_priority (m_task m r)) rest m" and p: "t_priority (m_task m r) < 4"
    and due: "m_time m r \<le> now" and first: "\<And>s. s \<in> queued m \<Longrightarrow> m_time m s \<le> now \<Longrightarrow> task_rank m r \<le> task_rank m s"
    using pop_some [OF q pop] by metis
  have mem: "r \<in> set (taskQueues m ! t_priority (m_task m r))" by (simp add: head)
  from core_take [OF core p mem] show core1: "core_inv {r} m1" and "t_status (m_task m r) = STATUS_PENDING"
    by (simp_all add: m1 head)
  show reg: "registered m1 = registered m" by (intro ext) (simp add: m1 registered_def find_task_def)
  show "r \<in> queued m" using queues_split(1) [OF q p] mem by blast
  show "queued m1 = queued m - {r}" using core core1 by (auto simp: core_inv_def reg)
  show "r < length (m_heap m)" using core_take(3) [OF core p mem] by (simp add: registered_def)
  show "m_time m r \<le> now" by (rule due)
  show "\<And>s. s \<in> queued m \<Longrightarrow> m_time m s \<le> now \<Longrightarrow> task_rank m r \<le> task_rank m s" by (rule first)
qed (use pop_some [of m now r m1] core pop in \<open>auto simp: core_inv_def elim!: pop_some\<close>)

text \<open>The task that is taken is not valid: it leaves the table.\<close>

lemma loop_invalid:
  assumes loop: "in_loop m" and pop: "popNextTask now m = Some (r, m1)" and invalid: "\<not> task_valid env (m_task m1 r)"
  defines "m2 \<equiv> set_task r (\<lambda>t. t\<lparr>t_status := STATUS_IDLE\<rparr>) m1"
  shows "\<exists>m3. scheduleTaskIfValid now env r (t_intervalMs (m_task m2 r)) False m2 = (m3, Inr ()) \<and> in_loop m3 \<and>
    (\<forall>s. s \<noteq> r \<longrightarrow> m_task m3 s = m_task m s) \<and> (\<forall>s. registered m s \<longrightarrow> s = r \<or> registered m3 s)"
proof -
  have core: "core_inv {} m" using loop by (simp add: in_loop_def)
  note popped = pop_core [OF core pop]
  have core2: "core_inv {r} m2" unfolding m2_def by (rule core_set_task [OF popped(1)]) simp_all
  have at: "m_task m2 r = (m_task m r)\<lparr>t_status := STATUS_IDLE\<rparr>" using popped(6,8) by (simp add: m2_def)
  have "task_ok (m_task m r)" using core popped(8) by (simp add: core_inv_def)
  then obtain d where d: "t_intervalMs (m_task m2 r) = Ms d" by (cases "t_intervalMs (m_task m r)") (auto simp: at task_ok_def)
  have invalid2: "\<not> task_valid env (m_task m2 r)" using invalid popped(6) by (simp add: at task_valid_def)
  let ?m3 = "remove_task (t_namespace (m_task m2 r)) (t_name (m_task m2 r)) m2"
  have sched: "scheduleTaskIfValid now env r (Ms d) False m2 = (?m3, Inr ())" and core3: "core_inv {} ?m3"
    using schedule_cases [OF core2, of r now env d False] invalid2 by (simp_all add: at)
  have "queued ?m3 = queued m - {r}" using popped(3) by (simp add: queued_def m2_def)
  then have "registered ?m3 s" if "registered m s" "s \<noteq> r" for s
    using that core core3 core_registered by blast
  moreover have "in_loop ?m3" using core3 loop popped(10-12) by (simp add: in_loop_def m2_def)
  moreover have "m_task ?m3 s = m_task m s" if "s \<noteq> r" for s using that popped(6) by (simp add: m2_def)
  ultimately show ?thesis unfolding d using sched by blast
qed

lemma scheduler_loop_result:
  "in_loop m \<Longrightarrow> snd (scheduler_loop now env m) = Inr () \<and> manager_inv now (fst (scheduler_loop now env m)) \<and>
     loop_result now env m (fst (scheduler_loop now env m))"
proof (induction now env m rule: scheduler_loop.induct)
  case (1 now env m)
  have core: "core_inv {} m" and q: "queues_ok m" using 1(2) by (auto simp: in_loop_def core_inv_def)
  show ?case
  proof (cases "popNextTask now m")
    case None
    let ?m = "scheduler_finally m"
    have core': "core_inv {} ?m" using core by (simp add: scheduler_finally_def)
    then have "queues_ok ?m" by (simp add: core_inv_def)
    moreover have "timer_ok now ?m" "m_current ?m = None"
      using 1(2) by (simp_all add: scheduler_finally_def timer_ok_def in_loop_def)
    moreover note core'
    moreover have "queued (triggerTaskScheduler now ?m) = queued m" "registered (triggerTaskScheduler now ?m) = registered m"
      by (auto simp: queued_def scheduler_finally_def registered_def find_task_def)
    moreover have "m_heap (triggerTaskScheduler now ?m) = m_heap m" "\<not> schedulerRunning ?m"
      by (simp_all add: scheduler_finally_def)
    moreover have "scheduler_loop now env m = (triggerTaskScheduler now ?m, Inr ())"
      by (subst scheduler_loop.simps) (simp add: None)
    ultimately show ?thesis
      using trigger_timer [of now ?m] pop_none [OF q None] by (simp add: manager_inv_def loop_result_def)
  next
    case (Some a)
    obtain r m1 where a: "a = (r, m1)" by (cases a)
    note pop = Some [unfolded a]
    note popped = pop_core [OF core pop]
    show ?thesis
    proof (cases "task_valid env (m_task m1 r)")
      case True
      define m' where "m' = set_task r (\<lambda>t. t\<lparr>t_iteration := t_iteration t + 1\<rparr>) m1\<lparr>m_current := Some r\<rparr>"
      have eq: "scheduler_loop now env m = (m', Inr ())" by (subst scheduler_loop.simps) (simp add: pop True m'_def)
      have core': "core_inv {r} m'"
        using core_set_task [OF popped(1), of r "\<lambda>t. t\<lparr>t_iteration := t_iteration t + 1\<rparr>"] by (simp add: m'_def)
      have same: "m_time m' s = m_time m s" "t_priority (m_task m' s) = t_priority (m_task m s)" "t_status (m_task m' s) = t_status (m_task m s)" for s
        using popped(6,8) by (cases "s = r"; simp add: m'_def)+
      have fields: "m_current m' = Some r" "schedulerRunning m'" "m_timers m' = []"
        using 1(2) popped(11,12) by (simp_all add: m'_def in_loop_def)
      have queued: "queued m' = queued m - {r}" using popped(3) by (simp add: queued_def m'_def)
      have "registered m' s" if "registered m s" for s
        using that core_registered [OF core] core_registered [OF core'] queued by blast
      then have "loop_result now env m m'"
        using popped(7,9) same queued fields(1) by (simp add: loop_result_def task_rank_def)
      moreover have "manager_inv now m'"
        using core' popped(5) same(3) [of r] fields by (simp add: manager_inv_def timer_ok_def awaited_def)
      ultimately show ?thesis by (simp add: eq)
    next
      case False
      let ?m2 = "set_task r (\<lambda>t. t\<lparr>t_status := STATUS_IDLE\<rparr>) m1"
      obtain m3 where sched: "scheduleTaskIfValid now env r (t_intervalMs (m_task ?m2 r)) False ?m2 = (m3, Inr ())"
        and loop3: "in_loop m3" and others: "\<forall>s. s \<noteq> r \<longrightarrow> m_task m3 s = m_task m s" "\<forall>s. registered m s \<longrightarrow> s = r \<or> registered m3 s"
        using loop_invalid [OF 1(2) pop False] by blast
      have eq: "scheduler_loop now env m = scheduler_loop now env m3"
        by (subst scheduler_loop.simps) (use pop False sched in simp)
      have IH: "snd (scheduler_loop now env m3) = Inr () \<and> manager_inv now (fst (scheduler_loop now env m3)) \<and>
          loop_result now env m3 (fst (scheduler_loop now env m3))"
        by (rule "1.IH" [OF pop refl False refl sched [symmetric] refl loop3])
      have "\<not> task_valid env (m_task m r)" using False popped(6) by simp
      then have "loop_result now env m (fst (scheduler_loop now env m3))"
        using IH others popped(7) unfolding loop_result_def by metis
      then show ?thesis using IH unfolding eq by blast
    qed
  qed
qed


lemma remove_task_queued [simp]: "queued (remove_task ns name m) = queued m"
  by (simp add: queued_def)

lemma timer_ok_cong:
  "schedulerRunning m' = schedulerRunning m \<Longrightarrow> m_timers m' = m_timers m \<Longrightarrow> schedulerInstance m' = schedulerInstance m \<Longrightarrow>
     schedulerTimestamp m' = schedulerTimestamp m \<Longrightarrow> timer_ok now m' = timer_ok now m"
  by (simp add: timer_ok_def split: option.split)

lemma inv_core: "manager_inv now m \<Longrightarrow> core_inv (set_option (m_current m)) m"
  by (simp add: manager_inv_def)

text \<open>The requests. A task that is not the running one leaves; the running one stays.\<close>

lemma unregister_inv:
  assumes inv: "manager_inv now m" and find: "find_task m ns name = Some r"
  shows "manager_inv now (fst (unregister ns name m)) \<and> m_heap (fst (unregister ns name m)) = m_heap m \<and>
    m_current (fst (unregister ns name m)) = m_current m \<and>
    (if m_current m = Some r then unregister ns name m = (m, Inl AssertFailed)
     else snd (unregister ns name m) = Inr () \<and> find_task (fst (unregister ns name m)) ns name = None)"
proof (cases "m_current m = Some r")
  case True
  then show ?thesis
    using unregister_running [OF inv_core [OF inv] find] inv by (simp add: manager_inv_def)
next
  case False
  then have r: "r \<notin> set_option (m_current m)" by auto
  let ?p = "t_priority (m_task m r)"
  let ?m1 = "set_queue ?p (remove1 r (taskQueues m ! ?p)) m"
  note un = unregister_queued [OF inv_core [OF inv] find r]
  have "core_inv (set_option (m_current m)) (remove_task ns name ?m1)" using un by simp
  moreover have "timer_ok now (remove_task ns name ?m1)"
    using inv by (simp add: manager_inv_def timer_ok_cong [of "remove_task ns name ?m1" m])
  moreover have "queued (remove_task ns name ?m1) \<subseteq> queued m"
  proof -
    have "core_inv (set_option (m_current m)) m" by (rule inv_core [OF inv])
    moreover from this have "registered m r" using find core_find by blast
    ultimately have q: "queues_ok m" "?p < 4" by (auto simp: core_inv_def registered_def task_ok_def)
    then have "queued ?m1 = set (remove1 r (taskQueues m ! ?p)) \<union> other_queues ?p (taskQueues m)"
      using set_queue_concat [of "taskQueues m" ?p] by (simp add: queued_def queues_ok_def)
    then show ?thesis using queues_split(1) [OF q] by (auto dest: in_set_remove1 notin_set_remove1)
  qed
  then have "awaited (remove_task ns name ?m1)"
    using inv by (auto simp: manager_inv_def awaited_def)
  ultimately show ?thesis
    using inv False un(1) by (simp add: manager_inv_def find_remove_task)
qed

lemma register_fresh_inv:
  fixes m :: "'e manager" and env :: 'e
  assumes inv: "manager_inv now m" and find: "find_task m ns name = None"
    and t: "t_namespace t = ns" "t_name t = name" "task_ok t" "t_status t = STATUS_IDLE" "t_delayMs t = Ms d"
  defines "r \<equiv> length (m_heap m)"
  defines "m2 \<equiv> add_task ns name r (m\<lparr>m_heap := m_heap m @ [t]\<rparr>)"
  defines "m3 \<equiv> fst (scheduleTaskIfValid now env r (Ms d) True m2)"
  shows "snd (scheduleTaskIfValid now env r (Ms d) True m2) = Inr ()" "manager_inv now m3"
    "task_valid env t \<Longrightarrow> r \<in> queued m3 \<and> m_time m3 r = now + d" "\<not> task_valid env t \<Longrightarrow> find_task m3 ns name = None"
proof -
  let ?D = "set_option (m_current m)"
  have fields: "taskQueues m2 = taskQueues m" "m_heap m2 = m_heap m @ [t]" "m_current m2 = m_current m" "schedulerRunning m2 = schedulerRunning m"
    "m_timers m2 = m_timers m" "schedulerInstance m2 = schedulerInstance m" "schedulerTimestamp m2 = schedulerTimestamp m"
    by (simp_all add: m2_def add_task_def Let_def)
  have core2: "core_inv (insert r ?D) m2"
    unfolding m2_def r_def by (rule core_add [OF inv_core [OF inv] find t(1-3)])
  have at: "m_task m2 r = t" by (simp add: fields r_def)
  have fresh: "r \<notin> queued m" "r \<notin> ?D"
    using core_registered [OF inv_core [OF inv], of r] by (auto simp: registered_def r_def)
  have core3: "core_inv ?D m3"
    using schedule_cases(2) [OF core2, of r now env d True] fresh(2) by (simp add: at t m3_def)
  have sched: "scheduleTaskIfValid now env r (Ms d) True m2 =
      (if task_valid env t then triggerTaskScheduler now (enqueued (now + d) r m2) else remove_task ns name m2, Inr ())"
    using schedule_cases(1) [OF core2, of r now env d True] by (simp add: at t)
  then show "snd (scheduleTaskIfValid now env r (Ms d) True m2) = Inr ()" by simp
  have timer2: "timer_ok now m2" using inv by (simp add: manager_inv_def timer_ok_cong [of m2 m] fields)
  have running: "t_status (m_task m2 c) = STATUS_PENDING" if "m_current m = Some c" for c
  proof -
    have "c < length (m_heap m)" using core_registered [OF inv_core [OF inv], of c] that by (simp add: registered_def)
    then show ?thesis using inv that by (simp add: manager_inv_def fields nth_append)
  qed
  show "manager_inv now m3"
  proof (cases "task_valid env t")
    case True
    let ?m = "enqueued (now + d) r m2"
    have m3: "m3 = triggerTaskScheduler now ?m" using True sched by (simp add: m3_def)
    have "queues_ok ?m" using core3 by (simp add: m3) (simp add: core_inv_def)
    moreover have "timer_ok now ?m" using timer2 by (simp add: timer_ok_cong [of ?m m2])
    moreover have "t_status (m_task m3 c) = STATUS_PENDING" if "m_current m = Some c" for c
      using running [OF that] that fresh(2) by (auto simp: m3 enqueued_other)
    ultimately show ?thesis
      using core3 trigger_timer [of now ?m] inv by (simp add: manager_inv_def m3 fields)
  next
    case False
    have m3: "m3 = remove_task ns name m2" using False sched by (simp add: m3_def)
    have timer3: "timer_ok now m3" using timer2 by (simp add: m3 timer_ok_cong [of "remove_task ns name m2" m2])
    have "m_time m2 s = m_time m s" if "s \<in> queued m" for s
      using core_registered [OF inv_core [OF inv], of s] that by (simp add: registered_def fields nth_append)
    moreover have "queued m3 = queued m" by (simp add: m3) (simp add: queued_def fields)
    ultimately have "awaited m3"
      using inv by (auto simp: manager_inv_def awaited_def m3 fields)
    then show ?thesis
      using core3 timer3 inv running by (simp add: manager_inv_def m3 fields)
  qed
  show "r \<in> queued m3 \<and> m_time m3 r = now + d" if "task_valid env t"
  proof -
    have "registered m2 r" using core_registered [OF core2] by simp
    then have "registered m3 r"
      using that by (simp add: m3_def sched registered_def enqueued_def set_pending_def find_task_def at Let_def nth_list_update_eq)
    moreover have "r < length (m_heap m2)" by (simp add: fields r_def)
    then have "m_time m3 r = now + d"
      using that by (simp add: m3_def sched enqueued_def set_pending_def Let_def)
    ultimately show ?thesis using core_registered [OF core3] fresh(2) by blast
  qed
  show "find_task m3 ns name = None" if "\<not> task_valid env t"
    using that by (simp add: m3_def sched find_remove_task)
qed


text \<open>The new task is in the table and its queue, or has left the table if it is not valid; the other tasks stay.\<close>

definition new_task_in :: "int \<Rightarrow> 'e \<Rightarrow> string \<Rightarrow> string \<Rightarrow> 'e task \<Rightarrow> 'e manager \<Rightarrow> 'e manager \<Rightarrow> bool" where
  "new_task_in now env ns name t m m' \<longleftrightarrow>
     m_current m' = m_current m \<and> (\<forall>s. registered m s \<longrightarrow> registered m' s) \<and>
     (if task_valid env t
      then find_task m' ns name = Some (length (m_heap m)) \<and> length (m_heap m) \<in> queued m' \<and>
        (\<exists>d. t_delayMs t = Ms d \<and> m_task m' (length (m_heap m)) = t\<lparr>t_status := STATUS_PENDING, t_timestamp := now + d\<rparr>)
      else find_task m' ns name = None)"

lemma register_fresh_new:
  fixes m :: "'e manager" and env :: 'e
  assumes inv: "manager_inv now m" and find: "find_task m ns name = None"
    and t: "t_namespace t = ns" "t_name t = name" "task_ok t" "t_status t = STATUS_IDLE" "t_delayMs t = Ms d"
  defines "r \<equiv> length (m_heap m)"
  defines "m2 \<equiv> add_task ns name r (m\<lparr>m_heap := m_heap m @ [t]\<rparr>)"
  defines "m3 \<equiv> fst (scheduleTaskIfValid now env r (Ms d) True m2)"
  shows "new_task_in now env ns name t m m3"
proof -
  have fields: "m_heap m2 = m_heap m @ [t]" "m_current m2 = m_current m"
    by (simp_all add: m2_def add_task_def Let_def)
  have find2: "find_task m2 a b = (if a = ns \<and> b = name then Some r else find_task m a b)" for a b
    by (simp add: m2_def find_add_task) (simp add: find_task_def)
  have core2: "core_inv (insert r (set_option (m_current m))) m2"
    unfolding m2_def r_def by (rule core_add [OF inv_core [OF inv] find t(1-3)])
  have at: "m_task m2 r = t" by (simp add: fields r_def)
  have m3: "m3 = (if task_valid env t then triggerTaskScheduler now (enqueued (now + d) r m2) else remove_task ns name m2)"
    using schedule_cases(1) [OF core2, of r now env d True] by (simp add: at t m3_def)
  have find3: "find_task (triggerTaskScheduler now (enqueued (now + d) r m2)) = find_task m2"
    by (intro ext) (simp add: find_task_def, simp add: enqueued_def set_pending_def Let_def)
  have heap3: "m_heap (enqueued (now + d) r m2) =
      (m_heap m @ [t\<lparr>t_status := STATUS_PENDING, t_timestamp := now + d\<rparr>])"
    using at by (simp add: enqueued_def set_pending_def Let_def fields r_def)
  have others: "registered m3 s" if s: "registered m s" for s
  proof (cases "task_valid env t")
    case True
    have "\<not> (t_namespace (m_task m s) = ns \<and> t_name (m_task m s) = name)" using s find by (auto simp: registered_def)
    then show ?thesis using s True by (auto simp: registered_def m3 find3 heap3 find2 nth_append)
  next
    case False
    have "\<not> (t_namespace (m_task m s) = ns \<and> t_name (m_task m s) = name)" using s find by (auto simp: registered_def)
    then show ?thesis using s False by (auto simp: registered_def m3 find_remove_task find2 fields nth_append)
  qed
  moreover have "find_task m3 ns name = Some r \<and> m_task m3 r = t\<lparr>t_status := STATUS_PENDING, t_timestamp := now + d\<rparr>"
    if "task_valid env t" using that by (simp add: m3 find3 find2 heap3) (simp add: r_def)
  moreover have "m_current m3 = m_current m" by (simp add: m3 fields)
  ultimately show ?thesis
    using register_fresh_inv(3,4) [OF inv find t, of env] t(5)
    unfolding new_task_in_def m3_def [symmetric] m2_def [symmetric] r_def [symmetric]
    by (auto simp: m3_def m2_def r_def)
qed

lemma schedule_keeps_tasks:
  fixes m :: "'e manager" and env :: 'e
  assumes "manager_inv now m" and "find_task m ns name = None"
    and t: "t_namespace t = ns" "t_name t = name" "task_ok t" "t_status t = STATUS_IDLE" "t_delayMs t = Ms d"
    and r: "r < length (m_heap m)"
  shows "m_task (fst (scheduleTaskIfValid now env (length (m_heap m)) (Ms d) True
    (add_task ns name (length (m_heap m)) (m\<lparr>m_heap := m_heap m @ [t]\<rparr>)))) r = m_task m r"
proof -
  let ?r = "length (m_heap m)" and ?m2 = "add_task ns name (length (m_heap m)) (m\<lparr>m_heap := m_heap m @ [t]\<rparr>)"
  have heap: "m_heap ?m2 = m_heap m @ [t]" by (simp add: add_task_def Let_def)
  have "core_inv (insert ?r (set_option (m_current m))) ?m2" by (rule core_add [OF inv_core [OF assms(1)] assms(2) t(1-3)])
  from schedule_cases(1) [OF this, of ?r now env d True] show ?thesis
    using r by (simp add: heap t nth_append enqueued_other)
qed

lemma task_new_Inr:
  assumes "task_new ns name config = Inr t" "config_ok config"
  shows "t_namespace t = ns" "t_name t = name" "task_ok t" "t_status t = STATUS_IDLE" "\<exists>d. t_delayMs t = Ms d"
proof -
  have delay: "\<exists>d. (case x of None \<Rightarrow> Ms 0 | Some d \<Rightarrow> d) = Ms d" if "x \<noteq> Some NotANumber" for x
    using that by (cases x) (auto intro: delay.exhaust)
  show "t_namespace t = ns" "t_name t = name" "task_ok t" "t_status t = STATUS_IDLE" "\<exists>d. t_delayMs t = Ms d"
    using assms delay [of "delayMs config"] delay [of "intervalMs config"]
    by (auto simp: task_new_def Let_def task_ok_def config_ok_def PRIORITY_LOWEST_def PRIORITY_HIGHEST_def split: if_splits)
qed

lemma register_inv:
  assumes inv: "manager_inv now m" and config: "config_ok config"
  shows "manager_inv now (fst (register now env ns name config m))"
proof (cases "ns = ''size'' \<or> name = ''size''")
  case False
  show ?thesis
  proof (cases "task_new ns name config")
    case (Inr t)
    note t = task_new_Inr [OF Inr config]
    obtain d where d: "t_delayMs t = Ms d" using t(5) by blast
    have fresh: "manager_inv now (fst (case scheduleTaskIfValid now env (length (m_heap m')) (Ms d) True
          (add_task ns name (length (m_heap m')) (m'\<lparr>m_heap := m_heap m' @ [t]\<rparr>)) of
        (m3, Inl e) \<Rightarrow> (m3, Inl e) | (m3, Inr _) \<Rightarrow> (m3, Inr (length (m_heap m')))))"
      if "manager_inv now m'" "find_task m' ns name = None" for m' :: "'a manager"
      using register_fresh_inv(1,2) [OF that t(1-4) d, of env] by (auto split: prod.splits sum.splits)
    show ?thesis
    proof (cases "find_task m ns name")
      case None
      then show ?thesis using fresh [OF inv None] False Inr d by (simp add: register_def isRegistered_def Let_def)
    next
      case (Some r)
      note un = unregister_inv [OF inv Some]
      show ?thesis
      proof (cases "m_current m = Some r")
        case True
        then show ?thesis using un inv False Inr by (simp add: register_def isRegistered_def Some)
      next
        case other: False
        obtain m' where m': "unregister ns name m = (m', Inr ())"
          using un other by (cases "unregister ns name m") auto
        then show ?thesis using fresh [of m'] un other False Inr d by (simp add: register_def isRegistered_def Some Let_def)
      qed
    qed
  qed (use inv False in \<open>simp add: register_def\<close>)
qed (use inv in \<open>simp add: register_def\<close>)

text \<open>The events of the scheduler.\<close>

lemma timer_in_loop:
  assumes "manager_inv now m" "(i, due) \<in> set (m_timers m)"
  shows "\<not> schedulerRunning m" "in_loop ((clear_timeout i m)\<lparr>schedulerRunning := True\<rparr>)"
proof -
  show "\<not> schedulerRunning m" using assms by (auto simp: manager_inv_def timer_ok_def)
  moreover from this have "m_timers m = [(i, due)]"
    using assms by (auto simp: manager_inv_def timer_ok_def split: option.splits)
  ultimately show "in_loop ((clear_timeout i m)\<lparr>schedulerRunning := True\<rparr>)"
    using assms(1) by (auto simp: manager_inv_def in_loop_def clear_timeout_def)
qed

lemma timer_fires_result:
  assumes "manager_inv now m" "(i, due) \<in> set (m_timers m)"
  shows "snd (timer_fires i now env m) = Inr () \<and> manager_inv now (fst (timer_fires i now env m)) \<and>
    loop_result now env m (fst (timer_fires i now env m))"
proof -
  let ?m = "(clear_timeout i m)\<lparr>schedulerRunning := True\<rparr>"
  have "registered ?m = registered m" by (intro ext) (simp add: registered_def find_task_def clear_timeout_def)
  moreover have "m_heap ?m = m_heap m" by (simp add: clear_timeout_def)
  ultimately have "loop_result now env ?m = loop_result now env m" by (intro ext) (simp add: loop_result_def)
  then show ?thesis
    using scheduler_loop_result [OF timer_in_loop(2) [OF assms], of now env] timer_in_loop(1) [OF assms]
    by (simp add: timer_fires_def taskScheduler_def clear_timeout_def)
qed

text \<open>The task whose action ends is queued again after its interval, or leaves.\<close>

definition requeued :: "int \<Rightarrow> 'e \<Rightarrow> nat \<Rightarrow> 'e manager \<Rightarrow> 'e manager" where
  "requeued now env r m =
     fst (scheduleTaskIfValid now env r (t_intervalMs (m_task m r)) False
       (set_task r (\<lambda>t. t\<lparr>t_status := STATUS_IDLE\<rparr>) m\<lparr>m_current := None\<rparr>))"

lemma action_ends_result:
  assumes inv: "manager_inv now m" and current: "m_current m = Some r"
  shows "snd (action_ends now env r m) = Inr () \<and> manager_inv now (fst (action_ends now env r m)) \<and>
    loop_result now env (requeued now env r m) (fst (action_ends now env r m)) \<and>
    (\<forall>s. registered m s \<longrightarrow> registered (requeued now env r m) s \<or> s = r \<and> \<not> task_valid env (m_task m r)) \<and>
    (\<forall>s. s \<noteq> r \<longrightarrow> m_task (requeued now env r m) s = m_task m s) \<and>
    (\<forall>s. task_valid env (m_task (requeued now env r m) s) = task_valid env (m_task m s))"
proof -
  let ?f = "\<lambda>t. t\<lparr>t_status := STATUS_IDLE\<rparr>"
  let ?m1 = "set_task r ?f m\<lparr>m_current := None\<rparr>"
  have core: "core_inv {r} m" using inv current by (simp add: manager_inv_def)
  have len: "r < length (m_heap m)" using core_registered [OF core, of r] by (simp add: registered_def)
  then have at: "m_task ?m1 r = ?f (m_task m r)" by simp
  have core1: "core_inv {r} ?m1" using core_set_task [OF core, of r ?f] by simp
  have "task_ok (m_task m r)" using core len by (simp add: core_inv_def)
  then obtain d where d: "t_intervalMs (m_task m r) = Ms d" by (cases "t_intervalMs (m_task m r)") (auto simp: task_ok_def)
  let ?v = "task_valid env (m_task m r)"
  have valid: "task_valid env (m_task ?m1 r) = ?v" by (simp only: at) (simp add: task_valid_def)
  have sched: "scheduleTaskIfValid now env r (Ms d) False ?m1 =
      (if ?v then enqueued (now + d) r ?m1 else remove_task (t_namespace (m_task m r)) (t_name (m_task m r)) ?m1, Inr ())"
    using schedule_cases(1) [OF core1, of r now env d False] len valid by (simp add: at [simplified])
  have core2: "core_inv {} (requeued now env r m)"
    using schedule_cases(2) [OF core1, of r now env d False] len by (simp add: requeued_def d)
  have req: "requeued now env r m =
      (if ?v then enqueued (now + d) r ?m1 else remove_task (t_namespace (m_task m r)) (t_name (m_task m r)) ?m1)"
    by (simp add: requeued_def d sched)
  have "m_timers m = []" "schedulerRunning m" using inv current by (auto simp: manager_inv_def timer_ok_def)
  then have "in_loop (requeued now env r m)" using core2 by (simp add: in_loop_def req)
  moreover have "action_ends now env r m = scheduler_loop now env (requeued now env r m)"
    by (simp add: action_ends_def at [simplified] d sched req Let_def len)
  moreover have "registered (requeued now env r m) s \<or> s = r \<and> \<not> ?v" if s: "registered m s" for s
  proof -
    have other: "find_task (requeued now env r m) a b = (if \<not> ?v \<and> a = t_namespace (m_task m r) \<and> b = t_name (m_task m r) then None else find_task m a b)" for a b
      by (simp add: req find_remove_task) (simp add: enqueued_def set_pending_def Let_def find_task_def)
    have heap: "t_namespace (m_task (requeued now env r m) s) = t_namespace (m_task m s)" "t_name (m_task (requeued now env r m) s) = t_name (m_task m s)"
      "length (m_heap (requeued now env r m)) = length (m_heap m)"
      using len by (cases "s = r"; simp add: req enqueued_def set_pending_def Let_def)+
    have "registered m r" using core_registered [OF core] by simp
    then show ?thesis using s by (auto simp: registered_def heap other)
  qed
  moreover have "m_task (requeued now env r m) s = m_task m s" if "s \<noteq> r" for s
    using that by (simp add: req enqueued_other)
  moreover have "task_valid env (m_task (requeued now env r m) s) = task_valid env (m_task m s)" for s
    using len by (cases "s = r"; simp add: req enqueued_def set_pending_def Let_def task_valid_def)
  ultimately show ?thesis using scheduler_loop_result by metis
qed


lemma new_inv: "manager_inv now manager_new"
proof -
  have none: "find_task (manager_new :: 'a manager) ns name = None" for ns name by (simp add: find_task_def manager_new_def)
  then have "\<not> registered (manager_new :: 'a manager) r" for r by (simp add: registered_def)
  moreover have "queued (manager_new :: 'a manager) = {}" by (simp add: queued_def manager_new_def)
  ultimately have "core_inv {} (manager_new :: 'a manager)"
    using none by (simp add: core_inv_def table_ok_def queues_ok_def)
      (simp add: manager_new_def PRIORITY_HIGHEST_def nth_Cons')
  then show ?thesis
    by (simp add: manager_inv_def timer_ok_def awaited_def queued_def) (simp add: manager_new_def)
qed

lemma run_inv: "manager_run now m \<Longrightarrow> manager_inv now m"
proof (induction rule: manager_run.induct)
  case (wait now m now')
  then show ?case using timer_ok_later by (auto simp: manager_inv_def)
next
  case (unregister now m ns name)
  show ?case
  proof (cases "find_task m ns name")
    case None
    then show ?thesis using unregister by (simp add: unregister_def)
  next
    case (Some r)
    then show ?thesis using unregister_inv [OF unregister.IH Some] by blast
  qed
next
  case (new now)
  show ?case by (rule new_inv)
next
  case (register now m config env ns name)
  show ?case by (rule register_inv [OF register.IH register.hyps(2)])
next
  case (timer now m i due env)
  show ?case using timer_fires_result [OF timer.IH timer.hyps(2)] by simp
next
  case (action now m r env)
  show ?case using action_ends_result [OF action.IH action.hyps(2)] by simp
qed

text \<open>What a loop of the scheduler does for a task that is registered.\<close>

definition task_kept :: "int \<Rightarrow> nat \<Rightarrow> bool \<Rightarrow> 'e manager \<times> unit outcome \<Rightarrow> bool" where
  "task_kept now r dropped result \<longleftrightarrow> snd result = Inr () \<and> (registered (fst result) r \<or> dropped) \<and>
     (m_current (fst result) \<noteq> None \<or> (\<forall>s. registered (fst result) s \<longrightarrow> now < m_time (fst result) s))"

lemma loop_kept:
  assumes "snd x = Inr ()" "manager_inv now (fst x)" "loop_result now env m0 (fst x)" "registered m0 r \<or> dropped"
    "\<not> task_valid env (m_task m0 r) \<Longrightarrow> m_time m0 r \<le> now \<Longrightarrow> dropped"
  shows "task_kept now r dropped x"
proof -
  have "m_current (fst x) \<noteq> None \<or> (\<forall>s. registered (fst x) s \<longrightarrow> now < m_time (fst x) s)"
    using assms(3) core_registered [OF inv_core [OF assms(2)]] by (auto simp: loop_result_def split: option.splits)
  then show ?thesis using assms by (auto simp: task_kept_def loop_result_def)
qed

section \<open>Properties\<close>

text \<open>
  C20. The manager is consistent at every moment: its size is that of its registered tasks; these are exactly the
  queued ones and the one that runs, all pending; every queue has tasks of its priority, once, in the order of time.
\<close>

theorem task_manager_consistent:
  assumes "manager_run now m"
  shows "m_size m = TASK_SIZE * int (sum_list (map (\<lambda>(ns, n). length (ns_tasks n)) (m_tasks m))) \<and>
    Collect (registered m) = queued m \<union> set_option (m_current m) \<and> queued m \<inter> set_option (m_current m) = {} \<and>
    (\<forall>r. registered m r \<longrightarrow> t_status (m_task m r) = STATUS_PENDING) \<and>
    (\<forall>p < 4. distinct (taskQueues m ! p) \<and> in_order (m_time m) (taskQueues m ! p) \<and>
      (\<forall>r \<in> set (taskQueues m ! p). t_priority (m_task m r) = p))"
proof -
  have inv: "manager_inv now m" by (rule run_inv [OF assms])
  then have core: "core_inv (set_option (m_current m)) m" by (rule inv_core)
  have total: "map_total ns_size ms = TASK_SIZE * int (sum_list (map (\<lambda>(ns, n). length (ns_tasks n)) ms))"
    if "\<forall>(ns, n) \<in> set ms. ns_size n = TASK_SIZE * int (length (ns_tasks n))" for ms
    using that by (induction ms) (auto simp: algebra_simps)
  have "m_size m = TASK_SIZE * int (sum_list (map (\<lambda>(ns, n). length (ns_tasks n)) (m_tasks m)))"
    using core total [of "m_tasks m"] by (auto simp: core_inv_def table_ok_def)
  moreover have "t_status (m_task m r) = STATUS_PENDING" if r: "registered m r" for r
  proof (cases "r \<in> queued m")
    case True
    then show ?thesis using core by (auto simp: core_inv_def queues_ok_def in_queued)
  next
    case False
    then have "m_current m = Some r" using core_registered [OF core] r by simp
    then show ?thesis using inv by (simp add: manager_inv_def)
  qed
  ultimately show ?thesis using core by (simp add: core_inv_def queues_ok_def)
qed

text \<open>
  C8. No task is forgotten: a registered task runs, or another one runs after which the queues are looked at again, or
  the one timer that is set fires at the latest when the task is due, or one millisecond from now. When the timer fires
  or the action that runs ends, the scheduler never fails; every registered task that is not due, or that is valid,
  stays registered; and afterwards an action runs again or no task is due.
\<close>

theorem no_task_forgotten:
  assumes "manager_run now m" and "registered m r"
  shows "(m_current m \<noteq> None \<or> (\<exists>i due. m_timers m = [(i, due)] \<and> due \<le> max (m_time m r) (now + 1))) \<and>
    (\<forall>i due env. (i, due) \<in> set (m_timers m) \<longrightarrow>
       task_kept now r (\<not> task_valid env (m_task m r) \<and> m_time m r \<le> now) (timer_fires i now env m)) \<and>
    (\<forall>c env. m_current m = Some c \<longrightarrow>
       task_kept now r (\<not> task_valid env (m_task m r) \<and> (r = c \<or> m_time m r \<le> now)) (action_ends now env c m))"
proof (intro conjI allI impI)
  have inv: "manager_inv now m" by (rule run_inv [OF assms(1)])
  show "m_current m \<noteq> None \<or> (\<exists>i due. m_timers m = [(i, due)] \<and> due \<le> max (m_time m r) (now + 1))"
  proof (cases "m_current m")
    case None
    then have r: "r \<in> queued m" "\<not> schedulerRunning m"
      using core_registered [OF inv_core [OF inv], of r] assms(2) inv by (simp_all add: manager_inv_def)
    then obtain i where i: "schedulerInstance m = Some i" "schedulerTimestamp m \<le> m_time m r"
      using inv by (auto simp: manager_inv_def awaited_def)
    then obtain due where "m_timers m = [(i, due)]" "due \<le> max (schedulerTimestamp m) (now + 1)"
      using inv r(2) by (auto simp: manager_inv_def timer_ok_def)
    then show ?thesis using i(2) by (auto simp: max_def split: if_splits)
  qed simp
  show "task_kept now r (\<not> task_valid env (m_task m r) \<and> m_time m r \<le> now) (timer_fires i now env m)"
    if "(i, due) \<in> set (m_timers m)" for i due env
    using timer_fires_result [OF inv that, of env] loop_kept [of "timer_fires i now env m" now env m r] assms(2) by simp
  show "task_kept now r (\<not> task_valid env (m_task m r) \<and> (r = c \<or> m_time m r \<le> now)) (action_ends now env c m)"
    if "m_current m = Some c" for c env
  proof -
    note ends = action_ends_result [OF inv that, of env]
    let ?m = "requeued now env c m"
    have "registered ?m r \<or> r = c \<and> \<not> task_valid env (m_task m r)" using ends assms(2) by blast
    moreover have "task_valid env (m_task ?m r) = task_valid env (m_task m r)" "r \<noteq> c \<Longrightarrow> m_task ?m r = m_task m r"
      using ends by blast+
    ultimately show ?thesis
      using ends by (intro loop_kept [of _ _ env ?m]) auto
  qed
qed


text \<open>
  C9. The scheduler takes the right task: when a timer fires or an action ends, and an action starts, then its task is
  due, and no task that is due has a higher priority, or the same and an earlier time.
\<close>

theorem scheduler_takes_first:
  assumes "manager_run now m"
    and "m' = fst (timer_fires i now env m) \<and> (i, due) \<in> set (m_timers m) \<or> m' = fst (action_ends now env c m) \<and> m_current m = Some c"
    and "m_current m' = Some r"
  shows "registered m' r \<and> m_time m' r \<le> now \<and> (\<forall>s. registered m' s \<longrightarrow> m_time m' s \<le> now \<longrightarrow> task_rank m' r \<le> task_rank m' s)"
proof -
  have inv: "manager_inv now m" by (rule run_inv [OF assms(1)])
  obtain m0 where loop: "manager_inv now m'" "loop_result now env m0 m'"
    using assms(2) timer_fires_result [OF inv] action_ends_result [OF inv] by blast
  have "registered m' s \<longleftrightarrow> s \<in> queued m' \<or> s = r" for s
    using core_registered [OF inv_core [OF loop(1)]] assms(3) by auto
  then show ?thesis using loop(2) assms(3) by (auto simp: loop_result_def)
qed

lemma unregister_other:
  assumes run: "manager_run now m" and find: "find_task m ns name = Some r" and other: "m_current m \<noteq> Some r"
  obtains m' where "unregister ns name m = (m', Inr ())" "find_task m' ns name = None" "r \<notin> queued m'" "m_heap m' = m_heap m"
    "m_current m' = m_current m" "\<forall>s. s \<noteq> r \<and> registered m s \<longrightarrow> registered m' s" "manager_inv now m'" "\<not> registered m' r"
proof -
  note un = unregister_inv [OF run_inv [OF run] find]
  have core: "core_inv (set_option (m_current m)) m" by (rule inv_core [OF run_inv [OF run]])
  obtain m' where m': "unregister ns name m = (m', Inr ())" "find_task m' ns name = None" "m_heap m' = m_heap m"
      "m_current m' = m_current m" and inv': "manager_inv now m'"
    using un other by (cases "unregister ns name m") auto
  have "r \<notin> set_option (m_current m)" using other by auto
  from unregister_queued(1) [OF core find this] m'(1)
  have "m' = remove_task ns name (set_queue (t_priority (m_task m r)) (remove1 r (taskQueues m ! t_priority (m_task m r))) m)"
    by simp
  then have tables: "find_task m' a b = (if a = ns \<and> b = name then None else find_task m a b)" for a b
    by (simp add: find_remove_task) (simp add: find_task_def)
  have names: "t_namespace (m_task m r) = ns" "t_name (m_task m r) = name" using core_find [OF core] find by blast+
  have "registered m' s" if "s \<noteq> r" "registered m s" for s
    using that find by (auto simp: registered_def tables m'(3))
  moreover have gone: "\<not> registered m' r" by (simp add: registered_def tables m'(3) names)
  moreover have "r \<notin> queued m'" using core_registered [OF inv_core [OF inv']] gone by blast
  ultimately show ?thesis using that m' inv' by blast
qed

text \<open>A request to register, with a name and a configuration that are good.\<close>

lemma register_replaces:
  assumes run: "manager_run now m" and find: "find_task m ns name = Some r" and other: "m_current m \<noteq> Some r"
    and t: "ns \<noteq> ''size''" "name \<noteq> ''size''" "config_ok config" "task_new ns name config = Inr t"
  shows "\<exists>m1 m'. unregister ns name m = (m1, Inr ()) \<and> register now env ns name config m = (m', Inr (length (m_heap m))) \<and>
    new_task_in now env ns name t m1 m' \<and> r \<notin> queued m'"
proof -
  obtain m1 where m1: "unregister ns name m = (m1, Inr ())" "find_task m1 ns name = None" "m_heap m1 = m_heap m"
      "manager_inv now m1" "\<not> registered m1 r"
    using unregister_other [OF run find other] by blast
  note new = task_new_Inr [OF t(4,3)]
  obtain d where d: "t_delayMs t = Ms d" using new(5) by blast
  let ?m2 = "add_task ns name (length (m_heap m1)) (m1\<lparr>m_heap := m_heap m1 @ [t]\<rparr>)"
  note fresh = register_fresh_inv [OF m1(4,2) new(1-4) d, of env]
  obtain m' where m': "scheduleTaskIfValid now env (length (m_heap m1)) (Ms d) True ?m2 = (m', Inr ())"
    using fresh(1) by (cases "scheduleTaskIfValid now env (length (m_heap m1)) (Ms d) True ?m2") simp
  have "register now env ns name config m = (m', Inr (length (m_heap m)))"
    using t(1,2,4) m' m1(1,3) d find by (simp add: register_def isRegistered_def Let_def)
  moreover have "new_task_in now env ns name t m1 m'"
    using register_fresh_new [OF m1(4,2) new(1-4) d, of env] m' by simp
  moreover have "r \<notin> queued m'"
  proof -
    have r: "r < length (m_heap m1)" and names: "t_namespace (m_task m1 r) = ns" "t_name (m_task m1 r) = name"
      using core_find [OF inv_core [OF run_inv [OF run]], of ns name r] find m1(3) by (auto simp: registered_def)
    have inv': "manager_inv now m'" using fresh(2) m' by simp
    show ?thesis
    proof
      assume "r \<in> queued m'"
      then have reg: "registered m' r" using core_registered [OF inv_core [OF inv']] by blast
      have "m_task m' r = m_task m1 r"
        using schedule_keeps_tasks [OF m1(4,2) new(1-4) d r, of env] m' by simp
      then have "find_task m' ns name = Some r" using reg names by (simp add: registered_def)
      then show False using \<open>new_task_in now env ns name t m1 m'\<close> r by (auto simp: new_task_in_def split: if_splits)
    qed
  qed
  ultimately show ?thesis using m1(1) by blast
qed

text \<open>
  C21. A task can be unregistered and replaced unless it runs. While it runs, both requests fail and change nothing.
  Otherwise it can be unregistered: it leaves the table and its queue, and nothing else changes. And it can be
  replaced: a request to register another task under its name, with a good configuration, succeeds, the old task is
  in no queue, the new one is in the table and in its queue after its delay, or, if it is not valid, no task has the
  name any more; the other tasks stay, as does the task that runs.
\<close>

theorem unregister_unless_running:
  assumes run: "manager_run now m" and find: "find_task m ns name = Some r"
  shows "if m_current m = Some r
    then unregister ns name m = (m, Inl AssertFailed) \<and>
      (\<forall>env config. register now env ns name config m = (m, Inl AssertFailed))
    else (\<exists>m1. unregister ns name m = (m1, Inr ()) \<and> find_task m1 ns name = None \<and> r \<notin> queued m1 \<and>
        m_heap m1 = m_heap m \<and> m_current m1 = m_current m \<and> (\<forall>s. s \<noteq> r \<and> registered m s \<longrightarrow> registered m1 s) \<and>
        (\<forall>env config t. ns \<noteq> ''size'' \<and> name \<noteq> ''size'' \<and> config_ok config \<and> task_new ns name config = Inr t \<longrightarrow>
          (\<exists>m'. register now env ns name config m = (m', Inr (length (m_heap m))) \<and>
            new_task_in now env ns name t m1 m' \<and> r \<notin> queued m')))"
proof (cases "m_current m = Some r")
  case True
  have "unregister ns name m = (m, Inl AssertFailed)" using True unregister_inv [OF run_inv [OF run] find] by simp
  moreover have "register now env ns name config m = (m, Inl AssertFailed)" for env config
    using calculation find
    by (cases "task_new ns name config")
      (auto simp: register_def isRegistered_def task_new_def Let_def split: if_splits)
  ultimately show ?thesis using True by simp
next
  case False
  obtain m1 where m1: "unregister ns name m = (m1, Inr ())" "find_task m1 ns name = None" "r \<notin> queued m1" "m_heap m1 = m_heap m"
      "m_current m1 = m_current m" "\<forall>s. s \<noteq> r \<and> registered m s \<longrightarrow> registered m1 s"
    using unregister_other [OF run find False] by blast
  have "\<exists>m'. register now env ns name config m = (m', Inr (length (m_heap m))) \<and>
      new_task_in now env ns name t m1 m' \<and> r \<notin> queued m'"
    if "ns \<noteq> ''size''" "name \<noteq> ''size''" "config_ok config" "task_new ns name config = Inr t" for env config t
    using register_replaces [OF run find False that, of env] m1(1) by auto
  then show ?thesis using False m1 by (simp only: if_False) blast
qed

section \<open>Witnesses\<close>

text \<open>Two tasks that run once, of the lowest and the highest priority, registered at the time 0.\<close>

definition sample_config :: "int \<Rightarrow> unit task_config" where
  "sample_config p = \<lparr>priority = Some p, delayMs = None, intervalMs = None, isValid = None\<rparr>"

definition sample_manager :: "unit manager" where
  "sample_manager = fst (register 0 () ''n'' ''b'' (sample_config 3) (fst (register 0 () ''n'' ''a'' (sample_config 0) manager_new)))"

definition sample_started :: "unit manager" where
  "sample_started = fst (timer_fires 0 1 () sample_manager)"

lemma sample_facts:
  "m_timers sample_manager = [(0, 1)]" "find_task sample_manager ''n'' ''a'' = Some 0" "m_current sample_manager = None"
  "m_current sample_started = Some 1" "find_task sample_started ''n'' ''b'' = Some 1"
  by code_simp+

lemma sample_registered: "registered sample_manager 0"
  unfolding registered_def by code_simp

lemma sample_run: "manager_run 1 sample_manager"
proof -
  have "config_ok (sample_config p)" for p by (simp add: config_ok_def sample_config_def)
  then have "manager_run 0 sample_manager" unfolding sample_manager_def by (intro manager_run.register manager_run.new)
  then show ?thesis by (rule manager_run.wait) simp
qed

lemma sample_started_run: "manager_run 1 sample_started"
  unfolding sample_started_def by (rule manager_run.timer [OF sample_run, of 0 1]) (simp_all add: sample_facts)

theorem task_manager_consistent_witness:
  "m_size sample_manager = TASK_SIZE * int (sum_list (map (\<lambda>(ns, n). length (ns_tasks n)) (m_tasks sample_manager)))"
  using task_manager_consistent [OF sample_run] by blast

theorem no_task_forgotten_witness:
  "\<exists>i due. m_timers sample_manager = [(i, due)] \<and> due \<le> max (m_time sample_manager 0) 2"
  using no_task_forgotten [OF sample_run sample_registered] by (simp add: sample_facts)

lemma sample_waiting: "registered sample_started 0" "m_time sample_started 0 \<le> 1"
  unfolding registered_def by code_simp+

theorem scheduler_takes_first_witness:
  "m_time sample_started 1 \<le> 1 \<and> task_rank sample_started 1 \<le> task_rank sample_started 0"
  using scheduler_takes_first [OF sample_run _ sample_facts(4), of 0 "()" 1 0] sample_waiting
  by (simp add: sample_facts sample_started_def)

theorem unregister_unless_running_witness:
  "unregister ''n'' ''b'' sample_started = (sample_started, Inl AssertFailed)"
  using unregister_unless_running [OF sample_started_run sample_facts(5)] by (simp add: sample_facts)

end
