(* ===== verification/Services.thy ===== *)
theory Services
  imports Json Complex_Main
begin

text \<open>
  The services (\<open>nodejs/core/services/{services,provider}.js\<close>): named groups of processes that run at the start and at the
  stop of the service, periodically, or on a trigger, with a record of their runs.

  Providers that are nested share the sets and the table of their parent: \<open>w_tables\<close> has these, and a provider has
  an index into it. The log of a run is an object that the list of logs and the running call share: \<open>w_logs\<close> has the logs,
  the others an index. Asynchronous calls are threads: a stack of frames, one for each call that awaits the
  one above it, and the signal that resumes the frame on top. The processes themselves are code of the users:
  that one is called and completes, with a value or an error, are events. Options do not change after the
  registration. Durations and periods in seconds are rational numbers.
\<close>

section \<open>Providers\<close>

datatype policy = POLICY_ignore | POLICY_restart | POLICY_throw | POLICY_other

text \<open>\<open>delayS\<close>: \<open>undefined\<close> (no key), \<open>null\<close>, or a number.\<close>

datatype delay_s = DelayUndefined | DelayNull | DelayS rat

record process_options =
  maxLogs :: nat
  maxErrorLogs :: nat
  opt_policy :: policy
  periodS :: "rat option"
  delayS :: delay_s

text \<open>
  A process in the table: its options, and the trigger of an event triggered process, with the callback that is
  registered: the run of the process \<open>name\<close> of the service \<open>uid\<close>.
\<close>

type_synonym trigger = "(string \<times> string) option"

record process =
  pr_options :: process_options
  pr_trigger :: "trigger option"

record ptable =
  processesStart :: "string list"
  processesStop :: "string list"
  processes :: "(string \<times> process) list"

record provider =
  pv_namespace :: "string list"
  pv_prefix :: string
  pv_table :: nat

definition empty_table :: ptable where
  "empty_table = \<lparr>processesStart = [], processesStop = [], processes = []\<rparr>"

definition provider_new :: "string list \<Rightarrow> ptable list \<Rightarrow> provider \<times> ptable list" where
  "provider_new ns tables = (\<lparr>pv_namespace = ns, pv_prefix = [], pv_table = length tables\<rparr>, tables @ [empty_table])"

definition makeNested :: "string list \<Rightarrow> provider \<Rightarrow> provider outcome" where
  "makeNested ns p = (if ns = [] then Inl AssertFailed else Inr (p\<lparr>pv_prefix := join_with ''.'' ns @ ''.''\<rparr>))"

definition makeName :: "provider \<Rightarrow> string \<Rightarrow> string" where
  "makeName p name = (if pv_prefix p \<noteq> [] then pv_prefix p @ name else name)"

text \<open>\<open>_addProcess\<close>, and \<open>Set.add\<close>. The start and stop processes are added to their set before the name is checked.\<close>

definition addProcess :: "string \<Rightarrow> process_options \<Rightarrow> trigger option \<Rightarrow> ptable \<Rightarrow> ptable \<times> unit outcome" where
  "addProcess name options trigger t =
     (if map_of (processes t) name \<noteq> None then (t, Inl AssertFailed)
      else (t\<lparr>processes := AList.update name \<lparr>pr_options = options, pr_trigger = trigger\<rparr> (processes t)\<rparr>, Inr ()))"

definition set_add :: "'a \<Rightarrow> 'a list \<Rightarrow> 'a list" where
  "set_add x xs = (if x \<in> set xs then xs else xs @ [x])"

definition commonOptions :: process_options where
  "commonOptions = \<lparr>maxLogs = 10, maxErrorLogs = 5, opt_policy = POLICY_ignore, periodS = None, delayS = DelayUndefined\<rparr>"

definition timedOptions :: process_options where
  "timedOptions = commonOptions\<lparr>periodS := Some (24 * 3600), delayS := DelayNull\<rparr>"

text \<open>\<open>options\<close> is what \<open>Object.assign\<close> overrides.\<close>

datatype process_kind = AtStart | AtStop | TimeTriggered | EventTriggered

definition add_process :: "process_kind \<Rightarrow> string \<Rightarrow> (process_options \<Rightarrow> process_options) \<Rightarrow> provider \<Rightarrow> ptable list \<Rightarrow>
    ptable list \<times> unit outcome" where
  "add_process kind name options p tables =
     (let actualName = makeName p name; t = tables ! pv_table p;
          (t', r) = (case kind of
              AtStart \<Rightarrow> addProcess actualName (options (commonOptions\<lparr>opt_policy := POLICY_throw\<rparr>)) None
                (t\<lparr>processesStart := set_add actualName (processesStart t)\<rparr>)
            | AtStop \<Rightarrow> addProcess actualName (options (commonOptions\<lparr>opt_policy := POLICY_throw\<rparr>)) None
                (t\<lparr>processesStop := set_add actualName (processesStop t)\<rparr>)
            | TimeTriggered \<Rightarrow> addProcess actualName (options timedOptions) None t
            | EventTriggered \<Rightarrow> addProcess actualName (options commonOptions) (Some None) t)
      in (tables[pv_table p := t'], r))"

text \<open>\<open>getProcesses\<close>: the processes that are in neither set.\<close>

definition getProcesses :: "ptable \<Rightarrow> (string \<times> process) list" where
  "getProcesses t = filter (\<lambda>(name, _). name \<notin> set (processesStart t) \<and> name \<notin> set (processesStop t)) (processes t)"

section \<open>Services\<close>

datatype status = Status_idle | Status_starting | Status_running | Status_stopping | Status_error

record 'r log =
  log_error :: "exn option"
  log_timestampStart :: int
  log_timestampStop :: int
  log_result :: "'r option"

record precord =
  executions :: nat
  errors :: nat
  durationMin :: rat
  durationMax :: rat
  durationAvg :: rat
  estimatedInterval :: rat
  rec_status :: status
  logs :: "nat list"
  errorLogs :: "nat list"

definition record_new :: precord where
  "record_new = \<lparr>executions = 0, errors = 0, durationMin = 0, durationMax = 0, durationAvg = 0, estimatedInterval = 0,
     rec_status = Status_idle, logs = [], errorLogs = []\<rparr>"

record service =
  sv_provider :: provider
  instances :: "(string \<times> nat) list"
  records :: "(string \<times> precord) list"
  lastFatalError :: "exn option"
  sv_status :: status
  sv_timestampStart :: int
  sv_timestampStop :: int

text \<open>
  The frames of the asynchronous functions, each where it awaits the call above it: \<open>runProcess\<close> the process, with its
  log; \<open>startService\<close> and \<open>stopService\<close> the start or stop process before the index; \<open>start\<close> and \<open>stop\<close> one service,
  with those that are left.
\<close>

datatype frame =
    F_runProcess string string nat
  | F_runProcessWithPolicy string string
  | F_runTimeTriggeredProcess string string
  | F_startService string nat
  | F_stopService string nat
  | F_start "string list"
  | F_stop "string list"

text \<open>What resumes a frame: the end of a process, the value of a call, or its exception.\<close>

datatype 'r signal = Completed "'r outcome" | Returned bool | Thrown exn

record 'r thread =
  th_stack :: "frame list"
  th_signal :: "'r signal option"

text \<open>
  The world: the tables of the providers, the services, the logs, the timeouts with the process they run and their
  time, the threads; and the history of the runs that ended, which the code does not have and the theorems
  speak of.
\<close>

record 'r run =
  run_of :: "string \<times> string"
  run_start :: int
  run_stop :: int
  run_outcome :: "'r outcome"

record 'r world =
  w_tables :: "ptable list"
  w_services :: "(string \<times> service) list"
  w_logs :: "'r log list"
  w_timers :: "(nat \<times> rat \<times> string \<times> string) list"
  w_nextTimer :: nat
  w_threads :: "(nat \<times> 'r thread) list"
  w_nextThread :: nat
  w_history :: "'r run list"

definition world_new :: "'r world" where
  "world_new = \<lparr>w_tables = [], w_services = [], w_logs = [], w_timers = [], w_nextTimer = 0, w_threads = [], w_nextThread = 0,
     w_history = []\<rparr>"

text \<open>
  \<open>_makeServiceUid\<close>: without a name the first number that is not taken.
\<close>

definition serviceUid :: "string \<Rightarrow> provider \<Rightarrow> string" where
  "serviceUid name p = join_with ''.'' (pv_namespace p) @ ''.'' @ name"

partial_function (option) free_counter :: "(string \<times> service) list \<Rightarrow> provider \<Rightarrow> nat \<Rightarrow> nat option" where
  "free_counter services p counter =
     (if map_of services (serviceUid (nat_to_string (counter + 1)) p) \<noteq> None then free_counter services p (counter + 1)
      else Some (counter + 1))"

definition makeServiceUid :: "string option \<Rightarrow> provider \<Rightarrow> (string \<times> service) list \<Rightarrow> string option" where
  "makeServiceUid name p services =
     (case name of
        Some n \<Rightarrow> Some (serviceUid n p)
      | None \<Rightarrow> map_option (\<lambda>counter. serviceUid (nat_to_string counter) p) (free_counter services p 0))"

definition service_new :: "provider \<Rightarrow> service" where
  "service_new p = \<lparr>sv_provider = p, instances = [], records = [], lastFatalError = None, sv_status = Status_idle,
     sv_timestampStart = 0, sv_timestampStop = 0\<rparr>"

definition register_service :: "provider \<Rightarrow> string option \<Rightarrow> 'r world \<Rightarrow> ('r world \<times> string outcome) option" where
  "register_service p name w =
     map_option (\<lambda>uid.
       if map_of (w_services w) uid \<noteq> None then (w, Inl AssertFailed)
       else (w\<lparr>w_services := AList.update uid (service_new p) (w_services w)\<rparr>, Inr uid))
     (makeServiceUid name p (w_services w))"


section \<open>Runs of processes\<close>

definition table_of :: "'r world \<Rightarrow> service \<Rightarrow> ptable" where
  "table_of w s = w_tables w ! pv_table (sv_provider s)"

definition put_service :: "string \<Rightarrow> service \<Rightarrow> 'r world \<Rightarrow> 'r world" where
  "put_service uid s w = w\<lparr>w_services := AList.update uid s (w_services w)\<rparr>"

definition record_at :: "service \<Rightarrow> string \<Rightarrow> precord" where
  "record_at s name = (case map_of (records s) name of None \<Rightarrow> record_new | Some r \<Rightarrow> r)"

definition put_record :: "string \<Rightarrow> string \<Rightarrow> precord \<Rightarrow> 'r world \<Rightarrow> 'r world" where
  "put_record uid name r w =
     (case map_of (w_services w) uid of
        None \<Rightarrow> w
      | Some s \<Rightarrow> put_service uid (s\<lparr>records := AList.update name r (records s)\<rparr>) w)"

definition log_new :: "int \<Rightarrow> 'r log" where
  "log_new now = \<lparr>log_error = None, log_timestampStart = now, log_timestampStop = 0, log_result = None\<rparr>"

definition record_begin :: "nat \<Rightarrow> precord \<Rightarrow> precord" where
  "record_begin l r = r\<lparr>logs := l # logs r, executions := executions r + 1, rec_status := Status_running\<rparr>"

text \<open>
  \<open>runProcess\<close> up to the call of the process: the log of the run, or nothing when the process runs already.
\<close>

definition process_begin :: "int \<Rightarrow> string \<Rightarrow> string \<Rightarrow> 'r world \<Rightarrow> 'r world \<times> nat option outcome" where
  "process_begin now uid name w =
     (case map_of (w_services w) uid of
        None \<Rightarrow> (w, Inl PreconditionFailed)
      | Some s \<Rightarrow>
          if map_of (processes (table_of w s)) name = None then (w, Inl PreconditionFailed)
          else let r = record_at s name
               in if rec_status r = Status_running then (w, Inr None)
                  else let l = length (w_logs w)
                       in (put_record uid name (record_begin l r) (w\<lparr>w_logs := w_logs w @ [log_new now]\<rparr>), Inr (Some l)))"

text \<open>
  \<open>runProcess\<close> from the end of the process on, on its record; \<open>starts\<close> are the times at which logs started.
\<close>

definition record_outcome :: "process_options \<Rightarrow> nat \<Rightarrow> bool \<Rightarrow> precord \<Rightarrow> precord" where
  "record_outcome options l ok r =
     (if ok then r\<lparr>rec_status := Status_idle\<rparr>
      else r\<lparr>errors := errors r + 1, rec_status := Status_error, errorLogs := take (maxErrorLogs options) (l # errorLogs r),
           logs := tl (logs r)\<rparr>)"

definition record_rate :: "(nat \<Rightarrow> int) \<Rightarrow> precord \<Rightarrow> precord" where
  "record_rate starts r =
     (case logs r of
        a # b # _ \<Rightarrow> r\<lparr>estimatedInterval := 2 / 5 * estimatedInterval r + (1 - 2 / 5) * (of_int (starts a - starts b) / 1000)\<rparr>
      | _ \<Rightarrow> r)"

definition record_durations :: "rat \<Rightarrow> precord \<Rightarrow> precord" where
  "record_durations duration r =
     r\<lparr>durationMin := min (if durationMin r = 0 then duration else durationMin r) duration,
       durationMax := max (durationMax r) duration,
       durationAvg := (durationAvg r * (of_nat (executions r) - 1) + duration) / of_nat (executions r)\<rparr>"

definition record_end :: "process_options \<Rightarrow> (nat \<Rightarrow> int) \<Rightarrow> nat \<Rightarrow> bool \<Rightarrow> rat \<Rightarrow> precord \<Rightarrow> precord" where
  "record_end options starts l ok duration r =
     (let r1 = record_rate starts (record_outcome options l ok r)
      in record_durations duration (r1\<lparr>logs := take (maxLogs options) (logs r1)\<rparr>))"

definition process_end :: "int \<Rightarrow> string \<Rightarrow> string \<Rightarrow> nat \<Rightarrow> 'r outcome \<Rightarrow> 'r world \<Rightarrow> 'r world" where
  "process_end now uid name l result w =
     (case map_of (w_services w) uid of
        None \<Rightarrow> w
      | Some s \<Rightarrow>
          case map_of (processes (table_of w s)) name of
            None \<Rightarrow> w
          | Some p \<Rightarrow>
              let started = log_timestampStart (w_logs w ! l);
                  log = (w_logs w ! l)\<lparr>log_timestampStop := now,
                    log_error := (case result of Inl e \<Rightarrow> Some e | Inr _ \<Rightarrow> None),
                    log_result := (case result of Inl _ \<Rightarrow> log_result (w_logs w ! l) | Inr v \<Rightarrow> Some v)\<rparr>;
                  w1 = w\<lparr>w_logs := (w_logs w)[l := log],
                    w_history := w_history w @ [\<lparr>run_of = (uid, name), run_start = started, run_stop = now, run_outcome = result\<rparr>]\<rparr>
              in put_record uid name
                   (record_end (pr_options p) (\<lambda>i. log_timestampStart (w_logs w ! i)) l (is_ok result)
                      (of_int (now - started) / 1000) (record_at s name)) w1)"

text \<open>\<open>runProcessWithPolicy\<close> when the run failed. \<open>getLastError\<close> reads the newest of the error logs.\<close>

definition policy_end :: "string \<Rightarrow> string \<Rightarrow> 'r world \<Rightarrow> 'r world \<times> 'r signal" where
  "policy_end uid name w =
     (case map_of (w_services w) uid of
        None \<Rightarrow> (w, Thrown TypeErr)
      | Some s \<Rightarrow>
          case map_of (processes (table_of w s)) name of
            None \<Rightarrow> (w, Thrown TypeErr)
          | Some p \<Rightarrow>
              (case opt_policy (pr_options p) of
                 POLICY_ignore \<Rightarrow> (w, Returned False)
               | POLICY_restart \<Rightarrow> (w, Returned False)
               | POLICY_throw \<Rightarrow>
                   (case errorLogs (record_at s name) of
                      [] \<Rightarrow> (w, Thrown TypeErr)
                    | l # _ \<Rightarrow> (put_service uid (s\<lparr>lastFatalError := log_error (w_logs w ! l)\<rparr>) w, Returned False))
               | POLICY_other \<Rightarrow> (w, Thrown Unreachable)))"

section \<open>Calls\<close>

text \<open>
  A call runs until it awaits a process or returns: the frames it leaves and, unless it awaits, the signal to the
  uppermost of the frames.
\<close>

type_synonym 'r call = "'r world \<times> frame list \<times> 'r signal option"

definition in_frame :: "frame \<Rightarrow> 'r call \<Rightarrow> 'r call" where
  "in_frame f c = (case c of (w, frames, v) \<Rightarrow> (w, frames @ [f], v))"

definition runProcess :: "int \<Rightarrow> string \<Rightarrow> string \<Rightarrow> 'r world \<Rightarrow> 'r call" where
  "runProcess now uid name w =
     (case process_begin now uid name w of
        (w1, Inl e) \<Rightarrow> (w1, [], Some (Thrown e))
      | (w1, Inr None) \<Rightarrow> (w1, [], Some (Returned True))
      | (w1, Inr (Some l)) \<Rightarrow> (w1, [F_runProcess uid name l], None))"

definition runProcessWithPolicy :: "int \<Rightarrow> string \<Rightarrow> string \<Rightarrow> 'r world \<Rightarrow> 'r call" where
  "runProcessWithPolicy now uid name w = in_frame (F_runProcessWithPolicy uid name) (runProcess now uid name w)"

definition runTimeTriggeredProcess :: "int \<Rightarrow> string \<Rightarrow> string \<Rightarrow> 'r world \<Rightarrow> 'r call" where
  "runTimeTriggeredProcess now uid name w = in_frame (F_runTimeTriggeredProcess uid name) (runProcessWithPolicy now uid name w)"

text \<open>\<open>setTimeout\<close> for a time triggered process, with the delay in seconds.\<close>

definition set_timer :: "rat \<Rightarrow> string \<Rightarrow> string \<Rightarrow> service \<Rightarrow> 'r world \<Rightarrow> 'r world" where
  "set_timer due uid name s w =
     put_service uid (s\<lparr>instances := AList.update name (w_nextTimer w) (instances s)\<rparr>)
       (w\<lparr>w_timers := w_timers w @ [(w_nextTimer w, due, uid, name)], w_nextTimer := w_nextTimer w + 1\<rparr>)"

definition rearm :: "int \<Rightarrow> string \<Rightarrow> string \<Rightarrow> 'r world \<Rightarrow> 'r world" where
  "rearm now uid name w =
     (case map_of (w_services w) uid of
        None \<Rightarrow> w
      | Some s \<Rightarrow>
          if map_of (instances s) name = None then w
          else case map_of (processes (table_of w s)) name of
            None \<Rightarrow> w
          | Some p \<Rightarrow> set_timer (of_int now + (case periodS (pr_options p) of None \<Rightarrow> 0 | Some t \<Rightarrow> t * 1000)) uid name s w)"

text \<open>The triggers: \<open>Trigger.register\<close> and \<open>unregister\<close> on the entry of the table.\<close>

definition set_trigger :: "nat \<Rightarrow> string \<Rightarrow> trigger \<Rightarrow> 'r world \<Rightarrow> 'r world" where
  "set_trigger table name t w =
     (case map_of (processes (w_tables w ! table)) name of
        None \<Rightarrow> w
      | Some p \<Rightarrow> w\<lparr>w_tables := (w_tables w)[table := (w_tables w ! table)
          \<lparr>processes := AList.update name (p\<lparr>pr_trigger := Some t\<rparr>) (processes (w_tables w ! table))\<rparr>]\<rparr>)"

definition register_trigger :: "string \<Rightarrow> string \<Rightarrow> nat \<Rightarrow> process \<Rightarrow> 'r world \<Rightarrow> 'r world \<times> unit outcome" where
  "register_trigger uid name table p w =
     (case pr_trigger p of
        None \<Rightarrow> (w, Inr ())
      | Some None \<Rightarrow> (set_trigger table name (Some (uid, name)) w, Inr ())
      | Some (Some _) \<Rightarrow> (w, Inl AssertFailed))"

definition unregister_trigger :: "string \<Rightarrow> nat \<Rightarrow> process \<Rightarrow> 'r world \<Rightarrow> 'r world \<times> unit outcome" where
  "unregister_trigger name table p w =
     (case pr_trigger p of
        None \<Rightarrow> (w, Inr ())
      | Some None \<Rightarrow> (w, Inl AssertFailed)
      | Some (Some _) \<Rightarrow> (set_trigger table name None w, Inr ()))"

text \<open>
  The second half of \<open>startService\<close>: the triggers and the timeouts. \<open>rnd\<close> is \<open>Math.floor(Math.random() * periodS)\<close>.
\<close>

definition start_delay :: "(string \<Rightarrow> rat) \<Rightarrow> string \<Rightarrow> process_options \<Rightarrow> rat" where
  "start_delay rnd name options = (case delayS options of DelayUndefined \<Rightarrow> 0 | DelayNull \<Rightarrow> rnd name | DelayS t \<Rightarrow> t)"

fun start_processes :: "int \<Rightarrow> (string \<Rightarrow> rat) \<Rightarrow> string \<Rightarrow> nat \<Rightarrow> (string \<times> process) list \<Rightarrow> 'r world \<Rightarrow> 'r world \<times> unit outcome" where
  "start_processes now rnd uid table [] w = (w, Inr ())"
| "start_processes now rnd uid table ((name, p) # ps) w =
     (case register_trigger uid name table p w of
        (w1, Inl e) \<Rightarrow> (w1, Inl e)
      | (w1, Inr _) \<Rightarrow>
          let w2 = (case periodS (pr_options p) of
                None \<Rightarrow> w1
              | Some _ \<Rightarrow>
                  (case map_of (w_services w1) uid of
                     None \<Rightarrow> w1
                   | Some s \<Rightarrow> set_timer (of_int now + start_delay rnd name (pr_options p) * 1000) uid name s w1))
          in start_processes now rnd uid table ps w2)"

definition set_status :: "string \<Rightarrow> (service \<Rightarrow> service) \<Rightarrow> 'r world \<Rightarrow> 'r world" where
  "set_status uid f w = (case map_of (w_services w) uid of None \<Rightarrow> w | Some s \<Rightarrow> put_service uid (f s) w)"

text \<open>From the start process with the index \<open>i\<close> on.\<close>

definition start_from :: "int \<Rightarrow> (string \<Rightarrow> rat) \<Rightarrow> string \<Rightarrow> nat \<Rightarrow> 'r world \<Rightarrow> 'r call" where
  "start_from now rnd uid i w =
     (case map_of (w_services w) uid of
        None \<Rightarrow> (w, [], Some (Thrown TypeErr))
      | Some s \<Rightarrow>
          let t = table_of w s
          in if i < length (processesStart t)
             then in_frame (F_startService uid (i + 1)) (runProcessWithPolicy now uid (processesStart t ! i) w)
             else case start_processes now rnd uid (pv_table (sv_provider s)) (getProcesses t) w of
                 (w1, Inl e) \<Rightarrow> (w1, [], Some (Thrown e))
               | (w1, Inr _) \<Rightarrow> (set_status uid (\<lambda>s. s\<lparr>sv_status := Status_running\<rparr>) w1, [], Some (Returned True)))"

definition startService :: "int \<Rightarrow> (string \<Rightarrow> rat) \<Rightarrow> string \<Rightarrow> 'r world \<Rightarrow> 'r call" where
  "startService now rnd uid w =
     (case map_of (w_services w) uid of
        None \<Rightarrow> (w, [], Some (Thrown TypeErr))
      | Some s \<Rightarrow>
          if sv_status s \<noteq> Status_idle then (w, [], Some (Thrown AssertFailed))
          else start_from now rnd uid 0 (put_service uid (s\<lparr>sv_timestampStart := now, sv_status := Status_starting\<rparr>) w))"

text \<open>\<open>stopService\<close>: the triggers, the timeouts, then the stop processes from the index \<open>i\<close> on.\<close>

fun stop_triggers :: "nat \<Rightarrow> (string \<times> process) list \<Rightarrow> 'r world \<Rightarrow> 'r world \<times> unit outcome" where
  "stop_triggers table [] w = (w, Inr ())"
| "stop_triggers table ((name, p) # ps) w =
     (case unregister_trigger name table p w of
        (w1, Inl e) \<Rightarrow> (w1, Inl e)
      | (w1, Inr _) \<Rightarrow> stop_triggers table ps w1)"

definition clear_timers :: "string \<Rightarrow> 'r world \<Rightarrow> 'r world" where
  "clear_timers uid w =
     (case map_of (w_services w) uid of
        None \<Rightarrow> w
      | Some s \<Rightarrow> put_service uid (s\<lparr>instances := []\<rparr>)
          (w\<lparr>w_timers := fold (\<lambda>(name, i). AList.delete i) (instances s) (w_timers w)\<rparr>))"

definition stop_from :: "int \<Rightarrow> string \<Rightarrow> nat \<Rightarrow> 'r world \<Rightarrow> 'r call" where
  "stop_from now uid i w =
     (case map_of (w_services w) uid of
        None \<Rightarrow> (w, [], Some (Thrown TypeErr))
      | Some s \<Rightarrow>
          let t = table_of w s
          in if i < length (processesStop t)
             then in_frame (F_stopService uid (i + 1)) (runProcessWithPolicy now uid (processesStop t ! i) w)
             else (put_service uid (s\<lparr>sv_timestampStop := now, sv_status := Status_idle\<rparr>) w, [], Some (Returned True)))"

definition stopService :: "int \<Rightarrow> string \<Rightarrow> 'r world \<Rightarrow> 'r call" where
  "stopService now uid w =
     (case map_of (w_services w) uid of
        None \<Rightarrow> (w, [], Some (Thrown TypeErr))
      | Some s \<Rightarrow>
          case stop_triggers (pv_table (sv_provider s)) (getProcesses (table_of w s))
              (put_service uid (s\<lparr>sv_status := Status_stopping\<rparr>) w) of
            (w1, Inl e) \<Rightarrow> (w1, [], Some (Thrown e))
          | (w1, Inr _) \<Rightarrow> stop_from now uid 0 (clear_timers uid w1))"

text \<open>\<open>getPendingException\<close>, and the loops of \<open>start\<close> and \<open>stop\<close> over the services there were at the call.\<close>

definition pending_exceptions :: "'r world \<Rightarrow> exn list" where
  "pending_exceptions w = concat (map (\<lambda>(uid, s). case lastFatalError s of None \<Rightarrow> [] | Some e \<Rightarrow> [e]) (w_services w))"

definition all_done :: "'r world \<Rightarrow> 'r call" where
  "all_done w = (w, [], Some (if pending_exceptions w = [] then Returned True else Thrown (Raised ''AggregateError'')))"

definition start_next :: "int \<Rightarrow> (string \<Rightarrow> rat) \<Rightarrow> string list \<Rightarrow> 'r world \<Rightarrow> 'r call" where
  "start_next now rnd uids w =
     (case uids of [] \<Rightarrow> all_done w | uid # rest \<Rightarrow> in_frame (F_start rest) (startService now rnd uid w))"

definition stop_next :: "int \<Rightarrow> string list \<Rightarrow> 'r world \<Rightarrow> 'r call" where
  "stop_next now uids w =
     (case uids of [] \<Rightarrow> all_done w | uid # rest \<Rightarrow> in_frame (F_stop rest) (stopService now uid w))"

text \<open>What a frame does when it is resumed. An exception goes through every frame but that of \<open>runProcess\<close>.\<close>

fun resume :: "int \<Rightarrow> (string \<Rightarrow> rat) \<Rightarrow> frame \<Rightarrow> 'r signal \<Rightarrow> 'r world \<Rightarrow> 'r call" where
  "resume now rnd (F_runProcess uid name l) (Completed result) w = (process_end now uid name l result w, [], Some (Returned (is_ok result)))"
| "resume now rnd (F_runProcessWithPolicy uid name) (Returned ok) w =
     (if ok then (w, [], Some (Returned True)) else case policy_end uid name w of (w1, v) \<Rightarrow> (w1, [], Some v))"
| "resume now rnd (F_runTimeTriggeredProcess uid name) (Returned ok) w = (rearm now uid name w, [], Some (Returned True))"
| "resume now rnd (F_startService uid i) (Returned ok) w =
     (if ok then start_from now rnd uid i w
      else (set_status uid (\<lambda>s. s\<lparr>sv_timestampStop := now, sv_status := Status_error\<rparr>) w, [], Some (Returned False)))"
| "resume now rnd (F_stopService uid i) (Returned ok) w = stop_from now uid i w"
| "resume now rnd (F_start rest) (Returned ok) w = start_next now rnd rest w"
| "resume now rnd (F_stop rest) (Returned ok) w = stop_next now rest w"
| "resume now rnd f v w = (w, [], Some v)"


section \<open>Threads and events\<close>

text \<open>
  A call from the outside begins a thread; a thread whose last frame has returned is gone. A thread with a signal can be
  resumed, at any moment and in any order with the others; one without awaits its process.
\<close>

definition put_thread :: "nat \<Rightarrow> frame list \<Rightarrow> 'r call \<Rightarrow> 'r world" where
  "put_thread tid rest c =
     (case c of (w, frames, v) \<Rightarrow>
        if frames @ rest = [] then w\<lparr>w_threads := AList.delete tid (w_threads w)\<rparr>
        else w\<lparr>w_threads := AList.update tid \<lparr>th_stack = frames @ rest, th_signal = v\<rparr> (w_threads w)\<rparr>)"

definition spawn :: "'r call \<Rightarrow> 'r world" where
  "spawn c = (case c of (w, frames, v) \<Rightarrow> put_thread (w_nextThread w) [] (w\<lparr>w_nextThread := w_nextThread w + 1\<rparr>, frames, v))"

datatype 'r event =
    NewProvider "string list"
  | AddProcess process_kind string "process_options \<Rightarrow> process_options" provider
  | Register provider "string option"
  | CallStart
  | CallStop
  | CallStartService string
  | CallStopService string
  | CallProcess string string
  | TriggerFires nat string
  | TimerFires nat
  | ProcessEnds nat "'r outcome"
  | Resumes nat

definition thread_resumes :: "int \<Rightarrow> (string \<Rightarrow> rat) \<Rightarrow> nat \<Rightarrow> 'r world \<Rightarrow> 'r world" where
  "thread_resumes now rnd tid w =
     (case map_of (w_threads w) tid of
        None \<Rightarrow> w
      | Some th \<Rightarrow>
          case (th_stack th, th_signal th) of
            (f # rest, Some v) \<Rightarrow> put_thread tid rest (resume now rnd f v w)
          | _ \<Rightarrow> w)"

definition process_completes :: "nat \<Rightarrow> 'r outcome \<Rightarrow> 'r world \<Rightarrow> 'r world" where
  "process_completes tid result w =
     (case map_of (w_threads w) tid of
        None \<Rightarrow> w
      | Some th \<Rightarrow>
          if th_signal th = None
          then w\<lparr>w_threads := AList.update tid (th\<lparr>th_signal := Some (Completed result)\<rparr>) (w_threads w)\<rparr> else w)"

definition trigger_fires :: "int \<Rightarrow> nat \<Rightarrow> string \<Rightarrow> 'r world \<Rightarrow> 'r world" where
  "trigger_fires now table name w =
     (case map_of (processes (w_tables w ! table)) name of
        None \<Rightarrow> w
      | Some p \<Rightarrow>
          case pr_trigger p of
            Some (Some (uid, name')) \<Rightarrow> spawn (runProcessWithPolicy now uid name' w)
          | _ \<Rightarrow> w)"

definition timeout_fires :: "int \<Rightarrow> nat \<Rightarrow> 'r world \<Rightarrow> 'r world" where
  "timeout_fires now i w =
     (case map_of (w_timers w) i of
        None \<Rightarrow> w
      | Some (due, uid, name) \<Rightarrow>
          if of_int now < due then w
          else spawn (runTimeTriggeredProcess now uid name (w\<lparr>w_timers := AList.delete i (w_timers w)\<rparr>)))"

fun world_step :: "int \<Rightarrow> (string \<Rightarrow> rat) \<Rightarrow> 'r event \<Rightarrow> 'r world \<Rightarrow> 'r world" where
  "world_step now rnd (NewProvider ns) w = w\<lparr>w_tables := snd (provider_new ns (w_tables w))\<rparr>"
| "world_step now rnd (AddProcess kind name options p) w =
     (if pv_table p < length (w_tables w) then w\<lparr>w_tables := fst (add_process kind name options p (w_tables w))\<rparr> else w)"
| "world_step now rnd (Register p name) w =
     (if pv_table p < length (w_tables w) then (case register_service p name w of None \<Rightarrow> w | Some (w', _) \<Rightarrow> w') else w)"
| "world_step now rnd CallStart w = spawn (start_next now rnd (map fst (w_services w)) w)"
| "world_step now rnd CallStop w = spawn (stop_next now (map fst (w_services w)) w)"
| "world_step now rnd (CallStartService uid) w = spawn (startService now rnd uid w)"
| "world_step now rnd (CallStopService uid) w = spawn (stopService now uid w)"
| "world_step now rnd (CallProcess uid name) w = spawn (runProcessWithPolicy now uid name w)"
| "world_step now rnd (TriggerFires table name) w = trigger_fires now table name w"
| "world_step now rnd (TimerFires i) w = timeout_fires now i w"
| "world_step now rnd (ProcessEnds tid result) w = process_completes tid result w"
| "world_step now rnd (Resumes tid) w = thread_resumes now rnd tid w"

text \<open>
  An event about a provider that does not exist (its table is not there) does nothing. A run of the program: its events, each at a time and with the choices of the random delays.\<close>

type_synonym 'r schedule = "(int \<times> (string \<Rightarrow> rat) \<times> 'r event) list"

definition world_run :: "'r schedule \<Rightarrow> 'r world \<Rightarrow> 'r world" where
  "world_run events w = fold (\<lambda>(now, rnd, ev). world_step now rnd ev) events w"

section \<open>Queries\<close>

text \<open>\<open>getService\<close>, \<open>getProcesses\<close>, \<open>getProcess\<close>, and the logs as the REST interface gives them, errors first.\<close>

definition getService :: "string \<Rightarrow> 'r world \<Rightarrow> (status \<times> int \<times> int) outcome" where
  "getService uid w =
     (case map_of (w_services w) uid of
        None \<Rightarrow> Inl PreconditionFailed
      | Some s \<Rightarrow> Inr (sv_status s, sv_timestampStart s, sv_timestampStop s))"

definition getServices :: "'r world \<Rightarrow> (string \<times> (status \<times> int \<times> int) outcome) list" where
  "getServices w = map (\<lambda>(uid, _). (uid, getService uid w)) (w_services w)"

definition getRecords :: "string \<Rightarrow> 'r world \<Rightarrow> (string \<times> precord) list outcome" where
  "getRecords uid w =
     (case map_of (w_services w) uid of None \<Rightarrow> Inl PreconditionFailed | Some s \<Rightarrow> Inr (records s))"

definition getProcess :: "string \<Rightarrow> string \<Rightarrow> 'r world \<Rightarrow> precord outcome" where
  "getProcess uid name w =
     (case map_of (w_services w) uid of
        None \<Rightarrow> Inl PreconditionFailed
      | Some s \<Rightarrow> (case map_of (records s) name of None \<Rightarrow> Inl PreconditionFailed | Some r \<Rightarrow> Inr r))"

definition service_logs :: "string \<Rightarrow> string \<Rightarrow> 'r world \<Rightarrow> 'r log list outcome" where
  "service_logs uid name w = outcome_bind (getProcess uid name w) (\<lambda>r. Inr (map ((!) (w_logs w)) (errorLogs r @ logs r)))"

end
