(* ===== verification/Services_Props.thy ===== *)
theory Services_Props
  imports Services
begin

text \<open>
  The runs of the processes of \<open>Services\<close>, in every interleaving of starts, stops, timeouts, triggers and calls: a process
  runs once at a time, and its record is the one of its completed runs. The invariant speaks of the records, options
  and logs through views that most operations leave alone.
\<close>

section \<open>Views\<close>

definition rec_view :: "'r world \<Rightarrow> string \<times> string \<Rightarrow> precord option" where
  "rec_view w k = map_option (\<lambda>s. record_at s (snd k)) (map_of (w_services w) (fst k))"

definition opt_view :: "'r world \<Rightarrow> string \<times> string \<Rightarrow> process_options option" where
  "opt_view w k =
     (case map_of (w_services w) (fst k) of
        None \<Rightarrow> None
      | Some s \<Rightarrow> map_option pr_options (map_of (processes (table_of w s)) (snd k)))"

definition runs_of :: "'r world \<Rightarrow> string \<times> string \<Rightarrow> 'r run list" where
  "runs_of w k = filter (\<lambda>x. run_of x = k) (w_history w)"

text \<open>Two worlds that differ in nothing that concerns the runs.\<close>

definition same_runs :: "'r world \<Rightarrow> 'r world \<Rightarrow> bool" where
  "same_runs w w' \<longleftrightarrow> rec_view w' = rec_view w \<and> opt_view w' = opt_view w \<and> w_logs w' = w_logs w \<and> w_history w' = w_history w \<and>
     w_threads w' = w_threads w \<and> w_nextThread w' = w_nextThread w \<and> length (w_tables w') = length (w_tables w) \<and>
     (\<forall>uid. map_option sv_provider (map_of (w_services w') uid) = map_option sv_provider (map_of (w_services w) uid))"

lemma same_runs_refl [simp]: "same_runs w w"
  by (simp add: same_runs_def)

lemma same_runs_trans [trans]: "same_runs w w' \<Longrightarrow> same_runs w' w'' \<Longrightarrow> same_runs w w''"
  by (simp add: same_runs_def)

lemma same_runs_put:
  assumes "map_of (w_services w) uid = Some s" "records s' = records s" "sv_provider s' = sv_provider s"
  shows "same_runs w (put_service uid s' w)"
proof -
  have "rec_view (put_service uid s' w) = rec_view w"
    by (intro ext) (simp add: rec_view_def put_service_def record_at_def assms)
  moreover have "opt_view (put_service uid s' w) = opt_view w"
    by (intro ext) (simp add: opt_view_def put_service_def table_of_def assms split: option.split)
  ultimately show ?thesis by (simp add: same_runs_def put_service_def assms)
qed

lemma same_runs_timers [simp]:
  "same_runs w (w\<lparr>w_timers := x\<rparr>)" "same_runs w (w\<lparr>w_timers := x, w_nextTimer := y\<rparr>)"
proof -
  have "same_runs w w'" if "w_services w' = w_services w" "w_tables w' = w_tables w" "w_logs w' = w_logs w"
      "w_history w' = w_history w" "w_threads w' = w_threads w" "w_nextThread w' = w_nextThread w" for w'
    using that by (simp add: same_runs_def fun_eq_iff rec_view_def opt_view_def table_of_def split: option.split)
  then show "same_runs w (w\<lparr>w_timers := x\<rparr>)" "same_runs w (w\<lparr>w_timers := x, w_nextTimer := y\<rparr>)" by simp_all
qed

lemma same_runs_set_status:
  "(\<And>s. records (f s) = records s) \<Longrightarrow> (\<And>s. sv_provider (f s) = sv_provider s) \<Longrightarrow> same_runs w (set_status uid f w)"
  by (auto simp: set_status_def intro: same_runs_put split: option.splits)

lemma same_runs_set_timer:
  assumes "map_of (w_services w) uid = Some s"
  shows "same_runs w (set_timer due uid name s w)"
proof -
  let ?w = "w\<lparr>w_timers := w_timers w @ [(w_nextTimer w, due, uid, name)], w_nextTimer := w_nextTimer w + 1\<rparr>"
  have "same_runs w ?w" by simp
  also have "same_runs ?w (set_timer due uid name s w)"
    unfolding set_timer_def by (rule same_runs_put [of _ _ s]) (simp_all add: assms)
  finally show ?thesis .
qed

lemma same_runs_rearm: "same_runs w (rearm now uid name w)"
  by (auto simp: rearm_def same_runs_set_timer split: option.splits)

lemma same_runs_set_trigger: "same_runs w (set_trigger table name t w)"
proof (cases "map_of (processes (w_tables w ! table)) name")
  case (Some p)
  let ?w = "set_trigger table name t w"
  have "map_option pr_options (map_of (processes (w_tables ?w ! i)) n) = map_option pr_options (map_of (processes (w_tables w ! i)) n)" for i n
    by (cases "i = table"; cases "table < length (w_tables w)")
      (auto simp: set_trigger_def Some list_update_beyond not_less)
  then have "opt_view ?w = opt_view w"
    by (intro ext) (simp add: opt_view_def table_of_def set_trigger_def Some split: option.splits)
  moreover have "rec_view ?w = rec_view w" by (intro ext) (simp add: rec_view_def set_trigger_def Some)
  ultimately show ?thesis by (simp add: same_runs_def set_trigger_def Some)
qed (simp add: set_trigger_def)

lemma same_runs_triggers:
  "same_runs w (fst (register_trigger uid name table p w))" "same_runs w (fst (unregister_trigger name table p w))"
  by (auto simp: register_trigger_def unregister_trigger_def same_runs_set_trigger split: option.splits)

lemma same_runs_start_processes: "same_runs w (fst (start_processes now rnd uid table ps w))"
proof (induction now rnd uid table ps w rule: start_processes.induct)
  case (2 now rnd uid table name p ps w)
  obtain w1 r where reg: "register_trigger uid name table p w = (w1, r)" by (cases "register_trigger uid name table p w")
  have one: "same_runs w w1" using same_runs_triggers(1) [of w uid name table p] reg by simp
  show ?case
  proof (cases r)
    case (Inr u)
    define w2 where "w2 = (case periodS (pr_options p) of
                None \<Rightarrow> w1
              | Some _ \<Rightarrow>
                  (case map_of (w_services w1) uid of
                     None \<Rightarrow> w1
                   | Some s \<Rightarrow> set_timer (of_int now + start_delay rnd name (pr_options p) * 1000) uid name s w1))"
    have "same_runs w1 w2" by (auto simp: w2_def same_runs_set_timer split: option.splits)
    moreover have "same_runs w2 (fst (start_processes now rnd uid table ps w2))"
      using "2.IH" [OF reg [symmetric] Inr w2_def] by simp
    ultimately show ?thesis using one by (auto simp: reg Inr w2_def [symmetric] Let_def intro: same_runs_trans)
  qed (use one in \<open>simp add: reg\<close>)
qed simp

lemma same_runs_stop_triggers: "same_runs w (fst (stop_triggers table ps w))"
proof (induction table ps w rule: stop_triggers.induct)
  case (2 table name p ps w)
  obtain w1 r where reg: "unregister_trigger name table p w = (w1, r)" by (cases "unregister_trigger name table p w")
  have one: "same_runs w w1" using same_runs_triggers(2) [of w name table p] reg by simp
  show ?case
    using one "2.IH" [OF reg [symmetric]] by (cases r) (auto simp: reg intro: same_runs_trans)
qed simp

lemma same_runs_clear_timers: "same_runs w (clear_timers uid w)"
proof (cases "map_of (w_services w) uid")
  case (Some s)
  let ?w = "w\<lparr>w_timers := fold (\<lambda>(name, i). AList.delete i) (instances s) (w_timers w)\<rparr>"
  have "same_runs w ?w" by simp
  also have "same_runs ?w (clear_timers uid w)"
    by (simp add: clear_timers_def Some) (rule same_runs_put [of _ _ s]; simp add: Some)
  finally show ?thesis .
qed (simp add: clear_timers_def)

lemma same_runs_policy: "same_runs w (fst (policy_end uid name w))"
  by (auto simp: policy_end_def intro: same_runs_put split: option.splits policy.splits list.splits)

lemmas same_runs_ops = same_runs_set_status same_runs_rearm same_runs_start_processes same_runs_stop_triggers
  same_runs_clear_timers same_runs_policy


section \<open>Records and histories\<close>

definition run_failed :: "'r run \<Rightarrow> bool" where
  "run_failed x \<longleftrightarrow> \<not> is_ok (run_outcome x)"

definition run_duration :: "'r run \<Rightarrow> rat" where
  "run_duration x = of_int (run_stop x - run_start x) / 1000"

definition log_of :: "'r run \<Rightarrow> 'r log" where
  "log_of x = \<lparr>log_error = (case run_outcome x of Inl e \<Rightarrow> Some e | Inr _ \<Rightarrow> None), log_timestampStart = run_start x,
     log_timestampStop = run_stop x, log_result = (case run_outcome x of Inl _ \<Rightarrow> None | Inr v \<Rightarrow> Some v)\<rparr>"

text \<open>The logs of the runs that ended: without the one of the run that is under way.\<close>

definition done_logs :: "precord \<Rightarrow> nat list" where
  "done_logs r = (if rec_status r = Status_running then tl (logs r) else logs r)"

text \<open>The code takes the smallest duration since the last one that was zero.\<close>

definition least_duration :: "rat list \<Rightarrow> rat" where
  "least_duration ds = fold (\<lambda>d m. min (if m = 0 then d else m) d) ds 0"

definition stats_ok :: "'r run list \<Rightarrow> bool \<Rightarrow> precord \<Rightarrow> bool" where
  "stats_ok h running r \<longleftrightarrow>
     executions r = length h + (if running then 1 else 0) \<and> errors r = length (filter run_failed h) \<and>
     (rec_status r = Status_running \<longleftrightarrow> running) \<and>
     durationMax r = fold max (map run_duration h) 0 \<and> durationMin r = least_duration (map run_duration h) \<and>
     durationAvg r = sum_list (map run_duration h) / of_nat (length h)"

definition logs_ok :: "process_options \<Rightarrow> 'r log list \<Rightarrow> 'r run list \<Rightarrow> precord \<Rightarrow> bool" where
  "logs_ok opt lg h r \<longleftrightarrow>
     map ((!) lg) (done_logs r) = take (maxLogs opt) (map log_of (rev (filter (\<lambda>x. \<not> run_failed x) h))) \<and>
     map ((!) lg) (errorLogs r) = take (maxErrorLogs opt) (map log_of (rev (filter run_failed h)))"

definition rec_ok :: "process_options \<Rightarrow> 'r log list \<Rightarrow> 'r run list \<Rightarrow> nat option \<Rightarrow> precord \<Rightarrow> bool" where
  "rec_ok opt lg h running r \<longleftrightarrow> stats_ok h (running \<noteq> None) r \<and> logs_ok opt lg h r \<and>
     (\<forall>l. running = Some l \<longrightarrow> logs r = l # done_logs r)"

lemma rec_ok_new: "rec_ok opt lg [] None record_new"
  by (simp add: rec_ok_def stats_ok_def logs_ok_def record_new_def done_logs_def least_duration_def)

lemma rec_ok_begin:
  "rec_ok opt lg h None r \<Longrightarrow> rec_ok opt lg h (Some l) (record_begin l r)"
  by (auto simp: rec_ok_def stats_ok_def logs_ok_def record_begin_def done_logs_def)

lemma logs_ok_append:
  assumes "logs_ok opt lg h r" "\<forall>x \<in> set (done_logs r) \<union> set (errorLogs r). x < length lg \<and> lg' ! x = lg ! x"
  shows "logs_ok opt lg' h r"
proof -
  have "map ((!) lg') (done_logs r) = map ((!) lg) (done_logs r)" "map ((!) lg') (errorLogs r) = map ((!) lg) (errorLogs r)"
    using assms(2) by simp_all
  then show ?thesis using assms(1) by (simp only: logs_ok_def)
qed

lemma record_end_fields:
  "done_logs (record_end opt starts l ok d r) = take (maxLogs opt) (if ok then logs r else tl (logs r))"
  "errorLogs (record_end opt starts l ok d r) = (if ok then errorLogs r else take (maxErrorLogs opt) (l # errorLogs r))"
  "executions (record_end opt starts l ok d r) = executions r"
  "errors (record_end opt starts l ok d r) = (if ok then errors r else errors r + 1)"
  "rec_status (record_end opt starts l ok d r) = (if ok then Status_idle else Status_error)"
  "durationMax (record_end opt starts l ok d r) = max (durationMax r) d"
  "durationMin (record_end opt starts l ok d r) = min (if durationMin r = 0 then d else durationMin r) d"
  "durationAvg (record_end opt starts l ok d r) = (durationAvg r * (of_nat (executions r) - 1) + d) / of_nat (executions r)"
  by (simp_all add: record_end_def record_durations_def record_rate_def record_outcome_def done_logs_def Let_def split: list.splits)

lemma rec_ok_end:
  fixes x :: "'r run"
  assumes ok: "rec_ok opt lg h (Some l) r" and l: "l < length lg" "l \<notin> set (done_logs r) \<union> set (errorLogs r)"
  shows "rec_ok opt (lg[l := log_of x]) (h @ [x]) None (record_end opt starts l (is_ok (run_outcome x)) (run_duration x) r)"
proof -
  let ?r = "record_end opt starts l (is_ok (run_outcome x)) (run_duration x) r" and ?lg = "lg[l := log_of x]"
  have stats: "stats_ok h True r" and old: "logs_ok opt lg h r" and head: "logs r = l # done_logs r"
    using ok by (simp_all add: rec_ok_def)
  have "stats_ok (h @ [x]) False ?r"
  proof -
    have ex: "of_nat (executions r) - 1 = (of_nat (length h) :: rat)" "of_nat (executions r) = (of_nat (length h) + 1 :: rat)"
      using stats by (simp_all add: stats_ok_def)
    have "durationAvg r * of_nat (length h) = sum_list (map run_duration h)"
      using stats by (cases h) (simp_all add: stats_ok_def)
    then have "durationAvg ?r = sum_list (map run_duration (h @ [x])) / of_nat (length (h @ [x]))"
      by (simp add: record_end_fields ex)
    moreover have "durationMax ?r = fold max (map run_duration (h @ [x])) 0"
      using stats by (simp add: record_end_fields stats_ok_def max.commute)
    ultimately show ?thesis
      using stats by (auto simp: record_end_fields stats_ok_def run_failed_def least_duration_def)
  qed
  moreover have "logs_ok opt ?lg (h @ [x]) ?r"
  proof -
    have "?lg ! i = lg ! i" if "i \<in> set (done_logs r) \<union> set (errorLogs r)" for i
      using that l(2) by (metis nth_list_update_neq)
    then have same: "map ((!) ?lg) (done_logs r) = map ((!) lg) (done_logs r)"
      and err: "map ((!) ?lg) (errorLogs r) = map ((!) lg) (errorLogs r)" by simp_all
    have tl: "tl (logs r) = done_logs r" using head by (metis list.sel(3))
    have a: "take n (y # take n ys) = take n (y # ys)" for n and y :: "'r log" and ys
      by (cases n) (simp_all add: take_Cons')
    show ?thesis
    proof (cases "run_failed x")
      case True
      have "map ((!) ?lg) (take (maxErrorLogs opt) (l # errorLogs r)) = take (maxErrorLogs opt) (log_of x # map ((!) lg) (errorLogs r))"
        using l(1) by (simp only: take_map [symmetric] list.map nth_list_update_eq err)
      moreover have "map ((!) ?lg) (take (maxLogs opt) (tl (logs r))) = take (maxLogs opt) (map ((!) lg) (done_logs r))"
        by (simp only: take_map [symmetric] tl same)
      ultimately show ?thesis
        using True old by (simp add: logs_ok_def record_end_fields run_failed_def a del: map_eq_conv)
    next
      case False
      have "map ((!) ?lg) (take (maxLogs opt) (logs r)) = take (maxLogs opt) (log_of x # map ((!) lg) (done_logs r))"
        using l(1) by (subst head) (simp only: take_map [symmetric] list.map nth_list_update_eq same)
      then show ?thesis
        using False old err by (simp add: logs_ok_def record_end_fields run_failed_def a del: map_eq_conv)
    qed
  qed
  ultimately show ?thesis by (simp add: rec_ok_def)
qed


section \<open>Invariant\<close>

text \<open>\<open>M\<close> has the processes that run, with their logs.\<close>

definition fresh_log :: "'r log \<Rightarrow> bool" where
  "fresh_log x \<longleftrightarrow> log_error x = None \<and> log_result x = None"

definition running_ok :: "(string \<times> string \<Rightarrow> nat option) \<Rightarrow> 'r world \<Rightarrow> bool" where
  "running_ok M w \<longleftrightarrow>
     (\<forall>k l. M k = Some l \<longrightarrow> l < length (w_logs w) \<and> fresh_log (w_logs w ! l) \<and> opt_view w k \<noteq> None) \<and>
     (\<forall>k k' l. M k = Some l \<longrightarrow> M k' = Some l \<longrightarrow> k = k')"

definition record_inv :: "(string \<times> string \<Rightarrow> nat option) \<Rightarrow> 'r world \<Rightarrow> string \<times> string \<Rightarrow> bool" where
  "record_inv M w k \<longleftrightarrow>
     (case rec_view w k of
        None \<Rightarrow> runs_of w k = []
      | Some r \<Rightarrow> (\<forall>x \<in> set (done_logs r) \<union> set (errorLogs r). x < length (w_logs w) \<and> x \<notin> ran M) \<and>
          (case opt_view w k of
             None \<Rightarrow> r = record_new \<and> runs_of w k = []
           | Some opt \<Rightarrow> rec_ok opt (w_logs w) (runs_of w k) (M k) r))"

definition providers_ok :: "'r world \<Rightarrow> bool" where
  "providers_ok w \<longleftrightarrow> (\<forall>uid s. map_of (w_services w) uid = Some s \<longrightarrow> pv_table (sv_provider s) < length (w_tables w))"

definition runs_inv :: "(string \<times> string \<Rightarrow> nat option) \<Rightarrow> 'r world \<Rightarrow> bool" where
  "runs_inv M w \<longleftrightarrow> running_ok M w \<and> (\<forall>k. record_inv M w k) \<and> providers_ok w"

lemma inv_cong:
  assumes "rec_view w' = rec_view w" "opt_view w' = opt_view w" "w_logs w' = w_logs w" "runs_of w' = runs_of w"
  shows "running_ok M w' = running_ok M w" "record_inv M w' k = record_inv M w k"
  by (simp_all only: running_ok_def record_inv_def assms)

lemma runs_inv_same: "same_runs w w' \<Longrightarrow> runs_inv M w \<Longrightarrow> runs_inv M w'"
proof -
  assume same: "same_runs w w'" and inv: "runs_inv M w"
  have "runs_of w' = runs_of w" using same by (intro ext) (simp add: runs_of_def same_runs_def)
  moreover have "providers_ok w'"
    unfolding providers_ok_def
  proof (intro allI impI)
    fix uid s assume "map_of (w_services w') uid = Some s"
    then have "map_option sv_provider (map_of (w_services w) uid) = Some (sv_provider s)"
      using same unfolding same_runs_def by (metis option.map(2))
    then obtain s0 where "map_of (w_services w) uid = Some s0" "sv_provider s0 = sv_provider s"
      by (auto simp: map_option_eq_Some)
    moreover from this(1) have "pv_table (sv_provider s0) < length (w_tables w)"
      using inv unfolding runs_inv_def providers_ok_def by blast
    ultimately show "pv_table (sv_provider s) < length (w_tables w')"
      using same by (simp add: same_runs_def)
  qed
  ultimately show "runs_inv M w'"
    using inv same inv_cong [of w' w M] by (simp add: runs_inv_def same_runs_def)
qed

text \<open>A process begins.\<close>

lemma rec_view_put:
  "rec_view w (uid, name) \<noteq> None \<Longrightarrow> rec_view (put_record uid name r w) = (rec_view w)((uid, name) \<mapsto> r)"
  by (auto simp: fun_eq_iff rec_view_def put_record_def put_service_def record_at_def split: option.splits)

lemma put_record_same [simp]:
  "opt_view (put_record uid name r w) = opt_view w" "w_logs (put_record uid name r w) = w_logs w"
  "w_history (put_record uid name r w) = w_history w" "w_threads (put_record uid name r w) = w_threads w"
  "w_nextThread (put_record uid name r w) = w_nextThread w" "providers_ok (put_record uid name r w) = providers_ok w"
  "runs_of (put_record uid name r w) = runs_of w"
proof -
  show "opt_view (put_record uid name r w) = opt_view w"
    by (auto simp: fun_eq_iff opt_view_def put_record_def put_service_def table_of_def split: option.splits)
  show "providers_ok (put_record uid name r w) = providers_ok w"
    by (auto simp: providers_ok_def put_record_def put_service_def split: option.splits)
qed (auto simp: fun_eq_iff put_record_def put_service_def runs_of_def split: option.splits)

lemma view_logs [simp]:
  "rec_view (w\<lparr>w_logs := x\<rparr>) = rec_view w" "opt_view (w\<lparr>w_logs := x\<rparr>) = opt_view w" "runs_of (w\<lparr>w_logs := x\<rparr>) = runs_of w"
  "rec_view (w\<lparr>w_logs := x, w_history := y\<rparr>) = rec_view w" "opt_view (w\<lparr>w_logs := x, w_history := y\<rparr>) = opt_view w"
  "providers_ok (w\<lparr>w_logs := x\<rparr>) = providers_ok w" "providers_ok (w\<lparr>w_logs := x, w_history := y\<rparr>) = providers_ok w"
  by (auto simp: fun_eq_iff rec_view_def opt_view_def runs_of_def table_of_def providers_ok_def split: option.splits)

lemma done_begin [simp]: "rec_status r \<noteq> Status_running \<Longrightarrow> done_logs (record_begin l r) = done_logs r" "errorLogs (record_begin l r) = errorLogs r"
  by (simp_all add: done_logs_def record_begin_def)

lemma process_begin_inv:
  assumes inv: "runs_inv M w" and starts: "process_begin now uid name w = (w', Inr (Some l))"
  shows "M (uid, name) = None" "runs_inv (M((uid, name) \<mapsto> l)) w'" "w_threads w' = w_threads w" "w_nextThread w' = w_nextThread w"
proof -
  let ?k = "(uid, name)"
  obtain s where s: "map_of (w_services w) uid = Some s" using starts by (auto simp: process_begin_def split: option.splits)
  have entry: "opt_view w ?k \<noteq> None" using starts s by (auto simp: process_begin_def opt_view_def split: if_splits)
  define r where "r = record_at s name"
  have idle: "rec_status r \<noteq> Status_running" and l: "l = length (w_logs w)"
    and w': "w' = put_record uid name (record_begin l r) (w\<lparr>w_logs := w_logs w @ [log_new now]\<rparr>)"
    using starts s by (auto simp: process_begin_def r_def Let_def split: if_splits)
  have view: "rec_view w ?k = Some r" by (simp add: rec_view_def s r_def)
  obtain opt where opt: "opt_view w ?k = Some opt" using entry by blast
  have "record_inv M w ?k" using inv by (simp add: runs_inv_def)
  then have old: "rec_ok opt (w_logs w) (runs_of w ?k) (M ?k) r" by (simp add: record_inv_def view opt)
  then show free: "M ?k = None" using idle by (cases "M ?k") (simp_all add: rec_ok_def stats_ok_def)
  have views: "rec_view w' = (rec_view w)(?k \<mapsto> record_begin l r)" "opt_view w' = opt_view w" "w_logs w' = w_logs w @ [log_new now]"
    "runs_of w' = runs_of w" "providers_ok w' = providers_ok w"
    by (simp_all add: w' rec_view_put view)
  have lt: "l' < l" if "M k = Some l'" for k l' using inv that unfolding runs_inv_def running_ok_def l by blast
  have ran: "ran (M(?k \<mapsto> l)) = insert l (ran M)" using free by (simp add: ran_map_upd)
  have "running_ok (M(?k \<mapsto> l)) w'"
    unfolding running_ok_def views
  proof (intro conjI allI impI)
    fix k j assume k: "(M(?k \<mapsto> l)) k = Some j"
    have old: "M k' = Some j' \<Longrightarrow> fresh_log (w_logs w ! j') \<and> opt_view w k' \<noteq> None" for k' j'
      using inv unfolding runs_inv_def running_ok_def by blast
    show "j < length (w_logs w @ [log_new now])" "fresh_log ((w_logs w @ [log_new now]) ! j)" "opt_view w k \<noteq> None"
      using k entry lt [of k j] old [of k j] by (auto simp: l nth_append fresh_log_def log_new_def split: if_splits)
    fix k' assume k': "(M(?k \<mapsto> l)) k' = Some j"
    show "k = k'"
    proof (cases "j = l")
      case True
      then have "M k \<noteq> Some j" "M k' \<noteq> Some j" using lt by blast+
      then show ?thesis using k k' by (simp split: if_splits)
    next
      case False
      then have "M k = Some j" "M k' = Some j" using k k' by (auto split: if_splits)
      then show ?thesis using inv unfolding runs_inv_def running_ok_def by blast
    qed
  qed
  moreover have "record_inv (M(?k \<mapsto> l)) w' k" for k
  proof -
    have rk: "record_inv M w k" using inv unfolding runs_inv_def by blast
    have ext: "rec_ok o' (w_logs w @ [log_new now]) h m r'"
      if "rec_ok o' (w_logs w) h m r'" "\<forall>x \<in> set (done_logs r') \<union> set (errorLogs r'). x < length (w_logs w)" for o' h m r'
      using that logs_ok_append [of o' "w_logs w" h r' "w_logs w @ [log_new now]"] by (simp add: rec_ok_def nth_append)
    have refs': "\<forall>x \<in> S. x < length (w_logs w') \<and> x \<notin> ran (M(?k \<mapsto> l))"
      if "\<forall>x \<in> S. x < length (w_logs w) \<and> x \<notin> ran M" for S
      unfolding ran views using that by (force simp: l)
    show ?thesis
    proof (cases "k = ?k")
      case True
      have refs: "\<forall>x \<in> set (done_logs r) \<union> set (errorLogs r). x < length (w_logs w) \<and> x \<notin> ran M"
        using rk True by (simp add: record_inv_def view)
      moreover from this have "rec_ok opt (w_logs w') (runs_of w ?k) (Some l) (record_begin l r)"
        using rec_ok_begin [OF ext [OF old [unfolded free]]] by (simp add: views)
      ultimately show ?thesis
        using True idle refs' [OF refs] by (simp add: record_inv_def views(1,2,4) opt)
    next
      case False
      show ?thesis
      proof (cases "rec_view w k")
        case (Some r')
        then have refs: "\<forall>x \<in> set (done_logs r') \<union> set (errorLogs r'). x < length (w_logs w) \<and> x \<notin> ran M"
          using rk by (simp add: record_inv_def)
        then show ?thesis
          using rk False Some ext [of _ _ _ r'] refs' [OF refs]
          by (simp add: record_inv_def views(1,2,4) split: option.splits) (simp add: views)
      qed (use rk False in \<open>simp add: record_inv_def views\<close>)
    qed
  qed
  ultimately show "runs_inv (M(?k \<mapsto> l)) w'" using inv by (simp add: runs_inv_def views)
  show "w_threads w' = w_threads w" "w_nextThread w' = w_nextThread w" by (simp_all add: w')
qed


text \<open>A process ends.\<close>

lemma runs_of_snoc: "w_history w' = w_history w @ [x] \<Longrightarrow> runs_of w' k = runs_of w k @ (if run_of x = k then [x] else [])"
  by (simp add: runs_of_def)

lemma process_end_inv:
  fixes w :: "'r world"
  assumes inv: "runs_inv M w" and M: "M (uid, name) = Some l"
  shows "runs_inv (M((uid, name) := None)) (process_end now uid name l result w)"
    "w_threads (process_end now uid name l result w) = w_threads w"
    "w_nextThread (process_end now uid name l result w) = w_nextThread w"
proof -
  let ?k = "(uid, name)" and ?w = "process_end now uid name l result w"
  have l: "l < length (w_logs w)" "fresh_log (w_logs w ! l)" and entry: "opt_view w ?k \<noteq> None"
    using inv M unfolding runs_inv_def running_ok_def by blast+
  obtain s p where s: "map_of (w_services w) uid = Some s" and p: "map_of (processes (table_of w s)) name = Some p"
    using entry by (auto simp: opt_view_def split: option.splits)
  define r where "r = record_at s name"
  define x where "x = \<lparr>run_of = ?k, run_start = log_timestampStart (w_logs w ! l), run_stop = now, run_outcome = result\<rparr>"
  have view: "rec_view w ?k = Some r" "opt_view w ?k = Some (pr_options p)" by (simp_all add: rec_view_def opt_view_def s p r_def)
  have log: "(w_logs w ! l)\<lparr>log_timestampStop := now, log_error := (case result of Inl e \<Rightarrow> Some e | Inr _ \<Rightarrow> None),
      log_result := (case result of Inl _ \<Rightarrow> log_result (w_logs w ! l) | Inr v \<Rightarrow> Some v)\<rparr> = log_of x"
    using l(2) by (simp add: log_of_def x_def fresh_log_def split: sum.split)
  define r' where "r' = record_end (pr_options p) (\<lambda>i. log_timestampStart (w_logs w ! i)) l (is_ok (run_outcome x)) (run_duration x) r"
  have w': "?w = put_record uid name r' (w\<lparr>w_logs := (w_logs w)[l := log_of x], w_history := w_history w @ [x]\<rparr>)"
    unfolding process_end_def s p option.case Let_def log
    by (simp add: r'_def r_def x_def run_duration_def)
  have views: "rec_view ?w = (rec_view w)(?k \<mapsto> r')" "opt_view ?w = opt_view w" "w_logs ?w = (w_logs w)[l := log_of x]"
    "w_history ?w = w_history w @ [x]" "providers_ok ?w = providers_ok w"
    by (simp_all add: w' rec_view_put view)
  have hist: "runs_of ?w k = runs_of w k @ (if k = ?k then [x] else [])" for k
    using runs_of_snoc [of ?w w x k] views(4) by (auto simp: x_def)
  have inj: "k = ?k" if "M k = Some l" for k using inv M that unfolding runs_inv_def running_ok_def by blast
  have ran: "ran (M(?k := None)) \<subseteq> ran M" "l \<notin> ran (M(?k := None))"
  proof -
    show "ran (M(?k := None)) \<subseteq> ran M" by (auto simp: ran_def split: if_splits)
    show "l \<notin> ran (M(?k := None))"
    proof
      assume "l \<in> ran (M(?k := None))"
      then obtain k where "(M(?k := None)) k = Some l" by (auto simp: ran_def)
      then show False using inj [of k] by (simp split: if_splits)
    qed
  qed
  have rk: "record_inv M w k" for k using inv unfolding runs_inv_def by blast
  have "running_ok (M(?k := None)) ?w"
    unfolding running_ok_def views
  proof (intro conjI allI impI)
    fix k j assume "(M(?k := None)) k = Some j"
    then have k: "M k = Some j" "k \<noteq> ?k" by (simp_all split: if_splits)
    then have "j < length (w_logs w)" "fresh_log (w_logs w ! j)" "opt_view w k \<noteq> None" "j \<noteq> l"
      using inv inj [of k] unfolding runs_inv_def running_ok_def by blast+
    then show "j < length ((w_logs w)[l := log_of x])" "fresh_log ((w_logs w)[l := log_of x] ! j)" "opt_view w k \<noteq> None"
      by simp_all
    fix k' assume "(M(?k := None)) k' = Some j"
    then have "M k' = Some j" by (simp split: if_splits)
    then show "k = k'" using inv k(1) unfolding runs_inv_def running_ok_def by blast
  qed
  moreover have "record_inv (M(?k := None)) ?w k" for k
  proof (cases "k = ?k")
    case True
    have refs: "\<forall>y \<in> set (done_logs r) \<union> set (errorLogs r). y < length (w_logs w) \<and> y \<notin> ran M"
      and ok: "rec_ok (pr_options p) (w_logs w) (runs_of w ?k) (Some l) r"
      using rk [of ?k] by (simp_all add: record_inv_def view M)
    have "l \<in> ran M" using M by (rule ranI)
    then have nl: "l \<notin> set (done_logs r) \<union> set (errorLogs r)" using refs by blast
    have head: "logs r = l # done_logs r" using ok by (simp add: rec_ok_def)
    have "set (done_logs r') \<union> set (errorLogs r') \<subseteq> insert l (set (done_logs r) \<union> set (errorLogs r))"
    proof -
      have "set (done_logs r') \<subseteq> set (logs r) \<union> set (tl (logs r))" "set (errorLogs r') \<subseteq> insert l (set (errorLogs r))"
        unfolding r'_def record_end_fields by (auto dest: in_set_takeD)
      moreover have "set (logs r) \<union> set (tl (logs r)) = insert l (set (done_logs r))" by (subst (1 2) head) auto
      ultimately show ?thesis by blast
    qed
    then have "\<forall>y \<in> set (done_logs r') \<union> set (errorLogs r'). y < length ((w_logs w)[l := log_of x]) \<and> y \<notin> ran (M(?k := None))"
      using refs ran l(1) by auto
    moreover have "rec_ok (pr_options p) ((w_logs w)[l := log_of x]) (runs_of w ?k @ [x]) None r'"
      unfolding r'_def by (rule rec_ok_end [OF ok l(1) nl])
    ultimately show ?thesis using True by (simp add: record_inv_def views(1-3) hist view)
  next
    case False
    show ?thesis
    proof (cases "rec_view w k")
      case (Some r0)
      have refs: "\<forall>y \<in> set (done_logs r0) \<union> set (errorLogs r0). y < length (w_logs w) \<and> y \<notin> ran M"
        using rk [of k] Some by (simp add: record_inv_def)
      have "l \<in> ran M" using M by (rule ranI)
      then have "y < length (w_logs w) \<and> (w_logs w)[l := log_of x] ! y = w_logs w ! y" if "y \<in> set (done_logs r0) \<union> set (errorLogs r0)" for y
        using refs that by (metis nth_list_update_neq)
      then have "rec_ok opt ((w_logs w)[l := log_of x]) h m r0" if "rec_ok opt (w_logs w) h m r0" for opt h m
        using that logs_ok_append [of opt "w_logs w" h r0 "(w_logs w)[l := log_of x]"] unfolding rec_ok_def by blast
      moreover have "\<forall>y \<in> set (done_logs r0) \<union> set (errorLogs r0). y < length ((w_logs w)[l := log_of x]) \<and> y \<notin> ran (M(?k := None))"
        using refs ran(1) by auto
      ultimately show ?thesis
        using rk [of k] False Some by (simp add: record_inv_def views(1-3) hist split: option.splits)
    qed (use rk [of k] False in \<open>simp add: record_inv_def views hist\<close>)
  qed
  ultimately show "runs_inv (M(?k := None)) ?w" using inv unfolding runs_inv_def views by blast
  show "w_threads ?w = w_threads w" "w_nextThread ?w = w_nextThread w" by (simp_all add: w')
qed


section \<open>Calls\<close>

fun is_run :: "frame \<Rightarrow> bool" where
  "is_run (F_runProcess uid name l) = True"
| "is_run _ = False"

definition no_run :: "frame list \<Rightarrow> bool" where
  "no_run frames \<longleftrightarrow> (\<forall>f \<in> set frames. \<not> is_run f)"

fun plain_signal :: "'r signal option \<Rightarrow> bool" where
  "plain_signal (Some (Returned b)) = True"
| "plain_signal (Some (Thrown e)) = True"
| "plain_signal _ = False"

text \<open>A call awaits a process that it has begun, or it leaves the running processes alone.\<close>

inductive call_ok :: "(string \<times> string \<Rightarrow> nat option) \<Rightarrow> 'r world \<Rightarrow> 'r call \<Rightarrow> bool" for M w where
  awaits: "M (uid, name) = None \<Longrightarrow> runs_inv (M((uid, name) \<mapsto> l)) w' \<Longrightarrow> no_run frames \<Longrightarrow>
    w_threads w' = w_threads w \<Longrightarrow> w_nextThread w' = w_nextThread w \<Longrightarrow> call_ok M w (w', F_runProcess uid name l # frames, None)"
| ready: "runs_inv M w' \<Longrightarrow> no_run frames \<Longrightarrow> plain_signal v \<Longrightarrow>
    w_threads w' = w_threads w \<Longrightarrow> w_nextThread w' = w_nextThread w \<Longrightarrow> call_ok M w (w', frames, v)"

lemma call_returns: "runs_inv M w \<Longrightarrow> same_runs w w' \<Longrightarrow> plain_signal v \<Longrightarrow> call_ok M w (w', [], v)"
  by (rule call_ok.ready) (auto simp: no_run_def same_runs_def intro: runs_inv_same)

lemma call_in_frame:
  assumes "call_ok M w c" "\<not> is_run f"
  shows "call_ok M w (in_frame f c)"
  using assms(1)
proof cases
  case (awaits uid name l w' frames)
  then show ?thesis using call_ok.awaits [of M uid name l w' "frames @ [f]" w] assms(2) by (auto simp: in_frame_def no_run_def)
next
  case (ready w' frames v)
  then show ?thesis using call_ok.ready [of M w' "frames @ [f]" v w] assms(2) by (auto simp: in_frame_def no_run_def)
qed

lemma call_after:
  assumes "same_runs w0 w" "call_ok M w c"
  shows "call_ok M w0 c"
  using assms(2)
proof cases
  case (awaits uid name l w' frames)
  then show ?thesis using call_ok.awaits [of M uid name l w' frames w0] assms(1) by (simp add: same_runs_def)
next
  case (ready w' frames v)
  then show ?thesis using call_ok.ready [of M w' frames v w0] assms(1) by (simp add: same_runs_def)
qed

lemma runProcess_ok:
  assumes "runs_inv M w"
  shows "call_ok M w (runProcess now uid name w)"
proof -
  obtain w1 res where res: "process_begin now uid name w = (w1, res)" by (cases "process_begin now uid name w")
  show ?thesis
  proof (cases "\<exists>l. res = Inr (Some l)")
    case True
    then obtain l where l: "res = Inr (Some l)" by blast
    show ?thesis using process_begin_inv [OF assms, of now uid name w1 l] res l
      by (auto simp: runProcess_def no_run_def intro: call_ok.awaits)
  next
    case False
    then have "w1 = w" using res by (auto simp: process_begin_def Let_def split: option.splits if_splits)
    then show ?thesis using False assms call_returns [of M w w]
      by (cases res) (auto simp: runProcess_def res split: option.splits)
  qed
qed

lemma runProcessWithPolicy_ok: "runs_inv M w \<Longrightarrow> call_ok M w (runProcessWithPolicy now uid name w)"
  by (simp add: runProcessWithPolicy_def call_in_frame runProcess_ok)

lemma runTimeTriggeredProcess_ok: "runs_inv M w \<Longrightarrow> call_ok M w (runTimeTriggeredProcess now uid name w)"
  by (simp add: runTimeTriggeredProcess_def call_in_frame runProcessWithPolicy_ok)

lemma start_from_ok:
  assumes "runs_inv M w"
  shows "call_ok M w (start_from now rnd uid i w)"
proof (cases "map_of (w_services w) uid")
  case (Some s)
  show ?thesis
  proof (cases "i < length (processesStart (table_of w s))")
    case False
    obtain w1 r where w1: "start_processes now rnd uid (pv_table (sv_provider s)) (getProcesses (table_of w s)) w = (w1, r)"
      by (cases "start_processes now rnd uid (pv_table (sv_provider s)) (getProcesses (table_of w s)) w")
    have same: "same_runs w w1"
      using same_runs_start_processes [of w now rnd uid "pv_table (sv_provider s)" "getProcesses (table_of w s)"] w1 by simp
    show ?thesis
    proof (cases r)
      case (Inr u)
      have "same_runs w (set_status uid (\<lambda>s. s\<lparr>sv_status := Status_running\<rparr>) w1)"
        by (rule same_runs_trans [OF same same_runs_set_status]) simp_all
      then show ?thesis using False assms by (simp add: start_from_def Some w1 Inr call_returns)
    qed (use False assms same in \<open>simp add: start_from_def Some w1 call_returns\<close>)
  qed (use assms in \<open>simp add: start_from_def Some call_in_frame runProcessWithPolicy_ok\<close>)
qed (use assms in \<open>simp add: start_from_def call_returns\<close>)

lemma startService_ok:
  assumes "runs_inv M w"
  shows "call_ok M w (startService now rnd uid w)"
proof (cases "map_of (w_services w) uid")
  case (Some s)
  let ?w = "put_service uid (s\<lparr>sv_timestampStart := now, sv_status := Status_starting\<rparr>) w"
  have "same_runs w ?w" by (rule same_runs_put) (simp_all add: Some)
  then have "call_ok M w (start_from now rnd uid 0 ?w)"
    using call_after start_from_ok runs_inv_same [OF _ assms] by blast
  then show ?thesis using assms by (simp add: startService_def Some call_returns)
qed (use assms in \<open>simp add: startService_def call_returns\<close>)

lemma stop_from_ok:
  assumes "runs_inv M w"
  shows "call_ok M w (stop_from now uid i w)"
proof (cases "map_of (w_services w) uid")
  case (Some s)
  have "same_runs w (put_service uid (s\<lparr>sv_timestampStop := now, sv_status := Status_idle\<rparr>) w)"
    by (rule same_runs_put) (simp_all add: Some)
  then show ?thesis using assms by (simp add: stop_from_def Some Let_def call_returns call_in_frame runProcessWithPolicy_ok)
qed (use assms in \<open>simp add: stop_from_def call_returns\<close>)

lemma stopService_ok:
  assumes "runs_inv M w"
  shows "call_ok M w (stopService now uid w)"
proof (cases "map_of (w_services w) uid")
  case (Some s)
  let ?w = "put_service uid (s\<lparr>sv_status := Status_stopping\<rparr>) w"
  obtain w1 r where w1: "stop_triggers (pv_table (sv_provider s)) (getProcesses (table_of w s)) ?w = (w1, r)"
    by (cases "stop_triggers (pv_table (sv_provider s)) (getProcesses (table_of w s)) ?w")
  have "same_runs w ?w" by (rule same_runs_put) (simp_all add: Some)
  also have "same_runs ?w w1"
    using same_runs_stop_triggers [of ?w "pv_table (sv_provider s)" "getProcesses (table_of w s)"] w1 by simp
  finally have same: "same_runs w w1" .
  have all: "same_runs w (clear_timers uid w1)" by (rule same_runs_trans [OF same same_runs_clear_timers])
  then have "call_ok M w (stop_from now uid 0 (clear_timers uid w1))"
    using call_after stop_from_ok runs_inv_same [OF _ assms] by blast
  then show ?thesis using assms same by (cases r) (simp_all add: stopService_def Some w1 call_returns)
qed (use assms in \<open>simp add: stopService_def call_returns\<close>)

lemma next_ok:
  assumes "runs_inv M w"
  shows "call_ok M w (start_next now rnd uids w)" "call_ok M w (stop_next now uids w)"
  using assms call_returns [OF assms, of w]
  by (auto simp: start_next_def stop_next_def all_done_def startService_ok stopService_ok intro!: call_in_frame split: list.splits)

lemma resume_ok:
  assumes "runs_inv M w" "\<not> is_run f" "plain_signal (Some v)"
  shows "call_ok M w (resume now rnd f v w)"
proof -
  have status: "same_runs w (set_status uid (\<lambda>s. s\<lparr>sv_timestampStop := now, sv_status := Status_error\<rparr>) w)" for uid
    by (rule same_runs_set_status) simp_all
  have policy: "plain_signal (Some (snd (policy_end uid name w)))" for uid name
    by (auto simp: policy_end_def split: option.splits policy.splits list.splits)
  have "call_ok M w (w', [], Some v')" if "policy_end uid name w = (w', v')" for uid name w' v'
    using call_returns [OF assms(1) same_runs_policy policy] that by (metis fst_conv snd_conv)
  then show ?thesis
    using assms status
    by (cases f; cases v)
      (auto simp: call_returns start_from_ok stop_from_ok next_ok same_runs_rearm split: prod.splits)
qed


section \<open>Threads\<close>

definition stack_run :: "frame list \<Rightarrow> ((string \<times> string) \<times> nat) option" where
  "stack_run stack = (case stack of F_runProcess uid name l # _ \<Rightarrow> Some ((uid, name), l) | _ \<Rightarrow> None)"

definition thread_ok :: "'r thread \<Rightarrow> bool" where
  "thread_ok th \<longleftrightarrow>
     (case th_stack th of
        [] \<Rightarrow> False
      | f # rest \<Rightarrow> no_run rest \<and>
          (if is_run f then th_signal th = None \<or> (\<exists>r. th_signal th = Some (Completed r)) else plain_signal (th_signal th)))"

text \<open>\<open>M\<close> is the inverse of the runs \<open>R\<close> of the threads: no process runs in two of them.\<close>

definition pool :: "('k \<Rightarrow> 'l option) \<Rightarrow> (nat \<Rightarrow> ('k \<times> 'l) option) \<Rightarrow> bool" where
  "pool M R \<longleftrightarrow> (\<forall>k l. M k = Some l \<longleftrightarrow> (\<exists>t. R t = Some (k, l))) \<and>
     (\<forall>t t' k l l'. R t = Some (k, l) \<longrightarrow> R t' = Some (k, l') \<longrightarrow> t = t')"

lemma poolD:
  assumes "pool M R"
  shows "R t = Some (k, l) \<Longrightarrow> M k = Some l" "M k = Some l \<Longrightarrow> \<exists>t. R t = Some (k, l)"
    "R t = Some (k, l) \<Longrightarrow> R t' = Some (k, l') \<Longrightarrow> t = t'"
  using assms unfolding pool_def by blast+

lemma pool_drop:
  assumes pool: "pool M R" and t: "R t = Some (k, l)"
  shows "pool (M(k := None)) (R(t := None))"
proof -
  have "(M(k := None)) k' = Some l' \<longleftrightarrow> (\<exists>t'. (R(t := None)) t' = Some (k', l'))" for k' l'
  proof (cases "k' = k")
    case True
    then show ?thesis using poolD(3) [OF pool t] by auto
  next
    case False
    then show ?thesis using poolD(1) [OF pool, of _ k' l'] poolD(2) [OF pool, of k' l'] t by force
  qed
  moreover have "u = u'" if "(R(t := None)) u = Some (k', l1)" "(R(t := None)) u' = Some (k', l2)" for u u' k' l1 l2
    using that poolD(3) [OF pool, of u k' l1 u' l2] by (simp split: if_splits)
  ultimately show ?thesis unfolding pool_def by blast
qed

lemma pool_add:
  assumes pool: "pool M R" and new: "R t = None" "M k = None"
  shows "pool (M(k \<mapsto> l)) (R(t \<mapsto> (k, l)))"
proof -
  have other: "R t' \<noteq> Some (k, l')" for t' l' using poolD(1) [OF pool, of t' k l'] new(2) by auto
  have "(M(k \<mapsto> l)) k' = Some l' \<longleftrightarrow> (\<exists>t'. (R(t \<mapsto> (k, l))) t' = Some (k', l'))" for k' l'
  proof (cases "k' = k")
    case True
    then show ?thesis using other by auto
  next
    case False
    then show ?thesis using poolD(1) [OF pool, of _ k' l'] poolD(2) [OF pool, of k' l'] new(1) by force
  qed
  moreover have "u = u'" if "(R(t \<mapsto> (k, l))) u = Some (k', l1)" "(R(t \<mapsto> (k, l))) u' = Some (k', l2)" for u u' k' l1 l2
    using that other poolD(3) [OF pool, of u k' l1 u' l2] by (auto split: if_splits)
  ultimately show ?thesis unfolding pool_def by blast
qed

definition runs_in :: "(nat \<Rightarrow> 'r thread option) \<Rightarrow> nat \<Rightarrow> ((string \<times> string) \<times> nat) option" where
  "runs_in T tid = (case T tid of None \<Rightarrow> None | Some th \<Rightarrow> stack_run (th_stack th))"

lemma runs_in_update [simp]:
  "runs_in (T(tid := None)) = (runs_in T)(tid := None)" "runs_in (T(tid \<mapsto> th)) = (runs_in T)(tid := stack_run (th_stack th))"
  by (simp_all add: runs_in_def fun_eq_iff)

definition threads_inv :: "(string \<times> string \<Rightarrow> nat option) \<Rightarrow> (nat \<Rightarrow> 'r thread option) \<Rightarrow> bool" where
  "threads_inv M T \<longleftrightarrow> (\<forall>tid th. T tid = Some th \<longrightarrow> thread_ok th) \<and> pool M (runs_in T)"

lemma stack_run_none: "no_run frames \<Longrightarrow> stack_run frames = None"
  by (auto simp: stack_run_def no_run_def split: list.splits frame.splits)

lemma threads_drop:
  assumes "threads_inv M T" "runs_in T tid = None"
  shows "threads_inv M (T(tid := None))"
proof -
  have "(runs_in T)(tid := None) = runs_in T" using assms(2) by auto
  then show ?thesis using assms(1) by (simp add: threads_inv_def)
qed

lemma threads_drop_run:
  "threads_inv M T \<Longrightarrow> runs_in T tid = Some (k, l) \<Longrightarrow> threads_inv (M(k := None)) (T(tid := None))"
  by (simp add: threads_inv_def pool_drop)

lemma threads_add:
  assumes "threads_inv M T" "T tid = None" "thread_ok th" "stack_run (th_stack th) = None"
  shows "threads_inv M (T(tid \<mapsto> th))"
proof -
  have "(runs_in T)(tid := None) = runs_in T" using assms(2) by (auto simp: runs_in_def)
  then show ?thesis using assms by (simp add: threads_inv_def)
qed

lemma threads_add_run:
  "threads_inv M T \<Longrightarrow> T tid = None \<Longrightarrow> thread_ok th \<Longrightarrow> stack_run (th_stack th) = Some (k, l) \<Longrightarrow> M k = None \<Longrightarrow>
     threads_inv (M(k \<mapsto> l)) (T(tid \<mapsto> th))"
  by (simp add: threads_inv_def) (rule pool_add; simp add: runs_in_def)

definition world_inv :: "'r world \<Rightarrow> bool" where
  "world_inv w \<longleftrightarrow> (\<exists>M. runs_inv M w \<and> threads_inv M (map_of (w_threads w))) \<and>
     (\<forall>tid th. map_of (w_threads w) tid = Some th \<longrightarrow> tid < w_nextThread w)"

lemma runs_inv_threads [simp]:
  "runs_inv M (w\<lparr>w_threads := x\<rparr>) = runs_inv M w" "runs_inv M (w\<lparr>w_nextThread := y\<rparr>) = runs_inv M w"
proof -
  have frame: "runs_inv M w' = runs_inv M w" if "w_services w' = w_services w" "w_tables w' = w_tables w" "w_logs w' = w_logs w"
      "w_history w' = w_history w" for w' :: "'a world"
  proof -
    have "rec_view w' = rec_view w" "opt_view w' = opt_view w" "runs_of w' = runs_of w"
      using that by (simp_all add: fun_eq_iff rec_view_def opt_view_def table_of_def runs_of_def split: option.split)
    from inv_cong [OF this(1,2) that(3) this(3)] show ?thesis
      using that by (simp add: runs_inv_def providers_ok_def)
  qed
  show "runs_inv M (w\<lparr>w_threads := x\<rparr>) = runs_inv M w" by (rule frame) simp_all
  show "runs_inv M (w\<lparr>w_nextThread := y\<rparr>) = runs_inv M w" by (rule frame) simp_all
qed

text \<open>The thread that was resumed, or is new, goes on with the call on top of the rest of its stack.\<close>

lemma put_thread_inv:
  assumes call: "call_ok M w c" and threads: "threads_inv M ((map_of (w_threads w))(tid := None))" and rest: "no_run rest"
    and bound: "\<forall>t th. map_of (w_threads w) t = Some th \<longrightarrow> t < w_nextThread w" "tid < w_nextThread w"
  shows "world_inv (put_thread tid rest c)"
  using call
proof cases
  case (awaits uid name l w' frames)
  let ?th = "\<lparr>th_stack = F_runProcess uid name l # frames @ rest, th_signal = None\<rparr>"
  have "threads_inv (M((uid, name) \<mapsto> l)) ((map_of (w_threads w))(tid := None, tid \<mapsto> ?th))"
    by (rule threads_add_run [OF threads]) (use awaits rest in \<open>simp_all add: thread_ok_def stack_run_def no_run_def ball_Un\<close>)
  then show ?thesis using awaits bound
    by (auto simp: put_thread_def world_inv_def intro!: exI [of _ "M((uid, name) \<mapsto> l)"])
next
  case (ready w' frames v)
  show ?thesis
  proof (cases "frames @ rest")
    case Nil
    then show ?thesis using ready threads bound by (auto simp: put_thread_def world_inv_def split: if_splits)
  next
    case (Cons f fs)
    have "no_run (f # fs)" unfolding Cons [symmetric] using ready rest by (auto simp: no_run_def)
    then have th: "thread_ok \<lparr>th_stack = f # fs, th_signal = v\<rparr>" "stack_run (f # fs) = None"
      using ready by (auto simp: thread_ok_def no_run_def intro: stack_run_none)
    have "threads_inv M ((map_of (w_threads w))(tid := None, tid \<mapsto> \<lparr>th_stack = f # fs, th_signal = v\<rparr>))"
      by (rule threads_add [OF threads]) (use th in simp_all)
    then show ?thesis using ready bound Cons by (auto simp: put_thread_def world_inv_def)
  qed
qed


lemma spawn_inv:
  assumes runs: "runs_inv M w" and threads: "threads_inv M (map_of (w_threads w))"
    and bound: "\<forall>t th. map_of (w_threads w) t = Some th \<longrightarrow> t < w_nextThread w" and call: "call_ok M w c"
  shows "world_inv (spawn c)"
proof -
  obtain w' frames v where c: "c = (w', frames, v)" by (cases c)
  let ?n = "w_nextThread w"
  have "call_ok M (w\<lparr>w_nextThread := ?n + 1\<rparr>) (w'\<lparr>w_nextThread := ?n + 1\<rparr>, frames, v)" and n: "w_nextThread w' = ?n"
    using call unfolding c by (auto elim!: call_ok.cases intro: call_ok.intros)
  moreover have "(map_of (w_threads w))(?n := None) = map_of (w_threads w)"
    using bound by (metis fun_upd_triv less_irrefl not_None_eq)
  ultimately show ?thesis
    using put_thread_inv [of M "w\<lparr>w_nextThread := ?n + 1\<rparr>" "(w'\<lparr>w_nextThread := ?n + 1\<rparr>, frames, v)" ?n "[]"] threads bound
    by (auto simp: spawn_def c n no_run_def less_Suc_eq)
qed

lemma world_spawn:
  assumes inv: "world_inv w" and call: "\<And>M. runs_inv M w \<Longrightarrow> call_ok M w c"
  shows "world_inv (spawn c)"
  using inv call spawn_inv unfolding world_inv_def by blast

lemma world_same:
  assumes "same_runs w w'" "world_inv w"
  shows "world_inv w'"
proof -
  have "w_threads w' = w_threads w" "w_nextThread w' = w_nextThread w" using assms(1) by (simp_all add: same_runs_def)
  then show ?thesis using assms(2) runs_inv_same [OF assms(1)] unfolding world_inv_def by auto
qed

text \<open>A new table changes no view, a new process and a new service begin without runs.\<close>

lemma new_provider_inv:
  assumes "runs_inv M w"
  shows "runs_inv M (w\<lparr>w_tables := w_tables w @ [t]\<rparr>)"
proof -
  let ?w = "w\<lparr>w_tables := w_tables w @ [t]\<rparr>"
  have old: "pv_table (sv_provider s) < length (w_tables w)" if "map_of (w_services w) uid = Some s" for uid s
    using assms that unfolding runs_inv_def providers_ok_def by blast
  have "opt_view ?w = opt_view w"
    by (intro ext) (auto simp: opt_view_def table_of_def nth_append dest: old split: option.splits)
  moreover have "rec_view ?w = rec_view w" "runs_of ?w = runs_of w" by (simp_all add: fun_eq_iff rec_view_def runs_of_def)
  moreover have "providers_ok ?w" using old by (fastforce simp: providers_ok_def)
  ultimately show ?thesis using assms inv_cong [of ?w w M] by (simp add: runs_inv_def)
qed

lemma addProcess_lookup:
  "map_of (processes (fst (addProcess name options trigger t))) n =
     (if n = name \<and> map_of (processes t) name = None then Some \<lparr>pr_options = options, pr_trigger = trigger\<rparr> else map_of (processes t) n)"
  by (auto simp: addProcess_def)

lemma add_process_lookup:
  "map_of (processes t) n = Some p \<Longrightarrow> pv_table pv < length tables \<Longrightarrow> tables ! pv_table pv = t \<Longrightarrow>
     map_of (processes (fst (add_process kind name options pv tables) ! pv_table pv)) n = Some p"
  by (cases kind) (auto simp: add_process_def Let_def case_prod_beta addProcess_lookup)

lemma add_process_other:
  "i \<noteq> pv_table pv \<Longrightarrow> fst (add_process kind name options pv tables) ! i = tables ! i"
  "length (fst (add_process kind name options pv tables)) = length tables"
  by (auto simp: add_process_def Let_def split: prod.splits)

lemma more_options_inv:
  assumes inv: "runs_inv M w" and more: "\<And>k opt. opt_view w k = Some opt \<Longrightarrow> opt_view w' k = Some opt"
    and same: "rec_view w' = rec_view w" "runs_of w' = runs_of w" "w_logs w' = w_logs w" "providers_ok w'"
  shows "runs_inv M w'"
proof -
  have "running_ok M w'"
    using inv more unfolding runs_inv_def running_ok_def same(3) by (metis not_None_eq)
  moreover have "record_inv M w' k" for k
  proof (cases "rec_view w k")
    case None
    have "record_inv M w k" using inv unfolding runs_inv_def by blast
    then show ?thesis by (simp add: record_inv_def same None)
  next
    case (Some r)
    have rk: "record_inv M w k" and run: "M k \<noteq> None \<Longrightarrow> opt_view w k \<noteq> None"
      using inv unfolding runs_inv_def running_ok_def by blast+
    show ?thesis
    proof (cases "opt_view w k")
      case None
      then have "r = record_new" "runs_of w k = []" "M k = None" using rk run by (auto simp: record_inv_def Some)
      then show ?thesis
        using rk by (simp add: record_inv_def same Some rec_ok_new None split: option.split)
    next
      case opt: (Some opt)
      then show ?thesis using rk more [OF opt] by (simp add: record_inv_def same Some)
    qed
  qed
  ultimately show ?thesis using same by (simp add: runs_inv_def)
qed

lemma add_process_inv:
  assumes inv: "runs_inv M w" and pv: "pv_table pv < length (w_tables w)"
  shows "runs_inv M (w\<lparr>w_tables := fst (add_process kind name options pv (w_tables w))\<rparr>)"
proof (rule more_options_inv [OF inv])
  let ?w = "w\<lparr>w_tables := fst (add_process kind name options pv (w_tables w))\<rparr>"
  show "rec_view ?w = rec_view w" "runs_of ?w = runs_of w" "w_logs ?w = w_logs w"
    by (simp_all add: fun_eq_iff rec_view_def runs_of_def)
  show "providers_ok ?w" using inv by (simp add: runs_inv_def providers_ok_def add_process_other)
  fix k opt assume "opt_view w k = Some opt"
  then obtain s p where s: "map_of (w_services w) (fst k) = Some s" "map_of (processes (table_of w s)) (snd k) = Some p" "pr_options p = opt"
    by (auto simp: opt_view_def split: option.splits)
  have "map_of (processes (table_of ?w s)) (snd k) = Some p"
    using s(2) add_process_lookup [OF _ pv refl] add_process_other(1) [of "pv_table (sv_provider s)" pv]
    by (cases "pv_table (sv_provider s) = pv_table pv") (simp_all add: table_of_def)
  then show "opt_view ?w k = Some opt" using s by (simp add: opt_view_def)
qed

lemma register_service_inv:
  assumes inv: "runs_inv M w" and pv: "pv_table pv < length (w_tables w)" and new: "map_of (w_services w) uid = None"
  shows "runs_inv M (w\<lparr>w_services := AList.update uid (service_new pv) (w_services w)\<rparr>)"
proof -
  let ?w = "w\<lparr>w_services := AList.update uid (service_new pv) (w_services w)\<rparr>"
  have other: "rec_view ?w k = rec_view w k" "opt_view ?w k = opt_view w k" if "fst k \<noteq> uid" for k
    using that by (auto simp: rec_view_def opt_view_def table_of_def split: option.splits)
  have at: "rec_view w k = None" "opt_view w k = None" "rec_view ?w k = Some record_new" if "fst k = uid" for k
    using that new by (simp_all add: rec_view_def opt_view_def service_new_def record_at_def)
  have hist: "runs_of ?w = runs_of w" by (simp add: fun_eq_iff runs_of_def)
  have "opt_view ?w k \<noteq> None" if "opt_view w k \<noteq> None" for k using that at(2) other(2) by (cases "fst k = uid") auto
  moreover have logs: "w_logs ?w = w_logs w" by simp
  ultimately have "running_ok M ?w"
    using inv unfolding runs_inv_def running_ok_def by (metis (no_types, lifting))
  moreover have "record_inv M ?w k" for k
  proof (cases "fst k = uid")
    case False
    have "record_inv M w k" using inv unfolding runs_inv_def by blast
    then show ?thesis unfolding record_inv_def other [OF False] hist logs .
  next
    case True
    have rk: "record_inv M w k" and run: "M k \<noteq> None \<Longrightarrow> opt_view w k \<noteq> None"
      using inv unfolding runs_inv_def running_ok_def by blast+
    have "M k = None" using run at(2) [OF True] by blast
    moreover have "runs_of w k = []" using rk at(1) [OF True] by (simp add: record_inv_def)
    ultimately show ?thesis
      using at(3) [OF True] rec_ok_new
      by (simp add: record_inv_def hist rec_ok_new split: option.split) (simp add: done_logs_def record_new_def)
  qed
  moreover have "providers_ok ?w" using inv pv by (auto simp: runs_inv_def providers_ok_def service_new_def)
  ultimately show ?thesis by (simp add: runs_inv_def)
qed


lemma world_change:
  assumes inv: "world_inv w" and change: "\<And>M. runs_inv M w \<Longrightarrow> runs_inv M w'"
    and same: "w_threads w' = w_threads w" "w_nextThread w' = w_nextThread w"
  shows "world_inv w'"
  using inv change unfolding world_inv_def same by blast

text \<open>A thread goes on.\<close>

lemma process_completes_inv:
  assumes inv: "world_inv w"
  shows "world_inv (process_completes tid result w)"
proof (cases "map_of (w_threads w) tid")
  case (Some th)
  obtain M where M: "runs_inv M w" "threads_inv M (map_of (w_threads w))" using inv unfolding world_inv_def by blast
  have bound: "\<forall>t a. map_of (w_threads w) t = Some a \<longrightarrow> t < w_nextThread w" using inv by (simp add: world_inv_def)
  have ok: "thread_ok th" using M(2) Some by (simp add: threads_inv_def)
  show ?thesis
  proof (cases "th_signal th = None")
    case True
    let ?th = "th\<lparr>th_signal := Some (Completed result)\<rparr>"
    have th: "thread_ok ?th" using ok True by (auto simp: thread_ok_def split: list.splits if_splits)
    have "runs_in ((map_of (w_threads w))(tid \<mapsto> ?th)) = runs_in (map_of (w_threads w))"
      using Some by (simp add: fun_eq_iff runs_in_def)
    then have "threads_inv M ((map_of (w_threads w))(tid \<mapsto> ?th))"
      using M(2) th unfolding threads_inv_def by simp
    then show ?thesis using M(1) bound True Some by (auto simp: process_completes_def world_inv_def)
  next
    case False
    then have "process_completes tid result w = w" using Some by (auto simp: process_completes_def)
    then show ?thesis using inv by simp
  qed
qed (use inv in \<open>simp add: process_completes_def\<close>)

lemma thread_resumes_inv:
  assumes inv: "world_inv w"
  shows "world_inv (thread_resumes now rnd tid w)"
proof (cases "\<exists>th f rest v. map_of (w_threads w) tid = Some th \<and> th_stack th = f # rest \<and> th_signal th = Some v")
  case True
  then obtain th f rest v where th: "map_of (w_threads w) tid = Some th" "th_stack th = f # rest" "th_signal th = Some v" by blast
  obtain M where M: "runs_inv M w" "threads_inv M (map_of (w_threads w))" using inv unfolding world_inv_def by blast
  have bound: "\<forall>t a. map_of (w_threads w) t = Some a \<longrightarrow> t < w_nextThread w" using inv by (simp add: world_inv_def)
  have ok: "thread_ok th" using M(2) th(1) by (simp add: threads_inv_def)
  then have rest: "no_run rest" by (simp add: thread_ok_def th)
  have eq: "thread_resumes now rnd tid w = put_thread tid rest (resume now rnd f v w)" by (simp add: thread_resumes_def th)
  have tid: "tid < w_nextThread w" using bound th(1) by blast
  show ?thesis
  proof (cases "is_run f")
    case False
    then have "plain_signal (Some v)" using ok by (simp add: thread_ok_def th)
    from resume_ok [OF M(1) False this] have call: "call_ok M w (resume now rnd f v w)" .
    have "runs_in (map_of (w_threads w)) tid = None" using False th by (cases f) (simp_all add: runs_in_def stack_run_def)
    then show ?thesis
      unfolding eq using put_thread_inv [OF call threads_drop [OF M(2)] rest bound tid] by blast
  next
    case True
    then obtain uid name l where f: "f = F_runProcess uid name l" by (cases f) auto
    obtain result where v: "v = Completed result" using ok True by (auto simp: thread_ok_def th)
    have run: "runs_in (map_of (w_threads w)) tid = Some ((uid, name), l)" by (simp add: runs_in_def stack_run_def th f)
    have "pool M (runs_in (map_of (w_threads w)))" using M(2) by (simp add: threads_inv_def)
    from poolD(1) [OF this run] have "M (uid, name) = Some l" .
    note ends = process_end_inv [OF M(1) this, of now result]
    have "call_ok (M((uid, name) := None)) w (resume now rnd f v w)"
      unfolding f v resume.simps
    proof (rule call_ok.ready)
      show "runs_inv (M((uid, name) := None)) (process_end now uid name l result w)" by (rule ends(1))
      show "w_threads (process_end now uid name l result w) = w_threads w" by (rule ends(2))
      show "w_nextThread (process_end now uid name l result w) = w_nextThread w" by (rule ends(3))
      show "no_run []" by (simp add: no_run_def)
      show "plain_signal (Some (Returned (is_ok result)))" by simp
    qed
    then show ?thesis
      unfolding eq by (rule put_thread_inv [OF _ threads_drop_run [OF M(2) run] rest bound tid])
  qed
next
  case False
  then have "thread_resumes now rnd tid w = w" by (auto simp: thread_resumes_def split: option.splits list.splits)
  then show ?thesis using inv by simp
qed

lemma world_step_inv:
  assumes inv: "world_inv w"
  shows "world_inv (world_step now rnd ev w)"
proof (cases ev)
  case (NewProvider ns)
  show ?thesis unfolding NewProvider
    by (rule world_change [OF inv]) (simp_all add: provider_new_def new_provider_inv)
next
  case (AddProcess kind name options p)
  show ?thesis unfolding AddProcess
    by (rule world_change [OF inv]) (simp_all add: add_process_inv)
next
  case (Register p name)
  show ?thesis unfolding Register
    by (rule world_change [OF inv])
      (auto simp: register_service_def register_service_inv map_option_eq_Some split: option.splits)
next
  case (TriggerFires table name)
  then show ?thesis
    using inv by (auto simp: trigger_fires_def runProcessWithPolicy_ok intro!: world_spawn split: option.splits)
next
  case (TimerFires i)
  have "world_inv (spawn (runTimeTriggeredProcess now uid name (w\<lparr>w_timers := x\<rparr>)))" for uid name x
    by (rule world_spawn [OF world_same [OF same_runs_timers(1) inv]]) (rule runTimeTriggeredProcess_ok)
  then show ?thesis unfolding TimerFires
    using inv by (simp add: timeout_fires_def split: option.split)
qed (use inv in \<open>auto simp: process_completes_inv thread_resumes_inv runProcessWithPolicy_ok startService_ok stopService_ok next_ok
       intro!: world_spawn\<close>)

lemma world_run_inv: "world_inv w \<Longrightarrow> world_inv (world_run events w)"
  unfolding world_run_def by (induction events arbitrary: w) (auto simp: world_step_inv)

lemma world_new_inv: "world_inv (world_new :: 'r world)"
proof -
  have "rec_view (world_new :: 'r world) k = None" "runs_of (world_new :: 'r world) k = []" for k
    by (simp_all add: rec_view_def runs_of_def world_new_def)
  then have "runs_inv Map.empty (world_new :: 'r world)"
    by (simp add: runs_inv_def running_ok_def record_inv_def providers_ok_def) (simp add: world_new_def)
  moreover have "threads_inv Map.empty (map_of (w_threads (world_new :: 'r world)))"
    by (simp add: threads_inv_def pool_def runs_in_def world_new_def)
  ultimately show ?thesis by (auto simp: world_inv_def) (simp add: world_new_def)
qed


section \<open>Properties\<close>

lemma run_world_inv: "world_inv (world_run events world_new)"
  by (rule world_run_inv [OF world_new_inv])

text \<open>
  C22. The record of a process, in any interleaving of starts, stops, timeouts, triggers and calls, is the one of the runs
  that ended: it counts them and the failed ones, has their longest and their mean duration, and keeps the logs of the
  last \<open>maxLogs\<close> that succeeded and of the last \<open>maxErrorLogs\<close> that failed, newest first; a run that is under way counts as
  an execution and has its log in front.
\<close>

theorem process_record_history:
  assumes "w = world_run events world_new" and "getProcess uid name w = Inr r" and "opt_view w (uid, name) = Some opt"
  defines "h \<equiv> runs_of w (uid, name)"
  shows "executions r = length h + (if rec_status r = Status_running then 1 else 0) \<and> errors r = length (filter run_failed h) \<and>
    durationMax r = fold max (map run_duration h) 0 \<and> durationAvg r = sum_list (map run_duration h) / of_nat (length h) \<and>
    map ((!) (w_logs w)) (if rec_status r = Status_running then tl (logs r) else logs r) =
      take (maxLogs opt) (map log_of (rev (filter (\<lambda>x. \<not> run_failed x) h))) \<and>
    map ((!) (w_logs w)) (errorLogs r) = take (maxErrorLogs opt) (map log_of (rev (filter run_failed h)))"
proof -
  have "rec_view w (uid, name) = Some r"
    using assms(2) by (auto simp: getProcess_def rec_view_def record_at_def split: option.splits)
  moreover obtain M where "runs_inv M w" using run_world_inv [of events] assms(1) by (auto simp: world_inv_def)
  then have "record_inv M w (uid, name)" unfolding runs_inv_def by blast
  ultimately have "rec_ok opt (w_logs w) h (M (uid, name)) r" using assms(3) by (simp add: record_inv_def h_def)
  then show ?thesis by (auto simp: rec_ok_def stats_ok_def logs_ok_def done_logs_def)
qed

text \<open>
  A process runs once at a time: no two calls that are under way, and no call twice, have it as the process they
  await; and its record says that it runs.
\<close>

lemma process_runs_once:
  assumes "w = world_run events world_new"
    and "map_of (w_threads w) t = Some th" "F_runProcess uid name l \<in> set (th_stack th)"
    and "map_of (w_threads w) t' = Some th'" "F_runProcess uid name l' \<in> set (th_stack th')"
  shows "t = t' \<and> l = l' \<and> filter is_run (th_stack th) = [F_runProcess uid name l] \<and>
    (\<exists>r. rec_view w (uid, name) = Some r \<and> rec_status r = Status_running)"
proof -
  obtain M where M: "runs_inv M w" "threads_inv M (map_of (w_threads w))"
    using run_world_inv [of events] assms(1) by (auto simp: world_inv_def)
  have top: "\<exists>rest. th_stack a = F_runProcess uid name k # rest \<and> no_run rest"
    if "map_of (w_threads w) s = Some a" "F_runProcess uid name k \<in> set (th_stack a)" for s a k
  proof -
    have "thread_ok a" using M(2) that(1) by (simp add: threads_inv_def)
    then show ?thesis using that(2) by (cases "th_stack a") (auto simp: thread_ok_def no_run_def)
  qed
  obtain rest where stack: "th_stack th = F_runProcess uid name l # rest" "no_run rest" using top [OF assms(2,3)] by blast
  obtain rest' where stack': "th_stack th' = F_runProcess uid name l' # rest'" using top [OF assms(4,5)] by blast
  have runs: "runs_in (map_of (w_threads w)) t = Some ((uid, name), l)" "runs_in (map_of (w_threads w)) t' = Some ((uid, name), l')"
    using assms(2,4) stack stack' by (simp_all add: runs_in_def stack_run_def)
  have pool: "pool M (runs_in (map_of (w_threads w)))" using M(2) by (simp add: threads_inv_def)
  have eq: "t = t'" by (rule poolD(3) [OF pool runs])
  have run: "M (uid, name) = Some l" by (rule poolD(1) [OF pool runs(1)])
  then obtain opt where opt: "opt_view w (uid, name) = Some opt" using M(1) unfolding runs_inv_def running_ok_def by blast
  then obtain r where r: "rec_view w (uid, name) = Some r" by (auto simp: opt_view_def rec_view_def split: option.splits)
  have "record_inv M w (uid, name)" using M(1) unfolding runs_inv_def by blast
  then have "rec_status r = Status_running" by (simp add: record_inv_def r opt run rec_ok_def stats_ok_def)
  moreover have "filter is_run rest = []" using stack(2) by (simp add: no_run_def filter_empty_conv)
  ultimately show ?thesis using eq runs r stack by simp
qed

text \<open>The numbers that are tried are distinct names, so one that is free comes.\<close>

lemma serviceUid_inj: "serviceUid (nat_to_string i) p = serviceUid (nat_to_string j) p \<Longrightarrow> i = j"
  by (auto simp: serviceUid_def dest: nat_to_string_inj)

lemma free_counter_from:
  assumes "n < k" "serviceUid (nat_to_string k) p \<notin> fst ` set services"
    "\<And>i. n < i \<Longrightarrow> i < k \<Longrightarrow> serviceUid (nat_to_string i) p \<in> fst ` set services"
  shows "free_counter services p n = Some k"
  using assms
proof (induction "k - n" arbitrary: n)
  case (Suc d)
  show ?case
  proof (cases "k = n + 1")
    case True
    then show ?thesis using Suc.prems(2) by (subst free_counter.simps) (simp add: map_of_eq_None_iff)
  next
    case False
    have "free_counter services p (n + 1) = Some k"
      by (rule Suc.hyps(1)) (use Suc.prems Suc.hyps(2) False in auto)
    moreover have "map_of services (serviceUid (nat_to_string (n + 1)) p) \<noteq> None"
      using Suc.prems(1,3) False by (simp add: map_of_eq_None_iff)
    ultimately show ?thesis by (subst free_counter.simps) simp
  qed
qed simp

text \<open>
  A service without a name gets one: the search comes to an end, with the smallest positive number that
  gives an identifier which is not taken, at most one more than there are services.
\<close>

lemma service_number_found:
  "\<exists>k. free_counter services p 0 = Some k \<and> makeServiceUid None p services = Some (serviceUid (nat_to_string k) p) \<and>
    serviceUid (nat_to_string k) p \<notin> fst ` set services \<and> 0 < k \<and> k \<le> length services + 1 \<and>
    (\<forall>i. 0 < i \<and> i < k \<longrightarrow> serviceUid (nat_to_string i) p \<in> fst ` set services)"
proof -
  let ?taken = "\<lambda>i. serviceUid (nat_to_string i) p \<in> fst ` set services"
  have "\<exists>i. 0 < i \<and> i \<le> length services + 1 \<and> \<not> ?taken i"
  proof (rule ccontr)
    assume "\<not> ?thesis"
    then have "(\<lambda>i. serviceUid (nat_to_string i) p) ` {1..length services + 1} \<subseteq> fst ` set services" by auto
    then have "card ((\<lambda>i. serviceUid (nat_to_string i) p) ` {1..length services + 1}) \<le> card (fst ` set services)"
      by (rule card_mono [rotated]) simp
    moreover have "inj_on (\<lambda>i. serviceUid (nat_to_string i) p) {1..length services + 1}"
      by (rule inj_onI) (rule serviceUid_inj)
    moreover have "card (fst ` set services) \<le> length services"
      by (metis card_image_le card_length finite_set le_trans)
    ultimately show False by (simp add: card_image)
  qed
  then obtain j where j: "0 < j \<and> \<not> ?taken j" "j \<le> length services + 1" by blast
  define k where "k = (LEAST i. 0 < i \<and> \<not> ?taken i)"
  have k: "0 < k \<and> \<not> ?taken k" using LeastI [where P = "\<lambda>i. 0 < i \<and> \<not> ?taken i", OF j(1)] unfolding k_def .
  have below: "?taken i" if "0 < i" "i < k" for i using not_less_Least [where P = "\<lambda>i. 0 < i \<and> \<not> ?taken i", of i] that unfolding k_def by blast
  have "k \<le> j" using Least_le [where P = "\<lambda>i. 0 < i \<and> \<not> ?taken i", OF j(1)] unfolding k_def .
  moreover have "free_counter services p 0 = Some k" by (rule free_counter_from) (use k below in auto)
  ultimately show ?thesis using k below j(2) by (auto simp: makeServiceUid_def)
qed


text \<open>
  The stop of a service with an event triggered process that is not registered, as it is when the service was never
  started or its start failed: it fails, the service is left stopping with its timeouts, and no start succeeds from then on.
\<close>

lemma stop_not_started_fails:
  assumes s: "map_of (w_services w) uid = Some s" and p: "(name, p) \<in> set (getProcesses (table_of w s))" "pr_trigger p = Some None"
  shows "\<exists>w' s'. stopService now uid w = (w', [], Some (Thrown AssertFailed)) \<and> map_of (w_services w') uid = Some s' \<and>
    sv_status s' = Status_stopping \<and> instances s' = instances s \<and> w_timers w' = w_timers w \<and>
    startService later rnd uid w' = (w', [], Some (Thrown AssertFailed))"
proof -
  have fails: "\<exists>v'. stop_triggers table ps v = (v', Inl AssertFailed) \<and> w_services v' = w_services v \<and> w_timers v' = w_timers v"
    if "(name, p) \<in> set ps" for table ps and v :: "'a world"
    using that
  proof (induction ps arbitrary: v)
    case (Cons x ps)
    obtain n q where x: "x = (n, q)" by (cases x)
    have same: "w_services (set_trigger table n t v) = w_services v" "w_timers (set_trigger table n t v) = w_timers v" for t
      by (simp_all add: set_trigger_def split: option.split)
    consider "pr_trigger q = Some None" | "pr_trigger q = None" | t where "pr_trigger q = Some (Some t)"
      by (metis not_None_eq)
    then show ?case
    proof cases
      case 2
      then show ?thesis using Cons.IH [of v] Cons.prems p(2) by (auto simp: x unregister_trigger_def)
    next
      case 3
      then show ?thesis using Cons.IH [of "set_trigger table n None v"] Cons.prems p(2) same by (auto simp: x unregister_trigger_def)
    qed (simp add: x unregister_trigger_def)
  qed simp
  let ?w = "put_service uid (s\<lparr>sv_status := Status_stopping\<rparr>) w"
  obtain w' where w': "stop_triggers (pv_table (sv_provider s)) (getProcesses (table_of w s)) ?w = (w', Inl AssertFailed)"
      "w_services w' = w_services ?w" "w_timers w' = w_timers ?w"
    using fails [OF p(1)] by blast
  have "map_of (w_services w') uid = Some (s\<lparr>sv_status := Status_stopping\<rparr>)" "w_timers w' = w_timers w"
    using w'(2,3) by (simp_all add: put_service_def)
  then show ?thesis using w'(1) s by (simp add: stopService_def startService_def)
qed

section \<open>Witnesses and findings\<close>

text \<open>A service \<open>.s\<close> with a periodic process \<open>p\<close>, which fails its first run and succeeds in the second.\<close>

definition sample_provider :: provider where
  "sample_provider = \<lparr>pv_namespace = [], pv_prefix = [], pv_table = 0\<rparr>"

definition no_delay :: "string \<Rightarrow> rat" where
  "no_delay = (\<lambda>_. 0)"

definition sample_started :: "nat schedule" where
  "sample_started = map (\<lambda>(now, ev). (now, no_delay, ev))
     [(0, NewProvider []),
      (0, AddProcess TimeTriggered ''p'' (\<lambda>options. options\<lparr>periodS := Some 1, delayS := DelayS 0\<rparr>) sample_provider),
      (0, Register sample_provider (Some ''s'')),
      (0, CallStart), (0, Resumes 0), (1, TimerFires 0)]"

definition sample_again :: "nat schedule" where
  "sample_again = sample_started @ map (\<lambda>(now, ev). (now, no_delay, ev))
     [(5, ProcessEnds 1 (Inl (Raised ''e''))), (5, Resumes 1), (5, Resumes 1), (5, Resumes 1),
      (2000, TimerFires 1), (2010, ProcessEnds 2 (Inr 42)), (2010, Resumes 2), (2010, Resumes 2), (2010, Resumes 2)]"

lemmas run_simps = world_run_def sample_started_def sample_again_def world_new_def provider_new_def add_process_def addProcess_def
  timedOptions_def commonOptions_def makeName_def sample_provider_def empty_table_def register_service_def makeServiceUid_def
  serviceUid_def service_new_def spawn_def put_thread_def start_next_def startService_def start_from_def put_service_def
  in_frame_def table_of_def getProcesses_def register_trigger_def set_timer_def start_delay_def set_status_def timeout_fires_def
  runTimeTriggeredProcess_def runProcessWithPolicy_def runProcess_def process_begin_def record_at_def put_record_def
  record_begin_def record_new_def log_new_def all_done_def pending_exceptions_def thread_resumes_def process_completes_def
  process_end_def record_end_def record_outcome_def record_rate_def record_durations_def policy_end_def rearm_def
  stop_next_def stopService_def stop_from_def clear_timers_def unregister_trigger_def no_delay_def is_ok_def

lemma sample_views:
  "\<exists>r. getProcess ''.s'' ''p'' (world_run sample_again world_new) = Inr r"
  "\<exists>opt. opt_view (world_run sample_again world_new) (''.s'', ''p'') = Some opt"
  by (simp_all add: run_simps opt_view_def getProcess_def)

lemma sample_thread:
  "map_of (w_threads (world_run sample_started world_new)) 1 = Some \<lparr>th_stack =
     [F_runProcess ''.s'' ''p'' 0, F_runProcessWithPolicy ''.s'' ''p'', F_runTimeTriggeredProcess ''.s'' ''p''], th_signal = None\<rparr>"
  by (simp add: run_simps)

theorem process_record_history_witness:
  "\<exists>r. getProcess ''.s'' ''p'' (world_run sample_again world_new) = Inr r \<and>
     errors r = length (filter run_failed (runs_of (world_run sample_again world_new) (''.s'', ''p'')))"
  using process_record_history [OF refl] sample_views by blast

theorem process_runs_once_witness:
  "filter is_run [F_runProcess ''.s'' ''p'' 0, F_runProcessWithPolicy ''.s'' ''p'', F_runTimeTriggeredProcess ''.s'' ''p''] =
     [F_runProcess ''.s'' ''p'' 0] \<and>
   (\<exists>r. rec_view (world_run sample_started world_new) (''.s'', ''p'') = Some r \<and> rec_status r = Status_running)"
  using process_runs_once [OF refl sample_thread _ sample_thread, of "''.s''" "''p''" 0 0] by simp

text \<open>A service with a triggered process that was not started.\<close>

definition sample_triggered :: "nat world" where
  "sample_triggered = world_run (map (\<lambda>ev. (0, no_delay, ev)) [NewProvider [],
     AddProcess EventTriggered ''e'' (\<lambda>options. options) sample_provider, Register sample_provider (Some ''s'')]) world_new"

lemma sample_triggered_views:
  "map_of (w_services sample_triggered) ''.s'' = Some (service_new sample_provider)"
  "(''e'', \<lparr>pr_options = commonOptions, pr_trigger = Some None\<rparr>) \<in> set (getProcesses (table_of sample_triggered (service_new sample_provider)))"
  by (simp_all add: sample_triggered_def run_simps)

theorem stop_not_started_fails_witness:
  "\<exists>w'. stopService 1 ''.s'' sample_triggered = (w', [], Some (Thrown AssertFailed)) \<and>
     startService 2 no_delay ''.s'' w' = (w', [], Some (Thrown AssertFailed))"
  using stop_not_started_fails [OF sample_triggered_views, of 1 2 no_delay] by auto

text \<open>
  A service that is stopped and started again while a periodic process runs has two timeouts for it, of which the next
  stop clears one: the process runs again although the service is stopped.
\<close>

definition sample_leak :: "nat schedule" where
  "sample_leak = sample_started @ map (\<lambda>(now, ev). (now, no_delay, ev))
     [(2, CallStop), (3, CallStart), (5, ProcessEnds 1 (Inr 7)), (5, Resumes 1), (5, Resumes 1), (5, Resumes 1), (6, CallStop)]"

lemma restart_leaks_timer:
  "map_option (\<lambda>s. (sv_status s, instances s)) (map_of (w_services (world_run sample_leak world_new)) ''.s'') = Some (Status_idle, [])"
  "map fst (w_timers (world_run sample_leak world_new)) = [1]"
  by (simp_all add: run_simps sample_leak_def)

text \<open>The smallest duration forgets a run of the duration zero.\<close>

lemma least_duration_forgets_zero: "least_duration [0, 5] = 5"
  by (simp add: least_duration_def)

text \<open>With no error logs to keep, the policy to throw fails itself, with a \<open>TypeError\<close>.\<close>

lemma policy_without_logs:
  assumes "map_of (w_services w) uid = Some s" "map_of (processes (table_of w s)) name = Some p"
    "opt_policy (pr_options p) = POLICY_throw" "errorLogs (record_at s name) = []"
  shows "policy_end uid name w = (w, Thrown TypeErr)"
  using assms by (simp add: policy_end_def)

end
