(* ===== verification/VT100.thy ===== *)
theory VT100
  imports Bzd_Prelude Complex_Main
begin

text \<open>
  The terminal of \<open>nodejs/vue/components/terminal/frontend/vt100.vue\<close>: the grid of styled characters with its
  cursor, the writing of plain text, the commands (cursor moves, erasing, insertion, colours), the recognition of
  the escape sequences in a stream that arrives in pieces, the table of the styles and what the template renders.

  The state is the one after \<open>created\<close>. A cell is a pair of a character and a style number; \<open>insertChar\<close> stores
  bare strings instead, and an assignment beyond the end of a row would leave holes, so both are constructors of
  the cells. What is only logged or only for the browser (the measured sizes before the first resize) has no place
  in the state. Characters are code units below 256, so the line terminators of a regular expression are \<open>\n\<close> and
  \<open>\r\<close>. The handlers that throw do so before they change anything; \<open>process\<close> keeps what was written before.
\<close>

section \<open>Data\<close>

datatype cell = Cell char nat | Bare char | Hole

record terminal_style =
  fontWeight :: string
  fontStyle :: string
  textDecoration :: string
  colorText :: string
  colorBackground :: string
  display_mode :: string
  css_filter :: string

record terminal =
  content :: "cell list list"
  styles :: "string list"
  stylesMap :: "(string \<times> nat) list"
  styleId :: nat
  cursor_x :: nat
  cursor_y :: nat
  stream_remainder :: string
  insertMode :: bool
  terminalStyle :: terminal_style
  terminalDimension :: "(int \<times> int) option"
  overlay :: bool

definition colors8 :: "string list" where
  "colors8 = [''#000000'', ''#cc0000'', ''#4e9a06'', ''#c4a000'', ''#729fcf'', ''#75507b'', ''#06989a'', ''#d3d7cf'']"

definition colorsBright8 :: "string list" where
  "colorsBright8 =
     [''#555753'', ''#ef2929'', ''#8ae234'', ''#fce94f'', ''#32afff'', ''#ad7fa8'', ''#34e2e2'', ''#ffffff'']"

section \<open>Styles\<close>

definition resetTerminalStyle :: terminal_style where
  "resetTerminalStyle =
     \<lparr>fontWeight = ''normal'', fontStyle = ''normal'', textDecoration = ''none'', colorText = ''var(--text-color)'',
      colorBackground = ''var(--background-color)'', display_mode = ''inline'', css_filter = ''none''\<rparr>"

text \<open>The style string that \<open>createStyle\<close> builds; \<open>display\<close> is not part of it.\<close>

definition style_css :: "terminal_style \<Rightarrow> string" where
  "style_css s =
     ''color: '' @ colorText s @ ''; background-color: '' @ colorBackground s @ ''; font-weight: '' @ fontWeight s
       @ ''; font-style: '' @ fontStyle s @ ''; text-decoration: '' @ textDecoration s
       @ ''; filter: '' @ css_filter s @ '';''"

definition createStyle :: "terminal \<Rightarrow> terminal" where
  "createStyle t =
     (let style = style_css (terminalStyle t);
          t1 = (if map_of (stylesMap t) style = None
                then t\<lparr>styles := styles t @ [style],
                       stylesMap := AList.update style (length (styles t)) (stylesMap t)\<rparr>
                else t)
      in t1\<lparr>styleId := the (map_of (stylesMap t1) style), styles := styles t1 @ [style]\<rparr>)"

definition created :: terminal where
  "created =
     createStyle \<lparr>content = [], styles = [], stylesMap = [], styleId = 0, cursor_x = 0, cursor_y = 0,
       stream_remainder = [], insertMode = False, terminalStyle = resetTerminalStyle, terminalDimension = None,
       overlay = False\<rparr>"

text \<open>One argument of \<open>sgr\<close>: the new style, or nothing when the argument is not supported.\<close>

definition sgr_argument :: "nat \<Rightarrow> terminal_style \<Rightarrow> terminal_style option" where
  "sgr_argument arg s =
     (if arg = 0 then Some resetTerminalStyle
      else if arg = 1 then Some (s\<lparr>fontWeight := ''bold''\<rparr>)
      else if arg = 3 then Some (s\<lparr>fontStyle := ''italic''\<rparr>)
      else if arg = 4 then Some (s\<lparr>textDecoration := ''underline''\<rparr>)
      else if arg = 7 then Some (s\<lparr>css_filter := ''invert(100%)''\<rparr>)
      else if arg = 8 then Some (s\<lparr>display_mode := ''none''\<rparr>)
      else if arg = 9 then Some (s\<lparr>textDecoration := ''line-through''\<rparr>)
      else if arg = 21 then Some (s\<lparr>fontStyle := ''normal''\<rparr>)
      else if arg = 22 then Some (s\<lparr>fontWeight := ''normal''\<rparr>)
      else if arg = 23 then Some (s\<lparr>fontStyle := ''normal''\<rparr>)
      else if arg = 24 then Some (s\<lparr>textDecoration := ''none''\<rparr>)
      else if arg = 27 then Some (s\<lparr>css_filter := ''none''\<rparr>)
      else if arg = 28 then Some (s\<lparr>display_mode := ''inline''\<rparr>)
      else if arg = 29 then Some (s\<lparr>textDecoration := ''none''\<rparr>)
      else if 30 \<le> arg \<and> arg \<le> 37 then Some (s\<lparr>colorText := colors8 ! (arg - 30)\<rparr>)
      else if arg = 39 then Some (s\<lparr>colorText := ''var(--text-color)''\<rparr>)
      else if 40 \<le> arg \<and> arg \<le> 47 then Some (s\<lparr>colorBackground := colors8 ! (arg - 40)\<rparr>)
      else if arg = 49 then Some (s\<lparr>colorText := ''var(--background-color)''\<rparr>)
      else if 90 \<le> arg \<and> arg \<le> 97 then Some (s\<lparr>colorText := colorsBright8 ! (arg - 90)\<rparr>)
      else if 100 \<le> arg \<and> arg \<le> 107 then Some (s\<lparr>colorBackground := colorsBright8 ! (arg - 100)\<rparr>)
      else None)"

text \<open>The commands answer whether they are supported; the style is only registered when all arguments are.\<close>

fun sgr :: "nat list \<Rightarrow> terminal \<Rightarrow> bool \<times> terminal" where
  "sgr [] t = (True, createStyle t)"
| "sgr (arg # args) t =
     (case sgr_argument arg (terminalStyle t) of
        None \<Rightarrow> (False, t)
      | Some s \<Rightarrow> sgr args (t\<lparr>terminalStyle := s\<rparr>))"

fun set_mode :: "bool \<Rightarrow> nat list \<Rightarrow> terminal \<Rightarrow> bool \<times> terminal" where
  "set_mode on [] t = (True, t)"
| "set_mode on (arg # args) t =
     (if arg = 4 then set_mode on args (t\<lparr>insertMode := on\<rparr>) else (False, t))"

section \<open>Writing text\<close>

text \<open>\<open>row[x] = v\<close> and \<open>rows[y] = row\<close>; an assignment beyond the end of an array extends it.\<close>

definition set_cell :: "nat \<Rightarrow> cell \<Rightarrow> cell list \<Rightarrow> cell list" where
  "set_cell x v row = (if x < length row then row[x := v] else row @ replicate (x - length row) Hole @ [v])"

definition set_row :: "nat \<Rightarrow> cell list \<Rightarrow> cell list list \<Rightarrow> cell list list" where
  "set_row y row rows = (if y < length rows then rows[y := row] else rows @ replicate (y - length rows) [] @ [row])"

definition cursor_row :: "terminal \<Rightarrow> cell list" where
  "cursor_row t = (if cursor_y t < length (content t) then content t ! cursor_y t else [])"

definition space_cell :: cell where
  "space_cell = Cell (CHR '' '') 0"

text \<open>The rows up to the cursor are created, then the columns before the cursor.\<close>

definition create_rows :: "terminal \<Rightarrow> terminal" where
  "create_rows t = t\<lparr>content := content t @ replicate (Suc (cursor_y t) - length (content t)) []\<rparr>"

definition create_columns :: "terminal \<Rightarrow> terminal" where
  "create_columns t =
     t\<lparr>content := set_row (cursor_y t)
          (cursor_row t @ replicate (cursor_x t - length (cursor_row t)) space_cell) (content t)\<rparr>"

definition newLine :: "terminal \<Rightarrow> terminal" where
  "newLine t =
     (let y = Suc (cursor_y t)
      in t\<lparr>cursor_y := y, content := (if y < length (content t) then content t else set_row y [] (content t))\<rparr>)"

definition write_char :: "char \<Rightarrow> terminal \<Rightarrow> terminal" where
  "write_char c t =
     (if c = CHR 0x0A then (newLine t)\<lparr>cursor_x := 0\<rparr>
      else if c = CHR 0x0D then
        (case terminalDimension t of
           Some (width, height) \<Rightarrow>
             (if int (cursor_x t) = width + 1 then newLine t else t)\<lparr>cursor_x := 0\<rparr>
         | None \<Rightarrow> t\<lparr>cursor_x := 0\<rparr>)
      else if c = CHR 0x08 then t\<lparr>cursor_x := cursor_x t - 1\<rparr>
      else if c = CHR 0x07 then t
      else t\<lparr>content := set_row (cursor_y t)
               (if insertMode t then splice_insert (cursor_x t) (Cell c (styleId t)) (cursor_row t)
                else set_cell (cursor_x t) (Cell c (styleId t)) (cursor_row t)) (content t),
             cursor_x := Suc (cursor_x t)\<rparr>)"

definition write_text :: "string \<Rightarrow> terminal \<Rightarrow> terminal" where
  "write_text s t = fold write_char s (create_columns (create_rows t))"

section \<open>Commands\<close>

type_synonym command = "nat list \<Rightarrow> terminal \<Rightarrow> (bool \<times> terminal) outcome"

text \<open>\<open>f(...args)\<close> for a function of one parameter with a default.\<close>

definition arg_or :: "nat \<Rightarrow> nat list \<Rightarrow> nat" where
  "arg_or d args = (case args of [] \<Rightarrow> d | a # _ \<Rightarrow> a)"

definition moveCursorUp :: command where
  "moveCursorUp args t = Inr (True, t\<lparr>cursor_y := cursor_y t - arg_or 1 args\<rparr>)"

definition moveCursorDown :: command where
  "moveCursorDown args t = Inr (True, t\<lparr>cursor_y := cursor_y t + arg_or 1 args\<rparr>)"

definition moveCursorRight :: command where
  "moveCursorRight args t = Inr (True, t\<lparr>cursor_x := cursor_x t + arg_or 1 args\<rparr>)"

definition moveCursorLeft :: command where
  "moveCursorLeft args t = Inr (True, t\<lparr>cursor_x := cursor_x t - arg_or 1 args\<rparr>)"

definition moveCursorDownBegining :: command where
  "moveCursorDownBegining args t =
     outcome_bind (moveCursorDown args t) (\<lambda>(_, t'). Inr (True, t'\<lparr>cursor_x := 0\<rparr>))"

definition moveCursorUpBegining :: command where
  "moveCursorUpBegining args t =
     outcome_bind (moveCursorUp args t) (\<lambda>(_, t'). Inr (True, t'\<lparr>cursor_x := 0\<rparr>))"

definition moveCursorColumn :: command where
  "moveCursorColumn args t =
     (case args of [] \<Rightarrow> Inl AssertFailed | column # _ \<Rightarrow> Inr (True, t\<lparr>cursor_x := column\<rparr>))"

definition moveCursorLineColumn :: command where
  "moveCursorLineColumn args t =
     Inr (True, t\<lparr>cursor_x := arg_or 0 (drop 1 args), cursor_y := arg_or 0 args\<rparr>)"

text \<open>\<open>this.content[this.y]\<close> as the object of an operation.\<close>

definition with_row :: "(cell list \<Rightarrow> cell list) \<Rightarrow> terminal \<Rightarrow> (bool \<times> terminal) outcome" where
  "with_row f t =
     (if cursor_y t < length (content t)
      then Inr (True, t\<lparr>content := (content t)[cursor_y t := f (content t ! cursor_y t)]\<rparr>)
      else Inl TypeErr)"

definition deleteChar :: command where
  "deleteChar args t = with_row (\<lambda>row. take (cursor_x t) row @ drop (cursor_x t + arg_or 1 args) row) t"

definition eraseChar :: command where
  "eraseChar args t =
     (if arg_or 1 args = 0 then Inr (True, t)
      else with_row (fold (\<lambda>indent. set_cell (cursor_x t + indent) (Cell (CHR '' '') (styleId t)))
             [0..<arg_or 1 args]) t)"

text \<open>\<open>Array(number)\<close> has at most \<open>2^32 - 1\<close> elements; the elements put into the row are strings.\<close>

definition insertChar :: command where
  "insertChar args t =
     (if cursor_y t < length (content t) \<and> 2 ^ 32 \<le> arg_or 1 args then Inl (Raised ''RangeError'')
      else with_row (\<lambda>row. take (cursor_x t) row @ replicate (arg_or 1 args) (Bare (CHR '' ''))
             @ drop (cursor_x t) row) t)"

definition eraseLine :: command where
  "eraseLine args t =
     (let arg = arg_or 0 args
      in if arg = 0 then with_row (take (cursor_x t)) t
         else if arg = 1 then
           (if cursor_x t = 0 then Inr (True, t)
            else with_row (fold (\<lambda>x. set_cell x space_cell) [0..<cursor_x t]) t)
         else if arg = 2 then Inr (True, t\<lparr>content := set_row (cursor_y t) [] (content t)\<rparr>)
         else Inr (False, t))"

definition eraseScreen :: command where
  "eraseScreen args t =
     (let arg = arg_or 0 args
      in if arg = 0 then
           outcome_bind (eraseLine [0] t) (\<lambda>(_, t'). Inr (True, t'\<lparr>content := take (cursor_y t) (content t')\<rparr>))
         else if arg = 1 then
           outcome_bind (eraseLine [1] t) (\<lambda>(_, t'). Inr (True, t'\<lparr>content := drop (cursor_y t) (content t')\<rparr>))
         else if arg = 2 then Inr (True, t\<lparr>content := []\<rparr>)
         else if arg = 3 then Inr (True, t)
         else Inr (False, t))"

text \<open>\<open>csiFctMapping[name](...args)\<close>; a command that is not in the table answers \<open>false\<close>.\<close>

definition csi_command :: "char \<Rightarrow> command" where
  "csi_command name args t =
     (if name = CHR ''m'' then Inr (sgr args t)
      else if name = CHR ''h'' then Inr (set_mode True args t)
      else if name = CHR ''l'' then Inr (set_mode False args t)
      else if name = CHR ''A'' then moveCursorUp args t
      else if name = CHR ''B'' then moveCursorDown args t
      else if name = CHR ''C'' then moveCursorRight args t
      else if name = CHR ''D'' then moveCursorLeft args t
      else if name = CHR ''E'' then moveCursorDownBegining args t
      else if name = CHR ''F'' then moveCursorUpBegining args t
      else if name = CHR ''f'' then moveCursorLineColumn args t
      else if name = CHR ''G'' then moveCursorColumn args t
      else if name = CHR ''H'' then moveCursorLineColumn args t
      else if name = CHR ''J'' then eraseScreen args t
      else if name = CHR ''K'' then eraseLine args t
      else if name = CHR ''P'' then deleteChar args t
      else if name = CHR ''X'' then eraseChar args t
      else if name = CHR ''@'' then insertChar args t
      else Inr (False, t))"

section \<open>Escape sequences\<close>

datatype category = Csi_private | Csi | Csi_8bit | Osc

fun category_text :: "category \<Rightarrow> string" where
  "category_text Csi_private = [CHR 0x1B, CHR ''['', CHR ''?'']"
| "category_text Csi = [CHR 0x1B, CHR ''['']"
| "category_text Csi_8bit = [CHR 0x9B]"
| "category_text Osc = [CHR 0x1B, CHR '']'']"

text \<open>The alternatives of \<open>regexprCategory\<close>, the longest first.\<close>

definition categories :: "category list" where
  "categories = [Csi_private, Csi, Osc, Csi_8bit]"

definition category_at :: "string \<Rightarrow> category option" where
  "category_at s = List.find (\<lambda>k. prefix (category_text k) s) categories"

text \<open>\<open>regexprCategory.exec\<close>: the text before the first match, its category, and the stream after it.\<close>

fun next_category :: "string \<Rightarrow> (string \<times> category \<times> string) option" where
  "next_category [] = None"
| "next_category (c # s) =
     (case category_at (c # s) of
        Some k \<Rightarrow> Some ([], k, drop (length (category_text k)) (c # s))
      | None \<Rightarrow> map_option (\<lambda>(before, k, rest). (c # before, k, rest)) (next_category s))"

text \<open>
  The expressions of the commands, each at the start of a string: the two groups and what follows the match.
  The classes of consecutive parts are disjoint, so that there is nothing to backtrack.
\<close>

type_synonym match = "string \<times> string \<times> string"

definition is_digit :: "char \<Rightarrow> bool" where
  "is_digit c = (CHR ''0'' \<le> c \<and> c \<le> CHR ''9'')"

definition is_param :: "char \<Rightarrow> bool" where
  "is_param c = (is_digit c \<or> c = CHR '';'')"

definition csi_regexpr :: "string \<Rightarrow> match option" where
  "csi_regexpr s =
     (case dropWhile is_param s of [] \<Rightarrow> None | c # rest \<Rightarrow> Some (takeWhile is_param s, [c], rest))"

definition csi_private_regexpr :: "string \<Rightarrow> match option" where
  "csi_private_regexpr s =
     (case dropWhile is_param s of
        [] \<Rightarrow> None
      | c # rest \<Rightarrow> if c = CHR ''h'' \<or> c = CHR ''l'' then Some (takeWhile is_param s, [c], rest) else None)"

definition osc_char :: "char \<Rightarrow> bool" where
  "osc_char c = (c \<noteq> CHR 0x07 \<and> c \<noteq> CHR 0x0A \<and> c \<noteq> CHR 0x0D)"

definition osc_regexpr :: "string \<Rightarrow> match option" where
  "osc_regexpr s =
     (if takeWhile is_digit s = [] then None
      else case dropWhile is_digit s of
             [] \<Rightarrow> None
           | c # params \<Rightarrow>
               (if c \<noteq> CHR '';'' then None
                else case dropWhile osc_char params of
                       [] \<Rightarrow> None
                     | e # rest \<Rightarrow>
                         if e = CHR 0x07 then Some (takeWhile is_digit s, takeWhile osc_char params, rest)
                         else None))"

text \<open>\<open>regexpr.exec\<close>: the first position where the expression matches.\<close>

fun regexpr_exec :: "(string \<Rightarrow> match option) \<Rightarrow> string \<Rightarrow> (nat \<times> match) option" where
  "regexpr_exec re [] = map_option (Pair 0) (re [])"
| "regexpr_exec re (c # s) =
     (case re (c # s) of
        Some m \<Rightarrow> Some (0, m)
      | None \<Rightarrow> map_option (\<lambda>(i, m). (Suc i, m)) (regexpr_exec re s))"

fun category_regexpr :: "category \<Rightarrow> string \<Rightarrow> match option" where
  "category_regexpr Csi_private = csi_private_regexpr"
| "category_regexpr Csi = csi_regexpr"
| "category_regexpr Csi_8bit = csi_regexpr"
| "category_regexpr Osc = osc_regexpr"

text \<open>\<open>parseInt\<close> of a string of digits, and the arguments of a command.\<close>

definition parse_nat :: "string \<Rightarrow> nat" where
  "parse_nat s = foldl (\<lambda>n c. 10 * n + (of_char c - 48)) 0 s"

definition command_args :: "string \<Rightarrow> nat list" where
  "command_args params = map parse_nat (filter (\<lambda>p. p \<noteq> []) (split_on (CHR '';'') params))"

text \<open>
  The handlers of the categories. The private commands and those of the operating system are recognised and
  ignored: \<open>parseInt\<close> reads the digits up to the first separator, the other table is looked up with the string.
\<close>

definition ignored_private :: "nat list" where
  "ignored_private = [25, 2004]"

definition ignored_osc :: "string list" where
  "ignored_osc = [''0'', ''2'', ''4'', ''9'', ''10'', ''11'', ''50'', ''52'', ''777'']"

fun category_handler :: "category \<Rightarrow> string \<Rightarrow> string \<Rightarrow> terminal \<Rightarrow> (bool \<times> terminal) outcome" where
  "category_handler Csi_private feature ending t =
     Inr (takeWhile is_digit feature \<noteq> [] \<and> parse_nat (takeWhile is_digit feature) \<in> set ignored_private, t)"
| "category_handler Osc name params t = Inr (name \<in> set ignored_osc, t)"
| "category_handler Csi params name t = csi_command (hd name) (command_args params) t"
| "category_handler Csi_8bit params name t = csi_command (hd name) (command_args params) t"

section \<open>Processing a stream\<close>

lemma category_text_nonempty [simp]: "category_text k \<noteq> []"
  by (cases k) auto

lemma next_category_shorter:
  "next_category s = Some (before, k, rest) \<Longrightarrow> length rest < length s"
proof (induction s arbitrary: before)
  case (Cons c s)
  show ?case
  proof (cases "category_at (c # s)")
    case None
    then show ?thesis using Cons by fastforce
  next
    case (Some k')
    then show ?thesis using Cons.prems
      by (cases k) auto
  qed
qed simp

lemma dropWhile_Cons_shorter: "dropWhile p s = c # rest \<Longrightarrow> length rest < length s"
  by (metis length_Cons length_dropWhile_le less_eq_Suc_le)

lemma osc_regexpr_shorter:
  assumes "osc_regexpr s = Some (a, b, rest)"
  shows "length rest < length s"
proof -
  obtain c params e where
    "dropWhile is_digit s = c # params" "dropWhile osc_char params = e # rest"
    using assms by (auto simp: osc_regexpr_def split: list.splits if_splits)
  then show ?thesis by (meson dropWhile_Cons_shorter less_trans)
qed

lemma category_regexpr_shorter:
  "category_regexpr k s = Some (a, b, rest) \<Longrightarrow> length rest < length s"
proof (cases k)
  case Csi_private
  then show "category_regexpr k s = Some (a, b, rest) \<Longrightarrow> length rest < length s"
    by (auto simp: csi_private_regexpr_def dropWhile_Cons_shorter split: list.splits if_splits)
qed (auto simp: csi_regexpr_def dropWhile_Cons_shorter osc_regexpr_shorter split: list.splits)

lemma regexpr_exec_shorter:
  "regexpr_exec (category_regexpr k) s = Some (i, a, b, rest) \<Longrightarrow> length rest \<le> length s"
proof (induction s arbitrary: i)
  case Nil
  then show ?case using category_regexpr_shorter [of k "[]" a b rest] by auto
next
  case (Cons c s)
  show ?case
  proof (cases "category_regexpr k (c # s)")
    case None
    then show ?thesis using Cons by fastforce
  next
    case (Some m)
    then show ?thesis using Cons.prems category_regexpr_shorter [of k "c # s" a b rest] by simp
  qed
qed

text \<open>
  Each match of a category is completed by its command, which has to follow at once; when none comes at all the
  rest of the stream from the category on is left for the next call. The result is the terminal, and the
  remainder or what a command threw.
\<close>

function process :: "string \<Rightarrow> terminal \<Rightarrow> terminal \<times> string outcome" where
  "process stream t =
     (case next_category stream of
        None \<Rightarrow> (write_text stream t, Inr [])
      | Some (before, k, rest) \<Rightarrow>
          (let t1 = write_text before t
           in case regexpr_exec (category_regexpr k) rest of
                None \<Rightarrow> (t1, Inr (category_text k @ rest))
              | Some (index, a, b, rest') \<Rightarrow>
                  (if index \<noteq> 0 then process rest t1
                   else case category_handler k a b t1 of
                          Inl e \<Rightarrow> (t1, Inl e)
                        | Inr (_, t2) \<Rightarrow> process rest' t2)))"
  by pat_completeness auto
termination
  by (relation "measure (length \<circ> fst)") (auto dest!: next_category_shorter regexpr_exec_shorter)

declare process.simps [simp del]

text \<open>
  The handler of the property \<open>stream\<close>: the terminal, and the number of pieces reported as processed (none for an
  empty array) or what was thrown. The blank cell shows the cursor.
\<close>

definition show_cursor :: "terminal \<Rightarrow> terminal" where
  "show_cursor t =
     (if cursor_x t < length (cursor_row t) \<and> cursor_row t ! cursor_x t \<noteq> Hole then t
      else t\<lparr>content := set_row (cursor_y t)
             (set_cell (cursor_x t) (Cell (CHR '' '') (styleId t)) (cursor_row t)) (content t)\<rparr>)"

definition stream_handler :: "string list \<Rightarrow> terminal \<Rightarrow> terminal \<times> nat option outcome" where
  "stream_handler stream t =
     (let count = (if stream = [] then None else Some (length stream));
          update = foldl (@) (stream_remainder t) stream
      in if update = [] then (t, Inr count)
         else case process update t of
                (t1, Inl e) \<Rightarrow> (t1, Inl e)
              | (t1, Inr rest) \<Rightarrow>
                  (let t2 = t1\<lparr>stream_remainder := rest\<rparr>
                   in if length (content t2) \<le> cursor_y t2 then (t2, Inl TypeErr)
                      else (show_cursor t2, Inr count)))"

text \<open>\<open>handleResize\<close> for one entry, with the measured sizes, and the end of its timer.\<close>

definition handleResize :: "real \<times> real \<Rightarrow> real \<times> real \<Rightarrow> terminal \<Rightarrow> terminal" where
  "handleResize charDimension entry t =
     t\<lparr>terminalDimension :=
         Some (\<lfloor>fst entry / fst charDimension\<rfloor> - 1, \<lfloor>snd entry / snd charDimension\<rfloor>),
       overlay := True\<rparr>"

definition overlay_timeout :: "terminal \<Rightarrow> terminal" where
  "overlay_timeout t = t\<lparr>overlay := False\<rparr>"

section \<open>Rendering\<close>

text \<open>
  The style of a group: the initial \<open>-1\<close>, the cursor, a number, or the \<open>undefined\<close> of a bare string.
\<close>

datatype group_style = No_group | Cursor_group | Style_group nat | Undefined_group

fun cell_parts :: "cell \<Rightarrow> (char \<times> group_style) outcome" where
  "cell_parts (Cell c s) = Inr (c, Style_group s)"
| "cell_parts (Bare c) = Inr (c, Undefined_group)"
| "cell_parts Hole = Inl TypeErr"

text \<open>\<open>output.at(-1)[0] += char\<close>\<close>

definition add_to_last :: "char \<Rightarrow> (string \<times> group_style) list \<Rightarrow> (string \<times> group_style) list outcome" where
  "add_to_last c output =
     (if output = [] then Inl TypeErr
      else Inr (butlast output @ [(fst (last output) @ [c], snd (last output))]))"

fun group_cells :: "nat option \<Rightarrow> nat \<Rightarrow> group_style \<Rightarrow> (string \<times> group_style) list \<Rightarrow> cell list
    \<Rightarrow> (string \<times> group_style) list outcome" where
  "group_cells cursor x style output [] = Inr output"
| "group_cells cursor x style output (cell # cells) =
     outcome_bind (cell_parts cell) (\<lambda>(c, char_style).
       let (style1, output1) =
             (if cursor = Some x then (Cursor_group, output @ [([], Cursor_group)]) else (style, output));
           (style2, output2) =
             (if char_style \<noteq> style1 then (char_style, output1 @ [([], char_style)]) else (style1, output1))
       in outcome_bind (add_to_last c output2) (\<lambda>output3. group_cells cursor (Suc x) style2 output3 cells))"

definition groupByStyleId :: "terminal \<Rightarrow> cell list \<Rightarrow> nat \<Rightarrow> (string \<times> group_style) list outcome" where
  "groupByStyleId t line y =
     group_cells (if cursor_y t = y then Some (cursor_x t) else None) 0 No_group [] line"

text \<open>\<open>styles[charStyleId] ?? predefinedStyle(charStyleId)\<close>; the style of the cursor is empty when read only.\<close>

datatype shown_style = Css string | Cursor_style | Empty_style

definition predefinedStyle :: "bool \<Rightarrow> group_style \<Rightarrow> shown_style outcome" where
  "predefinedStyle readonly style =
     (if style = Cursor_group then Inr (if readonly then Empty_style else Cursor_style) else Inl Unreachable)"

definition shown_style_of :: "bool \<Rightarrow> terminal \<Rightarrow> group_style \<Rightarrow> shown_style outcome" where
  "shown_style_of readonly t style =
     (case style of
        Style_group s \<Rightarrow> if s < length (styles t) then Inr (Css (styles t ! s)) else predefinedStyle readonly style
      | _ \<Rightarrow> predefinedStyle readonly style)"

definition render_group :: "bool \<Rightarrow> terminal \<Rightarrow> string \<times> group_style \<Rightarrow> (string \<times> shown_style) outcome" where
  "render_group readonly t g =
     outcome_bind (shown_style_of readonly t (snd g)) (\<lambda>style. Inr (fst g, style))"

definition render_line :: "bool \<Rightarrow> terminal \<Rightarrow> nat \<Rightarrow> (string \<times> shown_style) list outcome" where
  "render_line readonly t y =
     outcome_bind (groupByStyleId t (content t ! y) y) (outcome_map (render_group readonly t))"

text \<open>The template renders the rows from the last one to the first.\<close>

definition render :: "bool \<Rightarrow> terminal \<Rightarrow> (string \<times> shown_style) list list outcome" where
  "render readonly t =
     outcome_map (\<lambda>lineY. render_line readonly t (length (content t) - lineY - 1)) [0..<length (content t)]"

end
