(* ===== verification/VT100_Props.thy ===== *)
theory VT100_Props
  imports VT100
begin

text \<open>
  The terminal is an unbounded grid of characters: whatever stream is processed, the characters on the screen are
  those that the commands of the stream give on a grid without rows that end or rows that do not exist
  (\<open>terminal_refines_grid\<close>). Which commands there are, and whether one throws, depends on the stream alone
  (\<open>process_outcome\<close>), a stream can be cut anywhere but after an escape character (\<open>process_chunks\<close>), a stream that
  made a command throw does so for ever (\<open>rejected_stream_stays\<close>), and the rendered groups are the cells of the rows
  with the styles they were written in (\<open>render_shows_content\<close>).
\<close>

section \<open>The cursor after writing\<close>

definition at_cursor :: "terminal \<Rightarrow> bool" where
  "at_cursor t = (cursor_y t < length (content t) \<and> cursor_x t \<le> length (content t ! cursor_y t))"

lemma set_row_same [simp]: "y < length rows \<Longrightarrow> set_row y (rows ! y) rows = rows"
  by (simp add: set_row_def)

lemma set_row_length [simp]: "length (set_row y r rows) = max (Suc y) (length rows)"
  by (auto simp: set_row_def)

lemma set_row_nth [simp]: "set_row y r rows ! y = r"
  by (auto simp: set_row_def nth_append)

lemma set_cell_length [simp]: "length (set_cell x v row) = max (Suc x) (length row)"
  by (auto simp: set_cell_def)

lemma at_cursor_create: "at_cursor (create_columns (create_rows t))"
  by (auto simp: at_cursor_def create_columns_def create_rows_def cursor_row_def)

lemma create_at_cursor [simp]: "at_cursor t \<Longrightarrow> create_columns (create_rows t) = t"
  by (simp add: at_cursor_def create_columns_def create_rows_def cursor_row_def)

lemma at_cursor_newLine: "at_cursor t \<Longrightarrow> at_cursor ((newLine t)\<lparr>cursor_x := 0\<rparr>)"
  by (auto simp: at_cursor_def newLine_def Let_def)

lemma at_cursor_write_char: "at_cursor t \<Longrightarrow> at_cursor (write_char c t)"
  using at_cursor_newLine [of t]
  by (auto simp: write_char_def at_cursor_def cursor_row_def Let_def splice_insert_def split: option.split)

lemma at_cursor_fold: "at_cursor t \<Longrightarrow> at_cursor (fold write_char s t)"
  by (induction s arbitrary: t) (simp_all add: at_cursor_write_char)

lemma at_cursor_write [simp, intro]: "at_cursor (write_text s t)"
  by (simp add: write_text_def at_cursor_fold at_cursor_create)

lemma write_at_cursor: "at_cursor t \<Longrightarrow> write_text s t = fold write_char s t"
  by (simp add: write_text_def)

lemma write_append: "write_text (a @ b) t = write_text b (write_text a t)"
proof -
  have "write_text (a @ b) t = fold write_char b (write_text a t)" by (simp add: write_text_def)
  then show ?thesis using write_at_cursor [OF at_cursor_write] by metis
qed

section \<open>The grid\<close>

fun glyph :: "cell \<Rightarrow> char" where
  "glyph (Cell c s) = c"
| "glyph (Bare c) = c"
| "glyph Hole = CHR '' ''"

record grid =
  glyphs :: "nat \<Rightarrow> nat \<Rightarrow> char"
  grid_x :: nat
  grid_y :: nat
  grid_insert :: bool
  grid_width :: "int option"

text \<open>What is not stored is blank.\<close>

definition row_glyphs :: "cell list \<Rightarrow> nat \<Rightarrow> char" where
  "row_glyphs row x = (if x < length row then glyph (row ! x) else CHR '' '')"

definition rows_glyphs :: "cell list list \<Rightarrow> nat \<Rightarrow> nat \<Rightarrow> char" where
  "rows_glyphs rows y = row_glyphs (if y < length rows then rows ! y else [])"

definition grid_of :: "terminal \<Rightarrow> grid" where
  "grid_of t =
     \<lparr>glyphs = rows_glyphs (content t), grid_x = cursor_x t, grid_y = cursor_y t, grid_insert = insertMode t,
      grid_width = map_option fst (terminalDimension t)\<rparr>"

text \<open>The operations on the grid: a character is put, or moves the cursor.\<close>

definition open_gap :: "nat \<Rightarrow> nat \<Rightarrow> char \<Rightarrow> (nat \<Rightarrow> char) \<Rightarrow> nat \<Rightarrow> char" where
  "open_gap x n c row i = (if i < x then row i else if i < x + n then c else row (i - n))"

definition grid_char :: "char \<Rightarrow> grid \<Rightarrow> grid" where
  "grid_char c g =
     (if c = CHR 0x0A then g\<lparr>grid_y := Suc (grid_y g), grid_x := 0\<rparr>
      else if c = CHR 0x0D then
        (if grid_width g = Some (int (grid_x g) - 1) then g\<lparr>grid_y := Suc (grid_y g), grid_x := 0\<rparr>
         else g\<lparr>grid_x := 0\<rparr>)
      else if c = CHR 0x08 then g\<lparr>grid_x := grid_x g - 1\<rparr>
      else if c = CHR 0x07 then g
      else g\<lparr>glyphs := (glyphs g)(grid_y g :=
               (if grid_insert g then open_gap (grid_x g) 1 c (glyphs g (grid_y g))
                else (glyphs g (grid_y g))(grid_x g := c))),
             grid_x := Suc (grid_x g)\<rparr>)"

definition map_row :: "((nat \<Rightarrow> char) \<Rightarrow> nat \<Rightarrow> char) \<Rightarrow> grid \<Rightarrow> grid" where
  "map_row f g = g\<lparr>glyphs := (glyphs g)(grid_y g := f (glyphs g (grid_y g)))\<rparr>"

definition blank_range :: "nat \<Rightarrow> nat \<Rightarrow> (nat \<Rightarrow> char) \<Rightarrow> nat \<Rightarrow> char" where
  "blank_range x n row i = (if x \<le> i \<and> i < x + n then CHR '' '' else row i)"

fun grid_mode :: "bool \<Rightarrow> nat list \<Rightarrow> grid \<Rightarrow> grid" where
  "grid_mode on [] g = g"
| "grid_mode on (a # args) g = (if a = 4 then grid_mode on args (g\<lparr>grid_insert := on\<rparr>) else g)"

definition grid_command :: "char \<Rightarrow> nat list \<Rightarrow> grid \<Rightarrow> grid" where
  "grid_command name args g =
     (let x = grid_x g; y = grid_y g; n = arg_or 1 args; k = arg_or 0 args
      in if name = CHR ''h'' then grid_mode True args g
         else if name = CHR ''l'' then grid_mode False args g
         else if name = CHR ''A'' then g\<lparr>grid_y := y - n\<rparr>
         else if name = CHR ''B'' then g\<lparr>grid_y := y + n\<rparr>
         else if name = CHR ''C'' then g\<lparr>grid_x := x + n\<rparr>
         else if name = CHR ''D'' then g\<lparr>grid_x := x - n\<rparr>
         else if name = CHR ''E'' then g\<lparr>grid_y := y + n, grid_x := 0\<rparr>
         else if name = CHR ''F'' then g\<lparr>grid_y := y - n, grid_x := 0\<rparr>
         else if name \<in> {CHR ''f'', CHR ''H''} then g\<lparr>grid_y := k, grid_x := arg_or 0 (drop 1 args)\<rparr>
         else if name = CHR ''G'' then g\<lparr>grid_x := k\<rparr>
         else if name = CHR ''J'' \<and> k = 0 then g\<lparr>glyphs := (\<lambda>i. if i < y then glyphs g i else (\<lambda>_. CHR '' ''))\<rparr>
         else if name = CHR ''J'' \<and> k = 1 then
           g\<lparr>glyphs := (\<lambda>i. glyphs (map_row (blank_range 0 x) g) (y + i))\<rparr>
         else if name = CHR ''J'' \<and> k = 2 then g\<lparr>glyphs := (\<lambda>_ _. CHR '' '')\<rparr>
         else if name = CHR ''K'' \<and> k = 0 then map_row (\<lambda>row i. if i < x then row i else CHR '' '') g
         else if name = CHR ''K'' \<and> k = 1 then map_row (blank_range 0 x) g
         else if name = CHR ''K'' \<and> k = 2 then map_row (\<lambda>_ _. CHR '' '') g
         else if name = CHR ''P'' then map_row (\<lambda>row i. if i < x then row i else row (i + n)) g
         else if name = CHR ''X'' then map_row (blank_range x n) g
         else if name = CHR ''@'' then map_row (open_gap x n (CHR '' '')) g
         else g)"

section \<open>The rows as rows of the grid\<close>

named_theorems grid_simps \<open>what the operations on rows are on the grid\<close>

lemma row_glyphs_Nil [grid_simps]: "row_glyphs [] = (\<lambda>_. CHR '' '')"
  by (rule ext) (simp add: row_glyphs_def)

lemma rows_glyphs_row [grid_simps]: "y < length rows \<Longrightarrow> rows_glyphs rows y = row_glyphs (rows ! y)"
  by (simp add: rows_glyphs_def)

lemma rows_glyphs_set_row [grid_simps]: "rows_glyphs (set_row y row rows) = (rows_glyphs rows)(y := row_glyphs row)"
  by (rule ext) (auto simp: rows_glyphs_def set_row_def nth_append)

lemma rows_glyphs_update [grid_simps]:
  "y < length rows \<Longrightarrow> rows_glyphs (rows[y := row]) = (rows_glyphs rows)(y := row_glyphs row)"
  by (rule ext) (auto simp: rows_glyphs_def)

lemma rows_glyphs_blank_rows: "rows_glyphs (rows @ replicate n []) = rows_glyphs rows"
  by (rule ext) (auto simp: rows_glyphs_def nth_append)

lemma rows_glyphs_take [grid_simps]:
  "rows_glyphs (take n rows) = (\<lambda>i. if i < n then rows_glyphs rows i else (\<lambda>_. CHR '' ''))"
  by (rule ext) (auto simp: rows_glyphs_def row_glyphs_Nil)

lemma rows_glyphs_drop [grid_simps]: "rows_glyphs (drop n rows) = (\<lambda>i. rows_glyphs rows (n + i))"
  by (rule ext) (auto simp: rows_glyphs_def row_glyphs_Nil)

lemma row_glyphs_set_cell [grid_simps]: "row_glyphs (set_cell x v row) = (row_glyphs row)(x := glyph v)"
  by (rule ext) (auto simp: row_glyphs_def set_cell_def nth_append)

lemma row_glyphs_spaces: "row_glyphs (row @ replicate n space_cell) = row_glyphs row"
  by (rule ext) (auto simp: row_glyphs_def nth_append space_cell_def)

lemma row_glyphs_take [grid_simps]:
  "row_glyphs (take x row) = (\<lambda>i. if i < x then row_glyphs row i else CHR '' '')"
  by (rule ext) (auto simp: row_glyphs_def)

lemma row_glyphs_delete [grid_simps]:
  "x \<le> length row \<Longrightarrow>
     row_glyphs (take x row @ drop (x + n) row) = (\<lambda>i. if i < x then row_glyphs row i else row_glyphs row (i + n))"
  by (rule ext) (auto simp: row_glyphs_def nth_append add.commute)

lemma row_glyphs_insert:
  "x \<le> length row \<Longrightarrow>
     row_glyphs (take x row @ replicate n v @ drop x row) = open_gap x n (glyph v) (row_glyphs row)"
  by (rule ext) (auto simp: row_glyphs_def open_gap_def nth_append)

lemma row_glyphs_splice_insert [grid_simps]:
  "x \<le> length row \<Longrightarrow> row_glyphs (splice_insert x v row) = open_gap x 1 (glyph v) (row_glyphs row)"
  using row_glyphs_insert [of x row 1 v] by (simp add: splice_insert_def)

lemma row_glyphs_fold [grid_simps]:
  "row_glyphs (fold (\<lambda>i. set_cell (x + i) v) [0..<n] row)
   = (\<lambda>i. if x \<le> i \<and> i < x + n then glyph v else row_glyphs row i)"
  by (induction n) (auto simp: fun_eq_iff row_glyphs_set_cell)

lemma row_glyphs_fold_from_0 [grid_simps]:
  "row_glyphs (fold (\<lambda>x. set_cell x v) [0..<n] row) = (\<lambda>i. if i < n then glyph v else row_glyphs row i)"
  using row_glyphs_fold [of 0 v n row] by simp

lemma cursor_row_glyphs [grid_simps]: "row_glyphs (cursor_row t) = rows_glyphs (content t) (cursor_y t)"
  by (simp add: cursor_row_def rows_glyphs_def)

section \<open>Writing and the commands on the grid\<close>

lemma grid_of_create: "grid_of (create_columns (create_rows t)) = grid_of t"
proof -
  let ?t = "create_rows t"
  have "rows_glyphs (content ?t) = rows_glyphs (content t)"
    by (simp add: create_rows_def rows_glyphs_blank_rows)
  moreover have "rows_glyphs (content (create_columns ?t)) = rows_glyphs (content ?t)"
    by (simp add: create_columns_def rows_glyphs_set_row row_glyphs_spaces cursor_row_glyphs)
  ultimately show ?thesis by (simp add: grid_of_def create_columns_def create_rows_def)
qed

lemma grid_of_newLine: "grid_of (newLine t) = (grid_of t)\<lparr>grid_y := Suc (cursor_y t)\<rparr>"
proof -
  have "rows_glyphs (content t) y = (\<lambda>_. CHR '' '')" if "length (content t) \<le> y" for y
    using that by (simp add: rows_glyphs_def row_glyphs_Nil)
  then show ?thesis by (auto simp: newLine_def grid_of_def Let_def grid_simps fun_upd_idem)
qed

lemma grid_of_write_char:
  assumes "at_cursor t"
  shows "grid_of (write_char c t) = grid_char c (grid_of t)"
proof -
  have sel: "grid_y (grid_of t) = cursor_y t" "grid_x (grid_of t) = cursor_x t"
    "grid_insert (grid_of t) = insertMode t" "glyphs (grid_of t) = rows_glyphs (content t)"
    "grid_width (grid_of t) = map_option fst (terminalDimension t)"
    by (simp_all add: grid_of_def)
  have home: "grid_of (t\<lparr>cursor_x := x\<rparr>) = (grid_of t)\<lparr>grid_x := x\<rparr>" for x t by (simp add: grid_of_def)
  have le: "cursor_x t \<le> length (cursor_row t)" using assms by (simp add: at_cursor_def cursor_row_def)
  consider "c = CHR 0x0A" | "c = CHR 0x0D" | "c = CHR 0x08" | "c = CHR 0x07"
    | "c \<notin> {CHR 0x0A, CHR 0x0D, CHR 0x08, CHR 0x07}" by blast
  then show ?thesis
  proof cases
    case 2
    show ?thesis
    proof (cases "terminalDimension t")
      case None
      then show ?thesis using 2 by (simp add: write_char_def grid_char_def sel home)
    next
      case (Some wh)
      then show ?thesis using 2
        by (cases wh) (auto simp: write_char_def grid_char_def sel home grid_of_newLine)
    qed
  next
    case 5
    then show ?thesis using le
      by (auto simp: write_char_def grid_char_def grid_of_def grid_simps)
  qed (simp_all add: write_char_def grid_char_def sel home grid_of_newLine)
qed

lemma grid_of_fold: "at_cursor t \<Longrightarrow> grid_of (fold write_char s t) = fold grid_char s (grid_of t)"
  by (induction s arbitrary: t) (simp_all add: at_cursor_write_char grid_of_write_char)

lemma grid_of_write: "grid_of (write_text s t) = fold grid_char s (grid_of t)"
  by (simp add: write_text_def grid_of_fold at_cursor_create grid_of_create)

text \<open>The commands that throw, whatever the terminal is.\<close>

definition csi_throws :: "char \<Rightarrow> nat list \<Rightarrow> exn option" where
  "csi_throws name args =
     (if name = CHR ''G'' \<and> args = [] then Some AssertFailed
      else if name = CHR ''@'' \<and> 2 ^ 32 \<le> arg_or 1 args then Some (Raised ''RangeError'')
      else None)"

lemma grid_of_select [simp]:
  "glyphs (grid_of t) = rows_glyphs (content t)" "grid_x (grid_of t) = cursor_x t"
  "grid_y (grid_of t) = cursor_y t" "grid_insert (grid_of t) = insertMode t"
  by (simp_all add: grid_of_def)

lemma grid_of_update:
  "grid_of (t\<lparr>cursor_x := x\<rparr>) = (grid_of t)\<lparr>grid_x := x\<rparr>"
  "grid_of (t\<lparr>cursor_y := y\<rparr>) = (grid_of t)\<lparr>grid_y := y\<rparr>"
  "grid_of (t\<lparr>insertMode := on\<rparr>) = (grid_of t)\<lparr>grid_insert := on\<rparr>"
  "grid_of (t\<lparr>terminalStyle := s\<rparr>) = grid_of t"
  "grid_of (t\<lparr>content := rows\<rparr>) = (grid_of t)\<lparr>glyphs := rows_glyphs rows\<rparr>"
  by (simp_all add: grid_of_def)

lemma with_row_at_cursor:
  "at_cursor t \<Longrightarrow>
     with_row f t = Inr (True, t\<lparr>content := (content t)[cursor_y t := f (content t ! cursor_y t)]\<rparr>)"
  by (simp add: with_row_def at_cursor_def)

lemma grid_of_with_row:
  assumes "at_cursor t" "row_glyphs (f (content t ! cursor_y t)) = h (rows_glyphs (content t) (cursor_y t))"
  shows "grid_of (t\<lparr>content := (content t)[cursor_y t := f (content t ! cursor_y t)]\<rparr>) = map_row h (grid_of t)"
  using assms by (simp add: grid_of_update map_row_def rows_glyphs_update at_cursor_def)

lemma grid_of_createStyle: "grid_of (createStyle t) = grid_of t"
  by (simp add: createStyle_def grid_of_def Let_def)

lemma grid_of_sgr: "grid_of (snd (sgr args t)) = grid_of t"
  by (induction args t rule: sgr.induct) (simp_all add: grid_of_createStyle grid_of_update split: option.split)

lemma grid_of_set_mode: "grid_of (snd (set_mode on args t)) = grid_mode on args (grid_of t)"
  by (induction on args t rule: set_mode.induct) (simp_all add: grid_of_update)

text \<open>What every command answers at a row that exists.\<close>

lemma deleteChar_grid:
  assumes "at_cursor t"
  obtains t2 where "deleteChar args t = Inr (True, t2)"
    "grid_of t2 = map_row (\<lambda>row i. if i < cursor_x t then row i else row (i + arg_or 1 args)) (grid_of t)"
  using assms
  by (auto simp: deleteChar_def with_row_at_cursor at_cursor_def grid_simps intro!: that grid_of_with_row [OF assms])

lemma eraseChar_grid:
  assumes "at_cursor t"
  obtains t2 where "eraseChar args t = Inr (True, t2)"
    "grid_of t2 = map_row (blank_range (cursor_x t) (arg_or 1 args)) (grid_of t)"
proof (cases "arg_or 1 args = 0")
  case True
  have "blank_range x 0 row = row" for x row by (rule ext) (auto simp: blank_range_def)
  then have "map_row (blank_range (cursor_x t) 0) (grid_of t) = grid_of t" by (simp add: map_row_def grid_of_def)
  with True that show ?thesis by (simp add: eraseChar_def)
next
  case False
  then show ?thesis using assms
    by (auto simp: eraseChar_def with_row_at_cursor at_cursor_def grid_simps blank_range_def fun_eq_iff
        intro!: that grid_of_with_row [OF assms])
qed

lemma insertChar_grid:
  assumes "at_cursor t" "arg_or 1 args < 2 ^ 32"
  obtains t2 where "insertChar args t = Inr (True, t2)"
    "grid_of t2 = map_row (open_gap (cursor_x t) (arg_or 1 args) (CHR '' '')) (grid_of t)"
  using assms
  by (auto simp: insertChar_def with_row_at_cursor at_cursor_def grid_simps row_glyphs_insert
      intro!: that grid_of_with_row [OF assms(1)])

lemma eraseLine_grid:
  assumes "at_cursor t"
  shows "\<exists>t2. eraseLine [0] t = Inr (True, t2) \<and>
      grid_of t2 = map_row (\<lambda>row i. if i < cursor_x t then row i else CHR '' '') (grid_of t)" (is ?to_end)
    and "\<exists>t2. eraseLine [1] t = Inr (True, t2) \<and> grid_of t2 = map_row (blank_range 0 (cursor_x t)) (grid_of t)"
      (is ?to_start)
    and "\<exists>t2. eraseLine [2] t = Inr (True, t2) \<and> grid_of t2 = map_row (\<lambda>_ _. CHR '' '') (grid_of t)"
      (is ?all)
proof -
  show ?to_end using assms
    by (auto simp: eraseLine_def arg_or_def with_row_at_cursor at_cursor_def grid_simps
        intro!: grid_of_with_row [OF assms])
  show ?all
    by (simp add: eraseLine_def arg_or_def grid_of_update map_row_def grid_simps)
  have "blank_range 0 0 row = row" for row by (rule ext) (simp add: blank_range_def)
  then have "map_row (blank_range 0 0) (grid_of t) = grid_of t" by (simp add: map_row_def grid_of_def)
  then show ?to_start using assms
    by (cases "cursor_x t = 0")
      (auto simp: eraseLine_def arg_or_def with_row_at_cursor at_cursor_def grid_simps blank_range_def
        fun_eq_iff space_cell_def intro!: grid_of_with_row [OF assms])
qed

lemma eraseLine_arg: "eraseLine args t = eraseLine [arg_or 0 args] t"
  by (simp add: eraseLine_def arg_or_def split: list.split)

lemma eraseLine_command:
  assumes "at_cursor t"
  shows "\<exists>b t2. eraseLine args t = Inr (b, t2) \<and> grid_of t2 = grid_command (CHR ''K'') args (grid_of t)"
proof -
  consider "arg_or 0 args = 0" | "arg_or 0 args = 1" | "arg_or 0 args = 2" | "2 < arg_or 0 args" by linarith
  then show ?thesis
  proof cases
    case 4
    then show ?thesis by (auto simp: eraseLine_def grid_command_def Let_def)
  qed (use eraseLine_grid [OF assms] in \<open>auto simp: eraseLine_arg [of args] grid_command_def Let_def\<close>)
qed

lemma eraseLine_keeps_cursor: "eraseLine args t = Inr (b, t2) \<Longrightarrow> cursor_y t2 = cursor_y t \<and> cursor_x t2 = cursor_x t"
  by (auto simp: eraseLine_def with_row_def Let_def split: if_splits)

lemma eraseScreen_command:
  assumes "at_cursor t"
  shows "\<exists>b t2. eraseScreen args t = Inr (b, t2) \<and> grid_of t2 = grid_command (CHR ''J'') args (grid_of t)"
proof -
  consider "arg_or 0 args = 0" | "arg_or 0 args = 1" | "arg_or 0 args \<ge> 2" by linarith
  then show ?thesis
  proof cases
    case 1
    obtain t2 where t2: "eraseLine [0] t = Inr (True, t2)"
      and g: "grid_of t2 = map_row (\<lambda>row i. if i < cursor_x t then row i else CHR '' '') (grid_of t)"
      using eraseLine_grid(1) [OF assms] by blast
    have "rows_glyphs (content t2) i = rows_glyphs (content t) i" if "i < cursor_y t" for i
      using g that by (auto simp: map_row_def grid_of_def dest: arg_cong [where f = glyphs])
    then have "rows_glyphs (take (cursor_y t) (content t2))
        = (\<lambda>i. if i < cursor_y t then rows_glyphs (content t) i else (\<lambda>_. CHR '' ''))"
      by (auto simp: rows_glyphs_take)
    with 1 t2 show ?thesis
      by (auto simp: eraseScreen_def grid_command_def Let_def grid_of_update g map_row_def fun_eq_iff)
  next
    case 2
    obtain t2 where t2: "eraseLine [1] t = Inr (True, t2)"
      and g: "grid_of t2 = map_row (blank_range 0 (cursor_x t)) (grid_of t)"
      using eraseLine_grid(2) [OF assms] by blast
    have "rows_glyphs (content t2) = glyphs (map_row (blank_range 0 (cursor_x t)) (grid_of t))"
      using g by (metis grid_of_select(1))
    with 2 t2 g show ?thesis
      by (auto simp: eraseScreen_def grid_command_def Let_def grid_of_update g rows_glyphs_drop map_row_def)
  next
    case 3
    have "rows_glyphs [] = (\<lambda>_ _. CHR '' '')" by (simp add: rows_glyphs_def row_glyphs_Nil fun_eq_iff)
    with 3 show ?thesis
      by (auto simp: eraseScreen_def grid_command_def Let_def grid_of_update)
  qed
qed

lemma csi_command_grid:
  assumes "at_cursor t" "csi_throws name args = None"
  shows "\<exists>b t2. csi_command name args t = Inr (b, t2) \<and> grid_of t2 = grid_command name args (grid_of t)"
proof -
  consider (m) "name = CHR ''m''" | (h) "name = CHR ''h''" | (l) "name = CHR ''l''"
    | (move) "name \<in> {CHR ''A'', CHR ''B'', CHR ''C'', CHR ''D'', CHR ''E'', CHR ''F''}"
    | (line) "name \<in> {CHR ''f'', CHR ''H''}" | (G) "name = CHR ''G''"
    | (J) "name = CHR ''J''" | (K) "name = CHR ''K''"
    | (P) "name = CHR ''P''" | (X) "name = CHR ''X''" | (ins) "name = CHR ''@''"
    | (other) "name \<notin> {CHR ''m'', CHR ''h'', CHR ''l'', CHR ''A'', CHR ''B'', CHR ''C'', CHR ''D'', CHR ''E'',
        CHR ''F'', CHR ''f'', CHR ''H'', CHR ''G'', CHR ''J'', CHR ''K'', CHR ''P'', CHR ''X'', CHR ''@''}"
    by auto
  then show ?thesis
  proof cases
    case m
    then show ?thesis using grid_of_sgr [of args t]
      by (cases "sgr args t") (auto simp: csi_command_def grid_command_def)
  next
    case h
    then show ?thesis using grid_of_set_mode [of True args t]
      by (cases "set_mode True args t") (auto simp: csi_command_def grid_command_def)
  next
    case l
    then show ?thesis using grid_of_set_mode [of False args t]
      by (cases "set_mode False args t") (auto simp: csi_command_def grid_command_def)
  next
    case move
    then show ?thesis
      by (elim insertE emptyE) (simp_all add: csi_command_def grid_command_def moveCursorUp_def moveCursorDown_def
          moveCursorRight_def moveCursorLeft_def moveCursorDownBegining_def moveCursorUpBegining_def grid_of_def
          ex_bool_eq)
  next
    case line
    then show ?thesis
      by (elim insertE emptyE)
        (simp_all add: csi_command_def grid_command_def moveCursorLineColumn_def grid_of_def ex_bool_eq)
  next
    case G
    then show ?thesis using assms(2)
      by (cases args) (auto simp: csi_command_def grid_command_def moveCursorColumn_def csi_throws_def
          grid_of_def Let_def arg_or_def)
  next
    case J
    then show ?thesis using eraseScreen_command [OF assms(1)] by (simp add: csi_command_def)
  next
    case K
    then show ?thesis using eraseLine_command [OF assms(1)] by (simp add: csi_command_def)
  next
    case P
    show ?thesis
      by (rule deleteChar_grid [OF assms(1), of args])
        (simp add: P csi_command_def grid_command_def ex_bool_eq del: One_nat_def)
  next
    case X
    show ?thesis
      by (rule eraseChar_grid [OF assms(1), of args])
        (simp add: X csi_command_def grid_command_def ex_bool_eq del: One_nat_def)
  next
    case ins
    then have "arg_or 1 args < 2 ^ 32" using assms(2) by (simp add: csi_throws_def split: if_splits)
    then show ?thesis
      by (rule insertChar_grid [OF assms(1), of args])
        (simp add: ins csi_command_def grid_command_def ex_bool_eq del: One_nat_def)
  next
    case other
    then show ?thesis by (simp add: csi_command_def grid_command_def ex_bool_eq)
  qed
qed

lemma csi_command_throws:
  assumes "at_cursor t" "csi_throws name args = Some e"
  shows "csi_command name args t = Inl e"
  using assms
  by (auto simp: csi_throws_def csi_command_def moveCursorColumn_def insertChar_def at_cursor_def split: if_splits)

section \<open>The events of a stream\<close>

text \<open>What a stream contains, independently of the terminal: texts and commands, and what is left over.\<close>

datatype event = Text string | Command category string string

function parse :: "string \<Rightarrow> event list \<times> string" where
  "parse s =
     (case next_category s of
        None \<Rightarrow> ([Text s], [])
      | Some (before, k, rest) \<Rightarrow>
          (case regexpr_exec (category_regexpr k) rest of
             None \<Rightarrow> ([Text before], category_text k @ rest)
           | Some (index, a, b, rest') \<Rightarrow>
               (if index \<noteq> 0 then (Text before # fst (parse rest), snd (parse rest))
                else (Text before # Command k a b # fst (parse rest'), snd (parse rest')))))"
  by pat_completeness auto
termination
  by (relation "measure length") (auto dest!: next_category_shorter regexpr_exec_shorter)

declare parse.simps [simp del]

fun event_throws :: "event \<Rightarrow> exn option" where
  "event_throws (Text s) = None"
| "event_throws (Command k a b) = (if k \<in> {Csi, Csi_8bit} then csi_throws (hd b) (command_args a) else None)"

fun grid_event :: "event \<Rightarrow> grid \<Rightarrow> grid" where
  "grid_event (Text s) g = fold grid_char s g"
| "grid_event (Command k a b) g =
     (if k \<in> {Csi, Csi_8bit} then grid_command (hd b) (command_args a) g else g)"

fun grid_run :: "event list \<Rightarrow> grid \<Rightarrow> grid" where
  "grid_run [] g = g"
| "grid_run (e # es) g = (if event_throws e = None then grid_run es (grid_event e g) else g)"

fun first_throw :: "event list \<Rightarrow> exn option" where
  "first_throw [] = None"
| "first_throw (e # es) = (case event_throws e of Some x \<Rightarrow> Some x | None \<Rightarrow> first_throw es)"

definition parse_outcome :: "string \<Rightarrow> string outcome" where
  "parse_outcome s = (case first_throw (fst (parse s)) of Some e \<Rightarrow> Inl e | None \<Rightarrow> Inr (snd (parse s)))"

lemma handler_grid:
  assumes "at_cursor t" "event_throws (Command k a b) = None"
  shows "\<exists>x t2. category_handler k a b t = Inr (x, t2) \<and> grid_of t2 = grid_event (Command k a b) (grid_of t)"
  using assms csi_command_grid [of t "hd b" "command_args a"] by (cases k) auto

lemma handler_throws:
  assumes "at_cursor t" "event_throws (Command k a b) = Some e"
  shows "category_handler k a b t = Inl e"
  using assms csi_command_throws [of t "hd b" "command_args a"] by (cases k) auto

text \<open>The four ways in which a stream goes on.\<close>

lemma stream_cases [case_names no_category unfinished malformed command]:
  obtains "next_category s = None"
  | before k rest where "next_category s = Some (before, k, rest)" "regexpr_exec (category_regexpr k) rest = None"
  | before k rest index m where "next_category s = Some (before, k, rest)"
      "regexpr_exec (category_regexpr k) rest = Some (Suc index, m)"
  | before k rest a b rest' where "next_category s = Some (before, k, rest)"
      "regexpr_exec (category_regexpr k) rest = Some (0, a, b, rest')"
proof -
  assume A: "next_category s = None \<Longrightarrow> thesis"
    "\<And>before k rest. next_category s = Some (before, k, rest) \<Longrightarrow>
        regexpr_exec (category_regexpr k) rest = None \<Longrightarrow> thesis"
    "\<And>before k rest index m. next_category s = Some (before, k, rest) \<Longrightarrow>
        regexpr_exec (category_regexpr k) rest = Some (Suc index, m) \<Longrightarrow> thesis"
    "\<And>before k rest a b rest'. next_category s = Some (before, k, rest) \<Longrightarrow>
        regexpr_exec (category_regexpr k) rest = Some (0, a, b, rest') \<Longrightarrow> thesis"
  show thesis
  proof (cases "next_category s")
    case (Some n)
    obtain before k rest where n: "n = (before, k, rest)" by (cases n) auto
    show thesis
    proof (cases "regexpr_exec (category_regexpr k) rest")
      case None
      then show thesis using A(2) Some n by blast
    next
      case (Some m)
      obtain index a b rest' where m: "m = (index, a, b, rest')" by (cases m) auto
      show thesis using A(3,4) \<open>next_category s = Some n\<close> Some m n by (cases index) blast+
    qed
  qed (rule A(1))
qed

lemma process_no_category: "next_category s = None \<Longrightarrow> process s t = (write_text s t, Inr [])"
  by (simp add: process.simps)

lemma process_unfinished:
  "next_category s = Some (before, k, rest) \<Longrightarrow> regexpr_exec (category_regexpr k) rest = None \<Longrightarrow>
     process s t = (write_text before t, Inr (category_text k @ rest))"
  by (simp add: process.simps [of s])

lemma process_malformed:
  "next_category s = Some (before, k, rest) \<Longrightarrow> regexpr_exec (category_regexpr k) rest = Some (Suc index, m) \<Longrightarrow>
     process s t = process rest (write_text before t)"
  by (cases m) (simp add: process.simps [of s] Let_def)

lemma process_command:
  "next_category s = Some (before, k, rest) \<Longrightarrow> regexpr_exec (category_regexpr k) rest = Some (0, a, b, rest') \<Longrightarrow>
     process s t =
       (case category_handler k a b (write_text before t) of
          Inl e \<Rightarrow> (write_text before t, Inl e) | Inr (x, t2) \<Rightarrow> process rest' t2)"
  by (simp add: process.simps [of s] Let_def)

lemmas process_steps = process_no_category process_unfinished process_malformed process_command

lemma parse_steps:
  "next_category s = None \<Longrightarrow> parse s = ([Text s], [])"
  "next_category s = Some (before, k, rest) \<Longrightarrow> regexpr_exec (category_regexpr k) rest = None \<Longrightarrow>
     parse s = ([Text before], category_text k @ rest)"
  "next_category s = Some (before, k, rest) \<Longrightarrow> regexpr_exec (category_regexpr k) rest = Some (Suc index, m) \<Longrightarrow>
     parse s = (Text before # fst (parse rest), snd (parse rest))"
  "next_category s = Some (before, k, rest) \<Longrightarrow> regexpr_exec (category_regexpr k) rest = Some (0, a, b, rest') \<Longrightarrow>
     parse s = (Text before # Command k a b # fst (parse rest'), snd (parse rest'))"
  by (cases m; simp add: parse.simps [of s])+

lemma stream_shorter:
  assumes "next_category s = Some (before, k, rest)"
  shows "length rest < length s"
    and "regexpr_exec (category_regexpr k) rest = Some (0, a, b, rest') \<Longrightarrow> length rest' < length s"
  using next_category_shorter [OF assms] regexpr_exec_shorter [of k rest 0 a b rest'] by auto

lemma process_on_grid:
  "grid_of (fst (process s t)) = grid_run (fst (parse s)) (grid_of t) \<and> snd (process s t) = parse_outcome s"
proof (induction s arbitrary: t rule: length_induct)
  case (1 s)
  show ?case
  proof (cases rule: stream_cases [of s])
    case (malformed before k rest index m)
    then show ?thesis
      using 1 [rule_format, OF stream_shorter(1) [OF malformed(1)], of "write_text before t"]
      unfolding parse_outcome_def parse_steps(3) [OF malformed]
      by (simp add: process_malformed [OF malformed] grid_of_write cong: option.case_cong)
  next
    case (command before k rest a b rest')
    note IH = 1 [rule_format, OF stream_shorter(2) [OF command]]
    show ?thesis
    proof (cases "event_throws (Command k a b)")
      case None
      then obtain x t2 where "category_handler k a b (write_text before t) = Inr (x, t2)"
        "grid_of t2 = grid_event (Command k a b) (fold grid_char before (grid_of t))"
        using handler_grid [OF at_cursor_write None] by (metis grid_of_write)
      then show ?thesis using IH [of t2] None
        unfolding parse_outcome_def parse_steps(4) [OF command]
        by (simp add: process_command [OF command] del: grid_event.simps(2) event_throws.simps(2) cong: option.case_cong)
    next
      case (Some e)
      then show ?thesis using handler_throws [OF at_cursor_write Some, of before t]
        by (simp add: process_command [OF command] parse_steps(4) [OF command] parse_outcome_def grid_of_write
            del: event_throws.simps(2))
    qed
  qed (simp_all add: process_steps parse_steps grid_of_write parse_outcome_def)
qed

section \<open>Streams in pieces\<close>

lemma category_at_Nil [simp]: "category_at [] = None"
  by (simp add: category_at_def categories_def)

lemma category_at_Cons:
  "category_at (c # s) =
     (if c = CHR 0x9B then Some Csi_8bit
      else if c = CHR 0x1B then
        (case s of
           [] \<Rightarrow> None
         | d # s' \<Rightarrow>
             (if d = CHR ''['' then (if prefix ''?'' s' then Some Csi_private else Some Csi)
              else if d = CHR '']'' then Some Osc else None))
      else None)"
  by (auto simp: category_at_def categories_def split: list.split)

lemma category_at_more: "category_at (c # d # s) = None \<Longrightarrow> category_at (c # d # s @ b) = None"
  by (auto simp: category_at_Cons split: if_splits)

lemma category_at_text:
  "category_at s = Some k \<Longrightarrow> s = category_text k @ drop (length (category_text k)) s"
  by (cases s) (auto simp: category_at_Cons prefix_def split: if_splits list.splits)

lemma category_at_text_more:
  "category_at (category_text k @ r) = Some k \<Longrightarrow> r \<noteq> [] \<Longrightarrow> category_at (category_text k @ r @ b) = Some k"
  by (cases k; cases r) (auto simp: category_at_Cons split: if_splits)

lemma next_category_at: "category_at s = Some k \<Longrightarrow> next_category s = Some ([], k, drop (length (category_text k)) s)"
  by (cases s) auto

definition push_before :: "string \<Rightarrow> (string \<times> category \<times> string) option \<Rightarrow> (string \<times> category \<times> string) option" where
  "push_before x = map_option (\<lambda>(before, k, rest). (x @ before, k, rest))"

lemma push_before_simps [simp]:
  "push_before [] n = n" "push_before x None = None" "push_before x (Some (p, k, r)) = Some (x @ p, k, r)"
  "push_before x (push_before y n) = push_before (x @ y) n"
  by (cases n; auto simp: push_before_def)+

lemma next_category_Cons: "category_at (c # s) = None \<Longrightarrow> next_category (c # s) = push_before [c] (next_category s)"
  by (simp add: push_before_def)

lemma next_category_Some:
  assumes "next_category a = Some (before, k, rest)"
  shows "a = before @ category_text k @ rest \<and> category_at (category_text k @ rest) = Some k \<and>
     next_category (a @ b) = push_before before (next_category (category_text k @ rest @ b))"
  using assms
proof (induction a arbitrary: before)
  case (Cons c a)
  show ?case
  proof (cases "category_at (c # a)")
    case None
    then obtain before' where b: "before = c # before'" and n: "next_category a = Some (before', k, rest)"
      using Cons.prems by (auto split: option.splits)
    note IH = Cons.IH [OF n]
    then have "a \<noteq> []" by auto
    then have "category_at (c # a @ b) = None" using None category_at_more by (cases a) auto
    then have "next_category ((c # a) @ b) = push_before before (next_category (category_text k @ rest @ b))"
      using IH [THEN conjunct2, THEN conjunct2] b by (simp add: next_category_Cons del: next_category.simps)
    with IH b show ?thesis by (metis append_Cons)
  next
    case (Some k')
    then have "before = []" "k' = k" "rest = drop (length (category_text k)) (c # a)"
      using Cons.prems by auto
    with Some category_at_text [OF Some] show ?thesis
      by (metis append_Cons append_Nil append_assoc push_before_simps(1))
  qed
qed simp

lemma next_category_Some_more:
  assumes "next_category a = Some (before, k, rest)" "rest \<noteq> []"
  shows "next_category (a @ b) = Some (before, k, rest @ b)"
proof -
  have "category_at (category_text k @ rest @ b) = Some k"
    using next_category_Some [OF assms(1)] assms(2) category_at_text_more by blast
  then have "next_category (category_text k @ rest @ b) = Some ([], k, rest @ b)"
    by (simp add: next_category_at)
  then show ?thesis
    using next_category_Some [OF assms(1), of b] by (metis append.right_neutral push_before_simps(3))
qed

lemma next_category_None_more:
  "next_category a = None \<Longrightarrow> a = [] \<or> last a \<noteq> CHR 0x1B \<Longrightarrow> next_category (a @ b) = push_before a (next_category b)"
proof (induction a)
  case (Cons c a)
  have none: "category_at (c # a) = None" "next_category a = None"
    using Cons.prems(1) by (auto split: option.splits)
  have "category_at (c # a @ b) = None"
  proof (cases a)
    case Nil
    then show ?thesis using none Cons.prems(2) by (auto simp: category_at_Cons split: if_splits)
  next
    case (Cons d a')
    then show ?thesis using none category_at_more by auto
  qed
  moreover have "a = [] \<or> last a \<noteq> CHR 0x1B" using Cons.prems(2) by auto
  ultimately show ?case using Cons.IH [OF none(2)] by (simp add: next_category_Cons del: next_category.simps)
qed simp

lemma process_prefix:
  assumes "next_category (x @ s) = push_before x (next_category s)"
  shows "process (x @ s) t = process s (write_text x t)"
proof (cases rule: stream_cases [of s])
  case (malformed before k rest index m)
  then show ?thesis using assms by (simp add: process_malformed write_append)
next
  case (command before k rest a b rest')
  then show ?thesis using assms by (simp add: process_command write_append cong: sum.case_cong)
qed (use assms in \<open>simp_all add: process_no_category process_unfinished write_append\<close>)

text \<open>A match does not depend on what comes after it, and the search for it neither.\<close>

lemma dropWhile_more:
  assumes "dropWhile p s = c # r"
  shows "takeWhile p (s @ b) = takeWhile p s" "dropWhile p (s @ b) = c # r @ b"
proof -
  have "\<exists>x\<in>set s. \<not> p x" using assms dropWhile_eq_Nil_conv [of p s] by auto
  then obtain x where x: "x \<in> set s" "\<not> p x" by blast
  show "takeWhile p (s @ b) = takeWhile p s" using x by (rule takeWhile_append1)
  show "dropWhile p (s @ b) = c # r @ b" using dropWhile_append1 [of x s p b] x assms by simp
qed

lemma regexpr_more:
  assumes "category_regexpr k s = Some (x, y, r)"
  shows "category_regexpr k (s @ b) = Some (x, y, r @ b)"
  using assms
  by (cases k) (auto simp: csi_regexpr_def csi_private_regexpr_def osc_regexpr_def dropWhile_more
      simp del: dropWhile_eq_Nil_conv split: list.splits if_splits)

lemma regexpr_decided:
  assumes "category_regexpr k s = Some m"
  shows "if k = Osc then CHR 0x07 \<in> set s else \<exists>c\<in>set s. \<not> is_param c"
proof -
  have mem: "c \<in> set s" and ends: "\<not> p c" if "dropWhile p s = c # r" for p c r and s :: string
    using that by (metis list.set_intros(1) set_dropWhileD, metis hd_dropWhile list.distinct(1) list.sel(1))
  show ?thesis
  proof (cases "k = Osc")
    case True
    then obtain c params e r where "dropWhile is_digit s = c # params" "dropWhile osc_char params = CHR 0x07 # r"
      using assms by (auto simp: osc_regexpr_def split: list.splits if_splits)
    then show ?thesis using mem [of osc_char params "CHR 0x07" r] True
      by (metis list.set_intros(2) set_dropWhileD)
  next
    case False
    then obtain c r where "dropWhile is_param s = c # r"
      using assms by (cases k) (auto simp: csi_regexpr_def csi_private_regexpr_def split: list.splits if_splits)
    then show ?thesis using mem ends False by metis
  qed
qed

lemma exec_decided:
  "regexpr_exec (category_regexpr k) s = Some m \<Longrightarrow>
     if k = Osc then CHR 0x07 \<in> set s else \<exists>c\<in>set s. \<not> is_param c"
proof (induction s arbitrary: m)
  case Nil
  then show ?case using regexpr_decided [of k "[]"] by (auto split: if_splits)
next
  case (Cons c s)
  show ?case
  proof (cases "category_regexpr k (c # s)")
    case None
    then obtain m' where "regexpr_exec (category_regexpr k) s = Some m'" using Cons.prems by auto
    with Cons.IH show ?thesis by (auto split: if_splits)
  next
    case (Some m')
    then show ?thesis by (rule regexpr_decided)
  qed
qed

lemma regexpr_None_more:
  assumes "category_regexpr k s = None" "if k = Osc then CHR 0x07 \<in> set s else \<exists>c\<in>set s. \<not> is_param c"
  shows "category_regexpr k (s @ b) = None"
proof (cases "k = Osc")
  case False
  then obtain c r where s: "dropWhile is_param s = c # r"
    using assms(2) by (metis dropWhile_eq_Nil_conv neq_Nil_conv)
  with False assms(1) show ?thesis
    by (cases k) (auto simp: csi_regexpr_def csi_private_regexpr_def dropWhile_more [OF s] split: if_splits)
next
  case True
  have "CHR 0x07 \<in> set s" using assms(2) True by simp
  moreover have "\<not> is_digit (CHR 0x07)" "\<not> osc_char (CHR 0x07)" by (simp_all add: is_digit_def osc_char_def)
  ultimately obtain c params where s: "dropWhile is_digit s = c # params"
    by (metis dropWhile_eq_Nil_conv neq_Nil_conv)
  have none: "takeWhile is_digit s = [] \<or> c \<noteq> CHR '';'' \<or>
      (\<forall>e r. dropWhile osc_char params = e # r \<longrightarrow> e \<noteq> CHR 0x07)"
    using assms(1) True by (auto simp: osc_regexpr_def s split: if_splits)
  have "\<exists>e r. dropWhile osc_char params = e # r" if "c = CHR '';''"
  proof -
    have "CHR 0x07 \<in> set (c # params)"
      using \<open>CHR 0x07 \<in> set s\<close> \<open>\<not> is_digit (CHR 0x07)\<close> s
      by (metis Un_iff set_append set_takeWhileD takeWhile_dropWhile_id)
    then have "CHR 0x07 \<in> set params" using that by auto
    then show ?thesis using \<open>\<not> osc_char (CHR 0x07)\<close> by (metis dropWhile_eq_Nil_conv neq_Nil_conv)
  qed
  with none True show ?thesis
    by (auto simp: osc_regexpr_def dropWhile_more [OF s] dropWhile_more simp del: dropWhile_eq_Nil_conv)
qed

lemma exec_more:
  "regexpr_exec (category_regexpr k) s = Some (i, x, y, r) \<Longrightarrow>
     regexpr_exec (category_regexpr k) (s @ b) = Some (i, x, y, r @ b)"
proof (induction s arbitrary: i)
  case Nil
  then show ?case using regexpr_decided [of k "[]"] by (auto split: if_splits)
next
  case (Cons c s)
  show ?case
  proof (cases "category_regexpr k (c # s)")
    case None
    then obtain j where j: "regexpr_exec (category_regexpr k) s = Some (j, x, y, r)" "i = Suc j"
      using Cons.prems by auto
    have "category_regexpr k (c # s @ b) = None"
      using regexpr_None_more [OF None exec_decided [OF Cons.prems]] by simp
    with Cons.IH [OF j(1)] j(2) show ?thesis by simp
  next
    case (Some m)
    then show ?thesis using Cons.prems regexpr_more [of k "c # s" x y r b] by simp
  qed
qed

lemma exec_nonempty: "regexpr_exec (category_regexpr k) r = Some m \<Longrightarrow> r \<noteq> []"
  using exec_decided [of k "[]"] by (auto split: if_splits)

lemma dropWhile_suffix: "dropWhile p s = c # r \<Longrightarrow> suffix r s"
  by (metis suffix_ConsI suffix_dropWhile suffix_order.trans suffix_order.refl)

lemma exec_suffix:
  assumes "regexpr_exec (category_regexpr k) s = Some (0, x, y, r)"
  shows "suffix r s"
proof -
  have s: "category_regexpr k s = Some (x, y, r)"
    using assms by (cases s) (auto split: option.splits)
  show ?thesis
  proof (cases "k = Osc")
    case True
    then obtain c params e where "dropWhile is_digit s = c # params" "dropWhile osc_char params = e # r"
      using s by (auto simp: osc_regexpr_def split: list.splits if_splits)
    then show ?thesis by (meson dropWhile_suffix suffix_order.trans)
  next
    case False
    then obtain c where "dropWhile is_param s = c # r"
      using s by (cases k) (auto simp: csi_regexpr_def csi_private_regexpr_def split: list.splits if_splits)
    then show ?thesis by (rule dropWhile_suffix)
  qed
qed

text \<open>What comes after a command that throws is never looked at.\<close>

lemma process_error_more:
  "snd (process a t) = Inl e \<Longrightarrow> process (a @ b) t = process a t"
proof (induction a arbitrary: t rule: length_induct)
  case (1 a)
  show ?case
  proof (cases rule: stream_cases [of a])
    case no_category
    then show ?thesis using 1(2) by (simp add: process_steps)
  next
    case (unfinished before k rest)
    then show ?thesis using 1(2) by (simp add: process_steps)
  next
    case (malformed before k rest index m)
    obtain x y r where m: "m = (x, y, r)" by (cases m) auto
    have "process (rest @ b) (write_text before t) = process rest (write_text before t)"
      using 1 stream_shorter(1) [OF malformed(1)] by (simp add: process_malformed [OF malformed])
    moreover have "process (a @ b) t = process (rest @ b) (write_text before t)"
      using process_malformed [OF next_category_Some_more [OF malformed(1)], of b index]
        exec_nonempty [OF malformed(2)] exec_more [OF malformed(2) [unfolded m]] by simp
    ultimately show ?thesis by (simp add: process_malformed [OF malformed])
  next
    case (command before k rest x y rest')
    note step = process_command [OF next_category_Some_more [OF command(1) exec_nonempty [OF command(2)], of b]
        exec_more [OF command(2), of b]]
    show ?thesis
    proof (cases "category_handler k x y (write_text before t)")
      case (Inr u)
      obtain v t2 where u: "u = (v, t2)" by (cases u) auto
      have "process (rest' @ b) t2 = process rest' t2"
        using 1 stream_shorter(2) [OF command] Inr u by (simp add: process_command [OF command])
      with Inr u show ?thesis by (simp add: step process_command [OF command])
    qed (simp add: step process_command [OF command])
  qed
qed

text \<open>
  C29. A stream may arrive in pieces. Cut anywhere but right after an escape character, processing the first piece and
  then its remainder together with the second gives the same terminal, the same remainder and the same error as
  processing all of it at once, however much of the first piece belonged to a command that was not complete.
\<close>

theorem process_chunks:
  assumes "a = [] \<or> last a \<noteq> CHR 0x1B"
  shows "process (a @ b) t =
    (case process a t of (t1, Inl e) \<Rightarrow> (t1, Inl e) | (t1, Inr rest) \<Rightarrow> process (rest @ b) t1)"
  using assms
proof (induction a arbitrary: t rule: length_induct)
  case (1 a)
  show ?case
  proof (cases rule: stream_cases [of a])
    case no_category
    then show ?thesis using process_prefix [OF next_category_None_more [OF no_category 1(2)]]
      by (simp add: process_no_category)
  next
    case (unfinished before k rest)
    have a: "a = before @ category_text k @ rest"
      "next_category (a @ b) = push_before before (next_category (category_text k @ rest @ b))"
      using next_category_Some [OF unfinished(1), of b] by metis+
    then show ?thesis using process_prefix [of before "category_text k @ rest @ b" t] process_unfinished [OF unfinished, of t]
      by simp
  next
    case (malformed before k rest index m)
    obtain x y r where m: "m = (x, y, r)" by (cases m) auto
    have "rest \<noteq> []" using exec_nonempty [OF malformed(2)] .
    then have "last rest \<noteq> CHR 0x1B" using 1(2) next_category_Some [OF malformed(1)] by auto
    moreover have "process (a @ b) t = process (rest @ b) (write_text before t)"
      using process_malformed [OF next_category_Some_more [OF malformed(1) \<open>rest \<noteq> []\<close>], of b index]
        exec_more [OF malformed(2) [unfolded m]] by simp
    ultimately show ?thesis
      using 1(1) stream_shorter(1) [OF malformed(1)] by (simp add: process_malformed [OF malformed])
  next
    case (command before k rest x y rest')
    note step = process_command [OF next_category_Some_more [OF command(1) exec_nonempty [OF command(2)], of b]
        exec_more [OF command(2), of b]]
    have "suffix rest' rest" using command(2) by (rule exec_suffix)
    then have "suffix rest' a" using next_category_Some [OF command(1)] by (auto simp: suffix_def)
    then have "rest' = [] \<or> last rest' \<noteq> CHR 0x1B" using 1(2) by (auto simp: suffix_def)
    then show ?thesis
      using 1(1) stream_shorter(2) [OF command]
      by (auto simp: step process_command [OF command] split: sum.split)
  qed
qed

theorem process_chunks_witness:
  "process ([CHR ''a'', CHR 0x1B, CHR ''[''] @ ''2DxyZ'') created =
    (case process [CHR ''a'', CHR 0x1B, CHR ''[''] created of
       (t1, Inl e) \<Rightarrow> (t1, Inl e) | (t1, Inr rest) \<Rightarrow> process (rest @ ''2DxyZ'') t1)"
  by (rule process_chunks) simp

text \<open>
  C28. Whatever stream is processed, complete or not, supported or not, the characters, the cursor and the mode are
  those that the events of the stream give on an unbounded grid: the rows and columns that the terminal creates only
  when they are needed, the padding and the order in which texts and commands are applied make no difference.
\<close>

theorem terminal_refines_grid:
  "grid_of (fst (process stream t)) = grid_run (fst (parse stream)) (grid_of t)"
  by (rule process_on_grid [THEN conjunct1])

text \<open>
  Processing never fails because of the state of the terminal: only a command to move to a column that is not
  given, or one to insert more characters than an array can have, throws, on every terminal; otherwise all of the
  stream is processed but for an unfinished command at its end, which is returned.
\<close>

lemma process_outcome:
  "snd (process stream t) = parse_outcome stream"
  by (rule process_on_grid [THEN conjunct2])

section \<open>The handler of the stream\<close>

lemma at_cursor_process: "at_cursor (fst (process s t))"
proof (induction s arbitrary: t rule: length_induct)
  case (1 s)
  show ?case
  proof (cases rule: stream_cases [of s])
    case (malformed before k rest index m)
    then show ?thesis using 1 stream_shorter(1) [OF malformed(1)] by (simp add: process_steps)
  next
    case (command before k rest a b rest')
    then show ?thesis using 1 stream_shorter(2) [OF command]
      by (auto simp: process_command split: sum.split)
  qed (simp_all add: process_steps)
qed

lemma remainder_fold [simp]: "stream_remainder (fold write_char s t) = stream_remainder t"
proof (induction s arbitrary: t)
  case (Cons c s)
  have "stream_remainder (write_char c t) = stream_remainder t"
    by (auto simp: write_char_def newLine_def Let_def split: option.split)
  with Cons show ?case by simp
qed simp

lemma remainder_write [simp]: "stream_remainder (write_text s t) = stream_remainder t"
  by (simp add: write_text_def create_columns_def create_rows_def)

text \<open>A property of terminals that writing and the commands keep is kept by processing.\<close>

lemma process_induct:
  assumes "P t"
    and text_kept: "\<And>s t. P t \<Longrightarrow> P (write_text s t)"
    and step: "\<And>k a b x t t2. P t \<Longrightarrow> at_cursor t \<Longrightarrow> category_handler k a b t = Inr (x, t2) \<Longrightarrow> P t2"
  shows "P (fst (process s t))"
  using assms(1)
proof (induction s arbitrary: t rule: length_induct)
  case (1 s)
  note w = text_kept [OF 1(2)]
  show ?case
  proof (cases rule: stream_cases [of s])
    case (malformed before k rest index m)
    then show ?thesis using 1(1) stream_shorter(1) [OF malformed(1)] w by (simp add: process_steps)
  next
    case (command before k rest a b rest')
    show ?thesis
    proof (cases "category_handler k a b (write_text before t)")
      case (Inr u)
      obtain x t2 where u: "u = (x, t2)" by (cases u) auto
      have "P t2" using step [OF w at_cursor_write] Inr u by blast
      then show ?thesis using 1(1) stream_shorter(2) [OF command] Inr u
        by (simp add: process_command [OF command])
    qed (simp add: process_command [OF command] w)
  qed (simp_all add: process_steps w)
qed

lemmas command_defs = csi_command_def moveCursorUp_def moveCursorDown_def moveCursorRight_def moveCursorLeft_def
  moveCursorDownBegining_def moveCursorUpBegining_def moveCursorColumn_def moveCursorLineColumn_def deleteChar_def
  eraseChar_def insertChar_def eraseLine_def eraseScreen_def with_row_def

lemma remainder_sgr: "stream_remainder (snd (sgr args t)) = stream_remainder t"
  by (induction args t rule: sgr.induct) (simp_all add: createStyle_def Let_def split: option.split)

lemma remainder_set_mode: "stream_remainder (snd (set_mode on args t)) = stream_remainder t"
  by (induction on args t rule: set_mode.induct) simp_all

lemma remainder_command:
  assumes "csi_command name args t = Inr (x, t2)"
  shows "stream_remainder t2 = stream_remainder t"
proof -
  have "stream_remainder t2 = stream_remainder t"
    if "sgr args t = (x, t2) \<or> set_mode on args t = (x, t2)" for on
    using that remainder_sgr [of args t] remainder_set_mode [of on args t] by auto
  then show ?thesis
    using assms by (auto simp: command_defs Let_def outcome_bind_eq_Inr split: if_splits list.splits)
qed

lemma remainder_process: "stream_remainder (fst (process s t)) = stream_remainder t"
proof (induction rule: process_induct)
  case (3 k a b x t1 t2)
  then show ?case using remainder_command [of "hd b" "command_args a" t1 x t2] by (cases k) auto
qed simp_all

lemma foldl_append: "foldl (@) r xs = r @ concat xs"
  by (induction xs arbitrary: r) auto

lemma stream_handler_error:
  assumes "snd (stream_handler stream t) = Inl e"
  shows "process (stream_remainder t @ concat stream) t = (fst (stream_handler stream t), Inl e)"
proof -
  let ?u = "stream_remainder t @ concat stream"
  obtain t1 r where p: "process ?u t = (t1, r)" by (cases "process ?u t") auto
  have "at_cursor t1" using at_cursor_process [of ?u t] p by simp
  then show ?thesis using assms p
    by (cases r) (auto simp: stream_handler_def foldl_append Let_def at_cursor_def split: if_splits)
qed

lemma stream_handler_throws:
  assumes "process (stream_remainder t @ concat stream) t = (t1, Inl e)"
  shows "stream_handler stream t = (t1, Inl e)"
proof -
  have "stream_remainder t @ concat stream \<noteq> []"
  proof
    assume empty: "stream_remainder t @ concat stream = []"
    show False using assms by (simp only: empty) (simp add: process_no_category)
  qed
  then show ?thesis unfolding stream_handler_def foldl_append Let_def assms
    by (simp only: if_False prod.case sum.case)
qed

text \<open>
  A terminal that rejected its stream never recovers: the remainder is as it was and the pieces were not reported
  as processed, so that they are processed again when more arrive, with the same error whatever these are.
\<close>

lemma rejected_stream_stays:
  assumes "snd (stream_handler stream t) = Inl e"
  shows "snd (stream_handler (stream @ later) (fst (stream_handler stream t))) = Inl e"
proof -
  define u where "u = stream_remainder t @ concat stream"
  define t1 where "t1 = fst (stream_handler stream t)"
  have p: "process u t = (t1, Inl e)" using stream_handler_error [OF assms] by (simp add: u_def t1_def)
  have "snd (process u t1) = Inl e" using p process_on_grid [of u t] process_on_grid [of u t1] by simp
  then obtain t2 where "process (u @ concat later) t1 = (t2, Inl e)"
    using process_error_more by (metis prod.collapse)
  moreover have "stream_remainder t1 = stream_remainder t" using remainder_process [of u t] p by simp
  ultimately have "stream_handler (stream @ later) t1 = (t2, Inl e)"
    by (intro stream_handler_throws) (simp add: u_def)
  then show ?thesis by (simp add: t1_def)
qed

theorem rejected_stream_stays_witness:
  "snd (stream_handler ([[CHR ''a'', CHR 0x1B, CHR ''['', CHR ''G'']] @ [''hello''])
     (fst (stream_handler [[CHR ''a'', CHR 0x1B, CHR ''['', CHR ''G'']] created))) = Inl AssertFailed"
proof (rule rejected_stream_stays)
  show "snd (stream_handler [[CHR ''a'', CHR 0x1B, CHR ''['', CHR ''G'']] created) = Inl AssertFailed"
    by code_simp
qed

section \<open>Cells and styles\<close>

definition styles_ok :: "terminal \<Rightarrow> bool" where
  "styles_ok t =
     ((\<forall>(s, n)\<in>set (stylesMap t). n < length (styles t) \<and> styles t ! n = s) \<and> styleId t < length (styles t))"

fun cell_ok :: "nat \<Rightarrow> cell \<Rightarrow> bool" where
  "cell_ok n (Cell c s) = (s < n)"
| "cell_ok n (Bare c) = True"
| "cell_ok n Hole = False"

definition cells_ok :: "terminal \<Rightarrow> bool" where
  "cells_ok t = (\<forall>row\<in>set (content t). \<forall>c\<in>set row. cell_ok (length (styles t)) c)"

definition terminal_ok :: "terminal \<Rightarrow> bool" where
  "terminal_ok t = (styles_ok t \<and> cells_ok t)"

lemma cell_ok_mono: "cell_ok n c \<Longrightarrow> n \<le> m \<Longrightarrow> cell_ok m c"
  by (cases c) auto

lemma createStyle_ok:
  assumes "terminal_ok t"
  shows "terminal_ok (createStyle t)"
    and "styles (createStyle t) ! styleId (createStyle t) = style_css (terminalStyle t)"
    and "prefix (styles t) (styles (createStyle t))"
proof -
  let ?s = "style_css (terminalStyle t)"
  have map: "n < length (styles t) \<and> styles t ! n = s" if "map_of (stylesMap t) s = Some n" for s n
    using assms that by (auto simp: terminal_ok_def styles_ok_def dest: map_of_SomeD)
  have entries: "n < length (styles t) \<and> styles t ! n = s" if "(s, n) \<in> set (stylesMap t)" for s n
    using assms that by (auto simp: terminal_ok_def styles_ok_def)
  have upd: "set (AList.update ?s (length (styles t)) (stylesMap t)) \<subseteq> insert (?s, length (styles t)) (set (stylesMap t))"
    by (rule set_update_subset)
  show "styles (createStyle t) ! styleId (createStyle t) = ?s"
    using map by (auto simp: createStyle_def Let_def nth_append)
  show px: "prefix (styles t) (styles (createStyle t))"
    by (simp add: createStyle_def Let_def)
  have "styles_ok (createStyle t)"
  proof (cases "map_of (stylesMap t) ?s")
    case None
    then show ?thesis using upd entries
      by (fastforce simp: styles_ok_def createStyle_def Let_def nth_append)
  next
    case (Some n)
    then show ?thesis using map entries
      by (fastforce simp: styles_ok_def createStyle_def Let_def nth_append)
  qed
  moreover have "cells_ok (createStyle t)"
    using assms cell_ok_mono prefix_length_le [OF px]
    by (fastforce simp: terminal_ok_def cells_ok_def createStyle_def Let_def)
  ultimately show "terminal_ok (createStyle t)" by (simp add: terminal_ok_def)
qed

text \<open>The cells of a row; an operation keeps the cells of the terminal if it keeps those of the cursor's row.\<close>

definition row_ok :: "terminal \<Rightarrow> cell list \<Rightarrow> bool" where
  "row_ok t row = (\<forall>c\<in>set row. cell_ok (length (styles t)) c)"

lemma terminal_ok_styles: "terminal_ok t \<Longrightarrow> styleId t < length (styles t)"
  by (simp add: terminal_ok_def styles_ok_def)

lemma cells_ok_rows: "cells_ok t = (\<forall>row\<in>set (content t). row_ok t row)"
  by (simp add: cells_ok_def row_ok_def)

lemma terminal_ok_content:
  assumes "terminal_ok t" "\<forall>row\<in>set rows. row_ok t row"
  shows "terminal_ok (t\<lparr>content := rows\<rparr>)"
  using assms by (simp add: terminal_ok_def styles_ok_def cells_ok_def row_ok_def)

lemma terminal_ok_irrelevant [simp]:
  "terminal_ok (t\<lparr>cursor_x := x\<rparr>) = terminal_ok t" "terminal_ok (t\<lparr>cursor_y := y\<rparr>) = terminal_ok t"
  "terminal_ok (t\<lparr>insertMode := on\<rparr>) = terminal_ok t" "terminal_ok (t\<lparr>terminalStyle := s\<rparr>) = terminal_ok t"
  "terminal_ok (t\<lparr>stream_remainder := r\<rparr>) = terminal_ok t"
  "terminal_ok (t\<lparr>terminalDimension := d\<rparr>) = terminal_ok t" "terminal_ok (t\<lparr>overlay := on\<rparr>) = terminal_ok t"
  "terminal_ok (t\<lparr>cursor_y := y, content := rows\<rparr>) = terminal_ok (t\<lparr>content := rows\<rparr>)"
  by (simp_all add: terminal_ok_def styles_ok_def cells_ok_def)

lemma rows_ok: "terminal_ok t \<Longrightarrow> row \<in> set (content t) \<Longrightarrow> row_ok t row"
  by (simp add: terminal_ok_def cells_ok_rows)

lemma row_ok_parts [simp]:
  "row_ok t []" "row_ok t (r @ s) = (row_ok t r \<and> row_ok t s)" "row_ok t (c # r) = (cell_ok (length (styles t)) c \<and> row_ok t r)"
  by (auto simp: row_ok_def)

lemma row_ok_subset: "row_ok t r \<Longrightarrow> set s \<subseteq> set r \<Longrightarrow> row_ok t s"
  by (auto simp: row_ok_def)

lemma row_ok_replicate: "cell_ok (length (styles t)) c \<Longrightarrow> row_ok t (replicate n c)"
  by (simp add: row_ok_def)

lemma row_ok_take_drop: "row_ok t r \<Longrightarrow> row_ok t (take n r)" "row_ok t r \<Longrightarrow> row_ok t (drop n r)"
  by (meson row_ok_subset set_take_subset, meson row_ok_subset set_drop_subset)

lemma row_ok_set_cell:
  assumes "row_ok t r" "cell_ok (length (styles t)) c" "x \<le> length r"
  shows "row_ok t (set_cell x c r)"
  using assms set_update_subset_insert [of r x c]
  by (auto simp: set_cell_def row_ok_def)

lemma row_ok_fold_cells:
  assumes "row_ok t r" "cell_ok (length (styles t)) c" "x \<le> length r"
  shows "row_ok t (fold (\<lambda>i. set_cell (x + i) c) [0..<n] r) \<and>
    max (x + n) (length r) = length (fold (\<lambda>i. set_cell (x + i) c) [0..<n] r)"
proof (induction n)
  case (Suc n)
  then show ?case using assms(2,3) by (auto intro!: row_ok_set_cell)
qed (use assms in simp)

lemma cursor_row_ok: "terminal_ok t \<Longrightarrow> row_ok t (cursor_row t)"
  by (simp add: cursor_row_def rows_ok)

lemma set_row_ok:
  assumes "terminal_ok t" "row_ok t row"
  shows "terminal_ok (t\<lparr>content := set_row y row (content t)\<rparr>)"
proof (rule terminal_ok_content [OF assms(1)])
  have "set (set_row y row (content t)) \<subseteq> insert row (insert [] (set (content t)))"
    using set_update_subset_insert [of "content t" y row] by (auto simp: set_row_def)
  then show "\<forall>r\<in>set (set_row y row (content t)). row_ok t r" using assms rows_ok by fastforce
qed

lemma update_row_ok:
  assumes "terminal_ok t" "at_cursor t" "row_ok t (f (content t ! cursor_y t))"
  shows "terminal_ok (t\<lparr>content := (content t)[cursor_y t := f (content t ! cursor_y t)]\<rparr>)"
  using set_row_ok [OF assms(1,3), of "cursor_y t"] assms(2) by (simp add: set_row_def at_cursor_def)

lemma newLine_ok: "terminal_ok t \<Longrightarrow> terminal_ok (newLine t)"
  using set_row_ok [of t "[]"] by (simp add: newLine_def Let_def)

lemma write_char_ok:
  assumes "terminal_ok t" "at_cursor t"
  shows "terminal_ok (write_char c t)"
proof -
  let ?v = "Cell c (styleId t)"
  have v: "cell_ok (length (styles t)) ?v" using terminal_ok_styles [OF assms(1)] by simp
  have row: "row_ok t (cursor_row t)" "cursor_x t \<le> length (cursor_row t)"
    using cursor_row_ok [OF assms(1)] assms(2) by (auto simp: at_cursor_def cursor_row_def)
  have "row_ok t (set_cell (cursor_x t) ?v (cursor_row t))" using row v by (intro row_ok_set_cell)
  moreover have "row_ok t (splice_insert (cursor_x t) ?v (cursor_row t))"
    using row(1) v by (simp add: splice_insert_def row_ok_take_drop)
  ultimately have "terminal_ok (t\<lparr>content := set_row (cursor_y t)
      (if insertMode t then splice_insert (cursor_x t) ?v (cursor_row t)
       else set_cell (cursor_x t) ?v (cursor_row t)) (content t)\<rparr>)"
    using set_row_ok [OF assms(1)] by simp
  then show ?thesis using assms(1) newLine_ok [OF assms(1)]
    by (auto simp: write_char_def split: option.split)
qed

lemma write_ok:
  assumes "terminal_ok t"
  shows "terminal_ok (write_text s t)"
proof -
  have "terminal_ok (create_rows t)"
    using assms by (auto simp: create_rows_def rows_ok intro!: terminal_ok_content)
  moreover have "cell_ok (length (styles t)) space_cell" if "terminal_ok t" for t
    using terminal_ok_styles [OF that] by (auto simp: space_cell_def)
  ultimately have "terminal_ok (create_columns (create_rows t))"
    by (auto simp: create_columns_def intro!: set_row_ok row_ok_replicate cursor_row_ok)
  then have "terminal_ok (fold write_char s (create_columns (create_rows t)))"
    using at_cursor_create [of t]
  proof (induction s arbitrary: t rule: rev_induct)
    case (snoc c s)
    then show ?case by (simp add: write_char_ok at_cursor_fold)
  qed simp
  then show ?thesis by (simp add: write_text_def)
qed

lemma sgr_ok: "terminal_ok t \<Longrightarrow> terminal_ok (snd (sgr args t))"
  by (induction args t rule: sgr.induct) (simp_all add: createStyle_ok(1) split: option.split)

lemma set_mode_ok: "terminal_ok t \<Longrightarrow> terminal_ok (snd (set_mode on args t))"
  by (induction on args t rule: set_mode.induct) simp_all

lemma eraseLine_ok:
  assumes "terminal_ok t" "at_cursor t" "eraseLine args t = Inr (x, t2)"
  shows "terminal_ok t2"
proof -
  have row: "row_ok t (content t ! cursor_y t)" using assms(1,2) by (simp add: at_cursor_def rows_ok)
  have space: "cell_ok (length (styles t)) space_cell"
    using terminal_ok_styles [OF assms(1)] by (auto simp: space_cell_def)
  note rules = update_row_ok [OF assms(1,2)] set_row_ok [OF assms(1)] row_ok_take_drop(1) [OF row]
    row_ok_fold_cells [OF row space, of 0, simplified, THEN conjunct1]
  show ?thesis
    using assms(1,3) rules by (auto simp: eraseLine_def with_row_at_cursor [OF assms(2)] Let_def split: if_splits)
qed

lemma eraseScreen_ok:
  assumes "terminal_ok t" "at_cursor t" "eraseScreen args t = Inr (x, t2)"
  shows "terminal_ok t2"
proof -
  have sub: "terminal_ok (t'\<lparr>content := rows\<rparr>)" if "terminal_ok t'" "set rows \<subseteq> set (content t')" for t' rows
    using that by (intro terminal_ok_content) (auto simp: rows_ok)
  have erased: "terminal_ok t'" if "eraseLine [n] t = Inr (v, t')" for n v t'
    using eraseLine_ok [OF assms(1,2) that] .
  show ?thesis using assms(1,3)
    by (auto simp: eraseScreen_def Let_def outcome_bind_eq_Inr
        split: if_splits intro!: sub dest: erased in_set_takeD in_set_dropD)
qed

lemma command_ok:
  assumes "terminal_ok t" "at_cursor t" "csi_command name args t = Inr (x, t2)"
  shows "terminal_ok t2"
proof -
  let ?row = "content t ! cursor_y t" and ?n = "arg_or 1 args"
  have row: "row_ok t ?row" "cursor_x t \<le> length ?row" using assms(1,2) by (auto simp: at_cursor_def rows_ok)
  have "terminal_ok (snd (sgr args t))" "terminal_ok (snd (set_mode on args t))" for on
    using assms(1) by (simp_all add: sgr_ok set_mode_ok)
  then have modes: "terminal_ok t2" if "sgr args t = (x, t2) \<or> set_mode on args t = (x, t2)" for on
    using that by (metis snd_conv)
  have delete: "row_ok t (take (cursor_x t) ?row @ drop (cursor_x t + ?n) ?row)"
    and insert: "row_ok t (take (cursor_x t) ?row @ replicate ?n (Bare (CHR '' '')) @ drop (cursor_x t) ?row)"
    using row by (simp_all add: row_ok_take_drop row_ok_replicate)
  have erase: "row_ok t (fold (\<lambda>i. set_cell (cursor_x t + i) (Cell (CHR '' '') (styleId t))) [0..<?n] ?row)"
    using row_ok_fold_cells [OF row(1) _ row(2)] terminal_ok_styles [OF assms(1)] by simp
  note rows = update_row_ok [OF assms(1,2), of "\<lambda>r. take (cursor_x t) r @ drop (cursor_x t + ?n) r", OF delete]
    update_row_ok [OF assms(1,2), of "\<lambda>r. take (cursor_x t) r @ replicate ?n (Bare (CHR '' '')) @ drop (cursor_x t) r",
      OF insert]
    update_row_ok [OF assms(1,2), of
      "fold (\<lambda>i. set_cell (cursor_x t + i) (Cell (CHR '' '') (styleId t))) [0..<?n]", OF erase]
  note moves = moveCursorUp_def moveCursorDown_def moveCursorRight_def moveCursorLeft_def
    moveCursorDownBegining_def moveCursorUpBegining_def moveCursorColumn_def moveCursorLineColumn_def
  have "f args t = Inr (x, t2) \<Longrightarrow> terminal_ok t2" if "f \<in> {eraseLine, eraseScreen}" for f
    using that eraseLine_ok [OF assms(1,2)] eraseScreen_ok [OF assms(1,2)] by blast
  moreover have "f args t = Inr (x, t2) \<Longrightarrow> terminal_ok t2" if "f \<in> {deleteChar, eraseChar, insertChar}" for f
    using that by (elim insertE emptyE) (use assms(1) rows in
      \<open>auto simp: deleteChar_def eraseChar_def insertChar_def with_row_at_cursor [OF assms(2)] split: if_splits\<close>)
  moreover have "f args t = Inr (x, t2) \<Longrightarrow> terminal_ok t2"
    if "f \<in> {moveCursorUp, moveCursorDown, moveCursorRight, moveCursorLeft, moveCursorDownBegining,
      moveCursorUpBegining, moveCursorColumn, moveCursorLineColumn}" for f
    using that by (elim insertE emptyE) (use assms(1) in \<open>auto simp: moves split: list.splits\<close>)
  ultimately show ?thesis
    using assms(1,3) modes unfolding csi_command_def by (simp split: if_splits) blast+
qed

lemma process_ok: "terminal_ok t \<Longrightarrow> terminal_ok (fst (process s t))"
proof (induction rule: process_induct)
  case (3 k a b x t t2)
  then show ?case using command_ok [of t "hd b" "command_args a" x t2] by (cases k) auto
qed (simp_all add: write_ok)

lemma show_cursor_ok:
  assumes "terminal_ok t" "at_cursor t"
  shows "terminal_ok (show_cursor t)"
proof -
  have "row_ok t (set_cell (cursor_x t) (Cell (CHR '' '') (styleId t)) (cursor_row t))"
    using assms terminal_ok_styles [OF assms(1)]
    by (intro row_ok_set_cell) (auto simp: cursor_row_def at_cursor_def rows_ok)
  then show ?thesis using assms(1) set_row_ok [OF assms(1)] by (simp add: show_cursor_def)
qed

text \<open>The terminals there can be: whatever arrives in whatever pieces, and with whatever changes of size.\<close>

inductive terminal_reachable :: "terminal \<Rightarrow> bool" where
  start: "terminal_reachable created"
| stream: "terminal_reachable t \<Longrightarrow> terminal_reachable (fst (stream_handler stream t))"
| resize: "terminal_reachable t \<Longrightarrow> terminal_reachable (handleResize charDimension entry t)"
| timeout: "terminal_reachable t \<Longrightarrow> terminal_reachable (overlay_timeout t)"

lemma terminal_reachable_ok: "terminal_reachable t \<Longrightarrow> terminal_ok t"
proof (induction rule: terminal_reachable.induct)
  case start
  show ?case by code_simp
next
  case (stream t stream)
  obtain t1 r where p: "process (foldl (@) (stream_remainder t) stream) t = (t1, r)"
    by (cases "process (foldl (@) (stream_remainder t) stream) t") auto
  have t1: "terminal_ok t1" "at_cursor t1"
    using process_ok [OF stream.IH] at_cursor_process by (metis fst_conv p)+
  have "at_cursor (t1\<lparr>stream_remainder := rest\<rparr>)" for rest using t1(2) by (simp add: at_cursor_def)
  then have "terminal_ok (show_cursor (t1\<lparr>stream_remainder := rest\<rparr>))" for rest
    using t1(1) by (intro show_cursor_ok) simp_all
  with p t1 stream.IH show ?case
    by (cases r) (simp_all add: stream_handler_def Let_def)
qed (simp_all add: handleResize_def overlay_timeout_def)

section \<open>The rendered groups\<close>

text \<open>The characters of groups, each with the style of its group.\<close>

definition styled_chars :: "(string \<times> 'a) list \<Rightarrow> (char \<times> 'a) list" where
  "styled_chars gs = concat (map (\<lambda>(s, style). map (\<lambda>c. (c, style)) s) gs)"

fun cell_style :: "cell \<Rightarrow> group_style" where
  "cell_style (Cell c s) = Style_group s"
| "cell_style cell = Undefined_group"

fun style_number :: "cell \<Rightarrow> nat" where
  "style_number (Cell c s) = s"
| "style_number cell = 0"

definition styled_row :: "terminal \<Rightarrow> cell list \<Rightarrow> (char \<times> shown_style) list" where
  "styled_row t row = map (\<lambda>cell. (glyph cell, Css (styles t ! style_number cell))) row"

definition has_bare :: "terminal \<Rightarrow> bool" where
  "has_bare t = (\<exists>row\<in>set (content t). \<exists>cell\<in>set row. cell_style cell = Undefined_group)"

lemma styled_chars_simps [simp]:
  "styled_chars [] = []" "styled_chars (g # gs) = map (\<lambda>c. (c, snd g)) (fst g) @ styled_chars gs"
  "styled_chars (gs @ hs) = styled_chars gs @ styled_chars hs"
  by (simp_all add: styled_chars_def split: prod.split)

lemma cell_parts_ok: "cell \<noteq> Hole \<Longrightarrow> cell_parts cell = Inr (glyph cell, cell_style cell)"
  by (cases cell) auto

text \<open>The style of the last group is the current one, so that the groups hold the cells in order.\<close>

lemma group_cells_groups:
  assumes "Hole \<notin> set cells" "out = [] \<and> style = No_group \<or> out \<noteq> [] \<and> snd (last out) = style"
  shows "\<exists>gs. group_cells cursor x style out cells = Inr gs \<and>
    styled_chars gs = styled_chars out @ map (\<lambda>cell. (glyph cell, cell_style cell)) cells \<and>
    snd ` set gs \<subseteq> snd ` set out \<union> {Cursor_group} \<union> cell_style ` set cells"
  using assms
proof (induction cells arbitrary: x style out)
  case (Cons cell cells)
  let ?s = "cell_style cell"
  have s: "?s \<noteq> No_group" "?s \<noteq> Cursor_group" by (cases cell; simp)+
  have parts: "cell_parts cell = Inr (glyph cell, ?s)" using Cons.prems(1) cell_parts_ok by auto
  obtain output3 where
    unfold: "group_cells cursor x style out (cell # cells) = group_cells cursor (Suc x) ?s output3 cells"
    and o3: "output3 \<noteq> []" "snd (last output3) = ?s"
    "styled_chars output3 = styled_chars out @ [(glyph cell, ?s)]"
    "snd ` set output3 \<subseteq> snd ` set out \<union> {Cursor_group, ?s}"
  proof -
    consider "cursor = Some x" | "cursor \<noteq> Some x" "?s \<noteq> style" | "cursor \<noteq> Some x" "?s = style" by blast
    then show thesis
    proof cases
      case 1
      then show thesis using that [of "out @ [([], Cursor_group), ([glyph cell], ?s)]"] s
        by (auto simp: parts add_to_last_def butlast_append)
    next
      case 2
      then show thesis using that [of "out @ [([glyph cell], ?s)]"]
        by (auto simp: parts add_to_last_def)
    next
      case 3
      then have "out \<noteq> []" "snd (last out) = style" using Cons.prems(2) s by auto
      then obtain gs g where o: "out = gs @ [(g, ?s)]" using 3 by (cases out rule: rev_cases) auto
      show thesis using 3 that [of "gs @ [(g @ [glyph cell], ?s)]"]
        by (auto simp: parts add_to_last_def o)
    qed
  qed
  obtain gs where "group_cells cursor (Suc x) ?s output3 cells = Inr gs"
    "styled_chars gs = styled_chars output3 @ map (\<lambda>cell. (glyph cell, cell_style cell)) cells"
    "snd ` set gs \<subseteq> snd ` set output3 \<union> {Cursor_group} \<union> cell_style ` set cells"
    using Cons.IH [of output3 ?s "Suc x"] Cons.prems(1) o3 by auto
  then show ?case using unfold o3 by auto
qed auto

lemma outcome_map_fails:
  assumes "\<And>x. x \<in> set xs \<Longrightarrow> f x = Inl e \<or> (\<exists>y. f x = Inr y)" "\<exists>x\<in>set xs. f x = Inl e"
  shows "outcome_map f xs = Inl e"
  using assms
proof (induction xs)
  case (Cons x xs)
  show ?case
  proof (cases "f x = Inl e")
    case False
    then obtain y where "f x = Inr y" using Cons.prems(1) [of x] by auto
    then show ?thesis using Cons by auto
  qed simp
qed simp

lemma render_group_ok:
  assumes "terminal_ok t" "row \<in> set (content t)" "snd ` set gs \<subseteq> {Cursor_group} \<union> cell_style ` set row" "g \<in> set gs"
  shows "if snd g = Undefined_group then render_group readonly t g = Inl Unreachable
    else \<exists>style. render_group readonly t g = Inr (fst g, style) \<and>
      (\<forall>s. snd g = Style_group s \<longrightarrow> style = Css (styles t ! s))"
proof -
  have "s < length (styles t)" if "snd g = Style_group s" for s
  proof -
    have "snd g \<in> {Cursor_group} \<union> cell_style ` set row" using assms(3,4) by blast
    then obtain cell where cell: "cell \<in> set row" "cell_style cell = Style_group s"
      using \<open>snd g = Style_group s\<close> by auto
    obtain c where "cell = Cell c s" using cell(2) by (cases cell) auto
    then show ?thesis using cell(1) rows_ok [OF assms(1,2)] by (auto simp: row_ok_def)
  qed
  moreover have "snd g \<noteq> No_group"
  proof
    assume "snd g = No_group"
    then have "No_group \<in> cell_style ` set row" using assms(3,4) by force
    then obtain cell where "cell_style cell = No_group" by (metis imageE)
    then show False by (cases cell) auto
  qed
  ultimately show ?thesis
    by (cases "snd g") (auto simp: render_group_def shown_style_of_def predefinedStyle_def)
qed

lemma render_line_ok:
  assumes "terminal_ok t" "y < length (content t)"
  shows "if \<exists>cell\<in>set (content t ! y). cell_style cell = Undefined_group
    then render_line readonly t y = Inl Unreachable
    else \<exists>line. render_line readonly t y = Inr line \<and> styled_chars line = styled_row t (content t ! y)"
proof -
  let ?row = "content t ! y"
  have row: "?row \<in> set (content t)" using assms(2) by simp
  have "Hole \<notin> set ?row" using rows_ok [OF assms(1) row] by (auto simp: row_ok_def)
  then obtain gs where gs: "groupByStyleId t ?row y = Inr gs"
    "styled_chars gs = map (\<lambda>cell. (glyph cell, cell_style cell)) ?row"
    "snd ` set gs \<subseteq> {Cursor_group} \<union> cell_style ` set ?row"
    using group_cells_groups [of ?row "[]" No_group "if cursor_y t = y then Some (cursor_x t) else None" 0]
    by (auto simp: groupByStyleId_def)
  note group = render_group_ok [OF assms(1) row gs(3)]
  have line: "render_line readonly t y = outcome_map (render_group readonly t) gs"
    by (simp add: render_line_def gs(1))
  show ?thesis
  proof (cases "\<exists>cell\<in>set ?row. cell_style cell = Undefined_group")
    case True
    then have "Undefined_group \<in> snd ` set (styled_chars gs)" by (force simp: gs(2) image_iff)
    then have "\<exists>g\<in>set gs. snd g = Undefined_group" by (force simp: styled_chars_def)
    then have "outcome_map (render_group readonly t) gs = Inl Unreachable"
      using group by (intro outcome_map_fails) (metis, metis)
    with True show ?thesis by (simp add: line)
  next
    case False
    then have "Undefined_group \<notin> {Cursor_group} \<union> cell_style ` set ?row" by auto
    then have "\<forall>g\<in>set gs. snd g \<noteq> Undefined_group" using gs(3) by (metis image_eqI subsetD)
    then have "\<forall>g\<in>set gs. \<exists>style. render_group readonly t g = Inr (fst g, style) \<and>
        (\<forall>s. snd g = Style_group s \<longrightarrow> style = Css (styles t ! s))"
      using group by metis
    then obtain css where css: "\<And>g. g \<in> set gs \<Longrightarrow> render_group readonly t g = Inr (fst g, css g)"
      "\<And>g s. g \<in> set gs \<Longrightarrow> snd g = Style_group s \<Longrightarrow> css g = Css (styles t ! s)"
      by metis
    let ?line = "map (\<lambda>g. (fst g, css g)) gs"
    have "outcome_map (render_group readonly t) gs = Inr ?line" using css(1) by (rule outcome_map_Inr)
    moreover have "styled_chars ?line = styled_row t ?row"
    proof -
      define F where "F = (\<lambda>(c :: char, style). (c, case style of Style_group s \<Rightarrow> Css (styles t ! s) | _ \<Rightarrow> Empty_style))"
      have chars: "map (\<lambda>c. (c, css g)) (fst g) = map F (map (\<lambda>c. (c, snd g)) (fst g))" if g: "g \<in> set gs" for g
      proof -
        have "\<exists>s. snd g = Style_group s" if "c \<in> set (fst g)" for c
        proof -
          have "(c, snd g) \<in> set (styled_chars gs)" using g that by (force simp: styled_chars_def)
          then obtain cell where "cell \<in> set ?row" "snd g = cell_style cell" using gs(2) by auto
          with False show ?thesis by (cases cell) auto
        qed
        then show ?thesis using css(2) [OF g] by (fastforce simp: F_def)
      qed
      have "styled_chars ?line = map F (styled_chars gs)"
        by (simp add: styled_chars_def map_concat comp_def case_prod_beta chars [unfolded comp_def] cong: map_cong)
      also have "\<dots> = styled_row t ?row"
      proof -
        have "F (glyph cell, cell_style cell) = (glyph cell, Css (styles t ! style_number cell))"
          if "cell \<in> set ?row" for cell
          using False that \<open>Hole \<notin> set ?row\<close> by (cases cell) (auto simp: F_def)
        then show ?thesis by (simp add: gs(2) styled_row_def)
      qed
      finally show ?thesis .
    qed
    ultimately show ?thesis using False by (simp add: line)
  qed
qed

text \<open>
  C30. The rows are rendered from the last to the first, each as its characters in order, every character in the style
  that was current when it was written, wherever the cursor is; but a terminal into which a character was inserted
  cannot be rendered: the inserted blanks have no style.
\<close>

theorem render_shows_content:
  assumes "terminal_reachable t"
  shows "if has_bare t then render readonly t = Inl Unreachable
    else \<exists>lines. render readonly t = Inr lines \<and> map styled_chars lines = rev (map (styled_row t) (content t))"
proof -
  let ?n = "length (content t)"
  have ok: "terminal_ok t" using assms by (rule terminal_reachable_ok)
  define f where "f = (\<lambda>k. render_line readonly t (?n - k - 1))"
  have line: "if \<exists>cell\<in>set (content t ! (?n - k - 1)). cell_style cell = Undefined_group then f k = Inl Unreachable
      else \<exists>line. f k = Inr line \<and> styled_chars line = styled_row t (content t ! (?n - k - 1))" if "k < ?n" for k
    unfolding f_def by (rule render_line_ok [OF ok]) (use that in simp)
  have render: "render readonly t = outcome_map f [0..<?n]" by (simp add: render_def f_def)
  show ?thesis
  proof (cases "has_bare t")
    case True
    then obtain y where y: "y < ?n" "\<exists>cell\<in>set (content t ! y). cell_style cell = Undefined_group"
      unfolding has_bare_def by (metis in_set_conv_nth)
    then have "f (?n - y - 1) = Inl Unreachable" using line [of "?n - y - 1"] by simp
    moreover have "?n - y - 1 \<in> set [0..<?n]" using y(1) by simp
    ultimately have "outcome_map f [0..<?n] = Inl Unreachable"
      using line by (intro outcome_map_fails) (metis atLeastLessThan_iff set_upt, blast)
    with True show ?thesis by (simp add: render)
  next
    case False
    have "\<exists>line. f k = Inr line \<and> styled_chars line = styled_row t (content t ! (?n - k - 1))" if "k < ?n" for k
      using line [OF that] False that by (auto simp: has_bare_def split: if_splits)
    then obtain g where g: "f k = Inr (g k)" "styled_chars (g k) = styled_row t (content t ! (?n - k - 1))"
      if "k < ?n" for k by metis
    have "outcome_map f [0..<?n] = Inr (map g [0..<?n])" using g(1) by (intro outcome_map_Inr) simp
    moreover have "map styled_chars (map g [0..<?n]) = rev (map (styled_row t) (content t))"
      by (rule nth_equalityI) (simp_all add: g(2) rev_nth)
    ultimately show ?thesis using False by (auto simp: render)
  qed
qed

definition written_terminal :: terminal where
  "written_terminal = fst (stream_handler [''ab'', [CHR 0x1B] @ ''[1mc''] created)"

theorem render_shows_content_witness:
  "\<not> has_bare written_terminal \<and> (\<exists>lines. render False written_terminal = Inr lines \<and>
     map styled_chars lines = rev (map (styled_row written_terminal) (content written_terminal)))"
proof -
  have "terminal_reachable written_terminal"
    unfolding written_terminal_def by (intro terminal_reachable.intros)
  note shown = render_shows_content [OF this, of False]
  have "\<not> has_bare written_terminal" by code_simp
  with shown show ?thesis by simp
qed

text \<open>
  A supported list of attributes is registered under its own style string and no style changes its number. Without
  arguments the style stays as it is, \<open>49\<close> sets the colour of the text, and what is erased below the cursor includes
  the part of its row before it.
\<close>

fun sgr_arguments :: "nat list \<Rightarrow> terminal_style \<Rightarrow> terminal_style option" where
  "sgr_arguments [] s = Some s"
| "sgr_arguments (a # args) s = Option.bind (sgr_argument a s) (sgr_arguments args)"

lemma sgr_registers_style:
  assumes "terminal_ok t" "sgr_arguments args (terminalStyle t) = Some s"
  shows "\<exists>t2. sgr args t = (True, t2) \<and> terminal_ok t2 \<and> terminalStyle t2 = s \<and>
    styles t2 ! styleId t2 = style_css s \<and> prefix (styles t) (styles t2)"
  using assms
proof (induction args arbitrary: t)
  case Nil
  have "terminalStyle (createStyle t) = terminalStyle t" by (simp add: createStyle_def Let_def)
  then show ?case using Nil createStyle_ok [OF Nil(1)] by auto
next
  case (Cons a args)
  then obtain s1 where "sgr_argument a (terminalStyle t) = Some s1" "sgr_arguments args s1 = Some s"
    by (auto simp: bind_eq_Some_conv)
  then show ?case using Cons.IH [of "t\<lparr>terminalStyle := s1\<rparr>"] Cons.prems(1) by simp
qed

lemma sgr_divergences:
  "sgr_arguments [] s = Some s"
  "sgr_argument 49 s = Some (s\<lparr>colorText := ''var(--background-color)''\<rparr>)"
  "style_css (s\<lparr>display_mode := ''none''\<rparr>) = style_css s"
  by (simp_all add: sgr_argument_def style_css_def)

lemma split_escape_is_text:
  "parse ([CHR 0x1B] @ ''[1m'') = ([Text [], Command Csi ''1'' ''m'', Text []], [])"
  "parse [CHR 0x1B] = ([Text [CHR 0x1B]], [])"
  by code_simp+

end
