(* ===== verification/Scopes.thy ===== *)
theory Scopes
  imports Json
begin

text \<open>
  \<open>nodejs/core/authentication/scopes.js\<close>: what a session may do is a list of scopes, which are paths; a scope
  allows itself and everything below it. With the roles of \<open>apps/accounts/backend/users/{roles,scopes}.js\<close>.
  A result with an error is \<open>False\<close>, its message is not modelled.
\<close>

section \<open>Scopes\<close>

text \<open>\<open>scope.trim()\<close> is not empty when a character is no white space.\<close>

definition is_space :: "char \<Rightarrow> bool" where
  "is_space c = (c \<in> {CHR 0x09, CHR 0x0A, CHR 0x0B, CHR 0x0C, CHR 0x0D, CHR '' '', CHR 0xA0})"

definition not_blank :: "string \<Rightarrow> bool" where
  "not_blank s = list_ex (\<lambda>c. \<not> is_space c) s"

text \<open>The constructor: a \<open>Set\<close> keeps the first of equal values, in order.\<close>

definition set_values :: "'a list \<Rightarrow> 'a list" where
  "set_values xs = rev (remdups (rev xs))"

definition Scopes :: "string list \<Rightarrow> string list" where
  "Scopes scopes = filter not_blank (set_values scopes)"

definition allows :: "string \<Rightarrow> string \<Rightarrow> bool" where
  "allows object_scope scope =
     (prefix object_scope scope \<and>
      ((object_scope \<noteq> [] \<and> last object_scope = CHR ''/'') \<or>
       length scope = length object_scope \<or> scope ! length object_scope = CHR ''/''))"

definition contains_scope :: "string list \<Rightarrow> string \<Rightarrow> bool" where
  "contains_scope list scope = list_ex (\<lambda>object_scope. allows object_scope scope) list"

definition matchAny :: "string list \<Rightarrow> string list \<Rightarrow> bool" where
  "matchAny list scopes = list_ex (contains_scope list) scopes"

definition sameAs :: "string list \<Rightarrow> string list \<Rightarrow> bool" where
  "sameAs list scopes =
     (length (Scopes scopes) = length list \<and> list_all (\<lambda>scope. scope \<in> set list) (Scopes scopes))"

definition filterDictionary :: "string list \<Rightarrow> (string \<times> 'v) list \<Rightarrow> (string \<times> string list) list \<Rightarrow>
    (string \<times> 'v option) list" where
  "filterDictionary list data keyScopesMap =
     map (\<lambda>(key, scopes). (key, map_of data key)) (filter (\<lambda>(key, scopes). matchAny list scopes) keyScopesMap)"

text \<open>The keys that only the map has are not looked at.\<close>

definition checkDictionary :: "string list \<Rightarrow> (string \<times> 'v) list \<Rightarrow> (string \<times> string list) list \<Rightarrow> bool" where
  "checkDictionary list data keyScopesMap =
     list_all (\<lambda>(key, _). case map_of keyScopesMap key of None \<Rightarrow> False | Some scopes \<Rightarrow> matchAny list scopes) data"

definition checkValid :: "string list \<Rightarrow> string list \<Rightarrow> bool" where
  "checkValid list scopes = list_all (contains_scope list) scopes"

section \<open>Roles\<close>

definition allScopes :: "string list" where
  "allScopes = Scopes [''/'', ''/users'', ''/applications'', ''/self/basic/r'', ''/self/basic/w'', ''/self/roles/r'',
     ''/self/roles/w'', ''/self/tokens/r'', ''/self/tokens/w'', ''/self/subscriptions/r'', ''/self/subscriptions/w'']"

definition rolesScopesMap :: "(string \<times> string list) list" where
  "rolesScopesMap =
     [(''admin'', [''/'']),
      (''user'', [''/self/basic/r'', ''/self/basic/w'', ''/self/subscriptions/r'', ''/self/subscriptions/cancel''])]"

definition role_isValid :: "string \<Rightarrow> bool" where
  "role_isValid role = (role \<in> fst ` set rolesScopesMap)"

definition roles_getScopes :: "string list \<Rightarrow> string list outcome" where
  "roles_getScopes roles =
     (if list_all role_isValid roles
      then Inr (Scopes (concat (map (\<lambda>role. the (map_of rolesScopesMap role)) roles)))
      else Inl AssertFailed)"

section \<open>Scopes allow what is below them\<close>

lemma set_set_values [simp]: "set (set_values xs) = set xs"
  by (simp add: set_values_def)

lemma distinct_set_values [simp]: "distinct (set_values xs)"
  by (simp add: set_values_def)

lemma set_Scopes [simp]: "set (Scopes xs) = {s \<in> set xs. not_blank s}"
  by (auto simp: Scopes_def)

lemma Scopes_idem [simp]: "Scopes (Scopes xs) = Scopes xs"
proof -
  have "set_values ys = ys" if "distinct ys" for ys :: "string list"
    using that by (simp add: set_values_def distinct_remdups_id)
  then show ?thesis by (simp add: Scopes_def)
qed

text \<open>A scope without a trailing slash is a prefix that ends at a slash: the same set of paths below it.\<close>

lemma allows_refl [simp]: "allows s s"
  by (simp add: allows_def)

lemma allows_trans:
  assumes "allows a b" "allows b c"
  shows "allows a c"
proof -
  have pre: "prefix a b" "prefix b c" using assms by (simp_all add: allows_def)
  then have "prefix a c" by (rule prefix_order.trans)
  moreover have "a \<noteq> [] \<and> last a = CHR ''/'' \<or> length c = length a \<or> c ! length a = CHR ''/''"
  proof (cases "length b = length a")
    case True
    then have "b = a" using pre(1) by (auto simp: prefix_def)
    then show ?thesis using assms(2) by (simp add: allows_def)
  next
    case False
    then have "length a < length b" using prefix_length_le [OF pre(1)] by simp
    then have "c ! length a = b ! length a" using pre(2) by (auto simp: prefix_def nth_append)
    then show ?thesis using assms(1) False by (auto simp: allows_def)
  qed
  ultimately show ?thesis by (simp add: allows_def)
qed

lemma contains_scope_iff: "contains_scope list scope = (\<exists>s\<in>set list. allows s scope)"
  by (simp add: contains_scope_def list_ex_iff)

lemma contains_scope_mono: "set xs \<subseteq> set ys \<Longrightarrow> contains_scope xs s \<Longrightarrow> contains_scope ys s"
  by (auto simp: contains_scope_iff)

lemma checkValid_iff: "checkValid list scopes = (\<forall>s\<in>set scopes. contains_scope list s)"
  by (simp add: checkValid_def list_all_iff)

lemma checkValid_contains: "checkValid list scopes \<Longrightarrow> contains_scope scopes s \<Longrightarrow> contains_scope list s"
  unfolding checkValid_iff contains_scope_iff by (meson allows_trans)

lemma checkValid_trans: "checkValid a b \<Longrightarrow> checkValid b c \<Longrightarrow> checkValid a c"
  by (auto simp: checkValid_iff dest: checkValid_contains [unfolded checkValid_iff])

lemma checkValid_Scopes: "checkValid list scopes \<Longrightarrow> checkValid list (Scopes scopes)"
  by (simp add: checkValid_iff)

lemma checkValid_subset: "set ys \<subseteq> set xs \<Longrightarrow> checkValid list xs \<Longrightarrow> checkValid list ys"
  by (auto simp: checkValid_iff)

lemma checkValid_mono: "set xs \<subseteq> set ys \<Longrightarrow> checkValid xs scopes \<Longrightarrow> checkValid ys scopes"
  by (auto simp: checkValid_iff intro: contains_scope_mono)

lemma checkValid_self: "set ys \<subseteq> set xs \<Longrightarrow> checkValid xs ys"
  by (auto simp: checkValid_iff contains_scope_iff intro: allows_refl)

lemma sameAs_set: "distinct list \<Longrightarrow> sameAs list scopes \<Longrightarrow> set (Scopes scopes) = set list"
proof -
  assume "distinct list" "sameAs list scopes"
  moreover have "distinct (Scopes scopes)" by (simp add: Scopes_def)
  ultimately have "set (Scopes scopes) \<subseteq> set list" "card (set (Scopes scopes)) = card (set list)"
    unfolding sameAs_def list_all_iff by (blast, metis distinct_card)
  then show ?thesis by (simp add: card_subset_eq)
qed

end
