(* ===== verification/Users.thy ===== *)
theory Users
  imports Scopes
begin

text \<open>
  The users of \<open>apps/accounts/backend\<close>: subscriptions (\<open>users/subscription.js\<close>), tokens (\<open>users/token.js\<close>), a user
  (\<open>users/user.js\<close>) and the bucket of the users (\<open>users/users.js\<close>). Times are in milliseconds, \<open>now\<close> is
  \<open>Date.now()\<close>. A property that may be missing is an option. The list \<open>modified\<close> of a user is only logged.

  The functions of the cryptographic libraries are the record \<open>crypto\<close>: the hashes of \<open>bcrypt\<close> (with its random
  salt) and their comparison, \<open>sha256\<close>, and the identifier of an email address (\<open>shake256\<close>).

  The bucket is one of a database, whose values are serialised. The store in memory copies only the first level of
  an object and the one on disk nothing of it, so that there a change that fails half way stays in nested objects.
\<close>

record crypto =
  bcrypt_hash :: "string \<Rightarrow> string \<Rightarrow> string"
  bcrypt_compare :: "string \<Rightarrow> string \<Rightarrow> bool"
  sha256 :: "string \<Rightarrow> string"
  emailToUid :: "string \<Rightarrow> string"

section \<open>Subscriptions\<close>

record subscription =
  sub_end :: "int option"
  sub_duration :: "int option"
  sub_recurring :: "(string \<times> int) list option"

text \<open>The constructor: either an end or a duration.\<close>

definition Subscription :: "subscription \<Rightarrow> subscription outcome" where
  "Subscription s = (if (sub_end s \<noteq> None) \<noteq> (sub_duration s \<noteq> None) then Inr s else Inl AssertFailed)"

definition makeFromTimestamp :: "int \<Rightarrow> subscription" where
  "makeFromTimestamp timestampMs = \<lparr>sub_end = Some timestampMs, sub_duration = None, sub_recurring = None\<rparr>"

definition makeFromDuration :: "int \<Rightarrow> subscription" where
  "makeFromDuration durationMs = \<lparr>sub_end = None, sub_duration = Some durationMs, sub_recurring = None\<rparr>"

definition isStarted :: "subscription \<Rightarrow> bool" where
  "isStarted s = (sub_end s \<noteq> None)"

definition getDuration :: "int \<Rightarrow> subscription \<Rightarrow> int" where
  "getDuration now s = (case sub_end s of Some e \<Rightarrow> max (e - now) 0 | None \<Rightarrow> the (sub_duration s))"

definition isExpired :: "int \<Rightarrow> subscription \<Rightarrow> bool" where
  "isExpired now s = (getDuration now s = 0)"

definition isActive :: "int \<Rightarrow> subscription \<Rightarrow> bool" where
  "isActive now s = (isStarted s \<and> \<not> isExpired now s)"

definition sub_start :: "int \<Rightarrow> subscription \<Rightarrow> subscription" where
  "sub_start now s =
     (if isStarted s then s else s\<lparr>sub_end := Some (now + the (sub_duration s)), sub_duration := None\<rparr>)"

definition sub_stop :: "int \<Rightarrow> subscription \<Rightarrow> subscription" where
  "sub_stop now s = (if isStarted s then s\<lparr>sub_duration := Some (getDuration now s), sub_end := None\<rparr> else s)"

definition getRecurring :: "subscription \<Rightarrow> (string \<times> int) list" where
  "getRecurring s = (case sub_recurring s of None \<Rightarrow> [] | Some r \<Rightarrow> r)"

definition sub_sanitize :: "int \<Rightarrow> subscription \<Rightarrow> subscription" where
  "sub_sanitize now s = s\<lparr>sub_recurring := Some (filter (\<lambda>(uid, endMs). endMs > now) (getRecurring s))\<rparr>"

definition sub_add :: "int \<Rightarrow> subscription \<Rightarrow> subscription \<Rightarrow> subscription" where
  "sub_add now other s =
     (let s1 = (case sub_end s of
                  Some e \<Rightarrow> s\<lparr>sub_end := Some (e + getDuration now other)\<rparr>
                | None \<Rightarrow> s\<lparr>sub_duration := Some (the (sub_duration s) + getDuration now other)\<rparr>);
          recurring = fold (\<lambda>(uid, endMs). AList.update uid endMs) (getRecurring other) (getRecurring s1)
      in sub_sanitize now (s1\<lparr>sub_recurring := Some recurring\<rparr>))"

definition addRecurring :: "string \<Rightarrow> int \<Rightarrow> subscription \<Rightarrow> subscription" where
  "addRecurring uid endMs s = s\<lparr>sub_recurring := Some (AList.update uid endMs (getRecurring s))\<rparr>"

definition stopRecurring :: "string \<Rightarrow> subscription \<Rightarrow> subscription \<times> bool" where
  "stopRecurring uid s =
     (if map_of (getRecurring s) uid \<noteq> None
      then (s\<lparr>sub_recurring := Some (AList.delete uid (getRecurring s))\<rparr>, True) else (s, False))"

section \<open>Tokens\<close>

record token =
  tok_identifier :: "string option"
  tok_scopes :: "string list option"
  tok_creation :: "int option"
  tok_expiration :: "int option"
  tok_rolling :: "bool option"

definition TokenInfo :: "token \<Rightarrow> token outcome" where
  "TokenInfo t = (if tok_expiration t \<noteq> None then Inr t else Inl AssertFailed)"

definition token_make :: "int \<Rightarrow> string option \<Rightarrow> string list \<Rightarrow> int \<Rightarrow> bool \<Rightarrow> token" where
  "token_make now identifier scopes timeoutS rolling =
     \<lparr>tok_identifier = identifier, tok_scopes = Some scopes, tok_creation = Some now,
      tok_expiration = Some (now + timeoutS * 1000), tok_rolling = Some rolling\<rparr>"

definition isRolling :: "token \<Rightarrow> bool" where
  "isRolling t = (tok_rolling t = Some True)"

definition token_expiration :: "token \<Rightarrow> int" where
  "token_expiration t = the (tok_expiration t)"

text \<open>The duration in seconds is a fraction; here it is compared in milliseconds.\<close>

definition token_durationMs :: "int \<Rightarrow> token \<Rightarrow> int" where
  "token_durationMs now t = max (token_expiration t - now) 0"

definition updateMinDuration :: "int \<Rightarrow> int \<Rightarrow> token \<Rightarrow> token" where
  "updateMinDuration now minDuration t =
     (if token_durationMs now t < minDuration * 1000 then t\<lparr>tok_expiration := Some (now + minDuration * 1000)\<rparr> else t)"

definition token_isExpired :: "int \<Rightarrow> token \<Rightarrow> bool" where
  "token_isExpired now t = (now > token_expiration t)"

definition token_getScopes :: "token \<Rightarrow> string list" where
  "token_getScopes t = Scopes (case tok_scopes t of None \<Rightarrow> [] | Some s \<Rightarrow> s)"

section \<open>A user\<close>

record user =
  u_creation :: int
  u_email :: string
  u_password :: "string option"
  u_last_login :: int
  u_last_failed_login :: int
  u_last_password_reset :: int
  u_password_reset :: "(string \<times> int) option"
  u_roles :: "string list"
  u_payments :: "string list"
  u_subscriptions :: "(string \<times> subscription) list"
  u_tokens :: "(string \<times> token) list option"

definition user_create :: "int \<Rightarrow> string \<Rightarrow> user" where
  "user_create now email =
     \<lparr>u_creation = now, u_email = email, u_password = None, u_last_login = 0, u_last_failed_login = 0,
      u_last_password_reset = 0, u_password_reset = None, u_roles = [], u_payments = [], u_subscriptions = [],
      u_tokens = None\<rparr>"

definition setPassword :: "crypto \<Rightarrow> string \<Rightarrow> string \<Rightarrow> user \<Rightarrow> user" where
  "setPassword c salt password u = u\<lparr>u_password := Some (bcrypt_hash c salt password)\<rparr>"

text \<open>A missing or empty hash, and an empty password, never match.\<close>

definition isPasswordEqual :: "crypto \<Rightarrow> string \<Rightarrow> user \<Rightarrow> bool" where
  "isPasswordEqual c password u =
     (case u_password u of
        None \<Rightarrow> False
      | Some hash \<Rightarrow> hash \<noteq> [] \<and> password \<noteq> [] \<and> bcrypt_compare c hash password)"

definition setPasswordResetToken :: "crypto \<Rightarrow> int \<Rightarrow> string \<Rightarrow> int \<Rightarrow> user \<Rightarrow> user" where
  "setPasswordResetToken c now token durationMs u =
     u\<lparr>u_password_reset := Some (sha256 c token, now + durationMs), u_last_password_reset := now\<rparr>"

definition checkPasswordResetToken :: "crypto \<Rightarrow> int \<Rightarrow> string \<Rightarrow> user \<Rightarrow> bool" where
  "checkPasswordResetToken c now token u =
     (case u_password_reset u of
        None \<Rightarrow> False
      | Some (hash, expiration) \<Rightarrow> token \<noteq> [] \<and> \<not> expiration < now \<and> hash = sha256 c token)"

definition clearPasswordResetToken :: "user \<Rightarrow> user" where
  "clearPasswordResetToken u = u\<lparr>u_password_reset := None\<rparr>"

definition user_getScopes :: "user \<Rightarrow> string list outcome" where
  "user_getScopes u = roles_getScopes (u_roles u)"

definition addRole :: "string \<Rightarrow> user \<Rightarrow> user outcome" where
  "addRole role u =
     (if \<not> role_isValid role then Inl AssertFailed
      else Inr (if role \<in> set (u_roles u) then u else u\<lparr>u_roles := u_roles u @ [role]\<rparr>))"

fun addRoles :: "string list \<Rightarrow> user \<Rightarrow> user outcome" where
  "addRoles [] u = Inr u"
| "addRoles (role # roles) u = outcome_bind (addRole role u) (addRoles roles)"

definition setRoles :: "string list \<Rightarrow> user \<Rightarrow> user outcome" where
  "setRoles roles u = addRoles roles (u\<lparr>u_roles := []\<rparr>)"

definition registerPayment :: "string \<Rightarrow> user \<Rightarrow> user outcome" where
  "registerPayment uid u =
     (if uid \<in> set (u_payments u) then Inl AssertFailed else Inr (u\<lparr>u_payments := u_payments u @ [uid]\<rparr>))"

text \<open>An inherited name finds a function, which is neither started nor has a duration: the constructor fails.\<close>

definition getSubscription :: "string \<Rightarrow> user \<Rightarrow> subscription option outcome" where
  "getSubscription application u =
     (case map_of (u_subscriptions u) application of
        None \<Rightarrow> if application \<in> set inherited_names then Inl AssertFailed else Inr None
      | Some s \<Rightarrow> outcome_bind (Subscription s) (\<lambda>s. Inr (Some s)))"

definition addSubscription :: "int \<Rightarrow> string \<Rightarrow> subscription \<Rightarrow> user \<Rightarrow> user outcome" where
  "addSubscription now application s u =
     (case map_of (u_subscriptions u) application of
        Some original \<Rightarrow>
          outcome_bind (Subscription original) (\<lambda>original.
            Inr (u\<lparr>u_subscriptions := AList.update application (sub_add now s original) (u_subscriptions u)\<rparr>))
      | None \<Rightarrow>
          if application \<in> set inherited_names then Inl AssertFailed
          else Inr (u\<lparr>u_subscriptions := AList.update application s (u_subscriptions u)\<rparr>))"

text \<open>Every application is added once to a new user, whose subscriptions replace those of this one.\<close>

fun addSubscriptions :: "int \<Rightarrow> (string \<times> subscription) list \<Rightarrow> user \<Rightarrow> user outcome" where
  "addSubscriptions now [] u = Inr u"
| "addSubscriptions now ((application, data) # subscriptions) u =
     outcome_bind (Subscription data) (\<lambda>s.
     outcome_bind (addSubscription now application s u) (addSubscriptions now subscriptions))"

definition setSubscriptions :: "int \<Rightarrow> (string \<times> subscription) list \<Rightarrow> user \<Rightarrow> user outcome" where
  "setSubscriptions now subscriptions u =
     outcome_bind (addSubscriptions now subscriptions (user_create now ''dummy@dummy.com''))
       (\<lambda>dummy. Inr (u\<lparr>u_subscriptions := u_subscriptions dummy\<rparr>))"

definition startSubscription :: "int \<Rightarrow> string \<Rightarrow> user \<Rightarrow> user outcome" where
  "startSubscription now application u =
     outcome_bind (getSubscription application u) (\<lambda>s.
       case s of
         None \<Rightarrow> Inl AssertFailed
       | Some s \<Rightarrow> Inr (u\<lparr>u_subscriptions := AList.update application (sub_start now s) (u_subscriptions u)\<rparr>))"

fun stop_recurring_all :: "string \<Rightarrow> (string \<times> subscription) list \<Rightarrow> (string \<times> subscription) list outcome" where
  "stop_recurring_all uid [] = Inr []"
| "stop_recurring_all uid ((application, data) # subscriptions) =
     outcome_bind (Subscription data) (\<lambda>s.
     outcome_bind (stop_recurring_all uid subscriptions) (\<lambda>rest. Inr ((application, fst (stopRecurring uid s)) # rest)))"

definition stopRecurringSubscription :: "string \<Rightarrow> user \<Rightarrow> user outcome" where
  "stopRecurringSubscription uid u =
     outcome_bind (stop_recurring_all uid (u_subscriptions u)) (\<lambda>subs. Inr (u\<lparr>u_subscriptions := subs\<rparr>))"

section \<open>The tokens of a user\<close>

definition getTokens :: "user \<Rightarrow> (string \<times> token) list" where
  "getTokens u = (case u_tokens u of None \<Rightarrow> [] | Some ts \<Rightarrow> ts)"

text \<open>
  \<open>getToken(hash, null)\<close>. The hash comes from a request: the name of an inherited property is found as well, and
  what it is has no expiration.
\<close>

definition getToken :: "string \<Rightarrow> user \<Rightarrow> token option outcome" where
  "getToken hash u =
     (case u_tokens u of
        None \<Rightarrow> Inr None
      | Some ts \<Rightarrow>
          (case map_of ts hash of
             Some t \<Rightarrow> outcome_bind (TokenInfo t) (\<lambda>t. Inr (Some t))
           | None \<Rightarrow> if hash \<in> set inherited_names then Inl AssertFailed else Inr None))"

text \<open>\<open>hash in this.value.tokens\<close>\<close>

definition has_token :: "string \<Rightarrow> (string \<times> token) list \<Rightarrow> bool" where
  "has_token hash ts = (map_of ts hash \<noteq> None \<or> hash \<in> set inherited_names)"

definition addToken :: "string \<Rightarrow> token \<Rightarrow> user \<Rightarrow> user outcome" where
  "addToken hash t u =
     (if has_token hash (getTokens u) then Inl AssertFailed
      else outcome_bind (user_getScopes u) (\<lambda>scopes.
        if checkValid scopes (token_getScopes t)
        then Inr (u\<lparr>u_tokens := Some (AList.update hash t (getTokens u))\<rparr>) else Inl AssertFailed))"

fun addTokens :: "(string \<times> token) list \<Rightarrow> user \<Rightarrow> user outcome" where
  "addTokens [] u = Inr u"
| "addTokens ((hash, data) # tokens) u =
     outcome_bind (TokenInfo data) (\<lambda>t. outcome_bind (addToken hash t u) (addTokens tokens))"

definition setTokens :: "int \<Rightarrow> (string \<times> token) list \<Rightarrow> user \<Rightarrow> user outcome" where
  "setTokens now tokens u =
     outcome_bind (addTokens tokens ((user_create now ''dummy@dummy.com'')\<lparr>u_roles := u_roles u\<rparr>))
       (\<lambda>dummy. Inr (u\<lparr>u_tokens := Some (getTokens dummy)\<rparr>))"

definition removeToken :: "string \<Rightarrow> user \<Rightarrow> user outcome" where
  "removeToken hash u =
     (case u_tokens u of
        None \<Rightarrow> Inr u
      | Some ts \<Rightarrow>
          (if \<not> has_token hash ts then Inr u
           else outcome_bind (getToken hash u) (\<lambda>t.
             case t of
               None \<Rightarrow> Inl AssertFailed
             | Some _ \<Rightarrow> Inr (u\<lparr>u_tokens := Some (AList.delete hash ts)\<rparr>))))"

definition sanitizedTokens :: "int \<Rightarrow> user \<Rightarrow> user outcome" where
  "sanitizedTokens now u =
     outcome_bind (outcome_map (\<lambda>(hash, data). TokenInfo data) (getTokens u)) (\<lambda>_.
       Inr (u\<lparr>u_tokens := Some (filter (\<lambda>(hash, t). \<not> token_isExpired now t) (getTokens u))\<rparr>))"

definition rollToken :: "string \<Rightarrow> string \<Rightarrow> (token \<Rightarrow> token) \<Rightarrow> user \<Rightarrow> (user \<times> token) outcome" where
  "rollToken hash newHash change u =
     outcome_bind (getToken hash u) (\<lambda>t.
       case t of
         None \<Rightarrow> Inl AssertFailed
       | Some t \<Rightarrow>
           outcome_bind (getToken newHash u) (\<lambda>other.
             if other \<noteq> None then Inl AssertFailed
             else Inr (u\<lparr>u_tokens := Some (AList.update newHash (change t) (AList.delete hash (getTokens u)))\<rparr>,
                       change t)))"

section \<open>The bucket of the users\<close>

type_synonym users = "(string \<times> user) list"

definition users_get :: "string \<Rightarrow> users \<Rightarrow> user outcome" where
  "users_get uid us = (case map_of us uid of None \<Rightarrow> Inl PreconditionFailed | Some u \<Rightarrow> Inr u)"

definition users_create :: "crypto \<Rightarrow> int \<Rightarrow> string \<Rightarrow> users \<Rightarrow> users \<times> string outcome" where
  "users_create c now email us =
     (let uid = emailToUid c email
      in if map_of us uid \<noteq> None then (us, Inl PreconditionFailed)
         else (AList.update uid (user_create now email) us, Inr uid))"

text \<open>\<open>update\<close>: a modifier that throws leaves the bucket as it was.\<close>

definition users_update :: "string \<Rightarrow> (user \<Rightarrow> (user \<times> 'r) outcome) \<Rightarrow> users \<Rightarrow> users \<times> 'r outcome" where
  "users_update uid modifier us =
     (case map_of us uid of
        None \<Rightarrow> (us, Inl PreconditionFailed)
      | Some u \<Rightarrow>
          (case modifier u of
             Inl e \<Rightarrow> (us, Inl e)
           | Inr (u', r) \<Rightarrow> (AList.update uid u' us, Inr r)))"

abbreviation users_change :: "string \<Rightarrow> (user \<Rightarrow> user outcome) \<Rightarrow> users \<Rightarrow> users \<times> unit outcome" where
  "users_change uid f \<equiv> users_update uid (\<lambda>u. outcome_bind (f u) (\<lambda>u'. Inr (u', ())))"

definition users_delete :: "string \<Rightarrow> users \<Rightarrow> users" where
  "users_delete uid us = AList.delete uid us"

definition deleteWithPassword :: "crypto \<Rightarrow> string \<Rightarrow> string \<Rightarrow> users \<Rightarrow> users \<times> unit outcome" where
  "deleteWithPassword c uid password us =
     (case users_get uid us of
        Inl e \<Rightarrow> (us, Inl e)
      | Inr u \<Rightarrow>
          if isPasswordEqual c password u then (users_delete uid us, Inr ()) else (us, Inl PreconditionFailed))"

text \<open>
  What a request may change: the administrator roles and subscriptions, a user the password, with the old one, and
  the tokens. A request is the values it has of these; other keys are rejected.
\<close>

record admin_values =
  v_roles :: "string list option"
  v_subscriptions :: "(string \<times> subscription) list option"

record public_values =
  v_password :: "string option"
  v_oldpassword :: "string option"
  v_tokens :: "(string \<times> token) list option"

definition mergeAdmin :: "int \<Rightarrow> admin_values \<Rightarrow> user \<Rightarrow> user outcome" where
  "mergeAdmin now v u =
     outcome_bind (case v_roles v of None \<Rightarrow> Inr u | Some roles \<Rightarrow> setRoles roles u) (\<lambda>u.
       case v_subscriptions v of None \<Rightarrow> Inr u | Some subs \<Rightarrow> setSubscriptions now subs u)"

definition mergePublic :: "crypto \<Rightarrow> int \<Rightarrow> string \<Rightarrow> public_values \<Rightarrow> user \<Rightarrow> user outcome" where
  "mergePublic c now salt v u =
     outcome_bind
       (case v_password v of
          None \<Rightarrow> Inr u
        | Some password \<Rightarrow>
            (case v_oldpassword v of
               None \<Rightarrow> Inl PreconditionFailed
             | Some old \<Rightarrow>
                 if isPasswordEqual c old u then Inr (setPassword c salt password u) else Inl PreconditionFailed))
       (\<lambda>u. case v_tokens v of None \<Rightarrow> Inr u | Some tokens \<Rightarrow> setTokens now tokens u)"

section \<open>What the operations keep\<close>

lemma user_getScopes_roles: "u_roles u = u_roles v \<Longrightarrow> user_getScopes u = user_getScopes v"
  by (simp add: user_getScopes_def)

text \<open>The scopes of every token of a user are such that.\<close>

definition tokens_within :: "(string list \<Rightarrow> bool) \<Rightarrow> user \<Rightarrow> bool" where
  "tokens_within P u = (\<forall>t\<in>snd ` set (getTokens u). P (token_getScopes t))"

text \<open>All that the roles of a user allow is such.\<close>

definition roles_within :: "(string list \<Rightarrow> bool) \<Rightarrow> user \<Rightarrow> bool" where
  "roles_within P u = (\<forall>scopes sc. user_getScopes u = Inr scopes \<longrightarrow> checkValid scopes sc \<longrightarrow> P sc)"

lemma roles_within_same: "u_roles u' = u_roles u \<Longrightarrow> roles_within P u \<Longrightarrow> roles_within P u'"
  using user_getScopes_roles [of u' u] by (simp add: roles_within_def)

lemma tokens_within_same: "u_tokens u' = u_tokens u \<Longrightarrow> tokens_within P u' = tokens_within P u"
  by (simp add: tokens_within_def getTokens_def)

lemma tokens_within_none: "u_tokens u = None \<Longrightarrow> tokens_within P u"
  by (simp add: tokens_within_def getTokens_def)

lemma tokens_within_mono: "tokens_within P u \<Longrightarrow> (\<And>sc. P sc \<Longrightarrow> Q sc) \<Longrightarrow> tokens_within Q u"
  by (auto simp: tokens_within_def)

lemma tokens_within_getToken:
  "tokens_within P u \<Longrightarrow> getToken hash u = Inr (Some t) \<Longrightarrow> P (token_getScopes t)"
  by (force simp: tokens_within_def getToken_def getTokens_def TokenInfo_def split: option.splits if_splits
      dest: map_of_SomeD)

lemma getTokens_set [simp]: "getTokens (u\<lparr>u_tokens := Some ts\<rparr>) = ts"
  by (simp add: getTokens_def)

lemma delete_subset: "set (AList.delete k m) \<subseteq> set m"
  by (auto simp: AList.delete_eq)

lemma tokens_within_subset:
  "tokens_within P u \<Longrightarrow> set ts \<subseteq> set (getTokens u) \<Longrightarrow> tokens_within P (u\<lparr>u_tokens := Some ts\<rparr>)"
  by (auto simp: tokens_within_def)

lemma AList_update_snd: "snd ` set (AList.update k v m) \<subseteq> insert v (snd ` set m)"
  using set_update_subset [of k v m] by auto

lemma tokens_within_replace:
  assumes "tokens_within P u" "P (token_getScopes t)" "snd ` set ts \<subseteq> insert t (snd ` set (getTokens u))"
  shows "tokens_within P (u\<lparr>u_tokens := Some ts\<rparr>)"
  unfolding tokens_within_def
proof
  fix t' assume "t' \<in> snd ` set (getTokens (u\<lparr>u_tokens := Some ts\<rparr>))"
  then have "t' \<in> insert t (snd ` set (getTokens u))" using assms(3) by auto
  then show "P (token_getScopes t')" using assms(1,2) by (metis insertE tokens_within_def)
qed

lemma addToken_within:
  assumes "addToken hash t u = Inr u'" "tokens_within P u" "roles_within P u"
  shows "tokens_within P u' \<and> u_roles u' = u_roles u"
proof -
  obtain scopes where sc: "user_getScopes u = Inr scopes" "checkValid scopes (token_getScopes t)"
    and u': "u' = u\<lparr>u_tokens := Some (AList.update hash t (getTokens u))\<rparr>"
    using assms(1) by (auto simp: addToken_def outcome_bind_eq_Inr split: if_splits)
  then have "P (token_getScopes t)" using assms(3) by (auto simp: roles_within_def)
  from tokens_within_replace [OF assms(2) this AList_update_snd] show ?thesis by (simp add: u')
qed

lemma addTokens_within:
  assumes "addTokens tokens u = Inr u'" "tokens_within P u" "roles_within P u"
  shows "tokens_within P u' \<and> u_roles u' = u_roles u"
  using assms
proof (induction tokens u rule: addTokens.induct)
  case (2 hash data tokens u)
  then obtain u1 where u1: "addToken hash data u = Inr u1" "addTokens tokens u1 = Inr u'"
    by (auto simp: TokenInfo_def outcome_bind_eq_Inr split: if_splits)
  then have w: "tokens_within P u1" "u_roles u1 = u_roles u" using addToken_within [OF u1(1)] 2 by auto
  show ?case using 2(1) [OF u1(2) w(1)] roles_within_same [OF w(2) 2(4)] w(2) by simp
qed simp

text \<open>Setting the tokens of a user gives none of them more than the roles of the user have.\<close>

lemma setTokens_within:
  assumes "setTokens now tokens u = Inr u'" "roles_within P u"
  shows "tokens_within P u' \<and> u_roles u' = u_roles u"
proof -
  let ?d = "(user_create now ''dummy@dummy.com'')\<lparr>u_roles := u_roles u\<rparr>"
  obtain dummy where d: "addTokens tokens ?d = Inr dummy" "u' = u\<lparr>u_tokens := Some (getTokens dummy)\<rparr>"
    using assms(1) by (auto simp: setTokens_def outcome_bind_eq_Inr)
  have "tokens_within P ?d" by (rule tokens_within_none) (simp add: user_create_def)
  moreover have "roles_within P ?d" by (rule roles_within_same [OF _ assms(2)]) simp
  ultimately have "tokens_within P dummy" using addTokens_within [OF d(1)] by blast
  then show ?thesis by (simp add: d(2) tokens_within_def)
qed

lemma removeToken_within:
  assumes "removeToken hash u = Inr u'" "tokens_within P u"
  shows "tokens_within P u' \<and> u_roles u' = u_roles u"
proof -
  consider "u' = u" | ts where "u_tokens u = Some ts" "u' = u\<lparr>u_tokens := Some (AList.delete hash ts)\<rparr>"
    using assms(1) by (auto simp: removeToken_def outcome_bind_eq_Inr split: option.splits if_splits)
  then show ?thesis
  proof cases
    case 2
    then have "getTokens u = ts" by (simp add: getTokens_def)
    with 2 show ?thesis using tokens_within_subset [OF assms(2), of "AList.delete hash ts"] delete_subset [of hash ts] by simp
  qed (simp add: assms(2))
qed

lemma sanitizedTokens_within:
  "sanitizedTokens now u = Inr u' \<Longrightarrow> tokens_within P u \<Longrightarrow> tokens_within P u' \<and> u_roles u' = u_roles u"
  using tokens_within_subset [of P u "filter (\<lambda>(hash, t). \<not> token_isExpired now t) (getTokens u)"]
  by (auto simp: sanitizedTokens_def outcome_bind_eq_Inr)

lemma rollToken_within:
  assumes "rollToken hash newHash change u = Inr (u', t')" "tokens_within P u" "\<And>t. tok_scopes (change t) = tok_scopes t"
  shows "tokens_within P u' \<and> u_roles u' = u_roles u"
proof -
  obtain t where t: "getToken hash u = Inr (Some t)"
    "u' = u\<lparr>u_tokens := Some (AList.update newHash (change t) (AList.delete hash (getTokens u)))\<rparr>"
    using assms(1) by (auto simp: rollToken_def outcome_bind_eq_Inr split: option.splits if_splits)
  have "P (token_getScopes (change t))"
    using tokens_within_getToken [OF assms(2) t(1)] assms(3) by (simp add: token_getScopes_def)
  moreover have "snd ` set (AList.update newHash (change t) (AList.delete hash (getTokens u)))
      \<subseteq> insert (change t) (snd ` set (getTokens u))"
    using AList_update_snd [of newHash "change t" "AList.delete hash (getTokens u)"]
      delete_subset [of hash "getTokens u"] by blast
  ultimately show ?thesis using tokens_within_replace [OF assms(2)] by (simp add: t(2))
qed

end
