(* ===== verification/Accounts.thy ===== *)
theory Accounts
  imports Users RateLimit
begin

text \<open>
  Authentication with sessions (\<open>nodejs/core/authentication/{server,session}.js\<close>, \<open>session/server.js\<close>), and the
  accounts application that uses it (\<open>apps/accounts/backend/app.js\<close>, the endpoints of \<open>users/users.js\<close> with their
  guards of \<open>users/api.json\<close> and \<open>nodejs/core/rest/server.js\<close>).

  The state is the bucket of the users, the bucket of the sessions, the cache of the rate limiters and the
  applications. The endpoints are defined as they run without others in between; the operations on a key of a
  bucket, of which they consist, are atomic (\<open>Accounts_Scopes\<close> interleaves these). Random hashes and the salt are arguments. The keys of a bucket are those that
  were stored; the hashes inside of an entry are looked up as properties of an object. An HTTP error is \<open>Raised\<close>
  with its status; random delays and mails are not modelled.
\<close>

section \<open>State\<close>

record session_data =
  s_expiration :: int
  s_scopes :: "string list"

type_synonym sessions = "(string \<times> (string \<times> session_data) list) list"

record application =
  app_redirect :: string
  app_scopes :: "string list"

record accounts =
  a_users :: users
  a_sessions :: sessions
  a_limits :: "int list cache2"
  a_applications :: "(string \<times> application) list"

record session =
  ses_uid :: string
  ses_scopes :: "string list"

text \<open>\<open>new Session(uid, scopes)\<close>\<close>

definition Session :: "string \<Rightarrow> string list \<Rightarrow> session" where
  "Session uid scopes = \<lparr>ses_uid = uid, ses_scopes = Scopes scopes\<rparr>"

record auth_options =
  maxSessionsPerUser :: nat
  tokenAccessExpiresIn :: int
  tokenAccessExpiresInReuse :: int
  tokenRefreshSSOExpiresIn :: int
  tokenRefreshShortTermExpiresIn :: int
  tokenRefreshLongTermExpiresIn :: int

definition default_auth_options :: auth_options where
  "default_auth_options =
     \<lparr>maxSessionsPerUser = 5, tokenAccessExpiresIn = 5 * 60, tokenAccessExpiresInReuse = 60,
      tokenRefreshSSOExpiresIn = 2 * 60, tokenRefreshShortTermExpiresIn = 30 * 60,
      tokenRefreshLongTermExpiresIn = 7 * 24 * 60 * 60\<rparr>"

text \<open>What a login or a refresh answers; the timeout of what is no session is not a number.\<close>

record token_object =
  to_token :: string
  to_timeout :: "int option"
  to_uid :: string
  to_scopes :: "string list"
  to_refresh :: "(string \<times> int option) option"

definition getTimestamp :: "int \<Rightarrow> int" where
  "getTimestamp now = now div 1000"

section \<open>Tokens of requests\<close>

definition makeToken :: "string \<Rightarrow> string \<Rightarrow> string" where
  "makeToken uid hash = uid @ CHR ''_'' # hash"

definition readToken :: "string \<Rightarrow> string \<times> string" where
  "readToken token =
     (case split_on (CHR ''_'') token of
        [uid, hash] \<Rightarrow> (uid, hash)
      | [hash] \<Rightarrow> (''_app'', hash)
      | _ \<Rightarrow> (''invalid'', ''invalid''))"

record request =
  req_authorization :: string
  req_query_t :: "string option"
  req_access_token :: "string option"
  req_refresh_token :: "string option"

definition lower_char :: "char \<Rightarrow> char" where
  "lower_char c = (if CHR ''A'' \<le> c \<and> c \<le> CHR ''Z'' then char_of (of_char c + 32 :: nat) else c)"

text \<open>\<open>_getAccessToken\<close>: the header, the query or the cookie; an empty token is none.\<close>

definition nonempty :: "string option \<Rightarrow> string option" where
  "nonempty t = (if t = Some [] then None else t)"

definition getAccessToken :: "request \<Rightarrow> string option" where
  "getAccessToken r =
     (let from_header = (case split_on (CHR '' '') (req_authorization r) of
                           [scheme, token] \<Rightarrow>
                             if map lower_char scheme \<in> {''bearer'', ''basic''} then nonempty (Some token) else None
                         | _ \<Rightarrow> None)
      in case from_header of
           Some token \<Rightarrow> Some token
         | None \<Rightarrow>
             (case nonempty (req_query_t r) of
                Some token \<Rightarrow> Some token
              | None \<Rightarrow> nonempty (req_access_token r)))"

section \<open>Access tokens\<close>

text \<open>
  \<open>_verifyAccessToken\<close>: the session and when it expires. A hash that names an inherited property finds a function: it
  has no expiration, which is then not before any time, and no scopes.
\<close>

definition verifyAccessToken :: "int \<Rightarrow> string \<Rightarrow> int \<Rightarrow> sessions \<Rightarrow> (session \<times> string \<times> int option) option" where
  "verifyAccessToken now token minTimeoutS ss =
     (let (uid, hash) = readToken token
      in case map_of ss uid of
           None \<Rightarrow> None
         | Some stored \<Rightarrow>
             (case map_of stored hash of
                Some d \<Rightarrow>
                  if s_expiration d < getTimestamp now + minTimeoutS then None
                  else Some (Session uid (s_scopes d), hash, Some (s_expiration d))
              | None \<Rightarrow> if hash \<in> set inherited_names then Some (Session uid [], hash, None) else None))"

definition verify_impl :: "int \<Rightarrow> request \<Rightarrow> sessions \<Rightarrow> session option" where
  "verify_impl now r ss =
     (case getAccessToken r of
        None \<Rightarrow> None
      | Some token \<Rightarrow> map_option fst (verifyAccessToken now token 0 ss))"

definition verify :: "int \<Rightarrow> request \<Rightarrow> string list \<Rightarrow> sessions \<Rightarrow> session option" where
  "verify now r scopes ss =
     (case verify_impl now r ss of
        None \<Rightarrow> None
      | Some session \<Rightarrow> if scopes \<noteq> [] \<and> \<not> matchAny (ses_scopes session) scopes then None else Some session)"

text \<open>
  \<open>_makeAccessToken\<close>. The comparison function of the sort reads the property \<open>expiration\<close> of pairs, which have none,
  so that it is never positive or negative and the sort changes nothing: the first sessions stay.
\<close>

definition sessions_kept :: "auth_options \<Rightarrow> (string \<times> session_data) list \<Rightarrow> (string \<times> session_data) list" where
  "sessions_kept opts stored =
     (if length stored \<ge> maxSessionsPerUser opts then take (maxSessionsPerUser opts - 1) stored else stored)"

definition stored_sessions :: "string \<Rightarrow> sessions \<Rightarrow> (string \<times> session_data) list" where
  "stored_sessions uid ss = (case map_of ss uid of None \<Rightarrow> [] | Some stored \<Rightarrow> stored)"

definition save_session :: "auth_options \<Rightarrow> int \<Rightarrow> string \<Rightarrow> session \<Rightarrow> sessions \<Rightarrow> sessions" where
  "save_session opts now hash session ss =
     AList.update (ses_uid session)
       (AList.update hash \<lparr>s_expiration = getTimestamp now + tokenAccessExpiresIn opts, s_scopes = ses_scopes session\<rparr>
          (sessions_kept opts (stored_sessions (ses_uid session) ss))) ss"

definition makeAccessToken :: "auth_options \<Rightarrow> int \<Rightarrow> string \<Rightarrow> session \<Rightarrow> sessions \<Rightarrow> sessions \<times> token_object" where
  "makeAccessToken opts now hash session ss =
     (let uid = ses_uid session;
          reusable = List.find (\<lambda>(h, d). s_expiration d - getTimestamp now \<ge> tokenAccessExpiresInReuse opts \<and>
                       sameAs (ses_scopes session) (s_scopes d)) (stored_sessions uid ss)
      in case reusable of
           Some (h, d) \<Rightarrow>
             (ss, \<lparr>to_token = makeToken uid h, to_timeout = Some (s_expiration d - getTimestamp now), to_uid = uid,
                   to_scopes = ses_scopes session, to_refresh = None\<rparr>)
         | None \<Rightarrow>
             (save_session opts now hash session ss,
              \<lparr>to_token = makeToken uid hash, to_timeout = Some (tokenAccessExpiresIn opts), to_uid = uid,
               to_scopes = ses_scopes session, to_refresh = None\<rparr>))"

text \<open>\<open>preloadApplicationToken\<close>, with the expiration \<open>Number.MAX_VALUE\<close>.\<close>

definition max_value :: int where
  "max_value = 2 ^ 1024 - 2 ^ 971"

definition preloadApplicationToken :: "string \<Rightarrow> string list \<Rightarrow> sessions \<Rightarrow> sessions \<times> unit outcome" where
  "preloadApplicationToken token scopes ss =
     (if CHR ''_'' \<in> set token then (ss, Inl AssertFailed)
      else
        let (uid, hash) = readToken token;
            stored = stored_sessions uid ss
        in if map_of stored hash \<noteq> None \<or> hash \<in> set inherited_names then (ss, Inl AssertFailed)
           else (AList.update uid (AList.update hash \<lparr>s_expiration = max_value, s_scopes = scopes\<rparr> stored) ss, Inr ()))"

section \<open>Refresh tokens\<close>

text \<open>The callbacks \<open>saveRefreshToken\<close>, \<open>removeRefreshToken\<close> and \<open>refreshToken\<close> of the application.\<close>

definition saveRefreshToken :: "int \<Rightarrow> session \<Rightarrow> string \<Rightarrow> int \<Rightarrow> string option \<Rightarrow> users \<Rightarrow> users \<times> unit outcome" where
  "saveRefreshToken now session hash timeoutS identifier us =
     users_change (ses_uid session) (\<lambda>u.
       outcome_bind (addToken hash (token_make now identifier (ses_scopes session) timeoutS True) u) (sanitizedTokens now)) us"

definition removeRefreshToken :: "string \<Rightarrow> string \<Rightarrow> users \<Rightarrow> users \<times> unit outcome" where
  "removeRefreshToken uid hash us = users_change uid (removeToken hash) us"

record refreshed =
  r_scopes :: "string list"
  r_hash :: "string option"
  r_timeoutMs :: "int option"

definition refreshToken :: "int \<Rightarrow> string \<Rightarrow> string \<Rightarrow> int \<Rightarrow> string \<Rightarrow> users \<Rightarrow> users \<times> refreshed option outcome" where
  "refreshToken now uid hash minDuration hashNext us =
     (case map_of us uid of
        None \<Rightarrow> (us, Inr None)
      | Some u \<Rightarrow>
          (case getToken hash u of
             Inl e \<Rightarrow> (us, Inl e)
           | Inr None \<Rightarrow> (us, Inr None)
           | Inr (Some t) \<Rightarrow>
               if token_isExpired now t then (us, Inr None)
               else if isRolling t then
                 (case users_update uid (rollToken hash hashNext (updateMinDuration now minDuration)) us of
                    (us', Inl e) \<Rightarrow> (us', Inl e)
                  | (us', Inr t') \<Rightarrow>
                      (us', Inr (Some \<lparr>r_scopes = token_getScopes t, r_hash = Some hashNext,
                                       r_timeoutMs = Some (token_durationMs now t')\<rparr>)))
               else (us, Inr (Some \<lparr>r_scopes = token_getScopes t, r_hash = None, r_timeoutMs = None\<rparr>))))"

definition makeRefreshToken :: "int \<Rightarrow> string \<Rightarrow> string option \<Rightarrow> session \<Rightarrow> int \<Rightarrow> users \<Rightarrow> users \<times> string outcome" where
  "makeRefreshToken now hash identifier session timeoutS us =
     (case saveRefreshToken now session hash timeoutS identifier us of
        (us', Inl e) \<Rightarrow> (us', Inl e)
      | (us', Inr _) \<Rightarrow> (us', Inr (makeToken (ses_uid session) hash)))"

definition getAndRefreshAccessToken :: "auth_options \<Rightarrow> int \<Rightarrow> string \<Rightarrow> string \<Rightarrow> string option \<Rightarrow> accounts \<Rightarrow>
    accounts \<times> token_object option outcome" where
  "getAndRefreshAccessToken opts now hashNext hash maybeRefreshToken s =
     (case maybeRefreshToken of
        None \<Rightarrow> (s, Inr None)
      | Some refresh_token \<Rightarrow>
          (let (uid, h) = readToken refresh_token
           in case refreshToken now uid h (tokenAccessExpiresIn opts) hashNext (a_users s) of
                (us, Inl e) \<Rightarrow> (s\<lparr>a_users := us\<rparr>, Inl e)
              | (us, Inr None) \<Rightarrow> (s\<lparr>a_users := us\<rparr>, Inr None)
              | (us, Inr (Some t)) \<Rightarrow>
                  (let (ss, access) = makeAccessToken opts now hash (Session uid (r_scopes t)) (a_sessions s);
                       refresh = (case r_hash t of
                                    Some h' \<Rightarrow> Some (makeToken uid h', r_timeoutMs t)
                                  | None \<Rightarrow> None)
                   in (s\<lparr>a_users := us, a_sessions := ss\<rparr>, Inr (Some (access\<lparr>to_refresh := refresh\<rparr>))))))"

text \<open>
  \<open>refresh\<close>: an access token that is still good for some time is answered again. The cookies that are set are
  listed with the answer; tokens from the cookies stay in the cookies.
\<close>

definition refresh :: "auth_options \<Rightarrow> int \<Rightarrow> string \<Rightarrow> string \<Rightarrow> request \<Rightarrow> string option \<Rightarrow> accounts \<Rightarrow>
    accounts \<times> (token_object \<times> (string \<times> string) list) outcome" where
  "refresh opts now hashNext hash r given s =
     (let reused = (case getAccessToken r of
                      None \<Rightarrow> None
                    | Some token \<Rightarrow>
                        map_option (\<lambda>(session, h, expiration).
                          \<lparr>to_token = makeToken (ses_uid session) h,
                           to_timeout = map_option (\<lambda>e. e - getTimestamp now) expiration,
                           to_uid = ses_uid session, to_scopes = ses_scopes session, to_refresh = None\<rparr>)
                          (verifyAccessToken now token (tokenAccessExpiresInReuse opts) (a_sessions s)));
          given' = nonempty given;
          answer = (case reused of
                      Some access \<Rightarrow> (s, Inr (Some access))
                    | None \<Rightarrow>
                        getAndRefreshAccessToken opts now hashNext hash
                          (case given' of Some t \<Rightarrow> Some t | None \<Rightarrow> req_refresh_token r) s)
      in case answer of
           (s', Inl e) \<Rightarrow> (s', Inl e)
         | (s', Inr None) \<Rightarrow> (s', Inl (Raised ''401''))
         | (s', Inr (Some access)) \<Rightarrow>
             (if given' \<noteq> None then (s', Inr (access, []))
              else (s', Inr (access\<lparr>to_refresh := None\<rparr>,
                 (''access_token'', to_token access) #
                 (case to_refresh access of None \<Rightarrow> [] | Some (t, _) \<Rightarrow> [(''refresh_token'', t)])))))"

text \<open>
  \<open>clearSession\<close>: the update of the sessions has no default value, so that it throws when the user of the token has no
  sessions, and the refresh token then stays.
\<close>

definition clearSession :: "request \<Rightarrow> accounts \<Rightarrow> accounts \<times> unit outcome" where
  "clearSession r s =
     (let (s1, failed) =
        (case getAccessToken r of
           None \<Rightarrow> (s, Inr ())
         | Some token \<Rightarrow>
             (let (uid, hash) = readToken token
              in case map_of (a_sessions s) uid of
                   None \<Rightarrow> (s, Inl TypeErr)
                 | Some stored \<Rightarrow>
                     (s\<lparr>a_sessions := AList.update uid (AList.delete hash stored) (a_sessions s)\<rparr>, Inr ())))
      in case failed of
           Inl e \<Rightarrow> (s1, Inl e)
         | Inr _ \<Rightarrow>
             (case nonempty (req_refresh_token r) of
                None \<Rightarrow> (s1, Inr ())
              | Some token \<Rightarrow>
                  (let (uid, hash) = readToken token;
                       (us, result) = removeRefreshToken uid hash (a_users s1)
                   in (s1\<lparr>a_users := us\<rparr>, result))))"

section \<open>Identity\<close>

text \<open>\<open>verifyIdentity\<close>: at most so many failures for an address and for an email within a quarter of an hour.\<close>

datatype identity = Identity string "string list" | TooManyAttempts | Unauthorized

definition email_bucket :: string where "email_bucket = ''rate.limit.login''"
definition ip_bucket :: string where "ip_bucket = ''rate.limit.ip''"

definition email_limit :: rl_config where
  "email_limit = \<lparr>threshold = 5, windowMs = 900 * 1000\<rparr>"

definition ip_limit :: rl_config where
  "ip_limit = \<lparr>threshold = 30, windowMs = 900 * 1000\<rparr>"

definition over_limit :: "int \<Rightarrow> string \<Rightarrow> string option \<Rightarrow> int list cache2 \<Rightarrow> int list cache2 \<times> bool outcome" where
  "over_limit now email caller c =
     (let (c1, ip) = (case nonempty caller of
                        None \<Rightarrow> (c, Inr False)
                      | Some ip \<Rightarrow> rl_isOverLimit (rl_look ip_bucket) ip_limit now ip c)
      in if ip = Inr False then rl_isOverLimit (rl_look email_bucket) email_limit now email c1 else (c1, ip))"

definition record_failure :: "int \<Rightarrow> string \<Rightarrow> string option \<Rightarrow> int list cache2 \<Rightarrow> int list cache2 \<times> unit outcome" where
  "record_failure now email caller c =
     (case rl_record (rl_put email_bucket) (rl_look email_bucket) email_limit now email c of
        (c1, Inl e) \<Rightarrow> (c1, Inl e)
      | (c1, Inr _) \<Rightarrow>
          (case nonempty caller of
             None \<Rightarrow> (c1, Inr ())
           | Some ip \<Rightarrow>
               (case rl_record (rl_put ip_bucket) (rl_look ip_bucket) ip_limit now ip c1 of
                  (c2, Inl e) \<Rightarrow> (c2, Inl e)
                | (c2, Inr _) \<Rightarrow> (c2, Inr ()))))"

definition reset_limits :: "int \<Rightarrow> string \<Rightarrow> string option \<Rightarrow> int list cache2 \<Rightarrow> int list cache2 \<times> unit outcome" where
  "reset_limits now email caller c =
     (case rl_reset (rl_put email_bucket) now email c of
        (c1, Inl e) \<Rightarrow> (c1, Inl e)
      | (c1, Inr _) \<Rightarrow>
          (case nonempty caller of
             None \<Rightarrow> (c1, Inr ())
           | Some ip \<Rightarrow> rl_reset (rl_put ip_bucket) now ip c1))"

text \<open>Without a password the identity was verified by a third party before.\<close>

definition password_accepted :: "crypto \<Rightarrow> string option \<Rightarrow> user \<Rightarrow> bool" where
  "password_accepted c password u = (case password of None \<Rightarrow> True | Some p \<Rightarrow> isPasswordEqual c p u)"

definition verifyIdentity :: "crypto \<Rightarrow> int \<Rightarrow> string \<Rightarrow> string option \<Rightarrow> string option \<Rightarrow> accounts \<Rightarrow>
    accounts \<times> identity outcome" where
  "verifyIdentity c now email password caller s =
     (case over_limit now email caller (a_limits s) of
        (l1, Inl e) \<Rightarrow> (s\<lparr>a_limits := l1\<rparr>, Inl e)
      | (l1, Inr True) \<Rightarrow> (s\<lparr>a_limits := l1\<rparr>, Inr TooManyAttempts)
      | (l1, Inr False) \<Rightarrow>
          (let uid = emailToUid c email
           in case map_of (a_users s) uid of
                None \<Rightarrow>
                  (case record_failure now email caller l1 of
                     (l2, Inl e) \<Rightarrow> (s\<lparr>a_limits := l2\<rparr>, Inl e)
                   | (l2, Inr _) \<Rightarrow> (s\<lparr>a_limits := l2\<rparr>, Inr Unauthorized))
              | Some u \<Rightarrow>
                  if \<not> password_accepted c password u then
                    (case record_failure now email caller l1 of
                       (l2, Inl e) \<Rightarrow> (s\<lparr>a_limits := l2\<rparr>, Inl e)
                     | (l2, Inr _) \<Rightarrow>
                         (case users_change uid (\<lambda>u. Inr (u\<lparr>u_last_failed_login := now\<rparr>)) (a_users s) of
                            (us, Inl e) \<Rightarrow> (s\<lparr>a_limits := l2, a_users := us\<rparr>, Inl e)
                          | (us, Inr _) \<Rightarrow> (s\<lparr>a_limits := l2, a_users := us\<rparr>, Inr Unauthorized)))
                  else
                    (case reset_limits now email caller l1 of
                       (l2, Inl e) \<Rightarrow> (s\<lparr>a_limits := l2\<rparr>, Inl e)
                     | (l2, Inr _) \<Rightarrow>
                         (case users_change uid (\<lambda>u. Inr (u\<lparr>u_last_login := now\<rparr>)) (a_users s) of
                            (us, Inl e) \<Rightarrow> (s\<lparr>a_limits := l2, a_users := us\<rparr>, Inl e)
                          | (us, Inr _) \<Rightarrow>
                              (s\<lparr>a_limits := l2, a_users := us\<rparr>,
                               outcome_bind (user_getScopes u) (\<lambda>scopes. Inr (Identity uid scopes)))))))"

definition login :: "crypto \<Rightarrow> auth_options \<Rightarrow> int \<Rightarrow> string \<Rightarrow> string \<Rightarrow> string option \<Rightarrow> bool \<Rightarrow> string \<Rightarrow>
    string option \<Rightarrow> string option \<Rightarrow> accounts \<Rightarrow> accounts \<times> (token_object \<times> (string \<times> string) list) outcome" where
  "login c opts now hashRefresh hash identifier persistent email password caller s =
     (case verifyIdentity c now email password caller s of
        (s1, Inl e) \<Rightarrow> (s1, Inl e)
      | (s1, Inr TooManyAttempts) \<Rightarrow> (s1, Inl (Raised ''429''))
      | (s1, Inr Unauthorized) \<Rightarrow> (s1, Inl (Raised ''401''))
      | (s1, Inr (Identity uid scopes)) \<Rightarrow>
          (let session = Session uid scopes;
               timeoutS = (if persistent then tokenRefreshLongTermExpiresIn opts else tokenRefreshShortTermExpiresIn opts)
           in case makeRefreshToken now hashRefresh identifier session timeoutS (a_users s1) of
                (us, Inl e) \<Rightarrow> (s1\<lparr>a_users := us\<rparr>, Inl e)
              | (us, Inr token) \<Rightarrow>
                  (let (ss, access) = makeAccessToken opts now hash session (a_sessions s1)
                   in (s1\<lparr>a_users := us, a_sessions := ss\<rparr>, Inr (access, [(''refresh_token'', token)])))))"

text \<open>The endpoint \<open>/auth/login\<close> asks for a password; a third party logs in without one.\<close>

definition rest_login :: "crypto \<Rightarrow> auth_options \<Rightarrow> int \<Rightarrow> string \<Rightarrow> string \<Rightarrow> string option \<Rightarrow> bool \<Rightarrow> string \<Rightarrow>
    string \<Rightarrow> string option \<Rightarrow> accounts \<Rightarrow> accounts \<times> (token_object \<times> (string \<times> string) list) outcome" where
  "rest_login c opts now hashRefresh hash identifier persistent email password caller s =
     (if password = [] then (s, Inl PreconditionFailed)
      else login c opts now hashRefresh hash identifier persistent email (Some password) caller s)"

definition makeSSOToken :: "auth_options \<Rightarrow> int \<Rightarrow> string \<Rightarrow> string \<Rightarrow> session \<Rightarrow> string list \<Rightarrow> users \<Rightarrow>
    users \<times> string outcome" where
  "makeSSOToken opts now hash identifier session scopes us =
     (if \<not> checkValid (ses_scopes session) scopes then (us, Inl PreconditionFailed)
      else makeRefreshToken now hash (Some identifier) (Session (ses_uid session) scopes)
             (tokenRefreshSSOExpiresIn opts) us)"

section \<open>Endpoints\<close>

text \<open>
  An endpoint with authentication: the session must have one of its scopes, or only be one when the list is empty.
\<close>

definition authenticated :: "int \<Rightarrow> request \<Rightarrow> string list \<Rightarrow> (session \<Rightarrow> accounts \<Rightarrow> accounts \<times> 'r outcome) \<Rightarrow>
    accounts \<Rightarrow> accounts \<times> 'r outcome" where
  "authenticated now r scopes handler s =
     (case verify now r scopes (a_sessions s) of None \<Rightarrow> (s, Inl (Raised ''401'')) | Some session \<Rightarrow> handler session s)"

definition with_users :: "(users \<Rightarrow> users \<times> 'r outcome) \<Rightarrow> accounts \<Rightarrow> accounts \<times> 'r outcome" where
  "with_users f s = (case f (a_users s) of (us, result) \<Rightarrow> (s\<lparr>a_users := us\<rparr>, result))"

definition rest_sso :: "auth_options \<Rightarrow> int \<Rightarrow> string \<Rightarrow> request \<Rightarrow> string \<Rightarrow> accounts \<Rightarrow>
    accounts \<times> (string \<times> string) outcome" where
  "rest_sso opts now hash r name s =
     authenticated now r [] (\<lambda>session s.
       case map_of (a_applications s) name of
         None \<Rightarrow> (s, Inl PreconditionFailed)
       | Some app \<Rightarrow>
           with_users (\<lambda>us.
             case makeSSOToken opts now hash name session (Scopes (app_scopes app)) us of
               (us', result) \<Rightarrow> (us', outcome_bind result (\<lambda>token. Inr (token, app_redirect app)))) s) s"

text \<open>\<open>/password-reset\<close> answers nothing in any case; the link is sent by mail. \<open>/password-change\<close> takes its token.\<close>

definition rest_password_reset :: "crypto \<Rightarrow> int \<Rightarrow> string \<Rightarrow> string \<Rightarrow> accounts \<Rightarrow> accounts \<times> string option" where
  "rest_password_reset c now token email s =
     (let uid = emailToUid c email
      in case map_of (a_users s) uid of
           None \<Rightarrow> (s, None)
         | Some u \<Rightarrow>
             if u_last_password_reset u + 3600 * 1000 > now then (s, None)
             else (s\<lparr>a_users := AList.update uid (setPasswordResetToken c now token (3600 * 1000) u) (a_users s)\<rparr>,
                   Some token))"

definition change_password :: "crypto \<Rightarrow> int \<Rightarrow> string \<Rightarrow> string \<Rightarrow> string \<Rightarrow> user \<Rightarrow> user outcome" where
  "change_password c now salt token password u =
     (if \<not> checkPasswordResetToken c now token u then Inl (Raised ''401'')
      else Inr (clearPasswordResetToken (setPassword c salt password u)))"

definition rest_password_change :: "crypto \<Rightarrow> int \<Rightarrow> string \<Rightarrow> string \<Rightarrow> string \<Rightarrow> string \<Rightarrow> accounts \<Rightarrow>
    accounts \<times> unit outcome" where
  "rest_password_change c now salt uid token password s =
     (case map_of (a_users s) uid of
        None \<Rightarrow> (s, Inl (Raised ''401''))
      | Some _ \<Rightarrow>
          with_users (users_change uid (change_password c now salt token password)) s)"

text \<open>The fields of a user that can be read, each guarded by a scope; the payments are not in the list.\<close>

datatype user_field =
    F_email | F_creation | F_last_login | F_last_failed_login | F_last_password_reset | F_payments | F_roles
  | F_scopes | F_subscriptions | F_tokens

definition dataPublic :: "user \<Rightarrow> (string \<times> user_field) list outcome" where
  "dataPublic u =
     outcome_bind (user_getScopes u) (\<lambda>_. Inr
       [(''email'', F_email), (''creation'', F_creation), (''last_login'', F_last_login),
        (''last_failed_login'', F_last_failed_login), (''last_password_reset'', F_last_password_reset),
        (''payments'', F_payments), (''roles'', F_roles), (''scopes'', F_scopes),
        (''subscriptions'', F_subscriptions), (''tokens'', F_tokens)])"

definition user_response_scopes :: "(string \<times> string list) list" where
  "user_response_scopes =
     [(''creation'', [''/self/basic/r'']), (''email'', [''/self/basic/r'']),
      (''last_failed_login'', [''/self/basic/r'']), (''last_login'', [''/self/basic/r'']),
      (''last_password_reset'', [''/self/basic/r'']), (''roles'', [''/self/roles/r'']),
      (''scopes'', [''/self/roles/r'']), (''subscriptions'', [''/self/subscriptions/r'']),
      (''tokens'', [''/self/tokens/r''])]"

text \<open>
  The keys of a request and the scopes that guard them, where the query of a request is its data, the token in the
  query is one of the keys; \<open>inputs.uid ? inputs.uid : user.getUid()\<close>.\<close>

definition given_keys :: "(string \<times> bool) list \<Rightarrow> (string \<times> unit) list" where
  "given_keys ks = map (\<lambda>(k, _). (k, ())) (filter snd ks)"

definition target_uid :: "session \<Rightarrow> string option \<Rightarrow> string" where
  "target_uid session given = (case nonempty given of None \<Rightarrow> ses_uid session | Some uid \<Rightarrow> uid)"

definition get_user_scopes :: "(string \<times> string list) list" where
  "get_user_scopes = [(''uid'', [''/users''])]"

definition put_user_scopes :: "(string \<times> string list) list" where
  "put_user_scopes =
     [(''oldpassword'', [''/self/basic/w'']), (''password'', [''/self/basic/w'']),
      (''tokens'', [''/self/tokens/w'']), (''uid'', [''/users''])]"

definition rest_get_user :: "int \<Rightarrow> request \<Rightarrow> string option \<Rightarrow> accounts \<Rightarrow>
    accounts \<times> (string \<times> (string \<times> user_field option) list) outcome" where
  "rest_get_user now r given s =
     authenticated now r [''/self/basic/r''] (\<lambda>session s.
       (s, if \<not> checkDictionary (ses_scopes session) (given_keys [(''uid'', given \<noteq> None), (''t'', req_query_t r \<noteq> None)])
                  get_user_scopes
           then Inl AssertFailed
           else
             let uid = target_uid session given
             in outcome_bind (users_get uid (a_users s)) (\<lambda>u.
                outcome_bind (dataPublic u) (\<lambda>fields.
                  Inr (uid, filterDictionary (ses_scopes session) fields user_response_scopes))))) s"

text \<open>The answer to a change has no scopes in \<open>api.json\<close>: all fields are in it.\<close>

definition rest_put_user :: "crypto \<Rightarrow> int \<Rightarrow> string \<Rightarrow> request \<Rightarrow> string option \<Rightarrow> public_values \<Rightarrow> accounts \<Rightarrow>
    accounts \<times> (string \<times> user_field) list outcome" where
  "rest_put_user c now salt r given v s =
     authenticated now r [''/self/basic/w''] (\<lambda>session s.
       if \<not> checkDictionary (ses_scopes session)
              (given_keys [(''uid'', given \<noteq> None), (''password'', v_password v \<noteq> None),
                 (''oldpassword'', v_oldpassword v \<noteq> None), (''tokens'', v_tokens v \<noteq> None)]) put_user_scopes
       then (s, Inl AssertFailed)
       else
         case with_users (users_update (target_uid session given)
                (\<lambda>u. outcome_bind (mergePublic c now salt v u) (\<lambda>u'. Inr (u', u')))) s of
           (s', result) \<Rightarrow> (s', outcome_bind result dataPublic)) s"

definition rest_delete_user :: "crypto \<Rightarrow> int \<Rightarrow> request \<Rightarrow> string \<Rightarrow> accounts \<Rightarrow> accounts \<times> unit outcome" where
  "rest_delete_user c now r password s =
     authenticated now r [''/self/basic/w''] (\<lambda>session. with_users (deleteWithPassword c (ses_uid session) password)) s"

definition rest_get_subscription :: "int \<Rightarrow> request \<Rightarrow> string \<Rightarrow> accounts \<Rightarrow> accounts \<times> bool option outcome" where
  "rest_get_subscription now r application s =
     authenticated now r [''/self/subscriptions/r''] (\<lambda>session s.
       (s, outcome_bind (users_get (ses_uid session) (a_users s)) (\<lambda>u.
           outcome_bind (getSubscription application u) (\<lambda>sub.
             Inr (map_option (isActive now) sub))))) s"

text \<open>The administration of the users.\<close>

definition rest_admin_post :: "crypto \<Rightarrow> int \<Rightarrow> request \<Rightarrow> string \<Rightarrow> accounts \<Rightarrow> accounts \<times> unit outcome" where
  "rest_admin_post c now r email s =
     authenticated now r [''/users''] (\<lambda>session s.
       with_users (\<lambda>us. case users_create c now email us of
           (us', Inl e) \<Rightarrow> (us', Inl e)
         | (us', Inr uid) \<Rightarrow> users_change uid (addRole ''user'') us') s) s"

definition rest_admin_put :: "int \<Rightarrow> request \<Rightarrow> string \<Rightarrow> admin_values \<Rightarrow> accounts \<Rightarrow> accounts \<times> unit outcome" where
  "rest_admin_put now r uid v s =
     authenticated now r [''/users''] (\<lambda>session. with_users (users_change uid (mergeAdmin now v))) s"

definition rest_admin_delete :: "int \<Rightarrow> request \<Rightarrow> string \<Rightarrow> accounts \<Rightarrow> accounts \<times> unit outcome" where
  "rest_admin_delete now r uid s =
     authenticated now r [''/users''] (\<lambda>session. with_users (\<lambda>us. (users_delete uid us, Inr ()))) s"

text \<open>The applications (\<open>applications/applications.js\<close>), whose scopes are those that a single sign-on asks for.\<close>

definition applications_create :: "string \<Rightarrow> string \<Rightarrow> string list \<Rightarrow> accounts \<Rightarrow> accounts \<times> unit outcome" where
  "applications_create uid redirect scopes s =
     (if map_of (a_applications s) uid \<noteq> None then (s, Inl AssertFailed)
      else if \<not> checkValid allScopes scopes then (s, Inl PreconditionFailed)
      else (s\<lparr>a_applications := AList.update uid \<lparr>app_redirect = redirect, app_scopes = scopes\<rparr> (a_applications s)\<rparr>,
            Inr ()))"

definition rest_application_post :: "int \<Rightarrow> request \<Rightarrow> string \<Rightarrow> string \<Rightarrow> string list \<Rightarrow> accounts \<Rightarrow>
    accounts \<times> unit outcome" where
  "rest_application_post now r uid redirect scopes =
     authenticated now r [''/applications''] (\<lambda>session. applications_create uid redirect scopes)"

definition rest_application_delete :: "int \<Rightarrow> request \<Rightarrow> string \<Rightarrow> accounts \<Rightarrow> accounts \<times> unit outcome" where
  "rest_application_delete now r uid =
     authenticated now r [''/applications''] (\<lambda>session s.
       (s\<lparr>a_applications := AList.delete uid (a_applications s)\<rparr>, Inr ()))"

section \<open>Payments\<close>

text \<open>
  The callback of a payment. Between reading the user and changing it other callbacks can run, so the two are separate:
  \<open>payment_begin\<close> creates the user when there is none and answers whether the payment is new, \<open>payment_end\<close> adds the
  subscriptions and registers the payment.
\<close>

definition payment_begin :: "crypto \<Rightarrow> int \<Rightarrow> string \<Rightarrow> string \<Rightarrow> string \<Rightarrow> users \<Rightarrow> users \<times> bool outcome" where
  "payment_begin c now token payment email us =
     (let uid = emailToUid c email
      in case map_of us uid of
           Some u \<Rightarrow> (us, Inr (payment \<notin> set (u_payments u)))
         | None \<Rightarrow>
             (case users_create c now email us of
                (us1, Inl e) \<Rightarrow> (us1, Inl e)
              | (us1, Inr _) \<Rightarrow>
                  (case users_change uid (addRole ''user'') us1 of
                     (us2, Inl e) \<Rightarrow> (us2, Inl e)
                   | (us2, Inr _) \<Rightarrow>
                       (case users_change uid (\<lambda>u. Inr (setPasswordResetToken c now token (3600 * 1000) u)) us2 of
                          (us3, Inl e) \<Rightarrow> (us3, Inl e)
                        | (us3, Inr _) \<Rightarrow> (us3, Inr True)))))"

definition product_subscription :: "(string \<times> int option) option \<Rightarrow> int \<Rightarrow> subscription outcome" where
  "product_subscription recurrency duration =
     (case recurrency of
        Some (uid, Some endMs) \<Rightarrow>
          if endMs \<noteq> 0 then Inr (addRecurring uid endMs (makeFromTimestamp endMs))
          else if duration > 0 then Inr (makeFromDuration (duration * 1000)) else Inl AssertFailed
      | _ \<Rightarrow> if duration > 0 then Inr (makeFromDuration (duration * 1000)) else Inl AssertFailed)"

fun add_products :: "int \<Rightarrow> (string \<times> int option) option \<Rightarrow> (string \<times> int) list \<Rightarrow> user \<Rightarrow> user outcome" where
  "add_products now recurrency [] u = Inr u"
| "add_products now recurrency ((application, duration) # products) u =
     outcome_bind (product_subscription recurrency duration) (\<lambda>s.
     outcome_bind (addSubscription now application s u) (\<lambda>u1.
     outcome_bind (startSubscription now application u1) (add_products now recurrency products)))"

definition process_payment :: "int \<Rightarrow> (string \<times> int option) option \<Rightarrow> (string \<times> int) list \<Rightarrow> string \<Rightarrow> user \<Rightarrow> user outcome" where
  "process_payment now recurrency products payment u =
     outcome_bind (add_products now recurrency products u) (registerPayment payment)"

definition payment_end :: "crypto \<Rightarrow> int \<Rightarrow> string \<Rightarrow> string \<Rightarrow> (string \<times> int option) option \<Rightarrow> (string \<times> int) list \<Rightarrow>
    accounts \<Rightarrow> accounts \<times> unit outcome" where
  "payment_end c now payment email recurrency products s =
     (if list_ex (\<lambda>(application, _). map_of (a_applications s) application = None) products then (s, Inl AssertFailed)
      else with_users (users_change (emailToUid c email) (process_payment now recurrency products payment)) s)"

definition payment_cancelled :: "crypto \<Rightarrow> string \<Rightarrow> string \<Rightarrow> users \<Rightarrow> users \<times> unit outcome" where
  "payment_cancelled c recurrency email us =
     (case map_of us (emailToUid c email) of
        None \<Rightarrow> (us, Inr ())
      | Some _ \<Rightarrow> users_change (emailToUid c email) (stopRecurringSubscription recurrency) us)"

end
