(* ===== verification/Accounts_Scopes.thy ===== *)
theory Accounts_Scopes
  imports Accounts
begin

text \<open>
  What the operations of the accounts application do to scopes. The state of the application makes steps, one per
  endpoint or callback; a run is the list of the states so far, the newest first. The tokens of the users and their
  sessions only have scopes that some policy allows, where the policy allows what the roles of a user allow: this is
  shown for every policy in the locale \<open>scope_policy\<close>, and the interpretation is the policy of a run, what the roles
  of the user have allowed in one of its states.
\<close>

section \<open>Policies\<close>

type_synonym policy = "string \<Rightarrow> string list \<Rightarrow> bool"

definition users_within :: "policy \<Rightarrow> users \<Rightarrow> bool" where
  "users_within Q us = (\<forall>uid u. map_of us uid = Some u \<longrightarrow> tokens_within (Q uid) u)"

definition users_allowed :: "policy \<Rightarrow> users \<Rightarrow> bool" where
  "users_allowed Q us = (\<forall>uid u. map_of us uid = Some u \<longrightarrow> roles_within (Q uid) u)"

text \<open>The tokens of applications have the scopes that the configuration gives them.\<close>

definition sessions_within :: "policy \<Rightarrow> sessions \<Rightarrow> bool" where
  "sessions_within Q ss =
     (\<forall>uid stored d. map_of ss uid = Some stored \<longrightarrow> uid \<noteq> ''_app'' \<longrightarrow> d \<in> snd ` set stored \<longrightarrow>
        Q uid (Scopes (s_scopes d)))"

definition accounts_within :: "policy \<Rightarrow> accounts \<Rightarrow> bool" where
  "accounts_within Q s = (users_within Q (a_users s) \<and> sessions_within Q (a_sessions s))"

text \<open>A change of a user that keeps the tokens within what is allowed, and one that keeps the roles as well.\<close>

definition keeps_tokens :: "(user \<Rightarrow> (user \<times> 'r) outcome) \<Rightarrow> bool" where
  "keeps_tokens modifier =
     (\<forall>P u u' r. modifier u = Inr (u', r) \<longrightarrow> tokens_within P u \<longrightarrow> roles_within P u \<longrightarrow> tokens_within P u')"

definition keeps_roles :: "(user \<Rightarrow> (user \<times> 'r) outcome) \<Rightarrow> bool" where
  "keeps_roles modifier = (\<forall>u u' r. modifier u = Inr (u', r) \<longrightarrow> u_roles u' = u_roles u)"

lemma users_update_within:
  assumes "users_within Q us" "users_allowed Q us" "keeps_tokens modifier"
  shows "users_within Q (fst (users_update uid modifier us))"
  using assms
  by (auto simp: users_within_def users_update_def users_allowed_def keeps_tokens_def split: option.splits sum.splits)

lemma users_update_allowed:
  assumes "users_allowed Q us" "keeps_roles modifier"
  shows "users_allowed Q (fst (users_update uid modifier us))"
  using assms
  by (auto simp: users_update_def users_allowed_def keeps_roles_def split: option.splits sum.splits)
    (metis roles_within_same)

lemma users_delete_within: "users_within Q us \<Longrightarrow> users_within Q (users_delete uid us)"
  by (simp add: users_within_def users_delete_def)

lemma users_create_within: "users_within Q us \<Longrightarrow> users_within Q (fst (users_create c now email us))"
  by (simp add: users_within_def users_create_def Let_def tokens_within_none user_create_def)

lemma users_create_allowed:
  assumes "users_allowed Q us" "\<And>uid sc. set sc = {} \<Longrightarrow> Q uid sc"
  shows "users_allowed Q (fst (users_create c now email us))"
proof -
  have "roles_within P (user_create now email)" if "\<And>sc. set sc = {} \<Longrightarrow> P sc" for P
    using that
    by (auto simp: roles_within_def user_getScopes_def user_create_def roles_getScopes_def Scopes_def set_values_def
        checkValid_iff contains_scope_iff)
  then show ?thesis using assms by (auto simp: users_allowed_def users_create_def Let_def)
qed

text \<open>The change of a user by a function, as most callers do it.\<close>

lemma keeps_change:
  "(\<And>P u u'. f u = Inr u' \<Longrightarrow> tokens_within P u \<Longrightarrow> roles_within P u \<Longrightarrow> tokens_within P u') \<Longrightarrow>
     keeps_tokens (\<lambda>u. outcome_bind (f u) (\<lambda>u'. Inr (u', ())))"
  "(\<And>u u'. f u = Inr u' \<Longrightarrow> u_roles u' = u_roles u) \<Longrightarrow> keeps_roles (\<lambda>u. outcome_bind (f u) (\<lambda>u'. Inr (u', ())))"
  by (auto simp: keeps_tokens_def keeps_roles_def outcome_bind_eq_Inr)

section \<open>The changes of a user\<close>

text \<open>Changes of other properties.\<close>

lemma keeps_fields:
  "(\<And>u u' r. f u = Inr (u', r) \<Longrightarrow> u_tokens u' = u_tokens u) \<Longrightarrow> keeps_tokens f"
  unfolding keeps_tokens_def using tokens_within_same by blast

lemma addRole_tokens: "addRole role u = Inr u' \<Longrightarrow> u_tokens u' = u_tokens u"
  by (auto simp: addRole_def split: if_splits)

lemma addRoles_tokens: "addRoles roles u = Inr u' \<Longrightarrow> u_tokens u' = u_tokens u"
  by (induction roles u rule: addRoles.induct) (auto simp: outcome_bind_eq_Inr addRole_tokens)

lemma setRoles_tokens: "setRoles roles u = Inr u' \<Longrightarrow> u_tokens u' = u_tokens u"
  using addRoles_tokens by (fastforce simp: setRoles_def)

lemma setSubscriptions_fields:
  "setSubscriptions now subs u = Inr u' \<Longrightarrow> u_tokens u' = u_tokens u \<and> u_roles u' = u_roles u"
  by (auto simp: setSubscriptions_def outcome_bind_eq_Inr)

lemma mergeAdmin_tokens: "mergeAdmin now v u = Inr u' \<Longrightarrow> u_tokens u' = u_tokens u"
  by (auto simp: mergeAdmin_def outcome_bind_eq_Inr split: option.splits)
    (metis setRoles_tokens setSubscriptions_fields)+

lemma addSubscription_fields:
  "addSubscription now application s u = Inr u' \<Longrightarrow>
     u_tokens u' = u_tokens u \<and> u_roles u' = u_roles u \<and> u_payments u' = u_payments u"
  by (auto simp: addSubscription_def outcome_bind_eq_Inr split: option.splits if_splits)

lemma startSubscription_fields:
  "startSubscription now application u = Inr u' \<Longrightarrow>
     u_tokens u' = u_tokens u \<and> u_roles u' = u_roles u \<and> u_payments u' = u_payments u"
  by (auto simp: startSubscription_def outcome_bind_eq_Inr split: option.splits)

lemma add_products_fields:
  "add_products now recurrency products u = Inr u' \<Longrightarrow>
     u_tokens u' = u_tokens u \<and> u_roles u' = u_roles u \<and> u_payments u' = u_payments u"
proof (induction products arbitrary: u)
  case (Cons p products)
  obtain application duration where p: "p = (application, duration)" by (cases p)
  obtain s u1 u2 where u: "addSubscription now application s u = Inr u1" "startSubscription now application u1 = Inr u2"
    "add_products now recurrency products u2 = Inr u'"
    using Cons.prems by (auto simp: p outcome_bind_eq_Inr)
  then show ?case
    using Cons.IH [OF u(3)] addSubscription_fields [OF u(1)] startSubscription_fields [OF u(2)] by simp
qed simp

lemma registerPayment_fields:
  "registerPayment payment u = Inr u' \<Longrightarrow> u_tokens u' = u_tokens u \<and> u_roles u' = u_roles u"
  by (auto simp: registerPayment_def split: if_splits)

lemma stopRecurring_fields:
  "stopRecurringSubscription uid u = Inr u' \<Longrightarrow>
     u_tokens u' = u_tokens u \<and> u_roles u' = u_roles u \<and> u_payments u' = u_payments u"
  by (auto simp: stopRecurringSubscription_def outcome_bind_eq_Inr)

lemma updateMinDuration_scopes: "tok_scopes (updateMinDuration now d t) = tok_scopes t"
  by (simp add: updateMinDuration_def)

lemma keeps_both:
  assumes "\<And>P u u'. f u = Inr u' \<Longrightarrow> tokens_within P u \<Longrightarrow> roles_within P u \<Longrightarrow>
    tokens_within P u' \<and> u_roles u' = u_roles u"
  shows "keeps_tokens (\<lambda>u. outcome_bind (f u) (\<lambda>u'. Inr (u', ())))"
    and "keeps_roles (\<lambda>u. outcome_bind (f u) (\<lambda>u'. Inr (u', ())))"
proof -
  have all: "tokens_within (\<lambda>_. True) u" "roles_within (\<lambda>_. True) u" for u
    by (simp_all add: tokens_within_def roles_within_def)
  show "keeps_tokens (\<lambda>u. outcome_bind (f u) (\<lambda>u'. Inr (u', ())))"
    by (rule keeps_change(1)) (use assms in blast)
  show "keeps_roles (\<lambda>u. outcome_bind (f u) (\<lambda>u'. Inr (u', ())))"
    by (rule keeps_change(2)) (use assms [OF _ all] in blast)
qed

lemma keeps_save:
  "keeps_tokens (\<lambda>u. outcome_bind (outcome_bind (addToken hash t u) (sanitizedTokens now)) (\<lambda>u'. Inr (u', ())))"
  "keeps_roles (\<lambda>u. outcome_bind (outcome_bind (addToken hash t u) (sanitizedTokens now)) (\<lambda>u'. Inr (u', ())))"
proof -
  have "tokens_within P u' \<and> u_roles u' = u_roles u"
    if step: "outcome_bind (addToken hash t u) (sanitizedTokens now) = Inr u'"
      and w: "tokens_within P u" "roles_within P u" for P u u'
  proof -
    obtain u1 where u1: "addToken hash t u = Inr u1" "sanitizedTokens now u1 = Inr u'"
      using step by (auto simp: outcome_bind_eq_Inr)
    show ?thesis using addToken_within [OF u1(1) w] sanitizedTokens_within [OF u1(2)] by auto
  qed
  then show
    "keeps_tokens (\<lambda>u. outcome_bind (outcome_bind (addToken hash t u) (sanitizedTokens now)) (\<lambda>u'. Inr (u', ())))"
    "keeps_roles (\<lambda>u. outcome_bind (outcome_bind (addToken hash t u) (sanitizedTokens now)) (\<lambda>u'. Inr (u', ())))"
    by (rule keeps_both; blast)+
qed

lemma keeps_remove:
  "keeps_tokens (\<lambda>u. outcome_bind (removeToken hash u) (\<lambda>u'. Inr (u', ())))"
  "keeps_roles (\<lambda>u. outcome_bind (removeToken hash u) (\<lambda>u'. Inr (u', ())))"
  by (rule keeps_both; blast dest: removeToken_within)+

lemma keeps_roll:
  "keeps_tokens (rollToken hash newHash (updateMinDuration now d))"
  "keeps_roles (rollToken hash newHash (updateMinDuration now d))"
proof -
  have *: "tokens_within P u' \<and> u_roles u' = u_roles u"
    if "rollToken hash newHash (updateMinDuration now d) u = Inr (u', t)" "tokens_within P u" for P u u' t
    using rollToken_within [OF that updateMinDuration_scopes] .
  have "tokens_within (\<lambda>_. True) u" for u by (simp add: tokens_within_def)
  with * show "keeps_tokens (rollToken hash newHash (updateMinDuration now d))"
    "keeps_roles (rollToken hash newHash (updateMinDuration now d))"
    unfolding keeps_tokens_def keeps_roles_def by blast+
qed

lemma mergePublic_within:
  assumes "mergePublic c now salt v u = Inr u'" "tokens_within P u" "roles_within P u"
  shows "tokens_within P u' \<and> u_roles u' = u_roles u"
proof -
  obtain u1 where password: "(case v_password v of None \<Rightarrow> Inr u
      | Some password \<Rightarrow> (case v_oldpassword v of None \<Rightarrow> Inl PreconditionFailed
        | Some old \<Rightarrow> if isPasswordEqual c old u then Inr (setPassword c salt password u)
            else Inl PreconditionFailed)) = Inr u1"
    and u1: "(case v_tokens v of None \<Rightarrow> Inr u1 | Some tokens \<Rightarrow> setTokens now tokens u1) = Inr u'"
    using assms(1) unfolding mergePublic_def outcome_bind_eq_Inr by blast
  from password have "u1 = u \<or> (\<exists>p. u1 = setPassword c salt p u)"
    by (auto split: option.splits if_splits)
  then have "u_roles u1 = u_roles u" "u_tokens u1 = u_tokens u" by (auto simp: setPassword_def)
  then have w: "tokens_within P u1" "roles_within P u1" "u_roles u1 = u_roles u"
    using assms(2,3) roles_within_same [of u1 u] tokens_within_same [of u1 u] by simp_all
  show ?thesis
  proof (cases "v_tokens v")
    case None
    then show ?thesis using u1 w by simp
  next
    case (Some tokens)
    then show ?thesis using setTokens_within [of now tokens u1 u' P] u1 w by simp
  qed
qed

lemma keeps_merge:
  "keeps_tokens (\<lambda>u. outcome_bind (mergePublic c now salt v u) (\<lambda>u'. Inr (u', ())))"
  "keeps_roles (\<lambda>u. outcome_bind (mergePublic c now salt v u) (\<lambda>u'. Inr (u', ())))"
  by (rule keeps_both; blast dest: mergePublic_within)+

lemma keeps_payment:
  "keeps_tokens (\<lambda>u. outcome_bind (process_payment now recurrency products payment u) (\<lambda>u'. Inr (u', ())))"
  "keeps_tokens (\<lambda>u. outcome_bind (stopRecurringSubscription recurring u) (\<lambda>u'. Inr (u', ())))"
  "keeps_tokens (\<lambda>u. outcome_bind (addRole role u) (\<lambda>u'. Inr (u', ())))"
  "keeps_tokens (\<lambda>u. outcome_bind (mergeAdmin now v u) (\<lambda>u'. Inr (u', ())))"
  "keeps_tokens (\<lambda>u. outcome_bind (change_password c now salt token password u) (\<lambda>u'. Inr (u', ())))"
  by (rule keeps_fields; fastforce simp: outcome_bind_eq_Inr process_payment_def change_password_def
      clearPasswordResetToken_def setPassword_def split: if_splits
      dest: add_products_fields registerPayment_fields stopRecurring_fields addRole_tokens mergeAdmin_tokens)+

lemmas keeps = keeps_payment keeps_merge(1) keeps_roll(1)

section \<open>Steps\<close>

text \<open>
  The atomic operations on the bucket of the users, and those on the accounts. Which requests make them, and whether
  these are authenticated, is left open: any interleaving of requests is a sequence of such steps. The second part of
  the state is the sessions that requests have made of an identity or of a refresh token, for which access tokens can
  be made.
\<close>

inductive users_step :: "crypto \<Rightarrow> users \<Rightarrow> users \<Rightarrow> bool" for c where
  create: "users_step c us (fst (users_create c now email us))"
| delete: "users_step c us (users_delete uid us)"
| add_role: "users_step c us (fst (users_change uid (addRole role) us))"
| admin: "users_step c us (fst (users_change uid (mergeAdmin now v) us))"
| public: "users_step c us (fst (users_change uid (mergePublic c now salt w) us))"
| last_login: "users_step c us (fst (users_change uid (\<lambda>u. Inr (u\<lparr>u_last_login := now\<rparr>)) us))"
| last_failed: "users_step c us (fst (users_change uid (\<lambda>u. Inr (u\<lparr>u_last_failed_login := now\<rparr>)) us))"
| reset_token: "users_step c us (fst (users_change uid (\<lambda>u. Inr (setPasswordResetToken c now token durationMs u)) us))"
| password: "users_step c us (fst (users_change uid (change_password c now salt token password) us))"
| payment: "users_step c us (fst (users_change uid (process_payment now recurrency products payment) us))"
| cancel: "users_step c us (fst (users_change uid (stopRecurringSubscription recurring) us))"
| save: "users_step c us (fst (saveRefreshToken now session hash timeoutS name us))"
| remove: "users_step c us (fst (removeRefreshToken uid hash us))"
| roll: "users_step c us (fst (users_update uid (rollToken hash hashNext (updateMinDuration now d)) us))"

inductive acc_step :: "crypto \<Rightarrow> auth_options \<Rightarrow> accounts \<times> session set \<Rightarrow> accounts \<times> session set \<Rightarrow> bool"
  for c opts where
  users: "users_step c (a_users s) us \<Longrightarrow> acc_step c opts (s, live) (s\<lparr>a_users := us\<rparr>, live)"
| limits: "acc_step c opts (s, live) (s\<lparr>a_limits := l\<rparr>, live)"
| applications: "acc_step c opts (s, live) (s\<lparr>a_applications := as\<rparr>, live)"
| identified: "map_of (a_users s) (emailToUid c email) = Some u \<Longrightarrow> password_accepted c password u \<Longrightarrow>
    user_getScopes u = Inr scopes \<Longrightarrow> acc_step c opts (s, live) (s, insert (Session (emailToUid c email) scopes) live)"
| refreshed: "map_of (a_users s) uid = Some u \<Longrightarrow> getToken hash u = Inr (Some t) \<Longrightarrow> \<not> token_isExpired now t \<Longrightarrow>
    acc_step c opts (s, live) (s, insert (Session uid (token_getScopes t)) live)"
| access: "session \<in> live \<Longrightarrow>
    acc_step c opts (s, live) (s\<lparr>a_sessions := save_session opts now hash session (a_sessions s)\<rparr>, live)"
| logout: "map_of (a_sessions s) uid = Some stored \<Longrightarrow>
    acc_step c opts (s, live) (s\<lparr>a_sessions := AList.update uid (AList.delete hash stored) (a_sessions s)\<rparr>, live)"
| preload:
    "acc_step c opts (s, live) (s\<lparr>a_sessions := fst (preloadApplicationToken token scopes (a_sessions s))\<rparr>, live)"

text \<open>A run, the newest state first, from no users and no sessions.\<close>

inductive acc_run :: "crypto \<Rightarrow> auth_options \<Rightarrow> (accounts \<times> session set) list \<Rightarrow> bool" for c opts where
  start: "a_users s = [] \<Longrightarrow> a_sessions s = [] \<Longrightarrow> acc_run c opts [(s, {})]"
| step: "acc_run c opts (x # past) \<Longrightarrow> acc_step c opts x y \<Longrightarrow> acc_run c opts (y # x # past)"

section \<open>Steps under a policy\<close>

lemma users_update_fields:
  assumes "users_within Q us" "\<And>u u' r. modifier u = Inr (u', r) \<Longrightarrow> u_tokens u' = u_tokens u"
  shows "users_within Q (fst (users_update uid modifier us))"
proof -
  have "tokens_within P u'" if "modifier u = Inr (u', r)" "tokens_within P u" for P u u' r
    using assms(2) [OF that(1)] that(2) tokens_within_same by blast
  then show ?thesis
    using assms(1) by (auto simp: users_within_def users_update_def split: option.splits sum.splits)
qed

lemma users_step_within:
  assumes "users_step c us us'" "users_within Q us" "users_allowed Q us"
  shows "users_within Q us'"
  using assms(1)
proof cases
  case (create now email)
  then show ?thesis using users_create_within [OF assms(2)] by simp
next
  case (delete uid)
  then show ?thesis using users_delete_within [OF assms(2)] by simp
next
  case (save now session hash timeoutS name)
  then show ?thesis using users_update_within [OF assms(2,3) keeps_save(1)] by (simp add: saveRefreshToken_def)
next
  case (remove uid hash)
  then show ?thesis using users_update_within [OF assms(2,3) keeps_remove(1)] by (simp add: removeRefreshToken_def)
next
  case (last_login uid now)
  show ?thesis unfolding last_login by (rule users_update_fields [OF assms(2)]) auto
next
  case (last_failed uid now)
  show ?thesis unfolding last_failed by (rule users_update_fields [OF assms(2)]) auto
next
  case (reset_token uid now token durationMs)
  show ?thesis unfolding reset_token
    by (rule users_update_fields [OF assms(2)]) (auto simp: setPasswordResetToken_def)
qed (hypsubst, rule users_update_within [OF assms(2,3)], rule keeps)+

lemma stored_sessions_within:
  "sessions_within Q ss \<Longrightarrow> uid \<noteq> ''_app'' \<Longrightarrow> d \<in> snd ` set (stored_sessions uid ss) \<Longrightarrow> Q uid (Scopes (s_scopes d))"
  by (cases "map_of ss uid") (auto simp: sessions_within_def stored_sessions_def)

lemma sessions_update_within:
  assumes "sessions_within Q ss"
    and "\<And>d. uid \<noteq> ''_app'' \<Longrightarrow> d \<in> snd ` set stored \<Longrightarrow> Q uid (Scopes (s_scopes d))"
  shows "sessions_within Q (AList.update uid stored ss)"
  using assms by (auto simp: sessions_within_def)

lemma sessions_kept_subset: "set (sessions_kept opts stored) \<subseteq> set stored"
  by (simp add: sessions_kept_def set_take_subset)

lemma save_session_within:
  assumes "sessions_within Q ss" "Q (ses_uid session) (Scopes (ses_scopes session))"
  shows "sessions_within Q (save_session opts now hash session ss)"
proof -
  define d where "d = \<lparr>s_expiration = getTimestamp now + tokenAccessExpiresIn opts, s_scopes = ses_scopes session\<rparr>"
  let ?stored = "stored_sessions (ses_uid session) ss"
  have sub: "snd ` set (AList.update hash d (sessions_kept opts ?stored)) \<subseteq> insert d (snd ` set ?stored)"
    using AList_update_snd [of hash d "sessions_kept opts ?stored"] sessions_kept_subset [of opts ?stored] by blast
  show ?thesis unfolding save_session_def d_def [symmetric]
  proof (rule sessions_update_within [OF assms(1)])
    fix e assume uid: "ses_uid session \<noteq> ''_app''"
      and "e \<in> snd ` set (AList.update hash d (sessions_kept opts ?stored))"
    then have "e = d \<or> e \<in> snd ` set ?stored" using sub by blast
    then show "Q (ses_uid session) (Scopes (s_scopes e))"
      using stored_sessions_within [OF assms(1) uid] assms(2) by (auto simp: d_def)
  qed
qed

lemma readToken_plain: "CHR ''_'' \<notin> set token \<Longrightarrow> readToken token = (''_app'', token)"
  by (simp add: readToken_def split_on_no_sep)

lemma preload_within:
  "sessions_within Q ss \<Longrightarrow> sessions_within Q (fst (preloadApplicationToken token scopes ss))"
  by (auto simp: preloadApplicationToken_def Let_def readToken_plain intro!: sessions_update_within)

locale scope_policy =
  fixes Q :: policy
  assumes closed: "Q uid sc \<Longrightarrow> Q uid (Scopes sc)"
begin

lemma acc_step_within:
  assumes "acc_step c opts (s, live) (s', live')" "users_allowed Q (a_users s)"
    and "accounts_within Q s" "\<forall>session\<in>live. Q (ses_uid session) (ses_scopes session)"
  shows "accounts_within Q s'" and "\<forall>session\<in>live'. Q (ses_uid session) (ses_scopes session)"
proof -
  have "accounts_within Q s' \<and> (\<forall>session\<in>live'. Q (ses_uid session) (ses_scopes session))"
    using assms(1)
  proof (cases rule: acc_step.cases)
    case (users us)
    then show ?thesis using users_step_within assms(2-4) by (auto simp: accounts_within_def)
  next
    case (identified email u password scopes)
    then have "Q (emailToUid c email) scopes"
      using assms(2) checkValid_self [of scopes scopes] by (auto simp: users_allowed_def roles_within_def)
    then show ?thesis using identified assms(3,4) closed by (simp add: Session_def)
  next
    case (refreshed uid u hash t now)
    then have "Q uid (token_getScopes t)"
      using assms(3) tokens_within_getToken [of "Q uid" u] by (auto simp: accounts_within_def users_within_def)
    then show ?thesis using refreshed assms(3,4) closed by (simp add: Session_def)
  next
    case (access session now hash)
    then show ?thesis
      using save_session_within [of Q "a_sessions s" session] closed assms(3,4) by (simp add: accounts_within_def)
  next
    case (logout uid stored hash)
    have "d \<in> snd ` set stored" if "d \<in> snd ` set (AList.delete hash stored)" for d
      using that delete_subset [of hash stored] by blast
    then have "Q uid (Scopes (s_scopes d))" if "uid \<noteq> ''_app''" "d \<in> snd ` set (AList.delete hash stored)" for d
      using that assms(3) logout by (auto simp: accounts_within_def sessions_within_def)
    then show ?thesis using logout assms(3,4) sessions_update_within by (simp add: accounts_within_def)
  qed (use assms(3,4) preload_within in \<open>auto simp: accounts_within_def\<close>)
  then show "accounts_within Q s'" "\<forall>session\<in>live'. Q (ses_uid session) (ses_scopes session)" by simp_all
qed

end

section \<open>The policy of a run\<close>

text \<open>What the roles of a user allowed in one of the states of a run.\<close>

definition ever_allowed :: "(accounts \<times> session set) list \<Rightarrow> policy" where
  "ever_allowed run uid sc =
     (\<exists>(s, live)\<in>set run. \<exists>u scopes. map_of (a_users s) uid = Some u \<and> user_getScopes u = Inr scopes \<and> checkValid scopes sc)"

interpretation history: scope_policy "ever_allowed run" for run
  by unfold_locales (use checkValid_Scopes in \<open>unfold ever_allowed_def, fast\<close>)

lemma ever_allowed_mono: "ever_allowed run uid sc \<Longrightarrow> ever_allowed (x # run) uid sc"
  by (auto simp: ever_allowed_def)

lemma ever_allowed_roles: "users_allowed (ever_allowed ((s, live) # past)) (a_users s)"
  by (auto simp: users_allowed_def roles_within_def ever_allowed_def)

lemma accounts_within_mono:
  assumes "accounts_within Q s" "\<And>uid sc. Q uid sc \<Longrightarrow> R uid sc"
  shows "accounts_within R s"
proof -
  have "users_within R (a_users s)"
    unfolding users_within_def using assms tokens_within_mono unfolding accounts_within_def users_within_def by blast
  moreover have "sessions_within R (a_sessions s)"
    unfolding sessions_within_def using assms unfolding accounts_within_def sessions_within_def by blast
  ultimately show ?thesis by (simp add: accounts_within_def)
qed

lemma acc_run_within:
  assumes "acc_run c opts run" "run = (s, live) # past"
  shows "accounts_within (ever_allowed run) s \<and> (\<forall>session\<in>live. ever_allowed run (ses_uid session) (ses_scopes session))"
  using assms
proof (induction arbitrary: s live past)
  case (start s0)
  then show ?case by (simp add: accounts_within_def users_within_def sessions_within_def)
next
  case (step x past0 y)
  obtain s0 live0 where x: "x = (s0, live0)" by (cases x)
  have y: "acc_step c opts (s0, live0) (s, live)" using step.hyps(2) step.prems x by simp
  have IH: "accounts_within (ever_allowed (x # past0)) s0"
    "\<forall>session\<in>live0. ever_allowed (x # past0) (ses_uid session) (ses_scopes session)"
    using step.IH x by blast+
  have "users_allowed (ever_allowed (x # past0)) (a_users s0)" using ever_allowed_roles x by blast
  note new = history.acc_step_within [OF y this IH]
  have run: "y # x # past0 = (s, live) # past" by (rule step.prems)
  show ?case
    using accounts_within_mono [OF new(1)] new(2) ever_allowed_mono unfolding run [symmetric] by blast
qed

section \<open>Requests are made of steps\<close>

text \<open>What a login looks at and changes of the users.\<close>

lemma verifyIdentity_state:
  assumes "verifyIdentity c now email password caller s = (s', result)"
  defines "change \<equiv> \<lambda>f. fst (users_change (emailToUid c email) (\<lambda>u. Inr (f u)) (a_users s))"
  shows "s' = s\<lparr>a_users := a_users s', a_limits := a_limits s'\<rparr>"
    and "a_users s' = a_users s \<or> a_users s' = change (\<lambda>u. u\<lparr>u_last_failed_login := now\<rparr>)
      \<or> a_users s' = change (\<lambda>u. u\<lparr>u_last_login := now\<rparr>)"
    and "result = Inr (Identity uid scopes) \<Longrightarrow> uid = emailToUid c email \<and> (\<exists>u. map_of (a_users s) uid = Some u \<and>
      password_accepted c password u \<and> user_getScopes u = Inr scopes \<and>
      a_users s' = AList.update uid (u\<lparr>u_last_login := now\<rparr>) (a_users s))"
proof -
  obtain l1 limited where l: "over_limit now email caller (a_limits s) = (l1, limited)"
    by (cases "over_limit now email caller (a_limits s)")
  obtain l2 failed where f: "record_failure now email caller l1 = (l2, failed)"
    by (cases "record_failure now email caller l1")
  obtain l3 reset where r: "reset_limits now email caller l1 = (l3, reset)" by (cases "reset_limits now email caller l1")
  note facts = l f r change_def users_update_def verifyIdentity_def Let_def
  have "s' = s\<lparr>a_users := a_users s', a_limits := a_limits s'\<rparr> \<and>
    (a_users s' = a_users s \<or> a_users s' = change (\<lambda>u. u\<lparr>u_last_failed_login := now\<rparr>)
      \<or> a_users s' = change (\<lambda>u. u\<lparr>u_last_login := now\<rparr>)) \<and>
    (result = Inr (Identity uid scopes) \<longrightarrow> uid = emailToUid c email \<and> (\<exists>u. map_of (a_users s) uid = Some u \<and>
      password_accepted c password u \<and> user_getScopes u = Inr scopes \<and>
      a_users s' = AList.update uid (u\<lparr>u_last_login := now\<rparr>) (a_users s)))" for uid scopes
  proof (cases limited)
    case (Inl e)
    then show ?thesis using assms(1) by (auto simp: facts)
  next
    case (Inr over)
    show ?thesis
    proof (cases over)
      case True
      then show ?thesis using assms(1) Inr by (auto simp: facts)
    next
      case False
      show ?thesis
      proof (cases "map_of (a_users s) (emailToUid c email)")
        case None
        then show ?thesis using assms(1) Inr False by (cases failed) (auto simp: facts)
      next
        case (Some u)
        show ?thesis
        proof (cases "password_accepted c password u")
          case True
          then show ?thesis using assms(1) Inr \<open>\<not> over\<close> Some by (cases reset) (auto simp: facts outcome_bind_eq_Inr)
        next
          case not_accepted: False
          then show ?thesis using assms(1) Inr False Some by (cases failed) (auto simp: facts)
        qed
      qed
    qed
  qed
  then show "s' = s\<lparr>a_users := a_users s', a_limits := a_limits s'\<rparr>"
    "a_users s' = a_users s \<or> a_users s' = change (\<lambda>u. u\<lparr>u_last_failed_login := now\<rparr>)
      \<or> a_users s' = change (\<lambda>u. u\<lparr>u_last_login := now\<rparr>)"
    "result = Inr (Identity uid scopes) \<Longrightarrow> uid = emailToUid c email \<and> (\<exists>u. map_of (a_users s) uid = Some u \<and>
      password_accepted c password u \<and> user_getScopes u = Inr scopes \<and>
      a_users s' = AList.update uid (u\<lparr>u_last_login := now\<rparr>) (a_users s))"
    by blast+
qed


text \<open>A request takes a state to another by steps, and keeps the sessions that others work with.\<close>

definition reaches :: "crypto \<Rightarrow> auth_options \<Rightarrow> accounts \<Rightarrow> accounts \<Rightarrow> bool" where
  "reaches c opts s s' =
     (\<forall>live. \<exists>live'. live \<subseteq> live' \<and> rtranclp (acc_step c opts) (s, live) (s', live'))"

lemma reaches_refl [simp]: "reaches c opts s s"
  by (auto simp: reaches_def)

lemma reaches_trans: "reaches c opts s s1 \<Longrightarrow> reaches c opts s1 s2 \<Longrightarrow> reaches c opts s s2"
  unfolding reaches_def by (meson order_trans rtranclp_trans)

lemma reaches_step: "(\<And>live. acc_step c opts (s, live) (s', live)) \<Longrightarrow> reaches c opts s s'"
  by (auto simp: reaches_def)

lemma reaches_users: "users_step c (a_users s) us \<Longrightarrow> reaches c opts s (s\<lparr>a_users := us\<rparr>)"
  by (rule reaches_step) (rule acc_step.users)

lemma reaches_with_users:
  "users_step c (a_users s) (fst (f (a_users s))) \<Longrightarrow> reaches c opts s (fst (with_users f s))"
  using reaches_users [of c s] by (auto simp: with_users_def split: prod.splits)

text \<open>A request that makes an access token for a session, which it has after its first step.\<close>

lemma reaches_access:
  assumes "reaches c opts s s1" "\<And>live. acc_step c opts (s1, live) (s1, insert session live)" "reaches c opts s1 s2"
  shows "reaches c opts s (s2\<lparr>a_sessions := fst (makeAccessToken opts now hash session (a_sessions s2))\<rparr>)"
  unfolding reaches_def
proof
  fix live
  let ?s3 = "s2\<lparr>a_sessions := save_session opts now hash session (a_sessions s2)\<rparr>"
  obtain live1 where 1: "live \<subseteq> live1" "rtranclp (acc_step c opts) (s, live) (s1, live1)"
    using assms(1) unfolding reaches_def by blast
  obtain live2 where 2: "insert session live1 \<subseteq> live2"
    "rtranclp (acc_step c opts) (s1, insert session live1) (s2, live2)"
    using assms(3) unfolding reaches_def by blast
  have 3: "rtranclp (acc_step c opts) (s, live) (s2, live2)"
    using 1(2) assms(2) [of live1] 2(2) by (meson rtranclp.rtrancl_into_rtrancl rtranclp_trans)
  moreover have "acc_step c opts (s2, live2) (?s3, live2)" using acc_step.access 2(1) by blast
  ultimately have "rtranclp (acc_step c opts) (s, live) (?s3, live2)" by (rule rtranclp.rtrancl_into_rtrancl)
  moreover have "fst (makeAccessToken opts now hash session (a_sessions s2)) = a_sessions s2 \<or>
      fst (makeAccessToken opts now hash session (a_sessions s2)) = save_session opts now hash session (a_sessions s2)"
    by (auto simp: makeAccessToken_def Let_def split: option.split)
  ultimately show "\<exists>live'. live \<subseteq> live' \<and> rtranclp (acc_step c opts) (s, live)
      (s2\<lparr>a_sessions := fst (makeAccessToken opts now hash session (a_sessions s2))\<rparr>, live')"
    using 1(1) 2(1) 3 by (intro exI [of _ live2]) auto
qed

lemma makeRefreshToken_users:
  "fst (makeRefreshToken now hash name session timeoutS us) = fst (saveRefreshToken now session hash timeoutS name us)"
  by (simp add: makeRefreshToken_def split: prod.split sum.split)

lemma verifyIdentity_reaches:
  assumes "verifyIdentity c now email password caller s = (s', result)"
  shows "reaches c opts (s\<lparr>a_limits := a_limits s'\<rparr>) s'"
proof -
  let ?s1 = "s\<lparr>a_limits := a_limits s'\<rparr>"
  note state = verifyIdentity_state [OF assms]
  have "s' = ?s1\<lparr>a_users := a_users s'\<rparr>" using state(1) by (rule trans) simp
  moreover have "reaches c opts ?s1 (?s1\<lparr>a_users := a_users s'\<rparr>)"
    using state(2)
  proof (elim disjE)
    assume "a_users s' = a_users s"
    then show ?thesis by simp
  qed (use reaches_users [of c ?s1] users_step.last_failed users_step.last_login in \<open>simp_all\<close>)
  ultimately show ?thesis by (rule ssubst)
qed

lemma login_reaches:
  "reaches c opts s (fst (login c opts now hashRefresh hash name persistent email password caller s))"
proof -
  obtain s1 result where v: "verifyIdentity c now email password caller s = (s1, result)"
    by (cases "verifyIdentity c now email password caller s")
  let ?s0 = "s\<lparr>a_limits := a_limits s1\<rparr>"
  have 0: "reaches c opts s ?s0" by (rule reaches_step) (rule acc_step.limits)
  note 1 = verifyIdentity_reaches [OF v, of opts]
  show ?thesis
  proof (cases "\<exists>uid scopes. result = Inr (Identity uid scopes)")
    case True
    then obtain uid scopes where r: "result = Inr (Identity uid scopes)" by blast
    define timeoutS where "timeoutS =
      (if persistent then tokenRefreshLongTermExpiresIn opts else tokenRefreshShortTermExpiresIn opts)"
    obtain us token where us: "makeRefreshToken now hashRefresh name (Session uid scopes) timeoutS (a_users s1) = (us, token)"
      by (cases "makeRefreshToken now hashRefresh name (Session uid scopes) timeoutS (a_users s1)")
    then have "users_step c (a_users s1) us"
      using users_step.save makeRefreshToken_users by (metis fst_conv)
    note 2 = reaches_trans [OF 1 reaches_users [OF this]]
    have "acc_step c opts (?s0, live) (?s0, insert (Session uid scopes) live)" for live
      using verifyIdentity_state(3) [OF v r] acc_step.identified [of ?s0 c email] by auto
    note 3 = reaches_access [OF 0 this 2]
    show ?thesis
    proof (cases token)
      case (Inl e)
      then show ?thesis using reaches_trans [OF 0 2] by (simp add: login_def v r us timeoutS_def [symmetric] Let_def)
    next
      case (Inr t)
      then show ?thesis using 3 [of now hash]
        by (auto simp: login_def v r us timeoutS_def [symmetric] Let_def split: prod.split)
    qed
  next
    case False
    then show ?thesis
      using reaches_trans [OF 0 1] by (auto simp: login_def v split: sum.splits identity.splits)
  qed
qed

lemma refreshToken_users:
  assumes "refreshToken now uid hash d hashNext us = (us', result)"
  shows "us' = us \<or> us' = fst (users_update uid (rollToken hash hashNext (updateMinDuration now d)) us)"
    and "result = Inr (Some x) \<Longrightarrow> \<exists>u t. map_of us uid = Some u \<and> getToken hash u = Inr (Some t) \<and>
      \<not> token_isExpired now t \<and> r_scopes x = token_getScopes t"
  using assms by (auto simp: refreshToken_def split: option.splits sum.splits if_splits prod.splits)

lemma getAndRefresh_reaches:
  "reaches c opts s (fst (getAndRefreshAccessToken opts now hashNext hash token s))"
proof (cases token)
  case (Some t)
  obtain uid h where t: "readToken t = (uid, h)" by (cases "readToken t")
  obtain us result where r: "refreshToken now uid h (tokenAccessExpiresIn opts) hashNext (a_users s) = (us, result)"
    by (cases "refreshToken now uid h (tokenAccessExpiresIn opts) hashNext (a_users s)")
  have users: "reaches c opts s (s\<lparr>a_users := us\<rparr>)"
    using refreshToken_users(1) [OF r]
  proof
    assume "us = a_users s"
    then show ?thesis by simp
  qed (use reaches_users [of c s] users_step.roll in simp)
  show ?thesis
  proof (cases "\<exists>x. result = Inr (Some x)")
    case True
    then obtain x where x: "result = Inr (Some x)" ..
    have "acc_step c opts (s, live) (s, insert (Session uid (r_scopes x)) live)" for live
      using refreshToken_users(2) [OF r x] acc_step.refreshed by metis
    from reaches_access [OF reaches_refl this users, of now hash] show ?thesis
      by (auto simp: getAndRefreshAccessToken_def Some t r x Let_def split: prod.splits)
  next
    case False
    then show ?thesis using users
      by (auto simp: getAndRefreshAccessToken_def Some t r split: sum.splits option.splits)
  qed
qed (simp add: getAndRefreshAccessToken_def)

lemma refresh_reaches: "reaches c opts s (fst (refresh opts now hashNext hash r given s))"
proof -
  define answer where "answer =
    (case (case getAccessToken r of
             None \<Rightarrow> None
           | Some token \<Rightarrow>
               map_option (\<lambda>(session, h, expiration).
                 \<lparr>to_token = makeToken (ses_uid session) h,
                  to_timeout = map_option (\<lambda>e. e - getTimestamp now) expiration,
                  to_uid = ses_uid session, to_scopes = ses_scopes session, to_refresh = None\<rparr>)
                 (verifyAccessToken now token (tokenAccessExpiresInReuse opts) (a_sessions s))) of
       Some access \<Rightarrow> (s, Inr (Some access))
     | None \<Rightarrow> getAndRefreshAccessToken opts now hashNext hash
         (case nonempty given of Some t \<Rightarrow> Some t | None \<Rightarrow> req_refresh_token r) s)"
  have "reaches c opts s (fst answer)" by (simp add: answer_def getAndRefresh_reaches split: option.split)
  moreover have "fst (refresh opts now hashNext hash r given s) = fst answer"
    unfolding refresh_def Let_def answer_def [symmetric] by (auto split: prod.splits sum.splits option.splits)
  ultimately show ?thesis by simp
qed

lemma clearSession_reaches: "reaches c opts s (fst (clearSession r s))"
proof -
  define first where "first =
    (case getAccessToken r of
       None \<Rightarrow> (s, Inr ())
     | Some token \<Rightarrow>
         (let (uid, hash) = readToken token
          in case map_of (a_sessions s) uid of
               None \<Rightarrow> (s, Inl TypeErr)
             | Some stored \<Rightarrow>
                 (s\<lparr>a_sessions := AList.update uid (AList.delete hash stored) (a_sessions s)\<rparr>, Inr ())))"
  obtain s1 failed where f: "first = (s1, failed)" by (cases first)
  have 1: "reaches c opts s s1"
    using f unfolding first_def by (auto split: option.splits prod.splits intro!: reaches_step acc_step.logout)
  have 2: "reaches c opts s1 (s1\<lparr>a_users := fst (removeRefreshToken uid hash (a_users s1))\<rparr>)" for uid hash
    by (rule reaches_users) (rule users_step.remove)
  show ?thesis
    using 1 reaches_trans [OF 1 2]
    unfolding clearSession_def first_def [symmetric] f by (auto split: sum.splits option.splits prod.splits) (metis fst_conv)
qed

lemma reaches_users_steps:
  "rtranclp (users_step c) (a_users s) us \<Longrightarrow> reaches c opts s (s\<lparr>a_users := us\<rparr>)"
proof (induction rule: rtranclp_induct)
  case (step us us')
  have "reaches c opts (s\<lparr>a_users := us\<rparr>) (s\<lparr>a_users := us, a_users := us'\<rparr>)"
    by (rule reaches_users) (use step.hyps(2) in simp)
  with step.IH show ?case using reaches_trans by fastforce
qed simp

lemma with_users_steps:
  "rtranclp (users_step c) (a_users s) (fst (f (a_users s))) \<Longrightarrow> reaches c opts s (fst (with_users f s))"
  using reaches_users_steps [of c s] by (auto simp: with_users_def split: prod.splits)

lemma authenticated_reaches:
  "(\<And>session. reaches c opts s (fst (handler session s))) \<Longrightarrow>
     reaches c opts s (fst (authenticated now r required handler s))"
  by (simp add: authenticated_def split: option.splits)

lemma sso_users:
  "fst (makeSSOToken opts now hash name session scopes us) = us \<or>
     users_step c us (fst (makeSSOToken opts now hash name session scopes us))"
  by (simp add: makeSSOToken_def makeRefreshToken_users users_step.save)

lemma admin_post_users:
  "rtranclp (users_step c) us (fst (case users_create c now email us of
       (us', Inl e) \<Rightarrow> (us', Inl e) | (us', Inr uid) \<Rightarrow> users_change uid (addRole ''user'') us'))"
proof -
  obtain us' r where u: "users_create c now email us = (us', r)" by (cases "users_create c now email us")
  then have "users_step c us us'" using users_step.create by (metis fst_conv)
  moreover have "users_step c us' (fst (users_change uid (addRole ''user'') us'))" for uid by (rule users_step.add_role)
  ultimately show ?thesis
    by (auto simp: u split: sum.split intro: rtranclp.rtrancl_into_rtrancl [OF r_into_rtranclp])
qed

lemma payment_begin_users: "rtranclp (users_step c) us (fst (payment_begin c now token payment email us))"
proof (cases "map_of us (emailToUid c email)")
  case None
  define us1 where "us1 = fst (users_create c now email us)"
  define us2 where "us2 = fst (users_change (emailToUid c email) (addRole ''user'') us1)"
  define us3 where "us3 =
    fst (users_change (emailToUid c email) (\<lambda>u. Inr (setPasswordResetToken c now token (3600 * 1000) u)) us2)"
  have "users_step c us us1" "users_step c us1 us2" "users_step c us2 us3"
    unfolding us1_def us2_def us3_def by (rule users_step.create users_step.add_role users_step.reset_token)+
  then have "rtranclp (users_step c) us us1" "rtranclp (users_step c) us us2" "rtranclp (users_step c) us us3" by auto
  moreover have "fst (payment_begin c now token payment email us) \<in> {us1, us2, us3}"
    by (auto simp: payment_begin_def Let_def None us1_def us2_def us3_def split: prod.splits sum.splits)
  ultimately show ?thesis by auto
qed (simp add: payment_begin_def)

section \<open>The requests and callbacks of the application\<close>

inductive acc_request :: "crypto \<Rightarrow> auth_options \<Rightarrow> accounts \<Rightarrow> accounts \<Rightarrow> bool" for c opts where
  login: "acc_request c opts s
    (fst (login c opts now hashRefresh hash name persistent email password caller s))"
| rest_login: "acc_request c opts s
    (fst (rest_login c opts now hashRefresh hash name persistent email given caller s))"
| refresh: "acc_request c opts s (fst (refresh opts now hashNext hash r token s))"
| logout: "acc_request c opts s (fst (clearSession r s))"
| sso: "acc_request c opts s (fst (rest_sso opts now hash r name s))"
| password_reset: "acc_request c opts s (fst (rest_password_reset c now token email s))"
| password_change: "acc_request c opts s (fst (rest_password_change c now salt uid token given s))"
| get_user: "acc_request c opts s (fst (rest_get_user now r who s))"
| put_user: "acc_request c opts s (fst (rest_put_user c now salt r who v s))"
| delete_user: "acc_request c opts s (fst (rest_delete_user c now r given s))"
| get_subscription: "acc_request c opts s (fst (rest_get_subscription now r name s))"
| admin_post: "acc_request c opts s (fst (rest_admin_post c now r email s))"
| admin_put: "acc_request c opts s (fst (rest_admin_put now r uid w s))"
| admin_delete: "acc_request c opts s (fst (rest_admin_delete now r uid s))"
| application_post: "acc_request c opts s (fst (rest_application_post now r uid redirect scopes s))"
| application_delete: "acc_request c opts s (fst (rest_application_delete now r uid s))"
| payment_begin: "acc_request c opts s (fst (with_users (payment_begin c now token payment email) s))"
| payment_end: "acc_request c opts s (fst (payment_end c now payment email recurrency products s))"
| payment_cancelled: "acc_request c opts s (fst (with_users (payment_cancelled c recurring email) s))"
| preload: "acc_request c opts s (s\<lparr>a_sessions := fst (preloadApplicationToken token scopes (a_sessions s))\<rparr>)"

lemma reaches_public:
  "users_step c (a_users s) (fst (f (a_users s))) \<or> fst (f (a_users s)) = a_users s \<Longrightarrow>
     reaches c opts s (fst (with_users f s))"
  by (rule with_users_steps) auto

text \<open>What the change of a user returns makes no difference to the users.\<close>

lemma users_update_returns:
  "fst (users_update uid (\<lambda>u. outcome_bind (f u) (\<lambda>u'. Inr (u', g u'))) us) = fst (users_change uid f us)"
proof (cases "map_of us uid")
  case (Some u)
  then show ?thesis by (cases "f u") (simp_all add: users_update_def)
qed (simp add: users_update_def)

lemma with_users_fst: "a_users (fst (with_users f s)) = fst (f (a_users s))"
  by (simp add: with_users_def split: prod.split)

lemma put_user_fst:
  "fst (case with_users (users_update uid (\<lambda>u. outcome_bind (f u) (\<lambda>u'. Inr (u', u')))) s of
      (s', result) \<Rightarrow> (s', outcome_bind result g)) = fst (with_users (users_change uid f) s)"
  using users_update_returns [of uid f "\<lambda>u. u" "a_users s"]
  by (auto simp: with_users_def split: prod.split)

lemma sso_reaches: "reaches c opts s (fst (rest_sso opts now hash r name s))"
  unfolding rest_sso_def
proof (rule authenticated_reaches)
  fix session
  show "reaches c opts s (fst (case map_of (a_applications s) name of
      None \<Rightarrow> (s, Inl PreconditionFailed)
    | Some app \<Rightarrow> with_users (\<lambda>us.
        case makeSSOToken opts now hash name session (Scopes (app_scopes app)) us of
          (us', result) \<Rightarrow> (us', outcome_bind result (\<lambda>token. Inr (token, app_redirect app)))) s))"
  proof (cases "map_of (a_applications s) name")
    case (Some app)
    show ?thesis unfolding Some option.case
    proof (rule reaches_public)
      obtain us result where "makeSSOToken opts now hash name session (Scopes (app_scopes app)) (a_users s) = (us, result)"
        by (cases "makeSSOToken opts now hash name session (Scopes (app_scopes app)) (a_users s)")
      then show "users_step c (a_users s) (fst (case makeSSOToken opts now hash name session (Scopes (app_scopes app))
            (a_users s) of (us', result) \<Rightarrow> (us', outcome_bind result (\<lambda>token. Inr (token, app_redirect app))))) \<or>
          fst (case makeSSOToken opts now hash name session (Scopes (app_scopes app)) (a_users s) of
            (us', result) \<Rightarrow> (us', outcome_bind result (\<lambda>token. Inr (token, app_redirect app)))) = a_users s"
        using sso_users [of opts now hash name session "Scopes (app_scopes app)" "a_users s" c] by auto
    qed
  qed simp
qed

lemma password_reset_reaches: "reaches c opts s (fst (rest_password_reset c now token email s))"
proof (cases "map_of (a_users s) (emailToUid c email)")
  case (Some u)
  have "users_step c (a_users s)
      (AList.update (emailToUid c email) (setPasswordResetToken c now token (3600 * 1000) u) (a_users s))"
    using users_step.reset_token [of c "a_users s" "emailToUid c email" now token] by (simp add: users_update_def Some)
  from reaches_users [OF this] show ?thesis by (simp add: rest_password_reset_def Some)
qed (simp add: rest_password_reset_def)

lemma delete_user_users:
  "fst (deleteWithPassword c uid password us) = us \<or> users_step c us (fst (deleteWithPassword c uid password us))"
  by (simp add: deleteWithPassword_def users_step.delete split: sum.split)

lemma cancelled_users:
  "fst (payment_cancelled c recurring email us) = us \<or> users_step c us (fst (payment_cancelled c recurring email us))"
  by (simp add: payment_cancelled_def users_step.cancel split: option.split)

lemma requests_are_steps:
  assumes "acc_request c opts s s'"
  shows "reaches c opts s s'"
  using assms
proof cases
  case (rest_login now hashRefresh hash name persistent email given caller)
  then show ?thesis using login_reaches by (simp add: rest_login_def)
next
  case (password_change now salt uid token given)
  then show ?thesis
    by (simp add: rest_password_change_def reaches_with_users users_step.password split: option.split)
next
  case (get_user now r who)
  then show ?thesis by (auto simp: rest_get_user_def intro!: authenticated_reaches)
next
  case (get_subscription now r name)
  then show ?thesis by (auto simp: rest_get_subscription_def intro!: authenticated_reaches)
next
  case (put_user now salt r who v)
  then show ?thesis
    by (auto simp: rest_put_user_def put_user_fst intro!: authenticated_reaches reaches_with_users users_step.public)
next
  case (delete_user now r given)
  then show ?thesis
    using delete_user_users by (auto simp: rest_delete_user_def intro!: authenticated_reaches reaches_public)
next
  case (admin_post now r email)
  then show ?thesis
    using admin_post_users by (auto simp: rest_admin_post_def intro!: authenticated_reaches with_users_steps)
next
  case (admin_put now r uid w)
  then show ?thesis
    by (auto simp: rest_admin_put_def intro!: authenticated_reaches reaches_with_users users_step.admin)
next
  case (admin_delete now r uid)
  then show ?thesis
    by (auto simp: rest_admin_delete_def intro!: authenticated_reaches reaches_with_users users_step.delete)
next
  case (application_post now r uid redirect scopes)
  have "reaches c opts s (fst (applications_create uid redirect scopes s))"
    by (auto simp: applications_create_def intro!: reaches_step acc_step.applications)
  with application_post show ?thesis by (simp add: rest_application_post_def authenticated_reaches)
next
  case (application_delete now r uid)
  have "reaches c opts s (s\<lparr>a_applications := AList.delete uid (a_applications s)\<rparr>)"
    by (auto intro!: reaches_step acc_step.applications)
  with application_delete show ?thesis by (simp add: rest_application_delete_def authenticated_reaches)
next
  case (payment_begin now token payment email)
  then show ?thesis using payment_begin_users by (auto intro!: with_users_steps)
next
  case (payment_end now payment email recurrency products)
  then show ?thesis by (auto simp: payment_end_def intro!: reaches_with_users users_step.payment)
next
  case (payment_cancelled recurring email)
  then show ?thesis using cancelled_users by (auto intro!: reaches_public)
next
  case (preload token scopes)
  then show ?thesis by (auto intro!: reaches_step acc_step.preload)
qed (simp_all add: login_reaches refresh_reaches clearSession_reaches sso_reaches password_reset_reaches)

end
