(* ===== verification/Accounts_Users.thy ===== *)
theory Accounts_Users
  imports Accounts_Scopes
begin

text \<open>
  The records of the users: who changes what of them, the change of a forgotten password, and payments.
\<close>

section \<open>Payments\<close>

text \<open>What an operation leaves of a user.\<close>

lemma addToken_fields: "addToken hash t u = Inr u' \<Longrightarrow> u' = u\<lparr>u_tokens := u_tokens u'\<rparr>"
  by (auto simp: addToken_def outcome_bind_eq_Inr split: if_splits)

lemma sanitizedTokens_fields: "sanitizedTokens now u = Inr u' \<Longrightarrow> u' = u\<lparr>u_tokens := u_tokens u'\<rparr>"
  by (auto simp: sanitizedTokens_def outcome_bind_eq_Inr)

lemma removeToken_fields: "removeToken hash u = Inr u' \<Longrightarrow> u' = u\<lparr>u_tokens := u_tokens u'\<rparr>"
  by (auto simp: removeToken_def outcome_bind_eq_Inr split: option.splits if_splits)

lemma rollToken_fields: "rollToken hash newHash change u = Inr (u', t) \<Longrightarrow> u' = u\<lparr>u_tokens := u_tokens u'\<rparr>"
  by (auto simp: rollToken_def outcome_bind_eq_Inr split: option.splits if_splits)

lemma setTokens_fields: "setTokens now tokens u = Inr u' \<Longrightarrow> u' = u\<lparr>u_tokens := u_tokens u'\<rparr>"
  by (auto simp: setTokens_def outcome_bind_eq_Inr)

lemma addRole_payments: "addRole role u = Inr u' \<Longrightarrow> u_payments u' = u_payments u"
  by (auto simp: addRole_def split: if_splits)

lemma addRoles_payments: "addRoles roles u = Inr u' \<Longrightarrow> u_payments u' = u_payments u"
  by (induction roles u rule: addRoles.induct) (auto simp: outcome_bind_eq_Inr addRole_payments)

lemma mergeAdmin_payments: "mergeAdmin now v u = Inr u' \<Longrightarrow> u_payments u' = u_payments u"
proof -
  assume "mergeAdmin now v u = Inr u'"
  then obtain u1 where u1: "u1 = u \<or> (\<exists>roles. setRoles roles u = Inr u1)"
    "u' = u1 \<or> (\<exists>subs. setSubscriptions now subs u1 = Inr u')"
    unfolding mergeAdmin_def outcome_bind_eq_Inr by (auto split: option.splits)
  then have "u_payments u1 = u_payments u" by (auto simp: setRoles_def dest: addRoles_payments)
  with u1(2) show ?thesis by (auto simp: setSubscriptions_def outcome_bind_eq_Inr)
qed

text \<open>A change of his password or his tokens, with the old password or without a new one.\<close>

lemma mergePublic_fields:
  assumes "mergePublic c now salt v u = Inr u'"
  shows "u' = u\<lparr>u_password := u_password u', u_tokens := u_tokens u'\<rparr>"
    and "u_password u' \<noteq> u_password u \<Longrightarrow> \<exists>old password. v_oldpassword v = Some old \<and> isPasswordEqual c old u \<and>
      v_password v = Some password \<and> u_password u' = Some (bcrypt_hash c salt password)"
    and "u_tokens u' \<noteq> u_tokens u \<Longrightarrow> v_tokens v \<noteq> None"
proof -
  obtain u1 where password: "(case v_password v of None \<Rightarrow> Inr u
      | Some password \<Rightarrow> (case v_oldpassword v of None \<Rightarrow> Inl PreconditionFailed
        | Some old \<Rightarrow> if isPasswordEqual c old u then Inr (setPassword c salt password u)
            else Inl PreconditionFailed)) = Inr u1"
    and u1: "(case v_tokens v of None \<Rightarrow> Inr u1 | Some tokens \<Rightarrow> setTokens now tokens u1) = Inr u'"
    using assms unfolding mergePublic_def outcome_bind_eq_Inr by blast
  have 2: "u' = u1\<lparr>u_tokens := u_tokens u'\<rparr>" using u1 by (cases "v_tokens v") (auto dest: setTokens_fields)
  have 1: "u1 = u\<lparr>u_password := u_password u1\<rparr>" using password by (auto simp: setPassword_def split: option.splits if_splits)
  have "u' = u\<lparr>u_password := u_password u1, u_tokens := u_tokens u'\<rparr>" using 1 2 by metis
  then show fields: "u' = u\<lparr>u_password := u_password u', u_tokens := u_tokens u'\<rparr>"
    by (metis user.select_convs(3) user.surjective user.update_convs(3,11))
  show "u_password u' \<noteq> u_password u \<Longrightarrow> \<exists>old password. v_oldpassword v = Some old \<and> isPasswordEqual c old u \<and>
      v_password v = Some password \<and> u_password u' = Some (bcrypt_hash c salt password)"
    using password arg_cong [OF 2, of u_password] by (auto simp: setPassword_def split: option.splits if_splits)
  show "u_tokens u' \<noteq> u_tokens u \<Longrightarrow> v_tokens v \<noteq> None"
    using u1 arg_cong [OF 1, of u_tokens] by (cases "v_tokens v") auto
qed

lemma mergePublic_tokens:
  assumes "mergePublic c now salt v u = Inr u'" "v_tokens v \<noteq> None"
  shows "tokens_within (\<lambda>sc. \<exists>scopes. user_getScopes u = Inr scopes \<and> checkValid scopes sc) u'"
proof -
  obtain u1 tokens where u1: "u1 = u \<or> (\<exists>p. u1 = setPassword c salt p u)" "setTokens now tokens u1 = Inr u'"
    using assms unfolding mergePublic_def outcome_bind_eq_Inr by (auto split: option.splits if_splits)
  then have "user_getScopes u1 = user_getScopes u" by (auto simp: setPassword_def user_getScopes_def)
  then have "roles_within (\<lambda>sc. \<exists>scopes. user_getScopes u = Inr scopes \<and> checkValid scopes sc) u1"
    by (auto simp: roles_within_def)
  with setTokens_within [OF u1(2)] show ?thesis by blast
qed

text \<open>Payments that were registered stay registered, as long as the user exists.\<close>

definition keeps_payments :: "(user \<Rightarrow> (user \<times> 'r) outcome) \<Rightarrow> bool" where
  "keeps_payments modifier = (\<forall>u u' r. modifier u = Inr (u', r) \<longrightarrow> set (u_payments u) \<subseteq> set (u_payments u'))"

lemma keeps_payments_change:
  "(\<And>u u'. f u = Inr u' \<Longrightarrow> set (u_payments u) \<subseteq> set (u_payments u')) \<Longrightarrow>
     keeps_payments (\<lambda>u. outcome_bind (f u) (\<lambda>u'. Inr (u', ())))"
  by (auto simp: keeps_payments_def outcome_bind_eq_Inr)

lemma users_update_payments:
  assumes "keeps_payments modifier" "map_of us uid = Some u" "map_of (fst (users_update uid' modifier us)) uid = Some u'"
  shows "set (u_payments u) \<subseteq> set (u_payments u')"
proof (cases "uid' = uid")
  case True
  then show ?thesis using assms
    by (cases "modifier u") (simp_all add: users_update_def keeps_payments_def split: prod.splits)
next
  case False
  then have "map_of (fst (users_update uid' modifier us)) uid = map_of us uid"
    by (auto simp: users_update_def split: option.splits sum.splits)
  then show ?thesis using assms(2,3) by simp
qed

lemma process_payment_payments:
  assumes "process_payment now recurrency products payment u = Inr u'"
  shows "u_payments u' = u_payments u @ [payment]" and "payment \<notin> set (u_payments u)"
proof -
  obtain u1 where u1: "add_products now recurrency products u = Inr u1" "registerPayment payment u1 = Inr u'"
    using assms by (auto simp: process_payment_def outcome_bind_eq_Inr)
  then show "u_payments u' = u_payments u @ [payment]" "payment \<notin> set (u_payments u)"
    using add_products_fields [OF u1(1)] by (auto simp: registerPayment_def split: if_splits)
qed

lemma process_payment_again:
  assumes "payment \<in> set (u_payments u)"
  shows "\<exists>e. process_payment now recurrency products payment u = Inl e"
proof (cases "process_payment now recurrency products payment u")
  case (Inr u')
  then show ?thesis using process_payment_payments(2) assms by blast
qed blast

lemma keeps_payments_ops:
  "keeps_payments (\<lambda>u. outcome_bind (addRole role u) (\<lambda>u'. Inr (u', ())))"
  "keeps_payments (\<lambda>u. outcome_bind (mergeAdmin now v u) (\<lambda>u'. Inr (u', ())))"
  "keeps_payments (\<lambda>u. outcome_bind (mergePublic c now salt w u) (\<lambda>u'. Inr (u', ())))"
  "keeps_payments (\<lambda>u. outcome_bind (change_password c now salt token password u) (\<lambda>u'. Inr (u', ())))"
  "keeps_payments (\<lambda>u. outcome_bind (process_payment now recurrency products payment u) (\<lambda>u'. Inr (u', ())))"
  "keeps_payments (\<lambda>u. outcome_bind (stopRecurringSubscription recurring u) (\<lambda>u'. Inr (u', ())))"
  "keeps_payments (\<lambda>u. outcome_bind (outcome_bind (addToken hash t u) (sanitizedTokens now)) (\<lambda>u'. Inr (u', ())))"
  "keeps_payments (\<lambda>u. outcome_bind (removeToken hash u) (\<lambda>u'. Inr (u', ())))"
  "keeps_payments (rollToken hash hashNext change)"
proof (goal_cases)
  case 1 then show ?case by (rule keeps_payments_change) (simp add: addRole_payments)
next
  case 2 then show ?case by (rule keeps_payments_change) (simp add: mergeAdmin_payments)
next
  case 3
  show ?case by (rule keeps_payments_change, drule mergePublic_fields(1)) (metis order_refl user.ext_inject user.surjective user.update_convs(3,11))
next
  case 4 then show ?case
    by (rule keeps_payments_change) (auto simp: change_password_def clearPasswordResetToken_def setPassword_def split: if_splits)
next
  case 5 then show ?case by (rule keeps_payments_change) (auto dest: process_payment_payments(1))
next
  case 6 then show ?case by (rule keeps_payments_change) (auto dest: stopRecurring_fields)
next
  case 7
  have "u_payments u' = u_payments u" if "addToken hash t u = Inr u1" "sanitizedTokens now u1 = Inr u'" for u u1 u'
    using addToken_fields [OF that(1)] sanitizedTokens_fields [OF that(2)] by (metis user.select_convs(9) user.surjective user.update_convs(11))
  then show ?case by (intro keeps_payments_change) (auto simp: outcome_bind_eq_Inr)
next
  case 8
  show ?case by (rule keeps_payments_change, drule removeToken_fields) (metis order_refl user.select_convs(9) user.surjective user.update_convs(11))
next
  case 9
  show ?case unfolding keeps_payments_def using rollToken_fields
    by (metis order_refl user.select_convs(9) user.surjective user.update_convs(11))
qed

lemma users_step_payments:
  assumes "users_step c us us'" "map_of us uid = Some u" "map_of us' uid = Some u'"
  shows "set (u_payments u) \<subseteq> set (u_payments u')"
  using assms(1)
proof cases
  case (create now email)
  then show ?thesis using assms(2,3) by (auto simp: users_create_def Let_def split: if_splits)
next
  case (delete uid')
  then show ?thesis using assms(2,3) by (auto simp: users_delete_def split: if_splits)
next
  case (last_login uid' now)
  show ?thesis by (rule users_update_payments [OF _ assms(2) assms(3) [unfolded last_login]]) (auto simp: keeps_payments_def)
next
  case (last_failed uid' now)
  show ?thesis by (rule users_update_payments [OF _ assms(2) assms(3) [unfolded last_failed]]) (auto simp: keeps_payments_def)
next
  case (reset_token uid' now token durationMs)
  show ?thesis
    by (rule users_update_payments [OF _ assms(2) assms(3) [unfolded reset_token]])
      (auto simp: keeps_payments_def setPasswordResetToken_def)
next
  case (save now session hash timeoutS name)
  show ?thesis
    by (rule users_update_payments [OF keeps_payments_ops(7) assms(2) assms(3) [unfolded save saveRefreshToken_def]])
next
  case (remove uid' hash)
  show ?thesis
    by (rule users_update_payments [OF keeps_payments_ops(8) assms(2) assms(3) [unfolded remove removeRefreshToken_def]])
qed (insert assms(3), hypsubst, erule users_update_payments [OF _ assms(2), rotated], rule keeps_payments_ops)+

lemma users_steps_payments:
  assumes "rtranclp (\<lambda>a b. users_step c a b \<and> map_of b uid \<noteq> None) us us'" "map_of us uid = Some u"
  shows "\<exists>u'. map_of us' uid = Some u' \<and> set (u_payments u) \<subseteq> set (u_payments u')"
  using assms(1)
proof (induction rule: rtranclp_induct)
  case base
  then show ?case using assms(2) by auto
next
  case (step us1 us2)
  then obtain u1 u2 where "map_of us1 uid = Some u1" "set (u_payments u) \<subseteq> set (u_payments u1)" "map_of us2 uid = Some u2"
    by auto
  then show ?case using users_step_payments [of c us1 us2 uid u1 u2] step.hyps(2) by blast
qed


text \<open>
  The end of a subscription after a payment: what it is before, and what a product adds. A recurrent payment with an
  end adds the time up to that end; without one, and without recurrency, the seconds of the product count.
\<close>

definition recurrent_end :: "(string \<times> int option) option \<Rightarrow> int option" where
  "recurrent_end recurrency =
     (case recurrency of Some (uid, Some endMs) \<Rightarrow> if endMs \<noteq> 0 then Some endMs else None | _ \<Rightarrow> None)"

definition end_before :: "int \<Rightarrow> (string \<times> int option) option \<Rightarrow> string \<Rightarrow> user \<Rightarrow> int" where
  "end_before now recurrency application u =
     (case map_of (u_subscriptions u) application of
        None \<Rightarrow> (case recurrent_end recurrency of None \<Rightarrow> now | Some endMs \<Rightarrow> min now endMs)
      | Some s \<Rightarrow> (case sub_end s of Some e \<Rightarrow> e | None \<Rightarrow> now + the (sub_duration s)))"

definition added_ms :: "int \<Rightarrow> (string \<times> int option) option \<Rightarrow> int \<Rightarrow> int" where
  "added_ms now recurrency seconds =
     (case recurrent_end recurrency of None \<Rightarrow> 1000 * seconds | Some endMs \<Rightarrow> max (endMs - now) 0)"

lemma product_subscription_cases:
  assumes "product_subscription recurrency d = Inr s"
  obtains (time) e uid where "recurrent_end recurrency = Some e" "s = addRecurring uid e (makeFromTimestamp e)"
  | (duration) "recurrent_end recurrency = None" "s = makeFromDuration (d * 1000)"
  using assms by (auto simp: product_subscription_def recurrent_end_def split: option.splits prod.splits if_splits)

lemma add_product_end:
  assumes "product_subscription recurrency d = Inr s"
    and "addSubscription now application s u = Inr u1" "startSubscription now application u1 = Inr u2"
  shows "\<exists>s. map_of (u_subscriptions u2) application = Some s \<and>
      sub_end s = Some (end_before now recurrency application u + added_ms now recurrency d)"
    and "x \<noteq> application \<Longrightarrow> map_of (u_subscriptions u2) x = map_of (u_subscriptions u) x"
proof -
  note defs = addSubscription_def startSubscription_def getSubscription_def outcome_bind_eq_Inr Subscription_def
    sub_start_def isStarted_def end_before_def added_ms_def
  show "\<exists>s. map_of (u_subscriptions u2) application = Some s \<and>
      sub_end s = Some (end_before now recurrency application u + added_ms now recurrency d)"
  proof (cases "map_of (u_subscriptions u) application")
    case None
    from assms(1) show ?thesis
    proof (cases rule: product_subscription_cases)
      case time
      then show ?thesis using assms(2,3) None
        by (auto simp: defs makeFromTimestamp_def addRecurring_def min_def max_def split: if_splits)
    next
      case duration
      then show ?thesis using assms(2,3) None by (auto simp: defs makeFromDuration_def split: if_splits)
    qed
  next
    case (Some old)
    note defs' = defs sub_add_def sub_sanitize_def getDuration_def Let_def
    from assms(1) show ?thesis
    proof (cases rule: product_subscription_cases)
      case time
      then show ?thesis using assms(2,3) Some
        by (cases "sub_end old") (auto simp: defs' makeFromTimestamp_def addRecurring_def split: if_splits)
    next
      case duration
      then show ?thesis using assms(2,3) Some
        by (cases "sub_end old") (auto simp: defs' makeFromDuration_def split: if_splits)
    qed
  qed
  show "map_of (u_subscriptions u2) x = map_of (u_subscriptions u) x" if "x \<noteq> application"
    using assms(2,3) that
    by (auto simp: addSubscription_def startSubscription_def outcome_bind_eq_Inr split: option.splits if_splits)
qed

definition ms_paid :: "int \<Rightarrow> (string \<times> int option) option \<Rightarrow> string \<Rightarrow> (string \<times> int) list \<Rightarrow> int" where
  "ms_paid now recurrency application products =
     sum_list (map (\<lambda>(a, d). added_ms now recurrency d) (filter (\<lambda>(a, d). a = application) products))"

lemma add_products_end:
  assumes "add_products now recurrency products u = Inr u'"
  shows "if application \<in> fst ` set products
    then \<exists>s. map_of (u_subscriptions u') application = Some s \<and>
      sub_end s = Some (end_before now recurrency application u + ms_paid now recurrency application products)
    else map_of (u_subscriptions u') application = map_of (u_subscriptions u) application"
  using assms
proof (induction products arbitrary: u)
  case (Cons p products)
  obtain a d where p: "p = (a, d)" by (cases p)
  obtain s u1 u2 where u: "product_subscription recurrency d = Inr s" "addSubscription now a s u = Inr u1"
    "startSubscription now a u1 = Inr u2" "add_products now recurrency products u2 = Inr u'"
    using Cons.prems by (auto simp: p outcome_bind_eq_Inr)
  note first = add_product_end [OF u(1-3)] and IH = Cons.IH [OF u(4)]
  have before: "end_before now recurrency application u2 =
      end_before now recurrency application u + (if a = application then added_ms now recurrency d else 0)"
    using first by (cases "a = application") (auto simp: end_before_def)
  show ?case
  proof (cases "application \<in> fst ` set products")
    case True
    then show ?thesis using IH before by (cases "a = application") (simp_all add: p ms_paid_def algebra_simps)
  next
    case False
    then have "filter (\<lambda>(a, d). a = application) products = []" by (force simp: filter_empty_conv)
    then show ?thesis using False IH first by (auto simp: p ms_paid_def algebra_simps)
  qed
qed simp

text \<open>
  C16. What a payment buys. After the callback of a payment, recurrent or not, the subscription to every application
  that was paid is started, and its end is the one before and all time that was paid for the application. The end
  before may be past; it is now, and the duration, for a subscription that was not started, and now for a new one (or
  the end of the recurrent payment, if that is past). Every product adds its seconds, or with a recurrent payment that
  has an end the time from now up to that. The subscriptions to other applications stay as they are.
\<close>

theorem payment_extends:
  assumes "payment_end c now payment email recurrency products s = (s1, Inr ())"
  shows "\<exists>u u1. map_of (a_users s) (emailToUid c email) = Some u \<and> map_of (a_users s1) (emailToUid c email) = Some u1 \<and>
    (\<forall>application. if application \<in> fst ` set products
       then \<exists>sub. map_of (u_subscriptions u1) application = Some sub \<and>
         sub_end sub = Some (end_before now recurrency application u + ms_paid now recurrency application products)
       else map_of (u_subscriptions u1) application = map_of (u_subscriptions u) application)"
proof -
  obtain u u1 where u: "map_of (a_users s) (emailToUid c email) = Some u"
    "process_payment now recurrency products payment u = Inr u1" "map_of (a_users s1) (emailToUid c email) = Some u1"
    using assms
    by (auto simp: payment_end_def with_users_def users_update_def outcome_bind_eq_Inl outcome_bind_eq_Inr
        split: if_splits option.splits sum.splits prod.splits)
  obtain u0 where u0: "add_products now recurrency products u = Inr u0" "registerPayment payment u0 = Inr u1"
    using u(2) by (auto simp: process_payment_def outcome_bind_eq_Inr)
  have "u_subscriptions u1 = u_subscriptions u0" using u0(2) by (auto simp: registerPayment_def split: if_splits)
  then show ?thesis using u(1,3) add_products_end [OF u0(1)] by (intro exI [of _ u] exI [of _ u1]) simp
qed

section \<open>Passwords\<close>

text \<open>
  C15. A reset token is good for one change. A change of a password succeeds exactly when the user exists and the token
  is the one that was made last for him, not used and not expired. Then the new password is accepted, by the law of
  \<open>bcrypt\<close> that a password matches its hash, nothing but the password and the token has changed, and no token is
  accepted again.
\<close>

theorem password_change_once:
  assumes "\<And>salt p. bcrypt_hash c salt p \<noteq> [] \<and> bcrypt_compare c (bcrypt_hash c salt p) p"
    and "rest_password_change c now salt uid token password s = (s', result)"
  shows "(case map_of (a_users s) uid of
      None \<Rightarrow> result = Inl (Raised ''401'') \<and> s' = s
    | Some u \<Rightarrow>
        if \<not> checkPasswordResetToken c now token u then result = Inl (Raised ''401'') \<and> s' = s
        else result = Inr () \<and>
          (let u' = u\<lparr>u_password := Some (bcrypt_hash c salt password), u_password_reset := None\<rparr>
           in s' = s\<lparr>a_users := AList.update uid u' (a_users s)\<rparr> \<and> isPasswordEqual c password u' = (password \<noteq> []) \<and>
              rest_password_change c now2 salt2 uid token2 password2 s' = (s', Inl (Raised ''401''))))"
proof (cases "map_of (a_users s) uid")
  case None
  then show ?thesis using assms(2) by (simp add: rest_password_change_def)
next
  case (Some u)
  show ?thesis
  proof (cases "checkPasswordResetToken c now token u")
    case True
    then have s': "result = Inr ()" "s' = s\<lparr>a_users := AList.update uid
        (u\<lparr>u_password := Some (bcrypt_hash c salt password), u_password_reset := None\<rparr>) (a_users s)\<rparr>"
      using assms(2) Some
      by (auto simp: rest_password_change_def with_users_def users_update_def change_password_def setPassword_def
          clearPasswordResetToken_def)
    have "rest_password_change c now2 salt2 uid token2 password2 s' = (s', Inl (Raised ''401''))"
      by (simp add: s' rest_password_change_def with_users_def users_update_def change_password_def
          checkPasswordResetToken_def)
    then show ?thesis using Some True s' assms(1) by (simp add: isPasswordEqual_def Let_def)
  next
    case False
    then show ?thesis using assms(2) Some
      by (auto simp: rest_password_change_def with_users_def users_update_def change_password_def)
  qed
qed

section \<open>Who changes what\<close>

lemma checkDictionary_key:
  "checkDictionary list data keys \<Longrightarrow> k \<in> fst ` set data \<Longrightarrow>
     \<exists>scopes. map_of keys k = Some scopes \<and> matchAny list scopes"
  by (fastforce simp: checkDictionary_def list_all_iff split: option.splits)

lemma given_keys_iff: "k \<in> fst ` set (given_keys ks) \<longleftrightarrow> (k, True) \<in> set ks"
  by (force simp: given_keys_def)

lemma matchAny_single: "matchAny list [scope] = contains_scope list scope"
  by (simp add: matchAny_def)

text \<open>The answer to a change is all fields of the user, the tokens among them, whatever the scopes of the session.\<close>

lemma put_user_answers_tokens:
  "rest_put_user c now salt r given v s = (s', Inr answer) \<Longrightarrow> (''tokens'', F_tokens) \<in> set answer"
  by (auto simp: rest_put_user_def authenticated_def dataPublic_def outcome_bind_eq_Inr split: option.splits if_splits
      prod.splits)

text \<open>
  C11. Users change their own records. When a request PUT /user changes the record of some user, then it has
  an accepted session with the scope to write; the record is the one of the session, or the session may administrate
  users; nothing but the password and the tokens has changed, the password to the one of the request, which has the
  old one as well, and the tokens only with the scope for it, to tokens within what the roles of the user allow.
\<close>

theorem put_user_own:
  assumes "rest_put_user c now salt r given v s = (s', result)" and "map_of (a_users s') uid \<noteq> map_of (a_users s) uid"
  shows "\<exists>session u u'. verify now r [''/self/basic/w''] (a_sessions s) = Some session \<and>
    (uid = ses_uid session \<or> contains_scope (ses_scopes session) ''/users'') \<and>
    map_of (a_users s) uid = Some u \<and> map_of (a_users s') uid = Some u' \<and>
    u' = u\<lparr>u_password := u_password u', u_tokens := u_tokens u'\<rparr> \<and>
    (u_password u' = u_password u \<or> (\<exists>old password. v_oldpassword v = Some old \<and> isPasswordEqual c old u \<and>
      v_password v = Some password \<and> u_password u' = Some (bcrypt_hash c salt password))) \<and>
    (u_tokens u' = u_tokens u \<or> contains_scope (ses_scopes session) ''/self/tokens/w'' \<and>
      (\<forall>t\<in>snd ` set (getTokens u'). \<exists>scopes. user_getScopes u = Inr scopes \<and> checkValid scopes (token_getScopes t)))"
proof -
  define keys where "keys = given_keys [(''uid'', given \<noteq> None), (''password'', v_password v \<noteq> None),
    (''oldpassword'', v_oldpassword v \<noteq> None), (''tokens'', v_tokens v \<noteq> None)]"
  obtain session where session: "verify now r [''/self/basic/w''] (a_sessions s) = Some session"
    and check: "checkDictionary (ses_scopes session) keys put_user_scopes"
    and "(case with_users (users_update (target_uid session given)
            (\<lambda>u. outcome_bind (mergePublic c now salt v u) (\<lambda>u'. Inr (u', u')))) s of
          (s', result) \<Rightarrow> (s', outcome_bind result dataPublic)) = (s', result)"
    using assms by (auto simp: rest_put_user_def authenticated_def keys_def split: option.splits if_splits)
  from arg_cong [OF this(3), of "\<lambda>x. a_users (fst x)"]
  have users: "a_users s' = fst (users_change (target_uid session given) (mergePublic c now salt v) (a_users s))"
    by (simp only: put_user_fst with_users_fst fst_conv)
  then have target: "uid = target_uid session given"
    and "\<exists>u u'. map_of (a_users s) uid = Some u \<and> mergePublic c now salt v u = Inr u' \<and> map_of (a_users s') uid = Some u'"
    using assms(2) by (auto simp: users_update_def outcome_bind_eq_Inr split: option.splits sum.splits if_splits)
  then obtain u u' where u: "map_of (a_users s) uid = Some u" "mergePublic c now salt v u = Inr u'"
    "map_of (a_users s') uid = Some u'" by blast
  have guard: "contains_scope (ses_scopes session) scope"
    if "(k, True) \<in> set [(''uid'', given \<noteq> None), (''password'', v_password v \<noteq> None),
      (''oldpassword'', v_oldpassword v \<noteq> None), (''tokens'', v_tokens v \<noteq> None)]"
      "map_of put_user_scopes k = Some [scope]" for k scope
    using checkDictionary_key [OF check, of k] that(2) that(1) [folded given_keys_iff, folded keys_def]
    by (auto simp: matchAny_single)
  have own: "uid = ses_uid session \<or> contains_scope (ses_scopes session) ''/users''"
    using target guard [of "''uid''" "''/users''"]
    by (cases given) (auto simp: target_uid_def nonempty_def put_user_scopes_def split: option.splits)
  have "u_tokens u' = u_tokens u \<or> contains_scope (ses_scopes session) ''/self/tokens/w'' \<and>
      (\<forall>t\<in>snd ` set (getTokens u'). \<exists>scopes. user_getScopes u = Inr scopes \<and> checkValid scopes (token_getScopes t))"
  proof (cases "u_tokens u' = u_tokens u")
    case False
    then have tokens: "v_tokens v \<noteq> None" by (rule mergePublic_fields(3) [OF u(2)])
    then have "contains_scope (ses_scopes session) ''/self/tokens/w''"
      by (intro guard [of "''tokens''"]) (simp_all add: put_user_scopes_def)
    moreover have "\<exists>scopes. user_getScopes u = Inr scopes \<and> checkValid scopes (token_getScopes t)"
      if "t \<in> snd ` set (getTokens u')" for t
      using mergePublic_tokens [OF u(2) tokens] that unfolding tokens_within_def by blast
    ultimately show ?thesis by simp
  qed simp
  then show ?thesis
    using session own u(1,3) mergePublic_fields(1,2) [OF u(2)] by blast
qed

section \<open>Instances of the properties\<close>

text \<open>A user with the role of users, and a request with an access token.\<close>

definition ex_crypto :: crypto where
  "ex_crypto = \<lparr>bcrypt_hash = (\<lambda>salt p. CHR ''$'' # salt @ p), bcrypt_compare = (\<lambda>hash p. suffix p hash), sha256 = (\<lambda>t. CHR ''#'' # t),
     emailToUid = (\<lambda>e. CHR ''u'' # e)\<rparr>"

definition ex_accounts :: "users \<Rightarrow> sessions \<Rightarrow> accounts" where
  "ex_accounts us ss = \<lparr>a_users = us, a_sessions = ss, a_limits = cache_new 5 100 (\<lambda>v. 1), a_applications = []\<rparr>"

definition ex_user :: user where
  "ex_user = (user_create 0 ''e'')\<lparr>u_roles := [''user'']\<rparr>"

definition ex_session :: session where
  "ex_session = Session ''ue'' [''/self/basic/r'', ''/self/basic/w'', ''/self/subscriptions/r'', ''/self/subscriptions/cancel'']"

definition ex_request :: request where
  "ex_request = \<lparr>req_authorization = ''Bearer ue_h'', req_query_t = None, req_access_token = None, req_refresh_token = None\<rparr>"

definition ex_paid :: accounts where
  "ex_paid = (ex_accounts [(''ue'', ex_user)] [])\<lparr>a_applications := [(''app'', \<lparr>app_redirect = [], app_scopes = []\<rparr>)]\<rparr>"

lemma ex_payment: "snd (payment_end ex_crypto 5000 ''p1'' ''e'' None [(''app'', 60), (''app'', 30)] ex_paid) = Inr ()"
  by code_simp

text \<open>The payments go with the user: after a deletion the same payment counts as a new one.\<close>

lemma payment_after_deletion:
  "let us = a_users (fst (payment_end ex_crypto 5000 ''p1'' ''e'' None [(''app'', 60)] ex_paid))
   in snd (payment_begin ex_crypto 9000 ''t'' ''p1'' ''e'' us) = Inr False \<and>
     snd (payment_begin ex_crypto 9000 ''t'' ''p1'' ''e'' (users_delete ''ue'' us)) = Inr True"
  by code_simp

text \<open>A recurrent payment until 9000 at 5000, for a subscription that is paid until 65000.\<close>

lemma recurrent_payment_adds:
  "let s = fst (payment_end ex_crypto 5000 ''p1'' ''e'' None [(''app'', 60)] ex_paid);
       s' = fst (payment_end ex_crypto 5000 ''p2'' ''e'' (Some (''r'', Some 9000)) [(''app'', 60)] s)
   in map_option (\<lambda>u. map_option sub_end (map_of (u_subscriptions u) ''app'')) (map_of (a_users s') ''ue'') = Some (Some (Some 69000))"
  by code_simp


theorem payment_extends_witness:
  "\<exists>(s1 :: accounts) u1 sub. map_of (a_users s1) ''ue'' = Some u1 \<and> map_of (u_subscriptions u1) ''app'' = Some sub \<and>
    sub_end sub = Some 95000"
proof -
  obtain s1 where s1: "payment_end ex_crypto 5000 ''p1'' ''e'' None [(''app'', 60), (''app'', 30)] ex_paid = (s1, Inr ())"
    using ex_payment by (metis prod.collapse)
  from payment_extends [OF s1] obtain u u1 where u: "map_of (a_users ex_paid) (emailToUid ex_crypto ''e'') = Some u"
    "map_of (a_users s1) (emailToUid ex_crypto ''e'') = Some u1"
    "if ''app'' \<in> fst ` set [(''app'', 60 :: int), (''app'', 30)]
     then \<exists>sub. map_of (u_subscriptions u1) ''app'' = Some sub \<and>
       sub_end sub = Some (end_before 5000 None ''app'' u + ms_paid 5000 None ''app'' [(''app'', 60), (''app'', 30)])
     else map_of (u_subscriptions u1) ''app'' = map_of (u_subscriptions u) ''app''" by blast
  have "u = ex_user" using u(1) by (simp add: ex_paid_def ex_accounts_def ex_crypto_def)
  then have "end_before 5000 None ''app'' u = 5000"
    by (simp add: end_before_def recurrent_end_def ex_user_def user_create_def)
  then have "\<exists>sub. map_of (u_subscriptions u1) ''app'' = Some sub \<and> sub_end sub = Some 95000"
    using u(3) by (simp add: ms_paid_def added_ms_def recurrent_end_def)
  moreover have "map_of (a_users s1) ''ue'' = Some u1" using u(2) by (simp add: ex_crypto_def)
  ultimately show ?thesis by blast
qed

definition ex_reset :: accounts where
  "ex_reset = ex_accounts [(''ue'', setPasswordResetToken ex_crypto 0 ''t'' 1000 ex_user)] []"

theorem password_change_once_witness:
  "\<exists>s'. rest_password_change ex_crypto 500 ''salt'' ''ue'' ''t'' ''new'' ex_reset = (s', Inr ()) \<and>
    rest_password_change ex_crypto 600 ''salt'' ''ue'' ''t'' ''other'' s' = (s', Inl (Raised ''401''))"
proof -
  obtain s' result where r: "rest_password_change ex_crypto 500 ''salt'' ''ue'' ''t'' ''new'' ex_reset = (s', result)"
    by (cases "rest_password_change ex_crypto 500 ''salt'' ''ue'' ''t'' ''new'' ex_reset")
  have law: "bcrypt_hash ex_crypto salt p \<noteq> [] \<and> bcrypt_compare ex_crypto (bcrypt_hash ex_crypto salt p) p" for salt p
    by (auto simp: ex_crypto_def suffix_def)
  have u: "map_of (a_users ex_reset) ''ue'' = Some (setPasswordResetToken ex_crypto 0 ''t'' 1000 ex_user)"
    "checkPasswordResetToken ex_crypto 500 ''t'' (setPasswordResetToken ex_crypto 0 ''t'' 1000 ex_user)"
    by (simp_all add: ex_reset_def ex_accounts_def checkPasswordResetToken_def setPasswordResetToken_def)
  have "result = Inr ()"
    "rest_password_change ex_crypto 600 ''salt'' ''ue'' ''t'' ''other'' s' = (s', Inl (Raised ''401''))"
    using password_change_once [OF law r, of 600 "''salt''" "''t''" "''other''"] u(2)
    unfolding u(1) option.case Let_def by argo+
  with r show ?thesis by blast
qed

definition ex_change :: public_values where
  "ex_change = \<lparr>v_password = Some ''new'', v_oldpassword = Some ''old'', v_tokens = None\<rparr>"

definition ex_logged_in :: accounts where
  "ex_logged_in = ex_accounts [(''ue'', setPassword ex_crypto ''s'' ''old'' ex_user)]
     (save_session default_auth_options 1000 ''h'' ex_session [])"

theorem put_user_own_witness:
  "\<exists>(s' :: accounts) session u u'. map_of (a_users ex_logged_in) ''ue'' = Some u \<and> map_of (a_users s') ''ue'' = Some u' \<and>
    verify 2000 ex_request [''/self/basic/w''] (a_sessions ex_logged_in) = Some session \<and>
    (''ue'' = ses_uid session \<or> contains_scope (ses_scopes session) ''/users'') \<and>
    u' = u\<lparr>u_password := u_password u', u_tokens := u_tokens u'\<rparr>"
proof -
  let ?r = "rest_put_user ex_crypto 2000 ''salt'' ex_request None ex_change ex_logged_in"
  have "map_option u_password (map_of (a_users (fst ?r)) ''ue'') = Some (Some ''$saltnew'')" by code_simp
  moreover have "map_option u_password (map_of (a_users ex_logged_in) ''ue'') = Some (Some ''$sold'')" by code_simp
  ultimately have changed: "map_of (a_users (fst ?r)) ''ue'' \<noteq> map_of (a_users ex_logged_in) ''ue''" by auto
  have run: "?r = (fst ?r, snd ?r)" by simp
  show ?thesis using put_user_own [OF run changed] by blast
qed

end
