(* ===== verification/Accounts_Props.thy ===== *)
theory Accounts_Props
  imports Accounts_Users
begin

text \<open>The properties of the accounts application, and instances of them.\<close>

section \<open>Scopes and sessions\<close>

text \<open>What an accepted token stands for.\<close>

lemma verify_session:
  assumes "verify now r required ss = Some session"
  obtains token hash stored where "getAccessToken r = Some token" "readToken token = (ses_uid session, hash)"
    "map_of ss (ses_uid session) = Some stored"
    "(\<exists>d. map_of stored hash = Some d \<and> getTimestamp now \<le> s_expiration d \<and> ses_scopes session = Scopes (s_scopes d))
      \<or> map_of stored hash = None \<and> hash \<in> set inherited_names \<and> ses_scopes session = []"
    "required \<noteq> [] \<Longrightarrow> matchAny (ses_scopes session) required"
proof -
  obtain token where token: "getAccessToken r = Some token"
    and v: "map_option fst (verifyAccessToken now token 0 ss) = Some session"
    and required: "required \<noteq> [] \<Longrightarrow> matchAny (ses_scopes session) required"
    using assms by (auto simp: verify_def verify_impl_def split: option.splits if_splits)
  obtain uid hash where t: "readToken token = (uid, hash)" by (cases "readToken token")
  obtain stored where stored: "map_of ss uid = Some stored"
    using v t by (cases "map_of ss uid") (auto simp: verifyAccessToken_def)
  have empty: "Scopes [] = []" by (simp add: Scopes_def set_values_def)
  have "ses_uid session = uid \<and>
    ((\<exists>d. map_of stored hash = Some d \<and> getTimestamp now \<le> s_expiration d \<and> ses_scopes session = Scopes (s_scopes d))
      \<or> map_of stored hash = None \<and> hash \<in> set inherited_names \<and> ses_scopes session = [])"
    using v t stored by (cases "map_of stored hash") (auto simp: verifyAccessToken_def Session_def empty split: if_splits)
  with token t stored required that show ?thesis by auto
qed

text \<open>
  C3. Nobody can do what his roles never allowed. In any interleaving of requests, where a request is a sequence of
  atomic steps (\<open>Accounts_Scopes.requests_are_steps\<close>): when an access token is accepted as a session of a user, and
  the scopes of the session contain a scope, then there was a state in which the roles of this user contained it,
  whether the session comes from a login, from a refresh token, from tokens that the user set, or from a single
  sign-on. (Sessions of applications have the scopes that the configuration gives them.)
\<close>

theorem no_escalation:
  assumes "acc_run c opts ((s, live) # past)"
    and "verify now r required (a_sessions s) = Some session" and "ses_uid session \<noteq> ''_app''"
    and "contains_scope (ses_scopes session) scope"
  shows "\<exists>(st, _)\<in>set ((s, live) # past). \<exists>u scopes.
    map_of (a_users st) (ses_uid session) = Some u \<and> user_getScopes u = Inr scopes \<and> contains_scope scopes scope"
proof -
  obtain stored d where d: "map_of (a_sessions s) (ses_uid session) = Some stored" "d \<in> snd ` set stored"
    "ses_scopes session = Scopes (s_scopes d)"
    using assms(2)
  proof (rule verify_session)
    fix token hash stored
    assume stored: "map_of (a_sessions s) (ses_uid session) = Some stored"
      and found: "(\<exists>d. map_of stored hash = Some d \<and> getTimestamp now \<le> s_expiration d \<and>
          ses_scopes session = Scopes (s_scopes d))
        \<or> map_of stored hash = None \<and> hash \<in> set inherited_names \<and> ses_scopes session = []"
    have "ses_scopes session \<noteq> []" using assms(4) by (auto simp: contains_scope_iff)
    then obtain d where d: "map_of stored hash = Some d" "ses_scopes session = Scopes (s_scopes d)" using found by blast
    have "d \<in> snd ` set stored" using map_of_SomeD [OF d(1)] by force
    then show thesis using that stored d(2) by blast
  qed
  then have "ever_allowed ((s, live) # past) (ses_uid session) (ses_scopes session)"
    using acc_run_within [OF assms(1) refl] assms(3) by (auto simp: accounts_within_def sessions_within_def)
  then show ?thesis using assms(4) checkValid_contains unfolding ever_allowed_def by blast
qed

lemma sessions_kept_length: "0 < maxSessionsPerUser opts \<Longrightarrow> length (sessions_kept opts stored) < maxSessionsPerUser opts"
  by (simp add: sessions_kept_def)

lemma length_update_le: "length (AList.update k v m) \<le> Suc (length m)"
  by (induction m) auto

lemma length_delete_le: "length (AList.delete k m) \<le> length m"
  by (simp add: AList.delete_eq)

text \<open>The comparison function of the sort is never positive or negative: the session that came last is dropped.\<close>

lemma newest_session_dropped:
  "length stored = maxSessionsPerUser opts \<Longrightarrow> sessions_kept opts stored = butlast stored"
  by (simp add: sessions_kept_def butlast_conv_take)

text \<open>The name of an inherited property is accepted as the hash of a session, which has no scopes.\<close>

lemma inherited_hash_is_session:
  "map_of ss uid = Some stored \<Longrightarrow> CHR ''_'' \<notin> set uid \<Longrightarrow> map_of stored ''constructor'' = None \<Longrightarrow>
     verifyAccessToken now (makeToken uid ''constructor'') 0 ss = Some (Session uid [], ''constructor'', None)"
  by (simp add: verifyAccessToken_def readToken_def makeToken_def split_on_append_sep inherited_names_def Let_def)

text \<open>
  The number of sessions. In any interleaving of requests, a user never has more sessions than the options allow.
\<close>

lemma sessions_bounded:
  assumes "acc_run c opts ((s, live) # past)" and "0 < maxSessionsPerUser opts"
    and "map_of (a_sessions s) uid = Some stored" and "uid \<noteq> ''_app''"
  shows "length stored \<le> maxSessionsPerUser opts"
proof -
  have "\<forall>s live past uid stored. run = (s, live) # past \<longrightarrow> map_of (a_sessions s) uid = Some stored \<longrightarrow>
      uid \<noteq> ''_app'' \<longrightarrow> length stored \<le> maxSessionsPerUser opts" if "acc_run c opts run" for run
    using that
  proof induction
    case (step x past y)
    obtain s0 live0 s1 live1 where xy: "x = (s0, live0)" "y = (s1, live1)" by (cases x; cases y)
    have "length stored \<le> maxSessionsPerUser opts"
      if m: "map_of (a_sessions s1) uid = Some stored" "uid \<noteq> ''_app''" for uid stored
      using step.hyps(2) unfolding xy
    proof (cases rule: acc_step.cases)
      case (access session now hash)
      then show ?thesis
        using m step.IH xy sessions_kept_length [OF assms(2), of "stored_sessions (ses_uid session) (a_sessions s0)"]
          order_trans [OF length_update_le]
        by (auto simp: save_session_def Suc_le_eq split: if_splits)
    next
      case (logout uid' stored' hash)
      then show ?thesis
        using m step.IH xy length_delete_le [of hash stored'] by (auto split: if_splits intro: order_trans)
    next
      case (preload token scopes)
      then show ?thesis
        using m step.IH xy by (auto simp: preloadApplicationToken_def Let_def readToken_plain split: if_splits)
    qed (use m step.IH xy in auto)
    then show ?case using xy by simp
  qed simp
  then show ?thesis using assms by blast
qed

section \<open>Instances of the properties\<close>

text \<open>A user with the role of users logs in through a third party and gets an access token.\<close>

lemma ex_scopes: "user_getScopes ex_user =
    Inr [''/self/basic/r'', ''/self/basic/w'', ''/self/subscriptions/r'', ''/self/subscriptions/cancel'']"
  by code_simp

lemma ex_run:
  "acc_run ex_crypto default_auth_options
     [(ex_accounts [(''ue'', ex_user)] (save_session default_auth_options 1000 ''h'' ex_session []), {ex_session}),
      (ex_accounts [(''ue'', ex_user)] [], {ex_session}), (ex_accounts [(''ue'', ex_user)] [], {}),
      (ex_accounts [(''ue'', user_create 0 ''e'')] [], {}), (ex_accounts [] [], {})]"
proof -
  let ?run = "acc_run ex_crypto default_auth_options"
  let ?s0 = "ex_accounts [] []" and ?s1 = "ex_accounts [(''ue'', user_create 0 ''e'')] []"
  let ?s2 = "ex_accounts [(''ue'', ex_user)] []"
  have 0: "?run [(?s0, {})]" by (rule acc_run.start) (simp_all add: ex_accounts_def)
  have "acc_step ex_crypto default_auth_options (?s0, {}) (?s1, {})"
    using acc_step.users [OF users_step.create [of ex_crypto "a_users ?s0" 0 "''e''"], of default_auth_options "{}"]
    by (simp add: ex_accounts_def users_create_def ex_crypto_def Let_def)
  then have 1: "?run [(?s1, {}), (?s0, {})]" by (rule acc_run.step [OF 0])
  have "acc_step ex_crypto default_auth_options (?s1, {}) (?s2, {})"
    using acc_step.users [OF users_step.add_role [of ex_crypto "a_users ?s1" "''ue''" "''user''"], of default_auth_options "{}"]
    by (simp add: ex_accounts_def users_update_def addRole_def role_isValid_def rolesScopesMap_def ex_user_def user_create_def)
  then have 2: "?run [(?s2, {}), (?s1, {}), (?s0, {})]" by (rule acc_run.step [OF 1])
  have "acc_step ex_crypto default_auth_options (?s2, {}) (?s2, {ex_session})"
    using acc_step.identified [of ?s2 ex_crypto "''e''" ex_user None, OF _ _ ex_scopes, of default_auth_options "{}"]
    by (simp add: ex_accounts_def ex_crypto_def password_accepted_def ex_session_def)
  then have 3: "?run [(?s2, {ex_session}), (?s2, {}), (?s1, {}), (?s0, {})]" by (rule acc_run.step [OF 2])
  have "acc_step ex_crypto default_auth_options (?s2, {ex_session})
      (ex_accounts [(''ue'', ex_user)] (save_session default_auth_options 1000 ''h'' ex_session []), {ex_session})"
    using acc_step.access [of ex_session "{ex_session}" ex_crypto default_auth_options ?s2 1000 "''h''"]
    by (simp add: ex_accounts_def)
  then show ?thesis by (rule acc_run.step [OF 3])
qed

lemma ex_verify:
  "verify 2000 ex_request [''/self/basic/r''] (save_session default_auth_options 1000 ''h'' ex_session []) = Some ex_session"
  by code_simp

lemma ex_stored:
  "save_session default_auth_options 1000 ''h'' ex_session [] = [(''ue'', [(''h'', \<lparr>s_expiration = 301, s_scopes = ses_scopes ex_session\<rparr>)])]"
  by code_simp

theorem no_escalation_witness:
  "\<exists>(st, _)\<in>set [(ex_accounts [(''ue'', ex_user)] (save_session default_auth_options 1000 ''h'' ex_session []), {ex_session}),
      (ex_accounts [(''ue'', ex_user)] [], {ex_session}), (ex_accounts [(''ue'', ex_user)] [], {}),
      (ex_accounts [(''ue'', user_create 0 ''e'')] [], {}), (ex_accounts [] [], {})].
     \<exists>u scopes. map_of (a_users st) (ses_uid ex_session) = Some u \<and> user_getScopes u = Inr scopes \<and>
       contains_scope scopes ''/self/basic/w''"
proof (rule no_escalation [OF ex_run])
  show "verify 2000 ex_request [''/self/basic/r''] (a_sessions (ex_accounts [(''ue'', ex_user)]
      (save_session default_auth_options 1000 ''h'' ex_session []))) = Some ex_session"
    using ex_verify by (simp add: ex_accounts_def)
  show "ses_uid ex_session \<noteq> ''_app''" by (simp add: ex_session_def Session_def)
  show "contains_scope (ses_scopes ex_session) ''/self/basic/w''" by code_simp
qed

end
