(* ===== verification/Accounts_Login.thy ===== *)
theory Accounts_Login
  imports Accounts_Users
begin

text \<open>
  Attempts to log in and the two rate limiters (\<open>apps/accounts/backend/app.js\<close> on
  \<open>nodejs/core/rate_limit.js\<close> on the cache), against a specification on logs of failures. The limiter is
  used through the interpretation \<open>RateLimit.bucket_store\<close>, for both of its buckets in one cache.
\<close>

section \<open>Two limiters in one cache\<close>

text \<open>A change of one bucket only.\<close>

definition only_bucket :: "string \<Rightarrow> int list cache2 \<Rightarrow> int list cache2 \<Rightarrow> bool" where
  "only_bucket b l l' = (settings l' = settings l \<and> (\<forall>x y. x \<noteq> b \<longrightarrow> entry_at l' x y = entry_at l x y))"

lemma only_bucket_refl: "only_bucket b l l"
  by (simp add: only_bucket_def)

lemma only_bucket_trans: "only_bucket b l l1 \<Longrightarrow> only_bucket b l1 l2 \<Longrightarrow> only_bucket b l l2"
  by (simp add: only_bucket_def)

lemma only_bucket_look: "only_bucket b l (fst (rl_look b now k l))"
  by (simp add: only_bucket_def rl_look_fst cache_getInstant_frame)

lemma only_bucket_put: "rl_ok b w l \<Longrightarrow> only_bucket b l (fst (rl_put b now k v l))"
proof -
  assume "rl_ok b w l"
  then obtain f where f: "settings l b = Some (w, f)" by (auto simp: rl_ok_def)
  have "StatusValue \<noteq> StatusFetching" by simp
  from cache_set_entry [OF f this] show ?thesis by (simp add: only_bucket_def rl_put_def)
qed

lemma only_bucket_over: "only_bucket b l (fst (rl_isOverLimit (rl_look b) cfg now k l))"
  using only_bucket_look [of b l now k] by (auto simp: rl_isOverLimit_def split: prod.splits sum.splits option.splits)

lemma only_bucket_record:
  assumes "rl_ok b w l"
  shows "only_bucket b l (fst (rl_record (rl_put b) (rl_look b) cfg now k l))"
proof -
  let ?l1 = "fst (rl_look b now k l)"
  have "rl_ok b w ?l1" by (rule bucket_store.look_ok [OF assms])
  then have "only_bucket b l (fst (rl_put b now k v ?l1))" for v
    using only_bucket_trans [OF only_bucket_look only_bucket_put] by blast
  then show ?thesis
    using only_bucket_look [of b l now k] by (auto simp: rl_record_def Let_def split: prod.splits sum.splits) (metis fst_conv)+
qed

lemma other_bucket:
  assumes "only_bucket b l l'" "rl_ok b w l'" "rl_ok b' w' l" "b' \<noteq> b"
  shows "rl_ok b' w' l'" and "rl_view b' l' = rl_view b' l"
  using assms by (auto simp: only_bucket_def rl_ok_def rl_view_def)

section \<open>The specification\<close>

text \<open>The failures of emails and of addresses since the last success.\<close>

record failures =
  of_email :: "string \<Rightarrow> int list"
  of_ip :: "string \<Rightarrow> int list"

definition no_failures :: failures where
  "no_failures = \<lparr>of_email = (\<lambda>_. []), of_ip = (\<lambda>_. [])\<rparr>"

definition limited :: "rl_config \<Rightarrow> int \<Rightarrow> int list \<Rightarrow> bool" where
  "limited cfg now log = (threshold cfg \<le> length (filter (\<lambda>t. now - windowMs cfg < t) log))"

text \<open>The answer to an email and a password without limits; \<open>None\<close> when they are not accepted.\<close>

definition check_identity :: "crypto \<Rightarrow> users \<Rightarrow> string \<Rightarrow> string option \<Rightarrow> identity outcome option" where
  "check_identity c us email password =
     (case map_of us (emailToUid c email) of
        None \<Rightarrow> None
      | Some u \<Rightarrow>
          if password_accepted c password u
          then Some (outcome_bind (user_getScopes u) (\<lambda>scopes. Inr (Identity (emailToUid c email) scopes))) else None)"

text \<open>An attempt: its time, the email, the password and the address of the caller.\<close>

type_synonym attempt = "int \<times> string \<times> string option \<times> string option"

definition attempt_rejected :: "attempt \<Rightarrow> failures \<Rightarrow> bool" where
  "attempt_rejected = (\<lambda>(now, email, password, caller) f.
     (case nonempty caller of None \<Rightarrow> False | Some ip \<Rightarrow> limited ip_limit now (of_ip f ip)) \<or>
     limited email_limit now (of_email f email))"

definition add_failure :: "attempt \<Rightarrow> failures \<Rightarrow> failures" where
  "add_failure = (\<lambda>(now, email, password, caller) f.
     \<lparr>of_email = (of_email f)(email := of_email f email @ [now]),
      of_ip = (case nonempty caller of None \<Rightarrow> of_ip f | Some ip \<Rightarrow> (of_ip f)(ip := of_ip f ip @ [now]))\<rparr>)"

definition clear_failures :: "attempt \<Rightarrow> failures \<Rightarrow> failures" where
  "clear_failures = (\<lambda>(now, email, password, caller) f.
     \<lparr>of_email = (of_email f)(email := []),
      of_ip = (case nonempty caller of None \<Rightarrow> of_ip f | Some ip \<Rightarrow> (of_ip f)(ip := []))\<rparr>)"

fun attempts_spec :: "(string \<Rightarrow> string option \<Rightarrow> identity outcome option) \<Rightarrow> failures \<Rightarrow> attempt list \<Rightarrow>
    identity outcome list" where
  "attempts_spec check f [] = []"
| "attempts_spec check f ((now, email, password, caller) # attempts) =
     (if attempt_rejected (now, email, password, caller) f
      then Inr TooManyAttempts # attempts_spec check f attempts
      else case check email password of
             None \<Rightarrow> Inr Unauthorized # attempts_spec check (add_failure (now, email, password, caller) f) attempts
           | Some answer \<Rightarrow> answer # attempts_spec check (clear_failures (now, email, password, caller) f) attempts)"

text \<open>The attempts of the code, one after the other.\<close>

fun attempts_run :: "crypto \<Rightarrow> attempt list \<Rightarrow> accounts \<Rightarrow> accounts \<times> identity outcome list" where
  "attempts_run c [] s = (s, [])"
| "attempts_run c ((now, email, password, caller) # attempts) s =
     (let (s1, answer) = verifyIdentity c now email password caller s;
          (s2, answers) = attempts_run c attempts s1
      in (s2, answer # answers))"

section \<open>The limiters keep to the logs\<close>

definition log_ok :: "int \<Rightarrow> int list \<Rightarrow> bool" where
  "log_ok now log = (sorted log \<and> (\<forall>t\<in>set log. t \<le> now))"

definition logs_ok :: "int \<Rightarrow> failures \<Rightarrow> bool" where
  "logs_ok now f = (\<forall>k. log_ok now (of_email f k) \<and> log_ok now (of_ip f k))"

definition limits_for :: "failures \<Rightarrow> int list cache2 \<Rightarrow> bool" where
  "limits_for f l =
     (rl_ok email_bucket (windowMs email_limit) l \<and> rl_ok ip_bucket (windowMs ip_limit) l \<and>
      (\<forall>k. stands_for email_limit (rl_view email_bucket l k) (of_email f k)) \<and>
      (\<forall>k. stands_for ip_limit (rl_view ip_bucket l k) (of_ip f k)))"

lemma buckets [simp]: "email_bucket \<noteq> ip_bucket" "ip_bucket \<noteq> email_bucket"
  by (simp_all add: email_bucket_def ip_bucket_def)

lemma limit_values [simp]:
  "0 < threshold email_limit" "0 < threshold ip_limit" "0 < windowMs email_limit" "0 < windowMs ip_limit"
  by (simp_all add: email_limit_def ip_limit_def)

lemma over_limited:
  assumes "rl_ok b (windowMs cfg) l" "0 \<le> now" "0 < threshold cfg" "stands_for cfg (rl_view b l k) log" "log_ok now log"
  shows "snd (rl_isOverLimit (rl_look b) cfg now k l) = Inr (limited cfg now log)"
    and "rl_ok b (windowMs cfg) (fst (rl_isOverLimit (rl_look b) cfg now k l))"
    and "rl_view b (fst (rl_isOverLimit (rl_look b) cfg now k l)) = rl_view b l"
proof -
  note over = bucket_store.isOverLimit_result [OF assms(1-3)]
  have "effective cfg now (rl_view b l k) = last_n (threshold cfg) (in_window cfg now log)"
    using effective_log [OF assms(4)] assms(5) by (simp add: log_ok_def)
  then show "snd (rl_isOverLimit (rl_look b) cfg now k l) = Inr (limited cfg now log)"
    using over(3) by (simp add: length_last_n limited_def in_window_def)
  show "rl_ok b (windowMs cfg) (fst (rl_isOverLimit (rl_look b) cfg now k l))"
    "rl_view b (fst (rl_isOverLimit (rl_look b) cfg now k l)) = rl_view b l"
    using over(1,2) by blast+
qed

lemma limits_for_email:
  assumes "limits_for f l" "only_bucket email_bucket l l'" "rl_ok email_bucket (windowMs email_limit) l'"
    and "\<And>k. stands_for email_limit (rl_view email_bucket l' k) (log k)"
  shows "limits_for (f\<lparr>of_email := log\<rparr>) l'"
  using assms other_bucket [OF assms(2,3), of ip_bucket "windowMs ip_limit"] by (simp add: limits_for_def)

lemma limits_for_ip:
  assumes "limits_for f l" "only_bucket ip_bucket l l'" "rl_ok ip_bucket (windowMs ip_limit) l'"
    and "\<And>k. stands_for ip_limit (rl_view ip_bucket l' k) (log k)"
  shows "limits_for (f\<lparr>of_ip := log\<rparr>) l'"
  using assms other_bucket [OF assms(2,3), of email_bucket "windowMs email_limit"] by (simp add: limits_for_def)

lemma over_email:
  assumes "limits_for f l" "logs_ok now f" "0 \<le> now"
  obtains l' where "rl_isOverLimit (rl_look email_bucket) email_limit now k l = (l', Inr (limited email_limit now (of_email f k)))"
    "limits_for f l'"
proof -
  let ?r = "rl_isOverLimit (rl_look email_bucket) email_limit now k l"
  have "rl_ok email_bucket (windowMs email_limit) l" "stands_for email_limit (rl_view email_bucket l k) (of_email f k)"
    "log_ok now (of_email f k)" using assms by (simp_all add: limits_for_def logs_ok_def)
  note over = over_limited [OF this(1) assms(3) _ this(2,3), simplified]
  have "limits_for (f\<lparr>of_email := of_email f\<rparr>) (fst ?r)"
    by (rule limits_for_email [OF assms(1) only_bucket_over over(2)]) (use assms(1) in \<open>simp add: over(3) limits_for_def\<close>)
  with over(1) that [of "fst ?r"] show ?thesis by (simp add: prod_eq_iff)
qed

lemma over_ip:
  assumes "limits_for f l" "logs_ok now f" "0 \<le> now"
  obtains l' where "rl_isOverLimit (rl_look ip_bucket) ip_limit now k l = (l', Inr (limited ip_limit now (of_ip f k)))"
    "limits_for f l'"
proof -
  let ?r = "rl_isOverLimit (rl_look ip_bucket) ip_limit now k l"
  have "rl_ok ip_bucket (windowMs ip_limit) l" "stands_for ip_limit (rl_view ip_bucket l k) (of_ip f k)"
    "log_ok now (of_ip f k)" using assms by (simp_all add: limits_for_def logs_ok_def)
  note over = over_limited [OF this(1) assms(3) _ this(2,3), simplified]
  have "limits_for (f\<lparr>of_ip := of_ip f\<rparr>) (fst ?r)"
    by (rule limits_for_ip [OF assms(1) only_bucket_over over(2)]) (use assms(1) in \<open>simp add: over(3) limits_for_def\<close>)
  with over(1) that [of "fst ?r"] show ?thesis by (simp add: prod_eq_iff)
qed

lemma over_limit_spec:
  assumes "limits_for f l" "logs_ok now f" "0 \<le> now"
  obtains l' where "over_limit now email caller l = (l', Inr (attempt_rejected (now, email, password, caller) f))"
    "limits_for f l'"
proof (cases "nonempty caller")
  case None
  then show ?thesis
    using over_email [OF assms, of email] that by (auto simp: over_limit_def attempt_rejected_def)
next
  case (Some ip)
  obtain l1 where l1: "rl_isOverLimit (rl_look ip_bucket) ip_limit now ip l = (l1, Inr (limited ip_limit now (of_ip f ip)))"
    "limits_for f l1" by (rule over_ip [OF assms])
  show ?thesis
  proof (cases "limited ip_limit now (of_ip f ip)")
    case True
    then show ?thesis using that [of l1] l1 Some by (simp add: over_limit_def attempt_rejected_def)
  next
    case False
    then show ?thesis
      using over_email [OF l1(2) assms(2,3), of email] that l1 Some by (auto simp: over_limit_def attempt_rejected_def)
  qed
qed

text \<open>Recording and resetting.\<close>

lemma record_limiter:
  fixes k k' :: string
  assumes "rl_ok b (windowMs cfg) l" "0 \<le> now" "0 < windowMs cfg"
    and "\<And>k. stands_for cfg (rl_view b l k) (log k)" "\<And>k. log_ok now (log k)"
  defines "r \<equiv> rl_record (rl_put b) (rl_look b) cfg now k l"
  shows "\<exists>ok. snd r = Inr ok" and "rl_ok b (windowMs cfg) (fst r)" and "only_bucket b l (fst r)"
    and "stands_for cfg (rl_view b (fst r) k') ((log(k := log k @ [now])) k')"
proof -
  have sorted: "sorted (log k)" "\<forall>t\<in>set (log k). t \<le> now" using assms(5) by (simp_all add: log_ok_def)
  note rec = bucket_store.record_log [OF assms(1,2) refl assms(3,4) sorted]
  note res = bucket_store.record_result [OF assms(1,2), of cfg k]
  show "\<exists>ok. snd r = Inr ok" "rl_ok b (windowMs cfg) (fst r)" using rec(1) res(1) by (auto simp: r_def)
  show "only_bucket b l (fst r)" unfolding r_def by (rule only_bucket_record [OF assms(1)])
  show "stands_for cfg (rl_view b (fst r) k') ((log(k := log k @ [now])) k')"
  proof (cases "k' = k")
    case True
    then show ?thesis using rec(2) by (simp add: r_def)
  next
    case False
    then show ?thesis using res(3) assms(4) by (simp add: r_def)
  qed
qed

lemma reset_limiter:
  fixes k k' :: string and now :: int
  assumes "rl_ok b (windowMs cfg) l" "\<And>k. stands_for cfg (rl_view b l k) (log k)"
  defines "r \<equiv> rl_reset (rl_put b) now k l"
  shows "snd r = Inr ()" and "rl_ok b (windowMs cfg) (fst r)" and "only_bucket b l (fst r)"
    and "stands_for cfg (rl_view b (fst r) k') ((log(k := [])) k')"
  using bucket_store.put_ok [OF assms(1)] bucket_store.put_returns [OF assms(1)] bucket_store.put_view [OF assms(1)]
    only_bucket_put [OF assms(1)] assms(2)
  by (simp_all add: r_def rl_reset_def stands_for_def)

lemma limits_for_parts:
  assumes "limits_for f l"
  shows "rl_ok email_bucket (windowMs email_limit) l" "rl_ok ip_bucket (windowMs ip_limit) l"
    "stands_for email_limit (rl_view email_bucket l k) (of_email f k)"
    "stands_for ip_limit (rl_view ip_bucket l k) (of_ip f k)"
  using assms by (simp_all add: limits_for_def)

lemma record_failure_spec:
  assumes "limits_for f l" "logs_ok now f" "0 \<le> now"
  obtains l' where "record_failure now email caller l = (l', Inr ())"
    "limits_for (add_failure (now, email, password, caller) f) l'"
proof -
  have logs: "log_ok now (of_email f k)" "log_ok now (of_ip f k)" for k using assms(2) by (simp_all add: logs_ok_def)
  let ?r1 = "rl_record (rl_put email_bucket) (rl_look email_bucket) email_limit now email l"
  let ?f1 = "f\<lparr>of_email := (of_email f)(email := of_email f email @ [now])\<rparr>"
  note rec = record_limiter [where log = "of_email f", OF limits_for_parts(1) [OF assms(1)] assms(3) _ limits_for_parts(3) [OF assms(1)] logs(1)]
  obtain l1 ok where r1: "?r1 = (l1, Inr ok)" using rec(1) [of email] by (cases ?r1) auto
  have f1: "limits_for ?f1 l1"
    using limits_for_email [OF assms(1), of l1 "of_email ?f1"] rec(2-4) [of email] by (simp add: r1)
  show ?thesis
  proof (cases "nonempty caller")
    case None
    have "add_failure (now, email, password, caller) f = ?f1" by (simp add: add_failure_def None)
    moreover have "record_failure now email caller l = (l1, Inr ())" by (simp add: record_failure_def r1 None)
    ultimately show ?thesis using that f1 by simp
  next
    case (Some ip)
    let ?r2 = "rl_record (rl_put ip_bucket) (rl_look ip_bucket) ip_limit now ip l1"
    have logs1: "log_ok now (of_ip ?f1 k)" for k using logs(2) by simp
    note rec2 = record_limiter [where log = "of_ip ?f1", OF limits_for_parts(2) [OF f1] assms(3) _ limits_for_parts(4) [OF f1] logs1]
    obtain l2 ok2 where r2: "?r2 = (l2, Inr ok2)" using rec2(1) [of ip] by (cases ?r2) auto
    have "limits_for (?f1\<lparr>of_ip := (of_ip ?f1)(ip := of_ip ?f1 ip @ [now])\<rparr>) l2"
      by (rule limits_for_ip [OF f1]) (use rec2(2-4) [of ip] in \<open>simp_all add: r2\<close>)
    moreover have "add_failure (now, email, password, caller) f = ?f1\<lparr>of_ip := (of_ip ?f1)(ip := of_ip ?f1 ip @ [now])\<rparr>"
      by (simp add: add_failure_def Some)
    moreover have "record_failure now email caller l = (l2, Inr ())" by (simp add: record_failure_def r1 r2 Some)
    ultimately show ?thesis using that by simp
  qed
qed

lemma reset_limits_spec:
  assumes "limits_for f l"
  obtains l' where "reset_limits now email caller l = (l', Inr ())"
    "limits_for (clear_failures (now, email, password, caller) f) l'"
proof -
  let ?r1 = "rl_reset (rl_put email_bucket) now email l"
  let ?f1 = "f\<lparr>of_email := (of_email f)(email := [])\<rparr>"
  note rec = reset_limiter [where log = "of_email f", OF limits_for_parts(1,3) [OF assms]]
  have r1: "?r1 = (fst ?r1, Inr ())" using rec(1) by (simp add: prod_eq_iff)
  have f1: "limits_for ?f1 (fst ?r1)" by (rule limits_for_email [OF assms]) (rule rec)+
  show ?thesis
  proof (cases "nonempty caller")
    case None
    have "clear_failures (now, email, password, caller) f = ?f1" by (simp add: clear_failures_def None)
    moreover have "reset_limits now email caller l = (fst ?r1, Inr ())"
      unfolding reset_limits_def by (subst r1) (simp add: None)
    ultimately show ?thesis using that f1 by simp
  next
    case (Some ip)
    let ?r2 = "rl_reset (rl_put ip_bucket) now ip (fst ?r1)"
    note rec2 = reset_limiter [where log = "of_ip ?f1", OF limits_for_parts(2,4) [OF f1]]
    have r2: "?r2 = (fst ?r2, Inr ())" using rec2(1) by (simp add: prod_eq_iff)
    have "limits_for (?f1\<lparr>of_ip := (of_ip ?f1)(ip := [])\<rparr>) (fst ?r2)"
      by (rule limits_for_ip [OF f1]) (rule rec2)+
    moreover have "clear_failures (now, email, password, caller) f = ?f1\<lparr>of_ip := (of_ip ?f1)(ip := [])\<rparr>"
      by (simp add: clear_failures_def Some)
    moreover have "reset_limits now email caller l = (fst ?r2, Inr ())"
      unfolding reset_limits_def by (subst r1) (simp add: Some prod_eq_iff rec2(1))
    ultimately show ?thesis using that by simp
  qed
qed

section \<open>The attempts\<close>

lemma log_ok_later: "log_ok now log \<Longrightarrow> now \<le> now' \<Longrightarrow> log_ok now' log"
  by (auto simp: log_ok_def)

lemma logs_ok_ops:
  assumes "logs_ok now f"
  shows "logs_ok now (add_failure (now, email, password, caller) f)"
    and "logs_ok now (clear_failures (now, email, password, caller) f)"
    and "now \<le> now' \<Longrightarrow> logs_ok now' f"
proof -
  show "logs_ok now (add_failure (now, email, password, caller) f)"
    "logs_ok now (clear_failures (now, email, password, caller) f)"
    using assms
    by (auto simp: logs_ok_def add_failure_def clear_failures_def log_ok_def sorted_append split: option.splits)
  show "now \<le> now' \<Longrightarrow> logs_ok now' f" using assms log_ok_later unfolding logs_ok_def by blast
qed

text \<open>A login changes nothing of the users that it looks at.\<close>

lemma check_identity_update:
  assumes "map_of us uid = Some u" "u_password u' = u_password u" "u_roles u' = u_roles u"
  shows "check_identity c (AList.update uid u' us) = check_identity c us"
  using assms
  by (auto simp: check_identity_def fun_eq_iff password_accepted_def isPasswordEqual_def user_getScopes_def
      split: option.splits)

lemma verifyIdentity_spec:
  assumes "limits_for f (a_limits s)" "logs_ok now f" "0 \<le> now"
  shows "\<exists>s'. verifyIdentity c now email password caller s = (s',
      if attempt_rejected (now, email, password, caller) f then Inr TooManyAttempts
      else case check_identity c (a_users s) email password of None \<Rightarrow> Inr Unauthorized | Some answer \<Rightarrow> answer) \<and>
    check_identity c (a_users s') = check_identity c (a_users s) \<and>
    limits_for (if attempt_rejected (now, email, password, caller) f then f
      else case check_identity c (a_users s) email password of
        None \<Rightarrow> add_failure (now, email, password, caller) f
      | Some answer \<Rightarrow> clear_failures (now, email, password, caller) f) (a_limits s')"
proof -
  obtain l1 where l1: "over_limit now email caller (a_limits s) = (l1, Inr (attempt_rejected (now, email, password, caller) f))"
    "limits_for f l1" by (rule over_limit_spec [OF assms])
  obtain l2 where l2: "record_failure now email caller l1 = (l2, Inr ())"
    "limits_for (add_failure (now, email, password, caller) f) l2" by (rule record_failure_spec [OF l1(2) assms(2,3)])
  obtain l3 where l3: "reset_limits now email caller l1 = (l3, Inr ())"
    "limits_for (clear_failures (now, email, password, caller) f) l3" by (rule reset_limits_spec [OF l1(2)])
  note facts = verifyIdentity_def l1(1) l2(1) l3(1) Let_def
  show ?thesis
  proof (cases "attempt_rejected (now, email, password, caller) f")
    case True
    then show ?thesis using l1(2) by (simp add: facts)
  next
    case allowed: False
    show ?thesis
    proof (cases "map_of (a_users s) (emailToUid c email)")
      case None
      then show ?thesis using allowed l2(2) by (simp add: facts check_identity_def)
    next
      case (Some u)
      show ?thesis
      proof (cases "password_accepted c password u")
        case True
        then have "check_identity c (a_users s) email password =
          Some (outcome_bind (user_getScopes u) (\<lambda>scopes. Inr (Identity (emailToUid c email) scopes)))"
          using Some by (simp add: check_identity_def)
        then show ?thesis
          using allowed Some True l3(2) check_identity_update [OF Some, of "u\<lparr>u_last_login := now\<rparr>" c]
          by (simp add: facts users_update_def)
      next
        case False
        then have "check_identity c (a_users s) email password = None" using Some by (simp add: check_identity_def)
        then show ?thesis
          using allowed Some False l2(2) check_identity_update [OF Some, of "u\<lparr>u_last_failed_login := now\<rparr>" c]
          by (simp add: facts users_update_def)
      qed
    qed
  qed
qed

lemma attempts_run_spec:
  assumes "limits_for f (a_limits s)" "logs_ok t f" "0 \<le> t" "sorted (t # map fst attempts)"
  shows "snd (attempts_run c attempts s) = attempts_spec (check_identity c (a_users s)) f attempts"
  using assms
proof (induction attempts arbitrary: s f t)
  case (Cons x attempts)
  obtain now email password caller where x: "x = (now, email, password, caller)" by (cases x)
  have now: "logs_ok now f" "0 \<le> now" using Cons.prems(2-4) logs_ok_ops(3) by (auto simp: x)
  obtain s' where s': "verifyIdentity c now email password caller s = (s',
      if attempt_rejected (now, email, password, caller) f then Inr TooManyAttempts
      else case check_identity c (a_users s) email password of None \<Rightarrow> Inr Unauthorized | Some answer \<Rightarrow> answer)"
    "check_identity c (a_users s') = check_identity c (a_users s)"
    "limits_for (if attempt_rejected (now, email, password, caller) f then f
      else case check_identity c (a_users s) email password of
        None \<Rightarrow> add_failure (now, email, password, caller) f
      | Some answer \<Rightarrow> clear_failures (now, email, password, caller) f) (a_limits s')" (is "limits_for ?f _")
    using verifyIdentity_spec [OF Cons.prems(1) now, of c email password caller] by blast
  have "logs_ok now ?f" using now(1) logs_ok_ops(1,2) [OF now(1)] by (auto split: option.split)
  moreover have "sorted (now # map fst attempts)" using Cons.prems(4) by (simp add: x)
  ultimately have "snd (attempts_run c attempts s') = attempts_spec (check_identity c (a_users s)) ?f attempts"
    using Cons.IH [OF s'(3) _ now(2)] s'(2) by simp
  then show ?case by (simp add: x s'(1) Let_def split_def split: option.split)
qed simp

section \<open>From registration on\<close>

text \<open>The two limiters, as \<open>app.js\<close> makes them.\<close>

definition make_limiters :: "int list cache2 \<Rightarrow> int list cache2 outcome" where
  "make_limiters l = outcome_bind (rl_new email_bucket email_limit l) (rl_new ip_bucket ip_limit)"

lemma make_limiters_for:
  assumes "make_limiters l0 = Inr l" "cache_ok l0" "\<And>b k. entry_at l0 b k = None"
  shows "limits_for no_failures l"
proof -
  obtain l1 where l1: "rl_new email_bucket email_limit l0 = Inr l1" "rl_new ip_bucket ip_limit l1 = Inr l"
    using assms(1) by (auto simp: make_limiters_def outcome_bind_eq_Inr)
  note new1 = rl_new_ok [OF assms(2) l1(1) assms(3)]
  have reg: "cache_register email_bucket (Some (windowMs email_limit)) None l0 = Inr l1"
    "cache_register ip_bucket (Some (windowMs ip_limit)) None l1 = Inr l"
    using l1 by (simp_all add: rl_new_def)
  have empty: "entry_at l1 b k = None" for b k using cache_register_entry(1) [OF reg(1)] assms(3) by simp
  have "cache_ok l1" using new1(1) by (simp add: rl_ok_def)
  note new2 = rl_new_ok [OF this l1(2) empty]
  have "entry_at l b k = None" for b k using cache_register_entry(1) [OF reg(2)] empty by simp
  moreover have "settings l email_bucket = settings l1 email_bucket" using cache_register_entry [OF reg(2)] by simp
  ultimately have "rl_ok email_bucket (windowMs email_limit) l" "rl_view email_bucket l k = None" for k
    using new1(1) new2(1) by (auto simp: rl_ok_def rl_view_def)
  with new2 show ?thesis by (simp add: limits_for_def no_failures_def stands_for_def)
qed

text \<open>
  C4. Attempts to log in are limited. After the limiters were made on a cache, every sequence of attempts, at times
  that do not decrease, is answered as the specification on the logs of failures: an attempt is rejected, without a
  look at the password, when the email has five failures or the address thirty within the quarter of an hour before
  it, counted since the last success; otherwise the password decides, a failure is added to both logs, and a success
  clears both. The limits on the stored lists, the timeouts of the cache, and the two limiters in one cache make no
  difference. (A garbage collection of the cache in between is not considered: it may drop a stored list.)
\<close>

theorem login_limited:
  assumes "make_limiters l = Inr (a_limits s)" and "cache_ok l" and "\<And>b k. entry_at l b k = None"
    and "sorted (map fst attempts)" and "\<forall>(now, _)\<in>set attempts. 0 \<le> now"
  shows "snd (attempts_run c attempts s) = attempts_spec (check_identity c (a_users s)) no_failures attempts"
proof (rule attempts_run_spec [OF make_limiters_for [OF assms(1-3)]])
  show "logs_ok 0 no_failures" by (simp add: logs_ok_def log_ok_def no_failures_def)
  show "sorted (0 # map fst attempts)" using assms(4,5) by auto
qed simp

text \<open>Five wrong passwords, the right one, and the right one a quarter of an hour later.\<close>

definition ex_attempts :: "attempt list" where
  "ex_attempts = map (\<lambda>t. (t, ''e'', Some ''wrong'', Some ''1.2.3.4'')) [1000, 2000, 3000, 4000, 5000] @
     [(6000, ''e'', Some ''old'', Some ''1.2.3.4''), (901001, ''e'', Some ''old'', Some ''1.2.3.4'')]"

theorem login_limited_witness:
  "\<exists>l. make_limiters (cache_new 5 100 (\<lambda>v. 1)) = Inr l \<and>
    snd (attempts_run ex_crypto ex_attempts (ex_logged_in\<lparr>a_limits := l\<rparr>)) =
      [Inr Unauthorized, Inr Unauthorized, Inr Unauthorized, Inr Unauthorized, Inr Unauthorized,
       Inr TooManyAttempts, Inr (Identity ''ue'' (ses_scopes ex_session))]"
proof -
  obtain l where l: "make_limiters (cache_new 5 100 (\<lambda>v. 1)) = Inr l"
    by (simp add: make_limiters_def rl_new_def cache_register_def cache_new_def email_bucket_def ip_bucket_def Let_def)
  have ok: "cache_ok (cache_new 5 100 (\<lambda>v. 1 :: int))" by (rule cache_new_ok) simp_all
  have empty: "entry_at (cache_new 5 100 (\<lambda>v. 1)) b k = None" for b k by (simp add: cache_new_def entry_at_def)
  have "snd (attempts_run ex_crypto ex_attempts (ex_logged_in\<lparr>a_limits := l\<rparr>)) =
      attempts_spec (check_identity ex_crypto (a_users (ex_logged_in\<lparr>a_limits := l\<rparr>))) no_failures ex_attempts"
    by (rule login_limited [OF _ ok empty]) (simp_all add: l ex_attempts_def)
  also have "a_users (ex_logged_in\<lparr>a_limits := l\<rparr>) = [(''ue'', setPassword ex_crypto ''s'' ''old'' ex_user)]"
    by (simp add: ex_logged_in_def ex_accounts_def)
  also have "attempts_spec (check_identity ex_crypto [(''ue'', setPassword ex_crypto ''s'' ''old'' ex_user)]) no_failures
      ex_attempts = [Inr Unauthorized, Inr Unauthorized, Inr Unauthorized, Inr Unauthorized, Inr Unauthorized,
       Inr TooManyAttempts, Inr (Identity ''ue'' (ses_scopes ex_session))]" by code_simp
  finally show ?thesis using l by blast
qed

section \<open>The life of a session\<close>

text \<open>The keys of a table of tokens or sessions are different, and none has the separator of tokens.\<close>

definition plain_keys :: "(string \<times> 'v) list \<Rightarrow> bool" where
  "plain_keys m = (wf_map m \<and> (\<forall>h\<in>fst ` set m. CHR ''_'' \<notin> set h))"

lemma readToken_makeToken:
  "CHR ''_'' \<notin> set uid \<Longrightarrow> CHR ''_'' \<notin> set hash \<Longrightarrow> readToken (makeToken uid hash) = (uid, hash)"
  by (simp add: readToken_def makeToken_def split_on_append_sep split_on_no_sep)

lemma find_map_of: "wf_map m \<Longrightarrow> List.find P m = Some (k, v) \<Longrightarrow> map_of m k = Some v \<and> P (k, v)"
  by (auto simp: find_Some_iff)

text \<open>The token that is answered stands for a session with the scopes that are answered.\<close>

lemma makeAccessToken_found:
  assumes "makeAccessToken opts now hash session ss = (ss', answer)" "CHR ''_'' \<notin> set (ses_uid session)"
    and "CHR ''_'' \<notin> set hash" "plain_keys (stored_sessions (ses_uid session) ss)" "distinct (ses_scopes session)"
    and "Scopes (ses_scopes session) = ses_scopes session"
  obtains h d timeout stored where "to_token answer = makeToken (ses_uid session) h" "CHR ''_'' \<notin> set h"
    "map_of ss' (ses_uid session) = Some stored" "map_of stored h = Some d" "to_timeout answer = Some timeout"
    "s_expiration d = getTimestamp now + timeout" "set (Scopes (s_scopes d)) = set (ses_scopes session)"
    "to_scopes answer = ses_scopes session" "to_uid answer = ses_uid session"
proof (cases "List.find (\<lambda>(h, d). s_expiration d - getTimestamp now \<ge> tokenAccessExpiresInReuse opts \<and>
    sameAs (ses_scopes session) (s_scopes d)) (stored_sessions (ses_uid session) ss)")
  case None
  let ?d = "\<lparr>s_expiration = getTimestamp now + tokenAccessExpiresIn opts, s_scopes = ses_scopes session\<rparr>"
  have "ss' = save_session opts now hash session ss" "to_token answer = makeToken (ses_uid session) hash"
    "to_timeout answer = Some (tokenAccessExpiresIn opts)" "to_scopes answer = ses_scopes session"
    "to_uid answer = ses_uid session"
    using assms(1) None by (auto simp: makeAccessToken_def Let_def)
  then show ?thesis
    using that [of hash "AList.update hash ?d (sessions_kept opts (stored_sessions (ses_uid session) ss))" ?d
        "tokenAccessExpiresIn opts"] assms(3,6) by (simp add: save_session_def)
next
  case (Some x)
  obtain h d where x: "x = (h, d)" by (cases x)
  have wf: "wf_map (stored_sessions (ses_uid session) ss)" using assms(4) by (simp add: plain_keys_def)
  have hd: "map_of (stored_sessions (ses_uid session) ss) h = Some d" "sameAs (ses_scopes session) (s_scopes d)"
    using find_map_of [OF wf Some [unfolded x]] by simp_all
  then have "map_of ss (ses_uid session) = Some (stored_sessions (ses_uid session) ss)"
    by (auto simp: stored_sessions_def split: option.splits)
  moreover have "CHR ''_'' \<notin> set h" using assms(4) map_of_SomeD [OF hd(1)] by (force simp: plain_keys_def)
  moreover have "ss' = ss" "to_token answer = makeToken (ses_uid session) h"
    "to_timeout answer = Some (s_expiration d - getTimestamp now)" "to_scopes answer = ses_scopes session"
    "to_uid answer = ses_uid session"
    using assms(1) Some by (auto simp: makeAccessToken_def Let_def x)
  ultimately show ?thesis using that hd(1) sameAs_set [OF assms(5) hd(2)] by simp
qed

lemma verify_found:
  assumes "getAccessToken r = Some (makeToken uid h)" "CHR ''_'' \<notin> set uid" "CHR ''_'' \<notin> set h"
    and "map_of ss uid = Some stored" "map_of stored h = Some d" "getTimestamp now \<le> s_expiration d"
    and "required = [] \<or> matchAny (Scopes (s_scopes d)) required"
  shows "verify now r required ss = Some (Session uid (s_scopes d))"
  using assms readToken_makeToken [OF assms(2,3)]
  by (auto simp: verify_def verify_impl_def verifyAccessToken_def Session_def)

lemma matchAny_set: "set xs = set ys \<Longrightarrow> matchAny xs required = matchAny ys required"
  by (simp add: matchAny_def contains_scope_def list_ex_iff)

text \<open>
  What later requests do to the sessions (\<open>acc_step\<close>), as far as the session of a user under a hash stays: access tokens
  for other users, and under other hashes for this user while he has room for another session; logouts with other
  tokens; and tokens of applications.
\<close>

inductive keeps_session :: "auth_options \<Rightarrow> string \<Rightarrow> string \<Rightarrow> sessions \<Rightarrow> sessions \<Rightarrow> bool" for opts uid h where
  other_user: "ses_uid session \<noteq> uid \<Longrightarrow> keeps_session opts uid h ss (save_session opts now hash session ss)"
| room: "ses_uid session = uid \<Longrightarrow> hash \<noteq> h \<Longrightarrow> length (stored_sessions uid ss) < maxSessionsPerUser opts \<Longrightarrow>
    keeps_session opts uid h ss (save_session opts now hash session ss)"
| logout: "map_of ss uid' = Some stored \<Longrightarrow> uid' \<noteq> uid \<or> hash \<noteq> h \<Longrightarrow>
    keeps_session opts uid h ss (AList.update uid' (AList.delete hash stored) ss)"
| preload: "keeps_session opts uid h ss (fst (preloadApplicationToken token scopes ss))"

text \<open>All other steps that change the sessions log out with the token, make it again, or find no room.\<close>

lemma acc_step_keeps_session:
  assumes "acc_step c opts (s, live) (s', live')"
  shows "a_sessions s' = a_sessions s \<or> keeps_session opts uid h (a_sessions s) (a_sessions s') \<or>
    (\<exists>stored. map_of (a_sessions s) uid = Some stored \<and> a_sessions s' = AList.update uid (AList.delete h stored) (a_sessions s)) \<or>
    (\<exists>now hash session. ses_uid session = uid \<and> a_sessions s' = save_session opts now hash session (a_sessions s) \<and>
       (hash = h \<or> length (stored_sessions uid (a_sessions s)) \<ge> maxSessionsPerUser opts))"
  using assms
proof cases
  case (access session now hash)
  then show ?thesis using keeps_session.other_user [of session uid opts h "a_sessions s" now hash]
      keeps_session.room [of session uid hash h "a_sessions s" opts now] by fastforce
next
  case (logout uid' stored hash)
  then show ?thesis using keeps_session.logout [of "a_sessions s" uid' stored uid hash h opts] by fastforce
qed (auto intro: keeps_session.preload)

lemma keeps_session_stored:
  assumes "keeps_session opts uid h ss ss'" and "map_of ss uid = Some stored" and "map_of stored h = Some d"
    and "CHR ''_'' \<notin> set uid"
  shows "\<exists>stored'. map_of ss' uid = Some stored' \<and> map_of stored' h = Some d"
  using assms(1)
proof cases
  case (room session hash now)
  then show ?thesis using assms(2,3) by (simp add: save_session_def sessions_kept_def stored_sessions_def)
next
  case (logout uid' stored' hash)
  then show ?thesis using assms(2,3) by (auto simp: delete_conv')
next
  case (preload token scopes)
  have "uid \<noteq> ''_app''" using assms(4) by auto
  then show ?thesis using preload assms(2,3)
    by (auto simp: preloadApplicationToken_def Let_def readToken_plain split: if_splits)
qed (use assms(2,3) in \<open>simp add: save_session_def\<close>)

lemma keeps_sessions_stored:
  assumes "rtranclp (keeps_session opts uid h) ss ss'" and "map_of ss uid = Some stored" and "map_of stored h = Some d"
    and "CHR ''_'' \<notin> set uid"
  shows "\<exists>stored'. map_of ss' uid = Some stored' \<and> map_of stored' h = Some d"
  using assms(1)
proof (induction rule: rtranclp_induct)
  case (step ss1 ss2)
  then show ?case using keeps_session_stored assms(4) by blast
qed (use assms(2,3) in blast)

text \<open>
  C14. A login gives a session. After a login that succeeded, and until the timeout that it answers, a request with the
  token that it answers is accepted as a session of the user of the email, with just the scopes of his roles, and
  wherever these contain one of the scopes that are required. This holds in the state after the login, and after any
  later requests, as long as none logs out with this token and the user has room for every further session that is
  made for him: the login that finds no room drops the session made last (\<open>newest_session_dropped\<close>). (Identifiers and
  hashes are hexadecimal, so that they do not contain the separator of tokens.)
\<close>

theorem login_gives_session:
  assumes "login c opts now hashRefresh hash name persistent email password caller s = (s', Inr (answer, cookies))"
    and "CHR ''_'' \<notin> set (emailToUid c email)" and "CHR ''_'' \<notin> set hash"
    and "plain_keys (stored_sessions (emailToUid c email) (a_sessions s))"
    and "rtranclp (keeps_session opts (emailToUid c email) (snd (readToken (to_token answer)))) (a_sessions s') ss2"
    and "getAccessToken r = Some (to_token answer)"
    and "getTimestamp later \<le> getTimestamp now + the (to_timeout answer)"
    and "required = [] \<or> matchAny (to_scopes answer) required"
  shows "\<exists>u scopes session. map_of (a_users s) (emailToUid c email) = Some u \<and> password_accepted c password u \<and>
    user_getScopes u = Inr scopes \<and> verify later r required ss2 = Some session \<and>
    ses_uid session = emailToUid c email \<and> set (ses_scopes session) = set scopes"
proof -
  obtain s1 result where v: "verifyIdentity c now email password caller s = (s1, result)"
    by (cases "verifyIdentity c now email password caller s")
  then obtain uid scopes where r: "result = Inr (Identity uid scopes)"
    using assms(1) by (auto simp: login_def split: sum.splits identity.splits)
  note state = verifyIdentity_state [OF v]
  obtain u where u: "uid = emailToUid c email" "map_of (a_users s) uid = Some u" "password_accepted c password u"
    "user_getScopes u = Inr scopes" using state(3) [OF r] by blast
  define session where "session = Session uid scopes"
  have scopes: "Scopes scopes = scopes" using u(4) by (auto simp: user_getScopes_def roles_getScopes_def split: if_splits)
  have ses: "ses_uid session = uid" "ses_scopes session = scopes" by (simp_all add: session_def Session_def scopes)
  have "a_sessions s1 = a_sessions s" using arg_cong [OF state(1), of a_sessions] by simp
  then obtain ss where ss: "makeAccessToken opts now hash session (a_sessions s) = (ss, answer)" "a_sessions s' = ss"
    using assms(1) by (auto simp: login_def v r session_def Let_def split: prod.splits sum.splits)
  have keys: "CHR ''_'' \<notin> set (ses_uid session)" "plain_keys (stored_sessions (ses_uid session) (a_sessions s))"
    "Scopes (ses_scopes session) = ses_scopes session" using assms(2,4) ses u(1) scopes by simp_all
  have "distinct (Scopes scopes)" by (simp add: Scopes_def)
  then have dist: "distinct (ses_scopes session)" by (simp add: ses scopes)
  obtain h d timeout stored where found: "to_token answer = makeToken uid h" "CHR ''_'' \<notin> set h"
    "map_of ss uid = Some stored" "map_of stored h = Some d" "to_timeout answer = Some timeout"
    "s_expiration d = getTimestamp now + timeout" "set (Scopes (s_scopes d)) = set scopes" "to_scopes answer = scopes"
    by (rule makeAccessToken_found [OF ss(1) keys(1) assms(3) keys(2) dist keys(3), unfolded ses]) (rule that; assumption)
  have uid: "CHR ''_'' \<notin> set uid" using assms(2) u(1) by simp
  have "rtranclp (keeps_session opts uid h) ss ss2"
    using assms(5) found(1) readToken_makeToken [OF uid found(2)] ss(2) u(1) by simp
  from keeps_sessions_stored [OF this found(3,4) uid]
  obtain stored2 where stored2: "map_of ss2 uid = Some stored2" "map_of stored2 h = Some d" by blast
  have "verify later r required ss2 = Some (Session uid (s_scopes d))"
    by (rule verify_found [OF _ uid found(2) stored2])
      (use assms(6-8) found matchAny_set [OF found(7)] in auto)
  then show ?thesis using u found(7) ss(2) by (intro exI [of _ u] exI [of _ scopes] exI [of _ "Session uid (s_scopes d)"]) (simp add: Session_def)
qed

text \<open>What a refresh does to the tokens of the user.\<close>

lemma rollToken_ok:
  assumes "getToken h u = Inr (Some t)" "getToken hashNext u = Inr None"
  shows "rollToken h hashNext change u =
    Inr (u\<lparr>u_tokens := Some (AList.update hashNext (change t) (AList.delete h (getTokens u)))\<rparr>, change t)"
  using assms by (simp add: rollToken_def)

lemma getToken_none:
  "map_of (getTokens u) h = None \<Longrightarrow> h \<notin> set inherited_names \<Longrightarrow> getToken h u = Inr None"
  by (auto simp: getToken_def getTokens_def split: option.splits)

lemma getToken_someD:
  "getToken h u = Inr (Some t) \<Longrightarrow> map_of (getTokens u) h = Some t \<and> tok_expiration t \<noteq> None"
  by (auto simp: getToken_def getTokens_def TokenInfo_def split: option.splits if_splits)

lemma getToken_some:
  "map_of (getTokens u) h = Some t \<Longrightarrow> tok_expiration t \<noteq> None \<Longrightarrow> getToken h u = Inr (Some t)"
  by (auto simp: getToken_def getTokens_def TokenInfo_def split: option.splits if_splits)

lemma updateMinDuration_expiration:
  "tok_expiration t \<noteq> None \<Longrightarrow> tok_expiration (updateMinDuration now d t) \<noteq> None"
  "0 < d \<Longrightarrow> now + d * 1000 \<le> token_expiration (updateMinDuration now d t)"
  "isRolling (updateMinDuration now d t) = isRolling t"
  by (auto simp: updateMinDuration_def token_expiration_def token_durationMs_def isRolling_def)

text \<open>The refresh of a token that is given, for a request without an access token.\<close>

lemma refresh_given:
  assumes "getAccessToken r = None" "CHR ''_'' \<notin> set uid" "CHR ''_'' \<notin> set h"
  shows "refresh opts now hashNext hash r (Some (makeToken uid h)) s =
    (case refreshToken now uid h (tokenAccessExpiresIn opts) hashNext (a_users s) of
       (us, Inl e) \<Rightarrow> (s\<lparr>a_users := us\<rparr>, Inl e)
     | (us, Inr None) \<Rightarrow> (s\<lparr>a_users := us\<rparr>, Inl (Raised ''401''))
     | (us, Inr (Some t)) \<Rightarrow>
         (let (ss, access) = makeAccessToken opts now hash (Session uid (r_scopes t)) (a_sessions s)
          in (s\<lparr>a_users := us, a_sessions := ss\<rparr>,
              Inr (access\<lparr>to_refresh := case r_hash t of None \<Rightarrow> None | Some h' \<Rightarrow> Some (makeToken uid h', r_timeoutMs t)\<rparr>, []))))"
proof -
  have "nonempty (Some (makeToken uid h)) = Some (makeToken uid h)" by (simp add: nonempty_def makeToken_def)
  then show ?thesis
    using readToken_makeToken [OF assms(2,3)]
    by (auto simp: refresh_def getAndRefreshAccessToken_def assms(1) split: prod.splits sum.splits option.splits)
qed

text \<open>
  C12. A refresh token is good for one refresh. After a rolling refresh token was exchanged, it is not accepted again,
  at any time; the answer has another one, which is accepted at least as long as an access token lasts.
\<close>

theorem refresh_once:
  assumes "refresh opts now hashNext hash r (Some (makeToken uid h)) s = (s', Inr (answer, cookies))"
    and "getAccessToken r = None" and "CHR ''_'' \<notin> set uid \<union> set h \<union> set hashNext"
    and "map_of (a_users s) uid = Some u" and "getToken h u = Inr (Some t)" and "isRolling t"
    and "h \<noteq> hashNext" and "h \<notin> set inherited_names" and "0 < tokenAccessExpiresIn opts"
    and "later \<le> now + tokenAccessExpiresIn opts * 1000" and "map_of (getTokens u) hashThen = None"
    and "hashThen \<noteq> hashNext" and "hashThen \<notin> set inherited_names"
  shows "refresh opts anytime hashAny hash1 r (Some (makeToken uid h)) s' = (s', Inl (Raised ''401'')) \<and>
    (\<exists>timeout. to_refresh answer = Some (makeToken uid hashNext, timeout)) \<and>
    (\<exists>answer2. snd (refresh opts later hashThen hash2 r (Some (makeToken uid hashNext)) s') = Inr (answer2, []))"
proof -
  have sep: "CHR ''_'' \<notin> set uid" "CHR ''_'' \<notin> set h" "CHR ''_'' \<notin> set hashNext" using assms(3) by simp_all
  note given = refresh_given [OF assms(2) sep(1,2)] and given_next = refresh_given [OF assms(2) sep(1,3)]
  define t' where "t' = updateMinDuration now (tokenAccessExpiresIn opts) t"
  define u' where "u' = u\<lparr>u_tokens := Some (AList.update hashNext t' (AList.delete h (getTokens u)))\<rparr>"
  obtain us x where x: "refreshToken now uid h (tokenAccessExpiresIn opts) hashNext (a_users s) = (us, Inr (Some x))"
    "s' = s\<lparr>a_users := us, a_sessions := a_sessions s'\<rparr>"
    "to_refresh answer = (case r_hash x of None \<Rightarrow> None | Some h' \<Rightarrow> Some (makeToken uid h', r_timeoutMs x))"
    using assms(1) unfolding given by (auto split: prod.splits sum.splits option.splits)
  have "\<exists>v. rollToken h hashNext (updateMinDuration now (tokenAccessExpiresIn opts)) u = Inr v"
    using x(1) assms(4-6) by (auto simp: refreshToken_def users_update_def split: if_splits sum.splits)
  then have fresh: "getToken hashNext u = Inr None"
    by (auto simp: rollToken_def outcome_bind_eq_Inr assms(5) split: if_splits)
  have us: "us = AList.update uid u' (a_users s)" "r_hash x = Some hashNext"
    using x(1) assms(4-6) rollToken_ok [OF assms(5) fresh]
    by (auto simp: refreshToken_def users_update_def u'_def t'_def split: if_splits)
  then have users: "map_of (a_users s') uid = Some u'" using arg_cong [OF x(2), of a_users] by simp
  have t': "tok_expiration t' \<noteq> None" "\<not> token_isExpired later t'" "isRolling t'"
    using getToken_someD [OF assms(5)] updateMinDuration_expiration [where t = t and now = now and d = "tokenAccessExpiresIn opts"]
      assms(6,9,10)
    by (auto simp: t'_def token_isExpired_def)
  have tokens: "map_of (getTokens u') = ((map_of (getTokens u))(h := None))(hashNext \<mapsto> t')" by (simp add: u'_def)
  have old: "getToken h u' = Inr None" using assms(7,8) by (intro getToken_none) (simp_all add: tokens)
  have new: "getToken hashNext u' = Inr (Some t')" using t'(1) by (intro getToken_some) (simp_all add: tokens)
  have later: "getToken hashThen u' = Inr None" using assms(11-13) by (intro getToken_none) (auto simp: tokens)
  have "refresh opts anytime hashAny hash1 r (Some (makeToken uid h)) s' = (s', Inl (Raised ''401''))"
    unfolding given by (simp add: refreshToken_def users old)
  moreover have "\<exists>timeout. to_refresh answer = Some (makeToken uid hashNext, timeout)" using x(3) us(2) by simp
  moreover have "\<exists>answer2. snd (refresh opts later hashThen hash2 r (Some (makeToken uid hashNext)) s') = Inr (answer2, [])"
    unfolding given_next
    by (simp add: refreshToken_def users new t' users_update_def rollToken_ok [OF new later] Let_def split: prod.split)
  ultimately show ?thesis by blast
qed

definition ex_ready :: accounts where
  "ex_ready = (ex_accounts [(''ue'', setPassword ex_crypto ''s'' ''old'' ex_user)] [])\<lparr>a_limits :=
     (case make_limiters (cache_new 5 100 (\<lambda>v. 1)) of Inr l \<Rightarrow> l | Inl e \<Rightarrow> cache_new 5 100 (\<lambda>v. 1))\<rparr>"

definition ex_login :: "accounts \<times> (token_object \<times> (string \<times> string) list) outcome" where
  "ex_login = login ex_crypto default_auth_options 1000 ''r'' ''h'' None False ''e'' (Some ''old'') None ex_ready"

lemma ex_login_result:
  "snd ex_login = Inr (\<lparr>to_token = ''ue_h'', to_timeout = Some 300, to_uid = ''ue'',
     to_scopes = ses_scopes ex_session, to_refresh = None\<rparr>, [(''refresh_token'', ''ue_r'')])"
  by code_simp

theorem login_gives_session_witness:
  "\<exists>session. verify 200000 ex_request [''/self/basic/w'']
      (save_session default_auth_options 100000 ''h9'' (Session ''ub'' []) (a_sessions (fst ex_login))) = Some session \<and>
    ses_uid session = ''ue''"
proof -
  have run: "login ex_crypto default_auth_options 1000 ''r'' ''h'' None False ''e'' (Some ''old'') None ex_ready =
    (fst ex_login, Inr (\<lparr>to_token = ''ue_h'', to_timeout = Some 300, to_uid = ''ue'',
     to_scopes = ses_scopes ex_session, to_refresh = None\<rparr>, [(''refresh_token'', ''ue_r'')]))"
    using ex_login_result by (simp add: ex_login_def prod_eq_iff)
  have uid: "emailToUid ex_crypto ''e'' = ''ue''" by (simp add: ex_crypto_def)
  have empty: "a_sessions ex_ready = []" by (simp add: ex_ready_def ex_accounts_def)
  have "plain_keys (stored_sessions (emailToUid ex_crypto ''e'') (a_sessions ex_ready))"
    by (simp add: plain_keys_def stored_sessions_def empty)
  moreover have "getAccessToken ex_request = Some ''ue_h''" by code_simp
  moreover have "matchAny (ses_scopes ex_session) [''/self/basic/w'']" by code_simp
  moreover have "rtranclp (keeps_session default_auth_options ''ue'' h) (a_sessions (fst ex_login))
      (save_session default_auth_options 100000 ''h9'' (Session ''ub'' []) (a_sessions (fst ex_login)))" for h
    by (intro r_into_rtranclp keeps_session.other_user) (simp add: Session_def)
  ultimately show ?thesis
    using login_gives_session [OF run, of "save_session default_auth_options 100000 ''h9'' (Session ''ub'' []) (a_sessions (fst ex_login))"
      ex_request 200000 "[''/self/basic/w'']"] by (auto simp: uid getTimestamp_def)
qed

definition ex_no_token :: request where
  "ex_no_token = \<lparr>req_authorization = [], req_query_t = None, req_access_token = None, req_refresh_token = None\<rparr>"

definition ex_refresh :: "accounts \<times> (token_object \<times> (string \<times> string) list) outcome" where
  "ex_refresh = refresh default_auth_options 2000 ''r2'' ''h2'' ex_no_token (Some ''ue_r'') (fst ex_login)"

lemma ex_refresh_ok: "is_ok (snd ex_refresh)"
  by code_simp

lemma ex_refresh_token:
  "map_option (\<lambda>u. (getToken ''r'' u, map_of (getTokens u) ''r3'')) (map_of (a_users (fst ex_login)) ''ue'') =
     Some (Inr (Some (token_make 1000 None (ses_scopes ex_session) 1800 True)), None)"
  by code_simp

theorem refresh_once_witness:
  "refresh default_auth_options 3000 ''x'' ''y'' ex_no_token (Some ''ue_r'') (fst ex_refresh) =
     (fst ex_refresh, Inl (Raised ''401'')) \<and>
   (\<exists>answer2. snd (refresh default_auth_options 3000 ''r3'' ''h3'' ex_no_token (Some ''ue_r2'') (fst ex_refresh)) =
     Inr (answer2, []))"
proof -
  obtain answer cookies where run: "refresh default_auth_options 2000 ''r2'' ''h2'' ex_no_token
      (Some (makeToken ''ue'' ''r'')) (fst ex_login) = (fst ex_refresh, Inr (answer, cookies))"
    using ex_refresh_ok by (cases "snd ex_refresh") (auto simp: ex_refresh_def makeToken_def prod_eq_iff)
  obtain u where u: "map_of (a_users (fst ex_login)) ''ue'' = Some u"
    "getToken ''r'' u = Inr (Some (token_make 1000 None (ses_scopes ex_session) 1800 True))"
    "map_of (getTokens u) ''r3'' = None" using ex_refresh_token by auto
  have "getAccessToken ex_no_token = None" by code_simp
  from refresh_once [OF run this _ u(1,2), of 3000 "''r3''"] u(3)
  show ?thesis by (simp add: token_make_def isRolling_def inherited_names_def default_auth_options_def makeToken_def)
qed

end
