(* ===== verification/LegacyCache.thy ===== *)
theory LegacyCache
  imports Bzd_Prelude
begin

text \<open>
  \<open>nodejs/core/cache.js\<close>, the cache with triggers on which the key value store and the time series on disk keep
  their persistences open. The entries of a collection are objects, which the asynchronous operations hold while
  they are deleted from the collection: they live in a store and the collections have their numbers.

  The asynchronous calls are tasks. An event is a call, the end of a \<open>close\<close>, the end of a trigger, or the
  continuation of a \<open>get\<close> after the event \<open>updated\<close>; each runs a call to its next \<open>await\<close>. Triggers are asynchronous
  functions. A trigger may change its options: what it leaves as the timeout comes with its end. What values are, is
  the record \<open>lvalues\<close>.
\<close>

section \<open>State\<close>

record 'v lvalues =
  v_object :: "'v \<Rightarrow> bool"
  v_null :: "'v \<Rightarrow> bool"
  v_size :: "'v \<Rightarrow> int"
  v_close :: "'v \<Rightarrow> bool"

record 'v lobj =
  o_data :: "'v option"
  o_error :: "exn option"
  o_timeout :: "int option"
  o_size :: int
  o_fetching :: bool

definition empty_obj :: "'v lobj" where
  "empty_obj = \<lparr>o_data = None, o_error = None, o_timeout = None, o_size = 0, o_fetching = False\<rparr>"

record lcoll =
  k_size :: int
  k_nb :: int
  k_default :: int
  k_timeout :: "int option"
  k_ids :: "(string \<times> nat) list"

datatype 'v lresult = Returned 'v | Threw exn

text \<open>
  A \<open>get\<close> that waits, one that was woken, one that ended; an update that closes the old value and one that waits for
  its trigger, with the size and the number of entries from before; a \<open>delete\<close> that closes the value; an update
  or a \<open>delete\<close> that ended.
\<close>

datatype 'v ltask =
    L_Wait bool string string int nat
  | L_Woken bool string string int nat
  | L_Done "'v lresult"
  | L_Close string nat int int
  | L_Fetch string nat int int
  | L_Delete string string
  | L_Ended "unit outcome"

record 'v lcache =
  lc_colls :: "(string \<times> lcoll) list"
  lc_objs :: "nat \<Rightarrow> 'v lobj"
  lc_next :: nat
  lc_size :: int
  lc_nb :: int
  lc_resources :: "(string \<times> int) list"
  lc_timeoutMs :: int
  lc_tasks :: "'v ltask list"

definition lc_new :: "int \<Rightarrow> 'v lcache" where
  "lc_new timeoutMs =
     \<lparr>lc_colls = [], lc_objs = (\<lambda>_. empty_obj), lc_next = 0, lc_size = 0, lc_nb = 0, lc_resources = [],
      lc_timeoutMs = timeoutMs, lc_tasks = []\<rparr>"

section \<open>Collections and identifiers\<close>

definition name_char :: "char \<Rightarrow> bool" where
  "name_char c = (c \<in> set ''abcdefghijklmnopqrstuvwxyzABCDEFGHIJKLMNOPQRSTUVWXYZ0123456789.-_'')"

definition lc_register :: "string \<Rightarrow> int option \<Rightarrow> int option \<Rightarrow> 'v lcache \<Rightarrow> 'v lcache \<times> unit outcome" where
  "lc_register collection dsize timeout s =
     (if collection = [] \<or> \<not> list_all name_char collection then (s, Inl AssertFailed)
      else if map_of (lc_colls s) collection \<noteq> None \<or> collection \<in> {''_size'', ''_nbEntries''} then (s, Inl AssertFailed)
      else (s\<lparr>lc_colls := AList.update collection
               \<lparr>k_size = 0, k_nb = 0, k_default = (case dsize of None \<Rightarrow> 0 | Some n \<Rightarrow> n), k_timeout = timeout, k_ids = []\<rparr>
               (lc_colls s)\<rparr>, Inr ()))"

definition isCollection :: "string \<Rightarrow> 'v lcache \<Rightarrow> bool" where
  "isCollection collection s = (map_of (lc_colls s) collection \<noteq> None \<or> collection \<in> {''_size'', ''_nbEntries''})"

text \<open>The identifiers are joined, each after the character 1.\<close>

definition ids_join :: "string list \<Rightarrow> string" where
  "ids_join ids = (if ids = [] then ''default'' else concat (map (\<lambda>i. CHR 0x01 # i) ids))"

definition idsToId :: "string \<Rightarrow> string list \<Rightarrow> 'v lcache \<Rightarrow> (lcoll \<times> string) outcome" where
  "idsToId collection ids s =
     (let i = ids_join ids
      in if i \<noteq> [] \<and> hd i = CHR ''_'' then Inl AssertFailed
         else case map_of (lc_colls s) collection of None \<Rightarrow> Inl AssertFailed | Some k \<Rightarrow> Inr (k, i))"

definition obj_of :: "string \<Rightarrow> string \<Rightarrow> 'v lcache \<Rightarrow> nat option" where
  "obj_of collection i s =
     (case map_of (lc_colls s) collection of None \<Rightarrow> None | Some k \<Rightarrow> map_of (k_ids k) i)"

definition getObject :: "string \<Rightarrow> string list \<Rightarrow> 'v lcache \<Rightarrow> 'v lobj option outcome" where
  "getObject collection ids s =
     outcome_bind (idsToId collection ids s) (\<lambda>(k, i). Inr (map_option (lc_objs s) (map_of (k_ids k) i)))"

definition lc_getSize :: "string \<Rightarrow> string list \<Rightarrow> 'v lcache \<Rightarrow> int outcome" where
  "lc_getSize collection ids s =
     outcome_bind (getObject collection ids s) (\<lambda>o'. Inr (case o' of None \<Rightarrow> 0 | Some ob \<Rightarrow> o_size ob))"

definition obj_expired :: "int \<Rightarrow> 'v lobj \<Rightarrow> bool" where
  "obj_expired now ob = (case o_timeout ob of None \<Rightarrow> False | Some t \<Rightarrow> t < now)"

definition isDirty_id :: "int \<Rightarrow> string \<Rightarrow> string \<Rightarrow> 'v lcache \<Rightarrow> bool" where
  "isDirty_id now collection i s =
     (case obj_of collection i s of None \<Rightarrow> True | Some n \<Rightarrow> obj_expired now (lc_objs s n))"

definition lc_isDirty :: "int \<Rightarrow> string \<Rightarrow> string list \<Rightarrow> 'v lcache \<Rightarrow> bool outcome" where
  "lc_isDirty now collection ids s =
     outcome_bind (idsToId collection ids s) (\<lambda>(k, i). Inr (isDirty_id now collection i s))"

definition set_obj :: "nat \<Rightarrow> 'v lobj \<Rightarrow> 'v lcache \<Rightarrow> 'v lcache" where
  "set_obj n ob s = s\<lparr>lc_objs := (lc_objs s)(n := ob)\<rparr>"

definition lc_setDirty :: "int \<Rightarrow> string \<Rightarrow> string list \<Rightarrow> 'v lcache \<Rightarrow> 'v lcache \<times> unit outcome" where
  "lc_setDirty now collection ids s =
     (case idsToId collection ids s of
        Inl e \<Rightarrow> (s, Inl e)
      | Inr (k, i) \<Rightarrow>
          (case map_of (k_ids k) i of
             None \<Rightarrow> (s, Inr ())
           | Some n \<Rightarrow> (set_obj n ((lc_objs s n)\<lparr>o_timeout := Some (now - 1)\<rparr>) s, Inr ())))"

definition resource_id :: "string \<Rightarrow> string \<Rightarrow> string" where
  "resource_id collection i = collection @ CHR ''/'' # i"

definition touchResource :: "int \<Rightarrow> string \<Rightarrow> string \<Rightarrow> 'v lcache \<Rightarrow> 'v lcache" where
  "touchResource now collection i s =
     s\<lparr>lc_resources := AList.update (resource_id collection i) now (lc_resources s)\<rparr>"

text \<open>Adding to the sizes and the counts of a collection and of the cache.\<close>

definition add_totals :: "string \<Rightarrow> int \<Rightarrow> int \<Rightarrow> 'v lcache \<Rightarrow> 'v lcache" where
  "add_totals collection dsize nb s =
     (case map_of (lc_colls s) collection of
        None \<Rightarrow> s
      | Some k \<Rightarrow>
          s\<lparr>lc_colls := AList.update collection (k\<lparr>k_size := k_size k + dsize, k_nb := k_nb k + nb\<rparr>) (lc_colls s),
            lc_size := lc_size s + dsize, lc_nb := lc_nb s + nb\<rparr>)"

section \<open>Updates\<close>

definition new_task :: "'v ltask \<Rightarrow> 'v lcache \<Rightarrow> 'v lcache" where
  "new_task t s = s\<lparr>lc_tasks := lc_tasks s @ [t]\<rparr>"

definition set_task :: "nat \<Rightarrow> 'v ltask \<Rightarrow> 'v lcache \<Rightarrow> 'v lcache" where
  "set_task tid t s = s\<lparr>lc_tasks := (lc_tasks s)[tid := t]\<rparr>"

definition count_data :: "'v lobj \<Rightarrow> int" where
  "count_data ob = (if o_data ob = None then 0 else 1)"

text \<open>The object of an identifier, created if there is none.\<close>

definition entry_object :: "string \<Rightarrow> string \<Rightarrow> 'v lcache \<Rightarrow> 'v lcache \<times> nat" where
  "entry_object collection i s =
     (case map_of (lc_colls s) collection of
        None \<Rightarrow> (s, lc_next s)
      | Some k \<Rightarrow>
          (case map_of (k_ids k) i of
             Some n \<Rightarrow> (s, n)
           | None \<Rightarrow>
               (s\<lparr>lc_colls := AList.update collection (k\<lparr>k_ids := AList.update i (lc_next s) (k_ids k)\<rparr>) (lc_colls s),
                  lc_objs := (lc_objs s)(lc_next s := empty_obj), lc_next := lc_next s + 1\<rparr>, lc_next s)))"

text \<open>\<open>triggerUpdate\<close> up to its first \<open>await\<close>.\<close>

definition update_task :: "'v lvalues \<Rightarrow> string \<Rightarrow> nat \<Rightarrow> 'v lobj \<Rightarrow> 'v ltask" where
  "update_task vs collection n ob =
     (if (case o_data ob of None \<Rightarrow> False | Some v \<Rightarrow> v_object vs v \<and> v_close vs v) then L_Close else L_Fetch)
       collection n (o_size ob) (count_data ob)"

definition triggerUpdate :: "'v lvalues \<Rightarrow> string \<Rightarrow> string \<Rightarrow> 'v lcache \<Rightarrow> 'v lcache \<times> nat" where
  "triggerUpdate vs collection i s =
     (let (s1, n) = entry_object collection i s
      in (new_task (update_task vs collection n (lc_objs s1 n)) (set_obj n ((lc_objs s1 n)\<lparr>o_fetching := True\<rparr>) s1), n))"

text \<open>Its end, with the value and the timeout that its options have then, or with an error.\<close>

definition stored_size :: "'v lvalues \<Rightarrow> lcoll \<Rightarrow> 'v \<Rightarrow> int" where
  "stored_size vs k v = (if v_object vs v then (if v_size vs v \<noteq> 0 then v_size vs v else k_default k) else 0)"

definition updated_obj :: "'v lvalues \<Rightarrow> int \<Rightarrow> lcoll \<Rightarrow> ('v \<times> int option) outcome \<Rightarrow> 'v lobj \<Rightarrow> 'v lobj" where
  "updated_obj vs now k r ob =
     (case r of
        Inl e \<Rightarrow>
          ob\<lparr>o_error := Some e, o_timeout := Some (now + 100), o_size := 0, o_data := None, o_fetching := False\<rparr>
      | Inr (v, timeout) \<Rightarrow>
          ob\<lparr>o_data := Some v,
             o_timeout := (case timeout of None \<Rightarrow> None | Some t \<Rightarrow> if t = 0 then None else Some (now + max 1 t)),
             o_size := stored_size vs k v, o_error := None, o_fetching := False\<rparr>)"

text \<open>The event \<open>updated\<close> resolves the promises of all calls that wait.\<close>

definition wake_task :: "'v ltask \<Rightarrow> 'v ltask" where
  "wake_task t = (case t of L_Wait a b c d e \<Rightarrow> L_Woken a b c d e | _ \<Rightarrow> t)"

definition wake_all :: "'v lcache \<Rightarrow> 'v lcache" where
  "wake_all s = s\<lparr>lc_tasks := map wake_task (lc_tasks s)\<rparr>"

definition endUpdate :: "'v lvalues \<Rightarrow> int \<Rightarrow> nat \<Rightarrow> string \<Rightarrow> nat \<Rightarrow> int \<Rightarrow> int \<Rightarrow> ('v \<times> int option) outcome \<Rightarrow>
    'v lcache \<Rightarrow> 'v lcache" where
  "endUpdate vs now tid collection n previousSize previousNb r s =
     (case map_of (lc_colls s) collection of
        None \<Rightarrow> s
      | Some k \<Rightarrow>
          (let ob = updated_obj vs now k r (lc_objs s n)
           in wake_all (set_task tid (L_Ended (Inr ()))
                (add_totals collection (o_size ob - previousSize) (count_data ob - previousNb) (set_obj n ob s)))))"

section \<open>Getting a value\<close>

text \<open>At an object that is being fetched: an instant call takes what is there.\<close>

definition at_fetching :: "bool \<Rightarrow> string \<Rightarrow> string \<Rightarrow> int \<Rightarrow> nat \<Rightarrow> 'v lobj \<Rightarrow> 'v ltask" where
  "at_fetching instant collection i start n ob =
     (if \<not> instant then L_Wait instant collection i start n
      else case o_error ob of
             Some e \<Rightarrow> L_Done (Threw e)
           | None \<Rightarrow>
               (case o_data ob of
                  Some v \<Rightarrow> L_Done (Returned v)
                | None \<Rightarrow> L_Wait instant collection i start n))"

text \<open>The loop up to the next \<open>await\<close> or the end: a round that starts an update is followed by one that finds it.\<close>

definition get_timeout :: exn where
  "get_timeout = Raised ''timeout''"

definition get_update :: "'v lvalues \<Rightarrow> int \<Rightarrow> bool \<Rightarrow> string \<Rightarrow> string \<Rightarrow> int \<Rightarrow> 'v lcache \<Rightarrow> 'v lcache \<times> 'v ltask" where
  "get_update vs now instant collection i start s =
     (let (s1, n) = triggerUpdate vs collection i s
      in if now - start < lc_timeoutMs s
         then (s1, at_fetching instant collection i start n (lc_objs s1 n)) else (s1, L_Done (Threw get_timeout)))"

definition get_rounds :: "'v lvalues \<Rightarrow> int \<Rightarrow> bool \<Rightarrow> string \<Rightarrow> string \<Rightarrow> int \<Rightarrow> 'v lcache \<Rightarrow> 'v lcache \<times> 'v ltask" where
  "get_rounds vs now instant collection i start s =
     (case obj_of collection i s of
        None \<Rightarrow> get_update vs now instant collection i start s
      | Some n \<Rightarrow>
          (let ob = lc_objs s n
           in if o_fetching ob then (s, at_fetching instant collection i start n ob)
              else if obj_expired now ob then get_update vs now instant collection i start s
              else case o_error ob of
                     Some e \<Rightarrow> (s, L_Done (Threw e))
                   | None \<Rightarrow>
                       (case o_data ob of
                          Some v \<Rightarrow> (s, L_Done (Returned v))
                        | None \<Rightarrow> (s, L_Done (Threw Unreachable)))))"

definition lc_get :: "'v lvalues \<Rightarrow> int \<Rightarrow> bool \<Rightarrow> string \<Rightarrow> string list \<Rightarrow> 'v lcache \<Rightarrow> 'v lcache" where
  "lc_get vs now instant collection ids s =
     (case idsToId collection ids s of
        Inl e \<Rightarrow> new_task (L_Done (Threw e)) s
      | Inr (k, i) \<Rightarrow>
          (case get_rounds vs now instant collection i now (touchResource now collection i s) of
             (s1, t) \<Rightarrow> new_task t s1))"

text \<open>After the event \<open>updated\<close>: a value that was loaded since the call is taken even while it is fetched again.\<close>

definition get_continue :: "'v lvalues \<Rightarrow> int \<Rightarrow> nat \<Rightarrow> 'v lcache \<Rightarrow> 'v lcache" where
  "get_continue vs now tid s =
     (if \<not> tid < length (lc_tasks s) then s
      else case lc_tasks s ! tid of
             L_Woken instant collection i start n \<Rightarrow>
               (let instant' = (instant \<or> (case o_timeout (lc_objs s n) of None \<Rightarrow> False | Some t \<Rightarrow> t > start))
                in if now - start < lc_timeoutMs s
                   then (case get_rounds vs now instant' collection i start s of (s1, t) \<Rightarrow> set_task tid t s1)
                   else set_task tid (L_Done (Threw get_timeout)) s)
           | _ \<Rightarrow> s)"

section \<open>Deleting\<close>

definition remove_entry :: "string \<Rightarrow> string \<Rightarrow> 'v lcache \<Rightarrow> 'v lcache" where
  "remove_entry collection i s =
     (case map_of (lc_colls s) collection of
        None \<Rightarrow> s
      | Some k \<Rightarrow>
          s\<lparr>lc_colls := AList.update collection (k\<lparr>k_ids := AList.delete i (k_ids k)\<rparr>) (lc_colls s),
            lc_resources := AList.delete (resource_id collection i) (lc_resources s)\<rparr>)"

text \<open>The value \<open>null\<close> has no property \<open>close\<close>: looking for it throws.\<close>

definition lc_delete :: "'v lvalues \<Rightarrow> string \<Rightarrow> string list \<Rightarrow> 'v lcache \<Rightarrow> 'v lcache" where
  "lc_delete vs collection ids s =
     (case idsToId collection ids s of
        Inl e \<Rightarrow> new_task (L_Ended (Inl e)) s
      | Inr (k, i) \<Rightarrow>
          (case map_of (k_ids k) i of
             None \<Rightarrow> new_task (L_Ended (Inr ())) (remove_entry collection i s)
           | Some n \<Rightarrow>
               (let ob = lc_objs s n;
                    s1 = add_totals collection (- o_size ob) (- count_data ob) s
                in case o_data ob of
                     None \<Rightarrow> new_task (L_Ended (Inr ())) (remove_entry collection i s1)
                   | Some v \<Rightarrow>
                       if v_null vs v then new_task (L_Ended (Inl TypeErr)) s1
                       else if v_close vs v then new_task (L_Delete collection i) s1
                       else new_task (L_Ended (Inr ())) (remove_entry collection i s1))))"

section \<open>Events\<close>

datatype 'v levent =
    E_Get bool string "string list"
  | E_Continue nat
  | E_Closed nat "unit outcome"
  | E_Fetched nat "('v \<times> int option) outcome"
  | E_Delete string "string list"
  | E_SetDirty string "string list"
  | E_Register string "int option" "int option"

definition close_ends :: "'v lvalues \<Rightarrow> int \<Rightarrow> nat \<Rightarrow> unit outcome \<Rightarrow> 'v lcache \<Rightarrow> 'v lcache" where
  "close_ends vs now tid r s =
     (if \<not> tid < length (lc_tasks s) then s
      else case lc_tasks s ! tid of
             L_Close collection n osize nb \<Rightarrow>
               (case r of
                  Inl e \<Rightarrow> endUpdate vs now tid collection n osize nb (Inl e) s
                | Inr _ \<Rightarrow> set_task tid (L_Fetch collection n osize nb) s)
           | L_Delete collection i \<Rightarrow>
               (case r of
                  Inl e \<Rightarrow> set_task tid (L_Ended (Inl e)) s
                | Inr _ \<Rightarrow> set_task tid (L_Ended (Inr ())) (remove_entry collection i s))
           | _ \<Rightarrow> s)"

definition fetch_ends :: "'v lvalues \<Rightarrow> int \<Rightarrow> nat \<Rightarrow> ('v \<times> int option) outcome \<Rightarrow> 'v lcache \<Rightarrow> 'v lcache" where
  "fetch_ends vs now tid r s =
     (if \<not> tid < length (lc_tasks s) then s
      else case lc_tasks s ! tid of
             L_Fetch collection n osize nb \<Rightarrow> endUpdate vs now tid collection n osize nb r s
           | _ \<Rightarrow> s)"

fun lc_event :: "'v lvalues \<Rightarrow> int \<times> 'v levent \<Rightarrow> 'v lcache \<Rightarrow> 'v lcache" where
  "lc_event vs (now, E_Get instant collection ids) s = lc_get vs now instant collection ids s"
| "lc_event vs (now, E_Continue tid) s = get_continue vs now tid s"
| "lc_event vs (now, E_Closed tid r) s = close_ends vs now tid r s"
| "lc_event vs (now, E_Fetched tid r) s = fetch_ends vs now tid r s"
| "lc_event vs (now, E_Delete collection ids) s = lc_delete vs collection ids s"
| "lc_event vs (now, E_SetDirty collection ids) s = fst (lc_setDirty now collection ids s)"
| "lc_event vs (now, E_Register collection dsize timeout) s = fst (lc_register collection dsize timeout s)"

definition lc_run :: "'v lvalues \<Rightarrow> int \<Rightarrow> (int \<times> 'v levent) list \<Rightarrow> 'v lcache" where
  "lc_run vs timeoutMs events = fold (lc_event vs) events (lc_new timeoutMs)"

section \<open>Garbage collection\<close>

text \<open>
  The entry that was accessed first, among the oldest the first; \<open>deleteResourceById\<close> takes the identifier apart again
  and calls \<open>delete\<close> with it, which is not awaited.
\<close>

definition gc_oldest_resource :: "(string \<times> int) list \<Rightarrow> (string \<times> int) option" where
  "gc_oldest_resource rs =
     fold (\<lambda>cur total. case total of None \<Rightarrow> Some cur | Some t \<Rightarrow> if snd cur < snd t then Some cur else Some t) rs None"

definition deleteResourceById :: "'v lvalues \<Rightarrow> string \<Rightarrow> 'v lcache \<Rightarrow> 'v lcache" where
  "deleteResourceById vs r s =
     lc_delete vs (takeWhile (\<lambda>c. c \<noteq> CHR ''/'') r) [drop 1 (dropWhile (\<lambda>c. c \<noteq> CHR ''/'') r)] s"

definition gc_round :: "'v lvalues \<Rightarrow> int \<Rightarrow> int \<Rightarrow> 'v lcache \<Rightarrow> 'v lcache" where
  "gc_round vs maxSize maxEntries s =
     (if lc_size s > maxSize \<or> (maxEntries \<noteq> 0 \<and> lc_nb s > maxEntries)
      then case gc_oldest_resource (lc_resources s) of None \<Rightarrow> s | Some (r, t) \<Rightarrow> deleteResourceById vs r s
      else s)"

end
