(* ===== verification/LegacyCache_Props.thy ===== *)
theory LegacyCache_Props
  imports LegacyCache
begin

text \<open>
  The invariant of the cache with triggers, kept by every event: an object is fetched by one update at a time, a call
  that waits does so for a fetch that is under way, and an object that is not being fetched has a value or an error.
\<close>

section \<open>The invariant\<close>

definition fetches :: "nat \<Rightarrow> 'v ltask \<Rightarrow> bool" where
  "fetches n t = (case t of L_Close c m a b \<Rightarrow> m = n | L_Fetch c m a b \<Rightarrow> m = n | _ \<Rightarrow> False)"

definition waits_for :: "nat \<Rightarrow> 'v ltask \<Rightarrow> bool" where
  "waits_for n t = (case t of L_Wait a b c d m \<Rightarrow> m = n | _ \<Rightarrow> False)"

definition task_ok :: "'v lcache \<Rightarrow> 'v ltask \<Rightarrow> bool" where
  "task_ok s t =
     (case t of
        L_Wait a c i d m \<Rightarrow> o_fetching (lc_objs s m) \<and> map_of (lc_colls s) c \<noteq> None
      | L_Woken a c i d m \<Rightarrow> map_of (lc_colls s) c \<noteq> None
      | L_Close c m a b \<Rightarrow> map_of (lc_colls s) c \<noteq> None
      | L_Fetch c m a b \<Rightarrow> map_of (lc_colls s) c \<noteq> None
      | _ \<Rightarrow> True)"

definition obj_ok :: "'v lobj \<Rightarrow> bool" where
  "obj_ok ob = ((o_data ob = None \<or> o_error ob = None) \<and>
     (o_fetching ob \<or> o_data ob \<noteq> None \<or> o_error ob \<noteq> None))"

definition fetch_count :: "'v lcache \<Rightarrow> nat \<Rightarrow> nat" where
  "fetch_count s n = length (filter (fetches n) (lc_tasks s))"

definition lc_ok :: "'v lcache \<Rightarrow> bool" where
  "lc_ok s =
     ((\<forall>n. fetch_count s n = (if o_fetching (lc_objs s n) then 1 else 0)) \<and>
      (\<forall>t\<in>set (lc_tasks s). task_ok s t) \<and>
      (\<forall>n < lc_next s. obj_ok (lc_objs s n)) \<and> (\<forall>n \<ge> lc_next s. \<not> o_fetching (lc_objs s n)) \<and>
      (\<forall>c k i n. map_of (lc_colls s) c = Some k \<longrightarrow> (i, n) \<in> set (k_ids k) \<longrightarrow> n < lc_next s))"

lemma lc_okD:
  assumes "lc_ok s"
  shows "fetch_count s n = (if o_fetching (lc_objs s n) then 1 else 0)"
    and "t \<in> set (lc_tasks s) \<Longrightarrow> task_ok s t" and "n < lc_next s \<Longrightarrow> obj_ok (lc_objs s n)"
    and "lc_next s \<le> n \<Longrightarrow> \<not> o_fetching (lc_objs s n)"
    and "obj_of c i s = Some n \<Longrightarrow> n < lc_next s"
  using assms by (auto simp: lc_ok_def obj_of_def dest: map_of_SomeD split: option.splits)

lemma lc_new_ok: "lc_ok (lc_new timeoutMs)"
  by (simp add: lc_ok_def lc_new_def fetch_count_def empty_obj_def)

text \<open>Changes of other parts.\<close>

lemma lc_ok_cong:
  assumes "lc_ok s" "lc_tasks s' = lc_tasks s" "lc_objs s' = lc_objs s" "lc_next s' = lc_next s"
    and "\<And>c k. map_of (lc_colls s') c = Some k \<Longrightarrow>
      k_ids k = [] \<or> (\<exists>k0. map_of (lc_colls s) c = Some k0 \<and> set (k_ids k) \<subseteq> set (k_ids k0))"
    and "\<And>c. map_of (lc_colls s) c \<noteq> None \<Longrightarrow> map_of (lc_colls s') c \<noteq> None"
  shows "lc_ok s'"
proof -
  have "n < lc_next s" if k: "map_of (lc_colls s') c = Some k" "(i, n) \<in> set (k_ids k)" for c k i n
    using assms(5) [OF k(1)] k(2) assms(1) unfolding lc_ok_def by fastforce
  moreover have "task_ok s' t" if "task_ok s t" for t
    using that assms(3,6) by (auto simp: task_ok_def split: ltask.splits)
  ultimately show ?thesis using assms(1-4) by (auto simp: lc_ok_def fetch_count_def)
qed

text \<open>The tasks change.\<close>

lemma task_ok_tasks: "task_ok (s\<lparr>lc_tasks := ts\<rparr>) t = task_ok s t"
  by (simp add: task_ok_def split: ltask.splits)

lemma lc_ok_tasks:
  assumes "lc_ok s" "\<And>t. t \<in> set ts \<Longrightarrow> t \<in> set (lc_tasks s) \<or> task_ok s t"
    and "\<And>n. length (filter (fetches n) ts) = fetch_count s n"
  shows "lc_ok (s\<lparr>lc_tasks := ts\<rparr>)"
  using assms by (auto simp: lc_ok_def fetch_count_def task_ok_tasks)

lemma lc_ok_new_task: "lc_ok s \<Longrightarrow> task_ok s t \<Longrightarrow> (\<And>n. \<not> fetches n t) \<Longrightarrow> lc_ok (new_task t s)"
  unfolding new_task_def by (rule lc_ok_tasks) (auto simp: fetch_count_def)

lemma filter_list_update:
  "i < length xs \<Longrightarrow> length (filter P (xs[i := x])) + (if P (xs ! i) then 1 else 0) =
     length (filter P xs) + (if P x then 1 else 0)"
proof (induction xs arbitrary: i)
  case (Cons y xs)
  show ?case
  proof (cases i)
    case (Suc j)
    then show ?thesis using Cons.IH [of j] Cons.prems by (auto split: if_splits)
  qed auto
qed simp

lemma lc_ok_set_task:
  assumes "lc_ok s" "tid < length (lc_tasks s)" "task_ok s t" "\<And>n. fetches n t = fetches n (lc_tasks s ! tid)"
  shows "lc_ok (set_task tid t s)"
  unfolding set_task_def
proof (rule lc_ok_tasks [OF assms(1)])
  show "\<And>u. u \<in> set ((lc_tasks s)[tid := t]) \<Longrightarrow> u \<in> set (lc_tasks s) \<or> task_ok s u"
    using assms(3) set_update_subset_insert [of "lc_tasks s" tid t] by auto
  show "length (filter (fetches n) ((lc_tasks s)[tid := t])) = fetch_count s n" for n
    using filter_list_update [OF assms(2), of "fetches n" t] assms(4) by (simp add: fetch_count_def split: if_splits)
qed

lemma add_totals_ok: "lc_ok s \<Longrightarrow> lc_ok (add_totals c dsize nb s)"
  by (erule lc_ok_cong) (auto simp: add_totals_def split: option.splits if_splits)

lemma remove_entry_ok: "lc_ok s \<Longrightarrow> lc_ok (remove_entry c i s)"
  by (erule lc_ok_cong) (auto simp: remove_entry_def AList.delete_eq split: option.splits if_splits)

lemma touchResource_ok: "lc_ok s \<Longrightarrow> lc_ok (touchResource now c i s)"
  by (erule lc_ok_cong) (auto simp: touchResource_def)

lemma lc_register_ok: "lc_ok s \<Longrightarrow> lc_ok (fst (lc_register c dsize timeout s))"
  by (erule lc_ok_cong) (auto simp: lc_register_def split: if_splits)

text \<open>The update of an object that does not change whether it is fetched.\<close>

lemma set_obj_ok:
  assumes "lc_ok s" "o_fetching ob = o_fetching (lc_objs s n)" "obj_ok ob"
  shows "lc_ok (set_obj n ob s)"
proof -
  have "task_ok (set_obj n ob s) t = task_ok s t" for t
    using assms(2) by (auto simp: task_ok_def set_obj_def split: ltask.splits)
  then show ?thesis using assms by (auto simp: lc_ok_def set_obj_def fetch_count_def)
qed

lemma lc_setDirty_ok: "lc_ok s \<Longrightarrow> lc_ok (fst (lc_setDirty now c ids s))"
proof -
  assume ok: "lc_ok s"
  have "obj_ok ((lc_objs s n)\<lparr>o_timeout := t\<rparr>) = obj_ok (lc_objs s n)" for n t by (simp add: obj_ok_def)
  moreover have "n < lc_next s" if "map_of (lc_colls s) c = Some k" "map_of (k_ids k) i = Some n" for k i n
    using ok that by (auto simp: lc_ok_def dest: map_of_SomeD)
  ultimately show ?thesis
    using ok lc_okD(3) [OF ok]
    by (auto simp: lc_setDirty_def idsToId_def Let_def intro!: set_obj_ok split: sum.splits option.splits if_splits)
qed

section \<open>Updates\<close>

lemma alist_update_member: "x \<in> set (AList.update i v xs) \<Longrightarrow> x = (i, v) \<or> x \<in> set xs"
  by (induction xs) (auto split: if_splits)

lemma triggerUpdate_ok:
  fixes s :: "'v lcache"
  assumes ok: "lc_ok s" and coll: "map_of (lc_colls s) c \<noteq> None"
    and idle: "\<forall>n. obj_of c i s = Some n \<longrightarrow> \<not> o_fetching (lc_objs s n)"
  shows "lc_ok (fst (triggerUpdate vs c i s))"
    and "o_fetching (lc_objs (fst (triggerUpdate vs c i s)) (snd (triggerUpdate vs c i s)))"
    and "length (lc_tasks s) < length (lc_tasks (fst (triggerUpdate vs c i s)))"
    and "tid < length (lc_tasks s) \<Longrightarrow> lc_tasks (fst (triggerUpdate vs c i s)) ! tid = lc_tasks s ! tid"
    and "map_of (lc_colls (fst (triggerUpdate vs c i s))) c' \<noteq> None \<longleftrightarrow> map_of (lc_colls s) c' \<noteq> None"
proof -
  obtain k where k: "map_of (lc_colls s) c = Some k" using coll by blast
  obtain s1 n where e: "entry_object c i s = (s1, n)" by (cases "entry_object c i s")
  have s1: "case obj_of c i s of Some m \<Rightarrow> s1 = s \<and> n = m
    | None \<Rightarrow> s1 = s\<lparr>lc_colls := AList.update c (k\<lparr>k_ids := AList.update i (lc_next s) (k_ids k)\<rparr>) (lc_colls s),
                   lc_objs := (lc_objs s)(lc_next s := empty_obj), lc_next := lc_next s + 1\<rparr> \<and> n = lc_next s"
    using e k by (auto simp: entry_object_def obj_of_def split: option.splits)
  define fetcher where "fetcher = update_task vs c n (lc_objs s1 n)"
  have fetcher: "fst (triggerUpdate vs c i s) = new_task fetcher (set_obj n ((lc_objs s1 n)\<lparr>o_fetching := True\<rparr>) s1)"
    "snd (triggerUpdate vs c i s) = n" "\<And>m. fetches m fetcher = (m = n)"
    "\<And>s. map_of (lc_colls s) c \<noteq> None \<Longrightarrow> task_ok s fetcher"
    by (auto simp: triggerUpdate_def e fetcher_def update_task_def fetches_def task_ok_def)
  have tasks: "lc_tasks s1 = lc_tasks s" using s1 by (auto split: option.splits)
  have colls: "map_of (lc_colls s1) c' \<noteq> None \<longleftrightarrow> map_of (lc_colls s) c' \<noteq> None" for c'
    using s1 k by (auto split: option.splits)
  have idle1: "\<not> o_fetching (lc_objs s1 n)" "n < lc_next s1"
    using s1 idle lc_okD(5) [OF ok] by (auto simp: empty_obj_def split: option.splits)
  have objs: "lc_objs s1 m = lc_objs s m \<or> \<not> o_fetching (lc_objs s m) \<and> lc_objs s1 m = empty_obj \<and> m = n" for m
    using s1 lc_okD(4) [OF ok, of "lc_next s"] by (auto split: option.splits)
  have ids: "m < lc_next s1" if "map_of (lc_colls s1) c' = Some k'" "(j, m) \<in> set (k_ids k')" for c' k' j m
  proof (cases "obj_of c i s")
    case None
    have old: "map_of (lc_colls s) c' = Some k'' \<Longrightarrow> (j, m) \<in> set (k_ids k'') \<Longrightarrow> m < lc_next s" for c' k''
      using ok by (auto simp: lc_ok_def)
    have s1': "lc_colls s1 = AList.update c (k\<lparr>k_ids := AList.update i (lc_next s) (k_ids k)\<rparr>) (lc_colls s)"
      "lc_next s1 = lc_next s + 1" using None s1 by auto
    show ?thesis
    proof (cases "c' = c")
      case True
      then have "(j, m) \<in> set (AList.update i (lc_next s) (k_ids k))" using that s1' by (auto simp: update_Some_unfold)
      then have "(j, m) = (i, lc_next s) \<or> (j, m) \<in> set (k_ids k)" by (rule alist_update_member)
      then show ?thesis using old k True s1'(2) by fastforce
    next
      case False
      then show ?thesis using that old s1' by (fastforce simp: update_Some_unfold)
    qed
  qed (use s1 that ok in \<open>auto simp: lc_ok_def\<close>)
  let ?s = "set_obj n ((lc_objs s1 n)\<lparr>o_fetching := True\<rparr>) s1"
  have "fetch_count (new_task fetcher ?s) m = (if o_fetching (lc_objs (new_task fetcher ?s) m) then 1 else 0)" for m
  proof (cases "m = n")
    case True
    have "\<not> o_fetching (lc_objs s n)" using objs [of n] idle1(1) by auto
    then show ?thesis
      using lc_okD(1) [OF ok, of n] by (simp add: True fetch_count_def new_task_def set_obj_def tasks fetcher(3))
  next
    case False
    then have "lc_objs s1 m = lc_objs s m" using objs [of m] by blast
    then show ?thesis
      using lc_okD(1) [OF ok, of m] False by (simp add: fetch_count_def new_task_def set_obj_def tasks fetcher(3))
  qed
  moreover have "task_ok (new_task fetcher ?s) t" if "t \<in> set (lc_tasks (new_task fetcher ?s))" for t
  proof (cases "t = fetcher")
    case True
    then show ?thesis using fetcher(4) colls [of c] coll by (simp add: new_task_def set_obj_def)
  next
    case False
    then have "task_ok s t" using that lc_okD(2) [OF ok] by (auto simp: new_task_def set_obj_def tasks)
    moreover have "o_fetching (lc_objs s1 m)" if "o_fetching (lc_objs s m)" for m using objs [of m] that by auto
    ultimately show ?thesis using colls by (auto simp: task_ok_def new_task_def set_obj_def split: ltask.splits)
  qed
  moreover have "obj_ok (lc_objs (new_task fetcher ?s) m)" if "m < lc_next (new_task fetcher ?s)" for m
  proof (cases "m = n")
    case True
    then show ?thesis using objs [of n] lc_okD(3) [OF ok, of n] s1
      by (auto simp: new_task_def set_obj_def obj_ok_def empty_obj_def lc_okD(5) [OF ok] split: option.splits)
  next
    case False
    then have "lc_objs s1 m = lc_objs s m" "m < lc_next s"
      using objs [of m] that s1 by (auto simp: new_task_def set_obj_def split: option.splits)
    then show ?thesis using False lc_okD(3) [OF ok] by (simp add: new_task_def set_obj_def)
  qed
  moreover have "\<not> o_fetching (lc_objs (new_task fetcher ?s) m)" if "lc_next (new_task fetcher ?s) \<le> m" for m
    using that idle1(2) lc_okD(4) [OF ok, of m] objs [of m] s1
    by (auto simp: new_task_def set_obj_def split: option.splits)
  ultimately show "lc_ok (fst (triggerUpdate vs c i s))"
    using ids unfolding fetcher(1) lc_ok_def by (auto simp: new_task_def set_obj_def)
  show "o_fetching (lc_objs (fst (triggerUpdate vs c i s)) (snd (triggerUpdate vs c i s)))"
    "length (lc_tasks s) < length (lc_tasks (fst (triggerUpdate vs c i s)))"
    "tid < length (lc_tasks s) \<Longrightarrow> lc_tasks (fst (triggerUpdate vs c i s)) ! tid = lc_tasks s ! tid"
    "map_of (lc_colls (fst (triggerUpdate vs c i s))) c' \<noteq> None \<longleftrightarrow> map_of (lc_colls s) c' \<noteq> None"
    using colls by (simp_all add: fetcher new_task_def set_obj_def tasks nth_append)
qed

lemma fetches_wake [simp]: "fetches n (wake_task t) = fetches n t"
  by (simp add: fetches_def wake_task_def split: ltask.splits)

lemma wake_task_wait: "wake_task t \<noteq> L_Wait a b c d e"
  by (auto simp: wake_task_def split: ltask.splits)

lemma updated_obj_ok: "obj_ok (updated_obj vs now k r ob)" "\<not> o_fetching (updated_obj vs now k r ob)"
  by (auto simp: updated_obj_def obj_ok_def split: sum.splits)

lemma endUpdate_ok:
  fixes s :: "'v lcache"
  assumes ok: "lc_ok s" and tid: "tid < length (lc_tasks s)"
    and task: "lc_tasks s ! tid = L_Close c n a b \<or> lc_tasks s ! tid = L_Fetch c n a b"
  shows "lc_ok (endUpdate vs now tid c n osize nb r s)"
proof -
  have "task_ok s (lc_tasks s ! tid)" using lc_okD(2) [OF ok] tid by simp
  then obtain k where k: "map_of (lc_colls s) c = Some k" using task by (auto simp: task_ok_def)
  define ob where "ob = updated_obj vs now k r (lc_objs s n)"
  define s1 where "s1 = add_totals c (o_size ob - osize) (count_data ob - nb) (set_obj n ob s)"
  have eq: "endUpdate vs now tid c n osize nb r s = wake_all (set_task tid (L_Ended (Inr ())) s1)"
    by (simp add: endUpdate_def k ob_def s1_def Let_def)
  have parts: "lc_tasks s1 = lc_tasks s" "lc_objs s1 = (lc_objs s)(n := ob)" "lc_next s1 = lc_next s"
    "map_of (lc_colls s1) c' = Some k' \<Longrightarrow> \<exists>k0. map_of (lc_colls s) c' = Some k0 \<and> k_ids k' = k_ids k0"
    "map_of (lc_colls s) c' \<noteq> None \<Longrightarrow> map_of (lc_colls s1) c' \<noteq> None" for c' k'
    by (auto simp: s1_def add_totals_def set_obj_def k split: if_splits)
  let ?ts = "map wake_task ((lc_tasks s)[tid := L_Ended (Inr ())])"
  have res: "endUpdate vs now tid c n osize nb r s = s1\<lparr>lc_tasks := ?ts\<rparr>"
    by (simp add: eq wake_all_def set_task_def parts(1))
  have fetching: "o_fetching (lc_objs s n)"
  proof (rule ccontr)
    assume "\<not> o_fetching (lc_objs s n)"
    then have "filter (fetches n) (lc_tasks s) = []" using lc_okD(1) [OF ok, of n] by (simp add: fetch_count_def)
    then have "\<not> fetches n (lc_tasks s ! tid)" using nth_mem [OF tid] by (simp add: filter_empty_conv)
    then show False using task by (auto simp: fetches_def)
  qed
  have "filter (fetches m) ?ts = map wake_task (filter (fetches m) ((lc_tasks s)[tid := L_Ended (Inr ())]))" for m
    by (simp add: filter_map comp_def)
  moreover have "fetches m (L_Ended (Inr ()) :: 'v ltask) = False" "fetches m (lc_tasks s ! tid) = (m = n)" for m
    using task by (auto simp: fetches_def)
  ultimately have "length (filter (fetches m) ?ts) = (if o_fetching (lc_objs s1 m) then 1 else 0)" for m
    using filter_list_update [OF tid, of "fetches m" "L_Ended (Inr ())"] lc_okD(1) [OF ok, of m] fetching
      updated_obj_ok(2) [of vs now k r "lc_objs s n"]
    by (cases "m = n") (simp_all add: fetch_count_def parts(2) ob_def)
  moreover have "task_ok (s1\<lparr>lc_tasks := ?ts\<rparr>) t" if member: "t \<in> set ?ts" for t
  proof -
    obtain u where u: "t = wake_task u" "u \<in> set ((lc_tasks s)[tid := L_Ended (Inr ())])"
      using member unfolding set_map by blast
    then have "u \<in> set (lc_tasks s) \<or> u = L_Ended (Inr ())"
      using set_update_subset_insert [of "lc_tasks s" tid "L_Ended (Inr ())"] by auto
    then have "task_ok s u" using lc_okD(2) [OF ok] by (auto simp: task_ok_def)
    then show ?thesis using parts(5) by (auto simp: u(1) task_ok_def wake_task_def split: ltask.splits)
  qed
  moreover have "n < lc_next s" using lc_okD(4) [OF ok, of n] fetching by (meson not_le)
  then have "\<forall>m<lc_next s1. obj_ok (lc_objs s1 m)" "\<forall>m\<ge>lc_next s1. \<not> o_fetching (lc_objs s1 m)"
    using lc_okD(3,4) [OF ok] updated_obj_ok [of vs now k r "lc_objs s n"] by (auto simp: parts(2,3) ob_def)
  moreover have "m < lc_next s1" if "map_of (lc_colls s1) c' = Some k'" "(i, m) \<in> set (k_ids k')" for c' k' i m
    using parts(4) [OF that(1)] that(2) ok by (auto simp: parts(3) lc_ok_def)
  ultimately show ?thesis unfolding res lc_ok_def fetch_count_def by simp
qed

section \<open>Getting and deleting\<close>

lemma at_fetching_ok:
  "o_fetching (lc_objs s n) \<Longrightarrow> map_of (lc_colls s) c \<noteq> None \<Longrightarrow> task_ok s (at_fetching instant c i start n ob) \<and>
     \<not> fetches m (at_fetching instant c i start n ob)"
  by (auto simp: at_fetching_def task_ok_def fetches_def split: option.splits)

lemma get_update_ok:
  assumes "lc_ok s" "map_of (lc_colls s) c \<noteq> None" "\<forall>n. obj_of c i s = Some n \<longrightarrow> \<not> o_fetching (lc_objs s n)"
    and "get_update vs now instant c i start s = (s', t)"
  shows "lc_ok s'" and "task_ok s' t" and "\<not> fetches m t" and "length (lc_tasks s) \<le> length (lc_tasks s')"
    and "tid < length (lc_tasks s) \<Longrightarrow> lc_tasks s' ! tid = lc_tasks s ! tid"
proof -
  obtain s1 n where s1: "triggerUpdate vs c i s = (s1, n)" by (cases "triggerUpdate vs c i s")
  note upd = triggerUpdate_ok [OF assms(1-3), where vs = vs, unfolded s1, simplified]
  show "lc_ok s'" "task_ok s' t" "\<not> fetches m t" "length (lc_tasks s) \<le> length (lc_tasks s')"
    "tid < length (lc_tasks s) \<Longrightarrow> lc_tasks s' ! tid = lc_tasks s ! tid"
    using assms(2,4) upd at_fetching_ok [OF upd(2), of c]
    by (auto simp: get_update_def s1 task_ok_def fetches_def split: if_splits)
qed

lemma get_rounds_ok:
  assumes "lc_ok s" "map_of (lc_colls s) c \<noteq> None" "get_rounds vs now instant c i start s = (s', t)"
  shows "lc_ok s' \<and> task_ok s' t \<and> (\<forall>m. \<not> fetches m t) \<and> length (lc_tasks s) \<le> length (lc_tasks s') \<and>
    (\<forall>tid < length (lc_tasks s). lc_tasks s' ! tid = lc_tasks s ! tid)"
proof (cases "\<exists>n. obj_of c i s = Some n \<and> (o_fetching (lc_objs s n) \<or> \<not> obj_expired now (lc_objs s n))")
  case True
  then show ?thesis using assms at_fetching_ok [of s]
    by (auto simp: get_rounds_def Let_def task_ok_def fetches_def split: option.splits if_splits)
next
  case False
  then have idle: "\<forall>n. obj_of c i s = Some n \<longrightarrow> \<not> o_fetching (lc_objs s n)" by blast
  have "get_update vs now instant c i start s = (s', t)"
    using assms(3) False by (auto simp: get_rounds_def Let_def split: option.splits if_splits)
  from get_update_ok [OF assms(1,2) idle this] show ?thesis by blast
qed

lemma idsToId_Inr: "idsToId c ids s = Inr (k, i) \<Longrightarrow> map_of (lc_colls s) c = Some k \<and> i = ids_join ids"
  by (auto simp: idsToId_def Let_def split: if_splits option.splits)

lemma lc_get_ok:
  assumes "lc_ok s"
  shows "lc_ok (lc_get vs now instant c ids s)"
proof (cases "idsToId c ids s")
  case (Inl e)
  then show ?thesis using assms by (auto simp: lc_get_def task_ok_def fetches_def intro: lc_ok_new_task)
next
  case (Inr x)
  obtain k i where x: "x = (k, i)" by (cases x)
  let ?s = "touchResource now c i s"
  obtain s' t where r: "get_rounds vs now instant c i now ?s = (s', t)" by (cases "get_rounds vs now instant c i now ?s")
  have "map_of (lc_colls ?s) c \<noteq> None" using idsToId_Inr [OF Inr [unfolded x]] by (simp add: touchResource_def)
  from get_rounds_ok [OF touchResource_ok [OF assms] this r] show ?thesis
    by (auto simp: lc_get_def Inr x r intro: lc_ok_new_task)
qed


lemma get_continue_ok:
  assumes ok: "lc_ok s"
  shows "lc_ok (get_continue vs now tid s)"
proof (cases "\<exists>instant c i start n. tid < length (lc_tasks s) \<and> lc_tasks s ! tid = L_Woken instant c i start n")
  case True
  then obtain instant c i start n where t: "tid < length (lc_tasks s)" "lc_tasks s ! tid = L_Woken instant c i start n"
    by blast
  let ?i = "instant \<or> (case o_timeout (lc_objs s n) of None \<Rightarrow> False | Some t \<Rightarrow> t > start)"
  show ?thesis
  proof (cases "now - start < lc_timeoutMs s")
    case True
    obtain s' u where r: "get_rounds vs now ?i c i start s = (s', u)" by (cases "get_rounds vs now ?i c i start s")
    have "map_of (lc_colls s) c \<noteq> None" using lc_okD(2) [OF ok nth_mem [OF t(1)]] t(2) by (simp add: task_ok_def)
    from get_rounds_ok [OF ok this r] t have "lc_ok (set_task tid u s')"
      by (intro lc_ok_set_task) (auto simp: fetches_def)
    then show ?thesis using t True r by (simp add: get_continue_def Let_def)
  next
    case False
    then show ?thesis using t ok by (auto simp: get_continue_def task_ok_def fetches_def intro!: lc_ok_set_task)
  qed
qed (use ok in \<open>auto simp: get_continue_def split: ltask.splits\<close>)

lemma lc_delete_ok:
  assumes "lc_ok s"
  shows "lc_ok (lc_delete vs c ids s)"
  using assms
  by (auto simp: lc_delete_def Let_def task_ok_def fetches_def split: sum.splits option.splits
      intro!: lc_ok_new_task remove_entry_ok add_totals_ok)

lemma close_ends_ok:
  assumes ok: "lc_ok s"
  shows "lc_ok (close_ends vs now tid r s)"
proof (cases "tid < length (lc_tasks s)")
  case True
  note mem = lc_okD(2) [OF ok nth_mem [OF True]]
  show ?thesis
  proof (cases "lc_tasks s ! tid")
    case (L_Close c n a b)
    then show ?thesis using True mem ok
      by (auto simp: close_ends_def task_ok_def fetches_def intro!: endUpdate_ok lc_ok_set_task split: sum.splits)
  next
    case (L_Delete c i)
    have "lc_ok (set_task tid (L_Ended r) s')" if "lc_ok s'" "lc_tasks s' = lc_tasks s" for s' :: "'a lcache" and r
      using that True L_Delete by (auto simp: task_ok_def fetches_def intro!: lc_ok_set_task)
    moreover have "lc_tasks (remove_entry c i s) = lc_tasks s" by (simp add: remove_entry_def split: option.splits)
    ultimately show ?thesis using True L_Delete ok remove_entry_ok [OF ok]
      by (auto simp: close_ends_def split: sum.splits)
  qed (use True ok in \<open>simp_all add: close_ends_def\<close>)
qed (simp add: close_ends_def ok)

lemma fetch_ends_ok: "lc_ok s \<Longrightarrow> lc_ok (fetch_ends vs now tid r s)"
  by (auto simp: fetch_ends_def intro: endUpdate_ok split: ltask.splits)

lemma lc_event_ok: "lc_ok s \<Longrightarrow> lc_ok (lc_event vs e s)"
  by (induction vs e s rule: lc_event.induct)
    (simp_all add: lc_get_ok get_continue_ok close_ends_ok fetch_ends_ok lc_delete_ok lc_setDirty_ok lc_register_ok)

lemma lc_run_ok: "lc_ok (lc_run vs timeoutMs events)"
proof -
  have "lc_ok s \<Longrightarrow> lc_ok (fold (lc_event vs) es s)" for es and s :: "'a lcache"
    by (induction es arbitrary: s) (simp_all add: lc_event_ok)
  then show ?thesis unfolding lc_run_def using lc_new_ok by blast
qed


section \<open>What the end of a fetch does\<close>

lemma endUpdate_object:
  assumes "map_of (lc_colls s) c = Some k"
  shows "lc_objs (endUpdate vs now tid c n a b r s) n = updated_obj vs now k r (lc_objs s n)"
    and "obj_of c' i (endUpdate vs now tid c n a b r s) = obj_of c' i s"
    and "lc_timeoutMs (endUpdate vs now tid c n a b r s) = lc_timeoutMs s"
    and "lc_tasks (endUpdate vs now tid c n a b r s) = map wake_task ((lc_tasks s)[tid := L_Ended (Inr ())])"
  using assms
  by (auto simp: endUpdate_def Let_def wake_all_def set_task_def add_totals_def set_obj_def obj_of_def)

lemma updated_obj_fresh:
  "\<not> obj_expired now (updated_obj vs now k r ob)" "o_error (updated_obj vs now k r ob) = (case r of Inl e \<Rightarrow> Some e | Inr _ \<Rightarrow> None)"
  "r = Inr (v, t) \<Longrightarrow> o_data (updated_obj vs now k r ob) = Some v"
  by (auto simp: updated_obj_def obj_expired_def split: sum.splits option.splits)

text \<open>After it, a call that waited and still finds its object ends with the value or with the error.\<close>

lemma endUpdate_answers:
  assumes coll: "map_of (lc_colls s) c' = Some k" and waits: "w < length (lc_tasks s)" "lc_tasks s ! w = L_Wait a c i start n"
    and "w \<noteq> tid" and entry: "obj_of c i s = Some n" and time: "now - start < lc_timeoutMs s"
  shows "lc_tasks (get_continue vs now w (endUpdate vs now tid c' n osize nb r s)) ! w =
    L_Done (case r of Inl e \<Rightarrow> Threw e | Inr (v, t) \<Rightarrow> Returned v)"
proof -
  define s' where "s' = endUpdate vs now tid c' n osize nb r s"
  have upd: "lc_objs s' n = updated_obj vs now k r (lc_objs s n)" "\<And>c i. obj_of c i s' = obj_of c i s"
    "lc_timeoutMs s' = lc_timeoutMs s" "lc_tasks s' = map wake_task ((lc_tasks s)[tid := L_Ended (Inr ())])"
    unfolding s'_def by (rule endUpdate_object [OF coll])+
  have w: "w < length (lc_tasks s')" "lc_tasks s' ! w = L_Woken a c i start n"
    using assms(2-4) by (simp_all add: upd(4) wake_task_def)
  have "get_rounds vs now inst c i start s' = (s', L_Done (case r of Inl e \<Rightarrow> Threw e | Inr (v, t) \<Rightarrow> Returned v))" for inst
    using updated_obj_ok(2) [of vs now k r "lc_objs s n"] updated_obj_fresh [where now = now and vs = vs and k = k and r = r and ob = "lc_objs s n"] entry
    by (auto simp: get_rounds_def upd(1,2) Let_def split: sum.splits option.splits)
  then show ?thesis
    using w time by (simp add: get_continue_def Let_def upd(3) set_task_def flip: s'_def)
qed

lemma waits_fetch:
  assumes ok: "lc_ok s" and waits: "w < length (lc_tasks s)" "lc_tasks s ! w = L_Wait a c i start n"
  obtains tid where "tid < length (lc_tasks s)" "fetches n (lc_tasks s ! tid)"
proof -
  have "o_fetching (lc_objs s n)" using lc_okD(2) [OF ok nth_mem [OF waits(1)]] waits(2) by (simp add: task_ok_def)
  then have "filter (fetches n) (lc_tasks s) \<noteq> []" using lc_okD(1) [OF ok, of n] by (auto simp: fetch_count_def)
  then show thesis using that by (auto simp: filter_empty_conv in_set_conv_nth)
qed


lemma never_invalid:
  "obj_of c i (lc_run vs timeoutMs es) = Some n \<Longrightarrow> o_fetching (lc_objs (lc_run vs timeoutMs es) n) \<or>
     (o_data (lc_objs (lc_run vs timeoutMs es) n) = None) \<noteq> (o_error (lc_objs (lc_run vs timeoutMs es) n) = None)"
  by (drule lc_okD(5) [OF lc_run_ok], drule lc_okD(3) [OF lc_run_ok]) (auto simp: obj_ok_def)

text \<open>
  After any sequence of events, at most one update of an object is under way, whether it still closes the old value
  or waits for its trigger: there is one just when the object is marked as being fetched.
\<close>

lemma one_fetch_at_a_time:
  "length (filter (fetches n) (lc_tasks (lc_run vs timeoutMs es))) =
     (if o_fetching (lc_objs (lc_run vs timeoutMs es) n) then 1 else 0)"
  using lc_okD(1) [OF lc_run_ok] unfolding fetch_count_def .

text \<open>
  C31. A call that waits for an object is answered by a fetch that is under way: there is one, and when it ends, the
  old value being closed if it still has to, the call continues with the value the trigger returned, or with the
  error it threw. The object must still be the one of the identifier then (no \<open>delete\<close> in between), and the time limit
  of the call must not be over.
\<close>

theorem waiting_call_is_answered:
  assumes "w < length (lc_tasks (lc_run vs timeoutMs es))"
    and "lc_tasks (lc_run vs timeoutMs es) ! w = L_Wait instant c i start n"
    and "obj_of c i (lc_run vs timeoutMs es) = Some n"
    and "now - start < lc_timeoutMs (lc_run vs timeoutMs es)"
  shows "\<exists>tid < length (lc_tasks (lc_run vs timeoutMs es)). fetches n (lc_tasks (lc_run vs timeoutMs es) ! tid) \<and>
    lc_tasks (get_continue vs now w (fetch_ends vs now tid r (close_ends vs before tid (Inr ())
      (lc_run vs timeoutMs es)))) ! w = L_Done (case r of Inl e \<Rightarrow> Threw e | Inr (v, t) \<Rightarrow> Returned v)"
proof -
  let ?s = "lc_run vs timeoutMs es"
  obtain tid where tid: "tid < length (lc_tasks ?s)" "fetches n (lc_tasks ?s ! tid)"
    by (rule waits_fetch [OF lc_run_ok assms(1,2)])
  have other: "w \<noteq> tid" using tid(2) assms(2) by (auto simp: fetches_def)
  obtain c' a b where task: "lc_tasks ?s ! tid \<in> {L_Close c' n a b, L_Fetch c' n a b}"
    using tid(2) by (auto simp: fetches_def split: ltask.splits)
  then obtain k where k: "map_of (lc_colls ?s) c' = Some k"
    using lc_okD(2) [OF lc_run_ok nth_mem [OF tid(1)]] by (auto simp: task_ok_def)
  have step: "fetch_ends vs now tid r (close_ends vs before tid (Inr ()) ?s) =
    endUpdate vs now tid c' n a b r (if lc_tasks ?s ! tid = L_Fetch c' n a b then ?s else set_task tid (L_Fetch c' n a b) ?s)"
    using task tid(1) by (auto simp: close_ends_def fetch_ends_def set_task_def)
  show ?thesis
  proof (intro exI conjI)
    show "lc_tasks (get_continue vs now w (fetch_ends vs now tid r (close_ends vs before tid (Inr ()) ?s))) ! w =
      L_Done (case r of Inl e \<Rightarrow> Threw e | Inr (v, t) \<Rightarrow> Returned v)"
      unfolding step using k assms other
      by (intro endUpdate_answers [where k = k and start = start]) (auto simp: set_task_def obj_of_def)
  qed (rule tid)+
qed

definition ex_lvalues :: "int lvalues" where
  "ex_lvalues = \<lparr>v_object = (\<lambda>v. True), v_null = (\<lambda>v. False), v_size = (\<lambda>v. v), v_close = (\<lambda>v. v > 0)\<rparr>"

text \<open>Two calls for one value, which is then fetched again: the old value has to be closed first.\<close>

definition ex_lc_run :: "int lcache" where
  "ex_lc_run = lc_run ex_lvalues 30000
     [(0, E_Register ''c'' None (Some 50)), (10, E_Get False ''c'' [''x'']), (20, E_Get False ''c'' [''x'']),
      (30, E_Fetched 0 (Inr (7, Some 50))), (30, E_Continue 1), (30, E_Continue 2), (90, E_Get False ''c'' [''x'']),
      (91, E_Get True ''c'' [''x''])]"

lemma ex_lc_tasks:
  "lc_tasks ex_lc_run = [L_Ended (Inr ()), L_Done (Returned 7), L_Done (Returned 7), L_Close ''c'' 0 7 1,
     L_Wait False ''c'' [CHR 0x01, CHR ''x''] 90 0, L_Done (Returned 7)]"
  by code_simp

theorem waiting_call_is_answered_witness:
  "lc_tasks (get_continue ex_lvalues 120 4 (fetch_ends ex_lvalues 120 3 (Inr (8, None))
     (close_ends ex_lvalues 100 3 (Inr ()) ex_lc_run))) ! 4 = L_Done (Returned 8)"
proof -
  have "\<exists>tid < length (lc_tasks ex_lc_run). fetches 0 (lc_tasks ex_lc_run ! tid) \<and> lc_tasks (get_continue ex_lvalues 120 4 (fetch_ends ex_lvalues 120 tid
      (Inr (8, None)) (close_ends ex_lvalues 100 tid (Inr ()) ex_lc_run))) ! 4 =
    L_Done (case (Inr (8, None) :: (int \<times> int option) outcome) of Inl e \<Rightarrow> Threw e | Inr (v, t) \<Rightarrow> Returned v)"
    unfolding ex_lc_run_def
    by (rule waiting_call_is_answered [where instant = False and c = "''c''" and i = "[CHR 0x01, CHR ''x'']" and
        start = 90]) (unfold ex_lc_run_def [symmetric], simp_all add: ex_lc_tasks, code_simp+)
  moreover have "tid = 3" if "tid < length (lc_tasks ex_lc_run)" "fetches 0 (lc_tasks ex_lc_run ! tid)" for tid
    using that by (auto simp: ex_lc_tasks fetches_def less_Suc_eq nth_Cons numeral_eq_Suc)
  ultimately show ?thesis by auto
qed


section \<open>What does not work\<close>

text \<open>The check for protected identifiers never fails, as every identifier starts with the separator.\<close>

lemma ids_join_not_protected: "ids_join ids \<noteq> [] \<and> hd (ids_join ids) \<noteq> CHR ''_''"
  by (cases ids) (auto simp: ids_join_def)

text \<open>
  The collector joins the identifier it took from the resource with another separator, so it looks for an entry that is
  not there: the round below leaves both entries where they are.
\<close>

lemma gc_round_keeps:
  "map (\<lambda>(c, k). (c, map fst (k_ids k))) (lc_colls (gc_round ex_lvalues 1 0 ex_lc_run)) =
     [(''c'', [[CHR 0x01, CHR ''x'']])] \<and>
   lc_size (gc_round ex_lvalues 1 0 ex_lc_run) = 7 \<and>
   lc_resources (gc_round ex_lvalues 1 0 ex_lc_run) = lc_resources ex_lc_run"
  by (intro conjI; code_simp)

text \<open>The end of a fetch counts its value even when the entry was deleted meanwhile: the size stays for ever.\<close>

lemma deleted_while_fetched:
  "let s = lc_run ex_lvalues 30000 [(0, E_Register ''c'' None None), (1, E_Get False ''c'' [''x'']),
     (2, E_Delete ''c'' [''x'']), (3, E_Fetched 0 (Inr (7, None)))]
   in map (\<lambda>(c, k). (c, k_ids k)) (lc_colls s) = [(''c'', [])] \<and> lc_size s = 7 \<and> lc_nb s = 1"
  by code_simp

end
