(* ===== verification/Handlers.thy ===== *)
theory Handlers
  imports Data ValidationSchema Format
begin

text \<open>
  \<open>nodejs/db/data/handlers/*\<close>: what is done with the fragments of an insertion before they are stored. Handlers are
  configured at paths; they see the fragments below their path, which are contiguous once they are sorted.

  A fragment is a key, a value and its options; every fragment has an options object of its own. The handlers of a
  path that validate keep the set of the keys they have seen; it is kept here by path, beside the configuration.
  Segments of configured paths are not the name under which the handlers are stored (the character 1). The keys of one
  insertion are not below each other where one has an array: in JavaScript it would get a named property.
\<close>

section \<open>Fragments\<close>

type_synonym fragment_option = "(string \<times> json) list"
type_synonym hfragment = "key \<times> json \<times> fragment_option"

definition sort_fragments :: "hfragment list \<Rightarrow> hfragment list" where
  "sort_fragments fs = sort_key (\<lambda>f. keyToInternal (fst f)) fs"

definition below :: "key \<Rightarrow> hfragment \<Rightarrow> bool" where
  "below root f = keyStartsWith (fst f) root"

definition relative_key :: "key \<Rightarrow> hfragment \<Rightarrow> key" where
  "relative_key root f = drop (length root) (fst f)"

text \<open>\<open>all\<close> from an index: the fragments before, the ones of the range, and the ones behind.\<close>

definition range_of :: "key \<Rightarrow> nat \<Rightarrow> hfragment list \<Rightarrow> hfragment list" where
  "range_of root index fs = takeWhile (below root) (drop index fs)"

definition range_update :: "(hfragment list \<Rightarrow> hfragment list) \<Rightarrow> key \<Rightarrow> nat \<Rightarrow> hfragment list \<Rightarrow> hfragment list" where
  "range_update f root index fs =
     take index fs @ f (range_of root index fs) @ dropWhile (below root) (drop index fs)"

definition set_option :: "string \<Rightarrow> json \<Rightarrow> hfragment \<Rightarrow> hfragment" where
  "set_option name v f = (case f of (key, w, options) \<Rightarrow> (key, w, AList.update name v options))"

definition range_add :: "key \<Rightarrow> key \<Rightarrow> json \<Rightarrow> fragment_option \<Rightarrow> hfragment list \<Rightarrow> hfragment list" where
  "range_add root key v options fs = sort_fragments (fs @ [(root @ key, v, options)])"

section \<open>Handlers\<close>

datatype handler =
    HValidation json
  | HToString json
  | HExpires json
  | HUnit json
  | HHistory json

text \<open>\<open>to_string.js\<close>: the values below the root by their parent, with the options of all of them.\<close>

type_synonym text_group = "(string \<times> json) list \<times> fragment_option"

definition group_fragment :: "key \<Rightarrow> hfragment \<Rightarrow> (string \<times> text_group) list \<Rightarrow> (string \<times> text_group) list" where
  "group_fragment root f groups =
     (let key = relative_key root f
      in if key = [] then groups
         else let entry = keyToInternal (butlast key);
                  (vs, options) = (case map_of groups entry of None \<Rightarrow> ([], []) | Some g \<Rightarrow> g)
              in AList.update entry
                   (AList.update (last key) (fst (snd f)) vs,
                    fold (\<lambda>(name, v). AList.update name v) (snd (snd f)) options) groups)"

definition text_groups :: "key \<Rightarrow> hfragment list \<Rightarrow> (string \<times> text_group) list" where
  "text_groups root fs = fold (group_fragment root) fs []"

definition format_pattern :: "json \<Rightarrow> (string \<times> json) list \<Rightarrow> string outcome" where
  "format_pattern pattern vs =
     (case pattern of JStr p \<Rightarrow> formatString p [JObj vs] | _ \<Rightarrow> Inl TypeErr)"

fun add_texts :: "key \<Rightarrow> json \<Rightarrow> (string \<times> text_group) list \<Rightarrow> hfragment list \<Rightarrow> hfragment list outcome" where
  "add_texts root pattern [] fs = Inr fs"
| "add_texts root pattern ((internal, vs, options) # groups) fs =
     (case format_pattern pattern vs of
        Inl e \<Rightarrow> Inl PreconditionFailed
      | Inr t \<Rightarrow> add_texts root pattern groups (range_add root (internalToKey internal) (JStr t) options fs))"

definition toString_process :: "json \<Rightarrow> key \<Rightarrow> nat \<Rightarrow> hfragment list \<Rightarrow> hfragment list outcome" where
  "toString_process pattern root index fs =
     add_texts root pattern (text_groups root (range_of root index fs))
       (range_update (filter (\<lambda>f. relative_key root f = [])) root index fs)"

text \<open>\<open>validation.js\<close>: one value from the values of the range.\<close>

fun set_path :: "key \<Rightarrow> json \<Rightarrow> json \<Rightarrow> json outcome" where
  "set_path [] v current = Inr v"
| "set_path (segment # key) v current =
     (case current of
        JObj ps \<Rightarrow>
          (let child = (if key \<noteq> [] \<and> js_get current segment \<in> {JNull, JUndefined} then JObj [] else js_get current segment)
           in outcome_bind (set_path key v child) (\<lambda>w. Inr (JObj (AList.update segment w ps))))
      | _ \<Rightarrow> Inl TypeErr)"

fun collect_values :: "key \<Rightarrow> hfragment list \<Rightarrow> json \<Rightarrow> json outcome" where
  "collect_values root [] values = Inr values"
| "collect_values root (f # fs) values =
     outcome_bind (set_path (relative_key root f) (fst (snd f)) values) (collect_values root fs)"

text \<open>
  The positions of the fragments with a key not seen before, and the keys seen then. When a value cannot be set, the
  fragments behind it are not looked at.
\<close>

fun new_hashes :: "key \<Rightarrow> nat \<Rightarrow> hfragment list \<Rightarrow> json \<Rightarrow> string list \<Rightarrow> (string \<times> nat) list \<times> string list" where
  "new_hashes root index [] values seen = ([], seen)"
| "new_hashes root index (f # fs) values seen =
     (let hash = keyToInternal (relative_key root f);
          news = (if hash \<in> set seen then [] else [(hash, index)]);
          seen' = (if hash \<in> set seen then seen else seen @ [hash])
      in case set_path (relative_key root f) (fst (snd f)) values of
           Inl e \<Rightarrow> (news, seen')
         | Inr values' \<Rightarrow> (case new_hashes root (Suc index) fs values' seen' of (rest, seen'') \<Rightarrow> (news @ rest, seen'')))"

text \<open>The visitor takes the unit of a property, or of the elements of an array.\<close>

definition is_array_type :: "json \<Rightarrow> bool" where
  "is_array_type ty = (case ty of JStr s \<Rightarrow> s = ''array'' | JArr _ \<Rightarrow> to_property_key ty = ''array'' | _ \<Rightarrow> False)"

definition property_unit :: "json \<Rightarrow> json" where
  "property_unit property =
     (if is_array_type (js_get property ''type'') then js_get (js_get property ''items'') ''unit''
      else js_get property ''unit'')"

definition visit_unit :: "(string \<times> nat) list \<Rightarrow> visit \<Rightarrow> hfragment list \<Rightarrow> hfragment list" where
  "visit_unit news vis fs =
     (case vis of
        (v, property, key) \<Rightarrow>
          (case map_of news (keyToInternal (map to_property_key key)) of
             None \<Rightarrow> fs
           | Some i \<Rightarrow>
               if truthy (property_unit property) then fs[i := set_option ''unit'' (property_unit property) (fs ! i)] else fs))"

definition validation_process :: "json \<Rightarrow> key \<Rightarrow> nat \<Rightarrow> string list \<Rightarrow> hfragment list \<Rightarrow> string list \<times> hfragment list outcome" where
  "validation_process schema root index seen fs =
     (case new_hashes root index (range_of root index fs) (JObj []) seen of
        (news, seen') \<Rightarrow>
          (seen',
           case collect_values root (range_of root index fs) (JObj []) of
             Inl e \<Rightarrow> Inl PreconditionFailed
           | Inr values \<Rightarrow>
               (case schema_validate schema values of
                  (visits, Inl e) \<Rightarrow> Inl PreconditionFailed
                | (visits, Inr _) \<Rightarrow> Inr (fold (visit_unit news) visits fs))))"

definition handler_process :: "handler \<Rightarrow> key \<Rightarrow> nat \<Rightarrow> string list \<Rightarrow> hfragment list \<Rightarrow>
    string list \<times> hfragment list outcome" where
  "handler_process h root index seen fs =
     (case h of
        HValidation schema \<Rightarrow> validation_process schema root index seen fs
      | HToString pattern \<Rightarrow> (seen, toString_process pattern root index fs)
      | HExpires v \<Rightarrow> (seen, Inr (range_update (map (set_option ''expires'' v)) root index fs))
      | HUnit v \<Rightarrow> (seen, Inr (range_update (map (set_option ''unit'' v)) root index fs))
      | HHistory v \<Rightarrow> (seen, Inr (range_update (map (set_option ''history'' v)) root index fs)))"

fun handlers_process :: "handler list \<Rightarrow> key \<Rightarrow> nat \<Rightarrow> string list \<Rightarrow> hfragment list \<Rightarrow>
    string list \<times> hfragment list outcome" where
  "handlers_process [] root index seen fs = (seen, Inr fs)"
| "handlers_process (h # hs) root index seen fs =
     (case handler_process h root index seen fs of
        (seen', Inl e) \<Rightarrow> (seen', Inl e)
      | (seen', Inr fs') \<Rightarrow> handlers_process hs root index seen' fs')"

section \<open>The configuration\<close>

datatype htree = HTree "handler list option" "(string \<times> htree) list"

definition empty_htree :: htree where
  "empty_htree = HTree None []"

fun htree_add :: "key \<Rightarrow> handler list \<Rightarrow> htree \<Rightarrow> htree" where
  "htree_add [] hs (HTree x kids) = HTree (Some hs) kids"
| "htree_add (segment # key) hs (HTree x kids) =
     HTree x (AList.update segment
       (htree_add key hs (case map_of kids segment of None \<Rightarrow> empty_htree | Some t \<Rightarrow> t)) kids)"

definition sortedAvailableHandlers :: "string list" where
  "sortedAvailableHandlers = [''validation'', ''toString'', ''expires'', ''unit'', ''history'']"

definition make_handler :: "string \<times> json \<Rightarrow> handler outcome" where
  "make_handler entry =
     (case entry of
        (name, options) \<Rightarrow>
          if name = ''validation'' then outcome_bind (make_schema options) (\<lambda>schema. Inr (HValidation schema))
          else if name = ''toString'' then Inr (HToString options)
          else if name = ''expires'' then Inr (HExpires options)
          else if name = ''unit'' then Inr (HUnit options)
          else if name = ''history'' then Inr (HHistory options)
          else Inl AssertFailed)"

definition sorted_props :: "(string \<times> json) list \<Rightarrow> (string \<times> json) list" where
  "sorted_props props = sort_key (\<lambda>(name, _). find_index (\<lambda>h. h = name) sortedAvailableHandlers) props"

record handlers =
  h_tree :: htree
  h_default :: fragment_option
  h_seen :: "(key \<times> string list) list"

definition add_configuration :: "string \<times> (string \<times> json) list \<Rightarrow> htree outcome \<Rightarrow> htree outcome" where
  "add_configuration entry tree =
     outcome_bind tree (\<lambda>t.
       outcome_bind (outcome_map make_handler (sorted_props (snd entry)))
         (\<lambda>hs. Inr (htree_add (pathToKey (fst entry)) hs t)))"

definition new_handlers :: "(string \<times> (string \<times> json) list) list \<Rightarrow> fragment_option \<Rightarrow> handlers outcome" where
  "new_handlers configuration defaults =
     outcome_bind (fold add_configuration configuration (Inr empty_htree))
       (\<lambda>t. Inr \<lparr>h_tree = t, h_default = defaults, h_seen = []\<rparr>)"

text \<open>The paths on the way down a key that have handlers.\<close>

fun configured :: "key \<Rightarrow> htree \<Rightarrow> key \<Rightarrow> (key \<times> handler list) list" where
  "configured done (HTree x kids) [] = []"
| "configured done (HTree x kids) (segment # key) =
     (case map_of kids segment of
        None \<Rightarrow> []
      | Some (HTree y kids') \<Rightarrow>
          (case y of None \<Rightarrow> [] | Some hs \<Rightarrow> [(done @ [segment], hs)]) @
          configured (done @ [segment]) (HTree y kids') key)"

section \<open>Processing\<close>

definition seen_at :: "key \<Rightarrow> (key \<times> string list) list \<Rightarrow> string list" where
  "seen_at root seen = (case map_of seen root of None \<Rightarrow> [] | Some hs \<Rightarrow> hs)"

type_synonym processing = "(key \<times> string list) list \<times> hfragment list outcome"

definition process_root :: "nat \<Rightarrow> key \<times> handler list \<Rightarrow> processing \<Rightarrow> processing" where
  "process_root index entry st =
     (case (entry, st) of
        ((root, hs), (seen, Inl e)) \<Rightarrow> (seen, Inl e)
      | ((root, hs), (seen, Inr fs)) \<Rightarrow>
          if index > 0 \<and> below root (fs ! (index - 1)) then (seen, Inr fs)
          else (case handlers_process hs root index (seen_at root seen) fs of
                  (s, r) \<Rightarrow> (AList.update root s seen, r)))"

definition process_index :: "htree \<Rightarrow> nat \<Rightarrow> (key \<times> string list) list \<Rightarrow> hfragment list \<Rightarrow> processing" where
  "process_index tree index seen fs =
     fold (process_root index) (configured [] tree (fst (fs ! index))) (seen, Inr fs)"


text \<open>No handler makes the list longer: every text replaces at least one fragment.\<close>

lemma range_split: "fs = take index fs @ range_of root index fs @ dropWhile (below root) (drop index fs)"
  by (simp add: range_of_def)

lemma range_length:
  "length fs = length (take index fs) + (length (range_of root index fs) + length (dropWhile (below root) (drop index fs)))"
proof -
  have "length fs = length (take index fs @ range_of root index fs @ dropWhile (below root) (drop index fs))"
    by (rule arg_cong [OF range_split])
  then show ?thesis by (simp only: length_append)
qed

lemma update_length: "length (AList.update k v xs) \<le> Suc (length xs)"
  by (induction xs) auto

lemma text_groups_length:
  "length (fold (group_fragment root) fs groups) \<le> length groups + length (filter (\<lambda>f. relative_key root f \<noteq> []) fs)"
proof (induction fs arbitrary: groups)
  case (Cons f fs)
  have "length (group_fragment root f groups) \<le> length groups + (if relative_key root f \<noteq> [] then 1 else 0)"
    by (auto simp: group_fragment_def Let_def split: prod.splits intro: order_trans [OF update_length])
  then show ?case using Cons [of "group_fragment root f groups"] by (simp split: if_splits)
qed simp

lemma add_texts_length: "add_texts root pattern groups fs = Inr fs' \<Longrightarrow> length fs' = length fs + length groups"
  by (induction root pattern groups fs rule: add_texts.induct)
    (auto simp: range_add_def sort_fragments_def split: sum.splits)

lemma toString_length:
  assumes "toString_process pattern root index fs = Inr fs'"
  shows "length fs' \<le> length fs"
proof -
  let ?range = "range_of root index fs"
  have "length fs' = length (range_update (filter (\<lambda>f. relative_key root f = [])) root index fs) +
      length (text_groups root ?range)"
    by (rule add_texts_length [OF assms [unfolded toString_process_def]])
  moreover have "length (text_groups root ?range) \<le> length (filter (\<lambda>f. relative_key root f \<noteq> []) ?range)"
    using text_groups_length [of root ?range "[]"] by (simp add: text_groups_def)
  moreover have "length (filter (\<lambda>f. relative_key root f = []) ?range) +
      length (filter (\<lambda>f. relative_key root f \<noteq> []) ?range) = length ?range"
    by (rule sum_length_filter_compl)
  moreover have "length fs = length (take index fs) + (length ?range + length (dropWhile (below root) (drop index fs)))"
    by (rule range_length)
  ultimately show ?thesis unfolding range_update_def length_append by linarith
qed

lemma visit_unit_length: "length (fold (visit_unit news) visits fs) = length fs"
  by (induction visits arbitrary: fs) (auto simp: visit_unit_def split: prod.splits option.splits)

lemma range_map_length: "length (range_update (map f) root index fs) = length fs"
  unfolding range_update_def length_append length_map by (rule range_length [symmetric])

lemma handler_process_length:
  "handler_process h root index seen fs = (seen', Inr fs') \<Longrightarrow> length fs' \<le> length fs"
  by (cases h)
    (auto simp: handler_process_def validation_process_def visit_unit_length range_map_length dest: toString_length
      split: prod.splits sum.splits)

lemma handlers_process_length:
  "handlers_process hs root index seen fs = (seen', Inr fs') \<Longrightarrow> length fs' \<le> length fs"
proof (induction hs arbitrary: seen fs)
  case (Cons h hs)
  obtain s r where st: "handler_process h root index seen fs = (s, r)" by (cases "handler_process h root index seen fs")
  show ?case
  proof (cases r)
    case (Inr fs1)
    then have "length fs1 \<le> length fs" "length fs' \<le> length fs1"
      using st Cons.prems by (auto dest: handler_process_length intro: Cons.IH)
    then show ?thesis by simp
  qed (use st Cons.prems in simp)
qed simp

lemma process_root_length:
  "process_root index entry (seen, Inr fs) = (seen', Inr fs') \<Longrightarrow> length fs' \<le> length fs"
  by (auto simp: process_root_def split: prod.splits if_splits dest: handlers_process_length)

lemma process_roots_length:
  "fold (process_root index) roots (seen, Inr fs) = (seen', Inr fs') \<Longrightarrow> length fs' \<le> length fs"
proof (induction roots arbitrary: seen fs)
  case (Cons entry roots)
  obtain s r where st: "process_root index entry (seen, Inr fs) = (s, r)" by (cases "process_root index entry (seen, Inr fs)")
  have err: "fold (process_root index) roots (s, Inl e) = (s, Inl e)" for s e
    by (induction roots) (simp_all add: process_root_def split: prod.splits)
  show ?case
  proof (cases r)
    case (Inl e)
    then show ?thesis using Cons.prems by (simp add: st err)
  next
    case (Inr fs1)
    then have "length fs1 \<le> length fs" "length fs' \<le> length fs1"
      using st Cons.prems by (auto dest: process_root_length intro: Cons.IH)
    then show ?thesis by simp
  qed
qed simp

function process_loop :: "htree \<Rightarrow> nat \<Rightarrow> (key \<times> string list) list \<Rightarrow> hfragment list \<Rightarrow> processing" where
  "process_loop tree index seen fs =
     (if index < length fs
      then (case process_index tree index seen fs of
              (seen', Inl e) \<Rightarrow> (seen', Inl e)
            | (seen', Inr fs') \<Rightarrow> process_loop tree (Suc index) seen' fs')
      else (seen, Inr fs))"
  by pat_completeness auto
termination
  by (relation "measure (\<lambda>(tree, index, seen, fs). length fs - index)")
    (auto simp: process_index_def dest!: process_roots_length [OF sym])

declare process_loop.simps [simp del]

definition with_defaults :: "fragment_option \<Rightarrow> hfragment \<Rightarrow> hfragment" where
  "with_defaults defaults f =
     (case f of (key, v, options) \<Rightarrow> (key, v, fold (\<lambda>(name, w). AList.update name w) defaults options))"

definition handlers_run :: "hfragment list \<Rightarrow> handlers \<Rightarrow> handlers \<times> hfragment list outcome" where
  "handlers_run fragments h =
     (case process_loop (h_tree h) 0 (h_seen h) (map (with_defaults (h_default h)) (sort_fragments fragments)) of
        (seen, r) \<Rightarrow> (h\<lparr>h_seen := seen\<rparr>, r))"

end
