(* ===== verification/Handlers_Props.thy ===== *)
theory Handlers_Props
  imports Handlers
begin

text \<open>
  What handlers that set an option do: every fragment below their path gets the option, the deeper path last, although
  a handler runs only at the first fragment of a range. This rests on the order of the fragments, in which those below
  a path are contiguous.
\<close>

section \<open>Keys below a path are contiguous\<close>

definition plain_key :: "key \<Rightarrow> bool" where
  "plain_key key = (\<forall>s\<in>set key. s \<noteq> [] \<and> CHR '','' \<notin> set s \<and> (\<forall>c\<in>set s. key_separator < c))"

lemma plain_key_ok: "plain_key key \<Longrightarrow> key \<noteq> [] \<Longrightarrow> key_ok key"
  unfolding plain_key_def key_ok_def by blast

lemma plain_key_prefix: "plain_key key \<Longrightarrow> prefix root key \<Longrightarrow> plain_key root"
  unfolding plain_key_def by (meson set_mono_prefix subsetD)

lemma keyStartsWith_plain: "plain_key key \<Longrightarrow> plain_key root \<Longrightarrow> keyStartsWith key root \<longleftrightarrow> prefix root key"
  by (rule keyStartsWith_prefix) (unfold plain_key_def, auto)

lemma between_append: "p @ x \<le> b \<Longrightarrow> b \<le> p @ y \<Longrightarrow> \<exists>w. b = p @ w \<and> x \<le> w \<and> w \<le> (y :: string)"
proof (induction p arbitrary: b)
  case (Cons c p)
  then obtain d b' where b: "b = d # b'" by (cases b) auto
  then show ?case using Cons.prems Cons.IH [of b'] by auto
qed auto

lemma join_prefix:
  "prefix root key \<Longrightarrow> root \<noteq> [] \<Longrightarrow>
     \<exists>w. join_with [c] key = join_with [c] root @ w \<and> (w = [] \<or> (\<exists>u. w = c # u))"
proof (induction root arbitrary: key)
  case (Cons s root)
  obtain key' where key: "key = s # key'" "prefix root key'" using Cons.prems by (auto simp: prefix_def)
  show ?case
  proof (cases "root = []")
    case True
    then show ?thesis by (cases key') (simp_all add: key)
  next
    case False
    then obtain t root' u key'' where t: "root = t # root'" "key' = t # key''" using key(2) by (cases root; cases key') auto
    from Cons.IH [OF key(2) False] show ?thesis by (auto simp: key t)
  qed
qed simp

lemma contiguous_keys:
  assumes plain: "plain_key a" "plain_key b" "plain_key c"
    and root: "prefix root a" "prefix root c" "root \<noteq> []"
    and order: "keyToInternal a \<le> keyToInternal b" "keyToInternal b \<le> keyToInternal c"
  shows "prefix root b"
proof -
  let ?r = "keyToInternal root"
  obtain x y where x: "keyToInternal a = ?r @ x" and y: "keyToInternal c = ?r @ y" "y = [] \<or> (\<exists>u. y = key_separator # u)"
    using join_prefix [OF root(1,3), of key_separator] join_prefix [OF root(2,3), of key_separator]
    unfolding keyToInternal_def by auto
  obtain w where w: "keyToInternal b = ?r @ w" "w \<le> y"
    using between_append [OF order [unfolded x y(1)]] by blast
  have rok: "key_ok root" using plain_key_ok [OF plain_key_prefix [OF plain(1) root(1)] root(3)] .
  have rne: "?r \<noteq> []"
    using plain_key_prefix [OF plain(1) root(1)] root(3) by (cases root; cases "tl root") (auto simp: keyToInternal_def plain_key_def)
  have bne: "b \<noteq> []" using rne w(1) by (auto simp: keyToInternal_def)
  have chars: "key_separator \<le> d" if "d \<in> set (keyToInternal b)" for d
    using that plain(2) unfolding keyToInternal_def
    by (induction "[key_separator]" b rule: join_with.induct) (auto simp: plain_key_def)
  have "w = [] \<or> (\<exists>u. w = key_separator # u)"
  proof (cases w)
    case (Cons d u)
    then have "d \<le> key_separator" using y(2) w(2) by auto
    moreover have "key_separator \<le> d" using chars Cons w(1) by simp
    ultimately show ?thesis using Cons by simp
  qed simp
  then have "internalToKey (keyToInternal b) = root \<or> (\<exists>u. internalToKey (keyToInternal b) = root @ split_on key_separator u)"
  proof
    assume "w = []"
    then show ?thesis using internalToKey_inverse [OF rok] w(1) by simp
  next
    assume "\<exists>u. w = key_separator # u"
    then obtain u where u: "w = key_separator # u" by blast
    have "split_on key_separator (join_with [key_separator] root @ key_separator # u) = root @ split_on key_separator u"
      using rok unfolding key_ok_def
      by (induction "[key_separator]" root rule: join_with.induct) (auto simp: split_on_append_sep)
    then show ?thesis using w(1) u by (auto simp: internalToKey_def keyToInternal_def)
  qed
  moreover have "internalToKey (keyToInternal b) = b" using internalToKey_inverse [OF plain_key_ok [OF plain(2) bne]] .
  ultimately show ?thesis by auto
qed


section \<open>The paths of a key\<close>

abbreviation on :: "key \<Rightarrow> key \<times> handler list \<Rightarrow> bool" where
  "on key entry \<equiv> prefix (fst entry) key"

lemma configured_below:
  "(root, hs) \<in> set (configured done t key) \<Longrightarrow> \<exists>p. p \<noteq> [] \<and> prefix p key \<and> root = done @ p"
proof (induction "done" t key rule: configured.induct)
  case (2 "done" x kids segment key)
  show ?case
  proof (cases "map_of kids segment")
    case (Some kid)
    obtain y kids' where kid: "kid = HTree y kids'" by (cases kid)
    from 2(2) Some kid consider "root = done @ [segment]"
      | "(root, hs) \<in> set (configured (done @ [segment]) (HTree y kids') key)"
      by (auto split: option.splits)
    then show ?thesis
    proof cases
      case 2
      from "2.IH" [OF Some kid 2] show ?thesis by auto
    qed auto
  qed (use 2(2) in simp)
qed simp

lemma configured_prefixes: "sorted_wrt (\<lambda>a b. prefix (fst a) (fst b)) (configured done t key)"
proof (induction "done" t key rule: configured.induct)
  case (2 "done" x kids segment key)
  show ?case
  proof (cases "map_of kids segment")
    case (Some kid)
    obtain y kids' where kid: "kid = HTree y kids'" by (cases kid)
    have "prefix (done @ [segment]) root" if "(root, hs) \<in> set (configured (done @ [segment]) (HTree y kids') key)" for root hs
      using configured_below [OF that] by auto
    then show ?thesis using "2.IH" [OF Some kid] Some kid by (auto simp: split: option.splits)
  qed simp
qed simp

lemma configured_other:
  assumes "e \<in> set (configured done t (s # key))" "s \<noteq> s'"
  shows "\<not> on (done @ s' # k) e"
proof -
  obtain p where p: "p \<noteq> []" "prefix p (s # key)" "fst e = done @ p"
    using configured_below [of "fst e" "snd e" "done" t "s # key"] assms(1) by auto
  then obtain q where "p = s # q" by (cases p) auto
  then show ?thesis using p(3) assms(2) by simp
qed

lemma configured_common:
  "filter (on (done @ k)) (configured done t key) = filter (on (done @ key)) (configured done t k)"
proof (induction "done" t key arbitrary: k rule: configured.induct)
  case (1 "done" x kids)
  have "\<not> on done e" if "e \<in> set (configured done (HTree x kids) k)" for e
    using that configured_below [of "fst e" "snd e" "done" "HTree x kids" k] by (auto simp: prefix_def)
  then show ?case by (simp add: filter_empty_conv)
next
  case (2 "done" x kids segment key)
  show ?case
  proof (cases k)
    case Nil
    have "\<not> on done e" if "e \<in> set (configured done (HTree x kids) (segment # key))" for e
      using that configured_below [of "fst e" "snd e" "done" "HTree x kids" "segment # key"] by (auto simp: prefix_def)
    then show ?thesis by (simp add: Nil filter_empty_conv del: configured.simps(2))
  next
    case (Cons s' k')
    show ?thesis
    proof (cases "s' = segment")
      case True
      show ?thesis
      proof (cases "map_of kids segment")
        case (Some kid)
        obtain y kids' where kid: "kid = HTree y kids'" by (cases kid)
        from "2.IH" [OF Some kid, of k'] show ?thesis by (auto simp: Cons True Some kid split: option.splits)
      qed (simp add: Cons True)
    next
      case False
      have "\<not> on (done @ k) e" if "e \<in> set (configured done (HTree x kids) (segment # key))" for e
        using configured_other [OF that, of s' k'] False by (auto simp: Cons)
      moreover have "\<not> on (done @ segment # key) e" if "e \<in> set (configured done (HTree x kids) k)" for e
        using configured_other [OF that [unfolded Cons], of segment key] False by auto
      ultimately show ?thesis by (simp add: filter_empty_conv del: configured.simps(2))
    qed
  qed
qed

lemma filter_downward:
  assumes "sorted_wrt (\<lambda>a b. prefix (fst a) (fst b)) xs" "\<And>a b. prefix (fst a) (fst b) \<Longrightarrow> P b \<Longrightarrow> P a"
  shows "filter P xs @ filter (\<lambda>a. \<not> P a) xs = xs"
  using assms(1)
proof (induction xs)
  case (Cons x xs)
  show ?case
  proof (cases "P x")
    case False
    have "\<not> P y" if "y \<in> set xs" for y
      using assms(2) [of x y] False Cons.prems that by auto
    then have "\<forall>y\<in>set xs. \<not> P y" by blast
    then have "filter P xs = []" "filter (\<lambda>a. \<not> P a) xs = xs" by (simp_all add: filter_empty_conv filter_id_conv)
    then show ?thesis using False by simp
  qed (use Cons in simp)
qed simp

section \<open>Handlers that set an option\<close>

fun is_setting :: "handler \<Rightarrow> bool" where
  "is_setting (HExpires v) = True"
| "is_setting (HUnit v) = True"
| "is_setting (HHistory v) = True"
| "is_setting h = False"

fun apply_setting :: "handler \<Rightarrow> hfragment \<Rightarrow> hfragment" where
  "apply_setting (HExpires v) f = set_option ''expires'' v f"
| "apply_setting (HUnit v) f = set_option ''unit'' v f"
| "apply_setting (HHistory v) f = set_option ''history'' v f"
| "apply_setting h f = f"

definition apply_settings :: "handler list \<Rightarrow> hfragment \<Rightarrow> hfragment" where
  "apply_settings hs f = fold apply_setting hs f"

lemma apply_setting_key [simp]: "fst (apply_setting h f) = fst f"
  by (cases h) (simp_all add: set_option_def split: prod.splits)

lemma apply_settings_key [simp]: "fst (apply_settings hs f) = fst f"
  unfolding apply_settings_def by (induction hs arbitrary: f) simp_all

definition contiguous :: "key \<Rightarrow> hfragment list \<Rightarrow> bool" where
  "contiguous root fs = list_all (\<lambda>f. \<not> below root f) (dropWhile (below root) fs)"

definition update_below :: "key \<Rightarrow> (hfragment \<Rightarrow> hfragment) \<Rightarrow> hfragment list \<Rightarrow> hfragment list" where
  "update_below root g fs = map (\<lambda>f. if below root f then g f else f) fs"

lemma contiguous_map: "(\<And>f. fst (g f) = fst f) \<Longrightarrow> contiguous root (map g fs) = contiguous root fs"
  by (simp add: contiguous_def dropWhile_map comp_def list_all_iff below_def [abs_def])

lemma range_update_below:
  assumes "contiguous root suf"
  shows "range_update (map g) root (length pre) (pre @ suf) = pre @ update_below root g suf"
proof -
  have "update_below root g suf = update_below root g (takeWhile (below root) suf) @ update_below root g (dropWhile (below root) suf)"
    unfolding update_below_def map_append [symmetric] takeWhile_dropWhile_id ..
  moreover have "update_below root g (takeWhile (below root) suf) = map g (takeWhile (below root) suf)"
    by (auto simp: update_below_def dest: set_takeWhileD)
  moreover have "update_below root g (dropWhile (below root) suf) = dropWhile (below root) suf"
    using assms by (auto simp: update_below_def contiguous_def list_all_iff intro: map_idI)
  ultimately show ?thesis by (simp add: range_update_def range_of_def)
qed

lemma update_below_key [simp]: "(\<And>f. fst (g f) = fst f) \<Longrightarrow> map fst (update_below root g fs) = map fst fs"
  by (simp add: update_below_def comp_def)

lemma update_below_compose:
  "(\<And>f. fst (g f) = fst f) \<Longrightarrow> update_below root h (update_below root g fs) = update_below root (\<lambda>f. h (g f)) fs"
  by (auto simp: update_below_def below_def)

lemma update_below_contiguous:
  "(\<And>f. fst (g f) = fst f) \<Longrightarrow> contiguous r (update_below root g fs) = contiguous r fs"
  unfolding update_below_def by (rule contiguous_map) simp

lemma setting_process:
  "is_setting h \<Longrightarrow> contiguous root suf \<Longrightarrow>
     handler_process h root (length pre) seen (pre @ suf) = (seen, Inr (pre @ update_below root (apply_setting h) suf))"
  by (cases h) (simp_all add: handler_process_def range_update_below [of root suf _ pre] update_below_def)

lemma settings_process:
  "list_all is_setting hs \<Longrightarrow> contiguous root suf \<Longrightarrow>
     handlers_process hs root (length pre) seen (pre @ suf) = (seen, Inr (pre @ update_below root (apply_settings hs) suf))"
proof (induction hs arbitrary: suf)
  case Nil
  then show ?case by (simp add: update_below_def apply_settings_def)
next
  case (Cons h hs)
  have "contiguous root (update_below root (apply_setting h) suf)" using Cons.prems(2) by (simp add: update_below_contiguous)
  then show ?case
    using Cons by (simp add: setting_process update_below_compose apply_settings_def)
qed

text \<open>All roots that a step finds, and then all steps.\<close>

definition apply_root :: "key \<times> handler list \<Rightarrow> hfragment \<Rightarrow> hfragment" where
  "apply_root entry f = apply_settings (snd entry) f"

definition apply_roots :: "(key \<times> handler list) list \<Rightarrow> hfragment \<Rightarrow> hfragment" where
  "apply_roots entries f = fold apply_root entries f"

lemma apply_roots_key [simp]: "fst (apply_roots entries f) = fst f"
  unfolding apply_roots_def by (induction entries arbitrary: f) (simp_all add: apply_root_def)

lemma below_same: "fst g = fst f \<Longrightarrow> below root g = below root f"
  by (simp add: below_def)

lemma below_settings [simp]: "below root (apply_settings hs f) = below root f"
  by (rule below_same) simp

lemma roots_process:
  assumes "\<forall>(r, hs)\<in>set entries. list_all is_setting hs \<and> contiguous r suf"
  shows "\<exists>seen'. fold (process_root (length pre)) entries (seen, Inr (pre @ suf)) =
    (seen', Inr (pre @ map (\<lambda>f. apply_roots (filter (\<lambda>(r, hs). below r f)
      (filter (\<lambda>(r, hs). \<not> (pre \<noteq> [] \<and> below r (last pre))) entries)) f) suf))"
  using assms
proof (induction entries arbitrary: seen suf)
  case Nil
  then show ?case by (simp add: apply_roots_def)
next
  case (Cons e entries)
  obtain r hs where e: "e = (r, hs)" by (cases e)
  show ?case
  proof (cases "pre \<noteq> [] \<and> below r (last pre)")
    case True
    then have "process_root (length pre) e (seen, Inr (pre @ suf)) = (seen, Inr (pre @ suf))"
      using True by (simp add: process_root_def e nth_append last_conv_nth)
    then show ?thesis using Cons.IH [of suf seen] Cons.prems True by (simp add: e)
  next
    case False
    let ?g = "\<lambda>f. if below r f then apply_settings hs f else f"
    have upd: "update_below r (apply_settings hs) suf = map ?g suf" by (simp add: update_below_def)
    have "process_root (length pre) e (seen, Inr (pre @ suf)) = (AList.update r (seen_at r seen) seen, Inr (pre @ map ?g suf))"
      using False Cons.prems settings_process [of hs r suf pre "seen_at r seen"]
      by (auto simp: process_root_def e nth_append last_conv_nth upd)
    moreover have "\<forall>(r, hs)\<in>set entries. list_all is_setting hs \<and> contiguous r (map ?g suf)"
      using Cons.prems by (auto simp: contiguous_map)
    moreover have "below r' (?g f) = below r' f" for r' f by (rule below_same) simp
    ultimately show ?thesis
      using Cons.IH [of "map ?g suf" "AList.update r (seen_at r seen) seen"] False
      by (auto simp: e apply_roots_def apply_root_def)
  qed
qed

lemma below_plain: "plain_key (fst f) \<Longrightarrow> prefix r k \<Longrightarrow> plain_key k \<Longrightarrow> below r f \<longleftrightarrow> prefix r (fst f)"
  unfolding below_def by (rule keyStartsWith_plain) (auto intro: plain_key_prefix)

lemma contiguous_sorted:
  assumes plain: "\<forall>f\<in>set fs. plain_key (fst f)" and order: "sorted (map (\<lambda>f. keyToInternal (fst f)) fs)"
    and head: "fs = f0 # rest" "prefix r (fst f0)" "r \<noteq> []"
  shows "contiguous r fs"
proof (cases "dropWhile (below r) fs")
  case Nil
  show ?thesis unfolding contiguous_def Nil by simp
next
  case (Cons x ys)
  have split: "fs = takeWhile (below r) fs @ x # ys" using takeWhile_dropWhile_id [of "below r" fs] Cons by simp
  then have mem: "set (x # ys) \<subseteq> set fs" by (metis set_append Un_upper2)
  have x: "\<not> below r x" using Cons by (metis hd_dropWhile list.distinct(1) list.sel(1))
  have f0: "f0 \<in> set fs" "keyToInternal (fst f0) \<le> keyToInternal (fst g)" if "g \<in> set fs" for g
    using order that head(1) by auto
  have "sorted (map (\<lambda>f. keyToInternal (fst f)) (x # ys))"
    using order split by (metis map_append sorted_append)
  then have le: "keyToInternal (fst x) \<le> keyToInternal (fst g)" if "g \<in> set ys" for g using that by auto
  have "\<not> below r g" if g: "g \<in> set ys" for g
  proof
    assume "below r g"
    moreover have plains: "plain_key (fst f0)" "plain_key (fst x)" "plain_key (fst g)" using plain mem g head(1) by auto
    ultimately have "prefix r (fst g)" using below_plain [OF plains(3) head(2) plains(1)] by simp
    moreover have "x \<in> set fs" using mem by simp
    ultimately have "prefix r (fst x)" using contiguous_keys [OF plains head(2) _ head(3) f0(2) le [OF g]] by simp
    then show False using x below_plain [OF plains(2) head(2) plains(1)] by simp
  qed
  then show ?thesis using x by (simp add: contiguous_def Cons list_all_iff)
qed

definition with_settings :: "htree \<Rightarrow> hfragment \<Rightarrow> hfragment" where
  "with_settings t f = apply_roots (configured [] t (fst f)) f"

definition partial_settings :: "htree \<Rightarrow> hfragment list \<Rightarrow> hfragment \<Rightarrow> hfragment" where
  "partial_settings t pre f = apply_roots (filter (\<lambda>e. pre \<noteq> [] \<and> on (fst (last pre)) e) (configured [] t (fst f))) f"

lemma with_settings_key [simp]: "fst (with_settings t f) = fst f" "fst (partial_settings t pre f) = fst f"
  by (simp_all add: with_settings_def partial_settings_def)

lemma apply_roots_append: "apply_roots (xs @ ys) f = apply_roots ys (apply_roots xs f)"
  by (simp add: apply_roots_def)

lemma loop_step:
  assumes plain: "\<forall>f\<in>set pre \<union> set (f0 # rest). plain_key (fst f)"
    and order: "sorted (map (\<lambda>f. keyToInternal (fst f)) (pre @ f0 # rest))"
    and settings: "\<forall>e\<in>set (configured [] t (fst f0)). list_all is_setting (snd e)"
  shows "\<exists>seen'. process_index t (length pre) seen (pre @ map (partial_settings t pre) (f0 # rest)) =
    (seen', Inr (pre @ map (partial_settings t [f0]) (f0 # rest)))"
proof -
  let ?suf = "map (partial_settings t pre) (f0 # rest)"
  let ?c = "configured [] t (fst f0)"
  let ?P = "\<lambda>e. pre \<noteq> [] \<and> on (fst (last pre)) e"
  have root: "prefix (fst e) (fst f0)" "fst e \<noteq> []" if "e \<in> set ?c" for e
    using configured_below [of "fst e" "snd e" "[]" t "fst f0"] that by auto
  have below_on: "below (fst e) f = on (fst f) e" if "e \<in> set ?c" "plain_key (fst f)" for e f
    using below_plain [OF that(2) root(1) [OF that(1)]] plain by simp
  have "contiguous (fst e) ?suf" if "e \<in> set ?c" for e
    using contiguous_sorted [of "f0 # rest" f0 rest "fst e"] root [OF that] plain order
    by (simp add: contiguous_map sorted_append del: list.map)
  then have "\<forall>(r, hs)\<in>set ?c. list_all is_setting hs \<and> contiguous r ?suf" using settings by auto
  from roots_process [OF this, of pre seen] obtain seen' where
    step: "fold (process_root (length pre)) ?c (seen, Inr (pre @ ?suf)) = (seen', Inr (pre @ map (\<lambda>f. apply_roots
      (filter (\<lambda>(r, hs). below r f) (filter (\<lambda>(r, hs). \<not> (pre \<noteq> [] \<and> below r (last pre))) ?c)) f) ?suf))"
    by blast
  have "apply_roots (filter (\<lambda>(r, hs). below r (partial_settings t pre f))
      (filter (\<lambda>(r, hs). \<not> (pre \<noteq> [] \<and> below r (last pre))) ?c)) (partial_settings t pre f) = partial_settings t [f0] f"
    if f: "f \<in> set (f0 # rest)" for f
  proof -
    have pf: "plain_key (fst f)" using plain f by auto
    have bs: "below r (partial_settings t pre f) = below r f" for r by (rule below_same) simp
    have news: "filter (\<lambda>(r, hs). below r (partial_settings t pre f))
        (filter (\<lambda>(r, hs). \<not> (pre \<noteq> [] \<and> below r (last pre))) ?c) = filter (\<lambda>e. \<not> ?P e) (filter (on (fst f)) ?c)"
      unfolding filter_filter
    proof (rule filter_cong [OF refl])
      fix e assume e: "e \<in> set ?c"
      have "plain_key (fst (last pre))" if "pre \<noteq> []" using plain that by simp
      then show "((case e of (r, hs) \<Rightarrow> \<not> (pre \<noteq> [] \<and> below r (last pre))) \<and>
          (case e of (r, hs) \<Rightarrow> below r (partial_settings t pre f))) = (on (fst f) e \<and> \<not> ?P e)"
        using below_on [OF e pf] below_on [OF e, of "last pre"] bs
        by (cases e) auto
    qed
    let ?xs = "filter (on (fst f)) ?c"
    have xs: "?xs = filter (on (fst f0)) (configured [] t (fst f))"
      using configured_common [of "[]" "fst f" t "fst f0"] by simp
    have "on (fst f0) e" if e: "e \<in> set (configured [] t (fst f))" "?P e" for e
    proof -
      have r: "prefix (fst e) (fst f)" "fst e \<noteq> []" using configured_below [of "fst e" "snd e" "[]" t "fst f"] e by auto
      have "last pre \<in> set pre" using e(2) by simp
      moreover have "keyToInternal (fst f0) \<le> keyToInternal (fst f)" using order f by (auto simp: sorted_append)
      moreover have "keyToInternal (fst (last pre)) \<le> keyToInternal (fst f0)"
        using order \<open>last pre \<in> set pre\<close> by (simp add: sorted_append)
      ultimately show ?thesis
        using contiguous_keys [of "fst (last pre)" "fst f0" "fst f" "fst e"] plain pf e(2) r by auto
    qed
    then have "filter ?P (configured [] t (fst f)) = filter ?P ?xs"
      unfolding xs by (auto simp: filter_filter intro: filter_cong)
    moreover have "sorted_wrt (\<lambda>a b. prefix (fst a) (fst b)) ?xs" by (rule sorted_wrt_filter [OF configured_prefixes])
    then have "filter ?P ?xs @ filter (\<lambda>e. \<not> ?P e) ?xs = ?xs"
      by (rule filter_downward) (auto intro: prefix_order.trans)
    ultimately have "apply_roots (filter (\<lambda>e. \<not> ?P e) ?xs) (partial_settings t pre f) = apply_roots ?xs f"
      unfolding partial_settings_def apply_roots_append [symmetric] by simp
    moreover have "partial_settings t [f0] f = apply_roots ?xs f" unfolding xs by (simp add: partial_settings_def)
    ultimately show ?thesis unfolding news by simp
  qed
  then have "map (\<lambda>f. apply_roots (filter (\<lambda>(r, hs). below r f)
      (filter (\<lambda>(r, hs). \<not> (pre \<noteq> [] \<and> below r (last pre))) ?c)) f) ?suf = map (partial_settings t [f0]) (f0 # rest)"
    unfolding map_map comp_def by (rule map_cong [OF refl])
  moreover have "fst ((pre @ ?suf) ! length pre) = fst f0" by (simp add: nth_append)
  ultimately show ?thesis using step unfolding process_index_def by auto
qed

fun settings_tree :: "htree \<Rightarrow> bool" where
  "settings_tree (HTree x kids) =
     ((case x of None \<Rightarrow> True | Some hs \<Rightarrow> list_all is_setting hs) \<and> list_all settings_tree (map snd kids))"

lemma settings_configured:
  "settings_tree t \<Longrightarrow> e \<in> set (configured done t key) \<Longrightarrow> list_all is_setting (snd e)"
proof (induction "done" t key rule: configured.induct)
  case (2 "done" x kids segment key)
  show ?case
  proof (cases "map_of kids segment")
    case (Some kid)
    obtain y kids' where kid: "kid = HTree y kids'" by (cases kid)
    have "settings_tree kid" using 2(2) map_of_SomeD [OF Some] by (auto simp: list_all_iff)
    then show ?thesis using 2(3) "2.IH" [OF Some kid] by (auto simp: Some kid split: option.splits)
  qed (use 2(3) in simp)
qed simp

lemma loop_settings:
  assumes settings: "settings_tree t"
  shows "\<forall>f\<in>set pre \<union> set suf. plain_key (fst f) \<Longrightarrow> sorted (map (\<lambda>f. keyToInternal (fst f)) (pre @ suf)) \<Longrightarrow>
    \<exists>seen'. process_loop t (length pre) seen (pre @ map (partial_settings t pre) suf) =
      (seen', Inr (pre @ map (with_settings t) suf))"
proof (induction suf arbitrary: pre seen)
  case Nil
  then show ?case by (simp add: process_loop.simps)
next
  case (Cons f0 rest)
  have "\<forall>e\<in>set (configured [] t (fst f0)). list_all is_setting (snd e)" using settings_configured [OF settings] by blast
  from loop_step [OF Cons.prems this, of seen] obtain seen' where
    step: "process_index t (length pre) seen (pre @ map (partial_settings t pre) (f0 # rest)) =
      (seen', Inr (pre @ map (partial_settings t [f0]) (f0 # rest)))" by blast
  let ?pre = "pre @ [with_settings t f0]"
  have "filter (on (fst f0)) (configured [] t (fst f0)) = configured [] t (fst f0)"
    using configured_below by (fastforce simp: filter_id_conv)
  then have head: "partial_settings t [f0] f0 = with_settings t f0" by (simp add: partial_settings_def with_settings_def)
  have tail: "partial_settings t [f0] = partial_settings t ?pre" by (simp add: partial_settings_def fun_eq_iff)
  have lt: "length pre < length (pre @ map (partial_settings t pre) (f0 # rest))" by simp
  have "process_loop t (length pre) seen (pre @ map (partial_settings t pre) (f0 # rest)) =
      process_loop t (Suc (length pre)) seen' (pre @ map (partial_settings t [f0]) (f0 # rest))"
    by (subst process_loop.simps) (simp only: step lt if_True prod.case sum.case)
  also have "pre @ map (partial_settings t [f0]) (f0 # rest) = ?pre @ map (partial_settings t ?pre) rest"
    by (simp only: list.map head) (simp add: tail)
  finally show ?case using Cons.IH [of ?pre seen'] Cons.prems by (simp add: sorted_append)
qed



definition ex_handlers :: handlers where
  "ex_handlers =
     (case new_handlers [(''/a'', [(''history'', JNum 2), (''expires'', JNum 5)]), (''/a/b'', [(''history'', JNum 7)])]
        [(''history'', JNum 10)] of Inr h \<Rightarrow> h)"

definition ex_fragments :: "hfragment list" where
  "ex_fragments = [([''c''], JNum 1, []), ([''a'', ''x''], JNum 2, []), ([''a'', ''b'', ''c''], JNum 3, [])]"


section \<open>What does not work\<close>

text \<open>
  A value directly below the path of \<open>toString\<close> has the empty key as its parent: split again it is the key of one empty
  segment, so the text is stored under the path with an empty segment behind it.
\<close>

lemma toString_at_root:
  "outcome_bind (new_handlers [(''/a'', [(''toString'', JStr ''{b}'')])] []) (\<lambda>h.
     snd (handlers_run [([''a'', ''b''], JStr ''x'', [])] h)) = Inr [([''a'', []], JStr ''x'', [])]"
  by code_simp

text \<open>
  The keys a validation has seen are remembered for all nodes alike, and also when the validation fails: the unit of the
  schema is attached to the first value only.
\<close>

definition unit_handlers :: handlers where
  "unit_handlers = (case new_handlers [(''/t'', [(''validation'',
     JObj [(''type'', JStr ''number''), (''unit'', JStr ''C'')])])] [] of Inr h \<Rightarrow> h)"

lemma unit_once:
  "snd (handlers_run [([''t''], JNum 1, [])] unit_handlers) = Inr [([''t''], JNum 1, [(''unit'', JStr ''C'')])]"
  "snd (handlers_run [([''t''], JNum 1, [])] (fst (handlers_run [([''t''], JNum 1, [])] unit_handlers))) =
     Inr [([''t''], JNum 1, [])]"
  "snd (handlers_run [([''t''], JStr ''x'', [])] unit_handlers) = Inl PreconditionFailed"
  "snd (handlers_run [([''t''], JNum 1, [])] (fst (handlers_run [([''t''], JStr ''x'', [])] unit_handlers))) =
     Inr [([''t''], JNum 1, [])]"
  by code_simp+

text \<open>The segment \<open>a,b\<close> is taken for the two segments \<open>a\<close> and \<open>b\<close>: the history is set for a key that is not below the path.\<close>

lemma comma_confusion:
  "outcome_bind (new_handlers [(''/a/b'', [(''history'', JNum 2)])] []) (\<lambda>h.
     snd (handlers_run [([''a'', ''b''], JNum 1, []), ([''a,b''], JNum 3, [])] h)) =
   Inr [([''a'', ''b''], JNum 1, [(''history'', JNum 2)]), ([''a,b''], JNum 3, [(''history'', JNum 2)])]"
  by code_simp

end
