(* ===== verification/Nodes.thy ===== *)
theory Nodes
  imports Handlers_Props Router Storage
begin

text \<open>
  \<open>apps/artifacts/plugins/nodes/{nodes,storage}.js\<close>, \<open>apps/artifacts/common/utils.js\<close>: values are taken apart into
  fragments, go through the handlers into \<open>Data\<close>, and become records, which have a denser form on disk.

  The options of a fragment are an object until \<open>Data\<close> reads them: lengths of histories and expiries are whole
  numbers there. A record on disk is what it is after it was written as JSON and read again.
\<close>

section \<open>Keys and paths of requests\<close>

definition request_pathToKey :: "string \<Rightarrow> key outcome" where
  "request_pathToKey path = outcome_map decodeURIComponent (filter (\<lambda>p. p \<noteq> []) (split_on CHR ''/'' path))"

definition request_keyToPath :: "key \<Rightarrow> string" where
  "request_keyToPath key = CHR ''/'' # join_with ''/'' (map encodeURIComponent key)"

fun sanitize_loop_key :: "key \<Rightarrow> key \<Rightarrow> key outcome" where
  "sanitize_loop_key sanitized [] = Inr sanitized"
| "sanitize_loop_key sanitized (segment # key) =
     (if segment = ''..''
      then if sanitized = [] then Inl PreconditionFailed else sanitize_loop_key (butlast sanitized) key
      else sanitize_loop_key (if segment \<noteq> ''.'' then sanitized @ [segment] else sanitized) key)"

definition sanitizeKey :: "key \<Rightarrow> key outcome" where
  "sanitizeKey key = sanitize_loop_key [] key"

section \<open>Fragments\<close>

text \<open>\<open>fragment.constructor == Object\<close>: of a plain object, unless it has a property of that name.\<close>

definition plain_entries :: "json \<Rightarrow> (string \<times> json) list option" where
  "plain_entries v =
     (case v of JObj ps \<Rightarrow> if map_of ps ''constructor'' = None then Some ps else None | _ \<Rightarrow> None)"

lemma plain_entries_smaller: "plain_entries v = Some ps \<Longrightarrow> (k, w) \<in> set ps \<Longrightarrow> size w < size v"
proof -
  assume "plain_entries v = Some ps" "(k, w) \<in> set ps"
  then have v: "v = JObj ps" and mem: "(k, w) \<in> set ps" by (auto simp: plain_entries_def split: json.splits if_splits)
  show "size w < size v"
    unfolding v using mem by (induction ps) (auto simp: less_Suc_eq_le)
qed

function paths_and_values :: "json \<Rightarrow> (key \<times> json) list" where
  "paths_and_values fragment =
     (case plain_entries fragment of
        None \<Rightarrow> [([], fragment)]
      | Some ps \<Rightarrow> concat (map (\<lambda>(key, v). map (\<lambda>(subKey, subValue). (key # subKey, subValue)) (paths_and_values v)) ps))"
  by pat_completeness auto
termination
  by (relation "measure size") (auto intro: plain_entries_smaller)

declare paths_and_values.simps [simp del]

definition getAllPathAndValues :: "json \<Rightarrow> key \<Rightarrow> fragment_option \<Rightarrow> hfragment list" where
  "getAllPathAndValues fragment rootKey options =
     map (\<lambda>(key, v). (rootKey @ key, v, options)) (paths_and_values fragment)"

text \<open>How \<open>Data\<close> reads the options.\<close>

definition read_options :: "fragment_option \<Rightarrow> fragment_options" where
  "read_options options =
     \<lparr>history = (case map_of options ''history'' of Some (JNum n) \<Rightarrow> nat n | Some JNull \<Rightarrow> 0 | _ \<Rightarrow> 10),
      f_expires = (case map_of options ''expires'' of
                     None \<Rightarrow> ExpiresNone
                   | Some (JNum n) \<Rightarrow> ExpiresNumber n
                   | Some v \<Rightarrow> if truthy v then ExpiresOther else ExpiresNone),
      f_unit = (case map_of options ''unit'' of
                  None \<Rightarrow> []
                | Some v \<Rightarrow> if truthy v then to_property_key v else [])\<rparr>"

definition read_fragment :: "hfragment \<Rightarrow> json fragment" where
  "read_fragment f = (case f of (key, v, options) \<Rightarrow> (key, v, read_options options))"

section \<open>Nodes\<close>

text \<open>Node, fragment, timestamp, and whether the timestamp is fixed (a boolean; a number in what a source makes of it).\<close>

type_synonym node_record = "string \<times> hfragment \<times> int \<times> json"

record nodes_state =
  n_handlers :: handlers
  n_data :: "json storage"

definition new_nodes :: "(string \<times> (string \<times> json) list) list \<Rightarrow> nodes_state outcome" where
  "new_nodes configuration =
     outcome_bind (new_handlers configuration [(''history'', JNum 10)])
       (\<lambda>h. Inr \<lparr>n_handlers = h, n_data = []\<rparr>)"

definition getNodes :: "string list \<Rightarrow> nodes_state \<Rightarrow> (string \<times> string set) list" where
  "getNodes filters n = getEntries filters (n_data n)"

definition insert_options :: "json \<Rightarrow> json \<Rightarrow> fragment_option" where
  "insert_options exp unit' =
     (if truthy exp then [(''expires'', exp)] else []) @ (if truthy unit' then [(''unit'', unit')] else [])"

text \<open>Only the unit and the expiry are kept in the options of a record.\<close>

definition kept_options :: "fragment_option \<Rightarrow> fragment_option" where
  "kept_options options =
     (case map_of options ''unit'' of None \<Rightarrow> [] | Some v \<Rightarrow> if v = JUndefined then [] else [(''unit'', v)]) @
     (case map_of options ''expires'' of None \<Rightarrow> [] | Some v \<Rightarrow> if v = JUndefined then [] else [(''expires'', v)])"

definition nodes_insert :: "data_options \<Rightarrow> string \<Rightarrow> key \<Rightarrow> json \<Rightarrow> json \<Rightarrow> json \<Rightarrow> int \<Rightarrow> bool \<Rightarrow> nodes_state \<Rightarrow>
    nodes_state \<times> node_record list outcome" where
  "nodes_insert opts uid key v exp unit' timestamp isFixed n =
     (case handlers_run (getAllPathAndValues v key (insert_options exp unit')) (n_handlers n) of
        (h, Inl e) \<Rightarrow> (n\<lparr>n_handlers := h\<rparr>, Inl e)
      | (h, Inr fragments) \<Rightarrow>
          (n\<lparr>n_handlers := h, n_data := fst (data_insert opts uid (map read_fragment fragments) timestamp (n_data n))\<rparr>,
           Inr (map (\<lambda>(key, v, options). (uid, (key, v, kept_options options), timestamp, JBool isFixed)) fragments)))"

definition insertFromRecord :: "data_options \<Rightarrow> node_record list \<Rightarrow> json storage \<Rightarrow> json storage" where
  "insertFromRecord opts records s =
     fold (\<lambda>(uid, f, timestamp, isFixed) s. fst (data_insert opts uid [read_fragment f] timestamp s)) records s"

section \<open>Records on disk\<close>

type_synonym disk_record = "(string \<times> json \<times> int \<times> int) list"

record cluster =
  cl_uid :: string
  cl_timestamp :: int
  cl_fixed :: json
  cl_data :: "hfragment list"

definition keyCluster :: "string \<Rightarrow> int \<Rightarrow> json \<Rightarrow> string" where
  "keyCluster uid timestamp isFixed = uid @ ''@'' @ int_to_string timestamp @ ''@'' @ to_property_key isFixed"

definition add_cluster :: "node_record \<Rightarrow> (string \<times> cluster) list \<Rightarrow> (string \<times> cluster) list" where
  "add_cluster r clusters =
     (case r of
        (uid, data, timestamp, isFixed) \<Rightarrow>
          let k = keyCluster uid timestamp isFixed;
              c = (case map_of clusters k of
                     None \<Rightarrow> \<lparr>cl_uid = uid, cl_timestamp = timestamp, cl_fixed = isFixed, cl_data = []\<rparr>
                   | Some c \<Rightarrow> c)
          in AList.update k (c\<lparr>cl_data := cl_data c @ [data]\<rparr>) clusters)"

text \<open>
  The entry of a key is under the name \<open>_\<close> of the object at the end of the key. A property that is set on such an
  entry (an array), when a key has that name as a segment, is lost when it is written (unless the next segment is an
  index of the entry, which is not modelled). A segment with the name of an inherited property finds that: what is
  then set on a function, or on \<open>Object.prototype\<close>, is not part of the record and lost. Its effect on other objects is
  not modelled.
\<close>

fun put_entry :: "key \<Rightarrow> json \<Rightarrow> json \<Rightarrow> json" where
  "put_entry [] entry (JObj ps) = JObj (AList.update ''_'' entry ps)"
| "put_entry (part # key) entry (JObj ps) =
     (if map_of ps part = None \<and> inherited part then JObj ps
      else JObj (AList.update part
        (put_entry key entry (case map_of ps part of None \<Rightarrow> JObj [] | Some v \<Rightarrow> v)) ps))"
| "put_entry key entry current = current"

definition fragment_entry :: "hfragment \<Rightarrow> json" where
  "fragment_entry f = (case f of (key, v, options) \<Rightarrow> JArr [v, JObj options])"

definition cluster_tree :: "hfragment list \<Rightarrow> json" where
  "cluster_tree data = fold (\<lambda>f. put_entry (fst f) (fragment_entry f)) data (JObj [])"

definition recordToDisk :: "node_record list \<Rightarrow> disk_record" where
  "recordToDisk records =
     map (\<lambda>(_, c). (cl_uid c, cluster_tree (cl_data c), cl_timestamp c, if truthy (cl_fixed c) then 1 else 0))
       (fold add_cluster records [])"

text \<open>
  \<open>traverse\<close>, with the depth that is left of 32. An entry is an array, as it was written. The entries of a text that is not empty are texts again, so the
  depth is exceeded there.
\<close>

definition traverse_entries :: "json \<Rightarrow> (string \<times> json) list outcome" where
  "traverse_entries fragment =
     (case fragment of
        JNull \<Rightarrow> Inl TypeErr
      | JUndefined \<Rightarrow> Inl TypeErr
      | JStr s \<Rightarrow> if s = [] then Inr [] else Inl AssertFailed
      | v \<Rightarrow> Inr (own_entries v))"

definition entry_fragment :: "key \<Rightarrow> json \<Rightarrow> hfragment outcome" where
  "entry_fragment key data =
     (case data of JArr xs \<Rightarrow> Inr (key, arg xs 0, own_entries (arg xs 1)) | _ \<Rightarrow> Inl TypeErr)"

fun traverse :: "nat \<Rightarrow> key \<Rightarrow> json \<Rightarrow> hfragment list outcome" where
  "traverse 0 key fragment = Inl AssertFailed"
| "traverse (Suc left) key fragment =
     outcome_bind (traverse_entries fragment) (\<lambda>es.
       outcome_bind (outcome_map (\<lambda>(part, data).
           if part = ''_'' then outcome_bind (entry_fragment key data) (\<lambda>f. Inr [f])
           else traverse left (key @ [part]) data) es)
         (\<lambda>fss. Inr (concat fss)))"

definition max_depth :: nat where
  "max_depth = 32"

definition recordFromDisk :: "disk_record \<Rightarrow> node_record list outcome" where
  "recordFromDisk record =
     outcome_bind (outcome_map (\<lambda>(uid, tree, timestamp, isFixed).
         outcome_bind (traverse max_depth [] tree) (\<lambda>fs. Inr (map (\<lambda>f. (uid, f, timestamp, JBool (isFixed \<noteq> 0))) fs))) record)
       (\<lambda>rss. Inr (concat rss))"

definition recordFromSingleEntry :: "string \<Rightarrow> hfragment \<Rightarrow> int \<Rightarrow> bool \<Rightarrow> node_record list" where
  "recordFromSingleEntry uid data timestamp isFixed = [(uid, data, timestamp, JBool isFixed)]"

section \<open>Nodes as a storage\<close>

record listed =
  l_name :: string
  l_tags :: "string set"
  l_permissions :: string

definition list_permissions :: "bool \<Rightarrow> string" where
  "list_permissions list' =
     permissions_encode \<lparr>p_read_bit = True, p_write_bit = False, p_delete_bit = False, p_list_bit = list',
       p_executable_bit = False\<rparr>"

definition listNodes :: "nat + paging \<Rightarrow> nodes_state \<Rightarrow> listed list collection_paging outcome" where
  "listNodes maxOrPaging n =
     makeFromList (getNodes [] n) maxOrPaging
       (\<lambda>(uid, ts). Inr \<lparr>l_name = uid, l_tags = ts, l_permissions = list_permissions True\<rparr>)"

definition listCategories :: "string \<Rightarrow> key \<Rightarrow> nat + paging \<Rightarrow> nodes_state \<Rightarrow> listed list collection_paging outcome" where
  "listCategories uid paths maxOrPaging n =
     makeFromList (case getChildren uid paths 0 True (n_data n) of None \<Rightarrow> [] | Some cs \<Rightarrow> cs) maxOrPaging
       (\<lambda>(key, leaf). Inr \<lparr>l_name = last key, l_tags = {}, l_permissions = list_permissions (\<not> leaf)\<rparr>)"

definition nodes_listImpl :: "key \<Rightarrow> nat + paging \<Rightarrow> nodes_state \<Rightarrow> listed list collection_paging outcome" where
  "nodes_listImpl pathList maxOrPaging n =
     (case pathList of
        [] \<Rightarrow> listNodes maxOrPaging n
      | uid # paths \<Rightarrow> listCategories uid paths maxOrPaging n)"

end
