(* ===== verification/Nodes_Props.thy ===== *)
theory Nodes_Props
  imports Nodes "HOL-Library.Multiset"
begin

text \<open>
  Records survive the disk, and what is replayed from them is what was inserted.
\<close>

section \<open>The tree of a cluster\<close>

fun entry_at :: "key \<Rightarrow> json \<Rightarrow> json option" where
  "entry_at [] (JObj ps) = map_of ps ''_''"
| "entry_at (part # key) (JObj ps) = (case map_of ps part of None \<Rightarrow> None | Some v \<Rightarrow> entry_at key v)"
| "entry_at key v = None"

definition is_entry :: "json \<Rightarrow> bool" where
  "is_entry v = (\<exists>w os. v = JArr [w, JObj os])"

fun tree_ok :: "nat \<Rightarrow> json \<Rightarrow> bool" where
  "tree_ok (Suc n) (JObj ps) =
     (distinct (map fst ps) \<and>
      list_all (\<lambda>(part, v). if part = ''_'' then is_entry v else tree_ok n v) ps)"
| "tree_ok n v = False"

lemma tree_ok_child:
  "tree_ok (Suc n) (JObj ps) \<Longrightarrow> part \<noteq> ''_'' \<Longrightarrow> map_of ps part = Some v \<Longrightarrow> tree_ok n v"
  by (auto simp: list_all_iff dest!: map_of_SomeD split: if_splits)

lemma tree_ok_update:
  "tree_ok (Suc n) (JObj ps) \<Longrightarrow> (if part = ''_'' then is_entry v else tree_ok n v) \<Longrightarrow>
     tree_ok (Suc n) (JObj (AList.update part v ps))"
  using set_update_subset [of part v ps] by (auto simp: list_all_iff distinct_update split: if_splits)

lemma put_entry_ok:
  "tree_ok n t \<Longrightarrow> length key < n \<Longrightarrow> ''_'' \<notin> set key \<Longrightarrow> tree_ok n (put_entry key (fragment_entry f) t)"
proof (induction key arbitrary: n t)
  case Nil
  then obtain m ps where "n = Suc m" "t = JObj ps" by (cases "(n, t)" rule: tree_ok.cases) auto
  then show ?case using Nil by (cases f) (auto simp: fragment_entry_def is_entry_def simp del: tree_ok.simps intro!: tree_ok_update)
next
  case (Cons part key)
  then obtain m ps where eq: "n = Suc m" "t = JObj ps" by (cases "(n, t)" rule: tree_ok.cases) auto
  define child where "child = (case map_of ps part of None \<Rightarrow> JObj [] | Some v \<Rightarrow> v)"
  have "tree_ok m child"
  proof (cases "map_of ps part")
    case None
    then show ?thesis using Cons.prems(2) eq(1) by (cases m) (simp_all add: child_def)
  next
    case (Some v)
    moreover have "part \<noteq> ''_''" using Cons.prems by auto
    ultimately show ?thesis
      using tree_ok_child [of m ps part v] Cons.prems(1) eq by (simp add: child_def del: tree_ok.simps)
  qed
  then have "tree_ok m (put_entry key (fragment_entry f) child)" using Cons.prems eq(1) by (intro Cons.IH) auto
  then have "tree_ok (Suc m) (JObj (AList.update part (put_entry key (fragment_entry f) child) ps))"
    using Cons.prems unfolding eq by (auto simp del: tree_ok.simps intro!: tree_ok_update)
  then show ?case using Cons.prems(1) unfolding eq put_entry.simps child_def by (simp only: split: if_split) blast
qed

lemma put_entry_at:
  "tree_ok n t \<Longrightarrow> length key < n \<Longrightarrow> ''_'' \<notin> set key \<Longrightarrow> \<forall>part\<in>set key. \<not> inherited part \<Longrightarrow> ''_'' \<notin> set k \<Longrightarrow>
     entry_at k (put_entry key e t) = (if k = key then Some e else entry_at k t)"
proof (induction key arbitrary: n t k)
  case Nil
  then obtain m ps where "n = Suc m" "t = JObj ps" by (cases "(n, t)" rule: tree_ok.cases) auto
  then show ?case using Nil by (cases k) auto
next
  case (Cons part key)
  then obtain m ps where eq: "n = Suc m" "t = JObj ps" by (cases "(n, t)" rule: tree_ok.cases) auto
  define child where "child = (case map_of ps part of None \<Rightarrow> JObj [] | Some v \<Rightarrow> v)"
  have ok: "tree_ok m child"
  proof (cases "map_of ps part")
    case None
    then show ?thesis using Cons.prems(2) eq(1) by (cases m) (simp_all add: child_def)
  next
    case (Some v)
    moreover have "part \<noteq> ''_''" using Cons.prems by auto
    ultimately show ?thesis
      using tree_ok_child [of m ps part v] Cons.prems(1) eq by (simp add: child_def del: tree_ok.simps)
  qed
  have empty: "entry_at k' (JObj []) = None" for k' by (cases k') simp_all
  have put: "put_entry (part # key) e t = JObj (AList.update part (put_entry key e child) ps)"
    using Cons.prems(4) by (simp add: eq child_def)
  show ?case
  proof (cases k)
    case Nil
    then show ?thesis unfolding put using Cons.prems(3) by (simp add: eq)
  next
    case (Cons part' k')
    show ?thesis
    proof (cases "part' = part")
      case True
      have "entry_at k' (put_entry key e child) = (if k' = key then Some e else entry_at k' child)"
        using Cons.prems eq(1) by (intro Cons.IH [OF ok]) (auto simp: Cons)
      then show ?thesis unfolding put by (auto simp: Cons True eq child_def empty split: option.splits)
    next
      case False
      then show ?thesis unfolding put by (simp add: Cons eq)
    qed
  qed
qed


text \<open>What \<open>traverse\<close> reads from it: the entries, each key once.\<close>

lemma distinct_concat_groups:
  assumes "distinct (map h xs)" "\<And>x. x \<in> set xs \<Longrightarrow> distinct (g x)"
    and "\<And>x y a. x \<in> set xs \<Longrightarrow> y \<in> set xs \<Longrightarrow> a \<in> set (g x) \<Longrightarrow> a \<in> set (g y) \<Longrightarrow> h x = h y"
  shows "distinct (concat (map g xs))"
  using assms
proof (induction xs)
  case (Cons x xs)
  have "set (g x) \<inter> set (concat (map g xs)) = {}"
  proof (rule ccontr)
    assume "set (g x) \<inter> set (concat (map g xs)) \<noteq> {}"
    then obtain y a where "y \<in> set xs" "a \<in> set (g x)" "a \<in> set (g y)" by auto
    then have "h x = h y" using Cons.prems(3) [of x y a] by simp
    then show False using Cons.prems(1) \<open>y \<in> set xs\<close> by (auto simp: image_iff)
  qed
  moreover have "distinct (concat (map g xs))"
    using Cons.prems(1,2) Cons.prems(3) by (intro Cons.IH) auto
  ultimately show ?case using Cons.prems(2) [of x] by simp
qed simp

lemma traverse_tree:
  "tree_ok n t \<Longrightarrow> \<exists>fs. traverse n key t = Inr fs \<and> distinct (map fst fs) \<and>
     (\<forall>k v os. (k, v, os) \<in> set fs \<longleftrightarrow> (\<exists>k'. k = key @ k' \<and> ''_'' \<notin> set k' \<and> entry_at k' t = Some (JArr [v, JObj os])))"
proof (induction n arbitrary: key t)
  case (Suc n)
  then obtain ps where t: "t = JObj ps" by (cases "(Suc n, t)" rule: tree_ok.cases) auto
  have dist: "distinct (map fst ps)" using Suc.prems by (simp add: t)
  let ?f = "\<lambda>(part, data). if part = ''_'' then outcome_bind (entry_fragment key data) (\<lambda>f. Inr [f])
    else traverse n (key @ [part]) data"
  let ?Q = "\<lambda>p fs. ?f p = Inr fs \<and> distinct (map fst fs) \<and>
    (\<forall>k v os. (k, v, os) \<in> set fs \<longleftrightarrow> (if fst p = ''_'' then k = key \<and> snd p = JArr [v, JObj os]
       else \<exists>k'. k = key @ fst p # k' \<and> ''_'' \<notin> set k' \<and> entry_at k' (snd p) = Some (JArr [v, JObj os])))"
  have "\<exists>fs. ?Q p fs" if p: "p \<in> set ps" for p
  proof (cases "fst p = ''_''")
    case True
    have "is_entry (snd p)" using Suc.prems p True by (cases p) (fastforce simp: t list_all_iff)
    then obtain w os where "snd p = JArr [w, JObj os]" unfolding is_entry_def by blast
    then show ?thesis using True by (cases p) (auto simp: entry_fragment_def arg_def own_entries_def)
  next
    case False
    then have "tree_ok n (snd p)" using Suc.prems p by (cases p) (fastforce simp: t list_all_iff)
    from Suc.IH [OF this, of "key @ [fst p]"] obtain fs where
      fs: "traverse n (key @ [fst p]) (snd p) = Inr fs" "distinct (map fst fs)" and
      mem: "\<And>k v os. (k, v, os) \<in> set fs \<longleftrightarrow>
        (\<exists>k'. k = (key @ [fst p]) @ k' \<and> ''_'' \<notin> set k' \<and> entry_at k' (snd p) = Some (JArr [v, JObj os]))" by blast
    have "?f p = Inr fs" using fs(1) False by (cases p) simp
    then show ?thesis using fs(2) mem False by (intro exI [of _ fs]) simp
  qed
  then have "\<forall>p\<in>set ps. \<exists>fs. ?Q p fs" by blast
  from bchoice [OF this] obtain g where "\<forall>p\<in>set ps. ?Q p (g p)" by blast
  then have g: "?Q p (g p)" if "p \<in> set ps" for p using that by blast
  let ?fs = "concat (map g ps)"
  have "outcome_map ?f ps = Inr (map g ps)" by (rule outcome_map_Inr) (use g in blast)
  then have run: "traverse (Suc n) key t = Inr ?fs" by (simp add: t traverse_entries_def own_entries_def)
  have mem: "(k, v, os) \<in> set ?fs \<longleftrightarrow>
      (\<exists>k'. k = key @ k' \<and> ''_'' \<notin> set k' \<and> entry_at k' t = Some (JArr [v, JObj os]))" for k v os
  proof
    assume "(k, v, os) \<in> set ?fs"
    then obtain p where p: "p \<in> set ps" "(k, v, os) \<in> set (g p)" by auto
    have at: "map_of ps (fst p) = Some (snd p)" using p(1) dist by simp
    show "\<exists>k'. k = key @ k' \<and> ''_'' \<notin> set k' \<and> entry_at k' t = Some (JArr [v, JObj os])"
    proof (cases "fst p = ''_''")
      case True
      then show ?thesis using g [OF p(1)] p(2) at by (intro exI [of _ "[]"]) (auto simp: t)
    next
      case False
      then obtain k' where "k = key @ fst p # k'" "''_'' \<notin> set k'" "entry_at k' (snd p) = Some (JArr [v, JObj os])"
        using g [OF p(1)] p(2) by auto
      then show ?thesis using at False by (intro exI [of _ "fst p # k'"]) (auto simp: t)
    qed
  next
    assume "\<exists>k'. k = key @ k' \<and> ''_'' \<notin> set k' \<and> entry_at k' t = Some (JArr [v, JObj os])"
    then obtain k' where k: "k = key @ k'" "''_'' \<notin> set k'" "entry_at k' t = Some (JArr [v, JObj os])" by blast
    obtain p where p: "p \<in> set ps" "if k' = [] then fst p = ''_'' \<and> snd p = JArr [v, JObj os]
        else fst p = hd k' \<and> entry_at (tl k') (snd p) = Some (JArr [v, JObj os])"
      using k(3) by (cases k') (auto simp: t split: option.splits dest: map_of_SomeD)
    have "(k, v, os) \<in> set (g p)"
    proof (cases k')
      case Nil
      then show ?thesis using g [OF p(1)] p(2) k(1) by simp
    next
      case (Cons part rest)
      then have "fst p \<noteq> ''_''" using p(2) k(2) by auto
      then show ?thesis using g [OF p(1)] p(2) k(1,2) Cons by auto
    qed
    then show "(k, v, os) \<in> set ?fs" using p(1) by auto
  qed
  have part: "if fst p = ''_'' then a = key else \<exists>k'. a = key @ fst p # k'" if "p \<in> set ps" "a \<in> set (map fst (g p))" for p a
    using g [OF that(1)] that(2) by (auto split: if_splits)
  have "distinct (concat (map (\<lambda>p. map fst (g p)) ps))"
  proof (rule distinct_concat_groups [of fst, OF dist])
    fix p q a assume "p \<in> set ps" "q \<in> set ps" "a \<in> set (map fst (g p))" "a \<in> set (map fst (g q))"
    then show "fst p = fst q" using part [of p a] part [of q a] by (auto split: if_splits)
  qed (use g in blast)
  then have "distinct (map fst ?fs)" by (simp add: map_concat comp_def)
  then show ?case using run mem by blast
qed simp


section \<open>The tree holds the fragments\<close>

definition good_fragment :: "hfragment \<Rightarrow> bool" where
  "good_fragment f = (''_'' \<notin> set (fst f) \<and> (\<forall>part\<in>set (fst f). \<not> inherited part) \<and> length (fst f) < max_depth)"

lemma tree_ok_fold:
  "tree_ok max_depth t \<Longrightarrow> \<forall>f\<in>set fs. good_fragment f \<Longrightarrow>
     tree_ok max_depth (fold (\<lambda>f. put_entry (fst f) (fragment_entry f)) fs t)"
  by (induction fs arbitrary: t) (auto simp: good_fragment_def intro!: put_entry_ok)

lemma tree_fold_at:
  "tree_ok max_depth t \<Longrightarrow> \<forall>f\<in>set fs. good_fragment f \<Longrightarrow> distinct (map fst fs) \<Longrightarrow> ''_'' \<notin> set k \<Longrightarrow>
     entry_at k (fold (\<lambda>f. put_entry (fst f) (fragment_entry f)) fs t) =
       (case map_of fs k of Some (v, os) \<Rightarrow> Some (JArr [v, JObj os]) | None \<Rightarrow> entry_at k t)"
proof (induction fs arbitrary: t)
  case (Cons f fs)
  obtain key v os where f: "f = (key, v, os)" by (cases f)
  have good: "length key < max_depth" "''_'' \<notin> set key" "\<forall>part\<in>set key. \<not> inherited part" using Cons.prems(2) by (simp_all add: good_fragment_def f)
  have ok: "tree_ok max_depth (put_entry key (fragment_entry f) t)" by (rule put_entry_ok [OF Cons.prems(1) good(1,2)])
  have none: "map_of fs key = None" using Cons.prems(3) by (simp add: f map_of_eq_None_iff)
  show ?case
    using Cons.IH [OF ok] Cons.prems put_entry_at [OF Cons.prems(1) good Cons.prems(4), of "fragment_entry f"] none
    by (auto simp: f fragment_entry_def split: option.splits)
qed simp

lemma cluster_roundtrip:
  assumes "\<forall>f\<in>set fs. good_fragment f" "distinct (map fst fs)"
  shows "\<exists>fs'. traverse max_depth [] (cluster_tree fs) = Inr fs' \<and> mset fs' = mset fs"
proof -
  have start: "tree_ok max_depth (JObj [])" by (simp add: max_depth_def numeral_eq_Suc)
  have ok: "tree_ok max_depth (cluster_tree fs)" unfolding cluster_tree_def by (rule tree_ok_fold [OF start assms(1)])
  from traverse_tree [OF this, of "[]"] obtain fs' where
    fs': "traverse max_depth [] (cluster_tree fs) = Inr fs'" "distinct (map fst fs')" and
    mem: "\<And>k v os. (k, v, os) \<in> set fs' \<longleftrightarrow> ''_'' \<notin> set k \<and> entry_at k (cluster_tree fs) = Some (JArr [v, JObj os])"
    by auto
  have empty: "entry_at k (JObj []) = None" for k by (cases k) simp_all
  have "(k, v, os) \<in> set fs' \<longleftrightarrow> (k, v, os) \<in> set fs" for k v os
  proof -
    have "''_'' \<notin> set k" if "(k, v, os) \<in> set fs" using assms(1) that by (auto simp: good_fragment_def)
    moreover have "entry_at k (cluster_tree fs) = Some (JArr [v, JObj os]) \<longleftrightarrow> (k, v, os) \<in> set fs" if "''_'' \<notin> set k"
    proof -
      have "(k, v, os) \<in> set fs \<longleftrightarrow> map_of fs k = Some (v, os)" using map_of_eq_Some_iff [OF assms(2)] by simp
      then show ?thesis
        unfolding cluster_tree_def tree_fold_at [OF start assms that] empty by (auto split: option.splits)
    qed
    ultimately show ?thesis unfolding mem by blast
  qed
  then have "set fs' = set fs" by auto
  moreover have "distinct fs'" "distinct fs" using fs'(2) assms(2) by (simp_all add: distinct_map)
  ultimately have "mset fs' = mset fs" by (simp add: set_eq_iff_mset_eq_distinct)
  then show ?thesis using fs'(1) by blast
qed

section \<open>Clusters\<close>

lemma split_last_inj:
  "c \<notin> set b \<Longrightarrow> c \<notin> set b' \<Longrightarrow> a @ c # b = a' @ c # b' \<Longrightarrow> a = a' \<and> b = b'"
proof (induction a arbitrary: a')
  case Nil
  then show ?case by (cases a') auto
next
  case (Cons x a)
  then show ?case by (cases a') auto
qed

lemma int_to_string_at: "CHR ''@'' \<notin> set (int_to_string n)"
proof -
  have "CHR ''@'' \<notin> set (nat_to_string k)" for k
  proof (induction k rule: less_induct)
    case (less k)
    have "digit_char (k mod 10) \<noteq> CHR ''@''"
    proof
      assume "digit_char (k mod 10) = CHR ''@''"
      then have "of_char (digit_char (k mod 10)) = (64 :: nat)" by simp
      then show False by (simp add: digit_char_def)
    qed
    then show ?case using less [of "k div 10"] by (subst nat_to_string_snoc) auto
  qed
  then show ?thesis by (simp add: int_to_string_def)
qed

definition is_flag :: "json \<Rightarrow> bool" where
  "is_flag v = (v \<in> {JBool True, JBool False})"

lemma keyCluster_inj:
  assumes "is_flag b" "is_flag b'"
  shows "keyCluster u t b = keyCluster u' t' b' \<longleftrightarrow> u = u' \<and> t = t' \<and> b = b'"
proof
  assume eq: "keyCluster u t b = keyCluster u' t' b'"
  have flag: "CHR ''@'' \<notin> set (to_property_key b)" if "is_flag b" for b using that by (auto simp: is_flag_def)
  from split_last_inj [OF flag [OF assms(1)] flag [OF assms(2)], of "u @ ''@'' @ int_to_string t" "u' @ ''@'' @ int_to_string t'"] eq
  have 1: "u @ ''@'' @ int_to_string t = u' @ ''@'' @ int_to_string t'"
    and 2: "to_property_key b = to_property_key b'" by (simp_all add: keyCluster_def)
  from split_last_inj [OF int_to_string_at int_to_string_at, of u t u' t'] 1
  have "u = u'" "int_to_string t = int_to_string t'" by simp_all
  then show "u = u' \<and> t = t' \<and> b = b'" using 2 int_to_string_inj assms by (auto simp: is_flag_def)
qed simp

definition cluster_records :: "string \<times> cluster \<Rightarrow> node_record list" where
  "cluster_records kc = map (\<lambda>f. (cl_uid (snd kc), f, cl_timestamp (snd kc), cl_fixed (snd kc))) (cl_data (snd kc))"

definition clusters_ok :: "(string \<times> cluster) list \<Rightarrow> bool" where
  "clusters_ok cs = (distinct (map fst cs) \<and>
     (\<forall>(k, c)\<in>set cs. is_flag (cl_fixed c) \<and> k = keyCluster (cl_uid c) (cl_timestamp c) (cl_fixed c)))"

lemma mset_concat_update:
  "distinct (map fst xs) \<Longrightarrow>
     mset (concat (map F (AList.update k v xs))) + (case map_of xs k of None \<Rightarrow> {#} | Some w \<Rightarrow> mset (F (k, w))) =
     mset (concat (map F xs)) + mset (F (k, v))"
proof (induction xs)
  case (Cons x xs)
  show ?case
  proof (cases "fst x = k")
    case True
    then show ?thesis by (cases x) simp
  next
    case False
    then show ?thesis using Cons by (cases x) (simp add: ac_simps union_assoc)
  qed
qed simp

lemma add_cluster_ok:
  assumes "clusters_ok cs" "is_flag (snd (snd (snd r)))"
  shows "clusters_ok (add_cluster r cs) \<and>
    mset (concat (map cluster_records (add_cluster r cs))) = mset (concat (map cluster_records cs)) + {# r #}"
proof -
  obtain uid data timestamp isFixed where r: "r = (uid, data, timestamp, isFixed)" by (cases r) auto
  define k where "k = keyCluster uid timestamp isFixed"
  define c where "c = (case map_of cs k of
      None \<Rightarrow> \<lparr>cl_uid = uid, cl_timestamp = timestamp, cl_fixed = isFixed, cl_data = []\<rparr> | Some c \<Rightarrow> c)"
  have add: "add_cluster r cs = AList.update k (c\<lparr>cl_data := cl_data c @ [data]\<rparr>) cs"
    by (simp add: add_cluster_def r k_def c_def Let_def)
  have flag: "is_flag isFixed" using assms(2) by (simp add: r)
  have "is_flag (cl_fixed c) \<and> keyCluster (cl_uid c) (cl_timestamp c) (cl_fixed c) = k"
    using assms(1) flag by (fastforce simp: c_def k_def clusters_ok_def dest: map_of_SomeD split: option.splits)
  then have c: "cl_uid c = uid" "cl_timestamp c = timestamp" "cl_fixed c = isFixed"
    using flag keyCluster_inj [of "cl_fixed c" isFixed] by (auto simp: k_def)
  have "clusters_ok (add_cluster r cs)"
    using assms set_update_subset [of k "c\<lparr>cl_data := cl_data c @ [data]\<rparr>" cs]
    unfolding clusters_ok_def add by (auto simp: distinct_update c flag k_def)
  moreover have "mset (concat (map cluster_records (add_cluster r cs))) = mset (concat (map cluster_records cs)) + {# r #}"
  proof (cases "map_of cs k")
    case None
    then have "cl_data c = []" by (simp add: c_def)
    then show ?thesis unfolding add using mset_concat_update [of cs cluster_records k "c\<lparr>cl_data := cl_data c @ [data]\<rparr>"] assms None
      by (simp add: cluster_records_def c r clusters_ok_def)
  next
    case (Some a)
    then have "a = c" by (simp add: c_def)
    then show ?thesis unfolding add using mset_concat_update [of cs cluster_records k "c\<lparr>cl_data := cl_data c @ [data]\<rparr>"] assms Some
      by (simp add: cluster_records_def c r clusters_ok_def)
  qed
  ultimately show ?thesis by blast
qed

lemma clusters_of:
  "clusters_ok cs \<Longrightarrow> \<forall>r\<in>set records. is_flag (snd (snd (snd r))) \<Longrightarrow> clusters_ok (fold add_cluster records cs) \<and>
     mset (concat (map cluster_records (fold add_cluster records cs))) = mset (concat (map cluster_records cs)) + mset records"
  by (induction records arbitrary: cs) (simp_all add: add_cluster_ok)

definition record_key :: "node_record \<Rightarrow> string \<times> key \<times> int \<times> json" where
  "record_key r = (case r of (uid, f, timestamp, isFixed) \<Rightarrow> (uid, fst f, timestamp, isFixed))"

lemma distinct_map_concat_part: "distinct (map h (concat (map g xs))) \<Longrightarrow> x \<in> set xs \<Longrightarrow> distinct (map h (g x))"
  by (induction xs) auto

lemma mset_concat_cong: "(\<And>x. x \<in> set xs \<Longrightarrow> mset (f x) = mset (g x)) \<Longrightarrow> mset (concat (map f xs)) = mset (concat (map g xs))"
  by (induction xs) auto

lemma outcome_map_map: "outcome_map f (map g xs) = outcome_map (\<lambda>x. f (g x)) xs"
  by (induction xs) simp_all

lemma disk_records:
  assumes "\<forall>r\<in>set records. good_fragment (fst (snd r)) \<and> is_flag (snd (snd (snd r)))" and "distinct (map record_key records)"
  shows "\<exists>records'. recordFromDisk (recordToDisk records) = Inr records' \<and> mset records' = mset records"
proof -
  let ?cs = "fold add_cluster records []"
  have ok: "clusters_ok ?cs" and ms: "mset (concat (map cluster_records ?cs)) = mset records"
    using clusters_of [of "[]" records] assms(1) by (simp_all add: clusters_ok_def)
  have sub: "set (cluster_records kc) \<subseteq> set records" if "kc \<in> set ?cs" for kc
    using that arg_cong [OF ms, of set_mset] by auto
  have "mset (map record_key (concat (map cluster_records ?cs))) = mset (map record_key records)"
    by (simp only: mset_map ms)
  then have dist: "distinct (map record_key (concat (map cluster_records ?cs)))"
    using assms(2) mset_eq_imp_distinct_iff by blast
  have "\<exists>fs'. traverse max_depth [] (cluster_tree (cl_data (snd kc))) = Inr fs' \<and> mset fs' = mset (cl_data (snd kc))"
    if kc: "kc \<in> set ?cs" for kc
  proof (rule cluster_roundtrip)
    have "good_fragment f" if "f \<in> set (cl_data (snd kc))" for f
    proof -
      have "(cl_uid (snd kc), f, cl_timestamp (snd kc), cl_fixed (snd kc)) \<in> set (cluster_records kc)"
        using that unfolding cluster_records_def set_map by (rule imageI)
      from bspec [OF assms(1) subsetD [OF sub [OF kc] this]] show ?thesis by simp
    qed
    then show "\<forall>f\<in>set (cl_data (snd kc)). good_fragment f" by blast
    have "distinct (map record_key (cluster_records kc))"
      by (rule distinct_map_concat_part [OF dist kc])
    then have "distinct (map (\<lambda>f. (cl_uid (snd kc), fst f, cl_timestamp (snd kc), cl_fixed (snd kc))) (cl_data (snd kc)))"
      by (simp add: cluster_records_def comp_def record_key_def)
    then show "distinct (map fst (cl_data (snd kc)))" by (simp add: distinct_map inj_on_def)
  qed
  then have "\<forall>kc\<in>set ?cs. \<exists>fs'. traverse max_depth [] (cluster_tree (cl_data (snd kc))) = Inr fs' \<and>
      mset fs' = mset (cl_data (snd kc))" by blast
  from bchoice [OF this] obtain g where g: "\<And>kc. kc \<in> set ?cs \<Longrightarrow>
      traverse max_depth [] (cluster_tree (cl_data (snd kc))) = Inr (g kc) \<and> mset (g kc) = mset (cl_data (snd kc))" by blast
  let ?h = "\<lambda>kc. map (\<lambda>f. (cl_uid (snd kc), f, cl_timestamp (snd kc), cl_fixed (snd kc))) (g kc)"
  have flag: "JBool ((if truthy (cl_fixed (snd kc)) then 1 else 0 :: int) \<noteq> 0) = cl_fixed (snd kc)"
    if "kc \<in> set ?cs" for kc
    using that ok by (auto simp: clusters_ok_def is_flag_def truthy_def)
  have "outcome_map (\<lambda>kc. outcome_bind (traverse max_depth [] (cluster_tree (cl_data (snd kc))))
      (\<lambda>fs. Inr (map (\<lambda>f. (cl_uid (snd kc), f, cl_timestamp (snd kc),
        JBool ((if truthy (cl_fixed (snd kc)) then 1 else 0 :: int) \<noteq> 0))) fs))) ?cs = Inr (map ?h ?cs)"
    by (rule outcome_map_Inr) (use g flag in simp)
  then have "recordFromDisk (recordToDisk records) = Inr (concat (map ?h ?cs))"
    by (simp only: recordFromDisk_def recordToDisk_def outcome_map_map comp_def case_prod_unfold fst_conv snd_conv) simp
  moreover have "mset (concat (map ?h ?cs)) = mset (concat (map cluster_records ?cs))"
    using g by (intro mset_concat_cong) (simp add: cluster_records_def)
  ultimately show ?thesis using ms by auto
qed

text \<open>
  C26. Records survive the disk: what is read back is what was written, in some order, when no segment of a key is \<open>_\<close>
  or the name of a property that every object inherits, keys have less than 32 segments, and no two records of one
  write have the same node, key, timestamp and flag.
\<close>

theorem record_roundtrip:
  assumes "\<forall>r\<in>set records. good_fragment (fst (snd r)) \<and> is_flag (snd (snd (snd r)))" and "distinct (map record_key records)"
  shows "\<exists>records'. recordFromDisk (recordToDisk records) = Inr records' \<and> mset records' = mset records"
  by (rule disk_records [OF assms])

definition example_records :: "node_record list" where
  "example_records =
     [(''n'', ([''a'', ''b''], JNum 1, [(''unit'', JStr ''C'')]), 100, JBool False),
      (''n'', ([''a''], JStr ''x'', []), 100, JBool False),
      (''m'', ([''a''], JNum 2, []), 100, JBool False),
      (''n'', ([''a'', ''b''], JNum 3, []), 100, JBool True)]"

theorem record_roundtrip_witness:
  "\<exists>records'. recordFromDisk (recordToDisk example_records) = Inr records' \<and> mset records' = mset example_records"
  by (rule record_roundtrip) (simp_all add: example_records_def good_fragment_def is_flag_def max_depth_def record_key_def inherited_def
      inherited_names_def)


text \<open>
  What cannot be read back: a segment \<open>_\<close>, which takes the place of an entry, and a key of 32 segments. Such values are
  accepted and written, and then the record that has them fails as a whole. A segment that names an inherited
  property, as \<open>constructor\<close> does, is taken for a node that is there: the entry is put into the inherited object
  instead of the record.
\<close>

lemma underscore_lost:
  "recordFromDisk (recordToDisk [(''u'', ([''_''], JNum 1, []), 5, JBool False)]) = Inl TypeErr"
  "recordFromDisk (recordToDisk [(''u'', ([''x''], JNum 1, []), 5, JBool False),
     (''u'', ([''y'', ''_''], JNum 2, []), 5, JBool False)]) = Inl TypeErr"
  by code_simp+

lemma inherited_segment_lost:
  "recordFromDisk (recordToDisk [(''u'', ([''constructor''], JNum 1, []), 5, JBool False)]) = Inr []"
  by code_simp

lemma deep_key_lost:
  "recordFromDisk (recordToDisk [(''u'', (replicate 32 ''x'', JNum 1, []), 5, JBool False)]) = Inl AssertFailed"
  by code_simp

section \<open>Replay\<close>

definition record_at :: "node_record \<Rightarrow> string \<times> string" where
  "record_at r = (fst r, keyToInternal (fst (fst (snd r))))"

definition record_value :: "node_record \<Rightarrow> json datum option \<Rightarrow> json datum option" where
  "record_value r d = (case r of (uid, (key, v, options), timestamp, isFixed) \<Rightarrow>
     Some (insert_value timestamp v (read_options options) (case d of None \<Rightarrow> new_datum | Some d \<Rightarrow> d)))"

lemma insertFromRecord_entry:
  "storage_ok s \<Longrightarrow> storage_ok (insertFromRecord opts rs s) \<and>
     Data.entry_of (insertFromRecord opts rs s) uid i =
       fold record_value (filter (\<lambda>r. record_at r = (uid, i)) rs) (Data.entry_of s uid i)"
proof (induction rs arbitrary: s)
  case (Cons r rs)
  obtain uid' key v os timestamp isFixed where r: "r = (uid', (key, v, os), timestamp, isFixed)" by (cases r) auto
  let ?s = "insert_fragment opts uid' timestamp (key, v, read_options os) s"
  have step: "insertFromRecord opts (r # rs) s = insertFromRecord opts rs ?s"
    by (simp add: insertFromRecord_def r data_insert_def read_fragment_def)
  note entry = insert_fragment_entry [OF Cons.prems, of opts uid' timestamp key v "read_options os"]
  show ?case
    using Cons.IH [OF entry(1)] unfolding step by (auto simp: entry(2) record_at_def record_value_def r)
qed (simp add: insertFromRecord_def)

lemma insertFromRecord_append: "insertFromRecord opts (rs @ rs') s = insertFromRecord opts rs' (insertFromRecord opts rs s)"
  by (simp add: insertFromRecord_def)

lemma filter_single: "distinct (map h xs) \<Longrightarrow> mset xs = mset ys \<Longrightarrow> filter (\<lambda>x. h x = a) xs = filter (\<lambda>x. h x = a) ys"
proof -
  assume d: "distinct (map h xs)" and m: "mset xs = mset ys"
  let ?xs = "filter (\<lambda>x. h x = a) xs" and ?ys = "filter (\<lambda>x. h x = a) ys"
  have eq: "mset ?xs = mset ?ys" using m by (metis mset_filter)
  have short: "length ?xs \<le> 1" using d by (induction xs) (auto simp: filter_empty_conv image_iff)
  show ?thesis
  proof (cases ?xs)
    case Nil
    then show ?thesis using eq by (metis mset_zero_iff)
  next
    case (Cons x rest)
    then have "?xs = [x]" using short by simp
    then show ?thesis using eq by (metis mset_single_iff_right mset.simps)
  qed
qed

text \<open>The order of the records of one write does not matter, as long as no entry occurs twice.\<close>

lemma insertFromRecord_permuted:
  assumes "storage_ok s" "mset rs = mset rs'" "distinct (map record_at rs)"
  shows "Data.entry_of (insertFromRecord opts rs s) = Data.entry_of (insertFromRecord opts rs' s)"
  using insertFromRecord_entry [OF assms(1)] filter_single [OF assms(3,2)] by (intro ext) simp

end
