(* ===== verification/NodesPlugin.thy ===== *)
theory NodesPlugin
  imports Nodes_Props Records
begin

text \<open>
  \<open>apps/artifacts/plugins/nodes/{backend.js,sources/*,databases/database.js}\<close>, \<open>db/data/backend/handler.js\<close>: the
  requests that insert and read values, the records of a node that others ask for, the sources that ask for them, and
  the databases that they are written to.

  A body is given as parsed. The clock is a function of the number of the value that is inserted. What
  \<open>this.records.read(tick)\<close> yields is what the reader reads (\<open>records_read\<close>) from the files of the storages \<open>files\<close>,
  which do not change meanwhile; \<open>lt\<close> is the operator \<open><\<close> on payloads. Timestamps that are not whole
  are cut off, segments of keys that are not texts are taken by their text. The HTTP client and the database
  (\<open>onRecords\<close>) are given by their answers.
\<close>

record plugin_state =
  pl_nodes :: nodes_state
  pl_records :: "disk_record r_state"

definition mainStorageName :: string where
  "mainStorageName = ''main''"

section \<open>Inserting\<close>

text \<open>\<open>for (const [a, b] of v)\<close>: the elements of an array, or the characters of a text.\<close>

definition js_iterate :: "json \<Rightarrow> json list outcome" where
  "js_iterate v =
     (case v of JArr xs \<Rightarrow> Inr xs | JStr s \<Rightarrow> Inr (map (\<lambda>c. JStr [c]) s) | _ \<Rightarrow> Inl TypeErr)"

text \<open>A value to be inserted: node, key, value, expiry, unit, timestamp; or the exception that ends the request there.\<close>

type_synonym insertion = "string \<times> key \<times> json \<times> json \<times> json \<times> int"

definition bulk_sample :: "string \<Rightarrow> key \<Rightarrow> json \<Rightarrow> insertion outcome" where
  "bulk_sample uid key sample =
     outcome_bind (js_iterate sample) (\<lambda>xs.
       case arg xs 0 of
         JNum t \<Rightarrow> Inr (uid, key, arg xs 1, arg xs 2, arg xs 3, t)
       | JFrac n m \<Rightarrow> Inr (uid, key, arg xs 1, arg xs 2, arg xs 3, n div int m)
       | _ \<Rightarrow> Inl PreconditionFailed)"

definition bulk_entry :: "string \<Rightarrow> key \<Rightarrow> json \<Rightarrow> insertion outcome list" where
  "bulk_entry uid key entry =
     (case js_iterate entry of
        Inl e \<Rightarrow> [Inl e]
      | Inr xs \<Rightarrow>
          (case (arg xs 0, arg xs 1) of
             (JArr subKey, JArr data) \<Rightarrow> map (bulk_sample uid (key @ map to_property_key subKey)) data
           | _ \<Rightarrow> [Inl PreconditionFailed]))"

definition bulk_node :: "key \<Rightarrow> string \<times> json \<Rightarrow> insertion outcome list" where
  "bulk_node key entry =
     (case js_iterate (snd entry) of
        Inl e \<Rightarrow> [Inl e]
      | Inr es \<Rightarrow> concat (map (bulk_entry (fst entry) key) es))"

definition processBulk :: "key \<Rightarrow> json \<Rightarrow> insertion outcome list" where
  "processBulk key bulkDictionary =
     (case bulkDictionary of JObj ps \<Rightarrow> concat (map (bulk_node key) ps) | _ \<Rightarrow> [Inl PreconditionFailed])"

text \<open>The insertions of a request, whether its timestamps are fixed, and the time of the client.\<close>

definition post_plan :: "bool \<Rightarrow> json \<Rightarrow> key \<Rightarrow> int \<Rightarrow> insertion outcome list \<times> bool \<times> int option" where
  "post_plan bulk data path now =
     (if bulk
      then (case data of
              JObj ps \<Rightarrow>
                (case map_of ps ''timestamp'' of
                   None \<Rightarrow> (processBulk (tl path) (if path = [] then js_get data ''data'' else JObj [(hd path, js_get data ''data'')]), True, None)
                 | Some (JNum t) \<Rightarrow>
                     (processBulk (tl path) (if path = [] then js_get data ''data'' else JObj [(hd path, js_get data ''data'')]), False, Some t)
                 | Some (JFrac n m) \<Rightarrow>
                     (processBulk (tl path) (if path = [] then js_get data ''data'' else JObj [(hd path, js_get data ''data'')]), False,
                      Some (n div int m))
                 | Some _ \<Rightarrow> ([Inl PreconditionFailed], False, None))
            | _ \<Rightarrow> ([Inl PreconditionFailed], False, None))
      else if path = []
      then (case data of
              JObj ps \<Rightarrow> (map (\<lambda>(uid, v). Inr (uid, [], v, JNull, JNull, 0)) ps, False, Some 0)
            | _ \<Rightarrow> ([Inl PreconditionFailed], False, None))
      else ([Inr (hd path, tl path, data, JNull, JNull, 0)], False, Some 0))"

definition insertion_time :: "(nat \<Rightarrow> int) \<Rightarrow> bool \<Rightarrow> int option \<Rightarrow> nat \<Rightarrow> int \<Rightarrow> int" where
  "insertion_time clock isFixed client i t =
     (if isFixed then t else t - (case client of None \<Rightarrow> 0 | Some c \<Rightarrow> c) + clock (Suc i))"

fun run_insertions :: "data_options \<Rightarrow> (nat \<Rightarrow> int) \<Rightarrow> bool \<Rightarrow> int option \<Rightarrow> nat \<Rightarrow> insertion outcome list \<Rightarrow>
    node_record list \<Rightarrow> nodes_state \<Rightarrow> nodes_state \<times> node_record list outcome" where
  "run_insertions opts clock isFixed client i [] records n = (n, Inr records)"
| "run_insertions opts clock isFixed client i (Inl e # plan) records n = (n, Inl e)"
| "run_insertions opts clock isFixed client i (Inr (uid, key, v, exp, unit', t) # plan) records n =
     (case nodes_insert opts uid key v exp unit' (insertion_time clock isFixed client i t) isFixed n of
        (n', Inl e) \<Rightarrow> (n', Inl e)
      | (n', Inr newRecords) \<Rightarrow> run_insertions opts clock isFixed client (Suc i) plan (records @ newRecords) n')"

text \<open>The records of a request, unless it failed, are written as one payload.\<close>

definition post_insert :: "data_options \<Rightarrow> (nat \<Rightarrow> int) \<Rightarrow> string \<Rightarrow> bool \<Rightarrow> json \<Rightarrow> nodes_state \<Rightarrow>
    nodes_state \<times> node_record list outcome" where
  "post_insert opts clock path bulk data n =
     (case request_pathToKey path of
        Inl e \<Rightarrow> (n, Inl e)
      | Inr parts \<Rightarrow>
          (case post_plan bulk data parts (clock 0) of
             (plan, isFixed, client) \<Rightarrow> run_insertions opts clock isFixed client 0 plan [] n))"

definition post_values :: "data_options \<Rightarrow> disk_record r_options \<Rightarrow> (nat \<Rightarrow> int) \<Rightarrow> string \<Rightarrow> bool \<Rightarrow> json \<Rightarrow>
    plugin_state \<Rightarrow> plugin_state \<times> unit outcome" where
  "post_values opts ropts clock path bulk data st =
     (case post_insert opts clock path bulk data (pl_nodes st) of
        (n, Inl e) \<Rightarrow> (st\<lparr>pl_nodes := n\<rparr>, Inl e)
      | (n, Inr records) \<Rightarrow>
          (case records_write ropts (recordToDisk records) mainStorageName None (pl_records st) of
             (rs, r) \<Rightarrow> (st\<lparr>pl_nodes := n, pl_records := rs\<rparr>, r)))"

text \<open>At the start: every payload of the log.\<close>

definition replay_payload :: "data_options \<Rightarrow> disk_record \<Rightarrow> json storage \<Rightarrow> json storage outcome" where
  "replay_payload opts payload s =
     outcome_bind (recordFromDisk payload) (\<lambda>records. Inr (insertFromRecord opts records s))"

fun replay :: "data_options \<Rightarrow> disk_record list \<Rightarrow> json storage \<Rightarrow> json storage outcome" where
  "replay opts [] s = Inr s"
| "replay opts (p # ps) s = outcome_bind (replay_payload opts p s) (replay opts ps)"

section \<open>Reading records\<close>

fun read_loop :: "disk_record item list \<Rightarrow> int \<Rightarrow> disk_record list \<times> nat option \<times> bool" where
  "read_loop [] maxSize' = ([], None, True)"
| "read_loop ((tick, p, size', remote) # items) maxSize' =
     (if maxSize' - int size' \<le> 0 then ([p], Some tick, False)
      else case read_loop items (maxSize' - int size') of
             (ps, last', end') \<Rightarrow> (p # ps, Some (case last' of None \<Rightarrow> tick | Some t \<Rightarrow> t), end'))"

definition plugin_read :: "disk_record item list \<Rightarrow> nat \<Rightarrow> int \<Rightarrow> disk_record list \<times> nat \<times> bool" where
  "plugin_read items tick maxSize' =
     (case read_loop items maxSize' of
        (ps, last', end') \<Rightarrow> (ps, case last' of None \<Rightarrow> tick | Some t \<Rightarrow> t + 1, end'))"

text \<open>The endpoint \<open>@records\<close>: a tick from another history starts again.\<close>

definition get_records :: "(disk_record \<Rightarrow> disk_record \<Rightarrow> bool) \<Rightarrow> disk_record r_options \<Rightarrow> disk_record r_files list \<Rightarrow>
    nat \<Rightarrow> nat \<Rightarrow> int \<Rightarrow> (disk_record list \<times> nat \<times> bool) option" where
  "get_records lt ropts files lastTick tick maxSize' =
     (let tick' = (if tick > lastTick + 1 then 0 else tick)
      in map_option (\<lambda>items. plugin_read items tick' maxSize') (records_read lt ropts files tick'))"

text \<open>\<open>plugin.write\<close>.\<close>

definition plugin_write :: "data_options \<Rightarrow> string \<Rightarrow> hfragment \<Rightarrow> int \<Rightarrow> json storage \<Rightarrow> json storage" where
  "plugin_write opts uid data timestamp s = insertFromRecord opts (recordFromSingleEntry uid data timestamp False) s"

section \<open>Databases\<close>

text \<open>
  \<open>processNext\<close>: the records from the tick, and whether it was the end; \<open>deliver\<close> is \<open>onRecords\<close>, which may throw. The
  tick is set after it.
\<close>

definition deliver_items :: "int \<Rightarrow> (node_record list \<Rightarrow> unit outcome) \<Rightarrow> nat \<Rightarrow> disk_record item list \<Rightarrow>
    nat \<times> (node_record list \<times> bool) outcome" where
  "deliver_items maxSize' deliver tick items =
     (case plugin_read items tick maxSize' of
        (payloads, next', end') \<Rightarrow>
          (case outcome_map recordFromDisk payloads of
             Inl e \<Rightarrow> (tick, Inl e)
           | Inr rss \<Rightarrow>
               (case (if concat rss = [] then Inr () else deliver (concat rss)) of
                  Inl e \<Rightarrow> (tick, Inl e)
                | Inr _ \<Rightarrow> (next', Inr (concat rss, end')))))"

definition db_processNext :: "(disk_record \<Rightarrow> disk_record \<Rightarrow> bool) \<Rightarrow> disk_record r_options \<Rightarrow> disk_record r_files list \<Rightarrow>
    int \<Rightarrow> (node_record list \<Rightarrow> unit outcome) \<Rightarrow> nat \<Rightarrow> (nat \<times> (node_record list \<times> bool) outcome) option" where
  "db_processNext lt ropts files maxSize' deliver tick =
     map_option (deliver_items maxSize' deliver tick) (records_read lt ropts files tick)"

text \<open>The stop process \<open>write.remainings\<close>: the records that were delivered, and the tick.\<close>

partial_function (option) write_remainings :: "(disk_record \<Rightarrow> disk_record \<Rightarrow> bool) \<Rightarrow> disk_record r_options \<Rightarrow>
    disk_record r_files list \<Rightarrow> int \<Rightarrow> (node_record list \<Rightarrow> unit outcome) \<Rightarrow> nat \<Rightarrow>
    (nat \<times> node_record list outcome) option" where
  "write_remainings lt ropts files maxSize' deliver tick =
     Option.bind (db_processNext lt ropts files maxSize' deliver tick)
       (\<lambda>(tick', r).
          case r of
            Inl e \<Rightarrow> Some (tick', Inl e)
          | Inr (records, end') \<Rightarrow>
              if end' then Some (tick', Inr records)
              else Option.bind (write_remainings lt ropts files maxSize' deliver tick')
                     (\<lambda>(tick'', r). Some (tick'', outcome_bind r (\<lambda>rest. Inr (records @ rest)))))"

section \<open>Sources\<close>

record source_answer =
  sa_version :: int
  sa_timestamp :: int
  sa_records :: "disk_record list"
  sa_next :: int
  sa_end :: bool

definition plugin_version :: int where
  "plugin_version = 4"

text \<open>
  \<open>fetchRecords\<close>. A record has four elements and is taken apart into five: the third is taken for the value, the
  fourth for the timestamp, and what is taken for the flag is undefined. So the delay is added to the flag.
\<close>

definition shifted_record :: "int \<Rightarrow> node_record \<Rightarrow> node_record" where
  "shifted_record delay r =
     (case r of (uid, f, timestamp, isFixed) \<Rightarrow> (uid, f, timestamp, JNum ((if truthy isFixed then 1 else 0) + delay)))"

definition fetchRecords :: "int \<Rightarrow> source_answer \<Rightarrow> (node_record list list \<times> int \<times> bool) outcome" where
  "fetchRecords now answer =
     (if sa_version answer \<noteq> plugin_version then Inl AssertFailed
      else outcome_bind (outcome_map recordFromDisk (sa_records answer)) (\<lambda>rss.
             Inr (map (map (shifted_record (now - sa_timestamp answer))) rss, sa_next answer, sa_end answer)))"

record source_state =
  so_name :: string
  so_persistent :: bool
  so_next :: int

definition source_tick :: "plugin_state \<Rightarrow> source_state \<Rightarrow> int outcome" where
  "source_tick st src =
     (if so_next src \<noteq> -1 then Inr (so_next src)
      else if so_persistent src
      then outcome_bind (getTickRemote (so_name src) (Some 0) (pl_records st)) (\<lambda>t. Inr (case t of None \<Rightarrow> 0 | Some n \<Rightarrow> int n))
      else Inr 0)"

fun apply_records :: "data_options \<Rightarrow> disk_record r_options \<Rightarrow> source_state \<Rightarrow> node_record list list \<Rightarrow>
    plugin_state \<Rightarrow> plugin_state \<times> unit outcome" where
  "apply_records opts ropts src [] st = (st, Inr ())"
| "apply_records opts ropts src (record # records) st =
     (let n = pl_nodes st;
          st1 = st\<lparr>pl_nodes := n\<lparr>n_data := insertFromRecord opts record (n_data n)\<rparr>\<rparr>
      in if so_persistent src
         then (case records_write ropts (recordToDisk record) (so_name src) (Some (nat (so_next src))) (pl_records st1) of
                 (rs, Inl e) \<Rightarrow> (st1\<lparr>pl_records := rs\<rparr>, Inl e)
               | (rs, Inr _) \<Rightarrow> apply_records opts ropts src records (st1\<lparr>pl_records := rs\<rparr>))
         else apply_records opts ropts src records st1)"

definition source_process :: "data_options \<Rightarrow> disk_record r_options \<Rightarrow> int \<Rightarrow> (int \<Rightarrow> source_answer outcome) \<Rightarrow>
    source_state \<Rightarrow> plugin_state \<Rightarrow> source_state \<times> plugin_state \<times> bool outcome" where
  "source_process opts ropts now client src st =
     (case source_tick st src of
        Inl e \<Rightarrow> (src, st, Inl e)
      | Inr tick \<Rightarrow>
          (case outcome_bind (client tick) (fetchRecords now) of
             Inl e \<Rightarrow> (src\<lparr>so_next := tick\<rparr>, st, Inl e)
           | Inr (records, next', end') \<Rightarrow>
               (let src' = src\<lparr>so_next := next'\<rparr>
                in case apply_records opts ropts src' records st of
                     (st', Inl e) \<Rightarrow> (src', st', Inl e)
                   | (st', Inr _) \<Rightarrow> (src', st', Inr end'))))"

section \<open>Reading values\<close>

record data_inputs =
  di_uid :: "string option"
  di_key :: "key option"
  di_metadata :: "bool option"
  di_children :: "nat option"
  di_count :: "nat option"
  di_after :: "int option"
  di_before :: "int option"
  di_include :: "key list option"
  di_sampling :: "sampling option"
  di_keys :: "bool option"

datatype 'v data_output =
    OutKeys "(key \<times> bool) list"
  | OutData "int option" "'v get_result"

definition handleDataGet :: "data_options \<Rightarrow> 'v external \<Rightarrow> int \<Rightarrow> data_inputs \<Rightarrow> 'v storage \<Rightarrow>
    'v storage \<times> 'v data_output option outcome" where
  "handleDataGet opts external now inp s =
     (case di_uid inp of
        None \<Rightarrow> (s, Inl PreconditionFailed)
      | Some uid \<Rightarrow>
          let keys = (di_keys inp = Some True);
              key = (case di_key inp of None \<Rightarrow> [] | Some k \<Rightarrow> k);
              children = (case di_children inp of None \<Rightarrow> 0 | Some n \<Rightarrow> n);
              metadata = (di_metadata inp = Some True)
          in if keys \<and> (di_metadata inp \<noteq> None \<or> di_count inp \<noteq> None \<or> di_after inp \<noteq> None \<or> di_before inp \<noteq> None \<or>
                 di_include inp \<noteq> None \<or> di_sampling inp \<noteq> None)
             then (s, Inl PreconditionFailed)
             else if keys then (s, Inr (map_option OutKeys (getChildren uid key children True s)))
             else (case data_get opts external now uid
                          \<lparr>g_key = key, g_metadata = metadata, g_children = children, g_count = di_count inp,
                           g_after = di_after inp, g_before = di_before inp, g_include = di_include inp,
                           g_sampling = (case di_sampling inp of None \<Rightarrow> SamplingRound | Some m \<Rightarrow> m)\<rparr> s of
                     (s', Inl e) \<Rightarrow> (s', Inl e)
                   | (s', Inr GetEmpty) \<Rightarrow> (s', Inr None)
                   | (s', Inr r) \<Rightarrow> (s', Inr (Some (OutData (if metadata then Some now else None) r)))))"

end
