(* ===== verification/NodesPlugin_Props.thy ===== *)
theory NodesPlugin_Props
  imports NodesPlugin Records_Log
begin

text \<open>
  What is posted is there again after a restart, and databases get every record once before the plugin stops.
\<close>

section \<open>The records of a request determine what it did\<close>

definition hist_options :: "fragment_option \<Rightarrow> bool" where
  "hist_options os = (''history'' \<in> fst ` set os \<and> (\<forall>(name, v)\<in>set os. name = ''history'' \<longrightarrow> v = JNum 10))"

definition default_history :: "hfragment list \<Rightarrow> bool" where
  "default_history fs = (\<forall>f\<in>set fs. hist_options (snd (snd f)))"

fun is_history :: "handler \<Rightarrow> bool" where
  "is_history (HHistory v) = True"
| "is_history h = False"

fun no_history :: "htree \<Rightarrow> bool" where
  "no_history (HTree x kids) =
     ((case x of None \<Rightarrow> True | Some hs \<Rightarrow> list_all (\<lambda>h. \<not> is_history h) hs) \<and> list_all no_history (map snd kids))"

lemma no_history_configured:
  "no_history t \<Longrightarrow> e \<in> set (configured done t key) \<Longrightarrow> list_all (\<lambda>h. \<not> is_history h) (snd e)"
proof (induction "done" t key rule: configured.induct)
  case (2 "done" x kids segment key)
  show ?case
  proof (cases "map_of kids segment")
    case (Some kid)
    obtain y kids' where kid: "kid = HTree y kids'" by (cases kid)
    have "no_history kid" using 2(2) map_of_SomeD [OF Some] by (auto simp: list_all_iff)
    then show ?thesis using 2(3) "2.IH" [OF Some kid] by (auto simp: Some kid split: option.splits)
  qed (use 2(3) in simp)
qed simp

lemma hist_options_update:
  "hist_options os \<Longrightarrow> name \<noteq> ''history'' \<Longrightarrow> hist_options (AList.update name v os)"
proof -
  assume os: "hist_options os" and name: "name \<noteq> ''history''"
  have "w = JNum 10" if "(''history'', w) \<in> set (AList.update name v os)" for w
    using set_update_subset [of name v os] that os name by (auto simp: hist_options_def)
  then show ?thesis using os by (auto simp: hist_options_def dom_update)
qed

lemma hist_options_merge:
  "\<forall>(name, v)\<in>set initial. name = ''history'' \<longrightarrow> v = JNum 10 \<Longrightarrow> hist_options os \<Longrightarrow>
     hist_options (fold (\<lambda>(name, v). AList.update name v) os initial)"
proof -
  have "\<forall>(name, v)\<in>set initial. name = ''history'' \<longrightarrow> v = JNum 10 \<Longrightarrow>
      \<forall>(name, v)\<in>set os. name = ''history'' \<longrightarrow> v = JNum 10 \<Longrightarrow>
      (\<forall>(name, v)\<in>set (fold (\<lambda>(name, v). AList.update name v) os initial). name = ''history'' \<longrightarrow> v = JNum 10) \<and>
      fst ` set (fold (\<lambda>(name, v). AList.update name v) os initial) = fst ` set os \<union> fst ` set initial" for os initial
  proof (induction os arbitrary: initial)
    case (Cons o' os)
    obtain name v where o': "o' = (name, v)" by (cases o')
    have "\<forall>(n, w)\<in>set (AList.update name v initial). n = ''history'' \<longrightarrow> w = JNum 10"
      using Cons.prems subsetD [OF set_update_subset [of name v initial]] by (auto simp: o')
    from Cons.IH [OF this] Cons.prems show ?case by (auto simp: o' dom_update)
  qed simp
  from this [of initial os] show "\<forall>(name, v)\<in>set initial. name = ''history'' \<longrightarrow> v = JNum 10 \<Longrightarrow> hist_options os \<Longrightarrow>
     hist_options (fold (\<lambda>(name, v). AList.update name v) os initial)" by (auto simp: hist_options_def)
qed

lemma default_history_append: "default_history (fs @ fs') \<longleftrightarrow> default_history fs \<and> default_history fs'"
  by (auto simp: default_history_def)

lemma default_history_range:
  assumes "default_history fs" "default_history (f (range_of root index fs))"
  shows "default_history (range_update f root index fs)"
  using assms by (auto simp: default_history_def range_update_def dest!: in_set_takeD in_set_dropD set_dropWhileD)

lemma default_history_part: "default_history fs \<Longrightarrow> set fs' \<subseteq> set fs \<Longrightarrow> default_history fs'"
  by (auto simp: default_history_def)

lemma range_of_subset: "set (range_of root index fs) \<subseteq> set fs"
  by (auto simp: range_of_def dest: set_takeWhileD in_set_dropD)

lemma default_history_set_option:
  "default_history fs \<Longrightarrow> name \<noteq> ''history'' \<Longrightarrow> default_history (map (set_option name v) fs)"
  by (auto simp: default_history_def Handlers.set_option_def intro!: hist_options_update)

lemma visit_unit_history: "default_history fs \<Longrightarrow> default_history (visit_unit news vis fs)"
proof -
  assume fs: "default_history fs"
  have "default_history (fs[i := set_option ''unit'' v (fs ! i)])" for i v
  proof (cases "i < length fs")
    case True
    then have "hist_options (snd (snd (set_option ''unit'' v (fs ! i))))"
      using bspec [OF fs [unfolded default_history_def] nth_mem [OF True]]
      by (auto simp: Handlers.set_option_def split: prod.splits intro!: hist_options_update)
    then show ?thesis
      using fs by (auto simp: default_history_def dest!: subsetD [OF set_update_subset_insert])
  qed (use fs in \<open>simp add: list_update_beyond\<close>)
  then show ?thesis using fs by (simp add: visit_unit_def split: prod.splits option.splits)
qed

definition groups_history :: "(string \<times> text_group) list \<Rightarrow> bool" where
  "groups_history groups = (\<forall>(entry, vs, os)\<in>set groups. hist_options os)"

lemma group_fragment_history:
  assumes "groups_history groups" "hist_options (snd (snd f))"
  shows "groups_history (group_fragment root f groups)"
proof (cases "relative_key root f = []")
  case False
  define entry where "entry = keyToInternal (butlast (relative_key root f))"
  obtain vs os where g: "(case map_of groups entry of None \<Rightarrow> ([], []) | Some g \<Rightarrow> g) = (vs, os)"
    by (cases "case map_of groups entry of None \<Rightarrow> ([], []) | Some g \<Rightarrow> g")
  have "\<forall>(name, v)\<in>set os. name = ''history'' \<longrightarrow> v = JNum 10"
    using g assms(1) by (fastforce simp: groups_history_def hist_options_def dest: map_of_SomeD split: option.splits)
  from hist_options_merge [OF this assms(2)] show ?thesis
    using False assms(1) subsetD [OF set_update_subset]
    by (fastforce simp: group_fragment_def Let_def entry_def [symmetric] g groups_history_def)
qed (use assms(1) in \<open>simp add: group_fragment_def\<close>)

lemma text_groups_history: "default_history fs \<Longrightarrow> groups_history (text_groups root fs)"
proof -
  assume fs: "default_history fs"
  have "default_history fs \<Longrightarrow> groups_history groups \<Longrightarrow> groups_history (fold (group_fragment root) fs groups)" for groups
    by (induction fs arbitrary: groups) (simp_all add: default_history_def group_fragment_history)
  from this [OF fs, of "[]"] show ?thesis by (simp add: text_groups_def groups_history_def)
qed

lemma add_texts_history:
  "add_texts root pattern groups fs = Inr fs' \<Longrightarrow> groups_history groups \<Longrightarrow> default_history fs \<Longrightarrow> default_history fs'"
proof (induction root pattern groups fs rule: add_texts.induct)
  case (2 root pattern internal vs options groups fs)
  then obtain t where t: "format_pattern pattern vs = Inr t" by (auto split: sum.splits)
  have "default_history (range_add root (internalToKey internal) (JStr t) options fs)"
    using 2(3,4) by (simp add: range_add_def sort_fragments_def default_history_def groups_history_def)
  then show ?case using 2(1) [OF t] 2(2,3) by (simp add: t groups_history_def)
qed simp

lemma handler_process_history:
  assumes "handler_process h root index seen fs = (seen', Inr fs')" "\<not> is_history h" "default_history fs"
  shows "default_history fs'"
proof -
  have setting: "default_history (range_update (map (Handlers.set_option name v)) root index fs)" if "name \<noteq> ''history''" for name v
  proof (rule default_history_range [OF assms(3)])
    show "default_history (map (Handlers.set_option name v) (range_of root index fs))"
      by (rule default_history_set_option [OF default_history_part [OF assms(3) range_of_subset] that])
  qed
  show ?thesis
  proof (cases h)
    case (HValidation schema)
    have "default_history (fold (visit_unit news) visits fs)" for news visits
      using assms(3) by (induction visits arbitrary: fs) (simp_all add: visit_unit_history)
    then show ?thesis
      using assms(1) by (auto simp: handler_process_def HValidation validation_process_def split: prod.splits sum.splits)
  next
    case (HToString pattern)
    let ?range = "range_of root index fs"
    have range: "default_history ?range" by (rule default_history_part [OF assms(3) range_of_subset])
    have "default_history (range_update (filter (\<lambda>f. relative_key root f = [])) root index fs)"
      by (rule default_history_range [OF assms(3) default_history_part [OF range]]) auto
    with text_groups_history [OF range] show ?thesis
      using assms(1) by (auto simp: handler_process_def HToString toString_process_def intro: add_texts_history)
  next
    case (HExpires v)
    then show ?thesis using assms(1) setting by (auto simp: handler_process_def)
  next
    case (HUnit v)
    then show ?thesis using assms(1) setting by (auto simp: handler_process_def)
  qed (use assms(2) in simp)
qed

lemma handlers_process_history:
  "handlers_process hs root index seen fs = (seen', Inr fs') \<Longrightarrow> list_all (\<lambda>h. \<not> is_history h) hs \<Longrightarrow>
     default_history fs \<Longrightarrow> default_history fs'"
proof (induction hs arbitrary: seen fs)
  case (Cons h hs)
  obtain s r where st: "handler_process h root index seen fs = (s, r)" by (cases "handler_process h root index seen fs")
  show ?case
  proof (cases r)
    case (Inr fs1)
    then have "default_history fs1" using handler_process_history [OF st [unfolded Inr]] Cons.prems by simp
    then show ?thesis using Cons.IH [of s fs1] Cons.prems st Inr by simp
  qed (use st Cons.prems in simp)
qed simp

definition processing_history :: "processing \<Rightarrow> bool" where
  "processing_history p = (case snd p of Inl e \<Rightarrow> True | Inr fs \<Rightarrow> default_history fs)"

lemma process_root_history:
  "processing_history p \<Longrightarrow> list_all (\<lambda>h. \<not> is_history h) (snd e) \<Longrightarrow> processing_history (process_root index e p)"
  by (auto simp: process_root_def processing_history_def split: prod.splits sum.splits dest: handlers_process_history)

lemma process_index_history:
  assumes "no_history t" "default_history fs"
  shows "processing_history (process_index t index seen fs)"
proof -
  have "processing_history p \<Longrightarrow> \<forall>e\<in>set es. list_all (\<lambda>h. \<not> is_history h) (snd e) \<Longrightarrow>
      processing_history (fold (process_root index) es p)" for es p
    by (induction es arbitrary: p) (simp_all add: process_root_history)
  then show ?thesis
    using no_history_configured [OF assms(1)] assms(2) by (simp add: process_index_def processing_history_def)
qed

lemma process_loop_history:
  "no_history t \<Longrightarrow> default_history fs \<Longrightarrow> processing_history (process_loop t index seen fs)"
proof (induction t index seen fs rule: process_loop.induct)
  case (1 t index seen fs)
  obtain s r where st: "process_index t index seen fs = (s, r)" by (cases "process_index t index seen fs")
  have "processing_history (s, r)" using process_index_history [OF 1(2,3), of index seen] st by simp
  show ?case
  proof (cases "index < length fs")
    case True
    show ?thesis
    proof (cases r)
      case (Inr fs')
      then have "default_history fs'" using \<open>processing_history (s, r)\<close> by (simp add: processing_history_def)
      from 1(1) [OF True st [symmetric] Inr 1(2) this]
      have "processing_history (process_loop t (Suc index) s fs')" .
      then show ?thesis by (subst process_loop.simps) (simp add: True st Inr)
    qed (subst process_loop.simps, simp add: True st processing_history_def)
  qed (subst process_loop.simps, use 1(3) in \<open>simp add: processing_history_def\<close>)
qed

lemma handlers_run_history:
  assumes "handlers_run fragments h = (h', Inr fs)" "no_history (h_tree h)" "h_default h = [(''history'', JNum 10)]"
    and "\<forall>f\<in>set fragments. ''history'' \<notin> fst ` set (snd (snd f))"
  shows "default_history fs" "h_tree h' = h_tree h" "h_default h' = h_default h"
proof -
  let ?fs = "map (with_defaults (h_default h)) (sort_fragments fragments)"
  have "hist_options (AList.update ''history'' (JNum 10) os)" if "''history'' \<notin> fst ` set os" for os
    using that subsetD [OF set_update_subset [of "''history''" "JNum 10" os]] by (force simp: hist_options_def dom_update)
  then have "default_history ?fs"
    using assms(3,4) by (auto simp: default_history_def with_defaults_def sort_fragments_def)
  from process_loop_history [OF assms(2) this, of 0 "h_seen h"] show "default_history fs"
    using assms(1) by (auto simp: handlers_run_def processing_history_def split: prod.splits)
  show "h_tree h' = h_tree h" "h_default h' = h_default h"
    using assms(1) by (auto simp: handlers_run_def split: prod.splits)
qed

lemma kept_options_read: "hist_options os \<Longrightarrow> read_options (kept_options os) = read_options os"
proof -
  assume "hist_options os"
  then have os: "map_of os ''history'' = Some (JNum 10)"
    by (cases "map_of os ''history''") (auto simp: hist_options_def map_of_eq_None_iff dest!: map_of_SomeD)
  have kept: "map_of (kept_options os) ''history'' = None"
    "map_of (kept_options os) ''unit'' = (case map_of os ''unit'' of None \<Rightarrow> None | Some v \<Rightarrow> if v = JUndefined then None else Some v)"
    "map_of (kept_options os) ''expires'' = (case map_of os ''expires'' of None \<Rightarrow> None | Some v \<Rightarrow> if v = JUndefined then None else Some v)"
    by (simp_all add: kept_options_def split: option.split)
  have undef: "\<not> truthy JUndefined" by (simp add: truthy_def)
  show ?thesis
    unfolding read_options_def kept os
    by (cases "map_of os ''unit''"; cases "map_of os ''expires''") (simp_all add: undef)
qed

lemma nodes_insert_record:
  assumes "nodes_insert opts uid key v exp unit' timestamp isFixed n = (n', Inr records)"
    and "no_history (h_tree (n_handlers n))" "h_default (n_handlers n) = [(''history'', JNum 10)]"
  shows "n_data n' = insertFromRecord opts records (n_data n)" "\<forall>r\<in>set records. is_flag (snd (snd (snd r)))"
    "h_tree (n_handlers n') = h_tree (n_handlers n)" "h_default (n_handlers n') = h_default (n_handlers n)"
proof -
  let ?fragments = "getAllPathAndValues v key (insert_options exp unit')"
  obtain h fs where run: "handlers_run ?fragments (n_handlers n) = (h, Inr fs)"
    using assms(1) by (auto simp: nodes_insert_def split: prod.splits sum.splits)
  have n': "n' = n\<lparr>n_handlers := h, n_data := fst (data_insert opts uid (map read_fragment fs) timestamp (n_data n))\<rparr>"
    and records: "records = map (\<lambda>(key, v, options). (uid, (key, v, kept_options options), timestamp, JBool isFixed)) fs"
    using assms(1) by (simp_all add: nodes_insert_def run)
  have "\<forall>f\<in>set ?fragments. ''history'' \<notin> fst ` set (snd (snd f))"
    by (auto simp: getAllPathAndValues_def insert_options_def)
  note h = handlers_run_history [OF run assms(2,3) this]
  have "fold (insert_fragment opts uid timestamp) (map read_fragment fs) s = insertFromRecord opts records s" for s
    unfolding records using h(1)
  proof (induction fs arbitrary: s)
    case (Cons f fs)
    have "read_options (kept_options (snd (snd f))) = read_options (snd (snd f))"
      using Cons.prems by (simp add: default_history_def kept_options_read)
    then show ?case
      using Cons by (cases f) (simp add: insertFromRecord_def data_insert_def read_fragment_def default_history_def)
  qed (simp add: insertFromRecord_def)
  then show "n_data n' = insertFromRecord opts records (n_data n)" by (simp add: n' data_insert_def)
  show "\<forall>r\<in>set records. is_flag (snd (snd (snd r)))" by (auto simp: records is_flag_def)
  show "h_tree (n_handlers n') = h_tree (n_handlers n)" "h_default (n_handlers n') = h_default (n_handlers n)"
    using h(2,3) by (simp_all add: n')
qed

lemma run_insertions_records:
  "run_insertions opts clock isFixed client i plan records n = (n', Inr records') \<Longrightarrow>
     no_history (h_tree (n_handlers n)) \<Longrightarrow> h_default (n_handlers n) = [(''history'', JNum 10)] \<Longrightarrow>
     (\<exists>news. records' = records @ news \<and> n_data n' = insertFromRecord opts news (n_data n) \<and>
        (\<forall>r\<in>set news. is_flag (snd (snd (snd r))))) \<and>
     h_tree (n_handlers n') = h_tree (n_handlers n) \<and> h_default (n_handlers n') = h_default (n_handlers n)"
proof (induction opts clock isFixed client i plan records n rule: run_insertions.induct)
  case (1 opts clock isFixed client i records n)
  then show ?case by (simp add: insertFromRecord_def)
next
  case (3 opts clock isFixed client i uid key v exp unit' t plan records n)
  obtain n1 news where ins: "nodes_insert opts uid key v exp unit' (insertion_time clock isFixed client i t) isFixed n = (n1, Inr news)"
    using 3(2) by (auto split: prod.splits sum.splits)
  note one = nodes_insert_record [OF ins 3(3,4)]
  have "run_insertions opts clock isFixed client (Suc i) plan (records @ news) n1 = (n', Inr records')"
    using 3(2) by (simp add: ins)
  from 3(1) [OF ins [symmetric] refl this] one 3(3,4) obtain news' where
    "records' = (records @ news) @ news'" "n_data n' = insertFromRecord opts news' (n_data n1)"
    "\<forall>r\<in>set news'. is_flag (snd (snd (snd r)))"
    "h_tree (n_handlers n') = h_tree (n_handlers n)" "h_default (n_handlers n') = h_default (n_handlers n)" by auto
  then show ?case using one by (auto simp: insertFromRecord_append intro!: exI [of _ "news @ news'"])
qed simp

section \<open>Restart\<close>

type_synonym post_request = "(nat \<Rightarrow> int) \<times> string \<times> bool \<times> json"

text \<open>Requests that succeed, one after the other, with the records of each.\<close>

fun run_posts :: "data_options \<Rightarrow> post_request list \<Rightarrow> nodes_state \<Rightarrow> (nodes_state \<times> node_record list list) option" where
  "run_posts opts [] n = Some (n, [])"
| "run_posts opts ((clock, path, bulk, data) # posts) n =
     (case post_insert opts clock path bulk data n of
        (n', Inl e) \<Rightarrow> None
      | (n', Inr records) \<Rightarrow> map_option (\<lambda>(n'', rss). (n'', records # rss)) (run_posts opts posts n'))"

definition good_records :: "node_record list \<Rightarrow> bool" where
  "good_records records = ((\<forall>r\<in>set records. good_fragment (fst (snd r))) \<and> distinct (map record_at records))"

lemma record_at_key: "distinct (map record_at records) \<Longrightarrow> distinct (map record_key records)"
proof (induction records)
  case (Cons r records)
  have "record_at r = record_at r'" if "record_key r = record_key r'" for r'
    using that by (cases r; cases r') (simp add: record_at_def record_key_def)
  then have "record_key r \<notin> record_key ` set records" using Cons.prems by fastforce
  then show ?case using Cons by simp
qed simp

lemma post_insert_records:
  assumes "post_insert opts clock path bulk data n = (n', Inr records)"
    and "no_history (h_tree (n_handlers n))" "h_default (n_handlers n) = [(''history'', JNum 10)]"
  shows "n_data n' = insertFromRecord opts records (n_data n)" "\<forall>r\<in>set records. is_flag (snd (snd (snd r)))"
    "h_tree (n_handlers n') = h_tree (n_handlers n)" "h_default (n_handlers n') = h_default (n_handlers n)"
proof -
  obtain parts plan isFixed client where
    "run_insertions opts clock isFixed client 0 plan [] n = (n', Inr records)"
    using assms(1) by (auto simp: post_insert_def split: sum.splits prod.splits)
  note r = run_insertions_records [OF this assms(2,3)]
  then show "n_data n' = insertFromRecord opts records (n_data n)" "\<forall>r\<in>set records. is_flag (snd (snd (snd r)))"
    "h_tree (n_handlers n') = h_tree (n_handlers n)" "h_default (n_handlers n') = h_default (n_handlers n)" by auto
qed

lemma replay_payload_entries:
  assumes "good_records records" "\<forall>r\<in>set records. is_flag (snd (snd (snd r)))"
    and "storage_ok s" "storage_ok s'" "Data.entry_of s' = Data.entry_of s"
  shows "\<exists>s''. replay_payload opts (recordToDisk records) s' = Inr s'' \<and> storage_ok s'' \<and>
    Data.entry_of s'' = Data.entry_of (insertFromRecord opts records s)"
proof -
  have dist: "distinct (map record_at records)" using assms(1) by (simp add: good_records_def)
  then have "distinct (map record_key records)" by (rule record_at_key)
  moreover have "\<forall>r\<in>set records. good_fragment (fst (snd r)) \<and> is_flag (snd (snd (snd r)))"
    using assms(1,2) by (simp add: good_records_def)
  ultimately obtain records' where disk: "recordFromDisk (recordToDisk records) = Inr records'" "mset records' = mset records"
    using disk_records by blast
  have "Data.entry_of (insertFromRecord opts records' s') uid i = Data.entry_of (insertFromRecord opts records s) uid i" for uid i
    using insertFromRecord_entry [OF assms(3)] insertFromRecord_entry [OF assms(4)] assms(5)
      filter_single [OF dist disk(2) [symmetric], of "(uid, i)"] by simp
  then have "Data.entry_of (insertFromRecord opts records' s') = Data.entry_of (insertFromRecord opts records s)"
    by (intro ext)
  moreover have "storage_ok (insertFromRecord opts records' s')" using insertFromRecord_entry [OF assms(4)] by simp
  moreover have "replay_payload opts (recordToDisk records) s' = Inr (insertFromRecord opts records' s')"
    by (simp add: replay_payload_def disk(1))
  ultimately show ?thesis by blast
qed

text \<open>
  C23. Nothing is lost at a restart. After requests that succeeded, replaying the payloads that they wrote gives every
  entry of every node as the requests left it: values, timestamps, expiry and unit. This is for configurations
  without handlers that set a history (replayed records have the default one), requests that set a key of a node at
  most once (records of a payload are replayed in another order), and keys that can be read back (\<open>good_fragment\<close>): of
  less than 32 segments, none of them \<open>_\<close> or the name of a property that every object inherits.
\<close>

theorem replay_restores:
  assumes "no_history (h_tree (n_handlers n))" and "h_default (n_handlers n) = [(''history'', JNum 10)]"
    and "storage_ok (n_data n)" and "storage_ok s" and "Data.entry_of s = Data.entry_of (n_data n)"
    and "run_posts opts posts n = Some (n', rss)" and "list_all good_records rss"
  shows "\<exists>s'. replay opts (map recordToDisk rss) s = Inr s' \<and> Data.entry_of s' = Data.entry_of (n_data n')"
  using assms
proof (induction opts posts n arbitrary: s rss rule: run_posts.induct)
  case (2 opts clock path bulk data posts n)
  obtain n1 records where ins: "post_insert opts clock path bulk data n = (n1, Inr records)"
    using 2(7) by (auto split: prod.splits sum.splits)
  then obtain rss' where rest: "run_posts opts posts n1 = Some (n', rss')" and rss: "rss = records # rss'"
    using 2(7) by auto
  note one = post_insert_records [OF ins 2(2,3)]
  have good: "good_records records" "list_all good_records rss'" using 2(8) by (simp_all add: rss)
  obtain s1 where s1: "replay_payload opts (recordToDisk records) s = Inr s1" "storage_ok s1"
    "Data.entry_of s1 = Data.entry_of (n_data n1)"
    using replay_payload_entries [OF good(1) one(2) 2(4,5,6)] one(1) by auto
  have "storage_ok (n_data n1)" using insertFromRecord_entry [OF 2(4)] one(1) by simp
  from 2(1) [OF ins [symmetric] refl _ _ this s1(2,3) rest good(2)] 2(2,3) one(3,4)
  show ?case by (simp add: rss s1(1))
qed simp

definition example_nodes :: nodes_state where
  "example_nodes = (case new_nodes [(''/t'', [(''unit'', JStr ''C'')])] of Inr n \<Rightarrow> n)"

definition example_posts :: "post_request list" where
  "example_posts =
     [(\<lambda>i. 100 + int i, ''/n/t'', False, JNum 1),
      (\<lambda>i. 200 + int i, [], True,
        JObj [(''timestamp'', JNum 5),
              (''data'', JObj [(''n'', JArr [JArr [JArr [JStr ''t''], JArr [JArr [JNum 3, JNum 7]]],
                                          JArr [JArr [JStr ''u''], JArr [JArr [JNum 4, JStr ''x'', JNum 60]]]])])])]"

definition example_run :: "nodes_state \<times> node_record list list" where
  "example_run = (case run_posts no_callbacks example_posts example_nodes of Some r \<Rightarrow> r)"

theorem replay_restores_witness:
  "snd example_run =
     [[(''n'', ([''t''], JNum 1, [(''unit'', JStr ''C'')]), 101, JBool False)],
      [(''n'', ([''t''], JNum 7, [(''unit'', JStr ''C'')]), 199, JBool False),
       (''n'', ([''u''], JStr ''x'', [(''expires'', JNum 60)]), 201, JBool False)]] \<and>
   (\<exists>s'. replay no_callbacks (map recordToDisk (snd example_run)) [] = Inr s' \<and>
     Data.entry_of s' = Data.entry_of (n_data (fst example_run)))"
proof
  show rss: "snd example_run =
     [[(''n'', ([''t''], JNum 1, [(''unit'', JStr ''C'')]), 101, JBool False)],
      [(''n'', ([''t''], JNum 7, [(''unit'', JStr ''C'')]), 199, JBool False),
       (''n'', ([''u''], JStr ''x'', [(''expires'', JNum 60)]), 201, JBool False)]]" by code_simp
  have tree: "no_history (h_tree (n_handlers example_nodes))" by code_simp
  have default: "h_default (n_handlers example_nodes) = [(''history'', JNum 10)]" by code_simp
  have data: "n_data example_nodes = []" by code_simp
  have "(case run_posts no_callbacks example_posts example_nodes of None \<Rightarrow> False | Some r \<Rightarrow> True)" by code_simp
  then have run: "run_posts no_callbacks example_posts example_nodes = Some (fst example_run, snd example_run)"
    by (auto simp: example_run_def split: option.splits)
  have good: "list_all good_records (snd example_run)" unfolding rss by code_simp
  have ok: "storage_ok ([] :: json storage)" by (simp add: storage_ok_def)
  show "\<exists>s'. replay no_callbacks (map recordToDisk (snd example_run)) [] = Inr s' \<and>
      Data.entry_of s' = Data.entry_of (n_data (fst example_run))"
    by (rule replay_restores [OF tree default _ ok _ run good]) (simp_all add: data ok)
qed

section \<open>Databases\<close>

lemma read_loop_prefix:
  "\<exists>k. fst (read_loop items m) = map (\<lambda>x. fst (snd x)) (take k items) \<and> k \<le> length items \<and>
     fst (snd (read_loop items m)) = (if k = 0 then None else Some (fst (items ! (k - 1)))) \<and>
     (if snd (snd (read_loop items m)) then k = length items else 0 < k)"
proof (induction items m rule: read_loop.induct)
  case (2 tick p size' remote items m)
  show ?case
  proof (cases "m - int size' \<le> 0")
    case True
    then show ?thesis by (intro exI [of _ 1]) simp
  next
    case False
    from 2 [OF False] obtain k where k: "fst (read_loop items (m - int size')) = map (\<lambda>x. fst (snd x)) (take k items)"
      "k \<le> length items"
      "fst (snd (read_loop items (m - int size'))) = (if k = 0 then None else Some (fst (items ! (k - 1))))"
      "if snd (snd (read_loop items (m - int size'))) then k = length items else 0 < k" by blast
    then show ?thesis
      using False by (intro exI [of _ "Suc k"]) (cases k; auto split: prod.splits if_splits)
  qed
qed simp

text \<open>The log has increasing ticks, and is read from a tick on.\<close>

definition log_from :: "disk_record item list \<Rightarrow> nat \<Rightarrow> disk_record item list" where
  "log_from items tick = filter (\<lambda>x. tick \<le> fst x) items"

lemma filter_after:
  assumes "sorted_wrt (\<lambda>x y. fst x < (fst y :: nat)) xs" "xs = pre @ y # post"
  shows "filter (\<lambda>x. Suc (fst y) \<le> fst x) xs = post"
proof -
  have "\<forall>x\<in>set pre. \<not> Suc (fst y) \<le> fst x" "\<forall>x\<in>set post. Suc (fst y) \<le> fst x"
    using assms by (auto simp: sorted_wrt_append)
  then have "filter (\<lambda>x. Suc (fst y) \<le> fst x) pre = []" "filter (\<lambda>x. Suc (fst y) \<le> fst x) post = post"
    unfolding filter_empty_conv filter_id_conv .
  then show ?thesis by (simp add: assms(2))
qed

lemma log_from_next:
  assumes "sorted_wrt (<) (map fst items)" "0 < k" "k \<le> length (log_from items tick)"
  shows "log_from items (Suc (fst (log_from items tick ! (k - 1)))) = drop k (log_from items tick)"
proof -
  let ?last = "log_from items tick ! (k - 1)"
  have sorted: "sorted_wrt (\<lambda>x y. fst x < fst y) (log_from items tick)"
    using assms(1) unfolding log_from_def sorted_wrt_map by (rule sorted_wrt_filter)
  have "?last \<in> set (log_from items tick)" using assms(2,3) by (intro nth_mem) linarith
  then have "tick \<le> fst ?last" by (simp add: log_from_def)
  then have "log_from items (Suc (fst ?last)) = filter (\<lambda>x. Suc (fst ?last) \<le> fst x) (log_from items tick)"
    unfolding log_from_def filter_filter by (intro filter_cong) auto
  moreover have "k - 1 < length (log_from items tick)" "Suc (k - 1) = k" using assms(2,3) by linarith+
  then have "log_from items tick = take (k - 1) (log_from items tick) @ ?last # drop k (log_from items tick)"
    using id_take_nth_drop [of "k - 1" "log_from items tick"] by simp
  from filter_after [OF sorted this]
  have "filter (\<lambda>x. Suc (fst ?last) \<le> fst x) (log_from items tick) = drop k (log_from items tick)" .
  ultimately show ?thesis by (rule trans)
qed

definition item_records :: "disk_record item \<Rightarrow> node_record list" where
  "item_records item = (case recordFromDisk (fst (snd item)) of Inl e \<Rightarrow> [] | Inr rs \<Rightarrow> rs)"

text \<open>A reader that yields the items of a log.\<close>

lemma remainings_of_log:
  assumes reader: "\<And>t. records_read lt ropts files t = Some (log_from items t)"
    and sorted: "sorted_wrt (<) (map fst items)"
    and readable: "\<forall>item\<in>set items. \<exists>rs. recordFromDisk (fst (snd item)) = Inr rs"
    and delivers: "\<forall>rs. deliver rs = Inr ()"
  shows "\<exists>tick'. write_remainings lt ropts files maxSize' deliver tick =
      Some (tick', Inr (concat (map item_records (log_from items tick)))) \<and> log_from items tick' = []"
proof (induction "length (log_from items tick)" arbitrary: tick rule: less_induct)
  case less
  let ?xs = "log_from items tick"
  obtain k where k: "fst (read_loop ?xs maxSize') = map (\<lambda>x. fst (snd x)) (take k ?xs)" "k \<le> length ?xs"
    "fst (snd (read_loop ?xs maxSize')) = (if k = 0 then None else Some (fst (?xs ! (k - 1))))"
    "if snd (snd (read_loop ?xs maxSize')) then k = length ?xs else 0 < k"
    using read_loop_prefix [of ?xs maxSize'] by blast
  define tick1 where "tick1 = (if k = 0 then tick else Suc (fst (?xs ! (k - 1))))"
  have rest: "log_from items tick1 = drop k ?xs"
    using log_from_next [OF sorted _ k(2)] by (simp add: tick1_def)
  have read: "plugin_read ?xs tick maxSize' =
      (map (\<lambda>x. fst (snd x)) (take k ?xs), tick1, snd (snd (read_loop ?xs maxSize')))"
    using k(1,3) by (cases "read_loop ?xs maxSize'") (auto simp: plugin_read_def tick1_def)
  have "recordFromDisk (fst (snd item)) = Inr (item_records item)" if "item \<in> set (take k ?xs)" for item
    using readable in_set_takeD [OF that] by (auto simp: item_records_def log_from_def)
  then have decode: "outcome_map recordFromDisk (map (\<lambda>x. fst (snd x)) (take k ?xs)) = Inr (map item_records (take k ?xs))"
    unfolding outcome_map_map by (rule outcome_map_Inr)
  have step: "db_processNext lt ropts files maxSize' deliver tick =
      Some (tick1, Inr (concat (map item_records (take k ?xs)), snd (snd (read_loop ?xs maxSize'))))"
    using delivers by (simp add: db_processNext_def reader deliver_items_def read decode)
  show ?case
  proof (cases "snd (snd (read_loop ?xs maxSize'))")
    case True
    then show ?thesis using k(4) rest by (subst write_remainings.simps) (simp add: step)
  next
    case False
    then have "0 < k" using k(4) by simp
    then have "length (log_from items tick1) < length ?xs" using rest k(2) by simp
    from less(1) [OF this] obtain tick' where "write_remainings lt ropts files maxSize' deliver tick1 =
        Some (tick', Inr (concat (map item_records (log_from items tick1))))" "log_from items tick' = []" by blast
    moreover have "concat (map item_records (take k ?xs)) @ concat (map item_records (drop k ?xs)) = concat (map item_records ?xs)"
      unfolding concat_append [symmetric] map_append [symmetric] append_take_drop_id ..
    ultimately show ?thesis using False rest by (subst write_remainings.simps) (simp add: step)
  qed
qed

declare merge_read.simps [simp del]

lemma merge_read_one: "merge_read lt [xs] = xs"
proof (induction xs)
  case (Cons x xs)
  have "merge_read lt [x # xs] = x # merge_read lt [xs]"
    by (subst merge_read.simps) (simp add: min_index_def Let_def)
  then show ?case by (simp add: Cons)
qed (subst merge_read.simps, simp)

text \<open>
  C24. What remains is written when the plugin stops. After any writes to the log, of one storage, the loop ends, and
  the database was given the records that a reader finds in the files from its tick on, of which only oldest ones may
  be missing (the writer removes files), each once and in order, whatever the limit of a read. Its tick is then behind
  the last one. This is for payloads that can be read back and fit into a file, a database that does not fail, and no
  writes meanwhile.
\<close>

theorem remainings_delivered:
  assumes "header_length records_version \<le> maxSize ropts - recordMaxSize ropts" and "recordMaxSize ropts < maxSize ropts"
    and "\<forall>x\<in>set (stamped ropts 0 ps). header_length records_version + itemLength ropts x \<le> recordMaxSize ropts"
    and "ps \<noteq> []"
    and "\<forall>p\<in>set ps. \<exists>rs. recordFromDisk (fst p) = Inr rs" and "\<forall>rs. deliver rs = Inr ()"
  shows "\<exists>m < length ps. \<exists>tick'.
    write_remainings lt ropts [r_files (write_all ropts 0 ps new_storage)] limit deliver tick =
      Some (tick', Inr (concat (map item_records (filter (\<lambda>x. tick \<le> fst x) (drop m (stamped ropts 0 ps)))))) \<and>
    records_read lt ropts [r_files (write_all ropts 0 ps new_storage)] tick' = Some []"
proof -
  obtain m rs where m: "m < length ps" "log_ok ropts (r_files (write_all ropts 0 ps new_storage)) rs"
    "files_ok (r_files (write_all ropts 0 ps new_storage)) rs"
    "log_items (r_files (write_all ropts 0 ps new_storage)) rs = drop m (stamped ropts 0 ps)"
    using written_log [OF assms(1,4)] by blast
  let ?files = "r_files (write_all ropts 0 ps new_storage)" and ?items = "drop m (stamped ropts 0 ps)"
  have reader: "records_read lt ropts [?files] t = Some (log_from ?items t)" for t
    using read_storage_result [OF m(2,3), of "[]" t] m(4) by (simp add: records_read_def merge_read_one log_from_def)
  have sorted: "sorted_wrt (<) (map fst ?items)" using log_sorted [OF m(2)] m(4) by simp
  have "\<exists>rs. recordFromDisk (fst (snd item)) = Inr rs" if "item \<in> set ?items" for item
  proof -
    have "fst (snd item) \<in> fst ` set ps" using in_set_dropD [OF that] stamped_payloads by fastforce
    then show ?thesis using assms(5) by auto
  qed
  then show ?thesis
    using remainings_of_log [OF reader sorted _ assms(6), of limit tick] m(1) by (simp add: reader log_from_def) blast
qed

definition example_payloads :: "(disk_record \<times> nat option) list" where
  "example_payloads =
     [(recordToDisk [(''n'', ([''a''], JNum 1, []), 5, JBool False)], None),
      (recordToDisk [(''n'', ([''a''], JNum 2, []), 6, JBool True)], None),
      (recordToDisk [(''m'', ([''b''], JNum 3, []), 7, JBool False)], Some 4)]"

definition example_options :: "disk_record r_options" where
  "example_options = \<lparr>recordMaxSize = 100, maxSize = 1000, serializedLength = (\<lambda>p. 30), itemLength = (\<lambda>x. 40),
     itemBytes = (\<lambda>x. 40), gzBytes = (\<lambda>c. 10)\<rparr>"

theorem remainings_delivered_witness:
  "\<exists>m < 3. \<exists>tick'. write_remainings (\<lambda>p q. False) example_options
      [r_files (write_all example_options 0 example_payloads new_storage)] 30 (\<lambda>rs. Inr ()) 2 =
     Some (tick', Inr (concat (map item_records (filter (\<lambda>x. 2 \<le> fst x) (drop m (stamped example_options 0 example_payloads)))))) \<and>
     records_read (\<lambda>p q. False) example_options [r_files (write_all example_options 0 example_payloads new_storage)] tick' = Some []"
proof -
  have "list_all (\<lambda>p. case recordFromDisk (fst p) of Inl e \<Rightarrow> False | Inr rs \<Rightarrow> True) example_payloads" by code_simp
  then have readable: "\<forall>p\<in>set example_payloads. \<exists>rs. recordFromDisk (fst p) = Inr rs"
    unfolding list_all_iff by (metis (no_types, lifting) sum.case(1) sum.exhaust)
  have three: "length example_payloads = 3" by (simp add: example_payloads_def)
  show ?thesis
    unfolding three [symmetric]
    by (rule remainings_delivered [OF _ _ _ _ readable])
      (auto simp: example_options_def example_payloads_def header_length_def records_version_def nat_to_string.simps)
qed

section \<open>What does not work\<close>

text \<open>
  Several storages: they are merged by their payloads, so that a read that stops at its limit goes on behind a tick
  that it has not reached in the other storage. The payload with the tick 1 is never read.
\<close>

lemma storages_lose_records:
  assumes "lt q p" and "\<not> lt p q"
  shows "plugin_read (merge_read lt [[(1, p, 9, None)], [(2, q, 9, None)]]) 0 5 = ([q], 3, False)"
proof -
  let ?its = "[[(1, p, 9, None)], [(2, q, 9, None)]]"
  have "min_index lt ?its = 1" using assms(1) by (simp add: min_index_def)
  then have "merge_read lt ?its = (2, q, 9, None) # merge_read lt [[(1, p, 9, None)], []]"
    by (subst merge_read.simps) (simp add: Let_def)
  then show ?thesis by (simp add: plugin_read_def)
qed

text \<open>A history that is configured holds for what is inserted; replayed records have the default one.\<close>

definition history_nodes :: nodes_state where
  "history_nodes = (case new_nodes [(''/t'', [(''history'', JNum 1)])] of Inr n \<Rightarrow> n)"

definition history_run :: "nodes_state \<times> node_record list list" where
  "history_run = (case run_posts no_callbacks
     [(\<lambda>i. 100 + int i, ''/n/t'', False, JNum 1), (\<lambda>i. 200 + int i, ''/n/t'', False, JNum 2)] history_nodes of Some r \<Rightarrow> r)"

lemma history_not_replayed:
  "map_option d_values (Data.entry_of (n_data (fst history_run)) ''n'' ''t'') = Some [(201, JNum 2)]"
  "map_option d_values (Data.entry_of (case replay no_callbacks (map recordToDisk (snd history_run)) [] of Inr s \<Rightarrow> s) ''n'' ''t'') =
     Some [(201, JNum 2), (101, JNum 1)]"
  by code_simp+

text \<open>A request that fails at its second value: the first one is there, but it is never written.\<close>

lemma failed_post_not_written:
  "(case post_insert no_callbacks (\<lambda>i. 100 + int i) [] True
      (JObj [(''data'', JObj [(''n'', JArr [JArr [JArr [JStr ''t''], JArr [JArr [JNum 3, JNum 7], JArr [JStr ''x'']]]])])])
      example_nodes of
    (n, r) \<Rightarrow> (map_option d_values (Data.entry_of (n_data n) ''n'' ''t''), r)) =
   (Some [(3, JNum 7)], Inl PreconditionFailed)"
  by code_simp

text \<open>The clocks differ by 10, the timestamp is not fixed; it is not corrected, and the flag is.\<close>

definition example_answer :: source_answer where
  "example_answer =
     \<lparr>sa_version = 4, sa_timestamp = 50, sa_records = [recordToDisk [(''n'', ([''t''], JNum 1, []), 40, JBool False)]],
      sa_next = 7, sa_end = True\<rparr>"

lemma source_time_not_corrected:
  "fetchRecords 60 example_answer = Inr ([[(''n'', ([''t''], JNum 1, []), 40, JNum 10)]], 7, True)"
  by code_simp

text \<open>The tick is set before the records are written: when a write fails, they are not asked for again.\<close>

lemma source_tick_before_write:
  "(case source_process no_callbacks ropts 60 (\<lambda>tick. Inr example_answer) \<lparr>so_name = ''s'', so_persistent = True, so_next = 6\<rparr>
      \<lparr>pl_nodes = example_nodes, pl_records = \<lparr>r_storages = [], r_ticks = 0\<rparr>\<rparr> of
    (src, st, r) \<Rightarrow> (so_next src, r)) = (7, Inl AssertFailed)"
proof -
  have fetch: "fetchRecords 60 example_answer = Inr ([[(''n'', ([''t''], JNum 1, []), 40, JNum 10)]], 7, True)"
    by (rule source_time_not_corrected)
  show ?thesis by (simp add: source_process_def source_tick_def fetch records_write_def Let_def)
qed

end
