(* ===== verification/JobExecutor.thy ===== *)
theory JobExecutor
  imports Format
begin

text \<open>
  \<open>apps/job_executor/backend\<close>: jobs with their information on disk, the executors that run them as commands, and the
  scheduler that looks once a second which of them to start.

  Every request, every round of the scheduler, every event of a process and every timer is one step; the \<open>await\<close>s
  inside of one wait only for the locks of the executors and for files. The information of a job is a plain object;
  its text on disk is its content. The files of a job other than its information and its log are in a storage and not
  looked at. A process is known by what it outputs and the status it ends with.
\<close>

section \<open>Arguments\<close>

text \<open>\<open>args.js\<close>: the names of the placeholders of a text, and their replacement by one value.\<close>

function placeholder_names :: "string \<Rightarrow> string list" where
  "placeholder_names [] = []"
| "placeholder_names (c # s) =
     (case (if c = CHR ''{'' then match_placeholder s else None) of
        None \<Rightarrow> placeholder_names s
      | Some (name, metadata, rest) \<Rightarrow> name # placeholder_names rest)"
  by pat_completeness auto
termination
  by (relation "measure length") (auto split: if_splits dest: match_placeholder_shorter)

function replace_placeholders :: "string \<Rightarrow> json \<Rightarrow> string \<Rightarrow> string outcome" where
  "replace_placeholders dependency v [] = Inr []"
| "replace_placeholders dependency v (c # s) =
     (case (if c = CHR ''{'' then match_placeholder s else None) of
        None \<Rightarrow> outcome_bind (replace_placeholders dependency v s) (\<lambda>r. Inr (c # r))
      | Some (name, metadata, rest) \<Rightarrow>
          if name \<noteq> dependency then Inl AssertFailed
          else outcome_bind (replace_placeholders dependency v rest) (\<lambda>r. Inr (to_property_key v @ r)))"
  by pat_completeness auto
termination
  by (relation "measure (\<lambda>(dependency, v, s). length s)") (auto split: if_splits dest: match_placeholder_shorter)

definition getDependency :: "json list \<Rightarrow> string list" where
  "getDependency pattern =
     remdups (concat (map (\<lambda>item. case item of JStr s \<Rightarrow> placeholder_names s | _ \<Rightarrow> []) pattern))"

definition dependency_values :: "(string \<times> json) list \<Rightarrow> string \<Rightarrow> json list" where
  "dependency_values data dependency =
     (case js_get (JObj data) dependency of JUndefined \<Rightarrow> [] | JNull \<Rightarrow> [] | JArr vs \<Rightarrow> vs | v \<Rightarrow> [v])"

lemma outcome_map_cong [fundef_cong]:
  "xs = ys \<Longrightarrow> (\<And>x. x \<in> set ys \<Longrightarrow> f x = g x) \<Longrightarrow> outcome_map f xs = outcome_map g ys"
proof (induction ys arbitrary: xs)
  case (Cons y ys)
  then show ?case by (simp add: Cons.IH [of ys])
qed simp

lemma item_smaller: "item \<in> set items \<Longrightarrow> size item < size (JArr items)"
  by (induction items) (auto simp: less_Suc_eq_le)

function args_process :: "(string \<times> json) list \<Rightarrow> json \<Rightarrow> string list outcome" where
  "args_process data pattern =
     (case pattern of
        JArr items \<Rightarrow>
          (case getDependency items of
             [] \<Rightarrow> Inr []
           | [dependency] \<Rightarrow>
               outcome_bind (outcome_map (\<lambda>v.
                   outcome_bind (outcome_map (\<lambda>item.
                       case item of
                         JArr sub \<Rightarrow> args_process data item
                       | JStr s \<Rightarrow> outcome_bind (replace_placeholders dependency v s) (\<lambda>t. Inr [t])
                       | _ \<Rightarrow> Inl AssertFailed) items)
                     (\<lambda>tss. Inr (concat tss))) (dependency_values data dependency))
                 (\<lambda>tss. Inr (concat tss))
           | _ \<Rightarrow> Inl AssertFailed)
      | _ \<Rightarrow> Inl AssertFailed)"
  by pat_completeness auto
termination
  by (relation "measure (\<lambda>(data, pattern). size pattern)") (auto dest!: item_smaller)

declare args_process.simps [simp del]

section \<open>Commands\<close>

text \<open>\<open>vue/components/terminal/backend/{base,local/command}.js\<close>.\<close>

type_synonym entries = "(string \<times> json) list"

definition object_assign :: "entries \<Rightarrow> entries \<Rightarrow> entries" where
  "object_assign target source = fold (\<lambda>(name, v). AList.update name v) source target"

datatype status = Idle | Running | Failed | Completed | Cancelled | Terminated

fun status_text :: "status \<Rightarrow> string" where
  "status_text Idle = ''idle''"
| "status_text Running = ''running''"
| "status_text Failed = ''failed''"
| "status_text Completed = ''completed''"
| "status_text Cancelled = ''cancelled''"
| "status_text Terminated = ''terminated''"

record command =
  cm_status :: status
  cm_start :: "int option"
  cm_stop :: "int option"
  cm_onTerminate :: "entries option"
  cm_result :: bool
  cm_output :: "string list"

definition new_command :: command where
  "new_command =
     \<lparr>cm_status = Idle, cm_start = None, cm_stop = None, cm_onTerminate = None, cm_result = False, cm_output = []\<rparr>"

text \<open>What is kept of the output: the last pieces within the limit.\<close>

definition maxOutputSize :: nat where
  "maxOutputSize = 10000"

fun shift_output :: "nat \<Rightarrow> string list \<Rightarrow> string list" where
  "shift_output limit [] = []"
| "shift_output limit (d # ds) =
     (if length (concat (d # ds)) > limit then shift_output limit ds else d # ds)"

definition push_output :: "string \<Rightarrow> string list \<Rightarrow> string list" where
  "push_output data output = shift_output maxOutputSize (output @ [data])"

text \<open>
  \<open>setStatus\<close> before the callback of the end, which is called for the last three statuses, before the status is set.
\<close>

definition is_end :: "status \<Rightarrow> bool" where
  "is_end st = (st \<in> {Completed, Failed, Cancelled})"

definition status_times :: "int \<Rightarrow> status \<Rightarrow> command \<Rightarrow> command" where
  "status_times now st c =
     (if st = Running then c\<lparr>cm_start := Some now\<rparr> else if is_end st then c\<lparr>cm_stop := Some now\<rparr> else c)"

definition optional_time :: "int option \<Rightarrow> json" where
  "optional_time t = (case t of None \<Rightarrow> JNull | Some n \<Rightarrow> JNum n)"

definition command_getInfo :: "command \<Rightarrow> entries" where
  "command_getInfo c =
     [(''status'', JStr (status_text (cm_status c))), (''timestampStart'', optional_time (cm_start c)),
      (''timestampStop'', optional_time (cm_stop c))]"

definition command_kill :: "command \<Rightarrow> command" where
  "command_kill c = c\<lparr>cm_result := False\<rparr>"

section \<open>Executors\<close>

datatype executor_class = Readonly | Shell | Bazel | Docker

definition class_of_type :: "json \<Rightarrow> executor_class option" where
  "class_of_type ty =
     (if ty = JStr ''readonly'' then Some Readonly else if ty = JStr ''shell'' then Some Shell
      else if ty = JStr ''bazel'' then Some Bazel else if ty = JStr ''docker'' then Some Docker else None)"

fun type_of_class :: "executor_class \<Rightarrow> string" where
  "type_of_class Readonly = ''readonly''"
| "type_of_class Shell = ''shell''"
| "type_of_class Bazel = ''bazel''"
| "type_of_class Docker = ''docker''"

text \<open>\<open>visitorArgs\<close>: of the values of an input, and of the arguments after they were made.\<close>

definition sandbox_path :: "json \<Rightarrow> json outcome" where
  "sandbox_path file =
     (case file of JNull \<Rightarrow> Inl TypeErr | JUndefined \<Rightarrow> Inl TypeErr
      | v \<Rightarrow> Inr (JStr (''/sandbox/'' @ to_property_key (js_get v ''file''))))"

definition visit_input :: "executor_class \<Rightarrow> string \<Rightarrow> json \<Rightarrow> json outcome" where
  "visit_input cls ty v =
     (if cls \<noteq> Readonly \<and> ty = ''File''
      then (case v of JArr args \<Rightarrow> outcome_bind (outcome_map sandbox_path args) (\<lambda>vs. Inr (JArr vs)) | _ \<Rightarrow> Inl TypeErr)
      else Inr v)"

definition visit_post :: "executor_class \<Rightarrow> json \<Rightarrow> json list \<Rightarrow> json list" where
  "visit_post cls schema args =
     (case cls of
        Readonly \<Rightarrow> args
      | Shell \<Rightarrow> js_get schema ''command'' # args
      | Bazel \<Rightarrow> js_get schema ''executable'' # args
      | Docker \<Rightarrow> js_get schema ''image'' # args)"

text \<open>What is given to \<open>detach\<close>.\<close>

definition detach_args :: "executor_class \<Rightarrow> string \<Rightarrow> json list \<Rightarrow> json list outcome" where
  "detach_args cls root args =
     (case cls of
        Readonly \<Rightarrow> Inl TypeErr
      | Shell \<Rightarrow> Inr ([JStr ''--cwd'', JStr root, JStr ''--''] @ args)
      | Bazel \<Rightarrow> if args = [] then Inl PreconditionFailed else Inr args
      | Docker \<Rightarrow> Inr ([JStr ''-v'', JStr (root @ '':/sandbox''), JStr ''--workdir'', JStr ''/sandbox''] @ args))"


section \<open>The context of a job\<close>

text \<open>\<open>context.js\<close>: the information in memory, the file it is written to, and the log.\<close>

record context_job =
  cj_info :: "entries option"
  cj_file :: "entries option"
  cj_log :: string

definition new_context_job :: context_job where
  "new_context_job = \<lparr>cj_info = None, cj_file = None, cj_log = []\<rparr>"

definition cj_getInfo :: "context_job \<Rightarrow> context_job \<times> entries" where
  "cj_getInfo cj =
     (case cj_info cj of
        Some info \<Rightarrow> (cj, info)
      | None \<Rightarrow> let info = (case cj_file cj of None \<Rightarrow> [] | Some f \<Rightarrow> f) in (cj\<lparr>cj_info := Some info\<rparr>, info))"

definition cj_updateInfo :: "entries \<Rightarrow> context_job \<Rightarrow> context_job \<times> entries" where
  "cj_updateInfo info cj =
     (case cj_getInfo cj of
        (cj1, previousInfo) \<Rightarrow>
          let updatedInfo = object_assign previousInfo info
          in (if updatedInfo = previousInfo then cj1 else cj1\<lparr>cj_info := Some updatedInfo, cj_file := Some updatedInfo\<rparr>, updatedInfo))"

text \<open>The lines of a log, as they are read again, each with a line end.\<close>

definition cj_getLogs :: "context_job \<Rightarrow> string list" where
  "cj_getLogs cj = (if cj_log cj = [] then [] else map (\<lambda>line. line @ [CHR 0x0A]) (split_on CHR 0x0A (cj_log cj)))"

definition cj_capture :: "string \<Rightarrow> context_job \<Rightarrow> context_job" where
  "cj_capture data cj = cj\<lparr>cj_log := cj_log cj @ data\<rparr>"

section \<open>The state\<close>

record executor =
  je_class :: executor_class
  je_command :: command
  je_info :: entries
  je_output :: "string list"

text \<open>
  The timers of the scheduler: the one of a periodic job, and the one before a job is reset; with the information the
  job had when it was started and the status with which it ended.
\<close>

datatype job_timer =
    PeriodTimer nat entries status
  | RestartTimer nat entries status

record jobs_state =
  js_root :: string
  js_jobs :: "(nat \<times> context_job) list"
  js_uid :: nat
  js_executors :: "(nat \<times> executor) list"
  js_timers :: "job_timer list"

definition put_executor :: "nat \<Rightarrow> executor \<Rightarrow> jobs_state \<Rightarrow> jobs_state" where
  "put_executor uid x s = s\<lparr>js_executors := AList.update uid x (js_executors s)\<rparr>"

definition put_job :: "nat \<Rightarrow> context_job \<Rightarrow> jobs_state \<Rightarrow> jobs_state" where
  "put_job uid cj s = s\<lparr>js_jobs := AList.update uid cj (js_jobs s)\<rparr>"

definition getExecutor :: "nat \<Rightarrow> jobs_state \<Rightarrow> executor outcome" where
  "getExecutor uid s = (case map_of (js_executors s) uid of None \<Rightarrow> Inl PreconditionFailed | Some x \<Rightarrow> Inr x)"

definition root_path :: "nat \<Rightarrow> jobs_state \<Rightarrow> string" where
  "root_path uid s = js_root s @ ''/job-'' @ nat_to_string uid @ ''/sandbox''"

section \<open>Operations of an executor\<close>

text \<open>\<open>executor/executor.js\<close>. The output of the log is triggered again whenever an executor is initialized.\<close>

definition executor_push :: "string \<Rightarrow> executor \<Rightarrow> executor" where
  "executor_push data x = x\<lparr>je_output := push_output data (je_output x)\<rparr>"

definition executor_initialize :: "nat \<Rightarrow> jobs_state \<Rightarrow> executor \<Rightarrow> executor" where
  "executor_initialize uid s x =
     (case map_of (js_jobs s) uid of None \<Rightarrow> x | Some cj \<Rightarrow> fold executor_push (cj_getLogs cj) x)"

definition new_executor :: "executor_class \<Rightarrow> executor" where
  "new_executor cls =
     \<lparr>je_class = cls, je_command = new_command, je_info = [(''type'', JStr (type_of_class cls))], je_output = []\<rparr>"

definition executor_updateInfo :: "nat \<Rightarrow> entries \<Rightarrow> executor \<Rightarrow> jobs_state \<Rightarrow> jobs_state \<times> executor" where
  "executor_updateInfo uid info x s =
     (let info' = object_assign (je_info x) info
      in case map_of (js_jobs s) uid of
           None \<Rightarrow> (s, x\<lparr>je_info := info'\<rparr>)
         | Some cj \<Rightarrow> (case cj_updateInfo info' cj of (cj', info'') \<Rightarrow> (put_job uid cj' s, x\<lparr>je_info := info''\<rparr>)))"

text \<open>The information of the typed executor; a read-only one reports what was stored, and nothing as running.\<close>

definition typed_getInfo :: "nat \<Rightarrow> executor \<Rightarrow> jobs_state \<Rightarrow> entries" where
  "typed_getInfo uid x s =
     (if je_class x = Readonly
      then (let info = (case map_of (js_jobs s) uid of None \<Rightarrow> [] | Some cj \<Rightarrow> snd (cj_getInfo cj))
            in if js_get (JObj info) ''status'' = JStr (status_text Running)
               then AList.update ''status'' (JStr (status_text Terminated)) info else info)
      else command_getInfo (je_command x))"

definition executor_getInfo :: "nat \<Rightarrow> executor \<Rightarrow> jobs_state \<Rightarrow> jobs_state \<times> executor" where
  "executor_getInfo uid x s = executor_updateInfo uid (typed_getInfo uid x s) x s"

definition update_info :: "nat \<Rightarrow> entries \<Rightarrow> jobs_state \<Rightarrow> jobs_state \<times> entries outcome" where
  "update_info uid info s =
     (case getExecutor uid s of
        Inl e \<Rightarrow> (s, Inl e)
      | Inr x \<Rightarrow> (case executor_updateInfo uid info x s of (s', x') \<Rightarrow> (put_executor uid x' s', Inr (je_info x'))))"

definition get_info :: "nat \<Rightarrow> jobs_state \<Rightarrow> jobs_state \<times> entries outcome" where
  "get_info uid s =
     (case getExecutor uid s of
        Inl e \<Rightarrow> (s, Inl e)
      | Inr x \<Rightarrow> (case executor_getInfo uid x s of (s', x') \<Rightarrow> (put_executor uid x' s', Inr (je_info x'))))"

definition info_status :: "entries \<Rightarrow> json" where
  "info_status info = js_get (JObj info) ''status''"

definition executor_reset :: "nat \<Rightarrow> jobs_state \<Rightarrow> jobs_state \<times> unit outcome" where
  "executor_reset uid s =
     (case get_info uid s of
        (s1, Inl e) \<Rightarrow> (s1, Inl e)
      | (s1, Inr info) \<Rightarrow>
          (case (class_of_type (js_get (JObj info) ''type''), map_of (js_executors s1) uid) of
             (Some cls, Some x) \<Rightarrow>
               if map_of (js_jobs s1) uid = None \<or> info_status info = JStr (status_text Running)
               then (s1, Inl PreconditionFailed)
               else (put_executor uid (executor_initialize uid s1 (x\<lparr>je_class := cls, je_command := new_command\<rparr>)) s1, Inr ())
           | _ \<Rightarrow> (s1, Inl PreconditionFailed)))"

text \<open>\<open>execute\<close>: a process is started; \<open>kill\<close>: it is asked to end, if there is one.\<close>

definition executor_execute :: "int \<Rightarrow> nat \<Rightarrow> json \<Rightarrow> entries \<Rightarrow> executor \<Rightarrow> jobs_state \<Rightarrow> jobs_state \<times> unit outcome" where
  "executor_execute now uid args onTerminate x s =
     (case (je_class x, args) of
        (Readonly, _) \<Rightarrow> (s, Inl TypeErr)
      | (cls, JArr as) \<Rightarrow>
          (let c = (je_command x)\<lparr>cm_onTerminate := Some onTerminate\<rparr>
           in case detach_args cls (root_path uid s) as of
                Inl e \<Rightarrow> (put_executor uid (x\<lparr>je_command := c\<rparr>) s, Inl e)
              | Inr as' \<Rightarrow> (put_executor uid (x\<lparr>je_command := (status_times now Running c)\<lparr>cm_status := Running, cm_result := True\<rparr>\<rparr>) s, Inr ()))
      | _ \<Rightarrow> (s, Inl TypeErr))"

definition executor_kill :: "executor \<Rightarrow> executor" where
  "executor_kill x = (if je_class x = Readonly then x else x\<lparr>je_command := command_kill (je_command x)\<rparr>)"


section \<open>The scheduler\<close>

text \<open>\<open>scheduler/scheduler.js\<close>: what happens when a job ends.\<close>

definition add_timer :: "job_timer \<Rightarrow> jobs_state \<Rightarrow> jobs_state" where
  "add_timer t s = s\<lparr>js_timers := js_timers s @ [t]\<rparr>"

definition waiting_message :: string where
  "waiting_message = [CHR 0x0A] @ ''Waiting 10s before restarting...'' @ [CHR 0x0A]"

definition reschedule :: "bool \<Rightarrow> nat \<Rightarrow> entries \<Rightarrow> status \<Rightarrow> executor \<Rightarrow> jobs_state \<Rightarrow> jobs_state \<times> executor" where
  "reschedule isFailure uid info st x s =
     (add_timer (RestartTimer uid info st) s, if isFailure then executor_push waiting_message x else x)"

definition on_terminate :: "nat \<Rightarrow> entries \<Rightarrow> status \<Rightarrow> executor \<Rightarrow> jobs_state \<Rightarrow> jobs_state \<times> executor outcome" where
  "on_terminate uid info st x s =
     (let scheduler = js_get (JObj info) ''scheduler'';
          restart = js_get scheduler ''restart''
      in if js_get scheduler ''type'' = JStr ''periodically''
         then (if truthy restart then (s, Inl AssertFailed) else (add_timer (PeriodTimer uid info st) s, Inr x))
         else if restart = JStr ''on-failure''
         then (if st = Failed then (case reschedule True uid info st x s of (s', x') \<Rightarrow> (s', Inr x')) else (s, Inr x))
         else if restart = JStr ''always''
         then (case reschedule (st = Failed) uid info st x s of (s', x') \<Rightarrow> (s', Inr x'))
         else if restart = JUndefined then (s, Inr x)
         else (s, Inl Unreachable))"

text \<open>
  An event of the process of a job: it runs, or has ended. When the callback throws, the status stays as it was.
\<close>

definition process_event :: "int \<Rightarrow> nat \<Rightarrow> status \<Rightarrow> jobs_state \<Rightarrow> jobs_state \<times> unit outcome" where
  "process_event now uid st s =
     (case map_of (js_executors s) uid of
        None \<Rightarrow> (s, Inr ())
      | Some x0 \<Rightarrow>
          let x = x0\<lparr>je_command := status_times now st (je_command x0)\<rparr>;
              finish = (\<lambda>x. x\<lparr>je_command := (je_command x)\<lparr>cm_status := st\<rparr>\<rparr>)
          in (case (is_end st, cm_onTerminate (je_command x)) of
                (True, Some info) \<Rightarrow>
                  (case on_terminate uid info st x s of
                     (s', Inl e) \<Rightarrow> (put_executor uid x s', Inl e)
                   | (s', Inr x') \<Rightarrow> (put_executor uid (finish x') s', Inr ()))
              | _ \<Rightarrow> (put_executor uid (finish x) s, Inr ())))"

text \<open>Output of the process: kept by the command and by the executor, and appended to the log.\<close>

definition process_output :: "nat \<Rightarrow> string \<Rightarrow> jobs_state \<Rightarrow> jobs_state" where
  "process_output uid data s =
     (case map_of (js_executors s) uid of
        None \<Rightarrow> s
      | Some x \<Rightarrow>
          let x' = executor_push data (x\<lparr>je_command := (je_command x)\<lparr>cm_output := push_output data (cm_output (je_command x))\<rparr>\<rparr>)
          in put_executor uid x' (case map_of (js_jobs s) uid of None \<Rightarrow> s | Some cj \<Rightarrow> put_job uid (cj_capture data cj) s))"

text \<open>A timer fires. The errors of a reset are only logged.\<close>

definition restart_entries :: "int \<Rightarrow> entries \<Rightarrow> status \<Rightarrow> entries" where
  "restart_entries now info st =
     [(''restart'', JObj
        [(''count'', case js_get (js_get (JObj info) ''restart'') ''count'' of JNum n \<Rightarrow> JNum (n + 1) | _ \<Rightarrow> JNum 1),
         (''lastTimestamp'', JNum now), (''lastStatus'', JStr (status_text st))])]"

fun fire :: "int \<Rightarrow> job_timer \<Rightarrow> jobs_state \<Rightarrow> jobs_state" where
  "fire now (PeriodTimer uid info st) s = add_timer (RestartTimer uid info st) s"
| "fire now (RestartTimer uid info st) s =
     (case executor_reset uid s of
        (s', Inl e) \<Rightarrow> s'
      | (s', Inr _) \<Rightarrow> fst (update_info uid (restart_entries now info st) s'))"

definition fire_timer :: "int \<Rightarrow> nat \<Rightarrow> jobs_state \<Rightarrow> jobs_state" where
  "fire_timer now i s =
     (if i < length (js_timers s)
      then fire now (js_timers s ! i) (s\<lparr>js_timers := take i (js_timers s) @ drop (Suc i) (js_timers s)\<rparr>)
      else s)"

definition isReadyToBeExecuted :: "json \<Rightarrow> (nat \<times> json) list \<Rightarrow> bool outcome" where
  "isReadyToBeExecuted scheduler statuses =
     (let ty = js_get scheduler ''type''
      in if ty = JStr ''queue'' then Inr (\<not> list_ex (\<lambda>(_, st). st = JStr (status_text Running)) statuses)
         else if ty = JStr ''immediately'' then Inr True
         else if ty = JStr ''periodically''
         then (case js_get scheduler ''period'' of JNum _ \<Rightarrow> Inr True | JFrac _ _ \<Rightarrow> Inr True | _ \<Rightarrow> Inl PreconditionFailed)
         else Inl Unreachable)"

definition execute_job :: "int \<Rightarrow> nat \<Rightarrow> jobs_state \<Rightarrow> jobs_state \<times> unit outcome" where
  "execute_job now uid s =
     (case get_info uid s of
        (s1, Inl e) \<Rightarrow> (s1, Inl e)
      | (s1, Inr info) \<Rightarrow>
          if info_status info \<noteq> JStr (status_text Idle) then (s1, Inl (Raised ''Error''))
          else (case (map_of info ''args'', map_of (js_executors s1) uid) of
                  (Some args, Some x) \<Rightarrow> executor_execute now uid args info x s1
                | _ \<Rightarrow> (s1, Inl PreconditionFailed)))"

text \<open>A round: the information of all jobs, then the idle ones that have a scheduler, in the order of their numbers.\<close>

fun round_infos :: "nat list \<Rightarrow> jobs_state \<Rightarrow> jobs_state \<times> (nat \<times> entries) list outcome" where
  "round_infos [] s = (s, Inr [])"
| "round_infos (uid # uids) s =
     (case get_info uid s of
        (s1, Inl e) \<Rightarrow> (s1, Inl e)
      | (s1, Inr info) \<Rightarrow>
          (case round_infos uids s1 of
             (s2, Inl e) \<Rightarrow> (s2, Inl e)
           | (s2, Inr infos) \<Rightarrow> (s2, Inr ((uid, info) # infos))))"

fun round_loop :: "int \<Rightarrow> (nat \<times> entries) list \<Rightarrow> (nat \<times> json) list \<Rightarrow> jobs_state \<Rightarrow>
    jobs_state \<times> (nat \<times> json) list outcome" where
  "round_loop now [] statuses s = (s, Inr statuses)"
| "round_loop now ((uid, info) # infos) statuses s =
     (let scheduler = js_get (JObj info) ''scheduler''
      in if info_status info = JStr (status_text Idle) \<and> truthy scheduler
         then (case isReadyToBeExecuted scheduler statuses of
                 Inl e \<Rightarrow> (s, Inl e)
               | Inr False \<Rightarrow> round_loop now infos statuses s
               | Inr True \<Rightarrow>
                   (case execute_job now uid s of
                      (s', Inl e) \<Rightarrow> (s', Inl e)
                    | (s', Inr _) \<Rightarrow> round_loop now infos (AList.update uid (JStr (status_text Running)) statuses) s'))
         else round_loop now infos statuses s)"

definition monitoring :: "int \<Rightarrow> jobs_state \<Rightarrow> jobs_state \<times> (nat \<times> json) list outcome" where
  "monitoring now s =
     (case round_infos (sort (map fst (js_executors s))) s of
        (s1, Inl e) \<Rightarrow> (s1, Inl e)
      | (s1, Inr infos) \<Rightarrow> round_loop now infos (map (\<lambda>(uid, info). (uid, info_status info)) infos) s1)"

definition schedule_job :: "nat \<Rightarrow> json \<Rightarrow> jobs_state \<Rightarrow> jobs_state \<times> entries outcome" where
  "schedule_job uid scheduler s =
     (case executor_reset uid s of
        (s', Inl e) \<Rightarrow> (s', Inl e)
      | (s', Inr _) \<Rightarrow> update_info uid [(''scheduler'', scheduler)] s')"

definition terminate_job :: "bool \<Rightarrow> nat \<Rightarrow> jobs_state \<Rightarrow> jobs_state \<times> entries outcome" where
  "terminate_job force uid s =
     (case get_info uid s of
        (s1, Inl e) \<Rightarrow> (s1, Inl e)
      | (s1, Inr info) \<Rightarrow>
          if \<not> force \<and> info_status info \<noteq> JStr (status_text Running) then (s1, Inl PreconditionFailed)
          else (case map_of (js_executors s1) uid of
                  None \<Rightarrow> (s1, Inl PreconditionFailed)
                | Some x \<Rightarrow> get_info uid (put_executor uid (executor_kill x) s1)))"


section \<open>Commands\<close>

text \<open>\<open>commands.js\<close> and \<open>Context\<close> of \<open>context.js\<close>.\<close>

function allocate_from :: "nat \<Rightarrow> nat list \<Rightarrow> nat" where
  "allocate_from n used = (if n \<in> set used then allocate_from (Suc n) used else n)"
  by pat_completeness auto
termination
proof (relation "measure (\<lambda>(n, used). card {k \<in> set used. n \<le> k})")
  fix n :: nat and used :: "nat list"
  assume used: "n \<in> set used"
  have "{k \<in> set used. Suc n \<le> k} \<subseteq> {k \<in> set used. n \<le> k}" by auto
  moreover have "n \<in> {k \<in> set used. n \<le> k}" "n \<notin> {k \<in> set used. Suc n \<le> k}" using used by simp_all
  ultimately have "{k \<in> set used. Suc n \<le> k} \<subset> {k \<in> set used. n \<le> k}" by blast
  then show "((Suc n, used), n, used) \<in> measure (\<lambda>(n, used). card {k \<in> set used. n \<le> k})"
    by (simp add: psubset_card_mono)
qed simp

declare allocate_from.simps [simp del]

definition allocate :: "jobs_state \<Rightarrow> jobs_state \<times> nat" where
  "allocate s =
     (let uid = allocate_from (Suc (js_uid s)) (map fst (js_jobs s))
      in (put_job uid new_context_job (s\<lparr>js_uid := uid\<rparr>), uid))"

definition make_executor :: "nat \<Rightarrow> executor \<Rightarrow> jobs_state \<Rightarrow> jobs_state \<times> unit outcome" where
  "make_executor uid x s =
     (if map_of (js_executors s) uid \<noteq> None then (s, Inl AssertFailed) else (put_executor uid x s, Inr ()))"

definition makeDefault :: "nat \<Rightarrow> jobs_state \<Rightarrow> jobs_state \<times> unit outcome" where
  "makeDefault uid s =
     (if map_of (js_jobs s) uid = None then (s, Inl AssertFailed)
      else make_executor uid (executor_initialize uid s (new_executor Readonly)) s)"

definition find_input :: "json \<Rightarrow> string \<Rightarrow> json option outcome" where
  "find_input schema name =
     (case js_get schema ''inputs'' of
        JArr items \<Rightarrow> Inr (List.find (\<lambda>item. js_get item ''name'' = JStr name) items)
      | _ \<Rightarrow> Inl TypeErr)"

definition input_type :: "json \<Rightarrow> string" where
  "input_type item = (case js_get item ''type'' of JStr ty \<Rightarrow> if ty = [] then ''unknown'' else ty | _ \<Rightarrow> ''unknown'')"

definition visit_data :: "executor_class \<Rightarrow> json \<Rightarrow> entries \<Rightarrow> entries outcome" where
  "visit_data cls schema data =
     outcome_map (\<lambda>(key, v).
       outcome_bind (find_input schema key) (\<lambda>item.
         case item of
           None \<Rightarrow> Inr (key, v)
         | Some i \<Rightarrow> outcome_bind (visit_input cls (input_type i) v) (\<lambda>w. Inr (key, w)))) data"

definition make_args :: "json \<Rightarrow> entries \<Rightarrow> json list outcome" where
  "make_args schema data =
     (case class_of_type (js_get schema ''type'') of
        None \<Rightarrow> Inl AssertFailed
      | Some cls \<Rightarrow>
          outcome_bind (visit_data cls schema data) (\<lambda>updated.
            outcome_bind (args_process updated (js_get schema ''args'')) (\<lambda>args.
              Inr (visit_post cls schema (map JStr args)))))"

definition makeFromSchema :: "nat \<Rightarrow> json \<Rightarrow> entries \<Rightarrow> jobs_state \<Rightarrow> jobs_state \<times> unit outcome" where
  "makeFromSchema uid schema data s =
     (case make_args schema data of
        Inl e \<Rightarrow> (s, Inl e)
      | Inr args \<Rightarrow>
          (case makeDefault uid s of
             (s1, Inl e) \<Rightarrow> (s1, Inl e)
           | (s1, Inr _) \<Rightarrow>
               (case update_info uid [(''type'', js_get schema ''type''), (''args'', JArr args), (''data'', JObj data)] s1 of
                  (s2, Inl e) \<Rightarrow> (s2, Inl e)
                | (s2, Inr _) \<Rightarrow> (s2, Inr ()))))"

definition commands_schedule :: "nat \<Rightarrow> json \<Rightarrow> jobs_state \<Rightarrow> jobs_state \<times> entries outcome" where
  "commands_schedule uid scheduler s =
     (case getExecutor uid s of Inl e \<Rightarrow> (s, Inl e) | Inr _ \<Rightarrow> schedule_job uid scheduler s)"

definition destroy_job :: "nat \<Rightarrow> jobs_state \<Rightarrow> jobs_state" where
  "destroy_job uid s = s\<lparr>js_jobs := AList.delete uid (js_jobs s), js_executors := AList.delete uid (js_executors s)\<rparr>"

definition remove_job :: "nat \<Rightarrow> jobs_state \<Rightarrow> jobs_state \<times> unit outcome" where
  "remove_job uid s =
     (if map_of (js_executors s) uid = None then (s, Inr ())
      else (case terminate_job True uid s of
              (s1, Inl e) \<Rightarrow> (s1, Inl e)
            | (s1, Inr _) \<Rightarrow> (destroy_job uid s1, Inr ())))"

definition getAllInfo :: "jobs_state \<Rightarrow> jobs_state \<times> (nat \<times> entries) list outcome" where
  "getAllInfo s = round_infos (sort (map fst (js_executors s))) s"

section \<open>The application\<close>

text \<open>
  \<open>app.js\<close>: a job from its inputs, which may fail to be read. When it cannot be scheduled it is removed.
\<close>

definition undo_job :: "nat \<Rightarrow> jobs_state \<Rightarrow> exn \<Rightarrow> jobs_state \<times> nat outcome" where
  "undo_job uid s e = (case remove_job uid s of (s', Inl e') \<Rightarrow> (s', Inl e') | (s', Inr _) \<Rightarrow> (s', Inl e))"

definition add_job :: "entries \<Rightarrow> entries outcome \<Rightarrow> json \<Rightarrow> jobs_state \<Rightarrow> jobs_state \<times> nat outcome" where
  "add_job jobs getInputs scheduler s =
     (case allocate s of
        (s1, uid) \<Rightarrow>
          (case getInputs of
                Inl e \<Rightarrow> undo_job uid s1 e
              | Inr inputs \<Rightarrow>
                  (case map_of jobs (to_property_key (js_get (JObj inputs) ''type'')) of
                     None \<Rightarrow> undo_job uid s1 PreconditionFailed
                   | Some schema \<Rightarrow>
                       (case makeFromSchema uid schema inputs s1 of
                          (s2, Inl e) \<Rightarrow> undo_job uid s2 e
                        | (s2, Inr _) \<Rightarrow>
                            (case commands_schedule uid scheduler s2 of
                               (s3, Inl e) \<Rightarrow> undo_job uid s3 e
                             | (s3, Inr _) \<Rightarrow> (s3, Inr uid))))))"

definition type_immediately :: json where
  "type_immediately = JObj [(''type'', JStr ''immediately'')]"

definition default_scheduler :: "json \<Rightarrow> json" where
  "default_scheduler scheduler =
     (case scheduler of JUndefined \<Rightarrow> JObj [(''type'', JStr ''queue'')] | JNull \<Rightarrow> JObj [(''type'', JStr ''queue'')] | v \<Rightarrow> v)"

text \<open>The instances of the configuration, each time the application starts; an error ends the start.\<close>

fun run_instances :: "entries \<Rightarrow> json list \<Rightarrow> jobs_state \<Rightarrow> jobs_state \<times> unit outcome" where
  "run_instances jobs [] s = (s, Inr ())"
| "run_instances jobs (instance' # instances) s =
     (if map_of jobs (to_property_key (js_get instance' ''type'')) = None then run_instances jobs instances s
      else (case add_job jobs (Inr (object_assign [(''type'', js_get instance' ''type'')] (own_entries (js_get instance' ''args''))))
                   (default_scheduler (js_get instance' ''scheduler'')) s of
              (s', Inl e) \<Rightarrow> (s', Inl e)
            | (s', Inr _) \<Rightarrow> run_instances jobs instances s'))"

fun make_defaults :: "nat list \<Rightarrow> jobs_state \<Rightarrow> jobs_state" where
  "make_defaults [] s = s"
| "make_defaults (uid # uids) s = make_defaults uids (fst (makeDefault uid s))"

text \<open>The supported types: \<open>docsker\<close> is not a program, so that jobs for docker are ignored.\<close>

definition supported :: "string list" where
  "supported = [''readonly'', ''shell'', ''bazel'']"

definition supported_jobs :: "entries \<Rightarrow> entries" where
  "supported_jobs jobs =
     filter (\<lambda>(name, job). js_get job ''type'' \<in> JStr ` set supported) jobs"

definition start_app :: "entries \<Rightarrow> json list \<Rightarrow> jobs_state \<Rightarrow> jobs_state \<times> unit outcome" where
  "start_app jobs instances s =
     (let uids = map fst (js_jobs s);
          s0 = s\<lparr>js_jobs := map (\<lambda>(uid, cj). (uid, cj\<lparr>cj_info := None\<rparr>)) (js_jobs s), js_uid := fold max uids 0,
            js_executors := [], js_timers := []\<rparr>
      in run_instances (supported_jobs jobs) instances (make_defaults (sort uids) s0))"

text \<open>
  What happens to the application, one after the other. Errors are answers, or end a round. Events of processes are those
  of a job that has one: that it runs, or its end. What is left of the processes after a restart is not looked at, as the
  code does not.
\<close>

definition is_running :: "executor \<Rightarrow> bool" where
  "is_running x = (je_class x \<noteq> Readonly \<and> cm_status (je_command x) = Running)"

definition has_process :: "nat \<Rightarrow> jobs_state \<Rightarrow> bool" where
  "has_process uid s = (case map_of (js_executors s) uid of None \<Rightarrow> False | Some x \<Rightarrow> is_running x)"

datatype job_event =
    Round int
  | Send "entries outcome"
  | Start nat
  | Cancel nat
  | Delete nat
  | Process int nat status
  | Output nat string
  | Timer int nat
  | Jobs
  | Restart "json list"

fun job_step :: "entries \<Rightarrow> job_event \<Rightarrow> jobs_state \<Rightarrow> jobs_state" where
  "job_step jobs (Round now) s = fst (monitoring now s)"
| "job_step jobs (Send inputs) s = fst (add_job (supported_jobs jobs) inputs type_immediately s)"
| "job_step jobs (Start uid) s = fst (commands_schedule uid type_immediately s)"
| "job_step jobs (Cancel uid) s = fst (terminate_job False uid s)"
| "job_step jobs (Delete uid) s = fst (remove_job uid s)"
| "job_step jobs (Process now uid st) s =
     (if has_process uid s \<and> (st = Running \<or> is_end st) then fst (process_event now uid st s) else s)"
| "job_step jobs (Output uid data) s = process_output uid data s"
| "job_step jobs (Timer now i) s = fire_timer now i s"
| "job_step jobs Jobs s = fst (getAllInfo s)"
| "job_step jobs (Restart instances) s = fst (start_app jobs instances s)"

definition no_jobs :: "string \<Rightarrow> jobs_state" where
  "no_jobs root = \<lparr>js_root = root, js_jobs = [], js_uid = 0, js_executors = [], js_timers = []\<rparr>"

definition run_jobs :: "entries \<Rightarrow> job_event list \<Rightarrow> jobs_state \<Rightarrow> jobs_state" where
  "run_jobs jobs events s = fold (job_step jobs) events s"

end
