(* ===== verification/JobExecutor_Props.thy ===== *)
theory JobExecutor_Props
  imports JobExecutor
begin

text \<open>
  At most one job of the queue runs, whatever requests, ends of processes, timers and restarts happen.
\<close>

section \<open>Information is merged\<close>

lemma object_assign_distinct: "distinct (map fst target) \<Longrightarrow> distinct (map fst (object_assign target source))"
  unfolding object_assign_def by (induction source arbitrary: target) (auto simp: distinct_update)

lemma object_assign_map: "map_of (object_assign target source) = map_of target ++ map_of (rev source)"
  unfolding object_assign_def
proof (induction source arbitrary: target)
  case (Cons e source)
  obtain k v where e: "e = (k, v)" by (cases e)
  show ?case unfolding e using Cons.IH [of "AList.update k v target"] by (auto simp: update_conv' map_add_def fun_eq_iff split: option.split)
qed simp

lemma map_of_rev_distinct: "distinct (map fst xs) \<Longrightarrow> map_of (rev xs) = map_of xs"
  by (subst map_of_inject_set) (simp_all add: rev_map [symmetric])

text \<open>The entry of a name after a merge into what a job had.\<close>

lemma object_assign_keeps:
  "distinct (map fst source) \<Longrightarrow> map_of source k = Some v \<Longrightarrow> map_of (object_assign target source) k = Some v"
  by (simp add: object_assign_map map_of_rev_distinct)

section \<open>Well-formed states\<close>

definition entries_ok :: "entries option \<Rightarrow> bool" where
  "entries_ok info = (case info of None \<Rightarrow> True | Some es \<Rightarrow> distinct (map fst es))"

definition context_ok :: "context_job \<Rightarrow> bool" where
  "context_ok cj = (entries_ok (cj_info cj) \<and> entries_ok (cj_file cj))"

definition jobs_wf :: "jobs_state \<Rightarrow> bool" where
  "jobs_wf s =
     (distinct (map fst (js_executors s)) \<and> (\<forall>(uid, x)\<in>set (js_executors s). distinct (map fst (je_info x))) \<and>
      (\<forall>(uid, cj)\<in>set (js_jobs s). context_ok cj))"

text \<open>The scheduler entry of a job that can run, and whether it does.\<close>

definition executor_sched :: "executor \<Rightarrow> json option" where
  "executor_sched x = (if je_class x = Readonly then None else map_of (je_info x) ''scheduler'')"

definition sched :: "jobs_state \<Rightarrow> nat \<Rightarrow> json option" where
  "sched s uid = Option.bind (map_of (js_executors s) uid) executor_sched"

definition class_at :: "jobs_state \<Rightarrow> nat \<Rightarrow> executor_class option" where
  "class_at s uid = map_option je_class (map_of (js_executors s) uid)"

definition runs :: "jobs_state \<Rightarrow> nat \<Rightarrow> bool" where
  "runs s uid = (case map_of (js_executors s) uid of None \<Rightarrow> False | Some x \<Rightarrow> is_running x)"

text \<open>
  What every operation but the start of a job does: no job runs that did not, and those that run keep their scheduler.
\<close>

definition quiet :: "jobs_state \<Rightarrow> jobs_state \<Rightarrow> bool" where
  "quiet s s' = (jobs_wf s' \<and> (\<forall>uid. runs s' uid \<longrightarrow> runs s uid \<and> (\<forall>v. sched s uid = Some v \<longrightarrow> sched s' uid = Some v)))"

lemma quiet_refl: "jobs_wf s \<Longrightarrow> quiet s s"
  by (simp add: quiet_def)

lemma quiet_trans: "quiet s s1 \<Longrightarrow> quiet s1 s2 \<Longrightarrow> quiet s s2"
  by (auto simp: quiet_def)

lemma jobs_wfD:
  assumes "jobs_wf s"
  shows "map_of (js_executors s) uid = Some x \<Longrightarrow> distinct (map fst (je_info x))"
    and "map_of (js_jobs s) uid = Some cj \<Longrightarrow> context_ok cj"
  using assms by (auto simp: jobs_wf_def dest!: map_of_SomeD)

lemma jobs_wf_put_executor: "jobs_wf s \<Longrightarrow> distinct (map fst (je_info x)) \<Longrightarrow> jobs_wf (put_executor uid x s)"
  using subsetD [OF set_update_subset [of uid x "js_executors s"]]
  by (fastforce simp: jobs_wf_def put_executor_def distinct_update)

lemma jobs_wf_put_job: "jobs_wf s \<Longrightarrow> context_ok cj \<Longrightarrow> jobs_wf (put_job uid cj s)"
  using subsetD [OF set_update_subset [of uid cj "js_jobs s"]]
  by (fastforce simp: jobs_wf_def put_job_def)

lemma put_simps [simp]:
  "js_executors (put_job uid cj s) = js_executors s" "js_jobs (put_executor uid x s) = js_jobs s"
  "js_executors (put_executor uid x s) = AList.update uid x (js_executors s)"
  "js_timers (put_job uid cj s) = js_timers s" "js_timers (put_executor uid x s) = js_timers s"
  by (simp_all add: put_job_def put_executor_def)

lemma sched_put [simp]:
  "sched (put_executor uid x s) = (sched s)(uid := executor_sched x)"
  "runs (put_executor uid x s) = (runs s)(uid := is_running x)"
  "class_at (put_executor uid x s) = (class_at s)(uid \<mapsto> je_class x)"
  "sched (put_job uid cj s) = sched s" "runs (put_job uid cj s) = runs s" "class_at (put_job uid cj s) = class_at s"
  by (auto simp: sched_def runs_def class_at_def fun_eq_iff update_conv')

section \<open>Information of one job\<close>

lemma cj_getInfo_ok: "context_ok cj \<Longrightarrow> context_ok (fst (cj_getInfo cj)) \<and> distinct (map fst (snd (cj_getInfo cj)))"
  by (auto simp: cj_getInfo_def context_ok_def entries_ok_def Let_def split: option.splits)

lemma cj_updateInfo_ok:
  assumes "context_ok cj" "distinct (map fst info)" "cj_updateInfo info cj = (cj', info')"
  shows "context_ok cj'" "distinct (map fst info')" "\<And>k v. map_of info k = Some v \<Longrightarrow> map_of info' k = Some v"
proof -
  obtain cj1 previous where get: "cj_getInfo cj = (cj1, previous)" by (cases "cj_getInfo cj")
  have ok: "context_ok cj1" "distinct (map fst previous)" using cj_getInfo_ok [OF assms(1)] get by simp_all
  have info': "info' = object_assign previous info" using assms(3) by (auto simp: cj_updateInfo_def get Let_def)
  show "distinct (map fst info')" unfolding info' by (rule object_assign_distinct [OF ok(2)])
  then show "context_ok cj'"
    using assms(3) ok(1) by (auto simp: cj_updateInfo_def get Let_def context_ok_def entries_ok_def info' split: if_splits)
  show "\<And>k v. map_of info k = Some v \<Longrightarrow> map_of info' k = Some v"
    unfolding info' by (rule object_assign_keeps [OF assms(2)])
qed

lemma executor_updateInfo_ok:
  assumes "jobs_wf s" "distinct (map fst (je_info x))" "executor_updateInfo uid info x s = (s', x')"
  shows "jobs_wf s'" "distinct (map fst (je_info x'))" "js_executors s' = js_executors s"
    "je_class x' = je_class x" "je_command x' = je_command x"
    "\<And>k v. map_of (object_assign (je_info x) info) k = Some v \<Longrightarrow> map_of (je_info x') k = Some v"
proof -
  have merged: "distinct (map fst (object_assign (je_info x) info))" by (rule object_assign_distinct [OF assms(2)])
  have "jobs_wf s' \<and> distinct (map fst (je_info x')) \<and> js_executors s' = js_executors s \<and> je_class x' = je_class x \<and>
      je_command x' = je_command x \<and>
      (\<forall>k v. map_of (object_assign (je_info x) info) k = Some v \<longrightarrow> map_of (je_info x') k = Some v)"
  proof (cases "map_of (js_jobs s) uid")
    case None
    then show ?thesis using assms merged by (auto simp: executor_updateInfo_def)
  next
    case (Some cj)
    obtain cj' info' where upd: "cj_updateInfo (object_assign (je_info x) info) cj = (cj', info')"
      by (cases "cj_updateInfo (object_assign (je_info x) info) cj")
    note ok = cj_updateInfo_ok [OF jobs_wfD(2) [OF assms(1) Some] merged upd]
    then show ?thesis
      using assms(1,3) jobs_wf_put_job [OF assms(1) ok(1), of uid]
      by (auto simp: executor_updateInfo_def Some upd)
  qed
  then show "jobs_wf s'" "distinct (map fst (je_info x'))" "js_executors s' = js_executors s"
    "je_class x' = je_class x" "je_command x' = je_command x"
    "\<And>k v. map_of (object_assign (je_info x) info) k = Some v \<Longrightarrow> map_of (je_info x') k = Some v" by auto
qed

lemma state_views:
  "js_executors s' = js_executors s \<Longrightarrow> sched s' = sched s" "js_executors s' = js_executors s \<Longrightarrow> runs s' = runs s"
  "js_executors s' = js_executors s \<Longrightarrow> class_at s' = class_at s"
  by (simp_all add: sched_def runs_def class_at_def fun_eq_iff)

lemma runs_status:
  assumes "is_running x"
  shows "map_of (object_assign target (typed_getInfo uid x s)) ''status'' = Some (JStr (status_text Running))"
  using assms by (simp add: is_running_def typed_getInfo_def command_getInfo_def object_assign_map)

lemma sched_kept:
  assumes "executor_sched x = Some v"
  shows "map_of (object_assign (je_info x) (typed_getInfo uid x s)) ''scheduler'' = Some v"
  using assms
  by (simp add: executor_sched_def typed_getInfo_def command_getInfo_def object_assign_map split: if_splits)

lemma get_info_ok:
  assumes "jobs_wf s" "get_info uid s = (s', r)"
  shows "jobs_wf s'" "\<And>u v. sched s u = Some v \<Longrightarrow> sched s' u = Some v" "runs s' = runs s" "class_at s' = class_at s"
    "\<And>info. r = Inr info \<Longrightarrow> (\<exists>x. map_of (js_executors s') uid = Some x \<and> je_info x = info) \<and>
       (runs s uid \<longrightarrow> info_status info = JStr (status_text Running))"
proof -
  have "jobs_wf s' \<and> (\<forall>u v. sched s u = Some v \<longrightarrow> sched s' u = Some v) \<and> runs s' = runs s \<and> class_at s' = class_at s \<and>
      (\<forall>info. r = Inr info \<longrightarrow> (\<exists>x. map_of (js_executors s') uid = Some x \<and> je_info x = info) \<and>
       (runs s uid \<longrightarrow> info_status info = JStr (status_text Running)))"
  proof (cases "map_of (js_executors s) uid")
    case None
    then show ?thesis using assms by (auto simp: get_info_def getExecutor_def)
  next
    case (Some x)
    obtain s1 x1 where upd: "executor_updateInfo uid (typed_getInfo uid x s) x s = (s1, x1)"
      by (cases "executor_updateInfo uid (typed_getInfo uid x s) x s")
    note ok = executor_updateInfo_ok [OF assms(1) jobs_wfD(1) [OF assms(1) Some] upd]
    have s': "s' = put_executor uid x1 s1" "r = Inr (je_info x1)"
      using assms(2) by (auto simp: get_info_def getExecutor_def executor_getInfo_def Some upd)
    note same = state_views [OF ok(3)]
    have at: "sched s uid = executor_sched x" "runs s uid = is_running x" "class_at s uid = Some (je_class x)"
      by (simp_all add: sched_def runs_def class_at_def Some)
    have run: "is_running x1 = is_running x" using ok(4,5) by (simp add: is_running_def)
    have "executor_sched x1 = Some v" if "executor_sched x = Some v" for v
      using ok(6) [OF sched_kept [OF that]] that ok(4) by (simp add: executor_sched_def split: if_splits)
    moreover have "info_status (je_info x1) = JStr (status_text Running)" if "is_running x"
      using ok(6) [OF runs_status [OF that]] by (simp add: info_status_def js_get_def own_entries_def)
    moreover have "jobs_wf s'" unfolding s' by (rule jobs_wf_put_executor [OF ok(1,2)])
    moreover have "runs s' = runs s" "class_at s' = class_at s"
      using at by (simp_all add: s' same run ok(4) fun_upd_idem)
    ultimately show ?thesis using at by (auto simp: s' same)
  qed
  then show "jobs_wf s'" "\<And>u v. sched s u = Some v \<Longrightarrow> sched s' u = Some v" "runs s' = runs s" "class_at s' = class_at s"
    "\<And>info. r = Inr info \<Longrightarrow> (\<exists>x. map_of (js_executors s') uid = Some x \<and> je_info x = info) \<and>
       (runs s uid \<longrightarrow> info_status info = JStr (status_text Running))" by blast+
qed

lemma get_info_quiet: "jobs_wf s \<Longrightarrow> get_info uid s = (s', r) \<Longrightarrow> quiet s s'"
  using get_info_ok [of s uid s' r] by (simp add: quiet_def)

section \<open>What does not start a job\<close>

lemma quiet_put_executor:
  assumes "jobs_wf s" "distinct (map fst (je_info x))"
    and "is_running x \<Longrightarrow> runs s uid" "\<And>v. is_running x \<Longrightarrow> sched s uid = Some v \<Longrightarrow> executor_sched x = Some v"
  shows "quiet s (put_executor uid x s)"
  using assms jobs_wf_put_executor [OF assms(1,2)] by (simp add: quiet_def)

lemma quiet_views:
  "jobs_wf s' \<Longrightarrow> js_executors s' = js_executors s \<Longrightarrow> quiet s s'"
  using state_views [of s' s] by (simp add: quiet_def)

lemma update_info_quiet:
  assumes "jobs_wf s" "update_info uid info s = (s', r)" "runs s uid \<Longrightarrow> ''scheduler'' \<notin> fst ` set info"
  shows "quiet s s'"
proof (cases "map_of (js_executors s) uid")
  case None
  then show ?thesis using assms(1,2) quiet_refl by (auto simp: update_info_def getExecutor_def)
next
  case (Some x)
  obtain s1 x1 where upd: "executor_updateInfo uid info x s = (s1, x1)" by (cases "executor_updateInfo uid info x s")
  note ok = executor_updateInfo_ok [OF assms(1) jobs_wfD(1) [OF assms(1) Some] upd]
  have s': "s' = put_executor uid x1 s1" using assms(2) by (simp add: update_info_def getExecutor_def Some upd)
  note same = state_views [OF ok(3)]
  have at: "sched s uid = executor_sched x" "runs s uid = is_running x" by (simp_all add: sched_def runs_def Some)
  have run: "is_running x1 = is_running x" using ok(4,5) by (simp add: is_running_def)
  have "executor_sched x1 = Some v" if "is_running x1" "executor_sched x = Some v" for v
  proof -
    have "map_of (rev info) ''scheduler'' = None" using assms(3) at(2) run that(1) by (auto simp: map_of_eq_None_iff)
    then have "map_of (object_assign (je_info x) info) ''scheduler'' = Some v"
      using that(2) by (simp add: object_assign_map executor_sched_def map_add_def split: if_splits)
    then show ?thesis using ok(4) ok(6) that(2) by (simp add: executor_sched_def split: if_splits)
  qed
  then have "quiet s1 s'" unfolding s' using ok(1,2) run at same by (intro quiet_put_executor) simp_all
  moreover have "quiet s s1" using ok(1,3) by (rule quiet_views)
  ultimately show ?thesis by (rule quiet_trans [rotated])
qed

lemma push_simps [simp]:
  "je_class (executor_push data x) = je_class x" "je_command (executor_push data x) = je_command x"
  "je_info (executor_push data x) = je_info x"
  by (simp_all add: executor_push_def)

lemma initialize_simps [simp]:
  "je_class (executor_initialize uid s x) = je_class x" "je_command (executor_initialize uid s x) = je_command x"
  "je_info (executor_initialize uid s x) = je_info x"
proof -
  have "je_class (fold executor_push ds x) = je_class x \<and> je_command (fold executor_push ds x) = je_command x \<and>
      je_info (fold executor_push ds x) = je_info x" for ds
    by (induction ds arbitrary: x) simp_all
  then show "je_class (executor_initialize uid s x) = je_class x" "je_command (executor_initialize uid s x) = je_command x"
    "je_info (executor_initialize uid s x) = je_info x"
    by (simp_all add: executor_initialize_def split: option.split)
qed

lemma new_not_running [simp]: "je_command x = new_command \<Longrightarrow> \<not> is_running x"
  by (simp add: is_running_def new_command_def)

lemma executor_reset_quiet:
  assumes "jobs_wf s" "executor_reset uid s = (s', r)"
  shows "quiet s s'" "r = Inr () \<Longrightarrow> \<not> runs s' uid"
proof -
  obtain s1 r1 where get: "get_info uid s = (s1, r1)" by (cases "get_info uid s")
  note q = get_info_quiet [OF assms(1) get] and ok = get_info_ok [OF assms(1) get]
  have "quiet s s' \<and> (r = Inr () \<longrightarrow> \<not> runs s' uid)"
  proof (cases "\<exists>cls x. s' = put_executor uid (executor_initialize uid s1 (x\<lparr>je_class := cls, je_command := new_command\<rparr>)) s1 \<and>
      map_of (js_executors s1) uid = Some x")
    case True
    then obtain cls x where s': "s' = put_executor uid (executor_initialize uid s1 (x\<lparr>je_class := cls, je_command := new_command\<rparr>)) s1"
      and x: "map_of (js_executors s1) uid = Some x" by blast
    have "quiet s1 s'" unfolding s' using ok(1) jobs_wfD(1) [OF ok(1) x] by (intro quiet_put_executor) simp_all
    moreover have "\<not> runs s' uid" by (simp add: s')
    ultimately show ?thesis using quiet_trans [OF q] by simp
  next
    case False
    then have "s' = s1 \<and> r \<noteq> Inr ()"
      using assms(2) get by (auto simp: executor_reset_def split: sum.splits option.splits if_splits)
    then show ?thesis using q by simp
  qed
  then show "quiet s s'" "r = Inr () \<Longrightarrow> \<not> runs s' uid" by simp_all
qed

lemma quiet_wf: "quiet s s' \<Longrightarrow> jobs_wf s'"
  by (simp add: quiet_def)

lemma schedule_job_quiet: "jobs_wf s \<Longrightarrow> schedule_job uid scheduler s = (s', r) \<Longrightarrow> quiet s s'"
proof -
  assume wf: "jobs_wf s" and run: "schedule_job uid scheduler s = (s', r)"
  obtain s1 r1 where reset: "executor_reset uid s = (s1, r1)" by (cases "executor_reset uid s")
  note q = executor_reset_quiet [OF wf reset]
  show "quiet s s'"
  proof (cases r1)
    case (Inr u)
    then have "update_info uid [(''scheduler'', scheduler)] s1 = (s', r)" using run by (simp add: schedule_job_def reset)
    from update_info_quiet [OF quiet_wf [OF q(1)] this] have "quiet s1 s'" using q(2) Inr by simp
    then show ?thesis using quiet_trans [OF q(1)] by simp
  qed (use run q in \<open>simp add: schedule_job_def reset\<close>)
qed

lemma commands_schedule_quiet: "jobs_wf s \<Longrightarrow> commands_schedule uid scheduler s = (s', r) \<Longrightarrow> quiet s s'"
  using quiet_refl schedule_job_quiet by (fastforce simp: commands_schedule_def split: sum.splits)

lemma kill_simps [simp]:
  "is_running (executor_kill x) = is_running x" "executor_sched (executor_kill x) = executor_sched x"
  "je_info (executor_kill x) = je_info x"
  by (simp_all add: executor_kill_def is_running_def executor_sched_def command_kill_def)

lemma terminate_job_quiet: "jobs_wf s \<Longrightarrow> terminate_job force uid s = (s', r) \<Longrightarrow> quiet s s'"
proof -
  assume wf: "jobs_wf s" and run: "terminate_job force uid s = (s', r)"
  obtain s1 r1 where get: "get_info uid s = (s1, r1)" by (cases "get_info uid s")
  note q = get_info_quiet [OF wf get] and wf1 = get_info_ok(1) [OF wf get]
  show "quiet s s'"
  proof (cases "s' = s1")
    case False
    then obtain x where x: "map_of (js_executors s1) uid = Some x"
      and get2: "get_info uid (put_executor uid (executor_kill x) s1) = (s', r)"
      using run by (auto simp: terminate_job_def get split: sum.splits option.splits if_splits)
    have "quiet s1 (put_executor uid (executor_kill x) s1)"
      using wf1 jobs_wfD(1) [OF wf1 x] x by (intro quiet_put_executor) (simp_all add: runs_def sched_def)
    from quiet_trans [OF q quiet_trans [OF this get_info_quiet [OF quiet_wf [OF this] get2]]] show ?thesis .
  qed (use q in simp)
qed

lemma destroy_job_quiet: "jobs_wf s \<Longrightarrow> quiet s (destroy_job uid s)"
proof -
  assume wf: "jobs_wf s"
  then have "jobs_wf (destroy_job uid s)"
    by (auto simp: jobs_wf_def destroy_job_def distinct_map_filter AList.delete_eq)
  then show ?thesis by (simp add: quiet_def runs_def sched_def destroy_job_def delete_conv' split: option.splits)
qed

lemma remove_job_quiet: "jobs_wf s \<Longrightarrow> remove_job uid s = (s', r) \<Longrightarrow> quiet s s'"
proof -
  assume wf: "jobs_wf s" and run: "remove_job uid s = (s', r)"
  obtain s1 r1 where kill: "terminate_job True uid s = (s1, r1)" by (cases "terminate_job True uid s")
  note q = terminate_job_quiet [OF wf kill]
  show "quiet s s'"
    using run quiet_refl [OF wf] q quiet_trans [OF q destroy_job_quiet [OF quiet_wf [OF q], of uid]]
    by (auto simp: remove_job_def kill split: if_splits sum.splits)
qed

lemma on_terminate_simps:
  assumes "on_terminate uid info st x s = (s', r)"
  shows "js_executors s' = js_executors s" "js_jobs s' = js_jobs s"
    "\<And>x'. r = Inr x' \<Longrightarrow> je_class x' = je_class x \<and> je_command x' = je_command x \<and> je_info x' = je_info x"
  using assms by (auto simp: on_terminate_def reschedule_def add_timer_def Let_def split: if_splits)

lemma jobs_wf_same: "jobs_wf s \<Longrightarrow> js_executors s' = js_executors s \<Longrightarrow> js_jobs s' = js_jobs s \<Longrightarrow> jobs_wf s'"
  by (simp add: jobs_wf_def)

lemma quiet_same: "jobs_wf s \<Longrightarrow> js_executors s' = js_executors s \<Longrightarrow> js_jobs s' = js_jobs s \<Longrightarrow> quiet s s'"
  using quiet_views jobs_wf_same by blast

text \<open>Putting back an executor that runs only if it ran before, with what it knew.\<close>

lemma quiet_put_same:
  assumes "jobs_wf s" "map_of (js_executors s) uid = Some x" "je_info x' = je_info x" "je_class x' = je_class x"
    and "is_running x' \<Longrightarrow> is_running x"
  shows "quiet s (put_executor uid x' s)"
proof (rule quiet_put_executor [OF assms(1)])
  show "distinct (map fst (je_info x'))" using jobs_wfD(1) [OF assms(1,2)] assms(3) by simp
  show "runs s uid" if "is_running x'" using that assms(2,5) by (simp add: runs_def)
  have "executor_sched x' = executor_sched x" using assms(3,4) by (simp add: executor_sched_def)
  then show "executor_sched x' = Some v" if "sched s uid = Some v" for v using that assms(2) by (simp add: sched_def)
qed

lemma process_event_quiet:
  assumes "jobs_wf s" "has_process uid s" "process_event now uid st s = (s', r)"
  shows "quiet s s'"
proof -
  obtain x0 where x0: "map_of (js_executors s) uid = Some x0" "is_running x0"
    using assms(2) by (auto simp: has_process_def split: option.splits)
  define x where "x = x0\<lparr>je_command := status_times now st (je_command x0)\<rparr>"
  have x: "je_info x = je_info x0" "je_class x = je_class x0" by (simp_all add: x_def)
  have put: "quiet s1 (put_executor uid x' s1)"
    if "js_executors s1 = js_executors s" "js_jobs s1 = js_jobs s" "je_info x' = je_info x0" "je_class x' = je_class x0" for s1 x'
    using quiet_put_same [OF jobs_wf_same [OF assms(1) that(1,2)], of uid x0 x'] that x0 by simp
  show ?thesis
  proof (cases "is_end st \<and> cm_onTerminate (je_command x) \<noteq> None")
    case True
    then obtain info where info: "is_end st" "cm_onTerminate (je_command x) = Some info" by blast
    obtain s1 r1 where ended: "on_terminate uid info st x s = (s1, r1)" by (cases "on_terminate uid info st x s")
    note same = on_terminate_simps [OF ended]
    have "\<exists>x'. s' = put_executor uid x' s1 \<and> je_info x' = je_info x0 \<and> je_class x' = je_class x0"
      using assms(3) same(3) info x by (auto simp: process_event_def x0(1) x_def [symmetric] Let_def ended split: sum.splits)
    then show ?thesis using put [OF same(1,2)] quiet_trans [OF quiet_same [OF assms(1) same(1,2)]] by blast
  next
    case False
    then have "s' = put_executor uid (x\<lparr>je_command := (je_command x)\<lparr>cm_status := st\<rparr>\<rparr>) s"
      using assms(3) by (auto simp: process_event_def x0(1) x_def [symmetric] Let_def split: bool.splits option.splits)
    then show ?thesis using put [of s] x by simp
  qed
qed

lemma process_output_quiet: "jobs_wf s \<Longrightarrow> quiet s (process_output uid data s)"
proof -
  assume wf: "jobs_wf s"
  show ?thesis
  proof (cases "map_of (js_executors s) uid")
    case None
    then show ?thesis using quiet_refl [OF wf] by (simp add: process_output_def)
  next
    case (Some x)
    define s1 where "s1 = (case map_of (js_jobs s) uid of None \<Rightarrow> s | Some cj \<Rightarrow> put_job uid (cj_capture data cj) s)"
    have "context_ok (cj_capture data cj)" if "context_ok cj" for cj using that by (simp add: context_ok_def cj_capture_def)
    then have wf1: "jobs_wf s1" "js_executors s1 = js_executors s"
      using wf jobs_wfD(2) [OF wf] jobs_wf_put_job by (auto simp: s1_def split: option.splits)
    have "quiet s1 (process_output uid data s)"
      unfolding process_output_def Some option.case s1_def [symmetric] Let_def
      using wf1 Some by (intro quiet_put_same) (simp_all add: is_running_def)
    then show ?thesis by (rule quiet_trans [OF quiet_views [OF wf1]])
  qed
qed

lemma fire_quiet: "jobs_wf s \<Longrightarrow> quiet s (fire now t s)"
proof (cases t)
  case (PeriodTimer uid info st)
  then show "jobs_wf s \<Longrightarrow> quiet s (fire now t s)" by (simp add: add_timer_def quiet_same)
next
  case (RestartTimer uid info st)
  assume wf: "jobs_wf s"
  obtain s1 r1 where reset: "executor_reset uid s = (s1, r1)" by (cases "executor_reset uid s")
  note q = executor_reset_quiet [OF wf reset]
  obtain s2 r2 where upd: "update_info uid (restart_entries now info st) s1 = (s2, r2)"
    by (cases "update_info uid (restart_entries now info st) s1")
  have "quiet s1 s2" using update_info_quiet [OF quiet_wf [OF q(1)] upd] by (simp add: restart_entries_def)
  then show "quiet s (fire now t s)" using q(1) quiet_trans [OF q(1)] by (simp add: RestartTimer reset upd split: sum.split)
qed

lemma fire_timer_quiet: "jobs_wf s \<Longrightarrow> quiet s (fire_timer now i s)"
proof -
  assume wf: "jobs_wf s"
  have q: "quiet s (s\<lparr>js_timers := ts\<rparr>)" for ts using quiet_same [OF wf] by simp
  show ?thesis
    using quiet_refl [OF wf] quiet_trans [OF q fire_quiet [OF quiet_wf [OF q]]] by (simp add: fire_timer_def)
qed

lemma makeDefault_quiet:
  assumes "jobs_wf s" "makeDefault uid s = (s', r)"
  shows "quiet s s'" "r = Inr () \<Longrightarrow> \<not> runs s' uid"
proof -
  have "quiet s (put_executor uid (executor_initialize uid s (new_executor Readonly)) s)"
    using assms(1) by (intro quiet_put_executor) (simp_all add: new_executor_def is_running_def)
  then show "quiet s s'"
    using assms quiet_refl by (auto simp: makeDefault_def make_executor_def split: if_splits)
  show "r = Inr () \<Longrightarrow> \<not> runs s' uid"
    using assms(2) by (auto simp: makeDefault_def make_executor_def new_executor_def split: if_splits)
qed

lemma makeFromSchema_quiet: "jobs_wf s \<Longrightarrow> makeFromSchema uid schema data s = (s', r) \<Longrightarrow> quiet s s'"
proof -
  assume wf: "jobs_wf s" and run: "makeFromSchema uid schema data s = (s', r)"
  show "quiet s s'"
  proof (cases "make_args schema data")
    case (Inr args)
    obtain s1 r1 where default: "makeDefault uid s = (s1, r1)" by (cases "makeDefault uid s")
    note q = makeDefault_quiet [OF wf default]
    show ?thesis
    proof (cases r1)
      case (Inr u)
      let ?info = "[(''type'', js_get schema ''type''), (''args'', JArr args), (''data'', JObj data)]"
      obtain s2 r2 where upd: "update_info uid ?info s1 = (s2, r2)" by (cases "update_info uid ?info s1")
      have "quiet s1 s2" using update_info_quiet [OF quiet_wf [OF q(1)] upd] q(2) Inr by simp
      then have "quiet s s2" by (rule quiet_trans [OF q(1)])
      then show ?thesis
        using run Inr \<open>make_args schema data = Inr args\<close> by (auto simp: makeFromSchema_def default upd split: sum.splits)
    qed (use run q Inr in \<open>auto simp: makeFromSchema_def default\<close>)
  qed (use run quiet_refl [OF wf] in \<open>simp add: makeFromSchema_def\<close>)
qed

lemma allocate_quiet: "jobs_wf s \<Longrightarrow> quiet s (fst (allocate s))"
proof -
  assume "jobs_wf s"
  then have "jobs_wf (s\<lparr>js_uid := n\<rparr>)" for n by (simp add: jobs_wf_def)
  then have "jobs_wf (fst (allocate s))"
    unfolding allocate_def Let_def fst_conv
    by (rule jobs_wf_put_job) (simp add: new_context_job_def context_ok_def entries_ok_def)
  then show ?thesis by (rule quiet_views) (simp add: allocate_def Let_def)
qed

lemma add_job_quiet: "jobs_wf s \<Longrightarrow> add_job jobs getInputs scheduler s = (s', r) \<Longrightarrow> quiet s s'"
proof -
  assume wf: "jobs_wf s" and run: "add_job jobs getInputs scheduler s = (s', r)"
  obtain s1 uid where alloc: "allocate s = (s1, uid)" by (cases "allocate s")
  have q1: "quiet s s1" using allocate_quiet [OF wf] alloc by simp
  have fail: "quiet s s3" if "quiet s s2" "undo_job uid s2 e = (s3, r3)" for s2 s3 e r3
  proof -
    obtain s4 r4 where rem: "remove_job uid s2 = (s4, r4)" by (cases "remove_job uid s2")
    then have "s3 = s4" using that(2) by (auto simp: undo_job_def split: sum.splits)
    then show ?thesis using quiet_trans [OF that(1) remove_job_quiet [OF quiet_wf [OF that(1)] rem]] by simp
  qed
  note run' = run [unfolded add_job_def alloc prod.case]
  show "quiet s s'"
  proof (cases getInputs)
    case (Inr inputs)
    show ?thesis
    proof (cases "map_of jobs (to_property_key (js_get (JObj inputs) ''type''))")
      case (Some schema)
      obtain s2 r2 where make: "makeFromSchema uid schema inputs s1 = (s2, r2)" by (cases "makeFromSchema uid schema inputs s1")
      have q2: "quiet s s2" by (rule quiet_trans [OF q1 makeFromSchema_quiet [OF quiet_wf [OF q1] make]])
      obtain s3 r3 where sch: "commands_schedule uid scheduler s2 = (s3, r3)" by (cases "commands_schedule uid scheduler s2")
      have q3: "quiet s s3" by (rule quiet_trans [OF q2 commands_schedule_quiet [OF quiet_wf [OF q2] sch]])
      note r2 = run' [unfolded Inr sum.case Some option.case make prod.case]
      show ?thesis
      proof (cases r2)
        case (Inr u)
        note r3 = r2 [unfolded Inr sum.case sch prod.case]
        show ?thesis using r3 fail [OF q3] q3 by (cases r3) simp_all
      qed (use r2 fail [OF q2] in simp)
    next
      case None
      show ?thesis using run' [unfolded Inr sum.case None option.case] by (rule fail [OF q1])
    qed
  qed (use run' fail [OF q1] in auto)
qed

lemma run_instances_quiet: "run_instances jobs instances s = (s', r) \<Longrightarrow> jobs_wf s \<Longrightarrow> quiet s s'"
proof (induction jobs instances s rule: run_instances.induct)
  case (2 jobs i instances s)
  show ?case
  proof (cases "map_of jobs (to_property_key (js_get i ''type'')) = None")
    case False
    let ?inputs = "Inr (object_assign [(''type'', js_get i ''type'')] (own_entries (js_get i ''args''))) :: entries outcome"
    obtain s1 r1 where add: "add_job jobs ?inputs (default_scheduler (js_get i ''scheduler'')) s = (s1, r1)"
      by (cases "add_job jobs ?inputs (default_scheduler (js_get i ''scheduler'')) s")
    note q = add_job_quiet [OF 2(4) add]
    show ?thesis
    proof (cases r1)
      case (Inr u)
      then have "run_instances jobs instances s1 = (s', r)" using 2(3) False by (simp add: add)
      from "2.IH"(2) [OF False add [symmetric] Inr this quiet_wf [OF q]] show ?thesis by (rule quiet_trans [OF q])
    qed (use 2(3) False q in \<open>simp add: add\<close>)
  qed (use 2 in simp)
qed (simp add: quiet_refl)

lemma make_defaults_quiet: "jobs_wf s \<Longrightarrow> quiet s (make_defaults uids s)"
proof (induction uids arbitrary: s)
  case (Cons uid uids)
  have q: "quiet s (fst (makeDefault uid s))" using makeDefault_quiet(1) [OF Cons.prems] by (cases "makeDefault uid s") simp
  show ?case using quiet_trans [OF q Cons.IH [OF quiet_wf [OF q]]] by simp
qed (simp add: quiet_refl)

lemma start_app_quiet: "jobs_wf s \<Longrightarrow> quiet s (fst (start_app jobs instances s))"
proof -
  assume wf: "jobs_wf s"
  define s0 where "s0 = s\<lparr>js_jobs := map (\<lambda>(uid, cj). (uid, cj\<lparr>cj_info := None\<rparr>)) (js_jobs s),
    js_uid := fold max (map fst (js_jobs s)) 0, js_executors := [], js_timers := []\<rparr>"
  have wf0: "jobs_wf s0" using wf by (fastforce simp: s0_def jobs_wf_def context_ok_def entries_ok_def)
  have q0: "quiet s s0" using wf0 by (simp add: quiet_def runs_def s0_def)
  have q1: "quiet s0 (make_defaults (sort (map fst (js_jobs s))) s0)" by (rule make_defaults_quiet [OF wf0])
  obtain s2 r2 where run: "run_instances (supported_jobs jobs) instances (make_defaults (sort (map fst (js_jobs s))) s0) = (s2, r2)"
    by (cases "run_instances (supported_jobs jobs) instances (make_defaults (sort (map fst (js_jobs s))) s0)")
  from quiet_trans [OF q0 quiet_trans [OF q1 run_instances_quiet [OF run quiet_wf [OF q1]]]]
  show ?thesis using run by (simp add: start_app_def Let_def s0_def)
qed

section \<open>A round\<close>

definition sched_queue :: "json option \<Rightarrow> bool" where
  "sched_queue v = (case v of None \<Rightarrow> False | Some w \<Rightarrow> js_get w ''type'' = JStr ''queue'')"

definition jobs_inv :: "jobs_state \<Rightarrow> bool" where
  "jobs_inv s =
     (jobs_wf s \<and> (\<forall>uid. runs s uid \<longrightarrow> sched s uid \<noteq> None) \<and>
      (\<forall>u v. runs s u \<longrightarrow> runs s v \<longrightarrow> sched_queue (sched s u) \<longrightarrow> sched_queue (sched s v) \<longrightarrow> u = v))"

lemma quiet_inv:
  assumes "jobs_inv s" "quiet s s'"
  shows "jobs_inv s'"
proof -
  have same: "runs s uid \<and> sched s' uid = sched s uid" if "runs s' uid" for uid
    using that assms by (auto simp: quiet_def jobs_inv_def)
  have "jobs_wf s'" using assms(2) by (rule quiet_wf)
  then show ?thesis using assms(1) same by (metis jobs_inv_def)
qed

lemma execute_job_ok:
  assumes "jobs_wf s" "execute_job now uid s = (s', r)"
  shows "\<And>e. r = Inl e \<Longrightarrow> quiet s s'"
    and "r = Inr () \<Longrightarrow> jobs_wf s' \<and> runs s' = (runs s)(uid := True) \<and> class_at s' = class_at s \<and>
      (\<forall>u v. sched s u = Some v \<longrightarrow> sched s' u = Some v) \<and> (\<exists>cls. class_at s uid = Some cls \<and> cls \<noteq> Readonly)"
proof -
  obtain s1 r1 where get: "get_info uid s = (s1, r1)" by (cases "get_info uid s")
  note q = get_info_quiet [OF assms(1) get] and ok = get_info_ok [OF assms(1) get]
  have "(\<forall>e. r = Inl e \<longrightarrow> quiet s s') \<and> (r = Inr () \<longrightarrow> jobs_wf s' \<and> runs s' = (runs s)(uid := True) \<and> class_at s' = class_at s \<and>
      (\<forall>u v. sched s u = Some v \<longrightarrow> sched s' u = Some v) \<and> (\<exists>cls. class_at s uid = Some cls \<and> cls \<noteq> Readonly))"
  proof (cases "\<exists>info args x. r1 = Inr info \<and> info_status info = JStr (status_text Idle) \<and> map_of info ''args'' = Some args \<and>
      map_of (js_executors s1) uid = Some x")
    case False
    then have "s' = s1 \<and> r \<noteq> Inr ()"
      using assms(2) by (auto simp: execute_job_def get split: sum.splits option.splits if_splits)
    then show ?thesis using q by simp
  next
    case True
    then obtain info args x where x: "r1 = Inr info" "info_status info = JStr (status_text Idle)"
      "map_of info ''args'' = Some args" "map_of (js_executors s1) uid = Some x" by blast
    have run: "executor_execute now uid args info x s1 = (s', r)" using assms(2) x by (simp add: execute_job_def get)
    define c where "c = (je_command x)\<lparr>cm_onTerminate := Some info\<rparr>"
    have put: "quiet s1 (put_executor uid (x\<lparr>je_command := c\<rparr>) s1)"
      by (rule quiet_put_same [OF ok(1) x(4)]) (simp_all add: c_def is_running_def)
    let ?x = "x\<lparr>je_command := (status_times now Running c)\<lparr>cm_status := Running, cm_result := True\<rparr>\<rparr>"
    consider "s' = s1 \<and> r \<noteq> Inr ()" | "s' = put_executor uid (x\<lparr>je_command := c\<rparr>) s1 \<and> r \<noteq> Inr ()"
      | "s' = put_executor uid ?x s1" "r = Inr ()" "je_class x \<noteq> Readonly"
      using run by (cases "je_class x"; cases args) (auto simp: executor_execute_def c_def [symmetric] Let_def split: sum.splits)
    then show ?thesis
    proof cases
      case 3
      have "jobs_wf s'" unfolding 3(1) using jobs_wfD(1) [OF ok(1) x(4)] by (intro jobs_wf_put_executor [OF ok(1)]) simp
      moreover have "executor_sched ?x = sched s1 uid" "class_at s1 uid = Some (je_class x)"
        using x(4) by (simp_all add: executor_sched_def sched_def class_at_def)
      ultimately show ?thesis
        using 3 ok(2-4) by (auto simp: is_running_def class_at_def [of s1] fun_upd_idem)
    qed (use q quiet_trans [OF q put] in auto)
  qed
  then show "\<And>e. r = Inl e \<Longrightarrow> quiet s s'" "r = Inr () \<Longrightarrow> jobs_wf s' \<and> runs s' = (runs s)(uid := True) \<and>
      class_at s' = class_at s \<and> (\<forall>u v. sched s u = Some v \<longrightarrow> sched s' u = Some v) \<and>
      (\<exists>cls. class_at s uid = Some cls \<and> cls \<noteq> Readonly)" by blast+
qed

definition infos_ok :: "(nat \<times> entries) list \<Rightarrow> jobs_state \<Rightarrow> bool" where
  "infos_ok infos s =
     (\<forall>(uid, info)\<in>set infos. \<forall>v. map_of info ''scheduler'' = Some v \<longrightarrow> class_at s uid \<noteq> Some Readonly \<longrightarrow> sched s uid = Some v)"

lemma infos_ok_kept:
  "infos_ok infos s \<Longrightarrow> class_at s' = class_at s \<Longrightarrow> (\<And>u v. sched s u = Some v \<Longrightarrow> sched s' u = Some v) \<Longrightarrow> infos_ok infos s'"
  by (fastforce simp: infos_ok_def)

lemma round_infos_ok:
  assumes "round_infos uids s = (s', r)" "jobs_wf s"
  shows "jobs_wf s' \<and> (\<forall>u v. sched s u = Some v \<longrightarrow> sched s' u = Some v) \<and> runs s' = runs s \<and> class_at s' = class_at s \<and>
    (\<forall>infos. r = Inr infos \<longrightarrow> infos_ok infos s' \<and>
      (\<forall>uid\<in>set uids. runs s uid \<longrightarrow> (\<exists>info. (uid, info) \<in> set infos \<and> info_status info = JStr (status_text Running))))"
  using assms
proof (induction uids arbitrary: s s' r)
  case Nil
  then show ?case by (auto simp: infos_ok_def)
next
  case (Cons uid uids)
  obtain s1 r1 where get: "get_info uid s = (s1, r1)" by (cases "get_info uid s")
  note ok = get_info_ok [OF Cons.prems(2) get]
  show ?case
  proof (cases r1)
    case (Inl e)
    then show ?thesis using Cons.prems(1) ok(1-4) by (auto simp: get)
  next
    case (Inr info)
    obtain s2 r2 where rest: "round_infos uids s1 = (s2, r2)" by (cases "round_infos uids s1")
    note IH = Cons.IH [OF rest ok(1)]
    obtain x where x: "map_of (js_executors s1) uid = Some x" "je_info x = info" using ok(5) [OF Inr] by blast
    have "sched s2 uid = Some v" if "map_of info ''scheduler'' = Some v" "class_at s2 uid \<noteq> Some Readonly" for v
    proof -
      have "sched s1 uid = Some v" using that IH x by (simp add: sched_def executor_sched_def class_at_def)
      then show ?thesis using IH by blast
    qed
    then have news: "infos_ok ((uid, info) # infos) s2" if "infos_ok infos s2" for infos using that by (simp add: infos_ok_def)
    have s': "s' = s2" "r = (case r2 of Inl e \<Rightarrow> Inl e | Inr infos \<Rightarrow> Inr ((uid, info) # infos))"
      using Cons.prems(1) by (auto simp: get Inr rest split: sum.splits)
    have all: "\<exists>info'. (u, info') \<in> set ((uid, info) # infos) \<and> info_status info' = JStr (status_text Running)"
      if r2: "r2 = Inr infos" and u: "u \<in> set (uid # uids)" "runs s u" for u infos
    proof (cases "u = uid")
      case True
      then show ?thesis using ok(5) [OF Inr] u(2) by auto
    next
      case False
      then have "u \<in> set uids" "runs s1 u" using u ok(3) by simp_all
      then obtain info' where "(u, info') \<in> set infos" "info_status info' = JStr (status_text Running)"
        using IH r2 by blast
      then show ?thesis by (intro exI [of _ info']) simp
    qed
    show ?thesis
    proof (cases r2)
      case (Inl e)
      then show ?thesis using IH ok(2-4) by (simp add: s')
    next
      case (Inr infos)
      then have "infos_ok ((uid, info) # infos) s2" using news IH by blast
      moreover have "\<forall>u\<in>set (uid # uids). runs s u \<longrightarrow>
          (\<exists>info'. (u, info') \<in> set ((uid, info) # infos) \<and> info_status info' = JStr (status_text Running))"
        using all [OF Inr] by blast
      ultimately show ?thesis using IH ok(2-4) unfolding s' Inr sum.case by auto
    qed
  qed
qed

lemma update_members:
  "(k, v) \<in> set (AList.update k v xs)" "(u, w) \<in> set xs \<Longrightarrow> u \<noteq> k \<Longrightarrow> (u, w) \<in> set (AList.update k v xs)"
  by (induction xs) auto

lemma round_loop_inv:
  "round_loop now infos statuses s = (s', r) \<Longrightarrow> jobs_inv s \<Longrightarrow> infos_ok infos s \<Longrightarrow>
     (\<And>u. runs s u \<Longrightarrow> (u, JStr (status_text Running)) \<in> set statuses) \<Longrightarrow> jobs_inv s'"
proof (induction infos arbitrary: statuses s)
  case (Cons entry infos)
  obtain uid info where entry: "entry = (uid, info)" by (cases entry)
  note prems = Cons.prems [unfolded entry]
  define scheduler where "scheduler = js_get (JObj info) ''scheduler''"
  note loop = prems(1) [unfolded round_loop.simps Let_def, folded scheduler_def]
  have rest: "infos_ok infos s" using prems(3) by (simp add: infos_ok_def)
  show ?case
  proof (cases "info_status info = JStr (status_text Idle) \<and> truthy scheduler")
    case False
    have "round_loop now infos statuses s = (s', r)" using loop False by (simp only: if_False)
    then show ?thesis by (rule Cons.IH [OF _ prems(2) rest prems(4)])
  next
    case idle: True
    show ?thesis
    proof (cases "isReadyToBeExecuted scheduler statuses")
      case (Inl e)
      then show ?thesis using loop idle prems(2) by simp
    next
      case (Inr ready)
      show ?thesis
      proof (cases ready)
        case False
        have "round_loop now infos statuses s = (s', r)" using loop idle Inr False by simp
        then show ?thesis by (rule Cons.IH [OF _ prems(2) rest prems(4)])
      next
        case True
        obtain s1 r1 where ex: "execute_job now uid s = (s1, r1)" by (cases "execute_job now uid s")
        have wf: "jobs_wf s" using prems(2) by (simp add: jobs_inv_def)
        note eok = execute_job_ok [OF wf ex]
        show ?thesis
        proof (cases r1)
          case (Inl e)
          then have "s' = s1" using loop idle Inr True ex by simp
          then show ?thesis using quiet_inv [OF prems(2) eok(1) [OF Inl]] by simp
        next
          case started: (Inr u)
          have s1: "jobs_wf s1" "runs s1 = (runs s)(uid := True)" "class_at s1 = class_at s"
            "\<And>u v. sched s u = Some v \<Longrightarrow> sched s1 u = Some v" "class_at s uid \<noteq> Some Readonly"
            using eok(2) started by auto
          have "map_of info ''scheduler'' = Some scheduler"
            using idle by (auto simp: scheduler_def js_get_def own_entries_def truthy_def split: option.splits)
          then have "sched s uid = Some scheduler" using prems(3) s1(5) by (simp add: infos_ok_def)
          then have sch: "sched s1 uid = Some scheduler" by (rule s1(4))
          have none: "\<not> runs s v" if "js_get scheduler ''type'' = JStr ''queue''" for v
            using Inr True that prems(4) [of v] by (auto simp: isReadyToBeExecuted_def Let_def list_ex_iff)
          have same: "sched s1 v = sched s v" if "runs s v" for v
            using that prems(2) s1(4) by (fastforce simp: jobs_inv_def)
          have "jobs_inv s1"
            unfolding jobs_inv_def
          proof (intro conjI allI impI)
            show "sched s1 v \<noteq> None" if "runs s1 v" for v
              using that sch same prems(2) by (cases "v = uid") (auto simp: s1(2) jobs_inv_def)
            show "v = w" if "runs s1 v" "runs s1 w" "sched_queue (sched s1 v)" "sched_queue (sched s1 w)" for v w
            proof -
              have "v = uid \<longrightarrow> w = uid" "w = uid \<longrightarrow> v = uid"
                using that none sch by (auto simp: s1(2) sched_queue_def split: if_splits)
              moreover have "v = w" if "v \<noteq> uid" "w \<noteq> uid"
                using that \<open>runs s1 v\<close> \<open>runs s1 w\<close> \<open>sched_queue (sched s1 v)\<close> \<open>sched_queue (sched s1 w)\<close> same prems(2)
                by (auto simp: s1(2) jobs_inv_def)
              ultimately show ?thesis by blast
            qed
          qed (rule s1(1))
          moreover have "infos_ok infos s1" by (rule infos_ok_kept [OF rest s1(3) s1(4)])
          moreover have "(u, JStr (status_text Running)) \<in> set (AList.update uid (JStr (status_text Running)) statuses)"
            if "runs s1 u" for u
          proof (cases "u = uid")
            case False
            then have "runs s u" using that by (simp add: s1(2))
            from update_members(2) [OF prems(4) [OF this] False] show ?thesis .
          qed (simp only: update_members(1))
          moreover have "round_loop now infos (AList.update uid (JStr (status_text Running)) statuses) s1 = (s', r)"
            using loop idle Inr True ex started by simp
          ultimately show ?thesis by (intro Cons.IH)
        qed
      qed
    qed
  qed
qed simp

lemma monitoring_inv:
  assumes "jobs_inv s" "monitoring now s = (s', r)"
  shows "jobs_inv s'"
proof -
  let ?uids = "sort (map fst (js_executors s))"
  obtain s1 r1 where infos: "round_infos ?uids s = (s1, r1)" by (cases "round_infos ?uids s")
  have wf: "jobs_wf s" using assms(1) by (simp add: jobs_inv_def)
  note ok = round_infos_ok [OF infos wf]
  then have "quiet s s1" by (simp add: quiet_def)
  then have inv: "jobs_inv s1" by (rule quiet_inv [OF assms(1)])
  show ?thesis
  proof (cases r1)
    case (Inl e)
    then show ?thesis using assms(2) inv by (simp add: monitoring_def infos)
  next
    case (Inr xs)
    have loop: "round_loop now xs (map (\<lambda>(uid, info). (uid, info_status info)) xs) s1 = (s', r)"
      using assms(2) by (simp add: monitoring_def infos Inr)
    show ?thesis
    proof (rule round_loop_inv [OF loop inv])
      show "infos_ok xs s1" using ok Inr by blast
      fix u assume "runs s1 u"
      then have run: "runs s u" using ok by simp
      then have "u \<in> set ?uids" by (auto simp: runs_def split: option.splits dest: map_of_SomeD intro: rev_image_eqI)
      then obtain info where "(u, info) \<in> set xs" "info_status info = JStr (status_text Running)" using ok run Inr by blast
      then show "(u, JStr (status_text Running)) \<in> set (map (\<lambda>(uid, info). (uid, info_status info)) xs)"
        by (auto intro!: rev_image_eqI)
    qed
  qed
qed

lemma job_step_inv: "jobs_inv s \<Longrightarrow> jobs_inv (job_step jobs e s)"
proof -
  assume inv: "jobs_inv s"
  then have wf: "jobs_wf s" by (simp add: jobs_inv_def)
  have q: "quiet s (fst p) \<Longrightarrow> jobs_inv (fst p)" for p :: "jobs_state \<times> 'b" by (rule quiet_inv [OF inv])
  show ?thesis
  proof (cases e)
    case (Round now)
    then show ?thesis using monitoring_inv [OF inv] by (cases "monitoring now s") simp
  next
    case (Send inputs)
    then show ?thesis using quiet_inv [OF inv add_job_quiet [OF wf]]
      by (cases "add_job (supported_jobs jobs) inputs type_immediately s") simp
  next
    case (Start uid)
    then show ?thesis using quiet_inv [OF inv commands_schedule_quiet [OF wf]]
      by (cases "commands_schedule uid type_immediately s") simp
  next
    case (Cancel uid)
    then show ?thesis using quiet_inv [OF inv terminate_job_quiet [OF wf]] by (cases "terminate_job False uid s") simp
  next
    case (Delete uid)
    then show ?thesis using quiet_inv [OF inv remove_job_quiet [OF wf]] by (cases "remove_job uid s") simp
  next
    case (Process now uid st)
    then show ?thesis using inv quiet_inv [OF inv process_event_quiet [OF wf]] by (cases "process_event now uid st s") auto
  next
    case (Output uid data)
    then show ?thesis using quiet_inv [OF inv process_output_quiet [OF wf]] by simp
  next
    case (Timer now i)
    then show ?thesis using quiet_inv [OF inv fire_timer_quiet [OF wf]] by simp
  next
    case Jobs
    obtain s1 r1 where infos: "round_infos (sort (map fst (js_executors s))) s = (s1, r1)"
      by (cases "round_infos (sort (map fst (js_executors s))) s")
    have "quiet s s1" using round_infos_ok [OF infos wf] by (simp add: quiet_def)
    then show ?thesis using quiet_inv [OF inv] by (simp add: Jobs getAllInfo_def infos)
  next
    case (Restart instances)
    then show ?thesis using quiet_inv [OF inv start_app_quiet [OF wf]] by simp
  qed
qed

section \<open>The queue\<close>

text \<open>The jobs of the queue that run.\<close>

definition queue_jobs :: "jobs_state \<Rightarrow> nat list" where
  "queue_jobs s =
     map fst (filter (\<lambda>(uid, x). is_running x \<and>
       js_get (js_get (JObj (je_info x)) ''scheduler'') ''type'' = JStr ''queue'') (js_executors s))"

text \<open>
  C27. At most one job of the queue runs at a time, after any sequence of rounds of the scheduler, requests that add,
  start, cancel and delete jobs, events and ends of processes, timers that start jobs again, and restarts.
\<close>

theorem queue_exclusive: "length (queue_jobs (run_jobs jobs events (no_jobs root))) \<le> 1"
proof -
  let ?s = "run_jobs jobs events (no_jobs root)"
  have steps: "jobs_inv s \<Longrightarrow> jobs_inv (fold (job_step jobs) events s)" for s
    by (induction events arbitrary: s) (simp_all add: job_step_inv)
  have "jobs_inv (no_jobs root)" by (simp add: jobs_inv_def jobs_wf_def no_jobs_def runs_def)
  from steps [OF this] have inv: "jobs_inv ?s" by (simp only: run_jobs_def)
  then have dist: "distinct (map fst (js_executors ?s))" by (simp add: jobs_inv_def jobs_wf_def)
  have one: "u = v" if "u \<in> set (queue_jobs ?s)" "v \<in> set (queue_jobs ?s)" for u v
  proof -
    have "runs ?s u \<and> sched_queue (sched ?s u)" if u: "u \<in> set (queue_jobs ?s)" for u
    proof -
      obtain x where x: "(u, x) \<in> set (js_executors ?s)" "is_running x"
        "js_get (js_get (JObj (je_info x)) ''scheduler'') ''type'' = JStr ''queue''"
        using u unfolding queue_jobs_def by auto
      then have at: "map_of (js_executors ?s) u = Some x" using dist by simp
      then have "runs ?s u" "sched ?s u = map_of (je_info x) ''scheduler''"
        using x(2) by (simp_all add: runs_def sched_def executor_sched_def is_running_def)
      moreover have "sched ?s u \<noteq> None" using inv \<open>runs ?s u\<close> unfolding jobs_inv_def by blast
      ultimately show ?thesis using x(3) by (auto simp: sched_queue_def js_get_def own_entries_def)
    qed
    then show ?thesis using that inv by (simp add: jobs_inv_def)
  qed
  have "distinct (queue_jobs ?s)" using dist by (simp add: queue_jobs_def distinct_map_filter)
  then have "length (queue_jobs ?s) = card (set (queue_jobs ?s))" by (simp add: distinct_card)
  also have "\<dots> \<le> 1" using one by (auto simp: card_le_Suc0_iff_eq)
  finally show ?thesis .
qed

section \<open>Examples, and what does not work\<close>

definition example_jobs :: entries where
  "example_jobs =
     [(''t'', JObj [(''type'', JStr ''shell''), (''command'', JStr ''c''), (''inputs'', JArr []),
        (''args'', JArr [JStr ''--x'', JStr ''{x}''])])]"

definition example_instance :: json where
  "example_instance = JObj [(''type'', JStr ''t''), (''args'', JObj [(''x'', JStr ''a'')])]"

definition example_queue :: jobs_state where
  "example_queue = run_jobs example_jobs [Restart [example_instance, example_instance], Round 5] (no_jobs ''/r'')"

text \<open>The second job of the queue waits, and is started in the first round after the end of the first.\<close>

lemma queue_example:
  "queue_jobs example_queue = [1]"
  "queue_jobs (run_jobs example_jobs [Round 6] example_queue) = [1]"
  "queue_jobs (run_jobs example_jobs [Process 7 1 Completed, Round 8] example_queue) = [2]"
  by code_simp+

text \<open>
  After a restart all jobs are read-only. One that waited in the queue is taken for ready by the scheduler, and cannot be
  executed: the round, and each later one, throws before it comes to the jobs behind it.
\<close>

lemma restart_stops_scheduler:
  "snd (monitoring 9 (run_jobs example_jobs [Restart []] example_queue)) = Inl TypeErr"
  "snd (monitoring 10 (fst (monitoring 9 (run_jobs example_jobs [Restart []] example_queue)))) = Inl TypeErr"
  by code_simp+

text \<open>A request with an unknown type fails, and its directory stays; after a restart it is a job.\<close>

lemma unknown_type_stays:
  "map fst (js_jobs (run_jobs example_jobs [Send (Inr [(''type'', JStr ''u'')])] (no_jobs ''/r''))) = [1]"
  "map fst (js_executors (run_jobs example_jobs [Send (Inr [(''type'', JStr ''u'')])] (no_jobs ''/r''))) = []"
  "map fst (js_executors (run_jobs example_jobs [Send (Inr [(''type'', JStr ''u'')]), Restart []] (no_jobs ''/r''))) = [1]"
  by code_simp+

text \<open>A level of the pattern of the arguments without a placeholder gives nothing.\<close>

lemma args_without_placeholder:
  "args_process [(''x'', JArr [JNum 1, JNum 2])] (JArr [JStr ''-v'', JArr [JStr ''-x'', JStr ''{x}'']]) = Inr []"
  "args_process [(''x'', JArr [JNum 1, JNum 2])] (JArr [JStr ''-x'', JStr ''{x}'']) = Inr [''-x'', ''1'', ''-x'', ''2'']"
  by code_simp+

end
