(* ===== verification/Spec2Isabelle.thy ===== *)
theory Spec2Isabelle
  imports Cache2_Get RateLimit AsyncLocks KvsDisk PersistenceTimeSeries Storage Data_Queries Records_Log Router_Props ValidationSchema_Props Validation_Props
    PersistenceMemory TaskManager_Props Services_Props VT100_Props Accounts_Props Accounts_Login LegacyCache_Props NodesPlugin_Props
    JobExecutor_Props
begin

text \<open>
  A model of the core of the JavaScript part of the repository (\<open>nodejs/core\<close>, \<open>nodejs/db\<close>, the records of
  \<open>apps/artifacts\<close>, the backend of \<open>apps/accounts\<close>): storage, caching, routing, validation, tasks, accounts; with the
  theorems that make it correct.

  \<^bold>\<open>The program.\<close> The applications keep their state in key value stores, in storages (trees of files), in
  time series and in the structure \<open>Data\<close> behind their nodes. Those that are durable rest on
  \<open>nodejs/core/persistence/disk.js\<close> (data in memory, a data file and a list of delta logs); what is expensive to
  get is kept in \<open>nodejs/core/cache2.js\<close>, on which the rate limiter, the key value store on disk and
  the tree of \<open>Data\<close> rest. \<open>mutex.js\<close> and \<open>lock.js\<close> serialize asynchronous operations. What comes from the outside
  goes through \<open>router.js\<close> and is checked by \<open>validation.js\<close> (forms) or \<open>validation_schema.js\<close> (structured values). The
  artifacts application logs what its nodes receive in \<open>records.js\<close>.

  \<^bold>\<open>Theories, one per component.\<close>
  \<^item> \<open>Bzd_Prelude\<close>: exceptions and results (\<open>exn\<close>, \<open>outcome\<close>), the JavaScript array and object operations on
    lists and association lists, and their lemmas. \<open>Json\<close>: JavaScript values.
  \<^item> \<open>TimeSeries\<close> (\<open>core/timeseries.js\<close>): a sorted list of timestamped values.
  \<^item> \<open>Cache2\<close>, \<open>Cache2_Get\<close> (\<open>core/cache2.js\<close>): the collections with their entries in eviction order, the
    synchronous operations, the garbage collector; then the asynchronous \<open>get\<close> as a step relation of
    any number of callers.
  \<^item> \<open>LegacyCache\<close>, \<open>LegacyCache_Props\<close> (\<open>core/cache.js\<close>): the older cache with triggers, whose calls and updates are tasks
    that interleave at every \<open>await\<close>.
  \<^item> \<open>RateLimit\<close> (\<open>core/rate_limit.js\<close>): the limiter, over the locale \<open>timed_store\<close>, interpreted on the cache.
  \<^item> \<open>AsyncLocks\<close> (\<open>core/mutex.js\<close>, \<open>core/lock.js\<close>): step relations with histories.
  \<^item> \<open>Paging\<close> (\<open>db/utils.js\<close>): pages and the iterator over all of them.
  \<^item> \<open>KeyValueStore\<close> (\<open>db/key_value_store/{memory,key_value_store}.js\<close>): the contract of a key value store as
    the locale \<open>kv_store\<close>, and the store in memory.
  \<^item> \<open>Persistence\<close> (\<open>core/persistence/disk.js\<close>): an instance (\<open>pers\<close>) on a disk (\<open>disk\<close>), with crashes.
  \<^item> \<open>KvsDisk\<close> (\<open>db/key_value_store/disk.js\<close>): the store on persistences, the second interpretation of
    \<open>kv_store\<close>, and the optimistic \<open>update\<close>.
  \<^item> \<open>PersistenceTimeSeries\<close> (\<open>core/persistence/timeseries.js\<close>): a series split over files with an index.
  \<^item> \<open>Storage\<close> (\<open>db/storage/{storage,memory,permissions}.js\<close>): a tree of files and its operations.
  \<^item> \<open>KeyMapping\<close>, \<open>Data\<close>, \<open>Data_Queries\<close> (\<open>db/data/{key_mapping,data}.js\<close>): keys and their internal form, the
    history of values per key, the tree of keys, and queries completed from an external source.
  \<^item> \<open>Records\<close>, \<open>Records_Log\<close> (\<open>apps/artifacts/plugins/nodes/records/{records,reader}.js\<close>): the log of records in files,
    its compression, its size limit, and its opening; then what a sequence of writes and rolls leaves.
  \<^item> \<open>Format\<close> (\<open>core/format.ts\<close>): texts with placeholders, and the dump of a value up to a size.
  \<^item> \<open>Handlers\<close>, \<open>Handlers_Props\<close> (\<open>db/data/handlers/*\<close>): what is done by configuration with the fragments of an insertion
    before they are stored: validation, texts, expiry, unit, length of the history.
  \<^item> \<open>Nodes\<close>, \<open>Nodes_Props\<close> (\<open>apps/artifacts/plugins/nodes/{nodes,storage}.js\<close>, \<open>apps/artifacts/common/utils.js\<close>): values
    cut into fragments, inserted through the handlers into \<open>Data\<close>, and their records in the denser form on disk.
  \<^item> \<open>NodesPlugin\<close>, \<open>NodesPlugin_Props\<close> (\<open>apps/artifacts/plugins/nodes/{backend.js,sources/*,databases/database.js}\<close>,
    \<open>db/data/backend/handler.js\<close>): the requests on nodes, the log of their records with its replay, sources that read
    the records of another host, and databases that get them.
  \<^item> \<open>Router\<close>, \<open>Router_Props\<close> (\<open>core/router.js\<close>): routes compiled to regular expressions, matched with
    backtracking, and the router that tries one joined expression; the locale \<open>variable_kind\<close> is what a kind of
    variable promises, interpreted on the three kinds of the code.
  \<^item> \<open>ValidationSchema\<close>, \<open>ValidationSchema_Props\<close> (\<open>core/validation_schema.js\<close>, \<open>deepMerge\<close> of \<open>utils/object.ts\<close>): the
    check of a value against a schema, the schema of schemas, and the typing relation \<open>has_type\<close>.
  \<^item> \<open>Template\<close> (\<open>core/template.js\<close>), \<open>Validation\<close>, \<open>Validation_Props\<close> (\<open>core/validation.js\<close>): placeholders, which
    the messages of the second use; constraints, their texts, and the report on a set of values.
  \<^item> \<open>PersistenceMemory\<close> (\<open>core/persistence/memory.js\<close>): the persistence without a disk.
  \<^item> \<open>TaskQueue\<close>, \<open>TaskManager\<close>, \<open>TaskManager_Props\<close> (\<open>core/task/{manager,task}.js\<close>): queues sorted by time with their
    contract as the locales \<open>timed_queue\<close> and \<open>searched_queue\<close>, the manager with its timer and its scheduler, and its
    runs as a step relation.
  \<^item> \<open>Services\<close>, \<open>Services_Props\<close> (\<open>core/services/{services,provider}.js\<close>): groups of processes with records of their
    runs; asynchronous calls as threads with stacks of frames, and runs of the program as lists of events.
  \<^item> \<open>JobExecutor\<close>, \<open>JobExecutor_Props\<close> (\<open>apps/job_executor/backend\<close>): jobs with their information on disk, the executors
    that run them, and the scheduler, as a step function on events.
  \<^item> \<open>VT100\<close>, \<open>VT100_Props\<close> (\<open>vue/components/terminal/frontend/vt100.vue\<close>): the terminal with its escape sequences,
    its rendering, and the unbounded grid that it implements.
  \<^item> \<open>Scopes\<close>, \<open>Users\<close>, \<open>Accounts\<close> (\<open>core/authentication/{scopes,server,session}.js\<close>, \<open>core/authentication/session/server.js\<close>,
    \<open>apps/accounts/backend/{app.js,users/*,applications/*}\<close>): scopes and roles; subscriptions, tokens, users and their
    bucket; sessions, logins, refresh tokens, the endpoints and the payments. \<open>Accounts_Scopes\<close>: the atomic steps of which
    requests consist, and the locale \<open>scope_policy\<close> for what sessions may do; \<open>Accounts_Users\<close>, \<open>Accounts_Login\<close>,
    \<open>Accounts_Props\<close>: what holds of records, logins (with the interpretation of the limiter), and runs.

  \<^bold>\<open>How code is modelled.\<close> An object is a record, an operation a function that returns the new state and
  its result; an exception is a value (\<open>Inl e\<close>), with the state as the code leaves it. Numbers that the code
  uses as integers are \<open>int\<close> or \<open>nat\<close> (timestamps in milliseconds stay far below 2 to the power 53). Objects used as
  dictionaries are association lists in insertion order. The clock, generated identifiers, the size
  function of cache entries, the bytes of a log line, the external source of \<open>Data\<close> and its callbacks are
  arguments. Code between two \<open>await\<close>s is one step; operations that hold a mutex for their whole
  duration are one function, those that do not (\<open>get\<close> of the cache, \<open>savepoint\<close>, \<open>writeCompare\<close>, \<open>update\<close>) are
  split where others can come in between.

  Every object inherits properties from \<open>Object.prototype\<close> (\<open>inherited_names\<close>), which the operator \<open>in\<close> and plain
  lookups find. They are modelled where values or keys come from outside: \<open>js_in\<close> and \<open>js_member\<close> in templates,
  validation and schemas, \<open>found_at\<close> in key value stores, \<open>put_entry\<close> in records of nodes, and in sessions and
  subscriptions; \<open>js_get\<close> is for the fields that the code names itself. What is found is a function or the prototype,
  which is an object without keys of its own in the model. Theorems that need it say that names are not inherited ones
  (\<open>plain_names\<close>, \<open>good_fragment\<close>). Exceptions are kinds without a text, but for those of the schemas, whose messages
  are formatted again and can fail there.

  \<^bold>\<open>What the theorems show.\<close> The persistence refines the sequence of its operations on plain data,
  across savepoints, restarts and crashes; the time series on files refines one series; both key
  value stores satisfy one contract; the update loop is serializable when no write comes between comparison and
  write and the modifier leaves the stored object as it is, and else a write is lost, or a change is seen unwritten
  and applied twice; the cache accounts for its sizes, collects down to its limit, and loses no
  wake-up; the limiter is a sliding window; the locks are exclusive, fair and free of deadlock;
  queries of \<open>Data\<close> on local values and an external source that lags behind them are queries of the whole history;
  walks along path lists and page iterations are complete and come to an end. The records keep a suffix of what was written, within
  their size limit as the code counts it; the joined expression of a router gives the first route that matches; a schema
  that the schema of schemas accepts is well formed, and the check then decides the typing relation; a
  template is processed part by part; the persistence in memory answers as the one on disk does. The task
  manager forgets no task, starts the first one that is due, and cannot unregister the one that runs.
  The record of a process is that of its completed runs, in any interleaving, and it runs once at a time.
  What is posted to nodes is restored by the replay of the log, and records survive their form on disk, for keys that
  the form can hold; databases get every record of the reader of one storage once; handlers reach all fragments below their path. One job of the queue runs at a time.
  The terminal shows what the commands of the stream give on an unbounded grid, in whatever pieces it arrives.
  No session ever has more scopes than the roles of its user had; attempts to log in are limited as counted on the log
  of failures; refresh tokens, reset tokens and, while the user is not deleted, payments count once; the session of
  a login lasts until its timeout unless it is logged out or dropped for want of room; a user changes only his own record.

  \<^bold>\<open>Loops.\<close> Structural recursion or a measure where the loop ends; \<open>partial_function (option)\<close> for the loops
  that may not (\<open>page_iterate\<close>, \<open>iterate_pages\<close>, \<open>pts_forEach_loop\<close>, \<open>accessor_getSize\<close>, \<open>fetch_loop\<close>, \<open>read_storage\<close>, \<open>write_remainings\<close>), with theorems that
  give the result (\<open>Some\<close>) where they end; \<open>st_walk\<close> has fuel, for which the height of the tree is enough.

  \<^bold>\<open>Not modelled\<close>: what is written through to \<open>Object.prototype\<close>, paths of storages that lead there, logging, statistics beyond the points reported, events, and the components listed as such
  in the manifest (HTTP servers, authentication by other parties, user interface, external databases, the other
  applications), which are input and output, calls of remote services, or the events of a browser.
\<close>

end
